(* ===== verification/Prelude.thy ===== *)
theory Prelude
  imports Main "HOL-Library.Word" "HOL-Library.Monad_Syntax" "HOL-Library.Multiset"
begin

text \<open>
  What the theories of this development share: names for the C integer types of the
  64-bit configuration, the error numbers of \<^verbatim>\<open>include/errno.h\<close>, checked array
  accesses, and lemmas on option-valued programs, lists and machine words.

  A C function that may stop the kernel (a failed \<^verbatim>\<open>assert\<close>, a call to
  \<^verbatim>\<open>panic\<close>, an access outside an object) is modelled by an option-valued
  function: \<open>None\<close> is that stop, and \<open>do\<close>-notation for option
  sequences the statements. A C function that returns an error number returns it as a
  value, so that \<open>EAGAIN\<close> and a crash are never confused.
\<close>

section \<open>Machine integers and error numbers\<close>

type_synonym u8 = "8 word"
type_synonym u16 = "16 word"
type_synonym u32 = "32 word"
type_synonym u64 = "64 word"

datatype errno =
  ENOMEM | EAGAIN | EINVAL | EBUSY | EFAULT | ENODEV
  | EEXIST | EIO | ESRCH | ETIMEDOUT | ENOENT

fun errno_code :: "errno \<Rightarrow> int" where
  "errno_code ENOMEM = 1"
| "errno_code EAGAIN = 2"
| "errno_code EINVAL = 3"
| "errno_code EBUSY = 4"
| "errno_code EFAULT = 5"
| "errno_code ENODEV = 6"
| "errno_code EEXIST = 7"
| "errno_code EIO = 8"
| "errno_code ESRCH = 9"
| "errno_code ETIMEDOUT = 10"
| "errno_code ENOENT = 11"

section \<open>Shared collections of facts\<close>

named_theorems arith_defs \<open>definitions of the arithmetic helper macros\<close>
named_theorems opt_simps \<open>inversion rules for option-valued programs\<close>
named_theorems word_ranges \<open>facts on address ranges of machine words\<close>

section \<open>Assertions and checked array accesses\<close>

definition assert_that :: "bool \<Rightarrow> unit option" where
  "assert_that b = (if b then Some () else None)"

lemma assert_that_True [simp]: "assert_that True = Some ()"
  by (simp add: assert_that_def)

lemma assert_that_False [simp]: "assert_that False = None"
  by (simp add: assert_that_def)

lemma assert_that_Some [simp, opt_simps]: "assert_that b = Some u \<longleftrightarrow> b"
  by (simp add: assert_that_def)

lemma assert_that_None [simp]: "assert_that b = None \<longleftrightarrow> \<not> b"
  by (simp add: assert_that_def)

definition nth_opt :: "'a list \<Rightarrow> nat \<Rightarrow> 'a option" where
  "nth_opt xs i = (if i < length xs then Some (xs ! i) else None)"

definition upd_opt :: "'a list \<Rightarrow> nat \<Rightarrow> 'a \<Rightarrow> 'a list option" where
  "upd_opt xs i v = (if i < length xs then Some (xs[i := v]) else None)"

lemma nth_opt_in [simp]: "i < length xs \<Longrightarrow> nth_opt xs i = Some (xs ! i)"
  by (simp add: nth_opt_def)

lemma nth_opt_out [simp]: "length xs \<le> i \<Longrightarrow> nth_opt xs i = None"
  by (simp add: nth_opt_def)

lemma nth_opt_Some [opt_simps]: "nth_opt xs i = Some v \<longleftrightarrow> i < length xs \<and> v = xs ! i"
  by (auto simp: nth_opt_def)

lemma upd_opt_in [simp]: "i < length xs \<Longrightarrow> upd_opt xs i v = Some (xs[i := v])"
  by (simp add: upd_opt_def)

lemma upd_opt_out [simp]: "length xs \<le> i \<Longrightarrow> upd_opt xs i v = None"
  by (simp add: upd_opt_def)

lemma upd_opt_Some [opt_simps]:
  "upd_opt xs i v = Some ys \<longleftrightarrow> i < length xs \<and> ys = xs[i := v]"
  by (auto simp: upd_opt_def)

lemmas bind_SomeD [opt_simps] = bind_eq_Some_conv

lemma upt_split: "i \<le> j \<Longrightarrow> j \<le> k \<Longrightarrow> [i..<k] = [i..<j] @ [j..<k]"
  using upt_add_eq_append [of i j "k - j"] by simp

lemma All_less_list: "(\<forall>i<n. P i) \<longleftrightarrow> list_all P [0..<n]"
  by (auto simp: list_all_iff)

section \<open>Machine words\<close>

lemma unat_add_lt [word_ranges]:
  "unat a + unat b < 2 ^ LENGTH('a) \<Longrightarrow> unat (a + b) = unat a + unat b"
  for a b :: "'a::len word"
  by (simp add: unat_word_ariths)

lemma unat_sub_le [word_ranges]: "b \<le> a \<Longrightarrow> unat (a - b) = unat a - unat b"
  for a b :: "'a::len word"
  by (rule unat_sub)

lemma unat_of_nat_lt [word_ranges]:
  "n < 2 ^ LENGTH('a) \<Longrightarrow> unat (of_nat n :: 'a::len word) = n"
  by (simp add: unat_of_nat take_bit_nat_eq_self)

lemma word_less_unat [word_ranges]: "a < b \<longleftrightarrow> unat a < unat b" for a b :: "'a::len word"
  by (rule word_less_nat_alt)

lemma word_le_unat [word_ranges]: "a \<le> b \<longleftrightarrow> unat a \<le> unat b" for a b :: "'a::len word"
  by (rule word_le_nat_alt)

lemma word_eq_unat: "a = b \<longleftrightarrow> unat a = unat b" for a b :: "'a::len word"
  by (simp add: word_unat_eq_iff)

lemma unat_lt_64 [word_ranges]: "unat a < 18446744073709551616" for a :: u64
  using unsigned_less [of a, where 'a = nat] by simp

lemma unat_sub_wrap:
  fixes a b :: "'a::len word"
  assumes "a < b"
  shows "unat (a - b) + unat b = 2 ^ LENGTH('a) + unat a"
proof -
  have "uint (a - b) = uint a - uint b + 2 ^ LENGTH('a)"
    using assms by (simp add: uint_sub_if' word_less_def)
  then have "int (unat (a - b) + unat b) = int (2 ^ LENGTH('a) + unat a)"
    by simp
  then show ?thesis by (simp only: of_nat_eq_iff)
qed

lemma unat_pow2 [word_ranges]: "k < LENGTH('a) \<Longrightarrow> unat (2 ^ k :: 'a::len word) = 2 ^ k"
  using unat_of_nat_lt [of "2 ^ k", where 'a = 'a] by simp

lemma word_add_of_nat_neq:
  fixes a :: "'a::len word"
  assumes "i < 2 ^ LENGTH('a)" "j < 2 ^ LENGTH('a)" "i \<noteq> j"
  shows "a + of_nat i \<noteq> a + of_nat j"
proof -
  have "unat (of_nat i :: 'a word) \<noteq> unat (of_nat j :: 'a word)"
    using assms by (simp add: unat_of_nat_lt)
  then show ?thesis by auto
qed

section \<open>Running a component against its specification\<close>

fun run_calls :: "('op \<Rightarrow> 's \<Rightarrow> ('r \<times> 's) option) \<Rightarrow> 'op list \<Rightarrow> 's \<Rightarrow> ('r list \<times> 's) option" where
  "run_calls exec [] s = Some ([], s)"
| "run_calls exec (op # ops) s = do {
     (r, s) \<leftarrow> exec op s;
     (rs, s) \<leftarrow> run_calls exec ops s;
     Some (r # rs, s) }"

fun run_spec :: "('op \<Rightarrow> 'a \<Rightarrow> 'r \<times> 'a) \<Rightarrow> 'op list \<Rightarrow> 'a \<Rightarrow> 'r list \<times> 'a" where
  "run_spec spec [] a = ([], a)"
| "run_spec spec (op # ops) a =
     (let (r, a) = spec op a; (rs, a) = run_spec spec ops a in (r # rs, a))"

text \<open>Calls each of which is permitted in the state the calls before it leave.\<close>

fun run_permitted :: "('op \<Rightarrow> 's \<Rightarrow> ('r \<times> 's) option) \<Rightarrow> ('op \<Rightarrow> 's \<Rightarrow> bool) \<Rightarrow> 'op list \<Rightarrow> 's \<Rightarrow> bool" where
  "run_permitted exec permitted [] s \<longleftrightarrow> True"
| "run_permitted exec permitted (op # ops) s \<longleftrightarrow> permitted op s
     \<and> (case exec op s of None \<Rightarrow> True | Some (r, s') \<Rightarrow> run_permitted exec permitted ops s')"

lemma run_permitted_all: "(\<And>op s. op \<in> set ops \<Longrightarrow> permitted op s) \<Longrightarrow> run_permitted exec permitted ops s"
  by (induction ops arbitrary: s) (auto split: option.splits)

text \<open>
  The contract of a component: from every state that satisfies the invariant, every call permitted
  there returns, with the result the specification gives on the abstract state, and leaves the
  invariant and the abstract state of the specification.
\<close>

locale refinement =
  fixes exec :: "'op \<Rightarrow> 's \<Rightarrow> ('r \<times> 's) option"
    and spec :: "'op \<Rightarrow> 'a \<Rightarrow> 'r \<times> 'a"
    and inv :: "'s \<Rightarrow> bool"
    and abs :: "'s \<Rightarrow> 'a"
    and permitted :: "'op \<Rightarrow> 's \<Rightarrow> bool"
  assumes simulates: "inv s \<Longrightarrow> permitted op s \<Longrightarrow>
    \<exists>r s'. exec op s = Some (r, s') \<and> inv s' \<and> spec op (abs s) = (r, abs s')"
begin

lemma run_simulates:
  assumes "inv s" "run_permitted exec permitted ops s"
  shows "\<exists>rs s'. run_calls exec ops s = Some (rs, s') \<and> inv s'
    \<and> run_spec spec ops (abs s) = (rs, abs s')"
  using assms
proof (induction ops arbitrary: s)
  case (Cons op ops)
  from simulates [OF Cons.prems(1), of op] Cons.prems(2) obtain r s' where
    1: "exec op s = Some (r, s')" "inv s'" "spec op (abs s) = (r, abs s')" by auto
  from Cons.IH [OF 1(2)] Cons.prems(2) 1(1) obtain rs s'' where
    "run_calls exec ops s' = Some (rs, s'')" "inv s''" "run_spec spec ops (abs s') = (rs, abs s'')"
    by auto
  with 1 show ?case by simp
qed simp

end

end
