(* ===== verification/Arith.thy ===== *)
theory Arith
  imports Prelude
begin

text \<open>
  The arithmetic helpers of \<^verbatim>\<open>kern/macros.h\<close>, \<^verbatim>\<open>kern/log2.h\<close>
  and \<^verbatim>\<open>kern/hash.h\<close> on 64-bit words, and what they compute: rounding to
  a power of two, base 2 logarithms, and hashes that fit in the requested number of bits.
\<close>

unbundle bit_operations_syntax

section \<open>Macros\<close>

definition DIV_CEIL :: "nat \<Rightarrow> nat \<Rightarrow> nat" where
  "DIV_CEIL n d = (n + d - 1) div d"

definition P2ALIGNED :: "u64 \<Rightarrow> u64 \<Rightarrow> bool" where
  "P2ALIGNED x a \<longleftrightarrow> x AND (a - 1) = 0"

definition ISP2 :: "u64 \<Rightarrow> bool" where
  "ISP2 x \<longleftrightarrow> P2ALIGNED x x"

definition P2ALIGN :: "u64 \<Rightarrow> u64 \<Rightarrow> u64" where
  "P2ALIGN x a = x AND - a"

definition P2ROUND :: "u64 \<Rightarrow> u64 \<Rightarrow> u64" where
  "P2ROUND x a = - (- x AND - a)"

definition P2END :: "u64 \<Rightarrow> u64 \<Rightarrow> u64" where
  "P2END x a = - (NOT x AND - a)"

section \<open>Logarithms\<close>

text \<open>
  \<^verbatim>\<open>__builtin_clzl\<close> counts the zero bits above the highest set bit.
\<close>

fun clz_below :: "nat \<Rightarrow> u64 \<Rightarrow> nat" where
  "clz_below 0 x = 0"
| "clz_below (Suc n) x = (if bit x n then 0 else Suc (clz_below n x))"

definition clzl :: "u64 \<Rightarrow> nat" where
  "clzl x = clz_below 64 x"

definition log2 :: "u64 \<Rightarrow> nat option" where
  "log2 x = do { assert_that (x \<noteq> 0); Some (64 - clzl x - 1) }"

definition log2_order :: "u64 \<Rightarrow> nat option" where
  "log2_order sz = do {
     assert_that (sz \<noteq> 0);
     if sz = 1 then Some 0
     else do { l \<leftarrow> log2 (sz - 1); Some (l + 1) } }"

section \<open>Hashing\<close>

definition hash_bits_valid :: "nat \<Rightarrow> bool" where
  "hash_bits_valid bits \<longleftrightarrow> bits \<noteq> 0 \<and> bits \<le> 64"

text \<open>Shifting a 32-bit value by a negative count is undefined, so \<^verbatim>\<open>hash_int32\<close>
  stops beyond 32 bits although its assertion lets 64 through on a 64-bit machine.\<close>

definition hash_int32 :: "u32 \<Rightarrow> nat \<Rightarrow> u32 option" where
  "hash_int32 n bits = do {
     assert_that (hash_bits_valid bits);
     let hash = n;
     let hash = NOT hash + push_bit 15 hash;
     let hash = hash XOR drop_bit 12 hash;
     let hash = hash + push_bit 2 hash;
     let hash = hash XOR drop_bit 4 hash;
     let hash = hash + (push_bit 3 hash + push_bit 11 hash);
     let hash = hash XOR drop_bit 16 hash;
     assert_that (bits \<le> 32);
     Some (drop_bit (32 - bits) hash) }"

definition hash_int64 :: "u64 \<Rightarrow> nat \<Rightarrow> u64 option" where
  "hash_int64 n bits = do {
     assert_that (hash_bits_valid bits);
     let hash = n;
     let hash = NOT hash + push_bit 21 hash;
     let hash = hash XOR drop_bit 24 hash;
     let hash = hash + (push_bit 3 hash + push_bit 8 hash);
     let hash = hash XOR drop_bit 14 hash;
     let hash = hash + (push_bit 2 hash + push_bit 4 hash);
     let hash = hash XOR drop_bit 28 hash;
     let hash = hash + push_bit 31 hash;
     Some (drop_bit (64 - bits) hash) }"

definition hash_ptr :: "u64 \<Rightarrow> nat \<Rightarrow> u64 option" where
  "hash_ptr ptr bits = hash_int64 ptr bits"

text \<open>
  The characters of the string up to its null byte; \<^verbatim>\<open>char\<close> is signed, so a
  byte above 127 is added sign-extended.
\<close>

fun hash_str_loop :: "u64 \<Rightarrow> u8 list \<Rightarrow> u64" where
  "hash_str_loop hash [] = hash"
| "hash_str_loop hash (c # str) =
     (if c = 0 then hash else hash_str_loop ((push_bit 5 hash - hash) + scast c) str)"

definition hash_str :: "u8 list \<Rightarrow> nat \<Rightarrow> u64 option" where
  "hash_str str bits = do {
     assert_that (hash_bits_valid bits);
     Some (hash_str_loop 0 str AND drop_bit (64 - bits) (NOT 0)) }"

section \<open>Powers of two\<close>

lemma pow2_minus_1: "k < 64 \<Longrightarrow> (2 ^ k - 1 :: u64) = mask k"
  by (simp add: mask_eq_exp_minus_1)

lemma and_pred_zero: "0 < u \<Longrightarrow> u AND (u - 1) = 0 \<Longrightarrow> \<exists>k. u = 2 ^ k" for u :: nat
proof (induction u rule: less_induct)
  case (less u)
  show ?case
  proof (cases "even u")
    case True
    then obtain v where v: "u = 2 * v" by blast
    with less.prems(1) have "0 < v" by simp
    then have "(u - 1) div 2 = v - 1" by (simp add: v)
    then have "v AND (v - 1) = 0" using less.prems(2) True by (subst (asm) and_rec) (simp add: v)
    from less.IH [OF _ \<open>0 < v\<close> this] \<open>0 < v\<close> obtain k where "v = 2 ^ k" by (auto simp: v)
    then have "u = 2 ^ Suc k" by (simp add: v)
    then show ?thesis by blast
  next
    case False
    then obtain v where v: "u = 2 * v + 1" by (elim oddE)
    have "v = 0" using less.prems(2) by (subst (asm) and_rec) (simp add: v)
    then show ?thesis by (intro exI [of _ 0]) (simp add: v)
  qed
qed

lemma ISP2_iff: "x \<noteq> 0 \<Longrightarrow> ISP2 x \<longleftrightarrow> (\<exists>k<64. x = 2 ^ k)"
proof
  assume "x \<noteq> 0" "ISP2 x"
  then have "unat (x AND (x - 1)) = 0" by (simp add: ISP2_def P2ALIGNED_def)
  then have "unat x AND (unat x - 1) = 0"
    using unat_minus_one [OF \<open>x \<noteq> 0\<close>] by (simp only: unsigned_and_eq)
  moreover have "0 < unat x" using \<open>x \<noteq> 0\<close> by (simp add: unat_gt_0)
  ultimately have "unat x AND (unat x - 1) = 0" "0 < unat x" by auto
  from and_pred_zero [OF this(2,1)] obtain k where k: "unat x = 2 ^ k" by blast
  then have "(2 :: nat) ^ k < 2 ^ 64" using unat_lt_64 [of x] by simp
  then have "k < 64" by (rule power_less_imp_less_exp [rotated]) simp
  moreover from this k have "x = 2 ^ k" by (simp add: word_eq_unat unat_pow2)
  ultimately show "\<exists>k<64. x = 2 ^ k" by blast
next
  assume "\<exists>k<64. x = 2 ^ k"
  then show "ISP2 x" by (auto simp: ISP2_def P2ALIGNED_def pow2_minus_1 bit_simps intro!: bit_word_eqI)
qed
section \<open>Rounding\<close>

lemma uminus_pow2: "- (2 ^ k :: u64) = NOT (mask k)"
  by (simp add: mask_eq_exp_minus_1 minus_eq_not_minus_1)

lemma unat_and_mask: "unat (x AND mask k) = unat x mod 2 ^ k" for x :: u64
  unfolding take_bit_eq_mask [symmetric] unsigned_take_bit_eq by (rule take_bit_eq_mod)

lemma and_not_mask_eq: "x AND NOT (mask k) = x - (x AND mask k)" for x :: u64
proof -
  have "x = (x AND mask k) OR (x AND NOT (mask k))"
    by (rule bit_word_eqI) (auto simp: bit_simps)
  also have "\<dots> = (x AND mask k) + (x AND NOT (mask k))"
    by (rule disjunctive_add_eq_or [symmetric], rule bit_word_eqI) (auto simp: bit_simps)
  finally show ?thesis by (simp add: algebra_simps)
qed

lemma unat_P2ALIGN:
  assumes "k < 64"
  shows "unat (P2ALIGN x (2 ^ k)) = unat x - unat x mod 2 ^ k"
proof -
  have "x AND mask k \<le> x" by (simp add: word_le_unat unat_and_mask)
  then show ?thesis
    by (simp add: P2ALIGN_def uminus_pow2 and_not_mask_eq unat_sub_le unat_and_mask)
qed

lemma P2ALIGNED_iff: "k < 64 \<Longrightarrow> P2ALIGNED x (2 ^ k) \<longleftrightarrow> 2 ^ k dvd unat x"
  by (simp add: P2ALIGNED_def pow2_minus_1 word_eq_unat [of _ 0] unat_and_mask dvd_eq_mod_eq_0)

lemma P2ROUND_eq: "P2ROUND x a = - P2ALIGN (- x) a"
  by (simp add: P2ROUND_def P2ALIGN_def)

lemma unat_uminus: "x \<noteq> 0 \<Longrightarrow> unat (- x) = 2 ^ 64 - unat x" for x :: u64
proof -
  assume "x \<noteq> 0"
  then have "0 < x" by (simp add: word_neq_0_conv)
  from unat_sub_wrap [OF this] have "unat (- x) + unat x = 2 ^ 64" by simp
  then show ?thesis by simp
qed

lemma round_up_nat:
  fixes p q u :: nat
  assumes "u \<le> p * q" "0 < p"
  shows "(u + p - 1) div p * p = u + (p * q - u) mod p"
proof -
  obtain a r where u: "u = p * a + r" "r < p"
    using assms(2) by (metis mod_less_divisor mult_div_mod_eq)
  have "a \<le> q" using assms u by (metis add_leD1 mult_le_cancel1 not_gr_zero)
  then obtain b where q: "q = a + b" by (auto simp: le_iff_add)
  show ?thesis
  proof (cases "r = 0")
    case True
    have "(p * a + (p - 1)) div p = a"
      using assms(2) by (subst div_mult_self4) (auto simp: div_eq_0_iff)
    moreover have "p * a + p - 1 = p * a + (p - 1)" using assms(2) by simp
    ultimately show ?thesis using True u q assms(2) by (simp add: algebra_simps)
  next
    case False
    then have "b \<noteq> 0" using assms u q by (cases b) (auto simp: algebra_simps)
    then obtain c where b: "b = Suc c" by (cases b) auto
    have "p * q - u = p * c + (p - r)" using u q b by (simp add: algebra_simps)
    then have "(p * q - u) mod p = p - r" using u(2) False by (simp only: mod_mult_self4) simp
    moreover have "u + p - 1 = p * Suc a + (r - 1)" using u False by (simp add: algebra_simps)
    moreover have "(p * Suc a + (r - 1)) div p = Suc a"
      using u(2) assms(2) by (simp only: div_mult_self4) simp
    ultimately show ?thesis using u False by (simp add: algebra_simps)
  qed
qed

lemma unat_P2ROUND:
  assumes "k < 64" "unat x \<le> 2 ^ 64 - 2 ^ k"
  shows "unat (P2ROUND x (2 ^ k)) = (unat x + 2 ^ k - 1) div 2 ^ k * 2 ^ k"
proof (cases "x = 0")
  case False
  let ?y = "P2ALIGN (- x) (2 ^ k)" and ?p = "2 ^ k :: nat"
  have N: "(2 :: nat) ^ 64 = ?p * 2 ^ (64 - k)" using assms(1) by (simp flip: power_add)
  have p64: "?p \<le> 2 ^ 64" using assms(1) by (intro power_increasing) auto
  have y: "unat ?y = (2 ^ 64 - unat x) - (2 ^ 64 - unat x) mod ?p"
    using False by (simp only: unat_P2ALIGN [OF assms(1)] unat_uminus [OF False])
  have "(2 ^ 64 - unat x) mod ?p < ?p" by (rule mod_less_divisor) simp
  then have "unat ?y \<noteq> 0" using y assms(2) p64 unat_lt_64 [of x] by linarith
  then have "?y \<noteq> 0" by (metis unat_0)
  then have "unat (P2ROUND x (2 ^ k)) = 2 ^ 64 - unat ?y"
    unfolding P2ROUND_eq by (rule unat_uminus)
  also have "\<dots> = unat x + (2 ^ 64 - unat x) mod ?p"
  proof -
    have "A - (A - u - r) = u + r" if "r \<le> A - u" "u \<le> A" for A u r :: nat
      using that by linarith
    from this [OF mod_less_eq_dividend] show ?thesis using y unat_lt_64 [of x] by simp
  qed
  also have "\<dots> = (unat x + ?p - 1) div ?p * ?p"
    using round_up_nat [of "unat x" ?p "2 ^ (64 - k)"] unat_lt_64 [of x] N by simp
  finally show ?thesis .
qed (simp add: P2ROUND_def)

lemma clz_below_bounds:
  "unat x < 2 ^ n \<Longrightarrow> x \<noteq> 0 \<Longrightarrow>
    clz_below n x < n \<and> 2 ^ (n - clz_below n x - 1) \<le> unat x \<and> unat x < 2 ^ (n - clz_below n x)"
proof (induction n)
  case (Suc n)
  have b: "bit x n \<longleftrightarrow> 2 ^ n \<le> unat x"
  proof -
    have "unat x div 2 ^ n < 2" using Suc.prems(1) by (simp add: less_mult_imp_div_less)
    moreover have "bit x n \<longleftrightarrow> odd (unat x div 2 ^ n)"
      by (simp add: bit_unsigned_iff flip: bit_iff_odd)
    moreover have "unat x div 2 ^ n = 0 \<longleftrightarrow> unat x < 2 ^ n"
      by (simp add: div_eq_0_iff)
    ultimately show ?thesis by (auto simp: less_2_cases_iff)
  qed
  show ?case
  proof (cases "bit x n")
    case True
    then show ?thesis using Suc.prems b by simp
  next
    case False
    then have "unat x < 2 ^ n" using b by simp
    then show ?thesis using Suc.IH Suc.prems(2) False by auto
  qed
qed (simp add: word_eq_unat)

lemma log2_bounds:
  assumes "x \<noteq> 0"
  shows "\<exists>l. log2 x = Some l \<and> 2 ^ l \<le> unat x \<and> unat x < 2 ^ Suc l \<and> l < 64"
proof -
  have "unat x < 2 ^ 64" using unat_lt_64 [of x] by simp
  from clz_below_bounds [OF this assms] have
    "clzl x < 64" "2 ^ (64 - clzl x - 1) \<le> unat x" "unat x < 2 ^ (64 - clzl x)"
    by (simp_all add: clzl_def)
  moreover from this obtain l where l: "64 - clzl x = Suc l" by (cases "64 - clzl x") auto
  ultimately show ?thesis using assms by (simp add: log2_def del: power_Suc)
qed

section \<open>Properties\<close>

text \<open>
  The macros round to powers of two. For a power of two, \<^verbatim>\<open>P2ALIGN\<close> is the
  greatest multiple that is not above the argument and \<^verbatim>\<open>P2ROUND\<close> the least one
  that is not below it, whenever that one is representable; \<^verbatim>\<open>P2ALIGNED\<close> decides
  divisibility.
\<close>

theorem p2_rounding:
  assumes "k < 64" "unat x \<le> 2 ^ 64 - 2 ^ k"
  shows "unat (P2ALIGN x (2 ^ k)) = unat x div 2 ^ k * 2 ^ k
    \<and> unat (P2ROUND x (2 ^ k)) = DIV_CEIL (unat x) (2 ^ k) * 2 ^ k
    \<and> (P2ALIGNED x (2 ^ k) \<longleftrightarrow> 2 ^ k dvd unat x)"
  using unat_P2ALIGN [OF assms(1), of x] unat_P2ROUND [OF assms] P2ALIGNED_iff [OF assms(1)]
  by (simp add: DIV_CEIL_def minus_mod_eq_div_mult)

theorem p2_rounding_witness:
  "unat (P2ALIGN 5000 (2 ^ 12)) = unat (5000 :: u64) div 2 ^ 12 * 2 ^ 12
    \<and> unat (P2ROUND 5000 (2 ^ 12)) = DIV_CEIL (unat (5000 :: u64)) (2 ^ 12) * 2 ^ 12
    \<and> (P2ALIGNED 5000 (2 ^ 12) \<longleftrightarrow> 2 ^ 12 dvd unat (5000 :: u64))"
  by (rule p2_rounding) simp_all

text \<open>
  C37: \<^verbatim>\<open>log2\<close> is the floor and \<^verbatim>\<open>log2_order\<close> the ceiling of the
  binary logarithm, for every nonzero argument.
\<close>

theorem log2_order_least:
  assumes "x \<noteq> 0"
  shows "\<exists>l. log2 x = Some l \<and> 2 ^ l \<le> unat x \<and> unat x < 2 ^ Suc l
    \<and> (\<exists>k. log2_order x = Some k \<and> unat x \<le> 2 ^ k \<and> (\<forall>j. unat x \<le> 2 ^ j \<longrightarrow> k \<le> j))"
proof -
  have "\<exists>k. log2_order x = Some k \<and> unat x \<le> 2 ^ k \<and> (\<forall>j. unat x \<le> 2 ^ j \<longrightarrow> k \<le> j)"
  proof (cases "x = 1")
    case False
    then have "x - 1 \<noteq> 0" by simp
    from log2_bounds [OF this] obtain l where
      l: "log2 (x - 1) = Some l" "2 ^ l \<le> unat (x - 1)" "unat (x - 1) < 2 ^ Suc l" by blast
    then have b: "2 ^ l < unat x" "unat x \<le> 2 ^ Suc l"
      using assms by (simp_all add: unat_minus_one unat_eq_zero)
    have "Suc l \<le> j" if "unat x \<le> 2 ^ j" for j
    proof -
      have "(2 :: nat) ^ l < 2 ^ j" using b(1) that by (rule less_le_trans)
      then show ?thesis by simp
    qed
    then show ?thesis using assms False l(1) b(2) by (simp add: log2_order_def)
  qed (auto simp: log2_order_def)
  then show ?thesis using log2_bounds [OF assms] by blast
qed

theorem log2_order_least_witness:
  "\<exists>l. log2 9 = Some l \<and> 2 ^ l \<le> unat (9 :: u64) \<and> unat (9 :: u64) < 2 ^ Suc l
    \<and> (\<exists>k. log2_order 9 = Some k \<and> unat (9 :: u64) \<le> 2 ^ k
        \<and> (\<forall>j. unat (9 :: u64) \<le> 2 ^ j \<longrightarrow> k \<le> j))"
  by (rule log2_order_least) simp

lemma drop_bit_top_lt: "k \<le> 64 \<Longrightarrow> unat (drop_bit (64 - k) x) < 2 ^ k" for x :: u64
proof -
  assume k: "k \<le> 64"
  have "unat x < 2 ^ (64 - k) * 2 ^ k" using k unat_lt_64 [of x] by (simp flip: power_add)
  then have "unat x div 2 ^ (64 - k) < 2 ^ k" by (simp add: less_mult_imp_div_less mult.commute)
  then show ?thesis by (simp only: unat_drop_bit_eq drop_bit_eq_div [where 'a = nat])
qed

lemma drop_bit_mask_lt: "k \<le> 64 \<Longrightarrow> unat (x AND drop_bit (64 - k) y) < 2 ^ k" for x y :: u64
  by (rule le_less_trans [OF _ drop_bit_top_lt [of k y]])
    (simp_all add: word_and_le1 flip: word_le_unat)

lemma drop_bit_top_lt32: "k \<le> 32 \<Longrightarrow> unat (drop_bit (32 - k) x) < 2 ^ k" for x :: u32
proof -
  assume k: "k \<le> 32"
  have "unat x < 2 ^ 32" using unsigned_less [of x] by simp
  then have "unat x < 2 ^ (32 - k) * 2 ^ k" using k by (simp flip: power_add)
  then have "unat x div 2 ^ (32 - k) < 2 ^ k" by (simp add: less_mult_imp_div_less mult.commute)
  then show ?thesis by (simp only: unat_drop_bit_eq drop_bit_eq_div [where 'a = nat])
qed

lemma hash_int32_cases:
  obtains h where "hash_int32 n bits = (if 1 \<le> bits \<and> bits \<le> 32 then Some (drop_bit (32 - bits) h) else None)"
proof
  define mix :: "u32 \<Rightarrow> u32" where "mix n = (
     let hash = NOT n + push_bit 15 n;
         hash = hash XOR drop_bit 12 hash;
         hash = hash + push_bit 2 hash;
         hash = hash XOR drop_bit 4 hash;
         hash = hash + (push_bit 3 hash + push_bit 11 hash)
     in hash XOR drop_bit 16 hash)" for n
  show "hash_int32 n bits = (if 1 \<le> bits \<and> bits \<le> 32 then Some (drop_bit (32 - bits) (mix n)) else None)"
    by (auto simp only: hash_int32_def mix_def Let_def assert_that_def hash_bits_valid_def split: if_splits) simp_all
qed

text \<open>
  C39: a hash fits in the requested number of bits, so it indexes a table of \<open>2 ^ bits\<close> buckets. The
  functions on 64-bit values, pointers and strings return one for the 1 to 64 bits that \<^verbatim>\<open>hash_bits_valid\<close>
  accepts, and fail their assertion otherwise. \<^verbatim>\<open>hash_int32\<close> returns one for 1 to 32 bits only: its assertion
  lets 33 to 64 bits through, and the shift by a negative count that follows is undefined.
\<close>

theorem hash_in_range:
  "(hash_bits_valid bits \<longleftrightarrow> 1 \<le> bits \<and> bits \<le> 64)
   \<and> (case hash_int32 n32 bits of
     Some h \<Rightarrow> 1 \<le> bits \<and> bits \<le> 32 \<and> unat h < 2 ^ bits
   | None \<Rightarrow> bits = 0 \<or> 32 < bits)
   \<and> (case (hash_int64 n bits, hash_ptr n bits, hash_str str bits) of
     (Some h, Some h', Some h'') \<Rightarrow> 1 \<le> bits \<and> bits \<le> 64
       \<and> unat h < 2 ^ bits \<and> unat h' < 2 ^ bits \<and> unat h'' < 2 ^ bits
   | (None, None, None) \<Rightarrow> bits = 0 \<or> 64 < bits
   | _ \<Rightarrow> False)"
proof (intro conjI)
  show "hash_bits_valid bits \<longleftrightarrow> 1 \<le> bits \<and> bits \<le> 64" by (auto simp: hash_bits_valid_def)
  obtain h where h: "hash_int32 n32 bits = (if 1 \<le> bits \<and> bits \<le> 32 then Some (drop_bit (32 - bits) h) else None)"
    by (rule hash_int32_cases)
  then show "case hash_int32 n32 bits of
     Some h \<Rightarrow> 1 \<le> bits \<and> bits \<le> 32 \<and> unat h < 2 ^ bits
   | None \<Rightarrow> bits = 0 \<or> 32 < bits"
    using drop_bit_top_lt32 [of bits h] by (auto simp: hash_bits_valid_def simp del: unat_drop_bit_eq)
  show "case (hash_int64 n bits, hash_ptr n bits, hash_str str bits) of
     (Some h, Some h', Some h'') \<Rightarrow> 1 \<le> bits \<and> bits \<le> 64
       \<and> unat h < 2 ^ bits \<and> unat h' < 2 ^ bits \<and> unat h'' < 2 ^ bits
   | (None, None, None) \<Rightarrow> bits = 0 \<or> 64 < bits
   | _ \<Rightarrow> False"
  proof (cases "hash_bits_valid bits")
    case True
    then have "1 \<le> bits" "bits \<le> 64" by (simp_all add: hash_bits_valid_def)
    with True show ?thesis
      by (simp add: hash_int64_def hash_ptr_def hash_str_def Let_def
          drop_bit_top_lt drop_bit_mask_lt del: unat_drop_bit_eq bit.compl_zero)
  qed (auto simp: hash_int64_def hash_ptr_def hash_str_def hash_bits_valid_def)
qed

end
