(* ===== verification/Cstring.thy ===== *)
theory Cstring
  imports Prelude
begin

text \<open>
  \<^verbatim>\<open>kern/string.c\<close>: the portable memory and string routines, over a flat
  byte memory. An address is a 64-bit word, so pointer arithmetic wraps as it does on the
  machine; an unmapped address holds \<open>None\<close> and accessing it stops the program.
  The counted loops are recursive functions on the count; the loops that end at a null byte
  are \<^theory_text>\<open>partial_function\<close>s, and the lemmas on them state that they
  return. \<open>write_bytes\<close> and \<open>cstr\<close> are the specification side:
  what a block copy leaves in memory, and what it means for a null-terminated string to
  be stored at an address.
\<close>

section \<open>Memory\<close>

type_synonym mem = "u64 \<Rightarrow> u8 option"

definition load :: "mem \<Rightarrow> u64 \<Rightarrow> u8 option" where
  "load m a = m a"

definition store :: "mem \<Rightarrow> u64 \<Rightarrow> u8 \<Rightarrow> mem option" where
  "store m a c = (case m a of None \<Rightarrow> None | Some _ \<Rightarrow> Some (m(a \<mapsto> c)))"

lemma store_Some [simp]: "m a = Some b \<Longrightarrow> store m a c = Some (m(a \<mapsto> c))"
  by (simp add: store_def)

lemma store_eq_Some [opt_simps]: "store m a c = Some m' \<longleftrightarrow> m a \<noteq> None \<and> m' = m(a \<mapsto> c)"
  by (auto simp: store_def split: option.splits)

section \<open>The routines\<close>

fun copy_fwd :: "nat \<Rightarrow> u64 \<Rightarrow> u64 \<Rightarrow> mem \<Rightarrow> mem option" where
  "copy_fwd 0 dest_ptr src_ptr m = Some m"
| "copy_fwd (Suc n) dest_ptr src_ptr m = do {
     c \<leftarrow> load m src_ptr;
     m' \<leftarrow> store m dest_ptr c;
     copy_fwd n (dest_ptr + 1) (src_ptr + 1) m' }"

fun copy_bwd :: "nat \<Rightarrow> u64 \<Rightarrow> u64 \<Rightarrow> mem \<Rightarrow> mem option" where
  "copy_bwd 0 dest_ptr src_ptr m = Some m"
| "copy_bwd (Suc n) dest_ptr src_ptr m = do {
     c \<leftarrow> load m src_ptr;
     m' \<leftarrow> store m dest_ptr c;
     copy_bwd n (dest_ptr - 1) (src_ptr - 1) m' }"

definition memcpy :: "u64 \<Rightarrow> u64 \<Rightarrow> u64 \<Rightarrow> mem \<Rightarrow> (u64 \<times> mem) option" where
  "memcpy dest src n m = do {
     m' \<leftarrow> copy_fwd (unat n) dest src m;
     Some (dest, m') }"

definition memmove :: "u64 \<Rightarrow> u64 \<Rightarrow> u64 \<Rightarrow> mem \<Rightarrow> (u64 \<times> mem) option" where
  "memmove dest src n m =
     (if dest \<le> src then do {
        m' \<leftarrow> copy_fwd (unat n) dest src m;
        Some (dest, m') }
      else do {
        m' \<leftarrow> copy_bwd (unat n) (dest + n - 1) (src + n - 1) m;
        Some (dest, m') })"

fun fill_fwd :: "nat \<Rightarrow> u64 \<Rightarrow> u8 \<Rightarrow> mem \<Rightarrow> mem option" where
  "fill_fwd 0 a c m = Some m"
| "fill_fwd (Suc n) a c m = do { m' \<leftarrow> store m a c; fill_fwd n (a + 1) c m' }"

definition memset :: "u64 \<Rightarrow> u32 \<Rightarrow> u64 \<Rightarrow> mem \<Rightarrow> (u64 \<times> mem) option" where
  "memset s c n m = do {
     m' \<leftarrow> fill_fwd (unat n) s (ucast c) m;
     Some (s, m') }"

fun memcmp_loop :: "nat \<Rightarrow> u64 \<Rightarrow> u64 \<Rightarrow> mem \<Rightarrow> int option" where
  "memcmp_loop 0 a1 a2 m = Some 0"
| "memcmp_loop (Suc n) a1 a2 m = do {
     x \<leftarrow> load m a1;
     y \<leftarrow> load m a2;
     if x \<noteq> y then Some (uint x - uint y) else memcmp_loop n (a1 + 1) (a2 + 1) m }"

definition memcmp :: "u64 \<Rightarrow> u64 \<Rightarrow> u64 \<Rightarrow> mem \<Rightarrow> int option" where
  "memcmp s1 s2 n m = memcmp_loop (unat n) s1 s2 m"

partial_function (option) strlen_loop :: "mem \<Rightarrow> u64 \<Rightarrow> u64 \<Rightarrow> u64 option" where
  "strlen_loop m start s = do {
     c \<leftarrow> load m s;
     if c \<noteq> 0 then strlen_loop m start (s + 1) else Some (s - start) }"

definition strlen :: "u64 \<Rightarrow> mem \<Rightarrow> u64 option" where
  "strlen s m = strlen_loop m s s"

partial_function (option) strcpy_loop :: "u64 \<Rightarrow> u64 \<Rightarrow> mem \<Rightarrow> mem option" where
  "strcpy_loop dest src m = do {
     c \<leftarrow> load m src;
     m' \<leftarrow> store m dest c;
     if c \<noteq> 0 then strcpy_loop (dest + 1) (src + 1) m' else Some m' }"

definition strcpy :: "u64 \<Rightarrow> u64 \<Rightarrow> mem \<Rightarrow> (u64 \<times> mem) option" where
  "strcpy dest src m = do { m' \<leftarrow> strcpy_loop dest src m; Some (dest, m') }"

definition strlcpy :: "u64 \<Rightarrow> u64 \<Rightarrow> u64 \<Rightarrow> mem \<Rightarrow> (u64 \<times> mem) option" where
  "strlcpy dest src n m = do {
     len \<leftarrow> strlen src m;
     if n = 0 then Some (len, m)
     else do {
       let n' = (if len < n then len else n - 1);
       (_, m1) \<leftarrow> memcpy dest src n' m;
       m2 \<leftarrow> store m1 (dest + n') 0;
       Some (len, m2) } }"

partial_function (option) strcmp_loop :: "mem \<Rightarrow> u64 \<Rightarrow> u64 \<Rightarrow> int option" where
  "strcmp_loop m s1 s2 = do {
     c1 \<leftarrow> load m s1;
     c2 \<leftarrow> load m s2;
     if c1 = c2 then
       (if c1 = 0 then Some 0 else strcmp_loop m (s1 + 1) (s2 + 1))
     else Some (uint c1 - uint c2) }"

definition strcmp :: "u64 \<Rightarrow> u64 \<Rightarrow> mem \<Rightarrow> int option" where
  "strcmp s1 s2 m = strcmp_loop m s1 s2"

text \<open>
  When the count runs out, \<^verbatim>\<open>strncmp\<close> leaves the loop with the two equal bytes it
  read last in \<^verbatim>\<open>c1\<close> and \<^verbatim>\<open>c2\<close>; they are the loop's extra arguments.
\<close>

fun strncmp_loop :: "nat \<Rightarrow> u64 \<Rightarrow> u64 \<Rightarrow> u8 \<Rightarrow> u8 \<Rightarrow> mem \<Rightarrow> int option" where
  "strncmp_loop 0 s1 s2 c1 c2 m = Some (uint c1 - uint c2)"
| "strncmp_loop (Suc n) s1 s2 _ _ m = do {
     c1 \<leftarrow> load m s1;
     c2 \<leftarrow> load m s2;
     if c1 = c2 then
       (if c1 = 0 then Some 0 else strncmp_loop n (s1 + 1) (s2 + 1) c1 c2 m)
     else Some (uint c1 - uint c2) }"

definition strncmp :: "u64 \<Rightarrow> u64 \<Rightarrow> u64 \<Rightarrow> mem \<Rightarrow> int option" where
  "strncmp s1 s2 n m = (if n = 0 then Some 0 else strncmp_loop (unat n) s1 s2 0 0 m)"

text \<open>\<^verbatim>\<open>char\<close> is signed, so the byte is sign-extended before it is compared.
  \<open>Some None\<close> is the returned null pointer.\<close>

partial_function (option) strchr :: "u64 \<Rightarrow> u32 \<Rightarrow> mem \<Rightarrow> u64 option option" where
  "strchr s c m = do {
     b \<leftarrow> load m s;
     if scast b = c then Some (Some s)
     else if b = 0 then Some None
     else strchr (s + 1) c m }"

definition strerror :: "int \<Rightarrow> string" where
  "strerror error =
     (if error = 0 then ''success''
      else if error = errno_code ENOMEM then ''out of memory''
      else if error = errno_code EAGAIN then ''resource temporarily unavailable''
      else if error = errno_code EINVAL then ''invalid argument''
      else if error = errno_code EBUSY then ''device or resource busy''
      else if error = errno_code EFAULT then ''bad address''
      else if error = errno_code ENODEV then ''no such device''
      else if error = errno_code EEXIST then ''entry exists''
      else if error = errno_code EIO then ''input/output error''
      else if error = errno_code ESRCH then ''no such process''
      else if error = errno_code ETIMEDOUT then ''timeout error''
      else if error = errno_code ENOENT then ''no such file or directory''
      else ''unknown error'')"

section \<open>Specification side: blocks and strings in memory\<close>

fun mem_bytes :: "mem \<Rightarrow> u64 \<Rightarrow> u8 list \<Rightarrow> bool" where
  "mem_bytes m a [] = True"
| "mem_bytes m a (c # cs) = (m a = Some c \<and> mem_bytes m (a + 1) cs)"

definition write_bytes :: "mem \<Rightarrow> u64 \<Rightarrow> u8 list \<Rightarrow> mem" where
  "write_bytes m a cs = (\<lambda>x. if unat (x - a) < length cs then Some (cs ! unat (x - a)) else m x)"

definition mapped :: "mem \<Rightarrow> u64 \<Rightarrow> nat \<Rightarrow> bool" where
  "mapped m a n \<longleftrightarrow> (\<forall>i<n. m (a + of_nat i) \<noteq> None)"

definition cstr :: "mem \<Rightarrow> u64 \<Rightarrow> u8 list \<Rightarrow> bool" where
  "cstr m a s \<longleftrightarrow> 0 \<notin> set s \<and> mem_bytes m a (s @ [0])"

lemma mem_bytes_append:
  "mem_bytes m a (xs @ ys) \<longleftrightarrow> mem_bytes m a xs \<and> mem_bytes m (a + of_nat (length xs)) ys"
  by (induction xs arbitrary: a) (auto simp: algebra_simps)

lemma mem_bytes_nth: "mem_bytes m a xs \<Longrightarrow> i < length xs \<Longrightarrow> m (a + of_nat i) = Some (xs ! i)"
proof (induction xs arbitrary: a i)
  case (Cons x xs)
  then show ?case
    using Cons.IH [of "a + 1" "i - 1"] by (cases i) (auto simp: algebra_simps)
qed simp

lemma mem_bytes_iff: "mem_bytes m a xs \<longleftrightarrow> (\<forall>i<length xs. m (a + of_nat i) = Some (xs ! i))"
proof
  assume R: "\<forall>i<length xs. m (a + of_nat i) = Some (xs ! i)"
  then show "mem_bytes m a xs"
  proof (induction xs arbitrary: a)
    case (Cons x xs)
    have "m a = Some x" using Cons.prems [rule_format, of 0] by simp
    moreover have "\<forall>i<length xs. m (a + 1 + of_nat i) = Some (xs ! i)"
      using Cons.prems [rule_format, of "Suc i" for i] by (auto simp: algebra_simps)
    ultimately show ?case using Cons.IH by simp
  qed simp
qed (simp add: mem_bytes_nth)

lemma mem_bytes_mapped: "mem_bytes m a xs \<Longrightarrow> mapped m a (length xs)"
  by (auto simp: mapped_def mem_bytes_nth)

lemma mapped_mono: "mapped m a n \<Longrightarrow> k \<le> n \<Longrightarrow> mapped m a k"
  by (simp add: mapped_def)

lemma mapped_Suc: "mapped m a (Suc n) \<longleftrightarrow> m a \<noteq> None \<and> mapped m (a + 1) n"
  unfolding mapped_def by (subst All_less_Suc2) (simp add: algebra_simps)

lemma unat_max_u64: "unat (- 1 :: u64) = 2 ^ 64 - 1"
  by (simp add: unsigned_minus_1_eq_mask mask_eq_exp_minus_1)

lemma write_bytes_Nil [simp]: "write_bytes m a [] = m"
  by (simp add: write_bytes_def)

lemma unat_diff_Suc:
  fixes x a :: u64
  assumes "unat (x - a) = Suc k"
  shows "unat (x - (a + 1)) = k"
proof -
  have "x - (a + 1) = (x - a) - 1" by simp
  moreover have "x - a \<noteq> 0" using assms by (metis nat.distinct(1) unat_0)
  ultimately have "unat (x - (a + 1)) = unat (x - a) - 1" by (metis unat_minus_one)
  then show ?thesis using assms by simp
qed

lemma write_bytes_Cons:
  assumes "length cs < 2 ^ 64"
  shows "write_bytes m a (c # cs) = write_bytes (m(a \<mapsto> c)) (a + 1) cs"
proof
  fix x :: u64
  show "write_bytes m a (c # cs) x = write_bytes (m(a \<mapsto> c)) (a + 1) cs x"
  proof (cases "unat (x - a)")
    case 0
    then have "x = a" by (simp add: unat_eq_zero)
    moreover have "\<not> unat (a - (a + 1)) < length cs"
      using assms by (simp add: unat_max_u64)
    ultimately show ?thesis by (simp add: write_bytes_def)
  next
    case (Suc k)
    then have "x \<noteq> a" by auto
    then show ?thesis using Suc unat_diff_Suc [OF Suc] by (simp add: write_bytes_def)
  qed
qed

lemma write_bytes_snoc:
  assumes "length cs < 2 ^ 64"
  shows "write_bytes m a (cs @ [c]) = (write_bytes m a cs)(a + of_nat (length cs) \<mapsto> c)"
proof
  fix x :: u64
  have "unat (x - a) = length cs \<longleftrightarrow> x - a = of_nat (length cs)"
    using assms by (auto simp: word_eq_unat unat_of_nat_lt)
  then have "unat (x - a) = length cs \<longleftrightarrow> x = a + of_nat (length cs)"
    by (auto simp: algebra_simps)
  then show "write_bytes m a (cs @ [c]) x = ((write_bytes m a cs)(a + of_nat (length cs) \<mapsto> c)) x"
    by (auto simp: write_bytes_def nth_append)
qed

lemma write_bytes_out: "length cs \<le> unat (x - a) \<Longrightarrow> write_bytes m a cs x = m x"
  by (simp add: write_bytes_def)

lemma write_bytes_in:
  "i < length cs \<Longrightarrow> length cs \<le> 2 ^ 64 \<Longrightarrow> write_bytes m a cs (a + of_nat i) = Some (cs ! i)"
  by (simp add: write_bytes_def unat_of_nat_lt)

lemma write_bytes_mem_bytes: "length cs \<le> 2 ^ 64 \<Longrightarrow> mem_bytes (write_bytes m a cs) a cs"
  by (simp add: mem_bytes_iff write_bytes_in)

section \<open>Block copies\<close>

lemma mem_bytes_upd_out:
  "length xs \<le> unat (x - a) \<Longrightarrow> mem_bytes (m(x \<mapsto> c)) a xs = mem_bytes m a xs"
proof -
  assume L: "length xs \<le> unat (x - a)"
  have "a + of_nat i \<noteq> x" if "i < length xs" for i
  proof
    assume "a + of_nat i = x"
    then have "unat (x - a) \<le> i" by (auto simp: unat_of_nat take_bit_eq_mod)
    then show False using L that by simp
  qed
  then show ?thesis by (auto simp: mem_bytes_iff)
qed

lemma mapped_upd: "mapped m a n \<Longrightarrow> mapped (m(x \<mapsto> c)) a n"
  by (simp add: mapped_def)

lemma copy_fwd_write:
  assumes "mem_bytes m s xs" "mapped m d (length xs)" "length xs < 2 ^ 64"
    and "d = s \<or> length xs \<le> unat (d - s)"
  shows "copy_fwd (length xs) d s m = Some (write_bytes m d xs)"
  using assms
proof (induction xs arbitrary: d s m)
  case (Cons x xs)
  have st: "store m d x = Some (m(d \<mapsto> x))"
    using Cons.prems(2) by (auto simp: mapped_Suc)
  have "length xs \<le> unat (d - (s + 1))"
  proof (cases "d = s")
    case True
    then show ?thesis using Cons.prems(3) by (simp add: unat_max_u64)
  next
    case False
    then have "length (x # xs) \<le> unat (d - s)" using Cons.prems(4) by simp
    then obtain k where "unat (d - s) = Suc k" "length xs \<le> k"
      by (cases "unat (d - s)") auto
    then show ?thesis using unat_diff_Suc by simp
  qed
  then have src: "mem_bytes (m(d \<mapsto> x)) (s + 1) xs"
    using Cons.prems(1) by (simp add: mem_bytes_upd_out)
  have dst: "mapped (m(d \<mapsto> x)) (d + 1) (length xs)"
    using Cons.prems(2) by (simp add: mapped_Suc mapped_upd)
  have gap: "d + 1 = s + 1 \<or> length xs \<le> unat ((d + 1) - (s + 1))"
    using Cons.prems(4) by auto
  have "copy_fwd (length xs) (d + 1) (s + 1) (m(d \<mapsto> x))
      = Some (write_bytes (m(d \<mapsto> x)) (d + 1) xs)"
    by (rule Cons.IH [OF src dst _ gap]) (use Cons.prems(3) in simp)
  then show ?case
    using st Cons.prems(1,3) by (simp add: load_def write_bytes_Cons)
qed simp

lemma write_bytes_upd_out:
  "length xs \<le> unat (x - a) \<Longrightarrow> write_bytes (m(x \<mapsto> c)) a xs = (write_bytes m a xs)(x \<mapsto> c)"
  by (auto simp: write_bytes_def)

lemma copy_bwd_write:
  assumes "mem_bytes m s xs" "mapped m d (length xs)" "length xs < 2 ^ 64"
    and "d = s \<or> length xs \<le> unat (s - d)"
  shows "copy_bwd (length xs) (d + of_nat (length xs) - 1) (s + of_nat (length xs) - 1) m
    = Some (write_bytes m d xs)"
  using assms
proof (induction xs arbitrary: m rule: rev_induct)
  case (snoc x xs)
  let ?n = "of_nat (length xs) :: u64"
  have un: "unat ?n = length xs" using snoc.prems(3) by (simp add: unat_of_nat_lt)
  have ld: "m (s + ?n) = Some x"
    using snoc.prems(1) by (simp add: mem_bytes_append)
  have st: "store m (d + ?n) x = Some (m(d + ?n \<mapsto> x))"
    using snoc.prems(2) unfolding mapped_def by (metis length_append_singleton lessI store_eq_Some)
  have "length xs \<le> unat (d + ?n - s)"
  proof (cases "d = s")
    case False
    then have le: "Suc (length xs) \<le> unat (s - d)" using snoc.prems(4) by simp
    have "?n < s - d" using le un by (simp add: word_less_unat)
    from unat_sub_wrap [OF this] have "unat (?n - (s - d)) + unat (s - d) = 2 ^ 64 + length xs"
      using un by simp
    moreover have "?n - (s - d) = d + ?n - s" by simp
    ultimately show ?thesis using unat_lt_64 [of "s - d"] by simp
  qed (simp add: un)
  then have src: "mem_bytes (m(d + ?n \<mapsto> x)) s xs"
    using snoc.prems(1) by (simp add: mem_bytes_append mem_bytes_upd_out)
  have dst: "mapped (m(d + ?n \<mapsto> x)) d (length xs)"
    using snoc.prems(2) mapped_mono mapped_upd by (metis length_append_singleton le_SucI le_refl)
  have "copy_bwd (length xs) (d + ?n - 1) (s + ?n - 1) (m(d + ?n \<mapsto> x))
      = Some (write_bytes (m(d + ?n \<mapsto> x)) d xs)"
    by (rule snoc.IH [OF src dst]) (use snoc.prems(3,4) in auto)
  moreover have "write_bytes (m(d + ?n \<mapsto> x)) d xs = write_bytes m d (xs @ [x])"
    using snoc.prems(3) un by (simp add: write_bytes_snoc write_bytes_upd_out)
  ultimately show ?case
    using ld st by (simp add: load_def algebra_simps)
qed simp

lemma memcpy_write:
  assumes "mem_bytes m s xs" "mapped m d (length xs)" "length xs < 2 ^ 64"
    and "d = s \<or> length xs \<le> unat (d - s)" and "unat n = length xs"
  shows "memcpy d s n m = Some (d, write_bytes m d xs)"
  using copy_fwd_write [OF assms(1-4)] assms(5) by (simp add: memcpy_def)

lemma memmove_write:
  assumes "mem_bytes m s xs" "mapped m d (length xs)" "unat n = length xs"
    and "unat s + length xs \<le> 2 ^ 64" "unat d + length xs \<le> 2 ^ 64"
  shows "memmove d s n m = Some (d, write_bytes m d xs)"
proof -
  have lt: "length xs < 2 ^ 64" using assms(3) unat_lt_64 [of n] by simp
  have n: "n = of_nat (length xs)" using assms(3) by (simp flip: assms(3))
  show ?thesis
  proof (cases "d \<le> s")
    case True
    have "d = s \<or> length xs \<le> unat (d - s)"
    proof (cases "d = s")
      case False
      with True have "d < s" by simp
      from unat_sub_wrap [OF this] show ?thesis using assms(4) by simp
    qed simp
    from copy_fwd_write [OF assms(1,2) lt this] show ?thesis
      using True assms(3) by (simp add: memmove_def)
  next
    case False
    then have "s < d" by simp
    from unat_sub_wrap [OF this] have "length xs \<le> unat (s - d)" using assms(5) by simp
    from copy_bwd_write [OF assms(1,2) lt] this show ?thesis
      using False assms(3) n by (simp add: memmove_def)
  qed
qed

lemma fill_fwd_write:
  "mapped m a n \<Longrightarrow> n < 2 ^ 64 \<Longrightarrow> fill_fwd n a c m = Some (write_bytes m a (replicate n c))"
proof (induction n arbitrary: a m)
  case (Suc n)
  then have "fill_fwd n (a + 1) c (m(a \<mapsto> c))
      = Some (write_bytes (m(a \<mapsto> c)) (a + 1) (replicate n c))"
    by (intro Suc.IH mapped_upd) (auto simp: mapped_Suc)
  then show ?case using Suc.prems by (auto simp: mapped_Suc write_bytes_Cons)
qed simp

lemma memset_write:
  "mapped m a (unat n) \<Longrightarrow>
    memset a c n m = Some (a, write_bytes m a (replicate (unat n) (ucast c)))"
  using unat_lt_64 [of n] by (simp add: memset_def fill_fwd_write)

section \<open>Strings\<close>

lemma cstr_Nil [simp]: "cstr m a [] \<longleftrightarrow> m a = Some 0"
  by (simp add: cstr_def)

lemma cstr_Cons [simp]: "cstr m a (c # s) \<longleftrightarrow> c \<noteq> 0 \<and> m a = Some c \<and> cstr m (a + 1) s"
  by (auto simp: cstr_def)

lemma cstr_bytes: "cstr m a s \<Longrightarrow> mem_bytes m a (s @ [0])"
  by (simp add: cstr_def)

lemma cstr_length: "cstr m a s \<Longrightarrow> length s < 2 ^ 64"
proof (rule ccontr)
  assume c: "cstr m a s" and "\<not> length s < 2 ^ 64"
  then have "length s mod 2 ^ 64 < length s" by simp
  then have "m (a + of_nat (length s mod 2 ^ 64)) = Some (s ! (length s mod 2 ^ 64))"
    using c mem_bytes_nth [of m a "s @ [0]" "length s mod 2 ^ 64"]
    by (auto simp: cstr_def nth_append)
  moreover have "(of_nat (length s mod 2 ^ 64) :: u64) = of_nat (length s)"
    by (simp add: word_eq_unat unat_of_nat take_bit_eq_mod)
  moreover have "m (a + of_nat (length s)) = Some 0"
    using c by (simp add: cstr_def mem_bytes_append)
  moreover have "s ! (length s mod 2 ^ 64) \<noteq> 0"
    using c \<open>length s mod 2 ^ 64 < length s\<close> by (metis cstr_def nth_mem)
  ultimately show False by simp
qed

lemma strlen_loop_cstr: "cstr m a s \<Longrightarrow> strlen_loop m start a = Some (a + of_nat (length s) - start)"
proof (induction s arbitrary: a)
  case Nil
  then show ?case by (subst strlen_loop.simps) (simp add: load_def)
next
  case (Cons c s)
  then show ?case by (subst strlen_loop.simps) (simp add: load_def algebra_simps)
qed

lemma strlen_cstr [simp]: "cstr m a s \<Longrightarrow> strlen a m = Some (of_nat (length s))"
  by (simp add: strlen_def strlen_loop_cstr)

lemma strcpy_loop_write:
  assumes "cstr m src s" "mapped m dest (Suc (length s))"
    and "dest = src \<or> Suc (length s) \<le> unat (dest - src)" "Suc (length s) < 2 ^ 64"
  shows "strcpy_loop dest src m = Some (write_bytes m dest (s @ [0]))"
  using assms
proof (induction s arbitrary: dest src m)
  case Nil
  then show ?case
    by (subst strcpy_loop.simps) (auto simp: load_def mapped_Suc write_bytes_Cons)
next
  case (Cons c s)
  have gap: "length (s @ [0]) \<le> unat (dest - (src + 1))"
  proof (cases "dest = src")
    case True
    then show ?thesis using Cons.prems(4) by (simp add: unat_max_u64)
  next
    case False
    then obtain k where "unat (dest - src) = Suc k" "length (s @ [0]) \<le> k"
      using Cons.prems(3) by (cases "unat (dest - src)") auto
    then show ?thesis using unat_diff_Suc by simp
  qed
  have "strcpy_loop (dest + 1) (src + 1) (m(dest \<mapsto> c))
      = Some (write_bytes (m(dest \<mapsto> c)) (dest + 1) (s @ [0]))"
  proof (rule Cons.IH)
    show "cstr (m(dest \<mapsto> c)) (src + 1) s"
      using Cons.prems(1) gap unfolding cstr_def
      by (subst mem_bytes_upd_out) (auto simp: cstr_def)
    show "mapped (m(dest \<mapsto> c)) (dest + 1) (Suc (length s))"
      by (rule mapped_upd) (use Cons.prems(2) in \<open>auto simp: mapped_Suc\<close>)
  qed (use Cons.prems(3,4) in auto)
  moreover have "store m dest c = Some (m(dest \<mapsto> c))"
    using Cons.prems(2) by (auto simp: mapped_Suc)
  ultimately show ?case
    using Cons.prems(1,4) by (subst strcpy_loop.simps) (simp add: load_def write_bytes_Cons)
qed

fun cmp_bytes :: "u8 list \<Rightarrow> u8 list \<Rightarrow> int" where
  "cmp_bytes [] [] = 0"
| "cmp_bytes [] (y # ys) = - uint y"
| "cmp_bytes (x # xs) [] = uint x"
| "cmp_bytes (x # xs) (y # ys) = (if x = y then cmp_bytes xs ys else uint x - uint y)"

lemma strcmp_loop_cstr:
  "cstr m a s \<Longrightarrow> cstr m b t \<Longrightarrow> strcmp_loop m a b = Some (cmp_bytes s t)"
  by (induction s t arbitrary: a b rule: cmp_bytes.induct;
      subst strcmp_loop.simps; simp add: load_def)

lemma uint_eq_iff: "uint x = uint y \<longleftrightarrow> x = y" for x y :: "'a::len word"
  by (simp add: word_uint_eq_iff)

lemma uint_pos: "x \<noteq> 0 \<Longrightarrow> 0 < uint x" for x :: "'a::len word"
  by (simp add: uint_0_iff order_less_le)

lemma cmp_bytes_zero: "0 \<notin> set s \<Longrightarrow> 0 \<notin> set t \<Longrightarrow> cmp_bytes s t = 0 \<longleftrightarrow> s = t"
  by (induction s t rule: cmp_bytes.induct) (auto simp: uint_eq_iff dest: uint_pos)

lemma cmp_bytes_less:
  "0 \<notin> set s \<Longrightarrow> 0 \<notin> set t \<Longrightarrow> cmp_bytes s t < 0 \<longleftrightarrow> ord_class.lexordp s t"
proof (induction s t rule: cmp_bytes.induct)
  case (4 x xs y ys)
  then show ?case using uint_eq_iff [of x y] by (auto simp: word_less_def)
qed (auto simp: uint_pos intro: less_imp_le)

lemma strncmp_loop_cstr:
  "cstr m a s \<Longrightarrow> cstr m b t \<Longrightarrow>
    strncmp_loop n a b c c m = Some (cmp_bytes (take n s) (take n t))"
proof (induction n arbitrary: a b s t c)
  case (Suc n)
  then show ?case
    by (cases s; cases t) (auto simp: load_def)
qed simp

lemma scast_u8_u32_inj [simp]: "(scast b :: u32) = scast c \<longleftrightarrow> b = c" for b c :: u8
proof
  assume "(scast b :: u32) = scast c"
  then have "(scast (scast b :: u32) :: u8) = scast (scast c :: u32)" by simp
  then show "b = c" by (simp add: scast_up_scast_id is_up source_size target_size)
qed simp

lemma scast_u8_u32_zero [simp]: "(scast b :: u32) = 0 \<longleftrightarrow> b = 0" for b :: u8
  using scast_u8_u32_inj [of b 0] by simp

lemma strchr_cstr:
  "cstr m a s \<Longrightarrow> strchr a (scast b) m =
    Some (if b \<in> set (s @ [0]) then Some (a + of_nat (length (takeWhile ((\<noteq>) b) s))) else None)"
proof (induction s arbitrary: a)
  case Nil
  then show ?case
    by (subst strchr.simps) (auto simp: load_def)
next
  case (Cons c s)
  then show ?case
    by (subst strchr.simps) (auto simp: load_def algebra_simps)
qed

lemma memcmp_loop_bytes:
  "mem_bytes m a xs \<Longrightarrow> mem_bytes m b ys \<Longrightarrow> length xs = length ys \<Longrightarrow>
    memcmp_loop (length xs) a b m = Some (cmp_bytes xs ys)"
  by (induction xs ys arbitrary: a b rule: cmp_bytes.induct) (auto simp: load_def)

lemma cmp_bytes_eq_length: "length xs = length ys \<Longrightarrow> cmp_bytes xs ys = 0 \<longleftrightarrow> xs = ys"
  by (induction xs ys rule: cmp_bytes.induct) (auto simp: uint_eq_iff)

section \<open>Properties\<close>

text \<open>
  C32: \<^verbatim>\<open>memmove\<close> copies correctly whether or not the two ranges overlap.
  For mapped ranges that do not run past the end of the address space it returns
  \<^verbatim>\<open>dest\<close>, each destination byte is the source byte from before the call, and
  no byte outside the destination changes.
\<close>

theorem memmove_correct:
  assumes "mapped m src (unat n)" "mapped m dest (unat n)"
    and "unat src + unat n \<le> 2 ^ 64" "unat dest + unat n \<le> 2 ^ 64"
  shows "\<exists>m'. memmove dest src n m = Some (dest, m')
    \<and> (\<forall>i<unat n. m' (dest + of_nat i) = m (src + of_nat i))
    \<and> (\<forall>x. unat n \<le> unat (x - dest) \<longrightarrow> m' x = m x)"
proof -
  define xs where "xs = map (\<lambda>i. the (m (src + of_nat i))) [0..<unat n]"
  have len [simp]: "length xs = unat n" by (simp add: xs_def)
  have src: "m (src + of_nat i) = Some (xs ! i)" if "i < unat n" for i
    using assms(1) that by (auto simp: xs_def mapped_def)
  then have "mem_bytes m src xs" by (simp add: mem_bytes_iff)
  then have "memmove dest src n m = Some (dest, write_bytes m dest xs)"
    using assms by (intro memmove_write) auto
  moreover have "write_bytes m dest xs (dest + of_nat i) = m (src + of_nat i)" if "i < unat n" for i
    using that src unat_lt_64 [of n] by (simp add: write_bytes_in)
  ultimately show ?thesis by (auto simp: write_bytes_out)
qed

theorem memmove_correct_witness:
  "\<exists>m'. memmove 101 100 3 (\<lambda>a. Some (ucast a)) = Some (101, m')
    \<and> (\<forall>i<unat (3::u64). m' (101 + of_nat i) = Some (ucast ((100::u64) + of_nat i)))
    \<and> (\<forall>x. unat (3::u64) \<le> unat (x - 101) \<longrightarrow> m' x = Some (ucast x))"
proof (rule memmove_correct [where m = "\<lambda>a. Some (ucast a)"])
qed (simp_all add: mapped_def)

text \<open>
  C37: \<^verbatim>\<open>strlcpy\<close> returns the length of the source string and, unless the size is 0,
  leaves in the destination the longest prefix that fits together with its null byte, and changes
  nothing else; with size 0 it writes nothing.
\<close>

theorem strlcpy_correct:
  assumes "cstr m src s" "mapped m dest (unat n)"
    and "length s < unat (dest - src)"
  shows "strlcpy dest src n m = Some (of_nat (length s),
    if n = 0 then m else write_bytes m dest (take (unat n - 1) s @ [0]))"
proof (cases "n = 0")
  case False
  let ?xs = "take (unat n - 1) s" and ?l = "of_nat (length s) :: u64"
  let ?n' = "if ?l < n then ?l else n - 1"
  have l: "unat ?l = length s" using cstr_length [OF assms(1)] by (simp add: unat_of_nat_lt)
  have n0: "unat n \<noteq> 0" using False by (simp add: unat_eq_zero)
  have n': "unat ?n' = length ?xs"
    using False l by (auto simp: word_less_unat unat_minus_one)
  have src: "mem_bytes m src ?xs"
    using assms(1) mem_bytes_append [of m src ?xs "drop (unat n - 1) s"]
    by (simp add: cstr_def mem_bytes_append)
  have "memcpy dest src ?n' m = Some (dest, write_bytes m dest ?xs)"
  proof (rule memcpy_write [OF src _ _ _ n'])
    show "mapped m dest (length ?xs)"
      by (rule mapped_mono [OF assms(2)]) (use n0 in simp)
  qed (use assms(3) cstr_length [OF assms(1)] in auto)
  moreover have "?n' = of_nat (length ?xs)" unfolding n' [symmetric] by simp
  moreover have "write_bytes m dest ?xs (dest + of_nat (length ?xs)) \<noteq> None"
    using assms(2) n0 by (simp add: write_bytes_def mapped_def)
  moreover have "length ?xs < 2 ^ 64" using cstr_length [OF assms(1)] by simp
  ultimately show ?thesis
    using False assms(1) by (auto simp: strlcpy_def write_bytes_snoc)
qed (use assms in \<open>simp add: strlcpy_def\<close>)

theorem strlcpy_correct_witness:
  "strlcpy 200 100 2 ((\<lambda>_. Some 0)(100 \<mapsto> 65, 101 \<mapsto> 66)) = Some (2,
    write_bytes ((\<lambda>_. Some 0)(100 \<mapsto> 65, 101 \<mapsto> 66)) 200 [65, 0])"
  using strlcpy_correct [of "(\<lambda>_. Some 0)(100 \<mapsto> 65, 101 \<mapsto> 66)" 100 "[65, 66]" 200 2]
  by (simp add: mapped_def)

text \<open>
  C38: \<^verbatim>\<open>strcmp\<close> on two stored strings returns 0 exactly when they are equal and a
  negative number exactly when the first is lexicographically smaller, bytes compared as unsigned;
  \<^verbatim>\<open>strncmp\<close> does the same on the prefixes of length \<^verbatim>\<open>n\<close>.
\<close>

theorem strcmp_order:
  assumes "cstr m a s" "cstr m b t"
  shows "\<exists>r r'. strcmp a b m = Some r \<and> (r = 0 \<longleftrightarrow> s = t) \<and> (r < 0 \<longleftrightarrow> ord_class.lexordp s t)
    \<and> strncmp a b n m = Some r' \<and> (r' = 0 \<longleftrightarrow> take (unat n) s = take (unat n) t)
    \<and> (r' < 0 \<longleftrightarrow> ord_class.lexordp (take (unat n) s) (take (unat n) t))"
proof -
  have nz: "0 \<notin> set s" "0 \<notin> set t" using assms by (simp_all add: cstr_def)
  then have "0 \<notin> set (take k s)" "0 \<notin> set (take k t)" for k by (meson in_set_takeD)+
  moreover have "strncmp a b n m = Some (cmp_bytes (take (unat n) s) (take (unat n) t))"
    using assms by (simp add: strncmp_def strncmp_loop_cstr)
  ultimately show ?thesis
    using assms nz by (simp add: strcmp_def strcmp_loop_cstr cmp_bytes_zero cmp_bytes_less)
qed

theorem strcmp_order_witness:
  "\<exists>r r'. strcmp 100 200 ((\<lambda>_. Some 0)(100 \<mapsto> 65, 200 \<mapsto> 66)) = Some r
    \<and> (r = 0 \<longleftrightarrow> [65 :: u8] = [66]) \<and> (r < 0 \<longleftrightarrow> ord_class.lexordp [65 :: u8] [66])
    \<and> strncmp 100 200 0 ((\<lambda>_. Some 0)(100 \<mapsto> 65, 200 \<mapsto> 66)) = Some r'
    \<and> (r' = 0 \<longleftrightarrow> take (unat (0::u64)) [65 :: u8] = take (unat (0::u64)) [66])
    \<and> (r' < 0 \<longleftrightarrow> ord_class.lexordp (take (unat (0::u64)) [65 :: u8]) (take (unat (0::u64)) [66]))"
  by (rule strcmp_order) simp_all

end
