(* ===== verification/Bitmap.thy ===== *)
theory Bitmap
  imports Arith Cstring
begin

text \<open>
  \<^verbatim>\<open>kern/bitmap.h\<close>, \<^verbatim>\<open>bitmap_i.h\<close> and
  \<^verbatim>\<open>bitmap.c\<close>: arbitrary-length bit arrays over an array of 64-bit words.
  A bitmap is the list of its words; reading or writing outside the array stops the program.
  The atomic variants perform the same update in one step and are the same functions here.
  \<open>bm_bit\<close> is the specification side: the value of one bit of the array.
\<close>

unbundle bit_operations_syntax

type_synonym bitmap = "u64 list"

section \<open>Operations on single bits\<close>

definition BITMAP_LONGS :: "nat \<Rightarrow> nat" where
  "BITMAP_LONGS nr_bits = DIV_CEIL nr_bits 64"

definition bitmap_lookup :: "nat \<Rightarrow> nat \<times> nat" where
  "bitmap_lookup b = (let i = BITMAP_LONGS (b + 1) - 1 in (i, b - i * 64))"

definition bitmap_mask :: "nat \<Rightarrow> u64" where
  "bitmap_mask b = push_bit b 1"

definition bitmap_locate :: "nat \<Rightarrow> nat \<times> nat" where
  "bitmap_locate b = (if 64 \<le> b then bitmap_lookup b else (0, b))"

definition bitmap_set :: "bitmap \<Rightarrow> nat \<Rightarrow> bitmap option" where
  "bitmap_set bm b = (case bitmap_locate b of (i, b') \<Rightarrow> do {
     w \<leftarrow> nth_opt bm i;
     upd_opt bm i (w OR bitmap_mask b') })"

definition bitmap_clear :: "bitmap \<Rightarrow> nat \<Rightarrow> bitmap option" where
  "bitmap_clear bm b = (case bitmap_locate b of (i, b') \<Rightarrow> do {
     w \<leftarrow> nth_opt bm i;
     upd_opt bm i (w AND NOT (bitmap_mask b')) })"

definition bitmap_test :: "bitmap \<Rightarrow> nat \<Rightarrow> bool option" where
  "bitmap_test bm b = (case bitmap_locate b of (i, b') \<Rightarrow> do {
     w \<leftarrow> nth_opt bm i;
     Some (w AND bitmap_mask b' \<noteq> 0) })"

section \<open>Operations on whole bitmaps\<close>

definition bitmap_zero :: "bitmap \<Rightarrow> nat \<Rightarrow> bitmap option" where
  "bitmap_zero bm nr_bits = (let n = BITMAP_LONGS nr_bits in do {
     assert_that (n \<le> length bm);
     Some (replicate n 0 @ drop n bm) })"

definition bitmap_fill :: "bitmap \<Rightarrow> nat \<Rightarrow> bitmap option" where
  "bitmap_fill bm nr_bits = (let n = BITMAP_LONGS nr_bits in do {
     assert_that (n \<le> length bm);
     Some (replicate n (- 1) @ drop n bm) })"

definition bitmap_copy :: "bitmap \<Rightarrow> bitmap \<Rightarrow> nat \<Rightarrow> bitmap option" where
  "bitmap_copy dest src nr_bits = (let n = BITMAP_LONGS nr_bits in do {
     assert_that (n \<le> length dest \<and> n \<le> length src);
     Some (take n src @ drop n dest) })"

fun bitmap_loop2 :: "(u64 \<Rightarrow> u64 \<Rightarrow> u64) \<Rightarrow> nat \<Rightarrow> nat \<Rightarrow> bitmap \<Rightarrow> bitmap \<Rightarrow> bitmap option" where
  "bitmap_loop2 f 0 i a b = Some a"
| "bitmap_loop2 f (Suc n) i a b = do {
     x \<leftarrow> nth_opt a i;
     y \<leftarrow> nth_opt b i;
     a' \<leftarrow> upd_opt a i (f x y);
     bitmap_loop2 f n (i + 1) a' b }"

definition bitmap_and :: "bitmap \<Rightarrow> bitmap \<Rightarrow> nat \<Rightarrow> bitmap option" where
  "bitmap_and a b nr_bits = bitmap_loop2 (AND) (BITMAP_LONGS nr_bits) 0 a b"

definition bitmap_or :: "bitmap \<Rightarrow> bitmap \<Rightarrow> nat \<Rightarrow> bitmap option" where
  "bitmap_or a b nr_bits = bitmap_loop2 (OR) (BITMAP_LONGS nr_bits) 0 a b"

definition bitmap_xor :: "bitmap \<Rightarrow> bitmap \<Rightarrow> nat \<Rightarrow> bitmap option" where
  "bitmap_xor a b nr_bits = bitmap_loop2 (XOR) (BITMAP_LONGS nr_bits) 0 a b"

text \<open>
  \<^verbatim>\<open>bitmap_cmp\<close> compares the leading words as bytes (the machine is
  little-endian) and the last word as a number, masked to the remaining bits. With no bits at
  all its word index is -1, outside the array.
\<close>

definition word_bytes :: "u64 \<Rightarrow> u8 list" where
  "word_bytes w = map (\<lambda>i. ucast (drop_bit (8 * i) w)) [0..<8]"

definition bitmap_cmp :: "bitmap \<Rightarrow> bitmap \<Rightarrow> nat \<Rightarrow> int option" where
  "bitmap_cmp a b nr_bits = do {
     assert_that (nr_bits \<noteq> 0);
     let n = BITMAP_LONGS nr_bits - 1;
     assert_that (n \<le> length a \<and> n \<le> length b);
     let rv = cmp_bytes (concat (map word_bytes (take n a))) (concat (map word_bytes (take n b)));
     if n \<noteq> 0 \<and> rv \<noteq> 0 then Some rv
     else do {
       let nr_bits = nr_bits - n * 64;
       last_a \<leftarrow> nth_opt a n;
       last_b \<leftarrow> nth_opt b n;
       let mask = (if nr_bits \<noteq> 64 then push_bit nr_bits 1 - 1 else - 1);
       let last_a = last_a AND mask;
       let last_b = last_b AND mask;
       Some (if last_a = last_b then 0 else if last_a < last_b then - 1 else 1) } }"

section \<open>Searching\<close>

definition ffsl :: "u64 \<Rightarrow> nat" where
  "ffsl w = (case find (bit w) [0..<64] of None \<Rightarrow> 0 | Some i \<Rightarrow> i + 1)"

text \<open>Shifting by a negative count is undefined: the complement stops there.\<close>

definition bitmap_find_next_compute_complement :: "u64 \<Rightarrow> int \<Rightarrow> u64 option" where
  "bitmap_find_next_compute_complement w nr_bits = do {
     assert_that (0 \<le> nr_bits);
     Some (NOT (if nr_bits < 64 then w OR push_bit (nat nr_bits) (- 1) else w)) }"

definition bitmap_fetch :: "bitmap \<Rightarrow> nat \<Rightarrow> int \<Rightarrow> bool \<Rightarrow> u64 option" where
  "bitmap_fetch bm i nr_bits complement = do {
     w \<leftarrow> nth_opt bm i;
     if complement then bitmap_find_next_compute_complement w nr_bits else Some w }"

function bitmap_find_loop :: "bitmap \<Rightarrow> nat \<Rightarrow> nat \<Rightarrow> int \<Rightarrow> u64 \<Rightarrow> bool \<Rightarrow> int option" where
  "bitmap_find_loop bm n i nr_bits w complement =
     (let b = ffsl w in
      if b \<noteq> 0 then Some (int (i * 64 + b) - 1)
      else if n \<le> i + 1 then Some (- 1)
      else do {
        w' \<leftarrow> bitmap_fetch bm (i + 1) (nr_bits - 64) complement;
        bitmap_find_loop bm n (i + 1) (nr_bits - 64) w' complement })"
  by pat_completeness auto
termination
  by (relation "measure (\<lambda>(bm, n, i, _). n - i)") auto

declare bitmap_find_loop.simps [simp del]

definition bitmap_find_next_bit :: "bitmap \<Rightarrow> nat \<Rightarrow> nat \<Rightarrow> bool \<Rightarrow> int option" where
  "bitmap_find_next_bit bm nr_bits b complement =
     (case bitmap_locate b of (i, b') \<Rightarrow> do {
        let nr = int nr_bits - int (i * 64);
        w \<leftarrow> bitmap_fetch bm i nr complement;
        let w = (if b' < 64 then w AND NOT (bitmap_mask b' - 1) else w);
        bitmap_find_loop bm (BITMAP_LONGS nr_bits) i nr w complement })"

definition bitmap_find_next :: "bitmap \<Rightarrow> nat \<Rightarrow> nat \<Rightarrow> int option" where
  "bitmap_find_next bm nr_bits b = bitmap_find_next_bit bm nr_bits b False"

definition bitmap_find_first :: "bitmap \<Rightarrow> nat \<Rightarrow> int option" where
  "bitmap_find_first bm nr_bits = bitmap_find_next bm nr_bits 0"

definition bitmap_find_next_zero :: "bitmap \<Rightarrow> nat \<Rightarrow> nat \<Rightarrow> int option" where
  "bitmap_find_next_zero bm nr_bits b = bitmap_find_next_bit bm nr_bits b True"

definition bitmap_find_first_zero :: "bitmap \<Rightarrow> nat \<Rightarrow> int option" where
  "bitmap_find_first_zero bm nr_bits = bitmap_find_next_zero bm nr_bits 0"

text \<open>
  The loop of \<^verbatim>\<open>bitmap_for_each\<close> and \<^verbatim>\<open>bitmap_for_each_zero\<close>,
  which differ in the search they call: the bits for which the body runs, in order.
\<close>

partial_function (option) for_each_loop ::
  "(nat \<Rightarrow> int option) \<Rightarrow> nat \<Rightarrow> nat \<Rightarrow> nat list option" where
  "for_each_loop search nr_bits b =
     (if b < nr_bits then do {
        r \<leftarrow> search b;
        if r = - 1 then Some []
        else do {
          bs \<leftarrow> for_each_loop search nr_bits (nat r + 1);
          Some (nat r # bs) } }
      else Some [])"

definition bitmap_for_each :: "bitmap \<Rightarrow> nat \<Rightarrow> nat list option" where
  "bitmap_for_each bm nr_bits = for_each_loop (bitmap_find_next bm nr_bits) nr_bits 0"

definition bitmap_for_each_zero :: "bitmap \<Rightarrow> nat \<Rightarrow> nat list option" where
  "bitmap_for_each_zero bm nr_bits = for_each_loop (bitmap_find_next_zero bm nr_bits) nr_bits 0"

section \<open>What the operations do to single bits\<close>

definition bm_bit :: "bitmap \<Rightarrow> nat \<Rightarrow> bool" where
  "bm_bit bm k = bit (bm ! (k div 64)) (k mod 64)"

lemma BITMAP_LONGS_le: "b < nr \<Longrightarrow> b div 64 < BITMAP_LONGS nr"
  by (simp add: BITMAP_LONGS_def DIV_CEIL_def)

lemma bitmap_locate_eq [simp]: "bitmap_locate b = (b div 64, b mod 64)"
proof -
  have "(b + 1 + 64 - 1) div 64 - 1 = b div 64" by simp
  then show ?thesis
    by (simp add: bitmap_locate_def bitmap_lookup_def BITMAP_LONGS_def DIV_CEIL_def Let_def
        minus_div_mult_eq_mod)
qed

lemma bit_bitmap_mask: "b < 64 \<Longrightarrow> bit (bitmap_mask b) j \<longleftrightarrow> j = b"
  by (auto simp: bitmap_mask_def bit_simps)

lemma and_mask_bit: "b < 64 \<Longrightarrow> w AND bitmap_mask b \<noteq> 0 \<longleftrightarrow> bit w b"
  using bit_eq_iff [of "w AND bitmap_mask b" 0] by (auto simp: bit_and_iff bit_bitmap_mask)

lemma bitmap_test_eq: "b < 64 * length bm \<Longrightarrow> bitmap_test bm b = Some (bm_bit bm b)"
  by (simp add: bitmap_test_def and_mask_bit bm_bit_def less_mult_imp_div_less mult.commute)

lemma bm_bit_update:
  assumes "b div 64 < length bm"
    and "\<And>j. j < 64 \<Longrightarrow> bit w j \<longleftrightarrow> (if j = b mod 64 then v else bit (bm ! (b div 64)) j)"
  shows "bm_bit (bm[b div 64 := w]) k = (if k = b then v else bm_bit bm k)"
proof (cases "k div 64 = b div 64")
  case True
  then have "k mod 64 = b mod 64 \<longleftrightarrow> k = b" by (metis div_mult_mod_eq)
  then show ?thesis using True assms by (simp add: bm_bit_def)
qed (auto simp: bm_bit_def)

lemma bitmap_set_eq:
  assumes "b < 64 * length bm"
  shows "\<exists>bm'. bitmap_set bm b = Some bm' \<and> length bm' = length bm
    \<and> (\<forall>k. bm_bit bm' k = (k = b \<or> bm_bit bm k))"
proof -
  let ?w = "bm ! (b div 64) OR bitmap_mask (b mod 64)"
  have i: "b div 64 < length bm" using assms by (simp add: less_mult_imp_div_less mult.commute)
  then have "bm_bit (bm[b div 64 := ?w]) k = (if k = b then True else bm_bit bm k)" for k
    by (rule bm_bit_update) (auto simp: bit_or_iff bit_bitmap_mask)
  then show ?thesis using i by (auto simp: bitmap_set_def)
qed

lemma bitmap_clear_eq:
  assumes "b < 64 * length bm"
  shows "\<exists>bm'. bitmap_clear bm b = Some bm' \<and> length bm' = length bm
    \<and> (\<forall>k. bm_bit bm' k = (k \<noteq> b \<and> bm_bit bm k))"
proof -
  let ?w = "bm ! (b div 64) AND NOT (bitmap_mask (b mod 64))"
  have i: "b div 64 < length bm" using assms by (simp add: less_mult_imp_div_less mult.commute)
  then have "bm_bit (bm[b div 64 := ?w]) k = (if k = b then False else bm_bit bm k)" for k
    by (rule bm_bit_update) (auto simp: bit_and_iff bit_not_iff_eq bit_bitmap_mask possible_bit_word)
  then show ?thesis using i by (auto simp: bitmap_clear_def)
qed

section \<open>What a search finds\<close>

lemma find_append: "find P (xs @ ys) = (case find P xs of None \<Rightarrow> find P ys | Some x \<Rightarrow> Some x)"
  by (induction xs) auto

lemma find_map: "find P (map f xs) = map_option f (find (P \<circ> f) xs)"
  by (induction xs) auto

lemma find_None_upt: "(\<forall>k. a \<le> k \<and> k < b \<longrightarrow> \<not> P k) \<Longrightarrow> find P [a..<b] = None"
  by (auto simp: find_None_iff)

lemma find_chunk: "find Q [64 * i..<64 * i + 64] = map_option (\<lambda>j. 64 * i + j) (find (\<lambda>j. Q (64 * i + j)) [0..<64])"
proof -
  have "[64 * i..<64 * i + 64] = map (\<lambda>j. 64 * i + j) [0..<64]"
    using map_add_upt [of "64 * i" 64] by (simp add: add.commute)
  then show ?thesis by (simp add: find_map comp_def)
qed

definition search_result :: "nat option \<Rightarrow> int" where
  "search_result r = (case r of None \<Rightarrow> - 1 | Some k \<Rightarrow> int k)"

text \<open>
  The bits a search looks for: the set bits of every word of the bitmap, or, complemented,
  the clear bits below the bitmap's size.
\<close>

definition wanted :: "bitmap \<Rightarrow> nat \<Rightarrow> bool \<Rightarrow> nat \<Rightarrow> bool" where
  "wanted bm nr_bits complement k = (if complement then k < nr_bits \<and> \<not> bm_bit bm k else bm_bit bm k)"

lemma bitmap_fetch_eq:
  assumes "i < length bm" "64 * i \<le> nr"
  shows "\<exists>w. bitmap_fetch bm i (int nr - int (64 * i)) c = Some w
    \<and> (\<forall>j<64. bit w j = wanted bm nr c (64 * i + j))"
proof -
  have idx: "(64 * i + j) div 64 = i" "(64 * i + j) mod 64 = j" if "j < 64" for j
    using that by simp_all
  have nat: "nat (int nr - 64 * int i) = nr - 64 * i" using assms(2) by (simp add: nat_diff_distrib' flip: of_nat_mult)
  show ?thesis
    using assms
    by (auto simp: bitmap_fetch_def bitmap_find_next_compute_complement_def wanted_def bm_bit_def
        idx nat bit_simps possible_bit_word)
qed

lemma ffsl_find:
  assumes "\<forall>j<64. bit w j = Q (64 * i + j)"
  shows "case find Q [64 * i..<64 * i + 64] of
      None \<Rightarrow> ffsl w = 0 | Some k \<Rightarrow> ffsl w \<noteq> 0 \<and> i * 64 + ffsl w = Suc k"
proof -
  have "find (\<lambda>j. Q (64 * i + j)) [0..<64] = find (bit w) [0..<64]"
    by (rule find_cong) (use assms in auto)
  then show ?thesis
    by (simp add: find_chunk ffsl_def split: option.splits)
qed

lemma bitmap_find_loop_eq:
  assumes "n \<le> length bm" "i < n" "64 * n < nr + 64" "b < 64 * (i + 1)"
    and "\<forall>j<64. bit w j = (wanted bm nr c (64 * i + j) \<and> b \<le> 64 * i + j)"
  shows "bitmap_find_loop bm n i (int nr - int (64 * i)) w c
    = Some (search_result (find (\<lambda>k. wanted bm nr c k \<and> b \<le> k) [64 * i..<64 * n]))"
  using assms(2,4,5)
proof (induction "n - i" arbitrary: i w)
  case 0
  then show ?case by simp
next
  case (Suc d)
  let ?Q = "\<lambda>k. wanted bm nr c k \<and> b \<le> k"
  have "[64 * i..<64 * n] = [64 * i..<64 * i + 64] @ [64 * i + 64..<64 * n]"
    using Suc.prems(1) by (intro upt_split) auto
  then have split: "find ?Q [64 * i..<64 * n] = (case find ?Q [64 * i..<64 * i + 64] of
      None \<Rightarrow> find ?Q [64 * (i + 1)..<64 * n] | Some k \<Rightarrow> Some k)"
    by (simp add: find_append algebra_simps split: option.split)
  note chunk = ffsl_find [of w ?Q i, OF Suc.prems(3)]
  show ?case
  proof (cases "find ?Q [64 * i..<64 * i + 64]")
    case (Some k)
    then show ?thesis using chunk split
      by (subst bitmap_find_loop.simps) (simp add: Let_def search_result_def)
  next
    case None
    show ?thesis
    proof (cases "n \<le> i + 1")
      case True
      then show ?thesis using chunk split None Suc.prems(1)
        by (subst bitmap_find_loop.simps) (simp add: Let_def search_result_def)
    next
      case False
      then obtain w' where w': "bitmap_fetch bm (i + 1) (int nr - int (64 * (i + 1))) c = Some w'"
        "\<forall>j<64. bit w' j = wanted bm nr c (64 * (i + 1) + j)"
        using bitmap_fetch_eq [of "i + 1" bm nr c] assms(1,3) by auto
      have "bitmap_find_loop bm n (i + 1) (int nr - int (64 * (i + 1))) w' c
          = Some (search_result (find ?Q [64 * (i + 1)..<64 * n]))"
        using Suc.hyps(2) Suc.prems(2) False w'(2) by (intro Suc.hyps(1)) auto
      then show ?thesis using chunk split None False w'(1)
        by (subst bitmap_find_loop.simps) (simp add: Let_def algebra_simps)
    qed
  qed
qed

lemma bit_below_mask: "b < 64 \<Longrightarrow> j < 64 \<Longrightarrow> bit (NOT (bitmap_mask b - 1)) j \<longleftrightarrow> b \<le> j"
  by (auto simp: bitmap_mask_def push_bit_eq_mult bit_simps possible_bit_word simp flip: mask_eq_exp_minus_1)

lemma bitmap_find_next_bit_eq:
  assumes "BITMAP_LONGS nr \<le> length bm" "b < nr"
  shows "bitmap_find_next_bit bm nr b c
    = Some (search_result (find (wanted bm nr c) [b..<64 * BITMAP_LONGS nr]))"
proof -
  let ?i = "b div 64" and ?n = "BITMAP_LONGS nr"
  have n: "64 * ?n < nr + 64" "nr \<le> 64 * ?n"
    by (simp_all add: BITMAP_LONGS_def DIV_CEIL_def)
  have i: "?i < ?n" using assms(2) by (rule BITMAP_LONGS_le)
  have le_nr: "64 * ?i \<le> nr" using assms(2) by simp
  obtain w where w: "bitmap_fetch bm ?i (int nr - int (64 * ?i)) c = Some w"
    "\<forall>j<64. bit w j = wanted bm nr c (64 * ?i + j)"
    using bitmap_fetch_eq [of ?i bm nr c] assms i le_nr by auto
  let ?w = "w AND NOT (bitmap_mask (b mod 64) - 1)"
  have "b \<le> 64 * ?i + j \<longleftrightarrow> b mod 64 \<le> j" for j
    by (metis div_mult_mod_eq mult.commute nat_add_left_cancel_le)
  then have "\<forall>j<64. bit ?w j = (wanted bm nr c (64 * ?i + j) \<and> b \<le> 64 * ?i + j)"
    using w(2) by (simp add: bit_and_iff bit_below_mask)
  with assms(1) i n(1) have "bitmap_find_loop bm ?n ?i (int nr - int (64 * ?i)) ?w c
    = Some (search_result (find (\<lambda>k. wanted bm nr c k \<and> b \<le> k) [64 * ?i..<64 * ?n]))"
    by (intro bitmap_find_loop_eq) auto
  moreover have "[64 * ?i..<64 * ?n] = [64 * ?i..<b] @ [b..<64 * ?n]"
    using assms(2) n(2) by (intro upt_split) auto
  then have "find (\<lambda>k. wanted bm nr c k \<and> b \<le> k) [64 * ?i..<64 * ?n]
      = find (\<lambda>k. wanted bm nr c k \<and> b \<le> k) [b..<64 * ?n]"
    by (simp add: find_append find_None_upt)
  moreover have "\<dots> = find (wanted bm nr c) [b..<64 * ?n]"
    by (rule find_cong) auto
  ultimately show ?thesis using w(1)
    by (simp add: bitmap_find_next_bit_def Let_def mult.commute)
qed

section \<open>Iteration over an interface\<close>

text \<open>
  What the iteration macro needs of a search: from a position below the size it returns the
  first wanted bit at or after it, or -1. Both directions of \<^verbatim>\<open>bitmap_for_each\<close>
  are instances.
\<close>

locale bit_search =
  fixes inv :: "'b \<Rightarrow> nat \<Rightarrow> bool"
    and search :: "'b \<Rightarrow> nat \<Rightarrow> nat \<Rightarrow> int option"
    and want :: "'b \<Rightarrow> nat \<Rightarrow> nat \<Rightarrow> bool"
  assumes search_first: "inv bm nr \<Longrightarrow> b < nr \<Longrightarrow>
    search bm nr b = Some (search_result (find (want bm nr) [b..<nr]))"
begin

lemma for_each_from:
  assumes "inv bm nr"
  shows "for_each_loop (search bm nr) nr b = Some (filter (want bm nr) [b..<nr])"
proof (induction "nr - b" arbitrary: b rule: less_induct)
  case less
  show ?case
  proof (cases "b < nr")
    case False
    then show ?thesis by (subst for_each_loop.simps) simp
  next
    case True
    note found = search_first [OF assms True]
    show ?thesis
    proof (cases "find (want bm nr) [b..<nr]")
      case None
      then have "filter (want bm nr) [b..<nr] = []" by (simp add: find_None_iff filter_empty_conv)
      then show ?thesis using True None found
        by (subst for_each_loop.simps) (simp add: search_result_def)
    next
      case (Some k)
      then obtain j where "j < nr - b" "k = b + j" "want bm nr k" "\<forall>l<j. \<not> want bm nr (b + l)"
        by (auto simp: find_Some_iff)
      then have k: "b \<le> k" "k < nr" "want bm nr k" and "filter (want bm nr) [b..<k] = []"
        by (auto simp: filter_empty_conv le_iff_add)
      moreover have "[b..<nr] = [b..<k] @ k # [Suc k..<nr]"
        using k upt_split [of b k nr] by (simp add: upt_conv_Cons)
      ultimately have "filter (want bm nr) [b..<nr] = k # filter (want bm nr) [Suc k..<nr]"
        by simp
      moreover have "for_each_loop (search bm nr) nr (Suc k) = Some (filter (want bm nr) [Suc k..<nr])"
        using k by (intro less) auto
      ultimately show ?thesis using True Some found
        by (subst for_each_loop.simps) (simp add: search_result_def)
    qed
  qed
qed

lemma for_each_visits:
  "inv bm nr \<Longrightarrow> for_each_loop (search bm nr) nr 0 = Some (filter (want bm nr) [0..<nr])"
  by (rule for_each_from)

end

text \<open>
  The clear bits below the size are always found by the complemented search. The plain search
  looks at whole words, so it needs the bits above the size to be clear.
\<close>

definition tail_clear :: "bitmap \<Rightarrow> nat \<Rightarrow> bool" where
  "tail_clear bm nr_bits \<longleftrightarrow> (\<forall>k<64 * BITMAP_LONGS nr_bits. nr_bits \<le> k \<longrightarrow> \<not> bm_bit bm k)"

lemma find_wanted_below:
  assumes "\<forall>k<64 * BITMAP_LONGS nr. nr \<le> k \<longrightarrow> \<not> wanted bm nr c k"
  shows "b \<le> nr \<Longrightarrow> find (wanted bm nr c) [b..<64 * BITMAP_LONGS nr] = find (wanted bm nr c) [b..<nr]"
proof -
  assume "b \<le> nr"
  have "[b..<64 * BITMAP_LONGS nr] = [b..<nr] @ [nr..<64 * BITMAP_LONGS nr]"
    using \<open>b \<le> nr\<close> by (intro upt_split) (simp_all add: BITMAP_LONGS_def DIV_CEIL_def)
  moreover have "find (wanted bm nr c) [nr..<64 * BITMAP_LONGS nr] = None"
    using assms by (intro find_None_upt) auto
  ultimately show ?thesis by (simp add: find_append split: option.split)
qed

definition bitmap_ok :: "bitmap \<Rightarrow> nat \<Rightarrow> bool" where
  "bitmap_ok bm nr_bits \<longleftrightarrow> BITMAP_LONGS nr_bits \<le> length bm"

lemma bitmap_search_below:
  assumes "bitmap_ok bm nr" "c \<or> tail_clear bm nr" "b < nr"
  shows "bitmap_find_next_bit bm nr b c = Some (search_result (find (wanted bm nr c) [b..<nr]))"
proof -
  have "\<forall>k<64 * BITMAP_LONGS nr. nr \<le> k \<longrightarrow> \<not> wanted bm nr c k"
    using assms(2) by (auto simp: wanted_def tail_clear_def)
  then show ?thesis
    using assms by (simp add: bitmap_ok_def bitmap_find_next_bit_eq find_wanted_below)
qed

interpretation set_bits: bit_search "\<lambda>bm nr. bitmap_ok bm nr \<and> tail_clear bm nr"
  bitmap_find_next "\<lambda>bm nr. bm_bit bm"
proof
  fix bm nr b assume "bitmap_ok bm nr \<and> tail_clear bm nr" "b < nr"
  moreover have "wanted bm nr False = bm_bit bm" by (simp add: wanted_def fun_eq_iff)
  ultimately show "bitmap_find_next bm nr b = Some (search_result (find (bm_bit bm) [b..<nr]))"
    using bitmap_search_below [of bm nr False b] by (simp add: bitmap_find_next_def)
qed

interpretation clear_bits: bit_search bitmap_ok
  bitmap_find_next_zero "\<lambda>bm nr k. \<not> bm_bit bm k"
proof
  fix bm nr b assume "bitmap_ok bm nr" "b < nr"
  moreover have "find (wanted bm nr True) [b..<nr] = find (\<lambda>k. \<not> bm_bit bm k) [b..<nr]"
    by (rule find_cong) (auto simp: wanted_def)
  ultimately show "bitmap_find_next_zero bm nr b
      = Some (search_result (find (\<lambda>k. \<not> bm_bit bm k) [b..<nr]))"
    using bitmap_search_below [of bm nr True b] by (simp add: bitmap_find_next_zero_def)
qed

section \<open>Whole bitmaps\<close>

lemma bitmap_loop2_eq:
  "i + n \<le> length a \<Longrightarrow> i + n \<le> length b \<Longrightarrow>
    bitmap_loop2 f n i a b
      = Some (take i a @ map2 f (take n (drop i a)) (take n (drop i b)) @ drop (i + n) a)"
proof (induction n arbitrary: i a)
  case (Suc n)
  let ?a = "a[i := f (a ! i) (b ! i)]"
  have d: "drop i a = a ! i # drop (Suc i) a" "drop i b = b ! i # drop (Suc i) b"
    using Suc.prems by (simp_all add: Cons_nth_drop_Suc)
  have "take (Suc i) ?a = take i a @ [f (a ! i) (b ! i)]"
    using Suc.prems by (simp add: take_Suc_conv_app_nth)
  then show ?case
    using Suc.prems Suc.IH [of "i + 1" ?a] by (simp add: d)
qed simp

lemma word_bytes_inj: "word_bytes v = word_bytes w \<longleftrightarrow> v = w"
proof
  assume eq: "word_bytes v = word_bytes w"
  have byte: "bit x k = bit (word_bytes x ! (k div 8)) (k mod 8)" if "k < 64" for x k
  proof -
    have "k div 8 < 8" using that by simp
    then show ?thesis using that by (simp add: word_bytes_def bit_simps)
  qed
  show "v = w" by (rule bit_word_eqI) (simp add: byte eq)
qed simp

lemma concat_word_bytes_inj:
  "length xs = length ys \<Longrightarrow> concat (map word_bytes xs) = concat (map word_bytes ys) \<longleftrightarrow> xs = ys"
proof (induction xs ys rule: list_induct2)
  case (Cons x xs y ys)
  have "length (word_bytes x) = length (word_bytes y)" by (simp add: word_bytes_def)
  then show ?case using Cons.IH by (simp add: word_bytes_inj)
qed simp

lemma concat_word_bytes_length: "length (concat (map word_bytes xs)) = 8 * length xs"
  by (induction xs) (simp_all add: word_bytes_def)

lemma masked_eq_iff:
  fixes v w :: u64
  assumes "r \<le> 64" "0 < r"
  shows "v AND (if r \<noteq> 64 then push_bit r 1 - 1 else - 1)
      = w AND (if r \<noteq> 64 then push_bit r 1 - 1 else - 1)
    \<longleftrightarrow> (\<forall>j<r. bit v j = bit w j)"
proof -
  have "(if r \<noteq> 64 then push_bit r 1 - 1 else - 1) = (mask r :: u64)"
    using assms by (auto simp: mask_eq_exp_minus_1 push_bit_eq_mult)
  then show ?thesis
    using assms(1) by (simp add: bit_eq_iff [of "v AND _"] bit_simps) (meson less_le_trans)
qed

lemma bits_of_prefix:
  assumes "0 < r" "r \<le> 64"
  shows "(\<forall>k<64 * n + r. bm_bit a k = bm_bit b k) \<longleftrightarrow>
    (\<forall>i<n. a ! i = b ! i) \<and> (\<forall>j<r. bit (a ! n) j = bit (b ! n) j)"
    (is "?L \<longleftrightarrow> ?A \<and> ?B")
proof
  assume L: ?L
  have eq: "bit (a ! i) j = bit (b ! i) j" if "64 * i + j < 64 * n + r" "j < 64" for i j
    using L [rule_format, OF that(1)] that(2) by (simp add: bm_bit_def)
  have "a ! i = b ! i" if "i < n" for i
    by (rule bit_word_eqI) (rule eq, use that in auto)
  moreover have "bit (a ! n) j = bit (b ! n) j" if "j < r" for j
    by (rule eq) (use that assms in auto)
  ultimately show "?A \<and> ?B" by blast
next
  assume AB: "?A \<and> ?B"
  have "bm_bit a k = bm_bit b k" if k: "k < 64 * n + r" for k
  proof (cases "k div 64 < n")
    case False
    moreover have "k div 64 < Suc n" using k assms by (intro less_mult_imp_div_less) simp
    ultimately have "k div 64 = n" by simp
    moreover from this k have "k mod 64 < r" by (metis mult_div_mod_eq nat_add_left_cancel_less)
    ultimately show ?thesis using AB by (simp add: bm_bit_def)
  qed (use AB in \<open>simp add: bm_bit_def\<close>)
  then show ?L by blast
qed

lemma bitmap_cmp_eq:
  assumes "bitmap_ok a nr" "bitmap_ok b nr" "nr \<noteq> 0"
  shows "\<exists>r. bitmap_cmp a b nr = Some r \<and> (r = 0 \<longleftrightarrow> (\<forall>k<nr. bm_bit a k = bm_bit b k))"
proof -
  define n where "n = BITMAP_LONGS nr - 1"
  define r where "r = nr - n * 64"
  have r: "0 < r" "r \<le> 64" "nr = 64 * n + r" and n: "n < length a" "n < length b"
    using assms by (auto simp: n_def r_def BITMAP_LONGS_def DIV_CEIL_def bitmap_ok_def)
  have len: "length (concat (map word_bytes (take n a))) = length (concat (map word_bytes (take n b)))"
    using n by (simp add: concat_word_bytes_length)
  have "cmp_bytes (concat (map word_bytes (take n a))) (concat (map word_bytes (take n b))) = 0
    \<longleftrightarrow> take n a = take n b"
    unfolding cmp_bytes_eq_length [OF len] by (rule concat_word_bytes_inj) (use n in simp)
  also have "\<dots> \<longleftrightarrow> (\<forall>i<n. a ! i = b ! i)"
    using n by (auto simp: list_eq_iff_nth_eq)
  finally have pre: "cmp_bytes (concat (map word_bytes (take n a)))
      (concat (map word_bytes (take n b))) = 0 \<longleftrightarrow> (\<forall>i<n. a ! i = b ! i)" .
  have all: "(\<forall>k<nr. bm_bit a k = bm_bit b k) \<longleftrightarrow>
      (\<forall>i<n. a ! i = b ! i) \<and> (\<forall>j<r. bit (a ! n) j = bit (b ! n) j)"
    unfolding r(3) by (rule bits_of_prefix) (use r in auto)
  show ?thesis
    using assms(3) n pre masked_eq_iff [OF r(2,1), of "a ! n" "b ! n"]
    unfolding all bitmap_cmp_def Let_def n_def [symmetric] r_def [symmetric]
    by (cases "n = 0") auto
qed

section \<open>Properties\<close>

text \<open>
  C35: setting, clearing and testing. Inside the array, \<^verbatim>\<open>bitmap_set\<close> and
  \<^verbatim>\<open>bitmap_clear\<close> change exactly the named bit and keep the array's length, and
  \<^verbatim>\<open>bitmap_test\<close> reads it; outside, they access memory that is not the bitmap's.
\<close>

theorem bitmap_set_clear_test:
  assumes "b < 64 * length bm"
  shows "\<exists>s c. bitmap_set bm b = Some s \<and> bitmap_clear bm b = Some c
    \<and> length s = length bm \<and> length c = length bm
    \<and> (\<forall>k. bm_bit s k = (k = b \<or> bm_bit bm k)) \<and> (\<forall>k. bm_bit c k = (k \<noteq> b \<and> bm_bit bm k))
    \<and> bitmap_test bm b = Some (bm_bit bm b) \<and> bitmap_test s b = Some True \<and> bitmap_test c b = Some False"
proof -
  obtain s c where s: "bitmap_set bm b = Some s" "length s = length bm" "\<forall>k. bm_bit s k = (k = b \<or> bm_bit bm k)"
    and c: "bitmap_clear bm b = Some c" "length c = length bm" "\<forall>k. bm_bit c k = (k \<noteq> b \<and> bm_bit bm k)"
    using bitmap_set_eq [OF assms] bitmap_clear_eq [OF assms] by blast
  then show ?thesis using assms by (simp add: bitmap_test_eq)
qed

theorem bitmap_set_clear_test_witness:
  "\<exists>s c. bitmap_set [5, 0] 70 = Some s \<and> bitmap_clear [5, 0] 70 = Some c
    \<and> length s = length [5, 0 :: u64] \<and> length c = length [5, 0 :: u64]
    \<and> (\<forall>k. bm_bit s k = (k = 70 \<or> bm_bit [5, 0] k))
    \<and> (\<forall>k. bm_bit c k = (k \<noteq> 70 \<and> bm_bit [5, 0] k))
    \<and> bitmap_test [5, 0] 70 = Some (bm_bit [5, 0] 70)
    \<and> bitmap_test s 70 = Some True \<and> bitmap_test c 70 = Some False"
  by (rule bitmap_set_clear_test) simp

text \<open>
  C33: \<^verbatim>\<open>bitmap_find_next_bit\<close>, the word-at-a-time search, started below the size. A search for a clear bit returns the
  first one below the size, or -1 when there is none, and so does a search for a set bit when no bit at or above the size is set
  in the last word: that is what its comment promises. Otherwise a search for a set bit still returns the first one below the size, but when there
  is none it returns the first bit set above the size, where the comment promises -1.
\<close>

theorem bitmap_find_next_scan:
  assumes "bitmap_ok bm nr" "b < nr"
  shows "bitmap_find_next_zero bm nr b = Some (search_result (find (\<lambda>k. \<not> bm_bit bm k) [b..<nr]))
    \<and> (tail_clear bm nr \<longrightarrow> bitmap_find_next bm nr b = Some (search_result (find (bm_bit bm) [b..<nr])))
    \<and> bitmap_find_next bm nr b = Some (search_result (case find (bm_bit bm) [b..<nr] of
        Some k \<Rightarrow> Some k | None \<Rightarrow> find (bm_bit bm) [nr..<64 * BITMAP_LONGS nr]))"
proof -
  have w: "wanted bm nr False = bm_bit bm" by (simp add: wanted_def fun_eq_iff)
  have all: "bitmap_find_next bm nr b = Some (search_result (find (bm_bit bm) [b..<64 * BITMAP_LONGS nr]))"
    using assms w by (simp add: bitmap_find_next_def bitmap_find_next_bit_eq bitmap_ok_def)
  have "nr \<le> 64 * BITMAP_LONGS nr" by (simp add: BITMAP_LONGS_def DIV_CEIL_def)
  then have "[b..<64 * BITMAP_LONGS nr] = [b..<nr] @ [nr..<64 * BITMAP_LONGS nr]" using assms(2) by (metis le_add_diff_inverse less_imp_le upt_add_eq_append)
  moreover have "find P (xs @ ys) = (case find P xs of Some k \<Rightarrow> Some k | None \<Rightarrow> find P ys)" for P :: "nat \<Rightarrow> bool" and xs ys
    by (induction xs) auto
  ultimately show ?thesis
    using assms clear_bits.search_first set_bits.search_first [of bm nr b] all by simp
qed

theorem bitmap_find_next_scan_witness:
  "bitmap_find_next_zero [7, 0] 100 1 = Some (search_result (find (\<lambda>k. \<not> bm_bit [7, 0] k) [1..<100]))
    \<and> bitmap_find_next [7, 0] 100 1 = Some (search_result (case find (bm_bit [7, 0]) [1..<100] of
        Some k \<Rightarrow> Some k | None \<Rightarrow> find (bm_bit [7, 0]) [100..<64 * BITMAP_LONGS 100]))"
  using bitmap_find_next_scan [of "[7, 0]" 100 1] by (simp add: bitmap_ok_def BITMAP_LONGS_def DIV_CEIL_def)

text \<open>
  C35: the iteration macros terminate and run their body for every matching bit below the size,
  each once and in ascending order, the set bits and the clear bits, when no bit at or above the size is set in the last word. (With such a bit,
  as after \<^verbatim>\<open>bitmap_fill\<close> of a size that is not a multiple of the word's, \<^verbatim>\<open>bitmap_for_each\<close> may visit it too.)
\<close>

theorem bitmap_iteration_complete:
  assumes "bitmap_ok bm nr" "tail_clear bm nr"
  shows "bitmap_for_each bm nr = Some (filter (bm_bit bm) [0..<nr])
    \<and> bitmap_for_each_zero bm nr = Some (filter (\<lambda>k. \<not> bm_bit bm k) [0..<nr])"
  using assms set_bits.for_each_visits clear_bits.for_each_visits
  by (simp add: bitmap_for_each_def bitmap_for_each_zero_def)

theorem bitmap_iteration_complete_witness:
  "bitmap_for_each [5] 3 = Some (filter (bm_bit [5]) [0..<3])
    \<and> bitmap_for_each_zero [5] 3 = Some (filter (\<lambda>k. \<not> bm_bit [5] k) [0..<3])"
proof (rule bitmap_iteration_complete)
  have "\<not> bit (5 :: u64) k" if "3 \<le> k" for k
  proof -
    have "(5 :: u64) = 5 AND mask 3" by (simp add: mask_eq_exp_minus_1)
    then show ?thesis using that by (metis bit_and_iff bit_mask_iff linorder_not_le)
  qed
  then show "tail_clear [5] 3"
    by (auto simp: tail_clear_def bm_bit_def BITMAP_LONGS_def DIV_CEIL_def)
qed (simp add: bitmap_ok_def BITMAP_LONGS_def DIV_CEIL_def)

text \<open>
  C36: \<^verbatim>\<open>bitmap_cmp\<close> returns 0 exactly when the two bitmaps agree on their
  first \<^verbatim>\<open>nr_bits\<close> bits, whatever the unused bits of the last word hold.
\<close>

theorem bitmap_cmp_decides_equality:
  assumes "bitmap_ok a nr" "bitmap_ok b nr" "nr \<noteq> 0"
  shows "\<exists>r. bitmap_cmp a b nr = Some r \<and> (r = 0 \<longleftrightarrow> (\<forall>k<nr. bm_bit a k = bm_bit b k))"
  using assms by (rule bitmap_cmp_eq)

theorem bitmap_cmp_decides_equality_witness:
  "\<exists>r. bitmap_cmp [1, 17] [1, 1] 68 = Some r
    \<and> (r = 0 \<longleftrightarrow> (\<forall>k<68. bm_bit [1, 17] k = bm_bit [1, 1] k))"
  by (rule bitmap_cmp_decides_equality) (simp_all add: bitmap_ok_def BITMAP_LONGS_def DIV_CEIL_def)

end
