(* ===== verification/Cbuf.thy ===== *)
theory Cbuf
  imports Arith Cstring
begin

text \<open>
  \<^verbatim>\<open>kern/cbuf.h\<close> and \<^verbatim>\<open>kern/cbuf.c\<close>: the circular byte
  buffer. The descriptor is a record, the storage it points to is a range of the flat memory
  of \<^verbatim>\<open>Cstring\<close>, and the copies are calls of its \<open>memcpy\<close>. The
  absolute indexes are 64-bit words that wrap around. A returned 0 is \<open>None\<close> and a
  returned error number \<open>Some\<close> of it. \<open>cbuf_content\<close> is the abstraction: the
  bytes in the buffer, oldest first.
\<close>

unbundle bit_operations_syntax

section \<open>The descriptor and its operations\<close>

record cbuf =
  cb_buf :: u64
  cb_capacity :: u64
  cb_start :: u64
  cb_end :: u64

definition cbuf_capacity :: "cbuf \<Rightarrow> u64" where
  "cbuf_capacity c = cb_capacity c"

definition cbuf_start :: "cbuf \<Rightarrow> u64" where
  "cbuf_start c = cb_start c"

definition cbuf_end :: "cbuf \<Rightarrow> u64" where
  "cbuf_end c = cb_end c"

definition cbuf_size :: "cbuf \<Rightarrow> u64" where
  "cbuf_size c = cb_end c - cb_start c"

definition cbuf_avail_size :: "cbuf \<Rightarrow> u64" where
  "cbuf_avail_size c = cbuf_capacity c - cbuf_size c"

definition cbuf_clear :: "cbuf \<Rightarrow> cbuf" where
  "cbuf_clear c = c\<lparr>cb_start := cb_end c\<rparr>"

definition cbuf_range_valid :: "cbuf \<Rightarrow> u64 \<Rightarrow> u64 \<Rightarrow> bool" where
  "cbuf_range_valid c s e \<longleftrightarrow> e - s \<le> cbuf_size c
     \<and> s - cb_start c \<le> cbuf_size c
     \<and> cb_end c - e \<le> cbuf_size c"

definition CBUF_INIT_INDEX :: u64 where
  "CBUF_INIT_INDEX = - 500"

definition cbuf_init :: "u64 \<Rightarrow> u64 \<Rightarrow> cbuf option" where
  "cbuf_init buf capacity = do {
     assert_that (ISP2 capacity);
     Some \<lparr>cb_buf = buf, cb_capacity = capacity,
       cb_start = CBUF_INIT_INDEX, cb_end = CBUF_INIT_INDEX\<rparr> }"

definition cbuf_index :: "cbuf \<Rightarrow> u64 \<Rightarrow> u64" where
  "cbuf_index c abs_index = abs_index AND (cb_capacity c - 1)"

definition cbuf_update_start :: "cbuf \<Rightarrow> cbuf" where
  "cbuf_update_start c =
     (if cbuf_size c > cb_capacity c then c\<lparr>cb_start := cb_end c - cb_capacity c\<rparr> else c)"

text \<open>The copies of \<^verbatim>\<open>cbuf_write\<close>, in two parts when the range
  runs past the end of the storage.\<close>

definition cbuf_copy_in :: "cbuf \<Rightarrow> u64 \<Rightarrow> u64 \<Rightarrow> u64 \<Rightarrow> mem \<Rightarrow> mem option" where
  "cbuf_copy_in c s buf sz m =
     (let e = s + sz;
          buf_end = cb_buf c + cb_capacity c
      in do {
        (s, buf, sz, m) \<leftarrow>
          (if e \<le> cb_buf c \<or> buf_end < e then do {
             let skip = buf_end - s;
             (_, m) \<leftarrow> memcpy s buf skip m;
             Some (cb_buf c, buf + skip, sz - skip, m) }
           else Some (s, buf, sz, m));
        (_, m) \<leftarrow> memcpy s buf sz m;
        Some m })"

definition cbuf_write :: "cbuf \<Rightarrow> u64 \<Rightarrow> u64 \<Rightarrow> u64 \<Rightarrow> mem \<Rightarrow> (errno option \<times> cbuf \<times> mem) option" where
  "cbuf_write c index buf sz m =
     (if \<not> cbuf_range_valid c index (cb_end c) then Some (Some EINVAL, c, m)
      else let
        new_end = index + sz;
        (c, buf, index, sz) =
          (if \<not> cbuf_range_valid c (cb_start c) new_end then let
             c = c\<lparr>cb_end := new_end\<rparr>
           in (if sz > cbuf_capacity c then let
                 skip = sz - cbuf_capacity c
               in (c, buf + skip, index + skip, cbuf_capacity c)
               else (c, buf, index, sz))
           else (c, buf, index, sz))
      in do {
        m \<leftarrow> cbuf_copy_in c (cb_buf c + cbuf_index c index) buf sz m;
        Some (None, cbuf_update_start c, m) })"

definition cbuf_push :: "cbuf \<Rightarrow> u64 \<Rightarrow> u64 \<Rightarrow> bool \<Rightarrow> mem \<Rightarrow> (errno option \<times> cbuf \<times> mem) option" where
  "cbuf_push c buf sz erase m =
     (if \<not> erase \<and> sz > cbuf_capacity c - cbuf_size c then Some (Some EAGAIN, c, m)
      else cbuf_write c (cbuf_end c) buf sz m)"

definition cbuf_copy_out :: "cbuf \<Rightarrow> u64 \<Rightarrow> u64 \<Rightarrow> u64 \<Rightarrow> mem \<Rightarrow> mem option" where
  "cbuf_copy_out c s buf sz m =
     (let e = s + sz;
          buf_end = cb_buf c + cb_capacity c
      in do {
        (s, buf, sz, m) \<leftarrow>
          (if cb_buf c < e \<and> e \<le> buf_end then Some (s, buf, sz, m)
           else do {
             let n = buf_end - s;
             (_, m) \<leftarrow> memcpy buf s n m;
             Some (cb_buf c, buf + n, sz - n, m) });
        (_, m) \<leftarrow> memcpy buf s sz m;
        Some m })"

text \<open>The extra result is the value left in \<^verbatim>\<open>*sizep\<close>.\<close>

definition cbuf_read :: "cbuf \<Rightarrow> u64 \<Rightarrow> u64 \<Rightarrow> u64 \<Rightarrow> mem \<Rightarrow> (errno option \<times> u64 \<times> mem) option" where
  "cbuf_read c index buf sizep m =
     (if \<not> cbuf_range_valid c index (index + 1) then Some (Some EINVAL, sizep, m)
      else let
        avail = cb_end c - index;
        sizep = (if sizep > avail then avail else sizep)
      in do {
        m \<leftarrow> cbuf_copy_out c (cb_buf c + cbuf_index c index) buf sizep m;
        Some (None, sizep, m) })"

definition cbuf_pop :: "cbuf \<Rightarrow> u64 \<Rightarrow> u64 \<Rightarrow> mem \<Rightarrow> (errno option \<times> u64 \<times> cbuf \<times> mem) option" where
  "cbuf_pop c buf sizep m =
     (if cbuf_size c = 0 then Some (Some EAGAIN, sizep, c, m)
      else do {
        (error, sizep, m) \<leftarrow> cbuf_read c (cbuf_start c) buf sizep m;
        assert_that (error = None);
        Some (None, sizep, c\<lparr>cb_start := cb_start c + sizep\<rparr>, m) })"

definition cbuf_pushb :: "cbuf \<Rightarrow> u8 \<Rightarrow> bool \<Rightarrow> mem \<Rightarrow> (errno option \<times> cbuf \<times> mem) option" where
  "cbuf_pushb c byte erase m =
     (if \<not> erase \<and> cbuf_capacity c - cbuf_size c = 0 then Some (Some EAGAIN, c, m)
      else do {
        m \<leftarrow> store m (cb_buf c + cbuf_index c (cb_end c)) byte;
        let c = c\<lparr>cb_end := cb_end c + 1\<rparr>;
        Some (None, cbuf_update_start c, m) })"

definition cbuf_popb :: "cbuf \<Rightarrow> u64 \<Rightarrow> mem \<Rightarrow> (errno option \<times> cbuf \<times> mem) option" where
  "cbuf_popb c bytep m =
     (if cbuf_size c = 0 then Some (Some EAGAIN, c, m)
      else do {
        b \<leftarrow> load m (cb_buf c + cbuf_index c (cb_start c));
        m \<leftarrow> store m bytep b;
        Some (None, c\<lparr>cb_start := cb_start c + 1\<rparr>, m) })"

section \<open>Invariant and abstraction\<close>

definition cbuf_inv :: "cbuf \<Rightarrow> mem \<Rightarrow> bool" where
  "cbuf_inv c m \<longleftrightarrow> (\<exists>k<64. cb_capacity c = 2 ^ k)
     \<and> unat (cb_buf c) + unat (cb_capacity c) < 2 ^ 64
     \<and> cbuf_size c \<le> cb_capacity c
     \<and> mapped m (cb_buf c) (unat (cb_capacity c))"

definition cbuf_slot :: "cbuf \<Rightarrow> nat \<Rightarrow> u64" where
  "cbuf_slot c p = cb_buf c + cbuf_index c (cb_start c + of_nat p)"

definition cbuf_content :: "cbuf \<Rightarrow> mem \<Rightarrow> u8 list" where
  "cbuf_content c m = map (\<lambda>p. the (m (cbuf_slot c p))) [0..<unat (cbuf_size c)]"

text \<open>The caller's object and the storage do not overlap.\<close>

definition cbuf_apart :: "cbuf \<Rightarrow> u64 \<Rightarrow> nat \<Rightarrow> bool" where
  "cbuf_apart c a n \<longleftrightarrow> (\<forall>i<n. unat (cb_capacity c) \<le> unat (a + of_nat i - cb_buf c))"

section \<open>Addresses of the storage\<close>

lemma unat_of_nat_diff:
  fixes i p :: nat
  assumes "i < 2 ^ 64" "p < 2 ^ 64"
  shows "unat (of_nat i - of_nat p :: u64) = (if p \<le> i then i - p else 2 ^ 64 + i - p)"
proof (cases "p \<le> i")
  case True
  then have "unat (of_nat i - of_nat p :: u64) = unat (of_nat (i - p) :: u64)" by simp
  also have "\<dots> = i - p" using assms by (intro unat_of_nat_lt) simp
  finally show ?thesis using True by simp
next
  case False
  then have "(of_nat i :: u64) < of_nat p" using assms by (simp add: word_less_unat unat_of_nat_lt)
  from unat_sub_wrap [OF this] show ?thesis using False assms by (simp add: unat_of_nat_lt)
qed

lemma write_bytes_at:
  assumes "i < 2 ^ 64" "p + length xs \<le> 2 ^ 64"
  shows "write_bytes m (b + of_nat p) xs (b + of_nat i)
    = (if p \<le> i \<and> i < p + length xs then Some (xs ! (i - p)) else m (b + of_nat i))"
proof (cases "xs = []")
  case False
  then have "0 < length xs" by simp
  then have "p < 2 ^ 64" using assms(2) by linarith
  moreover have "(b + of_nat i) - (b + of_nat p) = (of_nat i - of_nat p :: u64)" by simp
  ultimately show ?thesis
    using assms unfolding write_bytes_def by (auto simp: unat_of_nat_diff simp del: of_nat_diff)
qed auto

lemma mem_bytes_write_apart:
  assumes "\<forall>i<length xs. length ys \<le> unat (a + of_nat i - d)"
  shows "mem_bytes (write_bytes m d ys) a xs = mem_bytes m a xs"
  using assms by (auto simp: mem_bytes_iff write_bytes_out)

lemma mapped_write: "mapped m a n \<Longrightarrow> mapped (write_bytes m d ys) a n"
  by (auto simp: mapped_def write_bytes_def)

lemma mapped_offset: "mapped m b n \<Longrightarrow> p + k \<le> n \<Longrightarrow> mapped m (b + of_nat p) k"
  unfolding mapped_def by (metis add.assoc nat_add_left_cancel_less less_le_trans of_nat_add)

lemma capacity_facts:
  assumes "cbuf_inv c m"
  shows "0 < unat (cb_capacity c)" "unat (cb_capacity c) dvd 2 ^ 64"
    "unat (cb_capacity c) \<le> 2 ^ 63" "unat (cbuf_size c) \<le> unat (cb_capacity c)"
    "unat (cb_buf c) + unat (cb_capacity c) < 2 ^ 64"
    "mapped m (cb_buf c) (unat (cb_capacity c))"
    "unat (cbuf_index c a) = unat a mod unat (cb_capacity c)"
proof -
  obtain k where k: "k < 64" "cb_capacity c = 2 ^ k" using assms by (auto simp: cbuf_inv_def)
  have cap: "unat (cb_capacity c) = 2 ^ k" using k by (simp add: unat_pow2)
  show "0 < unat (cb_capacity c)" "unat (cb_capacity c) dvd 2 ^ 64" "unat (cb_capacity c) \<le> 2 ^ 63"
    using k(1) le_imp_power_dvd [of k 64 "2 :: nat"] power_increasing [of k 63 "2 :: nat"]
    unfolding cap by auto
  show "unat (cbuf_index c a) = unat a mod unat (cb_capacity c)"
    unfolding cap unfolding cbuf_index_def k(2) pow2_minus_1 [OF k(1)] by (rule unat_and_mask)
qed (use assms in \<open>auto simp: cbuf_inv_def word_le_unat\<close>)

lemma cbuf_index_at:
  assumes "cbuf_inv c m"
  shows "unat (cbuf_index c (cb_start c + of_nat p)) = (unat (cb_start c) + p) mod unat (cb_capacity c)"
  using capacity_facts(2) [OF assms]
  by (simp add: capacity_facts(7) [OF assms] unat_word_ariths unat_of_nat take_bit_eq_mod
      mod_mod_cancel mod_add_right_eq)

text \<open>
  A transfer of no byte at the first byte of the storage is mistaken for one that wraps around: its end is not past the
  beginning of the storage.
\<close>

definition cbuf_safe :: "cbuf \<Rightarrow> u64 \<Rightarrow> nat \<Rightarrow> bool" where
  "cbuf_safe c index n \<longleftrightarrow> 0 < n \<or> cbuf_index c index \<noteq> 0"

lemma cbuf_safe_at:
  assumes "cbuf_inv c m" "cbuf_safe c (cb_start c + of_nat p) n"
  shows "0 < n \<or> 0 < (unat (cb_start c) + p) mod unat (cb_capacity c)"
  unfolding cbuf_index_at [OF assms(1), symmetric] using assms(2) by (auto simp: cbuf_safe_def unat_gt_0)

lemma cbuf_slot_eq:
  assumes "cbuf_inv c m"
  shows "cbuf_slot c p = cb_buf c + of_nat ((unat (cb_start c) + p) mod unat (cb_capacity c))"
proof -
  note cbuf_index_at [OF assms, of p]
  from arg_cong [OF this, where f = "of_nat :: nat \<Rightarrow> u64"] show ?thesis
    by (simp add: cbuf_slot_def)
qed

section \<open>Copying into and out of the storage\<close>

lemma mod_less_twice: "(x::nat) < 2 * c \<Longrightarrow> x mod c = (if x < c then x else x - c)"
  by (auto simp: le_mod_geq)

lemma wrap_test:
  fixes b cap sz :: u64
  assumes "unat b + unat cap < 2 ^ 64" "i0 < unat cap" "unat sz \<le> unat cap" "0 < unat sz \<or> 0 < i0"
    and "unat cap \<le> 2 ^ 63"
  shows "(b + of_nat i0 + sz \<le> b \<or> b + cap < b + of_nat i0 + sz) \<longleftrightarrow> unat cap < i0 + unat sz"
proof -
  have s: "unat (b + of_nat i0) = unat b + i0"
    using assms by (subst unat_add_lt) (simp_all add: unat_of_nat_lt)
  have c: "unat (b + cap) = unat b + unat cap"
    using assms by (simp add: unat_add_lt)
  show ?thesis
  proof (cases "unat b + i0 + unat sz < 2 ^ 64")
    case True
    then have "unat (b + of_nat i0 + sz) = unat b + i0 + unat sz"
      by (subst unat_add_lt) (simp_all add: s)
    then show ?thesis using assms c by (auto simp: word_le_unat word_less_unat)
  next
    case False
    then have "unat (b + of_nat i0 + sz) = unat b + i0 + unat sz - 2 ^ 64"
      unfolding unat_plus_if' [of "b + of_nat i0" sz] s by simp
    then show ?thesis using assms False by (auto simp: word_le_unat)
  qed
qed

lemma apart_gap:
  assumes "cbuf_apart c buf n" "unat (cb_capacity c) \<le> 2 ^ 63"
    and "k < unat (cb_capacity c)" "p + l \<le> n"
  shows "l \<le> unat (cb_buf c + of_nat k - (buf + of_nat p))"
proof (rule ccontr)
  let ?u = "unat (cb_buf c + of_nat k - (buf + of_nat p))"
  assume "\<not> l \<le> ?u"
  then have "unat (cb_capacity c) \<le> unat (buf + of_nat (p + ?u) - cb_buf c)"
    using assms(1,4) by (simp only: cbuf_apart_def)
  moreover have "buf + of_nat (p + ?u) - cb_buf c = of_nat k" by simp
  ultimately show False using assms(2,3) by (simp add: unat_of_nat_lt)
qed

lemma ring_positions:
  fixes b :: u64
  assumes at: "\<And>i. i < 2 ^ 64 \<Longrightarrow>
      m' (b + of_nat i) = (if W i then Some (f i) else m (b + of_nat i))"
    and pos: "\<And>j. j < cap \<Longrightarrow> (W ((i0 + j) mod cap) \<longleftrightarrow> j < length xs)
      \<and> (j < length xs \<longrightarrow> f ((i0 + j) mod cap) = xs ! j)"
    and out: "\<And>i. cap \<le> i \<Longrightarrow> \<not> W i" and cap: "0 < cap" "cap \<le> 2 ^ 63"
  shows "(\<forall>j<cap. m' (b + of_nat ((i0 + j) mod cap))
        = (if j < length xs then Some (xs ! j) else m (b + of_nat ((i0 + j) mod cap))))
    \<and> (\<forall>x. cap \<le> unat (x - b) \<longrightarrow> m' x = m x)"
proof (intro conjI allI impI)
  fix j assume "j < cap"
  moreover have "(i0 + j) mod cap < cap" using cap(1) by simp
  then have "(i0 + j) mod cap < 2 ^ 64" using cap(2) by simp
  ultimately show "m' (b + of_nat ((i0 + j) mod cap))
        = (if j < length xs then Some (xs ! j) else m (b + of_nat ((i0 + j) mod cap)))"
    using at pos by presburger
next
  fix x assume "cap \<le> unat (x - b)"
  moreover have "b + of_nat (unat (x - b)) = x" by simp
  ultimately show "m' x = m x" using at [of "unat (x - b)"] out unat_lt_64 [of "x - b"] by simp
qed

lemma cbuf_copy_in_spec:
  assumes inv: "cbuf_inv c m" and i0: "i0 < unat (cb_capacity c)"
    and src: "mem_bytes m buf xs" and apart: "cbuf_apart c buf (length xs)"
    and n: "unat sz = length xs" "0 < length xs \<or> 0 < i0" "length xs \<le> unat (cb_capacity c)"
  shows "\<exists>m'. cbuf_copy_in c (cb_buf c + of_nat i0) buf sz m = Some m'
    \<and> (\<forall>j<unat (cb_capacity c). m' (cb_buf c + of_nat ((i0 + j) mod unat (cb_capacity c)))
        = (if j < length xs then Some (xs ! j) else m (cb_buf c + of_nat ((i0 + j) mod unat (cb_capacity c)))))
    \<and> (\<forall>x. unat (cb_capacity c) \<le> unat (x - cb_buf c) \<longrightarrow> m' x = m x)"
proof -
  let ?b = "cb_buf c" and ?cap = "unat (cb_capacity c)"
  let ?test = "?b + of_nat i0 + sz \<le> ?b \<or> ?b + cb_capacity c < ?b + of_nat i0 + sz"
  note cap = capacity_facts [OF inv]
  note gap = apart_gap [OF apart cap(3)]
  have test: "?test \<longleftrightarrow> ?cap < i0 + length xs"
    using wrap_test [OF cap(5) i0, of sz] n cap(3) by simp
  have j: "(i0 + j) mod ?cap = (if i0 + j < ?cap then i0 + j else i0 + j - ?cap)" if "j < ?cap" for j
    using that i0 by (intro mod_less_twice) simp
  show ?thesis
  proof (cases "?cap < i0 + length xs")
    case False
    let ?m = "write_bytes m (?b + of_nat i0) xs"
    have "memcpy (?b + of_nat i0) buf sz m = Some (?b + of_nat i0, ?m)"
      using src n gap [OF i0, of 0 "length xs"] cap(3) mapped_offset [OF cap(6), of i0 "length xs"] False
      by (intro memcpy_write) auto
    then have "cbuf_copy_in c (?b + of_nat i0) buf sz m = Some ?m"
      using test False by (simp add: cbuf_copy_in_def Let_def)
    then show ?thesis
      using False cap(1,3)
      by (intro exI [of _ ?m] conjI ring_positions
          [where W = "\<lambda>i. i0 \<le> i \<and> i < i0 + length xs" and f = "\<lambda>i. xs ! (i - i0)"])
        (auto simp: j write_bytes_at)
  next
    case True
    let ?skip = "?cap - i0"
    let ?m1 = "write_bytes m (?b + of_nat i0) (take ?skip xs)"
    let ?m2 = "write_bytes ?m1 (?b + of_nat 0) (drop ?skip xs)"
    have w: "?b + cb_capacity c - (?b + of_nat i0) = of_nat ?skip"
      using i0 by (simp add: of_nat_diff)
    have sk: "unat (of_nat ?skip :: u64) = ?skip" using cap(3) by (intro unat_of_nat_lt) simp
    have szs: "unat (sz - of_nat ?skip) = length (drop ?skip xs)"
      using n(1) True sk by (subst unat_sub_le) (auto simp: word_le_unat)
    have lt: "length (take ?skip xs) = ?skip" using True by simp
    have b1: "mem_bytes m buf (take ?skip xs)" "mem_bytes m (buf + of_nat ?skip) (drop ?skip xs)"
      using src mem_bytes_append [of m buf "take ?skip xs" "drop ?skip xs"] lt
      by (simp_all del: length_take)
    have g1: "length (take ?skip xs) \<le> unat (?b + of_nat i0 - buf)"
      using gap [OF i0, of 0 "length (take ?skip xs)"] by simp
    have c1: "memcpy (?b + of_nat i0) buf (of_nat ?skip) m = Some (?b + of_nat i0, ?m1)"
      using b1(1) g1 n cap(3) mapped_offset [OF cap(6), of i0 ?skip] i0 True sk
      by (intro memcpy_write) (auto simp: min_def)
    have "?skip \<le> unat (buf + of_nat ?skip + of_nat i - (?b + of_nat i0))"
      if "i < length (drop ?skip xs)" for i
    proof -
      let ?u = "buf + of_nat (?skip + i) - ?b"
      have u: "?cap \<le> unat ?u" using apart that by (simp add: cbuf_apart_def del: of_nat_add)
      have "buf + of_nat ?skip + of_nat i - (?b + of_nat i0) = ?u - of_nat i0"
        by (simp add: algebra_simps del: of_nat_diff)
      also have "unat \<dots> = unat ?u - i0"
        using u i0 cap(3) by (subst unat_sub_le) (auto simp: word_le_unat unat_of_nat_lt)
      finally show ?thesis using u by linarith
    qed
    then have "mem_bytes ?m1 (buf + of_nat ?skip) (drop ?skip xs)"
      using b1(2) by (subst mem_bytes_write_apart) auto
    moreover have "length (drop ?skip xs) \<le> unat (?b - (buf + of_nat ?skip))"
      using gap [of 0 ?skip "length (drop ?skip xs)"] cap(1) True by simp
    moreover have "mapped ?m1 ?b (length (drop ?skip xs))"
      using mapped_mono [OF cap(6)] n by (intro mapped_write) simp
    ultimately have c2: "memcpy ?b (buf + of_nat ?skip) (sz - of_nat ?skip) ?m1 = Some (?b, ?m2)"
      using memcpy_write [of ?m1 "buf + of_nat ?skip" "drop ?skip xs" ?b] szs n cap(3) by simp
    have "cbuf_copy_in c (?b + of_nat i0) buf sz m = Some ?m2"
      using test True c1 c2 unfolding cbuf_copy_in_def Let_def by (simp only: w) simp
    moreover have "?m2 (?b + of_nat i) = (if i < length xs - ?skip \<or> i0 \<le> i \<and> i < ?cap
        then Some (if i < length xs - ?skip then xs ! (?skip + i) else xs ! (i - i0))
        else m (?b + of_nat i))" if "i < 2 ^ 64" for i
      using that i0 True cap(3) n(3) by (subst write_bytes_at) (auto simp: write_bytes_at)
    ultimately show ?thesis
      using True cap(1,3) i0 n(3)
      by (intro exI [of _ ?m2] conjI ring_positions
          [where W = "\<lambda>i. i < length xs - ?skip \<or> i0 \<le> i \<and> i < ?cap"
            and f = "\<lambda>i. if i < length xs - ?skip then xs ! (?skip + i) else xs ! (i - i0)"])
        (auto simp: j)
  qed
qed

lemma write_bytes_append:
  assumes "length xs + length ys < 2 ^ 64"
  shows "write_bytes (write_bytes m a xs) (a + of_nat (length xs)) ys = write_bytes m a (xs @ ys)"
  using assms
proof (induction ys rule: rev_induct)
  case (snoc y ys)
  then show ?case
    using write_bytes_snoc [of "xs @ ys" m a y] write_bytes_snoc [of ys "write_bytes m a xs" _ y]
    by (simp add: algebra_simps)
qed simp

lemma apart_above:
  assumes "cbuf_apart c buf n" "i < n" "i0 < unat (cb_capacity c)" "unat (cb_capacity c) \<le> 2 ^ 63"
  shows "unat (cb_capacity c) - i0 \<le> unat (buf + of_nat i - (cb_buf c + of_nat i0))"
proof -
  let ?u = "buf + of_nat i - cb_buf c"
  have u: "unat (cb_capacity c) \<le> unat ?u" using assms(1,2) by (simp add: cbuf_apart_def)
  have "buf + of_nat i - (cb_buf c + of_nat i0) = ?u - of_nat i0" by simp
  also have "unat \<dots> = unat ?u - i0"
    using u assms(3,4) by (subst unat_sub_le) (auto simp: word_le_unat unat_of_nat_lt)
  finally show ?thesis using u by linarith
qed

lemma cbuf_copy_out_spec:
  assumes inv: "cbuf_inv c m" and i0: "i0 < unat (cb_capacity c)"
    and dst: "mapped m buf (unat sz)" and apart: "cbuf_apart c buf (unat sz)"
    and n: "0 < unat sz \<or> 0 < i0" "unat sz \<le> unat (cb_capacity c)"
  shows "cbuf_copy_out c (cb_buf c + of_nat i0) buf sz m = Some (write_bytes m buf
    (map (\<lambda>j. the (m (cb_buf c + of_nat ((i0 + j) mod unat (cb_capacity c))))) [0..<unat sz]))"
    (is "_ = Some (write_bytes m buf ?full)")
proof -
  define ys where "ys = ?full"
  have len [simp]: "length ys = unat sz" by (simp add: ys_def)
  let ?b = "cb_buf c" and ?cap = "unat (cb_capacity c)" and ?n = "unat sz"
  let ?test = "?b < ?b + of_nat i0 + sz \<and> ?b + of_nat i0 + sz \<le> ?b + cb_capacity c"
  note cap = capacity_facts [OF inv]
  note gap = apart_gap [OF apart cap(3)]
  note above = apart_above [OF apart _ i0 cap(3)]
  have test: "?test \<longleftrightarrow> \<not> ?cap < i0 + ?n"
  proof -
    have "?test \<longleftrightarrow> \<not> (?b + of_nat i0 + sz \<le> ?b \<or> ?b + cb_capacity c < ?b + of_nat i0 + sz)"
      by (simp only: not_le not_less de_Morgan_disj)
    also have "\<dots> \<longleftrightarrow> \<not> ?cap < i0 + ?n"
      by (subst wrap_test [OF cap(5) i0 n(2,1) cap(3)]) (rule refl)
    finally show ?thesis .
  qed
  have nth: "ys ! k = the (m (?b + of_nat ((i0 + k) mod ?cap)))" if "k < ?n" for k
    using that by (simp add: ys_def)
  have ring: "m (?b + of_nat k) = Some (the (m (?b + of_nat k)))" if "k < ?cap" for k
    using cap(6) that by (simp add: mapped_def)
  show ?thesis
  proof (cases "?cap < i0 + ?n")
    case False
    have "mem_bytes m (?b + of_nat i0) ys"
      using ring False by (auto simp: mem_bytes_iff nth add.assoc simp flip: of_nat_add)
    moreover have "?n \<le> unat (buf - (?b + of_nat i0))"
      using above [of 0] False by (cases "?n = 0") simp_all
    ultimately have "memcpy buf (?b + of_nat i0) sz m = Some (buf, write_bytes m buf ys)"
      using dst n cap(3) by (intro memcpy_write) auto
    then show ?thesis using test False by (simp add: cbuf_copy_out_def Let_def flip: ys_def)
  next
    case True
    let ?skip = "?cap - i0"
    have w: "?b + cb_capacity c - (?b + of_nat i0) = of_nat ?skip"
      using i0 by (simp add: of_nat_diff)
    have sk: "unat (of_nat ?skip :: u64) = ?skip" using cap(3) by (intro unat_of_nat_lt) simp
    have lt: "length (take ?skip ys) = ?skip" using True by simp
    let ?m1 = "write_bytes m buf (take ?skip ys)"
    have "mem_bytes m (?b + of_nat i0) (take ?skip ys)"
      using ring by (auto simp: mem_bytes_iff nth add.assoc simp flip: of_nat_add)
    moreover have "?skip \<le> unat (buf - (?b + of_nat i0))"
      using above [of 0] True i0 by simp
    ultimately have c1: "memcpy buf (?b + of_nat i0) (of_nat ?skip) m = Some (buf, ?m1)"
      using mapped_mono [OF dst] True lt sk cap(3) by (intro memcpy_write) (auto simp del: length_take)
    have "m (?b + of_nat k) = Some (ys ! (?skip + k))" if "k < ?n - ?skip" for k
    proof -
      have "k < ?cap" "?skip + k < ?n" using that n(2) by auto
      moreover from this have "(i0 + (?skip + k)) mod ?cap = k" using i0 by simp
      ultimately show ?thesis using ring nth by simp
    qed
    then have "mem_bytes m ?b (drop ?skip ys)" by (simp add: mem_bytes_iff)
    moreover have "\<forall>k<length (drop ?skip ys). length (take ?skip ys) \<le> unat (?b + of_nat k - buf)"
      using gap [of _ 0 ?skip] True n(2) lt by (auto simp del: length_take)
    ultimately have "mem_bytes ?m1 ?b (drop ?skip ys)" by (simp only: mem_bytes_write_apart)
    moreover have "length (drop ?skip ys) \<le> unat (buf + of_nat ?skip - ?b)"
    proof -
      have "?skip < ?n" using True i0 by linarith
      from apart_above [OF apart this cap(1) cap(3)] show ?thesis using n(2) by simp
    qed
    moreover have "mapped ?m1 (buf + of_nat ?skip) (length (drop ?skip ys))"
      using True by (intro mapped_write mapped_offset [OF dst]) simp
    moreover have "unat (sz - of_nat ?skip) = length (drop ?skip ys)"
      using True sk by (subst unat_sub_le) (auto simp: word_le_unat)
    ultimately have c2: "memcpy (buf + of_nat ?skip) ?b (sz - of_nat ?skip) ?m1
        = Some (buf + of_nat ?skip, write_bytes ?m1 (buf + of_nat ?skip) (drop ?skip ys))"
      using n cap(3) by (intro memcpy_write) auto
    also have "write_bytes ?m1 (buf + of_nat ?skip) (drop ?skip ys) = write_bytes m buf ys"
    proof -
      have "length (take ?skip ys) + length (drop ?skip ys) = ?n" using True i0 by simp
      then show ?thesis
        using write_bytes_append [of "take ?skip ys" "drop ?skip ys" m buf] unat_lt_64 [of sz] lt
        by simp
    qed
    finally show ?thesis
      using test True c1 unfolding cbuf_copy_out_def Let_def ys_def [symmetric] by (simp only: w) simp
  qed
qed

section \<open>What the operations do to the content\<close>

definition ring_write :: "nat \<Rightarrow> nat \<Rightarrow> u8 list \<Rightarrow> u8 list \<Rightarrow> u8 list" where
  "ring_write cap off xs q =
     (let w = take off q @ xs @ drop (off + length xs) q in drop (length w - cap) w)"

lemma length_cbuf_content [simp]: "length (cbuf_content c m) = unat (cbuf_size c)"
  by (simp add: cbuf_content_def)

lemma cbuf_content_nth:
  "i < unat (cbuf_size c) \<Longrightarrow> cbuf_content c m ! i = the (m (cbuf_slot c i))"
  by (simp add: cbuf_content_def)

lemma cbuf_slot_mod:
  assumes "cbuf_inv c m" "p mod unat (cb_capacity c) = q mod unat (cb_capacity c)"
  shows "cbuf_slot c p = cbuf_slot c q"
  unfolding cbuf_slot_eq [OF assms(1)] using assms(2) by (metis mod_add_right_eq)

lemma cbuf_slot_shift:
  "cbuf_slot (c\<lparr>cb_start := cb_start c + of_nat k, cb_end := e\<rparr>) p = cbuf_slot c (k + p)"
  by (simp add: cbuf_slot_def cbuf_index_def add.assoc)

lemma copy_in_slots:
  assumes inv: "cbuf_inv c m" and src: "mem_bytes m buf xs" "cbuf_apart c buf (length xs)"
    and n: "unat sz = length xs" "0 < length xs \<or> 0 < (unat (cb_start c) + off) mod unat (cb_capacity c)" "length xs \<le> unat (cb_capacity c)"
  shows "\<exists>m'. cbuf_copy_in c (cbuf_slot c off) buf sz m = Some m'
    \<and> (\<forall>j<unat (cb_capacity c). m' (cbuf_slot c (off + j))
        = (if j < length xs then Some (xs ! j) else m (cbuf_slot c (off + j))))
    \<and> (\<forall>x. unat (cb_capacity c) \<le> unat (x - cb_buf c) \<longrightarrow> m' x = m x)"
proof -
  let ?cap = "unat (cb_capacity c)" and ?i0 = "(unat (cb_start c) + off) mod unat (cb_capacity c)"
  have "?i0 < ?cap" using capacity_facts(1) [OF inv] by simp
  from cbuf_copy_in_spec [OF inv this src n] show ?thesis
    by (simp add: cbuf_slot_eq [OF inv] mod_add_left_eq add.assoc cong: if_cong)
qed

lemma apart_drop:
  assumes "cbuf_apart c a n" "k + l \<le> n"
  shows "cbuf_apart c (a + of_nat k) l"
  unfolding cbuf_apart_def
proof (intro allI impI)
  fix i assume "i < l"
  then show "unat (cb_capacity c) \<le> unat (a + of_nat k + of_nat i - cb_buf c)"
    using assms(1) [unfolded cbuf_apart_def, rule_format, of "k + i"] assms(2)
    by (simp add: add.assoc)
qed

lemma ring_write_nth:
  assumes inv: "cbuf_inv c m" and off: "off \<le> unat (cbuf_size c)"
    and at: "\<forall>j<unat (cb_capacity c). m' (cbuf_slot c (off + length xs - length ys + j))
        = (if j < length ys then Some (ys ! j)
           else m (cbuf_slot c (off + length xs - length ys + j)))"
    and ys: "ys = drop (length xs - unat (cb_capacity c)) xs"
    and p: "max (unat (cbuf_size c)) (off + length xs) - unat (cb_capacity c) \<le> p"
      "p < max (unat (cbuf_size c)) (off + length xs)"
  shows "the (m' (cbuf_slot c p))
    = (take off (cbuf_content c m) @ xs @ drop (off + length xs) (cbuf_content c m)) ! p"
proof -
  let ?C = "cbuf_content c m" and ?cap = "unat (cb_capacity c)"
  let ?off' = "off + length xs - length ys"
  note cap = capacity_facts [OF inv]
  have ly: "length ys = min (length xs) ?cap" using ys by auto
  consider "off \<le> p" "?off' \<le> p" "p < off + length xs" | "off + length xs \<le> p" | "p < off"
    "length ys = length xs"
  proof -
    have "off \<le> ?off'" using ly by simp
    moreover have "length ys = length xs" if "p < ?off'" using that p(1) ly by linarith
    ultimately show ?thesis using that by (cases "?off' \<le> p"; cases "p < off + length xs") auto
  qed
  then show ?thesis
  proof cases
    case 1
    then have "m' (cbuf_slot c p) = Some (ys ! (p - ?off'))"
      using at [rule_format, of "p - ?off'"] ly by auto
    moreover have "ys ! (p - ?off') = xs ! (p - off)"
      using 1 ly ys by (cases "length xs \<le> ?cap") auto
    moreover have "p - off < length xs" using 1 by linarith
    ultimately show ?thesis using 1 off by (simp add: nth_append)
  next
    case 2
    then have "p < unat (cbuf_size c)" using p(2) by simp
    then have "m' (cbuf_slot c p) = m (cbuf_slot c p)"
      using at [rule_format, of "p - ?off'"] 2 ly cap(4) by auto
    moreover have "\<not> p - off < length xs" using 2 by linarith
    ultimately show ?thesis
      using 2 off \<open>p < unat (cbuf_size c)\<close> by (simp add: nth_append cbuf_content_nth)
  next
    case 3
    have slot: "cbuf_slot c (p + ?cap) = cbuf_slot c p"
      by (rule cbuf_slot_mod [OF inv]) simp
    have "p + ?cap - off < ?cap" "length ys \<le> p + ?cap - off"
      using 3 p(1) off cap(4) by auto
    moreover have "off + length xs - length ys + (p + ?cap - off) = p + ?cap"
      using 3 off cap(4) by simp
    ultimately have "m' (cbuf_slot c p) = m (cbuf_slot c p)"
      using at [rule_format, of "p + ?cap - off"] slot by simp
    then show ?thesis using 3 off by (simp add: nth_append cbuf_content_nth)
  qed
qed

lemma cbuf_end_eq: "cb_end c = cb_start c + of_nat (unat (cbuf_size c))"
  by (simp add: cbuf_size_def)

lemma unat_size_diff:
  fixes a :: u64
  assumes "k \<le> unat a"
  shows "unat (a - of_nat k) = unat a - k"
proof -
  have "unat (of_nat k :: u64) = k" using assms unat_lt_64 [of a] by (intro unat_of_nat_lt) simp
  then show ?thesis using assms by (simp add: unat_sub_le word_le_unat)
qed

lemma range_valid_iff:
  assumes "e \<le> unat (cbuf_size c) + 2 ^ 63" "s \<le> e" "unat (cbuf_size c) \<le> 2 ^ 63" "e < 2 ^ 64"
  shows "cbuf_range_valid c (cb_start c + of_nat s) (cb_start c + of_nat e) \<longleftrightarrow>
    s \<le> unat (cbuf_size c) \<and> e \<le> unat (cbuf_size c)" (is "?L \<longleftrightarrow> ?R")
proof -
  let ?n = "unat (cbuf_size c)"
  have us: "unat (of_nat e :: u64) = e" "unat (of_nat s :: u64) = s"
    using assms by (auto intro!: unat_of_nat_lt)
  have h: "cb_end c - (cb_start c + of_nat e) = cbuf_size c - of_nat e"
    "(cb_start c + of_nat e) - (cb_start c + of_nat s) = of_nat (e - s)"
    "(cb_start c + of_nat s) - cb_start c = of_nat s"
    using assms(2) by (simp_all add: cbuf_size_def)
  have d: "unat (of_nat (e - s) :: u64) = e - s"
    using assms by (intro unat_of_nat_lt) simp
  have "cbuf_size c - of_nat e \<le> cbuf_size c \<longleftrightarrow> e \<le> ?n"
  proof (cases "e \<le> ?n")
    case True
    then show ?thesis using unat_size_diff [of e "cbuf_size c"] by (simp add: word_le_unat)
  next
    case False
    then have "cbuf_size c < of_nat e" using us by (simp add: word_less_unat)
    from unat_sub_wrap [OF this] show ?thesis using False us assms by (simp add: word_le_unat)
  qed
  then have "?L \<longleftrightarrow> (e - s \<le> ?n) \<and> s \<le> ?n \<and> e \<le> ?n"
    unfolding cbuf_range_valid_def h by (simp only: word_le_unat d us)
  then show ?thesis by auto
qed

lemma cbuf_write_unfold:
  assumes inv: "cbuf_inv c m" and off: "index = cb_start c + of_nat off" "off \<le> unat (cbuf_size c)"
    and n: "sz = of_nat n" "n < 2 ^ 63"
    and W: "W = max (unat (cbuf_size c)) (off + n)" and k: "k = n - unat (cb_capacity c)"
  shows "cbuf_write c index buf sz m = do {
    m \<leftarrow> cbuf_copy_in c (cbuf_slot c (off + k)) (buf + of_nat k) (of_nat (n - k)) m;
    Some (None, c\<lparr>cb_start := cb_start c + of_nat (W - unat (cb_capacity c)),
      cb_end := cb_start c + of_nat W\<rparr>, m) }"
proof -
  let ?cap = "unat (cb_capacity c)" and ?sz = "unat (cbuf_size c)"
  note cap = capacity_facts [OF inv]
  have W64: "W < 2 ^ 64" using off(2) n(2) cap(3,4) W by simp
  have valid1: "cbuf_range_valid c index (cb_end c)"
    unfolding cbuf_end_eq off(1) using off(2) cap(3,4) by (subst range_valid_iff) auto
  have new_end: "index + sz = cb_start c + of_nat (off + n)" using off(1) n(1) by simp
  have valid2: "cbuf_range_valid c (cb_start c) (index + sz) \<longleftrightarrow> off + n \<le> ?sz"
    unfolding new_end using range_valid_iff [of "off + n" c 0] off(2) n(2) cap(3,4) by simp
  have big: "cb_capacity c < sz \<longleftrightarrow> ?cap < n"
    using n by (simp add: word_less_unat unat_of_nat_lt)
  have upd: "cbuf_update_start (c\<lparr>cb_end := cb_start c + of_nat W\<rparr>)
      = c\<lparr>cb_start := cb_start c + of_nat (W - ?cap), cb_end := cb_start c + of_nat W\<rparr>"
    using W64 by (auto simp: cbuf_update_start_def cbuf_size_def word_less_unat unat_of_nat_lt
        of_nat_diff)
  have same: "cbuf_copy_in (c\<lparr>cb_end := e\<rparr>) = cbuf_copy_in c" for e
    by (simp add: cbuf_copy_in_def fun_eq_iff Let_def cong: if_cong prod.case_cong Option.bind_cong)
  have slot: "cb_buf c + cbuf_index (c\<lparr>cb_end := e\<rparr>) (index + of_nat k) = cbuf_slot c (off + k)" for e
    by (simp add: cbuf_slot_def cbuf_index_def off(1) add.assoc)
  show ?thesis
  proof (cases "off + n \<le> ?sz")
    case True
    then have "W = ?sz" "k = 0" using W k cap(4) by auto
    moreover have "c\<lparr>cb_end := cb_start c + of_nat ?sz\<rparr> = c"
      unfolding cbuf_end_eq [symmetric] by simp
    moreover have "cb_buf c + cbuf_index c index = cbuf_slot c off"
      by (simp add: cbuf_slot_def off(1))
    ultimately show ?thesis
      using upd valid1 valid2 True n(1) by (simp add: cbuf_write_def)
  next
    case False
    then have "index + sz = cb_start c + of_nat W" using new_end W by simp
    moreover have "sz - cb_capacity c = of_nat k \<and> of_nat (n - k) = cb_capacity c" if "?cap < n"
      using that n k by (simp add: of_nat_diff)
    moreover have "k = 0" if "\<not> ?cap < n" using that k by simp
    ultimately show ?thesis
      using upd valid1 valid2 False n(1) big slot same
      by (cases "?cap < n") (simp_all add: cbuf_write_def cbuf_capacity_def Let_def del: of_nat_add)
  qed
qed

lemma cbuf_inv_transfer:
  assumes "cbuf_inv c m" "cb_buf c' = cb_buf c" "cb_capacity c' = cb_capacity c"
    and "cbuf_size c' \<le> cb_capacity c" "\<And>i. i < unat (cb_capacity c) \<Longrightarrow> m' (cb_buf c + of_nat i) \<noteq> None"
  shows "cbuf_inv c' m'"
  using assms by (simp add: cbuf_inv_def mapped_def)

lemma cbuf_size_shift [simp]:
  "cbuf_size (c\<lparr>cb_start := s + of_nat a, cb_end := s + of_nat b\<rparr>) = of_nat b - of_nat a"
  by (simp add: cbuf_size_def)

lemma slot_surj:
  assumes "cbuf_inv c m" "i < unat (cb_capacity c)"
  shows "\<exists>j<unat (cb_capacity c). cb_buf c + of_nat i = cbuf_slot c (off + j)"
proof -
  let ?cap = "unat (cb_capacity c)" and ?s = "unat (cb_start c) + off"
  let ?j = "(i + (?cap - ?s mod ?cap)) mod ?cap"
  have "?s mod ?cap \<le> ?cap" using capacity_facts(1) [OF assms(1)] by (simp add: less_imp_le)
  then have "?s mod ?cap + (i + (?cap - ?s mod ?cap)) = i + ?cap" by linarith
  then have "(?s mod ?cap + (i + (?cap - ?s mod ?cap))) mod ?cap = i" using assms(2) by simp
  then have "(?s + ?j) mod ?cap = i" by (simp only: mod_add_left_eq mod_add_right_eq)
  moreover have "?j < ?cap" using capacity_facts(1) [OF assms(1)] by simp
  ultimately show ?thesis by (metis add.assoc cbuf_slot_eq [OF assms(1)])
qed

lemma ring_update:
  assumes inv: "cbuf_inv c m" and off: "off \<le> unat (cbuf_size c)" and n: "length xs < 2 ^ 63"
    and ys: "ys = drop (length xs - unat (cb_capacity c)) xs"
    and at: "\<forall>j<unat (cb_capacity c). m' (cbuf_slot c (off + length xs - length ys + j))
        = (if j < length ys then Some (ys ! j)
           else m (cbuf_slot c (off + length xs - length ys + j)))"
    and W: "W = max (unat (cbuf_size c)) (off + length xs)"
    and c': "c' = c\<lparr>cb_start := cb_start c + of_nat (W - unat (cb_capacity c)),
      cb_end := cb_start c + of_nat W\<rparr>"
  shows "cbuf_inv c' m' \<and> cbuf_content c' m' = ring_write (unat (cb_capacity c)) off xs (cbuf_content c m)"
proof -
  let ?cap = "unat (cb_capacity c)" and ?C = "cbuf_content c m"
  define w where "w = take off ?C @ xs @ drop (off + length xs) ?C"
  note cap = capacity_facts [OF inv]
  have W64: "W < 2 ^ 64" using off n cap(3,4) W by simp
  have size': "unat (cbuf_size c') = W - (W - ?cap)"
    using unat_size_diff [of "W - ?cap" "of_nat W"] W64 by (simp add: c' unat_of_nat_lt)
  have "m' (cb_buf c + of_nat i) \<noteq> None" if i: "i < ?cap" for i
  proof -
    obtain j where "j < ?cap" "cb_buf c + of_nat i = cbuf_slot c (off + length xs - length ys + j)"
      using slot_surj [OF inv i] by blast
    moreover have "m (cb_buf c + of_nat i) \<noteq> None" using cap(6) i by (simp add: mapped_def)
    ultimately show ?thesis using at by simp
  qed
  then have inv': "cbuf_inv c' m'"
    using size' by (intro cbuf_inv_transfer [OF inv]) (simp_all add: c' word_le_unat)
  have lw: "length w = W" using off by (simp add: W w_def)
  have "cbuf_content c' m' = drop (length w - ?cap) w"
  proof (rule nth_equalityI)
    fix i assume "i < length (cbuf_content c' m')"
    then have i: "i < W - (W - ?cap)" by (simp add: size')
    have "the (m' (cbuf_slot c (W - ?cap + i))) = w ! (W - ?cap + i)"
      unfolding w_def by (rule ring_write_nth [OF inv off at ys]) (use i W in auto)
    moreover have "cbuf_slot c' i = cbuf_slot c (W - ?cap + i)"
      by (simp add: c' cbuf_slot_shift)
    ultimately show "cbuf_content c' m' ! i = drop (length w - ?cap) w ! i"
      using i lw size' by (simp add: cbuf_content_nth)
  qed (simp add: size' lw)
  then show ?thesis using inv' by (simp add: ring_write_def Let_def flip: w_def)
qed

text \<open>What a successful write leaves: the abstract write, and nothing changed outside the storage.\<close>

definition written :: "cbuf \<Rightarrow> mem \<Rightarrow> nat \<Rightarrow> u8 list \<Rightarrow> cbuf \<Rightarrow> mem \<Rightarrow> bool" where
  "written c m off xs c' m' \<longleftrightarrow> cbuf_inv c' m'
     \<and> cb_buf c' = cb_buf c \<and> cb_capacity c' = cb_capacity c
     \<and> cbuf_content c' m' = ring_write (unat (cb_capacity c)) off xs (cbuf_content c m)
     \<and> (\<forall>x. unat (cb_capacity c) \<le> unat (x - cb_buf c) \<longrightarrow> m' x = m x)"

lemma cbuf_write_spec:
  assumes inv: "cbuf_inv c m" and off: "index = cb_start c + of_nat off" "off \<le> unat (cbuf_size c)"
    and src: "mem_bytes m buf xs" "cbuf_apart c buf (length xs)"
    and n: "sz = of_nat (length xs)" "cbuf_safe c index (length xs)" "length xs < 2 ^ 63"
  shows "\<exists>c' m'. cbuf_write c index buf sz m = Some (None, c', m') \<and> written c m off xs c' m'"
proof -
  let ?k = "length xs - unat (cb_capacity c)"
  define ys where "ys = drop ?k xs"
  have ly: "length ys = length xs - ?k" and lk: "length (take ?k xs) = ?k"
    by (simp_all add: ys_def)
  have bs: "mem_bytes m (buf + of_nat ?k) ys" "cbuf_apart c (buf + of_nat ?k) (length ys)"
    using mem_bytes_append [of m buf "take ?k xs" ys] src apart_drop [OF src(2), of ?k] lk
    by (simp_all add: ys_def del: length_take)
  have un: "unat (of_nat (length ys) :: u64) = length ys"
    by (rule unat_of_nat_lt) (use n ly in simp)
  have "0 < length ys \<or> 0 < (unat (cb_start c) + (off + ?k)) mod unat (cb_capacity c)" "length ys \<le> unat (cb_capacity c)"
    using cbuf_safe_at [OF inv n(2) [unfolded off(1)]] ly capacity_facts(1) [OF inv] by (cases "xs = []"; simp)+
  from copy_in_slots [OF inv bs un this] obtain m' where
    m': "cbuf_copy_in c (cbuf_slot c (off + ?k)) (buf + of_nat ?k) (of_nat (length ys)) m = Some m'"
    and at: "\<forall>j<unat (cb_capacity c). m' (cbuf_slot c (off + ?k + j))
        = (if j < length ys then Some (ys ! j) else m (cbuf_slot c (off + ?k + j)))"
    and out: "\<forall>x. unat (cb_capacity c) \<le> unat (x - cb_buf c) \<longrightarrow> m' x = m x" by blast
  have o: "off + length xs - length ys = off + ?k" using ly by simp
  from ring_update [OF inv off(2) n(3) ys_def _ refl refl, of m'] at
  show ?thesis
    using cbuf_write_unfold [OF inv off n(1,3) refl refl] m' ly out
    unfolding o written_def by auto
qed


lemma cbuf_slot_range:
  assumes "cbuf_inv c m"
  shows "\<exists>i<unat (cb_capacity c). cbuf_slot c p = cb_buf c + of_nat i"
  using capacity_facts(1) [OF assms]
  by (intro exI [of _ "(unat (cb_start c) + p) mod unat (cb_capacity c)"]) (simp add: cbuf_slot_eq [OF assms])

lemma cbuf_content_cong:
  assumes "cbuf_inv c m" "\<And>i. i < unat (cb_capacity c) \<Longrightarrow> m' (cb_buf c + of_nat i) = m (cb_buf c + of_nat i)"
  shows "cbuf_inv c m'" "cbuf_content c m' = cbuf_content c m"
proof -
  show "cbuf_inv c m'" using assms by (simp add: cbuf_inv_def mapped_def)
  have "m' (cbuf_slot c p) = m (cbuf_slot c p)" for p
    using cbuf_slot_range [OF assms(1), of p] assms(2) by auto
  then show "cbuf_content c m' = cbuf_content c m" by (simp add: cbuf_content_def)
qed

lemma cbuf_content_apart:
  assumes inv: "cbuf_inv c m" and apart: "cbuf_apart c buf (length ys)"
  shows "cbuf_inv c (write_bytes m buf ys)" "cbuf_content c (write_bytes m buf ys) = cbuf_content c m"
proof -
  have w: "write_bytes m buf ys (cb_buf c + of_nat i) = m (cb_buf c + of_nat i)"
    if "i < unat (cb_capacity c)" for i
    using apart_gap [OF apart capacity_facts(3) [OF inv] that, of 0 "length ys"]
    by (simp add: write_bytes_out)
  show "cbuf_inv c (write_bytes m buf ys)" by (rule cbuf_content_cong(1) [OF inv w])
  show "cbuf_content c (write_bytes m buf ys) = cbuf_content c m"
    by (rule cbuf_content_cong(2) [OF inv w])
qed

lemma cbuf_drop_front:
  assumes "cbuf_inv c m" "k \<le> unat (cbuf_size c)"
  shows "cbuf_inv (c\<lparr>cb_start := cb_start c + of_nat k\<rparr>) m"
    "cbuf_content (c\<lparr>cb_start := cb_start c + of_nat k\<rparr>) m = drop k (cbuf_content c m)"
proof -
  let ?c = "c\<lparr>cb_start := cb_start c + of_nat k\<rparr>"
  have "cbuf_size ?c = cbuf_size c - of_nat k" by (simp add: cbuf_size_def)
  then have sz: "unat (cbuf_size ?c) = unat (cbuf_size c) - k"
    using unat_size_diff [OF assms(2)] by simp
  then show "cbuf_inv ?c m"
    using assms(1) by (intro cbuf_inv_transfer [OF assms(1)])
      (auto simp: word_le_unat cbuf_inv_def mapped_def)
  have "cbuf_slot ?c i = cbuf_slot c (k + i)" for i
    by (simp add: cbuf_slot_def cbuf_index_def add.assoc)
  then show "cbuf_content ?c m = drop k (cbuf_content c m)"
    using sz by (intro nth_equalityI) (auto simp: cbuf_content_nth)
qed

lemma cbuf_read_spec:
  assumes inv: "cbuf_inv c m" and off: "index = cb_start c + of_nat off" "off < unat (cbuf_size c)"
    and k: "k = min (unat sz) (unat (cbuf_size c) - off)" "cbuf_safe c index (unat sz)"
    and dst: "mapped m buf k" "cbuf_apart c buf k"
  shows "cbuf_read c index buf sz m
    = Some (None, of_nat k, write_bytes m buf (take k (drop off (cbuf_content c m))))"
proof -
  note cap = capacity_facts [OF inv]
  have "index + 1 = cb_start c + of_nat (off + 1)" using off(1) by simp
  then have valid: "cbuf_range_valid c index (index + 1)"
    using range_valid_iff [of "off + 1" c off] off cap(3,4) by (simp only: off(1)) simp
  have avail: "cb_end c - index = cbuf_size c - of_nat off"
    using off(1) by (simp add: cbuf_size_def)
  have ua: "unat (cbuf_size c - of_nat off) = unat (cbuf_size c) - off"
    using off(2) by (intro unat_size_diff) simp
  have "(if sz > cb_end c - index then cb_end c - index else sz) = of_nat k" (is "?n = _")
  proof -
    have "cbuf_size c - of_nat off = of_nat (unat (cbuf_size c) - off)" using off(2) by simp
    then show ?thesis unfolding avail k(1) using ua by (auto simp: word_less_unat min_def)
  qed
  moreover have uk: "unat (of_nat k :: u64) = k"
    using k unat_lt_64 [of sz] by (intro unat_of_nat_lt) simp
  have "cbuf_copy_out c (cb_buf c + of_nat ((unat (cb_start c) + off) mod unat (cb_capacity c))) buf (of_nat k) m
    = Some (write_bytes m buf (map (\<lambda>j. the (m (cbuf_slot c (off + j)))) [0..<k]))"
    using cbuf_copy_out_spec [OF inv, of "(unat (cb_start c) + off) mod unat (cb_capacity c)" buf "of_nat k"]
      dst off(2) k(1) cbuf_safe_at [OF inv k(2) [unfolded off(1)]] cap(1,4) unfolding uk by (simp add: cbuf_slot_eq [OF inv] mod_add_left_eq add.assoc)
  moreover have "map (\<lambda>j. the (m (cbuf_slot c (off + j)))) [0..<k] = take k (drop off (cbuf_content c m))"
    using k off(2) by (intro nth_equalityI) (auto simp: cbuf_content_nth)
  moreover have "cb_buf c + cbuf_index c index
      = cb_buf c + of_nat ((unat (cb_start c) + off) mod unat (cb_capacity c))"
    using cbuf_slot_eq [OF inv, of off] by (simp add: cbuf_slot_def off(1))
  ultimately show ?thesis using valid by (simp add: cbuf_read_def Let_def del: of_nat_min)
qed

lemma cbuf_empty_iff: "cbuf_size c = 0 \<longleftrightarrow> cbuf_content c m = []"
  by (metis length_0_conv length_cbuf_content unat_eq_zero)

lemma cbuf_pop_spec:
  assumes inv: "cbuf_inv c m" and ne: "cbuf_content c m \<noteq> []"
    and k: "k = min (unat sz) (unat (cbuf_size c))" "cbuf_safe c (cb_start c) (unat sz)"
    and dst: "mapped m buf k" "cbuf_apart c buf k"
  shows "\<exists>c'. cbuf_pop c buf sz m
      = Some (None, of_nat k, c', write_bytes m buf (take k (cbuf_content c m)))
    \<and> cbuf_inv c' (write_bytes m buf (take k (cbuf_content c m)))
    \<and> cb_buf c' = cb_buf c \<and> cb_capacity c' = cb_capacity c
    \<and> cbuf_content c' (write_bytes m buf (take k (cbuf_content c m))) = drop k (cbuf_content c m)"
proof -
  have pos: "0 < unat (cbuf_size c)" "cbuf_size c \<noteq> 0"
    using ne cbuf_empty_iff [of c m] by (auto simp: unat_gt_0)
  have k': "k = min (unat sz) (unat (cbuf_size c) - 0)" using k(1) by simp
  have r: "cbuf_read c (cbuf_start c) buf sz m
      = Some (None, of_nat k, write_bytes m buf (take k (cbuf_content c m)))"
    using cbuf_read_spec [OF inv _ pos(1) k' k(2) dst]
    by (simp add: cbuf_start_def del: of_nat_min)
  have "length (take k (cbuf_content c m)) = k" using k(1) by simp
  then have "cbuf_apart c buf (length (take k (cbuf_content c m)))" using dst(2) by simp
  note a = cbuf_content_apart [OF inv this]
  have "k \<le> unat (cbuf_size c)" using k(1) by simp
  note d = cbuf_drop_front [OF a(1) this]
  show ?thesis using r pos(2) d a by (simp add: cbuf_pop_def)
qed

lemma cbuf_push_spec:
  assumes inv: "cbuf_inv c m" and src: "mem_bytes m buf xs" "cbuf_apart c buf (length xs)"
    and n: "cbuf_safe c (cb_end c) (length xs)" "length xs < 2 ^ 63"
  shows "if \<not> erase \<and> unat (cb_capacity c) < length (cbuf_content c m) + length xs
    then cbuf_push c buf (of_nat (length xs)) erase m = Some (Some EAGAIN, c, m)
    else \<exists>c' m'. cbuf_push c buf (of_nat (length xs)) erase m = Some (None, c', m')
      \<and> written c m (length (cbuf_content c m)) xs c' m'"
proof -
  note cap = capacity_facts [OF inv]
  have full: "of_nat (length xs) > cbuf_capacity c - cbuf_size c
      \<longleftrightarrow> unat (cb_capacity c) < unat (cbuf_size c) + length xs"
  proof -
    have "unat (cb_capacity c - cbuf_size c) = unat (cb_capacity c) - unat (cbuf_size c)"
      using cap(4) by (intro unat_sub_le) (simp add: word_le_unat)
    then show ?thesis using n(2) cap(4) by (auto simp: cbuf_capacity_def word_less_unat unat_of_nat_lt)
  qed
  from cbuf_write_spec [OF inv cbuf_end_eq _ src refl n] full show ?thesis
    by (auto simp: cbuf_push_def cbuf_end_def)
qed

lemma ring_write_end:
  "ring_write cap (length q) xs q = drop (length q + length xs - cap) (q @ xs)"
  by (simp add: ring_write_def)

lemma cbuf_slot_inj:
  assumes "cbuf_inv c m" "j < unat (cb_capacity c)" "0 < j"
  shows "cbuf_slot c (off + j) \<noteq> cbuf_slot c off"
proof -
  let ?cap = "unat (cb_capacity c)" and ?s = "unat (cb_start c) + off"
  note cap = capacity_facts [OF assms(1)]
  have "(?s mod ?cap + j) mod ?cap \<noteq> ?s mod ?cap"
    using mod_less_twice [of "?s mod ?cap + j" ?cap] assms(2,3) mod_less_divisor [OF cap(1), of ?s]
    by (auto simp: not_less split: if_splits)
  then have "(?s + j) mod ?cap \<noteq> ?s mod ?cap" by (simp only: mod_add_left_eq not_False_eq_True)
  moreover have "(?s + j) mod ?cap < 2 ^ 64" "?s mod ?cap < 2 ^ 64"
    using mod_less_divisor [OF cap(1)] cap(3) by (auto intro: less_le_trans [of _ ?cap])
  ultimately show ?thesis
    using word_add_of_nat_neq [of "(?s + j) mod ?cap" "?s mod ?cap" "cb_buf c"]
    by (simp add: cbuf_slot_eq [OF assms(1)] add.assoc)
qed

lemma cbuf_pushb_spec:
  assumes inv: "cbuf_inv c m"
  shows "if \<not> erase \<and> unat (cb_capacity c) \<le> length (cbuf_content c m)
    then cbuf_pushb c b erase m = Some (Some EAGAIN, c, m)
    else \<exists>c' m'. cbuf_pushb c b erase m = Some (None, c', m')
      \<and> written c m (length (cbuf_content c m)) [b] c' m'"
proof -
  let ?cap = "unat (cb_capacity c)" and ?sz = "unat (cbuf_size c)"
  note cap = capacity_facts [OF inv]
  let ?a = "cbuf_slot c ?sz"
  let ?m = "m(?a \<mapsto> b)"
  define c' where "c' = c\<lparr>cb_start := cb_start c + of_nat (?sz + 1 - ?cap),
      cb_end := cb_start c + of_nat (?sz + 1)\<rparr>"
  have full: "cbuf_capacity c - cbuf_size c = 0 \<longleftrightarrow> ?cap \<le> ?sz"
    using cap(4) unat_sub_le [of "cbuf_size c" "cb_capacity c"]
    by (simp add: cbuf_capacity_def word_eq_unat word_le_unat del: right_minus_eq)
  obtain i where i: "i < ?cap" "?a = cb_buf c + of_nat i" using cbuf_slot_range [OF inv] by blast
  then have "m ?a \<noteq> None" using cap(6) by (simp add: mapped_def)
  moreover have "cb_buf c + cbuf_index c (cb_end c) = ?a" by (simp add: cbuf_slot_def cbuf_size_def)
  moreover have "cbuf_update_start (c\<lparr>cb_end := cb_end c + 1\<rparr>) = c'"
  proof -
    have e: "c\<lparr>cb_end := cb_end c + 1\<rparr> = c\<lparr>cb_end := cb_start c + of_nat (?sz + 1)\<rparr>"
      using arg_cong [OF cbuf_end_eq [of c], of "\<lambda>e. e + 1"] by (simp add: add.assoc)
    have "?sz + 1 < 2 ^ 64" using cap(3,4) by simp
    then show ?thesis unfolding e c'_def
      by (auto simp: cbuf_update_start_def cbuf_size_def word_less_unat unat_of_nat_lt of_nat_diff
          simp del: of_nat_Suc of_nat_add)
  qed
  ultimately have r: "cbuf_pushb c b erase m = Some (None, c', ?m)" if "erase \<or> \<not> ?cap \<le> ?sz"
    using that full by (auto simp: cbuf_pushb_def)
  have at: "\<forall>j<?cap. ?m (cbuf_slot c (?sz + length [b] - length [b] + j))
      = (if j < length [b] then Some ([b] ! j)
         else m (cbuf_slot c (?sz + length [b] - length [b] + j)))"
    using cbuf_slot_inj [OF inv] by simp
  have "cbuf_inv c' ?m \<and> cbuf_content c' ?m = ring_write ?cap ?sz [b] (cbuf_content c m)"
    using cap(1) by (intro ring_update [OF inv _ _ _ at, where W = "?sz + 1"]) (auto simp: c'_def)
  moreover have "\<forall>x. ?cap \<le> unat (x - cb_buf c) \<longrightarrow> ?m x = m x"
    using i cap(3) by (auto simp: unat_of_nat_lt)
  ultimately have "written c m ?sz [b] c' ?m" by (simp add: written_def c'_def)
  with r full show ?thesis by (auto simp: cbuf_pushb_def)
qed

lemma cbuf_popb_spec:
  assumes inv: "cbuf_inv c m" and ne: "cbuf_content c m \<noteq> []"
    and dst: "m buf \<noteq> None" "cbuf_apart c buf 1"
  shows "\<exists>c' m'. cbuf_popb c buf m = Some (None, c', m') \<and> cbuf_inv c' m'
    \<and> m' = m(buf \<mapsto> hd (cbuf_content c m))
    \<and> cb_buf c' = cb_buf c \<and> cb_capacity c' = cb_capacity c
    \<and> cbuf_content c' m' = tl (cbuf_content c m)"
proof -
  let ?m = "m(buf \<mapsto> hd (cbuf_content c m))"
  have pos: "0 < unat (cbuf_size c)" "cbuf_size c \<noteq> 0"
    using ne cbuf_empty_iff [of c m] by (auto simp: unat_gt_0)
  have s: "cb_buf c + cbuf_index c (cb_start c) = cbuf_slot c 0" by (simp add: cbuf_slot_def)
  obtain i where "i < unat (cb_capacity c)" "cbuf_slot c 0 = cb_buf c + of_nat i"
    using cbuf_slot_range [OF inv] by blast
  then have "m (cbuf_slot c 0) \<noteq> None" using capacity_facts(6) [OF inv] by (simp add: mapped_def)
  moreover have "hd (cbuf_content c m) = the (m (cbuf_slot c 0))"
    using ne pos by (simp add: hd_conv_nth cbuf_content_nth)
  ultimately have l: "load m (cb_buf c + cbuf_index c (cb_start c)) = Some (hd (cbuf_content c m))"
    by (auto simp: s load_def)
  have w: "?m = write_bytes m buf [hd (cbuf_content c m)]" by (simp add: write_bytes_Cons)
  have "cbuf_apart c buf (length [hd (cbuf_content c m)])" using dst by simp
  note a = cbuf_content_apart [OF inv this, folded w]
  note d = cbuf_drop_front [OF a(1), of 1]
  show ?thesis
    using l d a pos dst(1) by (auto simp: cbuf_popb_def drop_Suc store_eq_Some Suc_le_eq)
qed

section \<open>The bounded byte queue\<close>

text \<open>
  A client's calls, each with the caller's buffer at address \<open>ub\<close>: the bytes to push are
  placed there before the call, the bytes popped are read from there after it.
\<close>

datatype cbuf_call =
  Push "u8 list" bool | Pushb u8 bool | Pop u64 | Popb | Clear

definition read_back :: "mem \<Rightarrow> u64 \<Rightarrow> nat \<Rightarrow> u8 list" where
  "read_back m a n = map (\<lambda>i. the (m (a + of_nat i))) [0..<n]"

fun cbuf_exec :: "u64 \<Rightarrow> cbuf_call \<Rightarrow> cbuf \<times> mem \<Rightarrow> ((errno option \<times> u8 list) \<times> (cbuf \<times> mem)) option" where
  "cbuf_exec ub (Push xs erase) (c, m) = do {
     (e, c, m) \<leftarrow> cbuf_push c ub (of_nat (length xs)) erase (write_bytes m ub xs);
     Some ((e, []), c, m) }"
| "cbuf_exec ub (Pushb b erase) (c, m) = do {
     (e, c, m) \<leftarrow> cbuf_pushb c b erase m;
     Some ((e, []), c, m) }"
| "cbuf_exec ub (Pop n) (c, m) = do {
     (e, n, c, m) \<leftarrow> cbuf_pop c ub n m;
     Some ((e, if e = None then read_back m ub (unat n) else []), c, m) }"
| "cbuf_exec ub Popb (c, m) = do {
     (e, c, m) \<leftarrow> cbuf_popb c ub m;
     Some ((e, if e = None then read_back m ub 1 else []), c, m) }"
| "cbuf_exec ub Clear (c, m) = Some ((None, []), cbuf_clear c, m)"

text \<open>The specification: a queue of at most \<open>cap\<close> bytes. An erasing push drops the
  oldest bytes, an ordinary push is refused when its bytes do not all fit.\<close>

definition push_spec :: "nat \<Rightarrow> u8 list \<Rightarrow> bool \<Rightarrow> u8 list \<Rightarrow> (errno option \<times> u8 list) \<times> u8 list" where
  "push_spec cap xs erase q =
     (if \<not> erase \<and> cap < length q + length xs then ((Some EAGAIN, []), q)
      else ((None, []), drop (length q + length xs - cap) (q @ xs)))"

fun queue_spec :: "nat \<Rightarrow> cbuf_call \<Rightarrow> u8 list \<Rightarrow> (errno option \<times> u8 list) \<times> u8 list" where
  "queue_spec cap (Push xs erase) q = push_spec cap xs erase q"
| "queue_spec cap (Pushb b erase) q = push_spec cap [b] erase q"
| "queue_spec cap (Pop n) q =
     (if q = [] then ((Some EAGAIN, []), q) else ((None, take (unat n) q), drop (unat n) q))"
| "queue_spec cap Popb q =
     (if q = [] then ((Some EAGAIN, []), q) else ((None, [hd q]), tl q))"
| "queue_spec cap Clear q = ((None, []), [])"

text \<open>The caller's buffer holds \<open>n\<close> bytes, is writable and does not overlap the storage; no
  call is for more than \<open>n\<close> bytes, nor for no bytes at the first byte of the storage.\<close>

definition cbuf_client :: "u64 \<Rightarrow> nat \<Rightarrow> nat \<Rightarrow> cbuf \<times> mem \<Rightarrow> bool" where
  "cbuf_client ub n cap = (\<lambda>(c, m). cbuf_inv c m \<and> unat (cb_capacity c) = cap
     \<and> mapped m ub n \<and> cbuf_apart c ub n)"

fun call_ok :: "nat \<Rightarrow> cbuf_call \<Rightarrow> cbuf \<times> mem \<Rightarrow> bool" where
  "call_ok n (Push xs erase) (c, m) \<longleftrightarrow> cbuf_safe c (cb_end c) (length xs) \<and> length xs \<le> n \<and> length xs < 2 ^ 63"
| "call_ok n (Pop k) (c, m) \<longleftrightarrow> (cbuf_size c = 0 \<or> cbuf_safe c (cb_start c) (unat k)) \<and> unat k \<le> n"
| "call_ok n Popb (c, m) \<longleftrightarrow> 0 < n"
| "call_ok n _ (c, m) \<longleftrightarrow> True"

lemma cbuf_apart_mono: "cbuf_apart c a n \<Longrightarrow> k \<le> n \<Longrightarrow> cbuf_apart c a k"
  by (simp add: cbuf_apart_def)

lemma cbuf_apart_same:
  "cb_buf c' = cb_buf c \<Longrightarrow> cb_capacity c' = cb_capacity c \<Longrightarrow> cbuf_apart c' = cbuf_apart c"
  by (simp add: cbuf_apart_def fun_eq_iff)

lemma read_back_bytes: "mem_bytes m a xs \<Longrightarrow> read_back m a (length xs) = xs"
  by (auto simp: read_back_def mem_bytes_nth intro!: nth_equalityI)

lemma written_client:
  assumes "cbuf_client ub n cap (c, m)" "written c m (length (cbuf_content c m)) xs c' m'"
  shows "cbuf_client ub n cap (c', m')"
    "cbuf_content c' m' = drop (length (cbuf_content c m) + length xs - cap) (cbuf_content c m @ xs)"
proof -
  have "cbuf_apart c' = cbuf_apart c" using assms(2) by (intro cbuf_apart_same) (simp_all add: written_def)
  moreover have "mapped m' ub n"
    using assms by (auto simp: cbuf_client_def written_def cbuf_apart_def mapped_def)
  ultimately show "cbuf_client ub n cap (c', m')"
    using assms by (auto simp: cbuf_client_def written_def)
  show "cbuf_content c' m' = drop (length (cbuf_content c m) + length xs - cap) (cbuf_content c m @ xs)"
    unfolding ring_write_end [symmetric] using assms by (auto simp: cbuf_client_def written_def)
qed

lemma push_simulates:
  assumes cl: "cbuf_client ub n cap (c, m)" and ok: "call_ok n (Push xs erase) (c, m)"
  shows "\<exists>r c' m'. cbuf_exec ub (Push xs erase) (c, m) = Some (r, c', m') \<and> cbuf_client ub n cap (c', m')
    \<and> push_spec cap xs erase (cbuf_content c m) = (r, cbuf_content c' m')"
proof -
  let ?m = "write_bytes m ub xs"
  have cl': "cbuf_inv c m" "unat (cb_capacity c) = cap" "mapped m ub n" "cbuf_apart c ub n"
    using cl by (auto simp: cbuf_client_def)
  have n: "cbuf_safe c (cb_end c) (length xs)" "length xs < 2 ^ 63" "length xs \<le> n" using ok by auto
  have ap: "cbuf_apart c ub (length xs)" by (rule cbuf_apart_mono [OF cl'(4) n(3)])
  note c1 = cbuf_content_apart [OF cl'(1) ap]
  have src: "mem_bytes ?m ub xs" using n(2) by (intro write_bytes_mem_bytes) simp
  have cl1: "cbuf_client ub n cap (c, ?m)"
    using cl' c1(1) mapped_write by (simp add: cbuf_client_def)
  note sp = cbuf_push_spec [OF c1(1) src ap n(1,2), of erase, unfolded cl'(2)]
  show ?thesis
  proof (cases "\<not> erase \<and> cap < length (cbuf_content c ?m) + length xs")
    case True
    then show ?thesis using sp cl1 c1(2) by (simp add: push_spec_def)
  next
    case False
    with sp obtain c' m' where w: "cbuf_push c ub (of_nat (length xs)) erase ?m = Some (None, c', m')"
      "written c ?m (length (cbuf_content c ?m)) xs c' m'" by auto
    show ?thesis using written_client [OF cl1 w(2)] w(1) False c1(2) by (auto simp: push_spec_def)
  qed
qed

lemma pushb_simulates:
  assumes cl: "cbuf_client ub n cap (c, m)"
  shows "\<exists>r c' m'. cbuf_exec ub (Pushb b erase) (c, m) = Some (r, c', m') \<and> cbuf_client ub n cap (c', m')
    \<and> push_spec cap [b] erase (cbuf_content c m) = (r, cbuf_content c' m')"
proof -
  have inv: "cbuf_inv c m" "unat (cb_capacity c) = cap" using cl by (auto simp: cbuf_client_def)
  note sp = cbuf_pushb_spec [OF inv(1), of erase b, unfolded inv(2)]
  show ?thesis
  proof (cases "\<not> erase \<and> cap \<le> length (cbuf_content c m)")
    case True
    then show ?thesis using sp cl by (simp add: push_spec_def)
  next
    case False
    with sp obtain c' m' where w: "cbuf_pushb c b erase m = Some (None, c', m')"
      "written c m (length (cbuf_content c m)) [b] c' m'" by auto
    show ?thesis using written_client [OF cl w(2)] w(1) False by (auto simp: push_spec_def)
  qed
qed

lemma popped_client:
  assumes "cbuf_client ub n cap (c, m)" "cbuf_inv c' (write_bytes m a xs)"
    "cb_buf c' = cb_buf c" "cb_capacity c' = cb_capacity c"
  shows "cbuf_client ub n cap (c', write_bytes m a xs)"
  using assms cbuf_apart_same [OF assms(3,4)] by (auto simp: cbuf_client_def mapped_write)

lemma pop_simulates:
  assumes cl: "cbuf_client ub n cap (c, m)" and ok: "call_ok n (Pop sz) (c, m)"
  shows "\<exists>r c' m'. cbuf_exec ub (Pop sz) (c, m) = Some (r, c', m') \<and> cbuf_client ub n cap (c', m')
    \<and> queue_spec cap (Pop sz) (cbuf_content c m) = (r, cbuf_content c' m')"
proof (cases "cbuf_content c m = []")
  case True
  then show ?thesis using cl cbuf_empty_iff [of c m] by (simp add: cbuf_pop_def)
next
  case False
  let ?q = "cbuf_content c m"
  define k where "k = min (unat sz) (unat (cbuf_size c))"
  have inv: "cbuf_inv c m" "mapped m ub n" "cbuf_apart c ub n" using cl by (auto simp: cbuf_client_def)
  have n: "cbuf_safe c (cb_start c) (unat sz)" "k \<le> n" using ok False cbuf_empty_iff [of c m] by (auto simp: k_def)
  from cbuf_pop_spec [OF inv(1) False k_def n(1) mapped_mono [OF inv(2) n(2)] cbuf_apart_mono [OF inv(3) n(2)]]
  obtain c' where r: "cbuf_pop c ub sz m = Some (None, of_nat k, c', write_bytes m ub (take k ?q))"
    "cbuf_inv c' (write_bytes m ub (take k ?q))" "cb_buf c' = cb_buf c" "cb_capacity c' = cb_capacity c"
    "cbuf_content c' (write_bytes m ub (take k ?q)) = drop k ?q" by blast
  have k: "k = length (take k ?q)" "k < 2 ^ 64" "unat (of_nat k :: u64) = k"
    using unat_lt_64 [of sz] by (auto simp: k_def intro!: unat_of_nat_lt)
  have "read_back (write_bytes m ub (take k ?q)) ub k = take k ?q"
    using k read_back_bytes [OF write_bytes_mem_bytes, of "take k ?q" m ub] by simp
  moreover have "take k ?q = take (unat sz) ?q" "drop k ?q = drop (unat sz) ?q"
    by (simp_all add: k_def min_def)
  ultimately show ?thesis
    using r popped_client [OF cl r(2-4)] False k(3) by auto
qed

lemma popb_simulates:
  assumes cl: "cbuf_client ub n cap (c, m)" and ok: "call_ok n Popb (c, m)"
  shows "\<exists>r c' m'. cbuf_exec ub Popb (c, m) = Some (r, c', m') \<and> cbuf_client ub n cap (c', m')
    \<and> queue_spec cap Popb (cbuf_content c m) = (r, cbuf_content c' m')"
proof (cases "cbuf_content c m = []")
  case True
  then show ?thesis using cl cbuf_empty_iff [of c m] by (simp add: cbuf_popb_def)
next
  case False
  have inv: "cbuf_inv c m" "mapped m ub n" "cbuf_apart c ub n" using cl by (auto simp: cbuf_client_def)
  have "m ub \<noteq> None" "cbuf_apart c ub 1"
    using inv(2) cbuf_apart_mono [OF inv(3), of 1] ok by (auto simp: mapped_def)
  from cbuf_popb_spec [OF inv(1) False this] obtain c' where
    r: "cbuf_popb c ub m = Some (None, c', m(ub \<mapsto> hd (cbuf_content c m)))"
    "cbuf_inv c' (m(ub \<mapsto> hd (cbuf_content c m)))" "cb_buf c' = cb_buf c"
    "cb_capacity c' = cb_capacity c"
    "cbuf_content c' (m(ub \<mapsto> hd (cbuf_content c m))) = tl (cbuf_content c m)"
    by blast
  have w: "m(ub \<mapsto> x) = write_bytes m ub [x]" for x by (simp add: write_bytes_Cons)
  have "read_back (m(ub \<mapsto> x)) ub 1 = [x]" for x by (simp add: read_back_def)
  then show ?thesis
    using r popped_client [OF cl, of c' ub "[hd (cbuf_content c m)]"] False by (auto simp: w)
qed

lemma clear_simulates:
  assumes cl: "cbuf_client ub n cap (c, m)"
  shows "cbuf_client ub n cap (cbuf_clear c, m) \<and> cbuf_content (cbuf_clear c) m = []"
  using cl by (auto simp: cbuf_client_def cbuf_clear_def cbuf_inv_def cbuf_size_def cbuf_apart_def
      cbuf_content_def)

interpretation cb: refinement "cbuf_exec ub" "queue_spec cap" "cbuf_client ub n cap"
  "\<lambda>(c, m). cbuf_content c m" "call_ok n" for ub n cap
proof
  fix s :: "cbuf \<times> mem" and call
  assume "cbuf_client ub n cap s" "call_ok n call s"
  moreover obtain c m where "s = (c, m)" by force
  ultimately show "\<exists>r s'. cbuf_exec ub call s = Some (r, s') \<and> cbuf_client ub n cap s'
      \<and> queue_spec cap call ((\<lambda>(c, m). cbuf_content c m) s) = (r, (\<lambda>(c, m). cbuf_content c m) s')"
    using push_simulates [of ub n cap c m] pushb_simulates [of ub n cap c m]
      pop_simulates [of ub n cap c m] popb_simulates [of ub n cap c m] clear_simulates [of ub n cap c m]
    by (cases call) (fastforce simp del: cbuf_exec.simps(1-4))+
qed

section \<open>Properties\<close>

lemma cbuf_client_init:
  assumes "cbuf_init buf cap = Some c" "0 < cap" "unat buf + unat cap < 2 ^ 64"
    and "mapped m buf (unat cap)" "mapped m ub n" "\<forall>i<n. unat cap \<le> unat (ub + of_nat i - buf)"
  shows "cbuf_client ub n (unat cap) (c, m)" "cbuf_content c m = []"
proof -
  have c: "cb_buf c = buf" "cb_capacity c = cap" "cbuf_size c = 0" "ISP2 cap"
    using assms(1) by (auto simp: cbuf_init_def cbuf_size_def opt_simps)
  moreover have "\<exists>k<64. cap = 2 ^ k" using ISP2_iff [of cap] c(4) assms(2) by auto
  ultimately show "cbuf_client ub n (unat cap) (c, m)"
    using assms by (auto simp: cbuf_client_def cbuf_inv_def cbuf_apart_def)
  show "cbuf_content c m = []" using c(3) by (simp add: cbuf_content_def)
qed

text \<open>
  C7: the circular buffer is a bounded queue of bytes. In a sequence of pushes, pops, byte
  pushes, byte pops and clears, with any mix of erasing and refusing pushes,
  every call returns the error number and the bytes the queue of capacity \<open>cap\<close> gives, and
  the final content is the queue's, whatever the wrap-around of the absolute indexes. The caller's buffer does not overlap the storage and is
  large enough, and each call is one the code handles: a push of no byte when the next byte to write is the first of the storage,
  or a pop of no byte when the next byte to read is, is excluded; the code corrupts memory there.
\<close>

theorem cbuf_is_bounded_queue:
  assumes "cbuf_client ub n cap (c, m)" and "run_permitted (cbuf_exec ub) (call_ok n) calls (c, m)"
  shows "\<exists>rs c' m'. run_calls (cbuf_exec ub) calls (c, m) = Some (rs, c', m')
    \<and> cbuf_client ub n cap (c', m')
    \<and> run_spec (queue_spec cap) calls (cbuf_content c m) = (rs, cbuf_content c' m')"
  using cb.run_simulates [OF assms] by auto

definition ring_mem :: mem where
  "ring_mem = (\<lambda>a. if 4096 \<le> a \<and> a < 4104 \<or> 8192 \<le> a \<and> a < 8200 then Some 0 else None)"

definition ring4 :: "u64 \<Rightarrow> cbuf" where
  "ring4 n = \<lparr>cb_buf = 4096, cb_capacity = 4, cb_start = - 2, cb_end = n - 2\<rparr>"

lemma ring4_apart: "cbuf_apart (ring4 n) 8192 8"
  by (simp add: cbuf_apart_def ring4_def All_less_list upt_conv_Cons)

lemma ring4_mapped: "mapped ring_mem 8192 8"
  by (simp add: mapped_def ring_mem_def All_less_list upt_conv_Cons)

lemma ring4_inv: "n \<le> 4 \<Longrightarrow> cbuf_inv (ring4 n) ring_mem"
  by (auto simp: cbuf_inv_def ring4_def cbuf_size_def intro!: exI [of _ 2])
    (simp add: mapped_def ring_mem_def All_less_list upt_conv_Cons)

lemma ring4_client: "cbuf_client 8192 8 4 (ring4 0, ring_mem)"
  using ring4_apart ring4_mapped ring4_inv by (simp add: cbuf_client_def) (simp add: ring4_def)

theorem cbuf_is_bounded_queue_witness:
  "\<exists>c' m'. run_calls (cbuf_exec 8192) [Push [1, 2, 3] False, Push [4, 5] False, Push [4, 5] True, Pop 3, Popb, Popb]
      (ring4 0, ring_mem)
    = Some ([(None, []), (Some EAGAIN, []), (None, []), (None, [2, 3, 4]), (None, [5]), (Some EAGAIN, [])], c', m')
    \<and> cbuf_content c' m' = []"
proof -
  have "cbuf_content (ring4 0) ring_mem = []" by (simp add: cbuf_content_def ring4_def cbuf_size_def)
  moreover have "run_spec (queue_spec 4) [Push [1, 2, 3] False, Push [4, 5] False, Push [4, 5] True, Pop 3, Popb, Popb] []
    = ([(None, []), (Some EAGAIN, []), (None, []), (None, [2, 3, 4]), (None, [5]), (Some EAGAIN, [])], [])"
    by (simp add: push_spec_def)
  moreover have "run_permitted (cbuf_exec 8192) (call_ok 8) [Push [1, 2, 3] False, Push [4, 5] False, Push [4, 5] True, Pop 3, Popb, Popb]
      (ring4 0, ring_mem)" by (rule run_permitted_all) (auto simp: cbuf_safe_def)
  ultimately show ?thesis
    using cbuf_is_bounded_queue [OF ring4_client,
        of "[Push [1, 2, 3] False, Push [4, 5] False, Push [4, 5] True, Pop 3, Popb, Popb]"]
    by auto
qed

lemma write_valid_iff: "cbuf_range_valid c i (cb_end c) \<longleftrightarrow> unat (i - cb_start c) \<le> unat (cbuf_size c)"
proof -
  define d where "d = i - cb_start c"
  have "cb_end c - i = cbuf_size c - d" by (simp add: cbuf_size_def d_def)
  moreover have "cbuf_size c - d \<le> cbuf_size c" if "d \<le> cbuf_size c"
    using that unat_sub_le [OF that] by (simp add: word_le_unat)
  ultimately have "cbuf_range_valid c i (cb_end c) \<longleftrightarrow> d \<le> cbuf_size c"
    unfolding cbuf_range_valid_def by (simp flip: d_def) auto
  then show ?thesis by (simp add: word_le_unat d_def)
qed

lemma read_valid_iff:
  assumes "cbuf_inv c m"
  shows "cbuf_range_valid c i (i + 1) \<longleftrightarrow> unat (i - cb_start c) < unat (cbuf_size c)"
proof -
  define off where "off = unat (i - cb_start c)"
  have i: "i = cb_start c + of_nat off" "i + 1 = cb_start c + of_nat (off + 1)"
    by (simp_all add: off_def)
  show ?thesis
  proof (cases "off \<le> unat (cbuf_size c)")
    case True
    have "cbuf_range_valid c (cb_start c + of_nat off) (cb_start c + of_nat (off + 1))
        \<longleftrightarrow> off \<le> unat (cbuf_size c) \<and> off + 1 \<le> unat (cbuf_size c)"
      using True capacity_facts(3,4) [OF assms] by (intro range_valid_iff) auto
    then show ?thesis unfolding i(2) [symmetric] i(1) [symmetric] off_def [symmetric] by auto
  next
    case False
    then show ?thesis by (simp add: cbuf_range_valid_def word_le_unat flip: off_def)
  qed
qed

text \<open>
  C28: a write at an absolute index inside the buffer replaces the bytes from there on,
  extends the content when the range passes its end, and drops the oldest bytes when the result exceeds the
  capacity; nothing outside the storage changes. Any other index is refused with
  \<open>EINVAL\<close> and nothing changes. The source does not overlap the storage and is shorter than \<open>2 ^ 63\<close> bytes. A write of no byte at an index that maps to the
  first byte of the storage is excluded: the code corrupts memory there.
\<close>

theorem cbuf_write_positional:
  assumes "cbuf_inv c m" "mem_bytes m buf xs" "cbuf_apart c buf (length xs)"
    and "xs = [] \<longrightarrow> cbuf_index c index \<noteq> 0" "length xs < 2 ^ 63"
  shows "if unat (index - cb_start c) \<le> length (cbuf_content c m)
    then \<exists>c' m'. cbuf_write c index buf (of_nat (length xs)) m = Some (None, c', m')
      \<and> written c m (unat (index - cb_start c)) xs c' m'
    else cbuf_write c index buf (of_nat (length xs)) m = Some (Some EINVAL, c, m)"
proof -
  have "cbuf_safe c index (length xs)" using assms(4) by (auto simp: cbuf_safe_def)
  from cbuf_write_spec [OF assms(1) _ _ assms(2,3) refl this assms(5), of "unat (index - cb_start c)"] show ?thesis
    using write_valid_iff [of c index] by (simp add: cbuf_write_def)
qed

theorem cbuf_write_positional_witness:
  "\<exists>c' m'. cbuf_write (ring4 3) (- 1) 8192 2 ring_mem = Some (None, c', m')
    \<and> written (ring4 3) ring_mem 1 [0, 0] c' m'"
proof -
  have "cbuf_apart (ring4 3) 8192 (length [0, 0 :: u8])" by (rule cbuf_apart_mono [OF ring4_apart]) simp
  moreover have "mem_bytes ring_mem 8192 [0, 0]" by (simp add: ring_mem_def)
  ultimately show ?thesis
    using cbuf_write_positional [OF ring4_inv, of 3 8192 "[0, 0]" "- 1"]
    by (simp add: ring4_def cbuf_size_def)
qed

text \<open>
  C29: a read at an absolute index inside the buffer transfers the stored bytes from there,
  as many as requested and available, into the caller's buffer and reports their number; any
  other index gives \<open>EINVAL\<close>. A read never changes the content. The caller's buffer does not overlap the storage. A read of no byte
  at an index that maps to the first byte of the storage is excluded: the code corrupts memory there.
\<close>

theorem cbuf_read_positional:
  assumes "cbuf_inv c m" "sz = 0 \<longrightarrow> cbuf_index c index \<noteq> 0" "mapped m buf (unat sz)" "cbuf_apart c buf (unat sz)"
  shows "let off = unat (index - cb_start c); xs = take (unat sz) (drop off (cbuf_content c m))
    in if off < length (cbuf_content c m)
      then cbuf_read c index buf sz m = Some (None, of_nat (length xs), write_bytes m buf xs)
        \<and> cbuf_content c (write_bytes m buf xs) = cbuf_content c m
      else cbuf_read c index buf sz m = Some (Some EINVAL, sz, m)"
proof -
  define off where "off = unat (index - cb_start c)"
  define k where "k = min (unat sz) (unat (cbuf_size c) - off)"
  define xs where "xs = take (unat sz) (drop off (cbuf_content c m))"
  have xs: "length xs = k" "take k (drop off (cbuf_content c m)) = xs" by (simp_all add: xs_def k_def min_def)
  have i: "index = cb_start c + of_nat off" by (simp add: off_def)
  have "k \<le> unat sz" by (simp add: k_def)
  then have d: "mapped m buf k" "cbuf_apart c buf k"
    using mapped_mono [OF assms(3)] cbuf_apart_mono [OF assms(4)] by auto
  have "cbuf_safe c index (unat sz)" using assms(2) by (auto simp: cbuf_safe_def unat_gt_0)
  then show ?thesis
    using cbuf_read_spec [OF assms(1) i _ k_def _ d] cbuf_content_apart(2) [OF assms(1), of buf xs] d
      read_valid_iff [OF assms(1), of index]
    unfolding Let_def off_def [symmetric] xs_def [symmetric] by (auto simp: cbuf_read_def xs simp flip: off_def)
qed

theorem cbuf_read_positional_witness:
  "cbuf_read (ring4 3) (- 1) 8192 5 ring_mem = Some (None, 2, write_bytes ring_mem 8192 [0, 0])"
proof -
  have "cbuf_apart (ring4 3) 8192 (unat (5 :: u64))" by (rule cbuf_apart_mono [OF ring4_apart]) simp
  moreover have "mapped ring_mem 8192 (unat (5 :: u64))" by (rule mapped_mono [OF ring4_mapped]) simp
  moreover have "cbuf_content (ring4 3) ring_mem = [0, 0, 0]"
    by (simp add: cbuf_content_def cbuf_slot_def cbuf_index_def ring4_def cbuf_size_def upt_rec ring_mem_def)
  ultimately show ?thesis
    using cbuf_read_positional [OF ring4_inv, of 3 5 "- 1" 8192]
    by (simp add: Let_def) (simp add: ring4_def)
qed

end
