(* ===== verification/Vm_page.thy ===== *)
theory Vm_page
  imports Arith
begin

text \<open>
  \<^verbatim>\<open>vm/vm_page.h\<close> and \<^verbatim>\<open>vm/vm_page.c\<close>: the physical
  page allocator, a binary buddy system per zone of memory with a cache of single pages per
  processor. This theory holds the data and the operations.

  The page table of the kernel is one array of descriptors, so a pointer to a descriptor is an
  index in a list, and a null pointer \<open>None\<close>. A \<^verbatim>\<open>struct list\<close>
  of descriptors is the list of their indexes, head first; unlinking a node that is not on the list
  stops the model. Physical addresses and page counts are 64-bit words. The mutexes carry no
  data: an operation that holds one is one step. The processor that runs an operation is its
  parameter \<open>cpu\<close>.
\<close>

unbundle bit_operations_syntax

section \<open>Constants and conversions\<close>

definition VM_PAGE_NR_FREE_LISTS :: nat where "VM_PAGE_NR_FREE_LISTS = 11"
definition VM_PAGE_CPU_POOL_RATIO :: u64 where "VM_PAGE_CPU_POOL_RATIO = 1024"
definition VM_PAGE_CPU_POOL_MAX_SIZE :: u64 where "VM_PAGE_CPU_POOL_MAX_SIZE = 128"
definition VM_PAGE_CPU_POOL_TRANSFER_RATIO :: int where "VM_PAGE_CPU_POOL_TRANSFER_RATIO = 2"
definition VM_PAGE_ORDER_UNLISTED :: u16 where "VM_PAGE_ORDER_UNLISTED = - 1"

definition PAGE_SHIFT :: nat where "PAGE_SHIFT = 12"
definition PAGE_SIZE :: u64 where "PAGE_SIZE = push_bit PAGE_SHIFT 1"

definition PMEM_MAX_ZONES :: nat where "PMEM_MAX_ZONES = 4"
definition PMEM_DIRECTMAP_LIMIT :: u64 where "PMEM_DIRECTMAP_LIMIT = 0x400000000000"
definition PMEM_ZONE_DMA :: nat where "PMEM_ZONE_DMA = 0"
definition PMEM_ZONE_DMA32 :: nat where "PMEM_ZONE_DMA32 = 1"
definition PMEM_ZONE_DIRECTMAP :: nat where "PMEM_ZONE_DIRECTMAP = 2"
definition PMEM_ZONE_HIGHMEM :: nat where "PMEM_ZONE_HIGHMEM = 3"

definition PMAP_START_DIRECTMAP_ADDRESS :: u64 where
  "PMAP_START_DIRECTMAP_ADDRESS = 0xffff800000000000"
definition PMAP_END_DIRECTMAP_ADDRESS :: u64 where
  "PMAP_END_DIRECTMAP_ADDRESS = 0xffffc00000000000"

definition VM_PAGE_SEL_DMA :: nat where "VM_PAGE_SEL_DMA = 0"
definition VM_PAGE_SEL_DMA32 :: nat where "VM_PAGE_SEL_DMA32 = 1"
definition VM_PAGE_SEL_DIRECTMAP :: nat where "VM_PAGE_SEL_DIRECTMAP = 2"
definition VM_PAGE_SEL_HIGHMEM :: nat where "VM_PAGE_SEL_HIGHMEM = 3"

definition VM_PAGE_FREE :: u16 where "VM_PAGE_FREE = 0"
definition VM_PAGE_RESERVED :: u16 where "VM_PAGE_RESERVED = 1"
definition VM_PAGE_TABLE :: u16 where "VM_PAGE_TABLE = 2"

definition vm_page_btop :: "u64 \<Rightarrow> u64" where "vm_page_btop bytes = drop_bit PAGE_SHIFT bytes"
definition vm_page_ptob :: "u64 \<Rightarrow> u64" where "vm_page_ptob pages = push_bit PAGE_SHIFT pages"
definition vm_page_trunc :: "u64 \<Rightarrow> u64" where "vm_page_trunc bytes = P2ALIGN bytes PAGE_SIZE"
definition vm_page_round :: "u64 \<Rightarrow> u64" where "vm_page_round bytes = P2ROUND bytes PAGE_SIZE"
definition vm_page_end :: "u64 \<Rightarrow> u64" where "vm_page_end bytes = P2END bytes PAGE_SIZE"
definition vm_page_aligned :: "u64 \<Rightarrow> bool" where "vm_page_aligned bytes = P2ALIGNED bytes PAGE_SIZE"

section \<open>Page descriptors\<close>

record vm_page =
  vp_type :: u16
  vp_zone_index :: u16
  vp_order :: u16
  vp_phys_addr :: u64
  vp_priv :: u64
  vp_nr_refs :: u32
  vp_object :: "nat option"
  vp_offset :: u64

text \<open>The size of a descriptor: a list node of two pointers, three short integers padded to 8
  bytes, two 64-bit fields, a reference count padded to 8 bytes, and two 64-bit fields.\<close>

definition sizeof_vm_page :: u64 where "sizeof_vm_page = 64"

type_synonym page_table = "vm_page list"

definition page_upd :: "page_table \<Rightarrow> nat \<Rightarrow> (vm_page \<Rightarrow> vm_page) \<Rightarrow> page_table option" where
  "page_upd ps p f = do { pg \<leftarrow> nth_opt ps p; upd_opt ps p (f pg) }"

definition vm_page_init :: "page_table \<Rightarrow> nat \<Rightarrow> u16 \<Rightarrow> u64 \<Rightarrow> page_table option" where
  "vm_page_init ps page zone_index pa = page_upd ps page (\<lambda>_.
     \<lparr>vp_type = VM_PAGE_RESERVED, vp_zone_index = zone_index, vp_order = VM_PAGE_ORDER_UNLISTED,
      vp_phys_addr = pa, vp_priv = 0, vp_nr_refs = 0, vp_object = None, vp_offset = 0\<rparr>)"

fun vm_page_set_type_loop :: "page_table \<Rightarrow> nat \<Rightarrow> nat \<Rightarrow> u16 \<Rightarrow> page_table option" where
  "vm_page_set_type_loop ps page 0 type = Some ps"
| "vm_page_set_type_loop ps page (Suc nr_pages) type = do {
     ps \<leftarrow> page_upd ps page (vp_type_update (\<lambda>_. type));
     vm_page_set_type_loop ps (Suc page) nr_pages type }"

definition vm_page_set_type :: "page_table \<Rightarrow> nat \<Rightarrow> nat \<Rightarrow> u16 \<Rightarrow> page_table option" where
  "vm_page_set_type ps page order type = vm_page_set_type_loop ps page (2 ^ order) type"

definition vm_page_type :: "vm_page \<Rightarrow> u16" where "vm_page_type pg = vp_type pg"

definition vm_page_order :: "u64 \<Rightarrow> nat option" where
  "vm_page_order sz = log2_order (vm_page_btop (vm_page_round sz))"

definition vm_page_to_pa :: "vm_page \<Rightarrow> u64" where "vm_page_to_pa pg = vp_phys_addr pg"

definition vm_page_direct_va :: "u64 \<Rightarrow> u64 option" where
  "vm_page_direct_va pa = do {
     assert_that (pa < PMEM_DIRECTMAP_LIMIT);
     Some (pa + PMAP_START_DIRECTMAP_ADDRESS) }"

definition vm_page_direct_pa :: "u64 \<Rightarrow> u64 option" where
  "vm_page_direct_pa va = do {
     assert_that (va \<ge> PMAP_START_DIRECTMAP_ADDRESS);
     assert_that (va < PMAP_END_DIRECTMAP_ADDRESS);
     Some (va - PMAP_START_DIRECTMAP_ADDRESS) }"

definition vm_page_direct_ptr :: "vm_page \<Rightarrow> u64 option" where
  "vm_page_direct_ptr pg = vm_page_direct_va (vm_page_to_pa pg)"

definition vm_page_set_priv :: "u64 \<Rightarrow> vm_page \<Rightarrow> vm_page" where
  "vm_page_set_priv priv pg = pg\<lparr>vp_priv := priv\<rparr>"

definition vm_page_get_priv :: "vm_page \<Rightarrow> u64" where "vm_page_get_priv pg = vp_priv pg"

definition vm_page_link :: "nat option \<Rightarrow> u64 \<Rightarrow> vm_page \<Rightarrow> vm_page option" where
  "vm_page_link object offset pg = do {
     assert_that (object \<noteq> None);
     Some (pg\<lparr>vp_object := object, vp_offset := offset\<rparr>) }"

definition vm_page_unlink :: "vm_page \<Rightarrow> vm_page option" where
  "vm_page_unlink pg = do {
     assert_that (vp_object pg \<noteq> None);
     Some (pg\<lparr>vp_object := None\<rparr>) }"

section \<open>Free lists\<close>

record vm_page_free_list =
  fl_size :: u64
  fl_blocks :: "nat list"

definition vm_page_free_list_init :: vm_page_free_list where
  "vm_page_free_list_init = \<lparr>fl_size = 0, fl_blocks = []\<rparr>"

definition vm_page_free_list_insert ::
  "vm_page_free_list \<Rightarrow> page_table \<Rightarrow> nat \<Rightarrow> vm_page_free_list option" where
  "vm_page_free_list_insert free_list ps page = do {
     pg \<leftarrow> nth_opt ps page;
     assert_that (vp_order pg = VM_PAGE_ORDER_UNLISTED);
     Some \<lparr>fl_size = fl_size free_list + 1, fl_blocks = page # fl_blocks free_list\<rparr> }"

definition list_unlink :: "nat \<Rightarrow> nat list \<Rightarrow> nat list option" where
  "list_unlink node list = do { assert_that (node \<in> set list); Some (remove1 node list) }"

definition list_first :: "nat list \<Rightarrow> nat option" where
  "list_first list = (case list of [] \<Rightarrow> None | node # _ \<Rightarrow> Some node)"

definition vm_page_free_list_remove ::
  "vm_page_free_list \<Rightarrow> page_table \<Rightarrow> nat \<Rightarrow> vm_page_free_list option" where
  "vm_page_free_list_remove free_list ps page = do {
     pg \<leftarrow> nth_opt ps page;
     assert_that (vp_order pg \<noteq> VM_PAGE_ORDER_UNLISTED);
     blocks \<leftarrow> list_unlink page (fl_blocks free_list);
     Some \<lparr>fl_size = fl_size free_list - 1, fl_blocks = blocks\<rparr> }"

section \<open>Zones\<close>

record vm_page_cpu_pool =
  cp_size :: int
  cp_transfer_size :: int
  cp_nr_pages :: int
  cp_pages :: "nat list"

record vm_page_zone =
  zn_cpu_pools :: "vm_page_cpu_pool list"
  zn_start :: u64
  zn_end :: u64
  zn_pages :: nat
  zn_pages_end :: nat
  zn_free_lists :: "vm_page_free_list list"
  zn_nr_free_pages :: u64

type_synonym zone_state = "vm_page_zone \<times> page_table"

text \<open>Replacing a free list of a zone.\<close>

definition zn_set_list :: "vm_page_zone \<Rightarrow> nat \<Rightarrow> vm_page_free_list \<Rightarrow> vm_page_zone option" where
  "zn_set_list zone i fl = do {
     fls \<leftarrow> upd_opt (zn_free_lists zone) i fl;
     Some (zone\<lparr>zn_free_lists := fls\<rparr>) }"

definition zn_insert :: "zone_state \<Rightarrow> nat \<Rightarrow> nat \<Rightarrow> zone_state option" where
  "zn_insert = (\<lambda>(zone, ps) i page. do {
     fl \<leftarrow> nth_opt (zn_free_lists zone) i;
     fl \<leftarrow> vm_page_free_list_insert fl ps page;
     zone \<leftarrow> zn_set_list zone i fl;
     ps \<leftarrow> page_upd ps page (vp_order_update (\<lambda>_. of_nat i));
     Some (zone, ps) })"

definition zn_remove :: "zone_state \<Rightarrow> nat \<Rightarrow> nat \<Rightarrow> zone_state option" where
  "zn_remove = (\<lambda>(zone, ps) i page. do {
     fl \<leftarrow> nth_opt (zn_free_lists zone) i;
     fl \<leftarrow> vm_page_free_list_remove fl ps page;
     zone \<leftarrow> zn_set_list zone i fl;
     ps \<leftarrow> page_upd ps page (vp_order_update (\<lambda>_. VM_PAGE_ORDER_UNLISTED));
     Some (zone, ps) })"

text \<open>The loop that gives back the upper halves of a block that is larger than requested.\<close>

fun vm_page_zone_split :: "nat \<Rightarrow> nat \<Rightarrow> nat \<Rightarrow> zone_state \<Rightarrow> zone_state option" where
  "vm_page_zone_split page order 0 s = Some s"
| "vm_page_zone_split page order (Suc i) s =
     (if Suc i > order then do {
        s \<leftarrow> zn_insert s i (page + 2 ^ i);
        vm_page_zone_split page order i s }
      else Some s)"

definition vm_page_zone_alloc_from_buddy ::
  "zone_state \<Rightarrow> nat \<Rightarrow> (nat option \<times> zone_state) option" where
  "vm_page_zone_alloc_from_buddy s order = do {
     assert_that (order < VM_PAGE_NR_FREE_LISTS);
     case find (\<lambda>i. fl_size (zn_free_lists (fst s) ! i) \<noteq> 0) [order..<VM_PAGE_NR_FREE_LISTS] of
       None \<Rightarrow> Some (None, s)
     | Some i \<Rightarrow> do {
         page \<leftarrow> list_first (fl_blocks (zn_free_lists (fst s) ! i));
         s \<leftarrow> zn_remove s i page;
         (zone, ps) \<leftarrow> vm_page_zone_split page order i s;
         Some (Some page, zone\<lparr>zn_nr_free_pages := zn_nr_free_pages zone - 2 ^ order\<rparr>, ps) } }"

text \<open>The coalescing loop: it returns the head and the order of the merged block.\<close>

function vm_page_zone_coalesce :: "nat \<Rightarrow> nat \<Rightarrow> u64 \<Rightarrow> zone_state \<Rightarrow> (nat \<times> nat \<times> zone_state) option" where
  "vm_page_zone_coalesce page order pa (zone, ps) =
     (if order < VM_PAGE_NR_FREE_LISTS - 1 then
        let buddy_pa = pa XOR vm_page_ptob (2 ^ order) in
        if buddy_pa < zn_start zone \<or> buddy_pa \<ge> zn_end zone then Some (page, order, zone, ps)
        else
          let buddy = zn_pages zone + unat (vm_page_btop (buddy_pa - zn_start zone)) in do {
          pg \<leftarrow> nth_opt ps buddy;
          if unat (vp_order pg) \<noteq> order then Some (page, order, zone, ps)
          else do {
            (zone, ps) \<leftarrow> zn_remove (zone, ps) order buddy;
            let order = order + 1;
            let pa = pa AND - vm_page_ptob (2 ^ order);
            let page = zn_pages zone + unat (vm_page_btop (pa - zn_start zone));
            vm_page_zone_coalesce page order pa (zone, ps) } }
      else Some (page, order, zone, ps))"
  by pat_completeness auto
termination
  by (relation "measure (\<lambda>(_, order, _, _). VM_PAGE_NR_FREE_LISTS - order)") auto

definition vm_page_zone_free_to_buddy :: "zone_state \<Rightarrow> nat \<Rightarrow> nat \<Rightarrow> zone_state option" where
  "vm_page_zone_free_to_buddy = (\<lambda>(zone, ps) page order. do {
     assert_that (page \<ge> zn_pages zone);
     assert_that (page < zn_pages_end zone);
     pg \<leftarrow> nth_opt ps page;
     assert_that (vp_order pg = VM_PAGE_ORDER_UNLISTED);
     assert_that (order < VM_PAGE_NR_FREE_LISTS);
     let nr_pages = 2 ^ order;
     (page, order, s) \<leftarrow> vm_page_zone_coalesce page order (vp_phys_addr pg) (zone, ps);
     (zone, ps) \<leftarrow> zn_insert s order page;
     Some (zone\<lparr>zn_nr_free_pages := zn_nr_free_pages zone + nr_pages\<rparr>, ps) })"

section \<open>Processor pools\<close>

definition vm_page_cpu_pool_init :: "int \<Rightarrow> vm_page_cpu_pool" where
  "vm_page_cpu_pool_init sz = \<lparr>cp_size = sz,
     cp_transfer_size = (sz + VM_PAGE_CPU_POOL_TRANSFER_RATIO - 1) div VM_PAGE_CPU_POOL_TRANSFER_RATIO,
     cp_nr_pages = 0, cp_pages = []\<rparr>"

definition vm_page_cpu_pool_get :: "vm_page_zone \<Rightarrow> nat \<Rightarrow> vm_page_cpu_pool option" where
  "vm_page_cpu_pool_get zone cpu = nth_opt (zn_cpu_pools zone) cpu"

definition vm_page_cpu_pool_pop :: "vm_page_cpu_pool \<Rightarrow> (nat \<times> vm_page_cpu_pool) option" where
  "vm_page_cpu_pool_pop pool = do {
     assert_that (cp_nr_pages pool \<noteq> 0);
     page \<leftarrow> list_first (cp_pages pool);
     pages \<leftarrow> list_unlink page (cp_pages pool);
     Some (page, pool\<lparr>cp_nr_pages := cp_nr_pages pool - 1, cp_pages := pages\<rparr>) }"

definition vm_page_cpu_pool_push :: "vm_page_cpu_pool \<Rightarrow> nat \<Rightarrow> vm_page_cpu_pool option" where
  "vm_page_cpu_pool_push pool page = do {
     assert_that (cp_nr_pages pool < cp_size pool);
     Some (pool\<lparr>cp_nr_pages := cp_nr_pages pool + 1, cp_pages := page # cp_pages pool\<rparr>) }"

text \<open>The loop of \<^verbatim>\<open>vm_page_cpu_pool_fill\<close> makes at most \<open>n\<close> more transfers and counts those it makes.\<close>

fun vm_page_cpu_pool_fill_loop :: "nat \<Rightarrow> vm_page_cpu_pool \<Rightarrow> zone_state
    \<Rightarrow> (nat \<times> vm_page_cpu_pool \<times> zone_state) option" where
  "vm_page_cpu_pool_fill_loop 0 pool s = Some (0, pool, s)"
| "vm_page_cpu_pool_fill_loop (Suc n) pool s = do {
     (page, s) \<leftarrow> vm_page_zone_alloc_from_buddy s 0;
     case page of
       None \<Rightarrow> Some (0, pool, s)
     | Some page \<Rightarrow> do {
         pool \<leftarrow> vm_page_cpu_pool_push pool page;
         (i, pool, s) \<leftarrow> vm_page_cpu_pool_fill_loop n pool s;
         Some (Suc i, pool, s) } }"

definition vm_page_cpu_pool_fill :: "vm_page_cpu_pool \<Rightarrow> zone_state
    \<Rightarrow> (nat \<times> vm_page_cpu_pool \<times> zone_state) option" where
  "vm_page_cpu_pool_fill pool s = do {
     assert_that (cp_nr_pages pool = 0);
     vm_page_cpu_pool_fill_loop (nat (cp_transfer_size pool)) pool s }"

fun vm_page_cpu_pool_drain_loop :: "nat \<Rightarrow> vm_page_cpu_pool \<Rightarrow> zone_state
    \<Rightarrow> (vm_page_cpu_pool \<times> zone_state) option" where
  "vm_page_cpu_pool_drain_loop 0 pool s = Some (pool, s)"
| "vm_page_cpu_pool_drain_loop (Suc i) pool s = do {
     (page, pool) \<leftarrow> vm_page_cpu_pool_pop pool;
     s \<leftarrow> vm_page_zone_free_to_buddy s page 0;
     vm_page_cpu_pool_drain_loop i pool s }"

definition vm_page_cpu_pool_drain :: "vm_page_cpu_pool \<Rightarrow> zone_state
    \<Rightarrow> (vm_page_cpu_pool \<times> zone_state) option" where
  "vm_page_cpu_pool_drain pool s = do {
     assert_that (cp_nr_pages pool = cp_size pool);
     vm_page_cpu_pool_drain_loop (nat (cp_transfer_size pool)) pool s }"

definition zn_set_pool :: "vm_page_zone \<Rightarrow> nat \<Rightarrow> vm_page_cpu_pool \<Rightarrow> vm_page_zone option" where
  "zn_set_pool zone cpu pool = do {
     pools \<leftarrow> upd_opt (zn_cpu_pools zone) cpu pool;
     Some (zone\<lparr>zn_cpu_pools := pools\<rparr>) }"

section \<open>Zone initialisation\<close>

definition vm_page_zone_size :: "vm_page_zone \<Rightarrow> u64" where
  "vm_page_zone_size zone = zn_end zone - zn_start zone"

definition vm_page_zone_compute_pool_size :: "vm_page_zone \<Rightarrow> int" where
  "vm_page_zone_compute_pool_size zone =
     (let sz = vm_page_btop (vm_page_zone_size zone) div VM_PAGE_CPU_POOL_RATIO in
      if sz = 0 then 1
      else if sz > VM_PAGE_CPU_POOL_MAX_SIZE then uint VM_PAGE_CPU_POOL_MAX_SIZE
      else uint sz)"

text \<open>The loop over the addresses of the zone would not end if its last page were the last of
  the address space; \<open>None\<close> is then its value.\<close>

partial_function (option) vm_page_zone_init_loop ::
  "u64 \<Rightarrow> u64 \<Rightarrow> nat \<Rightarrow> u16 \<Rightarrow> u64 \<Rightarrow> page_table \<Rightarrow> page_table option" where
  "vm_page_zone_init_loop start end pages i pa ps =
     (if pa < end then do {
        ps \<leftarrow> vm_page_init ps (pages + unat (vm_page_btop (pa - start))) i pa;
        vm_page_zone_init_loop start end pages i (pa + PAGE_SIZE) ps }
      else Some ps)"

definition vm_page_zone_init :: "vm_page_zone \<Rightarrow> nat \<Rightarrow> u64 \<Rightarrow> u64 \<Rightarrow> nat \<Rightarrow> page_table \<Rightarrow> zone_state option" where
  "vm_page_zone_init zone i start end pages ps = do {
     let zone = zone\<lparr>zn_start := start, zn_end := end\<rparr>;
     let pool_size = vm_page_zone_compute_pool_size zone;
     let zone = zone\<lparr>
       zn_cpu_pools := replicate (length (zn_cpu_pools zone)) (vm_page_cpu_pool_init pool_size),
       zn_pages := pages,
       zn_pages_end := pages + unat (vm_page_btop (vm_page_zone_size zone)),
       zn_free_lists := replicate VM_PAGE_NR_FREE_LISTS vm_page_free_list_init,
       zn_nr_free_pages := 0\<rparr>;
     ps \<leftarrow> vm_page_zone_init_loop start end pages (of_nat i) start ps;
     Some (zone, ps) }"

section \<open>Allocation from a zone\<close>

definition vm_page_zone_alloc :: "zone_state \<Rightarrow> nat \<Rightarrow> nat \<Rightarrow> u16 \<Rightarrow> (nat option \<times> zone_state) option" where
  "vm_page_zone_alloc s cpu order type = do {
     assert_that (order < VM_PAGE_NR_FREE_LISTS);
     (page, zone, ps) \<leftarrow>
       (if order = 0 then do {
          pool \<leftarrow> vm_page_cpu_pool_get (fst s) cpu;
          (filled, pool, zone, ps) \<leftarrow>
            (if cp_nr_pages pool = 0 then do {
               (filled, pool, s) \<leftarrow> vm_page_cpu_pool_fill pool s;
               Some (filled \<noteq> 0, pool, s) }
             else Some (True, pool, s));
          if \<not> filled then do {
            zone \<leftarrow> zn_set_pool zone cpu pool;
            Some (None, zone, ps) }
          else do {
            (page, pool) \<leftarrow> vm_page_cpu_pool_pop pool;
            zone \<leftarrow> zn_set_pool zone cpu pool;
            Some (Some page, zone, ps) } }
        else vm_page_zone_alloc_from_buddy s order);
     case page of
       None \<Rightarrow> Some (None, zone, ps)
     | Some page \<Rightarrow> do {
         pg \<leftarrow> nth_opt ps page;
         assert_that (vp_type pg = VM_PAGE_FREE);
         ps \<leftarrow> vm_page_set_type ps page order type;
         Some (Some page, zone, ps) } }"

definition vm_page_zone_free :: "zone_state \<Rightarrow> nat \<Rightarrow> nat \<Rightarrow> nat \<Rightarrow> zone_state option" where
  "vm_page_zone_free = (\<lambda>(zone, ps) cpu page order. do {
     pg \<leftarrow> nth_opt ps page;
     assert_that (vp_type pg \<noteq> VM_PAGE_FREE);
     assert_that (order < VM_PAGE_NR_FREE_LISTS);
     ps \<leftarrow> vm_page_set_type ps page order VM_PAGE_FREE;
     if order = 0 then do {
       pool \<leftarrow> vm_page_cpu_pool_get zone cpu;
       (pool, zone, ps) \<leftarrow>
         (if cp_nr_pages pool = cp_size pool then vm_page_cpu_pool_drain pool (zone, ps)
          else Some (pool, zone, ps));
       pool \<leftarrow> vm_page_cpu_pool_push pool page;
       zone \<leftarrow> zn_set_pool zone cpu pool;
       Some (zone, ps) }
     else vm_page_zone_free_to_buddy (zone, ps) page order })"

section \<open>The module\<close>

record vm_page_boot_zone =
  bz_start :: u64
  bz_end :: u64
  bz_heap_present :: bool
  bz_avail_start :: u64
  bz_avail_end :: u64

record vm_page_state =
  vs_table :: page_table
  vs_zones :: "vm_page_zone list"
  vs_boot_zones :: "vm_page_boot_zone list"
  vs_zones_size :: nat
  vs_ready :: bool

definition vm_page_load :: "vm_page_state \<Rightarrow> nat \<Rightarrow> u64 \<Rightarrow> u64 \<Rightarrow> vm_page_state option" where
  "vm_page_load st zone_index start end = do {
     assert_that (zone_index < PMEM_MAX_ZONES);
     assert_that (vm_page_aligned start);
     assert_that (vm_page_aligned end);
     assert_that (start < end);
     assert_that (vs_zones_size st < PMEM_MAX_ZONES);
     zone \<leftarrow> nth_opt (vs_boot_zones st) zone_index;
     let zone = zone\<lparr>bz_start := start, bz_end := end, bz_heap_present := False\<rparr>;
     bzs \<leftarrow> upd_opt (vs_boot_zones st) zone_index zone;
     Some (st\<lparr>vs_boot_zones := bzs, vs_zones_size := vs_zones_size st + 1\<rparr>) }"

definition vm_page_load_heap :: "vm_page_state \<Rightarrow> nat \<Rightarrow> u64 \<Rightarrow> u64 \<Rightarrow> vm_page_state option" where
  "vm_page_load_heap st zone_index start end = do {
     assert_that (zone_index < PMEM_MAX_ZONES);
     assert_that (vm_page_aligned start);
     assert_that (vm_page_aligned end);
     zone \<leftarrow> nth_opt (vs_boot_zones st) zone_index;
     assert_that (bz_start zone \<le> start);
     assert_that (end \<le> bz_end zone);
     let zone = zone\<lparr>bz_avail_start := start, bz_avail_end := end, bz_heap_present := True\<rparr>;
     bzs \<leftarrow> upd_opt (vs_boot_zones st) zone_index zone;
     Some (st\<lparr>vs_boot_zones := bzs\<rparr>) }"

definition vm_page_ready :: "vm_page_state \<Rightarrow> bool" where "vm_page_ready st = vs_ready st"

text \<open>The number of zones is unsigned: 0 - 1 is larger than every zone index.\<close>

definition vm_page_select_alloc_zone :: "vm_page_state \<Rightarrow> nat \<Rightarrow> nat option" where
  "vm_page_select_alloc_zone st selector = do {
     zone_index \<leftarrow>
       (if selector = VM_PAGE_SEL_DMA then Some PMEM_ZONE_DMA
        else if selector = VM_PAGE_SEL_DMA32 then Some PMEM_ZONE_DMA32
        else if selector = VM_PAGE_SEL_DIRECTMAP then Some PMEM_ZONE_DIRECTMAP
        else if selector = VM_PAGE_SEL_HIGHMEM then Some PMEM_ZONE_HIGHMEM
        else None);
     Some (if vs_zones_size st = 0 then zone_index else min (vs_zones_size st - 1) zone_index) }"

definition vm_page_boot_zone_loaded :: "vm_page_boot_zone \<Rightarrow> bool" where
  "vm_page_boot_zone_loaded zone \<longleftrightarrow> bz_end zone \<noteq> 0"

definition vm_page_check_boot_zones :: "vm_page_state \<Rightarrow> unit option" where
  "vm_page_check_boot_zones st = do {
     assert_that (vs_zones_size st \<noteq> 0);
     assert_that (list_all (\<lambda>i. vm_page_boot_zone_loaded (vs_boot_zones st ! i) = (i < vs_zones_size st))
       [0..<length (vs_boot_zones st)]) }"

definition vm_page_boot_zone_size :: "vm_page_boot_zone \<Rightarrow> u64" where
  "vm_page_boot_zone_size zone = bz_end zone - bz_start zone"

definition vm_page_boot_zone_avail_size :: "vm_page_boot_zone \<Rightarrow> u64" where
  "vm_page_boot_zone_avail_size zone = bz_avail_end zone - bz_avail_start zone"

text \<open>The zones from \<open>i\<close> down; the unsigned index ends the loop when it passes 0.\<close>

fun vm_page_bootalloc_loop :: "u64 \<Rightarrow> nat \<Rightarrow> vm_page_boot_zone list \<Rightarrow> (u64 \<times> vm_page_boot_zone list) option" where
  "vm_page_bootalloc_loop sz i bzs = do {
     zone \<leftarrow> nth_opt bzs i;
     if bz_heap_present zone \<and> sz \<le> vm_page_boot_zone_avail_size zone then do {
       let pa = bz_avail_start zone;
       bzs \<leftarrow> upd_opt bzs i (zone\<lparr>bz_avail_start := bz_avail_start zone + vm_page_round sz\<rparr>);
       va \<leftarrow> vm_page_direct_va pa;
       Some (va, bzs) }
     else if i = 0 then None
     else vm_page_bootalloc_loop sz (i - 1) bzs }"

declare vm_page_bootalloc_loop.simps [simp del]

definition vm_page_bootalloc :: "vm_page_state \<Rightarrow> u64 \<Rightarrow> (u64 \<times> vm_page_state) option" where
  "vm_page_bootalloc st sz = do {
     i \<leftarrow> vm_page_select_alloc_zone st VM_PAGE_SEL_DIRECTMAP;
     assert_that (i < vs_zones_size st);
     (va, bzs) \<leftarrow> vm_page_bootalloc_loop sz i (vs_boot_zones st);
     Some (va, st\<lparr>vs_boot_zones := bzs\<rparr>) }"

definition vm_page_lookup :: "vm_page_state \<Rightarrow> u64 \<Rightarrow> nat option" where
  "vm_page_lookup st pa =
     (case find (\<lambda>zone. zn_start zone \<le> pa \<and> pa < zn_end zone) (take (vs_zones_size st) (vs_zones st)) of
        None \<Rightarrow> None
      | Some zone \<Rightarrow> Some (zn_pages zone + unat (vm_page_btop (pa - zn_start zone))))"

fun vm_page_setup_release :: "nat \<Rightarrow> nat \<Rightarrow> zone_state \<Rightarrow> zone_state option" where
  "vm_page_setup_release page 0 s = Some s"
| "vm_page_setup_release page (Suc n) (zone, ps) = do {
     ps \<leftarrow> page_upd ps page (vp_type_update (\<lambda>_. VM_PAGE_FREE));
     s \<leftarrow> vm_page_zone_free_to_buddy (zone, ps) page 0;
     vm_page_setup_release (Suc page) n s }"

definition vm_page_setup_zone :: "vm_page_state \<Rightarrow> nat \<Rightarrow> nat \<Rightarrow> (nat \<times> vm_page_state) option" where
  "vm_page_setup_zone st i table = do {
     zone \<leftarrow> nth_opt (vs_zones st) i;
     boot_zone \<leftarrow> nth_opt (vs_boot_zones st) i;
     (zone, ps) \<leftarrow> vm_page_zone_init zone i (bz_start boot_zone) (bz_end boot_zone) table (vs_table st);
     let page = zn_pages zone + unat (vm_page_btop (bz_avail_start boot_zone - bz_start boot_zone));
     let end = zn_pages zone + unat (vm_page_btop (bz_avail_end boot_zone - bz_start boot_zone));
     (zone, ps) \<leftarrow> vm_page_setup_release page (end - page) (zone, ps);
     zones \<leftarrow> upd_opt (vs_zones st) i zone;
     Some (table + unat (vm_page_btop (vm_page_zone_size zone)),
       st\<lparr>vs_zones := zones, vs_table := ps\<rparr>) }"

fun vm_page_setup_zones :: "nat list \<Rightarrow> nat \<Rightarrow> vm_page_state \<Rightarrow> (nat \<times> vm_page_state) option" where
  "vm_page_setup_zones [] table st = Some (table, st)"
| "vm_page_setup_zones (i # is) table st = do {
     (table, st) \<leftarrow> vm_page_setup_zone st i table;
     vm_page_setup_zones is table st }"

text \<open>Marking the pages that hold the page table itself, \<open>n\<close> of them from address \<open>va\<close>.\<close>

fun vm_page_setup_table :: "nat \<Rightarrow> u64 \<Rightarrow> vm_page_state \<Rightarrow> vm_page_state option" where
  "vm_page_setup_table 0 va st = Some st"
| "vm_page_setup_table (Suc n) va st = do {
     pa \<leftarrow> vm_page_direct_pa va;
     page \<leftarrow> vm_page_lookup st pa;
     pg \<leftarrow> nth_opt (vs_table st) page;
     assert_that (vp_type pg = VM_PAGE_RESERVED);
     ps \<leftarrow> page_upd (vs_table st) page (vp_type_update (\<lambda>_. VM_PAGE_TABLE));
     vm_page_setup_table n (va + PAGE_SIZE) (st\<lparr>vs_table := ps\<rparr>) }"

text \<open>The table comes from boot memory: its descriptors have arbitrary content, \<open>garbage\<close>,
  until the zones are initialised.\<close>

definition vm_page_setup :: "vm_page \<Rightarrow> vm_page_state \<Rightarrow> vm_page_state option" where
  "vm_page_setup garbage st = do {
     vm_page_check_boot_zones st;
     let nr_pages = (\<Sum>zone\<leftarrow>take (vs_zones_size st) (vs_boot_zones st).
       vm_page_btop (vm_page_boot_zone_size zone));
     let table_size = vm_page_round (nr_pages * sizeof_vm_page);
     (va, st) \<leftarrow> vm_page_bootalloc st table_size;
     let st = st\<lparr>vs_table := replicate (unat nr_pages) garbage\<rparr>;
     (table, st) \<leftarrow> vm_page_setup_zones [0..<vs_zones_size st] 0 st;
     st \<leftarrow> vm_page_setup_table (DIV_CEIL (table * unat sizeof_vm_page) (unat PAGE_SIZE)) va st;
     Some (st\<lparr>vs_ready := True\<rparr>) }"

definition vm_page_manage :: "vm_page_state \<Rightarrow> nat \<Rightarrow> vm_page_state option" where
  "vm_page_manage st page = do {
     pg \<leftarrow> nth_opt (vs_table st) page;
     assert_that (unat (vp_zone_index pg) < PMEM_MAX_ZONES);
     assert_that (vp_type pg = VM_PAGE_RESERVED);
     ps \<leftarrow> vm_page_set_type (vs_table st) page 0 VM_PAGE_FREE;
     zone \<leftarrow> nth_opt (vs_zones st) (unat (vp_zone_index pg));
     (zone, ps) \<leftarrow> vm_page_zone_free_to_buddy (zone, ps) page 0;
     zones \<leftarrow> upd_opt (vs_zones st) (unat (vp_zone_index pg)) zone;
     Some (st\<lparr>vs_zones := zones, vs_table := ps\<rparr>) }"

definition vm_page_referenced :: "vm_page \<Rightarrow> bool" where
  "vm_page_referenced pg \<longleftrightarrow> vp_nr_refs pg \<noteq> 0"

fun vm_page_block_referenced_loop :: "page_table \<Rightarrow> nat \<Rightarrow> nat \<Rightarrow> bool option" where
  "vm_page_block_referenced_loop ps page 0 = Some False"
| "vm_page_block_referenced_loop ps page (Suc nr_pages) = do {
     pg \<leftarrow> nth_opt ps page;
     if vm_page_referenced pg then Some True
     else vm_page_block_referenced_loop ps (Suc page) nr_pages }"

definition vm_page_block_referenced :: "page_table \<Rightarrow> nat \<Rightarrow> nat \<Rightarrow> bool option" where
  "vm_page_block_referenced ps page order = vm_page_block_referenced_loop ps page (2 ^ order)"

fun vm_page_alloc_loop :: "nat \<Rightarrow> nat \<Rightarrow> nat \<Rightarrow> u16 \<Rightarrow> vm_page_state \<Rightarrow> (nat option \<times> vm_page_state) option" where
  "vm_page_alloc_loop cpu i order type st = do {
     zone \<leftarrow> nth_opt (vs_zones st) i;
     (page, zone, ps) \<leftarrow> vm_page_zone_alloc (zone, vs_table st) cpu order type;
     zones \<leftarrow> upd_opt (vs_zones st) i zone;
     let st = st\<lparr>vs_zones := zones, vs_table := ps\<rparr>;
     case page of
       Some page \<Rightarrow> do {
         referenced \<leftarrow> vm_page_block_referenced (vs_table st) page order;
         assert_that (\<not> referenced);
         Some (Some page, st) }
     | None \<Rightarrow> if i = 0 then Some (None, st) else vm_page_alloc_loop cpu (i - 1) order type st }"

declare vm_page_alloc_loop.simps [simp del]

definition vm_page_alloc :: "vm_page_state \<Rightarrow> nat \<Rightarrow> nat \<Rightarrow> nat \<Rightarrow> u16 \<Rightarrow> (nat option \<times> vm_page_state) option" where
  "vm_page_alloc st cpu order selector type = do {
     i \<leftarrow> vm_page_select_alloc_zone st selector;
     if i < vs_zones_size st then vm_page_alloc_loop cpu i order type st else Some (None, st) }"

definition vm_page_free :: "vm_page_state \<Rightarrow> nat \<Rightarrow> nat \<Rightarrow> nat \<Rightarrow> vm_page_state option" where
  "vm_page_free st cpu page order = do {
     pg \<leftarrow> nth_opt (vs_table st) page;
     assert_that (unat (vp_zone_index pg) < PMEM_MAX_ZONES);
     referenced \<leftarrow> vm_page_block_referenced (vs_table st) page order;
     assert_that (\<not> referenced);
     zone \<leftarrow> nth_opt (vs_zones st) (unat (vp_zone_index pg));
     (zone, ps) \<leftarrow> vm_page_zone_free (zone, vs_table st) cpu page order;
     zones \<leftarrow> upd_opt (vs_zones st) (unat (vp_zone_index pg)) zone;
     Some (st\<lparr>vs_zones := zones, vs_table := ps\<rparr>) }"

definition vm_page_zone_name :: "nat \<Rightarrow> string option" where
  "vm_page_zone_name zone_index =
     (if zone_index = PMEM_ZONE_HIGHMEM then Some ''HIGHMEM''
      else if zone_index = PMEM_ZONE_DIRECTMAP then Some ''DIRECTMAP''
      else if zone_index = PMEM_ZONE_DMA32 then Some ''DMA32''
      else if zone_index = PMEM_ZONE_DMA then Some ''DMA''
      else None)"

section \<open>References\<close>

definition vm_page_ref :: "vm_page_state \<Rightarrow> nat \<Rightarrow> vm_page_state option" where
  "vm_page_ref st page = do {
     pg \<leftarrow> nth_opt (vs_table st) page;
     ps \<leftarrow> page_upd (vs_table st) page (vp_nr_refs_update (\<lambda>n. n + 1));
     assert_that (vp_nr_refs pg \<noteq> - 1);
     Some (st\<lparr>vs_table := ps\<rparr>) }"

definition vm_page_unref :: "vm_page_state \<Rightarrow> nat \<Rightarrow> nat \<Rightarrow> vm_page_state option" where
  "vm_page_unref st cpu page = do {
     pg \<leftarrow> nth_opt (vs_table st) page;
     ps \<leftarrow> page_upd (vs_table st) page (vp_nr_refs_update (\<lambda>n. n - 1));
     let st = st\<lparr>vs_table := ps\<rparr>;
     assert_that (vp_nr_refs pg \<noteq> 0);
     if vp_nr_refs pg = 1 then vm_page_free st cpu page 0 else Some st }"

text \<open>The compare-and-swap loop, with no other processor interfering, succeeds at its first attempt.\<close>

definition vm_page_tryref :: "vm_page_state \<Rightarrow> nat \<Rightarrow> (errno option \<times> vm_page_state) option" where
  "vm_page_tryref st page = do {
     pg \<leftarrow> nth_opt (vs_table st) page;
     if vp_nr_refs pg = 0 then Some (Some EAGAIN, st)
     else do {
       ps \<leftarrow> page_upd (vs_table st) page (vp_nr_refs_update (\<lambda>n. n + 1));
       Some (None, st\<lparr>vs_table := ps\<rparr>) } }"

end
