(* ===== verification/Buddy.thy ===== *)
theory Buddy
  imports Prelude
begin

text \<open>
  The abstract specification of a binary buddy system: a set of free blocks, each given by its
  first page frame and its order. \<open>vm_page.c\<close> refines it. A block of order \<open>k\<close> starts at a
  multiple of \<open>2 ^ k\<close>; free blocks do not overlap; and no free block has its buddy free beside
  it, unless it is of the largest order, for the two would have been merged.
\<close>

type_synonym block = "nat \<times> nat"

definition frames :: "block \<Rightarrow> nat set" where
  "frames b = {fst b..<fst b + 2 ^ snd b}"

definition cover :: "block set \<Rightarrow> nat set" where
  "cover bl = (\<Union>b\<in>bl. frames b)"

definition buddy :: "nat \<Rightarrow> nat \<Rightarrow> nat" where
  "buddy k f = (if even (f div 2 ^ k) then f + 2 ^ k else f - 2 ^ k)"

definition parent :: "nat \<Rightarrow> nat \<Rightarrow> nat" where
  "parent k f = f - f mod 2 ^ Suc k"

definition block_ok :: "nat \<Rightarrow> nat \<Rightarrow> nat \<Rightarrow> block \<Rightarrow> bool" where
  "block_ok K s e b \<longleftrightarrow> snd b < K \<and> 2 ^ snd b dvd fst b \<and> s \<le> fst b \<and> fst b + 2 ^ snd b \<le> e"

definition separate :: "block set \<Rightarrow> bool" where
  "separate bl \<longleftrightarrow> (\<forall>a\<in>bl. \<forall>b\<in>bl. a \<noteq> b \<longrightarrow> frames a \<inter> frames b = {})"

definition merged :: "nat \<Rightarrow> block set \<Rightarrow> bool" where
  "merged K bl \<longleftrightarrow> (\<forall>(f, k)\<in>bl. Suc k < K \<longrightarrow> (buddy k f, k) \<notin> bl)"

definition buddy_inv :: "nat \<Rightarrow> nat \<Rightarrow> nat \<Rightarrow> block set \<Rightarrow> bool" where
  "buddy_inv K s e bl \<longleftrightarrow> (\<forall>b\<in>bl. block_ok K s e b) \<and> separate bl \<and> merged K bl"

function merge :: "nat \<Rightarrow> nat \<Rightarrow> nat \<Rightarrow> block set \<Rightarrow> nat \<times> nat \<times> block set" where
  "merge K f k bl =
     (if Suc k < K \<and> (buddy k f, k) \<in> bl
      then merge K (parent k f) (Suc k) (bl - {(buddy k f, k)})
      else (f, k, bl))"
  by pat_completeness auto
termination by (relation "measure (\<lambda>(K, _, k, _). K - k)") auto

declare merge.simps [simp del]

definition halves :: "nat \<Rightarrow> nat \<Rightarrow> nat \<Rightarrow> block set" where
  "halves f order i = {(f + 2 ^ j, j) | j. order \<le> j \<and> j < i}"

section \<open>Buddies\<close>

lemma frames_nonempty [simp]: "frames b \<noteq> {}"
  by (simp add: frames_def)

lemma head_in_frames [simp]: "f \<in> frames (f, k)"
  by (simp add: frames_def)

lemma buddy_cases:
  assumes "2 ^ k dvd f"
  obtains q where "f = 2 ^ k * (2 * q)" "buddy k f = 2 ^ k * (2 * q + 1)" "parent k f = 2 ^ k * (2 * q)"
  | q where "f = 2 ^ k * (2 * q + 1)" "buddy k f = 2 ^ k * (2 * q)" "parent k f = 2 ^ k * (2 * q)"
proof -
  obtain r where r: "f = 2 ^ k * r" using assms by blast
  have m: "f mod 2 ^ Suc k = 2 ^ k * (r mod 2)"
    unfolding r by (simp add: mult_mod_right [symmetric] mult.commute)
  show ?thesis
  proof (cases "even r")
    case True
    then obtain q where "r = 2 * q" by blast
    with that(1) [of q] m r show ?thesis by (simp add: buddy_def parent_def)
  next
    case False
    then obtain q where "r = 2 * q + 1" by (elim oddE)
    with that(2) [of q] m r show ?thesis by (simp add: buddy_def parent_def algebra_simps)
  qed
qed

lemma buddy_dvd: "2 ^ k dvd f \<Longrightarrow> 2 ^ k dvd buddy k f"
  by (erule buddy_cases) simp_all

lemma buddy_buddy: "2 ^ k dvd f \<Longrightarrow> buddy k (buddy k f) = f"
  by (erule buddy_cases) (simp_all add: buddy_def algebra_simps)

lemma buddy_neq: "2 ^ k dvd f \<Longrightarrow> buddy k f \<noteq> f"
  by (erule buddy_cases) simp_all

lemma parent_dvd: "2 ^ k dvd f \<Longrightarrow> 2 ^ Suc k dvd parent k f"
  by (erule buddy_cases) (simp_all add: mult.assoc [symmetric])

lemma frames_parent:
  "2 ^ k dvd f \<Longrightarrow> frames (parent k f, Suc k) = frames (f, k) \<union> frames (buddy k f, k)"
  by (erule buddy_cases) (auto simp: frames_def algebra_simps)

lemma aligned_disjoint:
  assumes "2 ^ k dvd f" "2 ^ j dvd g" "j \<le> k" "frames (f, k) \<inter> frames (g, j) \<noteq> {}"
  shows "frames (g, j) \<subseteq> frames (f, k)"
proof -
  obtain q r where q: "f = 2 ^ k * q" and r: "g = 2 ^ j * r" using assms by blast
  obtain d where d: "(2 :: nat) ^ k = 2 ^ j * 2 ^ d" using assms(3) by (metis le_add_diff_inverse power_add)
  obtain x where "x \<in> frames (f, k)" "x \<in> frames (g, j)" using assms(4) by blast
  then have x: "f \<le> x" "x < f + 2 ^ k" "g \<le> x" "x < g + 2 ^ j" by (simp_all add: frames_def)
  have "x div 2 ^ j = r" using x(3,4) unfolding r by (intro div_nat_eqI) (auto simp: algebra_simps)
  moreover have "x div 2 ^ k = q" using x(1,2) unfolding q by (intro div_nat_eqI) (auto simp: algebra_simps)
  ultimately have "r div 2 ^ d = q" by (metis d div_mult2_eq)
  then have "2 ^ d * q \<le> r" "r < 2 ^ d * q + 2 ^ d"
    using times_div_less_eq_dividend [of "2 ^ d" r] dividend_less_times_div [of "2 ^ d" r] by auto
  then have "2 ^ j * (2 ^ d * q) \<le> 2 ^ j * r" "2 ^ j * (r + 1) \<le> 2 ^ j * (2 ^ d * q + 2 ^ d)"
    by (intro mult_le_mono2; simp)+
  then have "f \<le> g" "g + 2 ^ j \<le> f + 2 ^ k" by (simp_all add: q r d algebra_simps)
  then show ?thesis by (auto simp: frames_def)
qed


section \<open>Freeing\<close>

lemma cover_insert [simp]: "cover (insert b bl) = frames b \<union> cover bl"
  by (simp add: cover_def)

lemma frames_sub_cover: "b \<in> bl \<Longrightarrow> frames b \<subseteq> cover bl"
  by (auto simp: cover_def)

lemma cover_remove:
  assumes "separate bl" "b \<in> bl"
  shows "cover (bl - {b}) = cover bl - frames b"
  using assms unfolding separate_def cover_def by (auto; blast)

lemma buddy_inv_remove: "buddy_inv K s e bl \<Longrightarrow> buddy_inv K s e (bl - {b})"
  by (auto simp: buddy_inv_def separate_def merged_def)

lemma buddy_inv_insert:
  assumes "buddy_inv K s e bl" "block_ok K s e (f, k)" "frames (f, k) \<inter> cover bl = {}"
    and "Suc k < K \<Longrightarrow> (buddy k f, k) \<notin> bl"
  shows "buddy_inv K s e (insert (f, k) bl)"
proof -
  have "separate (insert (f, k) bl)"
    using assms(1,3) unfolding buddy_inv_def separate_def cover_def by (auto; blast)
  moreover have "merged K (insert (f, k) bl)"
  proof -
    have no: False if g: "(g, j) \<in> insert (f, k) bl" and j: "Suc j < K"
      and b: "(buddy j g, j) \<in> insert (f, k) bl" for g j
    proof -
    have dvd: "2 ^ j dvd g" using g assms(1,2) by (auto simp: buddy_inv_def block_ok_def)
    consider "(g, j) = (f, k)" | "(buddy j g, j) = (f, k)" | "(g, j) \<in> bl" "(buddy j g, j) \<in> bl"
      using g b by blast
    then show False
    proof cases
      case 1
      then show False using b j assms(4) buddy_neq [OF dvd] by auto
    next
      case 2
      then have "(buddy k f, k) = (g, j)" using buddy_buddy [OF dvd] by auto
      then show False using g j 2 assms(4) buddy_neq [OF dvd] by auto
    next
      case 3
      then show False using assms(1) j by (auto simp: buddy_inv_def merged_def)
    qed
    qed
    show ?thesis
      unfolding merged_def by (intro ballI case_prodI2 impI notI) (rule no, simp_all only:)
  qed
  ultimately show ?thesis using assms(1,2) by (auto simp: buddy_inv_def)
qed

lemma merge_spec:
  assumes "buddy_inv K s e bl" "block_ok K s e (f, k)" "frames (f, k) \<inter> cover bl = {}"
    and "merge K f k bl = (f', k', bl')"
  shows "buddy_inv K s e bl' \<and> block_ok K s e (f', k') \<and> frames (f', k') \<inter> cover bl' = {}
    \<and> (Suc k' < K \<longrightarrow> (buddy k' f', k') \<notin> bl')
    \<and> frames (f', k') \<union> cover bl' = frames (f, k) \<union> cover bl \<and> bl' \<subseteq> bl"
  using assms
proof (induction K f k bl rule: merge.induct)
  case (1 K f k bl)
  let ?b = "(buddy k f, k)"
  show ?case
  proof (cases "Suc k < K \<and> ?b \<in> bl")
    case True
    have dvd: "2 ^ k dvd f" using 1(3) by (simp add: block_ok_def)
    have sep: "separate bl" using 1(2) by (simp add: buddy_inv_def)
    have ok: "block_ok K s e ?b" using 1(2) True by (auto simp: buddy_inv_def)
    have par: "frames (parent k f, Suc k) = frames (f, k) \<union> frames ?b" by (rule frames_parent [OF dvd])
    have c: "cover (bl - {?b}) = cover bl - frames ?b" using cover_remove [OF sep] True by simp
    have "block_ok K s e (parent k f, Suc k)"
      using True 1(3) ok parent_dvd [OF dvd] by (cases rule: buddy_cases [OF dvd]) (auto simp: block_ok_def)
    moreover have "frames (parent k f, Suc k) \<inter> cover (bl - {?b}) = {}" using 1(4) c par by auto
    moreover have "merge K (parent k f) (Suc k) (bl - {?b}) = (f', k', bl')"
      using 1(5) True by (simp add: merge.simps [of K f k])
    ultimately have r: "buddy_inv K s e bl' \<and> block_ok K s e (f', k') \<and> frames (f', k') \<inter> cover bl' = {}
      \<and> (Suc k' < K \<longrightarrow> (buddy k' f', k') \<notin> bl')
      \<and> frames (f', k') \<union> cover bl' = frames (parent k f, Suc k) \<union> cover (bl - {?b}) \<and> bl' \<subseteq> bl - {?b}"
      using 1(1) [OF True buddy_inv_remove [OF 1(2)]] by simp
    moreover have "frames (parent k f, Suc k) \<union> cover (bl - {?b}) = frames (f, k) \<union> cover bl"
      using c par frames_sub_cover [of ?b bl] True by auto
    ultimately show ?thesis by auto
  next
    case False
    then have "f' = f" "k' = k" "bl' = bl" using 1(5) by (auto simp: merge.simps [of K f k])
    then show ?thesis using 1 False by auto
  qed
qed

definition free_block :: "nat \<Rightarrow> nat \<Rightarrow> nat \<Rightarrow> block set \<Rightarrow> block set" where
  "free_block K f k bl = (let (f', k', bl') = merge K f k bl in insert (f', k') bl')"

lemma free_block_spec:
  assumes "buddy_inv K s e bl" "block_ok K s e (f, k)" "frames (f, k) \<inter> cover bl = {}"
  shows "buddy_inv K s e (free_block K f k bl)" "cover (free_block K f k bl) = cover bl \<union> frames (f, k)"
proof -
  obtain f' k' bl' where m: "merge K f k bl = (f', k', bl')" by (cases "merge K f k bl")
  from merge_spec [OF assms m] show "buddy_inv K s e (free_block K f k bl)"
    "cover (free_block K f k bl) = cover bl \<union> frames (f, k)"
    unfolding free_block_def m by (auto intro: buddy_inv_insert)
qed

section \<open>Allocating\<close>

lemma halves_empty [simp]: "halves f k k = {}"
  by (auto simp: halves_def)

lemma halves_Suc: "order \<le> i \<Longrightarrow> halves f order (Suc i) = insert (f + 2 ^ i, i) (halves f order i)"
  by (auto simp: halves_def less_Suc_eq)

lemma cover_halves: "order \<le> i \<Longrightarrow> frames (f, order) \<union> cover (halves f order i) = frames (f, i)
    \<and> frames (f, order) \<inter> cover (halves f order i) = {}"
proof (induction i)
  case (Suc i)
  show ?case
  proof (cases "order = Suc i")
    case False
    then have o: "order \<le> i" using Suc.prems by simp
    have "frames (f, i) \<union> frames (f + 2 ^ i, i) = frames (f, Suc i)"
      "frames (f, i) \<inter> frames (f + 2 ^ i, i) = {}" by (auto simp: frames_def)
    with Suc.IH [OF o] show ?thesis by (auto simp: halves_Suc [OF o])
  qed (simp add: cover_def)
qed (simp add: cover_def)

lemma split_spec:
  assumes inv: "buddy_inv K s e bl" and b: "(f, i) \<in> bl" "order \<le> i"
  defines "bl' \<equiv> halves f order i \<union> (bl - {(f, i)})"
  shows "buddy_inv K s e bl'" "cover bl' = cover bl - frames (f, order)"
    "frames (f, order) \<subseteq> cover bl" "block_ok K s e (f, order)"
proof -
  have ok: "block_ok K s e (f, i)" and sep: "separate bl" using inv b by (auto simp: buddy_inv_def)
  note cov = cover_halves [OF b(2), of f]
  have rest: "cover (bl - {(f, i)}) = cover bl - frames (f, i)" by (rule cover_remove [OF sep b(1)])
  have sub: "frames (f, i) \<subseteq> cover bl" by (rule frames_sub_cover [OF b(1)])
  have "cover bl' = cover (halves f order i) \<union> cover (bl - {(f, i)})" by (auto simp: bl'_def cover_def)
  then show "cover bl' = cover bl - frames (f, order)" using cov rest sub by auto
  show "frames (f, order) \<subseteq> cover bl" using cov sub by auto
  have dvd: "2 ^ j dvd f" if "j \<le> i" for j
    using ok that by (auto simp: block_ok_def intro: dvd_trans [OF le_imp_power_dvd])
  show "block_ok K s e (f, order)"
  proof -
    have "f + 2 ^ order \<le> f + 2 ^ i" using b(2) by simp
    also have "\<dots> \<le> e" using ok by (simp add: block_ok_def)
    finally show ?thesis using ok b(2) dvd [OF b(2)] by (simp add: block_ok_def)
  qed
  have "buddy_inv K s e (halves f order j \<union> (bl - {(f, i)}))" if "order \<le> j" "j \<le> i" for j
    using that
  proof (induction j rule: dec_induct)
    case base
    show ?case using buddy_inv_remove [OF inv] by simp
  next
    case (step j)
    have j: "j < i" using step by simp
    have dj: "2 ^ Suc j dvd f" using dvd [of "Suc j"] j by simp
    then have bud: "buddy j (f + 2 ^ j) = f" by (auto simp: buddy_def)
    have le: "(2 :: nat) ^ Suc j \<le> 2 ^ i" using j by (intro power_increasing) auto
    have "frames (f + 2 ^ j, j) \<inter> cover (halves f order j) = {}"
    proof -
      have "cover (halves f order j) \<subseteq> frames (f, j)" using cover_halves [of order j f] step by auto
      moreover have "frames (f, j) \<inter> frames (f + 2 ^ j, j) = {}" by (auto simp: frames_def)
      ultimately show ?thesis by blast
    qed
    moreover have fsub: "frames (f + 2 ^ j, j) \<subseteq> frames (f, i)" using le by (auto simp: frames_def)
    ultimately have disj: "frames (f + 2 ^ j, j) \<inter> cover (halves f order j \<union> (bl - {(f, i)})) = {}"
      using rest by (auto simp: cover_def)
    have "(f, j) \<notin> halves f order j \<union> (bl - {(f, i)})"
    proof
      assume "(f, j) \<in> halves f order j \<union> (bl - {(f, i)})"
      then have "(f, j) \<in> bl - {(f, i)}" by (auto simp: halves_def)
      then have "f \<in> cover (bl - {(f, i)})"
        unfolding cover_def by (intro UN_I [of "(f, j)"]) simp_all
      then show False using rest by (simp add: frames_def)
    qed
    then have "buddy_inv K s e (insert (f + 2 ^ j, j) (halves f order j \<union> (bl - {(f, i)})))"
      using step ok le j dvd [of j] disj bud
      by (intro buddy_inv_insert) (auto simp: block_ok_def)
    then show ?case using step by (simp add: halves_Suc)
  qed
  from this [OF b(2) order_refl] show "buddy_inv K s e bl'" by (simp add: bl'_def)
qed

section \<open>No false shortage\<close>

text \<open>Since buddies are merged eagerly, an aligned run of free frames lies inside one free block.\<close>

lemma aligned_run_in_block:
  assumes inv: "buddy_inv K s e bl" and k: "k < K" "2 ^ k dvd f" "frames (f, k) \<subseteq> cover bl"
  shows "\<exists>(g, j)\<in>bl. k \<le> j"
proof (rule ccontr)
  assume none: "\<not> (\<exists>(g, j)\<in>bl. k \<le> j)"
  define P where "P j \<longleftrightarrow> (\<exists>g. (g, j) \<in> bl \<and> frames (g, j) \<inter> frames (f, k) \<noteq> {})" for j
  have "f \<in> cover bl" using k(3) by (auto simp: frames_def)
  then obtain g j where "(g, j) \<in> bl" "f \<in> frames (g, j)" by (auto simp: cover_def)
  then have "P j" unfolding P_def by (intro exI [of _ g]) (auto simp: frames_def)
  define j where "j = (LEAST j. P j)"
  have "P j" unfolding j_def by (rule LeastI) fact
  then obtain g where g: "(g, j) \<in> bl" "frames (g, j) \<inter> frames (f, k) \<noteq> {}" by (auto simp: P_def)
  have jk: "j < k" using none g(1) by force
  have dg: "2 ^ j dvd g" using inv g(1) by (auto simp: buddy_inv_def block_ok_def)
  have dj: "2 ^ Suc j dvd f" using k(2) jk by (meson Suc_leI dvd_trans le_imp_power_dvd)
  have "frames (g, j) \<subseteq> frames (parent j g, Suc j)" unfolding frames_parent [OF dg] by blast
  then have "frames (f, k) \<inter> frames (parent j g, Suc j) \<noteq> {}" using g(2) by blast
  from aligned_disjoint [OF k(2) parent_dvd [OF dg] _ this]
  have "frames (buddy j g, j) \<subseteq> frames (f, k)" using jk frames_parent [OF dg] by auto
  then have "buddy j g \<in> cover bl \<inter> frames (f, k)" using k(3) head_in_frames [of "buddy j g" j] by blast
  then obtain h i where h: "(h, i) \<in> bl" "buddy j g \<in> frames (h, i)" "P i"
    by (auto simp: cover_def P_def)
  then have ji: "j \<le> i" unfolding j_def by (intro Least_le)
  have dh: "2 ^ i dvd h" using inv h(1) by (auto simp: buddy_inv_def block_ok_def)
  have sub: "frames (buddy j g, j) \<subseteq> frames (h, i)"
    by (rule aligned_disjoint [OF dh buddy_dvd [OF dg] ji]) (use h(2) in auto)
  show False
  proof (cases "i = j")
    case True
    then have "h \<in> frames (buddy j g, j)" "buddy j g \<in> frames (h, j)"
      using sub h(2) by (auto simp: frames_def)
    have "h = buddy j g"
    proof -
      obtain a b where "h = 2 ^ j * a" "buddy j g = 2 ^ j * b" using dh True buddy_dvd [OF dg] by blast
      moreover from this sub True have "a = b" by (auto simp: frames_def atLeastLessThan_subset_iff)
      ultimately show ?thesis by simp
    qed
    then show False using h(1) g(1) True jk k(1) inv by (auto simp: buddy_inv_def merged_def)
  next
    case False
    then have "Suc j \<le> i" using ji by simp
    have "frames (parent j g, Suc j) \<inter> frames (h, i) \<noteq> {}"
      using h(2) frames_parent [OF dg] head_in_frames [of "buddy j g" j] by blast
    then have "frames (parent j g, Suc j) \<subseteq> frames (h, i)"
      using aligned_disjoint [OF dh parent_dvd [OF dg] \<open>Suc j \<le> i\<close>] by blast
    then have "frames (g, j) \<inter> frames (h, i) \<noteq> {}"
      using frames_parent [OF dg] head_in_frames [of g j] by blast
    then show False using inv g(1) h(1) False by (auto simp: buddy_inv_def separate_def)
  qed
qed

end
