(* ===== verification/Vm_page_Zone.thy ===== *)
theory Vm_page_Zone
  imports Vm_page Buddy
begin

text \<open>
  The buddy allocator of a zone refines the abstract buddy system of \<open>Buddy\<close>. The
  invariant ties the free lists, the \<open>order\<close> fields of the descriptors and the
  addresses together; \<open>zone_blocks\<close> reads the abstract set of free blocks off the free
  lists.
\<close>

unbundle bit_operations_syntax

declare VM_PAGE_NR_FREE_LISTS_def [simp]
declare vm_page_zone_coalesce.simps [simp del]

section \<open>Invariant and abstraction\<close>

definition zn_first :: "vm_page_zone \<Rightarrow> nat" where
  "zn_first z = unat (zn_start z) div 4096"

definition zn_last :: "vm_page_zone \<Rightarrow> nat" where
  "zn_last z = unat (zn_end z) div 4096"

definition in_zone :: "vm_page_zone \<Rightarrow> nat \<Rightarrow> bool" where
  "in_zone z p \<longleftrightarrow> zn_pages z \<le> p \<and> p < zn_pages_end z"

definition frame_of :: "vm_page_zone \<Rightarrow> nat \<Rightarrow> nat" where
  "frame_of z p = zn_first z + (p - zn_pages z)"

definition page_of :: "vm_page_zone \<Rightarrow> nat \<Rightarrow> nat" where
  "page_of z f = zn_pages z + (f - zn_first z)"

definition zone_geometry :: "vm_page_zone \<Rightarrow> page_table \<Rightarrow> bool" where
  "zone_geometry z ps \<longleftrightarrow> 4096 dvd unat (zn_start z) \<and> 4096 dvd unat (zn_end z)
     \<and> zn_start z \<le> zn_end z \<and> zn_pages_end z = zn_pages z + (zn_last z - zn_first z)
     \<and> zn_pages_end z \<le> length ps
     \<and> (\<forall>p. in_zone z p \<longrightarrow> unat (vp_phys_addr (ps ! p)) = 4096 * frame_of z p)"

definition zn_blocks :: "vm_page_zone \<Rightarrow> nat \<Rightarrow> nat list" where
  "zn_blocks z k = fl_blocks (zn_free_lists z ! k)"

definition zone_lists :: "vm_page_zone \<Rightarrow> page_table \<Rightarrow> bool" where
  "zone_lists z ps \<longleftrightarrow> length (zn_free_lists z) = 11
     \<and> (\<forall>k<11. distinct (zn_blocks z k) \<and> fl_size (zn_free_lists z ! k) = of_nat (length (zn_blocks z k)))
     \<and> (\<forall>k<11. \<forall>p. p \<in> set (zn_blocks z k) \<longleftrightarrow> in_zone z p \<and> unat (vp_order (ps ! p)) = k)
     \<and> (\<forall>p. in_zone z p \<longrightarrow> vp_order (ps ! p) = VM_PAGE_ORDER_UNLISTED \<or> unat (vp_order (ps ! p)) < 11)"

definition zone_blocks :: "vm_page_zone \<Rightarrow> block set" where
  "zone_blocks z = {(frame_of z p, k) | p k. k < 11 \<and> p \<in> set (zn_blocks z k)}"

definition zone_inv :: "zone_state \<Rightarrow> bool" where
  "zone_inv = (\<lambda>(z, ps). zone_geometry z ps \<and> zone_lists z ps
     \<and> buddy_inv 11 (zn_first z) (zn_last z) (zone_blocks z)
     \<and> zn_nr_free_pages z = of_nat (card (cover (zone_blocks z))))"

text \<open>What the buddy operations may change: the free lists and the counter of the zone, and the
  \<open>order\<close> of its descriptors.\<close>

definition zone_same :: "vm_page_zone \<Rightarrow> vm_page_zone \<Rightarrow> bool" where
  "zone_same z z' \<longleftrightarrow> zn_start z' = zn_start z \<and> zn_end z' = zn_end z \<and> zn_pages z' = zn_pages z
     \<and> zn_pages_end z' = zn_pages_end z \<and> zn_cpu_pools z' = zn_cpu_pools z"

definition reordered :: "vm_page_zone \<Rightarrow> page_table \<Rightarrow> page_table \<Rightarrow> bool" where
  "reordered z ps ps' \<longleftrightarrow> length ps' = length ps \<and> (\<forall>i<length ps.
     (\<exists>w. ps' ! i = (ps ! i)\<lparr>vp_order := w\<rparr>) \<and> (\<not> in_zone z i \<longrightarrow> ps' ! i = ps ! i))"

definition preserved :: "zone_state \<Rightarrow> zone_state \<Rightarrow> bool" where
  "preserved = (\<lambda>(z, ps) (z', ps'). zone_same z z' \<and> reordered z ps ps')"

section \<open>Frames, pages and addresses\<close>

lemma zone_same_simps:
  assumes "zone_same z z'"
  shows "zn_first z' = zn_first z" "zn_last z' = zn_last z" "in_zone z' = in_zone z"
    "frame_of z' = frame_of z" "page_of z' = page_of z"
  using assms by (auto simp: zone_same_def zn_first_def zn_last_def in_zone_def frame_of_def page_of_def fun_eq_iff)

lemma zone_same_refl [simp]: "zone_same z z"
  by (simp add: zone_same_def)

lemma reordered_refl [simp]: "reordered z ps ps"
proof -
  have "\<exists>w. ps ! i = (ps ! i)\<lparr>vp_order := w\<rparr>" for i by (intro exI [of _ "vp_order (ps ! i)"]) simp
  then show ?thesis by (simp add: reordered_def)
qed

lemma preserved_refl [simp]: "preserved s s"
  by (auto simp: preserved_def split: prod.split)

lemma preserved_trans:
  assumes "preserved s s'" "preserved s' s''"
  shows "preserved s s''"
proof -
  obtain z ps z' ps' z'' ps'' where s: "s = (z, ps)" "s' = (z', ps')" "s'' = (z'', ps'')"
    by (metis surj_pair)
  have same: "zone_same z z'" "zone_same z' z''" and r: "reordered z ps ps'" "reordered z' ps' ps''"
    using assms by (auto simp: s preserved_def)
  have "reordered z ps ps''"
    unfolding reordered_def
  proof (intro conjI allI impI)
    show "length ps'' = length ps" using r by (simp add: reordered_def)
    fix i assume i: "i < length ps"
    from r(1) i obtain w where "ps' ! i = (ps ! i)\<lparr>vp_order := w\<rparr>" unfolding reordered_def by blast
    moreover from r i obtain v where "ps'' ! i = (ps' ! i)\<lparr>vp_order := v\<rparr>" unfolding reordered_def by metis
    ultimately show "\<exists>w. ps'' ! i = (ps ! i)\<lparr>vp_order := w\<rparr>" by (metis vm_page.update_convs(3) vm_page.surjective vm_page.fold_congs(3))
    assume "\<not> in_zone z i"
    then show "ps'' ! i = ps ! i" using r i zone_same_simps(3) [OF same(1)] unfolding reordered_def by metis
  qed
  moreover have "zone_same z z''" using same by (simp add: zone_same_def)
  ultimately show ?thesis by (simp add: s preserved_def)
qed

lemma geometry_preserved:
  assumes "zone_geometry z ps" "preserved (z, ps) (z', ps')"
  shows "zone_geometry z' ps'"
proof -
  have same: "zone_same z z'" and r: "reordered z ps ps'" using assms(2) by (auto simp: preserved_def)
  have "vp_phys_addr (ps' ! p) = vp_phys_addr (ps ! p)" if "in_zone z p" for p
  proof -
    have "p < length ps" using that assms(1) by (simp add: zone_geometry_def in_zone_def)
    with r obtain w where "ps' ! p = (ps ! p)\<lparr>vp_order := w\<rparr>" unfolding reordered_def by blast
    then show ?thesis by simp
  qed
  then show ?thesis
    using assms(1) same r zone_same_simps [OF same] unfolding zone_geometry_def
    by (auto simp: zone_same_def reordered_def)
qed

lemma geometry_facts:
  assumes "zone_geometry z ps"
  shows "unat (zn_start z) = 4096 * zn_first z" "unat (zn_end z) = 4096 * zn_last z"
    "zn_first z \<le> zn_last z" "zn_last z < 2 ^ 52" "zn_pages_end z \<le> length ps"
    "zn_pages_end z = zn_pages z + (zn_last z - zn_first z)"
proof -
  show e: "unat (zn_start z) = 4096 * zn_first z" "unat (zn_end z) = 4096 * zn_last z"
    "zn_pages_end z \<le> length ps" "zn_pages_end z = zn_pages z + (zn_last z - zn_first z)"
    using assms by (auto simp: zone_geometry_def zn_first_def zn_last_def)
  show "zn_first z \<le> zn_last z"
    using assms e by (simp add: zone_geometry_def word_le_unat)
  show "zn_last z < 2 ^ 52" using unat_lt_64 [of "zn_end z"] unfolding e(2) by simp
qed

lemma in_zone_frame:
  assumes "zone_geometry z ps"
  shows "in_zone z p \<Longrightarrow> zn_first z \<le> frame_of z p \<and> frame_of z p < zn_last z \<and> page_of z (frame_of z p) = p \<and> p < length ps"
    "zn_first z \<le> f \<Longrightarrow> f < zn_last z \<Longrightarrow> in_zone z (page_of z f) \<and> frame_of z (page_of z f) = f"
  using geometry_facts [OF assms] by (auto simp: in_zone_def frame_of_def page_of_def)

lemma unset_bit_nat_eq: "bit a n \<Longrightarrow> unset_bit n a = a - 2 ^ n" for a :: nat
proof -
  assume "bit a n"
  then have "set_bit n (unset_bit n a) = a" by (intro bit_eqI) (auto simp: bit_simps)
  then show ?thesis using set_bit_eq [of n "unset_bit n a"] by (simp add: bit_unset_bit_iff)
qed

lemma buddy_xor: "(4096 * f) XOR 2 ^ (12 + k) = 4096 * buddy k f" for f :: nat
proof -
  have div: "4096 * f div 2 ^ (12 + k) = f div 2 ^ k"
    by (simp add: power_add div_mult2_eq)
  have "(4096 * f) XOR 2 ^ (12 + k) = flip_bit (12 + k) (4096 * f)"
    by (simp add: flip_bit_eq_xor push_bit_eq_mult)
  also have "\<dots> = (if odd (f div 2 ^ k) then 4096 * f - 2 ^ (12 + k) else 4096 * f + 2 ^ (12 + k))"
    unfolding flip_bit_eq_if by (auto simp: set_bit_eq unset_bit_nat_eq bit_iff_odd div)
  also have "\<dots> = 4096 * buddy k f" by (auto simp: buddy_def power_add algebra_simps)
  finally show ?thesis .
qed

lemma ptob_pow: "k < 52 \<Longrightarrow> vm_page_ptob (2 ^ k) = 2 ^ (12 + k)"
  by (simp add: vm_page_ptob_def PAGE_SHIFT_def push_bit_eq_mult power_add)

lemma unat_buddy_pa:
  assumes "unat pa = 4096 * f" "k < 11"
  shows "unat (pa XOR vm_page_ptob (2 ^ k)) = 4096 * buddy k f"
proof -
  have "unat (pa XOR vm_page_ptob (2 ^ k)) = unat pa XOR unat (2 ^ (12 + k) :: u64)"
    using assms(2) by (simp add: ptob_pow unsigned_xor_eq)
  also have "unat (2 ^ (12 + k) :: u64) = 2 ^ (12 + k)" using assms(2) by (intro unat_pow2) simp
  finally show ?thesis using buddy_xor [of f k] assms(1) by simp
qed

lemma unat_parent_pa:
  assumes "unat pa = 4096 * f" "Suc k < 52"
  shows "unat (pa AND - vm_page_ptob (2 ^ Suc k)) = 4096 * parent k f"
proof -
  have "pa AND - vm_page_ptob (2 ^ Suc k) = P2ALIGN pa (2 ^ (12 + Suc k))"
    using assms(2) ptob_pow [of "Suc k"] by (simp add: P2ALIGN_def)
  then have "unat (pa AND - vm_page_ptob (2 ^ Suc k)) = 4096 * f - 4096 * f mod 2 ^ (12 + Suc k)"
    using unat_P2ALIGN [of "12 + Suc k" pa] assms by simp
  also have "4096 * f mod 2 ^ (12 + Suc k) = 4096 * (f mod 2 ^ Suc k)"
    unfolding power_add by (simp add: mult_mod_right)
  finally show ?thesis by (simp add: parent_def algebra_simps)
qed

lemma page_index:
  assumes "zone_geometry z ps" "unat pa = 4096 * f" "zn_first z \<le> f"
  shows "zn_pages z + unat (vm_page_btop (pa - zn_start z)) = page_of z f"
proof -
  have "unat (pa - zn_start z) = 4096 * f - 4096 * zn_first z"
    using assms geometry_facts(1) [OF assms(1)] by (subst unat_sub_le) (auto simp: word_le_unat)
  then show ?thesis
    by (simp add: page_of_def vm_page_btop_def PAGE_SHIFT_def unat_drop_bit_eq drop_bit_eq_div unat_div
      flip: diff_mult_distrib2)
qed

lemma range_test:
  assumes "zone_geometry z ps" "unat pa = 4096 * f"
  shows "pa < zn_start z \<or> pa \<ge> zn_end z \<longleftrightarrow> f < zn_first z \<or> zn_last z \<le> f"
  using assms(2) geometry_facts(1,2) [OF assms(1)] by (auto simp: word_less_unat word_le_unat)

section \<open>Free lists\<close>

lemma unat_of_nat_u16 [simp]: "k < 11 \<Longrightarrow> unat (of_nat k :: u16) = k"
  by (rule unat_of_nat_lt) simp

lemma unlisted_not_order [simp]:
  "unat VM_PAGE_ORDER_UNLISTED = 65535" "k < 11 \<Longrightarrow> of_nat k \<noteq> VM_PAGE_ORDER_UNLISTED"
proof -
  show u: "unat VM_PAGE_ORDER_UNLISTED = 65535"
    by (simp add: VM_PAGE_ORDER_UNLISTED_def unsigned_minus_1_eq_mask mask_eq_exp_minus_1)
  assume "k < 11"
  then have "unat (of_nat k :: u16) \<noteq> 65535" by simp
  then show "of_nat k \<noteq> VM_PAGE_ORDER_UNLISTED" using u by auto
qed

lemma frame_of_inj: "in_zone z p \<Longrightarrow> in_zone z q \<Longrightarrow> frame_of z p = frame_of z q \<longleftrightarrow> p = q"
  by (auto simp: in_zone_def frame_of_def)

lemma blocks_by_order:
  assumes "zone_lists z ps"
  shows "b \<in> zone_blocks z \<longleftrightarrow> (\<exists>p. in_zone z p \<and> unat (vp_order (ps ! p)) < 11
    \<and> b = (frame_of z p, unat (vp_order (ps ! p))))"
  using assms by (auto simp: zone_blocks_def zone_lists_def)

lemma block_mem:
  assumes "zone_lists z ps" "in_zone z q"
  shows "(frame_of z q, j) \<in> zone_blocks z \<longleftrightarrow> j < 11 \<and> unat (vp_order (ps ! q)) = j"
  using frame_of_inj [OF assms(2)] assms(2) by (auto simp: blocks_by_order [OF assms(1)])

lemma block_form:
  assumes "zone_lists z ps" "b \<in> zone_blocks z"
  obtains q j where "b = (frame_of z q, j)" "in_zone z q" "j < 11"
  using assms by (auto simp: blocks_by_order)

lemma zn_blocks_length:
  assumes "zone_geometry z ps" "zone_lists z ps" "k < 11"
  shows "length (zn_blocks z k) < 2 ^ 64"
proof -
  have "set (zn_blocks z k) \<subseteq> {zn_pages z..<zn_pages_end z}" "distinct (zn_blocks z k)"
    using assms(2,3) by (auto simp: zone_lists_def in_zone_def)
  then have "length (zn_blocks z k) \<le> card {zn_pages z..<zn_pages_end z}"
    by (metis card_mono distinct_card finite_atLeastLessThan)
  then show ?thesis using geometry_facts(4,6) [OF assms(1)] by simp
qed

lemma list_nonempty:
  assumes "zone_geometry z ps" "zone_lists z ps" "k < 11"
  shows "fl_size (zn_free_lists z ! k) \<noteq> 0 \<longleftrightarrow> zn_blocks z k \<noteq> []"
proof -
  have "fl_size (zn_free_lists z ! k) = of_nat (length (zn_blocks z k))"
    using assms(2,3) by (simp add: zone_lists_def)
  then show ?thesis
    using unat_of_nat_lt [where 'a = 64, of "length (zn_blocks z k)"] zn_blocks_length [OF assms]
    by (auto simp: word_eq_unat)
qed

text \<open>Writing the order of one page, in the invariant and in the abstraction.\<close>

lemma lists_update:
  assumes geo: "zone_geometry z ps" and lists: "zone_lists z ps" and p: "in_zone z p"
    and k: "k < 11" and w: "w = VM_PAGE_ORDER_UNLISTED \<or> unat w < 11"
    and fl: "distinct (fl_blocks fl)" "fl_size fl = of_nat (length (fl_blocks fl))"
    "set (fl_blocks fl) = (if unat w = k then insert p (set (zn_blocks z k)) else set (zn_blocks z k) - {p})"
    and o: "unat (vp_order (ps ! p)) \<noteq> k \<Longrightarrow> \<not> unat (vp_order (ps ! p)) < 11" "unat w \<noteq> k \<Longrightarrow> \<not> unat w < 11"
    and z': "z' = z\<lparr>zn_free_lists := (zn_free_lists z)[k := fl]\<rparr>"
    and ps': "ps' = ps[p := (ps ! p)\<lparr>vp_order := w\<rparr>]"
  shows "preserved (z, ps) (z', ps')" "zone_lists z' ps'" "vp_order (ps' ! p) = w"
    "zone_blocks z' = (if unat w = k then insert (frame_of z p, k) (zone_blocks z)
       else zone_blocks z - {(frame_of z p, k)})"
proof -
  have len: "p < length ps" using in_zone_frame(1) [OF geo p] by simp
  have ord: "vp_order (ps' ! q) = (if q = p then w else vp_order (ps ! q))" for q
    using len by (cases "q < length ps") (auto simp: ps' nth_list_update)
  have same: "zone_same z z'" by (simp add: z' zone_same_def)
  note sm = zone_same_simps [OF same]
  have "\<exists>v. ps' ! i = (ps ! i)\<lparr>vp_order := v\<rparr>" if "i < length ps" for i
  proof (cases "i = p")
    case True
    then show ?thesis using len by (auto simp: ps')
  next
    case False
    then show ?thesis by (intro exI [of _ "vp_order (ps ! i)"]) (simp add: ps')
  qed
  moreover have "ps' ! i = ps ! i" if "\<not> in_zone z i" for i
    using that p by (cases "i = p") (auto simp: ps')
  ultimately have "reordered z ps ps'" by (simp add: reordered_def) (simp add: ps')
  with same show "preserved (z, ps) (z', ps')" by (simp add: preserved_def)
  have blk: "zn_blocks z' j = (if j = k then fl_blocks fl else zn_blocks z j)" if "j < 11" for j
    using lists k that by (auto simp: z' zn_blocks_def zone_lists_def nth_list_update)
  have sizes: "fl_size (zn_free_lists z' ! j) = (if j = k then fl_size fl else fl_size (zn_free_lists z ! j))"
    if "j < 11" for j
    using lists k that by (auto simp: z' zone_lists_def nth_list_update)
  have mem: "p \<in> set (zn_blocks z j) \<longleftrightarrow> unat (vp_order (ps ! p)) = j" if "j < 11" for j
    using lists p that by (auto simp: zone_lists_def)
  show "zone_lists z' ps'"
    unfolding zone_lists_def
  proof (intro conjI allI impI)
    show "length (zn_free_lists z') = 11" using lists by (simp add: z' zone_lists_def)
    fix j :: nat assume j: "j < 11"
    show "distinct (zn_blocks z' j)" using lists j fl by (auto simp: blk zone_lists_def)
    show "fl_size (zn_free_lists z' ! j) = of_nat (length (zn_blocks z' j))"
      using lists j fl(2) by (auto simp: blk sizes zone_lists_def)
    fix q
    show "q \<in> set (zn_blocks z' j) \<longleftrightarrow> in_zone z' q \<and> unat (vp_order (ps' ! q)) = j"
      using lists j fl(3) p o mem [OF j] k by (auto simp: blk zone_lists_def ord sm)
  next
    fix q assume "in_zone z' q"
    then show "vp_order (ps' ! q) = VM_PAGE_ORDER_UNLISTED \<or> unat (vp_order (ps' ! q)) < 11"
      using lists w by (auto simp: zone_lists_def ord sm)
  qed
  note lists' = this
  show "vp_order (ps' ! p) = w" by (simp add: ord)
  have mem': "(frame_of z q, j) \<in> zone_blocks z'
      \<longleftrightarrow> j < 11 \<and> (if q = p then unat w = j else unat (vp_order (ps ! q)) = j)" if "in_zone z q" for q j
    using block_mem [OF lists', of q j] that by (simp add: sm ord)
  let ?R = "if unat w = k then insert (frame_of z p, k) (zone_blocks z) else zone_blocks z - {(frame_of z p, k)}"
  have o': "unat (vp_order (ps ! p)) = k \<or> \<not> unat (vp_order (ps ! p)) < 11" "unat w = k \<or> \<not> unat w < 11"
    using o by blast+
  have eq: "(frame_of z q, j) \<in> zone_blocks z' \<longleftrightarrow> (frame_of z q, j) \<in> ?R" if "in_zone z q" for q j
    unfolding mem' [OF that] using block_mem [OF lists that, of j] frame_of_inj [OF p that] k o'
    by (cases "q = p") auto
  show "zone_blocks z' = ?R"
  proof (rule set_eqI)
    fix b
    show "b \<in> zone_blocks z' \<longleftrightarrow> b \<in> ?R"
    proof (cases "\<exists>q j. b = (frame_of z q, j) \<and> in_zone z q")
      case True
      then show ?thesis using eq by blast
    next
      case False
      then have "b \<notin> zone_blocks z" "b \<notin> zone_blocks z'" "b \<noteq> (frame_of z p, k)"
        using block_form [OF lists] block_form [OF lists'] p sm by metis+
      then show ?thesis by simp
    qed
  qed
qed

lemma zn_remove_spec:
  assumes geo: "zone_geometry z ps" and lists: "zone_lists z ps" and p: "k < 11" "p \<in> set (zn_blocks z k)"
  shows "\<exists>z' ps'. zn_remove (z, ps) k p = Some (z', ps') \<and> preserved (z, ps) (z', ps')
    \<and> zone_lists z' ps' \<and> vp_order (ps' ! p) = VM_PAGE_ORDER_UNLISTED
    \<and> zone_blocks z' = zone_blocks z - {(frame_of z p, k)} \<and> zn_nr_free_pages z' = zn_nr_free_pages z
    \<and> (\<forall>q. q \<noteq> p \<longrightarrow> ps' ! q = ps ! q)"
proof -
  have in_z: "in_zone z p" and ord: "unat (vp_order (ps ! p)) = k"
    using lists p by (auto simp: zone_lists_def)
  have len: "p < length ps" "length (zn_free_lists z) = 11"
    using in_zone_frame(1) [OF geo in_z] lists by (auto simp: zone_lists_def)
  define fl where "fl = \<lparr>fl_size = fl_size (zn_free_lists z ! k) - 1, fl_blocks = remove1 p (zn_blocks z k)\<rparr>"
  have d: "distinct (zn_blocks z k)" "fl_size (zn_free_lists z ! k) = of_nat (length (zn_blocks z k))"
    using lists p(1) by (auto simp: zone_lists_def)
  obtain n where n: "length (zn_blocks z k) = Suc n" using p(2) by (cases "zn_blocks z k") auto
  then have "fl_size fl = of_nat (length (fl_blocks fl))"
    using d p(2) by (simp add: fl_def length_remove1)
  note u = lists_update [OF geo lists in_z p(1), of VM_PAGE_ORDER_UNLISTED fl, OF _ _ this _ _ _ refl refl]
  have "vp_order (ps ! p) \<noteq> VM_PAGE_ORDER_UNLISTED" using ord p(1) by (metis unlisted_not_order(1) nat_less_le less_imp_not_less numeral_less_iff semiring_norm(78) unlisted_not_order(2) word_unat_eq_iff unat_of_nat_u16)
  then have "zn_remove (z, ps) k p = Some (z\<lparr>zn_free_lists := (zn_free_lists z)[k := fl]\<rparr>,
      ps[p := (ps ! p)\<lparr>vp_order := VM_PAGE_ORDER_UNLISTED\<rparr>])"
    using len p by (simp add: zn_remove_def vm_page_free_list_remove_def list_unlink_def zn_set_list_def
        page_upd_def fl_def zn_blocks_def)
  then show ?thesis using u d p ord by (simp add: fl_def)
qed

lemma zn_insert_spec:
  assumes geo: "zone_geometry z ps" and lists: "zone_lists z ps"
    and p: "k < 11" "in_zone z p" "vp_order (ps ! p) = VM_PAGE_ORDER_UNLISTED"
  shows "\<exists>z' ps'. zn_insert (z, ps) k p = Some (z', ps') \<and> preserved (z, ps) (z', ps')
    \<and> zone_lists z' ps' \<and> zone_blocks z' = insert (frame_of z p, k) (zone_blocks z)
    \<and> zn_nr_free_pages z' = zn_nr_free_pages z
    \<and> (\<forall>q. q \<noteq> p \<longrightarrow> ps' ! q = ps ! q)"
proof -
  have len: "p < length ps" "length (zn_free_lists z) = 11"
    using in_zone_frame(1) [OF geo p(2)] lists by (auto simp: zone_lists_def)
  define fl where "fl = \<lparr>fl_size = fl_size (zn_free_lists z ! k) + 1, fl_blocks = p # zn_blocks z k\<rparr>"
  have d: "distinct (zn_blocks z k)" "fl_size (zn_free_lists z ! k) = of_nat (length (zn_blocks z k))"
    using lists p(1) by (auto simp: zone_lists_def)
  then have "fl_size fl = of_nat (length (fl_blocks fl))" by (simp add: fl_def)
  note u = lists_update [OF geo lists p(2,1), of "of_nat k" fl, OF _ _ this _ _ _ refl refl]
  have "p \<notin> set (zn_blocks z k)" using lists p by (auto simp: zone_lists_def)
  moreover have "zn_insert (z, ps) k p = Some (z\<lparr>zn_free_lists := (zn_free_lists z)[k := fl]\<rparr>,
      ps[p := (ps ! p)\<lparr>vp_order := of_nat k\<rparr>])"
    using len p by (simp add: zn_insert_def vm_page_free_list_insert_def zn_set_list_def
        page_upd_def fl_def zn_blocks_def)
  ultimately show ?thesis using u d p by (simp add: fl_def)
qed

section \<open>Freeing to the buddy system\<close>

lemma coalesce_spec:
  assumes "zone_geometry z ps" "zone_lists z ps" "in_zone z p" "k < 11" "2 ^ k dvd frame_of z p"
    and "vp_order (ps ! p) = VM_PAGE_ORDER_UNLISTED" "unat pa = 4096 * frame_of z p"
  shows "\<exists>p' k' z' ps'. vm_page_zone_coalesce p k pa (z, ps) = Some (p', k', z', ps')
    \<and> preserved (z, ps) (z', ps') \<and> zone_lists z' ps' \<and> in_zone z p' \<and> k' < 11
    \<and> merge 11 (frame_of z p) k (zone_blocks z) = (frame_of z p', k', zone_blocks z')
    \<and> vp_order (ps' ! p') = VM_PAGE_ORDER_UNLISTED \<and> zn_nr_free_pages z' = zn_nr_free_pages z"
  using assms
proof (induction "11 - k" arbitrary: k p pa z ps)
  case 0
  then show ?case by simp
next
  case (Suc n)
  note geo = Suc.prems(1) and lists = Suc.prems(2) and p = Suc.prems(3) and k = Suc.prems(4)
    and dvd = Suc.prems(5) and unl = Suc.prems(6) and pa = Suc.prems(7)
  let ?f = "frame_of z p" and ?bpa = "pa XOR vm_page_ptob (2 ^ k)"
  have bpa: "unat ?bpa = 4096 * buddy k ?f" by (rule unat_buddy_pa [OF pa k])
  show ?case
  proof (cases "Suc k < 11 \<and> (buddy k ?f, k) \<in> zone_blocks z")
    case False
    then have m: "merge 11 ?f k (zone_blocks z) = (?f, k, zone_blocks z)" by (auto simp: merge.simps)
    have "vm_page_zone_coalesce p k pa (z, ps) = Some (p, k, z, ps)"
    proof (cases "Suc k < 11 \<and> \<not> (?bpa < zn_start z \<or> ?bpa \<ge> zn_end z)")
      case True
      then have r: "zn_first z \<le> buddy k ?f" "buddy k ?f < zn_last z"
        using range_test [OF geo bpa] by auto
      note b = in_zone_frame(2) [OF geo r]
      then have "unat (vp_order (ps ! page_of z (buddy k ?f))) \<noteq> k"
        using block_mem [OF lists, of "page_of z (buddy k ?f)" k] False True by auto
      moreover have "page_of z (buddy k ?f) < length ps" using in_zone_frame(1) [OF geo] b by auto
      ultimately show ?thesis
        using True by (simp add: page_index [OF geo bpa r(1)] Let_def vm_page_zone_coalesce.simps)
    qed (use k in \<open>auto simp: Let_def vm_page_zone_coalesce.simps\<close>)
    then show ?thesis using m lists p k unl by auto
  next
    case True
    define b where "b = page_of z (buddy k ?f)"
    obtain b' where "buddy k ?f = frame_of z b'" "in_zone z b'"
      using block_form [OF lists, of "(buddy k ?f, k)"] True by auto
    then have b: "in_zone z b" "frame_of z b = buddy k ?f"
      using in_zone_frame(1) [OF geo] by (auto simp: b_def)
    have r: "zn_first z \<le> buddy k ?f" "buddy k ?f < zn_last z"
      using in_zone_frame(1) [OF geo b(1)] by (auto simp: b(2))
    have ord: "unat (vp_order (ps ! b)) = k" using block_mem [OF lists b(1), of k] True by (simp add: b(2))
    then have bk: "b \<in> set (zn_blocks z k)" using lists b(1) k by (auto simp: zone_lists_def)
    obtain z1 ps1 where rm: "zn_remove (z, ps) k b = Some (z1, ps1)"
      and pr: "preserved (z, ps) (z1, ps1)" and l1: "zone_lists z1 ps1"
      and u1: "vp_order (ps1 ! b) = VM_PAGE_ORDER_UNLISTED"
      and zb: "zone_blocks z1 = zone_blocks z - {(buddy k ?f, k)}"
      and nf: "zn_nr_free_pages z1 = zn_nr_free_pages z" and oth: "\<forall>q. q \<noteq> b \<longrightarrow> ps1 ! q = ps ! q"
      using zn_remove_spec [OF geo lists k bk] unfolding b(2) by auto
    have geo1: "zone_geometry z1 ps1" by (rule geometry_preserved [OF geo pr])
    have same: "zone_same z z1" using pr by (simp add: preserved_def)
    note sm = zone_same_simps [OF same]
    let ?pa = "pa AND - vm_page_ptob (2 ^ Suc k)"
    have pa1: "unat ?pa = 4096 * parent k ?f" by (rule unat_parent_pa [OF pa]) (use k in simp)
    have par: "parent k ?f = ?f \<or> parent k ?f = buddy k ?f" by (rule buddy_cases [OF dvd]) auto
    define q where "q = page_of z (parent k ?f)"
    have q: "in_zone z q" "frame_of z q = parent k ?f" "q = p \<or> q = b"
      using par p b in_zone_frame(1) [OF geo p] in_zone_frame(1) [OF geo b(1)] by (auto simp: q_def)
    have idx: "zn_pages z1 + unat (vm_page_btop (?pa - zn_start z1)) = q"
      using page_index [OF geo1 pa1] q in_zone_frame(1) [OF geo q(1)] by (simp add: sm q_def)
    have "b < length ps" using in_zone_frame(1) [OF geo b(1)] by simp
    moreover have "\<not> (?bpa < zn_start z \<or> ?bpa \<ge> zn_end z)" using range_test [OF geo bpa] r by auto
    moreover have "zn_pages z + unat (vm_page_btop (?bpa - zn_start z)) = b"
      using page_index [OF geo bpa r(1)] by (simp add: b_def)
    ultimately have step: "vm_page_zone_coalesce p k pa (z, ps) = vm_page_zone_coalesce q (Suc k) ?pa (z1, ps1)"
      using True ord rm idx by (subst vm_page_zone_coalesce.simps [of p]) (simp add: Let_def del: power_Suc)
    have m: "merge 11 ?f k (zone_blocks z) = merge 11 (frame_of z1 q) (Suc k) (zone_blocks z1)"
      using True by (simp add: merge.simps [of 11 ?f k] zb q(2) sm)
    have unl1: "vp_order (ps1 ! q) = VM_PAGE_ORDER_UNLISTED"
      using q(3) u1 oth unl by (cases "q = b") auto
    have "\<exists>p' k' z' ps'. vm_page_zone_coalesce q (Suc k) ?pa (z1, ps1) = Some (p', k', z', ps')
      \<and> preserved (z1, ps1) (z', ps') \<and> zone_lists z' ps' \<and> in_zone z1 p' \<and> k' < 11
      \<and> merge 11 (frame_of z1 q) (Suc k) (zone_blocks z1) = (frame_of z1 p', k', zone_blocks z')
      \<and> vp_order (ps' ! p') = VM_PAGE_ORDER_UNLISTED \<and> zn_nr_free_pages z' = zn_nr_free_pages z1"
      by (rule Suc.hyps(1) [OF _ geo1 l1])
        (use Suc.hyps(2) True q pa1 unl1 parent_dvd [OF dvd] in \<open>simp_all add: sm\<close>)
    then obtain p' k' z' ps' where x: "vm_page_zone_coalesce q (Suc k) ?pa (z1, ps1) = Some (p', k', z', ps')"
      "preserved (z1, ps1) (z', ps')" "zone_lists z' ps'" "in_zone z1 p'" "k' < 11"
      "merge 11 (frame_of z1 q) (Suc k) (zone_blocks z1) = (frame_of z1 p', k', zone_blocks z')"
      "vp_order (ps' ! p') = VM_PAGE_ORDER_UNLISTED" "zn_nr_free_pages z' = zn_nr_free_pages z1"
      by blast
    have "preserved (z, ps) (z', ps')" by (rule preserved_trans [OF pr x(2)])
    then show ?thesis using x step m nf by (intro exI [of _ p'] exI [of _ k'] exI [of _ z'] exI [of _ ps']) (simp add: sm)
  qed
qed

lemma geometry_counter [simp]:
  "zone_geometry (z\<lparr>zn_nr_free_pages := n\<rparr>) ps = zone_geometry z ps"
  "zone_lists (z\<lparr>zn_nr_free_pages := n\<rparr>) ps = zone_lists z ps"
  "zone_blocks (z\<lparr>zn_nr_free_pages := n\<rparr>) = zone_blocks z"
  "zn_first (z\<lparr>zn_nr_free_pages := n\<rparr>) = zn_first z" "zn_last (z\<lparr>zn_nr_free_pages := n\<rparr>) = zn_last z"
  "preserved s (z\<lparr>zn_nr_free_pages := n\<rparr>, ps) = preserved s (z, ps)"
  by (auto simp: zone_geometry_def zone_lists_def zone_blocks_def zn_first_def zn_last_def in_zone_def
      frame_of_def zn_blocks_def preserved_def zone_same_def split: prod.splits)

lemma cover_finite:
  assumes "buddy_inv K s e bl"
  shows "finite (cover bl)" "cover bl \<subseteq> {s..<e}"
proof -
  show "cover bl \<subseteq> {s..<e}"
    using assms by (fastforce simp: cover_def frames_def buddy_inv_def block_ok_def)
  then show "finite (cover bl)" by (rule finite_subset) simp
qed

lemma card_frames [simp]: "card (frames (f, k)) = 2 ^ k"
  by (simp add: frames_def)

lemma free_to_buddy_spec:
  assumes inv: "zone_inv (z, ps)" and p: "in_zone z p" "k < 11" "vp_order (ps ! p) = VM_PAGE_ORDER_UNLISTED"
    and ok: "2 ^ k dvd frame_of z p" "frame_of z p + 2 ^ k \<le> zn_last z"
    and disj: "frames (frame_of z p, k) \<inter> cover (zone_blocks z) = {}"
  shows "\<exists>z' ps'. vm_page_zone_free_to_buddy (z, ps) p k = Some (z', ps') \<and> zone_inv (z', ps')
    \<and> preserved (z, ps) (z', ps')
    \<and> cover (zone_blocks z') = cover (zone_blocks z) \<union> frames (frame_of z p, k)"
proof -
  let ?f = "frame_of z p"
  have geo: "zone_geometry z ps" and lists: "zone_lists z ps"
    and bi: "buddy_inv 11 (zn_first z) (zn_last z) (zone_blocks z)"
    and nf: "zn_nr_free_pages z = of_nat (card (cover (zone_blocks z)))"
    using inv by (auto simp: zone_inv_def)
  have len: "p < length ps" and pa: "unat (vp_phys_addr (ps ! p)) = 4096 * ?f"
    using in_zone_frame(1) [OF geo p(1)] geo p(1) by (auto simp: zone_geometry_def)
  obtain p' k' z1 ps1 where c: "vm_page_zone_coalesce p k (vp_phys_addr (ps ! p)) (z, ps) = Some (p', k', z1, ps1)"
    "preserved (z, ps) (z1, ps1)" "zone_lists z1 ps1" "in_zone z p'" "k' < 11"
    "merge 11 ?f k (zone_blocks z) = (frame_of z p', k', zone_blocks z1)"
    "vp_order (ps1 ! p') = VM_PAGE_ORDER_UNLISTED" "zn_nr_free_pages z1 = zn_nr_free_pages z"
    using coalesce_spec [OF geo lists p(1,2) ok(1) p(3) pa] by blast
  have same1: "zone_same z z1" using c(2) by (simp add: preserved_def)
  note sm1 = zone_same_simps [OF same1]
  have geo1: "zone_geometry z1 ps1" by (rule geometry_preserved [OF geo c(2)])
  obtain z2 ps2 where i: "zn_insert (z1, ps1) k' p' = Some (z2, ps2)" "preserved (z1, ps1) (z2, ps2)"
    "zone_lists z2 ps2" "zone_blocks z2 = insert (frame_of z1 p', k') (zone_blocks z1)"
    "zn_nr_free_pages z2 = zn_nr_free_pages z1"
    using zn_insert_spec [OF geo1 c(3,5), of p'] c(4,7) by (auto simp: sm1)
  have pr: "preserved (z, ps) (z2, ps2)" by (rule preserved_trans [OF c(2) i(2)])
  have same2: "zone_same z z2" using pr by (simp add: preserved_def)
  note sm2 = zone_same_simps [OF same2]
  have zb: "zone_blocks z2 = free_block 11 ?f k (zone_blocks z)"
    using i(4) c(6) by (simp add: free_block_def sm1)
  have "block_ok 11 (zn_first z) (zn_last z) (?f, k)"
    using p(2) ok in_zone_frame(1) [OF geo p(1)] by (simp add: block_ok_def)
  note fb = free_block_spec [OF bi this disj, folded zb]
  have "card (cover (zone_blocks z) \<union> frames (?f, k)) = card (cover (zone_blocks z)) + 2 ^ k"
    using disj cover_finite(1) [OF bi] by (subst card_Un_disjoint) (auto simp: frames_def)
  then have "zone_inv (z2\<lparr>zn_nr_free_pages := zn_nr_free_pages z2 + 2 ^ k\<rparr>, ps2)"
    using geometry_preserved [OF geo pr] i c(8) nf fb by (simp add: zone_inv_def sm2)
  moreover have "vm_page_zone_free_to_buddy (z, ps) p k = Some (z2\<lparr>zn_nr_free_pages := zn_nr_free_pages z2 + 2 ^ k\<rparr>, ps2)"
    using p len c(1) i(1) by (simp add: vm_page_zone_free_to_buddy_def in_zone_def Let_def)
  ultimately show ?thesis using pr fb(2) by simp
qed

section \<open>Allocating from the buddy system\<close>

lemma page_of_add: "in_zone z p \<Longrightarrow> page_of z (frame_of z p + n) = p + n"
  by (simp add: page_of_def frame_of_def in_zone_def)

lemma unlisted_outside:
  assumes "zone_lists z ps" "in_zone z q" "frame_of z q \<notin> cover (zone_blocks z)"
  shows "vp_order (ps ! q) = VM_PAGE_ORDER_UNLISTED"
proof (rule ccontr)
  assume "vp_order (ps ! q) \<noteq> VM_PAGE_ORDER_UNLISTED"
  then have "(frame_of z q, unat (vp_order (ps ! q))) \<in> zone_blocks z"
    using assms(1,2) block_mem [OF assms(1,2)] by (auto simp: zone_lists_def)
  then show False using assms(3) frames_sub_cover head_in_frames by blast
qed

lemma split_loop_spec:
  assumes "zone_geometry z ps" "zone_lists z ps" "in_zone z p" "order \<le> i" "i < 11"
    and "frame_of z p + 2 ^ i \<le> zn_last z"
    and "\<forall>g\<in>frames (frame_of z p, i). vp_order (ps ! page_of z g) = VM_PAGE_ORDER_UNLISTED"
  shows "\<exists>z' ps'. vm_page_zone_split p order i (z, ps) = Some (z', ps') \<and> preserved (z, ps) (z', ps')
    \<and> zone_lists z' ps' \<and> zone_blocks z' = halves (frame_of z p) order i \<union> zone_blocks z
    \<and> zn_nr_free_pages z' = zn_nr_free_pages z"
  using assms
proof (induction i arbitrary: z ps)
  case 0
  then show ?case by simp
next
  case (Suc i)
  let ?f = "frame_of z p"
  show ?case
  proof (cases "order = Suc i")
    case True
    then show ?thesis using Suc.prems by simp
  next
    case False
    then have o: "order \<le> i" using Suc.prems(4) by simp
    have geo: "zone_geometry z ps" by (rule Suc.prems)
    have fr: "zn_first z \<le> ?f + 2 ^ i" "?f + 2 ^ i < zn_last z"
      using in_zone_frame(1) [OF geo Suc.prems(3)] Suc.prems(6) by auto
    have q: "in_zone z (p + 2 ^ i)" "frame_of z (p + 2 ^ i) = ?f + 2 ^ i"
      using in_zone_frame(2) [OF geo fr] page_of_add [OF Suc.prems(3), of "2 ^ i"] by auto
    have "?f + 2 ^ i \<in> frames (?f, Suc i)" by (simp add: frames_def)
    then have "vp_order (ps ! (p + 2 ^ i)) = VM_PAGE_ORDER_UNLISTED"
      using Suc.prems(7) page_of_add [OF Suc.prems(3), of "2 ^ i"] by force
    from zn_insert_spec [OF geo Suc.prems(2) _ q(1) this, of i] Suc.prems(5) obtain z1 ps1 where
      i1: "zn_insert (z, ps) i (p + 2 ^ i) = Some (z1, ps1)" "preserved (z, ps) (z1, ps1)"
      "zone_lists z1 ps1" "zone_blocks z1 = insert (?f + 2 ^ i, i) (zone_blocks z)"
      "zn_nr_free_pages z1 = zn_nr_free_pages z" "\<forall>r. r \<noteq> p + 2 ^ i \<longrightarrow> ps1 ! r = ps ! r"
      by (auto simp: q(2))
    have same: "zone_same z z1" using i1(2) by (simp add: preserved_def)
    note sm = zone_same_simps [OF same]
    have unl: "\<forall>g\<in>frames (frame_of z1 p, i). vp_order (ps1 ! page_of z1 g) = VM_PAGE_ORDER_UNLISTED"
    proof
      fix g assume "g \<in> frames (frame_of z1 p, i)"
      then have g: "?f \<le> g" "g < ?f + 2 ^ i" by (auto simp: frames_def sm)
      then have "g \<in> frames (?f, Suc i)" by (simp add: frames_def)
      moreover have "page_of z g \<noteq> p + 2 ^ i"
        using g Suc.prems(3) page_of_add [OF Suc.prems(3), of "g - ?f"] by auto
      ultimately show "vp_order (ps1 ! page_of z1 g) = VM_PAGE_ORDER_UNLISTED"
        using Suc.prems(7) i1(6) by (simp add: sm)
    qed
    have "\<exists>z' ps'. vm_page_zone_split p order i (z1, ps1) = Some (z', ps') \<and> preserved (z1, ps1) (z', ps')
      \<and> zone_lists z' ps' \<and> zone_blocks z' = halves (frame_of z1 p) order i \<union> zone_blocks z1
      \<and> zn_nr_free_pages z' = zn_nr_free_pages z1"
      by (rule Suc.IH [OF geometry_preserved [OF geo i1(2)] i1(3) _ o _ _ unl])
        (use Suc.prems in \<open>simp_all add: sm\<close>)
    then obtain z' ps' where x: "vm_page_zone_split p order i (z1, ps1) = Some (z', ps')"
      "preserved (z1, ps1) (z', ps')" "zone_lists z' ps'"
      "zone_blocks z' = halves (frame_of z1 p) order i \<union> zone_blocks z1"
      "zn_nr_free_pages z' = zn_nr_free_pages z1" by blast
    then show ?thesis
      using i1 o preserved_trans [OF i1(2) x(2)] by (simp add: sm halves_Suc)
  qed
qed

lemma find_free_list:
  assumes geo: "zone_geometry z ps" and lists: "zone_lists z ps" and bi: "buddy_inv 11 s e (zone_blocks z)"
    and k: "k < 11"
  shows "case find (\<lambda>i. fl_size (zn_free_lists z ! i) \<noteq> 0) [k..<11] of
      None \<Rightarrow> \<not> (\<exists>g. 2 ^ k dvd g \<and> frames (g, k) \<subseteq> cover (zone_blocks z))
    | Some i \<Rightarrow> k \<le> i \<and> i < 11 \<and> zn_blocks z i \<noteq> []"
proof (cases "find (\<lambda>i. fl_size (zn_free_lists z ! i) \<noteq> 0) [k..<11]")
  case None
  then have empty: "zn_blocks z i = []" if "k \<le> i" "i < 11" for i
    using that list_nonempty [OF geo lists, of i] by (auto simp: find_None_iff)
  have "\<not> (\<exists>(g, j)\<in>zone_blocks z. k \<le> j)" using empty by (force simp: zone_blocks_def)
  with None aligned_run_in_block [OF bi k] show ?thesis by auto
next
  case (Some i)
  then have "k \<le> i \<and> i < 11 \<and> fl_size (zn_free_lists z ! i) \<noteq> 0" by (auto simp: find_Some_iff nth_append)
  then show ?thesis using Some list_nonempty [OF geo lists, of i] by simp
qed

lemma alloc_from_buddy_spec:
  assumes inv: "zone_inv (z, ps)" and k: "k < 11"
  shows "\<exists>r z' ps'. vm_page_zone_alloc_from_buddy (z, ps) k = Some (r, z', ps') \<and> zone_inv (z', ps')
    \<and> preserved (z, ps) (z', ps')
    \<and> (case r of
         None \<Rightarrow> z' = z \<and> ps' = ps \<and> \<not> (\<exists>g. 2 ^ k dvd g \<and> frames (g, k) \<subseteq> cover (zone_blocks z))
       | Some p \<Rightarrow> in_zone z p \<and> 2 ^ k dvd frame_of z p \<and> frame_of z p + 2 ^ k \<le> zn_last z
           \<and> frames (frame_of z p, k) \<subseteq> cover (zone_blocks z)
           \<and> cover (zone_blocks z') = cover (zone_blocks z) - frames (frame_of z p, k))"
proof -
  have geo: "zone_geometry z ps" and lists: "zone_lists z ps"
    and bi: "buddy_inv 11 (zn_first z) (zn_last z) (zone_blocks z)"
    and nf: "zn_nr_free_pages z = of_nat (card (cover (zone_blocks z)))"
    using inv by (auto simp: zone_inv_def)
  note fl = find_free_list [OF geo lists bi k]
  show ?thesis
  proof (cases "find (\<lambda>i. fl_size (zn_free_lists z ! i) \<noteq> 0) [k..<11]")
    case None
    then show ?thesis using fl inv k by (simp add: vm_page_zone_alloc_from_buddy_def)
  next
    case (Some i)
    then have i: "k \<le> i" "i < 11" "zn_blocks z i \<noteq> []" using fl by auto
    then obtain p rest where pb: "zn_blocks z i = p # rest" by (cases "zn_blocks z i") auto
    then have pm: "p \<in> set (zn_blocks z i)" by simp
    have p: "in_zone z p" using lists i(2) pm by (auto simp: zone_lists_def)
    let ?f = "frame_of z p"
    have blk: "(?f, i) \<in> zone_blocks z" using pm i(2) by (auto simp: zone_blocks_def)
    obtain z1 ps1 where rm: "zn_remove (z, ps) i p = Some (z1, ps1)"
      and pr1: "preserved (z, ps) (z1, ps1)" and l1: "zone_lists z1 ps1"
      and zb1: "zone_blocks z1 = zone_blocks z - {(?f, i)}"
      and nf1: "zn_nr_free_pages z1 = zn_nr_free_pages z"
      using zn_remove_spec [OF geo lists i(2) pm] by blast
    have geo1: "zone_geometry z1 ps1" by (rule geometry_preserved [OF geo pr1])
    have "zone_same z z1" using pr1 by (simp add: preserved_def)
    note sm = zone_same_simps [OF this]
    have ok: "2 ^ i dvd ?f" "?f + 2 ^ i \<le> zn_last z" using bi blk by (auto simp: buddy_inv_def block_ok_def)
    have "separate (zone_blocks z)" using bi by (simp add: buddy_inv_def)
    from cover_remove [OF this blk]
    have cov1: "cover (zone_blocks z1) = cover (zone_blocks z) - frames (?f, i)" by (simp add: zb1)
    have unl: "\<forall>g\<in>frames (frame_of z1 p, i). vp_order (ps1 ! page_of z1 g) = VM_PAGE_ORDER_UNLISTED"
    proof
      fix g assume g: "g \<in> frames (frame_of z1 p, i)"
      then have "zn_first z \<le> g" "g < zn_last z"
        using ok in_zone_frame(1) [OF geo p] by (auto simp: frames_def sm)
      note q = in_zone_frame(2) [OF geo this]
      then have "frame_of z1 (page_of z1 g) \<notin> cover (zone_blocks z1)" using g cov1 by (simp add: sm)
      then show "vp_order (ps1 ! page_of z1 g) = VM_PAGE_ORDER_UNLISTED"
        using unlisted_outside [OF l1, of "page_of z1 g"] q by (simp add: sm)
    qed
    have "\<exists>z' ps'. vm_page_zone_split p k i (z1, ps1) = Some (z', ps') \<and> preserved (z1, ps1) (z', ps')
      \<and> zone_lists z' ps' \<and> zone_blocks z' = halves (frame_of z1 p) k i \<union> zone_blocks z1
      \<and> zn_nr_free_pages z' = zn_nr_free_pages z1"
      by (rule split_loop_spec [OF geo1 l1 _ i(1,2) _ unl]) (use p ok in \<open>simp_all add: sm\<close>)
    then obtain z2 ps2 where sp: "vm_page_zone_split p k i (z1, ps1) = Some (z2, ps2)"
      and pr2: "preserved (z1, ps1) (z2, ps2)" and l2: "zone_lists z2 ps2"
      and zb2: "zone_blocks z2 = halves ?f k i \<union> (zone_blocks z - {(?f, i)})"
      and nf2: "zn_nr_free_pages z2 = zn_nr_free_pages z" by (auto simp: sm zb1 nf1)
    note ss = split_spec [OF bi blk i(1), folded zb2]
    have pr: "preserved (z, ps) (z2, ps2)" by (rule preserved_trans [OF pr1 pr2])
    then have "zone_same z z2" by (simp add: preserved_def)
    note sm2 = zone_same_simps [OF this]
    have "card (cover (zone_blocks z) - frames (?f, k)) = card (cover (zone_blocks z)) - 2 ^ k"
      "2 ^ k \<le> card (cover (zone_blocks z))"
      using card_Diff_subset [OF _ ss(3)] card_mono [OF cover_finite(1) [OF bi] ss(3)]
      by (auto simp: frames_def)
    then have "zone_inv (z2\<lparr>zn_nr_free_pages := zn_nr_free_pages z2 - 2 ^ k\<rparr>, ps2)"
      using geometry_preserved [OF geo pr] l2 nf nf2 ss(1,2) by (simp add: zone_inv_def sm2 of_nat_diff)
    moreover have "vm_page_zone_alloc_from_buddy (z, ps) k
        = Some (Some p, z2\<lparr>zn_nr_free_pages := zn_nr_free_pages z2 - 2 ^ k\<rparr>, ps2)"
      using k Some pb rm sp by (simp add: vm_page_zone_alloc_from_buddy_def list_first_def zn_blocks_def)
    ultimately show ?thesis using p ss pr by (simp add: block_ok_def)
  qed
qed

end
