(* ===== verification/Vm_page_Pool.thy ===== *)
theory Vm_page_Pool
  imports Vm_page_Zone
begin

text \<open>
  The zone allocator with its processor pools. \<open>zone_avail\<close> is the set of free frames of a
  zone, in the buddy system or in a pool. The contract of an allocator of blocks is a locale,
  interpreted for the buddy system alone and for the zone with its pools.
\<close>

section \<open>The contract of a block allocator\<close>

datatype 'q request = Alloc 'q nat | Free 'q nat

text \<open>A client that keeps the blocks it holds, head and order, and frees them by position. Each
  request has a context, such as the processor that makes it.\<close>

fun serve :: "('q \<Rightarrow> nat \<Rightarrow> 's \<Rightarrow> (nat option \<times> 's) option) \<Rightarrow> ('q \<Rightarrow> nat \<Rightarrow> nat \<Rightarrow> 's \<Rightarrow> 's option)
    \<Rightarrow> 'q request list \<Rightarrow> (nat \<times> nat) list \<Rightarrow> 's \<Rightarrow> ((nat \<times> nat) list \<times> 's) option" where
  "serve alloc free [] held s = Some (held, s)"
| "serve alloc free (Alloc q k # reqs) held s = do {
     (r, s) \<leftarrow> alloc q k s;
     serve alloc free reqs (case r of None \<Rightarrow> held | Some p \<Rightarrow> (p, k) # held) s }"
| "serve alloc free (Free q i # reqs) held s =
     (if i < length held then do {
        s \<leftarrow> free q (fst (held ! i)) (snd (held ! i)) s;
        serve alloc free reqs (take i held @ drop (Suc i) held) s }
      else serve alloc free reqs held s)"

fun request_ok :: "nat \<Rightarrow> ('q \<Rightarrow> bool) \<Rightarrow> 'q request \<Rightarrow> bool" where
  "request_ok K ok (Alloc q k) \<longleftrightarrow> k < K \<and> ok q"
| "request_ok K ok (Free q i) \<longleftrightarrow> ok q"

locale block_allocator =
  fixes K :: nat
    and ok :: "'q \<Rightarrow> bool"
    and inv :: "'s \<Rightarrow> bool"
    and avail :: "'s \<Rightarrow> nat set"
    and block :: "nat \<Rightarrow> nat \<Rightarrow> 's \<Rightarrow> nat set"
    and valid :: "nat \<Rightarrow> nat \<Rightarrow> 's \<Rightarrow> bool"
    and same :: "'s \<Rightarrow> 's \<Rightarrow> bool"
    and alloc :: "'q \<Rightarrow> nat \<Rightarrow> 's \<Rightarrow> (nat option \<times> 's) option"
    and free :: "'q \<Rightarrow> nat \<Rightarrow> nat \<Rightarrow> 's \<Rightarrow> 's option"
  assumes alloc_law: "inv s \<Longrightarrow> k < K \<Longrightarrow> ok q \<Longrightarrow> \<exists>r s'. alloc q k s = Some (r, s') \<and> inv s' \<and> same s s'
      \<and> (case r of None \<Rightarrow> avail s' = avail s
         | Some p \<Rightarrow> valid p k s' \<and> block p k s' \<subseteq> avail s \<and> avail s' = avail s - block p k s')"
    and free_law: "inv s \<Longrightarrow> valid p k s \<Longrightarrow> block p k s \<inter> avail s = {} \<Longrightarrow> ok q \<Longrightarrow>
      \<exists>s'. free q p k s = Some s' \<and> inv s' \<and> same s s' \<and> avail s' = avail s \<union> block p k s"
    and same_law: "same s s' \<Longrightarrow> block p k s' = block p k s \<and> valid p k s' = valid p k s"
begin

definition held_ok :: "nat set \<Rightarrow> (nat \<times> nat) list \<Rightarrow> 's \<Rightarrow> bool" where
  "held_ok whole held s \<longleftrightarrow> inv s \<and> (\<forall>b\<in>set held. valid (fst b) (snd b) s)
     \<and> sorted_wrt (\<lambda>a b. block (fst a) (snd a) s \<inter> block (fst b) (snd b) s = {}) held
     \<and> (\<forall>b\<in>set held. block (fst b) (snd b) s \<inter> avail s = {})
     \<and> avail s \<union> (\<Union>b\<in>set held. block (fst b) (snd b) s) = whole"

lemma held_alloc:
  assumes held: "held_ok whole held s" and k: "k < K" and q: "ok q"
  shows "\<exists>r s'. alloc q k s = Some (r, s') \<and> same s s'
    \<and> held_ok whole (case r of None \<Rightarrow> held | Some p \<Rightarrow> (p, k) # held) s'"
proof -
  have inv: "inv s" using held by (simp add: held_ok_def)
  from alloc_law [OF this k q] obtain r s' where a: "alloc q k s = Some (r, s')" "inv s'" "same s s'"
    and c: "case r of None \<Rightarrow> avail s' = avail s
         | Some p \<Rightarrow> valid p k s' \<and> block p k s' \<subseteq> avail s \<and> avail s' = avail s - block p k s'" by blast
  have b: "block p j s' = block p j s" "valid p j s' = valid p j s" for p j using same_law [OF a(3)] by auto
  have "held_ok whole (case r of None \<Rightarrow> held | Some p \<Rightarrow> (p, k) # held) s'"
  proof (cases r)
    case None
    then show ?thesis using c held a(2) by (simp add: held_ok_def b)
  next
    case (Some p)
    then have p: "valid p k s" "block p k s \<subseteq> avail s" "avail s' = avail s - block p k s"
      using c by (simp_all add: b)
    have dis: "block (fst b) (snd b) s \<inter> avail s = {}" if "b \<in> set held" for b
      using held that by (simp add: held_ok_def)
    then have "block p k s \<inter> block (fst b) (snd b) s = {}" if "b \<in> set held" for b
      using p(2) that by blast
    moreover have "block (fst b) (snd b) s \<inter> avail s' = {}" if "b \<in> set held" for b
      using dis [OF that] p(3) by blast
    moreover have "avail s' \<union> (block p k s \<union> (\<Union>b\<in>set held. block (fst b) (snd b) s)) = whole"
      using p held unfolding held_ok_def by blast
    ultimately show ?thesis
      using Some held a(2) p by (simp add: held_ok_def b)
  qed
  with a show ?thesis by blast
qed

lemma held_free:
  assumes held: "held_ok whole held s" and i: "i < length held" and q: "ok q"
  shows "\<exists>s'. free q (fst (held ! i)) (snd (held ! i)) s = Some s' \<and> same s s'
    \<and> held_ok whole (take i held @ drop (Suc i) held) s'"
proof -
  obtain p k where pk: "held ! i = (p, k)" by force
  define xs where "xs = take i held"
  define ys where "ys = drop (Suc i) held"
  have h: "held = xs @ (p, k) # ys" unfolding xs_def ys_def using id_take_nth_drop [OF i] pk by simp
  have "inv s" "valid p k s" "block p k s \<inter> avail s = {}" using held by (simp_all add: held_ok_def h)
  from free_law [OF this q] obtain s' where f: "free q p k s = Some s'" "inv s'" "same s s'"
    "avail s' = avail s \<union> block p k s" by blast
  have b: "block p j s' = block p j s" "valid p j s' = valid p j s" for p j using same_law [OF f(3)] by auto
  have srt: "sorted_wrt (\<lambda>a b. block (fst a) (snd a) s \<inter> block (fst b) (snd b) s = {}) (xs @ (p, k) # ys)"
    using held by (simp add: held_ok_def h)
  then have pair: "block (fst b) (snd b) s \<inter> block p k s = {}" if "b \<in> set (xs @ ys)" for b
    using that by (auto simp: sorted_wrt_append Int_commute)
  moreover have "block (fst b) (snd b) s \<inter> avail s = {}" if "b \<in> set (xs @ ys)" for b
    using held that by (auto simp: held_ok_def h)
  ultimately have "block (fst b) (snd b) s \<inter> avail s' = {}" if "b \<in> set (xs @ ys)" for b
    using that unfolding f(4) by blast
  moreover have "avail s' \<union> (\<Union>b\<in>set (xs @ ys). block (fst b) (snd b) s) = whole"
    using held unfolding f(4) by (simp add: held_ok_def h Un_ac)
  ultimately have "held_ok whole (xs @ ys) s'"
    using held srt f(2) by (simp add: held_ok_def b h sorted_wrt_append)
  with f pk show ?thesis by (simp add: xs_def ys_def)
qed

text \<open>No sequence of requests stops the allocator, hands out a frame twice or loses one.\<close>

lemma serve_safe:
  assumes "held_ok whole held s" "\<forall>r\<in>set reqs. request_ok K ok r"
  shows "\<exists>held' s'. serve alloc free reqs held s = Some (held', s') \<and> held_ok whole held' s'"
  using assms
proof (induction reqs arbitrary: held s)
  case (Cons r reqs)
  show ?case
  proof (cases r)
    case (Alloc q k)
    then have "k < K" "ok q" using Cons.prems(2) by simp_all
    from held_alloc [OF Cons.prems(1) this] Cons.IH Cons.prems(2) Alloc show ?thesis by fastforce
  next
    case (Free q i)
    then have "ok q" using Cons.prems(2) by simp
    show ?thesis
    proof (cases "i < length held")
      case True
      from held_free [OF Cons.prems(1) this \<open>ok q\<close>] Cons.IH Cons.prems(2) Free True show ?thesis by fastforce
    next
      case False
      then show ?thesis using Cons Free by simp
    qed
  qed
qed simp

end

section \<open>The buddy system is a block allocator\<close>

definition block_at :: "nat \<Rightarrow> nat \<Rightarrow> zone_state \<Rightarrow> nat set" where
  "block_at p k s = frames (frame_of (fst s) p, k)"

definition block_valid :: "nat \<Rightarrow> nat \<Rightarrow> zone_state \<Rightarrow> bool" where
  "block_valid p k s \<longleftrightarrow> in_zone (fst s) p \<and> k < 11 \<and> 2 ^ k dvd frame_of (fst s) p
     \<and> frame_of (fst s) p + 2 ^ k \<le> zn_last (fst s)"

definition buddy_avail :: "zone_state \<Rightarrow> nat set" where
  "buddy_avail s = cover (zone_blocks (fst s))"

lemma block_same:
  assumes "preserved s s'"
  shows "block_at p k s' = block_at p k s" "block_valid p k s' = block_valid p k s"
proof -
  have "zone_same (fst s) (fst s')" using assms by (auto simp: preserved_def split: prod.splits)
  note sm = zone_same_simps [OF this]
  show "block_at p k s' = block_at p k s" "block_valid p k s' = block_valid p k s"
    by (simp_all add: block_at_def block_valid_def sm)
qed

interpretation buddy_zone: block_allocator 11 "\<lambda>_ :: unit. True" zone_inv buddy_avail block_at block_valid preserved
  "\<lambda>_ k s. vm_page_zone_alloc_from_buddy s k" "\<lambda>_ p k s. vm_page_zone_free_to_buddy s p k"
proof
  fix s :: zone_state and k :: nat
  assume inv: "zone_inv s" and k: "k < 11"
  obtain z ps where s: "s = (z, ps)" by force
  from alloc_from_buddy_spec [OF inv [unfolded s] k] obtain r z' ps' where
    a: "vm_page_zone_alloc_from_buddy (z, ps) k = Some (r, z', ps')" "zone_inv (z', ps')"
    "preserved (z, ps) (z', ps')"
    "case r of None \<Rightarrow> z' = z \<and> ps' = ps \<and> \<not> (\<exists>g. 2 ^ k dvd g \<and> frames (g, k) \<subseteq> cover (zone_blocks z))
       | Some p \<Rightarrow> in_zone z p \<and> 2 ^ k dvd frame_of z p \<and> frame_of z p + 2 ^ k \<le> zn_last z
           \<and> frames (frame_of z p, k) \<subseteq> cover (zone_blocks z)
           \<and> cover (zone_blocks z') = cover (zone_blocks z) - frames (frame_of z p, k)" by blast
  have sm: "block_at p j (z', ps') = block_at p j (z, ps)" "block_valid p j (z', ps') = block_valid p j (z, ps)"
    for p j using block_same [OF a(3)] by auto
  show "\<exists>r s'. vm_page_zone_alloc_from_buddy s k = Some (r, s') \<and> zone_inv s' \<and> preserved s s' \<and>
    (case r of None \<Rightarrow> buddy_avail s' = buddy_avail s
     | Some p \<Rightarrow> block_valid p k s' \<and> block_at p k s' \<subseteq> buddy_avail s \<and>
         buddy_avail s' = buddy_avail s - block_at p k s')"
  proof -
    have "case r of None \<Rightarrow> buddy_avail (z', ps') = buddy_avail (z, ps)
      | Some p \<Rightarrow> block_valid p k (z, ps) \<and> block_at p k (z, ps) \<subseteq> buddy_avail (z, ps)
          \<and> buddy_avail (z', ps') = buddy_avail (z, ps) - block_at p k (z, ps)"
      using a(4) k by (auto simp: block_at_def block_valid_def buddy_avail_def split: option.splits)
    then show ?thesis
      using a(1-3) by (intro exI [of _ r] exI [of _ "(z', ps')"]) (simp add: s sm cong: option.case_cong)
  qed
next
  fix s :: zone_state and p k :: nat
  assume inv: "zone_inv s" and v: "block_valid p k s" and d: "block_at p k s \<inter> buddy_avail s = {}"
  obtain z ps where s: "s = (z, ps)" by force
  have lists: "zone_lists z ps" using inv by (simp add: s zone_inv_def)
  have p: "in_zone z p" using v by (simp add: s block_valid_def)
  have "frame_of z p \<notin> cover (zone_blocks z)"
    using d head_in_frames [of "frame_of z p" k] unfolding s block_at_def buddy_avail_def fst_conv by blast
  then have "vp_order (ps ! p) = VM_PAGE_ORDER_UNLISTED" by (rule unlisted_outside [OF lists p])
  from free_to_buddy_spec [OF inv [unfolded s] p _ this, of k] v d
  show "\<exists>s'. vm_page_zone_free_to_buddy s p k = Some s' \<and> zone_inv s' \<and> preserved s s' \<and>
      buddy_avail s' = buddy_avail s \<union> block_at p k s"
    by (auto simp: s block_at_def block_valid_def buddy_avail_def)
next
  fix s s' :: zone_state and p k :: nat
  assume "preserved s s'"
  then show "block_at p k s' = block_at p k s \<and> block_valid p k s' = block_valid p k s"
    by (simp add: block_same)
qed

section \<open>Pools\<close>

definition pool_ok :: "vm_page_cpu_pool \<Rightarrow> bool" where
  "pool_ok pool \<longleftrightarrow> cp_nr_pages pool = int (length (cp_pages pool)) \<and> cp_nr_pages pool \<le> cp_size pool
     \<and> 0 < cp_size pool \<and> cp_transfer_size pool = (cp_size pool + 1) div 2"

text \<open>A pool that is being worked on, with the pages \<open>rest\<close> of the other pools.\<close>

definition pool_inv :: "vm_page_cpu_pool \<Rightarrow> nat list \<Rightarrow> zone_state \<Rightarrow> bool" where
  "pool_inv pool rest s \<longleftrightarrow> zone_inv s \<and> pool_ok pool \<and> distinct (cp_pages pool @ rest)
     \<and> (\<forall>p\<in>set (cp_pages pool @ rest). in_zone (fst s) p \<and> frame_of (fst s) p \<notin> buddy_avail s)"

definition pool_avail :: "vm_page_cpu_pool \<Rightarrow> zone_state \<Rightarrow> nat set" where
  "pool_avail pool s = buddy_avail s \<union> frame_of (fst s) ` set (cp_pages pool)"

lemma block_at_0: "block_at p 0 s = {frame_of (fst s) p}"
  by (auto simp: block_at_def frames_def)

lemma block_valid_0:
  assumes "zone_inv s" "in_zone (fst s) p"
  shows "block_valid p 0 s"
  using assms in_zone_frame(1) by (cases s) (auto simp: zone_inv_def block_valid_def Suc_le_eq)

lemma preserved_frames:
  assumes "preserved s s'"
  shows "frame_of (fst s') = frame_of (fst s)" "in_zone (fst s') = in_zone (fst s)"
    "zn_cpu_pools (fst s') = zn_cpu_pools (fst s)"
proof -
  have same: "zone_same (fst s) (fst s')" using assms by (auto simp: preserved_def split: prod.splits)
  from zone_same_simps [OF same] same show "frame_of (fst s') = frame_of (fst s)"
    "in_zone (fst s') = in_zone (fst s)" "zn_cpu_pools (fst s') = zn_cpu_pools (fst s)"
    by (simp_all add: zone_same_def)
qed

lemma fill_loop_spec:
  assumes "pool_inv pool rest s" "cp_nr_pages pool + int n \<le> cp_size pool"
  shows "\<exists>i pool' s'. vm_page_cpu_pool_fill_loop n pool s = Some (i, pool', s') \<and> pool_inv pool' rest s'
    \<and> preserved s s' \<and> pool_avail pool' s' = pool_avail pool s
    \<and> length (cp_pages pool') = length (cp_pages pool) + i"
  using assms
proof (induction n arbitrary: pool s)
  case 0
  then show ?case by simp
next
  case (Suc n)
  have inv: "zone_inv s" and ok: "pool_ok pool" using Suc.prems(1) by (auto simp: pool_inv_def)
  from buddy_zone.alloc_law [OF inv, of 0, OF _ TrueI] obtain r s1 where
    a: "vm_page_zone_alloc_from_buddy s 0 = Some (r, s1)" "zone_inv s1" "preserved s s1"
    and c: "case r of None \<Rightarrow> buddy_avail s1 = buddy_avail s
     | Some p \<Rightarrow> block_valid p 0 s1 \<and> block_at p 0 s1 \<subseteq> buddy_avail s \<and> buddy_avail s1 = buddy_avail s - block_at p 0 s1"
    by auto
  note sm = preserved_frames [OF a(3)]
  show ?case
  proof (cases r)
    case None
    then have "pool_inv pool rest s1" "pool_avail pool s1 = pool_avail pool s"
      using Suc.prems(1) a(2) c by (auto simp: pool_inv_def pool_avail_def sm)
    then show ?thesis using a None by simp
  next
    case (Some p)
    let ?pool = "pool\<lparr>cp_nr_pages := cp_nr_pages pool + 1, cp_pages := p # cp_pages pool\<rparr>"
    have p: "in_zone (fst s) p" "frame_of (fst s) p \<in> buddy_avail s"
      "buddy_avail s1 = buddy_avail s - {frame_of (fst s) p}"
      using c Some by (auto simp: block_at_0 sm block_valid_def)
    have push: "vm_page_cpu_pool_push pool p = Some ?pool"
      using Suc.prems(2) by (simp add: vm_page_cpu_pool_push_def)
    have ne: "p \<notin> set (cp_pages pool @ rest)" using Suc.prems(1) p(2) by (auto simp: pool_inv_def)
    then have frame_ne: "frame_of (fst s) q \<noteq> frame_of (fst s) p" if "q \<in> set (cp_pages pool @ rest)" for q
      using that Suc.prems(1) frame_of_inj [OF _ p(1)] by (auto simp: pool_inv_def)
    have "pool_inv ?pool rest s1"
      using Suc.prems a(2) p ne frame_ne ok by (auto simp: pool_inv_def pool_ok_def sm)
    moreover have "pool_avail ?pool s1 = pool_avail pool s"
      using p by (auto simp: pool_avail_def sm)
    moreover have "cp_nr_pages ?pool + int n \<le> cp_size ?pool" using Suc.prems(2) by simp
    ultimately obtain i pool' s' where x: "vm_page_cpu_pool_fill_loop n ?pool s1 = Some (i, pool', s')"
      "pool_inv pool' rest s'" "preserved s1 s'" "pool_avail pool' s' = pool_avail pool s"
      "length (cp_pages pool') = length (cp_pages ?pool) + i" using Suc.IH [of ?pool s1] by auto
    show ?thesis using x a Some push preserved_trans [OF a(3) x(3)] by simp
  qed
qed

lemma pop_spec:
  assumes "pool_inv pool rest s" "cp_pages pool \<noteq> []"
  shows "\<exists>p pool'. vm_page_cpu_pool_pop pool = Some (p, pool') \<and> cp_pages pool = p # cp_pages pool'
    \<and> cp_size pool' = cp_size pool \<and> pool_inv pool' (p # rest) s"
proof -
  obtain p rest' where pp: "cp_pages pool = p # rest'" using assms(2) by (cases "cp_pages pool") auto
  let ?pool = "pool\<lparr>cp_nr_pages := cp_nr_pages pool - 1, cp_pages := rest'\<rparr>"
  have "vm_page_cpu_pool_pop pool = Some (p, ?pool)"
    using assms(1) by (auto simp: vm_page_cpu_pool_pop_def pp list_first_def list_unlink_def pool_inv_def pool_ok_def)
  moreover have "pool_inv ?pool (p # rest) s"
    using assms(1) by (auto simp: pool_inv_def pool_ok_def pp)
  ultimately show ?thesis using pp by (intro exI [of _ p] exI [of _ ?pool]) simp
qed

lemma drain_loop_spec:
  assumes "pool_inv pool rest s" "n \<le> length (cp_pages pool)"
  shows "\<exists>pool' s'. vm_page_cpu_pool_drain_loop n pool s = Some (pool', s') \<and> pool_inv pool' rest s'
    \<and> preserved s s' \<and> pool_avail pool' s' = pool_avail pool s
    \<and> length (cp_pages pool') = length (cp_pages pool) - n \<and> cp_size pool' = cp_size pool"
  using assms
proof (induction n arbitrary: pool s)
  case 0
  then show ?case by simp
next
  case (Suc n)
  have inv: "zone_inv s" using Suc.prems(1) by (simp add: pool_inv_def)
  have "cp_pages pool \<noteq> []" using Suc.prems(2) by auto
  from pop_spec [OF Suc.prems(1) this] obtain p pool1 where
    pop: "vm_page_cpu_pool_pop pool = Some (p, pool1)" "cp_pages pool = p # cp_pages pool1"
    "cp_size pool1 = cp_size pool" "pool_inv pool1 (p # rest) s" by blast
  have p: "in_zone (fst s) p" "frame_of (fst s) p \<notin> buddy_avail s" "p \<notin> set (cp_pages pool1 @ rest)"
    using pop(4) by (auto simp: pool_inv_def)
  from buddy_zone.free_law [OF inv block_valid_0 [OF inv p(1)] _ TrueI] p(2) obtain s1 where
    f: "vm_page_zone_free_to_buddy s p 0 = Some s1" "zone_inv s1" "preserved s s1"
    "buddy_avail s1 = insert (frame_of (fst s) p) (buddy_avail s)" by (auto simp: block_at_0)
  note sm = preserved_frames [OF f(3)]
  have "frame_of (fst s) q \<noteq> frame_of (fst s) p" if "q \<in> set (cp_pages pool1 @ rest)" for q
    using that pop(4) p(3) frame_of_inj [OF _ p(1), of q] by (auto simp: pool_inv_def)
  then have "pool_inv pool1 rest s1"
    using pop(4) f(2,4) by (auto simp: pool_inv_def sm)
  moreover have "pool_avail pool1 s1 = pool_avail pool s" using pop(2) f(4) by (auto simp: pool_avail_def sm)
  ultimately obtain pool' s' where x: "vm_page_cpu_pool_drain_loop n pool1 s1 = Some (pool', s')"
    "pool_inv pool' rest s'" "preserved s1 s'" "pool_avail pool' s' = pool_avail pool s"
    "length (cp_pages pool') = length (cp_pages pool1) - n" "cp_size pool' = cp_size pool1"
    using Suc.IH [of pool1 s1] Suc.prems(2) pop(2) by auto
  show ?case using x pop f(1) preserved_trans [OF f(3) x(3)] by simp
qed

end
