(* ===== verification/Vm_page_Alloc.thy ===== *)
theory Vm_page_Alloc
  imports Vm_page_Pool
begin

text \<open>
  Allocation from and release to a zone with its processor pools, \<open>vm_page_zone_alloc\<close>
  and \<open>vm_page_zone_free\<close>: the invariant \<open>zone_full\<close> adds the pools and the
  types of the pages to that of the buddy system. The zone is again a block allocator.
\<close>

section \<open>The zone with its pools\<close>

abbreviation pooled :: "vm_page_zone \<Rightarrow> nat list" where
  "pooled z \<equiv> concat (map cp_pages (zn_cpu_pools z))"

definition others :: "nat \<Rightarrow> vm_page_zone \<Rightarrow> vm_page_cpu_pool list" where
  "others cpu z = take cpu (zn_cpu_pools z) @ drop (Suc cpu) (zn_cpu_pools z)"

definition zone_pool_inv :: "zone_state \<Rightarrow> bool" where
  "zone_pool_inv s \<longleftrightarrow> zone_inv s \<and> (\<forall>pool\<in>set (zn_cpu_pools (fst s)). pool_ok pool)
     \<and> distinct (pooled (fst s))
     \<and> (\<forall>p\<in>set (pooled (fst s)). in_zone (fst s) p \<and> frame_of (fst s) p \<notin> buddy_avail s)"

definition zone_avail :: "zone_state \<Rightarrow> nat set" where
  "zone_avail s = buddy_avail s \<union> frame_of (fst s) ` set (pooled (fst s))"

definition zone_typed :: "zone_state \<Rightarrow> bool" where
  "zone_typed s \<longleftrightarrow> (\<forall>p. in_zone (fst s) p \<longrightarrow>
     (vp_type (snd s ! p) = VM_PAGE_FREE \<longleftrightarrow> frame_of (fst s) p \<in> zone_avail s))"

definition zone_full :: "zone_state \<Rightarrow> bool" where
  "zone_full s \<longleftrightarrow> zone_pool_inv s \<and> zone_typed s"

lemma zone_inv_pools [simp]:
  "zone_inv (z\<lparr>zn_cpu_pools := pools\<rparr>, ps) = zone_inv (z, ps)"
  "buddy_avail (z\<lparr>zn_cpu_pools := pools\<rparr>, ps) = buddy_avail (z, ps)"
  "frame_of (z\<lparr>zn_cpu_pools := pools\<rparr>) = frame_of z"
  "in_zone (z\<lparr>zn_cpu_pools := pools\<rparr>) = in_zone z"
  "zn_first (z\<lparr>zn_cpu_pools := pools\<rparr>) = zn_first z" "zn_last (z\<lparr>zn_cpu_pools := pools\<rparr>) = zn_last z"
proof -
  show fr: "frame_of (z\<lparr>zn_cpu_pools := pools\<rparr>) = frame_of z" "in_zone (z\<lparr>zn_cpu_pools := pools\<rparr>) = in_zone z"
    "zn_first (z\<lparr>zn_cpu_pools := pools\<rparr>) = zn_first z" "zn_last (z\<lparr>zn_cpu_pools := pools\<rparr>) = zn_last z"
    by (auto simp: zn_first_def zn_last_def in_zone_def frame_of_def)
  have blk: "zn_blocks (z\<lparr>zn_cpu_pools := pools\<rparr>) = zn_blocks z" by (simp add: zn_blocks_def fun_eq_iff)
  have zb: "zone_blocks (z\<lparr>zn_cpu_pools := pools\<rparr>) = zone_blocks z" by (simp add: zone_blocks_def blk fr)
  then show "buddy_avail (z\<lparr>zn_cpu_pools := pools\<rparr>, ps) = buddy_avail (z, ps)" by (simp add: buddy_avail_def)
  show "zone_inv (z\<lparr>zn_cpu_pools := pools\<rparr>, ps) = zone_inv (z, ps)"
    by (simp add: zone_inv_def zone_geometry_def zone_lists_def zb blk fr)
qed

lemma pooled_set: "set (pooled z) = (\<Union>pool\<in>set (zn_cpu_pools z). set (cp_pages pool))"
  by simp

lemma mset_pooled:
  assumes "cpu < length (zn_cpu_pools z)"
  shows "mset (concat (map cp_pages ((zn_cpu_pools z)[cpu := pool])))
    = mset (cp_pages pool @ concat (map cp_pages (others cpu z)))"
  using assms by (simp add: upd_conv_take_nth_drop others_def)

lemma pool_split:
  assumes cpu: "cpu < length (zn_cpu_pools (fst s))"
  defines "rest \<equiv> concat (map cp_pages (others cpu (fst s)))"
  shows "zone_pool_inv s \<longleftrightarrow> pool_inv (zn_cpu_pools (fst s) ! cpu) rest s \<and> (\<forall>pool\<in>set (others cpu (fst s)). pool_ok pool)"
    "zone_avail s = pool_avail (zn_cpu_pools (fst s) ! cpu) s \<union> frame_of (fst s) ` set rest"
proof -
  let ?pools = "zn_cpu_pools (fst s)"
  have m: "mset (pooled (fst s)) = mset (cp_pages (?pools ! cpu) @ rest)"
    using mset_pooled [OF cpu, of "?pools ! cpu"] by (simp add: rest_def)
  have d: "distinct (pooled (fst s)) = distinct (cp_pages (?pools ! cpu) @ rest)"
    by (rule mset_eq_imp_distinct_iff [OF m])
  have set: "set (pooled (fst s)) = set (cp_pages (?pools ! cpu) @ rest)"
    by (rule mset_eq_setD [OF m])
  have "set ?pools = insert (?pools ! cpu) (set (others cpu (fst s)))"
    using cpu by (subst id_take_nth_drop [OF cpu]) (simp add: others_def)
  then show "zone_pool_inv s \<longleftrightarrow> pool_inv (?pools ! cpu) rest s \<and> (\<forall>pool\<in>set (others cpu (fst s)). pool_ok pool)"
    unfolding zone_pool_inv_def pool_inv_def d set by auto
  show "zone_avail s = pool_avail (?pools ! cpu) s \<union> frame_of (fst s) ` set rest"
    unfolding zone_avail_def pool_avail_def set by auto
qed

lemma pool_join:
  assumes cpu: "cpu < length (zn_cpu_pools z)" and pools: "zn_cpu_pools z' = zn_cpu_pools z"
    and inv: "pool_inv pool rest (z', ps')" and rest: "rest = concat (map cp_pages (others cpu z))"
    and ok: "\<forall>pool\<in>set (others cpu z). pool_ok pool"
  shows "\<exists>z''. zn_set_pool z' cpu pool = Some z'' \<and> zone_pool_inv (z'', ps')
    \<and> z'' = z'\<lparr>zn_cpu_pools := (zn_cpu_pools z)[cpu := pool]\<rparr>
    \<and> zone_avail (z'', ps') = pool_avail pool (z', ps') \<union> frame_of z' ` set rest"
proof -
  let ?z = "z'\<lparr>zn_cpu_pools := (zn_cpu_pools z)[cpu := pool]\<rparr>"
  have "others cpu ?z = others cpu z" using cpu by (simp add: others_def)
  moreover have "zn_cpu_pools ?z ! cpu = pool" "cpu < length (zn_cpu_pools ?z)" using cpu by simp_all
  ultimately have "zone_pool_inv (?z, ps')"
    "zone_avail (?z, ps') = pool_avail pool (z', ps') \<union> frame_of z' ` set rest"
    using pool_split [of cpu "(?z, ps')"] inv ok rest by (simp_all add: pool_inv_def pool_avail_def)
  then show ?thesis using cpu pools by (simp add: zn_set_pool_def)
qed

section \<open>What the zone operations keep\<close>

definition zone_keep :: "zone_state \<Rightarrow> zone_state \<Rightarrow> bool" where
  "zone_keep s s' \<longleftrightarrow> zn_start (fst s') = zn_start (fst s) \<and> zn_end (fst s') = zn_end (fst s)
     \<and> zn_pages (fst s') = zn_pages (fst s) \<and> zn_pages_end (fst s') = zn_pages_end (fst s)
     \<and> length (zn_cpu_pools (fst s')) = length (zn_cpu_pools (fst s))
     \<and> length (snd s') = length (snd s)
     \<and> (\<forall>i<length (snd s). (\<exists>w t. snd s' ! i = (snd s ! i)\<lparr>vp_order := w, vp_type := t\<rparr>)
         \<and> (\<not> in_zone (fst s) i \<longrightarrow> snd s' ! i = snd s ! i))"

lemma zone_keep_simps:
  assumes "zone_keep s s'"
  shows "zn_first (fst s') = zn_first (fst s)" "zn_last (fst s') = zn_last (fst s)"
    "in_zone (fst s') = in_zone (fst s)" "frame_of (fst s') = frame_of (fst s)"
    "length (snd s') = length (snd s)"
  using assms by (auto simp: zone_keep_def zn_first_def zn_last_def in_zone_def frame_of_def fun_eq_iff)

lemma preserved_keep: "preserved s s' \<Longrightarrow> zone_keep s s'"
  unfolding preserved_def zone_same_def reordered_def zone_keep_def
  by (auto split: prod.splits) (metis vm_page.surjective vm_page.update_convs(1,3))

lemma keep_pools: "zone_keep s (z, ps) \<Longrightarrow> length pools = length (zn_cpu_pools z) \<Longrightarrow>
    zone_keep s (z\<lparr>zn_cpu_pools := pools\<rparr>, ps)"
  by (auto simp: zone_keep_def)

lemma zone_keep_trans:
  assumes "zone_keep s s'" "zone_keep s' s''"
  shows "zone_keep s s''"
  unfolding zone_keep_def
proof (intro conjI allI impI)
  fix i assume i: "i < length (snd s)"
  from assms(1) i obtain w t where "snd s' ! i = (snd s ! i)\<lparr>vp_order := w, vp_type := t\<rparr>"
    unfolding zone_keep_def by blast
  moreover from assms i obtain w' t' where "snd s'' ! i = (snd s' ! i)\<lparr>vp_order := w', vp_type := t'\<rparr>"
    unfolding zone_keep_def by metis
  ultimately have "snd s'' ! i = (snd s ! i)\<lparr>vp_order := w', vp_type := t'\<rparr>" by simp
  then show "\<exists>w t. snd s'' ! i = (snd s ! i)\<lparr>vp_order := w, vp_type := t\<rparr>" by blast
  assume "\<not> in_zone (fst s) i"
  then show "snd s'' ! i = snd s ! i"
    using assms i zone_keep_simps(3) [OF assms(1)] unfolding zone_keep_def by metis
qed (use assms in \<open>auto simp: zone_keep_def\<close>)

lemma set_type_loop_spec:
  "p + n \<le> length ps \<Longrightarrow> \<exists>ps'. vm_page_set_type_loop ps p n t = Some ps' \<and> length ps' = length ps
    \<and> (\<forall>i<length ps. ps' ! i = (if p \<le> i \<and> i < p + n then (ps ! i)\<lparr>vp_type := t\<rparr> else ps ! i))"
proof (induction n arbitrary: p ps)
  case (Suc n)
  let ?ps = "ps[p := (ps ! p)\<lparr>vp_type := t\<rparr>]"
  have "page_upd ps p (vp_type_update (\<lambda>_. t)) = Some ?ps"
    using Suc.prems by (simp add: page_upd_def)
  moreover obtain ps' where "vm_page_set_type_loop ?ps (Suc p) n t = Some ps'" "length ps' = length ps"
    "\<forall>i<length ps. ps' ! i = (if Suc p \<le> i \<and> i < Suc p + n then (?ps ! i)\<lparr>vp_type := t\<rparr> else ?ps ! i)"
    using Suc.IH [of "Suc p" ?ps] Suc.prems by auto
  moreover have "(p \<le> i \<and> i < p + Suc n) = (i = p \<or> Suc p \<le> i \<and> i < Suc p + n)" for i by auto
  ultimately show ?case by (auto simp: nth_list_update)
qed auto

lemma retyped_inv:
  assumes inv: "zone_inv (z, ps)" and len: "length ps' = length ps"
    and eq: "\<And>i. i < length ps \<Longrightarrow> vp_order (ps' ! i) = vp_order (ps ! i) \<and> vp_phys_addr (ps' ! i) = vp_phys_addr (ps ! i)"
  shows "zone_inv (z, ps')"
proof -
  have geo: "zone_geometry z ps" and lists: "zone_lists z ps" using inv by (auto simp: zone_inv_def)
  have e: "in_zone z p \<Longrightarrow> vp_order (ps' ! p) = vp_order (ps ! p) \<and> vp_phys_addr (ps' ! p) = vp_phys_addr (ps ! p)" for p
    using eq in_zone_frame(1) [OF geo] by blast
  have "zone_geometry z ps'" using geo e len by (auto simp: zone_geometry_def)
  moreover have "zone_lists z ps'"
    using lists e unfolding zone_lists_def by (metis (no_types, lifting))
  ultimately show ?thesis using inv by (simp add: zone_inv_def)
qed

text \<open>Setting the type of a block keeps everything else.\<close>

lemma set_type_spec:
  assumes inv: "zone_pool_inv (z, ps)" and v: "block_valid p k (z, ps)"
  shows "\<exists>ps'. vm_page_set_type ps p k t = Some ps' \<and> zone_pool_inv (z, ps') \<and> zone_keep (z, ps) (z, ps')
    \<and> zone_avail (z, ps') = zone_avail (z, ps)
    \<and> (\<forall>q. in_zone z q \<longrightarrow> vp_type (ps' ! q) = (if frame_of z q \<in> block_at p k (z, ps) then t else vp_type (ps ! q)))"
proof -
  have zi: "zone_inv (z, ps)" and geo: "zone_geometry z ps"
    using inv by (auto simp: zone_pool_inv_def zone_inv_def)
  have p: "in_zone z p" "frame_of z p + 2 ^ k \<le> zn_last z" using v by (auto simp: block_valid_def)
  have "p + 2 ^ k \<le> zn_pages_end z"
    using p geometry_facts(6) [OF geo] by (auto simp: in_zone_def frame_of_def)
  then have "p + 2 ^ k \<le> length ps" using geometry_facts(5) [OF geo] by simp
  from set_type_loop_spec [OF this, of t] obtain ps' where
    ps': "vm_page_set_type ps p k t = Some ps'" "length ps' = length ps"
    "\<forall>i<length ps. ps' ! i = (if p \<le> i \<and> i < p + 2 ^ k then (ps ! i)\<lparr>vp_type := t\<rparr> else ps ! i)"
    by (auto simp: vm_page_set_type_def)
  have zi': "zone_inv (z, ps')" using ps' by (intro retyped_inv [OF zi]) auto
  have blk: "frame_of z q \<in> block_at p k (z, ps) \<longleftrightarrow> p \<le> q \<and> q < p + 2 ^ k" if "in_zone z q" for q
    using that p(1) by (auto simp: block_at_def frames_def frame_of_def in_zone_def)
  have out: "\<not> (p \<le> i \<and> i < p + 2 ^ k)" if "\<not> in_zone z i" for i
    using that p(1) \<open>p + 2 ^ k \<le> zn_pages_end z\<close> by (auto simp: in_zone_def)
  have ba: "buddy_avail (z, ps') = buddy_avail (z, ps)" by (simp add: buddy_avail_def)
  have "zone_keep (z, ps) (z, ps')"
    unfolding zone_keep_def fst_conv snd_conv
  proof (intro conjI allI impI)
    fix i assume i: "i < length ps"
    have "ps' ! i = (ps ! i)\<lparr>vp_order := vp_order (ps ! i),
        vp_type := if p \<le> i \<and> i < p + 2 ^ k then t else vp_type (ps ! i)\<rparr>"
      using ps'(3) i by auto
    then show "\<exists>w t. ps' ! i = (ps ! i)\<lparr>vp_order := w, vp_type := t\<rparr>" by blast
    assume "\<not> in_zone z i"
    then show "ps' ! i = ps ! i" using ps'(3) i out by auto
  qed (use ps'(2) in auto)
  moreover have "zone_pool_inv (z, ps')" using inv zi' by (simp add: zone_pool_inv_def ba)
  moreover have "vp_type (ps' ! q) = (if frame_of z q \<in> block_at p k (z, ps) then t else vp_type (ps ! q))"
    if "in_zone z q" for q
    using ps'(3) in_zone_frame(1) [OF geo that] blk [OF that] by auto
  ultimately show ?thesis using ps'(1) ba by (simp add: zone_avail_def)
qed


section \<open>Allocation and release\<close>

lemma zone_full_pools: "zone_full s \<Longrightarrow> zone_inv s"
  by (simp add: zone_full_def zone_pool_inv_def)

lemma block_keep:
  assumes "zone_keep s s'"
  shows "block_at p k s' = block_at p k s" "block_valid p k s' = block_valid p k s"
  by (simp_all add: block_at_def block_valid_def zone_keep_simps [OF assms])

text \<open>The first half of \<open>vm_page_zone_alloc\<close>: a page of the pool or a block of the buddy system.\<close>

lemma pool_take_spec:
  assumes inv: "zone_pool_inv s" and cpu: "cpu < length (zn_cpu_pools (fst s))"
  shows "\<exists>r s'. (do {
          pool \<leftarrow> vm_page_cpu_pool_get (fst s) cpu;
          (filled, pool, zone, ps) \<leftarrow>
            (if cp_nr_pages pool = 0 then do {
               (filled, pool, s) \<leftarrow> vm_page_cpu_pool_fill pool s;
               Some (filled \<noteq> 0, pool, s) }
             else Some (True, pool, s));
          if \<not> filled then do {
            zone \<leftarrow> zn_set_pool zone cpu pool;
            Some (None, zone, ps) }
          else do {
            (page, pool) \<leftarrow> vm_page_cpu_pool_pop pool;
            zone \<leftarrow> zn_set_pool zone cpu pool;
            Some (Some page, zone, ps) } }) = Some (r, s')
    \<and> zone_pool_inv s' \<and> zone_keep s s' \<and> (\<forall>i<length (snd s). vp_type (snd s' ! i) = vp_type (snd s ! i))
    \<and> (case r of None \<Rightarrow> zone_avail s' = zone_avail s
       | Some p \<Rightarrow> block_valid p 0 s \<and> block_at p 0 s \<subseteq> zone_avail s
           \<and> zone_avail s' = zone_avail s - block_at p 0 s)"
    (is "\<exists>r s'. ?code = Some (r, s') \<and> _")
proof -
  define pool where "pool = zn_cpu_pools (fst s) ! cpu"
  define rest where "rest = concat (map cp_pages (others cpu (fst s)))"
  have pi: "pool_inv pool rest s" and oth: "\<forall>pool\<in>set (others cpu (fst s)). pool_ok pool"
    and av: "zone_avail s = pool_avail pool s \<union> frame_of (fst s) ` set rest"
    using pool_split [OF cpu] inv by (auto simp: pool_def rest_def)
  have ok: "pool_ok pool" using pi by (simp add: pool_inv_def)
  obtain filled pool1 z1 ps1 where
    f: "(if cp_nr_pages pool = 0 then do {
           (filled, pool, s) \<leftarrow> vm_page_cpu_pool_fill pool s;
           Some (filled \<noteq> 0, pool, s) }
         else Some (True, pool, s)) = Some (filled, pool1, z1, ps1)"
    and p1: "pool_inv pool1 rest (z1, ps1)" and pr: "preserved s (z1, ps1)"
    and a1: "pool_avail pool1 (z1, ps1) = pool_avail pool s" and ne: "filled \<Longrightarrow> cp_pages pool1 \<noteq> []"
  proof (cases "cp_nr_pages pool = 0")
    case True
    then have "cp_nr_pages pool + int (nat (cp_transfer_size pool)) \<le> cp_size pool" "cp_pages pool = []"
      using ok by (auto simp: pool_ok_def)
    from fill_loop_spec [OF pi this(1)] this(2) obtain i pool' s' where
      "vm_page_cpu_pool_fill_loop (nat (cp_transfer_size pool)) pool s = Some (i, pool', s')"
      "pool_inv pool' rest s'" "preserved s s'" "pool_avail pool' s' = pool_avail pool s"
      "length (cp_pages pool') = i" by auto
    then show ?thesis
      using True by (intro that [of "i \<noteq> 0" pool' "fst s'" "snd s'"]) (auto simp: vm_page_cpu_pool_fill_def)
  next
    case False
    then show ?thesis
      using pi ok by (intro that [of True pool "fst s" "snd s"]) (auto simp: pool_ok_def)
  qed
  note sm = preserved_frames [OF pr]
  have types: "\<forall>i<length (snd s). vp_type (ps1 ! i) = vp_type (snd s ! i)"
    using pr by (auto simp: preserved_def reordered_def split: prod.splits)
  have get: "vm_page_cpu_pool_get (fst s) cpu = Some pool"
    using cpu by (simp add: vm_page_cpu_pool_get_def pool_def)
  show ?thesis
  proof (cases filled)
    case False
    from pool_join [OF cpu _ p1 rest_def oth] sm obtain z2 where
      "zn_set_pool z1 cpu pool1 = Some z2" "zone_pool_inv (z2, ps1)"
      "z2 = z1\<lparr>zn_cpu_pools := (zn_cpu_pools (fst s))[cpu := pool1]\<rparr>"
      "zone_avail (z2, ps1) = pool_avail pool1 (z1, ps1) \<union> frame_of z1 ` set rest" by auto
    moreover from this have "zone_keep s (z2, ps1)" "zone_avail (z2, ps1) = zone_avail s"
      using preserved_keep [OF pr] sm a1 av by (auto intro: keep_pools)
    moreover from calculation have "?code = Some (None, z2, ps1)" using get f False by simp
    ultimately show ?thesis using types by (intro exI [of _ None] exI [of _ "(z2, ps1)"]) simp
  next
    case True
    from pop_spec [OF p1 ne [OF True]] obtain p pool2 where
      pop: "vm_page_cpu_pool_pop pool1 = Some (p, pool2)" "cp_pages pool1 = p # cp_pages pool2"
      "pool_inv pool2 (p # rest) (z1, ps1)" by blast
    then have p: "in_zone z1 p" "frame_of z1 p \<notin> buddy_avail (z1, ps1)" "p \<notin> set (cp_pages pool2 @ rest)"
      "pool_inv pool2 rest (z1, ps1)" by (auto simp: pool_inv_def)
    from pool_join [OF cpu _ p(4) rest_def oth] sm obtain z2 where
      j: "zn_set_pool z1 cpu pool2 = Some z2" "zone_pool_inv (z2, ps1)"
      "z2 = z1\<lparr>zn_cpu_pools := (zn_cpu_pools (fst s))[cpu := pool2]\<rparr>"
      "zone_avail (z2, ps1) = pool_avail pool2 (z1, ps1) \<union> frame_of z1 ` set rest" by auto
    have ne2: "frame_of z1 q \<noteq> frame_of z1 p" if "q \<in> set (cp_pages pool2 @ rest)" for q
      using that p pop(3) frame_of_inj [OF _ p(1), of q] by (auto simp: pool_inv_def)
    have fr: "frame_of z1 = frame_of (fst s)" using sm by simp
    have e1: "pool_avail pool s = insert (frame_of z1 p) (pool_avail pool2 (z1, ps1))"
      unfolding a1 [symmetric] using pop(2) by (simp add: pool_avail_def)
    have e2: "frame_of z1 p \<notin> pool_avail pool2 (z1, ps1) \<union> frame_of z1 ` set rest"
      using p(2) ne2 by (force simp: pool_avail_def)
    have "zone_avail (z2, ps1) = zone_avail s - {frame_of z1 p}"
      using e2 unfolding j(4) av e1 fr by auto
    moreover have "frame_of z1 p \<in> zone_avail s" unfolding av e1 by simp
    moreover have "?code = Some (Some p, z2, ps1)" using get f True pop(1) j(1) by simp
    moreover have "zone_keep s (z2, ps1)" using preserved_keep [OF pr] sm j(3) by (auto intro: keep_pools)
    moreover have "block_valid p 0 s" "block_at p 0 s = {frame_of z1 p}"
      using block_valid_0 [of s p] inv p(1) sm by (auto simp: zone_pool_inv_def block_at_0)
    ultimately show ?thesis
      using j(2) types by (intro exI [of _ "Some p"] exI [of _ "(z2, ps1)"]) simp
  qed
qed


lemma preserved_types:
  assumes "preserved s s'"
  shows "\<forall>i<length (snd s). vp_type (snd s' ! i) = vp_type (snd s ! i)"
  using assms by (auto simp: preserved_def reordered_def split: prod.splits)

lemma pool_put_spec:
  assumes inv: "zone_pool_inv s" and cpu: "cpu < length (zn_cpu_pools (fst s))"
    and p: "in_zone (fst s) p" "frame_of (fst s) p \<notin> zone_avail s"
  shows "\<exists>s'. (do {
       pool \<leftarrow> vm_page_cpu_pool_get (fst s) cpu;
       (pool, zone, ps) \<leftarrow>
         (if cp_nr_pages pool = cp_size pool then vm_page_cpu_pool_drain pool s
          else Some (pool, s));
       pool \<leftarrow> vm_page_cpu_pool_push pool p;
       zone \<leftarrow> zn_set_pool zone cpu pool;
       Some (zone, ps) }) = Some s'
    \<and> zone_pool_inv s' \<and> zone_keep s s' \<and> (\<forall>i<length (snd s). vp_type (snd s' ! i) = vp_type (snd s ! i))
    \<and> zone_avail s' = insert (frame_of (fst s) p) (zone_avail s)"
    (is "\<exists>s'. ?code = Some s' \<and> _")
proof -
  define pool where "pool = zn_cpu_pools (fst s) ! cpu"
  define rest where "rest = concat (map cp_pages (others cpu (fst s)))"
  have pi: "pool_inv pool rest s" and oth: "\<forall>pool\<in>set (others cpu (fst s)). pool_ok pool"
    and av: "zone_avail s = pool_avail pool s \<union> frame_of (fst s) ` set rest"
    using pool_split [OF cpu] inv by (auto simp: pool_def rest_def)
  have ok: "pool_ok pool" using pi by (simp add: pool_inv_def)
  obtain pool1 z1 ps1 where
    f: "(if cp_nr_pages pool = cp_size pool then vm_page_cpu_pool_drain pool s else Some (pool, s))
      = Some (pool1, z1, ps1)"
    and p1: "pool_inv pool1 rest (z1, ps1)" and pr: "preserved s (z1, ps1)"
    and a1: "pool_avail pool1 (z1, ps1) = pool_avail pool s" and room: "cp_nr_pages pool1 < cp_size pool1"
  proof (cases "cp_nr_pages pool = cp_size pool")
    case True
    then have t: "nat (cp_transfer_size pool) \<le> length (cp_pages pool)" "0 < nat (cp_transfer_size pool)"
      using ok by (simp_all add: pool_ok_def pos_imp_zdiv_pos_iff)
    from drain_loop_spec [OF pi t(1)] obtain pool' s' where d:
      "vm_page_cpu_pool_drain_loop (nat (cp_transfer_size pool)) pool s = Some (pool', s')"
      "pool_inv pool' rest s'" "preserved s s'" "pool_avail pool' s' = pool_avail pool s"
      "length (cp_pages pool') = length (cp_pages pool) - nat (cp_transfer_size pool)"
      "cp_size pool' = cp_size pool" by blast
    have "cp_nr_pages pool' = int (length (cp_pages pool'))" using d(2) by (simp add: pool_inv_def pool_ok_def)
    then have "cp_nr_pages pool' < cp_size pool'"
      using d(5,6) t True ok by (simp add: pool_ok_def)
    then show ?thesis
      using True d by (intro that [of pool' "fst s'" "snd s'"]) (simp_all add: vm_page_cpu_pool_drain_def)
  next
    case False
    then show ?thesis
      using pi ok by (intro that [of pool "fst s" "snd s"]) (auto simp: pool_ok_def)
  qed
  note sm = preserved_frames [OF pr]
  have get: "vm_page_cpu_pool_get (fst s) cpu = Some pool"
    using cpu by (simp add: vm_page_cpu_pool_get_def pool_def)
  let ?pool = "pool1\<lparr>cp_nr_pages := cp_nr_pages pool1 + 1, cp_pages := p # cp_pages pool1\<rparr>"
  have fr: "frame_of z1 = frame_of (fst s)" "in_zone z1 = in_zone (fst s)" using sm by simp_all
  have push: "vm_page_cpu_pool_push pool1 p = Some ?pool" using room by (simp add: vm_page_cpu_pool_push_def)
  have out: "frame_of (fst s) p \<notin> pool_avail pool1 (z1, ps1)" "frame_of (fst s) p \<notin> frame_of (fst s) ` set rest"
    using p(2) unfolding av a1 by auto
  then have "pool_inv ?pool rest (z1, ps1)"
    using p1 p(1) room by (auto simp: pool_inv_def pool_ok_def pool_avail_def fr)
  from pool_join [OF cpu _ this rest_def oth] sm obtain z2 where
    j: "zn_set_pool z1 cpu ?pool = Some z2" "zone_pool_inv (z2, ps1)"
    "z2 = z1\<lparr>zn_cpu_pools := (zn_cpu_pools (fst s))[cpu := ?pool]\<rparr>"
    "zone_avail (z2, ps1) = pool_avail ?pool (z1, ps1) \<union> frame_of z1 ` set rest" by auto
  have "zone_avail (z2, ps1) = insert (frame_of (fst s) p) (zone_avail s)"
    unfolding j(4) av a1 [symmetric] by (auto simp: pool_avail_def fr)
  moreover have "?code = Some (z2, ps1)" using get f push j(1) by simp
  moreover have "zone_keep s (z2, ps1)" using preserved_keep [OF pr] sm j(3) by (auto intro: keep_pools)
  ultimately show ?thesis
    using j(2) preserved_types [OF pr] by (intro exI [of _ "(z2, ps1)"]) simp
qed

lemma buddy_take_spec:
  assumes inv: "zone_pool_inv s" and k: "k < 11"
  shows "\<exists>r s'. vm_page_zone_alloc_from_buddy s k = Some (r, s')
    \<and> zone_pool_inv s' \<and> zone_keep s s' \<and> (\<forall>i<length (snd s). vp_type (snd s' ! i) = vp_type (snd s ! i))
    \<and> (case r of None \<Rightarrow> zone_avail s' = zone_avail s
       | Some p \<Rightarrow> block_valid p k s \<and> block_at p k s \<subseteq> zone_avail s
           \<and> zone_avail s' = zone_avail s - block_at p k s)"
proof -
  have zi: "zone_inv s" using inv by (simp add: zone_pool_inv_def)
  from buddy_zone.alloc_law [OF zi k TrueI] obtain r s' where
    a: "vm_page_zone_alloc_from_buddy s k = Some (r, s')" "zone_inv s'" "preserved s s'"
    "case r of None \<Rightarrow> buddy_avail s' = buddy_avail s
     | Some p \<Rightarrow> block_valid p k s' \<and> block_at p k s' \<subseteq> buddy_avail s \<and> buddy_avail s' = buddy_avail s - block_at p k s'"
    by blast
  note a4 = a(4) [unfolded block_same [OF a(3)]]
  note sm = preserved_frames [OF a(3)]
  have sub: "buddy_avail s' \<subseteq> buddy_avail s" using a4 by (auto split: option.splits)
  then have "zone_pool_inv s'" using inv a(2) by (auto simp: zone_pool_inv_def sm)
  moreover have "case r of None \<Rightarrow> zone_avail s' = zone_avail s
       | Some p \<Rightarrow> block_valid p k s \<and> block_at p k s \<subseteq> zone_avail s
           \<and> zone_avail s' = zone_avail s - block_at p k s"
  proof (cases r)
    case None
    then show ?thesis using a4 by (simp add: zone_avail_def sm)
  next
    case (Some p)
    have "frame_of (fst s) ` set (pooled (fst s)) \<inter> buddy_avail s = {}"
      using inv by (auto simp: zone_pool_inv_def)
    then show ?thesis using Some a4 unfolding zone_avail_def sm by auto
  qed
  ultimately show ?thesis using a preserved_keep [OF a(3)] preserved_types [OF a(3)] by blast
qed

lemma buddy_put_spec:
  assumes inv: "zone_pool_inv s" and v: "block_valid p k s" "block_at p k s \<inter> zone_avail s = {}"
  shows "\<exists>s'. vm_page_zone_free_to_buddy s p k = Some s'
    \<and> zone_pool_inv s' \<and> zone_keep s s' \<and> (\<forall>i<length (snd s). vp_type (snd s' ! i) = vp_type (snd s ! i))
    \<and> zone_avail s' = zone_avail s \<union> block_at p k s"
proof -
  have zi: "zone_inv s" using inv by (simp add: zone_pool_inv_def)
  have d: "block_at p k s \<inter> buddy_avail s = {}" using v(2) by (auto simp: zone_avail_def)
  from buddy_zone.free_law [OF zi v(1) d TrueI] obtain s' where
    a: "vm_page_zone_free_to_buddy s p k = Some s'" "zone_inv s'" "preserved s s'"
    "buddy_avail s' = buddy_avail s \<union> block_at p k s" by blast
  note sm = preserved_frames [OF a(3)]
  have "zone_pool_inv s'" using inv a(2,4) v(2) by (auto simp: zone_pool_inv_def zone_avail_def sm)
  moreover have "zone_avail s' = zone_avail s \<union> block_at p k s" by (auto simp: zone_avail_def sm a(4))
  ultimately show ?thesis using a preserved_keep [OF a(3)] preserved_types [OF a(3)] by blast
qed

lemma zone_alloc_spec:
  assumes full: "zone_full s" and cpu: "cpu < length (zn_cpu_pools (fst s))" and k: "k < 11"
    and type: "type \<noteq> VM_PAGE_FREE"
  shows "\<exists>r s'. vm_page_zone_alloc s cpu k type = Some (r, s') \<and> zone_full s' \<and> zone_keep s s'
    \<and> (case r of None \<Rightarrow> zone_avail s' = zone_avail s
       | Some p \<Rightarrow> block_valid p k s \<and> block_at p k s \<subseteq> zone_avail s
           \<and> zone_avail s' = zone_avail s - block_at p k s
           \<and> (\<forall>q. in_zone (fst s) q \<and> frame_of (fst s) q \<in> block_at p k s \<longrightarrow> vp_type (snd s' ! q) = type))"
proof -
  have inv: "zone_pool_inv s" and ty: "zone_typed s" using full by (auto simp: zone_full_def)
  define take where "take = (if k = 0 then do {
          pool \<leftarrow> vm_page_cpu_pool_get (fst s) cpu;
          (filled, pool, zone, ps) \<leftarrow>
            (if cp_nr_pages pool = 0 then do {
               (filled, pool, s) \<leftarrow> vm_page_cpu_pool_fill pool s;
               Some (filled \<noteq> 0, pool, s) }
             else Some (True, pool, s));
          if \<not> filled then do {
            zone \<leftarrow> zn_set_pool zone cpu pool;
            Some (None, zone, ps) }
          else do {
            (page, pool) \<leftarrow> vm_page_cpu_pool_pop pool;
            zone \<leftarrow> zn_set_pool zone cpu pool;
            Some (Some page, zone, ps) } }
        else vm_page_zone_alloc_from_buddy s k)"
  have "\<exists>r s'. take = Some (r, s') \<and> zone_pool_inv s' \<and> zone_keep s s'
    \<and> (\<forall>i<length (snd s). vp_type (snd s' ! i) = vp_type (snd s ! i))
    \<and> (case r of None \<Rightarrow> zone_avail s' = zone_avail s
       | Some p \<Rightarrow> block_valid p k s \<and> block_at p k s \<subseteq> zone_avail s
           \<and> zone_avail s' = zone_avail s - block_at p k s)"
    unfolding take_def using pool_take_spec [OF inv cpu] buddy_take_spec [OF inv k]
    by (cases "k = 0") (simp_all only: simp_thms if_True if_False)
  then obtain r z1 ps1 where t: "take = Some (r, z1, ps1)" "zone_pool_inv (z1, ps1)" "zone_keep s (z1, ps1)"
    "\<forall>i<length (snd s). vp_type (ps1 ! i) = vp_type (snd s ! i)"
    "case r of None \<Rightarrow> zone_avail (z1, ps1) = zone_avail s
       | Some p \<Rightarrow> block_valid p k s \<and> block_at p k s \<subseteq> zone_avail s
           \<and> zone_avail (z1, ps1) = zone_avail s - block_at p k s" by force
  note sm = zone_keep_simps [OF t(3), simplified] and bk = block_keep [OF t(3)]
  have code: "vm_page_zone_alloc s cpu k type = do {
     (page, zone, ps) \<leftarrow> take;
     case page of
       None \<Rightarrow> Some (None, zone, ps)
     | Some page \<Rightarrow> do {
         pg \<leftarrow> nth_opt ps page;
         assert_that (vp_type pg = VM_PAGE_FREE);
         ps \<leftarrow> vm_page_set_type ps page k type;
         Some (Some page, zone, ps) } }"
    using k by (simp add: vm_page_zone_alloc_def take_def)
  have len: "q < length (snd s)" if "in_zone (fst s) q" for q
    using in_zone_frame(1) [of "fst s" "snd s"] that zone_full_pools [OF full]
    by (cases s) (auto simp: zone_inv_def)
  have ty1: "vp_type (ps1 ! q) = VM_PAGE_FREE \<longleftrightarrow> frame_of (fst s) q \<in> zone_avail s"
    if "in_zone (fst s) q" for q using ty t(4) len [OF that] that by (simp add: zone_typed_def)
  show ?thesis
  proof (cases r)
    case None
    then have "zone_full (z1, ps1)" using t ty1 by (simp add: zone_full_def zone_typed_def sm)
    then show ?thesis using None t by (intro exI [of _ None] exI [of _ "(z1, ps1)"]) (simp add: code)
  next
    case (Some p)
    then have v: "block_valid p k s" "block_at p k s \<subseteq> zone_avail s"
      "zone_avail (z1, ps1) = zone_avail s - block_at p k s" using t(5) by simp_all
    have pz: "in_zone (fst s) p" using v(1) by (simp add: block_valid_def)
    have "frame_of (fst s) p \<in> block_at p k s" by (simp add: block_at_def)
    then have free: "vp_type (ps1 ! p) = VM_PAGE_FREE" using ty1 [OF pz] v(2) by auto
    have v1: "block_valid p k (z1, ps1)" by (simp add: bk v(1))
    from set_type_spec [OF t(2) v1, of type] obtain ps2 where st: "vm_page_set_type ps1 p k type = Some ps2"
      "zone_pool_inv (z1, ps2)" "zone_keep (z1, ps1) (z1, ps2)" "zone_avail (z1, ps2) = zone_avail (z1, ps1)"
      "\<forall>q. in_zone z1 q \<longrightarrow> vp_type (ps2 ! q) = (if frame_of z1 q \<in> block_at p k (z1, ps1) then type else vp_type (ps1 ! q))"
      by blast
    have "zone_typed (z1, ps2)"
      using st(4,5) v(2,3) ty1 type by (auto simp: zone_typed_def sm bk)
    then have "zone_full (z1, ps2)" using st(2) by (simp add: zone_full_def)
    moreover have "zone_keep s (z1, ps2)" by (rule zone_keep_trans [OF t(3) st(3)])
    moreover have "vm_page_zone_alloc s cpu k type = Some (Some p, z1, ps2)"
      using t(1) Some free st(1) len [OF pz] sm by (simp add: code)
    ultimately show ?thesis
      using v st(4,5) Some by (intro exI [of _ "Some p"] exI [of _ "(z1, ps2)"]) (simp add: sm bk)
  qed
qed

lemma zone_free_spec:
  assumes full: "zone_full s" and cpu: "cpu < length (zn_cpu_pools (fst s))"
    and v: "block_valid p k s" "block_at p k s \<inter> zone_avail s = {}"
  shows "\<exists>s'. vm_page_zone_free s cpu p k = Some s' \<and> zone_full s' \<and> zone_keep s s'
    \<and> zone_avail s' = zone_avail s \<union> block_at p k s"
proof -
  obtain z ps where s: "s = (z, ps)" by force
  have inv: "zone_pool_inv (z, ps)" and ty: "zone_typed (z, ps)" using full by (auto simp: zone_full_def s)
  have pz: "in_zone z p" "k < 11" using v(1) by (auto simp: block_valid_def s)
  have len: "q < length ps" if "in_zone z q" for q
    using in_zone_frame(1) [of z ps] that inv by (auto simp: zone_inv_def zone_pool_inv_def)
  have fb: "frame_of z p \<in> block_at p k (z, ps)" by (simp add: block_at_def)
  then have notfree: "vp_type (ps ! p) \<noteq> VM_PAGE_FREE" using ty pz v(2) by (auto simp: zone_typed_def s)
  from set_type_spec [OF inv v(1) [unfolded s], of VM_PAGE_FREE] obtain ps1 where
    st: "vm_page_set_type ps p k VM_PAGE_FREE = Some ps1"
      "zone_pool_inv (z, ps1)" "zone_keep (z, ps) (z, ps1)" "zone_avail (z, ps1) = zone_avail (z, ps)"
      "\<forall>q. in_zone z q \<longrightarrow> vp_type (ps1 ! q) = (if frame_of z q \<in> block_at p k (z, ps) then VM_PAGE_FREE else vp_type (ps ! q))"
    by blast
  note bk = block_keep [OF st(3)]
  define put where "put = (if k = 0 then do {
       pool \<leftarrow> vm_page_cpu_pool_get z cpu;
       (pool, zone, ps) \<leftarrow>
         (if cp_nr_pages pool = cp_size pool then vm_page_cpu_pool_drain pool (z, ps1)
          else Some (pool, z, ps1));
       pool \<leftarrow> vm_page_cpu_pool_push pool p;
       zone \<leftarrow> zn_set_pool zone cpu pool;
       Some (zone, ps) }
     else vm_page_zone_free_to_buddy (z, ps1) p k)"
  have code: "vm_page_zone_free s cpu p k = put"
    using st(1) notfree pz len by (simp add: vm_page_zone_free_def put_def s)
  have v1: "block_valid p k (z, ps1)" "block_at p k (z, ps1) \<inter> zone_avail (z, ps1) = {}"
    using v by (simp_all add: bk st(4) s)
  have "\<exists>s'. put = Some s' \<and> zone_pool_inv s' \<and> zone_keep (z, ps1) s'
    \<and> (\<forall>i<length ps1. vp_type (snd s' ! i) = vp_type (ps1 ! i))
    \<and> zone_avail s' = zone_avail (z, ps1) \<union> block_at p k (z, ps1)"
  proof (cases "k = 0")
    case True
    have "frame_of z p \<notin> zone_avail (z, ps1)" using v1(2) fb by (auto simp: bk)
    then show ?thesis
      using pool_put_spec [OF st(2), of cpu p] cpu pz(1) True unfolding put_def by (simp add: s block_at_0)
  next
    case False
    then show ?thesis using buddy_put_spec [OF st(2) v1] unfolding put_def by simp
  qed
  then obtain s' where p: "put = Some s'" "zone_pool_inv s'" "zone_keep (z, ps1) s'"
    "\<forall>i<length ps1. vp_type (snd s' ! i) = vp_type (ps1 ! i)"
    "zone_avail s' = zone_avail (z, ps1) \<union> block_at p k (z, ps1)" by blast
  note sm = zone_keep_simps [OF p(3), simplified] zone_keep_simps [OF st(3), simplified]
  have "zone_typed s'"
    using p(4,5) st(4,5) ty len by (auto simp: zone_typed_def sm bk)
  then have "zone_full s'" using p(2) by (simp add: zone_full_def)
  moreover have "zone_keep s s'" unfolding s by (rule zone_keep_trans [OF st(3) p(3)])
  ultimately show ?thesis using p code st(4) by (simp add: s bk)
qed

text \<open>The invariant of a zone whose pools serve \<open>n\<close> processors; a request is made by
  one of them, and an allocation names the type of its pages.\<close>

definition zone_for :: "nat \<Rightarrow> zone_state \<Rightarrow> bool" where
  "zone_for n s \<longleftrightarrow> zone_full s \<and> length (zn_cpu_pools (fst s)) = n"

interpretation pooled_zone: block_allocator 11 "\<lambda>(cpu, type). cpu < n \<and> type \<noteq> VM_PAGE_FREE"
  "zone_for n" zone_avail block_at block_valid zone_keep
  "\<lambda>(cpu, type) k s. vm_page_zone_alloc s cpu k type" "\<lambda>(cpu, type) p k s. vm_page_zone_free s cpu p k" for n
proof
  fix s :: zone_state and k :: nat and q :: "nat \<times> u16"
  assume inv: "zone_for n s" and k: "k < 11" and ok: "case q of (cpu, type) \<Rightarrow> cpu < n \<and> type \<noteq> VM_PAGE_FREE"
  obtain cpu type where q: "q = (cpu, type)" by force
  from zone_alloc_spec [OF _ _ k, of s cpu type] inv ok obtain r s' where
    a: "vm_page_zone_alloc s cpu k type = Some (r, s')" "zone_full s'" "zone_keep s s'"
    and c: "case r of None \<Rightarrow> zone_avail s' = zone_avail s
       | Some p \<Rightarrow> block_valid p k s \<and> block_at p k s \<subseteq> zone_avail s
           \<and> zone_avail s' = zone_avail s - block_at p k s
           \<and> (\<forall>q. in_zone (fst s) q \<and> frame_of (fst s) q \<in> block_at p k s \<longrightarrow> vp_type (snd s' ! q) = type)"
    by (auto simp: zone_for_def q)
  have "zone_for n s'" using a inv by (simp add: zone_for_def zone_keep_def)
  moreover have "case r of None \<Rightarrow> zone_avail s' = zone_avail s
       | Some p \<Rightarrow> block_valid p k s' \<and> block_at p k s' \<subseteq> zone_avail s
           \<and> zone_avail s' = zone_avail s - block_at p k s'"
    using c by (auto simp: block_keep [OF a(3)] split: option.splits)
  ultimately show "\<exists>r s'. (case q of (cpu, type) \<Rightarrow> \<lambda>k s. vm_page_zone_alloc s cpu k type) k s = Some (r, s')
    \<and> zone_for n s' \<and> zone_keep s s' \<and>
    (case r of None \<Rightarrow> zone_avail s' = zone_avail s
     | Some p \<Rightarrow> block_valid p k s' \<and> block_at p k s' \<subseteq> zone_avail s \<and>
         zone_avail s' = zone_avail s - block_at p k s')" using a by (auto simp: q)
next
  fix s :: zone_state and p k :: nat and q :: "nat \<times> u16"
  assume inv: "zone_for n s" and v: "block_valid p k s" "block_at p k s \<inter> zone_avail s = {}"
    and ok: "case q of (cpu, type) \<Rightarrow> cpu < n \<and> type \<noteq> VM_PAGE_FREE"
  obtain cpu type where q: "q = (cpu, type)" by force
  from zone_free_spec [OF _ _ v, of cpu] inv ok obtain s' where
    "vm_page_zone_free s cpu p k = Some s'" "zone_full s'" "zone_keep s s'"
    "zone_avail s' = zone_avail s \<union> block_at p k s" by (auto simp: zone_for_def q)
  then show "\<exists>s'. (case q of (cpu, type) \<Rightarrow> \<lambda>p k s. vm_page_zone_free s cpu p k) p k s = Some s'
      \<and> zone_for n s' \<and> zone_keep s s' \<and> zone_avail s' = zone_avail s \<union> block_at p k s"
    using inv by (auto simp: zone_for_def zone_keep_def q)
next
  fix s s' :: zone_state and p k :: nat
  assume "zone_keep s s'"
  then show "block_at p k s' = block_at p k s \<and> block_valid p k s' = block_valid p k s"
    by (simp add: block_keep)
qed

end
