(* ===== verification/Vm_page_Module.thy ===== *)
theory Vm_page_Module
  imports Vm_page_Alloc
begin

text \<open>
  The page allocator as a whole: \<open>vm_page_alloc\<close> falls back to the zones of lower
  priority, \<open>vm_page_free\<close> returns a block to the zone its descriptor names, and the
  reference counts free a page when they drop to zero. The available pages are a set of indexes of
  the page table. The module is a block allocator, for requests of every processor, zone selector
  and page type.
\<close>

section \<open>The state of the module\<close>

definition vs_zone :: "vm_page_state \<Rightarrow> nat \<Rightarrow> zone_state" where
  "vs_zone st i = (vs_zones st ! i, vs_table st)"

definition vs_avail :: "vm_page_state \<Rightarrow> nat set" where
  "vs_avail st = {p. \<exists>i<vs_zones_size st. in_zone (vs_zones st ! i) p
     \<and> frame_of (vs_zones st ! i) p \<in> zone_avail (vs_zone st i)}"

definition vs_inv :: "nat \<Rightarrow> vm_page_state \<Rightarrow> bool" where
  "vs_inv n st \<longleftrightarrow> length (vs_zones st) = PMEM_MAX_ZONES \<and> 0 < vs_zones_size st \<and> vs_zones_size st \<le> PMEM_MAX_ZONES
     \<and> (\<forall>i<vs_zones_size st. zone_full (vs_zone st i) \<and> length (zn_cpu_pools (vs_zones st ! i)) = n)
     \<and> (\<forall>i<vs_zones_size st. \<forall>p. in_zone (vs_zones st ! i) p \<longrightarrow> unat (vp_zone_index (vs_table st ! p)) = i)
     \<and> (\<forall>p\<in>vs_avail st. vp_nr_refs (vs_table st ! p) = 0)"

text \<open>What allocations and releases keep of the state.\<close>

definition vs_keep :: "vm_page_state \<Rightarrow> vm_page_state \<Rightarrow> bool" where
  "vs_keep st st' \<longleftrightarrow> vs_zones_size st' = vs_zones_size st \<and> length (vs_zones st') = length (vs_zones st)
     \<and> length (vs_table st') = length (vs_table st)
     \<and> (\<forall>i<length (vs_zones st). in_zone (vs_zones st' ! i) = in_zone (vs_zones st ! i)
         \<and> frame_of (vs_zones st' ! i) = frame_of (vs_zones st ! i)
         \<and> zn_last (vs_zones st' ! i) = zn_last (vs_zones st ! i))
     \<and> (\<forall>p<length (vs_table st). \<exists>w t. vs_table st' ! p = (vs_table st ! p)\<lparr>vp_order := w, vp_type := t\<rparr>)"

definition pages_at :: "nat \<Rightarrow> nat \<Rightarrow> nat set" where
  "pages_at p k = {p..<p + 2 ^ k}"

lemma vs_keep_refl [simp]: "vs_keep st st"
proof -
  have "\<exists>w t. pg = pg\<lparr>vp_order := w, vp_type := t\<rparr>" for pg :: vm_page
    by (intro exI [of _ "vp_order pg"] exI [of _ "vp_type pg"]) simp
  then show ?thesis by (simp add: vs_keep_def)
qed

lemma vs_keep_trans:
  assumes "vs_keep a b" "vs_keep b c"
  shows "vs_keep a c"
  unfolding vs_keep_def
proof (intro conjI allI impI)
  fix p assume p: "p < length (vs_table a)"
  with assms(1) obtain w t where "vs_table b ! p = (vs_table a ! p)\<lparr>vp_order := w, vp_type := t\<rparr>"
    unfolding vs_keep_def by blast
  moreover from assms p obtain w' t' where "vs_table c ! p = (vs_table b ! p)\<lparr>vp_order := w', vp_type := t'\<rparr>"
    unfolding vs_keep_def by metis
  ultimately have "vs_table c ! p = (vs_table a ! p)\<lparr>vp_order := w', vp_type := t'\<rparr>" by simp
  then show "\<exists>w t. vs_table c ! p = (vs_table a ! p)\<lparr>vp_order := w, vp_type := t\<rparr>" by blast
qed (use assms in \<open>auto simp: vs_keep_def\<close>)

text \<open>A zone does not see changes of the table outside its own pages.\<close>

lemma zone_full_frame:
  assumes full: "zone_full (z, ps)" and len: "length ps' = length ps"
    and eq: "\<And>p. in_zone z p \<Longrightarrow> ps' ! p = ps ! p"
  shows "zone_full (z, ps')" "zone_avail (z, ps') = zone_avail (z, ps)"
proof -
  have ba: "buddy_avail (z, ps') = buddy_avail (z, ps)" by (simp add: buddy_avail_def)
  then show za: "zone_avail (z, ps') = zone_avail (z, ps)" by (simp add: zone_avail_def)
  have zi: "zone_inv (z, ps)" using full by (rule zone_full_pools)
  have "zone_geometry z ps'" using zi eq len by (auto simp: zone_inv_def zone_geometry_def)
  moreover have "zone_lists z ps'"
    using zi eq unfolding zone_inv_def zone_lists_def prod.case by (metis (no_types, lifting))
  ultimately have "zone_inv (z, ps')" using zi by (simp add: zone_inv_def)
  then show "zone_full (z, ps')"
    using full eq by (simp add: zone_full_def zone_pool_inv_def zone_typed_def ba za)
qed

lemma zone_range:
  assumes "vs_inv n st" "i < vs_zones_size st" "in_zone (vs_zones st ! i) p"
  shows "p < length (vs_table st)" "unat (vp_zone_index (vs_table st ! p)) = i"
proof -
  have "zone_inv (vs_zones st ! i, vs_table st)"
    using assms(1,2) by (auto simp: vs_inv_def vs_zone_def intro: zone_full_pools)
  then have "zone_geometry (vs_zones st ! i) (vs_table st)" by (simp add: zone_inv_def)
  from in_zone_frame(1) [OF this assms(3)] show "p < length (vs_table st)" by simp
  show "unat (vp_zone_index (vs_table st ! p)) = i" using assms by (simp add: vs_inv_def)
qed

lemma zone_unique:
  assumes "vs_inv n st" "i < vs_zones_size st" "j < vs_zones_size st"
    "in_zone (vs_zones st ! i) p" "in_zone (vs_zones st ! j) p"
  shows "i = j"
  using zone_range(2) [OF assms(1,2,4)] zone_range(2) [OF assms(1,3,5)] by simp

text \<open>One step of a zone, put back into the module.\<close>

lemma vs_zone_step:
  assumes inv: "vs_inv n st" and i: "i < vs_zones_size st"
    and full: "zone_full (z, ps)" and keep: "zone_keep (vs_zone st i) (z, ps)"
    and st': "st' = st\<lparr>vs_zones := (vs_zones st)[i := z], vs_table := ps\<rparr>"
    and refs: "\<And>p. in_zone z p \<Longrightarrow> frame_of z p \<in> zone_avail (z, ps) \<Longrightarrow> vp_nr_refs (ps ! p) = 0"
  shows "vs_inv n st'" "vs_keep st st'"
    "vs_avail st' = {p \<in> vs_avail st. \<not> in_zone z p} \<union> {p. in_zone z p \<and> frame_of z p \<in> zone_avail (z, ps)}"
proof -
  have il: "i < length (vs_zones st)" using inv i by (simp add: vs_inv_def)
  note sm = zone_keep_simps [OF keep, unfolded vs_zone_def fst_conv snd_conv]
  have zone': "vs_zones st' ! j = (if j = i then z else vs_zones st ! j)" for j
    using il by (simp add: st')
  have tab: "vs_table st' = ps" "vs_zones_size st' = vs_zones_size st" by (simp_all add: st')
  have other: "ps ! p = vs_table st ! p"
    if "j < vs_zones_size st" "j \<noteq> i" "in_zone (vs_zones st ! j) p" for j p
  proof -
    have "\<not> in_zone (vs_zones st ! i) p" using zone_unique [OF inv i that(1)] that by auto
    then show ?thesis
      using keep zone_range(1) [OF inv that(1,3)] by (simp add: zone_keep_def vs_zone_def)
  qed
  have oz: "zone_full (vs_zones st ! j, ps)" "zone_avail (vs_zones st ! j, ps) = zone_avail (vs_zone st j)"
    if "j < vs_zones_size st" "j \<noteq> i" for j
    using zone_full_frame [of "vs_zones st ! j" "vs_table st" ps] inv that other [OF that] sm(5)
    by (auto simp: vs_inv_def vs_zone_def)
  show keep': "vs_keep st st'"
    using keep sm by (auto simp: vs_keep_def zone' zone_keep_def vs_zone_def)
       (auto simp: st')
  have zi: "vp_zone_index (ps ! p) = vp_zone_index (vs_table st ! p)" "vp_nr_refs (ps ! p) = vp_nr_refs (vs_table st ! p)"
    if p: "p < length (vs_table st)" for p
  proof -
    obtain w t where "ps ! p = (vs_table st ! p)\<lparr>vp_order := w, vp_type := t\<rparr>"
      using keep p unfolding zone_keep_def vs_zone_def fst_conv snd_conv by blast
    then show "vp_zone_index (ps ! p) = vp_zone_index (vs_table st ! p)"
      "vp_nr_refs (ps ! p) = vp_nr_refs (vs_table st ! p)" by simp_all
  qed
  show av: "vs_avail st' = {p \<in> vs_avail st. \<not> in_zone z p} \<union> {p. in_zone z p \<and> frame_of z p \<in> zone_avail (z, ps)}"
    (is "_ = ?R")
  proof (rule set_eqI)
    fix p
    show "p \<in> vs_avail st' \<longleftrightarrow> p \<in> ?R"
    proof (cases "in_zone z p")
      case True
      then have "j = i" if "j < vs_zones_size st" "in_zone (vs_zones st' ! j) p" for j
        using that zone_unique [OF inv that(1) i] by (cases "j = i") (auto simp: zone' sm)
      then have "p \<in> vs_avail st' \<longleftrightarrow> frame_of z p \<in> zone_avail (z, ps)"
        using i True by (auto simp: vs_avail_def zone' vs_zone_def tab)
      then show ?thesis using True by simp
    next
      case False
      have "p \<in> vs_avail st' \<longleftrightarrow> p \<in> vs_avail st"
        using False i oz(2) sm by (auto simp: vs_avail_def vs_zone_def zone' tab split: if_splits; metis)
      then show ?thesis using False by simp
    qed
  qed
  have "vp_nr_refs (ps ! p) = 0" if "p \<in> vs_avail st'" for p
  proof (cases "in_zone z p")
    case True
    then show ?thesis using that av refs by auto
  next
    case False
    then have "p \<in> vs_avail st" using that av by auto
    then obtain j where "j < vs_zones_size st" "in_zone (vs_zones st ! j) p" by (auto simp: vs_avail_def)
    then show ?thesis using zi(2) zone_range(1) [OF inv] inv \<open>p \<in> vs_avail st\<close> by (auto simp: vs_inv_def)
  qed
  moreover have "unat (vp_zone_index (ps ! p)) = j" if "j < vs_zones_size st" "in_zone (vs_zones st' ! j) p" for j p
    using that zone_range [OF inv that(1)] zi(1) sm by (cases "j = i") (auto simp: zone')
  moreover have "zone_full (vs_zones st' ! j, ps) \<and> length (zn_cpu_pools (vs_zones st' ! j)) = n"
    if "j < vs_zones_size st" for j
    using that inv oz(1) full keep by (cases "j = i") (auto simp: zone' vs_inv_def zone_keep_def vs_zone_def)
  ultimately show "vs_inv n st'"
    using inv by (simp add: vs_inv_def vs_zone_def st')
qed


section \<open>Allocation\<close>

lemma valid_pages:
  assumes "zone_full s" "block_valid p k s"
  shows "in_zone (fst s) q \<and> frame_of (fst s) q \<in> block_at p k s \<longleftrightarrow> q \<in> pages_at p k"
proof -
  have geo: "zone_geometry (fst s) (snd s)"
    using zone_full_pools [OF assms(1)] by (cases s) (simp add: zone_inv_def)
  have v: "in_zone (fst s) p" "frame_of (fst s) p + 2 ^ k \<le> zn_last (fst s)"
    using assms(2) by (auto simp: block_valid_def)
  obtain a where a: "p = zn_pages (fst s) + a" using v(1) by (auto simp: in_zone_def le_iff_add)
  show ?thesis
  proof (cases "zn_pages (fst s) \<le> q")
    case True
    then obtain b where b: "q = zn_pages (fst s) + b" by (auto simp: le_iff_add)
    then show ?thesis
      using v geometry_facts(3,6) [OF geo]
      by (auto simp: a b block_at_def frames_def frame_of_def in_zone_def pages_at_def)
  next
    case False
    then show ?thesis using v(1) by (auto simp: in_zone_def pages_at_def)
  qed
qed

lemma vs_zone_full: "vs_inv n st \<Longrightarrow> i < vs_zones_size st \<Longrightarrow> zone_full (vs_zone st i)"
  by (simp add: vs_inv_def)

lemma pages_avail:
  assumes inv: "vs_inv n st" and i: "i < vs_zones_size st" and v: "block_valid p k (vs_zone st i)"
  shows "block_at p k (vs_zone st i) \<subseteq> zone_avail (vs_zone st i) \<longleftrightarrow> pages_at p k \<subseteq> vs_avail st"
    "block_at p k (vs_zone st i) \<inter> zone_avail (vs_zone st i) = {} \<longleftrightarrow> pages_at p k \<inter> vs_avail st = {}"
proof -
  have full: "zone_full (vs_zone st i)" by (rule vs_zone_full [OF inv i])
  have geo: "zone_geometry (vs_zones st ! i) (vs_table st)"
    using zone_full_pools [OF full] by (simp add: zone_inv_def vs_zone_def)
  note vp = valid_pages [OF full v, unfolded vs_zone_def fst_conv, folded vs_zone_def]
  have av: "q \<in> vs_avail st \<longleftrightarrow> frame_of (vs_zones st ! i) q \<in> zone_avail (vs_zone st i)"
    if "in_zone (vs_zones st ! i) q" for q
    using that i zone_unique [OF inv _ i] by (auto simp: vs_avail_def)
  have pg: "\<exists>q. in_zone (vs_zones st ! i) q \<and> frame_of (vs_zones st ! i) q = f"
    if "f \<in> block_at p k (vs_zone st i)" for f
  proof -
    have "zn_first (vs_zones st ! i) \<le> f" "f < zn_last (vs_zones st ! i)"
      using that v in_zone_frame(1) [OF geo, of p]
      by (auto simp: block_at_def block_valid_def frames_def vs_zone_def)
    from in_zone_frame(2) [OF geo this] show ?thesis by blast
  qed
  show "block_at p k (vs_zone st i) \<subseteq> zone_avail (vs_zone st i) \<longleftrightarrow> pages_at p k \<subseteq> vs_avail st"
    using vp av pg by blast
  have "pages_at p k \<inter> vs_avail st = {}" if d: "block_at p k (vs_zone st i) \<inter> zone_avail (vs_zone st i) = {}"
  proof (rule equals0I)
    fix q assume q: "q \<in> pages_at p k \<inter> vs_avail st"
    then have "in_zone (vs_zones st ! i) q" "frame_of (vs_zones st ! i) q \<in> block_at p k (vs_zone st i)"
      using vp [of q] by auto
    moreover from this av q have "frame_of (vs_zones st ! i) q \<in> zone_avail (vs_zone st i)" by auto
    ultimately show False using d by auto
  qed
  moreover have "block_at p k (vs_zone st i) \<inter> zone_avail (vs_zone st i) = {}" if d: "pages_at p k \<inter> vs_avail st = {}"
  proof (rule equals0I)
    fix f assume f: "f \<in> block_at p k (vs_zone st i) \<inter> zone_avail (vs_zone st i)"
    then obtain q where q: "in_zone (vs_zones st ! i) q" "frame_of (vs_zones st ! i) q = f" using pg by blast
    then have "q \<in> pages_at p k" "q \<in> vs_avail st" using vp [of q] av [of q] f by auto
    then show False using d by auto
  qed
  ultimately show "block_at p k (vs_zone st i) \<inter> zone_avail (vs_zone st i) = {} \<longleftrightarrow> pages_at p k \<inter> vs_avail st = {}"
    by blast
qed

lemma block_referenced_loop:
  "p + m \<le> length ps \<Longrightarrow> vm_page_block_referenced_loop ps p m = Some (\<exists>q\<in>{p..<p + m}. vp_nr_refs (ps ! q) \<noteq> 0)"
proof (induction m arbitrary: p)
  case (Suc m)
  have r: "{p..<p + Suc m} = insert p {Suc p..<Suc p + m}" by auto
  have ih: "vm_page_block_referenced_loop ps (Suc p) m = Some (\<exists>q\<in>{Suc p..<Suc p + m}. vp_nr_refs (ps ! q) \<noteq> 0)"
    by (rule Suc.IH) (use Suc.prems in simp)
  have "vm_page_block_referenced_loop ps p (Suc m)
      = (if vp_nr_refs (ps ! p) \<noteq> 0 then Some True else vm_page_block_referenced_loop ps (Suc p) m)"
    using Suc.prems by (simp add: vm_page_referenced_def)
  then show ?case
    unfolding r ih by (cases "vp_nr_refs (ps ! p) = 0") (simp_all only: bex_simps if_True if_False simp_thms)
qed simp

lemma block_referenced_spec:
  assumes "p + 2 ^ k \<le> length ps"
  shows "vm_page_block_referenced ps p k = Some (\<exists>q\<in>pages_at p k. vp_nr_refs (ps ! q) \<noteq> 0)"
  unfolding vm_page_block_referenced_def pages_at_def by (rule block_referenced_loop [OF assms])

lemma valid_length:
  assumes "vs_inv n st" "i < vs_zones_size st" "block_valid p k (vs_zone st i)"
  shows "p + 2 ^ k \<le> length (vs_table st)" "p < length (vs_table st)"
proof -
  have geo: "zone_geometry (vs_zones st ! i) (vs_table st)"
    using zone_full_pools [OF vs_zone_full [OF assms(1,2)]] by (simp add: zone_inv_def vs_zone_def)
  have v: "in_zone (vs_zones st ! i) p" "frame_of (vs_zones st ! i) p + 2 ^ k \<le> zn_last (vs_zones st ! i)"
    using assms(3) by (auto simp: block_valid_def vs_zone_def)
  then show "p + 2 ^ k \<le> length (vs_table st)"
    using geometry_facts(3,5,6) [OF geo] by (auto simp: frame_of_def in_zone_def)
  moreover have "p < p + 2 ^ k" by simp
  ultimately show "p < length (vs_table st)" by linarith
qed

lemma keep_refs:
  assumes "vs_keep st st'" "p < length (vs_table st)"
  shows "vp_nr_refs (vs_table st' ! p) = vp_nr_refs (vs_table st ! p)"
    "vp_zone_index (vs_table st' ! p) = vp_zone_index (vs_table st ! p)"
proof -
  obtain w t where "vs_table st' ! p = (vs_table st ! p)\<lparr>vp_order := w, vp_type := t\<rparr>"
    using assms unfolding vs_keep_def by blast
  then show "vp_nr_refs (vs_table st' ! p) = vp_nr_refs (vs_table st ! p)"
    "vp_zone_index (vs_table st' ! p) = vp_zone_index (vs_table st ! p)" by simp_all
qed

lemma vs_keep_valid:
  assumes "vs_keep st st'" "i < length (vs_zones st)"
  shows "block_valid p k (vs_zone st' i) = block_valid p k (vs_zone st i)"
  using assms by (simp add: vs_keep_def block_valid_def vs_zone_def)

definition alloc_result :: "nat \<Rightarrow> nat \<Rightarrow> u16 \<Rightarrow> vm_page_state \<Rightarrow> nat option \<Rightarrow> vm_page_state \<Rightarrow> bool" where
  "alloc_result i k type st r st' \<longleftrightarrow> (case r of
     None \<Rightarrow> vs_avail st' = vs_avail st
   | Some p \<Rightarrow> (\<exists>j\<le>i. block_valid p k (vs_zone st j)) \<and> pages_at p k \<subseteq> vs_avail st
       \<and> vs_avail st' = vs_avail st - pages_at p k
       \<and> (\<forall>q\<in>pages_at p k. vp_type (vs_table st' ! q) = type))"

lemma alloc_loop_spec:
  assumes "vs_inv n st" "cpu < n" "i < vs_zones_size st" "k < 11" "type \<noteq> VM_PAGE_FREE"
  shows "\<exists>r st'. vm_page_alloc_loop cpu i k type st = Some (r, st') \<and> vs_inv n st' \<and> vs_keep st st'
    \<and> alloc_result i k type st r st'"
  using assms
proof (induction i arbitrary: st rule: less_induct)
  case (less i)
  note inv = less.prems(1) and i = less.prems(3) and k = less.prems(4)
  have full: "zone_full (vs_zone st i)" by (rule vs_zone_full [OF inv i])
  have il: "i < length (vs_zones st)" using inv i by (simp add: vs_inv_def)
  have cpu: "cpu < length (zn_cpu_pools (fst (vs_zone st i)))"
    using less.prems(2) inv i by (simp add: vs_inv_def vs_zone_def)
  from zone_alloc_spec [OF full cpu k less.prems(5)] obtain r z ps where
    a: "vm_page_zone_alloc (vs_zone st i) cpu k type = Some (r, z, ps)" "zone_full (z, ps)"
      "zone_keep (vs_zone st i) (z, ps)"
    and c: "case r of None \<Rightarrow> zone_avail (z, ps) = zone_avail (vs_zone st i)
       | Some p \<Rightarrow> block_valid p k (vs_zone st i) \<and> block_at p k (vs_zone st i) \<subseteq> zone_avail (vs_zone st i)
           \<and> zone_avail (z, ps) = zone_avail (vs_zone st i) - block_at p k (vs_zone st i)
           \<and> (\<forall>q. in_zone (fst (vs_zone st i)) q \<and> frame_of (fst (vs_zone st i)) q \<in> block_at p k (vs_zone st i)
                \<longrightarrow> vp_type (snd (z, ps) ! q) = type)" by force
  note sm = zone_keep_simps [OF a(3), unfolded vs_zone_def fst_conv snd_conv]
  define st1 where "st1 = st\<lparr>vs_zones := (vs_zones st)[i := z], vs_table := ps\<rparr>"
  have sub: "zone_avail (z, ps) \<subseteq> zone_avail (vs_zone st i)" using c by (auto split: option.splits)
  have refs: "vp_nr_refs (ps ! p) = 0" if p: "in_zone z p" "frame_of z p \<in> zone_avail (z, ps)" for p
  proof -
    have "p \<in> vs_avail st" using p sub i by (auto simp: vs_avail_def sm)
    moreover have "p < length (vs_table st)" using zone_range(1) [OF inv i] p(1) by (simp add: sm)
    then obtain w t where "ps ! p = (vs_table st ! p)\<lparr>vp_order := w, vp_type := t\<rparr>"
      using a(3) unfolding zone_keep_def vs_zone_def fst_conv snd_conv by blast
    ultimately show ?thesis using inv by (simp add: vs_inv_def)
  qed
  note st1 = vs_zone_step [OF inv i a(2,3) st1_def refs]
  have av: "vs_avail st1 = {p \<in> vs_avail st. \<not> in_zone z p} \<union> {p. in_zone z p \<and> frame_of z p \<in> zone_avail (z, ps)}"
    by (rule st1(3))
  have avz: "q \<in> vs_avail st \<longleftrightarrow> frame_of z q \<in> zone_avail (vs_zone st i)" if "in_zone z q" for q
    using that i zone_unique [OF inv _ i] by (auto simp: vs_avail_def sm)
  have code: "vm_page_alloc_loop cpu i k type st = (case r of
       Some page \<Rightarrow> do {
         referenced \<leftarrow> vm_page_block_referenced (vs_table st1) page k;
         assert_that (\<not> referenced);
         Some (Some page, st1) }
     | None \<Rightarrow> if i = 0 then Some (None, st1) else vm_page_alloc_loop cpu (i - 1) k type st1)"
    using a(1) il by (subst vm_page_alloc_loop.simps) (cases r; simp add: vs_zone_def Let_def st1_def)
  show ?case
  proof (cases r)
    case (Some p)
    then have v: "block_valid p k (vs_zone st i)" "block_at p k (vs_zone st i) \<subseteq> zone_avail (vs_zone st i)"
      "zone_avail (z, ps) = zone_avail (vs_zone st i) - block_at p k (vs_zone st i)"
      "\<And>q. in_zone z q \<Longrightarrow> frame_of z q \<in> block_at p k (vs_zone st i) \<Longrightarrow> vp_type (ps ! q) = type"
      using c by (auto simp: vs_zone_def sm)
    note vp = valid_pages [OF full v(1), unfolded vs_zone_def fst_conv, folded vs_zone_def sm]
    have sub1: "pages_at p k \<subseteq> vs_avail st" using pages_avail(1) [OF inv i v(1)] v(2) by simp
    have av1: "vs_avail st1 = vs_avail st - pages_at p k"
      unfolding av v(3) using vp avz by (auto simp: sm)
    have len: "p + 2 ^ k \<le> length (vs_table st)" by (rule valid_length [OF inv i v(1)])
    have "vp_nr_refs (vs_table st1 ! q) = 0" if "q \<in> pages_at p k" for q
      using that sub1 inv keep_refs(1) [OF st1(2)] len by (auto simp: vs_inv_def pages_at_def)
    moreover have "p + 2 ^ k \<le> length (vs_table st1)" using len sm by (simp add: st1_def)
    ultimately have "vm_page_block_referenced (vs_table st1) p k = Some False"
      using block_referenced_spec by auto
    then have "vm_page_alloc_loop cpu i k type st = Some (Some p, st1)" using code Some by simp
    moreover have "\<forall>q\<in>pages_at p k. vp_type (vs_table st1 ! q) = type"
      using v(4) vp by (auto simp: st1_def sm)
    ultimately show ?thesis using st1(1,2) v(1) sub1 av1 by (auto simp: alloc_result_def)
  next
    case None
    then have za: "zone_avail (z, ps) = zone_avail (vs_zone st i)" using c by simp
    have av1: "vs_avail st1 = vs_avail st" unfolding av za using avz by auto
    show ?thesis
    proof (cases "i = 0")
      case True
      then show ?thesis using code None st1(1,2) av1 by (simp add: alloc_result_def)
    next
      case False
      then have "i - 1 < i" "i - 1 < vs_zones_size st1" using i by (auto simp: st1_def)
      from less.IH [OF this(1) st1(1) less.prems(2) this(2) k less.prems(5)] obtain r' st' where
        x: "vm_page_alloc_loop cpu (i - 1) k type st1 = Some (r', st')" "vs_inv n st'" "vs_keep st1 st'"
        "alloc_result (i - 1) k type st1 r' st'" by blast
      have "block_valid p k (vs_zone st1 j) = block_valid p k (vs_zone st j)" if j: "j \<le> i - 1" for p j
      proof (rule vs_keep_valid [OF st1(2)])
        show "j < length (vs_zones st)" using j il diff_le_self [of i 1] by linarith
      qed
      then have "alloc_result i k type st r' st'"
        using x(4) by (auto simp: alloc_result_def av1 split: option.splits) (metis diff_le_self le_trans)
      then show ?thesis using code None False x vs_keep_trans [OF st1(2) x(3)] by auto
    qed
  qed
qed


lemma select_zone:
  assumes "vs_inv n st" "selector < 4"
  shows "vm_page_select_alloc_zone st selector = Some (min (vs_zones_size st - 1) selector)"
proof -
  have "selector = 0 \<or> selector = 1 \<or> selector = 2 \<or> selector = 3" using assms(2) by auto
  then show ?thesis
    using assms(1) by (auto simp: vm_page_select_alloc_zone_def VM_PAGE_SEL_DMA_def VM_PAGE_SEL_DMA32_def
        VM_PAGE_SEL_DIRECTMAP_def VM_PAGE_SEL_HIGHMEM_def PMEM_ZONE_DMA_def PMEM_ZONE_DMA32_def
        PMEM_ZONE_DIRECTMAP_def PMEM_ZONE_HIGHMEM_def vs_inv_def)
qed

lemma vm_page_alloc_spec:
  assumes "vs_inv n st" "cpu < n" "selector < 4" "k < 11" "type \<noteq> VM_PAGE_FREE"
  shows "\<exists>r st'. vm_page_alloc st cpu k selector type = Some (r, st') \<and> vs_inv n st' \<and> vs_keep st st'
    \<and> alloc_result (min (vs_zones_size st - 1) selector) k type st r st'"
proof -
  have "min (vs_zones_size st - 1) selector < vs_zones_size st" using assms(1) by (auto simp: vs_inv_def)
  from alloc_loop_spec [OF assms(1,2) this assms(4,5)] show ?thesis
    using \<open>min (vs_zones_size st - 1) selector < vs_zones_size st\<close>
    by (simp add: vm_page_alloc_def select_zone [OF assms(1,3)])
qed

section \<open>Release\<close>

lemma vm_page_free_spec:
  assumes inv: "vs_inv n st" and cpu: "cpu < n" and i: "i < vs_zones_size st"
    and v: "block_valid p k (vs_zone st i)" and d: "pages_at p k \<inter> vs_avail st = {}"
    and refs: "\<forall>q\<in>pages_at p k. vp_nr_refs (vs_table st ! q) = 0"
  shows "\<exists>st'. vm_page_free st cpu p k = Some st' \<and> vs_inv n st' \<and> vs_keep st st'
    \<and> vs_avail st' = vs_avail st \<union> pages_at p k"
proof -
  have full: "zone_full (vs_zone st i)" by (rule vs_zone_full [OF inv i])
  have il: "i < length (vs_zones st)" "i < 4" using inv i by (auto simp: vs_inv_def PMEM_MAX_ZONES_def)
  have cpus: "cpu < length (zn_cpu_pools (fst (vs_zone st i)))"
    using cpu inv i by (simp add: vs_inv_def vs_zone_def)
  have dz: "block_at p k (vs_zone st i) \<inter> zone_avail (vs_zone st i) = {}"
    using d pages_avail(2) [OF inv i v] by simp
  from zone_free_spec [OF full cpus v dz] obtain z ps where
    a: "vm_page_zone_free (vs_zone st i) cpu p k = Some (z, ps)" "zone_full (z, ps)"
      "zone_keep (vs_zone st i) (z, ps)" "zone_avail (z, ps) = zone_avail (vs_zone st i) \<union> block_at p k (vs_zone st i)"
    by force
  note sm = zone_keep_simps [OF a(3), unfolded vs_zone_def fst_conv snd_conv]
  note vp = valid_pages [OF full v, unfolded vs_zone_def fst_conv, folded vs_zone_def]
  note len = valid_length [OF inv i v]
  have pz: "in_zone (vs_zones st ! i) p" using v by (simp add: block_valid_def vs_zone_def)
  have avz: "q \<in> vs_avail st \<longleftrightarrow> frame_of z q \<in> zone_avail (vs_zone st i)" if "in_zone z q" for q
    using that i zone_unique [OF inv _ i] by (auto simp: vs_avail_def sm)
  have refs': "vp_nr_refs (ps ! q) = 0" if q: "in_zone z q" "frame_of z q \<in> zone_avail (z, ps)" for q
  proof -
    have "q \<in> vs_avail st \<or> q \<in> pages_at p k" using q avz [of q] vp [of q] unfolding a(4) by (auto simp: sm)
    then have "vp_nr_refs (vs_table st ! q) = 0" using refs inv by (auto simp: vs_inv_def)
    moreover have "q < length (vs_table st)" using zone_range(1) [OF inv i] q(1) by (simp add: sm)
    then obtain w t where "ps ! q = (vs_table st ! q)\<lparr>vp_order := w, vp_type := t\<rparr>"
      using a(3) unfolding zone_keep_def vs_zone_def fst_conv snd_conv by blast
    ultimately show ?thesis by simp
  qed
  define st1 where "st1 = st\<lparr>vs_zones := (vs_zones st)[i := z], vs_table := ps\<rparr>"
  note st1 = vs_zone_step [OF inv i a(2,3) st1_def refs']
  have av1: "vs_avail st1 = {q \<in> vs_avail st. \<not> in_zone z q} \<union> {q. in_zone z q \<and> frame_of z q \<in> zone_avail (z, ps)}"
    by (rule st1(3))
  have "vs_avail st1 = vs_avail st \<union> pages_at p k"
    unfolding av1 a(4) using avz vp by (auto simp: sm)
  moreover have "vm_page_free st cpu p k = Some st1"
    using len zone_range(2) [OF inv i pz] il refs a(1) block_referenced_spec [OF len(1)]
    by (simp add: vm_page_free_def PMEM_MAX_ZONES_def vs_zone_def st1_def)
  ultimately show ?thesis using st1(1,2) by blast
qed

text \<open>A block that is held: it lies in a zone, aligned, and no page of it is referenced.\<close>

definition vs_valid :: "nat \<Rightarrow> nat \<Rightarrow> vm_page_state \<Rightarrow> bool" where
  "vs_valid p k st \<longleftrightarrow> (\<exists>i. i < vs_zones_size st \<and> i < length (vs_zones st) \<and> block_valid p k (vs_zone st i))
     \<and> p + 2 ^ k \<le> length (vs_table st) \<and> (\<forall>q\<in>pages_at p k. vp_nr_refs (vs_table st ! q) = 0)"

interpretation vm_pages: block_allocator 11 "\<lambda>(cpu, selector, type). cpu < n \<and> selector < 4 \<and> type \<noteq> VM_PAGE_FREE"
  "vs_inv n" vs_avail "\<lambda>p k st. pages_at p k" vs_valid vs_keep
  "\<lambda>(cpu, selector, type) k st. vm_page_alloc st cpu k selector type"
  "\<lambda>(cpu, selector, type) p k st. vm_page_free st cpu p k" for n
proof
  fix st :: vm_page_state and k :: nat and q :: "nat \<times> nat \<times> u16"
  assume inv: "vs_inv n st" and k: "k < 11"
    and ok: "case q of (cpu, selector, type) \<Rightarrow> cpu < n \<and> selector < 4 \<and> type \<noteq> VM_PAGE_FREE"
  obtain cpu selector type where q: "q = (cpu, selector, type)" by (metis prod_cases3)
  from vm_page_alloc_spec [OF inv _ _ k, of cpu selector type] ok obtain r st' where
    a: "vm_page_alloc st cpu k selector type = Some (r, st')" "vs_inv n st'" "vs_keep st st'"
      "alloc_result (min (vs_zones_size st - 1) selector) k type st r st'" by (auto simp: q)
  have "vs_valid p k st'" if r: "r = Some p" for p
  proof -
    from a(4) r obtain j where j: "j \<le> min (vs_zones_size st - 1) selector" "block_valid p k (vs_zone st j)"
      and sub: "pages_at p k \<subseteq> vs_avail st" by (auto simp: alloc_result_def)
    have jz: "j < vs_zones_size st" "j < length (vs_zones st)"
      using j(1) inv by (auto simp: vs_inv_def)
    have len: "p + 2 ^ k \<le> length (vs_table st)" by (rule valid_length(1) [OF inv jz(1) j(2)])
    have "vp_nr_refs (vs_table st' ! x) = 0" if "x \<in> pages_at p k" for x
      using that sub inv keep_refs(1) [OF a(3), of x] len by (auto simp: vs_inv_def pages_at_def)
    moreover have "block_valid p k (vs_zone st' j)" using vs_keep_valid [OF a(3) jz(2)] j(2) by simp
    ultimately show ?thesis using jz len a(3) by (auto simp: vs_valid_def vs_keep_def)
  qed
  then show "\<exists>r s'. (case q of (cpu, selector, type) \<Rightarrow> \<lambda>k st. vm_page_alloc st cpu k selector type) k st = Some (r, s')
      \<and> vs_inv n s' \<and> vs_keep st s' \<and> (case r of None \<Rightarrow> vs_avail s' = vs_avail st
      | Some p \<Rightarrow> vs_valid p k s' \<and> pages_at p k \<subseteq> vs_avail st \<and> vs_avail s' = vs_avail st - pages_at p k)"
    using a by (intro exI [of _ r] exI [of _ st']) (auto simp: q alloc_result_def split: option.splits)
next
  fix st :: vm_page_state and p k :: nat and q :: "nat \<times> nat \<times> u16"
  assume inv: "vs_inv n st" and v: "vs_valid p k st" and d: "pages_at p k \<inter> vs_avail st = {}"
    and ok: "case q of (cpu, selector, type) \<Rightarrow> cpu < n \<and> selector < 4 \<and> type \<noteq> VM_PAGE_FREE"
  obtain cpu selector type where q: "q = (cpu, selector, type)" by (metis prod_cases3)
  from v obtain i where "i < vs_zones_size st" "block_valid p k (vs_zone st i)"
    "\<forall>x\<in>pages_at p k. vp_nr_refs (vs_table st ! x) = 0" by (auto simp: vs_valid_def)
  from vm_page_free_spec [OF inv _ this(1,2) d this(3), of cpu] ok
  show "\<exists>s'. (case q of (cpu, selector, type) \<Rightarrow> \<lambda>p k st. vm_page_free st cpu p k) p k st = Some s'
      \<and> vs_inv n s' \<and> vs_keep st s' \<and> vs_avail s' = vs_avail st \<union> pages_at p k"
    by (auto simp: q)
next
  fix st st' :: vm_page_state and p k :: nat
  assume keep: "vs_keep st st'"
  have "vp_nr_refs (vs_table st' ! x) = vp_nr_refs (vs_table st ! x)"
    if "x \<in> pages_at p k" "p + 2 ^ k \<le> length (vs_table st)" for x
    using that by (intro keep_refs [OF keep]) (auto simp: pages_at_def)
  moreover have "block_valid p k (vs_zone st' i) = block_valid p k (vs_zone st i)" if "i < length (vs_zones st)" for i
    by (rule vs_keep_valid [OF keep that])
  moreover have "vs_zones_size st' = vs_zones_size st" "length (vs_zones st') = length (vs_zones st)"
    "length (vs_table st') = length (vs_table st)" using keep by (simp_all add: vs_keep_def)
  ultimately show "pages_at p k = pages_at p k \<and> vs_valid p k st' = vs_valid p k st"
    by (auto simp: vs_valid_def)
qed

section \<open>References\<close>

lemma page_upd_Some: "p < length ps \<Longrightarrow> page_upd ps p f = Some (ps[p := f (ps ! p)])"
  by (simp add: page_upd_def)

lemma refs_update: "vp_nr_refs_update f pg = pg\<lparr>vp_nr_refs := f (vp_nr_refs pg)\<rparr>"
  by (cases pg) simp

text \<open>Changing the reference count of a page that is not available.\<close>

lemma vs_refs_step:
  assumes inv: "vs_inv n st" and p: "p \<notin> vs_avail st" "p < length (vs_table st)"
    and st': "st' = st\<lparr>vs_table := (vs_table st)[p := (vs_table st ! p)\<lparr>vp_nr_refs := r\<rparr>]\<rparr>"
  shows "vs_inv n st'" "vs_avail st' = vs_avail st"
    "block_valid q k (vs_zone st' i) = block_valid q k (vs_zone st i)"
proof -
  have same: "vp_order (vs_table st' ! q) = vp_order (vs_table st ! q)"
    "vp_phys_addr (vs_table st' ! q) = vp_phys_addr (vs_table st ! q)"
    "vp_type (vs_table st' ! q) = vp_type (vs_table st ! q)"
    "vp_zone_index (vs_table st' ! q) = vp_zone_index (vs_table st ! q)" for q
    using p(2) by (cases "q = p"; simp add: st')+
  have other: "q \<noteq> p \<Longrightarrow> vs_table st' ! q = vs_table st ! q" for q by (simp add: st')
  have zs: "vs_zones st' = vs_zones st" "vs_zones_size st' = vs_zones_size st"
    "length (vs_table st') = length (vs_table st)" by (simp_all add: st')
  have za: "zone_avail (vs_zone st' i) = zone_avail (vs_zone st i)" for i
    by (simp add: zone_avail_def buddy_avail_def vs_zone_def zs)
  then show av: "vs_avail st' = vs_avail st" by (simp add: vs_avail_def zs)
  have "zone_full (vs_zone st' i)" if "i < vs_zones_size st" for i
  proof -
    have full: "zone_full (vs_zone st i)" using inv that by (simp add: vs_inv_def)
    have "zone_inv (vs_zones st ! i, vs_table st')"
    proof (rule retyped_inv)
      show "zone_inv (vs_zones st ! i, vs_table st)" using zone_full_pools [OF full] by (simp add: vs_zone_def)
    qed (simp_all add: same zs)
    then show ?thesis
      using full za [of i] same by (simp add: zone_full_def zone_pool_inv_def zone_typed_def vs_zone_def zs buddy_avail_def)
  qed
  moreover have "vp_nr_refs (vs_table st' ! q) = 0" if "q \<in> vs_avail st" for q
    using inv that p(1) other [of q] by (cases "q = p") (auto simp: vs_inv_def)
  ultimately show "vs_inv n st'" using inv same by (simp add: vs_inv_def av zs)
  show "block_valid q k (vs_zone st' i) = block_valid q k (vs_zone st i)"
    by (simp add: block_valid_def vs_zone_def zs)
qed

lemma vm_page_unref_spec:
  assumes inv: "vs_inv n st" and cpu: "cpu < n" and i: "i < vs_zones_size st" and p: "in_zone (vs_zones st ! i) p"
    and a: "p \<notin> vs_avail st" and r: "vp_nr_refs (vs_table st ! p) \<noteq> 0"
  shows "\<exists>st'. vm_page_unref st cpu p = Some st' \<and> vs_inv n st'
    \<and> vs_avail st' = (if vp_nr_refs (vs_table st ! p) = 1 then insert p (vs_avail st) else vs_avail st)
    \<and> vp_nr_refs (vs_table st' ! p) = vp_nr_refs (vs_table st ! p) - 1"
proof -
  have len: "p < length (vs_table st)" by (rule zone_range(1) [OF inv i p])
  define st1 where "st1 = st\<lparr>vs_table := (vs_table st)[p := (vs_table st ! p)\<lparr>vp_nr_refs := vp_nr_refs (vs_table st ! p) - 1\<rparr>]\<rparr>"
  note s1 = vs_refs_step [OF inv a len st1_def]
  have code: "vm_page_unref st cpu p = (if vp_nr_refs (vs_table st ! p) = 1 then vm_page_free st1 cpu p 0 else Some st1)"
    using len r by (simp add: vm_page_unref_def page_upd_Some st1_def refs_update [of "\<lambda>n. n - 1"])
  have refs1: "vp_nr_refs (vs_table st1 ! p) = vp_nr_refs (vs_table st ! p) - 1" using len by (simp add: st1_def)
  show ?thesis
  proof (cases "vp_nr_refs (vs_table st ! p) = 1")
    case False
    then show ?thesis using code s1(1,2) refs1 by simp
  next
    case True
    have pg: "pages_at p 0 = {p}" by (auto simp: pages_at_def)
    have "block_valid p 0 (vs_zone st i)"
      using p zone_full_pools [OF vs_zone_full [OF inv i]] by (intro block_valid_0) (simp_all add: vs_zone_def)
    then have "block_valid p 0 (vs_zone st1 i)" by (simp add: s1(3))
    moreover have "i < vs_zones_size st1" using i by (simp add: st1_def)
    ultimately have "\<exists>st'. vm_page_free st1 cpu p 0 = Some st' \<and> vs_inv n st' \<and> vs_keep st1 st'
        \<and> vs_avail st' = vs_avail st1 \<union> pages_at p 0"
      using True a refs1 by (intro vm_page_free_spec [OF s1(1) cpu]) (auto simp: pg s1(2))
    then obtain st' where f: "vm_page_free st1 cpu p 0 = Some st'" "vs_inv n st'" "vs_keep st1 st'"
        "vs_avail st' = insert p (vs_avail st)" by (auto simp: pg s1(2))
    moreover have "vp_nr_refs (vs_table st' ! p) = vp_nr_refs (vs_table st ! p) - 1"
      using keep_refs(1) [OF f(3), of p] len refs1 by (simp add: st1_def)
    ultimately show ?thesis using code True by simp
  qed
qed

end
