(* ===== verification/Vm_page_Setup.thy ===== *)
theory Vm_page_Setup
  imports Vm_page_Module
begin

text \<open>
  Boot: \<open>vm_page_setup\<close> takes the page table from the heap of a zone, initialises the
  zones and releases the rest of the heaps. From a table of loaded zones it establishes the
  invariant of the module, and the available frames are the heaps less the page table.
\<close>

declare PAGE_SIZE_def [simp] PAGE_SHIFT_def [simp]

section \<open>Initialising a zone\<close>

definition fresh_page :: "u16 \<Rightarrow> u64 \<Rightarrow> vm_page" where
  "fresh_page i pa = \<lparr>vp_type = VM_PAGE_RESERVED, vp_zone_index = i, vp_order = VM_PAGE_ORDER_UNLISTED,
      vp_phys_addr = pa, vp_priv = 0, vp_nr_refs = 0, vp_object = None, vp_offset = 0\<rparr>"

lemma btop_index: "unat (vm_page_btop x) = unat x div 4096"
  by (simp add: vm_page_btop_def unat_drop_bit_eq drop_bit_eq_div unat_div)

lemma unat_page_step:
  assumes "unat pa = 4096 * f" "f < 2 ^ 52 - 1"
  shows "unat (pa + PAGE_SIZE) = 4096 * Suc f"
  using assms by (subst unat_add_lt) simp_all

lemma init_loop_spec:
  assumes "unat start = 4096 * s" "unat end = 4096 * e" "unat pa = 4096 * f" "s \<le> f" "f \<le> e" "e < 2 ^ 52"
    and "pages + (e - s) \<le> length ps"
  shows "\<exists>ps'. vm_page_zone_init_loop start end pages i pa ps = Some ps' \<and> length ps' = length ps
    \<and> (\<forall>p<length ps. if pages + (f - s) \<le> p \<and> p < pages + (e - s)
         then \<exists>pa. ps' ! p = fresh_page i pa \<and> unat pa = 4096 * (s + (p - pages)) else ps' ! p = ps ! p)"
  using assms
proof (induction "e - f" arbitrary: f pa ps)
  case 0
  then have "\<not> pa < end" "f = e" by (auto simp: word_less_unat)
  then show ?case
    by (auto simp: vm_page_zone_init_loop.simps [of _ _ _ _ pa] simp del: add_diff_assoc Nat.add_diff_assoc)
next
  case (Suc n)
  have fe: "f < e" using Suc(2) by linarith
  then have lt: "pa < end" using Suc.prems by (simp add: word_less_unat)
  have "unat (pa - start) = 4096 * (f - s)"
    using Suc.prems by (subst unat_sub_le) (auto simp: word_le_unat diff_mult_distrib2)
  then have idx: "pages + unat (vm_page_btop (pa - start)) = pages + (f - s)" by (simp add: btop_index)
  let ?p = "pages + (f - s)"
  have pl: "?p < length ps" using Suc.prems fe by simp
  define ps1 where "ps1 = ps[?p := fresh_page i pa]"
  have step: "vm_page_zone_init_loop start end pages i pa ps = vm_page_zone_init_loop start end pages i (pa + PAGE_SIZE) ps1"
    using lt pl by (subst vm_page_zone_init_loop.simps)
      (simp add: idx vm_page_init_def page_upd_Some ps1_def fresh_page_def del: PAGE_SIZE_def)
  have pa1: "unat (pa + PAGE_SIZE) = 4096 * Suc f"
    using Suc.prems fe by (intro unat_page_step) auto
  have "\<exists>ps'. vm_page_zone_init_loop start end pages i (pa + PAGE_SIZE) ps1 = Some ps' \<and> length ps' = length ps1
    \<and> (\<forall>p<length ps1. if pages + (Suc f - s) \<le> p \<and> p < pages + (e - s)
         then \<exists>pa. ps' ! p = fresh_page i pa \<and> unat pa = 4096 * (s + (p - pages)) else ps' ! p = ps1 ! p)"
    by (rule Suc(1)) (use Suc.prems Suc(2) fe pa1 in \<open>simp_all add: ps1_def del: PAGE_SIZE_def\<close>)
  then obtain ps' where ps': "vm_page_zone_init_loop start end pages i (pa + PAGE_SIZE) ps1 = Some ps'"
    "length ps' = length ps"
    "\<forall>p<length ps. if pages + (Suc f - s) \<le> p \<and> p < pages + (e - s)
         then \<exists>pa. ps' ! p = fresh_page i pa \<and> unat pa = 4096 * (s + (p - pages)) else ps' ! p = ps1 ! p"
    by (auto simp: ps1_def)
  have main: "if ?p \<le> p \<and> p < pages + (e - s)
         then \<exists>pa. ps' ! p = fresh_page i pa \<and> unat pa = 4096 * (s + (p - pages)) else ps' ! p = ps ! p"
    if p: "p < length ps" for p
  proof (cases "p = ?p")
    case True
    then have "\<not> pages + (Suc f - s) \<le> p" using Suc.prems(4) by linarith
    then have "ps' ! p = ps1 ! p" using ps'(3) [rule_format, OF p] by (simp only: simp_thms if_False)
    then have "ps' ! p = fresh_page i pa" using True p by (simp add: ps1_def)
    moreover have "unat pa = 4096 * (s + (p - pages))" using True Suc.prems by simp
    ultimately show ?thesis using True fe Suc.prems(4) by auto
  next
    case False
    then have "(pages + (Suc f - s) \<le> p) = (?p \<le> p)" "ps1 ! p = ps ! p"
      using Suc.prems(4) by (auto simp: ps1_def)
    then show ?thesis using ps'(3) [rule_format, OF p] by (simp only:)
  qed
  show ?case
  proof (intro exI [of _ ps'] conjI allI)
    fix p
    from main [of p] show "p < length ps \<longrightarrow> (if ?p \<le> p \<and> p < pages + (e - s)
         then \<exists>pa. ps' ! p = fresh_page i pa \<and> unat pa = 4096 * (s + (p - pages)) else ps' ! p = ps ! p)"
      by (rule impI)
  qed (simp_all only: step ps'(1,2))
qed

lemma zone_init_spec:
  assumes addr: "unat start = 4096 * s" "unat end = 4096 * e" "s \<le> e" and room: "pages + (e - s) \<le> length ps"
    and i: "i < 4"
  shows "\<exists>z ps'. vm_page_zone_init zone i start end pages ps = Some (z, ps')
    \<and> zone_full (z, ps') \<and> zone_avail (z, ps') = {}
    \<and> length (zn_cpu_pools z) = length (zn_cpu_pools zone) \<and> zn_start z = start \<and> zn_end z = end
    \<and> zn_pages z = pages \<and> zn_pages_end z = pages + (e - s) \<and> zn_first z = s \<and> zn_last z = e
    \<and> length ps' = length ps
    \<and> (\<forall>p<length ps. if pages \<le> p \<and> p < pages + (e - s)
         then unat (vp_zone_index (ps' ! p)) = i \<and> vp_nr_refs (ps' ! p) = 0 \<and> vp_type (ps' ! p) = VM_PAGE_RESERVED
         else ps' ! p = ps ! p)"
proof -
  have e52: "e < 2 ^ 52" using addr(2) unat_lt_64 [of "end"] by simp
  from init_loop_spec [OF addr(1,2,1) order_refl addr(3) e52 room, of "of_nat i"] obtain ps' where
    l: "vm_page_zone_init_loop start end pages (of_nat i) start ps = Some ps'" "length ps' = length ps"
    "\<forall>p<length ps. if pages \<le> p \<and> p < pages + (e - s)
         then \<exists>pa. ps' ! p = fresh_page (of_nat i) pa \<and> unat pa = 4096 * (s + (p - pages)) else ps' ! p = ps ! p"
    by auto
  define pool where "pool = vm_page_cpu_pool_init (vm_page_zone_compute_pool_size (zone\<lparr>zn_start := start, zn_end := end\<rparr>))"
  define z where "z = zone\<lparr>zn_start := start, zn_end := end,
      zn_cpu_pools := replicate (length (zn_cpu_pools zone)) pool, zn_pages := pages,
      zn_pages_end := pages + unat (vm_page_btop (end - start)),
      zn_free_lists := replicate 11 vm_page_free_list_init, zn_nr_free_pages := 0\<rparr>"
  have code: "vm_page_zone_init zone i start end pages ps = Some (z, ps')"
    using l(1) by (simp add: vm_page_zone_init_def z_def pool_def Let_def vm_page_zone_size_def)
  have "unat (end - start) = 4096 * (e - s)"
    using addr by (subst unat_sub_le) (auto simp: word_le_unat diff_mult_distrib2)
  then have np: "unat (vm_page_btop (end - start)) = e - s" by (simp add: btop_index)
  have first: "zn_first z = s" "zn_last z = e" using addr by (simp_all add: zn_first_def zn_last_def z_def)
  have inz: "in_zone z p \<longleftrightarrow> pages \<le> p \<and> p < pages + (e - s)" for p by (simp add: in_zone_def z_def np)
  have page: "\<exists>pa. ps' ! p = fresh_page (of_nat i) pa \<and> unat pa = 4096 * (s + (p - pages))"
    if p: "pages \<le> p \<and> p < pages + (e - s)" for p
  proof -
    have "p < length ps" using p room by linarith
    from l(3) [rule_format, OF this] show ?thesis by (simp only: p if_True simp_thms)
  qed
  have pg: "unat (vp_zone_index (ps' ! p)) = i" "vp_nr_refs (ps' ! p) = 0" "vp_type (ps' ! p) = VM_PAGE_RESERVED"
    "vp_order (ps' ! p) = VM_PAGE_ORDER_UNLISTED" "unat (vp_phys_addr (ps' ! p)) = 4096 * (s + (p - pages))"
    if "pages \<le> p \<and> p < pages + (e - s)" for p
    using page [OF that] i by (auto simp: fresh_page_def unat_of_nat_lt)
  have blk: "zn_blocks z k = []" if "k < 11" for k
    using that by (simp add: zn_blocks_def z_def vm_page_free_list_init_def)
  have zb: "zone_blocks z = {}" using blk by (auto simp: zone_blocks_def)
  have "zone_geometry z ps'"
    using addr room pg l(2) by (auto simp: zone_geometry_def inz first frame_of_def)
      (auto simp: z_def np word_le_unat)
  moreover have "zone_lists z ps'"
    using blk pg by (auto simp: zone_lists_def inz) (auto simp: z_def vm_page_free_list_init_def)
  ultimately have zi: "zone_inv (z, ps')"
    by (simp add: zone_inv_def zb buddy_inv_def separate_def merged_def cover_def) (simp add: z_def)
  have "0 < vm_page_zone_compute_pool_size (zone\<lparr>zn_start := start, zn_end := end\<rparr>)"
  proof -
    have pos: "0 < uint x" if "x \<noteq> 0" for x :: u64
      using that uint_0_iff [of x] by (simp add: order.strict_iff_order)
    then show ?thesis by (simp add: vm_page_zone_compute_pool_size_def Let_def VM_PAGE_CPU_POOL_MAX_SIZE_def)
  qed
  then have "pool_ok pool"
    by (simp add: pool_ok_def pool_def vm_page_cpu_pool_init_def VM_PAGE_CPU_POOL_TRANSFER_RATIO_def)
  moreover have pools: "cp_pages pool = []" by (simp add: pool_def vm_page_cpu_pool_init_def)
  moreover have zp: "set (zn_cpu_pools z) \<subseteq> {pool}" by (auto simp: z_def)
  moreover have pd: "pooled z = []" using zp pools by fastforce
  ultimately have zpi: "zone_pool_inv (z, ps')" using zi unfolding zone_pool_inv_def fst_conv pd by auto
  have av: "zone_avail (z, ps') = {}" by (simp add: zone_avail_def pd buddy_avail_def zb cover_def)
  then have "zone_full (z, ps')"
    using zpi pg by (auto simp: zone_full_def zone_typed_def inz VM_PAGE_RESERVED_def VM_PAGE_FREE_def)
  moreover have "zn_start z = start" "zn_end z = end" "zn_pages z = pages" "zn_pages_end z = pages + (e - s)"
    "length (zn_cpu_pools z) = length (zn_cpu_pools zone)" by (simp_all add: z_def np)
  ultimately show ?thesis using code av first l(2,3) pg by (intro exI [of _ z] exI [of _ ps']) auto
qed


section \<open>Releasing the heap of a zone\<close>

lemma retyped_pool_inv:
  fixes t :: u16
  assumes inv: "zone_pool_inv (z, ps)" and p: "in_zone z p"
  defines "ps1 \<equiv> ps[p := (ps ! p)\<lparr>vp_type := t\<rparr>]"
  shows "page_upd ps p (vp_type_update (\<lambda>_. t)) = Some ps1" "zone_pool_inv (z, ps1)"
    "zone_avail (z, ps1) = zone_avail (z, ps)" "zone_keep (z, ps) (z, ps1)"
    "i < length ps \<Longrightarrow> vp_type (ps1 ! i) = (if i = p then t else vp_type (ps ! i))"
proof -
  have zi: "zone_inv (z, ps)" using inv by (simp add: zone_pool_inv_def)
  then have len: "p < length ps" using in_zone_frame(1) [of z ps, OF _ p] by (simp add: zone_inv_def)
  show "page_upd ps p (vp_type_update (\<lambda>_. t)) = Some ps1" using len by (simp add: page_upd_Some ps1_def)
  have ba: "buddy_avail (z, ps1) = buddy_avail (z, ps)" by (simp add: buddy_avail_def)
  then show "zone_avail (z, ps1) = zone_avail (z, ps)" by (simp add: zone_avail_def)
  have at: "ps1 ! i = (ps ! i)\<lparr>vp_order := vp_order (ps ! i), vp_type := if i = p then t else vp_type (ps ! i)\<rparr>"
    if "i < length ps" for i using that by (auto simp: ps1_def)
  then show "i < length ps \<Longrightarrow> vp_type (ps1 ! i) = (if i = p then t else vp_type (ps ! i))" by simp
  have "zone_inv (z, ps1)" by (rule retyped_inv [OF zi]) (simp_all add: at, simp add: ps1_def)
  then show "zone_pool_inv (z, ps1)" using inv by (simp add: zone_pool_inv_def ba)
  show "zone_keep (z, ps) (z, ps1)"
    unfolding zone_keep_def fst_conv snd_conv
  proof (intro conjI allI impI)
    fix i assume i: "i < length ps"
    show "\<exists>w t. ps1 ! i = (ps ! i)\<lparr>vp_order := w, vp_type := t\<rparr>" using at [OF i] by blast
    assume "\<not> in_zone z i"
    then show "ps1 ! i = ps ! i" using p by (cases "i = p") (auto simp: ps1_def)
  qed (simp_all add: ps1_def)
qed

lemma release_spec:
  assumes "zone_pool_inv (z, ps)" "\<forall>p\<in>{page..<page + n}. in_zone z p \<and> frame_of z p \<notin> zone_avail (z, ps)"
  shows "\<exists>z' ps'. vm_page_setup_release page n (z, ps) = Some (z', ps') \<and> zone_pool_inv (z', ps')
    \<and> zone_keep (z, ps) (z', ps') \<and> zone_avail (z', ps') = zone_avail (z, ps) \<union> frame_of z ` {page..<page + n}
    \<and> (\<forall>i<length ps. vp_type (ps' ! i) = (if page \<le> i \<and> i < page + n then VM_PAGE_FREE else vp_type (ps ! i)))"
  using assms
proof (induction n arbitrary: page z ps)
  case 0
  have "zone_keep (z, ps) (z, ps)" by (rule preserved_keep) simp
  then show ?case using 0 by auto
next
  case (Suc n)
  have pz: "in_zone z page" "frame_of z page \<notin> zone_avail (z, ps)" using Suc.prems(2) by auto
  define ps1 where "ps1 = ps[page := (ps ! page)\<lparr>vp_type := VM_PAGE_FREE\<rparr>]"
  note r = retyped_pool_inv [where t = VM_PAGE_FREE, OF Suc.prems(1) pz(1), folded ps1_def]
  have "zone_inv (z, ps1)" using r(2) by (simp add: zone_pool_inv_def)
  then have v: "block_valid page 0 (z, ps1)" using pz(1) by (intro block_valid_0) auto
  have "block_at page 0 (z, ps1) \<inter> zone_avail (z, ps1) = {}" using pz(2) by (simp add: block_at_0 r(3))
  from buddy_put_spec [OF r(2) v this] obtain z2 ps2 where
    f: "vm_page_zone_free_to_buddy (z, ps1) page 0 = Some (z2, ps2)" "zone_pool_inv (z2, ps2)"
      "zone_keep (z, ps1) (z2, ps2)" "\<forall>i<length ps1. vp_type (ps2 ! i) = vp_type (ps1 ! i)"
      "zone_avail (z2, ps2) = insert (frame_of z page) (zone_avail (z, ps))"
    by (auto simp: block_at_0 r(3))
  have k: "zone_keep (z, ps) (z2, ps2)" by (rule zone_keep_trans [OF r(4) f(3)])
  note sm = zone_keep_simps [OF k, simplified]
  have "\<forall>p\<in>{Suc page..<Suc page + n}. in_zone z2 p \<and> frame_of z2 p \<notin> zone_avail (z2, ps2)"
    using Suc.prems(2) frame_of_inj [OF _ pz(1)] by (auto simp: sm f(5))
  from Suc.IH [OF f(2) this] obtain z' ps' where
    x: "vm_page_setup_release (Suc page) n (z2, ps2) = Some (z', ps')" "zone_pool_inv (z', ps')"
    "zone_keep (z2, ps2) (z', ps')" "zone_avail (z', ps') = zone_avail (z2, ps2) \<union> frame_of z2 ` {Suc page..<Suc page + n}"
    "\<forall>i<length ps2. vp_type (ps' ! i) = (if Suc page \<le> i \<and> i < Suc page + n then VM_PAGE_FREE else vp_type (ps2 ! i))"
    by blast
  have range: "{page..<page + Suc n} = insert page {Suc page..<Suc page + n}" by auto
  have "zone_avail (z', ps') = zone_avail (z, ps) \<union> frame_of z ` {page..<page + Suc n}"
    unfolding x(4) f(5) range by (auto simp: sm)
  moreover have "vp_type (ps' ! i) = (if page \<le> i \<and> i < page + Suc n then VM_PAGE_FREE else vp_type (ps ! i))"
    if i: "i < length ps" for i
  proof -
    have "vp_type (ps2 ! i) = (if i = page then VM_PAGE_FREE else vp_type (ps ! i))"
      using f(4) r(5) i by (simp add: ps1_def)
    then show ?thesis using x(5) i sm(5) by auto
  qed
  ultimately show ?case using r(1) f(1) x zone_keep_trans [OF k x(3)] by auto
qed

section \<open>The boot zones\<close>

definition bz_first :: "vm_page_boot_zone \<Rightarrow> nat" where "bz_first bz = unat (bz_start bz) div 4096"
definition bz_last :: "vm_page_boot_zone \<Rightarrow> nat" where "bz_last bz = unat (bz_end bz) div 4096"

definition bz_heap :: "vm_page_boot_zone \<Rightarrow> nat set" where
  "bz_heap bz = {unat (bz_avail_start bz) div 4096..<unat (bz_avail_end bz) div 4096}"

definition boot_zone_ok :: "vm_page_boot_zone \<Rightarrow> bool" where
  "boot_zone_ok bz \<longleftrightarrow> 4096 dvd unat (bz_start bz) \<and> 4096 dvd unat (bz_end bz) \<and> bz_start bz < bz_end bz
     \<and> (if bz_heap_present bz then 4096 dvd unat (bz_avail_start bz) \<and> 4096 dvd unat (bz_avail_end bz)
          \<and> bz_start bz \<le> bz_avail_start bz \<and> bz_avail_start bz \<le> bz_avail_end bz \<and> bz_avail_end bz \<le> bz_end bz
        else bz_avail_start bz = 0 \<and> bz_avail_end bz = 0)"

lemma boot_zone_facts:
  assumes "boot_zone_ok bz"
  shows "unat (bz_start bz) = 4096 * bz_first bz" "unat (bz_end bz) = 4096 * bz_last bz"
    "bz_first bz \<le> bz_last bz" "bz_heap bz \<subseteq> {bz_first bz..<bz_last bz}" "bz_last bz < 2 ^ 52"
proof -
  show e: "unat (bz_start bz) = 4096 * bz_first bz" "unat (bz_end bz) = 4096 * bz_last bz"
    using assms by (auto simp: boot_zone_ok_def bz_first_def bz_last_def)
  show "bz_first bz \<le> bz_last bz" using assms e by (auto simp: boot_zone_ok_def word_less_unat)
  show "bz_heap bz \<subseteq> {bz_first bz..<bz_last bz}"
  proof (cases "bz_heap_present bz")
    case True
    then have "unat (bz_start bz) \<le> unat (bz_avail_start bz)" "unat (bz_avail_end bz) \<le> unat (bz_end bz)"
      using assms by (auto simp: boot_zone_ok_def word_le_unat)
    then have "bz_first bz \<le> unat (bz_avail_start bz) div 4096" "unat (bz_avail_end bz) div 4096 \<le> bz_last bz"
      by (auto simp: bz_first_def bz_last_def intro: div_le_mono)
    then show ?thesis by (auto simp: bz_heap_def)
  next
    case False
    then show ?thesis using assms by (simp add: boot_zone_ok_def bz_heap_def)
  qed
  show "bz_last bz < 2 ^ 52" using unat_lt_64 [of "bz_end bz"] e(2) by simp
qed

definition boot_offset :: "vm_page_state \<Rightarrow> nat \<Rightarrow> nat" where
  "boot_offset st i = (\<Sum>j<i. bz_last (vs_boot_zones st ! j) - bz_first (vs_boot_zones st ! j))"

text \<open>The zones below \<open>j\<close> are set up.\<close>

definition vs_part :: "nat \<Rightarrow> nat \<Rightarrow> vm_page_state \<Rightarrow> bool" where
  "vs_part n j st \<longleftrightarrow> length (vs_zones st) = 4 \<and> length (vs_boot_zones st) = 4 \<and> vs_zones_size st \<le> 4
     \<and> boot_offset st (vs_zones_size st) \<le> length (vs_table st)
     \<and> (\<forall>i<4. length (zn_cpu_pools (vs_zones st ! i)) = n)
     \<and> (\<forall>i<vs_zones_size st. boot_zone_ok (vs_boot_zones st ! i))
     \<and> (\<forall>i<j. zone_full (vs_zone st i) \<and> zone_avail (vs_zone st i) = bz_heap (vs_boot_zones st ! i)
         \<and> zn_start (vs_zones st ! i) = bz_start (vs_boot_zones st ! i)
         \<and> zn_end (vs_zones st ! i) = bz_end (vs_boot_zones st ! i)
         \<and> zn_pages (vs_zones st ! i) = boot_offset st i \<and> zn_pages_end (vs_zones st ! i) = boot_offset st (Suc i)
         \<and> (\<forall>p. in_zone (vs_zones st ! i) p \<longrightarrow> unat (vp_zone_index (vs_table st ! p)) = i
              \<and> vp_nr_refs (vs_table st ! p) = 0 \<and> vp_type (vs_table st ! p) \<in> {VM_PAGE_FREE, VM_PAGE_RESERVED}))"

lemma boot_offset_mono: "i \<le> j \<Longrightarrow> boot_offset st i \<le> boot_offset st j"
  unfolding boot_offset_def by (intro sum_mono2) auto

lemma setup_zone_spec:
  assumes part: "vs_part n j st" and j: "j < vs_zones_size st"
  shows "\<exists>st'. vm_page_setup_zone st j (boot_offset st j) = Some (boot_offset st (Suc j), st')
    \<and> vs_part n (Suc j) st' \<and> vs_boot_zones st' = vs_boot_zones st \<and> vs_zones_size st' = vs_zones_size st
    \<and> length (vs_table st') = length (vs_table st)"
proof -
  let ?bz = "vs_boot_zones st ! j" and ?zone = "vs_zones st ! j"
  have j4: "j < 4" using part j by (auto simp: vs_part_def)
  have ok: "boot_zone_ok ?bz" using part j by (simp add: vs_part_def)
  note bf = boot_zone_facts [OF ok]
  have off: "boot_offset st (Suc j) = boot_offset st j + (bz_last ?bz - bz_first ?bz)" by (simp add: boot_offset_def)
  have room: "boot_offset st j + (bz_last ?bz - bz_first ?bz) \<le> length (vs_table st)"
    using boot_offset_mono [of "Suc j" "vs_zones_size st" st] j part off by (simp add: vs_part_def)
  from zone_init_spec [OF bf(1-3) room j4, of ?zone] obtain z ps where
    zi: "vm_page_zone_init ?zone j (bz_start ?bz) (bz_end ?bz) (boot_offset st j) (vs_table st) = Some (z, ps)"
    "zone_full (z, ps)" "zone_avail (z, ps) = {}" "length (zn_cpu_pools z) = length (zn_cpu_pools ?zone)"
    "zn_start z = bz_start ?bz" "zn_end z = bz_end ?bz" "zn_pages z = boot_offset st j"
    "zn_pages_end z = boot_offset st (Suc j)" "zn_first z = bz_first ?bz" "zn_last z = bz_last ?bz"
    "length ps = length (vs_table st)"
    "\<forall>p<length (vs_table st). if boot_offset st j \<le> p \<and> p < boot_offset st (Suc j)
         then unat (vp_zone_index (ps ! p)) = j \<and> vp_nr_refs (ps ! p) = 0 \<and> vp_type (ps ! p) = VM_PAGE_RESERVED
         else ps ! p = vs_table st ! p" unfolding off by blast
  define page where "page = zn_pages z + unat (vm_page_btop (bz_avail_start ?bz - bz_start ?bz))"
  define last where "last = zn_pages z + unat (vm_page_btop (bz_avail_end ?bz - bz_start ?bz))"
  have geo: "zone_geometry z ps" using zone_full_pools [OF zi(2)] by (simp add: zone_inv_def)
  have rel: "(\<forall>p\<in>{page..<page + (last - page)}. in_zone z p) \<and> frame_of z ` {page..<page + (last - page)} = bz_heap ?bz"
  proof (cases "bz_heap_present ?bz")
    case True
    define a e where "a = unat (bz_avail_start ?bz) div 4096" and "e = unat (bz_avail_end ?bz) div 4096"
    have ae: "unat (bz_avail_start ?bz) = 4096 * a" "unat (bz_avail_end ?bz) = 4096 * e"
      using True ok by (auto simp: boot_zone_ok_def a_def e_def)
    have ord: "bz_first ?bz \<le> a" "a \<le> e" "e \<le> bz_last ?bz"
      using True ok bf(1,2) ae by (auto simp: boot_zone_ok_def word_le_unat)
    have "page = page_of z a" "last = page_of z e"
      using page_index [OF geo, of "bz_avail_start ?bz" a] page_index [OF geo, of "bz_avail_end ?bz" e] ae ord zi(5,9)
      by (simp_all add: page_def last_def)
    then have pl: "page = zn_pages z + (a - zn_first z)" "last = zn_pages z + (e - zn_first z)"
      by (simp_all add: page_of_def)
    have inz: "in_zone z p" if "p \<in> {page..<last}" for p
    proof -
      have "zn_pages_end z = zn_pages z + (zn_last z - zn_first z)" by (rule geometry_facts(6) [OF geo])
      then show ?thesis using that ord pl zi(9,10) by (auto simp: in_zone_def)
    qed
    have "frame_of z ` {page..<last} = {a..<e}"
    proof (rule set_eqI)
      fix f
      show "f \<in> frame_of z ` {page..<last} \<longleftrightarrow> f \<in> {a..<e}"
      proof
        assume "f \<in> frame_of z ` {page..<last}"
        then show "f \<in> {a..<e}" using pl ord zi(9) by (auto simp: frame_of_def)
      next
        assume f: "f \<in> {a..<e}"
        then have "f = frame_of z (zn_pages z + (f - zn_first z))" "zn_pages z + (f - zn_first z) \<in> {page..<last}"
          using pl ord zi(9) by (auto simp: frame_of_def)
        then show "f \<in> frame_of z ` {page..<last}" by blast
      qed
    qed
    moreover have "page + (last - page) = last" using pl ord by simp
    ultimately show ?thesis using inz by (simp add: bz_heap_def a_def e_def)
  next
    case False
    then show ?thesis using ok by (simp add: boot_zone_ok_def page_def last_def bz_heap_def)
  qed
  have zp: "zone_pool_inv (z, ps)" using zi(2) by (simp add: zone_full_def)
  have "\<forall>p\<in>{page..<page + (last - page)}. in_zone z p \<and> frame_of z p \<notin> zone_avail (z, ps)"
    using rel zi(3) by simp
  from release_spec [OF zp this] rel zi(3,11) obtain z' ps' where
    r: "vm_page_setup_release page (last - page) (z, ps) = Some (z', ps')" "zone_pool_inv (z', ps')"
    "zone_keep (z, ps) (z', ps')" "zone_avail (z', ps') = bz_heap ?bz"
    "\<forall>i<length ps. vp_type (ps' ! i) = (if page \<le> i \<and> i < page + (last - page) then VM_PAGE_FREE else vp_type (ps ! i))"
    by auto
  note sm = zone_keep_simps [OF r(3), simplified]
  define st' where "st' = st\<lparr>vs_zones := (vs_zones st)[j := z'], vs_table := ps'\<rparr>"
  have inz: "in_zone z p \<longleftrightarrow> boot_offset st j \<le> p \<and> p < boot_offset st (Suc j)" for p
    using zi(7,8) by (simp add: in_zone_def)
  have len: "p < length (vs_table st)" if "in_zone z p" for p using that inz room off by simp
  have new: "unat (vp_zone_index (ps' ! p)) = j \<and> vp_nr_refs (ps' ! p) = 0
      \<and> vp_type (ps' ! p) = (if page \<le> p \<and> p < page + (last - page) then VM_PAGE_FREE else VM_PAGE_RESERVED)"
    if p: "in_zone z p" for p
  proof -
    have pl: "p < length ps" using len [OF p] zi(11) by simp
    then obtain w t where "ps' ! p = (ps ! p)\<lparr>vp_order := w, vp_type := t\<rparr>"
      using r(3) unfolding zone_keep_def fst_conv snd_conv by blast
    moreover have "unat (vp_zone_index (ps ! p)) = j \<and> vp_nr_refs (ps ! p) = 0 \<and> vp_type (ps ! p) = VM_PAGE_RESERVED"
      using zi(12) [rule_format, OF len [OF p]] p unfolding inz by (simp only: if_True)
    moreover have "vp_type (ps' ! p) = (if page \<le> p \<and> p < page + (last - page) then VM_PAGE_FREE else vp_type (ps ! p))"
      using r(5) pl by blast
    ultimately show ?thesis by auto
  qed
  have old: "ps' ! p = vs_table st ! p" if "\<not> in_zone z p" "p < length (vs_table st)" for p
    using that zi(11,12) inz r(3) by (simp add: zone_keep_def)
  have "zone_typed (z', ps')"
    unfolding zone_typed_def fst_conv snd_conv r(4)
  proof (intro allI impI)
    fix p assume "in_zone z' p"
    then have p: "in_zone z p" by (simp add: sm)
    have "page \<le> p \<and> p < page + (last - page) \<longleftrightarrow> frame_of z p \<in> bz_heap ?bz"
    proof
      assume "page \<le> p \<and> p < page + (last - page)"
      then have "p \<in> {page..<page + (last - page)}" by simp
      then show "frame_of z p \<in> bz_heap ?bz" using rel by blast
    next
      assume "frame_of z p \<in> bz_heap ?bz"
      then obtain q where q: "q \<in> {page..<page + (last - page)}" "frame_of z p = frame_of z q" using rel by blast
      then have "in_zone z q" using rel by blast
      then have "p = q" using frame_of_inj [OF p] q(2) by blast
      then show "page \<le> p \<and> p < page + (last - page)" using q(1) by simp
    qed
    then show "vp_type (ps' ! p) = VM_PAGE_FREE \<longleftrightarrow> frame_of z' p \<in> bz_heap ?bz"
      using new [OF p] by (simp add: sm VM_PAGE_FREE_def VM_PAGE_RESERVED_def)
  qed
  then have full': "zone_full (z', ps')" using r(2) by (simp add: zone_full_def)
  have zone': "vs_zones st' ! i = (if i = j then z' else vs_zones st ! i)" for i
    using j4 part by (simp add: st'_def vs_part_def)
  have tab: "vs_table st' = ps'" "vs_boot_zones st' = vs_boot_zones st" "vs_zones_size st' = vs_zones_size st"
    "boot_offset st' = boot_offset st" "length ps' = length (vs_table st)"
    using sm(5) zi(11) by (simp_all add: st'_def boot_offset_def fun_eq_iff)
  have geom: "zn_start z' = zn_start z" "zn_end z' = zn_end z" "zn_pages z' = zn_pages z" "zn_pages_end z' = zn_pages_end z"
    "length (zn_cpu_pools z') = length (zn_cpu_pools z)" using r(3) by (simp_all add: zone_keep_def)
  have "vs_part n (Suc j) st'"
    unfolding vs_part_def tab(1-4)
  proof (intro conjI allI impI)
    show "length (vs_zones st') = 4" "length (vs_boot_zones st) = 4" "vs_zones_size st \<le> 4"
      "boot_offset st (vs_zones_size st) \<le> length ps'"
      using part tab(5) by (simp_all add: vs_part_def st'_def)
    show "length (zn_cpu_pools (vs_zones st' ! i)) = n" if "i < 4" for i
      using that part geom zi(4) by (simp add: zone' vs_part_def)
    show "boot_zone_ok (vs_boot_zones st ! i)" if "i < vs_zones_size st" for i
      using that part by (simp add: vs_part_def)
    fix i assume i: "i < Suc j"
    have prev: "i < j \<Longrightarrow> zone_full (vs_zone st i) \<and> zone_avail (vs_zone st i) = bz_heap (vs_boot_zones st ! i)
         \<and> zn_start (vs_zones st ! i) = bz_start (vs_boot_zones st ! i)
         \<and> zn_end (vs_zones st ! i) = bz_end (vs_boot_zones st ! i)
         \<and> zn_pages (vs_zones st ! i) = boot_offset st i \<and> zn_pages_end (vs_zones st ! i) = boot_offset st (Suc i)
         \<and> (\<forall>p. in_zone (vs_zones st ! i) p \<longrightarrow> unat (vp_zone_index (vs_table st ! p)) = i
              \<and> vp_nr_refs (vs_table st ! p) = 0 \<and> vp_type (vs_table st ! p) \<in> {VM_PAGE_FREE, VM_PAGE_RESERVED})"
      using part by (simp add: vs_part_def)
    have below: "ps' ! p = vs_table st ! p" if "i < j" "in_zone (vs_zones st ! i) p" for p
    proof -
      have "p < boot_offset st j"
        using that prev boot_offset_mono [of "Suc i" j st] by (auto simp: in_zone_def)
      then show ?thesis using old [of p] inz [of p] room by simp
    qed
    have frame: "zone_full (vs_zones st ! i, ps')" "zone_avail (vs_zones st ! i, ps') = zone_avail (vs_zone st i)"
      if "i < j"
      using zone_full_frame [of "vs_zones st ! i" "vs_table st" ps'] prev [OF that] below [OF that] tab(5)
      by (auto simp: vs_zone_def)
    show "zone_full (vs_zone st' i)" using frame full' i by (cases "i = j") (simp_all add: vs_zone_def zone' tab)
    show "zone_avail (vs_zone st' i) = bz_heap (vs_boot_zones st ! i)"
      using frame prev r(4) i by (cases "i = j") (simp_all add: vs_zone_def zone' tab)
    show "zn_start (vs_zones st' ! i) = bz_start (vs_boot_zones st ! i)"
      "zn_end (vs_zones st' ! i) = bz_end (vs_boot_zones st ! i)"
      "zn_pages (vs_zones st' ! i) = boot_offset st i" "zn_pages_end (vs_zones st' ! i) = boot_offset st (Suc i)"
      using prev geom zi(5-8) i by (cases "i = j"; simp add: zone')+
    fix p assume p: "in_zone (vs_zones st' ! i) p"
    have x: "unat (vp_zone_index (ps' ! p)) = i \<and> vp_nr_refs (ps' ! p) = 0
        \<and> vp_type (ps' ! p) \<in> {VM_PAGE_FREE, VM_PAGE_RESERVED}"
    proof (cases "i = j")
      case True
      then show ?thesis using new [of p] p by (simp add: zone' sm)
    next
      case False
      then show ?thesis using prev below p i by (simp add: zone')
    qed
    then show "unat (vp_zone_index (ps' ! p)) = i" "vp_nr_refs (ps' ! p) = 0"
      "vp_type (ps' ! p) \<in> {VM_PAGE_FREE, VM_PAGE_RESERVED}" by blast+
  qed
  moreover have "vm_page_setup_zone st j (boot_offset st j) = Some (boot_offset st (Suc j), st')"
  proof -
    have "unat (vm_page_btop (vm_page_zone_size z')) = bz_last ?bz - bz_first ?bz"
      using bf(1-3) geom(1,2) zi(5,6) by (simp add: btop_index vm_page_zone_size_def unat_sub_le word_le_unat
          flip: diff_mult_distrib2)
    moreover have "unat (vm_page_btop (bz_avail_end ?bz - bz_start ?bz))
        - unat (vm_page_btop (bz_avail_start ?bz - bz_start ?bz)) = last - page"
      by (simp add: page_def last_def)
    ultimately show ?thesis
      using zi(1) r(1) j4 part
      by (simp add: vm_page_setup_zone_def vs_part_def st'_def off Let_def flip: page_def)
  qed
  ultimately show ?thesis using tab by blast
qed

section \<open>All the zones\<close>

lemma setup_zones_spec:
  assumes "vs_part n j st" "j \<le> vs_zones_size st"
  shows "\<exists>st'. vm_page_setup_zones [j..<vs_zones_size st] (boot_offset st j) st
      = Some (boot_offset st (vs_zones_size st), st')
    \<and> vs_part n (vs_zones_size st) st' \<and> vs_boot_zones st' = vs_boot_zones st
    \<and> vs_zones_size st' = vs_zones_size st"
  using assms
proof (induction "vs_zones_size st - j" arbitrary: j st)
  case 0
  then have "j = vs_zones_size st" by simp
  then show ?case using 0 by simp
next
  case (Suc m)
  then have j: "j < vs_zones_size st" by simp
  from setup_zone_spec [OF Suc.prems(1) j] obtain st1 where
    s: "vm_page_setup_zone st j (boot_offset st j) = Some (boot_offset st (Suc j), st1)" "vs_part n (Suc j) st1"
    "vs_boot_zones st1 = vs_boot_zones st" "vs_zones_size st1 = vs_zones_size st" by blast
  have off: "boot_offset st1 = boot_offset st" by (simp add: boot_offset_def fun_eq_iff s(3))
  have "m = vs_zones_size st1 - Suc j" using Suc(2) s(4) by simp
  from Suc(1) [OF this s(2)] j s(4) obtain st' where
    "vm_page_setup_zones [Suc j..<vs_zones_size st] (boot_offset st (Suc j)) st1
      = Some (boot_offset st (vs_zones_size st), st')"
    "vs_part n (vs_zones_size st) st'" "vs_boot_zones st' = vs_boot_zones st" "vs_zones_size st' = vs_zones_size st"
    by (auto simp: off s(3))
  then show ?case using s(1) by (simp add: upt_conv_Cons [OF j])
qed

text \<open>The state of the allocator once every zone is set up.\<close>

definition phys_avail :: "vm_page_state \<Rightarrow> nat set" where
  "phys_avail st = (\<Union>i<vs_zones_size st. zone_avail (vs_zone st i))"

definition boot_heap :: "vm_page_state \<Rightarrow> nat set" where
  "boot_heap st = (\<Union>i<vs_zones_size st. bz_heap (vs_boot_zones st ! i))"

lemma part_inv:
  assumes part: "vs_part n (vs_zones_size st) st" and m: "0 < vs_zones_size st"
  shows "vs_inv n st" "phys_avail st = boot_heap st"
proof -
  have "vp_nr_refs (vs_table st ! p) = 0" if "p \<in> vs_avail st" for p
    using that part by (auto simp: vs_avail_def vs_part_def)
  then show "vs_inv n st" using part m by (simp add: vs_inv_def vs_part_def PMEM_MAX_ZONES_def)
  show "phys_avail st = boot_heap st"
    using part by (auto simp: phys_avail_def boot_heap_def vs_part_def)
qed

section \<open>Looking up a descriptor\<close>

text \<open>No physical address is in two zones.\<close>

definition zones_disjoint :: "vm_page_state \<Rightarrow> bool" where
  "zones_disjoint st \<longleftrightarrow> (\<forall>i<vs_zones_size st. \<forall>j<vs_zones_size st. i \<noteq> j \<longrightarrow>
     {zn_first (vs_zones st ! i)..<zn_last (vs_zones st ! i)}
     \<inter> {zn_first (vs_zones st ! j)..<zn_last (vs_zones st ! j)} = {})"

lemma vm_page_lookup_spec:
  assumes inv: "vs_inv n st" and dis: "zones_disjoint st" and i: "i < vs_zones_size st"
    and pa: "unat pa = 4096 * f + r" "r < 4096" and f: "zn_first (vs_zones st ! i) \<le> f" "f < zn_last (vs_zones st ! i)"
  shows "vm_page_lookup st pa = Some (page_of (vs_zones st ! i) f)"
proof -
  have len: "length (take (vs_zones_size st) (vs_zones st)) = vs_zones_size st"
    using inv by (simp add: vs_inv_def)
  have geo: "zone_geometry (vs_zones st ! j) (vs_table st)" if "j < vs_zones_size st" for j
    using zone_full_pools [OF vs_zone_full [OF inv that]] by (simp add: zone_inv_def vs_zone_def)
  have test: "zn_start (vs_zones st ! j) \<le> pa \<and> pa < zn_end (vs_zones st ! j) \<longleftrightarrow> j = i"
    if j: "j < vs_zones_size st" for j
  proof -
    have "zn_start (vs_zones st ! j) \<le> pa \<and> pa < zn_end (vs_zones st ! j)
        \<longleftrightarrow> f \<in> {zn_first (vs_zones st ! j)..<zn_last (vs_zones st ! j)}"
      using geometry_facts(1,2) [OF geo [OF j]] pa by (auto simp: word_le_unat word_less_unat)
    also have "\<dots> \<longleftrightarrow> j = i" using dis i j f by (fastforce simp: zones_disjoint_def)
    finally show ?thesis .
  qed
  have "find (\<lambda>zone. zn_start zone \<le> pa \<and> pa < zn_end zone) (take (vs_zones_size st) (vs_zones st))
      = Some (vs_zones st ! i)"
    unfolding find_Some_iff using i len test by (intro exI [of _ i]) auto
  moreover have "unat (pa - zn_start (vs_zones st ! i)) div 4096 = f - zn_first (vs_zones st ! i)"
  proof -
    have "unat (pa - zn_start (vs_zones st ! i)) = 4096 * (f - zn_first (vs_zones st ! i)) + r"
      using geometry_facts(1) [OF geo [OF i]] pa f by (subst unat_sub_le) (auto simp: word_le_unat)
    then show ?thesis using pa(2) by simp
  qed
  ultimately show ?thesis by (simp add: vm_page_lookup_def page_of_def btop_index)
qed

section \<open>Marking the page table\<close>

lemma mark_step:
  assumes inv: "vs_inv n st" and i: "i < vs_zones_size st" and p: "in_zone (vs_zones st ! i) p"
    and t: "vp_type (vs_table st ! p) \<noteq> VM_PAGE_FREE" "t \<noteq> VM_PAGE_FREE"
  defines "st' \<equiv> st\<lparr>vs_table := (vs_table st)[p := (vs_table st ! p)\<lparr>vp_type := t\<rparr>]\<rparr>"
  shows "page_upd (vs_table st) p (vp_type_update (\<lambda>_. t)) = Some (vs_table st')"
    "vs_inv n st'" "vs_avail st' = vs_avail st" "phys_avail st' = phys_avail st" "vs_keep st st'"
proof -
  have full: "zone_full (vs_zones st ! i, vs_table st)"
    using vs_zone_full [OF inv i] by (simp add: vs_zone_def)
  then have zp: "zone_pool_inv (vs_zones st ! i, vs_table st)" by (simp add: zone_full_def)
  note r = retyped_pool_inv [where t = t, OF zp p]
  have len: "p < length (vs_table st)" by (rule zone_range(1) [OF inv i p])
  show "page_upd (vs_table st) p (vp_type_update (\<lambda>_. t)) = Some (vs_table st')" using r(1) by (simp add: st'_def)
  have "zone_typed (vs_zones st ! i, vs_table st')"
    unfolding zone_typed_def fst_conv snd_conv
  proof (intro allI impI)
    fix q assume q: "in_zone (vs_zones st ! i) q"
    then have "q < length (vs_table st)" by (rule zone_range(1) [OF inv i])
    then have "vp_type (vs_table st' ! q) = VM_PAGE_FREE \<longleftrightarrow> vp_type (vs_table st ! q) = VM_PAGE_FREE"
      using t len by (cases "q = p") (simp_all add: st'_def)
    then show "vp_type (vs_table st' ! q) = VM_PAGE_FREE
        \<longleftrightarrow> frame_of (vs_zones st ! i) q \<in> zone_avail (vs_zones st ! i, vs_table st')"
      using full q r(3) by (simp add: zone_full_def zone_typed_def st'_def)
  qed
  then have full': "zone_full (vs_zones st ! i, vs_table st')" using r(2) by (simp add: zone_full_def st'_def)
  have keep: "zone_keep (vs_zone st i) (vs_zones st ! i, vs_table st')" using r(4) by (simp add: vs_zone_def st'_def)
  have st': "st' = st\<lparr>vs_zones := (vs_zones st)[i := vs_zones st ! i], vs_table := vs_table st'\<rparr>"
    by (simp add: st'_def)
  have refs: "vp_nr_refs (vs_table st' ! q) = 0"
    if "in_zone (vs_zones st ! i) q" "frame_of (vs_zones st ! i) q \<in> zone_avail (vs_zones st ! i, vs_table st')" for q
  proof -
    have "q \<in> vs_avail st" using that i r(3) by (auto simp: vs_avail_def vs_zone_def st'_def)
    then have "vp_nr_refs (vs_table st ! q) = 0" using inv by (simp add: vs_inv_def)
    moreover have "q < length (vs_table st)" using that(1) by (rule zone_range(1) [OF inv i])
    ultimately show ?thesis using len by (simp add: st'_def nth_list_update)
  qed
  note v = vs_zone_step [OF inv i full' keep st' refs]
  show "vs_inv n st'" by (rule v(1))
  show "vs_keep st st'" by (rule v(2))
  have za: "zone_avail (vs_zone st' j) = zone_avail (vs_zone st j)" for j
    by (simp add: vs_zone_def zone_avail_def buddy_avail_def st'_def)
  then show "phys_avail st' = phys_avail st" by (simp add: phys_avail_def st'_def)
  show "vs_avail st' = vs_avail st" using za by (simp add: vs_avail_def st'_def)
qed

lemma mark_spec:
  assumes "vs_inv n st" "zones_disjoint st" "i < vs_zones_size st"
    and "unat va = unat PMAP_START_DIRECTMAP_ADDRESS + 4096 * f"
    and "zn_first (vs_zones st ! i) \<le> f" "f + m \<le> zn_last (vs_zones st ! i)"
    and "4096 * (f + m) \<le> unat PMEM_DIRECTMAP_LIMIT"
    and "\<forall>g\<in>{f..<f + m}. vp_type (vs_table st ! page_of (vs_zones st ! i) g) = VM_PAGE_RESERVED"
  shows "\<exists>st'. vm_page_setup_table m va st = Some st' \<and> vs_inv n st' \<and> vs_avail st' = vs_avail st
    \<and> phys_avail st' = phys_avail st \<and> vs_keep st st' \<and> vs_zones st' = vs_zones st
    \<and> (\<forall>g\<in>{f..<f + m}. vp_type (vs_table st' ! page_of (vs_zones st ! i) g) = VM_PAGE_TABLE)
    \<and> (\<forall>p. p \<notin> page_of (vs_zones st ! i) ` {f..<f + m} \<longrightarrow> vs_table st' ! p = vs_table st ! p)"
  using assms
proof (induction m arbitrary: f va st)
  case 0
  then show ?case by simp
next
  case (Suc m)
  note inv = Suc.prems(1) and i = Suc.prems(3) and va = Suc.prems(4)
  have geo: "zone_geometry (vs_zones st ! i) (vs_table st)"
    using zone_full_pools [OF vs_zone_full [OF inv i]] by (simp add: zone_inv_def vs_zone_def)
  define p where "p = page_of (vs_zones st ! i) f"
  have p: "in_zone (vs_zones st ! i) p"
    using in_zone_frame(2) [OF geo, of f] Suc.prems(5,6) by (simp add: p_def)
  have va_range: "PMAP_START_DIRECTMAP_ADDRESS \<le> va" "va < PMAP_END_DIRECTMAP_ADDRESS"
    using va Suc.prems(7) by (auto simp: word_le_unat word_less_unat PMAP_START_DIRECTMAP_ADDRESS_def
        PMAP_END_DIRECTMAP_ADDRESS_def PMEM_DIRECTMAP_LIMIT_def)
  then have pa: "unat (va - PMAP_START_DIRECTMAP_ADDRESS) = 4096 * f + 0"
    using va by (subst unat_sub_le) auto
  have look: "vm_page_lookup st (va - PMAP_START_DIRECTMAP_ADDRESS) = Some p"
    unfolding p_def by (rule vm_page_lookup_spec [OF inv Suc.prems(2) i pa]) (use Suc.prems(5,6) in auto)
  have res: "vp_type (vs_table st ! p) = VM_PAGE_RESERVED" using Suc.prems(8) by (simp add: p_def)
  define st1 where "st1 = st\<lparr>vs_table := (vs_table st)[p := (vs_table st ! p)\<lparr>vp_type := VM_PAGE_TABLE\<rparr>]\<rparr>"
  have nf: "vp_type (vs_table st ! p) \<noteq> VM_PAGE_FREE" "VM_PAGE_TABLE \<noteq> VM_PAGE_FREE"
    by (simp_all add: res VM_PAGE_RESERVED_def VM_PAGE_FREE_def VM_PAGE_TABLE_def)
  note ms = mark_step [OF inv i p nf, folded st1_def]
  have len: "p < length (vs_table st)" by (rule zone_range(1) [OF inv i p])
  have zs: "vs_zones st1 = vs_zones st" "vs_zones_size st1 = vs_zones_size st" by (simp_all add: st1_def)
  have step: "vm_page_setup_table (Suc m) va st = vm_page_setup_table m (va + PAGE_SIZE) st1"
    using va_range look len res ms(1)
    by (simp add: vm_page_direct_pa_def st1_def del: PAGE_SIZE_def)
  have va1: "unat (va + PAGE_SIZE) = unat PMAP_START_DIRECTMAP_ADDRESS + 4096 * Suc f"
    using va Suc.prems(7) by (subst unat_add_lt) (simp_all add: PMAP_START_DIRECTMAP_ADDRESS_def PMEM_DIRECTMAP_LIMIT_def)
  have pne: "page_of (vs_zones st ! i) g \<noteq> p" if "g \<in> {Suc f..<Suc f + m}" for g
    using that Suc.prems(5) unfolding p_def page_of_def atLeastLessThan_iff by linarith
  then have other: "vs_table st1 ! page_of (vs_zones st ! i) g = vs_table st ! page_of (vs_zones st ! i) g"
    if "g \<in> {Suc f..<Suc f + m}" for g using pne [OF that] by (simp add: st1_def)
  have "\<exists>st'. vm_page_setup_table m (va + PAGE_SIZE) st1 = Some st' \<and> vs_inv n st' \<and> vs_avail st' = vs_avail st1
    \<and> phys_avail st' = phys_avail st1 \<and> vs_keep st1 st' \<and> vs_zones st' = vs_zones st1
    \<and> (\<forall>g\<in>{Suc f..<Suc f + m}. vp_type (vs_table st' ! page_of (vs_zones st1 ! i) g) = VM_PAGE_TABLE)
    \<and> (\<forall>p. p \<notin> page_of (vs_zones st1 ! i) ` {Suc f..<Suc f + m} \<longrightarrow> vs_table st' ! p = vs_table st1 ! p)"
  proof (rule Suc.IH [OF ms(2) _ _ va1])
    show "zones_disjoint st1" using Suc.prems(2) by (simp add: zones_disjoint_def zs)
    show "\<forall>g\<in>{Suc f..<Suc f + m}. vp_type (vs_table st1 ! page_of (vs_zones st1 ! i) g) = VM_PAGE_RESERVED"
      using other Suc.prems(8) by (simp add: zs)
  qed (use Suc.prems in \<open>simp_all add: zs\<close>)
  then obtain st' where x: "vm_page_setup_table m (va + PAGE_SIZE) st1 = Some st'" "vs_inv n st'"
    "vs_avail st' = vs_avail st" "phys_avail st' = phys_avail st" "vs_keep st1 st'" "vs_zones st' = vs_zones st"
    "\<forall>g\<in>{Suc f..<Suc f + m}. vp_type (vs_table st' ! page_of (vs_zones st ! i) g) = VM_PAGE_TABLE"
    "\<forall>q. q \<notin> page_of (vs_zones st ! i) ` {Suc f..<Suc f + m} \<longrightarrow> vs_table st' ! q = vs_table st1 ! q"
    by (auto simp: zs ms(3,4))
  have range: "{f..<f + Suc m} = insert f {Suc f..<Suc f + m}" by auto
  have "p \<notin> page_of (vs_zones st ! i) ` {Suc f..<Suc f + m}" using pne by blast
  then have "vp_type (vs_table st' ! p) = VM_PAGE_TABLE" using x(8) len by (simp add: st1_def)
  then have "\<forall>g\<in>{f..<f + Suc m}. vp_type (vs_table st' ! page_of (vs_zones st ! i) g) = VM_PAGE_TABLE"
    unfolding range using x(7) by (simp add: p_def)
  moreover have "vs_table st' ! q = vs_table st ! q" if "q \<notin> page_of (vs_zones st ! i) ` {f..<f + Suc m}" for q
  proof -
    have "q \<noteq> p" "q \<notin> page_of (vs_zones st ! i) ` {Suc f..<Suc f + m}" using that unfolding range by (auto simp: p_def)
    then show ?thesis using x(8) by (simp add: st1_def)
  qed
  ultimately show ?case using step x vs_keep_trans [OF ms(5) x(5)] by auto
qed


section \<open>Boot\<close>

definition boot_ok :: "nat \<Rightarrow> vm_page_state \<Rightarrow> bool" where
  "boot_ok n st \<longleftrightarrow> length (vs_zones st) = 4 \<and> length (vs_boot_zones st) = 4
     \<and> 0 < vs_zones_size st \<and> vs_zones_size st \<le> 4
     \<and> (\<forall>i<4. length (zn_cpu_pools (vs_zones st ! i)) = n)
     \<and> (\<forall>i<vs_zones_size st. boot_zone_ok (vs_boot_zones st ! i))
     \<and> (\<forall>i<4. vs_zones_size st \<le> i \<longrightarrow> bz_end (vs_boot_zones st ! i) = 0)
     \<and> (\<forall>i<vs_zones_size st. i \<le> PMEM_ZONE_DIRECTMAP \<longrightarrow> bz_end (vs_boot_zones st ! i) \<le> PMEM_DIRECTMAP_LIMIT)
     \<and> (\<forall>i<vs_zones_size st. \<forall>j<vs_zones_size st. i \<noteq> j \<longrightarrow>
          {bz_first (vs_boot_zones st ! i)..<bz_last (vs_boot_zones st ! i)}
          \<inter> {bz_first (vs_boot_zones st ! j)..<bz_last (vs_boot_zones st ! j)} = {})"

text \<open>The number of page frames of the zones and of the frames that hold their descriptors.\<close>

definition boot_pages :: "vm_page_state \<Rightarrow> nat" where
  "boot_pages st = boot_offset st (vs_zones_size st)"

definition table_frames :: "vm_page_state \<Rightarrow> nat" where
  "table_frames st = DIV_CEIL (boot_pages st * 64) 4096"

lemma boot_pages_bound:
  assumes "boot_ok n st"
  shows "boot_pages st < 2 ^ 54"
proof -
  have "bz_last (vs_boot_zones st ! j) - bz_first (vs_boot_zones st ! j) \<le> 2 ^ 52 - 1" if "j < vs_zones_size st" for j
  proof -
    have "boot_zone_ok (vs_boot_zones st ! j)" using assms that by (simp add: boot_ok_def)
    from boot_zone_facts(5) [OF this] show ?thesis by simp
  qed
  then have "boot_pages st \<le> (\<Sum>j<vs_zones_size st. 2 ^ 52 - 1)"
    unfolding boot_pages_def boot_offset_def by (intro sum_mono) auto
  also have "\<dots> \<le> 4 * (2 ^ 52 - 1)" using assms by (simp add: boot_ok_def)
  finally show ?thesis by simp
qed

lemma boot_sum:
  assumes ok: "boot_ok n st"
  shows "(\<Sum>zone\<leftarrow>take (vs_zones_size st) (vs_boot_zones st). vm_page_btop (vm_page_boot_zone_size zone))
    = of_nat (boot_pages st)"
proof -
  have "vm_page_btop (vm_page_boot_zone_size (vs_boot_zones st ! j))
      = of_nat (bz_last (vs_boot_zones st ! j) - bz_first (vs_boot_zones st ! j))" if "j < vs_zones_size st" for j
  proof -
    have "boot_zone_ok (vs_boot_zones st ! j)" using ok that by (simp add: boot_ok_def)
    note bf = boot_zone_facts [OF this]
    have "unat (vm_page_boot_zone_size (vs_boot_zones st ! j))
        = 4096 * (bz_last (vs_boot_zones st ! j) - bz_first (vs_boot_zones st ! j))"
      using bf(1-3) by (simp add: vm_page_boot_zone_size_def unat_sub_le word_le_unat diff_mult_distrib2)
    then have "unat (vm_page_btop (vm_page_boot_zone_size (vs_boot_zones st ! j)))
        = bz_last (vs_boot_zones st ! j) - bz_first (vs_boot_zones st ! j)" by (simp add: btop_index)
    moreover have "x = of_nat (unat x)" for x :: u64 by simp
    ultimately show ?thesis by metis
  qed
  moreover have "take (vs_zones_size st) (vs_boot_zones st) = map ((!) (vs_boot_zones st)) [0..<vs_zones_size st]"
    using ok by (intro nth_equalityI) (auto simp: boot_ok_def)
  ultimately have "(\<Sum>zone\<leftarrow>take (vs_zones_size st) (vs_boot_zones st). vm_page_btop (vm_page_boot_zone_size zone))
      = (\<Sum>j\<leftarrow>[0..<vs_zones_size st]. of_nat (bz_last (vs_boot_zones st ! j) - bz_first (vs_boot_zones st ! j)))"
    by (simp add: comp_def) (rule arg_cong [where f = sum_list], rule map_cong, simp_all)
  also have "\<dots> = of_nat (boot_pages st)"
    by (simp add: boot_pages_def boot_offset_def sum_list_distinct_conv_sum_set lessThan_atLeast0)
  finally show ?thesis .
qed

text \<open>Taking memory from the heap of a zone before the allocator runs.\<close>

lemma bootalloc_loop_spec:
  assumes "i < length bzs" "\<exists>j\<le>i. bz_heap_present (bzs ! j) \<and> sz \<le> vm_page_boot_zone_avail_size (bzs ! j)"
    and "\<forall>j\<le>i. bz_heap_present (bzs ! j) \<and> sz \<le> vm_page_boot_zone_avail_size (bzs ! j)
      \<longrightarrow> bz_avail_start (bzs ! j) < PMEM_DIRECTMAP_LIMIT"
  shows "\<exists>j\<le>i. bz_heap_present (bzs ! j) \<and> sz \<le> vm_page_boot_zone_avail_size (bzs ! j)
    \<and> vm_page_bootalloc_loop sz i bzs = Some (bz_avail_start (bzs ! j) + PMAP_START_DIRECTMAP_ADDRESS,
        bzs[j := (bzs ! j)\<lparr>bz_avail_start := bz_avail_start (bzs ! j) + vm_page_round sz\<rparr>])"
  using assms
proof (induction i)
  case 0
  then show ?case by (subst vm_page_bootalloc_loop.simps) (auto simp: vm_page_direct_va_def Let_def)
next
  case (Suc i)
  show ?case
  proof (cases "bz_heap_present (bzs ! Suc i) \<and> sz \<le> vm_page_boot_zone_avail_size (bzs ! Suc i)")
    case True
    then show ?thesis
      using Suc.prems by (intro exI [of _ "Suc i"], subst vm_page_bootalloc_loop.simps) (auto simp: vm_page_direct_va_def Let_def)
  next
    case False
    have "vm_page_bootalloc_loop sz (Suc i) bzs = vm_page_bootalloc_loop sz i bzs"
      using False Suc.prems(1) by (subst vm_page_bootalloc_loop.simps) auto
    moreover have "\<exists>j\<le>i. bz_heap_present (bzs ! j) \<and> sz \<le> vm_page_boot_zone_avail_size (bzs ! j)"
      using Suc.prems(2) False by (metis le_Suc_eq)
    ultimately show ?thesis using Suc.IH Suc.prems by (auto intro: le_SucI)
  qed
qed


lemma round_page: "unat x + 4095 < 2 ^ 64 \<Longrightarrow> unat (vm_page_round x) = 4096 * DIV_CEIL (unat x) 4096"
  for x :: u64
  using unat_P2ROUND [of 12 x] by (simp add: vm_page_round_def DIV_CEIL_def push_bit_eq_mult)

lemma table_size:
  assumes ok: "boot_ok n st"
  shows "unat (vm_page_round (of_nat (boot_pages st) * sizeof_vm_page)) = 4096 * table_frames st"
    "unat (of_nat (boot_pages st) :: u64) = boot_pages st" "table_frames st < 2 ^ 50"
proof -
  have b: "boot_pages st < 2 ^ 54" by (rule boot_pages_bound [OF ok])
  then show u: "unat (of_nat (boot_pages st) :: u64) = boot_pages st" by (intro unat_of_nat_lt) simp
  have e: "of_nat (boot_pages st) * sizeof_vm_page = (of_nat (boot_pages st * 64) :: u64)"
    by (simp add: sizeof_vm_page_def)
  have "unat (of_nat (boot_pages st * 64) :: u64) = boot_pages st * 64"
    using b by (intro unat_of_nat_lt) simp
  then show "unat (vm_page_round (of_nat (boot_pages st) * sizeof_vm_page)) = 4096 * table_frames st"
    unfolding e using b by (subst round_page) (simp_all add: table_frames_def)
  show "table_frames st < 2 ^ 50" using b by (simp add: table_frames_def DIV_CEIL_def)
qed

lemma boot_part:
  assumes "boot_ok n st"
  shows "vs_part n 0 (st\<lparr>vs_table := replicate (boot_pages st) g\<rparr>)"
  using assms by (simp add: vs_part_def boot_ok_def boot_pages_def boot_offset_def)

text \<open>Taking the page table out of a heap keeps the boot zones in order.\<close>

definition table_room :: "vm_page_state \<Rightarrow> bool" where
  "table_room st \<longleftrightarrow> (\<exists>i\<le>min (vs_zones_size st - 1) PMEM_ZONE_DIRECTMAP.
     bz_heap_present (vs_boot_zones st ! i) \<and> table_frames st \<le> card (bz_heap (vs_boot_zones st ! i)))"

lemma bootalloc_table:
  assumes ok: "boot_ok n st" and room: "table_room st"
  shows "\<exists>i f st1. i < vs_zones_size st
    \<and> vm_page_bootalloc st (vm_page_round (of_nat (boot_pages st) * sizeof_vm_page)) = Some (of_nat (4096 * f) + PMAP_START_DIRECTMAP_ADDRESS, st1)
    \<and> boot_ok n st1 \<and> vs_zones_size st1 = vs_zones_size st \<and> boot_pages st1 = boot_pages st
    \<and> vs_boot_zones st1 = (vs_boot_zones st)[i := (vs_boot_zones st ! i)\<lparr>bz_avail_start := of_nat (4096 * (f + table_frames st))\<rparr>]
    \<and> bz_heap (vs_boot_zones st ! i) = {f..<f + table_frames st} \<union> bz_heap (vs_boot_zones st1 ! i)
    \<and> {f..<f + table_frames st} \<inter> bz_heap (vs_boot_zones st1 ! i) = {}
    \<and> {f..<f + table_frames st} \<subseteq> {bz_first (vs_boot_zones st ! i)..<bz_last (vs_boot_zones st ! i)}
    \<and> bz_first (vs_boot_zones st1 ! i) = bz_first (vs_boot_zones st ! i) \<and> bz_last (vs_boot_zones st1 ! i) = bz_last (vs_boot_zones st ! i)
    \<and> 4096 * (f + table_frames st) \<le> unat PMEM_DIRECTMAP_LIMIT"
proof -
  let ?bzs = "vs_boot_zones st" and ?sz = "vm_page_round (of_nat (boot_pages st) * sizeof_vm_page)"
  define top where "top = min (vs_zones_size st - 1) PMEM_ZONE_DIRECTMAP"
  have top: "top < vs_zones_size st" "top < length ?bzs" "top \<le> 2"
    using ok by (auto simp: boot_ok_def top_def PMEM_ZONE_DIRECTMAP_def)
  have bzok: "boot_zone_ok (?bzs ! j)" "bz_end (?bzs ! j) \<le> PMEM_DIRECTMAP_LIMIT" if "j \<le> top" for j
    using ok that top by (auto simp: boot_ok_def top_def)
  have heap: "\<exists>a e. unat (bz_avail_start (?bzs ! j)) = 4096 * a \<and> unat (bz_avail_end (?bzs ! j)) = 4096 * e
      \<and> a \<le> e \<and> bz_first (?bzs ! j) \<le> a \<and> e \<le> bz_last (?bzs ! j) \<and> bz_heap (?bzs ! j) = {a..<e}
      \<and> unat (vm_page_boot_zone_avail_size (?bzs ! j)) = 4096 * (e - a)"
    if j: "j \<le> top" "bz_heap_present (?bzs ! j)" for j
  proof -
    note ok' = bzok(1) [OF j(1)]
    note bf = boot_zone_facts(1,2) [OF ok']
    obtain a e where ae: "unat (bz_avail_start (?bzs ! j)) = 4096 * a" "unat (bz_avail_end (?bzs ! j)) = 4096 * e"
      using ok' j(2) by (auto simp: boot_zone_ok_def elim!: dvdE)
    then have "a \<le> e" "bz_first (?bzs ! j) \<le> a" "e \<le> bz_last (?bzs ! j)"
      using ok' j(2) bf by (auto simp: boot_zone_ok_def word_le_unat)
    moreover have "unat (vm_page_boot_zone_avail_size (?bzs ! j)) = 4096 * (e - a)"
      using ae \<open>a \<le> e\<close> by (simp add: vm_page_boot_zone_avail_size_def unat_sub_le word_le_unat diff_mult_distrib2)
    ultimately show ?thesis using ae by (auto simp: bz_heap_def)
  qed
  note ts = table_size [OF ok]
  have fit: "?sz \<le> vm_page_boot_zone_avail_size (?bzs ! j) \<longleftrightarrow> table_frames st \<le> card (bz_heap (?bzs ! j))"
    if "j \<le> top" "bz_heap_present (?bzs ! j)" for j
    using heap [OF that] ts(1) by (auto simp: word_le_unat)
  have "\<exists>j\<le>top. bz_heap_present (?bzs ! j) \<and> ?sz \<le> vm_page_boot_zone_avail_size (?bzs ! j)"
    using room fit unfolding table_room_def top_def [symmetric] by blast
  moreover have tf: "0 < table_frames st"
  proof -
    have "0 < boot_pages st"
    proof -
      have "boot_zone_ok (?bzs ! 0)" using bzok(1) by simp
      then have "unat (bz_start (?bzs ! 0)) < unat (bz_end (?bzs ! 0))"
        by (simp add: boot_zone_ok_def word_less_unat)
      then have "0 < bz_last (?bzs ! 0) - bz_first (?bzs ! 0)"
        using boot_zone_facts(1,2) [OF \<open>boot_zone_ok (?bzs ! 0)\<close>] by simp
      also have "\<dots> \<le> boot_pages st"
        unfolding boot_pages_def boot_offset_def using ok
        by (intro member_le_sum [where f = "\<lambda>j. bz_last (?bzs ! j) - bz_first (?bzs ! j)"]) (auto simp: boot_ok_def)
      finally show ?thesis .
    qed
    then show ?thesis by (simp add: table_frames_def DIV_CEIL_def div_greater_zero_iff)
  qed
  have start: "bz_avail_start (?bzs ! j) < PMEM_DIRECTMAP_LIMIT"
    if j: "j \<le> top" "bz_heap_present (?bzs ! j)" "?sz \<le> vm_page_boot_zone_avail_size (?bzs ! j)" for j
  proof -
    note bf = boot_zone_facts(1-3) [OF bzok(1) [OF j(1)]]
    obtain a e where ae: "unat (bz_avail_start (?bzs ! j)) = 4096 * a" "a \<le> e" "e \<le> bz_last (?bzs ! j)"
      "unat (vm_page_boot_zone_avail_size (?bzs ! j)) = 4096 * (e - a)" using heap [OF j(1,2)] by blast
    have "a < e" using j(3) tf ts(1) ae(4) by (auto simp: word_le_unat)
    then show ?thesis using ae bf(2) bzok(2) [OF j(1)] by (simp add: word_less_unat word_le_unat)
  qed
  ultimately obtain j where j: "j \<le> top" "bz_heap_present (?bzs ! j)" "?sz \<le> vm_page_boot_zone_avail_size (?bzs ! j)"
    and r: "vm_page_bootalloc_loop ?sz top ?bzs = Some (bz_avail_start (?bzs ! j) + PMAP_START_DIRECTMAP_ADDRESS,
        ?bzs[j := (?bzs ! j)\<lparr>bz_avail_start := bz_avail_start (?bzs ! j) + vm_page_round ?sz\<rparr>])"
    using bootalloc_loop_spec [OF top(2), of ?sz] by blast
  let ?bz = "?bzs ! j"
  obtain f e where ae: "unat (bz_avail_start ?bz) = 4096 * f" "unat (bz_avail_end ?bz) = 4096 * e" "f \<le> e"
    "bz_first ?bz \<le> f" "e \<le> bz_last ?bz" "bz_heap ?bz = {f..<e}"
    "unat (vm_page_boot_zone_avail_size ?bz) = 4096 * (e - f)" using heap [OF j(1,2)] by blast
  have tfe: "f + table_frames st \<le> e" using j(3) ts(1) ae(3,7) by (auto simp: word_le_unat)
  have jn: "j < vs_zones_size st" "j < length ?bzs" using j(1) top by simp_all
  have e52: "4096 * e < 2 ^ 64" using ae(2) unat_lt_64 [of "bz_avail_end ?bz"] by simp
  have rr: "vm_page_round ?sz = of_nat (4096 * table_frames st)"
  proof -
    have "unat (vm_page_round ?sz) = 4096 * table_frames st"
      using ts(1,3) by (subst round_page) (simp_all add: DIV_CEIL_def)
    moreover have "x = of_nat (unat x)" for x :: u64 by simp
    ultimately show ?thesis by metis
  qed
  have as: "bz_avail_start ?bz = of_nat (4096 * f)"
  proof -
    have "x = of_nat (unat x)" for x :: u64 by simp
    then show ?thesis using ae(1) by metis
  qed
  have as': "bz_avail_start ?bz + vm_page_round ?sz = of_nat (4096 * (f + table_frames st))"
    unfolding rr as by simp
  define bz' where "bz' = ?bz\<lparr>bz_avail_start := of_nat (4096 * (f + table_frames st))\<rparr>"
  define st1 where "st1 = st\<lparr>vs_boot_zones := ?bzs[j := bz']\<rparr>"
  have un: "unat (of_nat (4096 * (f + table_frames st)) :: u64) = 4096 * (f + table_frames st)"
  proof (rule unat_of_nat_lt)
    have "4096 * (f + table_frames st) \<le> 4096 * e" using tfe by simp
    then show "4096 * (f + table_frames st) < 2 ^ LENGTH(64)" using e52 by (simp only: le_less_trans len_num1 len_bit0) simp
  qed
  have fl: "bz_first bz' = bz_first ?bz" "bz_last bz' = bz_last ?bz" by (simp_all add: bz'_def bz_first_def bz_last_def)
  have heap': "bz_heap bz' = {f + table_frames st..<e}"
    using ae(2) un by (simp add: bz'_def bz_heap_def)
  have nth': "vs_boot_zones st1 ! i = (if i = j then bz' else ?bzs ! i)" for i using jn by (simp add: st1_def)
  have pages: "boot_offset st1 = boot_offset st" "vs_zones_size st1 = vs_zones_size st"
  proof -
    have "bz_first (vs_boot_zones st1 ! i) = bz_first (?bzs ! i)" "bz_last (vs_boot_zones st1 ! i) = bz_last (?bzs ! i)" for i
      by (simp_all add: nth' fl)
    then show "boot_offset st1 = boot_offset st" by (simp add: boot_offset_def fun_eq_iff)
    show "vs_zones_size st1 = vs_zones_size st" by (simp add: st1_def)
  qed
  have okj: "boot_zone_ok bz'"
  proof -
    have o: "boot_zone_ok ?bz" using bzok(1) [OF j(1)] .
    have "4096 * f \<le> 4096 * (f + table_frames st)" "4096 * (f + table_frames st) \<le> 4096 * e" using tfe by simp_all
    moreover have "unat (bz_start ?bz) \<le> 4096 * f" "4096 * e \<le> unat (bz_end ?bz)"
      using o j(2) ae(1,2) by (simp_all add: boot_zone_ok_def word_le_unat)
    ultimately have "unat (bz_start ?bz) \<le> 4096 * (f + table_frames st)" "4096 * (f + table_frames st) \<le> 4096 * e"
      "4096 * e \<le> unat (bz_end ?bz)" by linarith+
    moreover have "unat (bz_avail_start bz') = 4096 * (f + table_frames st)" unfolding bz'_def using un by simp
    moreover have "bz_avail_end bz' = bz_avail_end ?bz" "bz_start bz' = bz_start ?bz" "bz_end bz' = bz_end ?bz"
      "bz_heap_present bz'" using j(2) by (simp_all add: bz'_def)
    ultimately show ?thesis using o ae(2) j(2) unfolding boot_zone_ok_def word_le_unat
      by (simp only: if_True dvd_triv_left simp_thms)
  qed
  have "boot_ok n st1"
  proof -
    have "bz_first (vs_boot_zones st1 ! i) = bz_first (?bzs ! i)" "bz_last (vs_boot_zones st1 ! i) = bz_last (?bzs ! i)"
      "bz_end (vs_boot_zones st1 ! i) = bz_end (?bzs ! i)" for i
      by (simp_all add: nth' fl) (simp add: bz'_def)
    moreover have "boot_zone_ok (vs_boot_zones st1 ! i)" if "i < vs_zones_size st" for i
      using ok okj that by (simp add: nth' boot_ok_def)
    moreover have "vs_zones st1 = vs_zones st" "length (vs_boot_zones st1) = length ?bzs" by (simp_all add: st1_def)
    ultimately show ?thesis using ok unfolding boot_ok_def pages(2) by simp
  qed
  moreover have "vm_page_bootalloc st ?sz = Some (of_nat (4096 * f) + PMAP_START_DIRECTMAP_ADDRESS, st1)"
  proof -
    have "vm_page_select_alloc_zone st VM_PAGE_SEL_DIRECTMAP = Some top"
      using ok by (simp add: vm_page_select_alloc_zone_def top_def boot_ok_def VM_PAGE_SEL_DIRECTMAP_def VM_PAGE_SEL_DMA_def
          VM_PAGE_SEL_DMA32_def)
    then show ?thesis using r top(1) by (simp add: vm_page_bootalloc_def as' st1_def bz'_def) (simp add: as)
  qed
  moreover have "4096 * (f + table_frames st) \<le> unat PMEM_DIRECTMAP_LIMIT"
    using tfe ae(5) boot_zone_facts(2) [OF bzok(1) [OF j(1)]] bzok(2) [OF j(1)] by (simp add: word_le_unat)
  moreover have "boot_pages st1 = boot_pages st" by (simp add: boot_pages_def pages)
  moreover have "{f..<f + table_frames st} \<subseteq> {bz_first ?bz..<bz_last ?bz}" using tfe ae(4,5) by auto
  moreover have "bz_heap ?bz = {f..<f + table_frames st} \<union> bz_heap (vs_boot_zones st1 ! j)"
    "{f..<f + table_frames st} \<inter> bz_heap (vs_boot_zones st1 ! j) = {}"
    using tfe by (auto simp: ae(6) nth' heap')
  ultimately show ?thesis
    using jn by (intro exI [of _ j] exI [of _ f] exI [of _ st1]) (simp add: nth' fl pages(2), simp add: st1_def bz'_def)
qed


lemma setup_part:
  assumes ok: "boot_ok n st"
  shows "\<exists>st'. vm_page_setup_zones [0..<vs_zones_size st] 0 (st\<lparr>vs_table := replicate (boot_pages st) g\<rparr>)
      = Some (boot_pages st, st') \<and> vs_part n (vs_zones_size st) st' \<and> vs_boot_zones st' = vs_boot_zones st
    \<and> vs_zones_size st' = vs_zones_size st"
proof -
  have "boot_offset (st\<lparr>vs_table := t\<rparr>) = boot_offset st" for t by (simp add: boot_offset_def fun_eq_iff)
  moreover have "boot_offset st 0 = 0" by (simp add: boot_offset_def)
  ultimately show ?thesis
    using setup_zones_spec [OF boot_part [OF ok, of g], of ] by (simp add: boot_pages_def)
qed

lemma part_zones:
  assumes "vs_part n (vs_zones_size st) st" "i < vs_zones_size st"
  shows "zn_first (vs_zones st ! i) = bz_first (vs_boot_zones st ! i)" "zn_last (vs_zones st ! i) = bz_last (vs_boot_zones st ! i)"
  using assms by (auto simp: vs_part_def zn_first_def zn_last_def bz_first_def bz_last_def)

lemma part_reserved:
  assumes part: "vs_part n (vs_zones_size st) st" and i: "i < vs_zones_size st"
    and f: "f \<in> {bz_first (vs_boot_zones st ! i)..<bz_last (vs_boot_zones st ! i)}" "f \<notin> bz_heap (vs_boot_zones st ! i)"
  shows "vp_type (vs_table st ! page_of (vs_zones st ! i) f) = VM_PAGE_RESERVED"
proof -
  have full: "zone_full (vs_zones st ! i, vs_table st)" "zone_avail (vs_zones st ! i, vs_table st) = bz_heap (vs_boot_zones st ! i)"
    using part i by (auto simp: vs_part_def vs_zone_def)
  have geo: "zone_geometry (vs_zones st ! i) (vs_table st)"
    using zone_full_pools [OF full(1)] by (simp add: zone_inv_def)
  have "zn_first (vs_zones st ! i) \<le> f" "f < zn_last (vs_zones st ! i)" using f(1) part_zones [OF part i] by auto
  note p = in_zone_frame(2) [OF geo this]
  have "vp_type (vs_table st ! page_of (vs_zones st ! i) f) \<noteq> VM_PAGE_FREE"
    using full p f(2) by (simp add: zone_full_def zone_typed_def)
  then show ?thesis using part i p by (auto simp: vs_part_def)
qed

lemma vs_inv_ready: "vs_inv n (st\<lparr>vs_ready := b\<rparr>) = vs_inv n st" "phys_avail (st\<lparr>vs_ready := b\<rparr>) = phys_avail st"
  by (simp_all add: vs_inv_def vs_avail_def vs_zone_def phys_avail_def)

lemma check_boot_zones_ok: "boot_ok n st \<Longrightarrow> vm_page_check_boot_zones st = Some ()"
proof -
  assume ok: "boot_ok n st"
  have "vm_page_boot_zone_loaded (vs_boot_zones st ! i) = (i < vs_zones_size st)" if "i < 4" for i
  proof (cases "i < vs_zones_size st")
    case True
    then have "bz_start (vs_boot_zones st ! i) < bz_end (vs_boot_zones st ! i)"
      using ok by (simp add: boot_ok_def boot_zone_ok_def)
    then show ?thesis using True by (auto simp: vm_page_boot_zone_loaded_def)
  next
    case False
    then show ?thesis using ok that by (simp add: boot_ok_def vm_page_boot_zone_loaded_def)
  qed
  then show ?thesis
    using ok by (auto simp: vm_page_check_boot_zones_def boot_ok_def list_all_iff)
qed

lemma setup_spec:
  assumes ok: "boot_ok n st" and room: "table_room st"
  shows "\<exists>st' i f. vm_page_setup garbage st = Some st' \<and> vs_inv n st' \<and> vm_page_ready st'
    \<and> i < vs_zones_size st \<and> {f..<f + table_frames st} \<subseteq> bz_heap (vs_boot_zones st ! i)
    \<and> phys_avail st' = boot_heap st - {f..<f + table_frames st}
    \<and> (\<forall>g\<in>{f..<f + table_frames st}. vp_type (vs_table st' ! page_of (vs_zones st' ! i) g) = VM_PAGE_TABLE)
    \<and> vs_zones_size st' = vs_zones_size st
    \<and> (\<forall>j<vs_zones_size st. zn_first (vs_zones st' ! j) = bz_first (vs_boot_zones st ! j)
         \<and> zn_last (vs_zones st' ! j) = bz_last (vs_boot_zones st ! j))"
proof -
  from bootalloc_table [OF ok room] obtain i f st1 where
    i: "i < vs_zones_size st"
    and ba: "vm_page_bootalloc st (vm_page_round (of_nat (boot_pages st) * sizeof_vm_page))
        = Some (of_nat (4096 * f) + PMAP_START_DIRECTMAP_ADDRESS, st1)"
    and ok1: "boot_ok n st1" and sz1: "vs_zones_size st1 = vs_zones_size st" and bp1: "boot_pages st1 = boot_pages st"
    and bz1: "vs_boot_zones st1 = (vs_boot_zones st)[i := (vs_boot_zones st ! i)
        \<lparr>bz_avail_start := of_nat (4096 * (f + table_frames st))\<rparr>]"
    and hp: "bz_heap (vs_boot_zones st ! i) = {f..<f + table_frames st} \<union> bz_heap (vs_boot_zones st1 ! i)"
      "{f..<f + table_frames st} \<inter> bz_heap (vs_boot_zones st1 ! i) = {}"
    and sub: "{f..<f + table_frames st} \<subseteq> {bz_first (vs_boot_zones st ! i)..<bz_last (vs_boot_zones st ! i)}"
    and fl: "bz_first (vs_boot_zones st1 ! i) = bz_first (vs_boot_zones st ! i)" "bz_last (vs_boot_zones st1 ! i) = bz_last (vs_boot_zones st ! i)"
    and lim: "4096 * (f + table_frames st) \<le> unat PMEM_DIRECTMAP_LIMIT" by blast
  from setup_part [OF ok1, of garbage] obtain st2 where
    sz: "vm_page_setup_zones [0..<vs_zones_size st1] 0 (st1\<lparr>vs_table := replicate (boot_pages st1) garbage\<rparr>) = Some (boot_pages st1, st2)"
    and part: "vs_part n (vs_zones_size st1) st2" and bz2: "vs_boot_zones st2 = vs_boot_zones st1"
    and sz2: "vs_zones_size st2 = vs_zones_size st1" by blast
  have part2: "vs_part n (vs_zones_size st2) st2" using part sz2 by simp
  have m: "0 < vs_zones_size st2" "i < vs_zones_size st2" using i sz1 sz2 by simp_all
  note inv = part_inv [OF part2 m(1)]
  have dis: "zones_disjoint st2"
    using ok1 by (simp add: zones_disjoint_def boot_ok_def part_zones [OF part2] bz2 sz2)
  have tf: "0 < table_frames st \<or> table_frames st = 0" by auto
  have fr: "bz_first (vs_boot_zones st ! i) \<le> f \<and> f + table_frames st \<le> bz_last (vs_boot_zones st ! i) \<or> table_frames st = 0"
  proof (cases "table_frames st = 0")
    case False
    then have "f \<in> {f..<f + table_frames st}" "f + table_frames st - 1 \<in> {f..<f + table_frames st}" by auto
    then have "f \<in> {bz_first (vs_boot_zones st ! i)..<bz_last (vs_boot_zones st ! i)}"
      "f + table_frames st - 1 \<in> {bz_first (vs_boot_zones st ! i)..<bz_last (vs_boot_zones st ! i)}" using sub by blast+
    then show ?thesis using False by auto
  qed simp
  have va: "unat (of_nat (4096 * f) + PMAP_START_DIRECTMAP_ADDRESS) = unat PMAP_START_DIRECTMAP_ADDRESS + 4096 * f"
  proof -
    have b: "4096 * f \<le> unat PMEM_DIRECTMAP_LIMIT" using lim by simp
    then have "unat (of_nat (4096 * f) :: u64) = 4096 * f"
      by (intro unat_of_nat_lt) (simp add: PMEM_DIRECTMAP_LIMIT_def)
    then show ?thesis using b
      by (subst unat_add_lt) (simp_all add: PMAP_START_DIRECTMAP_ADDRESS_def PMEM_DIRECTMAP_LIMIT_def)
  qed
  have res: "\<forall>g\<in>{f..<f + table_frames st}. vp_type (vs_table st2 ! page_of (vs_zones st2 ! i) g) = VM_PAGE_RESERVED"
  proof
    fix g assume g: "g \<in> {f..<f + table_frames st}"
    have "g \<in> {bz_first (vs_boot_zones st ! i)..<bz_last (vs_boot_zones st ! i)}" using g sub by blast
    moreover have "g \<notin> bz_heap (vs_boot_zones st1 ! i)" using g hp(2) by blast
    ultimately show "vp_type (vs_table st2 ! page_of (vs_zones st2 ! i) g) = VM_PAGE_RESERVED"
      using part_reserved [OF part2 m(2), of g] by (simp add: bz2 fl)
  qed
  have "\<exists>st'. vm_page_setup_table (table_frames st) (of_nat (4096 * f) + PMAP_START_DIRECTMAP_ADDRESS) st2 = Some st'
    \<and> vs_inv n st' \<and> vs_avail st' = vs_avail st2 \<and> phys_avail st' = phys_avail st2 \<and> vs_keep st2 st' \<and> vs_zones st' = vs_zones st2
    \<and> (\<forall>g\<in>{f..<f + table_frames st}. vp_type (vs_table st' ! page_of (vs_zones st2 ! i) g) = VM_PAGE_TABLE)
    \<and> (\<forall>p. p \<notin> page_of (vs_zones st2 ! i) ` {f..<f + table_frames st} \<longrightarrow> vs_table st' ! p = vs_table st2 ! p)"
  proof (cases "table_frames st = 0")
    case True
    then show ?thesis using inv(1) by simp
  next
    case False
    show ?thesis
      by (rule mark_spec [OF inv(1) dis m(2) va _ _ lim res])
        (use fr False part_zones [OF part2 m(2)] in \<open>simp_all add: bz2 fl\<close>)
  qed
  then obtain st3 where mk: "vm_page_setup_table (table_frames st) (of_nat (4096 * f) + PMAP_START_DIRECTMAP_ADDRESS) st2 = Some st3"
    "vs_inv n st3" "phys_avail st3 = phys_avail st2" "vs_zones st3 = vs_zones st2" "vs_zones_size st3 = vs_zones_size st2"
    "\<forall>g\<in>{f..<f + table_frames st}. vp_type (vs_table st3 ! page_of (vs_zones st2 ! i) g) = VM_PAGE_TABLE"
    unfolding vs_keep_def by blast
  have bounds: "zn_first (vs_zones st3 ! j) = bz_first (vs_boot_zones st ! j) \<and> zn_last (vs_zones st3 ! j) = bz_last (vs_boot_zones st ! j)"
    if "j < vs_zones_size st" for j
  proof -
    have "j < vs_zones_size st2" using that sz1 sz2 by simp
    note pz = part_zones [OF part2 this]
    show ?thesis
    proof (cases "j = i")
      case True
      then show ?thesis using pz fl by (simp only: mk(4) bz2)
    next
      case False
      then show ?thesis using pz by (simp add: mk(4) bz2 bz1)
    qed
  qed
  have run: "vm_page_setup garbage st = Some (st3\<lparr>vs_ready := True\<rparr>)"
  proof -
    have tf: "DIV_CEIL (boot_pages st * unat sizeof_vm_page) (unat PAGE_SIZE) = table_frames st"
      by (simp add: table_frames_def sizeof_vm_page_def)
    show ?thesis
      unfolding vm_page_setup_def boot_sum [OF ok] Let_def table_size(2) [OF ok]
      using check_boot_zones_ok [OF ok] ba sz mk(1) tf by (simp add: bp1 sz1)
  qed
  have sub': "{f..<f + table_frames st} \<subseteq> bz_heap (vs_boot_zones st ! i)" using hp(1) by blast
  have nth1: "vs_boot_zones st1 ! j = vs_boot_zones st ! j" if "j \<noteq> i" for j using that by (simp add: bz1)
  have cross: "g \<notin> bz_heap (vs_boot_zones st ! j)" if "g \<in> {f..<f + table_frames st}" "j \<noteq> i" "j < vs_zones_size st" for g j
  proof -
    have "boot_zone_ok (vs_boot_zones st ! j)" using ok that(3) by (simp add: boot_ok_def)
    then have "bz_heap (vs_boot_zones st ! j) \<subseteq> {bz_first (vs_boot_zones st ! j)..<bz_last (vs_boot_zones st ! j)}"
      by (rule boot_zone_facts(4))
    moreover have "{bz_first (vs_boot_zones st ! i)..<bz_last (vs_boot_zones st ! i)}
        \<inter> {bz_first (vs_boot_zones st ! j)..<bz_last (vs_boot_zones st ! j)} = {}"
      using ok i that(2,3) unfolding boot_ok_def by metis
    ultimately show ?thesis using sub that(1) by blast
  qed
  have heap: "boot_heap st1 = boot_heap st - {f..<f + table_frames st}"
  proof (rule set_eqI)
    fix g
    have "g \<in> boot_heap st1 \<longleftrightarrow> (\<exists>j<vs_zones_size st. g \<in> bz_heap (vs_boot_zones st1 ! j))"
      by (auto simp: boot_heap_def sz1)
    also have "\<dots> \<longleftrightarrow> (\<exists>j<vs_zones_size st. g \<in> bz_heap (vs_boot_zones st ! j)) \<and> g \<notin> {f..<f + table_frames st}"
    proof safe
      fix j assume j: "j < vs_zones_size st" "g \<in> bz_heap (vs_boot_zones st1 ! j)"
      show "\<exists>j<vs_zones_size st. g \<in> bz_heap (vs_boot_zones st ! j)"
        using j hp(1) nth1 [of j] by (cases "j = i") auto
      assume "g \<in> {f..<f + table_frames st}"
      then show False using j hp(2) nth1 [of j] cross [of g j] by (cases "j = i") auto
    next
      fix j assume "j < vs_zones_size st" "g \<in> bz_heap (vs_boot_zones st ! j)" "g \<notin> {f..<f + table_frames st}"
      then show "\<exists>j<vs_zones_size st. g \<in> bz_heap (vs_boot_zones st1 ! j)"
        using hp(1) nth1 [of j] by (cases "j = i") auto
    qed
    also have "\<dots> \<longleftrightarrow> g \<in> boot_heap st - {f..<f + table_frames st}" by (auto simp: boot_heap_def)
    finally show "g \<in> boot_heap st1 \<longleftrightarrow> g \<in> boot_heap st - {f..<f + table_frames st}" .
  qed
  have "boot_heap st2 = boot_heap st1" by (simp add: boot_heap_def bz2 sz2)
  then have "phys_avail st3 = boot_heap st - {f..<f + table_frames st}" using mk(3) inv(2) heap by simp
  then show ?thesis
    using run mk(2,4,6) mk(5) sz1 sz2 i sub' bounds
    by (intro exI [of _ "st3\<lparr>vs_ready := True\<rparr>"] exI [of _ i] exI [of _ f]) (simp add: vs_inv_ready vm_page_ready_def)
qed

end
