(* ===== verification/Vm_page_Props.thy ===== *)
theory Vm_page_Props
  imports Vm_page_Setup
begin

text \<open>
  What the page allocator guarantees: the properties of \<^verbatim>\<open>vm/vm_page.c\<close>, each with
  an instance on a small machine. The frames of a zone are counted in pages of physical memory; a
  block is a page index and an order.
\<close>

section \<open>A small machine\<close>

text \<open>One zone of eight pages, at the page frames 1 to 8, the last six of them free at boot, and
  one processor.\<close>

definition small_zone :: vm_page_zone where
  "small_zone = \<lparr>zn_cpu_pools = [vm_page_cpu_pool_init 0], zn_start = 0, zn_end = 0, zn_pages = 0, zn_pages_end = 0,
     zn_free_lists = [], zn_nr_free_pages = 0\<rparr>"

definition small_boot :: vm_page_state where
  "small_boot = \<lparr>vs_table = [], vs_zones = replicate 4 small_zone,
     vs_boot_zones = \<lparr>bz_start = 0x1000, bz_end = 0x9000, bz_heap_present = True,
         bz_avail_start = 0x3000, bz_avail_end = 0x9000\<rparr>
       # replicate 3 \<lparr>bz_start = 0, bz_end = 0, bz_heap_present = False, bz_avail_start = 0, bz_avail_end = 0\<rparr>,
     vs_zones_size = 1, vs_ready = False\<rparr>"

definition small_page :: vm_page where
  "small_page = \<lparr>vp_type = 7, vp_zone_index = 7, vp_order = 7, vp_phys_addr = 7, vp_priv = 7, vp_nr_refs = 7,
     vp_object = None, vp_offset = 7\<rparr>"

definition small_state :: vm_page_state where
  "small_state = the (vm_page_setup small_page small_boot)"

lemma small_boot_ok: "boot_ok 1 small_boot"
  by (auto simp: boot_ok_def small_boot_def small_zone_def boot_zone_ok_def PMEM_ZONE_DIRECTMAP_def PMEM_DIRECTMAP_LIMIT_def
      All_less_list upt_conv_Cons nth_Cons')

lemma small_table_room: "table_room small_boot" "table_frames small_boot = 1"
proof -
  show "table_frames small_boot = 1"
    by (simp add: table_frames_def boot_pages_def boot_offset_def small_boot_def bz_first_def bz_last_def DIV_CEIL_def)
  then show "table_room small_boot"
    by (auto simp: table_room_def small_boot_def bz_heap_def intro!: exI [of _ 0])
qed

lemma small_state_inv:
  "vs_inv 1 small_state" "phys_avail small_state \<subseteq> {3..<9}" "vs_zones_size small_state = 1"
  "zn_first (vs_zones small_state ! 0) = 1" "zn_last (vs_zones small_state ! 0) = 9"
proof -
  from setup_spec [OF small_boot_ok small_table_room(1), of small_page] obtain st i f where
    s: "vm_page_setup small_page small_boot = Some st" "vs_inv 1 st"
      "phys_avail st = boot_heap small_boot - {f..<f + table_frames small_boot}" "vs_zones_size st = vs_zones_size small_boot"
      "\<forall>j<vs_zones_size small_boot. zn_first (vs_zones st ! j) = bz_first (vs_boot_zones small_boot ! j)
         \<and> zn_last (vs_zones st ! j) = bz_last (vs_boot_zones small_boot ! j)"
    by blast
  have "bz_heap (vs_boot_zones small_boot ! 0) = {3..<9}" by (simp add: small_boot_def bz_heap_def)
  then have h: "boot_heap small_boot = {3..<9}" by (simp add: boot_heap_def small_boot_def lessThan_Suc)
  have st: "small_state = st" using s(1) by (simp add: small_state_def)
  have one: "vs_zones_size small_boot = 1" by (simp add: small_boot_def)
  show "vs_inv 1 small_state" "phys_avail small_state \<subseteq> {3..<9}" "vs_zones_size small_state = 1"
    using s(2-4) h one by (auto simp: st)
  show "zn_first (vs_zones small_state ! 0) = 1" "zn_last (vs_zones small_state ! 0) = 9"
    using s(5) by (simp_all add: st one) (simp_all add: small_boot_def bz_first_def bz_last_def)
qed

text \<open>The same machine with one reference to its first page.\<close>

definition small_first :: nat where
  "small_first = page_of (vs_zones small_state ! 0) 1"

definition small_shared :: vm_page_state where
  "small_shared = small_state\<lparr>vs_table := (vs_table small_state)[small_first :=
     (vs_table small_state ! small_first)\<lparr>vp_nr_refs := 1\<rparr>]\<rparr>"

lemma small_first_ok:
  "in_zone (vs_zones small_state ! 0) small_first" "frame_of (vs_zones small_state ! 0) small_first = 1"
  "1 \<notin> zone_avail (vs_zone small_state 0)"
proof -
  have geo: "zone_geometry (vs_zones small_state ! 0) (vs_table small_state)"
    using zone_full_pools [OF vs_zone_full [OF small_state_inv(1), of 0]] small_state_inv(3)
    by (simp add: vs_zone_def zone_inv_def)
  then show "in_zone (vs_zones small_state ! 0) small_first" "frame_of (vs_zones small_state ! 0) small_first = 1"
    using in_zone_frame(2) [OF geo, of 1] small_state_inv(4,5) by (simp_all add: small_first_def)
  have "zone_avail (vs_zone small_state 0) \<subseteq> {3..<9}"
    using small_state_inv(2,3) by (auto simp: phys_avail_def)
  then show "1 \<notin> zone_avail (vs_zone small_state 0)" by auto
qed

lemma small_shared_ok:
  "vs_inv 1 small_shared" "vs_zones_size small_shared = 1" "in_zone (vs_zones small_shared ! 0) small_first"
  "small_first \<notin> vs_avail small_shared" "vp_nr_refs (vs_table small_shared ! small_first) = 1"
proof -
  note p = small_first_ok
  have len: "small_first < length (vs_table small_state)"
    using zone_range(1) [OF small_state_inv(1) _ p(1)] small_state_inv(3) by simp
  have a: "small_first \<notin> vs_avail small_state"
    using p(2,3) small_state_inv(3) by (auto simp: vs_avail_def)
  note r = vs_refs_step [OF small_state_inv(1) a len small_shared_def]
  show "vs_inv 1 small_shared" by (rule r(1))
  show "small_first \<notin> vs_avail small_shared" using r(2) a by simp
  show "vs_zones_size small_shared = 1" "in_zone (vs_zones small_shared ! 0) small_first"
    "vp_nr_refs (vs_table small_shared ! small_first) = 1"
    using small_state_inv(3) p(1) len by (simp_all add: small_shared_def)
qed

section \<open>The buddy system of a zone\<close>

text \<open>
  C20: From a zone whose free lists are in order (the invariant \<open>zone_inv\<close>: geometry,
  lists and orders of the descriptors, blocks that are aligned, disjoint and merged, and the page
  counter), an allocation of order \<open>k\<close> either returns the head of an aligned block of free
  frames and takes exactly these frames, or returns a null pointer, changes nothing, and no aligned
  run of 2^k free frames exists in the zone, so it never fails for fragmentation below that. The
  invariant is kept.
\<close>

theorem buddy_alloc_complete:
  assumes "zone_inv (zone, ps)" "order < VM_PAGE_NR_FREE_LISTS"
  shows "\<exists>r zone' ps'. vm_page_zone_alloc_from_buddy (zone, ps) order = Some (r, zone', ps') \<and> zone_inv (zone', ps') \<and> preserved (zone, ps) (zone', ps')
    \<and> (case r of
         None \<Rightarrow> zone' = zone \<and> ps' = ps \<and> \<not> (\<exists>g. 2 ^ order dvd g \<and> frames (g, order) \<subseteq> cover (zone_blocks zone))
       | Some p \<Rightarrow> in_zone zone p \<and> 2 ^ order dvd frame_of zone p \<and> frame_of zone p + 2 ^ order \<le> zn_last zone
           \<and> frames (frame_of zone p, order) \<subseteq> cover (zone_blocks zone)
           \<and> cover (zone_blocks zone') = cover (zone_blocks zone) - frames (frame_of zone p, order))"
  using alloc_from_buddy_spec [OF assms(1) assms(2) [unfolded VM_PAGE_NR_FREE_LISTS_def]] by blast

theorem buddy_alloc_complete_witness:
  "\<exists>r zone' ps'. vm_page_zone_alloc_from_buddy (vs_zone small_state 0) 1 = Some (r, zone', ps') \<and> zone_inv (zone', ps')"
proof -
  have "zone_inv (vs_zones small_state ! 0, vs_table small_state)"
    using zone_full_pools [OF vs_zone_full [OF small_state_inv(1), of 0]] small_state_inv(1)
    by (simp add: vs_zone_def vs_inv_def)
  from buddy_alloc_complete [OF this, of 1] show ?thesis by (auto simp: vs_zone_def VM_PAGE_NR_FREE_LISTS_def)
qed

text \<open>
  C21: Releasing a block that lies in the zone, is aligned on its order and has no free frame
  succeeds, makes exactly its frames free, and leaves free lists in which no two buddies of
  the same order below the last are both free: every possible merge has been made.
\<close>

theorem buddy_free_merges:
  assumes "zone_inv (zone, ps)" "in_zone zone p" "order < VM_PAGE_NR_FREE_LISTS" "vp_order (ps ! p) = VM_PAGE_ORDER_UNLISTED"
    and "2 ^ order dvd frame_of zone p" "frame_of zone p + 2 ^ order \<le> zn_last zone"
    and "frames (frame_of zone p, order) \<inter> cover (zone_blocks zone) = {}"
  shows "\<exists>zone' ps'. vm_page_zone_free_to_buddy (zone, ps) p order = Some (zone', ps') \<and> zone_inv (zone', ps')
    \<and> cover (zone_blocks zone') = cover (zone_blocks zone) \<union> frames (frame_of zone p, order)
    \<and> (\<forall>f k. Suc k < VM_PAGE_NR_FREE_LISTS \<longrightarrow> (f, k) \<in> zone_blocks zone' \<longrightarrow> (buddy k f, k) \<notin> zone_blocks zone')"
proof -
  have k: "order < 11" using assms(3) by (simp add: VM_PAGE_NR_FREE_LISTS_def)
  from free_to_buddy_spec [OF assms(1,2) k assms(4-7)] obtain z' ps' where
    f: "vm_page_zone_free_to_buddy (zone, ps) p order = Some (z', ps')" "zone_inv (z', ps')"
    "cover (zone_blocks z') = cover (zone_blocks zone) \<union> frames (frame_of zone p, order)" by blast
  moreover from f(2) have "merged 11 (zone_blocks z')" by (auto simp: zone_inv_def buddy_inv_def)
  ultimately show ?thesis by (auto simp: merged_def VM_PAGE_NR_FREE_LISTS_def)
qed

theorem buddy_free_merges_witness:
  "\<exists>zone' ps'. vm_page_zone_free_to_buddy (vs_zones small_state ! 0, vs_table small_state) small_first 0 = Some (zone', ps')
    \<and> 1 \<in> cover (zone_blocks zone')"
proof -
  have zi: "zone_inv (vs_zones small_state ! 0, vs_table small_state)"
    using zone_full_pools [OF vs_zone_full [OF small_state_inv(1), of 0]] small_state_inv(3) by (simp add: vs_zone_def)
  note f = small_first_ok
  have nc: "1 \<notin> cover (zone_blocks (vs_zones small_state ! 0))"
    using f(3) by (simp add: zone_avail_def buddy_avail_def vs_zone_def)
  have "vp_order (vs_table small_state ! small_first) = VM_PAGE_ORDER_UNLISTED"
  proof (rule ccontr)
    assume "vp_order (vs_table small_state ! small_first) \<noteq> VM_PAGE_ORDER_UNLISTED"
    then obtain k where "k < 11" "small_first \<in> set (zn_blocks (vs_zones small_state ! 0) k)"
      using zi f(1) by (auto simp: zone_inv_def zone_lists_def)
    then have "(1, k) \<in> zone_blocks (vs_zones small_state ! 0)" using f(2) by (force simp: zone_blocks_def)
    then show False using nc by (force simp: cover_def frames_def)
  qed
  from buddy_free_merges [OF zi f(1) _ this, of 0] show ?thesis
    using f(2) nc small_state_inv(5) by (auto simp: VM_PAGE_NR_FREE_LISTS_def frames_def)
qed

section \<open>The module\<close>

text \<open>
  C22: Booting from zones that are page-aligned and disjoint, with heaps inside them and room for
  the page table, sets up a state that satisfies the invariant of the allocator, with every zone
  over its boot zone. The available frames are then exactly those of the boot heaps except the
  frames taken for the page table, whose descriptors have the type \<open>VM_PAGE_TABLE\<close>.
\<close>

theorem vm_page_setup_correct:
  assumes "boot_ok n st" "table_room st"
  shows "\<exists>st' i f. vm_page_setup garbage st = Some st' \<and> vs_inv n st' \<and> vm_page_ready st'
    \<and> i < vs_zones_size st \<and> {f..<f + table_frames st} \<subseteq> bz_heap (vs_boot_zones st ! i)
    \<and> phys_avail st' = boot_heap st - {f..<f + table_frames st}
    \<and> (\<forall>g\<in>{f..<f + table_frames st}. vp_type (vs_table st' ! page_of (vs_zones st' ! i) g) = VM_PAGE_TABLE)
    \<and> vs_zones_size st' = vs_zones_size st
    \<and> (\<forall>j<vs_zones_size st. zn_first (vs_zones st' ! j) = bz_first (vs_boot_zones st ! j)
         \<and> zn_last (vs_zones st' ! j) = bz_last (vs_boot_zones st ! j))"
  using assms by (rule setup_spec)

theorem vm_page_setup_correct_witness:
  "\<exists>st'. vm_page_setup small_page small_boot = Some st' \<and> vs_inv 1 st' \<and> vm_page_ready st'"
  using vm_page_setup_correct [OF small_boot_ok small_table_room(1), of small_page] by blast

text \<open>
  C5: No sequence of allocations and releases, by any of the \<open>n\<close> processors, with any
  selector and page type, in any order of the releases, stops the kernel. After it the blocks held
  are pairwise disjoint and hold no available page, and together with the available
  pages they are exactly the pages available at the start: none is handed out twice and none is lost.
\<close>

theorem vm_page_requests_safe:
  assumes "vs_inv n st"
    and "\<forall>r\<in>set reqs. request_ok VM_PAGE_NR_FREE_LISTS (\<lambda>(cpu, selector, type). cpu < n \<and> (selector :: nat) < 4 \<and> type \<noteq> VM_PAGE_FREE) r"
  shows "\<exists>held st'. serve (\<lambda>(cpu, selector, type) k st. vm_page_alloc st cpu k selector type)
      (\<lambda>(cpu, selector, type) p k st. vm_page_free st cpu p k) reqs [] st = Some (held, st')
    \<and> vs_inv n st' \<and> sorted_wrt (\<lambda>a b. pages_at (fst a) (snd a) \<inter> pages_at (fst b) (snd b) = {}) held
    \<and> (\<forall>b\<in>set held. pages_at (fst b) (snd b) \<inter> vs_avail st' = {})
    \<and> vs_avail st' \<union> (\<Union>b\<in>set held. pages_at (fst b) (snd b)) = vs_avail st"
proof -
  have "vm_pages.held_ok n (vs_avail st) [] st" using assms(1) by (simp add: vm_pages.held_ok_def)
  from vm_pages.serve_safe [OF this assms(2) [unfolded VM_PAGE_NR_FREE_LISTS_def]]
  show ?thesis by (auto simp: vm_pages.held_ok_def)
qed

theorem vm_page_requests_safe_witness:
  "\<exists>held st'. serve (\<lambda>(cpu, selector, type) k st. vm_page_alloc st cpu k selector type)
      (\<lambda>(cpu, selector, type) p k st. vm_page_free st cpu p k)
      [Alloc (0, 0, 2) 0, Alloc (0, 3, 2) 1, Free (0, 0, 2) 1, Alloc (0, 2, 3) 10] [] small_state = Some (held, st')
    \<and> vs_avail st' \<union> (\<Union>b\<in>set held. pages_at (fst b) (snd b)) = vs_avail small_state"
proof -
  have "\<forall>r\<in>set [Alloc (0, 0, 2) 0, Alloc (0, 3, 2) 1, Free (0, 0, 2) 1, Alloc (0, 2, 3) 10].
     request_ok VM_PAGE_NR_FREE_LISTS (\<lambda>(cpu, selector, type). (cpu :: nat) < 1 \<and> (selector :: nat) < 4 \<and> type \<noteq> VM_PAGE_FREE) r"
    by (simp add: VM_PAGE_NR_FREE_LISTS_def VM_PAGE_FREE_def)
  from vm_page_requests_safe [OF small_state_inv(1) this] show ?thesis by blast
qed

text \<open>
  C23: \<open>vm_page_alloc\<close> searches the zone of its selector, or the last one present when the
  machine has fewer zones, and then the zones below it. It never stops; when it returns a page, the
  2^order pages from it were available, lie in one of these zones, have the requested
  type and are not available any more; when it returns a null pointer the available pages
  are those there were.
\<close>

theorem vm_page_alloc_correct:
  assumes "vs_inv n st" "cpu < n" "selector < 4" "order < VM_PAGE_NR_FREE_LISTS" "type \<noteq> VM_PAGE_FREE"
  shows "\<exists>r st'. vm_page_alloc st cpu order selector type = Some (r, st') \<and> vs_inv n st'
    \<and> (case r of
         None \<Rightarrow> vs_avail st' = vs_avail st
       | Some p \<Rightarrow> (\<exists>j\<le>min (vs_zones_size st - 1) selector. block_valid p order (vs_zone st j))
           \<and> pages_at p order \<subseteq> vs_avail st \<and> vs_avail st' = vs_avail st - pages_at p order
           \<and> (\<forall>q\<in>pages_at p order. vp_type (vs_table st' ! q) = type))"
  using vm_page_alloc_spec [OF assms(1-3) _ assms(5), of order] assms(4)
  unfolding alloc_result_def VM_PAGE_NR_FREE_LISTS_def by blast

theorem vm_page_alloc_correct_witness:
  "\<exists>r st'. vm_page_alloc small_state 0 1 VM_PAGE_SEL_HIGHMEM 4 = Some (r, st') \<and> vs_inv 1 st'"
  using vm_page_alloc_correct [OF small_state_inv(1), of 0 3 1 4]
  by (auto simp: VM_PAGE_NR_FREE_LISTS_def VM_PAGE_FREE_def VM_PAGE_SEL_HIGHMEM_def)

text \<open>
  C24: Dropping a reference to an allocated page that has some takes one off its count and makes
  the page available exactly when that was the last one; no other page changes hands.
\<close>

theorem vm_page_unref_frees_last:
  assumes "vs_inv n st" "cpu < n" "i < vs_zones_size st" "in_zone (vs_zones st ! i) p"
    and "p \<notin> vs_avail st" "vp_nr_refs (vs_table st ! p) \<noteq> 0"
  shows "\<exists>st'. vm_page_unref st cpu p = Some st' \<and> vs_inv n st'
    \<and> vs_avail st' = (if vp_nr_refs (vs_table st ! p) = 1 then insert p (vs_avail st) else vs_avail st)
    \<and> vp_nr_refs (vs_table st' ! p) = vp_nr_refs (vs_table st ! p) - 1"
  using assms by (rule vm_page_unref_spec)

theorem vm_page_unref_frees_last_witness:
  "\<exists>st'. vm_page_unref small_shared 0 small_first = Some st' \<and> small_first \<in> vs_avail st'"
  using vm_page_unref_frees_last [OF small_shared_ok(1) _ _ small_shared_ok(3,4), of 0] small_shared_ok(2,5) by auto

end
