(* ===== verification/Fmt.thy ===== *)
theory Fmt
  imports Cstring
begin

text \<open>
  What the two halves of \<^verbatim>\<open>kern/fmt.c\<close> share: the flags, modifiers and
  specifiers of a conversion, the reading of a format string through a pointer, the classes of
  characters, and variable argument lists. An argument list is the list of the arguments passed, each
  with the type it has after the default promotions; reading one with another type stops the
  model, as does signed overflow.
\<close>

unbundle bit_operations_syntax

section \<open>Constants\<close>

abbreviation ch :: "char \<Rightarrow> u8" where "ch c \<equiv> of_char c"

definition CHAR_BIT :: nat where "CHAR_BIT = 8"
definition FMT_MAX_NUM_SIZE :: nat where "FMT_MAX_NUM_SIZE = 8 * CHAR_BIT div 3 + 1"
definition FMT_NOLIMIT :: u64 where "FMT_NOLIMIT = - 1"
definition C_EOF :: int where "C_EOF = - 1"

definition FMT_FORMAT_ALT_FORM :: u32 where "FMT_FORMAT_ALT_FORM = 0x0001"
definition FMT_FORMAT_ZERO_PAD :: u32 where "FMT_FORMAT_ZERO_PAD = 0x0002"
definition FMT_FORMAT_LEFT_JUSTIFY :: u32 where "FMT_FORMAT_LEFT_JUSTIFY = 0x0004"
definition FMT_FORMAT_BLANK :: u32 where "FMT_FORMAT_BLANK = 0x0008"
definition FMT_FORMAT_SIGN :: u32 where "FMT_FORMAT_SIGN = 0x0010"
definition FMT_FORMAT_LOWER :: u32 where "FMT_FORMAT_LOWER = 0x0020"
definition FMT_FORMAT_CONV_SIGNED :: u32 where "FMT_FORMAT_CONV_SIGNED = 0x0040"
definition FMT_FORMAT_DISCARD :: u32 where "FMT_FORMAT_DISCARD = 0x0080"
definition FMT_FORMAT_CHECK_WIDTH :: u32 where "FMT_FORMAT_CHECK_WIDTH = 0x0100"

definition fmt_flag :: "u32 \<Rightarrow> u32 \<Rightarrow> bool" where
  "fmt_flag flags f \<longleftrightarrow> flags AND f \<noteq> 0"

datatype fmt_modifier =
  MODIFIER_NONE | MODIFIER_CHAR | MODIFIER_SHORT | MODIFIER_LONG | MODIFIER_LONGLONG
  | MODIFIER_PTR | MODIFIER_SIZE | MODIFIER_PTRDIFF

datatype fmt_specifier =
  SPECIFIER_INVALID | SPECIFIER_INT | SPECIFIER_CHAR | SPECIFIER_STR
  | SPECIFIER_NRCHARS | SPECIFIER_PERCENT

definition fmt_digits :: "u8 list" where
  "fmt_digits = map of_char ''0123456789ABCDEF''"

section \<open>Arithmetic of \<^verbatim>\<open>int\<close>\<close>

definition cint :: "int \<Rightarrow> int option" where
  "cint x = (if - (2 ^ 31) \<le> x \<and> x < 2 ^ 31 then Some x else None)"

lemma cint_Some [simp]: "- (2 ^ 31) \<le> x \<Longrightarrow> x < 2 ^ 31 \<Longrightarrow> cint x = Some x"
  by (simp add: cint_def)

section \<open>Variable arguments\<close>

datatype va_arg = VInt u32 | VLong u64 | VPtr u64

fun va_int :: "va_arg list \<Rightarrow> (u32 \<times> va_arg list) option" where
  "va_int (VInt w # ap) = Some (w, ap)"
| "va_int _ = None"

fun va_long :: "va_arg list \<Rightarrow> (u64 \<times> va_arg list) option" where
  "va_long (VLong w # ap) = Some (w, ap)"
| "va_long _ = None"

fun va_ptr :: "va_arg list \<Rightarrow> (u64 \<times> va_arg list) option" where
  "va_ptr (VPtr w # ap) = Some (w, ap)"
| "va_ptr _ = None"

section \<open>Strings behind a pointer\<close>

definition fmt_consume :: "mem \<Rightarrow> u64 \<Rightarrow> (u8 \<times> u64) option" where
  "fmt_consume m strp = do { c \<leftarrow> load m strp; Some (c, strp + 1) }"

definition fmt_restore :: "u64 \<Rightarrow> u64" where "fmt_restore strp = strp - 1"

definition fmt_isdigit :: "u8 \<Rightarrow> bool" where
  "fmt_isdigit c \<longleftrightarrow> c \<ge> ch CHR ''0'' \<and> c \<le> ch CHR ''9''"

definition fmt_isxdigit :: "u8 \<Rightarrow> bool" where
  "fmt_isxdigit c \<longleftrightarrow> fmt_isdigit c \<or> c \<ge> ch CHR ''a'' \<and> c \<le> ch CHR ''f''
     \<or> c \<ge> ch CHR ''A'' \<and> c \<le> ch CHR ''F''"

text \<open>
  The loop that reads a decimal number of the format, shared by the widths and the precision: \<open>c\<close>
  is a digit already read. The result is the number and the pointer past the first other character.
\<close>

partial_function (option) fmt_number_loop :: "mem \<Rightarrow> u64 \<Rightarrow> int \<Rightarrow> u8 \<Rightarrow> (int \<times> u64) option" where
  "fmt_number_loop m strp n c = do {
     n \<leftarrow> cint (n * 10 + uint (c - ch CHR ''0''));
     (c, strp) \<leftarrow> fmt_consume m strp;
     if fmt_isdigit c then fmt_number_loop m strp n c else Some (n, strp) }"

section \<open>Storing through a pointer\<close>

text \<open>The machine is little-endian.\<close>

definition word_bytes :: "nat \<Rightarrow> u64 \<Rightarrow> u8 list" where
  "word_bytes n w = map (\<lambda>i. ucast (drop_bit (8 * i) w)) [0..<n]"

fun store_bytes :: "mem \<Rightarrow> u64 \<Rightarrow> u8 list \<Rightarrow> mem option" where
  "store_bytes m a [] = Some m"
| "store_bytes m a (c # cs) = do { m \<leftarrow> store m a c; store_bytes m (a + 1) cs }"

section \<open>Lemmas\<close>

lemma flag_bit:
  "fmt_flag f FMT_FORMAT_ALT_FORM \<longleftrightarrow> bit f 0" "fmt_flag f FMT_FORMAT_ZERO_PAD \<longleftrightarrow> bit f 1"
  "fmt_flag f FMT_FORMAT_LEFT_JUSTIFY \<longleftrightarrow> bit f 2" "fmt_flag f FMT_FORMAT_BLANK \<longleftrightarrow> bit f 3"
  "fmt_flag f FMT_FORMAT_SIGN \<longleftrightarrow> bit f 4" "fmt_flag f FMT_FORMAT_LOWER \<longleftrightarrow> bit f 5"
  "fmt_flag f FMT_FORMAT_CONV_SIGNED \<longleftrightarrow> bit f 6" "fmt_flag f FMT_FORMAT_DISCARD \<longleftrightarrow> bit f 7"
  "fmt_flag f FMT_FORMAT_CHECK_WIDTH \<longleftrightarrow> bit f 8"
proof -
  have "fmt_flag f (2 ^ k) \<longleftrightarrow> bit f k" for k
    by (simp add: fmt_flag_def and_exp_eq_0_iff_not_bit)
  note * = this [unfolded fmt_flag_def]
  show "fmt_flag f FMT_FORMAT_ALT_FORM \<longleftrightarrow> bit f 0" "fmt_flag f FMT_FORMAT_ZERO_PAD \<longleftrightarrow> bit f 1"
    "fmt_flag f FMT_FORMAT_LEFT_JUSTIFY \<longleftrightarrow> bit f 2" "fmt_flag f FMT_FORMAT_BLANK \<longleftrightarrow> bit f 3"
    "fmt_flag f FMT_FORMAT_SIGN \<longleftrightarrow> bit f 4" "fmt_flag f FMT_FORMAT_LOWER \<longleftrightarrow> bit f 5"
    "fmt_flag f FMT_FORMAT_CONV_SIGNED \<longleftrightarrow> bit f 6" "fmt_flag f FMT_FORMAT_DISCARD \<longleftrightarrow> bit f 7"
    "fmt_flag f FMT_FORMAT_CHECK_WIDTH \<longleftrightarrow> bit f 8"
    using * [of 0] * [of 1] * [of 2] * [of 3] * [of 4] * [of 5] * [of 6] * [of 7] * [of 8]
    by (simp_all add: fmt_flag_def FMT_FORMAT_ALT_FORM_def FMT_FORMAT_ZERO_PAD_def FMT_FORMAT_LEFT_JUSTIFY_def
        FMT_FORMAT_BLANK_def FMT_FORMAT_SIGN_def FMT_FORMAT_LOWER_def FMT_FORMAT_CONV_SIGNED_def
        FMT_FORMAT_DISCARD_def FMT_FORMAT_CHECK_WIDTH_def)
qed

lemmas flag_defs = FMT_FORMAT_ALT_FORM_def FMT_FORMAT_ZERO_PAD_def FMT_FORMAT_LEFT_JUSTIFY_def
  FMT_FORMAT_BLANK_def FMT_FORMAT_SIGN_def FMT_FORMAT_LOWER_def FMT_FORMAT_CONV_SIGNED_def
  FMT_FORMAT_DISCARD_def FMT_FORMAT_CHECK_WIDTH_def

end
