(* ===== verification/Fmt_Scan.thy ===== *)
theory Fmt_Scan
  imports Fmt
begin

text \<open>
  The scanning half of \<^verbatim>\<open>kern/fmt.c\<close>: a state that walks the input and
  the format string together, stores the converted values through the pointers of its argument list
  and counts them. The buffer that collects the digits of a number starts with zeros in the model; the
  code reads only the bytes it has written.
\<close>

unbundle bit_operations_syntax

record fmt_sscanf_state =
  sc_str :: u64
  sc_start :: u64
  sc_format :: u64
  sc_ap :: "va_arg list"
  sc_flags :: u32
  sc_width :: int
  sc_precision :: int
  sc_modifier :: fmt_modifier
  sc_specifier :: fmt_specifier
  sc_base :: u32
  sc_nr_convs :: int
  sc_mem :: mem

section \<open>Characters\<close>

definition char_EOF :: u8 where "char_EOF = - 1"

definition fmt_atoi :: "u8 \<Rightarrow> u8 option" where
  "fmt_atoi c = do {
     assert_that (fmt_isxdigit c);
     Some (if fmt_isdigit c then c - ch CHR ''0''
       else if c \<ge> ch CHR ''a'' \<and> c \<le> ch CHR ''f'' then 10 + (c - ch CHR ''a'')
       else 10 + (c - ch CHR ''A'')) }"

definition fmt_isspace :: "u8 \<Rightarrow> bool" where
  "fmt_isspace c \<longleftrightarrow> c = ch CHR '' '' \<or> c \<ge> ch CHR 0x09 \<and> c \<le> ch CHR 0x0C"

partial_function (option) fmt_skip :: "mem \<Rightarrow> u64 \<Rightarrow> u64 option" where
  "fmt_skip m strp = do {
     c \<leftarrow> load m strp;
     if fmt_isspace c then fmt_skip m (strp + 1) else Some strp }"

definition fmt_sscanf_state_init ::
  "fmt_sscanf_state \<Rightarrow> u64 \<Rightarrow> u64 \<Rightarrow> va_arg list \<Rightarrow> mem \<Rightarrow> fmt_sscanf_state" where
  "fmt_sscanf_state_init st str format ap m =
     st\<lparr>sc_str := str, sc_start := str, sc_format := format, sc_flags := 0, sc_width := 0, sc_ap := ap,
       sc_nr_convs := 0, sc_mem := m\<rparr>"

definition fmt_sscanf_state_finalize :: "fmt_sscanf_state \<Rightarrow> int" where
  "fmt_sscanf_state_finalize st = sc_nr_convs st"

definition fmt_sscanf_state_report_conv :: "fmt_sscanf_state \<Rightarrow> fmt_sscanf_state" where
  "fmt_sscanf_state_report_conv st =
     (if sc_nr_convs st = C_EOF then st\<lparr>sc_nr_convs := 1\<rparr> else st\<lparr>sc_nr_convs := sc_nr_convs st + 1\<rparr>)"

definition fmt_sscanf_state_report_error :: "fmt_sscanf_state \<Rightarrow> fmt_sscanf_state" where
  "fmt_sscanf_state_report_error st =
     (if sc_nr_convs st \<noteq> 0 then st else st\<lparr>sc_nr_convs := C_EOF\<rparr>)"

definition fmt_sscanf_state_skip_space :: "fmt_sscanf_state \<Rightarrow> fmt_sscanf_state option" where
  "fmt_sscanf_state_skip_space st = do {
     p \<leftarrow> fmt_skip (sc_mem st) (sc_str st);
     Some (st\<lparr>sc_str := p\<rparr>) }"

definition sscanf_flag :: "fmt_sscanf_state \<Rightarrow> u32 \<Rightarrow> bool" where
  "sscanf_flag st f = fmt_flag (sc_flags st) f"

definition sscanf_set_flag :: "u32 \<Rightarrow> fmt_sscanf_state \<Rightarrow> fmt_sscanf_state" where
  "sscanf_set_flag f st = st\<lparr>sc_flags := sc_flags st OR f\<rparr>"

definition fmt_sscanf_state_consume_string :: "fmt_sscanf_state \<Rightarrow> (u8 \<times> fmt_sscanf_state) option" where
  "fmt_sscanf_state_consume_string st = do {
     (c, p) \<leftarrow> fmt_consume (sc_mem st) (sc_str st);
     let st = st\<lparr>sc_str := p\<rparr>;
     Some (if sscanf_flag st FMT_FORMAT_CHECK_WIDTH then
         (if sc_width st = 0 then (char_EOF, st) else (c, st\<lparr>sc_width := sc_width st - 1\<rparr>))
       else (c, st)) }"

definition fmt_sscanf_state_restore_string :: "fmt_sscanf_state \<Rightarrow> fmt_sscanf_state" where
  "fmt_sscanf_state_restore_string st = st\<lparr>sc_str := fmt_restore (sc_str st)\<rparr>"

definition fmt_sscanf_state_consume_format :: "fmt_sscanf_state \<Rightarrow> (u8 \<times> fmt_sscanf_state) option" where
  "fmt_sscanf_state_consume_format st = do {
     (c, p) \<leftarrow> fmt_consume (sc_mem st) (sc_format st);
     Some (c, st\<lparr>sc_format := p\<rparr>) }"

definition fmt_sscanf_state_restore_format :: "fmt_sscanf_state \<Rightarrow> fmt_sscanf_state" where
  "fmt_sscanf_state_restore_format st = st\<lparr>sc_format := fmt_restore (sc_format st)\<rparr>"

section \<open>Reading a conversion\<close>

partial_function (option) sscanf_flags_loop :: "fmt_sscanf_state \<Rightarrow> fmt_sscanf_state option" where
  "sscanf_flags_loop st = do {
     (c, st) \<leftarrow> fmt_sscanf_state_consume_format st;
     if c = ch CHR ''*'' then sscanf_flags_loop (sscanf_set_flag FMT_FORMAT_DISCARD st)
     else Some st }"

definition fmt_sscanf_state_consume_flags :: "fmt_sscanf_state \<Rightarrow> fmt_sscanf_state option" where
  "fmt_sscanf_state_consume_flags st = do {
     st \<leftarrow> sscanf_flags_loop (st\<lparr>sc_flags := 0\<rparr>);
     Some (fmt_sscanf_state_restore_format st) }"

definition fmt_sscanf_state_consume_width :: "fmt_sscanf_state \<Rightarrow> fmt_sscanf_state option" where
  "fmt_sscanf_state_consume_width st = do {
     (c, st) \<leftarrow> fmt_sscanf_state_consume_format st;
     (width, p) \<leftarrow> (if fmt_isdigit c then fmt_number_loop (sc_mem st) (sc_format st) 0 c
       else Some (0, sc_format st));
     let st = st\<lparr>sc_width := width, sc_format := p\<rparr>;
     let st = (if sc_width st \<noteq> 0 then sscanf_set_flag FMT_FORMAT_CHECK_WIDTH st else st);
     Some (fmt_sscanf_state_restore_format st) }"

definition fmt_sscanf_state_consume_modifier :: "fmt_sscanf_state \<Rightarrow> fmt_sscanf_state option" where
  "fmt_sscanf_state_consume_modifier st = do {
     (c, st) \<leftarrow> fmt_sscanf_state_consume_format st;
     if c = ch CHR ''h'' \<or> c = ch CHR ''l'' then do {
       (c2, st) \<leftarrow> fmt_sscanf_state_consume_format st;
       if c = c2 then
         Some (st\<lparr>sc_modifier := (if c = ch CHR ''h'' then MODIFIER_CHAR else MODIFIER_LONGLONG)\<rparr>)
       else
         Some (fmt_sscanf_state_restore_format
           (st\<lparr>sc_modifier := (if c = ch CHR ''h'' then MODIFIER_SHORT else MODIFIER_LONG)\<rparr>)) }
     else if c = ch CHR ''z'' then Some (st\<lparr>sc_modifier := MODIFIER_SIZE\<rparr>)
     else if c = ch CHR ''t'' then Some (st\<lparr>sc_modifier := MODIFIER_PTRDIFF\<rparr>)
     else Some (fmt_sscanf_state_restore_format (st\<lparr>sc_modifier := MODIFIER_NONE\<rparr>)) }"

definition fmt_sscanf_state_consume_specifier :: "fmt_sscanf_state \<Rightarrow> fmt_sscanf_state option" where
  "fmt_sscanf_state_consume_specifier st = do {
     (c, st) \<leftarrow> fmt_sscanf_state_consume_format st;
     Some (
       if c = ch CHR ''i'' then
         (sscanf_set_flag FMT_FORMAT_CONV_SIGNED st)\<lparr>sc_base := 0, sc_specifier := SPECIFIER_INT\<rparr>
       else if c = ch CHR ''d'' then
         (sscanf_set_flag FMT_FORMAT_CONV_SIGNED st)\<lparr>sc_base := 10, sc_specifier := SPECIFIER_INT\<rparr>
       else if c = ch CHR ''u'' then st\<lparr>sc_base := 10, sc_specifier := SPECIFIER_INT\<rparr>
       else if c = ch CHR ''o'' then st\<lparr>sc_base := 8, sc_specifier := SPECIFIER_INT\<rparr>
       else if c = ch CHR ''p'' then
         st\<lparr>sc_modifier := MODIFIER_PTR, sc_base := 16, sc_specifier := SPECIFIER_INT\<rparr>
       else if c = ch CHR ''x'' \<or> c = ch CHR ''X'' then st\<lparr>sc_base := 16, sc_specifier := SPECIFIER_INT\<rparr>
       else if c = ch CHR ''c'' then st\<lparr>sc_specifier := SPECIFIER_CHAR\<rparr>
       else if c = ch CHR ''s'' then st\<lparr>sc_specifier := SPECIFIER_STR\<rparr>
       else if c = ch CHR ''n'' then st\<lparr>sc_specifier := SPECIFIER_NRCHARS\<rparr>
       else if c = ch CHR ''%'' then st\<lparr>sc_specifier := SPECIFIER_PERCENT\<rparr>
       else fmt_sscanf_state_restore_format (st\<lparr>sc_specifier := SPECIFIER_INVALID\<rparr>)) }"

definition fmt_sscanf_state_discard_char ::
  "fmt_sscanf_state \<Rightarrow> u8 \<Rightarrow> (errno option \<times> fmt_sscanf_state) option" where
  "fmt_sscanf_state_discard_char st c =
     (if fmt_isspace c then do {
        st \<leftarrow> fmt_sscanf_state_skip_space st;
        Some (None, st) }
      else do {
        (c2, st) \<leftarrow> fmt_sscanf_state_consume_string st;
        if c \<noteq> c2 then
          Some (Some EINVAL, if c2 = 0 \<and> sc_nr_convs st = 0 then st\<lparr>sc_nr_convs := C_EOF\<rparr> else st)
        else Some (None, st) })"

definition fmt_sscanf_state_consume :: "fmt_sscanf_state \<Rightarrow> (errno option \<times> fmt_sscanf_state) option" where
  "fmt_sscanf_state_consume st = do {
     (c, st) \<leftarrow> fmt_sscanf_state_consume_format (st\<lparr>sc_flags := 0\<rparr>);
     if c = 0 then Some (Some ENOENT, st)
     else if c \<noteq> ch CHR ''%'' then do {
       (error, st) \<leftarrow> fmt_sscanf_state_discard_char st c;
       Some (if error \<noteq> None then error else Some EAGAIN, st) }
     else do {
       st \<leftarrow> fmt_sscanf_state_consume_flags st;
       st \<leftarrow> fmt_sscanf_state_consume_width st;
       st \<leftarrow> fmt_sscanf_state_consume_modifier st;
       st \<leftarrow> fmt_sscanf_state_consume_specifier st;
       Some (None, st) } }"

section \<open>Numbers\<close>

text \<open>The sign, and the first character after it.\<close>

definition sscanf_sign :: "fmt_sscanf_state \<Rightarrow> (bool \<times> u8 \<times> fmt_sscanf_state) option" where
  "sscanf_sign st = do {
     st \<leftarrow> fmt_sscanf_state_skip_space st;
     (c, st) \<leftarrow> fmt_sscanf_state_consume_string st;
     if c = ch CHR ''-'' then do {
       (c, st) \<leftarrow> fmt_sscanf_state_consume_string st;
       Some (True, c, st) }
     else Some (False, c, st) }"

text \<open>The prefix, which settles the base of \<^verbatim>\<open>%i\<close>, and the first digit.\<close>

definition sscanf_prefix :: "u8 \<Rightarrow> fmt_sscanf_state \<Rightarrow> (u8 \<times> fmt_sscanf_state) option" where
  "sscanf_prefix c st =
     (if c = ch CHR ''0'' then do {
        (c, st) \<leftarrow> fmt_sscanf_state_consume_string st;
        if c = ch CHR ''x'' \<or> c = ch CHR ''X'' then do {
          let st = (if sc_base st = 0 then st\<lparr>sc_base := 16\<rparr> else st);
          if sc_base st = 16 then fmt_sscanf_state_consume_string st
          else Some (ch CHR ''0'', fmt_sscanf_state_restore_string st) }
        else do {
          let st = (if sc_base st = 0 then st\<lparr>sc_base := 8\<rparr> else st);
          if sc_base st \<noteq> 8 then Some (ch CHR ''0'', fmt_sscanf_state_restore_string st)
          else Some (c, st) } }
      else Some (c, st))"

definition sscanf_isdigit :: "u32 \<Rightarrow> u8 \<Rightarrow> bool" where
  "sscanf_isdigit base c \<longleftrightarrow>
     (if base = 8 then c \<ge> ch CHR ''0'' \<and> c \<le> ch CHR ''7''
      else if base = 16 then fmt_isxdigit c
      else fmt_isdigit c)"

text \<open>Collecting the digits: their number, the sign, the buffer and the character that ends them.\<close>

partial_function (option) sscanf_digits ::
  "nat \<Rightarrow> bool \<Rightarrow> u8 list \<Rightarrow> u8 \<Rightarrow> fmt_sscanf_state \<Rightarrow> (nat \<times> bool \<times> u8 list \<times> u8 \<times> fmt_sscanf_state) option" where
  "sscanf_digits i negative buf c st =
     (if c = 0 \<or> \<not> sscanf_isdigit (sc_base st) c then Some (i, negative, buf, c, st)
      else do {
        (negative, buf) \<leftarrow>
          (if i < FMT_MAX_NUM_SIZE - 1 then do { buf \<leftarrow> upd_opt buf i c; Some (negative, buf) }
           else if i = FMT_MAX_NUM_SIZE - 1 then do {
             buf \<leftarrow> upd_opt buf 0 (ch CHR ''1'');
             buf \<leftarrow> upd_opt buf 1 0;
             Some (True, buf) }
           else Some (negative, buf));
        (c, st) \<leftarrow> fmt_sscanf_state_consume_string st;
        sscanf_digits (Suc i) negative buf c st })"

text \<open>The value of the digits below index \<open>i\<close>, last first; an overflow that the code
  notices gives 1 and a negative sign.\<close>

fun sscanf_value :: "u64 \<Rightarrow> u8 list \<Rightarrow> nat \<Rightarrow> u64 \<Rightarrow> u64 \<Rightarrow> u64 \<Rightarrow> (u64 \<times> bool) option" where
  "sscanf_value base buf 0 n md tmp = Some (n, False)"
| "sscanf_value base buf (Suc i) n md tmp = do {
     c \<leftarrow> nth_opt buf i;
     d \<leftarrow> fmt_atoi c;
     let tmp = tmp + ucast d * md;
     if tmp < n then Some (1, True)
     else sscanf_value base buf i tmp (md * base) tmp }"

definition sscanf_store_int :: "u64 \<Rightarrow> fmt_sscanf_state \<Rightarrow> fmt_sscanf_state option" where
  "sscanf_store_int n st = do {
     (ptr, ap) \<leftarrow> va_ptr (sc_ap st);
     let k = (case sc_modifier st of
         MODIFIER_CHAR \<Rightarrow> 1 | MODIFIER_SHORT \<Rightarrow> 2 | MODIFIER_LONG \<Rightarrow> 8 | MODIFIER_LONGLONG \<Rightarrow> 8
       | MODIFIER_PTR \<Rightarrow> 8 | MODIFIER_SIZE \<Rightarrow> 8 | MODIFIER_PTRDIFF \<Rightarrow> 8 | MODIFIER_NONE \<Rightarrow> 4);
     m \<leftarrow> store_bytes (sc_mem st) ptr (word_bytes k n);
     Some (st\<lparr>sc_ap := ap, sc_mem := m\<rparr>) }"

definition fmt_sscanf_state_produce_int :: "fmt_sscanf_state \<Rightarrow> (errno option \<times> fmt_sscanf_state) option" where
  "fmt_sscanf_state_produce_int st = do {
     (negative, c, st) \<leftarrow> sscanf_sign st;
     (c, st) \<leftarrow> sscanf_prefix c st;
     (i, negative, buf, c, st) \<leftarrow> sscanf_digits 0 negative (replicate FMT_MAX_NUM_SIZE 0) c st;
     let st = fmt_sscanf_state_restore_string st;
     if sscanf_flag st FMT_FORMAT_DISCARD then Some (None, st)
     else if i = 0 \<and> c = 0 then Some (Some EINVAL, fmt_sscanf_state_report_error st)
     else do {
       (i, buf) \<leftarrow> (if i = 0 then do { buf \<leftarrow> upd_opt buf 0 (ch CHR ''0''); Some (1, buf) } else Some (i, buf));
       (i, buf) \<leftarrow> (if i < FMT_MAX_NUM_SIZE then do { buf \<leftarrow> upd_opt buf i 0; Some (i, buf) }
         else Some (length (takeWhile (\<lambda>c. c \<noteq> 0) buf), buf));
       (n, overflow) \<leftarrow> sscanf_value (ucast (sc_base st)) buf i 0 1 0;
       st \<leftarrow> sscanf_store_int (if negative \<or> overflow then - n else n) st;
       Some (None, fmt_sscanf_state_report_conv st) } }"

section \<open>Characters, strings and counts\<close>

fun sscanf_chars :: "nat \<Rightarrow> nat \<Rightarrow> u64 \<Rightarrow> fmt_sscanf_state \<Rightarrow> (nat \<times> fmt_sscanf_state) option" where
  "sscanf_chars 0 i dest st = Some (i, st)"
| "sscanf_chars (Suc k) i dest st = do {
     (c, st) \<leftarrow> fmt_sscanf_state_consume_string st;
     if c = 0 \<or> c = char_EOF then Some (i, st)
     else if dest \<noteq> 0 then do {
       m \<leftarrow> store (sc_mem st) dest c;
       sscanf_chars k (Suc i) (dest + 1) (st\<lparr>sc_mem := m\<rparr>) }
     else sscanf_chars k (Suc i) dest st }"

definition sscanf_dest :: "fmt_sscanf_state \<Rightarrow> (u64 \<times> fmt_sscanf_state) option" where
  "sscanf_dest st =
     (if sscanf_flag st FMT_FORMAT_DISCARD then Some (0, st)
      else do { (dest, ap) \<leftarrow> va_ptr (sc_ap st); Some (dest, st\<lparr>sc_ap := ap\<rparr>) })"

definition fmt_sscanf_state_produce_char :: "fmt_sscanf_state \<Rightarrow> (errno option \<times> fmt_sscanf_state) option" where
  "fmt_sscanf_state_produce_char st = do {
     (dest, st) \<leftarrow> sscanf_dest st;
     let width = (if sscanf_flag st FMT_FORMAT_CHECK_WIDTH then nat (sc_width st) else 1);
     (i, st) \<leftarrow> sscanf_chars width 0 dest st;
     let st = (if i < width then fmt_sscanf_state_restore_string st else st);
     Some (None, if dest \<noteq> 0 \<and> i \<noteq> 0 then fmt_sscanf_state_report_conv st else st) }"

partial_function (option) sscanf_word :: "u64 \<Rightarrow> fmt_sscanf_state \<Rightarrow> (u64 \<times> fmt_sscanf_state) option" where
  "sscanf_word dest st = do {
     (c, st) \<leftarrow> fmt_sscanf_state_consume_string st;
     if c = 0 \<or> c = ch CHR '' '' \<or> c = char_EOF then Some (dest, st)
     else if dest \<noteq> 0 then do {
       m \<leftarrow> store (sc_mem st) dest c;
       sscanf_word (dest + 1) (st\<lparr>sc_mem := m\<rparr>) }
     else sscanf_word dest st }"

definition fmt_sscanf_state_produce_str :: "fmt_sscanf_state \<Rightarrow> (errno option \<times> fmt_sscanf_state) option" where
  "fmt_sscanf_state_produce_str st = do {
     let orig = sc_str st;
     st \<leftarrow> fmt_sscanf_state_skip_space st;
     (dest, st) \<leftarrow> sscanf_dest st;
     (dest, st) \<leftarrow> sscanf_word dest st;
     let st = fmt_sscanf_state_restore_string st;
     if sc_str st = orig then Some (Some EINVAL, fmt_sscanf_state_report_error st)
     else if dest \<noteq> 0 then do {
       m \<leftarrow> store (sc_mem st) dest 0;
       Some (None, fmt_sscanf_state_report_conv (st\<lparr>sc_mem := m\<rparr>)) }
     else Some (None, st) }"

definition fmt_sscanf_state_produce_nrchars :: "fmt_sscanf_state \<Rightarrow> (errno option \<times> fmt_sscanf_state) option" where
  "fmt_sscanf_state_produce_nrchars st = do {
     (ptr, ap) \<leftarrow> va_ptr (sc_ap st);
     m \<leftarrow> store_bytes (sc_mem st) ptr (word_bytes 4 (sc_str st - sc_start st));
     Some (None, st\<lparr>sc_ap := ap, sc_mem := m\<rparr>) }"

definition fmt_sscanf_state_produce :: "fmt_sscanf_state \<Rightarrow> (errno option \<times> fmt_sscanf_state) option" where
  "fmt_sscanf_state_produce st = (case sc_specifier st of
     SPECIFIER_INT \<Rightarrow> fmt_sscanf_state_produce_int st
   | SPECIFIER_CHAR \<Rightarrow> fmt_sscanf_state_produce_char st
   | SPECIFIER_STR \<Rightarrow> fmt_sscanf_state_produce_str st
   | SPECIFIER_NRCHARS \<Rightarrow> fmt_sscanf_state_produce_nrchars st
   | SPECIFIER_PERCENT \<Rightarrow> do {
       st \<leftarrow> fmt_sscanf_state_skip_space st;
       fmt_sscanf_state_discard_char st (ch CHR ''%'') }
   | SPECIFIER_INVALID \<Rightarrow> Some (Some EINVAL, fmt_sscanf_state_report_error st))"

section \<open>The functions of the module\<close>

partial_function (option) vsscanf_loop :: "fmt_sscanf_state \<Rightarrow> fmt_sscanf_state option" where
  "vsscanf_loop st = do {
     (error, st) \<leftarrow> fmt_sscanf_state_consume st;
     if error = Some EAGAIN then vsscanf_loop st
     else if error \<noteq> None then Some st
     else do {
       (error, st) \<leftarrow> fmt_sscanf_state_produce st;
       if error \<noteq> None then Some st else vsscanf_loop st } }"

definition fmt_vsscanf ::
  "fmt_sscanf_state \<Rightarrow> u64 \<Rightarrow> u64 \<Rightarrow> va_arg list \<Rightarrow> mem \<Rightarrow> (int \<times> mem) option" where
  "fmt_vsscanf garbage str format ap m = do {
     st \<leftarrow> vsscanf_loop (fmt_sscanf_state_init garbage str format ap m);
     Some (fmt_sscanf_state_finalize st, sc_mem st) }"

definition fmt_sscanf ::
  "fmt_sscanf_state \<Rightarrow> u64 \<Rightarrow> u64 \<Rightarrow> va_arg list \<Rightarrow> mem \<Rightarrow> (int \<times> mem) option" where
  "fmt_sscanf garbage str format ap m = fmt_vsscanf garbage str format ap m"

end
