(* ===== verification/Fmt_Print.thy ===== *)
theory Fmt_Print
  imports Fmt
begin

text \<open>
  The formatting half of \<^verbatim>\<open>kern/fmt.c\<close>, as it is written: a state that
  walks the format string, collects the flags, width, precision, modifier and specifier of a
  conversion, and produces characters up to the end of the buffer while it counts those that do not
  fit. The memory is a field of the state. Fields that the initialisation leaves undefined have
  arbitrary values.
\<close>

unbundle bit_operations_syntax

record fmt_sprintf_state =
  sp_format :: u64
  sp_ap :: "va_arg list"
  sp_flags :: u32
  sp_width :: int
  sp_precision :: int
  sp_modifier :: fmt_modifier
  sp_specifier :: fmt_specifier
  sp_base :: u32
  sp_str :: u64
  sp_start :: u64
  sp_end :: u64
  sp_mem :: mem

section \<open>Characters\<close>

definition fmt_vsnprintf_produce :: "mem \<Rightarrow> u64 \<Rightarrow> u64 \<Rightarrow> u8 \<Rightarrow> (u64 \<times> mem) option" where
  "fmt_vsnprintf_produce m strp end c = do {
     m \<leftarrow> (if strp < end then store m strp c else Some m);
     Some (strp + 1, m) }"

definition fmt_sprintf_state_init ::
  "fmt_sprintf_state \<Rightarrow> u64 \<Rightarrow> u64 \<Rightarrow> u64 \<Rightarrow> va_arg list \<Rightarrow> mem \<Rightarrow> fmt_sprintf_state" where
  "fmt_sprintf_state_init st str sz format ap m =
     st\<lparr>sp_format := format, sp_ap := ap, sp_str := str, sp_start := str,
       sp_end := (if sz = 0 then 0 else if sz = FMT_NOLIMIT then - 1 else str + sz - 1), sp_mem := m\<rparr>"

text \<open>The result is an \<^verbatim>\<open>int\<close>: the low half of the pointer difference.\<close>

definition fmt_sprintf_state_finalize :: "fmt_sprintf_state \<Rightarrow> (int \<times> mem) option" where
  "fmt_sprintf_state_finalize st = do {
     m \<leftarrow> (if sp_str st < sp_end st then store (sp_mem st) (sp_str st) 0
       else if sp_end st \<noteq> 0 then store (sp_mem st) (sp_end st) 0
       else Some (sp_mem st));
     Some (sint (ucast (sp_str st - sp_start st) :: u32), m) }"

definition fmt_sprintf_state_consume_format :: "fmt_sprintf_state \<Rightarrow> (u8 \<times> fmt_sprintf_state) option" where
  "fmt_sprintf_state_consume_format st = do {
     (c, p) \<leftarrow> fmt_consume (sp_mem st) (sp_format st);
     Some (c, st\<lparr>sp_format := p\<rparr>) }"

definition fmt_sprintf_state_restore_format :: "fmt_sprintf_state \<Rightarrow> fmt_sprintf_state" where
  "fmt_sprintf_state_restore_format st = st\<lparr>sp_format := fmt_restore (sp_format st)\<rparr>"

definition sprintf_set_flag :: "u32 \<Rightarrow> fmt_sprintf_state \<Rightarrow> fmt_sprintf_state" where
  "sprintf_set_flag f st = st\<lparr>sp_flags := sp_flags st OR f\<rparr>"

definition sprintf_flag :: "fmt_sprintf_state \<Rightarrow> u32 \<Rightarrow> bool" where
  "sprintf_flag st f = fmt_flag (sp_flags st) f"

section \<open>Reading a conversion\<close>

partial_function (option) sprintf_flags_loop :: "fmt_sprintf_state \<Rightarrow> fmt_sprintf_state option" where
  "sprintf_flags_loop st = do {
     (c, st) \<leftarrow> fmt_sprintf_state_consume_format st;
     if c = ch CHR ''#'' then sprintf_flags_loop (sprintf_set_flag FMT_FORMAT_ALT_FORM st)
     else if c = ch CHR ''0'' then sprintf_flags_loop (sprintf_set_flag FMT_FORMAT_ZERO_PAD st)
     else if c = ch CHR ''-'' then sprintf_flags_loop (sprintf_set_flag FMT_FORMAT_LEFT_JUSTIFY st)
     else if c = ch CHR '' '' then sprintf_flags_loop (sprintf_set_flag FMT_FORMAT_BLANK st)
     else if c = ch CHR ''+'' then sprintf_flags_loop (sprintf_set_flag FMT_FORMAT_SIGN st)
     else Some st }"

definition fmt_sprintf_state_consume_flags :: "fmt_sprintf_state \<Rightarrow> fmt_sprintf_state option" where
  "fmt_sprintf_state_consume_flags st = do {
     st \<leftarrow> sprintf_flags_loop (st\<lparr>sp_flags := 0\<rparr>);
     Some (fmt_sprintf_state_restore_format st) }"

definition fmt_sprintf_state_consume_width :: "fmt_sprintf_state \<Rightarrow> fmt_sprintf_state option" where
  "fmt_sprintf_state_consume_width st = do {
     (c, st) \<leftarrow> fmt_sprintf_state_consume_format st;
     if fmt_isdigit c then do {
       (width, p) \<leftarrow> fmt_number_loop (sp_mem st) (sp_format st) 0 c;
       Some (fmt_sprintf_state_restore_format (st\<lparr>sp_width := width, sp_format := p\<rparr>)) }
     else if c = ch CHR ''*'' then do {
       (w, ap) \<leftarrow> va_int (sp_ap st);
       let st = st\<lparr>sp_ap := ap, sp_width := sint w\<rparr>;
       if sp_width st < 0 then do {
         width \<leftarrow> cint (- sp_width st);
         Some ((sprintf_set_flag FMT_FORMAT_LEFT_JUSTIFY st)\<lparr>sp_width := width\<rparr>) }
       else Some st }
     else Some (fmt_sprintf_state_restore_format (st\<lparr>sp_width := 0\<rparr>)) }"

definition fmt_sprintf_state_consume_precision :: "fmt_sprintf_state \<Rightarrow> fmt_sprintf_state option" where
  "fmt_sprintf_state_consume_precision st = do {
     (c, st) \<leftarrow> fmt_sprintf_state_consume_format st;
     if c = ch CHR ''.'' then do {
       (c, st) \<leftarrow> fmt_sprintf_state_consume_format st;
       if fmt_isdigit c then do {
         (precision, p) \<leftarrow> fmt_number_loop (sp_mem st) (sp_format st) 0 c;
         Some (fmt_sprintf_state_restore_format (st\<lparr>sp_precision := precision, sp_format := p\<rparr>)) }
       else if c = ch CHR ''*'' then do {
         (w, ap) \<leftarrow> va_int (sp_ap st);
         Some (st\<lparr>sp_ap := ap, sp_precision := (if sint w < 0 then 0 else sint w)\<rparr>) }
       else Some (fmt_sprintf_state_restore_format (st\<lparr>sp_precision := 0\<rparr>)) }
     else Some (fmt_sprintf_state_restore_format (st\<lparr>sp_precision := - 1\<rparr>)) }"

text \<open>The modifier \<^verbatim>\<open>z\<close> falls through to \<^verbatim>\<open>t\<close>.\<close>

definition fmt_sprintf_state_consume_modifier :: "fmt_sprintf_state \<Rightarrow> fmt_sprintf_state option" where
  "fmt_sprintf_state_consume_modifier st = do {
     (c, st) \<leftarrow> fmt_sprintf_state_consume_format st;
     if c = ch CHR ''h'' \<or> c = ch CHR ''l'' then do {
       (c2, st) \<leftarrow> fmt_sprintf_state_consume_format st;
       if c = c2 then
         Some (st\<lparr>sp_modifier := (if c = ch CHR ''h'' then MODIFIER_CHAR else MODIFIER_LONGLONG)\<rparr>)
       else
         Some (fmt_sprintf_state_restore_format
           (st\<lparr>sp_modifier := (if c = ch CHR ''h'' then MODIFIER_SHORT else MODIFIER_LONG)\<rparr>)) }
     else if c = ch CHR ''z'' \<or> c = ch CHR ''t'' then Some (st\<lparr>sp_modifier := MODIFIER_PTRDIFF\<rparr>)
     else Some (fmt_sprintf_state_restore_format (st\<lparr>sp_modifier := MODIFIER_NONE\<rparr>)) }"

definition fmt_sprintf_state_consume_specifier :: "fmt_sprintf_state \<Rightarrow> fmt_sprintf_state option" where
  "fmt_sprintf_state_consume_specifier st = do {
     (c, st) \<leftarrow> fmt_sprintf_state_consume_format st;
     Some (
       if c = ch CHR ''d'' \<or> c = ch CHR ''i'' then
         (sprintf_set_flag FMT_FORMAT_CONV_SIGNED st)\<lparr>sp_base := 10, sp_specifier := SPECIFIER_INT\<rparr>
       else if c = ch CHR ''u'' then st\<lparr>sp_base := 10, sp_specifier := SPECIFIER_INT\<rparr>
       else if c = ch CHR ''o'' then st\<lparr>sp_base := 8, sp_specifier := SPECIFIER_INT\<rparr>
       else if c = ch CHR ''p'' then
         (sprintf_set_flag FMT_FORMAT_LOWER (sprintf_set_flag FMT_FORMAT_ALT_FORM st))
           \<lparr>sp_modifier := MODIFIER_PTR, sp_base := 16, sp_specifier := SPECIFIER_INT\<rparr>
       else if c = ch CHR ''x'' then
         (sprintf_set_flag FMT_FORMAT_LOWER st)\<lparr>sp_base := 16, sp_specifier := SPECIFIER_INT\<rparr>
       else if c = ch CHR ''X'' then st\<lparr>sp_base := 16, sp_specifier := SPECIFIER_INT\<rparr>
       else if c = ch CHR ''c'' then st\<lparr>sp_specifier := SPECIFIER_CHAR\<rparr>
       else if c = ch CHR ''s'' then st\<lparr>sp_specifier := SPECIFIER_STR\<rparr>
       else if c = ch CHR ''n'' then st\<lparr>sp_specifier := SPECIFIER_NRCHARS\<rparr>
       else if c = ch CHR ''%'' then st\<lparr>sp_specifier := SPECIFIER_PERCENT\<rparr>
       else fmt_sprintf_state_restore_format (st\<lparr>sp_specifier := SPECIFIER_INVALID\<rparr>)) }"

definition fmt_sprintf_state_produce_raw_char :: "fmt_sprintf_state \<Rightarrow> u8 \<Rightarrow> fmt_sprintf_state option" where
  "fmt_sprintf_state_produce_raw_char st c = do {
     (p, m) \<leftarrow> fmt_vsnprintf_produce (sp_mem st) (sp_str st) (sp_end st) c;
     Some (st\<lparr>sp_str := p, sp_mem := m\<rparr>) }"

definition fmt_sprintf_state_consume :: "fmt_sprintf_state \<Rightarrow> (errno option \<times> fmt_sprintf_state) option" where
  "fmt_sprintf_state_consume st = do {
     (c, st) \<leftarrow> fmt_sprintf_state_consume_format st;
     if c = 0 then Some (Some ENOENT, st)
     else if c \<noteq> ch CHR ''%'' then do {
       st \<leftarrow> fmt_sprintf_state_produce_raw_char st c;
       Some (Some EAGAIN, st) }
     else do {
       st \<leftarrow> fmt_sprintf_state_consume_flags st;
       st \<leftarrow> fmt_sprintf_state_consume_width st;
       st \<leftarrow> fmt_sprintf_state_consume_precision st;
       st \<leftarrow> fmt_sprintf_state_consume_modifier st;
       st \<leftarrow> fmt_sprintf_state_consume_specifier st;
       Some (None, st) } }"

section \<open>Numbers\<close>

text \<open>Fetching the argument, extended to 64 bits by its sign or by zeros.\<close>

definition sprintf_fetch_int :: "fmt_sprintf_state \<Rightarrow> (u64 \<times> fmt_sprintf_state) option" where
  "sprintf_fetch_int st = (let signed = sprintf_flag st FMT_FORMAT_CONV_SIGNED in
     case sp_modifier st of
       MODIFIER_CHAR \<Rightarrow> do {
         (w, ap) \<leftarrow> va_int (sp_ap st);
         Some (if signed then scast (ucast w :: u8) else ucast (ucast w :: u8), st\<lparr>sp_ap := ap\<rparr>) }
     | MODIFIER_SHORT \<Rightarrow> do {
         (w, ap) \<leftarrow> va_int (sp_ap st);
         Some (if signed then scast (ucast w :: u16) else ucast (ucast w :: u16), st\<lparr>sp_ap := ap\<rparr>) }
     | MODIFIER_LONG \<Rightarrow> do { (w, ap) \<leftarrow> va_long (sp_ap st); Some (w, st\<lparr>sp_ap := ap\<rparr>) }
     | MODIFIER_LONGLONG \<Rightarrow> do { (w, ap) \<leftarrow> va_long (sp_ap st); Some (w, st\<lparr>sp_ap := ap\<rparr>) }
     | MODIFIER_PTR \<Rightarrow> do { (w, ap) \<leftarrow> va_ptr (sp_ap st); Some (w, st\<lparr>sp_ap := ap\<rparr>) }
     | MODIFIER_SIZE \<Rightarrow> do { (w, ap) \<leftarrow> va_long (sp_ap st); Some (w, st\<lparr>sp_ap := ap\<rparr>) }
     | MODIFIER_PTRDIFF \<Rightarrow> do { (w, ap) \<leftarrow> va_long (sp_ap st); Some (w, st\<lparr>sp_ap := ap\<rparr>) }
     | MODIFIER_NONE \<Rightarrow> do {
         (w, ap) \<leftarrow> va_int (sp_ap st);
         Some (if signed then scast w else ucast w, st\<lparr>sp_ap := ap\<rparr>) })"

definition sprintf_dec_width :: "fmt_sprintf_state \<Rightarrow> fmt_sprintf_state option" where
  "sprintf_dec_width st = do { w \<leftarrow> cint (sp_width st - 1); Some (st\<lparr>sp_width := w\<rparr>) }"

text \<open>The sign character, 0 for none, and the magnitude; the most negative number has none.\<close>

definition sprintf_sign :: "u64 \<Rightarrow> fmt_sprintf_state \<Rightarrow> (u8 \<times> u64 \<times> fmt_sprintf_state) option" where
  "sprintf_sign n st =
     (if sprintf_flag st FMT_FORMAT_ALT_FORM then do {
        st \<leftarrow> sprintf_dec_width st;
        st \<leftarrow> (if sp_base st = 16 then sprintf_dec_width st else Some st);
        Some (0, n, st) }
      else if sprintf_flag st FMT_FORMAT_CONV_SIGNED then
        if sint n < 0 then do {
          st \<leftarrow> sprintf_dec_width st;
          assert_that (sint n \<noteq> - (2 ^ 63));
          Some (ch CHR ''-'', - n, st) }
        else if sprintf_flag st FMT_FORMAT_SIGN then do {
          st \<leftarrow> sprintf_dec_width st;
          Some (ch CHR ''+'', n, st) }
        else if sprintf_flag st FMT_FORMAT_BLANK then do {
          st \<leftarrow> sprintf_dec_width st;
          Some (ch CHR '' '', n, st) }
        else Some (0, n, st)
      else Some (0, n, st))"

text \<open>The digits in reverse order, in a buffer of fixed size.\<close>

definition tmp_put :: "u8 list \<Rightarrow> u8 \<Rightarrow> u8 list option" where
  "tmp_put tmp c = do { assert_that (length tmp < FMT_MAX_NUM_SIZE); Some (tmp @ [c]) }"

partial_function (option) sprintf_decimal :: "u64 \<Rightarrow> u8 list \<Rightarrow> u8 list option" where
  "sprintf_decimal n tmp = do {
     let r = unat (n mod 10);
     let n = n div 10;
     c \<leftarrow> nth_opt fmt_digits r;
     tmp \<leftarrow> tmp_put tmp c;
     if n \<noteq> 0 then sprintf_decimal n tmp else Some tmp }"

partial_function (option) sprintf_pow2 :: "u64 \<Rightarrow> nat \<Rightarrow> u8 \<Rightarrow> u64 \<Rightarrow> u8 list \<Rightarrow> u8 list option" where
  "sprintf_pow2 msk shift lower n tmp = do {
     let r = unat (n AND msk);
     let n = drop_bit shift n;
     c \<leftarrow> nth_opt fmt_digits r;
     tmp \<leftarrow> tmp_put tmp (c OR lower);
     if n \<noteq> 0 then sprintf_pow2 msk shift lower n tmp else Some tmp }"

definition sprintf_int_digits :: "u64 \<Rightarrow> fmt_sprintf_state \<Rightarrow> u8 list option" where
  "sprintf_int_digits n st =
     (if n = 0 then (if sp_precision st \<noteq> 0 then tmp_put [] (ch CHR ''0'') else Some [])
      else if sp_base st = 10 then sprintf_decimal n []
      else sprintf_pow2 (ucast (sp_base st - 1)) (if sp_base st = 8 then 3 else 4)
        (ucast (sp_flags st AND FMT_FORMAT_LOWER)) n [])"

fun sprintf_pad :: "nat \<Rightarrow> u8 \<Rightarrow> fmt_sprintf_state \<Rightarrow> fmt_sprintf_state option" where
  "sprintf_pad 0 c st = Some st"
| "sprintf_pad (Suc k) c st = do {
     st \<leftarrow> fmt_sprintf_state_produce_raw_char (st\<lparr>sp_width := sp_width st - 1\<rparr>) c;
     sprintf_pad k c st }"

fun sprintf_zeros :: "nat \<Rightarrow> fmt_sprintf_state \<Rightarrow> fmt_sprintf_state option" where
  "sprintf_zeros 0 st = Some st"
| "sprintf_zeros (Suc k) st = do {
     st \<leftarrow> fmt_sprintf_state_produce_raw_char (st\<lparr>sp_precision := sp_precision st - 1\<rparr>) (ch CHR ''0'');
     sprintf_zeros k st }"

fun sprintf_tmp_out :: "nat \<Rightarrow> u8 list \<Rightarrow> fmt_sprintf_state \<Rightarrow> fmt_sprintf_state option" where
  "sprintf_tmp_out 0 tmp st = Some st"
| "sprintf_tmp_out (Suc i) tmp st = do {
     c \<leftarrow> nth_opt tmp i;
     st \<leftarrow> fmt_sprintf_state_produce_raw_char st c;
     sprintf_tmp_out i tmp st }"

text \<open>What follows the conversion: padding, prefix or sign, padding, zeros, digits, padding.\<close>

definition sprintf_pad_before :: "fmt_sprintf_state \<Rightarrow> fmt_sprintf_state option" where
  "sprintf_pad_before st =
     (if \<not> sprintf_flag st (FMT_FORMAT_LEFT_JUSTIFY OR FMT_FORMAT_ZERO_PAD) then do {
        st \<leftarrow> sprintf_pad (nat (sp_width st)) (ch CHR '' '') st;
        sprintf_dec_width st }
      else Some st)"

definition sprintf_put_prefix :: "u8 \<Rightarrow> fmt_sprintf_state \<Rightarrow> fmt_sprintf_state option" where
  "sprintf_put_prefix sign st =
     (if sprintf_flag st FMT_FORMAT_ALT_FORM then do {
        st \<leftarrow> fmt_sprintf_state_produce_raw_char st (ch CHR ''0'');
        if sp_base st = 16 then
          fmt_sprintf_state_produce_raw_char st (ch CHR ''X'' OR ucast (sp_flags st AND FMT_FORMAT_LOWER))
        else Some st }
      else if sign \<noteq> 0 then fmt_sprintf_state_produce_raw_char st sign
      else Some st)"

definition sprintf_pad_between :: "fmt_sprintf_state \<Rightarrow> fmt_sprintf_state option" where
  "sprintf_pad_between st =
     (if \<not> sprintf_flag st FMT_FORMAT_LEFT_JUSTIFY then do {
        let c = (if sprintf_flag st FMT_FORMAT_ZERO_PAD then ch CHR ''0'' else ch CHR '' '');
        st \<leftarrow> sprintf_pad (nat (sp_width st)) c st;
        sprintf_dec_width st }
      else Some st)"

definition sprintf_put_digits :: "u8 list \<Rightarrow> fmt_sprintf_state \<Rightarrow> fmt_sprintf_state option" where
  "sprintf_put_digits tmp st = do {
     st \<leftarrow> sprintf_zeros (nat (sp_precision st - int (length tmp))) st;
     precision \<leftarrow> cint (sp_precision st - 1);
     sprintf_tmp_out (length tmp) tmp (st\<lparr>sp_precision := precision\<rparr>) }"

definition sprintf_emit_int :: "u8 \<Rightarrow> u8 list \<Rightarrow> fmt_sprintf_state \<Rightarrow> fmt_sprintf_state option" where
  "sprintf_emit_int sign tmp st = do {
     let i = length tmp;
     let st = st\<lparr>sp_precision := (if int i > sp_precision st then int i else sp_precision st)\<rparr>;
     width \<leftarrow> cint (sp_width st - sp_precision st);
     st \<leftarrow> sprintf_pad_before (st\<lparr>sp_width := width\<rparr>);
     st \<leftarrow> sprintf_put_prefix sign st;
     st \<leftarrow> sprintf_pad_between st;
     st \<leftarrow> sprintf_put_digits tmp st;
     st \<leftarrow> sprintf_pad (nat (sp_width st)) (ch CHR '' '') st;
     sprintf_dec_width st }"

definition fmt_sprintf_state_produce_int :: "fmt_sprintf_state \<Rightarrow> fmt_sprintf_state option" where
  "fmt_sprintf_state_produce_int st = do {
     (n, st) \<leftarrow> sprintf_fetch_int st;
     let st = (if sprintf_flag st FMT_FORMAT_LEFT_JUSTIFY \<or> sp_precision st \<ge> 0
       then st\<lparr>sp_flags := sp_flags st AND NOT FMT_FORMAT_ZERO_PAD\<rparr> else st);
     (sign, n, st) \<leftarrow> sprintf_sign n st;
     tmp \<leftarrow> sprintf_int_digits n st;
     sprintf_emit_int sign tmp st }"

section \<open>Characters, strings and counts\<close>

partial_function (option) sprintf_char_pad :: "fmt_sprintf_state \<Rightarrow> fmt_sprintf_state option" where
  "sprintf_char_pad st = do {
     st \<leftarrow> sprintf_dec_width st;
     if sp_width st \<le> 0 then Some st
     else do {
       st \<leftarrow> fmt_sprintf_state_produce_raw_char st (ch CHR '' '');
       sprintf_char_pad st } }"

definition fmt_sprintf_state_produce_char :: "fmt_sprintf_state \<Rightarrow> fmt_sprintf_state option" where
  "fmt_sprintf_state_produce_char st = do {
     (w, ap) \<leftarrow> va_int (sp_ap st);
     let c = ucast w;
     let st = st\<lparr>sp_ap := ap\<rparr>;
     st \<leftarrow> (if \<not> sprintf_flag st FMT_FORMAT_LEFT_JUSTIFY then sprintf_char_pad st else Some st);
     st \<leftarrow> fmt_sprintf_state_produce_raw_char st c;
     sprintf_char_pad st }"

text \<open>A null pointer stands for the literal \<^verbatim>\<open>"(null)"\<close>.\<close>

definition sprintf_str_char :: "mem \<Rightarrow> u64 \<Rightarrow> nat \<Rightarrow> u8 option" where
  "sprintf_str_char m s i =
     (if s = 0 then nth_opt (map of_char ''(null)'' @ [0]) i else load m (s + of_nat i))"

partial_function (option) sprintf_str_len :: "mem \<Rightarrow> u64 \<Rightarrow> int \<Rightarrow> nat \<Rightarrow> nat option" where
  "sprintf_str_len m s precision len = do {
     c \<leftarrow> sprintf_str_char m s len;
     if c = 0 then Some len
     else if int len = precision then Some len
     else do {
       cint (int len + 1);
       sprintf_str_len m s precision (Suc len) } }"

fun sprintf_str_out :: "nat \<Rightarrow> u64 \<Rightarrow> nat \<Rightarrow> fmt_sprintf_state \<Rightarrow> fmt_sprintf_state option" where
  "sprintf_str_out 0 s i st = Some st"
| "sprintf_str_out (Suc k) s i st = do {
     c \<leftarrow> sprintf_str_char (sp_mem st) s i;
     st \<leftarrow> fmt_sprintf_state_produce_raw_char st c;
     sprintf_str_out k s (Suc i) st }"

definition fmt_sprintf_state_produce_str :: "fmt_sprintf_state \<Rightarrow> fmt_sprintf_state option" where
  "fmt_sprintf_state_produce_str st = do {
     (s, ap) \<leftarrow> va_ptr (sp_ap st);
     let st = st\<lparr>sp_ap := ap\<rparr>;
     len \<leftarrow> sprintf_str_len (sp_mem st) s (sp_precision st) 0;
     st \<leftarrow> (if \<not> sprintf_flag st FMT_FORMAT_LEFT_JUSTIFY
       then sprintf_pad (nat (sp_width st - int len)) (ch CHR '' '') st else Some st);
     st \<leftarrow> sprintf_str_out len s 0 st;
     sprintf_pad (nat (sp_width st - int len)) (ch CHR '' '') st }"

definition fmt_sprintf_state_produce_nrchars :: "fmt_sprintf_state \<Rightarrow> fmt_sprintf_state option" where
  "fmt_sprintf_state_produce_nrchars st = do {
     (ptr, ap) \<leftarrow> va_ptr (sp_ap st);
     let n = (case sp_modifier st of
         MODIFIER_CHAR \<Rightarrow> 1 | MODIFIER_SHORT \<Rightarrow> 2 | MODIFIER_LONG \<Rightarrow> 8 | MODIFIER_LONGLONG \<Rightarrow> 8
       | MODIFIER_SIZE \<Rightarrow> 8 | MODIFIER_PTRDIFF \<Rightarrow> 8 | MODIFIER_PTR \<Rightarrow> 4 | MODIFIER_NONE \<Rightarrow> 4);
     m \<leftarrow> store_bytes (sp_mem st) ptr (word_bytes n (sp_str st - sp_start st));
     Some (st\<lparr>sp_ap := ap, sp_mem := m\<rparr>) }"

definition fmt_sprintf_state_produce :: "fmt_sprintf_state \<Rightarrow> fmt_sprintf_state option" where
  "fmt_sprintf_state_produce st = (case sp_specifier st of
     SPECIFIER_INT \<Rightarrow> fmt_sprintf_state_produce_int st
   | SPECIFIER_CHAR \<Rightarrow> fmt_sprintf_state_produce_char st
   | SPECIFIER_STR \<Rightarrow> fmt_sprintf_state_produce_str st
   | SPECIFIER_NRCHARS \<Rightarrow> fmt_sprintf_state_produce_nrchars st
   | SPECIFIER_PERCENT \<Rightarrow> fmt_sprintf_state_produce_raw_char st (ch CHR ''%'')
   | SPECIFIER_INVALID \<Rightarrow> fmt_sprintf_state_produce_raw_char st (ch CHR ''%''))"

section \<open>The functions of the module\<close>

partial_function (option) vsnprintf_loop :: "fmt_sprintf_state \<Rightarrow> fmt_sprintf_state option" where
  "vsnprintf_loop st = do {
     (error, st) \<leftarrow> fmt_sprintf_state_consume st;
     if error = Some EAGAIN then vsnprintf_loop st
     else if error \<noteq> None then Some st
     else do {
       st \<leftarrow> fmt_sprintf_state_produce st;
       vsnprintf_loop st } }"

definition fmt_vsnprintf ::
  "fmt_sprintf_state \<Rightarrow> u64 \<Rightarrow> u64 \<Rightarrow> u64 \<Rightarrow> va_arg list \<Rightarrow> mem \<Rightarrow> (int \<times> mem) option" where
  "fmt_vsnprintf garbage str sz format ap m = do {
     st \<leftarrow> vsnprintf_loop (fmt_sprintf_state_init garbage str sz format ap m);
     fmt_sprintf_state_finalize st }"

definition fmt_vsprintf ::
  "fmt_sprintf_state \<Rightarrow> u64 \<Rightarrow> u64 \<Rightarrow> va_arg list \<Rightarrow> mem \<Rightarrow> (int \<times> mem) option" where
  "fmt_vsprintf garbage str format ap m = fmt_vsnprintf garbage str FMT_NOLIMIT format ap m"

definition fmt_snprintf ::
  "fmt_sprintf_state \<Rightarrow> u64 \<Rightarrow> u64 \<Rightarrow> u64 \<Rightarrow> va_arg list \<Rightarrow> mem \<Rightarrow> (int \<times> mem) option" where
  "fmt_snprintf garbage str sz format ap m = fmt_vsnprintf garbage str sz format ap m"

definition fmt_sprintf ::
  "fmt_sprintf_state \<Rightarrow> u64 \<Rightarrow> u64 \<Rightarrow> va_arg list \<Rightarrow> mem \<Rightarrow> (int \<times> mem) option" where
  "fmt_sprintf garbage str format ap m = fmt_vsprintf garbage str format ap m"

end
