(* ===== verification/Fmt_Text.thy ===== *)
theory Fmt_Text
  imports Fmt_Print
begin

text \<open>
  The text that the formatting functions produce. A state with \<open>cs\<close> produced so far
  is \<open>with_out m cs st\<close>: the buffer holds the part of \<open>cs\<close> that fits and the
  position counts all of it. Every step of a conversion appends to \<open>cs\<close>; the text of a
  number is then described on its own, by its prefix, its digits and the layout in its field.
\<close>

unbundle bit_operations_syntax

section \<open>The characters produced so far\<close>

definition sp_cap :: "fmt_sprintf_state \<Rightarrow> nat" where
  "sp_cap st = unat (sp_end st) - unat (sp_start st)"

definition with_out :: "mem \<Rightarrow> u8 list \<Rightarrow> fmt_sprintf_state \<Rightarrow> fmt_sprintf_state" where
  "with_out m cs st = st\<lparr>sp_str := sp_start st + of_nat (length cs),
     sp_mem := write_bytes m (sp_start st) (take (sp_cap st) cs)\<rparr>"

text \<open>The buffer takes the first \<open>k\<close> characters as far as it extends.\<close>

definition sp_room :: "mem \<Rightarrow> fmt_sprintf_state \<Rightarrow> nat \<Rightarrow> bool" where
  "sp_room m st k \<longleftrightarrow> unat (sp_start st) + k < 2 ^ 64 \<and> mapped m (sp_start st) (min k (sp_cap st))"

lemma with_out_fields [simp]:
  "sp_format (with_out m cs st) = sp_format st" "sp_ap (with_out m cs st) = sp_ap st"
  "sp_flags (with_out m cs st) = sp_flags st" "sp_width (with_out m cs st) = sp_width st"
  "sp_precision (with_out m cs st) = sp_precision st" "sp_modifier (with_out m cs st) = sp_modifier st"
  "sp_specifier (with_out m cs st) = sp_specifier st" "sp_base (with_out m cs st) = sp_base st"
  "sp_start (with_out m cs st) = sp_start st" "sp_end (with_out m cs st) = sp_end st"
  "sp_mem (with_out m cs st) = write_bytes m (sp_start st) (take (sp_cap st) cs)"
  "sp_str (with_out m cs st) = sp_start st + of_nat (length cs)"
  by (simp_all add: with_out_def)

lemma sp_cap_update [simp]:
  "sp_cap (st\<lparr>sp_format := a\<rparr>) = sp_cap st" "sp_cap (st\<lparr>sp_ap := b\<rparr>) = sp_cap st"
  "sp_cap (st\<lparr>sp_flags := c\<rparr>) = sp_cap st" "sp_cap (st\<lparr>sp_width := d\<rparr>) = sp_cap st"
  "sp_cap (st\<lparr>sp_precision := e\<rparr>) = sp_cap st" "sp_cap (st\<lparr>sp_modifier := f\<rparr>) = sp_cap st"
  "sp_cap (st\<lparr>sp_specifier := g\<rparr>) = sp_cap st" "sp_cap (st\<lparr>sp_base := h\<rparr>) = sp_cap st"
  by (simp_all add: sp_cap_def)

lemma with_out_update [simp]:
  "(with_out m cs st)\<lparr>sp_format := a\<rparr> = with_out m cs (st\<lparr>sp_format := a\<rparr>)"
  "(with_out m cs st)\<lparr>sp_ap := b\<rparr> = with_out m cs (st\<lparr>sp_ap := b\<rparr>)"
  "(with_out m cs st)\<lparr>sp_flags := c\<rparr> = with_out m cs (st\<lparr>sp_flags := c\<rparr>)"
  "(with_out m cs st)\<lparr>sp_width := d\<rparr> = with_out m cs (st\<lparr>sp_width := d\<rparr>)"
  "(with_out m cs st)\<lparr>sp_precision := e\<rparr> = with_out m cs (st\<lparr>sp_precision := e\<rparr>)"
  "(with_out m cs st)\<lparr>sp_modifier := f\<rparr> = with_out m cs (st\<lparr>sp_modifier := f\<rparr>)"
  "(with_out m cs st)\<lparr>sp_specifier := g\<rparr> = with_out m cs (st\<lparr>sp_specifier := g\<rparr>)"
  "(with_out m cs st)\<lparr>sp_base := h\<rparr> = with_out m cs (st\<lparr>sp_base := h\<rparr>)"
  by (simp_all add: with_out_def)

lemma sp_room_update [simp]:
  "sp_room m (st\<lparr>sp_format := a\<rparr>) k = sp_room m st k" "sp_room m (st\<lparr>sp_ap := b\<rparr>) k = sp_room m st k"
  "sp_room m (st\<lparr>sp_flags := c\<rparr>) k = sp_room m st k" "sp_room m (st\<lparr>sp_width := d\<rparr>) k = sp_room m st k"
  "sp_room m (st\<lparr>sp_precision := e\<rparr>) k = sp_room m st k" "sp_room m (st\<lparr>sp_modifier := f\<rparr>) k = sp_room m st k"
  "sp_room m (st\<lparr>sp_specifier := g\<rparr>) k = sp_room m st k" "sp_room m (st\<lparr>sp_base := h\<rparr>) k = sp_room m st k"
  by (simp_all add: sp_room_def)

lemma write_bytes_mapped: "m x \<noteq> None \<Longrightarrow> write_bytes m a cs x \<noteq> None"
  by (simp add: write_bytes_def)

lemma raw_char_out:
  assumes room: "sp_room m st k" and k: "length cs < k"
  shows "fmt_sprintf_state_produce_raw_char (with_out m cs st) c = Some (with_out m (cs @ [c]) st)"
proof -
  have len: "unat (of_nat (length cs) :: u64) = length cs"
    using room k by (intro unat_of_nat_lt) (simp add: sp_room_def)
  have str: "unat (sp_start st + of_nat (length cs)) = unat (sp_start st) + length cs"
    using room k len by (subst unat_add_lt) (simp_all add: sp_room_def)
  have lt: "sp_start st + of_nat (length cs) < sp_end st \<longleftrightarrow> length cs < sp_cap st"
    by (auto simp: word_less_unat str sp_cap_def)
  show ?thesis
  proof (cases "length cs < sp_cap st")
    case True
    then have "m (sp_start st + of_nat (length cs)) \<noteq> None"
      using room k by (simp add: sp_room_def mapped_def)
    then have "write_bytes m (sp_start st) cs (sp_start st + of_nat (length cs)) \<noteq> None" by (rule write_bytes_mapped)
    moreover have "write_bytes m (sp_start st) (cs @ [c]) = (write_bytes m (sp_start st) cs)(sp_start st + of_nat (length cs) \<mapsto> c)"
      using write_bytes_snoc [of cs m "sp_start st" c] room k by (simp add: sp_room_def)
    ultimately show ?thesis
      using True lt
      by (auto simp: fmt_sprintf_state_produce_raw_char_def fmt_vsnprintf_produce_def with_out_def store_def add.assoc
          split: option.splits)
  next
    case False
    then show ?thesis using lt
      by (simp add: fmt_sprintf_state_produce_raw_char_def fmt_vsnprintf_produce_def with_out_def add.assoc)
  qed
qed

lemma pad_out:
  assumes "sp_room m st K" "length cs + k \<le> K"
  shows "sprintf_pad k c (with_out m cs st) = Some (with_out m (cs @ replicate k c) (st\<lparr>sp_width := sp_width st - int k\<rparr>))"
  using assms
proof (induction k arbitrary: cs st)
  case (Suc k)
  have "fmt_sprintf_state_produce_raw_char (with_out m cs (st\<lparr>sp_width := sp_width st - 1\<rparr>)) c
      = Some (with_out m (cs @ [c]) (st\<lparr>sp_width := sp_width st - 1\<rparr>))"
    by (rule raw_char_out) (use Suc.prems in auto)
  then show ?case using Suc.IH [of "st\<lparr>sp_width := sp_width st - 1\<rparr>" "cs @ [c]"] Suc.prems by (simp add: algebra_simps)
qed simp

lemma zeros_out:
  assumes "sp_room m st K" "length cs + k \<le> K"
  shows "sprintf_zeros k (with_out m cs st)
    = Some (with_out m (cs @ replicate k (ch CHR ''0'')) (st\<lparr>sp_precision := sp_precision st - int k\<rparr>))"
  using assms
proof (induction k arbitrary: cs st)
  case (Suc k)
  have "fmt_sprintf_state_produce_raw_char (with_out m cs (st\<lparr>sp_precision := sp_precision st - 1\<rparr>)) (ch CHR ''0'')
      = Some (with_out m (cs @ [ch CHR ''0'']) (st\<lparr>sp_precision := sp_precision st - 1\<rparr>))"
    by (rule raw_char_out) (use Suc.prems in auto)
  then show ?case using Suc.IH [of "st\<lparr>sp_precision := sp_precision st - 1\<rparr>" "cs @ [ch CHR ''0'']"] Suc.prems
    by (simp add: algebra_simps)
qed simp

lemma tmp_out:
  assumes "sp_room m st K" "length cs + i \<le> K" "i \<le> length tmp"
  shows "sprintf_tmp_out i tmp (with_out m cs st) = Some (with_out m (cs @ rev (take i tmp)) st)"
  using assms
proof (induction i arbitrary: cs)
  case (Suc i)
  have "fmt_sprintf_state_produce_raw_char (with_out m cs st) (tmp ! i) = Some (with_out m (cs @ [tmp ! i]) st)"
    by (rule raw_char_out) (use Suc.prems in auto)
  then show ?case using Suc.IH [of "cs @ [tmp ! i]"] Suc.prems by (simp add: take_Suc_conv_app_nth)
qed simp

section \<open>Numerals\<close>

fun nat_digits :: "nat \<Rightarrow> nat \<Rightarrow> nat list" where
  "nat_digits b n = (if b < 2 \<or> n < b then [n] else nat_digits b (n div b) @ [n mod b])"

declare nat_digits.simps [simp del]

lemma nat_digits_small: "n < b \<Longrightarrow> nat_digits b n = [n]"
  by (simp add: nat_digits.simps)

lemma nat_digits_step: "2 \<le> b \<Longrightarrow> b \<le> n \<Longrightarrow> nat_digits b n = nat_digits b (n div b) @ [n mod b]"
  by (subst nat_digits.simps) simp

lemma nat_digits_length: "2 \<le> b \<Longrightarrow> n < b ^ Suc k \<Longrightarrow> length (nat_digits b n) \<le> Suc k"
proof (induction k arbitrary: n)
  case 0
  then show ?case by (simp add: nat_digits_small)
next
  case (Suc k)
  show ?case
  proof (cases "n < b")
    case False
    have "n div b < b ^ Suc k" using Suc.prems by (simp add: less_mult_imp_div_less mult.commute)
    from Suc.IH [OF Suc.prems(1) this] show ?thesis using False Suc.prems by (simp add: nat_digits_step)
  qed (simp add: nat_digits_small)
qed

lemma nat_digits_pos: "2 \<le> b \<Longrightarrow> 0 < length (nat_digits b n)"
  by (subst nat_digits.simps) simp

lemma nat_digits_range: "2 \<le> b \<Longrightarrow> d \<in> set (nat_digits b n) \<Longrightarrow> d < b"
proof (induction b n rule: nat_digits.induct)
  case (1 b n)
  show ?case
  proof (cases "n < b")
    case True
    then show ?thesis using 1 by (simp add: nat_digits_small)
  next
    case False
    then show ?thesis using 1 by (auto simp: nat_digits_step)
  qed
qed

definition digit_char :: "u8 \<Rightarrow> nat \<Rightarrow> u8" where
  "digit_char lower d = fmt_digits ! d OR lower"

lemma decimal_loop:
  assumes "length tmp + length (nat_digits 10 (unat n)) \<le> FMT_MAX_NUM_SIZE"
  shows "sprintf_decimal n tmp = Some (tmp @ rev (map (digit_char 0) (nat_digits 10 (unat n))))"
  using assms
proof (induction "unat n" arbitrary: n tmp rule: less_induct)
  case less
  have q: "unat (n div 10) = unat n div 10" "unat (n mod 10) = unat n mod 10"
    by (simp_all add: unat_div unat_mod)
  have z: "n div 10 = 0 \<longleftrightarrow> unat n < 10" using q(1) by (auto simp: unat_eq_zero)
  have d: "nth_opt fmt_digits (unat (n mod 10)) = Some (digit_char 0 (unat n mod 10))"
    by (simp add: q(2) digit_char_def fmt_digits_def del: unat_mod)
  show ?case
  proof (cases "unat n < 10")
    case True
    then show ?thesis using less.prems d z
      by (subst sprintf_decimal.simps) (simp add: tmp_put_def nat_digits_small)
  next
    case False
    then have e: "nat_digits 10 (unat n) = nat_digits 10 (unat n div 10) @ [unat n mod 10]" by (simp add: nat_digits_step)
    have "sprintf_decimal (n div 10) (tmp @ [digit_char 0 (unat n mod 10)])
        = Some ((tmp @ [digit_char 0 (unat n mod 10)]) @ rev (map (digit_char 0) (nat_digits 10 (unat (n div 10)))))"
      by (rule less.hyps) (use less.prems False e in \<open>simp_all add: q\<close>)
    then show ?thesis using less.prems d z False e nat_digits_pos [of 10 "unat n div 10"]
      by (subst sprintf_decimal.simps) (simp add: tmp_put_def q)
  qed
qed

lemma pow2_loop:
  assumes "length tmp + length (nat_digits (2 ^ s) (unat n)) \<le> FMT_MAX_NUM_SIZE" "s = 3 \<or> s = 4"
  shows "sprintf_pow2 (2 ^ s - 1) s lower n tmp = Some (tmp @ rev (map (digit_char lower) (nat_digits (2 ^ s) (unat n))))"
  using assms
proof (induction "unat n" arbitrary: n tmp rule: less_induct)
  case less
  have b: "2 \<le> (2::nat) ^ s" "(2::nat) ^ s \<le> 16" using less.prems(2) by auto
  have q: "unat (drop_bit s n) = unat n div 2 ^ s" by (simp only: unat_drop_bit_eq) (simp only: drop_bit_eq_div)
  have "n AND (2 ^ s - 1) = take_bit s n" by (simp add: take_bit_eq_mask mask_eq_exp_minus_1)
  then have r: "unat (n AND (2 ^ s - 1)) = unat n mod 2 ^ s"
    using less.prems(2) by (simp only: unsigned_take_bit_eq) (simp only: take_bit_eq_mod)
  have z: "drop_bit s n = 0 \<longleftrightarrow> unat n < 2 ^ s" using q by (auto simp: unat_eq_zero [symmetric] div_eq_0_iff)
  have lt: "unat n mod 2 ^ s < 16" using b by (meson less_le_trans mod_less_divisor zero_less_numeral zero_less_power)
  have d: "nth_opt fmt_digits (unat n mod 2 ^ s) = Some (fmt_digits ! (unat n mod 2 ^ s))"
    using lt by (simp add: fmt_digits_def)
  show ?case
  proof (cases "unat n < 2 ^ s")
    case True
    then show ?thesis using less.prems d z r
      by (subst sprintf_pow2.simps) (simp add: tmp_put_def nat_digits_small digit_char_def)
  next
    case False
    then have e: "nat_digits (2 ^ s) (unat n) = nat_digits (2 ^ s) (unat n div 2 ^ s) @ [unat n mod 2 ^ s]"
      using b by (simp add: nat_digits_step)
    have "unat n div 2 ^ s < unat n" using False b by (intro div_less_dividend) auto
    then have "sprintf_pow2 (2 ^ s - 1) s lower (drop_bit s n) (tmp @ [digit_char lower (unat n mod 2 ^ s)])
        = Some ((tmp @ [digit_char lower (unat n mod 2 ^ s)]) @ rev (map (digit_char lower) (nat_digits (2 ^ s) (unat (drop_bit s n)))))"
      by (intro less.hyps) (use less.prems False e in \<open>simp_all add: q\<close>)
    then show ?thesis using less.prems d z False e r nat_digits_pos [of "2 ^ s" "unat n div 2 ^ s"] b
      by (subst sprintf_pow2.simps) (simp add: tmp_put_def q digit_char_def)
  qed
qed

text \<open>The buffer is large enough for 64 bits in every base.\<close>

lemma numeral_fits:
  fixes n :: u64
  shows "length (nat_digits 8 (unat n)) \<le> FMT_MAX_NUM_SIZE" "length (nat_digits 10 (unat n)) \<le> FMT_MAX_NUM_SIZE"
    "length (nat_digits 16 (unat n)) \<le> FMT_MAX_NUM_SIZE"
proof -
  have n: "unat n < 2 ^ 64" using unat_lt_64 [of n] by simp
  show "length (nat_digits 8 (unat n)) \<le> FMT_MAX_NUM_SIZE" "length (nat_digits 10 (unat n)) \<le> FMT_MAX_NUM_SIZE"
    "length (nat_digits 16 (unat n)) \<le> FMT_MAX_NUM_SIZE"
    using nat_digits_length [of 8 "unat n" 21] nat_digits_length [of 10 "unat n" 19] nat_digits_length [of 16 "unat n" 15] n
    by (simp_all add: FMT_MAX_NUM_SIZE_def CHAR_BIT_def)
qed


section \<open>Numbers\<close>

definition fmt_lower :: "u32 \<Rightarrow> u8" where "fmt_lower f = ucast (f AND FMT_FORMAT_LOWER)"

text \<open>The prefix of a number and its magnitude.\<close>

definition int_parts :: "u32 \<Rightarrow> u32 \<Rightarrow> u64 \<Rightarrow> u8 list \<times> nat" where
  "int_parts f base n =
     (if fmt_flag f FMT_FORMAT_ALT_FORM then
        (if base = 16 then [ch CHR ''0'', ch CHR ''X'' OR fmt_lower f] else [ch CHR ''0''], unat n)
      else if fmt_flag f FMT_FORMAT_CONV_SIGNED then
        (if sint n < 0 then ([ch CHR ''-''], nat (- sint n))
         else if fmt_flag f FMT_FORMAT_SIGN then ([ch CHR ''+''], unat n)
         else if fmt_flag f FMT_FORMAT_BLANK then ([ch CHR '' ''], unat n)
         else ([], unat n))
      else ([], unat n))"

definition int_numeral :: "u32 \<Rightarrow> int \<Rightarrow> u32 \<Rightarrow> nat \<Rightarrow> u8 list" where
  "int_numeral f prec base mag =
     (let ds = (if mag = 0 \<and> prec = 0 then [] else map (digit_char (fmt_lower f)) (nat_digits (unat base) mag)) in
      replicate (nat prec - length ds) (ch CHR ''0'') @ ds)"

definition int_layout :: "bool \<Rightarrow> bool \<Rightarrow> int \<Rightarrow> u8 list \<Rightarrow> u8 list \<Rightarrow> u8 list" where
  "int_layout left zero width prefix body =
     (let fill = nat (width - int (length prefix + length body)) in
      if left then prefix @ body @ replicate fill (ch CHR '' '')
      else if zero then prefix @ replicate fill (ch CHR ''0'') @ body
      else replicate fill (ch CHR '' '') @ prefix @ body)"

definition int_text :: "u32 \<Rightarrow> int \<Rightarrow> int \<Rightarrow> u32 \<Rightarrow> u64 \<Rightarrow> u8 list" where
  "int_text f width prec base n =
     (case int_parts f base n of (prefix, mag) \<Rightarrow>
        int_layout (fmt_flag f FMT_FORMAT_LEFT_JUSTIFY) (fmt_flag f FMT_FORMAT_ZERO_PAD \<and> prec < 0) width prefix
          (int_numeral f prec base mag))"

text \<open>What a conversion leaves of the state: the rest of the format and the arguments.\<close>

definition sp_same :: "fmt_sprintf_state \<Rightarrow> fmt_sprintf_state \<Rightarrow> bool" where
  "sp_same st st' \<longleftrightarrow> sp_format st' = sp_format st \<and> sp_ap st' = sp_ap st \<and> sp_start st' = sp_start st \<and> sp_end st' = sp_end st"

definition int_prefix :: "u8 \<Rightarrow> fmt_sprintf_state \<Rightarrow> u8 list" where
  "int_prefix sign st =
     (if sprintf_flag st FMT_FORMAT_ALT_FORM then
        (if sp_base st = 16 then [ch CHR ''0'', ch CHR ''X'' OR fmt_lower (sp_flags st)] else [ch CHR ''0''])
      else if sign \<noteq> 0 then [sign] else [])"

lemma flag_with_out [simp]: "sprintf_flag (with_out m cs st) f = sprintf_flag st f"
  by (simp add: sprintf_flag_def)

lemma flag_update [simp]:
  "sprintf_flag (st\<lparr>sp_width := w\<rparr>) f = sprintf_flag st f" "sprintf_flag (st\<lparr>sp_precision := p\<rparr>) f = sprintf_flag st f"
  "sprintf_flag (st\<lparr>sp_ap := ap\<rparr>) f = sprintf_flag st f" "sprintf_flag (st\<lparr>sp_format := a\<rparr>) f = sprintf_flag st f"
  by (simp_all add: sprintf_flag_def)

lemma flag_or: "sprintf_flag st (a OR b) \<longleftrightarrow> sprintf_flag st a \<or> sprintf_flag st b"
  by (simp add: sprintf_flag_def fmt_flag_def bit.conj_disj_distrib or_eq_0_iff)

lemma dec_width_out:
  "\<bar>sp_width st\<bar> < 2 ^ 31 - 1 \<Longrightarrow>
    sprintf_dec_width (with_out m cs st) = Some (with_out m cs (st\<lparr>sp_width := sp_width st - 1\<rparr>))"
  by (simp add: sprintf_dec_width_def)

lemma prefix_out:
  assumes "sp_room m st K" "length cs + length (int_prefix sign st) \<le> K"
  shows "sprintf_put_prefix sign (with_out m cs st) = Some (with_out m (cs @ int_prefix sign st) st)"
  using assms raw_char_out [OF assms(1), of cs] raw_char_out [OF assms(1), of "cs @ [ch CHR ''0'']"]
  by (auto simp: sprintf_put_prefix_def int_prefix_def fmt_lower_def split: if_splits)

lemma pad_before_out:
  assumes "sp_room m st K" "length cs + nat (sp_width st) \<le> K" "\<bar>sp_width st\<bar> < 2 ^ 31 - 1"
  shows "sprintf_pad_before (with_out m cs st) =
    (if sprintf_flag st FMT_FORMAT_LEFT_JUSTIFY \<or> sprintf_flag st FMT_FORMAT_ZERO_PAD then Some (with_out m cs st)
     else Some (with_out m (cs @ replicate (nat (sp_width st)) (ch CHR '' '')) (st\<lparr>sp_width := min 0 (sp_width st) - 1\<rparr>)))"
  using assms by (simp add: sprintf_pad_before_def flag_or pad_out dec_width_out min_def)

lemma pad_between_out:
  assumes "sp_room m st K" "length cs + nat (sp_width st) \<le> K" "\<bar>sp_width st\<bar> < 2 ^ 31 - 1"
  shows "sprintf_pad_between (with_out m cs st) =
    (if sprintf_flag st FMT_FORMAT_LEFT_JUSTIFY then Some (with_out m cs st)
     else Some (with_out m (cs @ replicate (nat (sp_width st))
         (if sprintf_flag st FMT_FORMAT_ZERO_PAD then ch CHR ''0'' else ch CHR '' '')) (st\<lparr>sp_width := min 0 (sp_width st) - 1\<rparr>)))"
  using assms by (simp add: sprintf_pad_between_def pad_out dec_width_out min_def)

lemma put_digits_out:
  assumes "sp_room m st K" "length cs + nat (sp_precision st) \<le> K" "int (length tmp) \<le> sp_precision st" "sp_precision st < 2 ^ 30"
  shows "sprintf_put_digits tmp (with_out m cs st) = Some (with_out m
      (cs @ replicate (nat (sp_precision st) - length tmp) (ch CHR ''0'') @ rev tmp) (st\<lparr>sp_precision := int (length tmp) - 1\<rparr>))"
proof -
  have n: "nat (sp_precision st - int (length tmp)) = nat (sp_precision st) - length tmp" by simp
  have z: "sprintf_zeros (nat (sp_precision st) - length tmp) (with_out m cs st)
      = Some (with_out m (cs @ replicate (nat (sp_precision st) - length tmp) (ch CHR ''0''))
          (st\<lparr>sp_precision := sp_precision st - int (nat (sp_precision st) - length tmp)\<rparr>))"
    by (rule zeros_out [OF assms(1)]) (use assms in auto)
  have p: "sp_precision st - int (nat (sp_precision st) - length tmp) = int (length tmp)" using assms(3) by linarith
  show ?thesis
    unfolding sprintf_put_digits_def with_out_fields n z p
    using assms by (simp add: tmp_out [where K = K])
qed

lemma emit_int_out:
  assumes room: "sp_room m st K"
    and w: "\<bar>sp_width st\<bar> < 2 ^ 29" "sp_precision st < 2 ^ 30" "- 1 \<le> sp_precision st" "length tmp < 2 ^ 30"
    and out: "out = int_layout (sprintf_flag st FMT_FORMAT_LEFT_JUSTIFY) (sprintf_flag st FMT_FORMAT_ZERO_PAD)
        (sp_width st + int (length (int_prefix sign st))) (int_prefix sign st)
        (replicate (nat (sp_precision st) - length tmp) (ch CHR ''0'') @ rev tmp)"
    and K: "length cs + length out \<le> K"
  shows "\<exists>st'. sprintf_emit_int sign tmp (with_out m cs st) = Some (with_out m (cs @ out) st') \<and> sp_same st st'"
proof -
  define p where "p = (if int (length tmp) > sp_precision st then int (length tmp) else sp_precision st)"
  define v where "v = sp_width st - p"
  define pre where "pre = int_prefix sign st"
  define body where "body = replicate (nat (sp_precision st) - length tmp) (ch CHR ''0'') @ rev tmp"
  have p: "0 \<le> p" "p < 2 ^ 30" "\<bar>v\<bar> < 2 ^ 31 - 1" "int (length tmp) \<le> p" using w by (auto simp: p_def v_def)
  have z: "nat p - length tmp = nat (sp_precision st) - length tmp" by (simp add: p_def)
  have lb: "length body = nat p" using p(4) by (simp add: body_def flip: z)
  define st0 where "st0 = st\<lparr>sp_precision := p, sp_width := v\<rparr>"
  have f0: "sp_width (st0\<lparr>sp_width := u\<rparr>) = u" "sp_width st0 = v" "sp_precision (st0\<lparr>sp_width := u\<rparr>) = p" "sp_precision st0 = p"
    "int_prefix sign (st0\<lparr>sp_width := u\<rparr>) = pre" "int_prefix sign st0 = pre"
    "sp_room m (st0\<lparr>sp_width := u\<rparr>) K" "sp_room m st0 K" for u
    using room by (simp_all add: int_prefix_def st0_def pre_def)
  have fill: "nat (sp_width st + int (length pre) - int (length pre + length body)) = nat v"
    using lb p(1) by (simp add: v_def)
  have o: "out = (if sprintf_flag st0 FMT_FORMAT_LEFT_JUSTIFY then pre @ body @ replicate (nat v) (ch CHR '' '')
      else if sprintf_flag st0 FMT_FORMAT_ZERO_PAD then pre @ replicate (nat v) (ch CHR ''0'') @ body
      else replicate (nat v) (ch CHR '' '') @ pre @ body)"
    unfolding out pre_def [symmetric] body_def [symmetric] int_layout_def fill Let_def by (simp add: st0_def)
  then have len: "length cs + nat v + length pre + nat p \<le> K" using K lb by (auto split: if_splits)
  note digits = put_digits_out [where K = K and tmp = tmp]
  have start: "sprintf_emit_int sign tmp (with_out m cs st) = do {
      st \<leftarrow> sprintf_pad_before (with_out m cs st0);
      st \<leftarrow> sprintf_put_prefix sign st;
      st \<leftarrow> sprintf_pad_between st;
      st \<leftarrow> sprintf_put_digits tmp st;
      st \<leftarrow> sprintf_pad (nat (sp_width st)) (ch CHR '' '') st;
      sprintf_dec_width st }"
  proof -
    have "cint v = Some v" using p(3) by simp
    then show ?thesis
      unfolding sprintf_emit_int_def Let_def with_out_fields p_def [symmetric] with_out_update
      by (simp add: st0_def v_def)
  qed
  define L where "L = sprintf_flag st0 FMT_FORMAT_LEFT_JUSTIFY"
  define Z where "Z = sprintf_flag st0 FMT_FORMAT_ZERO_PAD"
  define wA where "wA = (if L \<or> Z then v else min 0 v - 1)"
  define A where "A = (if L \<or> Z then [] else replicate (nat v) (ch CHR '' ''))"
  define wC where "wC = (if L then v else min 0 wA - 1)"
  define C where "C = (if L then [] else replicate (nat wA) (if Z then ch CHR ''0'' else ch CHR '' ''))"
  have bounds: "\<bar>wA\<bar> < 2 ^ 31 - 1" "\<bar>wC\<bar> < 2 ^ 31 - 1" "nat wA \<le> nat v" "nat wC \<le> nat v"
  proof -
    have "- (2 ^ 29 + 2 ^ 30) < v" "v < 2 ^ 31 - 1" using w(1) p(1,2) by (auto simp: v_def)
    then show "\<bar>wA\<bar> < 2 ^ 31 - 1" "\<bar>wC\<bar> < 2 ^ 31 - 1" "nat wA \<le> nat v" "nat wC \<le> nat v"
      by (auto simp: wA_def wC_def min_def)
  qed
  have out2: "A @ pre @ C @ body @ replicate (nat wC) (ch CHR '' '') = out"
    unfolding o L_def [symmetric] Z_def [symmetric] by (auto simp: A_def C_def wA_def wC_def min_def)
  have flags: "sprintf_flag (st0\<lparr>sp_width := u\<rparr>) f = sprintf_flag st0 f" for u f by simp
  have la: "length (A @ pre @ C @ body) \<le> length out" using out2 by (metis append_assoc length_append le_add1)
  have lens: "length cs + length A + length pre + length C + nat p + nat wC \<le> K"
    using K arg_cong [OF out2, of length] lb by simp
  have sA: "sprintf_pad_before (with_out m cs st0) = Some (with_out m (cs @ A) (st0\<lparr>sp_width := wA\<rparr>))"
    using pad_before_out [OF f0(8), of cs] len p(3)
    by (simp add: f0(2) wA_def A_def min_def flip: L_def Z_def)
  have sB: "sprintf_put_prefix sign (with_out m (cs @ A) (st0\<lparr>sp_width := wA\<rparr>))
      = Some (with_out m (cs @ A @ pre) (st0\<lparr>sp_width := wA\<rparr>))"
    using prefix_out [OF f0(7), of "cs @ A" sign wA] lens by (simp add: f0(5))
  have sC: "sprintf_pad_between (with_out m (cs @ A @ pre) (st0\<lparr>sp_width := wA\<rparr>))
      = Some (with_out m (cs @ A @ pre @ C) (st0\<lparr>sp_width := wC\<rparr>))"
  proof -
    have "length (cs @ A @ pre) + nat wA \<le> K" using lens len bounds(3) by (simp add: A_def wA_def)
    moreover have "L \<Longrightarrow> wA = v" by (simp add: wA_def)
    ultimately show ?thesis
      using pad_between_out [OF f0(7), of "cs @ A @ pre" wA] bounds(1)
      by (cases L) (simp_all add: wC_def C_def flip: L_def Z_def)
  qed
  have sD: "sprintf_put_digits tmp (with_out m (cs @ A @ pre @ C) (st0\<lparr>sp_width := wC\<rparr>))
      = Some (with_out m (cs @ A @ pre @ C @ body) (st0\<lparr>sp_width := wC, sp_precision := int (length tmp) - 1\<rparr>))"
    using put_digits_out [OF f0(7), of "cs @ A @ pre @ C" wC tmp] lens p by (simp add: f0(3) z body_def)
  define wE where "wE = wC - int (nat wC)"
  have wE: "\<bar>wE\<bar> < 2 ^ 31 - 1" using bounds(2) by (cases "0 \<le> wC") (auto simp: wE_def)
  have sE: "sprintf_pad (nat wC) 32 (with_out m (cs @ A @ pre @ C @ body) (st0\<lparr>sp_width := wC, sp_precision := int (length tmp) - 1\<rparr>))
      = Some (with_out m (cs @ out) (st0\<lparr>sp_width := wE, sp_precision := int (length tmp) - 1\<rparr>))"
  proof -
    have "sp_room m (st0\<lparr>sp_width := wC, sp_precision := int (length tmp) - 1\<rparr>) K" using f0(8) by simp
    from pad_out [OF this, of "cs @ A @ pre @ C @ body" "nat wC" "ch CHR '' ''"] lens lb show ?thesis
      by (simp add: wE_def flip: out2)
  qed
  have "sprintf_emit_int sign tmp (with_out m cs st)
      = Some (with_out m (cs @ out) (st0\<lparr>sp_width := wE - 1, sp_precision := int (length tmp) - 1\<rparr>))"
    unfolding start using wE by (simp add: sA sB sC sD sE dec_width_out)
  then show ?thesis by (auto simp: sp_same_def st0_def)
qed

lemma digit_char_decimal: "d < 10 \<Longrightarrow> digit_char (fmt_lower f) d = digit_char 0 d"
proof -
  assume d: "d < 10"
  have "fmt_lower f = 0 \<or> fmt_lower f = 0x20"
  proof (cases "bit f 5")
    case True
    then have "f AND 2 ^ 5 = 2 ^ 5" by (intro bit_word_eqI) (auto simp only: bit_and_iff bit_exp_iff)
    then show ?thesis by (simp add: fmt_lower_def FMT_FORMAT_LOWER_def)
  next
    case False
    then have "f AND 2 ^ 5 = 0" by (simp only: and_exp_eq_0_iff_not_bit not_False_eq_True)
    then show ?thesis by (simp add: fmt_lower_def FMT_FORMAT_LOWER_def)
  qed
  moreover have "d \<in> {0, 1, 2, 3, 4, 5, 6, 7, 8, 9}" using d by auto
  ultimately show ?thesis by (auto simp: digit_char_def fmt_digits_def)
qed

lemma int_digits_spec:
  assumes base: "sp_base st = 8 \<or> sp_base st = 10 \<or> sp_base st = 16"
  shows "\<exists>tmp. sprintf_int_digits n st = Some tmp \<and> length tmp \<le> FMT_MAX_NUM_SIZE
    \<and> rev tmp = (if unat n = 0 \<and> sp_precision st = 0 then []
        else map (digit_char (fmt_lower (sp_flags st))) (nat_digits (unat (sp_base st)) (unat n)))"
proof (cases "n = 0")
  case True
  have "nat_digits b 0 = [0]" for b by (cases "b < 2") (simp_all add: nat_digits.simps [of b 0])
  moreover have "digit_char (fmt_lower (sp_flags st)) 0 = ch CHR ''0''"
    by (simp add: digit_char_decimal) (simp add: digit_char_def fmt_digits_def)
  ultimately show ?thesis using True
    by (simp add: sprintf_int_digits_def tmp_put_def FMT_MAX_NUM_SIZE_def CHAR_BIT_def)
next
  case False
  then have n: "unat n \<noteq> 0" by (simp add: unat_eq_zero)
  note fit = numeral_fits [of n]
  consider (oct) "sp_base st = 8" | (dec) "sp_base st = 10" | (hex) "sp_base st = 16" using base by blast
  then show ?thesis
  proof cases
    case dec
    have "map (digit_char (fmt_lower (sp_flags st))) (nat_digits 10 (unat n)) = map (digit_char 0) (nat_digits 10 (unat n))"
      using nat_digits_range [of 10] by (intro map_cong) (auto intro: digit_char_decimal)
    then show ?thesis using dec False n fit decimal_loop [of "[]" n] by (simp add: sprintf_int_digits_def)
  next
    case oct
    then show ?thesis using False n fit pow2_loop [of "[]" 3 n] by (simp add: sprintf_int_digits_def fmt_lower_def)
  next
    case hex
    then show ?thesis using False n fit pow2_loop [of "[]" 4 n] by (simp add: sprintf_int_digits_def fmt_lower_def)
  qed
qed

lemma uint_of_sint: "uint x = (if sint x < 0 then sint x + 2 ^ 64 else sint x)" for x :: u64
proof -
  have "uint x = sint x mod 2 ^ 64" using uint_word_of_int [of "sint x", where 'a = 64] by simp
  moreover have "sint x mod 2 ^ 64 = sint x + 2 ^ 64" if "sint x < 0"
    by (rule int_mod_pos_eq [where q = "- 1"]) (use that sint_greater_eq [of x] in auto)
  moreover have "sint x mod 2 ^ 64 = sint x" if "\<not> sint x < 0"
    by (rule mod_pos_pos_trivial) (use that sint_less [of x] in auto)
  ultimately show ?thesis by simp
qed

lemma unat_neg: "sint n < 0 \<Longrightarrow> unat (- n) = nat (- sint n)" for n :: u64
proof -
  assume n: "sint n < 0"
  then have "n \<noteq> 0" by auto
  then have "0 < n" by (simp add: word_gt_0)
  from unat_sub_wrap [OF this] have "int (unat (- n) + unat n) = int (2 ^ 64)" by simp
  then have "uint (- n) + uint n = 2 ^ 64" by simp
  then have "uint (- n) = - sint n" using n uint_of_sint [of n] by simp
  then show ?thesis by (simp only: unat_eq_nat_uint)
qed

lemma sign_spec:
  assumes w: "0 \<le> sp_width st" "sp_width st < 2 ^ 28"
    and ok: "sprintf_flag st FMT_FORMAT_CONV_SIGNED \<Longrightarrow> \<not> sprintf_flag st FMT_FORMAT_ALT_FORM \<Longrightarrow> sint n \<noteq> - (2 ^ 63)"
    and ip: "int_parts (sp_flags st) (sp_base st) n = (pre, mag)"
  shows "\<exists>sign n'. sprintf_sign n (with_out m cs st)
      = Some (sign, n', with_out m cs (st\<lparr>sp_width := sp_width st - int (length pre)\<rparr>))
    \<and> unat n' = mag \<and> int_prefix sign st = pre"
proof (cases "sprintf_flag st FMT_FORMAT_ALT_FORM")
  case True
  then show ?thesis using w ip
    by (auto simp: sprintf_sign_def int_parts_def int_prefix_def dec_width_out sprintf_flag_def split: if_splits)
next
  case alt: False
  show ?thesis
  proof (cases "sprintf_flag st FMT_FORMAT_CONV_SIGNED")
    case signed: True
    show ?thesis
    proof (cases "sint n < 0")
      case True
      have "unat (- n) = nat (- sint n)" using True by (rule unat_neg)
      then show ?thesis using True alt signed ok w ip
        by (auto simp: sprintf_sign_def int_parts_def int_prefix_def dec_width_out sprintf_flag_def)
    next
      case False
      then show ?thesis using alt signed w ip
        by (auto simp: sprintf_sign_def int_parts_def int_prefix_def dec_width_out sprintf_flag_def split: if_splits)
    qed
  next
    case False
    have "st\<lparr>sp_width := sp_width st\<rparr> = st" by simp
    then show ?thesis using alt False ip
      by (auto simp: sprintf_sign_def int_parts_def int_prefix_def sprintf_flag_def)
  qed
qed

text \<open>The value of an argument for a conversion of a number.\<close>

fun int_value :: "bool \<Rightarrow> fmt_modifier \<Rightarrow> va_arg \<Rightarrow> u64 option" where
  "int_value sg MODIFIER_NONE (VInt w) = Some (if sg then scast w else ucast w)"
| "int_value sg MODIFIER_CHAR (VInt w) = Some (if sg then scast (ucast w :: u8) else ucast (ucast w :: u8))"
| "int_value sg MODIFIER_SHORT (VInt w) = Some (if sg then scast (ucast w :: u16) else ucast (ucast w :: u16))"
| "int_value sg MODIFIER_LONG (VLong w) = Some w"
| "int_value sg MODIFIER_LONGLONG (VLong w) = Some w"
| "int_value sg MODIFIER_SIZE (VLong w) = Some w"
| "int_value sg MODIFIER_PTRDIFF (VLong w) = Some w"
| "int_value sg MODIFIER_PTR (VPtr w) = Some w"
| "int_value sg _ _ = None"

lemma fetch_spec:
  assumes "int_value (sprintf_flag st FMT_FORMAT_CONV_SIGNED) (sp_modifier st) a = Some n" "sp_ap st = a # ap"
  shows "sprintf_fetch_int (with_out m cs st) = Some (n, with_out m cs (st\<lparr>sp_ap := ap\<rparr>))"
  using assms by (cases "sp_modifier st"; cases a) (simp_all add: sprintf_fetch_int_def split: if_splits)

lemma flag_clear:
  "fmt_flag (f AND NOT FMT_FORMAT_ZERO_PAD) FMT_FORMAT_ALT_FORM = fmt_flag f FMT_FORMAT_ALT_FORM"
  "fmt_flag (f AND NOT FMT_FORMAT_ZERO_PAD) FMT_FORMAT_LEFT_JUSTIFY = fmt_flag f FMT_FORMAT_LEFT_JUSTIFY"
  "fmt_flag (f AND NOT FMT_FORMAT_ZERO_PAD) FMT_FORMAT_BLANK = fmt_flag f FMT_FORMAT_BLANK"
  "fmt_flag (f AND NOT FMT_FORMAT_ZERO_PAD) FMT_FORMAT_SIGN = fmt_flag f FMT_FORMAT_SIGN"
  "fmt_flag (f AND NOT FMT_FORMAT_ZERO_PAD) FMT_FORMAT_CONV_SIGNED = fmt_flag f FMT_FORMAT_CONV_SIGNED"
  "\<not> fmt_flag (f AND NOT FMT_FORMAT_ZERO_PAD) FMT_FORMAT_ZERO_PAD"
  "fmt_lower (f AND NOT FMT_FORMAT_ZERO_PAD) = fmt_lower f"
proof -
  have c: "bit (f AND NOT FMT_FORMAT_ZERO_PAD) k \<longleftrightarrow> bit f k \<and> k \<noteq> 1" for k
  proof -
    have "bit (f AND NOT (2 ^ 1)) k \<longleftrightarrow> bit f k \<and> k \<noteq> 1"
      by (auto simp only: bit_and_iff bit_not_iff bit_exp_iff) (auto simp: bit_word.rep_eq dest: bit_imp_le_length)
    then show ?thesis by (simp add: FMT_FORMAT_ZERO_PAD_def)
  qed
  show "fmt_flag (f AND NOT FMT_FORMAT_ZERO_PAD) FMT_FORMAT_ALT_FORM = fmt_flag f FMT_FORMAT_ALT_FORM"
    "fmt_flag (f AND NOT FMT_FORMAT_ZERO_PAD) FMT_FORMAT_LEFT_JUSTIFY = fmt_flag f FMT_FORMAT_LEFT_JUSTIFY"
    "fmt_flag (f AND NOT FMT_FORMAT_ZERO_PAD) FMT_FORMAT_BLANK = fmt_flag f FMT_FORMAT_BLANK"
    "fmt_flag (f AND NOT FMT_FORMAT_ZERO_PAD) FMT_FORMAT_SIGN = fmt_flag f FMT_FORMAT_SIGN"
    "fmt_flag (f AND NOT FMT_FORMAT_ZERO_PAD) FMT_FORMAT_CONV_SIGNED = fmt_flag f FMT_FORMAT_CONV_SIGNED"
    "\<not> fmt_flag (f AND NOT FMT_FORMAT_ZERO_PAD) FMT_FORMAT_ZERO_PAD"
    by (simp_all add: flag_bit c)
  have "(f AND NOT FMT_FORMAT_ZERO_PAD) AND FMT_FORMAT_LOWER = f AND FMT_FORMAT_LOWER"
    by (simp add: FMT_FORMAT_ZERO_PAD_def FMT_FORMAT_LOWER_def and.assoc)
  then show "fmt_lower (f AND NOT FMT_FORMAT_ZERO_PAD) = fmt_lower f" by (simp add: fmt_lower_def)
qed

lemma produce_int_out:
  assumes room: "sp_room m st K"
    and arg: "sp_ap st = a # ap" "int_value (fmt_flag (sp_flags st) FMT_FORMAT_CONV_SIGNED) (sp_modifier st) a = Some n"
    and w: "0 \<le> sp_width st" "sp_width st < 2 ^ 28" "- 1 \<le> sp_precision st" "sp_precision st < 2 ^ 30"
    and base: "sp_base st = 8 \<or> sp_base st = 10 \<or> sp_base st = 16"
    and ok: "fmt_flag (sp_flags st) FMT_FORMAT_CONV_SIGNED \<Longrightarrow> \<not> fmt_flag (sp_flags st) FMT_FORMAT_ALT_FORM
      \<Longrightarrow> sint n \<noteq> - (2 ^ 63)"
    and out: "out = int_text (sp_flags st) (sp_width st) (sp_precision st) (sp_base st) n"
    and K: "length cs + length out \<le> K"
  shows "\<exists>st'. fmt_sprintf_state_produce_int (with_out m cs st) = Some (with_out m (cs @ out) st') \<and> sp_same (st\<lparr>sp_ap := ap\<rparr>) st'"
proof -
  define f where "f = (if fmt_flag (sp_flags st) FMT_FORMAT_LEFT_JUSTIFY \<or> sp_precision st \<ge> 0
    then sp_flags st AND NOT FMT_FORMAT_ZERO_PAD else sp_flags st)"
  define st1 where "st1 = st\<lparr>sp_ap := ap, sp_flags := f\<rparr>"
  have ff: "fmt_flag f FMT_FORMAT_ALT_FORM = fmt_flag (sp_flags st) FMT_FORMAT_ALT_FORM"
    "fmt_flag f FMT_FORMAT_LEFT_JUSTIFY = fmt_flag (sp_flags st) FMT_FORMAT_LEFT_JUSTIFY"
    "fmt_flag f FMT_FORMAT_BLANK = fmt_flag (sp_flags st) FMT_FORMAT_BLANK"
    "fmt_flag f FMT_FORMAT_SIGN = fmt_flag (sp_flags st) FMT_FORMAT_SIGN"
    "fmt_flag f FMT_FORMAT_CONV_SIGNED = fmt_flag (sp_flags st) FMT_FORMAT_CONV_SIGNED"
    "fmt_lower f = fmt_lower (sp_flags st)"
    "fmt_flag f FMT_FORMAT_ZERO_PAD = (fmt_flag (sp_flags st) FMT_FORMAT_ZERO_PAD \<and>
      \<not> fmt_flag (sp_flags st) FMT_FORMAT_LEFT_JUSTIFY \<and> sp_precision st < 0)"
    by (auto simp: f_def flag_clear)
  obtain pre mag where ip: "int_parts (sp_flags st) (sp_base st) n = (pre, mag)" by force
  have ip': "int_parts (sp_flags st1) (sp_base st1) n = (pre, mag)"
  proof -
    have "int_parts f (sp_base st) n = int_parts (sp_flags st) (sp_base st) n" by (simp only: int_parts_def ff)
    then show ?thesis using ip by (simp add: st1_def)
  qed
  have w1: "0 \<le> sp_width st1" "sp_width st1 < 2 ^ 28" using w by (simp_all add: st1_def)
  from sign_spec [OF w1 _ ip', of m cs] ok obtain sign n' where
    s: "sprintf_sign n (with_out m cs st1) = Some (sign, n', with_out m cs (st1\<lparr>sp_width := sp_width st1 - int (length pre)\<rparr>))"
      "unat n' = mag" "int_prefix sign st1 = pre"
    by (auto simp: sprintf_flag_def st1_def ff)
  define st2 where "st2 = st1\<lparr>sp_width := sp_width st1 - int (length pre)\<rparr>"
  have base2: "sp_base (with_out m cs st2) = 8 \<or> sp_base (with_out m cs st2) = 10 \<or> sp_base (with_out m cs st2) = 16"
    using base by (simp add: st2_def st1_def)
  from int_digits_spec [OF base2, of n'] obtain tmp where
    d: "sprintf_int_digits n' (with_out m cs st2) = Some tmp" "length tmp \<le> FMT_MAX_NUM_SIZE"
      "rev tmp = (if mag = 0 \<and> sp_precision st = 0 then []
        else map (digit_char (fmt_lower (sp_flags st))) (nat_digits (unat (sp_base st)) mag))"
    using s(2) by (auto simp: st2_def st1_def ff)
  have lp: "length pre \<le> 2" using ip by (auto simp: int_parts_def split: if_splits)
  have lt: "length tmp < 2 ^ 30" using d(2) by (simp add: FMT_MAX_NUM_SIZE_def CHAR_BIT_def)
  have num: "replicate (nat (sp_precision st) - length tmp) (ch CHR ''0'') @ rev tmp
      = int_numeral (sp_flags st) (sp_precision st) (sp_base st) mag"
    using d(3) length_rev [of tmp] by (simp add: int_numeral_def Let_def)
  have pre2: "int_prefix sign st2 = pre" unfolding s(3) [symmetric] by (simp add: int_prefix_def st2_def)
  have layout: "int_layout L (Z \<and> \<not> L \<and> c) v p b = int_layout L (Z \<and> c) v p b" for L Z c v p b
    by (simp add: int_layout_def Let_def)
  have "\<exists>st'. sprintf_emit_int sign tmp (with_out m cs st2) = Some (with_out m (cs @ out) st') \<and> sp_same st2 st'"
  proof (rule emit_int_out)
    show "sp_room m st2 K" using room by (simp add: st2_def st1_def)
    show "\<bar>sp_width st2\<bar> < 2 ^ 29" using w lp by (simp add: st2_def st1_def)
    show "out = int_layout (sprintf_flag st2 FMT_FORMAT_LEFT_JUSTIFY) (sprintf_flag st2 FMT_FORMAT_ZERO_PAD)
        (sp_width st2 + int (length (int_prefix sign st2))) (int_prefix sign st2)
        (replicate (nat (sp_precision st2) - length tmp) (ch CHR ''0'') @ rev tmp)"
      unfolding pre2 out int_text_def ip prod.case
      using num layout by (simp add: st2_def st1_def sprintf_flag_def ff)
  qed (use w lt K in \<open>simp_all add: st2_def st1_def\<close>)
  then obtain st' where e: "sprintf_emit_int sign tmp (with_out m cs st2) = Some (with_out m (cs @ out) st')" "sp_same st2 st'"
    by blast
  have "fmt_sprintf_state_produce_int (with_out m cs st) = Some (with_out m (cs @ out) st')"
  proof -
    have fe: "sprintf_fetch_int (with_out m cs st) = Some (n, with_out m cs (st\<lparr>sp_ap := ap\<rparr>))"
      by (rule fetch_spec) (use arg in \<open>simp_all add: sprintf_flag_def\<close>)
    have "(if sprintf_flag (with_out m cs (st\<lparr>sp_ap := ap\<rparr>)) FMT_FORMAT_LEFT_JUSTIFY
        \<or> sp_precision (with_out m cs (st\<lparr>sp_ap := ap\<rparr>)) \<ge> 0
      then (with_out m cs (st\<lparr>sp_ap := ap\<rparr>))\<lparr>sp_flags := sp_flags (with_out m cs (st\<lparr>sp_ap := ap\<rparr>)) AND NOT FMT_FORMAT_ZERO_PAD\<rparr>
      else with_out m cs (st\<lparr>sp_ap := ap\<rparr>)) = with_out m cs st1"
      by (simp add: st1_def f_def sprintf_flag_def)
    then show ?thesis
      using s(1) d(1) e(1) unfolding fmt_sprintf_state_produce_int_def fe by (simp add: st2_def)
  qed
  moreover have "sp_same (st\<lparr>sp_ap := ap\<rparr>) st'" using e(2) by (simp add: sp_same_def st2_def st1_def)
  ultimately show ?thesis by blast
qed

section \<open>Characters and strings\<close>

lemma char_pad_out:
  assumes "sp_room m st K" "length cs + nat (sp_width st - 1) \<le> K" "\<bar>sp_width st\<bar> < 2 ^ 31 - 1"
  shows "sprintf_char_pad (with_out m cs st)
    = Some (with_out m (cs @ replicate (nat (sp_width st - 1)) (ch CHR '' '')) (st\<lparr>sp_width := min 0 (sp_width st - 1)\<rparr>))"
  using assms
proof (induction "nat (sp_width st - 1)" arbitrary: st cs)
  case 0
  then show ?case by (subst sprintf_char_pad.simps) (simp add: dec_width_out min_def)
next
  case (Suc k)
  define st1 where "st1 = st\<lparr>sp_width := sp_width st - 1\<rparr>"
  have w: "sp_width st1 = sp_width st - 1" "0 < sp_width st1" using Suc(2) by (simp_all add: st1_def)
  have room: "sp_room m st1 K" using Suc.prems(1) by (simp add: st1_def)
  have k: "nat (sp_width st - 1) = Suc (nat (sp_width st1 - 1))" "k = nat (sp_width st1 - 1)" using w Suc(2) by auto
  have "sprintf_char_pad (with_out m cs st) = sprintf_char_pad (with_out m (cs @ [ch CHR '' '']) st1)"
    using Suc.prems w raw_char_out [OF room, of cs "ch CHR '' ''"] k
    by (subst sprintf_char_pad.simps) (simp add: dec_width_out flip: st1_def)
  also have "\<dots> = Some (with_out m ((cs @ [ch CHR '' '']) @ replicate (nat (sp_width st1 - 1)) (ch CHR '' ''))
      (st1\<lparr>sp_width := min 0 (sp_width st1 - 1)\<rparr>))"
    by (rule Suc(1) [OF k(2) room]) (use Suc.prems w k in auto)
  also have "\<dots> = Some (with_out m (cs @ replicate (nat (sp_width st - 1)) (ch CHR '' '')) (st\<lparr>sp_width := min 0 (sp_width st - 1)\<rparr>))"
    using w by (simp add: k(1) st1_def replicate_append_same [symmetric]) 
  finally show ?case .
qed

definition char_text :: "bool \<Rightarrow> int \<Rightarrow> u8 \<Rightarrow> u8 list" where
  "char_text left width c =
     (if left then c # replicate (nat (width - 1)) (ch CHR '' '') else replicate (nat (width - 1)) (ch CHR '' '') @ [c])"

lemma produce_char_out:
  assumes room: "sp_room m st K" and arg: "sp_ap st = VInt w # ap"
    and w: "0 \<le> sp_width st" "sp_width st < 2 ^ 28"
    and out: "out = char_text (fmt_flag (sp_flags st) FMT_FORMAT_LEFT_JUSTIFY) (sp_width st) (ucast w)"
    and K: "length cs + length out \<le> K"
  shows "\<exists>st'. fmt_sprintf_state_produce_char (with_out m cs st) = Some (with_out m (cs @ out) st') \<and> sp_same (st\<lparr>sp_ap := ap\<rparr>) st'"
proof -
  define st1 where "st1 = st\<lparr>sp_ap := ap\<rparr>"
  define fill where "fill = nat (sp_width st - 1)"
  have room1: "sp_room m (st1\<lparr>sp_width := v\<rparr>) K" "sp_room m st1 K" for v using room by (simp_all add: st1_def)
  have w1: "sp_width st1 = sp_width st" by (simp add: st1_def)
  show ?thesis
  proof (cases "fmt_flag (sp_flags st) FMT_FORMAT_LEFT_JUSTIFY")
    case True
    have "fmt_sprintf_state_produce_raw_char (with_out m cs st1) (ucast w) = Some (with_out m (cs @ [ucast w]) st1)"
      by (rule raw_char_out [OF room1(2)]) (use K out True in \<open>simp add: char_text_def\<close>)
    moreover have "sprintf_char_pad (with_out m (cs @ [ucast w]) st1)
        = Some (with_out m ((cs @ [ucast w]) @ replicate (nat (sp_width st1 - 1)) (ch CHR '' '')) (st1\<lparr>sp_width := min 0 (sp_width st1 - 1)\<rparr>))"
      by (rule char_pad_out [OF room1(2)]) (use K out True w in \<open>simp_all add: char_text_def w1\<close>)
    ultimately have "fmt_sprintf_state_produce_char (with_out m cs st) = Some (with_out m (cs @ out) (st1\<lparr>sp_width := min 0 (sp_width st1 - 1)\<rparr>))"
      using arg True out by (simp add: fmt_sprintf_state_produce_char_def char_text_def w1 sprintf_flag_def flip: st1_def)
    then show ?thesis by (auto simp: sp_same_def st1_def)
  next
    case False
    define st2 where "st2 = st1\<lparr>sp_width := min 0 (sp_width st - 1)\<rparr>"
    have "sprintf_char_pad (with_out m cs st1) = Some (with_out m (cs @ replicate fill (ch CHR '' '')) st2)"
      using char_pad_out [OF room1(2), of cs] K out False w by (simp add: char_text_def w1 fill_def st2_def)
    moreover have "fmt_sprintf_state_produce_raw_char (with_out m (cs @ replicate fill (ch CHR '' '')) st2) (ucast w)
        = Some (with_out m ((cs @ replicate fill (ch CHR '' '')) @ [ucast w]) st2)"
      by (rule raw_char_out [where k = K]) (use K out False room1 in \<open>simp_all add: char_text_def fill_def st2_def\<close>)
    moreover have "sprintf_char_pad (with_out m (cs @ out) st2) = Some (with_out m (cs @ out) (st2\<lparr>sp_width := sp_width st2 - 1\<rparr>))"
      using char_pad_out [of m st2 K "cs @ out"] room1(1) K w by (simp add: st2_def min_def)
    moreover have "out = replicate fill (ch CHR '' '') @ [ucast w]" using out False by (simp add: char_text_def fill_def)
    ultimately have "fmt_sprintf_state_produce_char (with_out m cs st) = Some (with_out m (cs @ out) (st2\<lparr>sp_width := sp_width st2 - 1\<rparr>))"
      using arg False by (simp add: fmt_sprintf_state_produce_char_def sprintf_flag_def flip: st1_def)
    then show ?thesis by (auto simp: sp_same_def st1_def st2_def)
  qed
qed

text \<open>A string that is the same whatever the first \<open>k\<close> characters put in the buffer.\<close>

definition stable_str :: "nat \<Rightarrow> mem \<Rightarrow> fmt_sprintf_state \<Rightarrow> u64 \<Rightarrow> u8 list \<Rightarrow> bool" where
  "stable_str k m st p t \<longleftrightarrow> (\<forall>cs. length cs \<le> k \<longrightarrow> cstr (write_bytes m (sp_start st) (take (sp_cap st) cs)) p t)"

lemma stable_nonzero: "stable_str k m st p t \<Longrightarrow> 0 \<notin> set t"
  unfolding stable_str_def by (drule spec [of _ "[]"]) (simp add: cstr_def)

definition str_arg :: "nat \<Rightarrow> mem \<Rightarrow> fmt_sprintf_state \<Rightarrow> u64 \<Rightarrow> u8 list \<Rightarrow> bool" where
  "str_arg k m st p t \<longleftrightarrow> length t < 2 ^ 31 - 1 \<and> (if p = 0 then t = map of_char ''(null)'' else stable_str k m st p t)"

lemma str_char:
  assumes "str_arg k m st p t" "i \<le> length t" "length cs \<le> k"
  shows "sprintf_str_char (write_bytes m (sp_start st) (take (sp_cap st) cs)) p i = Some ((t @ [0]) ! i)"
proof (cases "p = 0")
  case True
  then have "t = map of_char ''(null)''" using assms(1) by (simp add: str_arg_def)
  then show ?thesis using assms(2) True by (simp add: sprintf_str_char_def del: list.map)
next
  case False
  then have "cstr (write_bytes m (sp_start st) (take (sp_cap st) cs)) p t"
    using assms(1,3) by (simp add: str_arg_def stable_str_def)
  from mem_bytes_nth [OF cstr_bytes [OF this], of i] assms(2) False
  show ?thesis by (simp add: sprintf_str_char_def load_def)
qed

lemma str_nonzero: "str_arg k m st p t \<Longrightarrow> 0 \<notin> set t"
  by (cases "p = 0") (auto simp: str_arg_def dest: stable_nonzero)

definition shown_length :: "int \<Rightarrow> u8 list \<Rightarrow> nat" where
  "shown_length prec t = (if prec < 0 then length t else min (nat prec) (length t))"

lemma str_len_spec:
  assumes t: "str_arg K m st p t" and K: "length cs \<le> K" and l: "len \<le> shown_length prec t"
  shows "sprintf_str_len (write_bytes m (sp_start st) (take (sp_cap st) cs)) p prec len = Some (shown_length prec t)"
  using l
proof (induction "shown_length prec t - len" arbitrary: len)
  case 0
  then have len: "len = shown_length prec t" by simp
  then have le: "len \<le> length t" by (simp add: shown_length_def)
  show ?case
  proof (cases "len = length t")
    case True
    then show ?thesis using str_char [OF t le K] len by (subst sprintf_str_len.simps) simp
  next
    case False
    then have "t ! len \<noteq> 0" using str_nonzero [OF t] le by (metis le_neq_implies_less nth_mem)
    moreover have "int len = prec" using False len by (auto simp: shown_length_def split: if_splits)
    ultimately show ?thesis using str_char [OF t le K] False le len by (subst sprintf_str_len.simps) (simp add: nth_append)
  qed
next
  case (Suc k)
  then have lt: "len < shown_length prec t" by simp
  then have le: "len < length t" by (simp add: shown_length_def split: if_splits)
  then have "t ! len \<noteq> 0" using str_nonzero [OF t] by (metis nth_mem)
  moreover have "int len \<noteq> prec" using lt by (auto simp: shown_length_def split: if_splits)
  moreover have "cint (int len + 1) \<noteq> None" using le t by (simp add: str_arg_def cint_def)
  moreover have "sprintf_str_len (write_bytes m (sp_start st) (take (sp_cap st) cs)) p prec (Suc len) = Some (shown_length prec t)"
    using Suc by simp
  ultimately show ?case using str_char [OF t _ K, of len] le
    by (subst sprintf_str_len.simps) (auto simp: nth_append)
qed

lemma str_out_spec:
  assumes t: "str_arg K m st p t" and room: "sp_room m st K" and k: "i + k \<le> length t" "length cs + k \<le> K"
  shows "sprintf_str_out k p i (with_out m cs st) = Some (with_out m (cs @ take k (drop i t)) st)"
  using k
proof (induction k arbitrary: i cs)
  case (Suc k)
  have "sprintf_str_char (sp_mem (with_out m cs st)) p i = Some (t ! i)"
    using str_char [OF t, of i cs] Suc.prems by (simp add: nth_append)
  moreover have "fmt_sprintf_state_produce_raw_char (with_out m cs st) (t ! i) = Some (with_out m (cs @ [t ! i]) st)"
    by (rule raw_char_out [OF room]) (use Suc.prems in simp)
  moreover have "take (Suc k) (drop i t) = t ! i # take k (drop (Suc i) t)"
    using Suc.prems by (simp add: Cons_nth_drop_Suc [symmetric])
  ultimately show ?case using Suc.IH [of "Suc i" "cs @ [t ! i]"] Suc.prems by simp
qed simp

definition str_text :: "bool \<Rightarrow> int \<Rightarrow> int \<Rightarrow> u8 list \<Rightarrow> u8 list" where
  "str_text left width prec t =
     (let s = take (shown_length prec t) t; fill = replicate (nat (width - int (length s))) (ch CHR '' '') in
      if left then s @ fill else fill @ s)"

lemma produce_str_out:
  assumes room: "sp_room m st K" and arg: "sp_ap st = VPtr p # ap" "str_arg K m st p t"
    and w: "0 \<le> sp_width st" "sp_width st < 2 ^ 28"
    and out: "out = str_text (fmt_flag (sp_flags st) FMT_FORMAT_LEFT_JUSTIFY) (sp_width st) (sp_precision st) t"
    and K: "length cs + length out \<le> K"
  shows "\<exists>st'. fmt_sprintf_state_produce_str (with_out m cs st) = Some (with_out m (cs @ out) st') \<and> sp_same (st\<lparr>sp_ap := ap\<rparr>) st'"
proof -
  define st1 where "st1 = st\<lparr>sp_ap := ap\<rparr>"
  define len where "len = shown_length (sp_precision st) t"
  define fill where "fill = nat (sp_width st - int len)"
  have lt: "len \<le> length t" by (simp add: len_def shown_length_def)
  have room1: "sp_room m (st1\<lparr>sp_width := v\<rparr>) K" "sp_room m st1 K" for v using room by (simp_all add: st1_def)
  have t1: "str_arg K m (st1\<lparr>sp_width := v\<rparr>) p t" "str_arg K m st1 p t" for v
    using arg(2) by (auto simp: str_arg_def stable_str_def st1_def split: if_splits)
  have sl: "sprintf_str_len (write_bytes m (sp_start st) (take (sp_cap st) cs)) p (sp_precision st) 0 = Some len"
    using str_len_spec [OF arg(2), of cs 0 "sp_precision st"] K by (simp add: len_def)
  have o: "out = (if fmt_flag (sp_flags st) FMT_FORMAT_LEFT_JUSTIFY then take len t @ replicate fill (ch CHR '' '')
      else replicate fill (ch CHR '' '') @ take len t)"
    using out lt by (simp add: str_text_def Let_def len_def fill_def min_def)
  have K': "length cs + fill + len \<le> K" using K o lt by (simp split: if_splits)
  have w1: "sp_width st1 = sp_width st" by (simp add: st1_def)
  show ?thesis
  proof (cases "fmt_flag (sp_flags st) FMT_FORMAT_LEFT_JUSTIFY")
    case True
    have "sprintf_str_out len p 0 (with_out m cs st1) = Some (with_out m (cs @ take len t) st1)"
      using str_out_spec [OF t1(2) room1(2), of 0 len cs] lt K' by simp
    moreover have "sprintf_pad fill (ch CHR '' '') (with_out m (cs @ take len t) st1)
        = Some (with_out m ((cs @ take len t) @ replicate fill (ch CHR '' '')) (st1\<lparr>sp_width := sp_width st1 - int fill\<rparr>))"
      by (rule pad_out [OF room1(2)]) (use K' lt in simp)
    ultimately have "fmt_sprintf_state_produce_str (with_out m cs st) = Some (with_out m (cs @ out) (st1\<lparr>sp_width := sp_width st1 - int fill\<rparr>))"
      using arg(1) True sl o by (simp add: fmt_sprintf_state_produce_str_def sprintf_flag_def w1 fill_def flip: st1_def)
    then show ?thesis by (auto simp: sp_same_def st1_def)
  next
    case False
    define st2 where "st2 = st1\<lparr>sp_width := sp_width st1 - int fill\<rparr>"
    have "sprintf_pad fill (ch CHR '' '') (with_out m cs st1) = Some (with_out m (cs @ replicate fill (ch CHR '' '')) st2)"
      unfolding st2_def by (rule pad_out [OF room1(2)]) (use K' in simp)
    moreover have "sprintf_str_out len p 0 (with_out m (cs @ replicate fill (ch CHR '' '')) st2)
        = Some (with_out m ((cs @ replicate fill (ch CHR '' '')) @ take len (drop 0 t)) st2)"
      unfolding st2_def by (rule str_out_spec [OF t1(1) room1(1)]) (use K' lt in simp_all)
    moreover have "nat (sp_width st2 - int len) = 0" by (simp add: st2_def w1 fill_def)
    ultimately have "fmt_sprintf_state_produce_str (with_out m cs st) = Some (with_out m (cs @ out) st2)"
      using arg(1) False sl o by (simp add: fmt_sprintf_state_produce_str_def sprintf_flag_def w1 fill_def flip: st1_def)
    then show ?thesis by (auto simp: sp_same_def st1_def st2_def)
  qed
qed

end
