(* ===== verification/Fmt_Directive.thy ===== *)
theory Fmt_Directive
  imports Fmt_Text
begin

text \<open>
  How a format is read. \<open>read_conversion\<close> reads a conversion from the list of the
  characters that follow a percent sign; the state machine of \<^verbatim>\<open>kern/fmt.c\<close>
  reads the same flags, width, precision, modifier and specifier, whatever has been produced so far.
\<close>

unbundle bit_operations_syntax

section \<open>Conversions of a format\<close>

record conversion =
  cv_flags :: u32
  cv_width :: int
  cv_precision :: int
  cv_modifier :: fmt_modifier
  cv_specifier :: fmt_specifier
  cv_base :: u32

fun flag_value :: "u8 \<Rightarrow> u32 option" where
  "flag_value c =
     (if c = ch CHR ''#'' then Some FMT_FORMAT_ALT_FORM
      else if c = ch CHR ''0'' then Some FMT_FORMAT_ZERO_PAD
      else if c = ch CHR ''-'' then Some FMT_FORMAT_LEFT_JUSTIFY
      else if c = ch CHR '' '' then Some FMT_FORMAT_BLANK
      else if c = ch CHR ''+'' then Some FMT_FORMAT_SIGN
      else None)"

fun read_flags :: "u32 \<Rightarrow> u8 list \<Rightarrow> u32 \<times> u8 list" where
  "read_flags fl [] = (fl, [])"
| "read_flags fl (c # f) = (case flag_value c of Some b \<Rightarrow> read_flags (fl OR b) f | None \<Rightarrow> (fl, c # f))"

fun read_number :: "int \<Rightarrow> u8 list \<Rightarrow> int \<times> u8 list" where
  "read_number n [] = (n, [])"
| "read_number n (c # f) = (if fmt_isdigit c then read_number (n * 10 + uint (c - ch CHR ''0'')) f else (n, c # f))"

definition starts :: "(u8 \<Rightarrow> bool) \<Rightarrow> u8 list \<Rightarrow> bool" where
  "starts P f \<longleftrightarrow> (case f of [] \<Rightarrow> False | c # _ \<Rightarrow> P c)"

text \<open>A star takes the number from the arguments; a negative width asks for left justification and a
  negative precision counts as zero.\<close>

definition read_width :: "u32 \<Rightarrow> u8 list \<Rightarrow> va_arg list \<Rightarrow> (u32 \<times> int \<times> u8 list \<times> va_arg list) option" where
  "read_width fl f ap =
     (if starts fmt_isdigit f then Some (fl, fst (read_number 0 f), snd (read_number 0 f), ap)
      else if starts ((=) (ch CHR ''*'')) f then do {
        (w, ap) \<leftarrow> va_int ap;
        Some (if sint w < 0 then fl OR FMT_FORMAT_LEFT_JUSTIFY else fl, \<bar>sint w\<bar>, tl f, ap) }
      else Some (fl, 0, f, ap))"

definition read_precision :: "u8 list \<Rightarrow> va_arg list \<Rightarrow> (int \<times> u8 list \<times> va_arg list) option" where
  "read_precision f ap =
     (if \<not> starts ((=) (ch CHR ''.'')) f then Some (- 1, f, ap)
      else if starts fmt_isdigit (tl f) then Some (fst (read_number 0 (tl f)), snd (read_number 0 (tl f)), ap)
      else if starts ((=) (ch CHR ''*'')) (tl f) then do {
        (w, ap) \<leftarrow> va_int ap;
        Some (max 0 (sint w), tl (tl f), ap) }
      else Some (0, tl f, ap))"

definition read_modifier :: "u8 list \<Rightarrow> fmt_modifier \<times> u8 list" where
  "read_modifier f =
     (if starts ((=) (ch CHR ''h'')) f then
        (if starts ((=) (ch CHR ''h'')) (tl f) then (MODIFIER_CHAR, tl (tl f)) else (MODIFIER_SHORT, tl f))
      else if starts ((=) (ch CHR ''l'')) f then
        (if starts ((=) (ch CHR ''l'')) (tl f) then (MODIFIER_LONGLONG, tl (tl f)) else (MODIFIER_LONG, tl f))
      else if starts (\<lambda>c. c = ch CHR ''z'' \<or> c = ch CHR ''t'') f then (MODIFIER_PTRDIFF, tl f)
      else (MODIFIER_NONE, f))"

text \<open>The specifier, its base, the flags it adds and whether it forces the modifier of a pointer.\<close>

definition specifier_table :: "(u8 \<times> fmt_specifier \<times> u32 \<times> u32 \<times> bool) list" where
  "specifier_table =
     [(ch CHR ''d'', SPECIFIER_INT, 10, FMT_FORMAT_CONV_SIGNED, False),
      (ch CHR ''i'', SPECIFIER_INT, 10, FMT_FORMAT_CONV_SIGNED, False),
      (ch CHR ''u'', SPECIFIER_INT, 10, 0, False),
      (ch CHR ''o'', SPECIFIER_INT, 8, 0, False),
      (ch CHR ''p'', SPECIFIER_INT, 16, FMT_FORMAT_ALT_FORM OR FMT_FORMAT_LOWER, True),
      (ch CHR ''x'', SPECIFIER_INT, 16, FMT_FORMAT_LOWER, False),
      (ch CHR ''X'', SPECIFIER_INT, 16, 0, False),
      (ch CHR ''c'', SPECIFIER_CHAR, 10, 0, False),
      (ch CHR ''s'', SPECIFIER_STR, 10, 0, False),
      (ch CHR ''n'', SPECIFIER_NRCHARS, 10, 0, False),
      (ch CHR ''%'', SPECIFIER_PERCENT, 10, 0, False)]"

definition specifier_of :: "u8 \<Rightarrow> (fmt_specifier \<times> u32 \<times> u32 \<times> bool) option" where
  "specifier_of c = map_of specifier_table c"

definition read_conversion :: "u8 list \<Rightarrow> va_arg list \<Rightarrow> (conversion \<times> u8 list \<times> va_arg list) option" where
  "read_conversion f ap = do {
     let (fl, f) = read_flags 0 f;
     (fl, w, f, ap) \<leftarrow> read_width fl f ap;
     (p, f, ap) \<leftarrow> read_precision f ap;
     let (md, f) = read_modifier f;
     case (case f of [] \<Rightarrow> None | c # _ \<Rightarrow> specifier_of c) of
       None \<Rightarrow> Some (\<lparr>cv_flags = fl, cv_width = w, cv_precision = p, cv_modifier = md,
         cv_specifier = SPECIFIER_INVALID, cv_base = 10\<rparr>, f, ap)
     | Some (sp, b, fl', ptr) \<Rightarrow> Some (\<lparr>cv_flags = fl OR fl', cv_width = w, cv_precision = p,
         cv_modifier = (if ptr then MODIFIER_PTR else md), cv_specifier = sp, cv_base = b\<rparr>, tl f, ap) }"

section \<open>The state machine reads the same conversions\<close>

lemma stable_update [simp]:
  "stable_str K m (st\<lparr>sp_format := a\<rparr>) = stable_str K m st" "stable_str K m (st\<lparr>sp_ap := b\<rparr>) = stable_str K m st"
  "stable_str K m (st\<lparr>sp_flags := c\<rparr>) = stable_str K m st" "stable_str K m (st\<lparr>sp_width := d\<rparr>) = stable_str K m st"
  "stable_str K m (st\<lparr>sp_precision := e\<rparr>) = stable_str K m st" "stable_str K m (st\<lparr>sp_modifier := f\<rparr>) = stable_str K m st"
  "stable_str K m (st\<lparr>sp_specifier := g\<rparr>) = stable_str K m st" "stable_str K m (st\<lparr>sp_base := h\<rparr>) = stable_str K m st"
  by (simp_all add: stable_str_def fun_eq_iff)

definition head0 :: "u8 list \<Rightarrow> u8" where "head0 f = (case f of [] \<Rightarrow> 0 | c # _ \<Rightarrow> c)"

lemma head0_simps [simp]: "head0 [] = 0" "head0 (c # f) = c"
  by (simp_all add: head0_def)

lemma consume_out:
  assumes "stable_str K m st (sp_format st) f" "length cs \<le> K"
  shows "fmt_sprintf_state_consume_format (with_out m cs st)
    = Some (head0 f, with_out m cs (st\<lparr>sp_format := sp_format st + 1\<rparr>))"
  using assms by (cases f) (auto simp: fmt_sprintf_state_consume_format_def fmt_consume_def load_def head0_def stable_str_def)

lemma stable_next: "stable_str K m st a (c # f) \<Longrightarrow> stable_str K m st (a + 1) f"
  by (simp add: stable_str_def)

lemma stable_head: "stable_str K m st a f \<Longrightarrow> f \<noteq> [] \<Longrightarrow> head0 f \<noteq> 0"
  by (cases f) (auto dest: stable_nonzero)

lemma stable_tl: "stable_str K m st a f \<Longrightarrow> f \<noteq> [] \<Longrightarrow> stable_str K m st (a + 1) (tl f)"
  by (cases f) (auto simp: stable_str_def)

lemma starts_head0: "starts P f \<longleftrightarrow> f \<noteq> [] \<and> P (head0 f)"
  by (cases f) (simp_all add: starts_def head0_def)

lemma head0_cases: "head0 f \<noteq> 0 \<Longrightarrow> f \<noteq> []"
  by (cases f) (simp_all add: head0_def)

lemma restore_out [simp]:
  "fmt_sprintf_state_restore_format (with_out m cs st) = with_out m cs (st\<lparr>sp_format := sp_format st - 1\<rparr>)"
  by (simp add: fmt_sprintf_state_restore_format_def fmt_restore_def)

lemma format_id [simp]: "st\<lparr>sp_format := sp_format st\<rparr> = st"
  by simp

lemma flags_loop_out:
  assumes "stable_str K m st (sp_format st) f" "read_flags (sp_flags st) f = (fl, f')" "length cs \<le> K"
  shows "\<exists>a. sprintf_flags_loop (with_out m cs st) = Some (with_out m cs (st\<lparr>sp_flags := fl, sp_format := a + 1\<rparr>)) \<and> stable_str K m st a f'"
  using assms
proof (induction f arbitrary: st)
  case Nil
  then show ?case
    by (subst sprintf_flags_loop.simps) (auto simp: consume_out [OF Nil.prems(1,3)] head0_def intro!: exI [of _ "sp_format st"])
next
  case (Cons c f)
  note step = consume_out [OF Cons.prems(1,3)]
  show ?case
  proof (cases "flag_value c")
    case None
    then have "sprintf_flags_loop (with_out m cs st) = Some (with_out m cs (st\<lparr>sp_format := sp_format st + 1\<rparr>))"
      by (subst sprintf_flags_loop.simps) (auto simp: step head0_def split: if_splits)
    then show ?thesis using Cons.prems None by (auto intro!: exI [of _ "sp_format st"])
  next
    case (Some b)
    define st1 where "st1 = st\<lparr>sp_format := sp_format st + 1, sp_flags := sp_flags st OR b\<rparr>"
    have "sprintf_flags_loop (with_out m cs st) = sprintf_flags_loop (with_out m cs st1)"
      using Some by (subst sprintf_flags_loop.simps)
        (auto simp: step head0_def sprintf_set_flag_def st1_def split: if_splits)
    moreover have "stable_str K m st1 (sp_format st1) f" using stable_next [OF Cons.prems(1)] by (simp add: st1_def)
    moreover have "read_flags (sp_flags st1) f = (fl, f')" using Cons.prems(2) Some by (simp add: st1_def)
    ultimately show ?thesis using Cons.IH [of st1] Cons.prems(3) by (simp add: st1_def)
  qed
qed

lemma flags_out:
  assumes "stable_str K m st (sp_format st) f" "read_flags 0 f = (fl, f')" and K: "length cs \<le> K"
  shows "\<exists>a. fmt_sprintf_state_consume_flags (with_out m cs st) = Some (with_out m cs (st\<lparr>sp_flags := fl, sp_format := a\<rparr>))
    \<and> stable_str K m st a f'"
proof -
  have "stable_str K m (st\<lparr>sp_flags := 0\<rparr>) (sp_format (st\<lparr>sp_flags := 0\<rparr>)) f" "read_flags (sp_flags (st\<lparr>sp_flags := 0\<rparr>)) f = (fl, f')"
    using assms by simp_all
  from flags_loop_out [OF this K] obtain a where
    "sprintf_flags_loop (with_out m cs (st\<lparr>sp_flags := 0\<rparr>)) = Some (with_out m cs (st\<lparr>sp_flags := fl, sp_format := a + 1\<rparr>))"
    "stable_str K m st a f'" by auto
  then show ?thesis by (auto simp: fmt_sprintf_state_consume_flags_def)
qed


lemma digit_value: "fmt_isdigit c \<Longrightarrow> 0 \<le> uint (c - ch CHR ''0'') \<and> uint (c - ch CHR ''0'') < 10"
proof -
  assume c: "fmt_isdigit c"
  then have "uint (c - 48) = uint c - 48" by (simp add: fmt_isdigit_def uint_sub_if' word_le_def)
  then show ?thesis using c by (simp add: fmt_isdigit_def word_le_def)
qed

lemma read_number_mono: "0 \<le> n \<Longrightarrow> n \<le> fst (read_number n f)"
proof (induction f arbitrary: n)
  case (Cons c f)
  show ?case
  proof (cases "fmt_isdigit c")
    case True
    define d where "d = uint (c - 48)"
    have "0 \<le> d" using digit_value [OF True] by (simp add: d_def)
    then have "n * 10 + d \<le> fst (read_number (n * 10 + d) f)" using Cons by simp
    then show ?thesis using True \<open>0 \<le> d\<close> Cons.prems by (simp flip: d_def)
  qed simp
qed simp

lemma number_loop_out:
  assumes "stable_str K m st p f" "fmt_isdigit c" "0 \<le> n" and K: "length cs \<le> K"
    and "read_number (n * 10 + uint (c - ch CHR ''0'')) f = (v, f')" "v < 2 ^ 31"
  shows "\<exists>a. fmt_number_loop (write_bytes m (sp_start st) (take (sp_cap st) cs)) p n c = Some (v, a + 1) \<and> stable_str K m st a f'"
  using assms(1-3,5,6)
proof (induction f arbitrary: p n c)
  case Nil
  have d: "0 \<le> n * 10 + uint (c - ch CHR ''0'')" using digit_value [OF Nil.prems(2)] Nil.prems(3) by simp
  have "load (write_bytes m (sp_start st) (take (sp_cap st) cs)) p = Some 0"
    using Nil.prems(1) K by (simp add: stable_str_def load_def)
  moreover have "cint (n * 10 + uint (c - ch CHR ''0'')) = Some v" using Nil.prems(4,5) d by (simp add: cint_def)
  ultimately show ?case using Nil.prems
    by (subst fmt_number_loop.simps) (auto simp: fmt_consume_def fmt_isdigit_def intro!: exI [of _ p])
next
  case (Cons c' f)
  define n' where "n' = n * 10 + uint (c - 48)"
  have d: "0 \<le> n'" using digit_value [OF Cons.prems(2)] Cons.prems(3) by (simp add: n'_def)
  have "n' \<le> v" using read_number_mono [OF d, of "c' # f"] Cons.prems(4) by (simp add: n'_def)
  then have ci: "cint n' = Some n'" using d Cons.prems(5) by (simp add: cint_def)
  have ld: "load (write_bytes m (sp_start st) (take (sp_cap st) cs)) p = Some c'"
    using Cons.prems(1) K by (simp add: stable_str_def load_def)
  show ?case
  proof (cases "fmt_isdigit c'")
    case True
    have "read_number (n' * 10 + uint (c' - ch CHR ''0'')) f = (v, f')" using Cons.prems(4) True by (simp add: n'_def)
    from Cons.IH [OF stable_next [OF Cons.prems(1)] True d this Cons.prems(5)] show ?thesis
      using ci ld True by (subst fmt_number_loop.simps) (simp add: fmt_consume_def flip: n'_def)
  next
    case False
    then have "v = n'" "f' = c' # f" using Cons.prems(4) by (auto simp: n'_def)
    then show ?thesis using ci ld False Cons.prems(1)
      by (subst fmt_number_loop.simps) (auto simp: fmt_consume_def intro!: exI [of _ p] simp flip: n'_def)
  qed
qed

lemma isdigit_head: "fmt_isdigit (head0 f) \<Longrightarrow> f \<noteq> []"
  by (cases f) (auto simp: head0_def fmt_isdigit_def)

lemma read_number_head:
  "fmt_isdigit (head0 f) \<Longrightarrow> read_number 0 f = read_number (0 * 10 + uint (head0 f - ch CHR ''0'')) (tl f)"
  by (cases f) (auto simp: head0_def fmt_isdigit_def)

lemma width_out:
  assumes f: "stable_str K m st (sp_format st) f" and K: "length cs \<le> K"
    and r: "read_width (sp_flags st) f (sp_ap st) = Some (fl, w, f', ap)" and w: "w < 2 ^ 31"
  shows "\<exists>a. fmt_sprintf_state_consume_width (with_out m cs st)
      = Some (with_out m cs (st\<lparr>sp_flags := fl, sp_width := w, sp_ap := ap, sp_format := a\<rparr>)) \<and> stable_str K m st a f'"
proof -
  note c = consume_out [OF f K]
  consider (digit) "fmt_isdigit (head0 f)" | (star) "\<not> fmt_isdigit (head0 f)" "head0 f = ch CHR ''*''"
    | (none) "\<not> fmt_isdigit (head0 f)" "head0 f \<noteq> ch CHR ''*''" by blast
  then show ?thesis
  proof cases
    case digit
    then have r': "fl = sp_flags st" "w = fst (read_number 0 f)" "f' = snd (read_number 0 f)" "ap = sp_ap st"
      using r isdigit_head [OF digit] by (auto simp: read_width_def starts_head0)
    have rn: "read_number (0 * 10 + uint (head0 f - ch CHR ''0'')) (tl f) = (w, f')"
      unfolding read_number_head [OF digit, symmetric] using r' by simp
    from number_loop_out [OF stable_tl [OF f isdigit_head [OF digit]] digit _ K rn w] obtain a where
      "fmt_number_loop (write_bytes m (sp_start st) (take (sp_cap st) cs)) (sp_format st + 1) 0 (head0 f) = Some (w, a + 1)"
      "stable_str K m st a f'" by auto
    then show ?thesis using digit r' by (auto simp: fmt_sprintf_state_consume_width_def c intro!: exI [of _ a])
  next
    case star
    then have ne: "f \<noteq> []" by (auto intro: head0_cases)
    then obtain v where v: "va_int (sp_ap st) = Some (v, ap)" "w = \<bar>sint v\<bar>" "f' = tl f"
      "fl = (if sint v < 0 then sp_flags st OR FMT_FORMAT_LEFT_JUSTIFY else sp_flags st)"
      using r star by (auto simp: read_width_def starts_head0 bind_eq_Some_conv split: prod.splits)
    have "stable_str K m st (sp_format st + 1) f'" using stable_tl [OF f ne] v(3) by simp
    moreover have "fmt_sprintf_state_consume_width (with_out m cs st)
      = Some (with_out m cs (st\<lparr>sp_flags := fl, sp_width := w, sp_ap := ap, sp_format := sp_format st + 1\<rparr>))"
    proof (cases "sint v < 0")
      case True
      then have "cint (- sint v) = Some w" using v(2) w by (simp add: cint_def)
      then show ?thesis using star v True by (simp add: fmt_sprintf_state_consume_width_def c sprintf_set_flag_def)
    next
      case False
      then show ?thesis using star v by (simp add: fmt_sprintf_state_consume_width_def c)
    qed
    ultimately show ?thesis by blast
  next
    case none
    then have "fl = sp_flags st" "w = 0" "f' = f" "ap = sp_ap st" using r by (auto simp: read_width_def starts_head0)
    then show ?thesis using f none
      by (intro exI [of _ "sp_format st"]) (simp add: fmt_sprintf_state_consume_width_def c)
  qed
qed

lemma precision_out:
  assumes f: "stable_str K m st (sp_format st) f" and K: "length cs \<le> K"
    and r: "read_precision f (sp_ap st) = Some (p, f', ap)" and p: "p < 2 ^ 31"
  shows "\<exists>a. fmt_sprintf_state_consume_precision (with_out m cs st)
      = Some (with_out m cs (st\<lparr>sp_precision := p, sp_ap := ap, sp_format := a\<rparr>)) \<and> stable_str K m st a f'"
proof (cases "head0 f = ch CHR ''.''")
  case False
  then have "p = - 1" "f' = f" "ap = sp_ap st" using r by (auto simp: read_precision_def starts_head0)
  then show ?thesis using f False
    by (intro exI [of _ "sp_format st"]) (simp add: fmt_sprintf_state_consume_precision_def consume_out [OF f K])
next
  case dot: True
  then have ne: "f \<noteq> []" by (auto intro: head0_cases)
  define g where "g = tl f"
  define st1 where "st1 = st\<lparr>sp_format := sp_format st + 1\<rparr>"
  have g: "stable_str K m st1 (sp_format st1) g" using stable_tl [OF f ne] by (simp add: st1_def g_def)
  note c = consume_out [OF f K, folded st1_def] consume_out [OF g K]
  have r1: "(if starts fmt_isdigit g then Some (fst (read_number 0 g), snd (read_number 0 g), sp_ap st)
      else if starts ((=) (ch CHR ''*'')) g then do { (w, ap) \<leftarrow> va_int (sp_ap st); Some (max 0 (sint w), tl g, ap) }
      else Some (0, g, sp_ap st)) = Some (p, f', ap)"
  proof -
    have "starts ((=) (ch CHR ''.'')) f" using ne dot by (simp add: starts_head0)
    then show ?thesis using r unfolding read_precision_def g_def [symmetric]
      by (simp only: simp_thms if_False not_True_eq_False)
  qed
  consider (digit) "fmt_isdigit (head0 g)" | (star) "\<not> fmt_isdigit (head0 g)" "head0 g = ch CHR ''*''"
    | (none) "\<not> fmt_isdigit (head0 g)" "head0 g \<noteq> ch CHR ''*''" by blast
  then show ?thesis
  proof cases
    case digit
    then have r': "p = fst (read_number 0 g)" "f' = snd (read_number 0 g)" "ap = sp_ap st"
      using r1 isdigit_head [OF digit] by (auto simp: starts_head0)
    have rn: "read_number (0 * 10 + uint (head0 g - ch CHR ''0'')) (tl g) = (p, f')"
      unfolding read_number_head [OF digit, symmetric] using r' by simp
    from number_loop_out [OF stable_tl [OF g isdigit_head [OF digit]] digit _ K rn p] obtain a where
      "fmt_number_loop (write_bytes m (sp_start st1) (take (sp_cap st1) cs)) (sp_format st1 + 1) 0 (head0 g) = Some (p, a + 1)"
      "stable_str K m st1 a f'" by auto
    then have "fmt_sprintf_state_consume_precision (with_out m cs st) = Some (with_out m cs (st1\<lparr>sp_precision := p, sp_format := a\<rparr>))"
      using digit r' dot by (simp add: fmt_sprintf_state_consume_precision_def c)
    then show ?thesis using r' \<open>stable_str K m st1 a f'\<close> by (auto simp: st1_def intro!: exI [of _ a])
  next
    case star
    then have ne: "g \<noteq> []" by (auto intro: head0_cases)
    then obtain v where v: "va_int (sp_ap st) = Some (v, ap)" "p = max 0 (sint v)" "f' = tl g"
      using r1 star by (auto simp: starts_head0 bind_eq_Some_conv split: prod.splits)
    have "stable_str K m st (sp_format st1 + 1) f'" using stable_tl [OF g ne] v(3) by (simp add: st1_def)
    moreover have "fmt_sprintf_state_consume_precision (with_out m cs st)
        = Some (with_out m cs (st1\<lparr>sp_precision := p, sp_ap := ap, sp_format := sp_format st1 + 1\<rparr>))"
      using star dot v by (simp add: fmt_sprintf_state_consume_precision_def c max_def) (simp add: st1_def)
    ultimately show ?thesis by (intro exI [of _ "sp_format st1 + 1"]) (simp add: st1_def)
  next
    case none
    then have "p = 0" "f' = g" "ap = sp_ap st" using r1 by (auto simp: starts_head0)
    then show ?thesis using g none dot
      by (intro exI [of _ "sp_format st1"]) (simp add: fmt_sprintf_state_consume_precision_def c, simp add: st1_def)
  qed
qed

lemma modifier_out:
  assumes f: "stable_str K m st (sp_format st) f" and K: "length cs \<le> K" and r: "read_modifier f = (md, f')"
  shows "\<exists>a. fmt_sprintf_state_consume_modifier (with_out m cs st)
      = Some (with_out m cs (st\<lparr>sp_modifier := md, sp_format := a\<rparr>)) \<and> stable_str K m st a f'"
proof (cases "head0 f = ch CHR ''h'' \<or> head0 f = ch CHR ''l''")
  case True
  then have ne: "f \<noteq> []" by (auto intro: head0_cases)
  define g where "g = tl f"
  define st1 where "st1 = st\<lparr>sp_format := sp_format st + 1\<rparr>"
  have g: "stable_str K m st1 (sp_format st1) g" using stable_tl [OF f ne] by (simp add: st1_def g_def)
  note c = consume_out [OF f K, folded st1_def] consume_out [OF g K]
  show ?thesis
  proof (cases "head0 g = head0 f")
    case same: True
    then have ng: "g \<noteq> []" using True by (auto intro: head0_cases)
    then have "md = (if head0 f = ch CHR ''h'' then MODIFIER_CHAR else MODIFIER_LONGLONG)" "f' = tl g"
      using r True same ne by (auto simp: read_modifier_def starts_head0 g_def)
    moreover have "stable_str K m st (sp_format st1 + 1) (tl g)" using stable_tl [OF g ng] by (simp add: st1_def)
    moreover have "fmt_sprintf_state_consume_modifier (with_out m cs st)
        = Some (with_out m cs (st1\<lparr>sp_modifier := md, sp_format := sp_format st1 + 1\<rparr>))"
      using True same calculation(1) by (auto simp: fmt_sprintf_state_consume_modifier_def c)
    ultimately show ?thesis by (intro exI [of _ "sp_format st1 + 1"]) (simp add: st1_def)
  next
    case False
    then have "md = (if head0 f = ch CHR ''h'' then MODIFIER_SHORT else MODIFIER_LONG)" "f' = g"
      using r True ne by (auto simp: read_modifier_def starts_head0 g_def)
    moreover have "fmt_sprintf_state_consume_modifier (with_out m cs st)
        = Some (with_out m cs (st1\<lparr>sp_modifier := md\<rparr>))"
      using True False calculation(1) by (auto simp: fmt_sprintf_state_consume_modifier_def c)
    ultimately show ?thesis using g by (intro exI [of _ "sp_format st1"]) (simp add: st1_def)
  qed
next
  case False
  note c = consume_out [OF f K]
  show ?thesis
  proof (cases "head0 f = ch CHR ''z'' \<or> head0 f = ch CHR ''t''")
    case True
    then have ne: "f \<noteq> []" by (auto intro: head0_cases)
    then have "md = MODIFIER_PTRDIFF" "f' = tl f" using r True False by (auto simp: read_modifier_def starts_head0)
    then show ?thesis using True False stable_tl [OF f ne]
      by (intro exI [of _ "sp_format st + 1"]) (auto simp: fmt_sprintf_state_consume_modifier_def c)
  next
    case none: False
    then have "md = MODIFIER_NONE" "f' = f" using r False by (auto simp: read_modifier_def starts_head0)
    then show ?thesis using none False f
      by (intro exI [of _ "sp_format st"]) (auto simp: fmt_sprintf_state_consume_modifier_def c)
  qed
qed


definition sp_conv :: "conversion \<Rightarrow> fmt_sprintf_state \<Rightarrow> bool" where
  "sp_conv cv st \<longleftrightarrow> sp_flags st = cv_flags cv \<and> sp_width st = cv_width cv \<and> sp_precision st = cv_precision cv
     \<and> sp_modifier st = cv_modifier cv \<and> sp_specifier st = cv_specifier cv
     \<and> (cv_specifier cv = SPECIFIER_INT \<longrightarrow> sp_base st = cv_base cv)"

definition read_specifier :: "conversion \<Rightarrow> u8 list \<Rightarrow> conversion \<times> u8 list" where
  "read_specifier cv f =
     (case (case f of [] \<Rightarrow> None | c # _ \<Rightarrow> specifier_of c) of
       None \<Rightarrow> (cv\<lparr>cv_specifier := SPECIFIER_INVALID\<rparr>, f)
     | Some (sp, b, fl, ptr) \<Rightarrow> (cv\<lparr>cv_flags := cv_flags cv OR fl,
         cv_modifier := (if ptr then MODIFIER_PTR else cv_modifier cv), cv_specifier := sp, cv_base := b\<rparr>, tl f))"

lemma specifier_cases:
  assumes "specifier_of c = Some x"
  shows "(c, x) \<in> set specifier_table"
  using assms unfolding specifier_of_def by (rule map_of_SomeD)

lemma specifier_none:
  assumes "specifier_of c = None"
  shows "c \<notin> fst ` set specifier_table"
  using assms by (simp add: specifier_of_def map_of_eq_None_iff)

lemma specifier_out:
  assumes f: "stable_str K m st (sp_format st) f" and K: "length cs \<le> K"
    and cv: "sp_flags st = cv_flags cv" "sp_width st = cv_width cv" "sp_precision st = cv_precision cv" "sp_modifier st = cv_modifier cv"
    and r: "read_specifier cv f = (cv', f')"
  shows "\<exists>st'. fmt_sprintf_state_consume_specifier (with_out m cs st) = Some (with_out m cs st') \<and> sp_conv cv' st'
    \<and> stable_str K m st (sp_format st') f' \<and> sp_ap st' = sp_ap st \<and> sp_start st' = sp_start st \<and> sp_end st' = sp_end st"
proof (cases f)
  case Nil
  define st' where "st' = st\<lparr>sp_specifier := SPECIFIER_INVALID\<rparr>"
  have "fmt_sprintf_state_consume_specifier (with_out m cs st) = Some (with_out m cs st')"
    using Nil by (simp add: fmt_sprintf_state_consume_specifier_def consume_out [OF f K] st'_def)
  moreover have "cv' = cv\<lparr>cv_specifier := SPECIFIER_INVALID\<rparr>" "f' = f" using r Nil by (auto simp: read_specifier_def)
  ultimately show ?thesis using cv f by (intro exI [of _ st']) (simp add: sp_conv_def st'_def)
next
  case (Cons c g)
  have nxt: "stable_str K m st (sp_format st + 1) g" using f Cons by (simp add: stable_next)
  show ?thesis
  proof (cases "specifier_of c")
    case None
    define st' where "st' = st\<lparr>sp_specifier := SPECIFIER_INVALID\<rparr>"
    have "fmt_sprintf_state_consume_specifier (with_out m cs st) = Some (with_out m cs st')"
      using specifier_none [OF None] Cons
      by (simp add: fmt_sprintf_state_consume_specifier_def consume_out [OF f K] st'_def specifier_table_def)
    moreover have "cv' = cv\<lparr>cv_specifier := SPECIFIER_INVALID\<rparr>" "f' = f" using r Cons None by (auto simp: read_specifier_def)
    ultimately show ?thesis using cv f by (intro exI [of _ st']) (simp add: sp_conv_def st'_def)
  next
    case (Some s)
    then obtain sp b fl ptr where s: "specifier_of c = Some (sp, b, fl, ptr)" by (cases s) auto
    define st' where "st' = st\<lparr>sp_format := sp_format st + 1, sp_flags := sp_flags st OR fl, sp_specifier := sp,
      sp_modifier := (if ptr then MODIFIER_PTR else sp_modifier st), sp_base := (if sp = SPECIFIER_INT then b else sp_base st)\<rparr>"
    have "fmt_sprintf_state_consume_specifier (with_out m cs st) = Some (with_out m cs st')"
    proof -
      have "fmt_sprintf_state_consume_specifier (with_out m cs st) = Some (with_out m cs st')"
        if "(c, sp, b, fl, ptr) \<in> set specifier_table"
        using that unfolding specifier_table_def list.set insert_iff prod.inject empty_iff
        by (elim disjE conjE)
          (simp_all add: Cons fmt_sprintf_state_consume_specifier_def consume_out [OF f K] st'_def sprintf_set_flag_def or.assoc)
      then show ?thesis using specifier_cases [OF s] by blast
    qed
    moreover have "cv' = cv\<lparr>cv_flags := cv_flags cv OR fl, cv_modifier := (if ptr then MODIFIER_PTR else cv_modifier cv),
        cv_specifier := sp, cv_base := b\<rparr>" "f' = g" using r Cons s by (auto simp: read_specifier_def)
    ultimately show ?thesis using cv nxt by (intro exI [of _ st']) (simp add: sp_conv_def st'_def)
  qed
qed

lemma conversion_out:
  assumes f: "stable_str K m st (sp_format st) f" and K: "length cs \<le> K"
    and pos: "a + 1 = sp_format st" "stable_str K m st a (ch CHR ''%'' # f)"
    and r: "read_conversion f (sp_ap st) = Some (cv, f', ap)" "cv_width cv < 2 ^ 31" "cv_precision cv < 2 ^ 31"
  shows "\<exists>st'. fmt_sprintf_state_consume (with_out m cs (st\<lparr>sp_format := a\<rparr>)) = Some (None, with_out m cs st')
    \<and> sp_conv cv st' \<and> stable_str K m st (sp_format st') f' \<and> sp_ap st' = ap \<and> sp_start st' = sp_start st \<and> sp_end st' = sp_end st"
proof -
  obtain fl f1 where r1: "read_flags 0 f = (fl, f1)" by force
  obtain fl' w f2 ap2 where r2: "read_width fl f1 (sp_ap st) = Some (fl', w, f2, ap2)"
    using r(1) r1 by (cases "read_width fl f1 (sp_ap st)") (auto simp: read_conversion_def)
  obtain p f3 ap3 where r3: "read_precision f2 ap2 = Some (p, f3, ap3)"
    using r(1) r1 r2 by (cases "read_precision f2 ap2") (auto simp: read_conversion_def)
  obtain md f4 where r4: "read_modifier f3 = (md, f4)" by force
  define cv0 where "cv0 = \<lparr>cv_flags = fl', cv_width = w, cv_precision = p, cv_modifier = md,
     cv_specifier = SPECIFIER_INVALID, cv_base = 10\<rparr>"
  have r5: "read_specifier cv0 f4 = (cv, f')" "ap3 = ap" "cv_width cv = w" "cv_precision cv = p"
    using r(1) r1 r2 r3 r4
    by (auto simp: read_conversion_def read_specifier_def cv0_def split: option.splits prod.splits list.splits)
  from flags_out [OF f r1 K] obtain a1 where
    s1: "fmt_sprintf_state_consume_flags (with_out m cs st) = Some (with_out m cs (st\<lparr>sp_flags := fl, sp_format := a1\<rparr>))"
      "stable_str K m st a1 f1" by blast
  define st1 where "st1 = st\<lparr>sp_flags := fl, sp_format := a1\<rparr>"
  have "stable_str K m st1 (sp_format st1) f1" "read_width (sp_flags st1) f1 (sp_ap st1) = Some (fl', w, f2, ap2)" "w < 2 ^ 31"
    using s1(2) r2 r5(3) r(2) by (simp_all add: st1_def)
  from width_out [OF this(1) K this(2,3)] obtain a2 where
    s2: "fmt_sprintf_state_consume_width (with_out m cs st1)
        = Some (with_out m cs (st1\<lparr>sp_flags := fl', sp_width := w, sp_ap := ap2, sp_format := a2\<rparr>))" "stable_str K m st1 a2 f2" by blast
  define st2 where "st2 = st1\<lparr>sp_flags := fl', sp_width := w, sp_ap := ap2, sp_format := a2\<rparr>"
  have "stable_str K m st2 (sp_format st2) f2" "read_precision f2 (sp_ap st2) = Some (p, f3, ap3)" "p < 2 ^ 31"
    using s2(2) r3 r5(4) r(3) by (simp_all add: st2_def)
  from precision_out [OF this(1) K this(2,3)] obtain a3 where
    s3: "fmt_sprintf_state_consume_precision (with_out m cs st2)
        = Some (with_out m cs (st2\<lparr>sp_precision := p, sp_ap := ap3, sp_format := a3\<rparr>))" "stable_str K m st2 a3 f3" by blast
  define st3 where "st3 = st2\<lparr>sp_precision := p, sp_ap := ap3, sp_format := a3\<rparr>"
  have "stable_str K m st3 (sp_format st3) f3" using s3(2) by (simp add: st3_def)
  from modifier_out [OF this K r4] obtain a4 where
    s4: "fmt_sprintf_state_consume_modifier (with_out m cs st3) = Some (with_out m cs (st3\<lparr>sp_modifier := md, sp_format := a4\<rparr>))"
      "stable_str K m st3 a4 f4" by blast
  define st4 where "st4 = st3\<lparr>sp_modifier := md, sp_format := a4\<rparr>"
  have f4: "stable_str K m st4 (sp_format st4) f4" using s4(2) by (simp add: st4_def)
  have st4: "sp_flags st4 = cv_flags cv0" "sp_width st4 = cv_width cv0" "sp_precision st4 = cv_precision cv0"
    "sp_modifier st4 = cv_modifier cv0" "sp_ap st4 = ap" "sp_start st4 = sp_start st" "sp_end st4 = sp_end st"
    using r5(2) by (simp_all add: st4_def st3_def st2_def st1_def cv0_def)
  from specifier_out [OF f4 K st4(1-4) r5(1)] obtain st' where
    s5: "fmt_sprintf_state_consume_specifier (with_out m cs st4) = Some (with_out m cs st')" "sp_conv cv st'"
      "stable_str K m st4 (sp_format st') f'" "sp_ap st' = sp_ap st4" "sp_start st' = sp_start st4" "sp_end st' = sp_end st4" by blast
  have "fmt_sprintf_state_consume_format (with_out m cs (st\<lparr>sp_format := a\<rparr>)) = Some (ch CHR ''%'', with_out m cs st)"
    using consume_out [of K m "st\<lparr>sp_format := a\<rparr>" "ch CHR ''%'' # f" cs] pos K by simp
  then have "fmt_sprintf_state_consume (with_out m cs (st\<lparr>sp_format := a\<rparr>)) = Some (None, with_out m cs st')"
    using s1(1) s2(1) s3(1) s4(1) s5(1)
    by (simp add: fmt_sprintf_state_consume_def flip: st1_def st2_def st3_def st4_def)
  moreover have "stable_str K m st (sp_format st') f'" using s5(3) by (simp add: st4_def st3_def st2_def st1_def)
  ultimately show ?thesis using s5(2,4-6) st4(5-7) by auto
qed

lemma specifier_base:
  assumes "read_conversion f ap = Some (cv, f', ap')" "cv_specifier cv = SPECIFIER_INT"
  shows "cv_base cv = 8 \<or> cv_base cv = 10 \<or> cv_base cv = 16"
proof -
  obtain fl f1 where r1: "read_flags 0 f = (fl, f1)" by force
  obtain fl' w f2 ap2 where r2: "read_width fl f1 ap = Some (fl', w, f2, ap2)"
    using assms(1) r1 by (cases "read_width fl f1 ap") (auto simp: read_conversion_def)
  obtain p f3 ap3 where r3: "read_precision f2 ap2 = Some (p, f3, ap3)"
    using assms(1) r1 r2 by (cases "read_precision f2 ap2") (auto simp: read_conversion_def)
  obtain md f4 where r4: "read_modifier f3 = (md, f4)" by force
  show ?thesis
  proof (cases "case f4 of [] \<Rightarrow> None | c # _ \<Rightarrow> specifier_of c")
    case None
    then show ?thesis using assms r1 r2 r3 r4 by (auto simp: read_conversion_def)
  next
    case (Some s)
    then obtain c sp b fl'' ptr where s: "specifier_of c = Some (sp, b, fl'', ptr)" "s = (sp, b, fl'', ptr)"
      by (cases s) (auto split: list.splits)
    then have "cv_base cv = b" "sp = SPECIFIER_INT" using assms r1 r2 r3 r4 Some by (auto simp: read_conversion_def)
    then show ?thesis using specifier_cases [OF s(1)] by (auto simp: specifier_table_def)
  qed
qed


end
