(* ===== verification/Fmt_Correct.thy ===== *)
theory Fmt_Correct
  imports Fmt_Directive
begin

text \<open>
  What the formatting functions of \<^verbatim>\<open>kern/fmt.c\<close> guarantee. \<open>formatted\<close>
  is the text that a format and its arguments stand for, defined on lists; the state machine
  produces it, stores the part that fits with a null byte and returns its length.
\<close>

unbundle bit_operations_syntax

section \<open>What a format stands for\<close>

text \<open>
  The text of a conversion. \<open>S p t\<close> says that \<open>t\<close> is the string at the address
  \<open>p\<close>. The limits on the field exclude the overflows of the width, and the most
  negative number, which the code negates, has no text.
\<close>

inductive renders :: "(u64 \<Rightarrow> u8 list \<Rightarrow> bool) \<Rightarrow> conversion \<Rightarrow> va_arg list \<Rightarrow> u8 list \<Rightarrow> va_arg list \<Rightarrow> bool"
  for S :: "u64 \<Rightarrow> u8 list \<Rightarrow> bool" where
  render_int: "cv_specifier cv = SPECIFIER_INT
    \<Longrightarrow> int_value (fmt_flag (cv_flags cv) FMT_FORMAT_CONV_SIGNED) (cv_modifier cv) a = Some n
    \<Longrightarrow> \<not> (fmt_flag (cv_flags cv) FMT_FORMAT_CONV_SIGNED \<and> \<not> fmt_flag (cv_flags cv) FMT_FORMAT_ALT_FORM \<and> sint n = - (2 ^ 63))
    \<Longrightarrow> renders S cv (a # ap) (int_text (cv_flags cv) (cv_width cv) (cv_precision cv) (cv_base cv) n) ap"
| render_char: "cv_specifier cv = SPECIFIER_CHAR
    \<Longrightarrow> renders S cv (VInt w # ap) (char_text (fmt_flag (cv_flags cv) FMT_FORMAT_LEFT_JUSTIFY) (cv_width cv) (ucast w)) ap"
| render_str: "cv_specifier cv = SPECIFIER_STR \<Longrightarrow> S p t
    \<Longrightarrow> renders S cv (VPtr p # ap) (str_text (fmt_flag (cv_flags cv) FMT_FORMAT_LEFT_JUSTIFY) (cv_width cv) (cv_precision cv) t) ap"
| render_percent: "cv_specifier cv = SPECIFIER_PERCENT \<or> cv_specifier cv = SPECIFIER_INVALID
    \<Longrightarrow> renders S cv ap [ch CHR ''%''] ap"

inductive formatted :: "(u64 \<Rightarrow> u8 list \<Rightarrow> bool) \<Rightarrow> u8 list \<Rightarrow> va_arg list \<Rightarrow> u8 list \<Rightarrow> bool"
  for S :: "u64 \<Rightarrow> u8 list \<Rightarrow> bool" where
  formatted_end: "formatted S [] ap []"
| formatted_char: "c \<noteq> ch CHR ''%'' \<Longrightarrow> formatted S f ap out \<Longrightarrow> formatted S (c # f) ap (c # out)"
| formatted_conv: "read_conversion f ap = Some (cv, f', ap') \<Longrightarrow> 0 \<le> cv_width cv \<Longrightarrow> cv_width cv < 2 ^ 28
    \<Longrightarrow> - 1 \<le> cv_precision cv \<Longrightarrow> cv_precision cv < 2 ^ 30
    \<Longrightarrow> renders S cv ap' field ap'' \<Longrightarrow> formatted S f' ap'' out
    \<Longrightarrow> formatted S (ch CHR ''%'' # f) ap (field @ out)"

lemma sp_same_room:
  assumes "sp_same st st'"
  shows "sp_room m st' K = sp_room m st K" "stable_str K m st' = stable_str K m st" "str_arg K m st' = str_arg K m st"
proof -
  have c: "sp_cap st' = sp_cap st" "sp_start st' = sp_start st" using assms by (simp_all add: sp_same_def sp_cap_def)
  show "sp_room m st' K = sp_room m st K" by (simp add: sp_room_def c)
  show s: "stable_str K m st' = stable_str K m st" by (simp add: stable_str_def fun_eq_iff c)
  show "str_arg K m st' = str_arg K m st" by (simp add: str_arg_def fun_eq_iff s)
qed

lemma produce_out:
  assumes "renders (str_arg K m st) cv ap out ap'" "sp_conv cv st" "sp_ap st = ap"
    and room: "sp_room m st K" and K: "length cs + length out \<le> K"
    and w: "0 \<le> cv_width cv" "cv_width cv < 2 ^ 28" "- 1 \<le> cv_precision cv" "cv_precision cv < 2 ^ 30"
    and base: "cv_specifier cv = SPECIFIER_INT \<Longrightarrow> cv_base cv = 8 \<or> cv_base cv = 10 \<or> cv_base cv = 16"
  shows "\<exists>st'. fmt_sprintf_state_produce (with_out m cs st) = Some (with_out m (cs @ out) st') \<and> sp_same (st\<lparr>sp_ap := ap'\<rparr>) st'"
  using assms(1)
proof cases
  case (render_int a n)
  have c: "sp_base st = cv_base cv" "sp_flags st = cv_flags cv" "sp_modifier st = cv_modifier cv" "sp_width st = cv_width cv"
    "sp_precision st = cv_precision cv" "sp_specifier st = SPECIFIER_INT"
    using assms(2) render_int(3) by (simp_all add: sp_conv_def)
  have "\<exists>st'. fmt_sprintf_state_produce_int (with_out m cs st) = Some (with_out m (cs @ out) st') \<and> sp_same (st\<lparr>sp_ap := ap'\<rparr>) st'"
    by (rule produce_int_out [OF room, where a = a and n = n])
      (use render_int assms(3) c w K base in \<open>auto simp: render_int(2)\<close>)
  then show ?thesis by (simp add: fmt_sprintf_state_produce_def c)
next
  case (render_char v)
  have c: "sp_flags st = cv_flags cv" "sp_width st = cv_width cv" "sp_specifier st = SPECIFIER_CHAR"
    using assms(2) render_char(3) by (simp_all add: sp_conv_def)
  have "\<exists>st'. fmt_sprintf_state_produce_char (with_out m cs st) = Some (with_out m (cs @ out) st') \<and> sp_same (st\<lparr>sp_ap := ap'\<rparr>) st'"
    by (rule produce_char_out [OF room, where w = v]) (use render_char assms(3) c w K in auto)
  then show ?thesis by (simp add: fmt_sprintf_state_produce_def c)
next
  case (render_str p t)
  have c: "sp_flags st = cv_flags cv" "sp_width st = cv_width cv" "sp_precision st = cv_precision cv" "sp_specifier st = SPECIFIER_STR"
    using assms(2) render_str(3) by (simp_all add: sp_conv_def)
  have "\<exists>st'. fmt_sprintf_state_produce_str (with_out m cs st) = Some (with_out m (cs @ out) st') \<and> sp_same (st\<lparr>sp_ap := ap'\<rparr>) st'"
    by (rule produce_str_out [OF room, where p = p and t = t]) (use render_str assms(3) c w K in auto)
  then show ?thesis by (simp add: fmt_sprintf_state_produce_def c)
next
  case render_percent
  have "sp_specifier st = SPECIFIER_PERCENT \<or> sp_specifier st = SPECIFIER_INVALID"
    using assms(2) render_percent by (auto simp: sp_conv_def)
  moreover have "fmt_sprintf_state_produce_raw_char (with_out m cs st) (ch CHR ''%'') = Some (with_out m (cs @ [ch CHR ''%'']) st)"
    by (rule raw_char_out [OF room]) (use K render_percent in simp)
  ultimately show ?thesis using render_percent assms(3)
    by (auto simp: fmt_sprintf_state_produce_def sp_same_def intro!: exI [of _ st])
qed

lemma vsnprintf_loop_out:
  assumes "formatted S f ap out" "S = str_arg K m st" "stable_str K m st (sp_format st) f" "sp_ap st = ap"
    and "sp_room m st K" "length cs + length out \<le> K"
  shows "\<exists>st'. vsnprintf_loop (with_out m cs st) = Some (with_out m (cs @ out) st') \<and> sp_start st' = sp_start st \<and> sp_end st' = sp_end st"
  using assms
proof (induction arbitrary: st cs rule: formatted.induct)
  case (formatted_end ap)
  have "fmt_sprintf_state_consume (with_out m cs st) = Some (Some ENOENT, with_out m cs (st\<lparr>sp_format := sp_format st + 1\<rparr>))"
    using consume_out [OF formatted_end(2), of cs] formatted_end(5) by (simp add: fmt_sprintf_state_consume_def)
  then show ?case by (subst vsnprintf_loop.simps) (auto intro!: exI [of _ "st\<lparr>sp_format := sp_format st + 1\<rparr>"])
next
  case (formatted_char c f ap out)
  define st1 where "st1 = st\<lparr>sp_format := sp_format st + 1\<rparr>"
  have room: "sp_room m st1 K" using formatted_char.prems(4) by (simp add: st1_def)
  have c0: "c \<noteq> 0" using stable_nonzero [OF formatted_char.prems(2)] by auto
  have "fmt_sprintf_state_produce_raw_char (with_out m cs st1) c = Some (with_out m (cs @ [c]) st1)"
    by (rule raw_char_out [OF room]) (use formatted_char.prems(5) in simp)
  then have "fmt_sprintf_state_consume (with_out m cs st) = Some (Some EAGAIN, with_out m (cs @ [c]) st1)"
    using consume_out [OF formatted_char.prems(2), of cs] formatted_char.prems(5) formatted_char.hyps(1) c0
    by (simp add: fmt_sprintf_state_consume_def flip: st1_def)
  then have step: "vsnprintf_loop (with_out m cs st) = vsnprintf_loop (with_out m (cs @ [c]) st1)"
    by (subst vsnprintf_loop.simps) simp
  have "\<exists>st'. vsnprintf_loop (with_out m (cs @ [c]) st1) = Some (with_out m ((cs @ [c]) @ out) st')
      \<and> sp_start st' = sp_start st1 \<and> sp_end st' = sp_end st1"
  proof (rule formatted_char.IH)
    show "S = str_arg K m st1" using formatted_char.prems(1) by (simp add: st1_def str_arg_def fun_eq_iff)
    show "stable_str K m st1 (sp_format st1) f" using stable_next [OF formatted_char.prems(2)] by (simp add: st1_def)
  qed (use formatted_char.prems room in \<open>simp_all add: st1_def\<close>)
  then show ?case using step by (simp add: st1_def)
next
  case (formatted_conv f ap cv f' ap' field ap'' out)
  define st0 where "st0 = st\<lparr>sp_format := sp_format st + 1\<rparr>"
  have K: "length cs \<le> K" using formatted_conv.prems(5) by simp
  have f0: "stable_str K m st0 (sp_format st0) f" using stable_next [OF formatted_conv.prems(2)] by (simp add: st0_def)
  have pos: "sp_format st + 1 = sp_format st0" "stable_str K m st0 (sp_format st) (ch CHR ''%'' # f)"
    using formatted_conv.prems(2) by (simp_all add: st0_def)
  have rd: "read_conversion f (sp_ap st0) = Some (cv, f', ap')" "cv_width cv < 2 ^ 31" "cv_precision cv < 2 ^ 31"
    using formatted_conv.hyps(1,3,5) formatted_conv.prems(3) by (simp_all add: st0_def)
  have st00: "st0\<lparr>sp_format := sp_format st\<rparr> = st" by (simp add: st0_def)
  from conversion_out [OF f0 K pos rd, unfolded st00] obtain st1 where
    c: "fmt_sprintf_state_consume (with_out m cs st) = Some (None, with_out m cs st1)" "sp_conv cv st1"
      "stable_str K m st0 (sp_format st1) f'" "sp_ap st1 = ap'" "sp_start st1 = sp_start st0" "sp_end st1 = sp_end st0" by blast
  have cap: "sp_cap st1 = sp_cap st" using c(5,6) by (simp add: sp_cap_def st0_def)
  have same: "stable_str K m st1 = stable_str K m st" using c(5) cap by (simp add: stable_str_def fun_eq_iff st0_def)
  then have args: "str_arg K m st1 = S" using formatted_conv.prems(1) by (simp add: str_arg_def fun_eq_iff)
  have room: "sp_room m st1 K" using formatted_conv.prems(4) c(5) cap by (simp add: sp_room_def st0_def)
  have "renders (str_arg K m st1) cv ap' field ap''" using formatted_conv.hyps(6) args by simp
  from produce_out [OF this c(2,4) room _ formatted_conv.hyps(2-5) specifier_base [OF formatted_conv.hyps(1)], of cs]
  obtain st2 where p: "fmt_sprintf_state_produce (with_out m cs st1) = Some (with_out m (cs @ field) st2)"
    "sp_same (st1\<lparr>sp_ap := ap''\<rparr>) st2" using formatted_conv.prems(5) by auto
  have step: "vsnprintf_loop (with_out m cs st) = vsnprintf_loop (with_out m (cs @ field) st2)"
    using c(1) p(1) by (subst vsnprintf_loop.simps) simp
  note sm = sp_same_room [OF p(2)]
  have "\<exists>st'. vsnprintf_loop (with_out m (cs @ field) st2) = Some (with_out m ((cs @ field) @ out) st')
      \<and> sp_start st' = sp_start st2 \<and> sp_end st' = sp_end st2"
  proof (rule formatted_conv.IH)
    have "str_arg K m (st1\<lparr>sp_ap := ap''\<rparr>) = str_arg K m st1" by (simp add: str_arg_def fun_eq_iff)
    then show "S = str_arg K m st2" using args sm(3) by simp
    show "stable_str K m st2 (sp_format st2) f'" using c(3) p(2) sm(2) same formatted_conv.prems(2)
      by (simp add: sp_same_def st0_def)
  qed (use formatted_conv.prems room sm(1) p(2) in \<open>simp_all add: sp_same_def\<close>)
  then show ?case using step p(2) c(5,6) by (simp add: sp_same_def st0_def)
qed


section \<open>The functions of the module\<close>

definition fmt_cap :: "u64 \<Rightarrow> u64 \<Rightarrow> nat" where
  "fmt_cap str sz = (if sz = 0 then 0 else if sz = FMT_NOLIMIT then 2 ^ 64 - 1 - unat str else unat sz - 1)"

text \<open>What the buffer holds in the end: nothing for a zero size, else what fits and a null byte.\<close>

definition fmt_stored :: "u64 \<Rightarrow> u64 \<Rightarrow> u8 list \<Rightarrow> u8 list" where
  "fmt_stored str sz out = (if sz = 0 then [] else take (fmt_cap str sz) out @ [0])"

definition outside :: "u64 \<Rightarrow> nat \<Rightarrow> u64 \<Rightarrow> u8 list \<Rightarrow> bool" where
  "outside a n p t \<longleftrightarrow> (\<forall>i\<le>length t. \<forall>j<n. p + of_nat i \<noteq> a + of_nat j)"

text \<open>The string at an address, the literal for a null pointer, away from the buffer.\<close>

definition string_at :: "mem \<Rightarrow> u64 \<Rightarrow> nat \<Rightarrow> u64 \<Rightarrow> u8 list \<Rightarrow> bool" where
  "string_at m a n p t \<longleftrightarrow> length t < 2 ^ 31 - 1
     \<and> (if p = 0 then t = map of_char ''(null)'' else cstr m p t \<and> outside a n p t)"

lemma cstr_outside:
  assumes "cstr m p t" "outside a n p t" "length xs \<le> n"
  shows "cstr (write_bytes m a xs) p t"
proof -
  have "write_bytes m a xs (p + of_nat i) = m (p + of_nat i)" if i: "i < length (t @ [0])" for i
  proof (rule write_bytes_out, rule ccontr)
    assume "\<not> length xs \<le> unat (p + of_nat i - a)"
    then have "unat (p + of_nat i - a) < n" using assms(3) by simp
    moreover have "p + of_nat i = a + of_nat (unat (p + of_nat i - a))" by simp
    moreover have "i \<le> length t" using i by simp
    ultimately show False using assms(2) unfolding outside_def by blast
  qed
  then show ?thesis using assms(1) by (simp add: cstr_def mem_bytes_iff)
qed

lemma formatted_mono:
  assumes "formatted S f ap out" "\<And>p t. S p t \<Longrightarrow> S' p t"
  shows "formatted S' f ap out"
  using assms(1)
proof (induction rule: formatted.induct)
  case (formatted_conv f ap cv f' ap' field ap'' out)
  have "renders S' cv ap' field ap''"
    using formatted_conv.hyps(6)
  proof cases
    case render_percent
    then show ?thesis using renders.render_percent [of cv S' ap'] by auto
  qed (auto intro: renders.intros assms(2))
  then show ?case using formatted_conv by (intro formatted.formatted_conv) auto
qed (auto intro: formatted.intros)

lemma vsnprintf_out:
  assumes str: "str \<noteq> 0" "sz = 0 \<or> sz = FMT_NOLIMIT \<or> unat str + unat sz \<le> 2 ^ 64"
    and len: "unat str + length out + 1 < 2 ^ 64" "length out < 2 ^ 31"
    and buf: "mapped m str (length (fmt_stored str sz out))"
    and f: "cstr m format f" "outside str (length (fmt_stored str sz out)) format f"
    and fo: "formatted (string_at m str (length (fmt_stored str sz out))) f ap out"
  shows "fmt_vsnprintf garbage str sz format ap m = Some (int (length out), write_bytes m str (fmt_stored str sz out))"
proof -
  define K where "K = length out"
  define st where "st = fmt_sprintf_state_init garbage str sz format ap m"
  define cap where "cap = fmt_cap str sz"
  have fields: "sp_start st = str" "sp_format st = format" "sp_ap st = ap"
    by (simp_all add: st_def fmt_sprintf_state_init_def)
  have wo: "with_out m [] st = st" by (simp add: with_out_def st_def fmt_sprintf_state_init_def)
  have nl: "unat FMT_NOLIMIT = 2 ^ 64 - 1" by (simp add: FMT_NOLIMIT_def unat_max_u64)
  have e: "unat (sp_end st) = (if sz = 0 then 0 else unat str + cap)"
  proof -
    consider (zero) "sz = 0" | (nolimit) "sz = FMT_NOLIMIT" "sz \<noteq> 0"
      | (limit) "sz \<noteq> 0" "sz \<noteq> FMT_NOLIMIT" "unat str + unat sz \<le> 2 ^ 64" using str(2) by blast
    then show ?thesis
    proof cases
      case limit
      have pos: "0 < unat sz" using limit(1) by (simp add: unat_gt_0)
      have eq: "str + sz - 1 = str + (sz - 1)" by simp
      have one: "unat (sz - 1) = unat sz - 1" using limit(1) by (simp add: unat_minus_one)
      have "unat (str + sz - 1) = unat str + (unat sz - 1)"
        unfolding eq by (subst unat_add_lt) (use limit(3) pos one in auto)
      then show ?thesis using limit by (simp add: st_def fmt_sprintf_state_init_def cap_def fmt_cap_def)
    qed (use unat_lt_64 [of str] in \<open>simp_all add: st_def fmt_sprintf_state_init_def cap_def fmt_cap_def nl [unfolded FMT_NOLIMIT_def] FMT_NOLIMIT_def\<close>)
  qed
  have cap: "sp_cap st = cap"
    by (cases "sz = 0") (simp_all add: sp_cap_def e fields cap_def fmt_cap_def)
  have small: "length (take cap cs) \<le> length (fmt_stored str sz out)" if "length cs \<le> K" for cs
    using that by (auto simp: fmt_stored_def K_def cap_def fmt_cap_def)
  have stable: "stable_str K m st p t" if "cstr m p t" "outside str (length (fmt_stored str sz out)) p t" for p t
    unfolding stable_str_def fields cap using cstr_outside [OF that] small by blast
  have args: "str_arg K m st p t" if "string_at m str (length (fmt_stored str sz out)) p t" for p t
    using that stable [of p t] by (auto simp: string_at_def str_arg_def split: if_splits)
  have "min K cap \<le> length (fmt_stored str sz out)"
    by (auto simp: fmt_stored_def K_def cap_def fmt_cap_def)
  then have room: "sp_room m st K"
    using len(1) mapped_mono [OF buf] by (simp add: sp_room_def fields cap K_def)
  have fo': "formatted (str_arg K m st) f ap out" by (rule formatted_mono [OF fo args])
  have sf: "stable_str K m st (sp_format st) f" using stable [OF f] by (simp add: fields)
  have "length ([]::u8 list) + length out \<le> K" by (simp add: K_def)
  from vsnprintf_loop_out [OF fo' refl sf fields(3) room this] obtain st' where
    l: "vsnprintf_loop st = Some (with_out m out st')" "sp_start st' = sp_start st" "sp_end st' = sp_end st"
    by (auto simp: wo)
  have cap': "sp_cap st' = cap" using l(2,3) cap by (simp add: sp_cap_def)
  have ulen: "unat (of_nat (length out) :: u64) = length out" using len(2) by (intro unat_of_nat_lt) simp
  have pos: "unat (str + of_nat (length out)) = unat str + length out"
    using len(1) ulen by (subst unat_add_lt) simp_all
  have ret: "sint (ucast (str + of_nat (length out) - str) :: u32) = int (length out)"
  proof -
    have "unat (ucast (of_nat (length out) :: u64) :: u32) = length out"
      using len(2) ulen by (simp add: unsigned_ucast_eq take_bit_nat_eq_self)
    then have "uint (ucast (of_nat (length out) :: u64) :: u32) = int (length out)" by (simp add: uint_nat)
    then show ?thesis using len(2) by (simp add: sint_uint signed_take_bit_int_eq_self)
  qed
  have fin: "fmt_sprintf_state_finalize (with_out m out st') = Some (int (length out), write_bytes m str (fmt_stored str sz out))"
  proof -
    have m': "sp_mem (with_out m out st') = write_bytes m str (take cap out)" using l(2) fields cap' by simp
    have lt: "sp_str (with_out m out st') < sp_end (with_out m out st') \<longleftrightarrow> sz \<noteq> 0 \<and> length out < cap"
      using l(2,3) e pos by (auto simp: word_less_unat fields)
    have ez: "sp_end st = 0 \<longleftrightarrow> sz = 0" using e str(1) by (auto simp: unat_eq_zero [symmetric])
    consider (zero) "sz = 0" | (fits) "sz \<noteq> 0" "length out < cap" | (cut) "sz \<noteq> 0" "cap \<le> length out" by linarith
    then show ?thesis
    proof cases
      case zero
      then show ?thesis using m' lt ez l ret by (simp add: fmt_sprintf_state_finalize_def fmt_stored_def fields cap_def fmt_cap_def)
    next
      case fits
      have "m (str + of_nat (length out)) \<noteq> None"
        using buf fits by (simp add: fmt_stored_def mapped_def flip: cap_def)
      then have "write_bytes m str out (str + of_nat (length out)) \<noteq> None" by (rule write_bytes_mapped)
      moreover have "write_bytes m str (out @ [0]) = (write_bytes m str out)(str + of_nat (length out) \<mapsto> 0)"
        using len by (intro write_bytes_snoc) simp
      ultimately show ?thesis
        using fits m' lt l(2,3) ret
        by (auto simp: fmt_sprintf_state_finalize_def fmt_stored_def fields store_def simp flip: cap_def split: option.splits)
    next
      case cut
      have "m (str + of_nat cap) \<noteq> None"
        using buf cut by (simp add: fmt_stored_def mapped_def flip: cap_def)
      then have "write_bytes m str (take cap out) (str + of_nat cap) \<noteq> None" by (rule write_bytes_mapped)
      moreover have "write_bytes m str (take cap out @ [0]) = (write_bytes m str (take cap out))(str + of_nat (length (take cap out)) \<mapsto> 0)"
        using len by (intro write_bytes_snoc) simp
      moreover have "sp_end st = str + of_nat cap"
      proof -
        have "unat (str + of_nat cap) = unat str + cap"
          using cut len by (subst unat_add_lt) (simp_all add: unat_of_nat_lt)
        then show ?thesis using e cut(1) by (simp add: word_eq_unat)
      qed
      ultimately show ?thesis
        using cut m' lt l(2,3) ret ez
        by (auto simp: fmt_sprintf_state_finalize_def fmt_stored_def fields store_def min_def simp flip: cap_def split: option.splits)
    qed
  qed
  show ?thesis using l(1) fin by (simp add: fmt_vsnprintf_def flip: st_def)
qed

end
