(* ===== verification/Fmt_Scan_Correct.thy ===== *)
theory Fmt_Scan_Correct
  imports Fmt_Scan Fmt_Correct
begin

text \<open>
  What the scanning functions of \<^verbatim>\<open>kern/fmt.c\<close> guarantee for decimal numbers:
  the digits read have the value stored, and a number that was printed is read back.
\<close>

unbundle bit_operations_syntax

section \<open>Reading characters\<close>

lemma cstr_head0: "cstr m a t \<Longrightarrow> m a = Some (head0 t)"
  by (cases t) simp_all

lemma cstr_tl: "cstr m a t \<Longrightarrow> t \<noteq> [] \<Longrightarrow> cstr m (a + 1) (tl t)"
  by (cases t) simp_all

lemma consume_string_out:
  assumes "sc_mem st (sc_str st) = Some c" "\<not> sscanf_flag st FMT_FORMAT_CHECK_WIDTH"
  shows "fmt_sscanf_state_consume_string st = Some (c, st\<lparr>sc_str := sc_str st + 1\<rparr>)"
  using assms by (simp add: fmt_sscanf_state_consume_string_def fmt_consume_def load_def sscanf_flag_def)

lemma skip_out:
  "cstr m a (sp @ t) \<Longrightarrow> \<forall>c\<in>set sp. fmt_isspace c \<Longrightarrow> \<not> fmt_isspace (head0 t) \<Longrightarrow> fmt_skip m a = Some (a + of_nat (length sp))"
proof (induction sp arbitrary: a)
  case Nil
  then have "m a = Some (head0 t)" by (intro cstr_head0) simp
  then show ?case using Nil by (subst fmt_skip.simps) (simp add: load_def)
next
  case (Cons c sp)
  then have "fmt_skip m (a + 1) = Some (a + 1 + of_nat (length sp))" by simp
  then show ?case using Cons.prems by (subst fmt_skip.simps) (simp add: load_def algebra_simps)
qed

lemma not_space: "fmt_isdigit c \<Longrightarrow> \<not> fmt_isspace c" "\<not> fmt_isspace 0" "\<not> fmt_isspace (ch CHR ''-'')"
proof -
  show "fmt_isdigit c \<Longrightarrow> \<not> fmt_isspace c"
    by (auto simp: fmt_isdigit_def fmt_isspace_def word_le_unat)
qed (simp_all add: fmt_isspace_def)

section \<open>Values of digit strings\<close>

definition num_value :: "nat \<Rightarrow> nat list \<Rightarrow> nat" where
  "num_value b ds = foldl (\<lambda>v d. v * b + d) 0 ds"

lemma num_value_Nil [simp]: "num_value b [] = 0"
  by (simp add: num_value_def)

lemma num_value_snoc [simp]: "num_value b (ds @ [d]) = num_value b ds * b + d"
  by (simp add: num_value_def)

lemma num_value_append: "num_value b (xs @ ys) = num_value b xs * b ^ length ys + num_value b ys"
  by (induction ys rule: rev_induct) (simp_all flip: append_assoc add: algebra_simps)

lemma nat_digits_value: "2 \<le> b \<Longrightarrow> num_value b (nat_digits b n) = n"
proof (induction b n rule: nat_digits.induct)
  case (1 b n)
  show ?case
  proof (cases "n < b")
    case True
    then show ?thesis by (simp add: nat_digits_small num_value_def)
  next
    case False
    then show ?thesis using 1 by (simp add: nat_digits_step)
  qed
qed

definition digit_val :: "u8 \<Rightarrow> nat" where "digit_val c = unat (c - ch CHR ''0'')"

lemma atoi_digit: "fmt_isdigit c \<Longrightarrow> fmt_atoi c = Some (c - ch CHR ''0'')"
  by (simp add: fmt_atoi_def fmt_isxdigit_def)

lemma value_loop:
  assumes dig: "\<forall>c\<in>set ds. fmt_isdigit c" and buf: "take (length ds) buf = ds"
    and fit: "num_value 10 (map digit_val ds) < 2 ^ 64" and k: "k \<le> length ds"
    and s: "s = num_value 10 (map digit_val (drop k ds))"
  shows "sscanf_value 10 buf k (of_nat s) (of_nat (10 ^ (length ds - k))) (of_nat s)
    = Some (of_nat (num_value 10 (map digit_val ds)), False)"
  using k s
proof (induction k arbitrary: s)
  case 0
  then show ?case by simp
next
  case (Suc k)
  have k: "k < length ds" using Suc.prems(1) by simp
  have lb: "k < length buf" using buf k by (metis leI length_take less_le_trans min.absorb2 min.commute nat_less_le not_less)
  have bk: "nth_opt buf k = Some (ds ! k)" using lb buf by (metis k nth_opt_in nth_take)
  have dk: "fmt_isdigit (ds ! k)" using dig k by simp
  define d where "d = digit_val (ds ! k)"
  have "drop k ds = ds ! k # drop (Suc k) ds" using k by (simp add: Cons_nth_drop_Suc)
  then have val: "num_value 10 (map digit_val (drop k ds)) = d * 10 ^ (length ds - Suc k) + s"
    using Suc.prems(2) num_value_append [of 10 "[d]" "map digit_val (drop (Suc k) ds)"]
    by (simp add: d_def num_value_def)
  have tot: "num_value 10 (map digit_val ds) = num_value 10 (map digit_val (take k ds)) * 10 ^ (length ds - k) + num_value 10 (map digit_val (drop k ds))"
    using num_value_append [of 10 "map digit_val (take k ds)" "map digit_val (drop k ds)"] by (simp flip: map_append)
  define s' where "s' = num_value 10 (map digit_val (drop k ds))"
  have s': "s' < 2 ^ 64" "s \<le> s'" using fit tot val by (simp_all add: s'_def)
  have "(ucast (ds ! k - ch CHR ''0'') :: u64) = of_nat d"
    by (simp add: d_def digit_val_def)
  then have tmp: "of_nat s + ucast (ds ! k - ch CHR ''0'') * of_nat (10 ^ (length ds - Suc k)) = (of_nat s' :: u64)"
    unfolding s'_def val by (simp add: algebra_simps)
  have nov: "\<not> (of_nat s' :: u64) < of_nat s"
    using s' by (simp add: word_less_unat unat_of_nat_lt)
  have md: "of_nat (10 ^ (length ds - Suc k)) * 10 = (of_nat (10 ^ (length ds - k)) :: u64)"
  proof -
    have "length ds - k = Suc (length ds - Suc k)" using k by simp
    then show ?thesis by simp
  qed
  have "sscanf_value 10 buf k (of_nat s') (of_nat (10 ^ (length ds - k))) (of_nat s') = Some (of_nat (num_value 10 (map digit_val ds)), False)"
    by (rule Suc.IH) (use k in \<open>simp_all add: s'_def\<close>)
  then show ?case
    using bk dk nov by (simp only: sscanf_value.simps bk atoi_digit [OF dk] Option.bind.simps Let_def tmp if_False md)
qed

section \<open>Reading a number\<close>

text \<open>The digits that fit in the buffer, up to any character.\<close>

lemma digits_fill:
  assumes "cstr (sc_mem st) a (ds @ rest)" "sc_str st = a + 1" "\<not> sscanf_flag st FMT_FORMAT_CHECK_WIDTH"
    and "\<forall>c\<in>set ds. sscanf_isdigit (sc_base st) c"
    and "i + length ds < FMT_MAX_NUM_SIZE" "length buf = FMT_MAX_NUM_SIZE"
  shows "\<exists>buf'. sscanf_digits i negative buf (head0 (ds @ rest)) st
      = sscanf_digits (i + length ds) negative buf' (head0 rest) (st\<lparr>sc_str := a + of_nat (length ds) + 1\<rparr>)
    \<and> length buf' = FMT_MAX_NUM_SIZE \<and> take (i + length ds) buf' = take i buf @ ds"
  using assms
proof (induction ds arbitrary: a i buf st)
  case Nil
  have "st\<lparr>sc_str := a + 1\<rparr> = st" using Nil.prems(2) by simp
  then show ?case using Nil.prems(6) by (intro exI [of _ buf]) simp
next
  case (Cons c ds)
  define st1 where "st1 = st\<lparr>sc_str := sc_str st + 1\<rparr>"
  have nxt: "cstr (sc_mem st) (a + 1) (ds @ rest)" using Cons.prems(1) by simp
  have "c \<noteq> 0" using Cons.prems(1) by simp
  have con: "fmt_sscanf_state_consume_string st = Some (head0 (ds @ rest), st1)"
    unfolding st1_def by (rule consume_string_out) (use cstr_head0 [OF nxt] Cons.prems(2,3) in simp_all)
  have "\<exists>buf'. sscanf_digits (Suc i) negative (buf[i := c]) (head0 (ds @ rest)) st1
      = sscanf_digits (Suc i + length ds) negative buf' (head0 rest) (st1\<lparr>sc_str := a + 1 + of_nat (length ds) + 1\<rparr>)
    \<and> length buf' = FMT_MAX_NUM_SIZE \<and> take (Suc i + length ds) buf' = take (Suc i) (buf[i := c]) @ ds"
    by (rule Cons.IH) (use Cons.prems nxt in \<open>simp_all add: st1_def sscanf_flag_def\<close>)
  then obtain buf' where b: "sscanf_digits (Suc i) negative (buf[i := c]) (head0 (ds @ rest)) st1
      = sscanf_digits (Suc i + length ds) negative buf' (head0 rest) (st1\<lparr>sc_str := a + 1 + of_nat (length ds) + 1\<rparr>)"
    "length buf' = FMT_MAX_NUM_SIZE" "take (Suc i + length ds) buf' = take (Suc i) (buf[i := c]) @ ds" by blast
  have i: "i < FMT_MAX_NUM_SIZE - 1" "i < length buf" using Cons.prems(5,6) by simp_all
  have "take (Suc i) (buf[i := c]) = take i buf @ [c]" using i(2) by (simp add: take_Suc_conv_app_nth)
  moreover have "sscanf_digits i negative buf (head0 ((c # ds) @ rest)) st
      = sscanf_digits (Suc i + length ds) negative buf' (head0 rest) (st1\<lparr>sc_str := a + 1 + of_nat (length ds) + 1\<rparr>)"
    using i \<open>c \<noteq> 0\<close> Cons.prems(4) con b(1) by (subst sscanf_digits.simps) simp
  ultimately show ?case using b(2,3) by (intro exI [of _ buf']) (simp add: st1_def algebra_simps)
qed

lemma digits_end:
  "head0 rest = 0 \<or> \<not> sscanf_isdigit (sc_base st) (head0 rest) \<Longrightarrow>
    sscanf_digits i negative buf (head0 rest) st = Some (i, negative, buf, head0 rest, st)"
  by (subst sscanf_digits.simps) auto

text \<open>Past the buffer, digits are only counted.\<close>

lemma digits_past:
  assumes "cstr (sc_mem st) a (ds @ rest)" "sc_str st = a + 1" "\<not> sscanf_flag st FMT_FORMAT_CHECK_WIDTH"
    and "\<forall>c\<in>set ds. sscanf_isdigit (sc_base st) c" "head0 rest = 0 \<or> \<not> sscanf_isdigit (sc_base st) (head0 rest)"
    and "FMT_MAX_NUM_SIZE \<le> i"
  shows "sscanf_digits i negative buf (head0 (ds @ rest)) st
    = Some (i + length ds, negative, buf, head0 rest, st\<lparr>sc_str := a + of_nat (length ds) + 1\<rparr>)"
  using assms
proof (induction ds arbitrary: a i st)
  case Nil
  have "st\<lparr>sc_str := a + 1\<rparr> = st" using Nil.prems(2) by simp
  then show ?case using digits_end [OF Nil.prems(5)] by simp
next
  case (Cons c ds)
  define st1 where "st1 = st\<lparr>sc_str := sc_str st + 1\<rparr>"
  have nxt: "cstr (sc_mem st) (a + 1) (ds @ rest)" using Cons.prems(1) by simp
  have "c \<noteq> 0" using Cons.prems(1) by simp
  have con: "fmt_sscanf_state_consume_string st = Some (head0 (ds @ rest), st1)"
    unfolding st1_def by (rule consume_string_out) (use cstr_head0 [OF nxt] Cons.prems(2,3) in simp_all)
  have "sscanf_digits (Suc i) negative buf (head0 (ds @ rest)) st1
      = Some (Suc i + length ds, negative, buf, head0 rest, st1\<lparr>sc_str := a + 1 + of_nat (length ds) + 1\<rparr>)"
    by (rule Cons.IH) (use Cons.prems nxt in \<open>simp_all add: st1_def sscanf_flag_def\<close>)
  moreover have "sscanf_digits i negative buf (head0 ((c # ds) @ rest)) st = sscanf_digits (Suc i) negative buf (head0 (ds @ rest)) st1"
  proof -
    have "\<not> i < FMT_MAX_NUM_SIZE - 1" "i \<noteq> FMT_MAX_NUM_SIZE - 1"
      using Cons.prems(6) by (simp_all add: FMT_MAX_NUM_SIZE_def CHAR_BIT_def)
    then show ?thesis using Cons.prems(4) \<open>c \<noteq> 0\<close> con by (subst sscanf_digits.simps) simp
  qed
  ultimately show ?case by (simp add: st1_def algebra_simps)
qed

text \<open>The digit that does not fit replaces the number by 1 and makes it negative.\<close>

lemma digits_over:
  assumes "cstr (sc_mem st) a (c # ds @ rest)" "sc_str st = a + 1" "\<not> sscanf_flag st FMT_FORMAT_CHECK_WIDTH"
    and "\<forall>c\<in>set (c # ds). sscanf_isdigit (sc_base st) c" "head0 rest = 0 \<or> \<not> sscanf_isdigit (sc_base st) (head0 rest)"
    and "Suc i = FMT_MAX_NUM_SIZE" "length buf = FMT_MAX_NUM_SIZE"
  shows "sscanf_digits i negative buf c st
    = Some (Suc i + length ds, True, buf[0 := ch CHR ''1'', 1 := 0], head0 rest, st\<lparr>sc_str := a + of_nat (Suc (length ds)) + 1\<rparr>)"
proof -
  define st1 where "st1 = st\<lparr>sc_str := sc_str st + 1\<rparr>"
  have nxt: "cstr (sc_mem st) (a + 1) (ds @ rest)" using assms(1) by simp
  have "c \<noteq> 0" using assms(1) by simp
  have con: "fmt_sscanf_state_consume_string st = Some (head0 (ds @ rest), st1)"
    unfolding st1_def by (rule consume_string_out) (use cstr_head0 [OF nxt] assms(2,3) in simp_all)
  have "sscanf_digits (Suc i) True (buf[0 := ch CHR ''1'', 1 := 0]) (head0 (ds @ rest)) st1
      = Some (Suc i + length ds, True, buf[0 := ch CHR ''1'', 1 := 0], head0 rest, st1\<lparr>sc_str := a + 1 + of_nat (length ds) + 1\<rparr>)"
    by (rule digits_past) (use assms nxt in \<open>simp_all add: st1_def sscanf_flag_def\<close>)
  moreover have "sscanf_digits i negative buf c st = sscanf_digits (Suc i) True (buf[0 := ch CHR ''1'', 1 := 0]) (head0 (ds @ rest)) st1"
  proof -
    have "i = FMT_MAX_NUM_SIZE - 1" "0 < length buf" "1 < length buf"
      using assms(6,7) by (simp_all add: FMT_MAX_NUM_SIZE_def CHAR_BIT_def)
    then show ?thesis using assms(4) \<open>c \<noteq> 0\<close> con by (subst sscanf_digits.simps) simp
  qed
  ultimately show ?thesis by (simp add: st1_def algebra_simps)
qed

text \<open>
  The value of the digits: what the code makes of the buffer they leave, with the sign. Digits that do not
  fit in the buffer are the number -1, whatever their value.
\<close>

definition scanned_value :: "bool \<Rightarrow> nat \<Rightarrow> nat \<Rightarrow> u64" where
  "scanned_value negative len v =
     (if FMT_MAX_NUM_SIZE \<le> len then - 1 else if negative then - of_nat v else of_nat v)"

lemma digits_value:
  assumes c: "cstr (sc_mem st) a (ds @ rest)" "sc_str st = a + 1" "\<not> sscanf_flag st FMT_FORMAT_CHECK_WIDTH" "sc_base st = 10"
    and ds: "\<forall>c\<in>set ds. fmt_isdigit c" "ds \<noteq> []" "\<not> fmt_isdigit (head0 rest)"
    and v: "v = num_value 10 (map digit_val ds)" "FMT_MAX_NUM_SIZE \<le> length ds \<or> v < 2 ^ 64"
  shows "\<exists>negative' buf k buf' n.
    sscanf_digits 0 negative (replicate FMT_MAX_NUM_SIZE 0) (head0 (ds @ rest)) st
      = Some (length ds, negative', buf, head0 rest, st\<lparr>sc_str := a + of_nat (length ds) + 1\<rparr>)
    \<and> (if length ds < FMT_MAX_NUM_SIZE then do { buf \<leftarrow> upd_opt buf (length ds) 0; Some (length ds, buf) }
       else Some (length (takeWhile (\<lambda>c. c \<noteq> 0) buf), buf)) = Some (k, buf')
    \<and> sscanf_value 10 buf' k 0 1 0 = Some (n, False)
    \<and> (if negative' then - n else n) = scanned_value negative (length ds) v"
proof (cases "length ds < FMT_MAX_NUM_SIZE")
  case True
  have dig: "\<forall>c\<in>set ds. sscanf_isdigit (sc_base st) c" "head0 rest = 0 \<or> \<not> sscanf_isdigit (sc_base st) (head0 rest)"
    using ds(1,3) c(4) by (simp_all add: sscanf_isdigit_def)
  from digits_fill [OF c(1-3) dig(1), of 0 "replicate FMT_MAX_NUM_SIZE 0" negative] True obtain buf where
    b: "sscanf_digits 0 negative (replicate FMT_MAX_NUM_SIZE 0) (head0 (ds @ rest)) st
        = sscanf_digits (length ds) negative buf (head0 rest) (st\<lparr>sc_str := a + of_nat (length ds) + 1\<rparr>)"
      "length buf = FMT_MAX_NUM_SIZE" "take (length ds) buf = ds" by auto
  have e: "sscanf_digits (length ds) negative buf (head0 rest) (st\<lparr>sc_str := a + of_nat (length ds) + 1\<rparr>)
      = Some (length ds, negative, buf, head0 rest, st\<lparr>sc_str := a + of_nat (length ds) + 1\<rparr>)"
    by (rule digits_end) (use dig(2) in simp)
  have u: "upd_opt buf (length ds) 0 = Some (buf[length ds := 0])" using b(2) True by simp
  have "take (length ds) (buf[length ds := 0]) = ds" using b(3) by simp
  from value_loop [OF ds(1) this, of "length ds" 0] v True
  have "sscanf_value 10 (buf[length ds := 0]) (length ds) 0 1 0 = Some (of_nat v, False)"
    by (simp add: v(1))
  then show ?thesis
    using b(1) e u True
    by (intro exI [of _ negative] exI [of _ buf] exI [of _ "length ds"] exI [of _ "buf[length ds := 0]"] exI [of _ "of_nat v"])
      (simp add: scanned_value_def)
next
  case False
  define k where "k = FMT_MAX_NUM_SIZE - 1"
  obtain d ds2 where d: "drop k ds = d # ds2"
    using False by (cases "drop k ds") (auto simp: k_def FMT_MAX_NUM_SIZE_def CHAR_BIT_def)
  define ds1 where "ds1 = take k ds"
  have ds12: "ds = ds1 @ d # ds2" using d by (metis append_take_drop_id ds1_def)
  have l1: "length ds1 = k" using False by (simp add: ds1_def k_def)
  have sk: "Suc k = FMT_MAX_NUM_SIZE" by (simp add: k_def FMT_MAX_NUM_SIZE_def CHAR_BIT_def)
  have dig: "\<forall>c\<in>set ds1. sscanf_isdigit (sc_base st) c" "\<forall>c\<in>set (d # ds2). sscanf_isdigit (sc_base st) c"
    "head0 rest = 0 \<or> \<not> sscanf_isdigit (sc_base st) (head0 rest)"
    using ds(1,3) c(4) by (simp_all add: sscanf_isdigit_def ds12)
  have c1: "cstr (sc_mem st) a (ds1 @ (d # ds2 @ rest))" using c(1) by (simp add: ds12)
  from digits_fill [OF c1 c(2,3) dig(1), of 0 "replicate FMT_MAX_NUM_SIZE 0" negative] l1 sk obtain buf where
    b: "sscanf_digits 0 negative (replicate FMT_MAX_NUM_SIZE 0) (head0 (ds1 @ (d # ds2 @ rest))) st
        = sscanf_digits k negative buf d (st\<lparr>sc_str := a + of_nat k + 1\<rparr>)"
      "length buf = FMT_MAX_NUM_SIZE" by auto
  have c2: "cstr (sc_mem st) (a + of_nat k) (d # ds2 @ rest)" using c1 l1 by (auto simp: cstr_def mem_bytes_append)
  have "sscanf_digits k negative buf d (st\<lparr>sc_str := a + of_nat k + 1\<rparr>)
      = Some (Suc k + length ds2, True, buf[0 := ch CHR ''1'', 1 := 0], head0 rest,
          (st\<lparr>sc_str := a + of_nat k + 1\<rparr>)\<lparr>sc_str := (a + of_nat k) + of_nat (Suc (length ds2)) + 1\<rparr>)"
    by (rule digits_over) (use c2 c(3) dig(2,3) sk b(2) in \<open>simp_all add: sscanf_flag_def\<close>)
  then have o: "sscanf_digits 0 negative (replicate FMT_MAX_NUM_SIZE 0) (head0 (ds @ rest)) st
      = Some (length ds, True, buf[0 := ch CHR ''1'', 1 := 0], head0 rest, st\<lparr>sc_str := a + of_nat (length ds) + 1\<rparr>)"
    using b(1) l1 by (simp add: ds12 algebra_simps)
  obtain x y bs where xy: "buf = x # y # bs"
    using b(2) by (cases buf; cases "tl buf") (auto simp: FMT_MAX_NUM_SIZE_def CHAR_BIT_def)
  have "sscanf_value 10 (buf[0 := ch CHR ''1'', 1 := 0]) 1 0 1 0 = Some (1, False)"
    by (simp add: xy nth_opt_def atoi_digit fmt_isdigit_def)
  then show ?thesis
    using o False
    by (intro exI [of _ True] exI [of _ "buf[0 := ch CHR ''1'', 1 := 0]"] exI [of _ 1] exI [of _ "buf[0 := ch CHR ''1'', 1 := 0]"] exI [of _ 1])
      (simp add: scanned_value_def xy)
qed

definition int_size :: "fmt_modifier \<Rightarrow> nat" where
  "int_size md = (case md of
     MODIFIER_CHAR \<Rightarrow> 1 | MODIFIER_SHORT \<Rightarrow> 2 | MODIFIER_LONG \<Rightarrow> 8 | MODIFIER_LONGLONG \<Rightarrow> 8
   | MODIFIER_PTR \<Rightarrow> 8 | MODIFIER_SIZE \<Rightarrow> 8 | MODIFIER_PTRDIFF \<Rightarrow> 8 | MODIFIER_NONE \<Rightarrow> 4)"

lemma store_bytes_out:
  "mapped m a (length cs) \<Longrightarrow> length cs < 2 ^ 64 \<Longrightarrow> store_bytes m a cs = Some (write_bytes m a cs)"
proof (induction cs arbitrary: m a)
  case (Cons c cs)
  have "m a \<noteq> None" "mapped m (a + 1) (length cs)" using Cons.prems(1) by (simp_all add: mapped_Suc)
  then have s: "store m a c = Some (m(a \<mapsto> c))" and mp: "mapped (m(a \<mapsto> c)) (a + 1) (length cs)"
    by (auto simp: store_def mapped_upd)
  have "store_bytes (m(a \<mapsto> c)) (a + 1) cs = Some (write_bytes (m(a \<mapsto> c)) (a + 1) cs)"
    by (rule Cons.IH [OF mp]) (use Cons.prems(2) in simp)
  then show ?case using s Cons.prems(2) by (simp add: write_bytes_Cons del: fun_upd_apply)
qed simp

lemma word_bytes_length [simp]: "length (word_bytes n w) = n"
  by (simp add: word_bytes_def)

lemma digit_head: "\<forall>c\<in>set ds. fmt_isdigit c \<Longrightarrow> ds \<noteq> [] \<Longrightarrow> fmt_isdigit (head0 (ds @ rest))"
  by (cases ds) auto

lemma not_digit: "fmt_isdigit c \<Longrightarrow> c \<noteq> 0" "fmt_isdigit c \<Longrightarrow> c \<noteq> ch CHR ''-''" "fmt_isdigit c \<Longrightarrow> c \<noteq> ch CHR ''x''"
  "fmt_isdigit c \<Longrightarrow> c \<noteq> ch CHR ''X''"
  by (auto simp: fmt_isdigit_def)

text \<open>The decimal prefix is none: a leading zero is given back.\<close>

lemma prefix_decimal:
  assumes "cstr (sc_mem st) a (ds @ rest)" "sc_str st = a + 1" "\<not> sscanf_flag st FMT_FORMAT_CHECK_WIDTH"
    and "\<forall>c\<in>set ds. fmt_isdigit c" "ds \<noteq> []" "sc_base st = 10"
  shows "sscanf_prefix (head0 (ds @ rest)) st = Some (head0 (ds @ rest), st)"
proof (cases "head0 (ds @ rest) = ch CHR ''0''")
  case True
  obtain c ds' where ds: "ds = c # ds'" using assms(5) by (cases ds) auto
  have "sc_mem st (a + 1) = Some (head0 (ds' @ rest))" using assms(1) ds by (auto intro: cstr_head0)
  then have con: "fmt_sscanf_state_consume_string st = Some (head0 (ds' @ rest), st\<lparr>sc_str := sc_str st + 1\<rparr>)"
    using assms(2,3) by (intro consume_string_out) simp_all
  have "st\<lparr>sc_str := sc_str st\<rparr> = st" by simp
  then show ?thesis using True con assms(6)
    by (simp add: sscanf_prefix_def fmt_sscanf_state_restore_string_def fmt_restore_def Let_def)
next
  case False
  then show ?thesis by (simp add: sscanf_prefix_def)
qed

lemma sign_out:
  assumes "cstr (sc_mem st) (sc_str st) (sp @ sg @ t)" "\<not> sscanf_flag st FMT_FORMAT_CHECK_WIDTH"
    and "\<forall>c\<in>set sp. fmt_isspace c" "sg = [] \<or> sg = [ch CHR ''-'']"
    and "sg = [] \<Longrightarrow> \<not> fmt_isspace (head0 t) \<and> head0 t \<noteq> ch CHR ''-''"
  shows "sscanf_sign st = Some (sg \<noteq> [], head0 t, st\<lparr>sc_str := sc_str st + of_nat (length sp + length sg) + 1\<rparr>)
    \<and> cstr (sc_mem st) (sc_str st + of_nat (length sp + length sg)) t"
proof -
  define a where "a = sc_str st + of_nat (length sp)"
  have c: "cstr (sc_mem st) a (sg @ t)"
    using assms(1) by (auto simp: cstr_def mem_bytes_append a_def)
  have sk: "fmt_sscanf_state_skip_space st = Some (st\<lparr>sc_str := a\<rparr>)"
  proof -
    have "\<not> fmt_isspace (head0 (sg @ t))" using assms(4,5) not_space by auto
    from skip_out [OF assms(1,3) this] show ?thesis by (simp add: fmt_sscanf_state_skip_space_def a_def)
  qed
  define st1 where "st1 = st\<lparr>sc_str := a\<rparr>"
  have con: "fmt_sscanf_state_consume_string st1 = Some (head0 (sg @ t), st1\<lparr>sc_str := sc_str st1 + 1\<rparr>)"
    by (rule consume_string_out) (use cstr_head0 [OF c] assms(2) in \<open>simp_all add: st1_def sscanf_flag_def\<close>)
  show ?thesis
  proof (cases "sg = []")
    case True
    then have "head0 (sg @ t) \<noteq> ch CHR ''-''" using assms(5) by simp
    then show ?thesis using True sk con c
      by (simp add: sscanf_sign_def flip: st1_def) (simp add: st1_def a_def)
  next
    case False
    then have sg: "sg = [ch CHR ''-'']" using assms(4) by simp
    define st2 where "st2 = st1\<lparr>sc_str := sc_str st1 + 1\<rparr>"
    have c2: "cstr (sc_mem st) (a + 1) t" using c sg by simp
    have "fmt_sscanf_state_consume_string st2 = Some (head0 t, st2\<lparr>sc_str := sc_str st2 + 1\<rparr>)"
      by (rule consume_string_out) (use cstr_head0 [OF c2] assms(2) in \<open>simp_all add: st2_def st1_def sscanf_flag_def\<close>)
    then show ?thesis using sg sk con c2
      by (simp add: sscanf_sign_def flip: st1_def st2_def) (simp add: st2_def st1_def a_def algebra_simps)
  qed
qed

lemma scan_int_out:
  assumes c: "cstr (sc_mem st) (sc_str st) (sp @ sg @ ds @ rest)"
    and fl: "\<not> sscanf_flag st FMT_FORMAT_CHECK_WIDTH" "\<not> sscanf_flag st FMT_FORMAT_DISCARD"
    and sp: "\<forall>c\<in>set sp. fmt_isspace c" "sg = [] \<or> sg = [ch CHR ''-'']"
    and ds: "\<forall>c\<in>set ds. fmt_isdigit c" "ds \<noteq> []" "\<not> fmt_isdigit (head0 rest)"
    and v: "v = num_value 10 (map digit_val ds)" "FMT_MAX_NUM_SIZE \<le> length ds \<or> v < 2 ^ 64"
    and base: "sc_base st = 10" and ap: "sc_ap st = VPtr p # ap" and mp: "mapped (sc_mem st) p (int_size (sc_modifier st))"
  shows "fmt_sscanf_state_produce_int st = Some (None, fmt_sscanf_state_report_conv
    (st\<lparr>sc_str := sc_str st + of_nat (length sp + length sg + length ds), sc_ap := ap,
       sc_mem := write_bytes (sc_mem st) p (word_bytes (int_size (sc_modifier st)) (scanned_value (sg \<noteq> []) (length ds) v))\<rparr>))"
proof -
  have hd: "fmt_isdigit (head0 (ds @ rest))" by (rule digit_head [OF ds(1,2)])
  note sg = sign_out [OF c fl(1) sp, OF conjI, OF not_space(1) [OF hd] not_digit(2) [OF hd]]
  define a where "a = sc_str st + of_nat (length sp + length sg)"
  define st1 where "st1 = st\<lparr>sc_str := a + 1\<rparr>"
  have s1: "sscanf_sign st = Some (sg \<noteq> [], head0 (ds @ rest), st1)" "cstr (sc_mem st1) a (ds @ rest)" "sc_str st1 = a + 1"
    "\<not> sscanf_flag st1 FMT_FORMAT_CHECK_WIDTH" "sc_base st1 = 10"
    using sg fl(1) base by (simp_all add: a_def st1_def sscanf_flag_def)
  have s2: "sscanf_prefix (head0 (ds @ rest)) st1 = Some (head0 (ds @ rest), st1)"
    by (rule prefix_decimal [OF s1(2,3,4) ds(1,2) s1(5)])
  define st2 where "st2 = st\<lparr>sc_str := a + of_nat (length ds)\<rparr>"
  have st2: "fmt_sscanf_state_restore_string (st1\<lparr>sc_str := a + of_nat (length ds) + 1\<rparr>) = st2"
    by (simp add: fmt_sscanf_state_restore_string_def fmt_restore_def st1_def st2_def)
  obtain negative buf k buf' n where s3:
    "sscanf_digits 0 (sg \<noteq> []) (replicate FMT_MAX_NUM_SIZE 0) (head0 (ds @ rest)) st1
        = Some (length ds, negative, buf, head0 rest, st1\<lparr>sc_str := a + of_nat (length ds) + 1\<rparr>)"
    "(if length ds < FMT_MAX_NUM_SIZE then do { buf \<leftarrow> upd_opt buf (length ds) 0; Some (length ds, buf) }
       else Some (length (takeWhile (\<lambda>c. c \<noteq> 0) buf), buf)) = Some (k, buf')"
    "sscanf_value 10 buf' k 0 1 0 = Some (n, False)"
    and w: "(if negative then - n else n) = scanned_value (sg \<noteq> []) (length ds) v"
    using digits_value [OF s1(2-5) ds v, of "sg \<noteq> []"] by (elim exE conjE)
  have s4: "sscanf_value (ucast (sc_base st2)) buf' k 0 1 0 = Some (n, False)" using s3(3) by (simp add: st2_def base)
  have s5: "sscanf_store_int w st2 = Some (st2\<lparr>sc_ap := ap, sc_mem := write_bytes (sc_mem st) p (word_bytes (int_size (sc_modifier st)) w)\<rparr>)" for w
    using ap mp store_bytes_out [of "sc_mem st" p "word_bytes (int_size (sc_modifier st)) w"]
    by (simp add: sscanf_store_int_def st2_def int_size_def split: fmt_modifier.splits)
  have fl2: "\<not> sscanf_flag st2 FMT_FORMAT_DISCARD" using fl(2) by (simp add: st2_def sscanf_flag_def)
  have len: "length ds \<noteq> 0" using ds(2) by simp
  show ?thesis
    unfolding fmt_sscanf_state_produce_int_def
    by (simp add: s1(1) s2 s3(1) st2 Let_def fl2 len ds(2) s3(2) s4 w s5 del: upd_opt_in)
      (simp add: st2_def a_def algebra_simps)
qed

section \<open>Formats of one number\<close>

definition modifier_text :: "fmt_modifier \<Rightarrow> u8 list" where
  "modifier_text md = map of_char (case md of
     MODIFIER_NONE \<Rightarrow> '''' | MODIFIER_CHAR \<Rightarrow> ''hh'' | MODIFIER_SHORT \<Rightarrow> ''h'' | MODIFIER_LONG \<Rightarrow> ''l''
   | MODIFIER_LONGLONG \<Rightarrow> ''ll'' | MODIFIER_PTR \<Rightarrow> '''' | MODIFIER_SIZE \<Rightarrow> ''z'' | MODIFIER_PTRDIFF \<Rightarrow> ''t'')"

definition decimal_format :: "fmt_modifier \<Rightarrow> u8 list" where
  "decimal_format md = [ch CHR ''%''] @ modifier_text md @ [ch CHR ''d'']"

lemma consume_format_out:
  "sc_mem st (sc_format st) = Some c \<Longrightarrow> fmt_sscanf_state_consume_format st = Some (c, st\<lparr>sc_format := sc_format st + 1\<rparr>)"
  by (simp add: fmt_sscanf_state_consume_format_def fmt_consume_def load_def)

lemma scan_flags_none:
  assumes "sc_mem st (sc_format st) = Some c" "c \<noteq> ch CHR ''*''"
  shows "fmt_sscanf_state_consume_flags st = Some (st\<lparr>sc_flags := 0\<rparr>)"
proof -
  have "fmt_sscanf_state_consume_format (st\<lparr>sc_flags := 0\<rparr>) = Some (c, (st\<lparr>sc_flags := 0\<rparr>)\<lparr>sc_format := sc_format st + 1\<rparr>)"
    using assms(1) by (subst consume_format_out) auto
  then have "sscanf_flags_loop (st\<lparr>sc_flags := 0\<rparr>) = Some ((st\<lparr>sc_flags := 0\<rparr>)\<lparr>sc_format := sc_format st + 1\<rparr>)"
    using assms(2) by (subst sscanf_flags_loop.simps) simp
  then show ?thesis by (simp add: fmt_sscanf_state_consume_flags_def fmt_sscanf_state_restore_format_def fmt_restore_def)
qed

lemma scan_width_none:
  assumes "sc_mem st (sc_format st) = Some c" "\<not> fmt_isdigit c"
  shows "fmt_sscanf_state_consume_width st = Some (st\<lparr>sc_width := 0\<rparr>)"
  using assms by (simp add: fmt_sscanf_state_consume_width_def consume_format_out [OF assms(1)] fmt_sscanf_state_restore_format_def fmt_restore_def)

lemma cstr_at2: "cstr m a (c # d # t) \<Longrightarrow> m a = Some c \<and> m (a + 1) = Some d \<and> cstr m (a + 2) t"
  by (simp add: add.assoc)

lemma scan_modifier_out:
  assumes "cstr (sc_mem st) (sc_format st) (modifier_text md @ [ch CHR ''d''])" "md \<noteq> MODIFIER_PTR"
  shows "fmt_sscanf_state_consume_modifier st = Some (st\<lparr>sc_format := sc_format st + of_nat (length (modifier_text md)), sc_modifier := md\<rparr>)"
proof (cases "length (modifier_text md)")
  case 0
  then have md: "md = MODIFIER_NONE" using assms(2) by (cases md) (simp_all add: modifier_text_def)
  then have c: "fmt_sscanf_state_consume_format st = Some (ch CHR ''d'', st\<lparr>sc_format := sc_format st + 1\<rparr>)"
    using assms(1) by (intro consume_format_out) (simp add: modifier_text_def)
  show ?thesis using md by (simp add: modifier_text_def fmt_sscanf_state_consume_modifier_def c fmt_sscanf_state_restore_format_def fmt_restore_def)
next
  case (Suc n)
  then obtain c t where t: "modifier_text md = c # t" by (cases "modifier_text md") auto
  then have c1: "sc_mem st (sc_format st) = Some c" and c2: "sc_mem st (sc_format st + 1) = Some (head0 (t @ [ch CHR ''d'']))"
    using assms(1) by (auto intro: cstr_head0)
  define st1 where "st1 = st\<lparr>sc_format := sc_format st + 1\<rparr>"
  have f: "fmt_sscanf_state_consume_format st = Some (c, st1)"
    "fmt_sscanf_state_consume_format st1 = Some (head0 (t @ [ch CHR ''d'']), st1\<lparr>sc_format := sc_format st1 + 1\<rparr>)"
    using consume_format_out [OF c1] consume_format_out [of st1] c2 by (simp_all add: st1_def)
  show ?thesis using t assms(2) f
    by (cases md; simp add: modifier_text_def fmt_sscanf_state_consume_modifier_def)
      (auto simp: st1_def fmt_sscanf_state_restore_format_def fmt_restore_def add.assoc)
qed

lemma scan_specifier_decimal:
  assumes "sc_mem st (sc_format st) = Some (ch CHR ''d'')"
  shows "fmt_sscanf_state_consume_specifier st = Some ((sscanf_set_flag FMT_FORMAT_CONV_SIGNED st)
    \<lparr>sc_format := sc_format st + 1, sc_base := 10, sc_specifier := SPECIFIER_INT\<rparr>)"
  using consume_format_out [OF assms] by (simp add: fmt_sscanf_state_consume_specifier_def sscanf_set_flag_def)

lemma modifier_head: "head0 (modifier_text md @ [ch CHR ''d'']) \<noteq> ch CHR ''*'' \<and> \<not> fmt_isdigit (head0 (modifier_text md @ [ch CHR ''d'']))"
  by (cases md) (simp_all add: modifier_text_def fmt_isdigit_def)

lemma scan_consume_decimal:
  assumes f: "cstr (sc_mem st) (sc_format st) (decimal_format md)" and md: "md \<noteq> MODIFIER_PTR"
  shows "fmt_sscanf_state_consume st = Some (None, st\<lparr>sc_format := sc_format st + of_nat (length (decimal_format md)),
    sc_flags := FMT_FORMAT_CONV_SIGNED, sc_width := 0, sc_modifier := md, sc_base := 10, sc_specifier := SPECIFIER_INT\<rparr>)"
proof -
  define f' where "f' = modifier_text md @ [ch CHR ''d'']"
  define st1 where "st1 = st\<lparr>sc_format := sc_format st + 1, sc_flags := 0\<rparr>"
  have f0: "decimal_format md = ch CHR ''%'' # f'" by (simp add: decimal_format_def f'_def)
  have "fmt_sscanf_state_consume_format (st\<lparr>sc_flags := 0\<rparr>) = Some (ch CHR ''%'', st1)"
    using f f0 by (subst consume_format_out) (auto simp: st1_def)
  moreover have c1: "cstr (sc_mem st1) (sc_format st1) f'" using f f0 by (simp add: st1_def)
  have "fmt_sscanf_state_consume_flags st1 = Some st1"
    by (subst scan_flags_none [OF cstr_head0 [OF c1]]) (use modifier_head [of md] in \<open>simp_all add: f'_def st1_def\<close>)
  moreover define st2 where "st2 = st1\<lparr>sc_width := 0\<rparr>"
  have "fmt_sscanf_state_consume_width st1 = Some st2"
    by (subst scan_width_none [OF cstr_head0 [OF c1]]) (use modifier_head [of md] in \<open>simp_all add: f'_def st2_def\<close>)
  moreover define st3 where "st3 = st2\<lparr>sc_format := sc_format st2 + of_nat (length (modifier_text md)), sc_modifier := md\<rparr>"
  have "fmt_sscanf_state_consume_modifier st2 = Some st3"
    unfolding st3_def by (rule scan_modifier_out [OF _ md]) (use c1 in \<open>simp add: st2_def f'_def\<close>)
  moreover have "sc_mem st3 (sc_format st3) = Some (ch CHR ''d'')"
    using c1 by (simp add: st3_def st2_def f'_def cstr_def mem_bytes_append)
  note scan_specifier_decimal [OF this]
  ultimately show ?thesis
    by (simp add: fmt_sscanf_state_consume_def)
      (simp add: st3_def st2_def st1_def f0 f'_def sscanf_set_flag_def algebra_simps)
qed

lemma scan_consume_end:
  assumes "sc_mem st (sc_format st) = Some 0"
  shows "fmt_sscanf_state_consume st = Some (Some ENOENT, st\<lparr>sc_flags := 0, sc_format := sc_format st + 1\<rparr>)"
  using assms by (simp add: fmt_sscanf_state_consume_def consume_format_out)

definition scan_state :: "fmt_sscanf_state \<Rightarrow> u64 \<Rightarrow> u64 \<Rightarrow> va_arg list \<Rightarrow> mem \<Rightarrow> fmt_modifier \<Rightarrow> fmt_sscanf_state" where
  "scan_state garbage str format ap m md = (fmt_sscanf_state_init garbage str format ap m)
    \<lparr>sc_format := format + of_nat (length (decimal_format md)), sc_flags := FMT_FORMAT_CONV_SIGNED,
     sc_width := 0, sc_modifier := md, sc_base := 10, sc_specifier := SPECIFIER_INT\<rparr>"

lemma scan_state_fields [simp]:
  "sc_str (scan_state garbage str format ap m md) = str" "sc_mem (scan_state garbage str format ap m md) = m"
  "sc_format (scan_state garbage str format ap m md) = format + of_nat (length (decimal_format md))"
  "sc_ap (scan_state garbage str format ap m md) = ap" "sc_modifier (scan_state garbage str format ap m md) = md"
  "sc_base (scan_state garbage str format ap m md) = 10" "sc_specifier (scan_state garbage str format ap m md) = SPECIFIER_INT"
  "sc_nr_convs (scan_state garbage str format ap m md) = 0"
  "\<not> sscanf_flag (scan_state garbage str format ap m md) FMT_FORMAT_CHECK_WIDTH"
  "\<not> sscanf_flag (scan_state garbage str format ap m md) FMT_FORMAT_DISCARD"
  by (simp_all add: scan_state_def fmt_sscanf_state_init_def sscanf_flag_def fmt_flag_def flag_defs)

text \<open>A format of one number is the conversion of the number and what it leaves of the format.\<close>

lemma scan_one:
  assumes "cstr m format (decimal_format md)" "md \<noteq> MODIFIER_PTR"
  shows "fmt_sscanf garbage str format ap m = do {
    (error, st) \<leftarrow> fmt_sscanf_state_produce_int (scan_state garbage str format ap m md);
    if error \<noteq> None then Some (sc_nr_convs st, sc_mem st)
    else do { st \<leftarrow> vsscanf_loop st; Some (sc_nr_convs st, sc_mem st) } }"
proof -
  have "fmt_sscanf_state_consume (fmt_sscanf_state_init garbage str format ap m)
      = Some (None, scan_state garbage str format ap m md)"
    by (subst scan_consume_decimal [of _ md]) (use assms in \<open>simp_all add: fmt_sscanf_state_init_def scan_state_def\<close>)
  moreover have "fmt_sscanf_state_produce (scan_state garbage str format ap m md) = fmt_sscanf_state_produce_int (scan_state garbage str format ap m md)"
    by (simp add: fmt_sscanf_state_produce_def)
  ultimately show ?thesis
    by (simp add: fmt_sscanf_def fmt_vsscanf_def vsscanf_loop.simps [of "fmt_sscanf_state_init garbage str format ap m"]
        fmt_sscanf_state_finalize_def split: option.splits prod.splits)
      (cases "fmt_sscanf_state_produce_int (scan_state garbage str format ap m md)"; auto)
qed

lemma scan_loop_end:
  assumes "sc_mem st (sc_format st) = Some 0"
  shows "vsscanf_loop st = Some (st\<lparr>sc_flags := 0, sc_format := sc_format st + 1\<rparr>)"
  by (subst vsscanf_loop.simps) (simp add: scan_consume_end [OF assms])

lemma decimal_format_end: "cstr m a (decimal_format md) \<Longrightarrow> m (a + of_nat (length (decimal_format md))) = Some 0"
  by (simp add: cstr_def mem_bytes_append)

lemma sscanf_decimal_out:
  assumes f: "cstr m format (decimal_format md)" "md \<noteq> MODIFIER_PTR" "outside p (int_size md) format (decimal_format md)"
    and c: "cstr m str (sp @ sg @ ds @ rest)"
    and sp: "\<forall>c\<in>set sp. fmt_isspace c" "sg = [] \<or> sg = [ch CHR ''-'']"
    and ds: "\<forall>c\<in>set ds. fmt_isdigit c" "ds \<noteq> []" "\<not> fmt_isdigit (head0 rest)"
    and v: "v = num_value 10 (map digit_val ds)" "FMT_MAX_NUM_SIZE \<le> length ds \<or> v < 2 ^ 64"
    and mp: "mapped m p (int_size md)"
  shows "fmt_sscanf garbage str format [VPtr p] m
    = Some (1, write_bytes m p (word_bytes (int_size md) (scanned_value (sg \<noteq> []) (length ds) v)))"
proof -
  define st where "st = scan_state garbage str format [VPtr p] m md"
  define m' where "m' = write_bytes m p (word_bytes (int_size md) (scanned_value (sg \<noteq> []) (length ds) v))"
  define st' where "st' = fmt_sscanf_state_report_conv (st\<lparr>sc_str := sc_str st + of_nat (length sp + length sg + length ds), sc_ap := [], sc_mem := m'\<rparr>)"
  have fl: "\<not> sscanf_flag st FMT_FORMAT_CHECK_WIDTH" "\<not> sscanf_flag st FMT_FORMAT_DISCARD" by (simp_all add: st_def)
  have c': "cstr (sc_mem st) (sc_str st) (sp @ sg @ ds @ rest)" using c by (simp add: st_def)
  have "fmt_sscanf_state_produce_int st = Some (None, st')"
    using scan_int_out [OF c' fl sp ds v, of p "[]"] mp by (simp add: st_def st'_def m'_def)
  moreover have "cstr m' format (decimal_format md)"
    unfolding m'_def by (rule cstr_outside [OF f(1,3)]) simp
  then have "vsscanf_loop st' = Some (st'\<lparr>sc_flags := 0, sc_format := sc_format st' + 1\<rparr>)"
    by (intro scan_loop_end) (simp add: st'_def fmt_sscanf_state_report_conv_def st_def decimal_format_end)
  ultimately show ?thesis
    using scan_one [OF f(1,2), of garbage str "[VPtr p]"]
    by (simp add: st_def [symmetric]) (simp add: st'_def fmt_sscanf_state_report_conv_def st_def m'_def)
qed

lemma sscanf_no_digit:
  assumes f: "cstr m format (decimal_format md)" "md \<noteq> MODIFIER_PTR" "outside p (int_size md) format (decimal_format md)"
    and c: "cstr m str (sp @ sg @ rest)" "\<forall>c\<in>set sp. fmt_isspace c" "sg = [] \<or> sg = [ch CHR ''-'']"
    and r: "\<not> fmt_isdigit (head0 rest)" "sg = [] \<Longrightarrow> \<not> fmt_isspace (head0 rest) \<and> head0 rest \<noteq> ch CHR ''-''"
    and mp: "mapped m p (int_size md)"
  shows "fmt_sscanf garbage str format [VPtr p] m
    = Some (if rest = [] then (C_EOF, m) else (1, write_bytes m p (word_bytes (int_size md) 0)))"
proof -
  define st where "st = scan_state garbage str format [VPtr p] m md"
  have fl: "\<not> sscanf_flag st FMT_FORMAT_CHECK_WIDTH" "\<not> sscanf_flag st FMT_FORMAT_DISCARD" by (simp_all add: st_def)
  define st1 where "st1 = st\<lparr>sc_str := str + of_nat (length sp + length sg)\<rparr>"
  define st2 where "st2 = st1\<lparr>sc_str := sc_str st1 + 1\<rparr>"
  have "cstr (sc_mem st) (sc_str st) (sp @ sg @ rest)" using c(1) by (simp add: st_def)
  note s = sign_out [OF this fl(1) c(2,3) r(2)]
  then have sg: "sscanf_sign st = Some (sg \<noteq> [], head0 rest, st2)" and c': "cstr m (str + of_nat (length sp + length sg)) rest"
    by (simp_all add: st2_def st1_def st_def)
  have "head0 rest \<noteq> ch CHR ''0''" using r(1) by (auto simp: fmt_isdigit_def)
  then have px: "sscanf_prefix (head0 rest) st2 = Some (head0 rest, st2)" by (simp add: sscanf_prefix_def)
  have b: "sc_base st2 = 10" by (simp add: st2_def st1_def st_def)
  have dg: "sscanf_digits 0 neg buf (head0 rest) st2 = Some (0, neg, buf, head0 rest, st2)" for neg buf
    using r(1) b by (subst sscanf_digits.simps) (simp add: sscanf_isdigit_def)
  have rs: "fmt_sscanf_state_restore_string st2 = st1" by (simp add: st2_def fmt_sscanf_state_restore_string_def fmt_restore_def st1_def)
  have fl1: "\<not> sscanf_flag st1 FMT_FORMAT_DISCARD" using fl(2) by (simp add: st1_def sscanf_flag_def)
  show ?thesis
  proof (cases "rest = []")
    case True
    then have "fmt_sscanf_state_produce_int st = Some (Some EINVAL, fmt_sscanf_state_report_error st1)"
      using sg px dg rs fl1 by (simp add: fmt_sscanf_state_produce_int_def Let_def)
    then show ?thesis
      using True scan_one [OF f(1,2), of garbage str "[VPtr p]"] by (simp add: st_def fmt_sscanf_state_report_error_def st1_def)
  next
    case False
    then have z: "head0 rest \<noteq> 0" using c' by (cases rest) auto
    define m' where "m' = write_bytes m p (word_bytes (int_size md) 0)"
    define st' where "st' = fmt_sscanf_state_report_conv (st1\<lparr>sc_ap := [], sc_mem := m'\<rparr>)"
    have so: "sscanf_store_int 0 st1 = Some (st1\<lparr>sc_ap := [], sc_mem := m'\<rparr>)"
      using mp store_bytes_out [of m p "word_bytes (int_size md) 0"]
      by (simp add: sscanf_store_int_def st1_def st_def m'_def int_size_def split: fmt_modifier.splits)
    have "fmt_sscanf_state_produce_int st = Some (None, st')"
      unfolding fmt_sscanf_state_produce_int_def
      using sg px dg rs fl1 z so by (simp add: Let_def FMT_MAX_NUM_SIZE_def CHAR_BIT_def atoi_digit fmt_isdigit_def st'_def)
    moreover have "cstr m' format (decimal_format md)"
      unfolding m'_def by (rule cstr_outside [OF f(1,3)]) simp
    then have "vsscanf_loop st' = Some (st'\<lparr>sc_flags := 0, sc_format := sc_format st' + 1\<rparr>)"
      by (intro scan_loop_end) (simp add: st'_def fmt_sscanf_state_report_conv_def st1_def st_def decimal_format_end)
    ultimately show ?thesis
      using False scan_one [OF f(1,2), of garbage str "[VPtr p]"]
      by (simp add: st_def [symmetric]) (simp add: st'_def fmt_sscanf_state_report_conv_def st1_def st_def m'_def)
  qed
qed

end
