(* ===== verification/Fmt_Props.thy ===== *)
theory Fmt_Props
  imports Fmt_Scan_Correct
begin

text \<open>
  The properties of formatted printing and scanning (\<^verbatim>\<open>kern/fmt.c\<close>), with a concrete
  instance of each: a format string and its arguments in memory, a buffer and the pointers the scanned
  numbers are stored through.
\<close>

unbundle bit_operations_syntax

section \<open>Decimal texts\<close>

lemma digit_char_isdigit: "d < 10 \<Longrightarrow> fmt_isdigit (digit_char 0 d) \<and> digit_val (digit_char 0 d) = d"
proof -
  assume "d < 10"
  then have "d \<in> {0,1,2,3,4,5,6,7,8,9}" by auto
  then show ?thesis by (auto simp: digit_char_def fmt_digits_def fmt_isdigit_def digit_val_def)
qed

definition decimal_text :: "u64 \<Rightarrow> u8 list" where
  "decimal_text n = (if sint n < 0 then [ch CHR ''-''] else []) @ map (digit_char 0) (nat_digits 10 (nat \<bar>sint n\<bar>))"

lemma sint_nat: "\<not> sint n < 0 \<Longrightarrow> unat n = nat (sint n)" for n :: u64
  using uint_of_sint [of n] by (simp add: unat_eq_nat_uint)

lemma int_text_decimal: "int_text FMT_FORMAT_CONV_SIGNED 0 (- 1) 10 n = decimal_text n"
proof -
  have nf: "\<not> fmt_flag FMT_FORMAT_CONV_SIGNED FMT_FORMAT_ALT_FORM" "fmt_flag FMT_FORMAT_CONV_SIGNED FMT_FORMAT_CONV_SIGNED"
    "\<not> fmt_flag FMT_FORMAT_CONV_SIGNED FMT_FORMAT_SIGN" "\<not> fmt_flag FMT_FORMAT_CONV_SIGNED FMT_FORMAT_BLANK"
    "\<not> fmt_flag FMT_FORMAT_CONV_SIGNED FMT_FORMAT_LEFT_JUSTIFY" "\<not> fmt_flag FMT_FORMAT_CONV_SIGNED FMT_FORMAT_ZERO_PAD"
    "fmt_lower FMT_FORMAT_CONV_SIGNED = 0"
    by (simp_all add: fmt_flag_def flag_defs fmt_lower_def FMT_FORMAT_LOWER_def)
  show ?thesis
    by (auto simp: int_text_def int_parts_def nf int_layout_def int_numeral_def decimal_text_def sint_nat Let_def)
qed

lemma decimal_text_length: "length (decimal_text n) \<le> 21"
proof -
  have "nat \<bar>sint n\<bar> < 10 ^ Suc 19"
    using sint_greater_eq [of n] sint_less [of n] by simp
  from nat_digits_length [OF _ this] have "length (nat_digits 10 (nat \<bar>sint n\<bar>)) \<le> 20" by simp
  then show ?thesis by (simp add: decimal_text_def del: abs_of_nonneg) (auto simp: abs_if split: if_splits)
qed

lemma read_decimal:
  assumes "md \<noteq> MODIFIER_PTR"
  shows "read_conversion (modifier_text md @ [ch CHR ''d''] @ rest) ap =
    Some (\<lparr>cv_flags = FMT_FORMAT_CONV_SIGNED, cv_width = 0, cv_precision = - 1,
      cv_modifier = (if md = MODIFIER_SIZE then MODIFIER_PTRDIFF else md), cv_specifier = SPECIFIER_INT, cv_base = 10\<rparr>, rest, ap)"
  using assms by (cases md) (simp_all add: modifier_text_def read_conversion_def read_width_def read_precision_def
      read_modifier_def starts_def fmt_isdigit_def specifier_of_def specifier_table_def)

lemma formatted_decimal:
  assumes md: "md \<noteq> MODIFIER_PTR" and v: "int_value True md a = Some n" "sint n \<noteq> - (2 ^ 63)" and r: "formatted S rest ap out"
  shows "formatted S (decimal_format md @ rest) (a # ap) (decimal_text n @ out)"
proof -
  define cv where "cv = \<lparr>cv_flags = FMT_FORMAT_CONV_SIGNED, cv_width = 0, cv_precision = - 1,
      cv_modifier = (if md = MODIFIER_SIZE then MODIFIER_PTRDIFF else md), cv_specifier = SPECIFIER_INT, cv_base = 10\<rparr>"
  have fl: "fmt_flag FMT_FORMAT_CONV_SIGNED FMT_FORMAT_CONV_SIGNED" by (simp add: fmt_flag_def flag_defs)
  have v': "int_value True (cv_modifier cv) a = Some n" using v(1) by (cases a) (auto simp: cv_def)
  have "renders S cv (a # ap) (int_text (cv_flags cv) (cv_width cv) (cv_precision cv) (cv_base cv) n) ap"
    by (rule render_int) (use v' fl v(2) in \<open>simp_all add: cv_def\<close>)
  then have rn: "renders S cv (a # ap) (decimal_text n) ap" by (simp add: cv_def int_text_decimal)
  have "formatted S (ch CHR ''%'' # modifier_text md @ [ch CHR ''d''] @ rest) (a # ap) (decimal_text n @ out)"
    by (rule formatted_conv [OF read_decimal [OF md, folded cv_def] _ _ _ _ rn r]) (simp_all add: cv_def)
  then show ?thesis by (simp add: decimal_format_def)
qed

lemma cstr_literal:
  assumes "0 \<notin> set t" "length t + 1 < 2 ^ 64"
  shows "cstr (write_bytes (\<lambda>_. Some 0) a t) a t"
proof -
  have "mem_bytes (write_bytes (\<lambda>_. Some 0) a t) a t" using assms(2) by (intro write_bytes_mem_bytes) simp
  moreover have "write_bytes (\<lambda>_. Some 0) a t (a + of_nat (length t)) = Some 0"
    using assms(2) by (simp add: write_bytes_def unat_of_nat_lt)
  ultimately show ?thesis using assms(1) by (simp add: cstr_def mem_bytes_append)
qed

lemma outside_below:
  assumes "unat p + length t < unat a" "unat a + n \<le> 2 ^ 64"
  shows "outside a n p t"
  unfolding outside_def
proof (intro allI impI)
  fix i j
  assume ij: "i \<le> length t" "j < n"
  then have "unat (p + of_nat i) = unat p + i" "unat (a + of_nat j) = unat a + j"
    using assms unat_lt_64 [of a] by (subst unat_add_lt; simp add: unat_of_nat_lt)+
  then show "p + of_nat i \<noteq> a + of_nat j" using ij assms by auto
qed

lemma cstr_write: "0 \<notin> set t \<Longrightarrow> length t < 2 ^ 64 \<Longrightarrow> cstr (write_bytes m a (t @ [0])) a t"
  by (simp add: cstr_def write_bytes_mem_bytes)

lemma decimal_digits:
  assumes "\<exists>n. ds = map (digit_char 0) (nat_digits 10 n) \<and> v = n"
  shows "\<forall>c\<in>set ds. fmt_isdigit c" "ds \<noteq> []" "num_value 10 (map digit_val ds) = v"
proof -
  obtain n where n: "ds = map (digit_char 0) (nat_digits 10 n)" "v = n" using assms by blast
  have d: "d < 10" if "d \<in> set (nat_digits 10 n)" for d using nat_digits_range [OF _ that] by simp
  show "\<forall>c\<in>set ds. fmt_isdigit c" using n d digit_char_isdigit by auto
  show "ds \<noteq> []" using n nat_digits_pos [of 10 n] by auto
  have "map digit_val ds = nat_digits 10 n"
    unfolding n(1) map_map by (rule map_idI) (use d digit_char_isdigit in auto)
  then show "num_value 10 (map digit_val ds) = v" using n nat_digits_value [of 10 n] by simp
qed

section \<open>Properties\<close>

text \<open>
  C6: Whatever text a format and its arguments stand for (literal characters, integers with flags, width,
  precision, modifier and base, characters, strings, percent signs), \<^verbatim>\<open>fmt_vsnprintf\<close>
  returns its length, stores as much of it as the buffer holds, ends it with a null byte, writes nothing for
  a zero size, and touches no other byte.
\<close>
theorem vsnprintf_correct:
  assumes "str \<noteq> 0" "sz = 0 \<or> sz = FMT_NOLIMIT \<or> unat str + unat sz \<le> 2 ^ 64"
    and "unat str + length out + 1 < 2 ^ 64" "length out < 2 ^ 31"
    and "mapped m str (length (fmt_stored str sz out))"
    and "cstr m format f" "outside str (length (fmt_stored str sz out)) format f"
    and "formatted (string_at m str (length (fmt_stored str sz out))) f ap out"
  shows "fmt_vsnprintf garbage str sz format ap m = Some (int (length out), write_bytes m str (fmt_stored str sz out))"
  by (rule vsnprintf_out [OF assms])

theorem vsnprintf_correct_witness:
  "\<forall>garbage. fmt_vsnprintf garbage 0x2000 3 0x1000 [VInt 7] (write_bytes (\<lambda>_. Some 0) 0x1000 (map of_char ''<%d>!''))
    = Some (4, write_bytes (write_bytes (\<lambda>_. Some 0) 0x1000 (map of_char ''<%d>!'')) 0x2000 (map of_char ''<7'' @ [0]))"
proof
  fix garbage
  define f :: "u8 list" where "f = map of_char ''<%d>!''"
  define m where "m = write_bytes (\<lambda>_. Some 0) 0x1000 f"
  have mp: "mapped m a k" for a k by (simp add: mapped_def m_def write_bytes_def)
  have "formatted S (map of_char ''>!'') [] (map of_char ''>!'')" for S
    by (auto intro!: formatted.intros)
  note formatted_decimal [OF _ _ _ this, of MODIFIER_NONE "VInt 7" 7]
  then have "formatted S (ch CHR ''<'' # decimal_format MODIFIER_NONE @ map of_char ''>!'') [VInt 7] (ch CHR ''<'' # decimal_text 7 @ map of_char ''>!'')" for S
    by (intro formatted_char) simp_all
  moreover have "decimal_text 7 = [ch CHR ''7'']"
    by (simp add: decimal_text_def nat_digits_small digit_char_def fmt_digits_def)
  ultimately have fo: "formatted S f [VInt 7] (map of_char ''<7>!'')" for S by (simp add: f_def decimal_format_def modifier_text_def)
  have c: "cstr m 0x1000 f" unfolding m_def by (rule cstr_literal) (simp_all add: f_def)
  have s: "fmt_stored 0x2000 3 (map of_char ''<7>!'') = map of_char ''<7'' @ [0]"
    by (simp add: fmt_stored_def fmt_cap_def FMT_NOLIMIT_def)
  have o: "outside 0x2000 (length (fmt_stored 0x2000 3 (map of_char ''<7>!''))) 0x1000 f"
    unfolding s by (rule outside_below) (simp_all add: f_def)
  have "fmt_vsnprintf garbage 0x2000 3 0x1000 [VInt 7] m
      = Some (int (length (map of_char ''<7>!'' :: u8 list)), write_bytes m 0x2000 (fmt_stored 0x2000 3 (map of_char ''<7>!'')))"
    by (rule vsnprintf_correct [OF _ _ _ _ mp c o fo]) simp_all
  then show "fmt_vsnprintf garbage 0x2000 3 0x1000 [VInt 7] (write_bytes (\<lambda>_. Some 0) 0x1000 (map of_char ''<%d>!''))
    = Some (4, write_bytes (write_bytes (\<lambda>_. Some 0) 0x1000 (map of_char ''<%d>!'')) 0x2000 (map of_char ''<7'' @ [0]))"
    unfolding s by (simp add: m_def f_def)
qed

text \<open>
  C8: A number printed by \<^verbatim>\<open>fmt_snprintf\<close> with a decimal conversion of any length modifier is
  read back unchanged by \<^verbatim>\<open>fmt_sscanf\<close> with the same format, except the most negative
  64-bit number, whose magnitude the code cannot negate.
\<close>
theorem print_scan_roundtrip:
  assumes md: "md \<noteq> MODIFIER_PTR" and n: "int_value True md a = Some n" "sint n \<noteq> - (2 ^ 63)"
    and buf: "buf \<noteq> 0" "22 \<le> unat sz" "sz \<noteq> FMT_NOLIMIT" "unat buf + unat sz < 2 ^ 64" "mapped m buf (unat sz)"
    and f: "cstr m format (decimal_format md)" "outside buf (unat sz) format (decimal_format md)"
    and p: "mapped m p (int_size md)" "outside p (int_size md) format (decimal_format md)"
  shows "\<exists>len m'. fmt_snprintf garbage buf sz format [a] m = Some (len, m')
    \<and> fmt_sscanf garbage' buf format [VPtr p] m' = Some (1, write_bytes m' p (word_bytes (int_size md) n))"
proof -
  define out where "out = decimal_text n"
  have sz: "sz \<noteq> 0" using buf(2) by auto
  have lo: "length out \<le> 21" using decimal_text_length by (simp add: out_def)
  have st: "fmt_stored buf sz out = out @ [0]" using sz buf(2,3) lo by (simp add: fmt_stored_def fmt_cap_def)
  have le: "length (fmt_stored buf sz out) \<le> unat sz" using st lo buf(2) by simp
  have mono: "outside b k q t \<Longrightarrow> j \<le> k \<Longrightarrow> outside b j q t" for b k j q t by (simp add: outside_def)
  define m' where "m' = write_bytes m buf (out @ [0])"
  have sp: "unat buf + length out + 1 < 2 ^ 64" "length out < 2 ^ 31" using buf(2,4) lo by simp_all
  have pr: "fmt_snprintf garbage buf sz format [a] m = Some (int (length out), m')"
    unfolding fmt_snprintf_def m'_def st [symmetric]
    by (rule vsnprintf_out) (use buf sp f(1) mono [OF f(2) le] formatted_decimal [OF md n formatted_end] mapped_mono [OF buf(5) le] in \<open>simp_all add: out_def\<close>)
  define ds where "ds = map (digit_char 0) (nat_digits 10 (nat \<bar>sint n\<bar>))"
  define sg where "sg = (if sint n < 0 then [ch CHR ''-''] else [])"
  have o: "out = [] @ sg @ ds @ []" by (simp add: out_def decimal_text_def ds_def sg_def)
  note dd = decimal_digits [of ds "nat \<bar>sint n\<bar>"]
  have dd1: "\<forall>c\<in>set ds. fmt_isdigit c" "ds \<noteq> []" "num_value 10 (map digit_val ds) = nat \<bar>sint n\<bar>"
    using dd by (auto simp: ds_def)
  have "0 \<notin> set out" using dd1(1) not_digit(1) by (auto simp: o sg_def)
  then have c: "cstr m' buf ([] @ sg @ ds @ [])" unfolding o [symmetric] m'_def using lo by (intro cstr_write) simp_all
  have v: "nat \<bar>sint n\<bar> < 2 ^ 64" using sint_greater_eq [of n] sint_less [of n] by simp
  have w: "(if sg = [] then of_nat (nat \<bar>sint n\<bar>) else - of_nat (nat \<bar>sint n\<bar>)) = n"
  proof (cases "sint n < 0")
    case True
    then have "nat \<bar>sint n\<bar> = unat (- n)" using unat_neg [OF True] by simp
    moreover have "of_nat (unat (- n)) = - n" by simp
    ultimately have "of_nat (nat \<bar>sint n\<bar>) = - n" by (simp only:)
    then show ?thesis using True by (simp add: sg_def)
  next
    case False
    then have "nat \<bar>sint n\<bar> = unat n" using sint_nat [OF False] by simp
    moreover have "of_nat (unat n) = n" by simp
    ultimately have "of_nat (nat \<bar>sint n\<bar>) = n" by (simp only:)
    then show ?thesis using False by (simp add: sg_def)
  qed
  have sh: "\<not> FMT_MAX_NUM_SIZE \<le> length ds" using lo o by (simp add: FMT_MAX_NUM_SIZE_def CHAR_BIT_def)
  have "fmt_sscanf garbage' buf format [VPtr p] m'
      = Some (1, write_bytes m' p (word_bytes (int_size md) (scanned_value (sg \<noteq> []) (length ds) (nat \<bar>sint n\<bar>))))"
  proof (rule sscanf_decimal_out [OF _ md p(2) c])
    show "cstr m' format (decimal_format md)"
      unfolding m'_def by (rule cstr_outside [OF f]) (use le st in simp)
    show "mapped m' p (int_size md)" using p(1) by (simp add: m'_def mapped_def write_bytes_mapped)
    show "sg = [] \<or> sg = [ch CHR ''-'']" by (simp add: sg_def)
  qed (use dd1 v in \<open>simp_all add: fmt_isdigit_def\<close>)
  then show ?thesis using pr w sh by (auto simp: scanned_value_def)
qed


theorem print_scan_roundtrip_witness:
  "\<forall>garbage garbage'. \<exists>len m'. fmt_snprintf garbage 0x2000 32 0x1000 [VLong (- 42)] (write_bytes (\<lambda>_. Some 0) 0x1000 (decimal_format MODIFIER_LONG)) = Some (len, m')
    \<and> fmt_sscanf garbage' 0x2000 0x1000 [VPtr 0x3000] m' = Some (1, write_bytes m' 0x3000 (word_bytes 8 (- 42)))"
  using print_scan_roundtrip [of MODIFIER_LONG "VLong (- 42)" "- 42" "0x2000" 32
      "write_bytes (\<lambda>_. Some 0) 0x1000 (decimal_format MODIFIER_LONG)" "0x1000" "0x3000"]
    cstr_literal [of "decimal_format MODIFIER_LONG" "0x1000"]
  by (simp add: decimal_format_def modifier_text_def int_size_def FMT_NOLIMIT_def outside_below mapped_def write_bytes_def)

text \<open>
  C30: Scanning a plain decimal number (\<^verbatim>\<open>%d\<close> with any length modifier) skips the spaces before it and takes
  an optional minus sign and the longest run of digits, reports one conversion, and writes nothing but the
  object of the length modifier. A run of fewer than 22 digits whose magnitude is below \<open>2 ^ 64\<close> stores the
  number, truncated to the width of that object. A run of 22 digits or more does not fit in the buffer of the code
  (\<^verbatim>\<open>FMT_MAX_NUM_SIZE\<close>) and stores -1 whatever its value and sign, also when the digits are leading zeros.
  Runs of 20 and 21 digits of a magnitude of \<open>2 ^ 64\<close> or more are outside the statement: the code notices
  only some of these overflows.
\<close>
theorem sscanf_decimal:
  assumes "cstr m format (decimal_format md)" "md \<noteq> MODIFIER_PTR" "outside p (int_size md) format (decimal_format md)"
    and "cstr m str (sp @ sg @ ds @ rest)"
    and "\<forall>c\<in>set sp. fmt_isspace c" "sg = [] \<or> sg = [ch CHR ''-'']"
    and "\<forall>c\<in>set ds. fmt_isdigit c" "ds \<noteq> []" "\<not> fmt_isdigit (head0 rest)"
    and "v = num_value 10 (map digit_val ds)" "22 \<le> length ds \<or> v < 2 ^ 64"
    and "mapped m p (int_size md)"
  shows "fmt_sscanf garbage str format [VPtr p] m
    = Some (1, write_bytes m p (word_bytes (int_size md)
        (if 22 \<le> length ds then - 1 else if sg = [] then of_nat v else - of_nat v)))"
proof -
  have "FMT_MAX_NUM_SIZE \<le> length ds \<or> v < 2 ^ 64" using assms(11) by (simp add: FMT_MAX_NUM_SIZE_def CHAR_BIT_def)
  from sscanf_decimal_out [OF assms(1-10) this assms(12)] show ?thesis
    by (simp add: scanned_value_def FMT_MAX_NUM_SIZE_def CHAR_BIT_def)
qed

theorem sscanf_decimal_witness:
  "\<exists>m. \<forall>garbage. fmt_sscanf garbage 0x2000 0x1000 [VPtr 0x3000] m = Some (1, write_bytes m 0x3000 (word_bytes 2 (- 57)))
     \<and> fmt_sscanf garbage 0x2010 0x1000 [VPtr 0x3000] m = Some (1, write_bytes m 0x3000 (word_bytes 2 (- 1)))"
proof -
  define m0 where "m0 = write_bytes (write_bytes (\<lambda>_. Some 0) 0x1000 (decimal_format MODIFIER_SHORT)) 0x2000 (map of_char '' -057,'' @ [0])"
  define ds :: "u8 list" where "ds = map of_char ''0000000000000000000007''"
  define m where "m = write_bytes m0 0x2010 (ds @ [0])"
  have "cstr (write_bytes (\<lambda>_. Some 0) 0x1000 (decimal_format MODIFIER_SHORT)) 0x1000 (decimal_format MODIFIER_SHORT)"
    by (rule cstr_literal) (simp_all add: decimal_format_def modifier_text_def)
  then have "cstr m0 0x1000 (decimal_format MODIFIER_SHORT)"
    unfolding m0_def by (rule cstr_outside [where n = 16]) (auto intro!: outside_below simp: decimal_format_def modifier_text_def)
  then have f: "cstr m 0x1000 (decimal_format MODIFIER_SHORT)"
    unfolding m_def by (rule cstr_outside [where n = 32]) (auto intro!: outside_below simp: decimal_format_def modifier_text_def ds_def)
  have o: "outside 0x3000 2 0x1000 (decimal_format MODIFIER_SHORT)"
    by (rule outside_below) (simp_all add: decimal_format_def modifier_text_def)
  have "cstr m0 0x2000 (map of_char '' -057,'')" unfolding m0_def by (rule cstr_write) simp_all
  then have c: "cstr m 0x2000 (map of_char '' -057,'')"
    unfolding m_def by (rule cstr_outside [where n = 32]) (auto intro!: outside_below simp: ds_def)
  have z: "cstr m 0x2010 ds" unfolding m_def by (rule cstr_write) (simp_all add: ds_def)
  have mp: "mapped m 0x3000 2" by (simp add: mapped_def m_def m0_def write_bytes_def)
  have "fmt_sscanf garbage 0x2000 0x1000 [VPtr 0x3000] m = Some (1, write_bytes m 0x3000 (word_bytes 2 (- 57)))" for garbage
    using sscanf_decimal [where m = m and format = "0x1000" and md = MODIFIER_SHORT and p = "0x3000" and str = "0x2000" and v = 57
      and sp = "map of_char '' ''" and sg = "map of_char ''-''" and ds = "map of_char ''057''" and rest = "map of_char '',''"] f o c mp
    by (simp add: int_size_def fmt_isspace_def fmt_isdigit_def num_value_def digit_val_def)
  moreover have "fmt_sscanf garbage 0x2010 0x1000 [VPtr 0x3000] m = Some (1, write_bytes m 0x3000 (word_bytes 2 (- 1)))" for garbage
  proof -
    have z': "cstr m 0x2010 ([] @ [] @ ds @ [])" using z by (simp add: ds_def)
    have ds: "\<forall>c\<in>set ds. fmt_isdigit c" "ds \<noteq> []" "\<not> fmt_isdigit (head0 [])" "22 \<le> length ds"
      by (simp_all add: ds_def fmt_isdigit_def)
    have mp': "mapped m 0x3000 (int_size MODIFIER_SHORT)" and o': "outside 0x3000 (int_size MODIFIER_SHORT) 0x1000 (decimal_format MODIFIER_SHORT)"
      using mp o by (simp_all add: int_size_def)
    show ?thesis
      using sscanf_decimal [OF f _ o' z' _ _ ds(1-3) refl disjI1 [OF ds(4)] mp', of garbage] ds(4) by (simp add: int_size_def)
  qed
  ultimately show ?thesis by blast
qed

text \<open>
  C31: Where a plain decimal conversion (\<^verbatim>\<open>%d\<close> with any length modifier) finds no digit after the spaces and an optional
  minus sign, what follows decides: at the end of the input (also the input \<^verbatim>\<open>-\<close>) the call
  returns \<^verbatim>\<open>EOF\<close> and writes nothing, before any other character (also a space after the sign) it stores zero
  and reports a conversion, where the standard function reports a matching failure.
\<close>
theorem sscanf_no_number:
  assumes "cstr m format (decimal_format md)" "md \<noteq> MODIFIER_PTR" "outside p (int_size md) format (decimal_format md)"
    and "cstr m str (sp @ sg @ rest)" "\<forall>c\<in>set sp. fmt_isspace c" "sg = [] \<or> sg = [ch CHR ''-'']"
    and "\<not> fmt_isdigit (head0 rest)" "sg = [] \<longrightarrow> \<not> fmt_isspace (head0 rest) \<and> head0 rest \<noteq> ch CHR ''-''"
    and "mapped m p (int_size md)"
  shows "fmt_sscanf garbage str format [VPtr p] m
    = Some (if rest = [] then (C_EOF, m) else (1, write_bytes m p (word_bytes (int_size md) 0)))"
  by (rule sscanf_no_digit [OF assms(1-7) assms(8) [rule_format] assms(9)])

theorem sscanf_no_number_witness:
  "\<exists>m. \<forall>garbage. fmt_sscanf garbage 0x2000 0x1000 [VPtr 0x3000] m = Some (1, write_bytes m 0x3000 (word_bytes 4 0))
     \<and> fmt_sscanf garbage 0x5000 0x1000 [VPtr 0x3000] m = Some (- 1, m)
     \<and> fmt_sscanf garbage 0x2010 0x1000 [VPtr 0x3000] m = Some (- 1, m)"
proof -
  define m0 where "m0 = write_bytes (write_bytes (\<lambda>_. Some 0) 0x1000 (decimal_format MODIFIER_NONE)) 0x2000 (map of_char '' abc'' @ [0])"
  define m where "m = write_bytes m0 0x2010 (map of_char ''-'' @ [0])"
  have "cstr (write_bytes (\<lambda>_. Some 0) 0x1000 (decimal_format MODIFIER_NONE)) 0x1000 (decimal_format MODIFIER_NONE)"
    by (rule cstr_literal) (simp_all add: decimal_format_def modifier_text_def)
  then have "cstr m0 0x1000 (decimal_format MODIFIER_NONE)"
    unfolding m0_def by (rule cstr_outside [where n = 16]) (auto intro!: outside_below simp: decimal_format_def modifier_text_def)
  then have f: "cstr m 0x1000 (decimal_format MODIFIER_NONE)"
    unfolding m_def by (rule cstr_outside [where n = 16]) (auto intro!: outside_below simp: decimal_format_def modifier_text_def)
  have o: "outside 0x3000 4 0x1000 (decimal_format MODIFIER_NONE)"
    by (rule outside_below) (simp_all add: decimal_format_def modifier_text_def)
  have "cstr m0 0x2000 (map of_char '' abc'')" unfolding m0_def by (rule cstr_write) simp_all
  then have c: "cstr m 0x2000 (map of_char '' abc'')"
    unfolding m_def by (rule cstr_outside [where n = 16]) (auto intro!: outside_below)
  have s: "cstr m 0x2010 (map of_char ''-'')" unfolding m_def by (rule cstr_write) simp_all
  have e: "cstr m 0x5000 []" by (simp add: cstr_def m_def m0_def write_bytes_def decimal_format_def modifier_text_def)
  have mp: "mapped m 0x3000 4" by (simp add: mapped_def m_def m0_def write_bytes_def)
  note no = sscanf_no_number [where m = m and format = "0x1000" and md = MODIFIER_NONE and p = "0x3000"]
  show ?thesis
    using no [where str = "0x2000" and sp = "map of_char '' ''" and sg = "[]" and rest = "map of_char ''abc''"]
      no [where str = "0x5000" and sp = "[]" and sg = "[]" and rest = "[]"]
      no [where str = "0x2010" and sp = "[]" and sg = "map of_char ''-''" and rest = "[]"] f o c e s mp
    by (intro exI [of _ m]) (simp add: int_size_def fmt_isspace_def fmt_isdigit_def C_EOF_def)
qed

text \<open>
  C40: The digits of a number never overflow the buffer of the conversion, in any base, and they are its
  positional digits, last first.
\<close>
theorem number_buffer_fits:
  assumes "sp_base st = 8 \<or> sp_base st = 10 \<or> sp_base st = 16"
  shows "\<exists>tmp. sprintf_int_digits n st = Some tmp \<and> length tmp \<le> FMT_MAX_NUM_SIZE
    \<and> rev tmp = (if unat n = 0 \<and> sp_precision st = 0 then []
        else map (digit_char (fmt_lower (sp_flags st))) (nat_digits (unat (sp_base st)) (unat n)))"
  by (rule int_digits_spec [OF assms])

theorem number_buffer_fits_witness:
  "\<forall>st. \<exists>tmp. sprintf_int_digits (- 1) (st\<lparr>sp_base := 8, sp_flags := 0, sp_precision := - 1\<rparr>) = Some tmp
    \<and> length tmp \<le> FMT_MAX_NUM_SIZE \<and> rev tmp = map (digit_char (fmt_lower 0)) (nat_digits 8 (2 ^ 64 - 1))"
proof
  fix st :: fmt_sprintf_state
  show "\<exists>tmp. sprintf_int_digits (- 1) (st\<lparr>sp_base := 8, sp_flags := 0, sp_precision := - 1\<rparr>) = Some tmp
    \<and> length tmp \<le> FMT_MAX_NUM_SIZE \<and> rev tmp = map (digit_char (fmt_lower 0)) (nat_digits 8 (2 ^ 64 - 1))"
    using number_buffer_fits [of "st\<lparr>sp_base := 8, sp_flags := 0, sp_precision := - 1\<rparr>" "- 1"]
    by (simp add: unat_max_u64)
qed

end
