(* ===== verification/Klist.thy ===== *)
theory Klist
  imports Prelude
begin

text \<open>
  Doubly-linked lists (\<^verbatim>\<open>kern/list.h\<close>). Heads and nodes are the same structure,
  kept in a store \<open>h\<close> from nodes to their two pointers; \<open>None\<close> is the null pointer,
  and a store through it stops the program. \<open>dl h l xs\<close> says that the list with the
  head \<open>l\<close> links the nodes \<open>xs\<close> in both directions, and \<open>lists h H L\<close>
  that every head \<open>l\<close> of \<open>H\<close> links \<open>L l\<close>, no node being in two lists:
  the operations on pointers then are the operations on sequences, and leave the other lists alone.
\<close>

section \<open>The operations\<close>

record 'n klist =
  ln_prev :: "'n option"
  ln_next :: "'n option"

type_synonym 'n links = "'n \<Rightarrow> 'n klist"

text \<open>Stores through a pointer.\<close>

definition store_next :: "'n option \<Rightarrow> 'n option \<Rightarrow> 'n links \<Rightarrow> 'n links option" where
  "store_next p v h = do { n \<leftarrow> p; Some (h(n := (h n)\<lparr>ln_next := v\<rparr>)) }"

definition store_prev :: "'n option \<Rightarrow> 'n option \<Rightarrow> 'n links \<Rightarrow> 'n links option" where
  "store_prev p v h = do { n \<leftarrow> p; Some (h(n := (h n)\<lparr>ln_prev := v\<rparr>)) }"

definition list_init :: "'n \<Rightarrow> 'n links \<Rightarrow> 'n links" where
  "list_init l h = h(l := \<lparr>ln_prev = Some l, ln_next = Some l\<rparr>)"

definition list_node_init :: "'n \<Rightarrow> 'n links \<Rightarrow> 'n links" where
  "list_node_init n h = h(n := \<lparr>ln_prev = None, ln_next = None\<rparr>)"

definition list_node_unlinked :: "'n \<Rightarrow> 'n links \<Rightarrow> bool" where
  "list_node_unlinked n h \<longleftrightarrow> ln_prev (h n) = None"

definition list_first :: "'n \<Rightarrow> 'n links \<Rightarrow> 'n option" where "list_first l h = ln_next (h l)"

definition list_last :: "'n \<Rightarrow> 'n links \<Rightarrow> 'n option" where "list_last l h = ln_prev (h l)"

definition list_next :: "'n \<Rightarrow> 'n links \<Rightarrow> 'n option" where "list_next n h = ln_next (h n)"

definition list_prev :: "'n \<Rightarrow> 'n links \<Rightarrow> 'n option" where "list_prev n h = ln_prev (h n)"

definition list_end :: "'n \<Rightarrow> 'n option \<Rightarrow> bool" where "list_end l p \<longleftrightarrow> p = Some l"

definition list_empty :: "'n \<Rightarrow> 'n links \<Rightarrow> bool" where "list_empty l h \<longleftrightarrow> ln_next (h l) = Some l"

definition list_singular :: "'n \<Rightarrow> 'n links \<Rightarrow> bool" where
  "list_singular l h \<longleftrightarrow> \<not> list_empty l h \<and> ln_next (h l) = ln_prev (h l)"

definition list_split :: "'n \<Rightarrow> 'n \<Rightarrow> 'n \<Rightarrow> 'n links \<Rightarrow> 'n links option" where
  "list_split list1 list2 node h =
     (if list_empty list2 h \<or> ln_next (h list2) = Some node \<or> list_end list2 (Some node) then Some (list_init list1 h)
      else do {
        h \<leftarrow> store_next (Some list1) (ln_next (h list2)) h;
        h \<leftarrow> store_prev (ln_next (h list1)) (Some list1) h;
        h \<leftarrow> store_prev (Some list1) (ln_prev (h node)) h;
        h \<leftarrow> store_next (ln_prev (h node)) (Some list1) h;
        h \<leftarrow> store_next (Some list2) (Some node) h;
        store_prev (Some node) (Some list2) h })"

definition list_concat :: "'n \<Rightarrow> 'n \<Rightarrow> 'n links \<Rightarrow> 'n links option" where
  "list_concat list1 list2 h =
     (if list_empty list2 h then Some h
      else do {
        let last1 = ln_prev (h list1);
        let first2 = ln_next (h list2);
        let last2 = ln_prev (h list2);
        h \<leftarrow> store_next last1 first2 h;
        h \<leftarrow> store_prev first2 last1 h;
        h \<leftarrow> store_next last2 (Some list1) h;
        store_prev (Some list1) last2 h })"

definition list_set_head :: "'n \<Rightarrow> 'n \<Rightarrow> 'n links \<Rightarrow> 'n links option" where
  "list_set_head new_head old_head h =
     (if list_empty old_head h then Some (list_init new_head h)
      else do {
        let h = h(new_head := h old_head);
        h \<leftarrow> store_prev (ln_next (h new_head)) (Some new_head) h;
        store_next (ln_prev (h new_head)) (Some new_head) h })"

definition list_add :: "'n option \<Rightarrow> 'n option \<Rightarrow> 'n \<Rightarrow> 'n links \<Rightarrow> 'n links option" where
  "list_add prev next node h = do {
     h \<leftarrow> store_prev next (Some node) h;
     h \<leftarrow> store_next (Some node) next h;
     h \<leftarrow> store_next prev (Some node) h;
     store_prev (Some node) prev h }"

definition list_insert_head :: "'n \<Rightarrow> 'n \<Rightarrow> 'n links \<Rightarrow> 'n links option" where
  "list_insert_head l node h = list_add (Some l) (ln_next (h l)) node h"

definition list_insert_tail :: "'n \<Rightarrow> 'n \<Rightarrow> 'n links \<Rightarrow> 'n links option" where
  "list_insert_tail l node h = list_add (ln_prev (h l)) (Some l) node h"

definition list_insert_before :: "'n \<Rightarrow> 'n \<Rightarrow> 'n links \<Rightarrow> 'n links option" where
  "list_insert_before node next h = list_add (ln_prev (h next)) (Some next) node h"

definition list_insert_after :: "'n \<Rightarrow> 'n \<Rightarrow> 'n links \<Rightarrow> 'n links option" where
  "list_insert_after node prev h = list_add (Some prev) (ln_next (h prev)) node h"

definition list_remove :: "'n \<Rightarrow> 'n links \<Rightarrow> 'n links option" where
  "list_remove node h = do {
     h \<leftarrow> store_next (ln_prev (h node)) (ln_next (h node)) h;
     store_prev (ln_next (h node)) (ln_prev (h node)) h }"

text \<open>The nodes a loop over the list visits, forward and backward.\<close>

partial_function (option) list_visit :: "'n \<Rightarrow> 'n option \<Rightarrow> 'n links \<Rightarrow> 'n list option" where
  "list_visit l p h =
     (if list_end l p then Some []
      else do { n \<leftarrow> p; ns \<leftarrow> list_visit l (list_next n h) h; Some (n # ns) })"

partial_function (option) list_visit_reverse :: "'n \<Rightarrow> 'n option \<Rightarrow> 'n links \<Rightarrow> 'n list option" where
  "list_visit_reverse l p h =
     (if list_end l p then Some []
      else do { n \<leftarrow> p; ns \<leftarrow> list_visit_reverse l (list_prev n h) h; Some (n # ns) })"

definition list_for_each :: "'n \<Rightarrow> 'n links \<Rightarrow> 'n list option" where
  "list_for_each l h = list_visit l (list_first l h) h"

definition list_for_each_reverse :: "'n \<Rightarrow> 'n links \<Rightarrow> 'n list option" where
  "list_for_each_reverse l h = list_visit_reverse l (list_last l h) h"

text \<open>The loop whose body may unlink the node it is given: the next node is read first.\<close>

partial_function (option) list_visit_safe ::
  "'n \<Rightarrow> ('n \<Rightarrow> 'n links \<Rightarrow> 'n links option) \<Rightarrow> 'n option \<Rightarrow> 'n option \<Rightarrow> 'n links \<Rightarrow> 'n links option" where
  "list_visit_safe l body node tmp h =
     (if list_end l node then Some h
      else do {
        n \<leftarrow> node;
        h \<leftarrow> body n h;
        t \<leftarrow> tmp;
        list_visit_safe l body tmp (list_next t h) h })"

definition list_for_each_safe :: "'n \<Rightarrow> ('n \<Rightarrow> 'n links \<Rightarrow> 'n links option) \<Rightarrow> 'n links \<Rightarrow> 'n links option" where
  "list_for_each_safe l body h = do {
     n \<leftarrow> list_first l h;
     list_visit_safe l body (Some n) (list_next n h) h }"

text \<open>The stores of the lockless variants, in their order: a reader may run between any two of them.\<close>

definition list_rcu_add_stores :: "'n option \<Rightarrow> 'n option \<Rightarrow> 'n \<Rightarrow> ('n links \<Rightarrow> 'n links option) list" where
  "list_rcu_add_stores prev next node =
     [store_next (Some node) next, store_prev (Some node) prev, store_next prev (Some node), store_prev next (Some node)]"

definition list_rcu_remove_stores :: "'n option \<Rightarrow> 'n option \<Rightarrow> ('n links \<Rightarrow> 'n links option) list" where
  "list_rcu_remove_stores prev next = [store_prev next prev, store_next prev next]"

fun run_stores :: "('n links \<Rightarrow> 'n links option) list \<Rightarrow> 'n links \<Rightarrow> 'n links option" where
  "run_stores [] h = Some h"
| "run_stores (f # fs) h = do { h \<leftarrow> f h; run_stores fs h }"

definition list_rcu_add :: "'n option \<Rightarrow> 'n option \<Rightarrow> 'n \<Rightarrow> 'n links \<Rightarrow> 'n links option" where
  "list_rcu_add prev next node h = run_stores (list_rcu_add_stores prev next node) h"

definition list_rcu_insert_head :: "'n \<Rightarrow> 'n \<Rightarrow> 'n links \<Rightarrow> 'n links option" where
  "list_rcu_insert_head l node h = list_rcu_add (Some l) (ln_next (h l)) node h"

definition list_rcu_insert_tail :: "'n \<Rightarrow> 'n \<Rightarrow> 'n links \<Rightarrow> 'n links option" where
  "list_rcu_insert_tail l node h = list_rcu_add (ln_prev (h l)) (Some l) node h"

definition list_rcu_insert_before :: "'n \<Rightarrow> 'n \<Rightarrow> 'n links \<Rightarrow> 'n links option" where
  "list_rcu_insert_before node next h = list_rcu_add (ln_prev (h next)) (Some next) node h"

definition list_rcu_insert_after :: "'n \<Rightarrow> 'n \<Rightarrow> 'n links \<Rightarrow> 'n links option" where
  "list_rcu_insert_after node prev h = list_rcu_add (Some prev) (ln_next (h prev)) node h"

definition list_rcu_remove :: "'n \<Rightarrow> 'n links \<Rightarrow> 'n links option" where
  "list_rcu_remove node h = run_stores (list_rcu_remove_stores (ln_prev (h node)) (ln_next (h node))) h"

section \<open>Linked lists as sequences\<close>

fun dpath :: "'n links \<Rightarrow> 'n \<Rightarrow> 'n list \<Rightarrow> 'n \<Rightarrow> bool" where
  "dpath h p [] q \<longleftrightarrow> ln_next (h p) = Some q \<and> ln_prev (h q) = Some p"
| "dpath h p (x # xs) q \<longleftrightarrow> ln_next (h p) = Some x \<and> ln_prev (h x) = Some p \<and> dpath h x xs q"

definition dl :: "'n links \<Rightarrow> 'n \<Rightarrow> 'n list \<Rightarrow> bool" where
  "dl h l xs \<longleftrightarrow> dpath h l xs l \<and> distinct (l # xs)"

definition lists :: "'n links \<Rightarrow> 'n set \<Rightarrow> ('n \<Rightarrow> 'n list) \<Rightarrow> bool" where
  "lists h H L \<longleftrightarrow> (\<forall>l\<in>H. dl h l (L l)) \<and> (\<forall>l\<in>H. \<forall>k\<in>H. l \<noteq> k \<longrightarrow> set (l # L l) \<inter> set (k # L k) = {})"

lemma dpath_append [simp]: "dpath h p (xs @ y # ys) q \<longleftrightarrow> dpath h p xs y \<and> dpath h y ys q"
  by (induction xs arbitrary: p) auto

lemma dpath_ends: "dpath h p xs q \<Longrightarrow> ln_next (h p) = Some (hd (xs @ [q])) \<and> ln_prev (h q) = Some (last (p # xs))"
  by (induction xs arbitrary: p) auto

text \<open>A path reads the next pointers of its nodes but the last and the previous pointers of all but
  the first.\<close>

lemma dpath_cong:
  assumes "dpath h p xs q" "\<forall>n\<in>set (p # xs). ln_next (h' n) = ln_next (h n)"
    "\<forall>n\<in>set (xs @ [q]). ln_prev (h' n) = ln_prev (h n)"
  shows "dpath h' p xs q"
  using assms by (induction xs arbitrary: p) auto

lemma dl_frame: "dl h l xs \<Longrightarrow> \<forall>n\<in>set (l # xs). h' n = h n \<Longrightarrow> dl h' l xs"
  unfolding dl_def by (elim conjE, intro conjI, erule dpath_cong) auto

lemma list_add_eq:
  assumes "node \<noteq> p" "node \<noteq> q"
  shows "\<exists>h'. list_add (Some p) (Some q) node h = Some h' \<and> h' node = \<lparr>ln_prev = Some p, ln_next = Some q\<rparr>
    \<and> ln_next (h' p) = Some node \<and> ln_prev (h' q) = Some node
    \<and> (\<forall>n. n \<noteq> p \<and> n \<noteq> node \<longrightarrow> ln_next (h' n) = ln_next (h n))
    \<and> (\<forall>n. n \<noteq> q \<and> n \<noteq> node \<longrightarrow> ln_prev (h' n) = ln_prev (h n))
    \<and> (\<forall>n. n \<notin> {p, q, node} \<longrightarrow> h' n = h n)"
  using assms by (auto simp: list_add_def store_prev_def store_next_def)

lemma dl_insert:
  assumes "dl h l (xs @ ys)" "node \<notin> set (l # xs @ ys)" "p = last (l # xs)" "q = hd (ys @ [l])"
  shows "\<exists>h'. list_add (Some p) (Some q) node h = Some h' \<and> dl h' l (xs @ node # ys) \<and> (\<forall>n. n \<notin> set (node # l # xs @ ys) \<longrightarrow> h' n = h n)"
proof -
  have pq: "p \<in> set (l # xs)" "q \<in> set (ys @ [l])" using assms(3,4) by (cases ys; auto)+
  then have n: "node \<noteq> p" "node \<noteq> q" using assms(2) by auto
  obtain h' where h': "list_add (Some p) (Some q) node h = Some h'" "h' node = \<lparr>ln_prev = Some p, ln_next = Some q\<rparr>"
    "ln_next (h' p) = Some node" "ln_prev (h' q) = Some node"
    "\<forall>n. n \<noteq> p \<and> n \<noteq> node \<longrightarrow> ln_next (h' n) = ln_next (h n)" "\<forall>n. n \<noteq> q \<and> n \<noteq> node \<longrightarrow> ln_prev (h' n) = ln_prev (h n)"
    "\<forall>n. n \<notin> {p, q, node} \<longrightarrow> h' n = h n"
    using list_add_eq [OF n, of h] by blast
  have d: "distinct (l # xs @ ys)" "dpath h l (xs @ ys) l" using assms(1) by (simp_all add: dl_def)
  have "dpath h' l xs node"
  proof (cases xs rule: rev_cases)
    case Nil
    then show ?thesis using h' assms(3) by simp
  next
    case (snoc zs z)
    then have "dpath h l zs z" using d(2) by simp
    then have "dpath h' l zs z"
      by (rule dpath_cong) (use h' assms d(1) snoc n pq in \<open>(cases ys; auto)+\<close>)
    then show ?thesis using snoc h' assms(3) by simp
  qed
  moreover have "dpath h' node ys l"
  proof (cases ys)
    case Nil
    then show ?thesis using h' assms(4) by simp
  next
    case (Cons z zs)
    then have "dpath h z zs l" using d(2) by simp
    then have "dpath h' z zs l"
      by (rule dpath_cong) (use h' assms d(1) Cons n pq in \<open>(cases xs rule: rev_cases; auto)+\<close>)
    then show ?thesis using Cons h' assms(4) by simp
  qed
  ultimately show ?thesis using h'(1,7) pq assms(2) d(1) by (intro exI [of _ h']) (auto simp: dl_def)
qed

lemma dl_remove:
  assumes "dl h l (xs @ node # ys)"
  shows "\<exists>h'. list_remove node h = Some h' \<and> dl h' l (xs @ ys) \<and> (\<forall>n. n \<notin> set (l # xs @ ys) \<longrightarrow> h' n = h n)"
proof -
  define p where "p = last (l # xs)"
  define q where "q = hd (ys @ [l])"
  have d: "distinct (l # xs @ node # ys)" "dpath h l xs node" "dpath h node ys l" using assms by (simp_all add: dl_def)
  have pn: "ln_prev (h node) = Some p" "ln_next (h node) = Some q" using dpath_ends [OF d(2)] dpath_ends [OF d(3)] by (simp_all add: p_def q_def)
  have pq: "p \<in> set (l # xs)" "q \<in> set (ys @ [l])" by (cases ys; auto simp: p_def q_def)+
  then have n: "node \<noteq> p" "node \<noteq> q" using d(1) by auto
  define h' where "h' = (h(p := (h p)\<lparr>ln_next := Some q\<rparr>))(q := ((h(p := (h p)\<lparr>ln_next := Some q\<rparr>)) q)\<lparr>ln_prev := Some p\<rparr>)"
  have r: "list_remove node h = Some h'"
    using pn n by (simp add: list_remove_def store_next_def store_prev_def h'_def)
  have f: "ln_next (h' p) = Some q" "ln_prev (h' q) = Some p" "\<forall>n. n \<noteq> p \<longrightarrow> ln_next (h' n) = ln_next (h n)"
    "\<forall>n. n \<noteq> q \<longrightarrow> ln_prev (h' n) = ln_prev (h n)" "\<forall>n. n \<noteq> p \<and> n \<noteq> q \<longrightarrow> h' n = h n" by (auto simp: h'_def)
  have "dpath h' l (xs @ ys) l"
  proof (cases xs rule: rev_cases)
    case Nil
    then have p: "p = l" by (simp add: p_def)
    show ?thesis
    proof (cases ys)
      case Nil
      then show ?thesis using \<open>xs = []\<close> f(1,2) p by (simp add: q_def)
    next
      case (Cons z zs)
      then have zz: "dpath h z zs l" using d(3) by simp
      have "\<forall>n\<in>set (z # zs). n \<noteq> p" "\<forall>n\<in>set (zs @ [l]). n \<noteq> q" using d(1) Cons p by (auto simp: q_def)
      then have "dpath h' z zs l" using f(3,4) zz by (auto intro!: dpath_cong [OF zz])
      then show ?thesis using Nil Cons f(1,2) p by (simp add: q_def)
    qed
  next
    case (snoc us u)
    then have p: "p = u" by (simp add: p_def)
    have "dpath h l us u" using d(2) snoc by simp
    moreover have "\<forall>n\<in>set (l # us). n \<noteq> p" "\<forall>n\<in>set (us @ [u]). n \<noteq> q" using pq(2) d(1) snoc p by auto
    ultimately have 1: "dpath h' l us u" using f(3,4) by (auto elim!: dpath_cong)
    show ?thesis
    proof (cases ys)
      case Nil
      then show ?thesis using snoc 1 f(1,2) p by (simp add: q_def)
    next
      case (Cons z zs)
      then have zz: "dpath h z zs l" using d(3) by simp
      have "\<forall>n\<in>set (z # zs). n \<noteq> p" "\<forall>n\<in>set (zs @ [l]). n \<noteq> q" using d(1) Cons snoc p by (auto simp: q_def)
      then have "dpath h' z zs l" using f(3,4) zz by (auto intro!: dpath_cong [OF zz])
      then show ?thesis using snoc Cons 1 f(1,2) p by (simp add: q_def)
    qed
  qed
  then show ?thesis using r f(5) pq d(1) by (intro exI [of _ h']) (auto simp: dl_def)
qed

section \<open>Families of lists\<close>

definition listed :: "'n set \<Rightarrow> ('n \<Rightarrow> 'n list) \<Rightarrow> 'n set" where
  "listed H L = H \<union> (\<Union>l\<in>H. set (L l))"

lemma lists_dl: "lists h H L \<Longrightarrow> l \<in> H \<Longrightarrow> dl h l (L l)"
  by (simp add: lists_def)

lemma lists_distinct: "lists h H L \<Longrightarrow> l \<in> H \<Longrightarrow> distinct (L l)"
  by (simp add: lists_def dl_def)

lemma lists_heads: "lists h H L \<Longrightarrow> l \<in> H \<Longrightarrow> k \<in> H \<Longrightarrow> l \<notin> set (L k)"
  unfolding lists_def dl_def by (cases "l = k") fastforce+

lemma lists_unique: "lists h H L \<Longrightarrow> l \<in> H \<Longrightarrow> k \<in> H \<Longrightarrow> n \<in> set (L l) \<Longrightarrow> n \<in> set (L k) \<Longrightarrow> l = k"
  unfolding lists_def by fastforce

lemma lists_change:
  assumes "lists h H L" "l \<in> H" "dl h' l ys" "\<forall>n. n \<notin> set (node # l # L l) \<longrightarrow> h' n = h n"
    and "set ys \<subseteq> insert node (set (L l))" "node \<notin> listed H L \<or> node \<in> set (L l)"
  shows "lists h' H (L(l := ys))"
proof -
  have other: "node \<notin> set (k # L k)" if "k \<in> H" "k \<noteq> l" for k
    using assms(1,2,6) that unfolding listed_def lists_def by auto
  have "dl h' k (L k)" if "k \<in> H" "k \<noteq> l" for k
  proof (rule dl_frame [OF lists_dl [OF assms(1) that(1)]])
    have "set (l # L l) \<inter> set (k # L k) = {}" using assms(1,2) that unfolding lists_def by metis
    then show "\<forall>n\<in>set (k # L k). h' n = h n" using assms(4) other [OF that] by auto
  qed
  moreover have "set (a # (L(l := ys)) a) \<inter> set (b # (L(l := ys)) b) = {}" if ab: "a \<in> H" "b \<in> H" "a \<noteq> b" for a b
  proof -
    have "set (a # L a) \<inter> set (b # L b) = {}" using assms(1) ab unfolding lists_def by metis
    then show ?thesis using assms(5) other [of a] other [of b] ab by (cases "a = l"; cases "b = l") auto
  qed
  ultimately show ?thesis using assms(3) unfolding lists_def by simp
qed

lemma lists_add:
  assumes "lists h H L" "l \<in> H" "L l = xs @ ys" "node \<notin> listed H L" "p = last (l # xs)" "q = hd (ys @ [l])"
  shows "\<exists>h'. list_add (Some p) (Some q) node h = Some h' \<and> lists h' H (L(l := xs @ node # ys))
    \<and> (\<forall>n. n \<notin> set (node # l # L l) \<longrightarrow> h' n = h n)"
proof -
  have "dl h l (xs @ ys)" using lists_dl [OF assms(1,2)] assms(3) by simp
  moreover have "node \<notin> set (l # xs @ ys)" using assms(2,3,4) by (auto simp: listed_def)
  ultimately obtain h' where h': "list_add (Some p) (Some q) node h = Some h'" "dl h' l (xs @ node # ys)"
    "\<forall>n. n \<notin> set (node # l # xs @ ys) \<longrightarrow> h' n = h n" using dl_insert [OF _ _ assms(5,6)] by blast
  have "lists h' H (L(l := xs @ node # ys))"
    by (rule lists_change [OF assms(1,2) h'(2), of node]) (use h'(3) assms(3,4) in auto)
  then show ?thesis using h'(1,3) assms(3) by (intro exI [of _ h']) auto
qed

lemma lists_ends:
  assumes "lists h H L" "l \<in> H"
  shows "ln_next (h l) = Some (hd (L l @ [l]))" "ln_prev (h l) = Some (last (l # L l))"
  using dpath_ends [of h l "L l" l] lists_dl [OF assms] by (auto simp: dl_def)

lemma lists_links:
  assumes "lists h H L" "l \<in> H" "L l = xs @ n # ys"
  shows "ln_next (h n) = Some (hd (ys @ [l]))" "ln_prev (h n) = Some (last (l # xs))"
  using dpath_ends [of h l xs n] dpath_ends [of h n ys l] lists_dl [OF assms(1,2)] assms(3) by (simp_all add: dl_def)

lemma lists_insert_head:
  "lists h H L \<Longrightarrow> l \<in> H \<Longrightarrow> node \<notin> listed H L \<Longrightarrow> \<exists>h'. list_insert_head l node h = Some h' \<and> lists h' H (L(l := node # L l))
    \<and> (\<forall>n. n \<notin> set (node # l # L l) \<longrightarrow> h' n = h n)"
  using lists_add [of h H L l "[]" "L l" node l "hd (L l @ [l])"] lists_ends [of h H L l] by (simp add: list_insert_head_def)

lemma lists_insert_tail:
  "lists h H L \<Longrightarrow> l \<in> H \<Longrightarrow> node \<notin> listed H L \<Longrightarrow> \<exists>h'. list_insert_tail l node h = Some h' \<and> lists h' H (L(l := L l @ [node]))
    \<and> (\<forall>n. n \<notin> set (node # l # L l) \<longrightarrow> h' n = h n)"
  using lists_add [of h H L l "L l" "[]" node "last (l # L l)" l] lists_ends [of h H L l] by (simp add: list_insert_tail_def)

lemma lists_insert_before:
  assumes "lists h H L" "l \<in> H" "L l = xs @ n # ys" "node \<notin> listed H L"
  shows "\<exists>h'. list_insert_before node n h = Some h' \<and> lists h' H (L(l := xs @ node # n # ys))
    \<and> (\<forall>n. n \<notin> set (node # l # L l) \<longrightarrow> h' n = h n)"
  using lists_add [OF assms(1-4) refl refl] lists_links [OF assms(1-3)] by (simp add: list_insert_before_def)

lemma lists_insert_after:
  assumes "lists h H L" "l \<in> H" "L l = xs @ n # ys" "node \<notin> listed H L"
  shows "\<exists>h'. list_insert_after node n h = Some h' \<and> lists h' H (L(l := xs @ n # node # ys))
    \<and> (\<forall>n. n \<notin> set (node # l # L l) \<longrightarrow> h' n = h n)"
  using lists_add [of h H L l "xs @ [n]" ys, OF assms(1,2) _ assms(4) refl refl] assms(3) lists_links [OF assms(1-3)]
  by (simp add: list_insert_after_def)

lemma lists_remove:
  assumes "lists h H L" "l \<in> H" "L l = xs @ node # ys"
  shows "\<exists>h'. list_remove node h = Some h' \<and> lists h' H (L(l := xs @ ys))
    \<and> (\<forall>n. n \<notin> set (l # xs @ ys) \<longrightarrow> h' n = h n)"
proof -
  have dl: "dl h l (xs @ node # ys)" using lists_dl [OF assms(1,2)] assms(3) by simp
  from dl_remove [OF this] obtain h' where h': "list_remove node h = Some h'" "dl h' l (xs @ ys)"
    "\<forall>n. n \<notin> set (l # xs @ ys) \<longrightarrow> h' n = h n" by blast
  have "lists h' H (L(l := xs @ ys))"
    by (rule lists_change [OF assms(1,2) h'(2), of node]) (use h'(3) assms(3) in auto)
  then show ?thesis using h'(1,3) by blast
qed

lemma lists_empty: "lists h H L \<Longrightarrow> l \<in> H \<Longrightarrow> list_empty l h \<longleftrightarrow> L l = []"
  using lists_ends [of h H L l] lists_heads [of h H L l l] by (cases "L l") (auto simp: list_empty_def)

lemma lists_singular: "lists h H L \<Longrightarrow> l \<in> H \<Longrightarrow> list_singular l h \<longleftrightarrow> length (L l) = 1"
proof -
  assume a: "lists h H L" "l \<in> H"
  show ?thesis
  proof (cases "L l")
    case (Cons x xs)
    then have "x = last (x # xs) \<longleftrightarrow> xs = []" using lists_distinct [OF a] by (cases xs rule: rev_cases) auto
    then show ?thesis using lists_ends [OF a] lists_empty [OF a] Cons by (simp add: list_singular_def)
  qed (use lists_empty [OF a] in \<open>simp add: list_singular_def\<close>)
qed

lemma lists_first: "lists h H L \<Longrightarrow> l \<in> H \<Longrightarrow> list_first l h = Some (hd (L l @ [l]))"
  by (simp add: list_first_def lists_ends)

lemma visit_out:
  "dpath h p xs l \<Longrightarrow> l \<notin> set xs \<Longrightarrow> list_visit l (ln_next (h p)) h = Some xs"
proof (induction xs arbitrary: p)
  case Nil
  then show ?case by (subst list_visit.simps) (simp add: list_end_def)
next
  case (Cons x xs)
  then have "x \<noteq> l" by auto
  then show ?case using Cons by (subst list_visit.simps) (simp add: list_end_def list_next_def)
qed

lemma dpath_rev_out:
  "dpath h l xs q \<Longrightarrow> l \<notin> set xs \<Longrightarrow> list_visit_reverse l (ln_prev (h q)) h = Some (rev xs)"
proof (induction xs arbitrary: q rule: rev_induct)
  case Nil
  then show ?case by (subst list_visit_reverse.simps) (simp add: list_end_def)
next
  case (snoc x xs)
  then have "x \<noteq> l" by auto
  then show ?case using snoc by (subst list_visit_reverse.simps) (simp add: list_end_def list_prev_def)
qed

lemma lists_for_each:
  assumes "lists h H L" "l \<in> H"
  shows "list_for_each l h = Some (L l)" "list_for_each_reverse l h = Some (rev (L l))"
  using visit_out [of h l "L l" l] dpath_rev_out [of h l "L l" l] lists_dl [OF assms]
  by (simp_all add: list_for_each_def list_for_each_reverse_def list_first_def list_last_def dl_def)

section \<open>Calls and what they do to the sequences\<close>

datatype 'n list_call =
  Insert_head 'n 'n | Insert_tail 'n 'n | Insert_before 'n 'n | Insert_after 'n 'n | Remove 'n

fun list_exec :: "'n list_call \<Rightarrow> 'n links \<Rightarrow> 'n links option" where
  "list_exec (Insert_head l n) h = list_insert_head l n h"
| "list_exec (Insert_tail l n) h = list_insert_tail l n h"
| "list_exec (Insert_before n m) h = list_insert_before n m h"
| "list_exec (Insert_after n m) h = list_insert_after n m h"
| "list_exec (Remove n) h = list_remove n h"

text \<open>The effect on the sequences; \<open>None\<close> for a call the interface does not allow.\<close>

inductive list_effect :: "'n set \<Rightarrow> 'n list_call \<Rightarrow> ('n \<Rightarrow> 'n list) \<Rightarrow> ('n \<Rightarrow> 'n list) \<Rightarrow> bool" for H :: "'n set" where
  "l \<in> H \<Longrightarrow> n \<notin> listed H L \<Longrightarrow> list_effect H (Insert_head l n) L (L(l := n # L l))"
| "l \<in> H \<Longrightarrow> n \<notin> listed H L \<Longrightarrow> list_effect H (Insert_tail l n) L (L(l := L l @ [n]))"
| "l \<in> H \<Longrightarrow> n \<notin> listed H L \<Longrightarrow> L l = xs @ m # ys \<Longrightarrow> list_effect H (Insert_before n m) L (L(l := xs @ n # m # ys))"
| "l \<in> H \<Longrightarrow> n \<notin> listed H L \<Longrightarrow> L l = xs @ m # ys \<Longrightarrow> list_effect H (Insert_after n m) L (L(l := xs @ m # n # ys))"
| "l \<in> H \<Longrightarrow> L l = xs @ n # ys \<Longrightarrow> list_effect H (Remove n) L (L(l := xs @ ys))"

inductive list_effects :: "'n set \<Rightarrow> 'n list_call list \<Rightarrow> ('n \<Rightarrow> 'n list) \<Rightarrow> ('n \<Rightarrow> 'n list) \<Rightarrow> bool" for H :: "'n set" where
  "list_effects H [] L L"
| "list_effect H c L L1 \<Longrightarrow> list_effects H cs L1 L2 \<Longrightarrow> list_effects H (c # cs) L L2"

fun list_run :: "'n list_call list \<Rightarrow> 'n links \<Rightarrow> 'n links option" where
  "list_run [] h = Some h"
| "list_run (c # cs) h = do { h \<leftarrow> list_exec c h; list_run cs h }"

lemma effect_out: "list_effect H c L L' \<Longrightarrow> lists h H L \<Longrightarrow> \<exists>h'. list_exec c h = Some h' \<and> lists h' H L'"
  by (induction rule: list_effect.induct)
    (auto dest: lists_insert_head lists_insert_tail lists_insert_before lists_insert_after lists_remove)

lemma effects_out: "list_effects H cs L L' \<Longrightarrow> lists h H L \<Longrightarrow> \<exists>h'. list_run cs h = Some h' \<and> lists h' H L'"
proof (induction arbitrary: h rule: list_effects.induct)
  case (2 c L L1 cs L2)
  then show ?case using effect_out [OF 2(1,4)] by auto
qed auto

section \<open>Moving the nodes of a list\<close>

text \<open>The nodes of a list take the end nodes \<open>l'\<close>.\<close>

lemma dl_rehead:
  assumes "dl h l xs" "xs \<noteq> []" "l' \<notin> set xs"
    "ln_next (h' l') = ln_next (h l)" "ln_prev (h' l') = ln_prev (h l)"
    "ln_prev (h' (hd xs)) = Some l'" "ln_next (h' (last xs)) = Some l'"
    "\<forall>n\<in>set xs. n \<noteq> last xs \<longrightarrow> ln_next (h' n) = ln_next (h n)" "\<forall>n\<in>set xs. n \<noteq> hd xs \<longrightarrow> ln_prev (h' n) = ln_prev (h n)"
  shows "dl h' l' xs"
proof -
  obtain x ys where xs: "xs = x # ys" using assms(2) by (cases xs) auto
  have d: "distinct (l # xs)" "dpath h l xs l" using assms(1) by (simp_all add: dl_def)
  have "dpath h' l' xs l'"
  proof (cases ys rule: rev_cases)
    case Nil
    then show ?thesis using xs d assms(4-7) by simp
  next
    case (snoc zs z)
    have "dpath h x zs z" using d(2) xs snoc by simp
    moreover have "\<forall>n\<in>set (x # zs). ln_next (h' n) = ln_next (h n)" using assms(8) d(1) xs snoc by auto
    moreover have "\<forall>n\<in>set (zs @ [z]). ln_prev (h' n) = ln_prev (h n)" using assms(9) d(1) xs snoc by auto
    ultimately have "dpath h' x zs z" by (rule dpath_cong)
    then show ?thesis using xs snoc d assms(4-7) by simp
  qed
  then show ?thesis using d(1) assms(3) by (simp add: dl_def)
qed

lemma list_set_head_out:
  assumes "dl h old xs" "new \<notin> set (old # xs)"
  shows "\<exists>h'. list_set_head new old h = Some h' \<and> dl h' new xs \<and> (\<forall>n. n \<notin> set (new # xs) \<longrightarrow> h' n = h n)"
proof (cases "xs = []")
  case True
  then show ?thesis using assms by (auto simp: list_set_head_def list_empty_def list_init_def dl_def)
next
  case False
  have e: "ln_next (h old) = Some (hd xs)" "ln_prev (h old) = Some (last xs)" and d: "distinct (old # xs)"
    using dpath_ends [of h old xs old] assms(1) False by (simp_all add: dl_def)
  have hl: "hd xs \<in> set xs" "last xs \<in> set xs" using False by simp_all
  then have ne: "hd xs \<noteq> old" "hd xs \<noteq> new" "last xs \<noteq> new" using d assms(2) by auto
  define h1 where "h1 = h(new := h old)"
  define h2 where "h2 = h1(hd xs := (h1 (hd xs))\<lparr>ln_prev := Some new\<rparr>)"
  define h3 where "h3 = h2(last xs := (h2 (last xs))\<lparr>ln_next := Some new\<rparr>)"
  have "\<not> list_empty old h" using e ne by (simp add: list_empty_def)
  then have "list_set_head new old h = Some h3"
    using e ne by (simp add: list_set_head_def store_prev_def store_next_def h1_def h2_def h3_def)
  moreover have "dl h3 new xs"
    by (rule dl_rehead [OF assms(1) False]) (use assms(2) ne d hl in \<open>auto simp: h3_def h2_def h1_def\<close>)
  moreover have "\<forall>n. n \<notin> set (new # xs) \<longrightarrow> h3 n = h n" using hl by (auto simp: h3_def h2_def h1_def)
  ultimately show ?thesis by blast
qed

lemma list_concat_out:
  assumes "dl h l1 xs" "dl h l2 ys" "set (l1 # xs) \<inter> set (l2 # ys) = {}"
  shows "\<exists>h'. list_concat l1 l2 h = Some h' \<and> dl h' l1 (xs @ ys) \<and> (\<forall>n. n \<notin> set (l1 # xs @ ys) \<longrightarrow> h' n = h n)"
proof (cases "ys = []")
  case True
  then show ?thesis using assms by (auto simp: list_concat_def list_empty_def dl_def)
next
  case False
  have d: "distinct (l1 # xs)" "dpath h l1 xs l1" "distinct (l2 # ys)" "dpath h l2 ys l2" using assms(1,2) by (simp_all add: dl_def)
  define p where "p = last (l1 # xs)"
  have e: "ln_prev (h l1) = Some p" "ln_next (h l2) = Some (hd ys)" "ln_prev (h l2) = Some (last ys)"
    using dpath_ends [OF d(2)] dpath_ends [OF d(4)] False by (simp_all add: p_def)
  have hl: "hd ys \<in> set ys" "last ys \<in> set ys" "p \<in> set (l1 # xs)" using False by (simp_all add: p_def)
  then have ne: "hd ys \<noteq> l2" "hd ys \<noteq> l1" "last ys \<noteq> l1" "p \<noteq> hd ys" "p \<noteq> last ys" "p \<noteq> l2" "last ys \<noteq> l2" using d(3) assms(3) by auto
  define h1 where "h1 = h(p := (h p)\<lparr>ln_next := Some (hd ys)\<rparr>)"
  define h2 where "h2 = h1(hd ys := (h1 (hd ys))\<lparr>ln_prev := Some p\<rparr>)"
  define h3 where "h3 = h2(last ys := (h2 (last ys))\<lparr>ln_next := Some l1\<rparr>)"
  define h4 where "h4 = h3(l1 := (h3 l1)\<lparr>ln_prev := Some (last ys)\<rparr>)"
  have "\<not> list_empty l2 h" using e ne by (simp add: list_empty_def)
  then have r: "list_concat l1 l2 h = Some h4"
    using e ne by (simp add: list_concat_def store_prev_def store_next_def h1_def h2_def h3_def h4_def Let_def)
  have f: "ln_next (h4 p) = Some (hd ys)" "ln_prev (h4 (hd ys)) = Some p" "ln_next (h4 (last ys)) = Some l1" "ln_prev (h4 l1) = Some (last ys)"
    "\<forall>n. n \<noteq> p \<longrightarrow> n \<noteq> last ys \<longrightarrow> ln_next (h4 n) = ln_next (h n)" "\<forall>n. n \<noteq> hd ys \<longrightarrow> n \<noteq> l1 \<longrightarrow> ln_prev (h4 n) = ln_prev (h n)"
    "\<forall>n. n \<notin> {p, hd ys, last ys, l1} \<longrightarrow> h4 n = h n"
    using ne by (auto simp: h4_def h3_def h2_def h1_def)
  obtain y zs where ys: "ys = y # zs" using False by (cases ys) auto
  have 1: "dpath h4 l1 xs y"
  proof (cases xs rule: rev_cases)
    case Nil
    then show ?thesis using f(1,2) ys by (simp add: p_def)
  next
    case (snoc us u)
    have u: "p = u" "hd ys = y" using snoc ys by (simp_all add: p_def)
    have "dpath h l1 us u" using d(2) snoc by simp
    moreover have "\<forall>n\<in>set (l1 # us). n \<noteq> p \<and> n \<noteq> last ys" using d(1) snoc assms(3) hl(2) u by auto
    moreover have "\<forall>n\<in>set (us @ [u]). n \<noteq> y \<and> n \<noteq> l1" using d(1) snoc assms(3) ys by auto
    ultimately have "dpath h4 l1 us u" using f(5,6) u(2) by (auto elim!: dpath_cong)
    then show ?thesis using snoc f(1,2) u by simp
  qed
  have 2: "dpath h4 y zs l1"
  proof (cases zs rule: rev_cases)
    case Nil
    then show ?thesis using f(3,4) ys by simp
  next
    case (snoc us u)
    have u: "last ys = u" "hd ys = y" using snoc ys by simp_all
    have "dpath h y us u" using d(4) ys snoc by simp
    moreover have "\<forall>n\<in>set (y # us). n \<noteq> p \<and> n \<noteq> last ys" using d(3) snoc assms(3) hl(3) ys u by auto
    moreover have "\<forall>n\<in>set (us @ [u]). n \<noteq> y \<and> n \<noteq> l1" using d(3) snoc assms(3) ys by auto
    ultimately have "dpath h4 y us u" using f(5,6) u(2) by (auto elim!: dpath_cong)
    then show ?thesis using snoc f(3,4) u by simp
  qed
  have "dl h4 l1 (xs @ ys)" using 1 2 ys d(1,3) assms(3) by (auto simp: dl_def)
  then show ?thesis using r f(7) hl by (intro exI [of _ h4]) auto
qed

lemma list_split_out:
  assumes "dl h l2 (xs @ node # ys)" "xs \<noteq> []" "l1 \<notin> set (l2 # xs @ node # ys)"
  shows "\<exists>h'. list_split l1 l2 node h = Some h' \<and> dl h' l1 xs \<and> dl h' l2 (node # ys)
    \<and> (\<forall>n. n \<notin> set (l1 # l2 # xs @ node # ys) \<longrightarrow> h' n = h n)"
proof -
  have d: "distinct (l2 # xs @ node # ys)" "dpath h l2 xs node" "dpath h node ys l2" using assms(1) by (simp_all add: dl_def)
  have e: "ln_next (h l2) = Some (hd xs)" "ln_prev (h node) = Some (last xs)"
    using dpath_ends [OF d(2)] assms(2) by simp_all
  have hl: "hd xs \<in> set xs" "last xs \<in> set xs" using assms(2) by simp_all
  then have ne: "hd xs \<noteq> l2" "hd xs \<noteq> l1" "last xs \<noteq> l1" "last xs \<noteq> l2" "hd xs \<noteq> node" "last xs \<noteq> node" "node \<noteq> l1" "node \<noteq> l2" "l1 \<noteq> l2"
    using d(1) assms(3) by auto
  define h1 where "h1 = h(l1 := (h l1)\<lparr>ln_next := Some (hd xs)\<rparr>)"
  define h2 where "h2 = h1(hd xs := (h1 (hd xs))\<lparr>ln_prev := Some l1\<rparr>)"
  define h3 where "h3 = h2(l1 := (h2 l1)\<lparr>ln_prev := Some (last xs)\<rparr>)"
  define h4 where "h4 = h3(last xs := (h3 (last xs))\<lparr>ln_next := Some l1\<rparr>)"
  define h5 where "h5 = h4(l2 := (h4 l2)\<lparr>ln_next := Some node\<rparr>)"
  define h6 where "h6 = h5(node := (h5 node)\<lparr>ln_prev := Some l2\<rparr>)"
  have r: "list_split l1 l2 node h = Some h6"
    using e ne by (simp add: list_split_def list_empty_def list_end_def store_prev_def store_next_def h1_def h2_def h3_def h4_def h5_def h6_def)
  have f: "ln_next (h6 l1) = Some (hd xs)" "ln_prev (h6 (hd xs)) = Some l1" "ln_prev (h6 l1) = Some (last xs)" "ln_next (h6 (last xs)) = Some l1"
    "ln_next (h6 l2) = Some node" "ln_prev (h6 node) = Some l2"
    "\<forall>n. n \<notin> {l1, last xs, l2} \<longrightarrow> ln_next (h6 n) = ln_next (h n)" "\<forall>n. n \<notin> {l1, hd xs, node} \<longrightarrow> ln_prev (h6 n) = ln_prev (h n)"
    "\<forall>n. n \<notin> {l1, l2, node, hd xs, last xs} \<longrightarrow> h6 n = h n"
    using ne by (auto simp: h6_def h5_def h4_def h3_def h2_def h1_def)
  have "dpath h6 l1 xs l1"
  proof -
    obtain x us where xs: "xs = x # us" using assms(2) by (cases xs) auto
    show ?thesis
    proof (cases us rule: rev_cases)
      case Nil
      then show ?thesis using xs f by simp
    next
      case (snoc zs z)
      have "dpath h x zs z" using d(2) xs snoc by simp
      moreover have "\<forall>n\<in>set (x # zs). ln_next (h6 n) = ln_next (h n)" using f(7) d(1) assms(3) xs snoc by auto
      moreover have "\<forall>n\<in>set (zs @ [z]). ln_prev (h6 n) = ln_prev (h n)" using f(8) d(1) assms(3) xs snoc by auto
      ultimately have "dpath h6 x zs z" by (rule dpath_cong)
      then show ?thesis using xs snoc f by simp
    qed
  qed
  moreover have "dpath h6 l2 (node # ys) l2"
  proof -
    have "\<forall>n\<in>set (node # ys). ln_next (h6 n) = ln_next (h n)" using f(7) d(1) assms(3) hl by auto
    moreover have "\<forall>n\<in>set (ys @ [l2]). ln_prev (h6 n) = ln_prev (h n)" using f(8) d(1) assms(3) hl by auto
    ultimately have "dpath h6 node ys l2" by (rule dpath_cong [OF d(3)])
    then show ?thesis using f by simp
  qed
  ultimately have "dl h6 l1 xs" "dl h6 l2 (node # ys)" using d(1) assms(3) by (auto simp: dl_def)
  then show ?thesis using r f(9) hl by (intro exI [of _ h6]) auto
qed

section \<open>Lockless readers\<close>

text \<open>A forward reader needs only the next pointers.\<close>

fun npath :: "'n links \<Rightarrow> 'n \<Rightarrow> 'n list \<Rightarrow> 'n \<Rightarrow> bool" where
  "npath h p [] q \<longleftrightarrow> ln_next (h p) = Some q"
| "npath h p (x # xs) q \<longleftrightarrow> ln_next (h p) = Some x \<and> npath h x xs q"

lemma npath_append [simp]: "npath h p (xs @ y # ys) q \<longleftrightarrow> npath h p xs y \<and> npath h y ys q"
  by (induction xs arbitrary: p) auto

lemma dpath_npath: "dpath h p xs q \<Longrightarrow> npath h p xs q"
  by (induction xs arbitrary: p) auto

lemma npath_cong: "npath h p xs q \<Longrightarrow> \<forall>n\<in>set (p # xs). ln_next (h' n) = ln_next (h n) \<Longrightarrow> npath h' p xs q"
  by (induction xs arbitrary: p) auto

lemma npath_visit: "npath h p xs l \<Longrightarrow> l \<notin> set xs \<Longrightarrow> list_visit l (ln_next (h p)) h = Some xs"
proof (induction xs arbitrary: p)
  case Nil
  then show ?case by (subst list_visit.simps) (simp add: list_end_def)
next
  case (Cons x xs)
  then have "x \<noteq> l" by auto
  then show ?case using Cons by (subst list_visit.simps) (simp add: list_end_def list_next_def)
qed

text \<open>What is left of the list for a reader that has reached a node.\<close>

definition readers_see :: "'n links \<Rightarrow> 'n \<Rightarrow> 'n list \<Rightarrow> bool" where
  "readers_see h l zs \<longleftrightarrow> (\<forall>us m vs. l # zs = us @ m # vs \<longrightarrow> list_visit l (ln_next (h m)) h = Some vs)"

lemma npath_readers: "npath h l zs l \<Longrightarrow> l \<notin> set zs \<Longrightarrow> readers_see h l zs"
  unfolding readers_see_def
proof (intro allI impI)
  fix us m vs
  assume a: "npath h l zs l" "l \<notin> set zs" "l # zs = us @ m # vs"
  then have "npath h m vs l" "l \<notin> set vs" by (cases us; auto)+
  then show "list_visit l (ln_next (h m)) h = Some vs" by (rule npath_visit)
qed

lemma npath_insert:
  assumes "npath h l (xs @ ys) l" "distinct (l # xs @ ys)" "node \<notin> set (l # xs @ ys)"
    "ln_next (h' (last (l # xs))) = Some node" "ln_next (h' node) = Some (hd (ys @ [l]))"
    "\<forall>n. n \<noteq> last (l # xs) \<longrightarrow> n \<noteq> node \<longrightarrow> ln_next (h' n) = ln_next (h n)"
  shows "npath h' l (xs @ node # ys) l"
proof -
  have "npath h' l xs node"
  proof (cases xs rule: rev_cases)
    case Nil
    then show ?thesis using assms(4) by simp
  next
    case (snoc us u)
    then have "npath h l us u" using assms(1) by simp
    moreover have "\<forall>n\<in>set (l # us). n \<noteq> last (l # xs) \<and> n \<noteq> node" using assms(2,3) snoc by auto
    ultimately have "npath h' l us u" using assms(6) by (auto elim!: npath_cong)
    then show ?thesis using snoc assms(4) by simp
  qed
  moreover have "npath h' node ys l"
  proof (cases ys)
    case Nil
    then show ?thesis using assms(5) by simp
  next
    case (Cons z zs)
    then have "npath h z zs l" using assms(1) by simp
    moreover have "\<forall>n\<in>set (z # zs). n \<noteq> last (l # xs) \<and> n \<noteq> node"
      using assms(2,3) Cons by (cases xs rule: rev_cases) auto
    ultimately have "npath h' z zs l" using assms(6) by (auto elim!: npath_cong)
    then show ?thesis using Cons assms(5) by simp
  qed
  ultimately show ?thesis by simp
qed

lemma npath_delete:
  assumes "npath h l (xs @ node # ys) l" "distinct (l # xs @ node # ys)"
    "ln_next (h' (last (l # xs))) = ln_next (h node)" "\<forall>n. n \<noteq> last (l # xs) \<longrightarrow> ln_next (h' n) = ln_next (h n)"
  shows "npath h' l (xs @ ys) l" "npath h' node ys l"
proof -
  have n: "npath h node ys l" using assms(1) by simp
  have "\<forall>n\<in>set (node # ys). n \<noteq> last (l # xs)" using assms(2) by (cases xs rule: rev_cases) auto
  then show y: "npath h' node ys l" using assms(4) by (auto intro!: npath_cong [OF n])
  have nx: "ln_next (h' (last (l # xs))) = ln_next (h' node)"
    using assms(3,4) \<open>\<forall>n\<in>set (node # ys). n \<noteq> last (l # xs)\<close> by simp
  then have after: "npath h' (last (l # xs)) ys l" using y by (cases ys) simp_all
  show "npath h' l (xs @ ys) l"
  proof (cases xs rule: rev_cases)
    case Nil
    then show ?thesis using after by simp
  next
    case (snoc us u)
    then have "npath h l us u" using assms(1) by simp
    moreover have "\<forall>n\<in>set (l # us). n \<noteq> last (l # xs)" using assms(2) snoc by auto
    ultimately have "npath h' l us u" using assms(4) by (auto elim!: npath_cong)
    then show ?thesis using snoc after by simp
  qed
qed

lemma rcu_add_readers:
  assumes "dl h l (xs @ ys)" "node \<notin> set (l # xs @ ys)"
    and "run_stores (take k (list_rcu_add_stores (Some (last (l # xs))) (Some (hd (ys @ [l]))) node)) h = Some h'"
  shows "readers_see h' l (if k < 3 then xs @ ys else xs @ node # ys)"
proof -
  define p where "p = last (l # xs)"
  define q where "q = hd (ys @ [l])"
  have pq: "p \<in> set (l # xs)" "q \<in> set (ys @ [l])" by (cases ys; auto simp: p_def q_def)+
  have ne: "p \<noteq> node" "q \<noteq> node" using pq assms(2) by auto
  have d: "distinct (l # xs @ ys)" "npath h l (xs @ ys) l" using assms(1) dpath_npath by (auto simp: dl_def simp del: npath_append dpath_append)
  note st = assms(3) [folded p_def q_def]
  have "k = 0 \<or> k = 1 \<or> k = 2 \<or> k = 3 \<or> (\<exists>j. k = 4 + j)" by presburger
  then have f: "\<forall>n. n \<noteq> p \<longrightarrow> n \<noteq> node \<longrightarrow> ln_next (h' n) = ln_next (h n)"
    "k < 3 \<Longrightarrow> ln_next (h' p) = ln_next (h p)" "3 \<le> k \<Longrightarrow> ln_next (h' p) = Some node \<and> ln_next (h' node) = Some q"
    using st ne by (auto simp: list_rcu_add_stores_def store_next_def store_prev_def numeral_2_eq_2 numeral_3_eq_3 numeral_eq_Suc)
  show ?thesis
  proof (cases "k < 3")
    case True
    then have "\<forall>n\<in>set (l # xs @ ys). ln_next (h' n) = ln_next (h n)" using f(1,2) assms(2) by metis
    then have "npath h' l (xs @ ys) l" using npath_cong [OF d(2)] by blast
    then show ?thesis using True d(1) npath_readers [of h' l "xs @ ys"] by simp
  next
    case False
    have "npath h' l (xs @ node # ys) l"
      by (rule npath_insert [OF d(2,1) assms(2)]) (use f False in \<open>auto simp: p_def q_def\<close>)
    then show ?thesis using False d(1) assms(2) npath_readers [of h' l "xs @ node # ys"] by auto
  qed
qed

lemma rcu_remove_readers:
  assumes "dl h l (xs @ node # ys)"
    and "run_stores (take k (list_rcu_remove_stores (ln_prev (h node)) (ln_next (h node)))) h = Some h'"
  shows "readers_see h' l (if k < 2 then xs @ node # ys else xs @ ys) \<and> list_visit l (ln_next (h' node)) h' = Some ys"
proof -
  define p where "p = last (l # xs)"
  define q where "q = hd (ys @ [l])"
  have d: "distinct (l # xs @ node # ys)" "npath h l (xs @ node # ys) l" "dpath h l xs node" "dpath h node ys l"
    using assms(1) dpath_npath [of h l "xs @ node # ys" l] by (auto simp: dl_def)
  have e: "ln_prev (h node) = Some p" "ln_next (h node) = Some q"
    using dpath_ends [OF d(3)] dpath_ends [OF d(4)] by (simp_all add: p_def q_def)
  have "k = 0 \<or> k = 1 \<or> (\<exists>j. k = 2 + j)" by presburger
  then have f: "\<forall>n. n \<noteq> p \<longrightarrow> ln_next (h' n) = ln_next (h n)" "k < 2 \<Longrightarrow> ln_next (h' p) = ln_next (h p)"
    "2 \<le> k \<Longrightarrow> ln_next (h' p) = Some q"
    using assms(2) e by (auto simp: list_rcu_remove_stores_def store_next_def store_prev_def numeral_2_eq_2 numeral_eq_Suc)
  show ?thesis
  proof (cases "k < 2")
    case True
    then have "\<forall>n. ln_next (h' n) = ln_next (h n)" using f(1,2) by metis
    then have np: "npath h' l (xs @ node # ys) l" using npath_cong [OF d(2)] by blast
    then have "npath h' node ys l" by simp
    then show ?thesis using True d(1) np npath_readers [of h' l "xs @ node # ys"] npath_visit [of h' node ys l] by auto
  next
    case False
    then have n: "npath h' l (xs @ ys) l" "npath h' node ys l"
      using npath_delete [OF d(2,1), of h'] f e by (simp_all add: p_def)
    then show ?thesis using False d(1) npath_readers [of h' l "xs @ ys"] npath_visit [of h' node ys l] by auto
  qed
qed

lemma rcu_add_same:
  assumes "node \<noteq> p" "node \<noteq> q"
  shows "list_rcu_add (Some p) (Some q) node h = list_add (Some p) (Some q) node h"
  using assms by (auto simp: list_rcu_add_def list_rcu_add_stores_def list_add_def store_next_def store_prev_def fun_eq_iff)

section \<open>Properties\<close>

text \<open>
  C25: Any sequence of insertions and removals on any number of lists changes the pointers exactly as it
  changes the sequences: afterwards both directions of every list visit the nodes of its sequence, and the
  tests for an empty list and for a single node answer for the sequence.
\<close>
theorem klist_calls_refine:
  assumes "list_effects H cs L L'" "lists h H L"
  shows "\<exists>h'. list_run cs h = Some h' \<and> lists h' H L' \<and> (\<forall>l\<in>H. list_for_each l h' = Some (L' l)
    \<and> list_for_each_reverse l h' = Some (rev (L' l)) \<and> list_empty l h' = (L' l = []) \<and> list_singular l h' = (length (L' l) = 1))"
proof -
  obtain h' where h': "list_run cs h = Some h'" "lists h' H L'" using effects_out [OF assms] by blast
  then show ?thesis
    by (intro exI [of _ h'] conjI ballI) (simp_all only: lists_for_each [OF h'(2)] lists_empty [OF h'(2)] lists_singular [OF h'(2)])
qed

theorem klist_calls_refine_witness:
  "\<exists>h'. list_run [Insert_head 0 5, Insert_tail 0 7, Insert_before 6 7, Remove (5::nat)] (list_init 0 (\<lambda>_. undefined)) = Some h'
    \<and> list_for_each 0 h' = Some [6, 7] \<and> list_for_each_reverse 0 h' = Some [7, 6]"
proof -
  define L :: "nat \<Rightarrow> nat list" where "L = (\<lambda>_. [])"
  have e: "list_effect {0} (Insert_head 0 5) L (L(0 := [5]))" "list_effect {0} (Insert_tail 0 7) (L(0 := [5])) (L(0 := [5, 7]))"
    "list_effect {0} (Insert_before 6 7) (L(0 := [5, 7])) (L(0 := [5, 6, 7]))" "list_effect {0} (Remove 5) (L(0 := [5, 6, 7])) (L(0 := [6, 7]))"
    using list_effect.intros(1) [of 0 "{0}" 5 L] list_effect.intros(2) [of 0 "{0}" 7 "L(0 := [5])"]
      list_effect.intros(3) [of 0 "{0}" 6 "L(0 := [5, 7])" "[5]" 7 "[]"]
      list_effect.intros(5) [of 0 "{0}" "L(0 := [5, 6, 7])" "[]" 5 "[6, 7]"]
    by (simp_all add: listed_def L_def)
  have "list_effects {0} [Insert_head 0 5, Insert_tail 0 7, Insert_before 6 7, Remove 5] L (L(0 := [6, 7]))"
    by (rule list_effects.intros(2) [OF e(1) list_effects.intros(2) [OF e(2) list_effects.intros(2) [OF e(3) list_effects.intros(2) [OF e(4) list_effects.intros(1)]]]])
  moreover have "lists (list_init 0 (\<lambda>_. undefined)) {0} L" by (simp add: lists_def dl_def L_def list_init_def)
  ultimately show ?thesis using klist_calls_refine [of "{0}" _ L "L(0 := [6, 7])"] by fastforce
qed

text \<open>What a bulk operation on the nodes \<open>X\<close> leaves alone: every other node, so every list with none of these.\<close>

definition others_kept :: "'n set \<Rightarrow> 'n links \<Rightarrow> 'n links \<Rightarrow> bool" where
  "others_kept X h h' \<longleftrightarrow> (\<forall>l ws. dl h l ws \<and> set (l # ws) \<inter> X = {} \<longrightarrow> dl h' l ws)"

lemma others_keptI: "\<forall>n. n \<notin> X \<longrightarrow> h' n = h n \<Longrightarrow> others_kept X h h'"
  unfolding others_kept_def by (intro allI impI, elim conjE, rule dl_frame) auto

text \<open>The nodes a split moves: those before the given node, none when it is the head of the list.\<close>

definition before_node :: "'n \<Rightarrow> 'n \<Rightarrow> 'n list \<Rightarrow> 'n list" where
  "before_node l n ms = (if n = l then [] else takeWhile (\<lambda>m. m \<noteq> n) ms)"

lemma list_split_any:
  assumes "dl h l2 ms" "l3 \<notin> set (l2 # ms)" "ms = [] \<or> n \<in> set (l2 # ms)"
  shows "\<exists>h'. list_split l3 l2 n h = Some h' \<and> dl h' l3 (before_node l2 n ms) \<and> dl h' l2 (drop (length (before_node l2 n ms)) ms)
    \<and> (\<forall>m. m \<notin> set (l3 # l2 # ms) \<longrightarrow> h' m = h m)"
proof (cases "before_node l2 n ms = []")
  case True
  have first: "ms \<noteq> [] \<Longrightarrow> n \<noteq> l2 \<Longrightarrow> n = hd ms" using True by (cases ms) (auto simp: before_node_def split: if_splits)
  have "ms \<noteq> [] \<Longrightarrow> ln_next (h l2) = Some (hd ms)" using dpath_ends [of h l2 ms l2] assms(1) by (simp add: dl_def)
  moreover have "ms = [] \<Longrightarrow> list_empty l2 h" using assms(1) by (simp add: list_empty_def dl_def)
  ultimately have "list_split l3 l2 n h = Some (list_init l3 h)"
    using first by (cases "ms = []"; cases "n = l2") (simp_all add: list_split_def list_end_def)
  moreover have "dl (list_init l3 h) l3 []" by (simp add: dl_def list_init_def)
  moreover have "dl (list_init l3 h) l2 ms" by (rule dl_frame [OF assms(1)]) (use assms(2) in \<open>auto simp: list_init_def\<close>)
  ultimately show ?thesis using True by (intro exI [of _ "list_init l3 h"]) (simp add: list_init_def)
next
  case False
  then have n: "n \<noteq> l2" "n \<in> set ms" using assms(3) by (auto simp: before_node_def split: if_splits)
  define xs zs where "xs = before_node l2 n ms" and "zs = tl (dropWhile (\<lambda>m. m \<noteq> n) ms)"
  have "dropWhile (\<lambda>m. m \<noteq> n) ms = n # zs"
    using n(2) hd_dropWhile [of "\<lambda>m. m \<noteq> n" ms] by (cases "dropWhile (\<lambda>m. m \<noteq> n) ms") (auto simp: zs_def dropWhile_eq_Nil_conv)
  then have ms: "ms = xs @ n # zs" using n(1) takeWhile_dropWhile_id [of "\<lambda>m. m \<noteq> n" ms] by (simp add: xs_def before_node_def)
  from list_split_out [OF assms(1) [unfolded ms] _ assms(2) [unfolded ms]] False show ?thesis
    unfolding xs_def [symmetric] by (simp add: ms)
qed

text \<open>
  C27: The bulk operations move sequences, whatever the lists hold. A concatenation appends the nodes of the second list to the first; a split
  moves the nodes before the given one to the other head, none when the list is empty or the node is its first one or its head; a new head takes
  all the nodes of the old one. Each of them leaves every list that shares no node with these alone.
\<close>
theorem klist_bulk_moves:
  assumes "dl h l1 xs" "dl h l2 ms" "set (l1 # xs) \<inter> set (l2 # ms) = {}" "ms = [] \<or> n \<in> set (l2 # ms)" "l3 \<notin> set (l2 # ms)"
  shows "(\<exists>h'. list_concat l1 l2 h = Some h' \<and> dl h' l1 (xs @ ms) \<and> others_kept (set (l1 # xs @ ms)) h h')
    \<and> (let ys = before_node l2 n ms in \<exists>h'. list_split l3 l2 n h = Some h' \<and> dl h' l3 ys \<and> dl h' l2 (drop (length ys) ms) \<and> others_kept (set (l3 # l2 # ms)) h h')
    \<and> (\<exists>h'. list_set_head l3 l2 h = Some h' \<and> dl h' l3 ms \<and> others_kept (set (l3 # ms)) h h')"
  unfolding Let_def
  using list_concat_out [OF assms(1-3)] list_split_any [OF assms(2,5,4)] list_set_head_out [OF assms(2,5)] others_keptI by blast

theorem klist_bulk_moves_witness:
  "\<exists>h. dl h (0::nat) [5] \<and> dl h 1 [6, 7] \<and> (\<exists>h'. list_concat 0 1 h = Some h' \<and> dl h' 0 [5, 6, 7])
    \<and> (\<exists>h'. list_split 2 1 7 h = Some h' \<and> dl h' 2 [6] \<and> dl h' 1 [7] \<and> dl h' 0 [5]) \<and> (\<exists>h'. list_set_head 2 1 h = Some h' \<and> dl h' 2 [6, 7])"
proof -
  define h :: "nat links" where "h = (\<lambda>_. undefined)(0 := \<lparr>ln_prev = Some 5, ln_next = Some 5\<rparr>, 5 := \<lparr>ln_prev = Some 0, ln_next = Some 0\<rparr>,
    1 := \<lparr>ln_prev = Some 7, ln_next = Some 6\<rparr>, 6 := \<lparr>ln_prev = Some 1, ln_next = Some 7\<rparr>, 7 := \<lparr>ln_prev = Some 6, ln_next = Some 1\<rparr>)"
  have d: "dl h 0 [5]" "dl h 1 [6, 7]" by (simp_all add: dl_def h_def)
  have "before_node 1 7 [6, 7::nat] = [6]" by (simp add: before_node_def)
  moreover have "dl h' 0 [5]" if "others_kept {2, 1, 6, 7} h h'" for h' using that d(1) by (simp add: others_kept_def)
  ultimately show ?thesis using klist_bulk_moves [OF d, of 7 2] d by (intro exI [of _ h]) (auto simp: Let_def)
qed

text \<open>
  C26: Lockless readers are safe: after any number of the stores of a lockless insertion or removal, a
  reader at any node of the list goes on to the nodes that follow it in the list before or after the
  operation, and a reader at the removed node goes on to the nodes that followed it.
\<close>
theorem klist_rcu_readers:
  assumes "dl h l (xs @ ys)" "node \<notin> set (l # xs @ ys)" "dl h2 l (xs @ node # ys)"
  shows "(\<forall>h'. run_stores (take k (list_rcu_add_stores (Some (last (l # xs))) (Some (hd (ys @ [l]))) node)) h = Some h'
      \<longrightarrow> readers_see h' l (xs @ ys) \<or> readers_see h' l (xs @ node # ys))
    \<and> (\<forall>h'. run_stores (take k (list_rcu_remove_stores (ln_prev (h2 node)) (ln_next (h2 node)))) h2 = Some h'
      \<longrightarrow> (readers_see h' l (xs @ node # ys) \<or> readers_see h' l (xs @ ys)) \<and> list_visit l (ln_next (h' node)) h' = Some ys)"
  using rcu_add_readers [OF assms(1,2), of k] rcu_remove_readers [OF assms(3), of k] by (auto split: if_splits)

theorem klist_rcu_readers_witness:
  "\<exists>h. dl h 0 [5::nat] \<and> (\<forall>k h'. run_stores (take k (list_rcu_add_stores (Some 0) (Some 5) 9)) h = Some h'
      \<longrightarrow> readers_see h' 0 [5] \<or> readers_see h' 0 [9, 5])"
proof -
  define h :: "nat links" where "h = (\<lambda>_. undefined)(0 := \<lparr>ln_prev = Some 5, ln_next = Some 5\<rparr>, 5 := \<lparr>ln_prev = Some 0, ln_next = Some 0\<rparr>)"
  define h2 :: "nat links" where "h2 = (\<lambda>_. undefined)(0 := \<lparr>ln_prev = Some 5, ln_next = Some 9\<rparr>, 9 := \<lparr>ln_prev = Some 0, ln_next = Some 5\<rparr>,
    5 := \<lparr>ln_prev = Some 9, ln_next = Some 0\<rparr>)"
  have d: "dl h 0 ([] @ [5])" "dl h2 0 ([] @ 9 # [5])" by (simp_all add: dl_def h_def h2_def)
  show ?thesis using klist_rcu_readers [OF d(1) _ d(2)] d(1) by (intro exI [of _ h]) simp
qed

end
