(* ===== verification/Sched.thy ===== *)
theory Sched
  imports Klist Cstring
begin

text \<open>
  The scheduler of \<^verbatim>\<open>kern/thread.c\<close>: threads, per-processor run queues and the
  operations of the three scheduling classes. Every list is a list of \<^verbatim>\<open>kern/list.h\<close> in
  one store of links: the heads and nodes embedded in the structures are the values of \<open>sched_node\<close>,
  and \<^verbatim>\<open>list_entry\<close> goes from an embedded node back to its structure, or stops the
  program on a node of another kind. Processors, threads and the two fair-scheduling queues of a
  processor are numbered. A critical section of a run queue is one step of the model, so locks, the
  interrupt and the preemption state do not appear; an inter-processor interrupt changes no data.
\<close>

unbundle bit_operations_syntax

section \<open>Constants\<close>

definition CONFIG_MAX_CPUS :: nat where "CONFIG_MAX_CPUS = 128"
definition CLOCK_FREQ :: nat where "CLOCK_FREQ = 200"

definition THREAD_SCHED_POLICY_FIFO :: nat where "THREAD_SCHED_POLICY_FIFO = 0"
definition THREAD_SCHED_POLICY_RR :: nat where "THREAD_SCHED_POLICY_RR = 1"
definition THREAD_SCHED_POLICY_FS :: nat where "THREAD_SCHED_POLICY_FS = 2"
definition THREAD_SCHED_POLICY_IDLE :: nat where "THREAD_SCHED_POLICY_IDLE = 3"

definition THREAD_SCHED_RT_PRIO_MAX :: nat where "THREAD_SCHED_RT_PRIO_MAX = 31"
definition THREAD_SCHED_FS_PRIO_MAX :: nat where "THREAD_SCHED_FS_PRIO_MAX = 39"

definition THREAD_SCHED_CLASS_RT :: nat where "THREAD_SCHED_CLASS_RT = 0"
definition THREAD_SCHED_CLASS_FS :: nat where "THREAD_SCHED_CLASS_FS = 1"
definition THREAD_SCHED_CLASS_IDLE :: nat where "THREAD_SCHED_CLASS_IDLE = 2"

definition THREAD_SCHED_GLOBAL_PRIO_RT :: nat where "THREAD_SCHED_GLOBAL_PRIO_RT = 2"
definition THREAD_SCHED_GLOBAL_PRIO_FS :: nat where "THREAD_SCHED_GLOBAL_PRIO_FS = 1"
definition THREAD_SCHED_GLOBAL_PRIO_IDLE :: nat where "THREAD_SCHED_GLOBAL_PRIO_IDLE = 0"

definition THREAD_DEFAULT_RR_TIME_SLICE :: u16 where "THREAD_DEFAULT_RR_TIME_SLICE = of_nat (CLOCK_FREQ div 10)"
definition THREAD_MAX_MIGRATIONS :: u32 where "THREAD_MAX_MIGRATIONS = 16"
definition THREAD_IDLE_BALANCE_TICKS :: u32 where "THREAD_IDLE_BALANCE_TICKS = of_nat (CLOCK_FREQ div 2)"
definition THREAD_FS_INITIAL_ROUND :: u64 where "THREAD_FS_INITIAL_ROUND = - 10"
definition THREAD_FS_ROUND_SLICE_BASE :: nat where "THREAD_FS_ROUND_SLICE_BASE = CLOCK_FREQ div 10"
definition THREAD_YIELD :: u64 where "THREAD_YIELD = 1"

definition thread_policy_table :: "nat list" where
  "thread_policy_table = [THREAD_SCHED_CLASS_RT, THREAD_SCHED_CLASS_RT, THREAD_SCHED_CLASS_FS, THREAD_SCHED_CLASS_IDLE]"

definition thread_policy_to_class :: "nat \<Rightarrow> nat option" where
  "thread_policy_to_class policy = nth_opt thread_policy_table policy"

section \<open>Data\<close>

record thread_sched_data =
  sd_policy :: nat
  sd_class :: nat
  sd_priority :: nat
  sd_global_priority :: nat

record thread_fs_data =
  fd_fs_runq :: "(nat \<times> bool) option"
  fd_round :: u64
  fd_weight :: u16
  fd_work :: u16

datatype thread_state = THREAD_RUNNING | THREAD_SLEEPING | THREAD_DEAD

text \<open>
  The union of the class data is kept as two members: entering a class resets the member it uses. The preemption level is
  that of the code which calls the scheduler: what a critical section of the scheduler adds to it and takes off again, also
  while the thread is suspended in one, is left out.
\<close>

record thread =
  th_flags :: u64
  th_runq :: "nat option"
  th_in_runq :: bool
  th_wchan_addr :: u64
  th_wakeup_error :: "errno option"
  th_state :: thread_state
  th_preempt_level :: u16
  th_pin_level :: u16
  th_cpumap :: "nat \<Rightarrow> bool"
  th_user :: thread_sched_data
  th_real :: thread_sched_data
  th_boosted :: bool
  th_rt_time_slice :: u16
  th_fs :: thread_fs_data

record thread_fs_group =
  fg_weight :: u32
  fg_work :: u32

record thread_fs_runq =
  fq_group_array :: "nat \<Rightarrow> thread_fs_group"
  fq_current :: nat
  fq_nr_threads :: u32
  fq_weight :: u32
  fq_work :: u32

record thread_runq =
  rq_nr_threads :: u32
  rq_current :: nat
  rq_rt_bitmap :: u32
  rq_fs_round :: u64
  rq_fs_weight :: u32
  rq_fs_runqs :: "bool \<Rightarrow> thread_fs_runq"
  rq_fs_active :: bool
  rq_fs_expired :: bool
  rq_balancer :: "nat option"
  rq_idler :: "nat option"
  rq_idle_balance_ticks :: u32

datatype sched_node =
  Rt_threads nat nat | Rt_node nat
  | Fs_groups nat bool | Fs_group nat bool nat
  | Fs_group_threads nat bool nat | Fs_group_node nat
  | Fs_threads nat bool | Fs_runq_node nat

fun rt_entry :: "sched_node \<Rightarrow> nat option" where
  "rt_entry (Rt_node t) = Some t" | "rt_entry _ = None"

fun group_entry :: "sched_node \<Rightarrow> (nat \<times> bool \<times> nat) option" where
  "group_entry (Fs_group c i g) = Some (c, i, g)" | "group_entry _ = None"

fun group_thread_entry :: "sched_node \<Rightarrow> nat option" where
  "group_thread_entry (Fs_group_node t) = Some t" | "group_thread_entry _ = None"

fun runq_thread_entry :: "sched_node \<Rightarrow> nat option" where
  "runq_thread_entry (Fs_runq_node t) = Some t" | "runq_thread_entry _ = None"

record sched =
  sy_links :: "sched_node links"
  sy_threads :: "nat \<Rightarrow> thread"
  sy_runqs :: "nat \<Rightarrow> thread_runq"
  sy_fs_highest_round :: u64
  sy_idle_runqs :: "nat \<Rightarrow> bool"
  sy_active_runqs :: "nat \<Rightarrow> bool"

text \<open>Access to the structures behind the pointers.\<close>

abbreviation th :: "sched \<Rightarrow> nat \<Rightarrow> thread" where "th s t \<equiv> sy_threads s t"
abbreviation rq :: "sched \<Rightarrow> nat \<Rightarrow> thread_runq" where "rq s c \<equiv> sy_runqs s c"

definition set_thread :: "nat \<Rightarrow> thread \<Rightarrow> sched \<Rightarrow> sched" where
  "set_thread t v s = s\<lparr>sy_threads := (sy_threads s)(t := v)\<rparr>"

definition set_runq :: "nat \<Rightarrow> thread_runq \<Rightarrow> sched \<Rightarrow> sched" where
  "set_runq c v s = s\<lparr>sy_runqs := (sy_runqs s)(c := v)\<rparr>"

definition set_fs :: "nat \<Rightarrow> thread_fs_data \<Rightarrow> sched \<Rightarrow> sched" where
  "set_fs t v s = set_thread t ((th s t)\<lparr>th_fs := v\<rparr>) s"

definition fs_queue :: "sched \<Rightarrow> nat \<Rightarrow> bool \<Rightarrow> thread_fs_runq" where
  "fs_queue s c i = rq_fs_runqs (rq s c) i"

definition set_fs_queue :: "nat \<Rightarrow> bool \<Rightarrow> thread_fs_runq \<Rightarrow> sched \<Rightarrow> sched" where
  "set_fs_queue c i v s = set_runq c ((rq s c)\<lparr>rq_fs_runqs := (rq_fs_runqs (rq s c))(i := v)\<rparr>) s"

definition fs_group :: "sched \<Rightarrow> nat \<Rightarrow> bool \<Rightarrow> nat \<Rightarrow> thread_fs_group" where
  "fs_group s c i g = fq_group_array (fs_queue s c i) g"

definition set_fs_group :: "nat \<Rightarrow> bool \<Rightarrow> nat \<Rightarrow> thread_fs_group \<Rightarrow> sched \<Rightarrow> sched" where
  "set_fs_group c i g v s =
     set_fs_queue c i ((fs_queue s c i)\<lparr>fq_group_array := (fq_group_array (fs_queue s c i))(g := v)\<rparr>) s"

definition on_links :: "(sched_node links \<Rightarrow> sched_node links option) \<Rightarrow> sched \<Rightarrow> sched option" where
  "on_links f s = do { h \<leftarrow> f (sy_links s); Some (s\<lparr>sy_links := h\<rparr>) }"

section \<open>Thread accessors\<close>

definition thread_user_sched_policy :: "thread \<Rightarrow> nat" where "thread_user_sched_policy v = sd_policy (th_user v)"
definition thread_user_sched_class :: "thread \<Rightarrow> nat" where "thread_user_sched_class v = sd_class (th_user v)"
definition thread_user_priority :: "thread \<Rightarrow> nat" where "thread_user_priority v = sd_priority (th_user v)"
definition thread_user_global_priority :: "thread \<Rightarrow> nat" where
  "thread_user_global_priority v = sd_global_priority (th_user v)"
definition thread_real_sched_policy :: "thread \<Rightarrow> nat" where "thread_real_sched_policy v = sd_policy (th_real v)"
definition thread_real_sched_class :: "thread \<Rightarrow> nat" where "thread_real_sched_class v = sd_class (th_real v)"
definition thread_real_priority :: "thread \<Rightarrow> nat" where "thread_real_priority v = sd_priority (th_real v)"
definition thread_real_global_priority :: "thread \<Rightarrow> nat" where
  "thread_real_global_priority v = sd_global_priority (th_real v)"

definition thread_set_flag :: "nat \<Rightarrow> u64 \<Rightarrow> sched \<Rightarrow> sched" where
  "thread_set_flag t flag s = set_thread t ((th s t)\<lparr>th_flags := th_flags (th s t) OR flag\<rparr>) s"

definition thread_clear_flag :: "nat \<Rightarrow> u64 \<Rightarrow> sched \<Rightarrow> sched" where
  "thread_clear_flag t flag s = set_thread t ((th s t)\<lparr>th_flags := th_flags (th s t) AND NOT flag\<rparr>) s"

definition thread_test_flag :: "sched \<Rightarrow> nat \<Rightarrow> u64 \<Rightarrow> bool" where
  "thread_test_flag s t flag \<longleftrightarrow> th_flags (th s t) AND flag \<noteq> 0"

definition thread_set_wchan :: "nat \<Rightarrow> u64 \<Rightarrow> sched \<Rightarrow> sched option" where
  "thread_set_wchan t addr s = do {
     assert_that (addr \<noteq> 0);
     Some (set_thread t ((th s t)\<lparr>th_wchan_addr := addr\<rparr>) s) }"

definition thread_clear_wchan :: "nat \<Rightarrow> sched \<Rightarrow> sched" where
  "thread_clear_wchan t s = set_thread t ((th s t)\<lparr>th_wchan_addr := 0\<rparr>) s"

definition set_state :: "nat \<Rightarrow> thread_state \<Rightarrow> sched \<Rightarrow> sched" where
  "set_state t st s = set_thread t ((th s t)\<lparr>th_state := st\<rparr>) s"

end
