(* ===== verification/Sched_Class.thy ===== *)
theory Sched_Class
  imports Sched
begin

text \<open>
  The operations of the scheduling classes of \<^verbatim>\<open>kern/thread.c\<close>: real-time queues
  with a bitmap of the priorities in use, fair-scheduling groups of threads with the same weight, and
  the idle class. The table of operations of the source is the dispatch on the class of the thread.
\<close>

unbundle bit_operations_syntax

section \<open>Initialization of a run queue\<close>

definition thread_runq_init_rt :: "nat \<Rightarrow> sched \<Rightarrow> sched" where
  "thread_runq_init_rt c s =
     (let s = set_runq c ((rq s c)\<lparr>rq_rt_bitmap := 0\<rparr>) s in
      s\<lparr>sy_links := fold (\<lambda>i. list_init (Rt_threads c i)) [0..<THREAD_SCHED_RT_PRIO_MAX + 1] (sy_links s)\<rparr>)"

definition thread_fs_group_init :: "nat \<Rightarrow> bool \<Rightarrow> nat \<Rightarrow> sched \<Rightarrow> sched" where
  "thread_fs_group_init c i g s =
     set_fs_group c i g \<lparr>fg_weight = 0, fg_work = 0\<rparr>
       (s\<lparr>sy_links := list_init (Fs_group_threads c i g) (sy_links s)\<rparr>)"

definition thread_fs_runq_init :: "nat \<Rightarrow> bool \<Rightarrow> sched \<Rightarrow> sched" where
  "thread_fs_runq_init c i s =
     (let s = fold (thread_fs_group_init c i) [0..<THREAD_SCHED_FS_PRIO_MAX + 1] s;
          s = s\<lparr>sy_links := list_init (Fs_threads c i) (list_init (Fs_groups c i) (sy_links s))\<rparr> in
      set_fs_queue c i ((fs_queue s c i)\<lparr>fq_nr_threads := 0, fq_weight := 0, fq_work := 0\<rparr>) s)"

definition thread_runq_init_fs :: "nat \<Rightarrow> sched \<Rightarrow> sched" where
  "thread_runq_init_fs c s =
     (let s = set_runq c ((rq s c)\<lparr>rq_fs_weight := 0, rq_fs_active := False, rq_fs_expired := True\<rparr>) s in
      thread_fs_runq_init c True (thread_fs_runq_init c False s))"

definition thread_runq_init :: "nat \<Rightarrow> nat \<Rightarrow> sched \<Rightarrow> sched" where
  "thread_runq_init c booter s =
     (let s = set_runq c ((rq s c)\<lparr>rq_nr_threads := 0, rq_current := booter\<rparr>) s;
          s = thread_runq_init_fs c (thread_runq_init_rt c s) in
      set_runq c ((rq s c)\<lparr>rq_balancer := None, rq_idler := None, rq_idle_balance_ticks := - 1\<rparr>) s)"

section \<open>The real-time class\<close>

definition thread_sched_rt_add :: "nat \<Rightarrow> nat \<Rightarrow> sched \<Rightarrow> sched option" where
  "thread_sched_rt_add c t s = do {
     let p = thread_real_priority (th s t);
     assert_that (p \<le> THREAD_SCHED_RT_PRIO_MAX);
     s \<leftarrow> on_links (list_insert_tail (Rt_threads c p) (Rt_node t)) s;
     let s = (if list_singular (Rt_threads c p) (sy_links s)
       then set_runq c ((rq s c)\<lparr>rq_rt_bitmap := rq_rt_bitmap (rq s c) OR push_bit p 1\<rparr>) s else s);
     let cur = rq_current (rq s c);
     Some (if thread_real_sched_class (th s t) = thread_real_sched_class (th s cur)
         \<and> thread_real_priority (th s t) > thread_real_priority (th s cur)
       then thread_set_flag cur THREAD_YIELD s else s) }"

definition thread_sched_rt_remove :: "nat \<Rightarrow> nat \<Rightarrow> sched \<Rightarrow> sched option" where
  "thread_sched_rt_remove c t s = do {
     let p = thread_real_priority (th s t);
     assert_that (p \<le> THREAD_SCHED_RT_PRIO_MAX);
     s \<leftarrow> on_links (list_remove (Rt_node t)) s;
     Some (if list_empty (Rt_threads c p) (sy_links s)
       then set_runq c ((rq s c)\<lparr>rq_rt_bitmap := rq_rt_bitmap (rq s c) AND NOT (push_bit p 1)\<rparr>) s else s) }"

definition thread_sched_rt_put_prev :: "nat \<Rightarrow> nat \<Rightarrow> sched \<Rightarrow> sched option" where
  "thread_sched_rt_put_prev c t s = thread_sched_rt_add c t s"

text \<open>\<^verbatim>\<open>__builtin_clz\<close> counts the zero bits above the highest set bit.\<close>

definition clz32 :: "u32 \<Rightarrow> nat" where
  "clz32 x = length (takeWhile (\<lambda>i. \<not> bit x i) (rev [0..<32]))"

definition thread_sched_rt_get_next :: "nat \<Rightarrow> sched \<Rightarrow> (nat option \<times> sched) option" where
  "thread_sched_rt_get_next c s =
     (if rq_rt_bitmap (rq s c) = 0 then Some (None, s)
      else do {
        let p = THREAD_SCHED_RT_PRIO_MAX - clz32 (rq_rt_bitmap (rq s c));
        assert_that (\<not> list_empty (Rt_threads c p) (sy_links s));
        n \<leftarrow> list_first (Rt_threads c p) (sy_links s);
        t \<leftarrow> rt_entry n;
        s \<leftarrow> thread_sched_rt_remove c t s;
        Some (Some t, s) })"

definition thread_sched_rt_reset_priority :: "nat \<Rightarrow> nat \<Rightarrow> sched \<Rightarrow> sched option" where
  "thread_sched_rt_reset_priority t priority s = do {
     assert_that (priority \<le> THREAD_SCHED_RT_PRIO_MAX);
     Some (set_thread t ((th s t)\<lparr>th_rt_time_slice := THREAD_DEFAULT_RR_TIME_SLICE\<rparr>) s) }"

definition thread_sched_rt_get_global_priority :: "nat \<Rightarrow> nat" where
  "thread_sched_rt_get_global_priority priority = THREAD_SCHED_GLOBAL_PRIO_RT + priority"

definition thread_sched_rt_set_next :: "nat \<Rightarrow> nat \<Rightarrow> sched \<Rightarrow> sched option" where
  "thread_sched_rt_set_next c t s = thread_sched_rt_remove c t s"

definition thread_sched_rt_tick :: "nat \<Rightarrow> sched \<Rightarrow> sched" where
  "thread_sched_rt_tick t s =
     (if thread_real_sched_policy (th s t) \<noteq> THREAD_SCHED_POLICY_RR then s
      else
        let s = set_thread t ((th s t)\<lparr>th_rt_time_slice := th_rt_time_slice (th s t) - 1\<rparr>) s in
        if th_rt_time_slice (th s t) > 0 then s
        else thread_set_flag t THREAD_YIELD
          (set_thread t ((th s t)\<lparr>th_rt_time_slice := THREAD_DEFAULT_RR_TIME_SLICE\<rparr>) s))"

section \<open>The fair-scheduling class\<close>

definition thread_sched_fs_prio2weight :: "nat \<Rightarrow> u16" where
  "thread_sched_fs_prio2weight priority = of_nat ((priority + 1) * THREAD_FS_ROUND_SLICE_BASE)"

definition thread_sched_fs_enqueue_scale :: "u32 \<Rightarrow> u32 \<Rightarrow> u32 \<Rightarrow> u32 option" where
  "thread_sched_fs_enqueue_scale work old_weight new_weight = do {
     assert_that (old_weight \<noteq> 0);
     Some (ucast ((ucast work * ucast new_weight :: u64) div ucast old_weight)) }"

text \<open>The loops that find the new place of a group in the list of groups, backward and forward.\<close>

partial_function (option) fs_enqueue_scan ::
  "nat \<Rightarrow> bool \<Rightarrow> u32 \<Rightarrow> sched_node option \<Rightarrow> sched \<Rightarrow> sched_node option option" where
  "fs_enqueue_scan c i group_weight node s =
     (if list_end (Fs_groups c i) node then Some node
      else do {
        n \<leftarrow> node;
        (c', i', g) \<leftarrow> group_entry n;
        if fg_weight (fs_group s c' i' g) \<ge> group_weight then Some node
        else fs_enqueue_scan c i group_weight (list_prev n (sy_links s)) s })"

partial_function (option) fs_dequeue_scan ::
  "nat \<Rightarrow> bool \<Rightarrow> u32 \<Rightarrow> sched_node option \<Rightarrow> sched \<Rightarrow> sched_node option option" where
  "fs_dequeue_scan c i group_weight node s =
     (if list_end (Fs_groups c i) node then Some node
      else do {
        n \<leftarrow> node;
        (c', i', g) \<leftarrow> group_entry n;
        if fg_weight (fs_group s c' i' g) \<le> group_weight then Some node
        else fs_dequeue_scan c i group_weight (list_next n (sy_links s)) s })"

text \<open>The part of the enqueue operation that moves the group to its place.\<close>

definition fs_enqueue_place :: "nat \<Rightarrow> bool \<Rightarrow> nat \<Rightarrow> u32 \<Rightarrow> sched \<Rightarrow> sched option" where
  "fs_enqueue_place c i g group_weight s = do {
     let init_node = (if fg_weight (fs_group s c i g) = 0 then list_last (Fs_groups c i) (sy_links s)
       else list_prev (Fs_group c i g) (sy_links s));
     node \<leftarrow> fs_enqueue_scan c i group_weight init_node s;
     if fg_weight (fs_group s c i g) = 0 then do {
       n \<leftarrow> node;
       on_links (list_insert_after (Fs_group c i g) n) s }
     else if node \<noteq> init_node then do {
       s \<leftarrow> on_links (list_remove (Fs_group c i g)) s;
       n \<leftarrow> node;
       on_links (list_insert_after (Fs_group c i g) n) s }
     else Some s }"

text \<open>The part that accounts the work of the thread, or gives it a share of the work already done.\<close>

definition fs_enqueue_work :: "nat \<Rightarrow> bool \<Rightarrow> nat \<Rightarrow> u32 \<Rightarrow> u64 \<Rightarrow> nat \<Rightarrow> sched \<Rightarrow> sched option" where
  "fs_enqueue_work c i g group_weight round t s =
     (if fd_round (th_fs (th s t)) = round then do {
        let s = set_fs_queue c i ((fs_queue s c i)\<lparr>fq_work := fq_work (fs_queue s c i) + ucast (fd_work (th_fs (th s t)))\<rparr>) s;
        Some (set_fs_group c i g ((fs_group s c i g)\<lparr>fg_work := fg_work (fs_group s c i g) + ucast (fd_work (th_fs (th s t)))\<rparr>) s) }
      else do {
        (thread_work, s) \<leftarrow>
          (if fq_weight (fs_queue s c i) = 0 then Some (0, s)
           else do {
             group_work \<leftarrow>
               (if fg_weight (fs_group s c i g) = 0
                then thread_sched_fs_enqueue_scale (fq_work (fs_queue s c i)) (fq_weight (fs_queue s c i)) (ucast (fd_weight (th_fs (th s t))))
                else thread_sched_fs_enqueue_scale (fg_work (fs_group s c i g)) (fg_weight (fs_group s c i g)) group_weight);
             let thread_work = group_work - fg_work (fs_group s c i g);
             let s = set_fs_queue c i ((fs_queue s c i)\<lparr>fq_work := fq_work (fs_queue s c i) + thread_work\<rparr>) s;
             Some (thread_work, set_fs_group c i g ((fs_group s c i g)\<lparr>fg_work := group_work\<rparr>) s) });
        Some (set_fs t ((th_fs (th s t))\<lparr>fd_round := round, fd_work := ucast thread_work\<rparr>) s) })"

definition thread_sched_fs_enqueue :: "nat \<Rightarrow> bool \<Rightarrow> u64 \<Rightarrow> nat \<Rightarrow> sched \<Rightarrow> sched option" where
  "thread_sched_fs_enqueue c i round t s = do {
     assert_that (fd_fs_runq (th_fs (th s t)) = None);
     assert_that (fd_work (th_fs (th s t)) \<le> fd_weight (th_fs (th s t)));
     let g = thread_real_priority (th s t);
     assert_that (g \<le> THREAD_SCHED_FS_PRIO_MAX);
     let group_weight = fg_weight (fs_group s c i g) + ucast (fd_weight (th_fs (th s t)));
     let total_weight = fq_weight (fs_queue s c i) + ucast (fd_weight (th_fs (th s t)));
     s \<leftarrow> fs_enqueue_place c i g group_weight s;
     s \<leftarrow> fs_enqueue_work c i g group_weight round t s;
     let s = set_fs_queue c i ((fs_queue s c i)\<lparr>fq_nr_threads := fq_nr_threads (fs_queue s c i) + 1, fq_weight := total_weight\<rparr>) s;
     let s = set_fs_group c i g ((fs_group s c i g)\<lparr>fg_weight := group_weight\<rparr>) s;
     s \<leftarrow> on_links (list_insert_head (Fs_group_threads c i g) (Fs_group_node t)) s;
     s \<leftarrow> on_links (list_insert_tail (Fs_threads c i) (Fs_runq_node t)) s;
     Some (set_fs t ((th_fs (th s t))\<lparr>fd_fs_runq := Some (c, i)\<rparr>) s) }"

definition thread_sched_fs_restart :: "nat \<Rightarrow> sched \<Rightarrow> sched option" where
  "thread_sched_fs_restart c s = do {
     let i = rq_fs_active (rq s c);
     n \<leftarrow> list_first (Fs_groups c i) (sy_links s);
     (_, _, g) \<leftarrow> group_entry n;
     let s = set_fs_queue c i ((fs_queue s c i)\<lparr>fq_current := g\<rparr>) s;
     let cur = rq_current (rq s c);
     Some (if thread_real_sched_class (th s cur) = THREAD_SCHED_CLASS_FS then thread_set_flag cur THREAD_YIELD s else s) }"

definition thread_sched_fs_add :: "nat \<Rightarrow> nat \<Rightarrow> sched \<Rightarrow> sched option" where
  "thread_sched_fs_add c t s = do {
     let s = (if rq_fs_weight (rq s c) = 0 then set_runq c ((rq s c)\<lparr>rq_fs_round := sy_fs_highest_round s\<rparr>) s else s);
     let total_weight = rq_fs_weight (rq s c) + ucast (fd_weight (th_fs (th s t)));
     assert_that (\<not> total_weight < rq_fs_weight (rq s c));
     let s = set_runq c ((rq s c)\<lparr>rq_fs_weight := total_weight\<rparr>) s;
     s \<leftarrow> thread_sched_fs_enqueue c (rq_fs_active (rq s c)) (rq_fs_round (rq s c)) t s;
     thread_sched_fs_restart c s }"

text \<open>The part of the dequeue operation that moves the group, whose weight has decreased.\<close>

definition fs_dequeue_place :: "nat \<Rightarrow> bool \<Rightarrow> nat \<Rightarrow> sched \<Rightarrow> sched option" where
  "fs_dequeue_place c i g s =
     (if fg_weight (fs_group s c i g) = 0 then on_links (list_remove (Fs_group c i g)) s
      else do {
        let init_node = list_next (Fs_group c i g) (sy_links s);
        node \<leftarrow> fs_dequeue_scan c i (fg_weight (fs_group s c i g)) init_node s;
        if node \<noteq> init_node then do {
          s \<leftarrow> on_links (list_remove (Fs_group c i g)) s;
          n \<leftarrow> node;
          on_links (list_insert_before (Fs_group c i g) n) s }
        else Some s })"

definition thread_sched_fs_dequeue :: "nat \<Rightarrow> sched \<Rightarrow> sched option" where
  "thread_sched_fs_dequeue t s = do {
     (c, i) \<leftarrow> fd_fs_runq (th_fs (th s t));
     let g = thread_real_priority (th s t);
     assert_that (g \<le> THREAD_SCHED_FS_PRIO_MAX);
     let s = set_fs t ((th_fs (th s t))\<lparr>fd_fs_runq := None\<rparr>) s;
     s \<leftarrow> on_links (list_remove (Fs_runq_node t)) s;
     s \<leftarrow> on_links (list_remove (Fs_group_node t)) s;
     let s = set_fs_queue c i ((fs_queue s c i)\<lparr>fq_work := fq_work (fs_queue s c i) - ucast (fd_work (th_fs (th s t)))\<rparr>) s;
     let s = set_fs_group c i g ((fs_group s c i g)\<lparr>fg_work := fg_work (fs_group s c i g) - ucast (fd_work (th_fs (th s t)))\<rparr>) s;
     let s = set_fs_queue c i ((fs_queue s c i)\<lparr>fq_weight := fq_weight (fs_queue s c i) - ucast (fd_weight (th_fs (th s t)))\<rparr>) s;
     let s = set_fs_group c i g ((fs_group s c i g)\<lparr>fg_weight := fg_weight (fs_group s c i g) - ucast (fd_weight (th_fs (th s t)))\<rparr>) s;
     let s = set_fs_queue c i ((fs_queue s c i)\<lparr>fq_nr_threads := fq_nr_threads (fs_queue s c i) - 1\<rparr>) s;
     fs_dequeue_place c i g s }"

definition thread_sched_fs_ratio_exceeded :: "thread_fs_group \<Rightarrow> thread_fs_group \<Rightarrow> bool" where
  "thread_sched_fs_ratio_exceeded current next \<longleftrightarrow>
     (ucast (fg_work current) + 1 :: u64) * ucast (fg_weight next) > (ucast (fg_work next) + 1) * ucast (fg_weight current)"

text \<open>The group served next: the one after the current group when the current one has done more than its
  share, or the first group. The current group may just have left the list; its links are read as they were.\<close>

definition fs_next_group :: "nat \<Rightarrow> sched \<Rightarrow> nat option" where
  "fs_next_group c s = do {
     let i = rq_fs_active (rq s c);
     let group = fq_current (fs_queue s c i);
     let node = list_next (Fs_group c i group) (sy_links s);
     if list_end (Fs_groups c i) node then do {
       n \<leftarrow> list_first (Fs_groups c i) (sy_links s);
       (_, _, g) \<leftarrow> group_entry n;
       Some g }
     else do {
       n \<leftarrow> node;
       (c', i', next) \<leftarrow> group_entry n;
       if thread_sched_fs_ratio_exceeded (fs_group s c i group) (fs_group s c' i' next) then Some next
       else do {
         n \<leftarrow> list_first (Fs_groups c i) (sy_links s);
         (_, _, g) \<leftarrow> group_entry n;
         Some g } } }"

definition thread_sched_fs_get_next :: "nat \<Rightarrow> sched \<Rightarrow> (nat option \<times> sched) option" where
  "thread_sched_fs_get_next c s = do {
     let i = rq_fs_active (rq s c);
     if fq_nr_threads (fs_queue s c i) = 0 then Some (None, s)
     else do {
       g \<leftarrow> fs_next_group c s;
       let s = set_fs_queue c i ((fs_queue s c i)\<lparr>fq_current := g\<rparr>) s;
       n \<leftarrow> list_first (Fs_group_threads c i g) (sy_links s);
       t \<leftarrow> group_thread_entry n;
       s \<leftarrow> on_links (list_remove n) s;
       Some (Some t, s) } }"

definition thread_sched_fs_reset_priority :: "nat \<Rightarrow> nat \<Rightarrow> sched \<Rightarrow> sched option" where
  "thread_sched_fs_reset_priority t priority s = do {
     assert_that (priority \<le> THREAD_SCHED_FS_PRIO_MAX);
     Some (set_fs t \<lparr>fd_fs_runq = None, fd_round = 0, fd_weight = thread_sched_fs_prio2weight priority, fd_work = 0\<rparr> s) }"

definition thread_sched_fs_update_priority :: "nat \<Rightarrow> nat \<Rightarrow> sched \<Rightarrow> sched option" where
  "thread_sched_fs_update_priority t priority s = do {
     assert_that (priority \<le> THREAD_SCHED_FS_PRIO_MAX);
     let s = set_fs t ((th_fs (th s t))\<lparr>fd_weight := thread_sched_fs_prio2weight priority\<rparr>) s;
     Some (if fd_work (th_fs (th s t)) \<ge> fd_weight (th_fs (th s t))
       then set_fs t ((th_fs (th s t))\<lparr>fd_work := fd_weight (th_fs (th s t))\<rparr>) s else s) }"

definition thread_sched_fs_get_global_priority :: "nat \<Rightarrow> nat" where
  "thread_sched_fs_get_global_priority priority = THREAD_SCHED_GLOBAL_PRIO_FS"

definition thread_sched_fs_set_next :: "nat \<Rightarrow> nat \<Rightarrow> sched \<Rightarrow> sched option" where
  "thread_sched_fs_set_next c t s = on_links (list_remove (Fs_group_node t)) s"

definition thread_sched_fs_tick :: "nat \<Rightarrow> nat \<Rightarrow> sched \<Rightarrow> sched option" where
  "thread_sched_fs_tick c t s = do {
     let i = rq_fs_active (rq s c);
     let g = thread_real_priority (th s t);
     assert_that (g \<le> THREAD_SCHED_FS_PRIO_MAX);
     let s = set_fs_queue c i ((fs_queue s c i)\<lparr>fq_work := fq_work (fs_queue s c i) + 1\<rparr>) s;
     let s = set_fs_group c i g ((fs_group s c i g)\<lparr>fg_work := fg_work (fs_group s c i g) + 1\<rparr>) s;
     let s = thread_set_flag t THREAD_YIELD s;
     Some (set_fs t ((th_fs (th s t))\<lparr>fd_work := fd_work (th_fs (th s t)) + 1\<rparr>) s) }"

section \<open>The idle class\<close>

definition thread_sched_idle_add :: "nat \<Rightarrow> nat \<Rightarrow> sched \<Rightarrow> sched option" where
  "thread_sched_idle_add c t s = None"

definition thread_sched_idle_remove :: "nat \<Rightarrow> nat \<Rightarrow> sched \<Rightarrow> sched option" where
  "thread_sched_idle_remove c t s = None"

definition thread_sched_idle_get_next :: "nat \<Rightarrow> sched \<Rightarrow> (nat option \<times> sched) option" where
  "thread_sched_idle_get_next c s = Some (rq_idler (rq s c), s)"

definition thread_sched_idle_get_global_priority :: "nat \<Rightarrow> nat" where
  "thread_sched_idle_get_global_priority priority = THREAD_SCHED_GLOBAL_PRIO_IDLE"

end
