(* ===== verification/Sched_Runq.thy ===== *)
theory Sched_Runq
  imports Sched_Class
begin

text \<open>
  Run queues and threads (\<^verbatim>\<open>kern/thread.c\<close>): adding and removing a thread, choosing the
  next one, sleeping, waking up and exiting, the periodic event, changing the scheduling parameters of a
  thread, and the balancing of fair-scheduling threads between processors. The code after a context switch
  runs when the switched thread is chosen again; the model ends the step at the switch.
\<close>

unbundle bit_operations_syntax

section \<open>Run queues\<close>

definition thread_runq_add :: "nat \<Rightarrow> nat \<Rightarrow> sched \<Rightarrow> sched option" where
  "thread_runq_add c t s = do {
     assert_that (\<not> th_in_runq (th s t));
     let k = thread_real_sched_class (th s t);
     s \<leftarrow> (if k = THREAD_SCHED_CLASS_RT then thread_sched_rt_add c t s
       else if k = THREAD_SCHED_CLASS_FS then thread_sched_fs_add c t s
       else if k = THREAD_SCHED_CLASS_IDLE then thread_sched_idle_add c t s
       else None);
     let s = (if rq_nr_threads (rq s c) = 0 then s\<lparr>sy_idle_runqs := (sy_idle_runqs s)(c := False)\<rparr> else s);
     let s = set_runq c ((rq s c)\<lparr>rq_nr_threads := rq_nr_threads (rq s c) + 1\<rparr>) s;
     let cur = rq_current (rq s c);
     let s = (if thread_real_sched_class (th s t) < thread_real_sched_class (th s cur)
       then thread_set_flag cur THREAD_YIELD s else s);
     Some (set_thread t ((th s t)\<lparr>th_runq := Some c, th_in_runq := True\<rparr>) s) }"

definition thread_runq_wakeup :: "nat \<Rightarrow> nat \<Rightarrow> sched \<Rightarrow> sched option" where
  "thread_runq_wakeup c t s = do {
     assert_that (th_state (th s t) = THREAD_RUNNING);
     thread_runq_add c t s }"

definition thread_runq_wakeup_balancer :: "nat \<Rightarrow> sched \<Rightarrow> sched option" where
  "thread_runq_wakeup_balancer c s = do {
     b \<leftarrow> rq_balancer (rq s c);
     if th_state (th s b) = THREAD_RUNNING then Some s
     else thread_runq_wakeup c b (set_state b THREAD_RUNNING (thread_clear_wchan b s)) }"

definition thread_sched_fs_remove :: "nat \<Rightarrow> nat \<Rightarrow> sched \<Rightarrow> sched option" where
  "thread_sched_fs_remove c t s = do {
     let s = set_runq c ((rq s c)\<lparr>rq_fs_weight := rq_fs_weight (rq s c) - ucast (fd_weight (th_fs (th s t)))\<rparr>) s;
     let q = fd_fs_runq (th_fs (th s t));
     s \<leftarrow> thread_sched_fs_dequeue t s;
     if q = Some (c, rq_fs_active (rq s c)) then
       (if fq_nr_threads (fs_queue s c (rq_fs_active (rq s c))) = 0 then thread_runq_wakeup_balancer c s
        else thread_sched_fs_restart c s)
     else Some s }"

definition thread_sched_fs_deactivate :: "nat \<Rightarrow> nat \<Rightarrow> sched \<Rightarrow> sched option" where
  "thread_sched_fs_deactivate c t s = do {
     assert_that (fd_fs_runq (th_fs (th s t)) = Some (c, rq_fs_active (rq s c)));
     assert_that (fd_round (th_fs (th s t)) = rq_fs_round (rq s c));
     s \<leftarrow> thread_sched_fs_dequeue t s;
     let s = set_fs t ((th_fs (th s t))\<lparr>fd_round := fd_round (th_fs (th s t)) + 1,
       fd_work := fd_work (th_fs (th s t)) - fd_weight (th_fs (th s t))\<rparr>) s;
     s \<leftarrow> thread_sched_fs_enqueue c (rq_fs_expired (rq s c)) (rq_fs_round (rq s c) + 1) t s;
     if fq_nr_threads (fs_queue s c (rq_fs_active (rq s c))) = 0 then thread_runq_wakeup_balancer c s else Some s }"

definition thread_sched_fs_put_prev :: "nat \<Rightarrow> nat \<Rightarrow> sched \<Rightarrow> sched option" where
  "thread_sched_fs_put_prev c t s = do {
     let g = thread_real_priority (th s t);
     assert_that (g \<le> THREAD_SCHED_FS_PRIO_MAX);
     s \<leftarrow> on_links (list_insert_tail (Fs_group_threads c (rq_fs_active (rq s c)) g) (Fs_group_node t)) s;
     if fd_work (th_fs (th s t)) \<ge> fd_weight (th_fs (th s t)) then thread_sched_fs_deactivate c t s else Some s }"

definition thread_runq_remove :: "nat \<Rightarrow> nat \<Rightarrow> sched \<Rightarrow> sched option" where
  "thread_runq_remove c t s = do {
     assert_that (th_in_runq (th s t));
     let s = set_runq c ((rq s c)\<lparr>rq_nr_threads := rq_nr_threads (rq s c) - 1\<rparr>) s;
     let s = (if rq_nr_threads (rq s c) = 0 then s\<lparr>sy_idle_runqs := (sy_idle_runqs s)(c := True)\<rparr> else s);
     let k = thread_real_sched_class (th s t);
     s \<leftarrow> (if k = THREAD_SCHED_CLASS_RT then thread_sched_rt_remove c t s
       else if k = THREAD_SCHED_CLASS_FS then thread_sched_fs_remove c t s
       else if k = THREAD_SCHED_CLASS_IDLE then thread_sched_idle_remove c t s
       else None);
     Some (set_thread t ((th s t)\<lparr>th_in_runq := False\<rparr>) s) }"

definition thread_runq_put_prev :: "nat \<Rightarrow> nat \<Rightarrow> sched \<Rightarrow> sched option" where
  "thread_runq_put_prev c t s =
     (let k = thread_real_sched_class (th s t) in
      if k = THREAD_SCHED_CLASS_RT then thread_sched_rt_put_prev c t s
      else if k = THREAD_SCHED_CLASS_FS then thread_sched_fs_put_prev c t s
      else if k = THREAD_SCHED_CLASS_IDLE then Some s
      else None)"

definition runq_set_current :: "nat \<Rightarrow> nat \<Rightarrow> sched \<Rightarrow> sched" where
  "runq_set_current c t s = set_runq c ((rq s c)\<lparr>rq_current := t\<rparr>) s"

definition thread_runq_get_next :: "nat \<Rightarrow> sched \<Rightarrow> (nat \<times> sched) option" where
  "thread_runq_get_next c s = do {
     (next, s) \<leftarrow> thread_sched_rt_get_next c s;
     case next of Some t \<Rightarrow> Some (t, runq_set_current c t s)
     | None \<Rightarrow> do {
       (next, s) \<leftarrow> thread_sched_fs_get_next c s;
       case next of Some t \<Rightarrow> Some (t, runq_set_current c t s)
       | None \<Rightarrow> do {
         (next, s) \<leftarrow> thread_sched_idle_get_next c s;
         t \<leftarrow> next;
         Some (t, runq_set_current c t s) } } }"

definition thread_runq_set_next :: "nat \<Rightarrow> nat \<Rightarrow> sched \<Rightarrow> sched option" where
  "thread_runq_set_next c t s = do {
     let k = thread_real_sched_class (th s t);
     s \<leftarrow> (if k = THREAD_SCHED_CLASS_RT then thread_sched_rt_set_next c t s
       else if k = THREAD_SCHED_CLASS_FS then thread_sched_fs_set_next c t s
       else if k = THREAD_SCHED_CLASS_IDLE then Some s
       else None);
     Some (runq_set_current c t s) }"

text \<open>A call to the scheduler up to the context switch; the thread of the processor is its current one.\<close>

definition thread_runq_schedule :: "nat \<Rightarrow> sched \<Rightarrow> sched option" where
  "thread_runq_schedule c s = do {
     let prev = rq_current (rq s c);
     let s = thread_clear_flag prev THREAD_YIELD s;
     s \<leftarrow> thread_runq_put_prev c prev s;
     s \<leftarrow> (if th_state (th s prev) \<noteq> THREAD_RUNNING then do {
         s \<leftarrow> thread_runq_remove c prev s;
         if rq_nr_threads (rq s c) = 0 \<and> rq_balancer (rq s c) \<noteq> Some prev then thread_runq_wakeup_balancer c s
         else Some s }
       else Some s);
     (next, s) \<leftarrow> thread_runq_get_next c s;
     assert_that (rq_idler (rq s c) \<noteq> Some next \<or> rq_nr_threads (rq s c) = 0);
     Some s }"

section \<open>Choosing a run queue\<close>

definition thread_sched_rt_select_runq :: "nat \<Rightarrow> sched \<Rightarrow> nat option" where
  "thread_sched_rt_select_runq t s = do {
     c \<leftarrow> find (th_cpumap (th s t)) [0..<CONFIG_MAX_CPUS];
     assert_that (sy_active_runqs s c);
     Some c }"

definition runq_is_idle :: "sched \<Rightarrow> nat \<Rightarrow> bool" where
  "runq_is_idle s c \<longleftrightarrow> rq_idler (rq s c) = Some (rq_current (rq s c))"

fun fs_select_scan :: "sched \<Rightarrow> nat option \<Rightarrow> nat list \<Rightarrow> nat option" where
  "fs_select_scan s best [] = best"
| "fs_select_scan s None (c # cs) = fs_select_scan s (Some c) cs"
| "fs_select_scan s (Some b) (c # cs) =
     (if runq_is_idle s c then Some c
      else if rq_fs_weight (rq s c) = 0 then fs_select_scan s (Some b) cs
      else
        let delta = sint (rq_fs_round (rq s c) - rq_fs_round (rq s b)) in
        if delta > 0 \<or> delta = 0 \<and> rq_fs_weight (rq s c) < rq_fs_weight (rq s b)
        then fs_select_scan s (Some c) cs else fs_select_scan s (Some b) cs)"

definition thread_sched_fs_select_runq :: "nat \<Rightarrow> sched \<Rightarrow> nat option" where
  "thread_sched_fs_select_runq t s =
     (case find (\<lambda>c. sy_idle_runqs s c \<and> th_cpumap (th s t) c \<and> runq_is_idle s c) [0..<CONFIG_MAX_CPUS] of
        Some c \<Rightarrow> Some c
      | None \<Rightarrow> fs_select_scan s None (filter (\<lambda>c. sy_active_runqs s c \<and> th_cpumap (th s t) c) [0..<CONFIG_MAX_CPUS]))"

definition thread_sched_idle_select_runq :: "nat \<Rightarrow> sched \<Rightarrow> nat option" where
  "thread_sched_idle_select_runq t s = None"

section \<open>Sleeping, waking up, exiting\<close>

text \<open>
  The result is the error number, or none for success. Waking up is two critical sections: the thread is made runnable
  under the lock of the run queue it was in last, and enters the one chosen for it under another lock. Other
  processors may run in between.
\<close>

definition wakeup_begin :: "nat \<Rightarrow> nat option \<Rightarrow> sched \<Rightarrow> (errno option \<times> sched) option" where
  "wakeup_begin self thread s = (case thread of
     None \<Rightarrow> Some (Some EINVAL, s)
   | Some t \<Rightarrow>
       if t = self then Some (Some EINVAL, s)
       else if th_runq (th s t) \<noteq> None \<and> th_state (th s t) = THREAD_RUNNING then Some (Some EINVAL, s)
       else do {
         assert_that (th_state (th s t) \<noteq> THREAD_RUNNING);
         Some (None, set_state t THREAD_RUNNING (thread_clear_wchan t s)) })"

definition wakeup_end :: "nat \<Rightarrow> errno option \<Rightarrow> sched \<Rightarrow> sched option" where
  "wakeup_end t error s = do {
     let k = thread_real_sched_class (th s t);
     c \<leftarrow> (if th_pin_level (th s t) = 0 then
         (if k = THREAD_SCHED_CLASS_RT then thread_sched_rt_select_runq t s
          else if k = THREAD_SCHED_CLASS_FS then thread_sched_fs_select_runq t s
          else if k = THREAD_SCHED_CLASS_IDLE then thread_sched_idle_select_runq t s
          else None)
       else th_runq (th s t));
     let s = set_thread t ((th s t)\<lparr>th_wakeup_error := error\<rparr>) s;
     thread_runq_wakeup c t s }"

definition thread_wakeup_common :: "nat \<Rightarrow> nat option \<Rightarrow> errno option \<Rightarrow> sched \<Rightarrow> (errno option \<times> sched) option" where
  "thread_wakeup_common self thread error s = do {
     (e, s) \<leftarrow> wakeup_begin self thread s;
     if e \<noteq> None then Some (e, s)
     else do {
       t \<leftarrow> thread;
       s \<leftarrow> wakeup_end t error s;
       Some (None, s) } }"

definition thread_wakeup :: "nat \<Rightarrow> nat option \<Rightarrow> sched \<Rightarrow> (errno option \<times> sched) option" where
  "thread_wakeup self thread s = thread_wakeup_common self thread None s"

definition thread_timeout :: "nat \<Rightarrow> nat \<Rightarrow> sched \<Rightarrow> (errno option \<times> sched) option" where
  "thread_timeout self thread s = thread_wakeup_common self (Some thread) (Some ETIMEDOUT) s"

definition thread_sleep_common :: "nat \<Rightarrow> u64 \<Rightarrow> sched \<Rightarrow> sched option" where
  "thread_sleep_common c wchan_addr s = do {
     let thread = rq_current (rq s c);
     s \<leftarrow> thread_set_wchan thread wchan_addr s;
     thread_runq_schedule c (set_state thread THREAD_SLEEPING s) }"

definition thread_exit :: "nat \<Rightarrow> sched \<Rightarrow> sched option" where
  "thread_exit c s = thread_runq_schedule c (set_state (rq_current (rq s c)) THREAD_DEAD s)"

text \<open>
  The loop of \<^verbatim>\<open>thread_yield\<close>: a thread that keeps the processor tests its flag again. One that is switched out does
  so when it is chosen again, which is the end of the step here.
\<close>

definition thread_preempt_enabled :: "nat \<Rightarrow> sched \<Rightarrow> bool" where
  "thread_preempt_enabled c s \<longleftrightarrow> th_preempt_level (th s (rq_current (rq s c))) = 0"

partial_function (option) yield_loop :: "nat \<Rightarrow> sched \<Rightarrow> sched option" where
  "yield_loop c s = do {
     let thread = rq_current (rq s c);
     s \<leftarrow> thread_runq_schedule c s;
     if rq_current (rq s c) = thread \<and> thread_test_flag s thread THREAD_YIELD then yield_loop c s else Some s }"

definition thread_yield :: "nat \<Rightarrow> sched \<Rightarrow> sched option" where
  "thread_yield c s = (if \<not> thread_preempt_enabled c s then Some s else yield_loop c s)"

definition thread_schedule :: "nat \<Rightarrow> sched \<Rightarrow> sched option" where
  "thread_schedule c s = (if thread_test_flag s (rq_current (rq s c)) THREAD_YIELD then thread_yield c s else Some s)"

section \<open>Preemption and migration\<close>

definition thread_preempt_disable :: "nat \<Rightarrow> sched \<Rightarrow> sched option" where
  "thread_preempt_disable c s = do {
     let thread = rq_current (rq s c);
     let s = set_thread thread ((th s thread)\<lparr>th_preempt_level := th_preempt_level (th s thread) + 1\<rparr>) s;
     assert_that (th_preempt_level (th s thread) \<noteq> 0);
     Some s }"

definition thread_preempt_enable_no_resched :: "nat \<Rightarrow> sched \<Rightarrow> sched option" where
  "thread_preempt_enable_no_resched c s = do {
     let thread = rq_current (rq s c);
     assert_that (th_preempt_level (th s thread) \<noteq> 0);
     Some (set_thread thread ((th s thread)\<lparr>th_preempt_level := th_preempt_level (th s thread) - 1\<rparr>) s) }"

text \<open>Without the propagation of an inherited priority, which belongs to the turnstiles.\<close>

definition thread_preempt_enable :: "nat \<Rightarrow> sched \<Rightarrow> sched option" where
  "thread_preempt_enable c s = do {
     s \<leftarrow> thread_preempt_enable_no_resched c s;
     thread_schedule c s }"

definition thread_pin :: "nat \<Rightarrow> sched \<Rightarrow> sched option" where
  "thread_pin c s = do {
     let thread = rq_current (rq s c);
     let s = set_thread thread ((th s thread)\<lparr>th_pin_level := th_pin_level (th s thread) + 1\<rparr>) s;
     assert_that (th_pin_level (th s thread) \<noteq> 0);
     Some s }"

definition thread_unpin :: "nat \<Rightarrow> sched \<Rightarrow> sched option" where
  "thread_unpin c s = do {
     let thread = rq_current (rq s c);
     assert_that (th_pin_level (th s thread) \<noteq> 0);
     Some (set_thread thread ((th s thread)\<lparr>th_pin_level := th_pin_level (th s thread) - 1\<rparr>) s) }"

section \<open>Periodic events\<close>

definition thread_balance_idle_tick :: "nat \<Rightarrow> sched \<Rightarrow> sched option" where
  "thread_balance_idle_tick c s = do {
     assert_that (rq_idle_balance_ticks (rq s c) \<noteq> 0);
     if rq_balancer (rq s c) = None then Some s
     else do {
       let s = set_runq c ((rq s c)\<lparr>rq_idle_balance_ticks := rq_idle_balance_ticks (rq s c) - 1\<rparr>) s;
       if rq_idle_balance_ticks (rq s c) = 0 then thread_runq_wakeup_balancer c s else Some s } }"

definition thread_report_periodic_event :: "nat \<Rightarrow> sched \<Rightarrow> sched option" where
  "thread_report_periodic_event c s = do {
     let thread = rq_current (rq s c);
     s \<leftarrow> (if rq_nr_threads (rq s c) = 0 then thread_balance_idle_tick c s else Some s);
     let k = thread_real_sched_class (th s thread);
     if k = THREAD_SCHED_CLASS_RT then Some (thread_sched_rt_tick thread s)
     else if k = THREAD_SCHED_CLASS_FS then thread_sched_fs_tick c thread s
     else if k = THREAD_SCHED_CLASS_IDLE then Some s
     else None }"

section \<open>Balancing\<close>

definition thread_sched_fs_start_next_round :: "nat \<Rightarrow> sched \<Rightarrow> sched option" where
  "thread_sched_fs_start_next_round c s = do {
     let s = set_runq c ((rq s c)\<lparr>rq_fs_expired := rq_fs_active (rq s c), rq_fs_active := rq_fs_expired (rq s c)\<rparr>) s;
     if fq_nr_threads (fs_queue s c (rq_fs_active (rq s c))) \<noteq> 0 then do {
       let s = set_runq c ((rq s c)\<lparr>rq_fs_round := rq_fs_round (rq s c) + 1\<rparr>) s;
       let s = (if sint (rq_fs_round (rq s c) - sy_fs_highest_round s) > 0
         then s\<lparr>sy_fs_highest_round := rq_fs_round (rq s c)\<rparr> else s);
       thread_sched_fs_restart c s }
     else Some s }"

definition thread_sched_fs_balance_eligible :: "nat \<Rightarrow> u64 \<Rightarrow> sched \<Rightarrow> bool" where
  "thread_sched_fs_balance_eligible c highest_round s =
     (if rq_fs_weight (rq s c) = 0 then False
      else if rq_fs_round (rq s c) \<noteq> highest_round \<and> rq_fs_round (rq s c) \<noteq> highest_round - 1 then False
      else
        let nr_threads = fq_nr_threads (fs_queue s c (rq_fs_active (rq s c))) + fq_nr_threads (fs_queue s c (rq_fs_expired (rq s c))) in
        \<not> (nr_threads = 0 \<or> nr_threads = 1 \<and> thread_real_sched_class (th s (rq_current (rq s c))) = THREAD_SCHED_CLASS_FS))"

fun balance_scan :: "nat \<Rightarrow> u64 \<Rightarrow> sched \<Rightarrow> nat option \<Rightarrow> nat list \<Rightarrow> nat option" where
  "balance_scan c highest_round s remote [] = remote"
| "balance_scan c highest_round s remote (i # is) =
     (if i = c \<or> \<not> thread_sched_fs_balance_eligible i highest_round s then balance_scan c highest_round s remote is
      else case remote of
        None \<Rightarrow> balance_scan c highest_round s (Some i) is
      | Some r \<Rightarrow>
          if rq_fs_weight (rq s i) > rq_fs_weight (rq s r) then balance_scan c highest_round s (Some i) is
          else balance_scan c highest_round s (Some r) is)"

definition active_cpus :: "sched \<Rightarrow> nat list" where
  "active_cpus s = filter (sy_active_runqs s) [0..<CONFIG_MAX_CPUS]"

definition thread_sched_fs_balance_scan :: "nat \<Rightarrow> u64 \<Rightarrow> sched \<Rightarrow> nat option" where
  "thread_sched_fs_balance_scan c highest_round s = balance_scan c highest_round s None (active_cpus s)"

text \<open>The loop over the threads of a remote queue: the next node is read before a thread is moved.\<close>

partial_function (option) balance_pull_loop ::
  "nat \<Rightarrow> nat \<Rightarrow> bool \<Rightarrow> sched_node option \<Rightarrow> sched_node option \<Rightarrow> u32 \<Rightarrow> sched \<Rightarrow> (u32 \<times> sched) option" where
  "balance_pull_loop c r i node tmp nr_pulls s =
     (if list_end (Fs_threads r i) node then Some (nr_pulls, s)
      else do {
        n \<leftarrow> node;
        t \<leftarrow> runq_thread_entry n;
        tn \<leftarrow> tmp;
        if t = rq_current (rq s r) \<or> th_pin_level (th s t) \<noteq> 0 \<or> \<not> th_cpumap (th s t) c then
          balance_pull_loop c r i tmp (list_next tn (sy_links s)) nr_pulls s
        else if nr_pulls \<noteq> 0 \<and> rq_fs_weight (rq s c) + ucast (fd_weight (th_fs (th s t)))
            > rq_fs_weight (rq s r) - ucast (fd_weight (th_fs (th s t))) then Some (nr_pulls, s)
        else do {
          s \<leftarrow> thread_runq_remove r t s;
          let s = set_fs t ((th_fs (th s t))\<lparr>fd_round := rq_fs_round (rq s c)\<rparr>) s;
          s \<leftarrow> thread_runq_add c t s;
          let nr_pulls = nr_pulls + 1;
          if nr_pulls = THREAD_MAX_MIGRATIONS then Some (nr_pulls, s)
          else balance_pull_loop c r i tmp (list_next tn (sy_links s)) nr_pulls s } })"

definition thread_sched_fs_balance_pull :: "nat \<Rightarrow> nat \<Rightarrow> bool \<Rightarrow> u32 \<Rightarrow> sched \<Rightarrow> (u32 \<times> sched) option" where
  "thread_sched_fs_balance_pull c r i nr_pulls s = do {
     n \<leftarrow> list_first (Fs_threads r i) (sy_links s);
     balance_pull_loop c r i (Some n) (list_next n (sy_links s)) nr_pulls s }"

definition thread_sched_fs_balance_migrate :: "nat \<Rightarrow> nat \<Rightarrow> u64 \<Rightarrow> sched \<Rightarrow> (u32 \<times> sched) option" where
  "thread_sched_fs_balance_migrate c r highest_round s =
     (if \<not> thread_sched_fs_balance_eligible r highest_round s then Some (0, s)
      else do {
        (nr_pulls, s) \<leftarrow> thread_sched_fs_balance_pull c r (rq_fs_active (rq s r)) 0 s;
        if nr_pulls = THREAD_MAX_MIGRATIONS then Some (nr_pulls, s)
        else if rq_fs_round (rq s r) \<noteq> highest_round
        then thread_sched_fs_balance_pull c r (rq_fs_expired (rq s r)) nr_pulls s
        else Some (nr_pulls, s) })"

fun balance_fallback :: "nat \<Rightarrow> u64 \<Rightarrow> nat list \<Rightarrow> sched \<Rightarrow> (bool \<times> sched) option" where
  "balance_fallback c highest_round [] s = Some (False, s)"
| "balance_fallback c highest_round (r # rs) s =
     (if r = c then balance_fallback c highest_round rs s
      else do {
        (nr_migrations, s) \<leftarrow> thread_sched_fs_balance_migrate c r highest_round s;
        if nr_migrations \<noteq> 0 then Some (True, s) else balance_fallback c highest_round rs s })"

definition balance_no_migration :: "nat \<Rightarrow> sched \<Rightarrow> sched option" where
  "balance_no_migration c s =
     (if fq_nr_threads (fs_queue s c (rq_fs_active (rq s c))) = 0 then thread_sched_fs_start_next_round c s else Some s)"

text \<open>A balancing attempt with no other processor interfering where it releases its lock.\<close>

definition thread_sched_fs_balance :: "nat \<Rightarrow> sched \<Rightarrow> sched option" where
  "thread_sched_fs_balance c s = do {
     let highest_round = sy_fs_highest_round s;
     if rq_fs_round (rq s c) \<noteq> highest_round \<and> fq_nr_threads (fs_queue s c (rq_fs_expired (rq s c))) \<noteq> 0
     then balance_no_migration c s
     else do {
       (done, s) \<leftarrow> (case thread_sched_fs_balance_scan c highest_round s of
           None \<Rightarrow> Some (False, s)
         | Some r \<Rightarrow> do {
             (nr_migrations, s) \<leftarrow> thread_sched_fs_balance_migrate c r highest_round s;
             Some (nr_migrations \<noteq> 0, s) });
       if done then Some s
       else do {
         (done, s) \<leftarrow> balance_fallback c highest_round (active_cpus s) s;
         if done then Some s else balance_no_migration c s } } }"

text \<open>The balancer goes to sleep until the next attempt.\<close>

definition thread_balance_sleep :: "nat \<Rightarrow> u64 \<Rightarrow> sched \<Rightarrow> sched option" where
  "thread_balance_sleep c wchan_addr s = do {
     self \<leftarrow> rq_balancer (rq s c);
     let s = set_runq c ((rq s c)\<lparr>rq_idle_balance_ticks := THREAD_IDLE_BALANCE_TICKS\<rparr>) s;
     s \<leftarrow> thread_set_wchan self wchan_addr s;
     thread_runq_schedule c (set_state self THREAD_SLEEPING s) }"

text \<open>What the balancer does when it has been chosen, until it sleeps again.\<close>

definition thread_balance :: "nat \<Rightarrow> u64 \<Rightarrow> sched \<Rightarrow> sched option" where
  "thread_balance c wchan_addr s = do {
     s \<leftarrow> thread_sched_fs_balance c s;
     thread_balance_sleep c wchan_addr s }"

section \<open>Scheduling parameters\<close>

definition class_global_priority :: "nat \<Rightarrow> nat \<Rightarrow> nat option" where
  "class_global_priority k priority =
     (if k = THREAD_SCHED_CLASS_RT then Some (thread_sched_rt_get_global_priority priority)
      else if k = THREAD_SCHED_CLASS_FS then Some (thread_sched_fs_get_global_priority priority)
      else if k = THREAD_SCHED_CLASS_IDLE then Some (thread_sched_idle_get_global_priority priority)
      else None)"

definition class_reset_priority :: "nat \<Rightarrow> nat \<Rightarrow> nat \<Rightarrow> sched \<Rightarrow> sched option" where
  "class_reset_priority k t priority s =
     (if k = THREAD_SCHED_CLASS_RT then thread_sched_rt_reset_priority t priority s
      else if k = THREAD_SCHED_CLASS_FS then thread_sched_fs_reset_priority t priority s
      else Some s)"

definition class_update_priority :: "nat \<Rightarrow> nat \<Rightarrow> nat \<Rightarrow> sched \<Rightarrow> sched option" where
  "class_update_priority k t priority s =
     (if k = THREAD_SCHED_CLASS_FS then thread_sched_fs_update_priority t priority s else Some s)"

definition thread_set_user_sched_policy :: "nat \<Rightarrow> nat \<Rightarrow> sched \<Rightarrow> sched" where
  "thread_set_user_sched_policy t policy s = set_thread t ((th s t)\<lparr>th_user := (th_user (th s t))\<lparr>sd_policy := policy\<rparr>\<rparr>) s"

definition thread_set_user_sched_class :: "nat \<Rightarrow> nat \<Rightarrow> sched \<Rightarrow> sched" where
  "thread_set_user_sched_class t k s = set_thread t ((th s t)\<lparr>th_user := (th_user (th s t))\<lparr>sd_class := k\<rparr>\<rparr>) s"

definition thread_set_user_priority :: "nat \<Rightarrow> nat \<Rightarrow> sched \<Rightarrow> sched option" where
  "thread_set_user_priority t priority s = do {
     g \<leftarrow> class_global_priority (thread_user_sched_class (th s t)) priority;
     Some (set_thread t ((th s t)\<lparr>th_user := (th_user (th s t))\<lparr>sd_priority := priority, sd_global_priority := g\<rparr>\<rparr>) s) }"

definition thread_update_user_priority :: "nat \<Rightarrow> nat \<Rightarrow> sched \<Rightarrow> sched option" where
  "thread_update_user_priority t priority s = thread_set_user_priority t priority s"

definition thread_set_real_sched_policy :: "nat \<Rightarrow> nat \<Rightarrow> sched \<Rightarrow> sched" where
  "thread_set_real_sched_policy t policy s = set_thread t ((th s t)\<lparr>th_real := (th_real (th s t))\<lparr>sd_policy := policy\<rparr>\<rparr>) s"

definition thread_set_real_sched_class :: "nat \<Rightarrow> nat \<Rightarrow> sched \<Rightarrow> sched" where
  "thread_set_real_sched_class t k s = set_thread t ((th s t)\<lparr>th_real := (th_real (th s t))\<lparr>sd_class := k\<rparr>\<rparr>) s"

definition thread_set_real_priority :: "nat \<Rightarrow> nat \<Rightarrow> sched \<Rightarrow> sched option" where
  "thread_set_real_priority t priority s = do {
     let k = thread_real_sched_class (th s t);
     g \<leftarrow> class_global_priority k priority;
     let s = set_thread t ((th s t)\<lparr>th_real := (th_real (th s t))\<lparr>sd_priority := priority, sd_global_priority := g\<rparr>\<rparr>) s;
     class_reset_priority k t priority s }"

definition thread_update_real_priority :: "nat \<Rightarrow> nat \<Rightarrow> sched \<Rightarrow> sched option" where
  "thread_update_real_priority t priority s = do {
     let k = thread_real_sched_class (th s t);
     g \<leftarrow> class_global_priority k priority;
     let s = set_thread t ((th s t)\<lparr>th_real := (th_real (th s t))\<lparr>sd_priority := priority, sd_global_priority := g\<rparr>\<rparr>) s;
     class_update_priority k t priority s }"

definition thread_reset_real_priority :: "nat \<Rightarrow> sched \<Rightarrow> sched option" where
  "thread_reset_real_priority t s = do {
     let s = set_thread t ((th s t)\<lparr>th_real := th_user (th s t), th_boosted := False\<rparr>) s;
     let k = thread_user_sched_class (th s t);
     assert_that (k \<le> THREAD_SCHED_CLASS_IDLE);
     class_reset_priority k t (thread_real_priority (th s t)) s }"

text \<open>Taking a thread out of its run queue and putting it back, around a change of its parameters.\<close>

definition sched_dequeue :: "nat \<Rightarrow> nat \<Rightarrow> sched \<Rightarrow> (bool \<times> bool \<times> sched) option" where
  "sched_dequeue c t s =
     (if \<not> th_in_runq (th s t) then Some (False, False, s)
      else do {
        (current, s) \<leftarrow> (if t \<noteq> rq_current (rq s c) then Some (False, s)
          else do { s \<leftarrow> thread_runq_put_prev c t s; Some (True, s) });
        s \<leftarrow> thread_runq_remove c t s;
        Some (True, current, s) })"

definition sched_requeue :: "nat \<Rightarrow> nat \<Rightarrow> bool \<Rightarrow> bool \<Rightarrow> sched \<Rightarrow> sched option" where
  "sched_requeue c t requeue current s =
     (if requeue then do {
        s \<leftarrow> thread_runq_add c t s;
        if current then thread_runq_set_next c t s else Some s }
      else Some s)"

definition set_real_parameters :: "nat \<Rightarrow> nat \<Rightarrow> nat \<Rightarrow> sched \<Rightarrow> sched option" where
  "set_real_parameters t policy priority s = do {
     let s = thread_set_real_sched_policy t policy s;
     k \<leftarrow> thread_policy_to_class policy;
     thread_set_real_priority t priority (thread_set_real_sched_class t k s) }"

definition thread_setscheduler :: "nat \<Rightarrow> nat \<Rightarrow> nat \<Rightarrow> sched \<Rightarrow> sched option" where
  "thread_setscheduler t policy priority s = do {
     c \<leftarrow> th_runq (th s t);
     if thread_user_sched_policy (th s t) = policy \<and> thread_user_priority (th s t) = priority then Some s
     else do {
       (requeue, current, s) \<leftarrow> sched_dequeue c t s;
       (update, s) \<leftarrow>
         (if thread_user_sched_policy (th s t) = policy then do {
            s \<leftarrow> thread_update_user_priority t priority s;
            Some (True, s) }
          else do {
            let s = thread_set_user_sched_policy t policy s;
            k \<leftarrow> thread_policy_to_class policy;
            s \<leftarrow> thread_set_user_priority t priority (thread_set_user_sched_class t k s);
            Some (False, s) });
       s \<leftarrow> (if th_boosted (th s t) then
           (if thread_user_global_priority (th s t) \<ge> thread_real_global_priority (th s t)
            then thread_reset_real_priority t s else Some s)
         else if update then thread_update_real_priority t priority s
         else set_real_parameters t policy priority s);
       sched_requeue c t requeue current s } }"

definition thread_pi_setscheduler :: "nat \<Rightarrow> nat \<Rightarrow> nat \<Rightarrow> sched \<Rightarrow> sched option" where
  "thread_pi_setscheduler t policy priority s = do {
     k \<leftarrow> thread_policy_to_class policy;
     global_priority \<leftarrow> class_global_priority k priority;
     c \<leftarrow> th_runq (th s t);
     if thread_real_sched_policy (th s t) = policy \<and> thread_real_priority (th s t) = priority then Some s
     else do {
       (requeue, current, s) \<leftarrow> sched_dequeue c t s;
       s \<leftarrow> (if global_priority \<le> thread_user_global_priority (th s t) then thread_reset_real_priority t s
         else do {
           s \<leftarrow> (if thread_real_sched_policy (th s t) = policy then thread_update_real_priority t priority s
             else set_real_parameters t policy priority s);
           Some (set_thread t ((th s t)\<lparr>th_boosted := True\<rparr>) s) });
       sched_requeue c t requeue current s } }"

end
