(* ===== verification/Sched_Inv.thy ===== *)
theory Sched_Inv
  imports Sched_Runq
begin

text \<open>
  The invariant of the scheduler. \<open>queues\<close> names the sequences the lists stand for: the threads
  of each real-time priority, the threads and the groups of each fair-scheduling queue and the threads of
  each group. \<open>run c\<close> is the thread the processor \<open>c\<close> has taken out to run it: a real-time
  thread leaves its list, a fair-scheduling one only the list of its group.
\<close>

unbundle bit_operations_syntax

section \<open>The lists of the scheduler\<close>

record queues =
  q_rt :: "nat \<Rightarrow> nat \<Rightarrow> nat list"
  q_groups :: "nat \<Rightarrow> bool \<Rightarrow> nat list"
  q_grp :: "nat \<Rightarrow> bool \<Rightarrow> nat \<Rightarrow> nat list"
  q_thr :: "nat \<Rightarrow> bool \<Rightarrow> nat list"

fun node_seq :: "queues \<Rightarrow> sched_node \<Rightarrow> sched_node list" where
  "node_seq q (Rt_threads c p) = map Rt_node (q_rt q c p)"
| "node_seq q (Fs_groups c i) = map (Fs_group c i) (q_groups q c i)"
| "node_seq q (Fs_group_threads c i g) = map Fs_group_node (q_grp q c i g)"
| "node_seq q (Fs_threads c i) = map Fs_runq_node (q_thr q c i)"
| "node_seq q _ = []"

definition node_heads :: "nat set \<Rightarrow> sched_node set" where
  "node_heads C = {l. case l of Rt_threads c p \<Rightarrow> c \<in> C \<and> p \<le> THREAD_SCHED_RT_PRIO_MAX
     | Fs_groups c i \<Rightarrow> c \<in> C | Fs_group_threads c i g \<Rightarrow> c \<in> C \<and> g \<le> THREAD_SCHED_FS_PRIO_MAX
     | Fs_threads c i \<Rightarrow> c \<in> C | _ \<Rightarrow> False}"

lemma node_heads_iff [simp]:
  "Rt_threads c p \<in> node_heads C \<longleftrightarrow> c \<in> C \<and> p \<le> THREAD_SCHED_RT_PRIO_MAX"
  "Fs_groups c i \<in> node_heads C \<longleftrightarrow> c \<in> C"
  "Fs_group_threads c i g \<in> node_heads C \<longleftrightarrow> c \<in> C \<and> g \<le> THREAD_SCHED_FS_PRIO_MAX"
  "Fs_threads c i \<in> node_heads C \<longleftrightarrow> c \<in> C"
  "Rt_node t \<notin> node_heads C" "Fs_group c i g \<notin> node_heads C" "Fs_group_node t \<notin> node_heads C" "Fs_runq_node t \<notin> node_heads C"
  by (simp_all add: node_heads_def)

definition set_rt :: "nat \<Rightarrow> nat \<Rightarrow> nat list \<Rightarrow> queues \<Rightarrow> queues" where
  "set_rt c p xs q = q\<lparr>q_rt := (q_rt q)(c := (q_rt q c)(p := xs))\<rparr>"

definition set_groups :: "nat \<Rightarrow> bool \<Rightarrow> nat list \<Rightarrow> queues \<Rightarrow> queues" where
  "set_groups c i xs q = q\<lparr>q_groups := (q_groups q)(c := (q_groups q c)(i := xs))\<rparr>"

definition set_grp :: "nat \<Rightarrow> bool \<Rightarrow> nat \<Rightarrow> nat list \<Rightarrow> queues \<Rightarrow> queues" where
  "set_grp c i g xs q = q\<lparr>q_grp := (q_grp q)(c := (q_grp q c)(i := (q_grp q c i)(g := xs)))\<rparr>"

definition set_thr :: "nat \<Rightarrow> bool \<Rightarrow> nat list \<Rightarrow> queues \<Rightarrow> queues" where
  "set_thr c i xs q = q\<lparr>q_thr := (q_thr q)(c := (q_thr q c)(i := xs))\<rparr>"

lemma set_queues_select [simp]:
  "q_rt (set_rt c p xs q) c' p' = (if c' = c \<and> p' = p then xs else q_rt q c' p')"
  "q_groups (set_rt c p xs q) = q_groups q" "q_grp (set_rt c p xs q) = q_grp q" "q_thr (set_rt c p xs q) = q_thr q"
  "q_groups (set_groups c i ys q) c' i' = (if c' = c \<and> i' = i then ys else q_groups q c' i')"
  "q_rt (set_groups c i ys q) = q_rt q" "q_grp (set_groups c i ys q) = q_grp q" "q_thr (set_groups c i ys q) = q_thr q"
  "q_grp (set_grp c i g zs q) c' i' g' = (if c' = c \<and> i' = i \<and> g' = g then zs else q_grp q c' i' g')"
  "q_rt (set_grp c i g zs q) = q_rt q" "q_groups (set_grp c i g zs q) = q_groups q" "q_thr (set_grp c i g zs q) = q_thr q"
  "q_thr (set_thr c i ws q) c' i' = (if c' = c \<and> i' = i then ws else q_thr q c' i')"
  "q_rt (set_thr c i ws q) = q_rt q" "q_groups (set_thr c i ws q) = q_groups q" "q_grp (set_thr c i ws q) = q_grp q"
  by (simp_all add: set_rt_def set_groups_def set_grp_def set_thr_def)

lemma node_seq_update:
  "node_seq (set_rt c p xs q) = (node_seq q)(Rt_threads c p := map Rt_node xs)"
  "node_seq (set_groups c i ys q) = (node_seq q)(Fs_groups c i := map (Fs_group c i) ys)"
  "node_seq (set_grp c i g xs q) = (node_seq q)(Fs_group_threads c i g := map Fs_group_node xs)"
  "node_seq (set_thr c i xs q) = (node_seq q)(Fs_threads c i := map Fs_runq_node xs)"
proof -
  have "node_seq (set_rt c p xs q) l = ((node_seq q)(Rt_threads c p := map Rt_node xs)) l"
    "node_seq (set_groups c i ys q) l = ((node_seq q)(Fs_groups c i := map (Fs_group c i) ys)) l"
    "node_seq (set_grp c i g xs q) l = ((node_seq q)(Fs_group_threads c i g := map Fs_group_node xs)) l"
    "node_seq (set_thr c i xs q) l = ((node_seq q)(Fs_threads c i := map Fs_runq_node xs)) l" for l
    by (cases l; auto)+
  then show "node_seq (set_rt c p xs q) = (node_seq q)(Rt_threads c p := map Rt_node xs)"
    "node_seq (set_groups c i ys q) = (node_seq q)(Fs_groups c i := map (Fs_group c i) ys)"
    "node_seq (set_grp c i g xs q) = (node_seq q)(Fs_group_threads c i g := map Fs_group_node xs)"
    "node_seq (set_thr c i xs q) = (node_seq q)(Fs_threads c i := map Fs_runq_node xs)" by auto
qed

definition links_ok :: "sched_node links \<Rightarrow> nat set \<Rightarrow> queues \<Rightarrow> bool" where
  "links_ok h C q \<longleftrightarrow> lists h (node_heads C) (node_seq q)"

lemma listed_nodes:
  "Rt_node t \<in> listed (node_heads C) (node_seq q) \<longleftrightarrow> (\<exists>c\<in>C. \<exists>p\<le>THREAD_SCHED_RT_PRIO_MAX. t \<in> set (q_rt q c p))"
  "Fs_group c i g \<in> listed (node_heads C) (node_seq q) \<longleftrightarrow> c \<in> C \<and> g \<in> set (q_groups q c i)"
  "Fs_group_node t \<in> listed (node_heads C) (node_seq q) \<longleftrightarrow> (\<exists>c\<in>C. \<exists>i. \<exists>g\<le>THREAD_SCHED_FS_PRIO_MAX. t \<in> set (q_grp q c i g))"
  "Fs_runq_node t \<in> listed (node_heads C) (node_seq q) \<longleftrightarrow> (\<exists>c\<in>C. \<exists>i. t \<in> set (q_thr q c i))"
proof -
  have *: "n \<in> set (node_seq q l) \<longleftrightarrow> (case n of
      Rt_node t \<Rightarrow> (\<exists>c p. l = Rt_threads c p \<and> t \<in> set (q_rt q c p))
    | Fs_group c i g \<Rightarrow> l = Fs_groups c i \<and> g \<in> set (q_groups q c i)
    | Fs_group_node t \<Rightarrow> (\<exists>c i g. l = Fs_group_threads c i g \<and> t \<in> set (q_grp q c i g))
    | Fs_runq_node t \<Rightarrow> (\<exists>c i. l = Fs_threads c i \<and> t \<in> set (q_thr q c i))
    | _ \<Rightarrow> False)" for n l
    by (cases l; cases n) auto
  show "Rt_node t \<in> listed (node_heads C) (node_seq q) \<longleftrightarrow> (\<exists>c\<in>C. \<exists>p\<le>THREAD_SCHED_RT_PRIO_MAX. t \<in> set (q_rt q c p))"
    "Fs_group c i g \<in> listed (node_heads C) (node_seq q) \<longleftrightarrow> c \<in> C \<and> g \<in> set (q_groups q c i)"
    "Fs_group_node t \<in> listed (node_heads C) (node_seq q) \<longleftrightarrow> (\<exists>c\<in>C. \<exists>i. \<exists>g\<le>THREAD_SCHED_FS_PRIO_MAX. t \<in> set (q_grp q c i g))"
    "Fs_runq_node t \<in> listed (node_heads C) (node_seq q) \<longleftrightarrow> (\<exists>c\<in>C. \<exists>i. t \<in> set (q_thr q c i))"
    unfolding listed_def by (force simp: *)+
qed

section \<open>Operations on the lists\<close>

lemma links_rt:
  assumes "links_ok h C q" "c \<in> C" "p \<le> THREAD_SCHED_RT_PRIO_MAX"
  shows "list_empty (Rt_threads c p) h \<longleftrightarrow> q_rt q c p = []" "list_singular (Rt_threads c p) h \<longleftrightarrow> length (q_rt q c p) = 1"
    "q_rt q c p \<noteq> [] \<Longrightarrow> list_first (Rt_threads c p) h = Some (Rt_node (hd (q_rt q c p)))" "distinct (q_rt q c p)"
proof -
  have l: "lists h (node_heads C) (node_seq q)" "Rt_threads c p \<in> node_heads C" using assms by (simp_all add: links_ok_def)
  show "list_empty (Rt_threads c p) h \<longleftrightarrow> q_rt q c p = []" "list_singular (Rt_threads c p) h \<longleftrightarrow> length (q_rt q c p) = 1"
    using lists_empty [OF l] lists_singular [OF l] by simp_all
  show "q_rt q c p \<noteq> [] \<Longrightarrow> list_first (Rt_threads c p) h = Some (Rt_node (hd (q_rt q c p)))"
    using lists_first [OF l] by (cases "q_rt q c p") simp_all
  show "distinct (q_rt q c p)" using lists_distinct [OF l] by (simp add: distinct_map)
qed

lemma links_fs:
  assumes "links_ok h C q" "c \<in> C"
  shows "distinct (q_groups q c i)" "distinct (q_thr q c i)" "g \<le> THREAD_SCHED_FS_PRIO_MAX \<Longrightarrow> distinct (q_grp q c i g)"
    "list_first (Fs_groups c i) h = Some (hd (map (Fs_group c i) (q_groups q c i) @ [Fs_groups c i]))"
    "list_last (Fs_groups c i) h = Some (last (Fs_groups c i # map (Fs_group c i) (q_groups q c i)))"
    "g \<le> THREAD_SCHED_FS_PRIO_MAX \<Longrightarrow> q_grp q c i g \<noteq> [] \<Longrightarrow> list_first (Fs_group_threads c i g) h = Some (Fs_group_node (hd (q_grp q c i g)))"
    "list_first (Fs_threads c i) h = Some (hd (map Fs_runq_node (q_thr q c i) @ [Fs_threads c i]))"
proof -
  note l = assms(1) [unfolded links_ok_def]
  have hd: "Fs_groups c i \<in> node_heads C" "Fs_threads c i \<in> node_heads C" using assms by simp_all
  show "distinct (q_groups q c i)" "distinct (q_thr q c i)" using lists_distinct [OF l hd(1)] lists_distinct [OF l hd(2)] by (simp_all add: distinct_map)
  show "list_first (Fs_groups c i) h = Some (hd (map (Fs_group c i) (q_groups q c i) @ [Fs_groups c i]))"
    "list_last (Fs_groups c i) h = Some (last (Fs_groups c i # map (Fs_group c i) (q_groups q c i)))"
    "list_first (Fs_threads c i) h = Some (hd (map Fs_runq_node (q_thr q c i) @ [Fs_threads c i]))"
    using lists_ends [OF l hd(1)] lists_ends [OF l hd(2)] by (simp_all add: list_first_def list_last_def)
  assume "g \<le> THREAD_SCHED_FS_PRIO_MAX"
  then have g: "Fs_group_threads c i g \<in> node_heads C" using assms by simp
  show "distinct (q_grp q c i g)" using lists_distinct [OF l g] by (simp add: distinct_map)
  show "q_grp q c i g \<noteq> [] \<Longrightarrow> list_first (Fs_group_threads c i g) h = Some (Fs_group_node (hd (q_grp q c i g)))"
    using lists_first [OF l g] by (cases "q_grp q c i g") simp_all
qed

lemma links_group_neighbours:
  assumes "links_ok h C q" "c \<in> C" "q_groups q c i = us @ g # vs"
  shows "list_next (Fs_group c i g) h = Some (hd (map (Fs_group c i) vs @ [Fs_groups c i]))"
    "list_prev (Fs_group c i g) h = Some (last (Fs_groups c i # map (Fs_group c i) us))"
  using lists_links [of h "node_heads C" "node_seq q" "Fs_groups c i" "map (Fs_group c i) us" "Fs_group c i g" "map (Fs_group c i) vs"] assms
  by (simp_all add: links_ok_def list_next_def list_prev_def)

definition same_groups :: "sched_node links \<Rightarrow> sched_node links \<Rightarrow> (nat \<times> bool) set \<Rightarrow> bool" where
  "same_groups h h' X \<longleftrightarrow> (\<forall>c i g. (c, i) \<notin> X \<longrightarrow> h' (Fs_group c i g) = h (Fs_group c i g))"

lemma same_groups_refl [simp]: "same_groups h h X" by (simp add: same_groups_def)

lemma same_groups_trans: "same_groups h h1 X \<Longrightarrow> same_groups h1 h2 Y \<Longrightarrow> same_groups h h2 (X \<union> Y)"
  by (simp add: same_groups_def)

lemma rt_insert:
  assumes "links_ok h C q" "c \<in> C" "p \<le> THREAD_SCHED_RT_PRIO_MAX" "\<forall>c\<in>C. \<forall>p\<le>THREAD_SCHED_RT_PRIO_MAX. t \<notin> set (q_rt q c p)"
  shows "\<exists>h'. list_insert_tail (Rt_threads c p) (Rt_node t) h = Some h' \<and> links_ok h' C (set_rt c p (q_rt q c p @ [t]) q) \<and> same_groups h h' {}"
proof -
  have "Rt_node t \<notin> listed (node_heads C) (node_seq q)" using assms(4) by (simp add: listed_nodes)
  from lists_insert_tail [OF assms(1) [unfolded links_ok_def] _ this, of "Rt_threads c p"] assms(2,3)
  show ?thesis by (auto simp: links_ok_def node_seq_update same_groups_def)
qed

lemma grp_insert:
  assumes "links_ok h C q" "c \<in> C" "g \<le> THREAD_SCHED_FS_PRIO_MAX" "\<forall>c\<in>C. \<forall>i. \<forall>g\<le>THREAD_SCHED_FS_PRIO_MAX. t \<notin> set (q_grp q c i g)"
  shows "\<exists>h'. list_insert_tail (Fs_group_threads c i g) (Fs_group_node t) h = Some h' \<and> links_ok h' C (set_grp c i g (q_grp q c i g @ [t]) q) \<and> same_groups h h' {}"
    "\<exists>h'. list_insert_head (Fs_group_threads c i g) (Fs_group_node t) h = Some h' \<and> links_ok h' C (set_grp c i g (t # q_grp q c i g) q) \<and> same_groups h h' {}"
proof -
  have "Fs_group_node t \<notin> listed (node_heads C) (node_seq q)" using assms(4) by (simp add: listed_nodes)
  from lists_insert_tail [OF assms(1) [unfolded links_ok_def] _ this, of "Fs_group_threads c i g"]
    lists_insert_head [OF assms(1) [unfolded links_ok_def] _ this, of "Fs_group_threads c i g"] assms(2,3)
  show "\<exists>h'. list_insert_tail (Fs_group_threads c i g) (Fs_group_node t) h = Some h' \<and> links_ok h' C (set_grp c i g (q_grp q c i g @ [t]) q) \<and> same_groups h h' {}"
    "\<exists>h'. list_insert_head (Fs_group_threads c i g) (Fs_group_node t) h = Some h' \<and> links_ok h' C (set_grp c i g (t # q_grp q c i g) q) \<and> same_groups h h' {}"
    by (auto simp: links_ok_def node_seq_update same_groups_def)
qed

lemma thr_insert:
  assumes "links_ok h C q" "c \<in> C" "\<forall>c\<in>C. \<forall>i. t \<notin> set (q_thr q c i)"
  shows "\<exists>h'. list_insert_tail (Fs_threads c i) (Fs_runq_node t) h = Some h' \<and> links_ok h' C (set_thr c i (q_thr q c i @ [t]) q) \<and> same_groups h h' {}"
proof -
  have "Fs_runq_node t \<notin> listed (node_heads C) (node_seq q)" using assms(3) by (simp add: listed_nodes)
  from lists_insert_tail [OF assms(1) [unfolded links_ok_def] _ this, of "Fs_threads c i"] assms(2)
  show ?thesis by (auto simp: links_ok_def node_seq_update same_groups_def)
qed

lemma split_remove1: "t \<in> set xs \<Longrightarrow> \<exists>us vs. xs = us @ t # vs \<and> remove1 t xs = us @ vs"
  by (metis remove1_append remove1.simps(2) split_list_first)

lemma rt_unlink:
  assumes "links_ok h C q" "c \<in> C" "p \<le> THREAD_SCHED_RT_PRIO_MAX" "t \<in> set (q_rt q c p)"
  shows "\<exists>h'. list_remove (Rt_node t) h = Some h' \<and> links_ok h' C (set_rt c p (remove1 t (q_rt q c p)) q) \<and> same_groups h h' {}"
proof -
  obtain us vs where u: "q_rt q c p = us @ t # vs" "remove1 t (q_rt q c p) = us @ vs" using split_remove1 [OF assms(4)] by blast
  from lists_remove [OF assms(1) [unfolded links_ok_def], of "Rt_threads c p" "map Rt_node us" "Rt_node t" "map Rt_node vs"] assms(2,3) u(1)
  show ?thesis unfolding u(2) by (auto simp: links_ok_def node_seq_update same_groups_def)
qed

lemma grp_unlink:
  assumes "links_ok h C q" "c \<in> C" "g \<le> THREAD_SCHED_FS_PRIO_MAX" "t \<in> set (q_grp q c i g)"
  shows "\<exists>h'. list_remove (Fs_group_node t) h = Some h' \<and> links_ok h' C (set_grp c i g (remove1 t (q_grp q c i g)) q) \<and> same_groups h h' {}"
proof -
  obtain us vs where u: "q_grp q c i g = us @ t # vs" "remove1 t (q_grp q c i g) = us @ vs" using split_remove1 [OF assms(4)] by blast
  from lists_remove [OF assms(1) [unfolded links_ok_def], of "Fs_group_threads c i g" "map Fs_group_node us" "Fs_group_node t" "map Fs_group_node vs"] assms(2,3) u(1)
  show ?thesis unfolding u(2) by (auto simp: links_ok_def node_seq_update same_groups_def)
qed

lemma thr_unlink:
  assumes "links_ok h C q" "c \<in> C" "t \<in> set (q_thr q c i)"
  shows "\<exists>h'. list_remove (Fs_runq_node t) h = Some h' \<and> links_ok h' C (set_thr c i (remove1 t (q_thr q c i)) q) \<and> same_groups h h' {}"
proof -
  obtain us vs where u: "q_thr q c i = us @ t # vs" "remove1 t (q_thr q c i) = us @ vs" using split_remove1 [OF assms(3)] by blast
  from lists_remove [OF assms(1) [unfolded links_ok_def], of "Fs_threads c i" "map Fs_runq_node us" "Fs_runq_node t" "map Fs_runq_node vs"] assms(2) u(1)
  show ?thesis unfolding u(2) by (auto simp: links_ok_def node_seq_update same_groups_def)
qed

lemma groups_unlink:
  assumes "links_ok h C q" "c \<in> C" "q_groups q c i = us @ g # vs"
  shows "\<exists>h'. list_remove (Fs_group c i g) h = Some h' \<and> links_ok h' C (set_groups c i (us @ vs) q) \<and> same_groups h h' {(c, i)}
    \<and> h' (Fs_group c i g) = h (Fs_group c i g)"
proof -
  have d: "g \<notin> set us" "g \<notin> set vs" using links_fs(1) [OF assms(1,2), of i] assms(3) by auto
  from lists_remove [OF assms(1) [unfolded links_ok_def], of "Fs_groups c i" "map (Fs_group c i) us" "Fs_group c i g" "map (Fs_group c i) vs"] assms(2,3)
  obtain h' where h': "list_remove (Fs_group c i g) h = Some h'" "lists h' (node_heads C) ((node_seq q)(Fs_groups c i := map (Fs_group c i) us @ map (Fs_group c i) vs))"
    "\<forall>n. n \<notin> set (Fs_groups c i # map (Fs_group c i) us @ map (Fs_group c i) vs) \<longrightarrow> h' n = h n" by auto
  have "h' (Fs_group c' i' g') = h (Fs_group c' i' g')" if "(c', i') \<noteq> (c, i)" for c' i' g'
    using h'(3) that by (cases "c' = c") (auto simp: image_iff)
  then have "same_groups h h' {(c, i)}" by (simp add: same_groups_def)
  moreover have "h' (Fs_group c i g) = h (Fs_group c i g)" using h'(3) d by auto
  ultimately show ?thesis using h' by (intro exI [of _ h']) (simp add: links_ok_def node_seq_update)
qed

lemma groups_insert:
  assumes "links_ok h C q" "c \<in> C" "q_groups q c i = us @ vs" "g \<notin> set (us @ vs)"
  shows "\<exists>h'. list_insert_after (Fs_group c i g) (last (Fs_groups c i # map (Fs_group c i) us)) h = Some h'
      \<and> links_ok h' C (set_groups c i (us @ g # vs) q) \<and> same_groups h h' {(c, i)}"
    "\<exists>h'. list_insert_before (Fs_group c i g) (hd (map (Fs_group c i) vs @ [Fs_groups c i])) h = Some h'
      \<and> links_ok h' C (set_groups c i (us @ g # vs) q) \<and> same_groups h h' {(c, i)}"
proof -
  note l = assms(1) [unfolded links_ok_def]
  define p where "p = last (Fs_groups c i # map (Fs_group c i) us)"
  define n where "n = hd (map (Fs_group c i) vs @ [Fs_groups c i])"
  have H: "Fs_groups c i \<in> node_heads C" and L: "node_seq q (Fs_groups c i) = map (Fs_group c i) us @ map (Fs_group c i) vs"
    using assms(2,3) by simp_all
  have free: "Fs_group c i g \<notin> listed (node_heads C) (node_seq q)" using assms(3,4) by (simp add: listed_nodes)
  from lists_add [OF l H L free p_def n_def] obtain h' where h': "list_add (Some p) (Some n) (Fs_group c i g) h = Some h'"
    "lists h' (node_heads C) ((node_seq q)(Fs_groups c i := map (Fs_group c i) us @ Fs_group c i g # map (Fs_group c i) vs))"
    "\<forall>n. n \<notin> set (Fs_group c i g # Fs_groups c i # node_seq q (Fs_groups c i)) \<longrightarrow> h' n = h n" by blast
  have "h' (Fs_group c' i' g') = h (Fs_group c' i' g')" if "(c', i') \<noteq> (c, i)" for c' i' g'
    using h'(3) that by (cases "c' = c") (auto simp: image_iff)
  then have ok: "links_ok h' C (set_groups c i (us @ g # vs) q)" "same_groups h h' {(c, i)}"
    using h'(2) by (simp_all add: links_ok_def node_seq_update same_groups_def)
  have "dl h (Fs_groups c i) (map (Fs_group c i) us @ map (Fs_group c i) vs)" using lists_dl [OF l H] L by simp
  then have ends: "ln_next (h p) = Some n" "ln_prev (h n) = Some p"
  proof -
    assume d: "dl h (Fs_groups c i) (map (Fs_group c i) us @ map (Fs_group c i) vs)"
    show "ln_next (h p) = Some n"
    proof (cases us rule: rev_cases)
      case Nil
      then show ?thesis using lists_ends(1) [OF l H] L by (simp add: p_def n_def)
    next
      case (snoc us' u)
      then show ?thesis using lists_links(1) [OF l H, of "map (Fs_group c i) us'" p "map (Fs_group c i) vs"] L by (simp add: p_def n_def)
    qed
    show "ln_prev (h n) = Some p"
    proof (cases vs)
      case Nil
      then show ?thesis using lists_ends(2) [OF l H] assms(3) by (simp add: p_def n_def)
    next
      case (Cons v vs')
      then show ?thesis using lists_links(2) [OF l H, of "map (Fs_group c i) us" n "map (Fs_group c i) vs'"] L by (simp add: p_def n_def)
    qed
  qed
  show "\<exists>h'. list_insert_after (Fs_group c i g) (last (Fs_groups c i # map (Fs_group c i) us)) h = Some h'
      \<and> links_ok h' C (set_groups c i (us @ g # vs) q) \<and> same_groups h h' {(c, i)}"
    using h'(1) ok ends unfolding p_def [symmetric] by (auto simp: list_insert_after_def)
  show "\<exists>h'. list_insert_before (Fs_group c i g) (hd (map (Fs_group c i) vs @ [Fs_groups c i])) h = Some h'
      \<and> links_ok h' C (set_groups c i (us @ g # vs) q) \<and> same_groups h h' {(c, i)}"
    using h'(1) ok ends unfolding n_def [symmetric] by (auto simp: list_insert_before_def)
qed

end
