(* ===== verification/Sched_Order.thy ===== *)
theory Sched_Order
  imports Sched_Inv
begin

text \<open>
  The groups of a fair-scheduling queue are kept in the order of their weights, the heaviest first: the
  loops of the enqueue and the dequeue operation stop at the place of the group, and the group is
  listed there.
\<close>

unbundle bit_operations_syntax

section \<open>The place of a group\<close>

lemma set_groups_same [simp]: "set_groups c i (q_groups q c i) q = q"
  by (simp add: set_groups_def)

lemma set_groups_twice [simp]: "set_groups c i xs (set_groups c i ys q) = set_groups c i xs q"
  by (simp add: set_groups_def)

abbreviation gweight :: "sched \<Rightarrow> nat \<Rightarrow> bool \<Rightarrow> nat \<Rightarrow> u32" where
  "gweight s c i g \<equiv> fg_weight (fs_group s c i g)"

definition by_weight :: "sched \<Rightarrow> nat \<Rightarrow> bool \<Rightarrow> nat list \<Rightarrow> bool" where
  "by_weight s c i gs \<longleftrightarrow> sorted_wrt (\<lambda>a b. gweight s c i b \<le> gweight s c i a) gs"

lemma enqueue_scan_out:
  assumes "links_ok (sy_links s) C q" "c \<in> C" "q_groups q c i = us @ ws"
  shows "\<exists>us1 us2. us = us1 @ us2 \<and> (\<forall>u\<in>set us2. gweight s c i u < gw) \<and> (us1 \<noteq> [] \<longrightarrow> gw \<le> gweight s c i (last us1))
    \<and> fs_enqueue_scan c i gw (Some (last (Fs_groups c i # map (Fs_group c i) us))) s
      = Some (Some (last (Fs_groups c i # map (Fs_group c i) us1)))"
  using assms(3)
proof (induction us arbitrary: ws rule: rev_induct)
  case Nil
  then show ?case by (intro exI [of _ "[]"]) (simp add: fs_enqueue_scan.simps list_end_def)
next
  case (snoc u us)
  show ?case
  proof (cases "gw \<le> gweight s c i u")
    case True
    then show ?thesis
      by (intro exI [of _ "us @ [u]"] exI [of _ "[]"]) (simp add: fs_enqueue_scan.simps list_end_def)
  next
    case False
    have "q_groups q c i = us @ u # ws" using snoc.prems by simp
    from links_group_neighbours(2) [OF assms(1,2) this]
    have "fs_enqueue_scan c i gw (Some (Fs_group c i u)) s
        = fs_enqueue_scan c i gw (Some (last (Fs_groups c i # map (Fs_group c i) us))) s"
      using False by (subst fs_enqueue_scan.simps) (simp add: list_end_def)
    moreover obtain us1 us2 where "us = us1 @ us2" "\<forall>u\<in>set us2. gweight s c i u < gw" "us1 \<noteq> [] \<longrightarrow> gw \<le> gweight s c i (last us1)"
      "fs_enqueue_scan c i gw (Some (last (Fs_groups c i # map (Fs_group c i) us))) s = Some (Some (last (Fs_groups c i # map (Fs_group c i) us1)))"
      using snoc.IH [OF \<open>q_groups q c i = us @ u # ws\<close>] by blast
    ultimately show ?thesis using False by (intro exI [of _ us1] exI [of _ "us2 @ [u]"]) auto
  qed
qed

lemma sorted_last:
  assumes "by_weight s c i us" "us \<noteq> [] \<longrightarrow> gw \<le> gweight s c i (last us)" "u \<in> set us"
  shows "gw \<le> gweight s c i u"
proof (cases us rule: rev_cases)
  case (snoc vs v)
  then show ?thesis using assms by (auto simp: by_weight_def sorted_wrt_append intro: order.trans)
qed (use assms in simp)

lemma last_map_neq:
  assumes "distinct (xs @ ys)" "ys \<noteq> []"
  shows "last (Fs_groups c i # map (Fs_group c i) xs) \<noteq> last (Fs_groups c i # map (Fs_group c i) (xs @ ys))"
proof -
  have y: "last ys \<in> set ys" using assms(2) by simp
  show ?thesis
  proof (cases "xs = []")
    case False
    then have "last xs \<in> set xs" by simp
    then have "last xs \<noteq> last ys" using y assms(1) by auto
    then show ?thesis using assms(2) False by (simp add: last_map)
  qed (use assms(2) in \<open>simp add: last_map\<close>)
qed

lemma enqueue_place_out:
  assumes l: "links_ok (sy_links s) C q" "c \<in> C"
    and sorted: "by_weight s c i (q_groups q c i)"
    and g: "gweight s c i g = 0 \<longleftrightarrow> g \<notin> set (q_groups q c i)" "gweight s c i g \<le> gw"
  shows "\<exists>h' us vs. fs_enqueue_place c i g gw s = Some (s\<lparr>sy_links := h'\<rparr>) \<and> links_ok h' C (set_groups c i (us @ g # vs) q)
    \<and> same_groups (sy_links s) h' {(c, i)} \<and> set us \<union> set vs = set (q_groups q c i) - {g} \<and> by_weight s c i (us @ vs)
    \<and> (\<forall>u\<in>set us. gw \<le> gweight s c i u) \<and> (\<forall>v\<in>set vs. gweight s c i v \<le> gw) \<and> g \<notin> set (us @ vs)"
proof (cases "g \<in> set (q_groups q c i)")
  case False
  have e: "q_groups q c i = q_groups q c i @ []" by simp
  from enqueue_scan_out [OF l e, of gw] obtain us1 us2 where
    us: "q_groups q c i = us1 @ us2" "\<forall>u\<in>set us2. gweight s c i u < gw" "us1 \<noteq> [] \<longrightarrow> gw \<le> gweight s c i (last us1)"
      "fs_enqueue_scan c i gw (Some (last (Fs_groups c i # map (Fs_group c i) (q_groups q c i)))) s
        = Some (Some (last (Fs_groups c i # map (Fs_group c i) us1)))" by blast
  have sc: "fs_enqueue_scan c i gw (list_last (Fs_groups c i) (sy_links s)) s = Some (Some (last (Fs_groups c i # map (Fs_group c i) us1)))"
    using links_fs(5) [OF l, of i] us(4) by simp
  from groups_insert(1) [OF l us(1)] False us(1) obtain h' where
    h': "list_insert_after (Fs_group c i g) (last (Fs_groups c i # map (Fs_group c i) us1)) (sy_links s) = Some h'"
      "links_ok h' C (set_groups c i (us1 @ g # us2) q)" "same_groups (sy_links s) h' {(c, i)}" by auto
  have "by_weight s c i us1" using sorted us(1) by (simp add: by_weight_def sorted_wrt_append)
  then have "\<forall>u\<in>set us1. gw \<le> gweight s c i u" using sorted_last us(3) by blast
  moreover have "fs_enqueue_place c i g gw s = Some (s\<lparr>sy_links := h'\<rparr>)"
    using False g(1) sc h'(1) by (simp add: fs_enqueue_place_def on_links_def del: last.simps)
  ultimately show ?thesis using h' us(1,2) False sorted
    by (intro exI [of _ h'] exI [of _ us1] exI [of _ us2]) (auto intro: less_imp_le)
next
  case True
  then obtain a b where ab: "q_groups q c i = a @ g # b" by (meson split_list)
  have d: "distinct (a @ g # b)" using links_fs(1) [OF l, of i] ab by simp
  from enqueue_scan_out [OF l ab, of gw] obtain us1 us2 where
    us: "a = us1 @ us2" "\<forall>u\<in>set us2. gweight s c i u < gw" "us1 \<noteq> [] \<longrightarrow> gw \<le> gweight s c i (last us1)"
      "fs_enqueue_scan c i gw (Some (last (Fs_groups c i # map (Fs_group c i) a))) s
        = Some (Some (last (Fs_groups c i # map (Fs_group c i) us1)))" by blast
  have pv: "list_prev (Fs_group c i g) (sy_links s) = Some (last (Fs_groups c i # map (Fs_group c i) a))"
    by (rule links_group_neighbours(2) [OF l ab])
  have s1: "by_weight s c i us1" "by_weight s c i (us1 @ us2 @ b)" "\<forall>v\<in>set b. gweight s c i v \<le> gweight s c i g"
    using sorted ab us(1) by (auto simp: by_weight_def sorted_wrt_append)
  then have "\<forall>u\<in>set us1. gw \<le> gweight s c i u" using sorted_last us(3) by blast
  moreover have "\<forall>v\<in>set (us2 @ b). gweight s c i v \<le> gw" using us(2) s1(3) g(2) by (auto intro: less_imp_le order.trans)
  moreover have "set us1 \<union> set (us2 @ b) = set (q_groups q c i) - {g}" using ab us(1) d by auto
  moreover have "g \<notin> set (us1 @ us2 @ b)" using d us(1) by auto
  moreover have "\<exists>h'. fs_enqueue_place c i g gw s = Some (s\<lparr>sy_links := h'\<rparr>) \<and> links_ok h' C (set_groups c i (us1 @ g # us2 @ b) q)
      \<and> same_groups (sy_links s) h' {(c, i)}"
  proof (cases "us2 = []")
    case True
    have "set_groups c i (us1 @ g # us2 @ b) q = q" using ab us(1) True set_groups_same [of c i q] by simp
    moreover have "fs_enqueue_place c i g gw s = Some s"
      using \<open>g \<in> set (q_groups q c i)\<close> g(1) pv us(4,1) True by (simp add: fs_enqueue_place_def del: last.simps)
    ultimately show ?thesis using l by (intro exI [of _ "sy_links s"]) simp
  next
    case False
    have ne: "last (Fs_groups c i # map (Fs_group c i) us1) \<noteq> last (Fs_groups c i # map (Fs_group c i) a)"
      unfolding us(1) by (rule last_map_neq) (use d us(1) False in auto)
    from groups_unlink [OF l ab] obtain h1 where h1: "list_remove (Fs_group c i g) (sy_links s) = Some h1"
      "links_ok h1 C (set_groups c i (us1 @ us2 @ b) q)" "same_groups (sy_links s) h1 {(c, i)}" using us(1) by auto
    from groups_insert(1) [OF h1(2) l(2), of i us1 "us2 @ b" g] d us(1) obtain h2 where
      h2: "list_insert_after (Fs_group c i g) (last (Fs_groups c i # map (Fs_group c i) us1)) h1 = Some h2"
        "links_ok h2 C (set_groups c i (us1 @ g # us2 @ b) q)" "same_groups h1 h2 {(c, i)}" by auto
    have "fs_enqueue_place c i g gw s = Some (s\<lparr>sy_links := h2\<rparr>)"
      using \<open>g \<in> set (q_groups q c i)\<close> g(1) pv us(4) ne h1(1) h2(1) by (simp add: fs_enqueue_place_def on_links_def del: last.simps)
    then show ?thesis using h2(2) same_groups_trans [OF h1(3) h2(3)] by auto
  qed
  ultimately show ?thesis using s1(2) by (metis append_assoc)
qed

lemma dequeue_scan_out:
  assumes "links_ok (sy_links s) C q" "c \<in> C" "q_groups q c i = ws @ vs"
  shows "\<exists>vs1 vs2. vs = vs1 @ vs2 \<and> (\<forall>v\<in>set vs1. gw < gweight s c i v) \<and> (vs2 \<noteq> [] \<longrightarrow> gweight s c i (hd vs2) \<le> gw)
    \<and> fs_dequeue_scan c i gw (Some (hd (map (Fs_group c i) vs @ [Fs_groups c i]))) s
      = Some (Some (hd (map (Fs_group c i) vs2 @ [Fs_groups c i])))"
  using assms(3)
proof (induction vs arbitrary: ws)
  case Nil
  then show ?case by (intro exI [of _ "[]"]) (simp add: fs_dequeue_scan.simps list_end_def)
next
  case (Cons v vs)
  show ?case
  proof (cases "gweight s c i v \<le> gw")
    case True
    then show ?thesis
      by (intro exI [of _ "[]"] exI [of _ "v # vs"]) (simp add: fs_dequeue_scan.simps list_end_def)
  next
    case False
    from links_group_neighbours(1) [OF assms(1,2) Cons.prems]
    have "fs_dequeue_scan c i gw (Some (Fs_group c i v)) s
        = fs_dequeue_scan c i gw (Some (hd (map (Fs_group c i) vs @ [Fs_groups c i]))) s"
      using False by (subst fs_dequeue_scan.simps) (simp add: list_end_def)
    moreover obtain vs1 vs2 where "vs = vs1 @ vs2" "\<forall>v\<in>set vs1. gw < gweight s c i v" "vs2 \<noteq> [] \<longrightarrow> gweight s c i (hd vs2) \<le> gw"
      "fs_dequeue_scan c i gw (Some (hd (map (Fs_group c i) vs @ [Fs_groups c i]))) s = Some (Some (hd (map (Fs_group c i) vs2 @ [Fs_groups c i])))"
      using Cons.IH [of "ws @ [v]"] Cons.prems unfolding append_Cons append_Nil append_assoc by blast
    ultimately show ?thesis using False by (intro exI [of _ "v # vs1"] exI [of _ vs2]) auto
  qed
qed

lemma hd_map_neq:
  assumes "distinct (xs @ ys)" "xs \<noteq> []"
  shows "hd (map (Fs_group c i) ys @ [Fs_groups c i]) \<noteq> hd (map (Fs_group c i) (xs @ ys) @ [Fs_groups c i])"
  using assms by (cases xs; cases ys) auto

text \<open>The weight of the group may have decreased; the rest of the list is in order.\<close>

lemma dequeue_place_out:
  assumes l: "links_ok (sy_links s) C q" "c \<in> C" and ab: "q_groups q c i = a @ g # b"
    and sorted: "by_weight s c i (a @ b)" "\<forall>u\<in>set a. gweight s c i g \<le> gweight s c i u"
  shows "\<exists>h' gs. fs_dequeue_place c i g s = Some (s\<lparr>sy_links := h'\<rparr>) \<and> links_ok h' C (set_groups c i gs q)
    \<and> same_groups (sy_links s) h' {(c, i)} \<and> set gs = (if gweight s c i g = 0 then set (a @ b) else set (a @ g # b))
    \<and> by_weight s c i gs \<and> (gweight s c i g = 0 \<longrightarrow> h' (Fs_group c i g) = (sy_links s) (Fs_group c i g))"
proof (cases "gweight s c i g = 0")
  case True
  from groups_unlink [OF l ab] obtain h' where h': "list_remove (Fs_group c i g) (sy_links s) = Some h'"
    "links_ok h' C (set_groups c i (a @ b) q)" "same_groups (sy_links s) h' {(c, i)}" "h' (Fs_group c i g) = sy_links s (Fs_group c i g)" by blast
  then have "fs_dequeue_place c i g s = Some (s\<lparr>sy_links := h'\<rparr>)" using True by (simp add: fs_dequeue_place_def on_links_def)
  then show ?thesis using h' sorted(1) True by (intro exI [of _ h'] exI [of _ "a @ b"]) simp
next
  case False
  have d: "distinct (a @ g # b)" using links_fs(1) [OF l, of i] ab by simp
  define gw where "gw = gweight s c i g"
  have "q_groups q c i = (a @ [g]) @ b" using ab by simp
  from dequeue_scan_out [OF l this, of gw] obtain b1 b2 where
    b: "b = b1 @ b2" "\<forall>v\<in>set b1. gw < gweight s c i v" "b2 \<noteq> [] \<longrightarrow> gweight s c i (hd b2) \<le> gw"
      "fs_dequeue_scan c i gw (Some (hd (map (Fs_group c i) b @ [Fs_groups c i]))) s
        = Some (Some (hd (map (Fs_group c i) b2 @ [Fs_groups c i])))" by blast
  note nx = links_group_neighbours(1) [OF l ab]
  have "\<forall>v\<in>set b2. gweight s c i v \<le> gw"
    using sorted(1) b(1,3) by (cases b2) (auto simp: by_weight_def sorted_wrt_append intro: order.trans)
  then have sort: "by_weight s c i (a @ b1 @ g # b2)"
    using sorted b(1,2) unfolding gw_def by_weight_def by (auto simp: sorted_wrt_append intro: less_imp_le)
  have "\<exists>h'. fs_dequeue_place c i g s = Some (s\<lparr>sy_links := h'\<rparr>) \<and> links_ok h' C (set_groups c i (a @ b1 @ g # b2) q)
      \<and> same_groups (sy_links s) h' {(c, i)}"
  proof (cases "b1 = []")
    case True
    have "set_groups c i (a @ b1 @ g # b2) q = q" using ab b(1) True set_groups_same [of c i q] by simp
    moreover have "fs_dequeue_place c i g s = Some s"
      using False nx b(4,1) True by (simp add: fs_dequeue_place_def gw_def del: last.simps)
    ultimately show ?thesis using l by (intro exI [of _ "sy_links s"]) simp
  next
    case b1: False
    have ne: "hd (map (Fs_group c i) b2 @ [Fs_groups c i]) \<noteq> hd (map (Fs_group c i) b @ [Fs_groups c i])"
      unfolding b(1) by (rule hd_map_neq) (use d b(1) b1 in auto)
    from groups_unlink [OF l ab] obtain h1 where h1: "list_remove (Fs_group c i g) (sy_links s) = Some h1"
      "links_ok h1 C (set_groups c i ((a @ b1) @ b2) q)" "same_groups (sy_links s) h1 {(c, i)}" using b(1) by auto
    from groups_insert(2) [OF h1(2) l(2), of i "a @ b1" b2 g] d b(1) obtain h2 where
      h2: "list_insert_before (Fs_group c i g) (hd (map (Fs_group c i) b2 @ [Fs_groups c i])) h1 = Some h2"
        "links_ok h2 C (set_groups c i (a @ b1 @ g # b2) q)" "same_groups h1 h2 {(c, i)}" by auto
    have "fs_dequeue_place c i g s = Some (s\<lparr>sy_links := h2\<rparr>)"
      using False nx b(4) ne h1(1) h2(1) by (simp add: fs_dequeue_place_def gw_def on_links_def del: hd_append)
    then show ?thesis using h2(2) same_groups_trans [OF h1(3) h2(3)] by auto
  qed
  then show ?thesis using False sort b(1) by (metis (no_types, lifting) append_assoc set_append list.set(2) Un_assoc Un_insert_right)
qed

end
