(* ===== verification/Sched_Queue.thy ===== *)
theory Sched_Queue
  imports Sched_Order
begin

text \<open>
  One fair-scheduling queue: the weight and the work of the queue and of its groups are the sums
  over their threads (\<open>fs_acct\<close>), every thread is in the group of its priority and the groups are in
  order (\<open>fsq_ok\<close>). Entering and leaving a queue keeps this, and the work a thread is credited on
  entering never exceeds its weight when the threads of the queue are within theirs.
\<close>

unbundle bit_operations_syntax


section \<open>Reading an updated state\<close>

abbreviation fsd :: "sched \<Rightarrow> nat \<Rightarrow> thread_fs_data" where "fsd s t \<equiv> th_fs (th s t)"
abbreviation cls :: "sched \<Rightarrow> nat \<Rightarrow> nat" where "cls s t \<equiv> thread_real_sched_class (th s t)"
abbreviation pri :: "sched \<Rightarrow> nat \<Rightarrow> nat" where "pri s t \<equiv> thread_real_priority (th s t)"

lemma select_thread [simp]:
  "sy_threads (set_thread t v s) = (sy_threads s)(t := v)" "sy_links (set_thread t v s) = sy_links s"
  "sy_runqs (set_thread t v s) = sy_runqs s" "sy_fs_highest_round (set_thread t v s) = sy_fs_highest_round s"
  "sy_idle_runqs (set_thread t v s) = sy_idle_runqs s" "sy_active_runqs (set_thread t v s) = sy_active_runqs s"
  by (simp_all add: set_thread_def)

lemma select_runq [simp]:
  "sy_threads (set_runq c v s) = sy_threads s" "sy_links (set_runq c v s) = sy_links s"
  "sy_runqs (set_runq c v s) = (sy_runqs s)(c := v)" "sy_fs_highest_round (set_runq c v s) = sy_fs_highest_round s"
  "sy_idle_runqs (set_runq c v s) = sy_idle_runqs s" "sy_active_runqs (set_runq c v s) = sy_active_runqs s"
  by (simp_all add: set_runq_def)

lemma select_fs [simp]:
  "sy_threads (set_fs t d s) = (sy_threads s)(t := (th s t)\<lparr>th_fs := d\<rparr>)" "sy_links (set_fs t d s) = sy_links s"
  "sy_runqs (set_fs t d s) = sy_runqs s" "sy_fs_highest_round (set_fs t d s) = sy_fs_highest_round s"
  "sy_idle_runqs (set_fs t d s) = sy_idle_runqs s" "sy_active_runqs (set_fs t d s) = sy_active_runqs s"
  by (simp_all add: set_fs_def)

lemma select_queue [simp]:
  "sy_threads (set_fs_queue c i Q s) = sy_threads s" "sy_links (set_fs_queue c i Q s) = sy_links s"
  "sy_runqs (set_fs_queue c i Q s) = (sy_runqs s)(c := (rq s c)\<lparr>rq_fs_runqs := (rq_fs_runqs (rq s c))(i := Q)\<rparr>)"
  "sy_fs_highest_round (set_fs_queue c i Q s) = sy_fs_highest_round s"
  "sy_idle_runqs (set_fs_queue c i Q s) = sy_idle_runqs s" "sy_active_runqs (set_fs_queue c i Q s) = sy_active_runqs s"
  by (simp_all add: set_fs_queue_def)

lemma fs_queue_select [simp]:
  "fs_queue (set_thread t v s) = fs_queue s" "fs_queue (set_fs t d s) = fs_queue s" "fs_queue (s\<lparr>sy_links := h\<rparr>) = fs_queue s"
  "fs_queue (set_fs_queue c i Q s) c' i' = (if c' = c \<and> i' = i then Q else fs_queue s c' i')"
  "fs_group (set_thread t v s) = fs_group s" "fs_group (set_fs t d s) = fs_group s" "fs_group (s\<lparr>sy_links := h\<rparr>) = fs_group s"
  "fs_group (set_fs_queue c i Q s) c' i' g = (if c' = c \<and> i' = i then fq_group_array Q g else fs_group s c' i' g)"
  by (auto simp: fs_queue_def fs_group_def set_fs_queue_def fun_eq_iff)

lemma fs_normal [simp]:
  "set_fs_queue c i Q (set_fs_queue c i Q' s) = set_fs_queue c i Q s"
  "set_fs t d (set_fs t d' s) = set_fs t d s" "set_fs_queue c i Q (set_fs t d s) = set_fs t d (set_fs_queue c i Q s)"
  "(set_fs t d s)\<lparr>sy_links := h\<rparr> = set_fs t d (s\<lparr>sy_links := h\<rparr>)"
  "(set_fs_queue c i Q s)\<lparr>sy_links := h\<rparr> = set_fs_queue c i Q (s\<lparr>sy_links := h\<rparr>)"
  "set_fs_queue c i (fs_queue s c i) s = s" "set_fs t (fsd s t) s = s"
  "set_fs t (fsd s t) (set_fs_queue c i Q s) = set_fs_queue c i Q s" "set_fs t (fsd s t) (s\<lparr>sy_links := h\<rparr>) = s\<lparr>sy_links := h\<rparr>" "s\<lparr>sy_links := sy_links s\<rparr> = s"
  by (simp_all add: set_fs_queue_def set_fs_def set_thread_def set_runq_def fs_queue_def)

lemma fs_group_queue: "fs_group s c i g = fq_group_array (fs_queue s c i) g"
  by (simp add: fs_group_def)

lemma real_select [simp]:
  "thread_real_sched_class (v\<lparr>th_fs := d\<rparr>) = thread_real_sched_class v" "thread_real_priority (v\<lparr>th_fs := d\<rparr>) = thread_real_priority v"
  "thread_real_sched_policy (v\<lparr>th_fs := d\<rparr>) = thread_real_sched_policy v"
  by (simp_all add: thread_real_sched_class_def thread_real_priority_def thread_real_sched_policy_def)

section \<open>The accounts of a queue\<close>

text \<open>The members of a queue, the weights and the work they add up to.\<close>

definition fs_weights :: "sched \<Rightarrow> nat set \<Rightarrow> nat" where "fs_weights s M = (\<Sum>t\<in>M. unat (fd_weight (fsd s t)))"
definition fs_works :: "sched \<Rightarrow> nat set \<Rightarrow> u32" where "fs_works s M = (\<Sum>t\<in>M. ucast (fd_work (fsd s t)))"

definition fs_acct :: "sched \<Rightarrow> nat set \<Rightarrow> thread_fs_runq \<Rightarrow> bool" where
  "fs_acct s M Q \<longleftrightarrow> unat (fq_weight Q) = fs_weights s M \<and> fq_work Q = fs_works s M \<and> fq_nr_threads Q = of_nat (card M)
     \<and> (\<forall>g\<le>THREAD_SCHED_FS_PRIO_MAX. unat (fg_weight (fq_group_array Q g)) = fs_weights s {t \<in> M. pri s t = g}
         \<and> fg_work (fq_group_array Q g) = fs_works s {t \<in> M. pri s t = g})"

definition fs_within :: "sched \<Rightarrow> nat set \<Rightarrow> bool" where
  "fs_within s M \<longleftrightarrow> (\<forall>t\<in>M. fd_work (fsd s t) \<le> fd_weight (fsd s t))"

definition fs_entity :: "sched \<Rightarrow> nat \<Rightarrow> bool" where
  "fs_entity s t \<longleftrightarrow> pri s t \<le> THREAD_SCHED_FS_PRIO_MAX \<and> fd_weight (fsd s t) = thread_sched_fs_prio2weight (pri s t)"

lemma prio2weight:
  assumes "p \<le> THREAD_SCHED_FS_PRIO_MAX"
  shows "unat (thread_sched_fs_prio2weight p) = (p + 1) * 20" "20 \<le> unat (thread_sched_fs_prio2weight p)" "unat (thread_sched_fs_prio2weight p) \<le> 800"
proof -
  have *: "unat (of_nat n :: u16) = n" if "n \<le> 800" for n using that by (simp add: unat_of_nat)
  show "unat (thread_sched_fs_prio2weight p) = (p + 1) * 20"
    unfolding thread_sched_fs_prio2weight_def THREAD_FS_ROUND_SLICE_BASE_def CLOCK_FREQ_def
    using assms * [of "(p + 1) * (200 div 10)"] by (simp only: THREAD_SCHED_FS_PRIO_MAX_def) simp
  then show "20 \<le> unat (thread_sched_fs_prio2weight p)" "unat (thread_sched_fs_prio2weight p) \<le> 800"
    using assms by (simp_all add: THREAD_SCHED_FS_PRIO_MAX_def)
qed

lemma fs_weights_cong: "(\<And>t. t \<in> M \<Longrightarrow> fd_weight (fsd s t) = fd_weight (fsd s' t)) \<Longrightarrow> fs_weights s M = fs_weights s' M"
  unfolding fs_weights_def by (rule sum.cong) auto

lemma fs_works_cong: "(\<And>t. t \<in> M \<Longrightarrow> fd_work (fsd s t) = fd_work (fsd s' t)) \<Longrightarrow> fs_works s M = fs_works s' M"
  unfolding fs_works_def by (rule sum.cong) auto

lemma fs_insert:
  assumes "finite M" "t \<notin> M"
  shows "fs_weights s (insert t M) = unat (fd_weight (fsd s t)) + fs_weights s M" "fs_works s (insert t M) = ucast (fd_work (fsd s t)) + fs_works s M"
  using assms by (simp_all add: fs_weights_def fs_works_def)

lemma fs_acct_cong:
  assumes "\<And>t. t \<in> M \<Longrightarrow> fsd s' t = fsd s t \<and> pri s' t = pri s t" "fs_acct s M Q"
  shows "fs_acct s' M Q"
proof -
  have e: "{t \<in> M. pri s' t = g} = {t \<in> M. pri s t = g}" for g using assms(1) by auto
  have "fs_weights s' N = fs_weights s N" "fs_works s' N = fs_works s N" if "N \<subseteq> M" for N
    using assms(1) that by (auto intro!: fs_weights_cong fs_works_cong)
  then show ?thesis using assms(2) unfolding fs_acct_def e by simp
qed

text \<open>A thread enters the accounts of a queue, or leaves them.\<close>

definition group_plus :: "nat \<Rightarrow> u32 \<Rightarrow> u32 \<Rightarrow> thread_fs_runq \<Rightarrow> thread_fs_runq" where
  "group_plus g w k Q = Q\<lparr>fq_nr_threads := fq_nr_threads Q + 1, fq_weight := fq_weight Q + w, fq_work := fq_work Q + k,
     fq_group_array := (fq_group_array Q)(g := \<lparr>fg_weight = fg_weight (fq_group_array Q g) + w, fg_work = fg_work (fq_group_array Q g) + k\<rparr>)\<rparr>"

definition group_minus :: "nat \<Rightarrow> u32 \<Rightarrow> u32 \<Rightarrow> thread_fs_runq \<Rightarrow> thread_fs_runq" where
  "group_minus g w k Q = Q\<lparr>fq_nr_threads := fq_nr_threads Q - 1, fq_weight := fq_weight Q - w, fq_work := fq_work Q - k,
     fq_group_array := (fq_group_array Q)(g := \<lparr>fg_weight = fg_weight (fq_group_array Q g) - w, fg_work = fg_work (fq_group_array Q g) - k\<rparr>)\<rparr>"

lemma group_array_select [simp]:
  "fq_group_array (group_plus g w k Q) g' = (if g' = g then \<lparr>fg_weight = fg_weight (fq_group_array Q g) + w, fg_work = fg_work (fq_group_array Q g) + k\<rparr> else fq_group_array Q g')"
  "fq_group_array (group_minus g w k Q) g' = (if g' = g then \<lparr>fg_weight = fg_weight (fq_group_array Q g) - w, fg_work = fg_work (fq_group_array Q g) - k\<rparr> else fq_group_array Q g')"
  "fq_current (group_plus g w k Q) = fq_current Q" "fq_current (group_minus g w k Q) = fq_current Q"
  "fq_nr_threads (group_plus g w k Q) = fq_nr_threads Q + 1" "fq_nr_threads (group_minus g w k Q) = fq_nr_threads Q - 1"
  "fq_weight (group_plus g w k Q) = fq_weight Q + w" "fq_weight (group_minus g w k Q) = fq_weight Q - w"
  "fq_work (group_plus g w k Q) = fq_work Q + k" "fq_work (group_minus g w k Q) = fq_work Q - k"
  by (simp_all add: group_plus_def group_minus_def)

lemma group_weight_le:
  assumes "fs_acct s M Q" "finite M" "g \<le> THREAD_SCHED_FS_PRIO_MAX"
  shows "unat (fg_weight (fq_group_array Q g)) \<le> unat (fq_weight Q)"
proof -
  have "fs_weights s {t \<in> M. pri s t = g} \<le> fs_weights s M" unfolding fs_weights_def by (rule sum_mono2) (use assms(2) in auto)
  then show ?thesis using assms by (simp add: fs_acct_def)
qed

lemma unat_ucast_16: "unat (ucast w :: u32) = unat (w :: u16)"
proof -
  have "unat w < 2 ^ 16" using unsigned_less [of w] by simp
  then show ?thesis by (simp add: unsigned_ucast_eq take_bit_nat_eq_self_iff)
qed

lemma unat_add_ucast:
  fixes a :: u32 and w :: u16
  assumes "unat a + unat w < 2 ^ 32"
  shows "unat (a + ucast w) = unat a + unat w"
  using assms by (simp add: unat_word_ariths unat_ucast_16)

lemma fs_acct_plus:
  assumes "fs_acct s M Q" "finite M" "t \<notin> M" "unat (fq_weight Q) + unat (fd_weight (fsd s t)) < 2 ^ 32" "pri s t \<le> THREAD_SCHED_FS_PRIO_MAX"
  shows "fs_acct s (insert t M) (group_plus (pri s t) (ucast (fd_weight (fsd s t))) (ucast (fd_work (fsd s t))) Q)"
proof -
  have e: "{u \<in> insert t M. pri s u = g} = (if g = pri s t then insert t {u \<in> M. pri s u = g} else {u \<in> M. pri s u = g})" for g by auto
  have f: "finite {u \<in> M. pri s u = g}" "t \<notin> {u \<in> M. pri s u = g}" for g using assms(2,3) by simp_all
  have le: "unat (fg_weight (fq_group_array Q (pri s t))) + unat (fd_weight (fsd s t)) < 2 ^ 32"
    using group_weight_le [OF assms(1,2,5)] assms(4) by simp
  show ?thesis using assms(1) unat_add_ucast [OF assms(4)] unat_add_ucast [OF le] assms(2,3)
    unfolding fs_acct_def e by (simp add: fs_insert [OF f] fs_insert [OF assms(2,3)])
qed

lemma fs_acct_minus:
  assumes "fs_acct s M Q" "finite M" "t \<in> M" "pri s t \<le> THREAD_SCHED_FS_PRIO_MAX"
  shows "fs_acct s (M - {t}) (group_minus (pri s t) (ucast (fd_weight (fsd s t))) (ucast (fd_work (fsd s t))) Q)"
proof -
  define N where "N = M - {t}"
  have N: "M = insert t N" "finite N" "t \<notin> N" using assms by (auto simp: N_def)
  have e: "{u \<in> insert t N. pri s u = g} = (if g = pri s t then insert t {u \<in> N. pri s u = g} else {u \<in> N. pri s u = g})" for g by auto
  have f: "finite {u \<in> N. pri s u = g}" "t \<notin> {u \<in> N. pri s u = g}" for g using N by simp_all
  have w: "unat (a - ucast w) = unat a - unat w" if "unat w \<le> unat a" for a :: u32 and w :: u16
    using that by (simp add: unat_sub word_le_nat_alt unat_ucast_16)
  show ?thesis using assms(1,4) unfolding fs_acct_def N(1) e N_def [symmetric]
    by (simp add: fs_insert [OF f] fs_insert [OF N(2,3)] w N)
qed


section \<open>The work credited on entering a queue\<close>

lemma enqueue_scale:
  assumes "old \<noteq> 0" "work \<le> old"
  shows "\<exists>r. thread_sched_fs_enqueue_scale work old new = Some r \<and> unat r = unat work * unat new div unat old"
proof -
  have o: "unat old \<noteq> 0" using assms(1) by (simp add: unat_eq_0)
  have l: "unat work \<le> unat old" using assms(2) by (simp add: word_le_nat_alt)
  have u: "unat (ucast x :: u64) = unat x" for x :: u32
  proof -
    have "unat x < 2 ^ 32" using unsigned_less [of x] by simp
    then show ?thesis by (simp add: unsigned_ucast_eq take_bit_nat_eq_self_iff)
  qed
  have "unat work < 2 ^ 32" "unat new < 2 ^ 32" using unsigned_less [of work] unsigned_less [of new] by simp_all
  then have "unat work * unat new < 2 ^ 32 * 2 ^ 32" by (rule mult_strict_mono) simp_all
  then have "unat ((ucast work * ucast new :: u64) div ucast old) = unat work * unat new div unat old"
    by (simp add: unat_div unat_word_ariths u)
  moreover have "unat work * unat new div unat old \<le> unat new"
  proof -
    have "unat work * unat new div unat old \<le> unat old * unat new div unat old" using l by (intro div_le_mono mult_le_mono1)
    then show ?thesis using o by simp
  qed
  then have "unat work * unat new div unat old < 2 ^ 32" using \<open>unat new < 2 ^ 32\<close> by simp
  ultimately have "unat (ucast ((ucast work * ucast new :: u64) div ucast old) :: u32) = unat work * unat new div unat old"
    by (simp add: unsigned_ucast_eq take_bit_nat_eq_self_iff)
  then show ?thesis using assms(1) by (simp add: thread_sched_fs_enqueue_scale_def)
qed

lemma ucast_16_32:
  assumes "unat e \<le> unat (w :: u16)"
  shows "ucast (ucast (e :: u32) :: u16) = e" "(ucast e :: u16) \<le> w"
proof -
  have "unat w < 2 ^ 16" using unsigned_less [of w] by simp
  then have u: "unat (ucast e :: u16) = unat e" using assms by (simp add: unsigned_ucast_eq take_bit_nat_eq_self_iff)
  show "ucast (ucast e :: u16) = e" by (rule unsigned_word_eqI [where 'a = nat]) (simp add: unat_ucast_16 u)
  show "(ucast e :: u16) \<le> w" using u assms by (simp add: word_le_nat_alt)
qed

definition work_plus :: "nat \<Rightarrow> u32 \<Rightarrow> thread_fs_runq \<Rightarrow> thread_fs_runq" where
  "work_plus g k Q = Q\<lparr>fq_work := fq_work Q + k,
     fq_group_array := (fq_group_array Q)(g := (fq_group_array Q g)\<lparr>fg_work := fg_work (fq_group_array Q g) + k\<rparr>)\<rparr>"

lemma enqueue_work_out:
  fixes s :: sched and c i t
  defines "Q \<equiv> fs_queue s c i" and "w \<equiv> fd_weight (fsd s t)"
  assumes "fd_round (fsd s t) \<noteq> round \<Longrightarrow> fq_work Q \<le> fq_weight Q \<and> fg_work (fq_group_array Q g) \<le> fg_weight (fq_group_array Q g)
      \<and> unat (fg_weight (fq_group_array Q g)) + unat w < 2 ^ 32 \<and> (fq_weight Q = 0 \<longrightarrow> fg_weight (fq_group_array Q g) = 0)"
  shows "\<exists>k. fs_enqueue_work c i g (fg_weight (fq_group_array Q g) + ucast w) round t s =
      Some (set_fs t ((fsd s t)\<lparr>fd_round := round, fd_work := k\<rparr>) (set_fs_queue c i (work_plus g (ucast k) Q) s))
    \<and> (if fd_round (fsd s t) = round then k = fd_work (fsd s t) else k \<le> w)"
proof (cases "fd_round (fsd s t) = round")
  case True
  then have d: "(fsd s t)\<lparr>fd_round := round, fd_work := fd_work (fsd s t)\<rparr> = fsd s t" by (cases "fsd s t") simp
  have "fs_enqueue_work c i g (fg_weight (fq_group_array Q g) + ucast w) round t s =
      Some (set_fs_queue c i (work_plus g (ucast (fd_work (fsd s t))) Q) s)"
    using True by (simp add: fs_enqueue_work_def set_fs_group_def fs_group_queue work_plus_def Q_def)
  then show ?thesis using True by (intro exI [of _ "fd_work (fsd s t)"]) (simp only: d fs_normal if_True simp_thms)
next
  case False
  note a = assms(3) [OF False]
  define G where "G = fq_group_array Q g"
  show ?thesis
  proof (cases "fq_weight Q = 0")
    case True
    have "work_plus g 0 Q = Q" by (cases Q) (simp add: work_plus_def fun_upd_idem)
    moreover have "set_fs_queue c i Q s = s" by (simp add: Q_def)
    moreover have "fs_enqueue_work c i g gw round t s = Some (set_fs t ((fsd s t)\<lparr>fd_round := round, fd_work := 0\<rparr>) s)" for gw
      using True False by (simp add: fs_enqueue_work_def Q_def)
    ultimately show ?thesis using False by (intro exI [of _ 0]) simp
  next
    case W: False
    obtain r where r: "(if fg_weight G = 0 then thread_sched_fs_enqueue_scale (fq_work Q) (fq_weight Q) (ucast w)
        else thread_sched_fs_enqueue_scale (fg_work G) (fg_weight G) (fg_weight G + ucast w)) = Some r"
      "unat (fg_work G) \<le> unat r" "unat r - unat (fg_work G) \<le> unat w"
    proof (cases "fg_weight G = 0")
      case True
      obtain r where r: "thread_sched_fs_enqueue_scale (fq_work Q) (fq_weight Q) (ucast w) = Some r" "unat r = unat (fq_work Q) * unat w div unat (fq_weight Q)"
        using enqueue_scale [OF W, of "fq_work Q" "ucast w"] a by (auto simp: unat_ucast_16)
      have "unat (fq_work Q) * unat w div unat (fq_weight Q) \<le> unat (fq_weight Q) * unat w div unat (fq_weight Q)"
        using a by (intro div_le_mono mult_le_mono1) (simp add: word_le_nat_alt)
      then have "unat r \<le> unat w" using r(2) W by (simp add: unat_eq_0)
      moreover have "fg_work G = 0" using a True by (simp add: G_def)
      ultimately show ?thesis using r that True by simp
    next
      case False
      then have n: "unat (fg_weight G) \<noteq> 0" by (simp add: unat_eq_0)
      have wl: "unat (fg_work G) \<le> unat (fg_weight G)" using a by (simp add: G_def word_le_nat_alt)
      have sum: "unat (fg_weight G + ucast w) = unat (fg_weight G) + unat w" using a by (intro unat_add_ucast) (simp add: G_def)
      obtain r where r: "thread_sched_fs_enqueue_scale (fg_work G) (fg_weight G) (fg_weight G + ucast w) = Some r"
        "unat r = unat (fg_work G) * (unat (fg_weight G) + unat w) div unat (fg_weight G)"
        using enqueue_scale [OF False, of "fg_work G" "fg_weight G + ucast w"] a sum by (auto simp: G_def)
      have "unat r = unat (fg_work G) + unat (fg_work G) * unat w div unat (fg_weight G)"
        unfolding r(2) using n by (simp add: add_mult_distrib2 mult.commute)
      moreover have "unat (fg_work G) * unat w div unat (fg_weight G) \<le> unat (fg_weight G) * unat w div unat (fg_weight G)"
        using wl by (intro div_le_mono mult_le_mono1)
      ultimately show ?thesis using r that False n by simp
    qed
    define e where "e = r - fg_work G"
    have e: "unat e \<le> unat w" using r(2,3) by (simp add: e_def unat_sub word_le_nat_alt)
    have eq: "r = fg_work G + e" by (simp add: e_def)
    have "fs_enqueue_work c i g (fg_weight G + ucast w) round t s =
        Some (set_fs t ((fsd s t)\<lparr>fd_round := round, fd_work := ucast e\<rparr>) (set_fs_queue c i (work_plus g e Q) s))"
      using False W r(1) unfolding fs_enqueue_work_def
      by (cases "fg_weight G = 0") (simp_all add: Let_def fs_group_queue set_fs_group_def Q_def [symmetric] G_def [symmetric] w_def [symmetric] e_def [symmetric] work_plus_def eq [symmetric])
    then show ?thesis using False ucast_16_32 [OF e] by (intro exI [of _ "ucast e"]) (simp add: G_def)
  qed
qed

section \<open>A fair-scheduling queue\<close>

definition fsq_ok :: "sched \<Rightarrow> queues \<Rightarrow> nat option \<Rightarrow> nat \<Rightarrow> bool \<Rightarrow> u64 \<Rightarrow> bool" where
  "fsq_ok s q r c i round \<longleftrightarrow>
     (\<forall>t\<in>set (q_thr q c i). fs_entity s t \<and> fd_fs_runq (fsd s t) = Some (c, i) \<and> fd_round (fsd s t) = round)
     \<and> (\<forall>g\<le>THREAD_SCHED_FS_PRIO_MAX. set (q_grp q c i g) = {t \<in> set (q_thr q c i). pri s t = g \<and> r \<noteq> Some t})
     \<and> set (q_groups q c i) = pri s ` set (q_thr q c i) \<and> by_weight s c i (q_groups q c i)
     \<and> fs_acct s (set (q_thr q c i)) (fs_queue s c i)"

lemma fsq_okD:
  assumes "fsq_ok s q r c i round"
  shows "t \<in> set (q_thr q c i) \<Longrightarrow> fs_entity s t" "t \<in> set (q_thr q c i) \<Longrightarrow> fd_fs_runq (fsd s t) = Some (c, i)"
    "t \<in> set (q_thr q c i) \<Longrightarrow> fd_round (fsd s t) = round"
    "g \<le> THREAD_SCHED_FS_PRIO_MAX \<Longrightarrow> set (q_grp q c i g) = {t \<in> set (q_thr q c i). pri s t = g \<and> r \<noteq> Some t}"
    "set (q_groups q c i) = pri s ` set (q_thr q c i)" "by_weight s c i (q_groups q c i)" "fs_acct s (set (q_thr q c i)) (fs_queue s c i)"
  using assms by (simp_all add: fsq_ok_def)

lemma fsq_ok_cong:
  assumes "\<And>t. t \<in> set (q_thr q c i) \<Longrightarrow> fsd s' t = fsd s t \<and> pri s' t = pri s t" "fs_queue s' c i = fs_queue s c i"
    "q_thr q' c i = q_thr q c i" "q_groups q' c i = q_groups q c i" "\<And>g. q_grp q' c i g = q_grp q c i g" "fsq_ok s q r c i round"
  shows "fsq_ok s' q' r c i round"
proof -
  have im: "pri s' ` set (q_thr q c i) = pri s ` set (q_thr q c i)" using assms(1) by (intro image_cong) auto
  have w: "by_weight s' c i gs = by_weight s c i gs" for gs by (simp add: by_weight_def fs_group_queue assms(2))
  show ?thesis using assms(1,6) fs_acct_cong [of "set (q_thr q c i)" s' s "fs_queue s c i"]
    unfolding fsq_ok_def assms(2-5) w im by (auto simp: fs_entity_def)
qed

lemma group_used:
  assumes "fs_acct s M Q" "finite M" "\<forall>t\<in>M. fs_entity s t" "g \<le> THREAD_SCHED_FS_PRIO_MAX"
  shows "fg_weight (fq_group_array Q g) = 0 \<longleftrightarrow> g \<notin> pri s ` M"
proof -
  have "unat (fd_weight (fsd s t)) \<noteq> 0" if "t \<in> M" for t
    using prio2weight(2) [of "pri s t"] that assms(3) by (auto simp: fs_entity_def)
  then have "fs_weights s {t \<in> M. pri s t = g} = 0 \<longleftrightarrow> {t \<in> M. pri s t = g} = {}"
    unfolding fs_weights_def using assms(2) by (subst sum_eq_0_iff) (simp, blast)
  then show ?thesis using assms(1,4) by (auto simp: fs_acct_def unat_eq_0 [symmetric])
qed

lemma queue_used:
  assumes "fs_acct s M Q" "finite M" "\<forall>t\<in>M. fs_entity s t"
  shows "fq_weight Q = 0 \<longleftrightarrow> M = {}"
proof -
  have "0 < unat (fd_weight (fsd s t))" if "t \<in> M" for t
    using prio2weight(2) [of "pri s t"] that assms(3) by (auto simp: fs_entity_def)
  then have "fs_weights s M = 0 \<longleftrightarrow> M = {}" unfolding fs_weights_def using assms(2) by (subst sum_eq_0_iff) auto
  then show ?thesis using assms(1) by (auto simp: fs_acct_def unat_eq_0 [symmetric])
qed

lemma works_le_weights:
  assumes "fs_within s M" "finite M" "fs_weights s M < 2 ^ 32"
  shows "unat (fs_works s M) \<le> fs_weights s M"
  using assms(2,1,3)
proof (induction M)
  case (insert t M)
  then have i: "unat (fs_works s M) \<le> fs_weights s M" "unat (fd_work (fsd s t)) \<le> unat (fd_weight (fsd s t))"
    "unat (fd_weight (fsd s t)) + fs_weights s M < 2 ^ 32"
    by (simp_all add: fs_insert fs_within_def word_le_nat_alt)
  have "fs_works s (insert t M) = fs_works s M + ucast (fd_work (fsd s t))" using fs_insert(2) [OF insert(1,2)] by (simp add: add.commute)
  then show ?case using i unat_add_ucast [of "fs_works s M" "fd_work (fsd s t)"] fs_insert(1) [OF insert(1,2), of s] by simp
qed (simp add: fs_works_def)

lemma unat_less_u32: "unat (x :: u32) < 2 ^ 32" using unsigned_less [of x] by simp

lemma acct_within:
  assumes "fs_acct s M Q" "finite M" "fs_within s M" "g \<le> THREAD_SCHED_FS_PRIO_MAX"
  shows "fq_work Q \<le> fq_weight Q" "fg_work (fq_group_array Q g) \<le> fg_weight (fq_group_array Q g)"
proof -
  note a = assms(1) [unfolded fs_acct_def]
  have "fs_weights s M < 2 ^ 32" using a unat_less_u32 [of "fq_weight Q"] by simp
  from works_le_weights [OF assms(3,2) this] show "fq_work Q \<le> fq_weight Q" using a by (simp add: word_le_nat_alt)
  have "fs_weights s {t \<in> M. pri s t = g} < 2 ^ 32" using a assms(4) unat_less_u32 [of "fg_weight (fq_group_array Q g)"] by simp
  moreover have "fs_within s {t \<in> M. pri s t = g}" using assms(3) by (simp add: fs_within_def)
  ultimately show "fg_work (fq_group_array Q g) \<le> fg_weight (fq_group_array Q g)"
    using works_le_weights [of s "{t \<in> M. pri s t = g}"] a assms(2,4) by (simp add: word_le_nat_alt)
qed


section \<open>Entering a queue\<close>

definition fs_free :: "nat set \<Rightarrow> queues \<Rightarrow> nat \<Rightarrow> bool" where
  "fs_free C q t \<longleftrightarrow> (\<forall>c\<in>C. \<forall>i. t \<notin> set (q_thr q c i) \<and> (\<forall>g\<le>THREAD_SCHED_FS_PRIO_MAX. t \<notin> set (q_grp q c i g)))"

definition q_enter :: "nat \<Rightarrow> bool \<Rightarrow> nat \<Rightarrow> nat list \<Rightarrow> nat \<Rightarrow> queues \<Rightarrow> queues" where
  "q_enter c i g gs t q = set_thr c i (q_thr q c i @ [t]) (set_grp c i g (t # q_grp q c i g) (set_groups c i gs q))"

lemma q_enter_select [simp]:
  "q_rt (q_enter c i g gs t q) = q_rt q"
  "q_thr (q_enter c i g gs t q) c' i' = (if c' = c \<and> i' = i then q_thr q c i @ [t] else q_thr q c' i')"
  "q_groups (q_enter c i g gs t q) c' i' = (if c' = c \<and> i' = i then gs else q_groups q c' i')"
  "q_grp (q_enter c i g gs t q) c' i' g' = (if c' = c \<and> i' = i \<and> g' = g then t # q_grp q c i g else q_grp q c' i' g')"
  by (simp_all add: q_enter_def)

lemma enqueue_out:
  fixes s :: sched and c i t
  defines "w \<equiv> fd_weight (fsd s t)" and "g \<equiv> pri s t" and "Q \<equiv> fs_queue s c i"
  assumes l: "links_ok (sy_links s) C q" "c \<in> C" and ok: "fsq_ok s q r c i round" and free: "fs_free C q t" "r \<noteq> Some t"
    and t: "fs_entity s t" "fd_fs_runq (fsd s t) = None" "fd_work (fsd s t) \<le> fd_weight (fsd s t)"
    and room: "unat (fq_weight Q) + unat w < 2 ^ 32"
    and within: "fd_round (fsd s t) = round \<or> fs_within s (set (q_thr q c i))"
  shows "\<exists>h' k gs. thread_sched_fs_enqueue c i round t s =
        Some (set_fs t \<lparr>fd_fs_runq = Some (c, i), fd_round = round, fd_weight = w, fd_work = k\<rparr>
          (set_fs_queue c i (group_plus g (ucast w) (ucast k) Q) (s\<lparr>sy_links := h'\<rparr>)))
    \<and> k \<le> w \<and> (fd_round (fsd s t) = round \<longrightarrow> k = fd_work (fsd s t)) \<and> links_ok h' C (q_enter c i g gs t q) \<and> same_groups (sy_links s) h' {(c, i)}
    \<and> set gs = insert g (set (q_groups q c i))
    \<and> sorted_wrt (\<lambda>a b. fg_weight (fq_group_array (group_plus g (ucast w) (ucast k) Q) b) \<le> fg_weight (fq_group_array (group_plus g (ucast w) (ucast k) Q) a)) gs"
proof -
  note fq = fsq_okD [OF ok]
  define M where "M = set (q_thr q c i)"
  have M: "finite M" "\<forall>t\<in>M. fs_entity s t" "fs_acct s M Q" "set (q_groups q c i) = pri s ` M" using fq(1,5,7) by (simp_all add: M_def Q_def)
  have g: "g \<le> THREAD_SCHED_FS_PRIO_MAX" using t(1) by (simp add: fs_entity_def g_def)
  define G where "G = fq_group_array Q g"
  define gw where "gw = fg_weight G + ucast w"
  have roomG: "unat (fg_weight G) + unat w < 2 ^ 32" using group_weight_le [OF M(3,1) g] room by (simp add: G_def)
  have gw: "unat gw = unat (fg_weight G) + unat w" unfolding gw_def by (rule unat_add_ucast [OF roomG])
  have used: "gweight s c i g = 0 \<longleftrightarrow> g \<notin> set (q_groups q c i)" using group_used [OF M(3,1,2) g] M(4) by (simp add: fs_group_queue Q_def)
  have up: "gweight s c i g \<le> gw" using gw by (simp add: fs_group_queue Q_def G_def word_le_nat_alt)
  obtain h1 us vs where p: "fs_enqueue_place c i g gw s = Some (s\<lparr>sy_links := h1\<rparr>)" "links_ok h1 C (set_groups c i (us @ g # vs) q)"
    "same_groups (sy_links s) h1 {(c, i)}" "set us \<union> set vs = set (q_groups q c i) - {g}" "by_weight s c i (us @ vs)"
    "\<forall>u\<in>set us. gw \<le> gweight s c i u" "\<forall>v\<in>set vs. gweight s c i v \<le> gw" "g \<notin> set (us @ vs)"
    using enqueue_place_out [OF l fq(6) used up] by blast
  have wi: "fq_work Q \<le> fq_weight Q \<and> fg_work G \<le> fg_weight G \<and> unat (fg_weight G) + unat w < 2 ^ 32 \<and> (fq_weight Q = 0 \<longrightarrow> fg_weight G = 0)"
    if "fd_round (fsd s t) \<noteq> round"
    using acct_within [OF M(3,1) _ g] within that roomG group_weight_le [OF M(3,1) g] by (auto simp: M_def G_def word_le_nat_alt unat_eq_0 [symmetric])
  obtain k where k: "fs_enqueue_work c i g gw round t (s\<lparr>sy_links := h1\<rparr>) = Some (set_fs t ((fsd s t)\<lparr>fd_round := round, fd_work := k\<rparr>) (set_fs_queue c i (work_plus g (ucast k) Q) (s\<lparr>sy_links := h1\<rparr>)))"
    "k \<le> w" "fd_round (fsd s t) = round \<longrightarrow> k = fd_work (fsd s t)"
  proof -
    define s1 where "s1 = s\<lparr>sy_links := h1\<rparr>"
    have e: "fs_queue s1 c i = Q" "fsd s1 t = fsd s t" by (simp_all add: s1_def Q_def)
    from enqueue_work_out [of s1 t round c i g] wi obtain k where
      "fs_enqueue_work c i g gw round t s1 = Some (set_fs t ((fsd s1 t)\<lparr>fd_round := round, fd_work := k\<rparr>) (set_fs_queue c i (work_plus g (ucast k) Q) s1))"
      "if fd_round (fsd s t) = round then k = fd_work (fsd s t) else k \<le> w"
      unfolding e w_def [symmetric] G_def [symmetric] gw_def [symmetric] by blast
    moreover from this(2) have "k \<le> w" "fd_round (fsd s t) = round \<longrightarrow> k = fd_work (fsd s t)" using t(3) by (simp_all add: w_def split: if_splits)
    ultimately show thesis by (intro that [of k]) (simp_all add: s1_def)
  qed
  obtain h2 where h2: "list_insert_head (Fs_group_threads c i g) (Fs_group_node t) h1 = Some h2"
    "links_ok h2 C (set_grp c i g (t # q_grp q c i g) (set_groups c i (us @ g # vs) q))" "same_groups h1 h2 {}"
    using grp_insert(2) [OF p(2) l(2) g, of t i] free(1) by (auto simp: fs_free_def)
  obtain h3 where h3: "list_insert_tail (Fs_threads c i) (Fs_runq_node t) h2 = Some h3" "links_ok h3 C (q_enter c i g (us @ g # vs) t q)" "same_groups h2 h3 {}"
    using thr_insert [OF h2(2) l(2), of t i] free(1) by (auto simp: fs_free_def q_enter_def)
  have plus: "(work_plus g (ucast k) Q)\<lparr>fq_nr_threads := fq_nr_threads (work_plus g (ucast k) Q) + 1, fq_weight := fq_weight Q + ucast w,
      fq_group_array := (fq_group_array (work_plus g (ucast k) Q))(g := (fq_group_array (work_plus g (ucast k) Q) g)\<lparr>fg_weight := gw\<rparr>)\<rparr>
    = group_plus g (ucast w) (ucast k) Q"
    by (cases Q; cases "fq_group_array Q g") (simp add: work_plus_def group_plus_def gw_def G_def)
  have d: "(fsd s t)\<lparr>fd_round := round, fd_work := k, fd_fs_runq := Some (c, i)\<rparr> = \<lparr>fd_fs_runq = Some (c, i), fd_round = round, fd_weight = w, fd_work = k\<rparr>"
    by (simp add: w_def)
  have "thread_sched_fs_enqueue c i round t s = Some (set_fs t \<lparr>fd_fs_runq = Some (c, i), fd_round = round, fd_weight = w, fd_work = k\<rparr>
          (set_fs_queue c i (group_plus g (ucast w) (ucast k) Q) (s\<lparr>sy_links := h3\<rparr>)))"
    unfolding thread_sched_fs_enqueue_def using t(2,3) g p(1) k(1) h2(1) h3(1)
    by (simp add: Let_def fs_group_queue set_fs_group_def on_links_def plus d flip: g_def Q_def w_def G_def gw_def)
  moreover have "sorted_wrt (\<lambda>a b. fg_weight (fq_group_array (group_plus g (ucast w) (ucast k) Q) b) \<le> fg_weight (fq_group_array (group_plus g (ucast w) (ucast k) Q) a)) (us @ g # vs)"
    using p(5-8) by (fastforce simp: sorted_wrt_append by_weight_def fs_group_queue simp flip: Q_def gw_def G_def intro: sorted_wrt_mono_rel [rotated])
  moreover have "set (us @ g # vs) = insert g (set (q_groups q c i))" using p(4) by auto
  moreover have "same_groups (sy_links s) h3 {(c, i)}"
    using same_groups_trans [OF p(3) same_groups_trans [OF h2(3) h3(3)]] by simp
  ultimately show ?thesis using k(2,3) h3(2) by blast
qed
lemma enqueue_ok:
  fixes s :: sched and c i t and q :: queues
  defines "g \<equiv> pri s t" and "M \<equiv> set (q_thr q c i)"
  assumes ok: "fsq_ok s q r c i round" and free: "t \<notin> M" "r \<noteq> Some t" and t: "fs_entity s t"
    and room: "unat (fq_weight (fs_queue s c i)) + unat (fd_weight (fsd s t)) < 2 ^ 32"
    and d: "d = \<lparr>fd_fs_runq = Some (c, i), fd_round = round, fd_weight = fd_weight (fsd s t), fd_work = k\<rparr>"
    and Q': "Q' = group_plus g (ucast (fd_weight (fsd s t))) (ucast k) (fs_queue s c i)"
    and gs: "set gs = insert g (set (q_groups q c i))"
      "sorted_wrt (\<lambda>a b. fg_weight (fq_group_array Q' b) \<le> fg_weight (fq_group_array Q' a)) gs"
  shows "fsq_ok (set_fs t d (set_fs_queue c i Q' (s\<lparr>sy_links := h'\<rparr>))) (q_enter c i g gs t q) r c i round"
proof -
  let ?s = "set_fs t d (set_fs_queue c i Q' (s\<lparr>sy_links := h'\<rparr>))"
  note fq = fsq_okD [OF ok]
  have p: "pri ?s u = pri s u" for u by simp
  have g: "g \<le> THREAD_SCHED_FS_PRIO_MAX" using t(1) by (simp add: fs_entity_def g_def)
  have "fs_acct ?s M (fs_queue s c i)"
    by (rule fs_acct_cong [OF _ fq(7) [folded M_def]]) (use free(1) in auto)
  from fs_acct_plus [OF this _ free(1)] room g
  have "fs_acct ?s (insert t M) Q'" by (simp add: M_def d Q' g_def)
  moreover have "by_weight ?s c i gs" using gs(2) by (simp add: by_weight_def fs_group_queue)
  moreover have "fs_entity ?s u" if "u \<in> insert t M" for u using that t fq(1) by (auto simp: fs_entity_def M_def d)
  ultimately show ?thesis using fq(2-5) free g gs(1) unfolding fsq_ok_def p
    by (auto simp: d M_def [symmetric] g_def)
qed

lemma enqueue_within:
  assumes "fs_within s (set (q_thr q c i))" "k \<le> fd_weight (fsd s t)" "d = \<lparr>fd_fs_runq = a, fd_round = b, fd_weight = fd_weight (fsd s t), fd_work = k\<rparr>"
  shows "fs_within (set_fs t d s) (insert t (set (q_thr q c i)))"
  using assms by (auto simp: fs_within_def)

section \<open>Leaving a queue\<close>

definition q_leave :: "nat \<Rightarrow> bool \<Rightarrow> nat \<Rightarrow> nat list \<Rightarrow> nat \<Rightarrow> queues \<Rightarrow> queues" where
  "q_leave c i g gs t q = set_groups c i gs (set_grp c i g (remove1 t (q_grp q c i g)) (set_thr c i (remove1 t (q_thr q c i)) q))"

lemma q_leave_select [simp]:
  "q_rt (q_leave c i g gs t q) = q_rt q"
  "q_thr (q_leave c i g gs t q) c' i' = (if c' = c \<and> i' = i then remove1 t (q_thr q c i) else q_thr q c' i')"
  "q_groups (q_leave c i g gs t q) c' i' = (if c' = c \<and> i' = i then gs else q_groups q c' i')"
  "q_grp (q_leave c i g gs t q) c' i' g' = (if c' = c \<and> i' = i \<and> g' = g then remove1 t (q_grp q c i g) else q_grp q c' i' g')"
  by (simp_all add: q_leave_def)

definition next_ok :: "sched_node links \<Rightarrow> queues \<Rightarrow> nat \<Rightarrow> bool \<Rightarrow> nat \<Rightarrow> bool" where
  "next_ok h q c i cur \<longleftrightarrow> (\<exists>n. list_next (Fs_group c i cur) h = Some n \<and> n \<in> insert (Fs_groups c i) (Fs_group c i ` set (q_groups q c i)))"

lemma listed_next_ok:
  assumes "links_ok h C q" "c \<in> C" "g \<in> set (q_groups q c i)"
  shows "next_ok h q c i g"
proof -
  obtain us vs where u: "q_groups q c i = us @ g # vs" using assms(3) by (meson split_list)
  then show ?thesis using links_group_neighbours(1) [OF assms(1,2) u] by (cases vs) (auto simp: next_ok_def)
qed

lemma dequeue_place_next:
  assumes l: "links_ok (sy_links s) C q" "c \<in> C" and g: "g \<in> set (q_groups q c i)"
    and out: "links_ok h' C q'" "set (q_groups q' c i) = (if gweight s c i g = 0 then set (q_groups q c i) - {g} else set (q_groups q c i))"
      "gweight s c i g = 0 \<longrightarrow> h' (Fs_group c i g) = (sy_links s) (Fs_group c i g)"
    and cur: "cur \<in> set (q_groups q c i)"
  shows "next_ok h' q' c i cur"
proof (cases "cur \<in> set (q_groups q' c i)")
  case True
  then show ?thesis using listed_next_ok [OF out(1) l(2)] by simp
next
  case False
  then have z: "gweight s c i g = 0" "cur = g" using out(2) cur by (auto split: if_splits)
  obtain us vs where u: "q_groups q c i = us @ g # vs" using g by (meson split_list)
  have "distinct (us @ g # vs)" using links_fs(1) [OF l, of i] u by simp
  moreover have "list_next (Fs_group c i g) h' = list_next (Fs_group c i g) (sy_links s)" using out(3) z by (simp add: list_next_def)
  ultimately show ?thesis using links_group_neighbours(1) [OF l u] out(2) z u by (cases vs) (auto simp: next_ok_def)
qed


lemma group_minus_eq:
  "(let Q1 = Q\<lparr>fq_work := fq_work Q - k\<rparr>;
        Q2 = Q1\<lparr>fq_group_array := (fq_group_array Q1)(g := (fq_group_array Q1 g)\<lparr>fg_work := fg_work (fq_group_array Q1 g) - k\<rparr>)\<rparr>;
        Q3 = Q2\<lparr>fq_weight := fq_weight Q2 - w\<rparr>;
        Q4 = Q3\<lparr>fq_group_array := (fq_group_array Q3)(g := (fq_group_array Q3 g)\<lparr>fg_weight := fg_weight (fq_group_array Q3 g) - w\<rparr>)\<rparr> in
    Q4\<lparr>fq_nr_threads := fq_nr_threads Q4 - 1\<rparr>) = group_minus g w k Q"
  by (cases Q; cases "fq_group_array Q g") (simp add: group_minus_def Let_def)

lemma dequeue_out:
  fixes s :: sched and c i t
  defines "g \<equiv> pri s t" and "w \<equiv> fd_weight (fsd s t)" and "k \<equiv> fd_work (fsd s t)" and "Q \<equiv> fs_queue s c i"
  assumes l: "links_ok (sy_links s) C q" "c \<in> C" and ok: "fsq_ok s q r c i round" and t: "t \<in> set (q_thr q c i)" "r \<noteq> Some t"
  shows "\<exists>h' gs. thread_sched_fs_dequeue t s =
        Some (set_fs t ((fsd s t)\<lparr>fd_fs_runq := None\<rparr>) (set_fs_queue c i (group_minus g (ucast w) (ucast k) Q) (s\<lparr>sy_links := h'\<rparr>)))
    \<and> links_ok h' C (q_leave c i g gs t q) \<and> same_groups (sy_links s) h' {(c, i)}
    \<and> set gs = pri s ` (set (q_thr q c i) - {t})
    \<and> sorted_wrt (\<lambda>a b. fg_weight (fq_group_array (group_minus g (ucast w) (ucast k) Q) b) \<le> fg_weight (fq_group_array (group_minus g (ucast w) (ucast k) Q) a)) gs
    \<and> (\<forall>cur\<in>set (q_groups q c i). next_ok h' (q_leave c i g gs t q) c i cur)"
proof -
  note fq = fsq_okD [OF ok]
  define M where "M = set (q_thr q c i)"
  define Q' where "Q' = group_minus g (ucast w) (ucast k) Q"
  have M: "finite M" "\<forall>t\<in>M. fs_entity s t" "fs_acct s M Q" "set (q_groups q c i) = pri s ` M" "t \<in> M" using fq(1,5,7) t(1) by (simp_all add: M_def Q_def)
  have g: "g \<le> THREAD_SCHED_FS_PRIO_MAX" using fq(1) [OF t(1)] by (simp add: fs_entity_def g_def)
  obtain h1 where h1: "list_remove (Fs_runq_node t) (sy_links s) = Some h1" "links_ok h1 C (set_thr c i (remove1 t (q_thr q c i)) q)"
    "same_groups (sy_links s) h1 {}" using thr_unlink [OF l t(1)] by auto
  have tg: "t \<in> set (q_grp q c i g)" using fq(4) [OF g] t by (simp add: g_def)
  define q2 where "q2 = set_grp c i g (remove1 t (q_grp q c i g)) (set_thr c i (remove1 t (q_thr q c i)) q)"
  obtain h2 where h2: "list_remove (Fs_group_node t) h1 = Some h2" "links_ok h2 C q2" "same_groups h1 h2 {}"
    using grp_unlink [OF h1(2) l(2) g, of t i] tg by (auto simp: q2_def)
  define s2 where "s2 = set_fs t ((fsd s t)\<lparr>fd_fs_runq := None\<rparr>) (set_fs_queue c i Q' (s\<lparr>sy_links := h2\<rparr>))"
  have l2: "links_ok (sy_links s2) C q2" using h2(2) by (simp add: s2_def)
  have acct2: "fs_acct s (M - {t}) Q'" unfolding Q'_def g_def w_def k_def by (rule fs_acct_minus [OF M(3,1,5)]) (use g g_def in simp)
  have gz: "gweight s2 c i g = 0 \<longleftrightarrow> g \<notin> pri s ` (M - {t})"
    using group_used [OF acct2 _ _ g] M(1,2) by (simp add: s2_def fs_group_queue)
  obtain a b where ab: "q_groups q c i = a @ g # b" using M(4,5) by (metis g_def imageI split_list)
  have dist: "distinct (a @ g # b)" using links_fs(1) [OF l, of i] ab by simp
  have gw2: "gweight s2 c i u = gweight s c i u" if "u \<noteq> g" for u using that by (simp add: s2_def Q'_def Q_def fs_group_queue)
  have "fs_weights s {u \<in> M - {t}. pri s u = g} \<le> fs_weights s {u \<in> M. pri s u = g}"
    unfolding fs_weights_def by (rule sum_mono2) (use M(1) in auto)
  then have down: "gweight s2 c i g \<le> gweight s c i g"
    using M(3) acct2 g by (simp add: s2_def fs_acct_def fs_group_queue word_le_nat_alt flip: Q_def)
  have bw: "by_weight s c i (a @ g # b)" using fq(6) ab by simp
  have "by_weight s2 c i (a @ b)"
  proof -
    have "by_weight s c i (a @ b)" using bw by (simp add: by_weight_def sorted_wrt_append)
    moreover have "g \<notin> set (a @ b)" using dist by simp
    ultimately show ?thesis unfolding by_weight_def by (elim sorted_wrt_mono_rel [rotated]) (metis gw2)
  qed
  moreover have "\<forall>u\<in>set a. gweight s2 c i g \<le> gweight s2 c i u"
    using bw down dist gw2 by (auto simp: by_weight_def sorted_wrt_append intro: order.trans) (metis order.trans)
  moreover have "q_groups q2 c i = a @ g # b" using ab by (simp add: q2_def)
  ultimately obtain h3 gs where h3: "fs_dequeue_place c i g s2 = Some (s2\<lparr>sy_links := h3\<rparr>)" "links_ok h3 C (set_groups c i gs q2)"
    "same_groups (sy_links s2) h3 {(c, i)}" "set gs = (if gweight s2 c i g = 0 then set (a @ b) else set (a @ g # b))" "by_weight s2 c i gs"
    "gweight s2 c i g = 0 \<longrightarrow> h3 (Fs_group c i g) = (sy_links s2) (Fs_group c i g)"
    using dequeue_place_out [OF l2 l(2)] by metis
  have q3: "set_groups c i gs q2 = q_leave c i g gs t q" by (simp add: q2_def q_leave_def)
  have "thread_sched_fs_dequeue t s = fs_dequeue_place c i g s2"
    unfolding thread_sched_fs_dequeue_def using g h1(1) h2(1) fq(2) [OF t(1)]
    by (simp add: Let_def fs_group_queue set_fs_group_def on_links_def s2_def Q'_def group_minus_eq [unfolded Let_def, symmetric] flip: g_def w_def k_def Q_def)
  then have out: "thread_sched_fs_dequeue t s = Some (set_fs t ((fsd s t)\<lparr>fd_fs_runq := None\<rparr>) (set_fs_queue c i Q' (s\<lparr>sy_links := h3\<rparr>)))"
    using h3(1) by (simp add: s2_def)
  have im: "pri s ` M = insert g (pri s ` (M - {t}))" using M(5) by (auto simp: g_def)
  have gs: "set gs = pri s ` (M - {t})"
    using h3(4) gz im M(4) ab dist by (auto split: if_splits)
  have q2g: "q_groups q2 c i = a @ g # b" using ab by (simp add: q2_def)
  have se: "set (q_groups (q_leave c i g gs t q) c i) = (if gweight s2 c i g = 0 then set (q_groups q2 c i) - {g} else set (q_groups q2 c i))"
    using h3(4) dist by (auto simp: q2g)
  have "\<forall>cur\<in>set (q_groups q c i). next_ok h3 (q_leave c i g gs t q) c i cur"
    by (rule ballI) (rule dequeue_place_next [OF l2 l(2) _ h3(2) [unfolded q3] se h3(6)], auto simp: q2g ab)
  moreover have "same_groups (sy_links s) h3 {(c, i)}"
    using same_groups_trans [OF h1(3) same_groups_trans [OF h2(3), of h3 "{(c, i)}"]] h3(3) by (simp add: s2_def)
  ultimately show ?thesis using out h3(2,5) gs unfolding q3 M_def Q'_def [symmetric]
    by (intro exI [of _ h3] exI [of _ gs]) (simp add: by_weight_def s2_def fs_group_queue)
qed

lemma dequeue_ok:
  fixes s :: sched and c i t and q :: queues
  defines "g \<equiv> pri s t" and "M \<equiv> set (q_thr q c i)"
  assumes ok: "fsq_ok s q r c i round" and d: "distinct (q_thr q c i)" "\<forall>g\<le>THREAD_SCHED_FS_PRIO_MAX. distinct (q_grp q c i g)"
    and t: "t \<in> M"
    and Q': "Q' = group_minus g (ucast (fd_weight (fsd s t))) (ucast (fd_work (fsd s t))) (fs_queue s c i)"
    and gs: "set gs = pri s ` (M - {t})" "sorted_wrt (\<lambda>a b. fg_weight (fq_group_array Q' b) \<le> fg_weight (fq_group_array Q' a)) gs"
  shows "fsq_ok (set_fs t ((fsd s t)\<lparr>fd_fs_runq := None\<rparr>) (set_fs_queue c i Q' (s\<lparr>sy_links := h'\<rparr>))) (q_leave c i g gs t q) r c i round"
proof -
  let ?s = "set_fs t ((fsd s t)\<lparr>fd_fs_runq := None\<rparr>) (set_fs_queue c i Q' (s\<lparr>sy_links := h'\<rparr>))"
  note fq = fsq_okD [OF ok]
  have p: "pri ?s u = pri s u" for u by simp
  have g: "g \<le> THREAD_SCHED_FS_PRIO_MAX" using fq(1) t by (simp add: fs_entity_def g_def M_def)
  have "fs_acct s (M - {t}) Q'" unfolding Q' g_def
    by (rule fs_acct_minus [OF fq(7) [folded M_def]]) (use t g in \<open>simp_all add: M_def g_def\<close>)
  then have "fs_acct ?s (M - {t}) Q'" by (rule fs_acct_cong [rotated]) simp
  moreover have "by_weight ?s c i gs" using gs(2) by (simp add: by_weight_def fs_group_queue)
  moreover have "fs_entity ?s u" if "u \<in> M - {t}" for u using that fq(1) by (auto simp: fs_entity_def M_def)
  ultimately show ?thesis using fq(2-5) g gs(1) t d unfolding fsq_ok_def p
    by (auto simp: M_def [symmetric] g_def set_remove1_eq)
qed

end
