(* ===== verification/Sched_State.thy ===== *)
theory Sched_State
  imports Sched_Queue
begin

text \<open>
  The invariant of the run queues (\<open>runqs_ok\<close>): \<open>A c\<close> is the set of the threads of the run queue
  \<open>c\<close> and \<open>r c\<close> the one of them its processor has taken out to run. A real-time thread is in the list of
  its priority and the bitmap has the bit of every list in use; a fair-scheduling thread is in the
  active queue, in the current round, or in the expired one, in the next round. An operation that is
  \<open>quiet\<close> changes no more of a thread than its flags and its fair-scheduling data.
\<close>

unbundle bit_operations_syntax

lemma real_select_more [simp]:
  "thread_real_sched_class (v\<lparr>th_flags := xth_flags\<rparr>) = thread_real_sched_class v" "thread_real_priority (v\<lparr>th_flags := xth_flags\<rparr>) = thread_real_priority v"
  "thread_real_sched_class (v\<lparr>th_state := xth_state\<rparr>) = thread_real_sched_class v" "thread_real_priority (v\<lparr>th_state := xth_state\<rparr>) = thread_real_priority v"
  "thread_real_sched_class (v\<lparr>th_in_runq := xth_in_runq\<rparr>) = thread_real_sched_class v" "thread_real_priority (v\<lparr>th_in_runq := xth_in_runq\<rparr>) = thread_real_priority v"
  "thread_real_sched_class (v\<lparr>th_runq := xth_runq\<rparr>) = thread_real_sched_class v" "thread_real_priority (v\<lparr>th_runq := xth_runq\<rparr>) = thread_real_priority v"
  "thread_real_sched_class (v\<lparr>th_wchan_addr := xth_wchan_addr\<rparr>) = thread_real_sched_class v" "thread_real_priority (v\<lparr>th_wchan_addr := xth_wchan_addr\<rparr>) = thread_real_priority v"
  "thread_real_sched_class (v\<lparr>th_wakeup_error := xth_wakeup_error\<rparr>) = thread_real_sched_class v" "thread_real_priority (v\<lparr>th_wakeup_error := xth_wakeup_error\<rparr>) = thread_real_priority v"
  "thread_real_sched_class (v\<lparr>th_rt_time_slice := xth_rt_time_slice\<rparr>) = thread_real_sched_class v" "thread_real_priority (v\<lparr>th_rt_time_slice := xth_rt_time_slice\<rparr>) = thread_real_priority v"
  by (simp_all add: thread_real_sched_class_def thread_real_priority_def)

section \<open>The invariant of a run queue\<close>

definition MAX_THREADS :: nat where "MAX_THREADS = 5000000"

abbreviation fs_cur :: "sched \<Rightarrow> nat \<Rightarrow> nat" where "fs_cur s c \<equiv> fq_current (fs_queue s c (rq_fs_active (rq s c)))"

definition rt_ok :: "sched \<Rightarrow> queues \<Rightarrow> nat option \<Rightarrow> nat \<Rightarrow> nat set \<Rightarrow> bool" where
  "rt_ok s q r c A \<longleftrightarrow> (\<forall>p\<le>THREAD_SCHED_RT_PRIO_MAX.
       set (q_rt q c p) = {t \<in> A. cls s t = THREAD_SCHED_CLASS_RT \<and> pri s t = p \<and> r \<noteq> Some t}
       \<and> (bit (rq_rt_bitmap (rq s c)) p \<longleftrightarrow> q_rt q c p \<noteq> []))
     \<and> (\<forall>t\<in>A. cls s t = THREAD_SCHED_CLASS_RT \<longrightarrow> pri s t \<le> THREAD_SCHED_RT_PRIO_MAX)"

definition fs_ok :: "sched \<Rightarrow> queues \<Rightarrow> nat option \<Rightarrow> nat \<Rightarrow> nat set \<Rightarrow> bool" where
  "fs_ok s q r c A \<longleftrightarrow>
     rq_fs_expired (rq s c) = (\<not> rq_fs_active (rq s c))
     \<and> fsq_ok s q r c (rq_fs_active (rq s c)) (rq_fs_round (rq s c))
     \<and> fsq_ok s q r c (\<not> rq_fs_active (rq s c)) (rq_fs_round (rq s c) + 1)
     \<and> set (q_thr q c True) \<union> set (q_thr q c False) = {t \<in> A. cls s t = THREAD_SCHED_CLASS_FS}
     \<and> unat (rq_fs_weight (rq s c)) = unat (fq_weight (fs_queue s c True)) + unat (fq_weight (fs_queue s c False))
     \<and> (\<forall>t. r = Some t \<and> cls s t = THREAD_SCHED_CLASS_FS \<longrightarrow>
          t \<in> set (q_thr q c (rq_fs_active (rq s c))) \<and> fs_cur s c \<in> set (q_groups q c (rq_fs_active (rq s c))))
     \<and> (q_groups q c (rq_fs_active (rq s c)) \<noteq> [] \<longrightarrow> next_ok (sy_links s) q c (rq_fs_active (rq s c)) (fs_cur s c))"

definition runq_ok :: "sched \<Rightarrow> queues \<Rightarrow> nat option \<Rightarrow> nat \<Rightarrow> nat set \<Rightarrow> bool" where
  "runq_ok s q r c A \<longleftrightarrow> A \<subseteq> {..<MAX_THREADS} \<and> (\<forall>t. r = Some t \<longrightarrow> t \<in> A)
     \<and> (\<forall>t\<in>A. cls s t = THREAD_SCHED_CLASS_RT \<or> cls s t = THREAD_SCHED_CLASS_FS)
     \<and> rt_ok s q r c A \<and> fs_ok s q r c A"

text \<open>The run queues of the processors \<open>C\<close>; the threads of the run queue \<open>c\<close> are \<open>A c\<close>.\<close>

definition runqs_ok :: "nat set \<Rightarrow> sched \<Rightarrow> queues \<Rightarrow> (nat \<Rightarrow> nat option) \<Rightarrow> (nat \<Rightarrow> nat set) \<Rightarrow> bool" where
  "runqs_ok C s q r A \<longleftrightarrow> links_ok (sy_links s) C q \<and> (\<forall>c\<in>C. runq_ok s q (r c) c (A c))
     \<and> (\<forall>c\<in>C. \<forall>c'\<in>C. c \<noteq> c' \<longrightarrow> A c \<inter> A c' = {})
     \<and> (\<forall>t. cls s t = THREAD_SCHED_CLASS_FS \<and> (\<forall>c\<in>C. t \<notin> A c) \<longrightarrow> fs_entity s t \<and> fd_fs_runq (fsd s t) = None)"

lemma runqs_okD:
  assumes "runqs_ok C s q r A"
  shows "links_ok (sy_links s) C q" "c \<in> C \<Longrightarrow> runq_ok s q (r c) c (A c)"
    "c \<in> C \<Longrightarrow> rt_ok s q (r c) c (A c)" "c \<in> C \<Longrightarrow> fs_ok s q (r c) c (A c)"
    "c \<in> C \<Longrightarrow> c' \<in> C \<Longrightarrow> t \<in> A c \<Longrightarrow> t \<in> A c' \<Longrightarrow> c = c'" "c \<in> C \<Longrightarrow> finite (A c)"
    "cls s t = THREAD_SCHED_CLASS_FS \<Longrightarrow> \<forall>c\<in>C. t \<notin> A c \<Longrightarrow> fs_entity s t"
    "cls s t = THREAD_SCHED_CLASS_FS \<Longrightarrow> \<forall>c\<in>C. t \<notin> A c \<Longrightarrow> fd_fs_runq (fsd s t) = None"
proof -
  note a = assms [unfolded runqs_ok_def]
  show "c \<in> C \<Longrightarrow> c' \<in> C \<Longrightarrow> t \<in> A c \<Longrightarrow> t \<in> A c' \<Longrightarrow> c = c'" using a by (metis IntI empty_iff)
  show "finite (A c)" if "c \<in> C"
  proof (rule finite_subset)
    show "A c \<subseteq> {..<MAX_THREADS}" using a that by (simp add: runq_ok_def)
  qed simp
qed (use assms in \<open>auto simp: runqs_ok_def runq_ok_def\<close>)

lemma fs_okD:
  assumes "fs_ok s q r c A"
  shows "rq_fs_expired (rq s c) = (\<not> rq_fs_active (rq s c))"
    "fsq_ok s q r c (rq_fs_active (rq s c)) (rq_fs_round (rq s c))"
    "fsq_ok s q r c (\<not> rq_fs_active (rq s c)) (rq_fs_round (rq s c) + 1)"
    "t \<in> set (q_thr q c i) \<Longrightarrow> t \<in> A" "t \<in> set (q_thr q c i) \<Longrightarrow> cls s t = THREAD_SCHED_CLASS_FS"
    "t \<in> A \<Longrightarrow> cls s t = THREAD_SCHED_CLASS_FS \<Longrightarrow> \<exists>i. t \<in> set (q_thr q c i)"
    "unat (rq_fs_weight (rq s c)) = unat (fq_weight (fs_queue s c i)) + unat (fq_weight (fs_queue s c (\<not> i)))"
    "r = Some t \<Longrightarrow> cls s t = THREAD_SCHED_CLASS_FS \<Longrightarrow> t \<in> set (q_thr q c (rq_fs_active (rq s c)))"
    "r = Some t \<Longrightarrow> cls s t = THREAD_SCHED_CLASS_FS \<Longrightarrow> fs_cur s c \<in> set (q_groups q c (rq_fs_active (rq s c)))"
    "q_groups q c (rq_fs_active (rq s c)) \<noteq> [] \<Longrightarrow> next_ok (sy_links s) q c (rq_fs_active (rq s c)) (fs_cur s c)"
    "\<exists>rnd. fsq_ok s q r c i rnd"
proof -
  note a = assms [unfolded fs_ok_def]
  show "t \<in> set (q_thr q c i) \<Longrightarrow> t \<in> A" "t \<in> set (q_thr q c i) \<Longrightarrow> cls s t = THREAD_SCHED_CLASS_FS"
    "t \<in> A \<Longrightarrow> cls s t = THREAD_SCHED_CLASS_FS \<Longrightarrow> \<exists>i. t \<in> set (q_thr q c i)"
    "unat (rq_fs_weight (rq s c)) = unat (fq_weight (fs_queue s c i)) + unat (fq_weight (fs_queue s c (\<not> i)))"
    using a by (cases i; auto)+
  show "\<exists>rnd. fsq_ok s q r c i rnd" using a by (cases "i = rq_fs_active (rq s c)") auto
qed (use assms in \<open>auto simp: fs_ok_def\<close>)

lemma fsq_member:
  assumes "fs_ok s q r c A" "t \<in> set (q_thr q c i)"
  shows "fd_fs_runq (fsd s t) = Some (c, i)" "fs_entity s t" "t \<notin> set (q_thr q c (\<not> i))"
proof -
  obtain r1 r2 where f: "fsq_ok s q r c i r1" "fsq_ok s q r c (\<not> i) r2" using fs_okD(11) [OF assms(1)] by blast
  show "fd_fs_runq (fsd s t) = Some (c, i)" "fs_entity s t" using fsq_okD(1,2) [OF f(1) assms(2)] by simp_all
  then show "t \<notin> set (q_thr q c (\<not> i))" using fsq_okD(2) [OF f(2), of t] by auto
qed

lemma runqs_free:
  assumes "runqs_ok C s q r A" "\<forall>c\<in>C. t \<notin> A c"
  shows "fs_free C q t" "c \<in> C \<Longrightarrow> r c \<noteq> Some t" "\<forall>c\<in>C. \<forall>p\<le>THREAD_SCHED_RT_PRIO_MAX. t \<notin> set (q_rt q c p)"
proof -
  have "t \<notin> set (q_thr q c i)" "g \<le> THREAD_SCHED_FS_PRIO_MAX \<longrightarrow> t \<notin> set (q_grp q c i g)" if "c \<in> C" for c i g
  proof -
    note f = runqs_okD(4) [OF assms(1) that]
    show "t \<notin> set (q_thr q c i)" using fs_okD(4) [OF f, of t i] assms(2) that by auto
    then show "g \<le> THREAD_SCHED_FS_PRIO_MAX \<longrightarrow> t \<notin> set (q_grp q c i g)" using fs_okD(11) [OF f, of i] fsq_okD(4) by auto
  qed
  then show "fs_free C q t" by (simp add: fs_free_def)
  show "c \<in> C \<Longrightarrow> r c \<noteq> Some t" using runqs_okD(2) [OF assms(1)] assms(2) by (auto simp: runq_ok_def)
  show "\<forall>c\<in>C. \<forall>p\<le>THREAD_SCHED_RT_PRIO_MAX. t \<notin> set (q_rt q c p)"
    using runqs_okD(3) [OF assms(1)] assms(2) by (auto simp: rt_ok_def)
qed

text \<open>What a run queue reads of the state.\<close>

definition same_runq :: "sched \<Rightarrow> sched \<Rightarrow> nat \<Rightarrow> bool" where
  "same_runq s s' c \<longleftrightarrow> rq_rt_bitmap (rq s' c) = rq_rt_bitmap (rq s c) \<and> rq_fs_round (rq s' c) = rq_fs_round (rq s c)
     \<and> rq_fs_weight (rq s' c) = rq_fs_weight (rq s c) \<and> rq_fs_runqs (rq s' c) = rq_fs_runqs (rq s c)
     \<and> rq_fs_active (rq s' c) = rq_fs_active (rq s c) \<and> rq_fs_expired (rq s' c) = rq_fs_expired (rq s c)
     \<and> (\<forall>i g. sy_links s' (Fs_group c i g) = sy_links s (Fs_group c i g))"

definition same_lists :: "queues \<Rightarrow> queues \<Rightarrow> nat \<Rightarrow> bool" where
  "same_lists q q' c \<longleftrightarrow> q_rt q' c = q_rt q c \<and> q_groups q' c = q_groups q c \<and> q_grp q' c = q_grp q c \<and> q_thr q' c = q_thr q c"

definition same_sched :: "sched \<Rightarrow> sched \<Rightarrow> nat \<Rightarrow> bool" where
  "same_sched s s' t \<longleftrightarrow> cls s' t = cls s t \<and> pri s' t = pri s t \<and> fsd s' t = fsd s t"

lemma same_refl [simp]: "same_runq s s c" "same_lists q q c" "same_sched s s t"
  by (simp_all add: same_runq_def same_lists_def same_sched_def)

lemma fsq_ok_run:
  assumes "fsq_ok s q r c i round" "\<And>t. t \<in> set (q_thr q c i) \<Longrightarrow> (r' = Some t) = (r = Some t)"
  shows "fsq_ok s q r' c i round"
proof -
  have "{t \<in> set (q_thr q c i). pri s t = g \<and> r' \<noteq> Some t} = {t \<in> set (q_thr q c i). pri s t = g \<and> r \<noteq> Some t}" for g
    using assms(2) by auto
  then show ?thesis using assms(1) by (simp add: fsq_ok_def)
qed

lemma fs_ok_cong:
  assumes ok: "fs_ok s q r c A"
    and f: "rq_fs_round (rq s' c) = rq_fs_round (rq s c)" "rq_fs_weight (rq s' c) = rq_fs_weight (rq s c)"
      "rq_fs_runqs (rq s' c) = rq_fs_runqs (rq s c)" "rq_fs_active (rq s' c) = rq_fs_active (rq s c)"
      "rq_fs_expired (rq s' c) = rq_fs_expired (rq s c)" "\<And>i g. sy_links s' (Fs_group c i g) = sy_links s (Fs_group c i g)"
    and l: "q_groups q' c = q_groups q c" "q_grp q' c = q_grp q c" "q_thr q' c = q_thr q c"
    and t: "\<And>t. t \<in> A \<Longrightarrow> cls s t = THREAD_SCHED_CLASS_FS \<Longrightarrow> pri s' t = pri s t \<and> fsd s' t = fsd s t"
      "\<And>t. t \<in> A' \<and> cls s' t = THREAD_SCHED_CLASS_FS \<longleftrightarrow> t \<in> A \<and> cls s t = THREAD_SCHED_CLASS_FS"
      "\<And>t. r' = Some t \<and> cls s' t = THREAD_SCHED_CLASS_FS \<longleftrightarrow> r = Some t \<and> cls s t = THREAD_SCHED_CLASS_FS"
  shows "fs_ok s' q' r' c A'"
proof -
  have thr: "t \<in> A" "cls s t = THREAD_SCHED_CLASS_FS" if "t \<in> set (q_thr q c i)" for t i using fs_okD(4,5) [OF ok that] by simp_all
  have qq: "fs_queue s' c i = fs_queue s c i" for i using f(3) by (simp add: fs_queue_def)
  have "fsq_ok s' q' r' c i rnd" if "fsq_ok s q r c i rnd" for i rnd
  proof (rule fsq_ok_run [of s' q' r])
    show "fsq_ok s' q' r c i rnd" by (rule fsq_ok_cong [OF _ qq _ _ _ that]) (use l t(1) thr in auto)
    show "(r' = Some u) = (r = Some u)" if u: "u \<in> set (q_thr q' c i)" for u
    proof -
      have "u \<in> A" "cls s u = THREAD_SCHED_CLASS_FS" using thr u l(3) by auto
      then have "cls s' u = THREAD_SCHED_CLASS_FS" using t(2) [of u] by simp
      then show ?thesis using t(3) [of u] \<open>cls s u = THREAD_SCHED_CLASS_FS\<close> by simp
    qed
  qed
  moreover have "next_ok (sy_links s') q' c i g = next_ok (sy_links s) q c i g" for i g
    using f(6) l by (simp add: next_ok_def list_next_def)
  moreover have "{t \<in> A'. cls s' t = THREAD_SCHED_CLASS_FS} = {t \<in> A. cls s t = THREAD_SCHED_CLASS_FS}" using t(2) by blast
  ultimately show ?thesis using ok f l t(3) unfolding fs_ok_def by (simp add: qq) blast
qed

lemma rt_ok_cong:
  assumes ok: "rt_ok s q r c A" and f: "rq_rt_bitmap (rq s' c) = rq_rt_bitmap (rq s c)" "q_rt q' c = q_rt q c"
    and t: "\<And>t. t \<in> A' \<and> cls s' t = THREAD_SCHED_CLASS_RT \<longleftrightarrow> t \<in> A \<and> cls s t = THREAD_SCHED_CLASS_RT"
      "\<And>t. t \<in> A \<Longrightarrow> cls s t = THREAD_SCHED_CLASS_RT \<Longrightarrow> pri s' t = pri s t \<and> ((r' = Some t) = (r = Some t))"
  shows "rt_ok s' q' r' c A'"
proof -
  have "{t \<in> A'. cls s' t = THREAD_SCHED_CLASS_RT \<and> pri s' t = p \<and> r' \<noteq> Some t} = {t \<in> A. cls s t = THREAD_SCHED_CLASS_RT \<and> pri s t = p \<and> r \<noteq> Some t}" for p
    using t by (intro Collect_cong) metis
  moreover have "pri s' t \<le> THREAD_SCHED_RT_PRIO_MAX" if "t \<in> A'" "cls s' t = THREAD_SCHED_CLASS_RT" for t
    using ok t that by (metis rt_ok_def)
  ultimately show ?thesis using ok f unfolding rt_ok_def by simp
qed

lemma runq_ok_cong:
  assumes ok: "runq_ok s q r c A" and same: "same_runq s s' c" "same_lists q q' c" "\<And>t. t \<in> A \<Longrightarrow> same_sched s s' t"
  shows "runq_ok s' q' r c A"
proof -
  note f = same_runq_def [THEN iffD1, OF same(1)] and l = same_lists_def [THEN iffD1, OF same(2)]
  have t: "cls s' t = cls s t" "pri s' t = pri s t" "fsd s' t = fsd s t" if "t \<in> A" for t
    using same(3) [OF that] by (simp_all add: same_sched_def)
  have r: "t \<in> A" if "r = Some t" for t using ok that by (simp add: runq_ok_def)
  have parts: "fs_ok s q r c A" "rt_ok s q r c A" using ok by (simp_all add: runq_ok_def)
  have e: "t \<in> A \<and> cls s' t = k \<longleftrightarrow> t \<in> A \<and> cls s t = k" "r = Some t \<and> cls s' t = k \<longleftrightarrow> r = Some t \<and> cls s t = k" for t k
    using t(1) r by metis+
  have "fs_ok s' q' r c A" by (rule fs_ok_cong [OF parts(1)]) (use f l t e in simp_all)
  moreover have "rt_ok s' q' r c A" by (rule rt_ok_cong [OF parts(2)]) (use f l t e in simp_all)
  ultimately show ?thesis using ok t by (simp add: runq_ok_def)
qed

text \<open>An operation on the run queue \<open>c\<close>.\<close>

definition strip :: "thread \<Rightarrow> thread" where
  "strip v = v\<lparr>th_flags := 0, th_fs := \<lparr>fd_fs_runq = None, fd_round = 0, fd_weight = 0, fd_work = 0\<rparr>\<rparr>"

definition quiet :: "sched \<Rightarrow> sched \<Rightarrow> bool" where
  "quiet s s' \<longleftrightarrow> (\<forall>t. strip (th s' t) = strip (th s t))
     \<and> (\<forall>c. rq_nr_threads (rq s' c) = rq_nr_threads (rq s c) \<and> rq_current (rq s' c) = rq_current (rq s c)
          \<and> rq_balancer (rq s' c) = rq_balancer (rq s c) \<and> rq_idler (rq s' c) = rq_idler (rq s c)
          \<and> rq_idle_balance_ticks (rq s' c) = rq_idle_balance_ticks (rq s c))"

lemma strip_update [simp]: "strip (v\<lparr>th_flags := f\<rparr>) = strip v" "strip (v\<lparr>th_fs := d\<rparr>) = strip v"
  by (simp_all add: strip_def)

lemma strip_eqD:
  assumes "strip v = strip v'"
  shows "thread_real_sched_class v = thread_real_sched_class v'" "thread_real_priority v = thread_real_priority v'"
    "th_in_runq v = th_in_runq v'" "th_runq v = th_runq v'" "th_state v = th_state v'"
    "th_wakeup_error v = th_wakeup_error v'" "th_wchan_addr v = th_wchan_addr v'"
  using arg_cong [OF assms, of thread_real_sched_class] arg_cong [OF assms, of thread_real_priority]
    arg_cong [OF assms, of th_wakeup_error] arg_cong [OF assms, of th_wchan_addr] arg_cong [OF assms, of th_in_runq] arg_cong [OF assms, of th_runq] arg_cong [OF assms, of th_state]
  by (simp_all add: strip_def)

lemma quietD:
  assumes "quiet s s'"
  shows "cls s' t = cls s t" "pri s' t = pri s t" "th_in_runq (th s' t) = th_in_runq (th s t)" "th_runq (th s' t) = th_runq (th s t)"
    "th_state (th s' t) = th_state (th s t)" "rq_nr_threads (rq s' c) = rq_nr_threads (rq s c)" "rq_current (rq s' c) = rq_current (rq s c)"
    "rq_balancer (rq s' c) = rq_balancer (rq s c)" "rq_idler (rq s' c) = rq_idler (rq s c)"
    "rq_idle_balance_ticks (rq s' c) = rq_idle_balance_ticks (rq s c)"
  using assms strip_eqD [of "th s' t" "th s t"] by (simp_all add: quiet_def)

lemma quiet_trans: "quiet s s' \<Longrightarrow> quiet s' s'' \<Longrightarrow> quiet s s''"
  by (simp add: quiet_def)

lemma quiet_refl [simp]: "quiet s s"
  by (simp add: quiet_def)

lemma quiet_flag [simp]: "quiet s (thread_set_flag t f s)" "quiet s (thread_clear_flag t f s)"
  by (simp_all add: quiet_def thread_set_flag_def thread_clear_flag_def)

lemma runqs_ok_flag:
  assumes "runqs_ok C s q r A"
  shows "runqs_ok C (thread_set_flag t f s) q r A" "runqs_ok C (thread_clear_flag t f s) q r A"
proof -
  have "runqs_ok C (set_thread t ((th s t)\<lparr>th_flags := g\<rparr>) s) q r A" for g
  proof -
    let ?s = "set_thread t ((th s t)\<lparr>th_flags := g\<rparr>) s"
    have e: "cls ?s u = cls s u" "pri ?s u = pri s u" "fsd ?s u = fsd s u" for u by simp_all
    have "runq_ok ?s q (r c) c (A c)" if "c \<in> C" for c
      by (rule runq_ok_cong [OF runqs_okD(2) [OF assms that]]) (simp_all add: same_runq_def same_sched_def)
    then show ?thesis using assms unfolding runqs_ok_def by (simp add: e fs_entity_def)
  qed
  then show "runqs_ok C (thread_set_flag t f s) q r A" "runqs_ok C (thread_clear_flag t f s) q r A"
    by (simp_all add: thread_set_flag_def thread_clear_flag_def)
qed

text \<open>The run queues the operation does not touch stay as they are.\<close>

lemma runqs_ok_step:
  assumes ok: "runqs_ok C s q r A" and c: "c \<in> C" and l: "links_ok (sy_links s') C q'" and new: "runq_ok s' q' (r' c) c (A' c)"
    and same: "\<And>c'. c' \<in> C \<Longrightarrow> c' \<noteq> c \<Longrightarrow> same_runq s s' c' \<and> same_lists q q' c' \<and> r' c' = r c' \<and> A' c' = A c'"
    and t: "\<And>u. u \<noteq> t \<Longrightarrow> same_sched s s' u" "A' c - {t} = A c - {t}" "\<And>c'. c' \<in> C \<Longrightarrow> c' \<noteq> c \<Longrightarrow> t \<notin> A c'"
    and out: "cls s' t = THREAD_SCHED_CLASS_FS \<Longrightarrow> t \<notin> A' c \<Longrightarrow> fs_entity s' t \<and> fd_fs_runq (fsd s' t) = None"
  shows "runqs_ok C s' q' r' A'"
proof -
  note o = ok [unfolded runqs_ok_def]
  have "runq_ok s' q' (r' c') c' (A' c')" if "c' \<in> C" for c'
  proof (cases "c' = c")
    case False
    have "same_sched s s' u" if "u \<in> A c'" for u using t(1,3) \<open>c' \<in> C\<close> False that by metis
    then show ?thesis using runq_ok_cong [of s q "r c'" c' "A c'" s' q'] runqs_okD(2) [OF ok that] same [OF that False] by simp
  qed (use new in simp)
  moreover have "A' c1 \<inter> A' c2 = {}" if "c1 \<in> C" "c2 \<in> C" "c1 \<noteq> c2" for c1 c2
  proof -
    have d: "A c \<inter> A c' = {} \<and> A' c \<inter> A' c' = {}" if "c' \<in> C" "c' \<noteq> c" for c'
      using o c that same [OF that] t(2,3) that by blast
    show ?thesis using d [OF that(1)] d [OF that(2)] o that same by (cases "c1 = c"; cases "c2 = c") (auto simp: Int_commute)
  qed
  moreover have "fs_entity s' u \<and> fd_fs_runq (fsd s' u) = None" if "cls s' u = THREAD_SCHED_CLASS_FS" "\<forall>c'\<in>C. u \<notin> A' c'" for u
  proof (cases "u = t")
    case False
    then have s: "same_sched s s' u" using t(1) by simp
    have "u \<notin> A c'" if "c' \<in> C" for c' using \<open>\<forall>c'\<in>C. u \<notin> A' c'\<close> False t(2) same [OF that] that c by (cases "c' = c") auto
    then show ?thesis using o s that(1) by (simp add: same_sched_def fs_entity_def)
  qed (use out c that in simp)
  ultimately show ?thesis using l unfolding runqs_ok_def by blast
qed

end
