(* ===== verification/Sched_Rt.thy ===== *)
theory Sched_Rt
  imports Sched_State
begin

text \<open>
  The operations of the real-time class on a run queue that satisfies the invariant: a thread enters the
  list of its priority or leaves it, and the thread chosen is the first one of the highest priority.
\<close>

unbundle bit_operations_syntax

section \<open>The real-time class\<close>

text \<open>What these operations keep.\<close>

definition rt_step :: "sched \<Rightarrow> sched \<Rightarrow> bool" where
  "rt_step s s' \<longleftrightarrow> quiet s s' \<and> (\<forall>u. same_sched s s' u) \<and> fs_queue s' = fs_queue s \<and> sy_fs_highest_round s' = sy_fs_highest_round s
     \<and> (\<forall>c. rq_fs_round (rq s' c) = rq_fs_round (rq s c) \<and> rq_fs_active (rq s' c) = rq_fs_active (rq s c))"

lemma rt_bit:
  assumes "p \<le> THREAD_SCHED_RT_PRIO_MAX" "p' \<le> THREAD_SCHED_RT_PRIO_MAX"
  shows "bit (b OR push_bit p 1 :: u32) p' \<longleftrightarrow> p' = p \<or> bit b p'"
    "bit (b AND NOT (push_bit p 1) :: u32) p' \<longleftrightarrow> p' \<noteq> p \<and> bit b p'"
    "bit (b OR 2 ^ p :: u32) p' \<longleftrightarrow> p' = p \<or> bit b p'" "bit (b AND NOT (2 ^ p) :: u32) p' \<longleftrightarrow> p' \<noteq> p \<and> bit b p'"
  using assms by (auto simp: bit_simps THREAD_SCHED_RT_PRIO_MAX_def)

text \<open>A thread that is not in any list enters the list of its priority.\<close>

lemma rt_add_ok:
  assumes ok: "runqs_ok C s q r A" and c: "c \<in> C" and t: "cls s t = THREAD_SCHED_CLASS_RT" "pri s t \<le> THREAD_SCHED_RT_PRIO_MAX" "t < MAX_THREADS"
    and free: "(\<forall>c\<in>C. t \<notin> A c) \<or> r c = Some t"
  shows "\<exists>s' q'. thread_sched_rt_add c t s = Some s' \<and> runqs_ok C s' q' (r(c := if r c = Some t then None else r c)) (A(c := insert t (A c)))
    \<and> q_rt q' c = (q_rt q c)(pri s t := q_rt q c (pri s t) @ [t])
    \<and> rt_step s s'"
proof -
  note l = runqs_okD(1) [OF ok] and rt = runqs_okD(3) [OF ok c] and fs = runqs_okD(4) [OF ok c] and run = runqs_okD(2) [OF ok c]
  define p where "p = pri s t"
  define r' where "r' = (if r c = Some t then None else r c)"
  have p: "p \<le> THREAD_SCHED_RT_PRIO_MAX" using t(2) by (simp add: p_def)
  have other: "t \<notin> A c'" if "c' \<in> C" "c' \<noteq> c" for c'
    using free runqs_okD(5) [OF ok c that(1), of t] run that by (auto simp: runq_ok_def)
  have "t \<notin> set (q_rt q c' p')" if "c' \<in> C" "p' \<le> THREAD_SCHED_RT_PRIO_MAX" for c' p'
    using free other that runqs_okD(3) [OF ok that(1)] by (cases "c' = c") (auto simp: rt_ok_def)
  then obtain h' where h': "list_insert_tail (Rt_threads c p) (Rt_node t) (sy_links s) = Some h'"
    "links_ok h' C (set_rt c p (q_rt q c p @ [t]) q)" "same_groups (sy_links s) h' {}"
    using rt_insert [OF l c p] by blast
  define b where "b = (if q_rt q c p = [] then rq_rt_bitmap (rq s c) OR push_bit p 1 else rq_rt_bitmap (rq s c))"
  define s1 where "s1 = set_runq c ((rq s c)\<lparr>rq_rt_bitmap := b\<rparr>) (s\<lparr>sy_links := h'\<rparr>)"
  define q' where "q' = set_rt c p (q_rt q c p @ [t]) q"
  have sing: "list_singular (Rt_threads c p) h' \<longleftrightarrow> q_rt q c p = []" using links_rt(2) [OF h'(2) c p] by simp
  have s1: "same_sched s s1 u" for u by (simp add: s1_def same_sched_def)
  have e: "cls s1 u = cls s u" "pri s1 u = pri s u" for u by (simp_all add: s1_def)
  have g: "sy_links s1 (Fs_group c' i g) = sy_links s (Fs_group c' i g)" for c' i g
    using h'(3) by (simp add: s1_def same_groups_def)
  have "rt_ok s1 q' r' c (insert t (A c))"
    unfolding rt_ok_def e
  proof (intro conjI allI impI ballI)
    fix p' assume p': "p' \<le> THREAD_SCHED_RT_PRIO_MAX"
    have l': "set (q_rt q c p') = {t \<in> A c. cls s t = THREAD_SCHED_CLASS_RT \<and> pri s t = p' \<and> r c \<noteq> Some t}"
      and b': "bit (rq_rt_bitmap (rq s c)) p' = (q_rt q c p' \<noteq> [])" using rt p' by (simp_all add: rt_ok_def)
    show "set (q_rt q' c p') = {u \<in> insert t (A c). cls s u = THREAD_SCHED_CLASS_RT \<and> pri s u = p' \<and> r' \<noteq> Some u}"
      using l' t(1) run free c by (auto simp: q'_def p_def r'_def runq_ok_def)
    show "bit (rq_rt_bitmap (rq s1 c)) p' = (q_rt q' c p' \<noteq> [])" using b' p p' by (auto simp: s1_def q'_def b_def rt_bit)
  next
    fix u assume "u \<in> insert t (A c)" "cls s u = THREAD_SCHED_CLASS_RT"
    then show "pri s u \<le> THREAD_SCHED_RT_PRIO_MAX" using rt t(2) by (auto simp: rt_ok_def)
  qed
  moreover have "fs_ok s1 q' r' c (insert t (A c))"
    by (rule fs_ok_cong [OF fs]) (use t(1) g in \<open>auto simp: s1_def q'_def r'_def THREAD_SCHED_CLASS_RT_def THREAD_SCHED_CLASS_FS_def\<close>)
  ultimately have "runq_ok s1 q' r' c (insert t (A c))" using run t(1,3) by (auto simp: runq_ok_def e r'_def)
  then have ok1: "runqs_ok C s1 q' (r(c := r')) (A(c := insert t (A c)))"
    by (intro runqs_ok_step [OF ok c, where t = t]) (use h'(2) g s1 other in \<open>auto simp: s1_def q'_def same_runq_def same_lists_def\<close>)
  have "quiet s s1" by (simp add: quiet_def s1_def)
  define s2 where "s2 = (let cur = rq_current (rq s c) in if cls s t = cls s cur \<and> pri s t > pri s cur then thread_set_flag cur THREAD_YIELD s1 else s1)"
  have add: "thread_sched_rt_add c t s = Some s2"
    using p h'(1) sing by (simp add: thread_sched_rt_add_def on_links_def s1_def s2_def b_def Let_def flip: p_def) (auto simp: set_runq_def)
  have s2: "s2 = s1 \<or> (\<exists>cur. s2 = thread_set_flag cur THREAD_YIELD s1)" by (simp add: s2_def Let_def) blast
  have "quiet s s2" using s2 \<open>quiet s s1\<close> quiet_trans quiet_flag by blast
  moreover have "runqs_ok C s2 q' (r(c := r')) (A(c := insert t (A c)))" using s2 ok1 runqs_ok_flag by blast
  moreover have "same_sched s1 s2 u \<and> rq s2 = rq s1 \<and> sy_fs_highest_round s2 = sy_fs_highest_round s1" for u using s2 by (auto simp: same_sched_def thread_set_flag_def)
  moreover have "rq_fs_round (rq s1 c') = rq_fs_round (rq s c')" "rq_fs_active (rq s1 c') = rq_fs_active (rq s c')" "rq_fs_runqs (rq s1 c') = rq_fs_runqs (rq s c')"
    "sy_fs_highest_round s1 = sy_fs_highest_round s" for c'
    by (simp_all add: s1_def)
  ultimately show ?thesis using add s1
    by (intro exI [of _ s2] exI [of _ q']) (simp add: rt_step_def q'_def p_def r'_def same_sched_def fs_queue_def fun_eq_iff set_rt_def)
qed

text \<open>A thread leaves its list, either to run or to leave the run queue.\<close>

lemma rt_remove_ok:
  assumes ok: "runqs_ok C s q r A" and c: "c \<in> C" and t: "t \<in> A c" "cls s t = THREAD_SCHED_CLASS_RT" "r c \<noteq> Some t"
    and run: "run \<longrightarrow> r c = None"
  shows "\<exists>s' q'. thread_sched_rt_remove c t s = Some s'
    \<and> runqs_ok C s' q' (if run then r(c := Some t) else r) (if run then A else A(c := A c - {t}))
    \<and> q_rt q' c = (q_rt q c)(pri s t := remove1 t (q_rt q c (pri s t)))
    \<and> rt_step s s'"
proof -
  note l = runqs_okD(1) [OF ok] and rt = runqs_okD(3) [OF ok c] and fs = runqs_okD(4) [OF ok c] and rn = runqs_okD(2) [OF ok c]
  define p where "p = pri s t"
  define r' where "r' = (if run then Some t else r c)"
  define A' where "A' = (if run then A c else A c - {t})"
  have p: "p \<le> THREAD_SCHED_RT_PRIO_MAX" using rt t by (simp add: p_def rt_ok_def)
  have other: "t \<notin> A c'" if "c' \<in> C" "c' \<noteq> c" for c' using runqs_okD(5) [OF ok c that(1) t(1)] that by auto
  have tq: "t \<in> set (q_rt q c p)" using rt p t by (simp add: rt_ok_def p_def)
  then obtain h' where h': "list_remove (Rt_node t) (sy_links s) = Some h'"
    "links_ok h' C (set_rt c p (remove1 t (q_rt q c p)) q)" "same_groups (sy_links s) h' {}"
    using rt_unlink [OF l c p] by blast
  define q' where "q' = set_rt c p (remove1 t (q_rt q c p)) q"
  have dist: "distinct (q_rt q c p)" using links_rt(4) [OF l c p] .
  have emp: "list_empty (Rt_threads c p) h' \<longleftrightarrow> remove1 t (q_rt q c p) = []" using links_rt(1) [OF h'(2) c p] by simp
  define b where "b = (if remove1 t (q_rt q c p) = [] then rq_rt_bitmap (rq s c) AND NOT (push_bit p 1) else rq_rt_bitmap (rq s c))"
  define s1 where "s1 = set_runq c ((rq s c)\<lparr>rq_rt_bitmap := b\<rparr>) (s\<lparr>sy_links := h'\<rparr>)"
  have s1: "same_sched s s1 u" for u by (simp add: s1_def same_sched_def)
  have e: "cls s1 u = cls s u" "pri s1 u = pri s u" for u by (simp_all add: s1_def)
  have g: "sy_links s1 (Fs_group c' i g) = sy_links s (Fs_group c' i g)" for c' i g
    using h'(3) by (simp add: s1_def same_groups_def)
  have "rt_ok s1 q' r' c A'"
    unfolding rt_ok_def e
  proof (intro conjI allI impI ballI)
    fix p' assume p': "p' \<le> THREAD_SCHED_RT_PRIO_MAX"
    have l': "set (q_rt q c p') = {t \<in> A c. cls s t = THREAD_SCHED_CLASS_RT \<and> pri s t = p' \<and> r c \<noteq> Some t}"
      and b': "bit (rq_rt_bitmap (rq s c)) p' = (q_rt q c p' \<noteq> [])" using rt p' by (simp_all add: rt_ok_def)
    show "set (q_rt q' c p') = {u \<in> A'. cls s u = THREAD_SCHED_CLASS_RT \<and> pri s u = p' \<and> r' \<noteq> Some u}"
    proof (cases "p' = p")
      case True
      then have "set (q_rt q' c p') = set (q_rt q c p') - {t}" using dist by (simp add: q'_def set_remove1_eq)
      then show ?thesis using l' run by (cases run) (auto simp: r'_def A'_def)
    next
      case False
      then have "set (q_rt q' c p') = set (q_rt q c p')" by (simp add: q'_def)
      then show ?thesis using l' run False t by (cases run) (auto simp: r'_def A'_def p_def)
    qed
    have "q_rt q c p \<noteq> []" using tq by auto
    then show "bit (rq_rt_bitmap (rq s1 c)) p' = (q_rt q' c p' \<noteq> [])" using b' p p' by (auto simp: s1_def q'_def b_def rt_bit)
  next
    fix u assume "u \<in> A'" "cls s u = THREAD_SCHED_CLASS_RT"
    then show "pri s u \<le> THREAD_SCHED_RT_PRIO_MAX" using rt by (auto simp: rt_ok_def A'_def split: if_splits)
  qed
  moreover have "fs_ok s1 q' r' c A'"
    by (rule fs_ok_cong [OF fs]) (use t(2) g run in \<open>auto simp: s1_def q'_def r'_def A'_def THREAD_SCHED_CLASS_RT_def THREAD_SCHED_CLASS_FS_def split: if_splits\<close>)
  ultimately have "runq_ok s1 q' r' c A'" using rn t by (auto simp: runq_ok_def e r'_def A'_def)
  then have "runqs_ok C s1 q' (r(c := r')) (A(c := A'))"
    by (intro runqs_ok_step [OF ok c, where t = t])
      (use h'(2) g s1 other t(2) in \<open>auto simp: s1_def q'_def same_runq_def same_lists_def A'_def THREAD_SCHED_CLASS_RT_def THREAD_SCHED_CLASS_FS_def\<close>)
  moreover have "r(c := r') = (if run then r(c := Some t) else r)" "A(c := A') = (if run then A else A(c := A c - {t}))"
    by (simp_all add: r'_def A'_def)
  moreover have "thread_sched_rt_remove c t s = Some s1"
    using p h'(1) emp by (simp add: thread_sched_rt_remove_def on_links_def s1_def b_def Let_def flip: p_def)
  moreover have "quiet s s1" by (simp add: quiet_def s1_def)
  ultimately show ?thesis using s1
    by (intro exI [of _ s1] exI [of _ q']) (simp add: rt_step_def q'_def p_def set_rt_def s1_def fs_queue_def fun_eq_iff)
qed

text \<open>The index of the highest bit set.\<close>

lemma takeWhile_rev_upt:
  assumes "p < n" "P p" "\<And>i. p < i \<Longrightarrow> i < n \<Longrightarrow> \<not> P i"
  shows "length (takeWhile (\<lambda>i. \<not> P i) (rev [0..<n])) = n - 1 - p"
  using assms
proof (induction n)
  case (Suc n)
  then show ?case by (cases "p = n") (auto simp: less_Suc_eq Suc_diff_Suc)
qed simp

lemma highest_bit:
  assumes "b \<noteq> 0"
  defines "p \<equiv> THREAD_SCHED_RT_PRIO_MAX - clz32 b"
  shows "p \<le> THREAD_SCHED_RT_PRIO_MAX" "bit b p" "\<And>p'. bit b p' \<Longrightarrow> p' \<le> p"
proof -
  define m where "m = Max {i. bit b i}"
  have lt: "i < 32" if "bit b i" for i using bit_imp_le_length [OF that] by simp
  then have "{i. bit b i} \<subseteq> {..<32}" by auto
  then have f: "finite {i. bit b i}" by (rule finite_subset) simp
  have ne: "{i. bit b i} \<noteq> {}"
  proof
    assume "{i. bit b i} = {}"
    then have "b = 0" by (intro bit_word_eqI) simp
    then show False using assms(1) by simp
  qed
  have m: "bit b m" "m < 32" "\<And>i. bit b i \<Longrightarrow> i \<le> m"
    using Max_in [OF f ne] Max_ge [OF f] lt by (auto simp: m_def)
  have "clz32 b = 32 - 1 - m" unfolding clz32_def
  proof (rule takeWhile_rev_upt [of m 32 "bit b"])
    show "\<not> bit b i" if "m < i" for i using m(3) [of i] that by (meson leD)
  qed (rule m(2), rule m(1))
  then have "p = m" using m(2) by (simp add: p_def THREAD_SCHED_RT_PRIO_MAX_def)
  then show "p \<le> THREAD_SCHED_RT_PRIO_MAX" "bit b p" "\<And>p'. bit b p' \<Longrightarrow> p' \<le> p"
    using m by (auto simp: THREAD_SCHED_RT_PRIO_MAX_def)
qed

text \<open>The first thread of the list of the highest priority in use.\<close>

definition rt_first :: "sched \<Rightarrow> queues \<Rightarrow> nat \<Rightarrow> nat set \<Rightarrow> nat \<Rightarrow> bool" where
  "rt_first s q c A t \<longleftrightarrow> t \<in> A \<and> cls s t = THREAD_SCHED_CLASS_RT \<and> q_rt q c (pri s t) \<noteq> [] \<and> t = hd (q_rt q c (pri s t))
     \<and> (\<forall>u\<in>A. cls s u = THREAD_SCHED_CLASS_RT \<longrightarrow> pri s u \<le> pri s t)"

lemma rt_get_next_ok:
  assumes ok: "runqs_ok C s q r A" and c: "c \<in> C" and r: "r c = None"
  shows "(\<forall>t\<in>A c. cls s t \<noteq> THREAD_SCHED_CLASS_RT) \<and> thread_sched_rt_get_next c s = Some (None, s)
    \<or> (\<exists>t s' q'. thread_sched_rt_get_next c s = Some (Some t, s') \<and> rt_first s q c (A c) t
         \<and> runqs_ok C s' q' (r(c := Some t)) A \<and> q_rt q' c = (q_rt q c)(pri s t := tl (q_rt q c (pri s t))) \<and> rt_step s s')"
proof -
  note l = runqs_okD(1) [OF ok] and rt = runqs_okD(3) [OF ok c, unfolded rt_ok_def]
  have mem: "u \<in> set (q_rt q c (pri s u)) \<and> bit (rq_rt_bitmap (rq s c)) (pri s u)" if "u \<in> A c" "cls s u = THREAD_SCHED_CLASS_RT" for u
  proof -
    have p: "pri s u \<le> THREAD_SCHED_RT_PRIO_MAX" using rt that by simp
    then have "u \<in> set (q_rt q c (pri s u))" using rt that r by simp
    moreover from this have "q_rt q c (pri s u) \<noteq> []" by auto
    ultimately show ?thesis using rt p by simp
  qed
  show ?thesis
  proof (cases "rq_rt_bitmap (rq s c) = 0")
    case True
    then show ?thesis using mem by (auto simp: thread_sched_rt_get_next_def)
  next
    case False
    define p where "p = THREAD_SCHED_RT_PRIO_MAX - clz32 (rq_rt_bitmap (rq s c))"
    note hb = highest_bit [OF False, folded p_def]
    define t where "t = hd (q_rt q c p)"
    have ne: "q_rt q c p \<noteq> []" using rt hb(1,2) by simp
    then have "t \<in> set (q_rt q c p)" by (simp add: t_def)
    then have t: "t \<in> A c" "cls s t = THREAD_SCHED_CLASS_RT" "pri s t = p" using rt hb(1) by simp_all
    have first: "rt_first s q c (A c) t" using t ne mem hb(3) by (auto simp: rt_first_def t_def [symmetric])
    obtain s' q' where s': "thread_sched_rt_remove c t s = Some s'" "runqs_ok C s' q' (r(c := Some t)) A"
      "q_rt q' c = (q_rt q c)(p := remove1 t (q_rt q c p))" "rt_step s s'"
      using rt_remove_ok [OF ok c t(1,2), of True] r t(3) by auto
    have "remove1 t (q_rt q c p) = tl (q_rt q c p)" using ne by (cases "q_rt q c p") (simp_all add: t_def)
    moreover have "thread_sched_rt_get_next c s = Some (Some t, s')"
      using False links_rt(1,3) [OF l c hb(1)] ne s'(1) by (simp add: thread_sched_rt_get_next_def Let_def flip: p_def) (simp add: t_def)
    ultimately show ?thesis using s' first t(3) by auto
  qed
qed

end
