(* ===== verification/Sched_Fs.thy ===== *)
theory Sched_Fs
  imports Sched_Rt
begin

text \<open>
  A fair-scheduling thread enters the active queue of a run queue: the weights fit their machine integers
  for at most \<open>MAX_THREADS\<close> threads, and a thread is credited with at most its weight when the threads
  of the queue are within theirs (\<open>works_ok\<close>).
\<close>

unbundle bit_operations_syntax

section \<open>The fair-scheduling class\<close>

definition works_ok :: "sched \<Rightarrow> nat set \<Rightarrow> bool" where
  "works_ok s X \<longleftrightarrow> (\<forall>t. cls s t = THREAD_SCHED_CLASS_FS \<and> t \<notin> X \<longrightarrow> fd_work (fsd s t) \<le> fd_weight (fsd s t))"

lemma fs_weights_le:
  assumes "finite M" "\<forall>t\<in>M. fs_entity s t"
  shows "fs_weights s M \<le> 800 * card M"
proof -
  have "fs_weights s M \<le> (\<Sum>t\<in>M. 800)" unfolding fs_weights_def
    by (rule sum_mono) (use assms(2) prio2weight(3) in \<open>simp add: fs_entity_def\<close>)
  then show ?thesis by simp
qed

lemma fs_room:
  assumes "fs_ok s q r c A" "A \<subseteq> {..<MAX_THREADS}" "unat w \<le> 800"
  shows "unat (rq_fs_weight (rq s c)) + unat (w :: u16) < 2 ^ 32" "unat (fq_weight (fs_queue s c i)) + unat w < 2 ^ 32"
proof -
  define M where "M = (\<lambda>i. set (q_thr q c i))"
  have f: "fs_acct s (M i) (fs_queue s c i)" "\<forall>t\<in>M i. fs_entity s t" for i
    using fs_okD(11) [OF assms(1), of i] fsq_okD(1,7) by (auto simp: M_def)
  then have "unat (fq_weight (fs_queue s c i)) \<le> 800 * card (M i)" for i
    using fs_weights_le [of "M i" s] by (simp add: fs_acct_def M_def)
  then have "unat (rq_fs_weight (rq s c)) \<le> 800 * (card (M True) + card (M False))"
    using fs_okD(7) [OF assms(1), of True] by (metis (no_types, lifting) add_mono_thms_linordered_semiring(1) distrib_left)
  moreover have "M True \<inter> M False = {}" using fsq_member(3) [OF assms(1), of _ True] by (auto simp: M_def)
  then have "card (M True) + card (M False) = card (M True \<union> M False)" by (simp add: card_Un_disjoint M_def)
  moreover have "M True \<union> M False \<subseteq> {..<MAX_THREADS}" using fs_okD(4) [OF assms(1)] assms(2) by (auto simp: M_def)
  then have "card (M True \<union> M False) \<le> MAX_THREADS" using card_mono [of "{..<MAX_THREADS}"] by fastforce
  ultimately have "unat (rq_fs_weight (rq s c)) \<le> 800 * MAX_THREADS" by simp
  then show 1: "unat (rq_fs_weight (rq s c)) + unat w < 2 ^ 32" using assms(3) by (simp add: MAX_THREADS_def)
  show "unat (fq_weight (fs_queue s c i)) + unat w < 2 ^ 32" using 1 fs_okD(7) [OF assms(1), of i] by simp
qed

lemma fsq_ok_cur:
  assumes "fsq_ok s q r c i round"
  shows "fsq_ok (set_fs_queue c i' ((fs_queue s c i')\<lparr>fq_current := g\<rparr>) s) q r c i round"
proof -
  let ?s = "set_fs_queue c i' ((fs_queue s c i')\<lparr>fq_current := g\<rparr>) s"
  have "fs_acct ?s (set (q_thr q c i)) (fs_queue s c i)" by (rule fs_acct_cong [OF _ fsq_okD(7) [OF assms]]) simp
  then have "fs_acct ?s (set (q_thr q c i)) (fs_queue ?s c i)" by (cases "i' = i") (simp_all add: fs_acct_def)
  moreover have "by_weight ?s c i = by_weight s c i" by (cases "i' = i") (simp_all add: by_weight_def fs_group_queue fun_eq_iff)
  moreover have "fs_entity ?s t = fs_entity s t" for t by (simp add: fs_entity_def)
  ultimately show ?thesis using assms unfolding fsq_ok_def by simp
qed

lemma fs_restart_out:
  fixes s :: sched and c
  defines "i \<equiv> rq_fs_active (rq s c)"
  assumes "links_ok (sy_links s) C q" "c \<in> C" "q_groups q c i \<noteq> []"
  shows "\<exists>s'. thread_sched_fs_restart c s = Some s' \<and> (let s1 = set_fs_queue c i ((fs_queue s c i)\<lparr>fq_current := hd (q_groups q c i)\<rparr>) s in
    s' = s1 \<or> (\<exists>t. s' = thread_set_flag t THREAD_YIELD s1))"
proof -
  have "list_first (Fs_groups c i) (sy_links s) = Some (Fs_group c i (hd (q_groups q c i)))"
    using links_fs(4) [OF assms(2,3), of i] assms(4) by (cases "q_groups q c i") auto
  then show ?thesis by (auto simp: thread_sched_fs_restart_def Let_def simp flip: i_def)
qed

lemma fsq_ok_empty:
  assumes "fsq_ok s q r c i round" "fq_weight (fs_queue s c i) = 0"
  shows "q_thr q c i = []" "fsq_ok s q r c i round'"
proof -
  have "set (q_thr q c i) = {}" using queue_used [of s "set (q_thr q c i)"] fsq_okD(1,7) [OF assms(1)] assms(2) by auto
  then show "q_thr q c i = []" by simp
  then show "fsq_ok s q r c i round'" using assms(1) by (simp add: fsq_ok_def by_weight_def)
qed

text \<open>What these operations keep, but for the thread \<open>t\<close>.\<close>

definition fs_step :: "nat \<Rightarrow> nat \<Rightarrow> sched \<Rightarrow> queues \<Rightarrow> sched \<Rightarrow> queues \<Rightarrow> bool" where
  "fs_step c t s q s' q' \<longleftrightarrow> quiet s s' \<and> (\<forall>u. u \<noteq> t \<longrightarrow> same_sched s s' u) \<and> fd_weight (fsd s' t) = fd_weight (fsd s t)
     \<and> q_rt q' = q_rt q \<and> sy_fs_highest_round s' = sy_fs_highest_round s
     \<and> (\<forall>c. rq_fs_active (rq s' c) = rq_fs_active (rq s c)) \<and> (\<forall>c'. c' \<noteq> c \<longrightarrow> fs_queue s' c' = fs_queue s c')"

lemma fs_add_ok:
  assumes ok: "runqs_ok C s q r A" and c: "c \<in> C" and t: "cls s t = THREAD_SCHED_CLASS_FS" "\<forall>c\<in>C. t \<notin> A c" "t < MAX_THREADS"
    and works: "works_ok s {}"
  shows "\<exists>s' q'. thread_sched_fs_add c t s = Some s' \<and> runqs_ok C s' q' r (A(c := insert t (A c))) \<and> works_ok s' {} \<and> fs_step c t s q s' q'
    \<and> q_thr q' c (rq_fs_active (rq s c)) = q_thr q c (rq_fs_active (rq s c)) @ [t] \<and> fs_cur s' c \<in> set (q_groups q' c (rq_fs_active (rq s c)))"
proof -
  note l = runqs_okD(1) [OF ok] and rt = runqs_okD(3) [OF ok c] and fs = runqs_okD(4) [OF ok c] and run = runqs_okD(2) [OF ok c]
  note free = runqs_free [OF ok t(2)]
  define i where "i = rq_fs_active (rq s c)"
  define w where "w = fd_weight (fsd s t)"
  have et: "fs_entity s t" "fd_fs_runq (fsd s t) = None" using runqs_okD(7,8) [OF ok t(1,2)] by simp_all
  have w: "unat w \<le> 800" using et(1) prio2weight(3) by (simp add: fs_entity_def w_def)
  have sub: "A c \<subseteq> {..<MAX_THREADS}" using run by (simp add: runq_ok_def)
  note room = fs_room [OF fs sub w]
  define rnd where "rnd = (if rq_fs_weight (rq s c) = 0 then sy_fs_highest_round s else rq_fs_round (rq s c))"
  define s1 where "s1 = set_runq c ((rq s c)\<lparr>rq_fs_round := rnd, rq_fs_weight := rq_fs_weight (rq s c) + ucast w\<rparr>) s"
  have s1: "fs_queue s1 = fs_queue s" "th s1 = th s" "sy_links s1 = sy_links s" "rq_fs_active (rq s1 c) = i"
    by (simp_all add: s1_def fs_queue_def fun_eq_iff i_def)
  have empty: "fq_weight (fs_queue s c j) = 0" if "rq_fs_weight (rq s c) = 0" for j
    using fs_okD(7) [OF fs, of j] that by (simp add: unat_eq_0)
  have q0: "fsq_ok s q (r c) c i rnd" "fsq_ok s q (r c) c (\<not> i) (rnd + 1)"
    using fs_okD(2,3) [OF fs] fsq_ok_empty(2) empty by (auto simp: rnd_def i_def)
  have q1: "fsq_ok s1 q (r c) c i rnd" "fsq_ok s1 q (r c) c (\<not> i) (rnd + 1)"
    by (rule fsq_ok_cong [OF _ _ _ _ _ q0(1)]; simp add: s1) (rule fsq_ok_cong [OF _ _ _ _ _ q0(2)]; simp add: s1)
  have within: "fs_within s1 (set (q_thr q c i))" using works fs_okD(5) [OF fs] by (simp add: fs_within_def works_ok_def s1)
  have tw: "fd_work (fsd s t) \<le> fd_weight (fsd s t)" using works t(1) by (simp add: works_ok_def)
  define g where "g = pri s t"
  obtain h' k gs where en: "thread_sched_fs_enqueue c i rnd t s1 =
        Some (set_fs t \<lparr>fd_fs_runq = Some (c, i), fd_round = rnd, fd_weight = w, fd_work = k\<rparr>
          (set_fs_queue c i (group_plus g (ucast w) (ucast k) (fs_queue s c i)) (s1\<lparr>sy_links := h'\<rparr>)))"
    "k \<le> w" "links_ok h' C (q_enter c i g gs t q)" "same_groups (sy_links s) h' {(c, i)}" "set gs = insert g (set (q_groups q c i))"
    "sorted_wrt (\<lambda>a b. fg_weight (fq_group_array (group_plus g (ucast w) (ucast k) (fs_queue s c i)) b) \<le> fg_weight (fq_group_array (group_plus g (ucast w) (ucast k) (fs_queue s c i)) a)) gs"
  proof -
    have "links_ok (sy_links s1) C q" "fs_entity s1 t" "fd_fs_runq (fsd s1 t) = None" "fd_work (fsd s1 t) \<le> fd_weight (fsd s1 t)"
      "unat (fq_weight (fs_queue s1 c i)) + unat (fd_weight (fsd s1 t)) < 2 ^ 32"
      using l et tw room(2) by (simp_all add: s1 fs_entity_def w_def)
    from enqueue_out [OF this(1) c q1(1) free(1) free(2) [OF c] this(2-5) disjI2 [OF within]]
    show thesis using that unfolding s1 g_def [symmetric] w_def [symmetric] by blast
  qed
  define s2 where "s2 = set_fs t \<lparr>fd_fs_runq = Some (c, i), fd_round = rnd, fd_weight = w, fd_work = k\<rparr>
          (set_fs_queue c i (group_plus g (ucast w) (ucast k) (fs_queue s c i)) (s1\<lparr>sy_links := h'\<rparr>))"
  define q' where "q' = q_enter c i g gs t q"
  have tn: "t \<notin> set (q_thr q c j)" for j using free(1) c by (simp add: fs_free_def)
  have f2: "fsq_ok s2 q' (r c) c i rnd"
  proof -
    have "fs_entity s1 t" "unat (fq_weight (fs_queue s1 c i)) + unat (fd_weight (fsd s1 t)) < 2 ^ 32"
      using et(1) room(2) by (simp_all add: s1 fs_entity_def w_def g_def)
    from enqueue_ok [OF q1(1) tn free(2) [OF c] this(1,2) refl refl, unfolded s1 g_def [symmetric] w_def [symmetric], OF en(5,6)]
    show ?thesis by (simp add: s2_def q'_def)
  qed
  have f2': "fsq_ok s2 q' (r c) c (\<not> i) (rnd + 1)"
    by (rule fsq_ok_cong [OF _ _ _ _ _ q1(2)]) (use tn in \<open>auto simp: s2_def q'_def s1\<close>)
  have act: "rq_fs_active (rq s2 c) = i" by (simp add: s2_def s1)
  have gs: "q_groups q' c i = gs" "gs \<noteq> []" using en(5) by (auto simp: q'_def)
  have l2: "links_ok (sy_links s2) C q'" using en(3) by (simp add: s2_def q'_def)
  define s3 where "s3 = set_fs_queue c i ((fs_queue s2 c i)\<lparr>fq_current := hd gs\<rparr>) s2"
  obtain s4 where s4: "thread_sched_fs_restart c s2 = Some s4" "s4 = s3 \<or> (\<exists>u. s4 = thread_set_flag u THREAD_YIELD s3)"
    using fs_restart_out [OF l2 c] gs by (auto simp: act s3_def Let_def)
  have f3: "fsq_ok s3 q' (r c) c i rnd" "fsq_ok s3 q' (r c) c (\<not> i) (rnd + 1)"
    unfolding s3_def by (rule fsq_ok_cur [OF f2]) (rule fsq_ok_cur [OF f2'])
  have tot: "unat (rq_fs_weight (rq s c) + ucast w) = unat (rq_fs_weight (rq s c)) + unat w" by (rule unat_add_ucast [OF room(1)])
  have pre: "set_runq c ((rq s0 c)\<lparr>rq_fs_weight := rq_fs_weight (rq s0 c) + ucast w\<rparr>) s0 = s1 \<and> rq_fs_weight (rq s0 c) = rq_fs_weight (rq s c) \<and> th s0 = th s"
    if "s0 = (if rq_fs_weight (rq s c) = 0 then set_runq c ((rq s c)\<lparr>rq_fs_round := sy_fs_highest_round s\<rparr>) s else s)" for s0
    using that by (simp add: s1_def rnd_def set_runq_def)
  have "thread_sched_fs_add c t s = do { s \<leftarrow> thread_sched_fs_enqueue c i rnd t s1; thread_sched_fs_restart c s }"
  proof (cases "rq_fs_weight (rq s c) = 0")
    case True
    then show ?thesis using pre [OF refl] tot
      by (simp add: thread_sched_fs_add_def Let_def word_less_nat_alt rnd_def i_def w_def)
  next
    case False
    then show ?thesis using pre [OF refl] tot
      by (simp add: thread_sched_fs_add_def Let_def word_less_nat_alt rnd_def i_def w_def)
  qed
  then have add: "thread_sched_fs_add c t s = Some s4" using en(1) s4(1) by (simp add: s2_def)
  have e3: "cls s3 u = cls s u" "pri s3 u = pri s u" "rq_fs_active (rq s3 c) = i" "rq_fs_round (rq s3 c) = rnd" "sy_links s3 = h'"
    "rq_fs_weight (rq s3 c) = rq_fs_weight (rq s c) + ucast w" "rq_fs_expired (rq s3 c) = (\<not> i)" "rq_rt_bitmap (rq s3 c) = rq_rt_bitmap (rq s c)" for u
    using fs_okD(1) [OF fs] by (simp_all add: s3_def s2_def s1_def i_def)
  have qi: "fq_weight (fs_queue s3 c i) = fq_weight (fs_queue s c i) + ucast w" "fs_queue s3 c (\<not> i) = fs_queue s c (\<not> i)"
    "fq_current (fs_queue s3 c i) = hd gs" by (simp_all add: s3_def s2_def s1)
  have "fs_ok s3 q' (r c) c (insert t (A c))"
    unfolding fs_ok_def e3
  proof (intro conjI)
    show "set (q_thr q' c True) \<union> set (q_thr q' c False) = {u \<in> insert t (A c). cls s u = THREAD_SCHED_CLASS_FS}"
      using fs t(1) unfolding fs_ok_def by (cases i) (auto simp: q'_def)
    show "unat (rq_fs_weight (rq s c) + ucast w) = unat (fq_weight (fs_queue s3 c True)) + unat (fq_weight (fs_queue s3 c False))"
      using tot fs_okD(7) [OF fs, of i] qi(1,2) unat_add_ucast [OF room(2)] by (cases i) simp_all
    show "q_groups q' c i \<noteq> [] \<longrightarrow> next_ok h' q' c i (fq_current (fs_queue s3 c i))"
      using listed_next_ok [OF l2 c, of "hd gs" i] gs by (simp add: qi(3)) (simp add: s2_def)
    show "\<forall>u. r c = Some u \<and> cls s u = THREAD_SCHED_CLASS_FS \<longrightarrow> u \<in> set (q_thr q' c i) \<and> fq_current (fs_queue s3 c i) \<in> set (q_groups q' c i)"
      using fs_okD(8) [OF fs, folded i_def] gs by (auto simp: q'_def qi(3))
  qed (use f3 in simp_all)
  moreover have "rt_ok s3 q' (r c) c (insert t (A c))"
    by (rule rt_ok_cong [OF rt]) (use t(1) in \<open>auto simp: e3 q'_def THREAD_SCHED_CLASS_RT_def THREAD_SCHED_CLASS_FS_def\<close>)
  ultimately have "runq_ok s3 q' (r c) c (insert t (A c))" using run t(1,3) by (auto simp: runq_ok_def e3)
  then have "runqs_ok C s3 q' r (A(c := insert t (A c)))"
    by (intro runqs_ok_step [OF ok c, where t = t])
      (use en(3,4) t(2) in \<open>auto simp: s3_def s2_def s1_def q'_def same_runq_def same_lists_def same_sched_def same_groups_def fun_eq_iff\<close>)
  then have ok4: "runqs_ok C s4 q' r (A(c := insert t (A c)))" using s4(2) runqs_ok_flag by blast
  have s34: "th_fs (th s4 u) = th_fs (th s3 u)" "cls s4 u = cls s3 u" "pri s4 u = pri s3 u" "rq s4 = rq s3" "sy_fs_highest_round s4 = sy_fs_highest_round s3" for u
    using s4(2) by (auto simp: thread_set_flag_def)
  have "quiet s s3" by (simp add: quiet_def s3_def s2_def s1_def)
  then have "quiet s s4" using s4(2) quiet_trans quiet_flag by blast
  moreover have "works_ok s4 {}" using works en(2) by (auto simp: works_ok_def s34 s3_def s2_def s1_def)
  moreover have "fs_step c t s q s4 q'"
    using \<open>quiet s s4\<close> by (simp add: fs_step_def same_sched_def s34 fs_queue_def fun_eq_iff) (simp add: s3_def s2_def s1_def w_def q'_def)
  moreover have "fs_cur s4 c \<in> set (q_groups q' c i)"
    using qi(3) gs by (simp add: fs_queue_def s34(4)) (simp add: e3 fs_queue_def)
  ultimately show ?thesis using add ok4 by (intro exI [of _ s4] exI [of _ q']) (simp add: q'_def i_def)
qed
end
