(* ===== verification/Sched_Add.thy ===== *)
theory Sched_Add
  imports Sched_Fs
begin

text \<open>
  A thread enters a run queue. \<open>sys_ok\<close> relates the threads and the counters of the run queues to
  the sets \<open>A c\<close>; waking up the balancer of a run queue adds it there.
\<close>

unbundle bit_operations_syntax

section \<open>The threads and the counters of the run queues\<close>

lemma runqs_ok_view:
  assumes ok: "runqs_ok C s q r A" and "sy_links s' = sy_links s" "\<And>c. c \<in> C \<Longrightarrow> same_runq s s' c" "\<And>t. same_sched s s' t"
  shows "runqs_ok C s' q r A"
proof -
  have "runq_ok s' q (r c) c (A c)" if "c \<in> C" for c
    by (rule runq_ok_cong [OF runqs_okD(2) [OF ok that]]) (use assms that in simp_all)
  moreover have "cls s' t = cls s t" "fs_entity s' t = fs_entity s t" "fsd s' t = fsd s t" for t
    using assms(4) [of t] by (simp_all add: same_sched_def fs_entity_def)
  ultimately show ?thesis using ok assms(2) unfolding runqs_ok_def by simp
qed

text \<open>The threads of \<open>X\<close> are being moved; \<open>n c\<close> is what the counter of \<open>c\<close> is ahead by.\<close>

definition member_ok :: "nat set \<Rightarrow> sched \<Rightarrow> (nat \<Rightarrow> nat set) \<Rightarrow> nat \<Rightarrow> bool" where
  "member_ok C s A t \<longleftrightarrow> (th_in_runq (th s t) \<longrightarrow> th_state (th s t) = THREAD_RUNNING \<and> (\<exists>c\<in>C. th_runq (th s t) = Some c))
     \<and> (\<forall>c\<in>C. t \<in> A c \<longleftrightarrow> th_in_runq (th s t) \<and> th_runq (th s t) = Some c)"

definition balancer_ok :: "sched \<Rightarrow> nat set \<Rightarrow> nat \<Rightarrow> nat \<Rightarrow> bool" where
  "balancer_ok s X c b \<longleftrightarrow> cls s b = THREAD_SCHED_CLASS_RT \<and> pri s b \<le> THREAD_SCHED_RT_PRIO_MAX \<and> b < MAX_THREADS
     \<and> (b \<notin> X \<and> th_state (th s b) = THREAD_RUNNING \<longrightarrow> th_in_runq (th s b) \<and> th_runq (th s b) = Some c)"

definition sys_ok :: "nat set \<Rightarrow> sched \<Rightarrow> (nat \<Rightarrow> nat set) \<Rightarrow> nat set \<Rightarrow> (nat \<Rightarrow> u32) \<Rightarrow> bool" where
  "sys_ok C s A X n \<longleftrightarrow> (\<forall>t. t \<notin> X \<longrightarrow> member_ok C s A t) \<and> (\<forall>c\<in>C. rq_nr_threads (rq s c) = of_nat (card (A c)) + n c)
     \<and> (\<forall>c\<in>C. \<exists>b. rq_balancer (rq s c) = Some b \<and> balancer_ok s X c b)
     \<and> (\<forall>c\<in>C. \<forall>c'\<in>C. rq_balancer (rq s c) = rq_balancer (rq s c') \<longrightarrow> c = c')
     \<and> (\<forall>c\<in>C. \<exists>d. rq_idler (rq s c) = Some d \<and> cls s d = THREAD_SCHED_CLASS_IDLE)"

text \<open>What the operations on run queues keep: a balancer may be woken up.\<close>

definition moved :: "sched \<Rightarrow> sched \<Rightarrow> bool" where
  "moved s s' \<longleftrightarrow> (\<forall>t. cls s' t = cls s t \<and> pri s' t = pri s t
       \<and> (th_state (th s' t) = th_state (th s t) \<or> th_state (th s' t) = THREAD_RUNNING \<and> (\<exists>c. rq_balancer (rq s c) = Some t)))
     \<and> (\<forall>c. rq_current (rq s' c) = rq_current (rq s c) \<and> rq_balancer (rq s' c) = rq_balancer (rq s c) \<and> rq_idler (rq s' c) = rq_idler (rq s c)
         \<and> rq_fs_active (rq s' c) = rq_fs_active (rq s c) \<and> rq_idle_balance_ticks (rq s' c) = rq_idle_balance_ticks (rq s c))
     \<and> sy_fs_highest_round s' = sy_fs_highest_round s"

lemma moved_refl [simp]: "moved s s" by (simp add: moved_def)

lemma moved_trans: "moved s s' \<Longrightarrow> moved s' s'' \<Longrightarrow> moved s s''"
  unfolding moved_def by metis

lemma moved_steps: "rt_step s s' \<Longrightarrow> moved s s'" "fs_step c t s q s' q' \<Longrightarrow> moved s s'"
  by (simp_all add: moved_def rt_step_def fs_step_def quietD)

text \<open>A step that moves the thread \<open>t\<close> alone.\<close>

lemma sys_ok_change:
  assumes ok: "sys_ok C s A X n"
    and mv: "\<And>u. cls s' u = cls s u" "\<And>u. pri s' u = pri s u" "\<And>c. rq_balancer (rq s' c) = rq_balancer (rq s c)" "\<And>c. rq_idler (rq s' c) = rq_idler (rq s c)"
    and same: "\<And>u. u \<noteq> t \<Longrightarrow> th_in_runq (th s' u) = th_in_runq (th s u) \<and> th_runq (th s' u) = th_runq (th s u) \<and> th_state (th s' u) = th_state (th s u)"
      "\<And>c u. c \<in> C \<Longrightarrow> u \<noteq> t \<Longrightarrow> u \<in> A' c \<longleftrightarrow> u \<in> A c"
    and t: "t \<notin> X' \<Longrightarrow> member_ok C s' A' t" "\<And>c. c \<in> C \<Longrightarrow> rq_balancer (rq s c) = Some t \<Longrightarrow> t \<notin> X' \<Longrightarrow> th_state (th s' t) = THREAD_RUNNING
      \<Longrightarrow> th_in_runq (th s' t) \<and> th_runq (th s' t) = Some c"
    and X: "X - {t} \<subseteq> X'" and nr: "\<And>c. c \<in> C \<Longrightarrow> rq_nr_threads (rq s' c) = of_nat (card (A' c)) + n' c"
  shows "sys_ok C s' A' X' n'"
proof -
  note o = ok [unfolded sys_ok_def]
  have "member_ok C s' A' u" if "u \<notin> X'" for u
  proof (cases "u = t")
    case False
    then have "member_ok C s A u" using o X that by blast
    then show ?thesis using same(1) [OF False] same(2) [OF _ False] unfolding member_ok_def by simp
  qed (use t that in simp)
  moreover have "\<exists>b. rq_balancer (rq s' c) = Some b \<and> balancer_ok s' X' c b" if c: "c \<in> C" for c
  proof -
    obtain b where b: "rq_balancer (rq s c) = Some b" "balancer_ok s X c b" using o c by blast
    have "balancer_ok s' X' c b"
    proof (cases "b = t")
      case True
      then show ?thesis using b t(2) [OF c] by (simp add: balancer_ok_def mv)
    next
      case False
      then show ?thesis using b(2) X same(1) [OF False] by (auto simp: balancer_ok_def mv)
    qed
    then show ?thesis using b(1) by (simp add: mv)
  qed
  ultimately show ?thesis using o nr by (simp add: sys_ok_def mv)
qed

lemma sys_ok_step:
  assumes ok: "sys_ok C s A X n" and m: "moved s s'"
    and same: "\<And>u. u \<noteq> t \<Longrightarrow> th_in_runq (th s' u) = th_in_runq (th s u) \<and> th_runq (th s' u) = th_runq (th s u) \<and> th_state (th s' u) = th_state (th s u)"
      "\<And>c u. c \<in> C \<Longrightarrow> u \<noteq> t \<Longrightarrow> u \<in> A' c \<longleftrightarrow> u \<in> A c"
    and t: "t \<notin> X' \<Longrightarrow> member_ok C s' A' t" "\<And>c. c \<in> C \<Longrightarrow> rq_balancer (rq s c) = Some t \<Longrightarrow> t \<notin> X' \<Longrightarrow> th_state (th s' t) = THREAD_RUNNING
      \<Longrightarrow> th_in_runq (th s' t) \<and> th_runq (th s' t) = Some c"
    and X: "X - {t} \<subseteq> X'" and nr: "\<And>c. c \<in> C \<Longrightarrow> rq_nr_threads (rq s' c) = of_nat (card (A' c)) + n' c"
  shows "sys_ok C s' A' X' n'"
  by (rule sys_ok_change [OF ok _ _ _ _ same t X nr]) (use m in \<open>simp_all add: moved_def\<close>)

lemma sys_ok_quiet:
  assumes "sys_ok C s A X n" "quiet s s'"
  shows "sys_ok C s' A X n"
  using assms(1) quietD [OF assms(2)] unfolding sys_ok_def member_ok_def balancer_ok_def by simp

section \<open>Entering a run queue\<close>

definition runq_class :: "sched \<Rightarrow> nat \<Rightarrow> bool" where
  "runq_class s t \<longleftrightarrow> cls s t = THREAD_SCHED_CLASS_RT \<and> pri s t \<le> THREAD_SCHED_RT_PRIO_MAX \<or> cls s t = THREAD_SCHED_CLASS_FS"

lemma runq_add_ok:
  assumes ok: "runqs_ok C s q r A" "sys_ok C s A X n" "works_ok s {}" and c: "c \<in> C"
    and t: "\<not> th_in_runq (th s t)" "th_state (th s t) = THREAD_RUNNING" "\<forall>c\<in>C. t \<notin> A c" "t < MAX_THREADS" "runq_class s t"
    and b: "\<forall>c'\<in>C. rq_balancer (rq s c') = Some t \<longrightarrow> c' = c"
  shows "\<exists>s' q'. thread_runq_add c t s = Some s' \<and> runqs_ok C s' q' r (A(c := insert t (A c))) \<and> sys_ok C s' (A(c := insert t (A c))) (X - {t}) n
    \<and> works_ok s' {} \<and> moved s s'
    \<and> (cls s t = THREAD_SCHED_CLASS_FS \<longrightarrow> t \<in> set (q_thr q' c (rq_fs_active (rq s' c))) \<and> fs_cur s' c \<in> set (q_groups q' c (rq_fs_active (rq s' c))))
    \<and> (\<forall>u. th_state (th s' u) = th_state (th s u) \<and> th_wakeup_error (th s' u) = th_wakeup_error (th s u) \<and> th_wchan_addr (th s' u) = th_wchan_addr (th s u)) \<and> (\<forall>u. u \<noteq> t \<longrightarrow> th_in_runq (th s' u) = th_in_runq (th s u) \<and> th_runq (th s' u) = th_runq (th s u))
    \<and> (\<forall>c'. c' \<noteq> c \<longrightarrow> rq_nr_threads (rq s' c') = rq_nr_threads (rq s c') \<and> fs_queue s' c' = fs_queue s c')
    \<and> (cls s t = THREAD_SCHED_CLASS_RT \<longrightarrow> fs_queue s' = fs_queue s)"
proof -
  let ?A = "A(c := insert t (A c))"
  obtain s1 q1 where s1: "(if cls s t = THREAD_SCHED_CLASS_RT then thread_sched_rt_add c t s
       else if cls s t = THREAD_SCHED_CLASS_FS then thread_sched_fs_add c t s
       else if cls s t = THREAD_SCHED_CLASS_IDLE then thread_sched_idle_add c t s else None) = Some s1"
    "runqs_ok C s1 q1 r ?A" "works_ok s1 {}" "moved s s1" "quiet s s1"
    "cls s t = THREAD_SCHED_CLASS_FS \<longrightarrow> t \<in> set (q_thr q1 c (rq_fs_active (rq s1 c))) \<and> fs_cur s1 c \<in> set (q_groups q1 c (rq_fs_active (rq s1 c)))"
    "\<forall>c'. c' \<noteq> c \<longrightarrow> fs_queue s1 c' = fs_queue s c'" "cls s t = THREAD_SCHED_CLASS_RT \<longrightarrow> fs_queue s1 = fs_queue s"
  proof (cases "cls s t = THREAD_SCHED_CLASS_RT")
    case True
    have rn: "r c \<noteq> Some t" using runqs_free(2) [OF ok(1) t(3) c] .
    obtain s' q' where s': "thread_sched_rt_add c t s = Some s'" "runqs_ok C s' q' r ?A" "rt_step s s'"
      using rt_add_ok [OF ok(1) c True _ t(4) disjI1 [OF t(3)]] t(5) rn True
      by (auto simp: runq_class_def THREAD_SCHED_CLASS_RT_def THREAD_SCHED_CLASS_FS_def)
    have "works_ok s' {}" using ok(3) s'(3) by (simp add: works_ok_def rt_step_def same_sched_def)
    then show thesis using that [of s' q'] s' True moved_steps(1) [OF s'(3)]
      by (simp add: rt_step_def THREAD_SCHED_CLASS_RT_def THREAD_SCHED_CLASS_FS_def)
  next
    case False
    then have f: "cls s t = THREAD_SCHED_CLASS_FS" using t(5) by (simp add: runq_class_def)
    obtain s' q' where s': "thread_sched_fs_add c t s = Some s'" "runqs_ok C s' q' r ?A" "works_ok s' {}" "fs_step c t s q s' q'"
      "q_thr q' c (rq_fs_active (rq s c)) = q_thr q c (rq_fs_active (rq s c)) @ [t]" "fs_cur s' c \<in> set (q_groups q' c (rq_fs_active (rq s c)))"
      using fs_add_ok [OF ok(1) c f t(3,4) ok(3)] by (elim exE conjE)
    then show thesis using that [of s' q'] False f moved_steps(2) [OF s'(4)] by (simp add: fs_step_def)
  qed
  define s2 where "s2 = (if rq_nr_threads (rq s1 c) = 0 then s1\<lparr>sy_idle_runqs := (sy_idle_runqs s1)(c := False)\<rparr> else s1)"
  define s3 where "s3 = set_runq c ((rq s2 c)\<lparr>rq_nr_threads := rq_nr_threads (rq s2 c) + 1\<rparr>) s2"
  define cur where "cur = rq_current (rq s3 c)"
  define s4 where "s4 = (if cls s3 t < cls s3 cur then thread_set_flag cur THREAD_YIELD s3 else s3)"
  define s5 where "s5 = set_thread t ((th s4 t)\<lparr>th_runq := Some c, th_in_runq := True\<rparr>) s4"
  have add: "thread_runq_add c t s = Some s5"
    using t(1) s1(1) by (simp add: thread_runq_add_def Let_def s2_def s3_def cur_def s4_def s5_def)
  have strip4: "strip (th s4 u) = strip (th s1 u)" for u by (auto simp: s4_def s3_def s2_def thread_set_flag_def)
  have th4: "cls s4 u = cls s1 u" "pri s4 u = pri s1 u" "fsd s4 u = fsd s1 u" "th_state (th s4 u) = th_state (th s1 u)"
    "th_in_runq (th s4 u) = th_in_runq (th s1 u)" "th_runq (th s4 u) = th_runq (th s1 u)"
    "th_wakeup_error (th s4 u) = th_wakeup_error (th s1 u)" "th_wchan_addr (th s4 u) = th_wchan_addr (th s1 u)" for u
    using strip_eqD [OF strip4 [of u]] by (auto simp: s4_def s3_def s2_def thread_set_flag_def)
  have rq4: "rq s4 = (rq s1)(c := (rq s1 c)\<lparr>rq_nr_threads := rq_nr_threads (rq s1 c) + 1\<rparr>)" "sy_links s4 = sy_links s1"
    "sy_fs_highest_round s4 = sy_fs_highest_round s1" by (auto simp: s4_def s3_def s2_def thread_set_flag_def fun_eq_iff)
  have real5: "cls s5 u = cls s1 u" "pri s5 u = pri s1 u" "fsd s5 u = fsd s1 u" "th_state (th s5 u) = th_state (th s1 u)" for u
    by (simp_all add: s5_def th4)
  have "runqs_ok C s5 q1 r ?A"
    by (rule runqs_ok_view [OF s1(2)]) (simp_all add: s5_def rq4 same_runq_def same_sched_def real5 th4)
  moreover have "works_ok s5 {}" using s1(3) by (simp add: works_ok_def real5)
  moreover have mv: "moved s s5" using s1(4) unfolding moved_def real5 by (simp add: s5_def rq4)
  moreover have "sys_ok C s5 ?A (X - {t}) n"
  proof (rule sys_ok_step [OF ok(2) mv, where t = t])
    fix c' assume "c' \<in> C"
    have "card (insert t (A c)) = Suc (card (A c))" using t(3) c runqs_okD(6) [OF ok(1) c] by simp
    then show "rq_nr_threads (rq s5 c') = of_nat (card (?A c')) + n c'"
      using ok(2) \<open>c' \<in> C\<close> c quietD(6) [OF s1(5)] by (simp add: s5_def rq4 sys_ok_def)
  next
    show "th_in_runq (th s5 u) = th_in_runq (th s u) \<and> th_runq (th s5 u) = th_runq (th s u) \<and> th_state (th s5 u) = th_state (th s u)" if "u \<noteq> t" for u
      using that quietD [OF s1(5)] by (simp add: s5_def th4)
    show "member_ok C s5 ?A t" using t(2,3) c quietD(5) [OF s1(5)] by (auto simp: member_ok_def s5_def th4)
    show "th_in_runq (th s5 t) \<and> th_runq (th s5 t) = Some c'" if "c' \<in> C" "rq_balancer (rq s c') = Some t" for c'
      using b that by (simp add: s5_def)
  qed auto
  moreover have "rq_nr_threads (rq s5 c') = rq_nr_threads (rq s c')" if "c' \<noteq> c" for c'
    using that quietD(6) [OF s1(5)] by (simp add: s5_def rq4)
  moreover have "fs_queue s5 = fs_queue s1" by (simp add: s5_def rq4 fs_queue_def fun_eq_iff)
  moreover have "th_wakeup_error (th s1 u) = th_wakeup_error (th s u)" "th_wchan_addr (th s1 u) = th_wchan_addr (th s u)" for u
    using s1(5) strip_eqD(6,7) [of "th s1 u" "th s u"] by (simp_all add: quiet_def)
  ultimately show ?thesis using add s1(6-8) quietD [OF s1(5)] by (intro exI [of _ s5] exI [of _ q1]) (simp add: s5_def rq4 th4)
qed

section \<open>Waking up the balancer\<close>

text \<open>The operations on a run queue may add its balancer to it.\<close>

definition woken :: "nat \<Rightarrow> sched \<Rightarrow> (nat \<Rightarrow> nat set) \<Rightarrow> sched \<Rightarrow> (nat \<Rightarrow> nat set) \<Rightarrow> bool" where
  "woken c s A s' A' \<longleftrightarrow> (\<exists>B. A' = A(c := B \<union> A c) \<and> (\<forall>b\<in>B. rq_balancer (rq s c) = Some b))
     \<and> (\<forall>u. rq_balancer (rq s c) \<noteq> Some u \<longrightarrow> th_in_runq (th s' u) = th_in_runq (th s u) \<and> th_runq (th s' u) = th_runq (th s u) \<and> th_state (th s' u) = th_state (th s u))
     \<and> (\<forall>c'. c' \<noteq> c \<longrightarrow> rq_nr_threads (rq s' c') = rq_nr_threads (rq s c') \<and> fs_queue s' c' = fs_queue s c')"

lemma woken_refl [simp]: "woken c s A s A"
proof -
  have "A = A(c := {} \<union> A c)" by simp
  then show ?thesis unfolding woken_def by blast
qed

lemma wakeup_balancer_ok:
  assumes ok: "runqs_ok C s q r A" "sys_ok C s A X n" "works_ok s {}" and c: "c \<in> C"
    and X: "\<And>b. rq_balancer (rq s c) = Some b \<Longrightarrow> b \<notin> X"
  shows "\<exists>s' q' A'. thread_runq_wakeup_balancer c s = Some s' \<and> runqs_ok C s' q' r A' \<and> sys_ok C s' A' X n
    \<and> works_ok s' {} \<and> moved s s' \<and> woken c s A s' A' \<and> (\<exists>b. rq_balancer (rq s c) = Some b \<and> b \<in> A' c)"
proof -
  note o = ok(2) [unfolded sys_ok_def]
  obtain b where b: "rq_balancer (rq s c) = Some b" "balancer_ok s X c b" using o c by blast
  have bX: "b \<notin> X" using X b(1) by simp
  show ?thesis
  proof (cases "th_state (th s b) = THREAD_RUNNING")
    case True
    moreover have "member_ok C s A b" using o bX by blast
    ultimately have "b \<in> A c" using b(2) bX c by (auto simp: balancer_ok_def member_ok_def)
    then show ?thesis using b(1) ok True by (intro exI [of _ s] exI [of _ q] exI [of _ A]) (simp add: thread_runq_wakeup_balancer_def)
  next
    case False
    define s0 where "s0 = set_state b THREAD_RUNNING (thread_clear_wchan b s)"
    have th0: "cls s0 u = cls s u" "pri s0 u = pri s u" "fsd s0 u = fsd s u" "th_in_runq (th s0 u) = th_in_runq (th s u)" "th_runq (th s0 u) = th_runq (th s u)"
      "u \<noteq> b \<Longrightarrow> th_state (th s0 u) = th_state (th s u)" "th_state (th s0 b) = THREAD_RUNNING" "rq s0 = rq s" for u
      by (simp_all add: s0_def set_state_def thread_clear_wchan_def)
    have l0: "sy_links s0 = sy_links s" "sy_fs_highest_round s0 = sy_fs_highest_round s" by (simp_all add: s0_def set_state_def thread_clear_wchan_def)
    have mb: "member_ok C s A b" using o bX by blast
    have nb: "\<not> th_in_runq (th s b)" "\<forall>c\<in>C. b \<notin> A c" using mb False by (auto simp: member_ok_def)
    have "th_state (th s0 u) = th_state (th s u) \<or> th_state (th s0 u) = THREAD_RUNNING \<and> (\<exists>c. rq_balancer (rq s c) = Some u)" for u
      using b(1) th0(6) [of u] th0(7) by (cases "u = b") auto
    then have m0: "moved s s0" unfolding moved_def th0(1,2,8) l0 by simp
    have r0: "runqs_ok C s0 q r A" by (rule runqs_ok_view [OF ok(1) l0(1)]) (simp_all add: same_runq_def same_sched_def th0 l0)
    have w0: "works_ok s0 {}" using ok(3) by (simp add: works_ok_def th0)
    have k0: "sys_ok C s0 A (insert b X) n"
      by (rule sys_ok_step [OF ok(2) m0, where t = b]) (use o in \<open>auto simp: th0\<close>)
    have uniq: "\<forall>c'\<in>C. rq_balancer (rq s0 c') = Some b \<longrightarrow> c' = c" using o b(1) c by (simp add: th0)
    have nb0: "\<not> th_in_runq (th s0 b)" using nb(1) by (simp add: th0)
    have bc: "b < MAX_THREADS" "runq_class s0 b" using b(2) by (simp_all add: balancer_ok_def runq_class_def th0)
    obtain s' q' where s': "thread_runq_add c b s0 = Some s'" "runqs_ok C s' q' r (A(c := insert b (A c)))"
      "sys_ok C s' (A(c := insert b (A c))) (insert b X - {b}) n" "works_ok s' {}" "moved s0 s'"
      "\<forall>u. th_state (th s' u) = th_state (th s0 u) \<and> th_wakeup_error (th s' u) = th_wakeup_error (th s0 u) \<and> th_wchan_addr (th s' u) = th_wchan_addr (th s0 u)" "\<forall>u. u \<noteq> b \<longrightarrow> th_in_runq (th s' u) = th_in_runq (th s0 u) \<and> th_runq (th s' u) = th_runq (th s0 u)"
      "\<forall>c'. c' \<noteq> c \<longrightarrow> rq_nr_threads (rq s' c') = rq_nr_threads (rq s0 c') \<and> fs_queue s' c' = fs_queue s0 c'"
      using runq_add_ok [OF r0 k0 w0 c nb0 th0(7) nb(2) bc uniq] by (elim exE conjE)
    have "thread_runq_wakeup_balancer c s = Some s'"
      using b(1) False s'(1) th0(7) by (simp add: thread_runq_wakeup_balancer_def thread_runq_wakeup_def flip: s0_def)
    moreover have "insert b X - {b} = X" using bX by simp
    moreover have "woken c s A s' (A(c := insert b (A c)))"
      unfolding woken_def using s'(6-8) b(1) by (intro conjI exI [of _ "{b}"]) (simp_all add: th0 fs_queue_def fun_eq_iff)
    ultimately show ?thesis using s' b(1) moved_trans [OF m0 s'(5)]
      by (intro exI [of _ s'] exI [of _ q'] exI [of _ "A(c := insert b (A c))"]) simp
  qed
qed

end
