(* ===== verification/Sched_Remove.thy ===== *)
theory Sched_Remove
  imports Sched_Add
begin

text \<open>
  A fair-scheduling thread leaves its queue and its run queue; the active queue restarts with its first
  group, and the balancer is woken up when that queue is empty.
\<close>

unbundle bit_operations_syntax

section \<open>Leaving a fair-scheduling queue\<close>

text \<open>With threads in the expired queue only, the balancer is there to start the next round.\<close>

definition awake :: "sched \<Rightarrow> (nat \<Rightarrow> nat set) \<Rightarrow> nat \<Rightarrow> bool" where
  "awake s A c \<longleftrightarrow> (fq_nr_threads (fs_queue s c (rq_fs_active (rq s c))) = 0 \<and> (\<exists>t\<in>A c. cls s t = THREAD_SCHED_CLASS_FS)
     \<longrightarrow> (\<exists>b. rq_balancer (rq s c) = Some b \<and> b \<in> A c))"

text \<open>The invariant of the queues, without the choice of the current group.\<close>

definition fs_core :: "sched \<Rightarrow> queues \<Rightarrow> nat option \<Rightarrow> nat \<Rightarrow> nat set \<Rightarrow> bool" where
  "fs_core s q r c A \<longleftrightarrow>
     rq_fs_expired (rq s c) = (\<not> rq_fs_active (rq s c))
     \<and> fsq_ok s q r c (rq_fs_active (rq s c)) (rq_fs_round (rq s c))
     \<and> fsq_ok s q r c (\<not> rq_fs_active (rq s c)) (rq_fs_round (rq s c) + 1)
     \<and> set (q_thr q c True) \<union> set (q_thr q c False) = {t \<in> A. cls s t = THREAD_SCHED_CLASS_FS}
     \<and> unat (rq_fs_weight (rq s c)) = unat (fq_weight (fs_queue s c True)) + unat (fq_weight (fs_queue s c False))
     \<and> (\<forall>t. r = Some t \<and> cls s t = THREAD_SCHED_CLASS_FS \<longrightarrow> t \<in> set (q_thr q c (rq_fs_active (rq s c))))"

lemma fs_ok_core:
  "fs_ok s q r c A \<longleftrightarrow> fs_core s q r c A
     \<and> (\<forall>t. r = Some t \<and> cls s t = THREAD_SCHED_CLASS_FS \<longrightarrow> fs_cur s c \<in> set (q_groups q c (rq_fs_active (rq s c))))
     \<and> (q_groups q c (rq_fs_active (rq s c)) \<noteq> [] \<longrightarrow> next_ok (sy_links s) q c (rq_fs_active (rq s c)) (fs_cur s c))"
  by (auto simp: fs_ok_def fs_core_def)

lemma fs_restart_ok:
  fixes s :: sched and c
  defines "i \<equiv> rq_fs_active (rq s c)"
  assumes l: "links_ok (sy_links s) C q" "c \<in> C" and core: "fs_core s q r c A" and ne: "q_groups q c i \<noteq> []"
  shows "\<exists>s'. thread_sched_fs_restart c s = Some s' \<and> fs_ok s' q r c A \<and> quiet s s' \<and> sy_links s' = sy_links s \<and> (\<forall>u. same_sched s s' u)
    \<and> (\<forall>c'. c' \<noteq> c \<longrightarrow> rq s' c' = rq s c') \<and> rq_fs_active (rq s' c) = i \<and> rq_fs_round (rq s' c) = rq_fs_round (rq s c) \<and> rq_rt_bitmap (rq s' c) = rq_rt_bitmap (rq s c)
    \<and> sy_fs_highest_round s' = sy_fs_highest_round s \<and> fq_nr_threads (fs_queue s' c i) = fq_nr_threads (fs_queue s c i)"
proof -
  define s1 where "s1 = set_fs_queue c i ((fs_queue s c i)\<lparr>fq_current := hd (q_groups q c i)\<rparr>) s"
  obtain s' where s': "thread_sched_fs_restart c s = Some s'" "s' = s1 \<or> (\<exists>t. s' = thread_set_flag t THREAD_YIELD s1)"
    using fs_restart_out [OF l] ne by (auto simp: s1_def i_def Let_def)
  have e: "rq_fs_active (rq s1 c) = i" "rq_fs_round (rq s1 c) = rq_fs_round (rq s c)" "rq_fs_expired (rq s1 c) = rq_fs_expired (rq s c)"
    "rq_fs_weight (rq s1 c) = rq_fs_weight (rq s c)" "cls s1 u = cls s u" "sy_links s1 = sy_links s" "fq_weight (fs_queue s1 c j) = fq_weight (fs_queue s c j)"
    "fq_current (fs_queue s1 c i) = hd (q_groups q c i)" for u j
    by (auto simp: s1_def i_def)
  have f: "fsq_ok s1 q r c j rnd" if "fsq_ok s q r c j rnd" for j rnd unfolding s1_def by (rule fsq_ok_cur [OF that])
  have "fs_core s1 q r c A" using core f unfolding fs_core_def e i_def [symmetric] by blast
  then have ok1: "fs_ok s1 q r c A" unfolding fs_ok_core e using ne listed_next_ok [OF l, of "hd (q_groups q c i)" i] by simp
  have v: "cls s' u = cls s1 u" "pri s' u = pri s1 u" "fsd s' u = fsd s1 u" "rq s' = rq s1" "sy_links s' = sy_links s1"
    "sy_fs_highest_round s' = sy_fs_highest_round s1" for u
    using s'(2) by (auto simp: thread_set_flag_def)
  have "fs_ok s' q r c A" by (rule fs_ok_cong [OF ok1]) (simp_all add: v)
  moreover have "quiet s s1" by (simp add: quiet_def s1_def)
  then have "quiet s s'" using s'(2) quiet_trans quiet_flag by blast
  moreover have "fq_nr_threads (fs_queue s' c i) = fq_nr_threads (fs_queue s c i)" by (simp add: fs_queue_def v(4)) (simp add: s1_def fs_queue_def)
  ultimately show ?thesis using s'(1) by (intro exI [of _ s']) (simp add: v same_sched_def s1_def i_def)
qed

lemma fs_leave:
  assumes ok: "runqs_ok C s q r A" and c: "c \<in> C" and t: "t \<in> set (q_thr q c i)" "r c \<noteq> Some t"
    and s1: "s1 = set_runq c ((rq s c)\<lparr>rq_fs_weight := W\<rparr>) s"
  shows "\<exists>h' gs. thread_sched_fs_dequeue t s1 = Some (set_fs t ((fsd s t)\<lparr>fd_fs_runq := None\<rparr>)
        (set_fs_queue c i (group_minus (pri s t) (ucast (fd_weight (fsd s t))) (ucast (fd_work (fsd s t))) (fs_queue s c i)) (s1\<lparr>sy_links := h'\<rparr>)))
    \<and> links_ok h' C (q_leave c i (pri s t) gs t q) \<and> same_groups (sy_links s) h' {(c, i)}
    \<and> set gs = pri s ` (set (q_thr q c i) - {t}) \<and> (\<forall>cur\<in>set (q_groups q c i). next_ok h' (q_leave c i (pri s t) gs t q) c i cur)
    \<and> (\<forall>j rnd. fsq_ok s q (r c) c j rnd \<longrightarrow> fsq_ok (set_fs t ((fsd s t)\<lparr>fd_fs_runq := None\<rparr>)
        (set_fs_queue c i (group_minus (pri s t) (ucast (fd_weight (fsd s t))) (ucast (fd_work (fsd s t))) (fs_queue s c i)) (s1\<lparr>sy_links := h'\<rparr>)))
        (q_leave c i (pri s t) gs t q) (r c) c j rnd)"
proof -
  note l = runqs_okD(1) [OF ok] and fs = runqs_okD(4) [OF ok c]
  have e: "fs_queue s1 = fs_queue s" "th s1 = th s" "sy_links s1 = sy_links s" by (simp_all add: s1 fs_queue_def fun_eq_iff)
  have f1: "fsq_ok s1 q (r c) c j rnd" if "fsq_ok s q (r c) c j rnd" for j rnd
    by (rule fsq_ok_cong [OF _ _ _ _ _ that]) (simp_all add: e)
  obtain ri where ri: "fsq_ok s q (r c) c i ri" using fs_okD(11) [OF fs] by blast
  have l1: "links_ok (sy_links s1) C q" using l by (simp add: e)
  define g w k Q where "g = pri s t" and "w = fd_weight (fsd s t)" and "k = fd_work (fsd s t)" and "Q = fs_queue s c i"
  obtain h' gs where d: "thread_sched_fs_dequeue t s1 = Some (set_fs t ((fsd s t)\<lparr>fd_fs_runq := None\<rparr>)
        (set_fs_queue c i (group_minus g (ucast w) (ucast k) Q) (s1\<lparr>sy_links := h'\<rparr>)))"
    "links_ok h' C (q_leave c i g gs t q)" "same_groups (sy_links s) h' {(c, i)}"
    "set gs = pri s ` (set (q_thr q c i) - {t})"
    "sorted_wrt (\<lambda>a b. fg_weight (fq_group_array (group_minus g (ucast w) (ucast k) Q) b) \<le> fg_weight (fq_group_array (group_minus g (ucast w) (ucast k) Q) a)) gs"
    "\<forall>cur\<in>set (q_groups q c i). next_ok h' (q_leave c i g gs t q) c i cur"
    using dequeue_out [OF l1 c f1 [OF ri] t, unfolded e, folded g_def w_def k_def Q_def] by (elim exE conjE)
  define s2 where "s2 = set_fs t ((fsd s t)\<lparr>fd_fs_runq := None\<rparr>) (set_fs_queue c i (group_minus g (ucast w) (ucast k) Q) (s1\<lparr>sy_links := h'\<rparr>))"
  define q2 where "q2 = q_leave c i g gs t q"
  have dist: "distinct (q_thr q c i)" "\<forall>g\<le>THREAD_SCHED_FS_PRIO_MAX. distinct (q_grp q c i g)" using links_fs(2,3) [OF l c] by simp_all
  have fi: "fsq_ok s2 q2 (r c) c i rnd" if "fsq_ok s q (r c) c i rnd" for rnd
    using dequeue_ok [OF f1 [OF that] dist t(1) refl, unfolded e, folded g_def w_def k_def Q_def, OF d(4,5)] by (simp add: s2_def q2_def)
  have "fsq_ok s2 q2 (r c) c j rnd" if f: "fsq_ok s q (r c) c j rnd" for j rnd
  proof (cases "j = i")
    case False
    have "t \<notin> set (q_thr q c j)" using fsq_member(3) [OF fs t(1)] False by (cases i; cases j) simp_all
    then show ?thesis using False by (intro fsq_ok_cong [OF _ _ _ _ _ f]) (auto simp: s2_def q2_def e)
  qed (use fi f in simp)
  then show ?thesis using d unfolding s2_def q2_def g_def w_def k_def Q_def by blast
qed

lemma unat_minus_ucast:
  assumes "unat w \<le> unat a"
  shows "unat (a - ucast (w :: u16) :: u32) = unat a - unat w"
  using assms by (simp add: unat_sub word_le_nat_alt unat_ucast_16)

lemma queue_weight_ge:
  assumes "fsq_ok s q r c i round" "t \<in> set (q_thr q c i)"
  shows "unat (fd_weight (fsd s t)) \<le> unat (fq_weight (fs_queue s c i))"
proof -
  have "unat (fd_weight (fsd s t)) \<le> fs_weights s (set (q_thr q c i))"
    unfolding fs_weights_def by (rule member_le_sum) (use assms(2) in simp_all)
  then show ?thesis using fsq_okD(7) [OF assms(1)] by (simp add: fs_acct_def)
qed

lemma fs_leave_core:
  assumes ok: "runqs_ok C s q r A" and c: "c \<in> C" and t: "t \<in> set (q_thr q c i)" "r c \<noteq> Some t"
    and s1: "s1 = set_runq c ((rq s c)\<lparr>rq_fs_weight := rq_fs_weight (rq s c) - ucast (fd_weight (fsd s t))\<rparr>) s"
    and s2: "s2 = set_fs t ((fsd s t)\<lparr>fd_fs_runq := None\<rparr>)
        (set_fs_queue c i (group_minus (pri s t) (ucast (fd_weight (fsd s t))) (ucast (fd_work (fsd s t))) (fs_queue s c i)) (s1\<lparr>sy_links := h'\<rparr>))"
    and f: "\<forall>j rnd. fsq_ok s q (r c) c j rnd \<longrightarrow> fsq_ok s2 (q_leave c i (pri s t) gs t q) (r c) c j rnd"
  shows "fs_core s2 (q_leave c i (pri s t) gs t q) (r c) c (A c - {t})"
proof -
  note fs = runqs_okD(4) [OF ok c] and l = runqs_okD(1) [OF ok]
  let ?q = "q_leave c i (pri s t) gs t q"
  obtain ri where ri: "fsq_ok s q (r c) c i ri" using fs_okD(11) [OF fs] by blast
  have e: "rq_fs_active (rq s2 c) = rq_fs_active (rq s c)" "rq_fs_round (rq s2 c) = rq_fs_round (rq s c)" "rq_fs_expired (rq s2 c) = rq_fs_expired (rq s c)"
    "rq_fs_weight (rq s2 c) = rq_fs_weight (rq s c) - ucast (fd_weight (fsd s t))" "cls s2 u = cls s u"
    "fq_weight (fs_queue s2 c i) = fq_weight (fs_queue s c i) - ucast (fd_weight (fsd s t))" "fs_queue s2 c (\<not> i) = fs_queue s c (\<not> i)" for u
    by (simp_all add: s2 s1 fs_queue_def)
  have ge: "unat (fd_weight (fsd s t)) \<le> unat (fq_weight (fs_queue s c i))" by (rule queue_weight_ge [OF ri t(1)])
  show ?thesis unfolding fs_core_def e
  proof (intro conjI)
    show "rq_fs_expired (rq s c) = (\<not> rq_fs_active (rq s c))" by (rule fs_okD(1) [OF fs])
    show "fsq_ok s2 ?q (r c) c (rq_fs_active (rq s c)) (rq_fs_round (rq s c))" "fsq_ok s2 ?q (r c) c (\<not> rq_fs_active (rq s c)) (rq_fs_round (rq s c) + 1)"
      using f fs_okD(2,3) [OF fs] by blast+
    have thr: "set (q_thr ?q c j) = set (q_thr q c j) - {t}" for j
      using links_fs(2) [OF l c] fsq_member(3) [OF fs t(1)] by (cases j; cases i) (auto simp: set_remove1_eq)
    have "set (q_thr q c True) \<union> set (q_thr q c False) = {u \<in> A c. cls s u = THREAD_SCHED_CLASS_FS}" using fs unfolding fs_ok_def by blast
    then show "set (q_thr ?q c True) \<union> set (q_thr ?q c False) = {u \<in> A c - {t}. cls s u = THREAD_SCHED_CLASS_FS}"
      unfolding thr by blast
    show "\<forall>u. r c = Some u \<and> cls s u = THREAD_SCHED_CLASS_FS \<longrightarrow> u \<in> set (q_thr ?q c (rq_fs_active (rq s c)))"
      unfolding thr using fs_okD(8) [OF fs] t(2) by blast
    have "unat (rq_fs_weight (rq s c) - ucast (fd_weight (fsd s t))) = unat (fq_weight (fs_queue s2 c i)) + unat (fq_weight (fs_queue s2 c (\<not> i)))"
      using fs_okD(7) [OF fs, of i] ge by (simp add: e unat_minus_ucast)
    then show "unat (rq_fs_weight (rq s c) - ucast (fd_weight (fsd s t))) = unat (fq_weight (fs_queue s2 c True)) + unat (fq_weight (fs_queue s2 c False))"
      by (cases i) simp_all
  qed
qed

text \<open>The queues are in use when they count a thread.\<close>

lemma fsq_count:
  assumes "fsq_ok s q r c i round" "set (q_thr q c i) \<subseteq> {..<MAX_THREADS}"
  shows "fq_nr_threads (fs_queue s c i) = 0 \<longleftrightarrow> q_groups q c i = []"
proof -
  have "card (set (q_thr q c i)) \<le> MAX_THREADS" using card_mono [OF _ assms(2)] by simp
  then have u: "unat (of_nat (card (set (q_thr q c i))) :: u32) = card (set (q_thr q c i))"
    by (simp add: unat_of_nat MAX_THREADS_def take_bit_nat_eq_self_iff)
  have "fq_nr_threads (fs_queue s c i) = of_nat (card (set (q_thr q c i)))" using fsq_okD(7) [OF assms(1)] by (simp add: fs_acct_def)
  then have "fq_nr_threads (fs_queue s c i) = 0 \<longleftrightarrow> card (set (q_thr q c i)) = 0" using u by (metis unat_eq_0)
  also have "\<dots> \<longleftrightarrow> set (q_groups q c i) = {}" using fsq_okD(5) [OF assms(1)] by simp
  finally show ?thesis by simp
qed

lemma sys_ok_leave:
  assumes sys: "sys_ok C s A X n" and c: "c \<in> C" and t: "t \<in> A c" "t \<in> X" "finite (A c)" and q: "quiet s s'" and m: "moved s s'"
  shows "sys_ok C s' (A(c := A c - {t})) X (n(c := n c + 1))"
proof (rule sys_ok_step [OF sys m, where t = t])
  fix c' assume "c' \<in> C"
  have "card (A c) = Suc (card (A c - {t}))" using t(1,3) by (metis card.remove)
  then show "rq_nr_threads (rq s' c') = of_nat (card ((A(c := A c - {t})) c')) + (n(c := n c + 1)) c'"
    using sys c \<open>c' \<in> C\<close> quietD(6) [OF q] by (simp add: sys_ok_def)
qed (use t quietD [OF q] in auto)

lemma quiet_woken: "quiet s s' \<Longrightarrow> \<forall>c'. c' \<noteq> c \<longrightarrow> fs_queue s' c' = fs_queue s c' \<Longrightarrow> woken c s' A s'' A' \<Longrightarrow> woken c s A s'' A'"
  by (simp add: woken_def quietD)

lemma fs_remove_ok:
  assumes ok: "runqs_ok C s q r A" "sys_ok C s A X n" "works_ok s {}" and c: "c \<in> C"
    and t: "t \<in> A c" "cls s t = THREAD_SCHED_CLASS_FS" "r c \<noteq> Some t" "t \<in> X"
    and X: "\<forall>b. rq_balancer (rq s c) = Some b \<longrightarrow> b \<notin> X"
  shows "\<exists>s' q' A'. thread_sched_fs_remove c t s = Some s' \<and> runqs_ok C s' q' r A' \<and> sys_ok C s' A' X (n(c := n c + 1))
    \<and> works_ok s' {} \<and> moved s s' \<and> woken c s (A(c := A c - {t})) s' A'
    \<and> (awake s A c \<longrightarrow> awake s' A' c)"
proof -
  note l = runqs_okD(1) [OF ok(1)] and rt = runqs_okD(3) [OF ok(1) c] and fs = runqs_okD(4) [OF ok(1) c] and run = runqs_okD(2) [OF ok(1) c]
  obtain i where i: "t \<in> set (q_thr q c i)" using fs_okD(6) [OF fs t(1,2)] by blast
  define act where "act = rq_fs_active (rq s c)"
  define s1 where "s1 = set_runq c ((rq s c)\<lparr>rq_fs_weight := rq_fs_weight (rq s c) - ucast (fd_weight (fsd s t))\<rparr>) s"
  obtain h' gs where d: "thread_sched_fs_dequeue t s1 = Some (set_fs t ((fsd s t)\<lparr>fd_fs_runq := None\<rparr>)
        (set_fs_queue c i (group_minus (pri s t) (ucast (fd_weight (fsd s t))) (ucast (fd_work (fsd s t))) (fs_queue s c i)) (s1\<lparr>sy_links := h'\<rparr>)))"
    "links_ok h' C (q_leave c i (pri s t) gs t q)" "same_groups (sy_links s) h' {(c, i)}"
    "set gs = pri s ` (set (q_thr q c i) - {t})" "\<forall>cur\<in>set (q_groups q c i). next_ok h' (q_leave c i (pri s t) gs t q) c i cur"
    "\<forall>j rnd. fsq_ok s q (r c) c j rnd \<longrightarrow> fsq_ok (set_fs t ((fsd s t)\<lparr>fd_fs_runq := None\<rparr>)
        (set_fs_queue c i (group_minus (pri s t) (ucast (fd_weight (fsd s t))) (ucast (fd_work (fsd s t))) (fs_queue s c i)) (s1\<lparr>sy_links := h'\<rparr>)))
        (q_leave c i (pri s t) gs t q) (r c) c j rnd"
    using fs_leave [OF ok(1) c i t(3) s1_def] by (elim exE conjE)
  define s2 where "s2 = set_fs t ((fsd s t)\<lparr>fd_fs_runq := None\<rparr>)
        (set_fs_queue c i (group_minus (pri s t) (ucast (fd_weight (fsd s t))) (ucast (fd_work (fsd s t))) (fs_queue s c i)) (s1\<lparr>sy_links := h'\<rparr>))"
  define q2 where "q2 = q_leave c i (pri s t) gs t q"
  define A2 where "A2 = A(c := A c - {t})"
  have core: "fs_core s2 q2 (r c) c (A2 c)" unfolding q2_def A2_def fun_upd_same
    by (rule fs_leave_core [OF ok(1) c i t(3) s1_def s2_def]) (use d(6) in \<open>simp add: s2_def\<close>)
  have e: "cls s2 u = cls s u" "pri s2 u = pri s u" "rq_fs_active (rq s2 c') = rq_fs_active (rq s c')" "sy_links s2 = h'" "rq_rt_bitmap (rq s2 c) = rq_rt_bitmap (rq s c)"
    "u \<noteq> t \<Longrightarrow> fsd s2 u = fsd s u" "sy_fs_highest_round s2 = sy_fs_highest_round s" "c' \<noteq> c \<Longrightarrow> rq s2 c' = rq s c'" for u c'
    by (simp_all add: s2_def s1_def)
  have quiet2: "quiet s s2" by (simp add: quiet_def s2_def s1_def)
  have fq2: "\<forall>c'. c' \<noteq> c \<longrightarrow> fs_queue s2 c' = fs_queue s c'" by (simp add: e(8) fs_queue_def fun_eq_iff)
  have mv2: "moved s s2" unfolding moved_def using quietD [OF quiet2] by (simp add: e)
  have sys2: "sys_ok C s2 A2 X (n(c := n c + 1))" unfolding A2_def
    by (rule sys_ok_leave [OF ok(2) c t(1,4) runqs_okD(6) [OF ok(1) c] quiet2 mv2])
  have wk2: "works_ok s2 {}" using ok(3) by (auto simp: works_ok_def s2_def s1_def)
  have rt2: "rt_ok s2 q2 (r c) c (A2 c)"
    by (rule rt_ok_cong [OF rt]) (use t(2) in \<open>auto simp: e q2_def A2_def THREAD_SCHED_CLASS_RT_def THREAD_SCHED_CLASS_FS_def\<close>)
  have et: "fs_entity s t" by (rule fsq_member(2) [OF fs i])
  have build: "runqs_ok C s3 q2 r A2" if f3: "fs_ok s3 q2 (r c) c (A2 c)" and l3: "sy_links s3 = h'" and same3: "\<And>u. same_sched s2 s3 u"
    and rq3: "\<And>c'. c' \<noteq> c \<Longrightarrow> rq s3 c' = rq s2 c'" "rq_rt_bitmap (rq s3 c) = rq_rt_bitmap (rq s2 c)" for s3
  proof -
    have sm: "cls s3 u = cls s u" "pri s3 u = pri s u" "fsd s3 u = fsd s2 u" for u using same3 [of u] by (simp_all add: same_sched_def e)
    have "rt_ok s3 q2 (r c) c (A2 c)" by (rule rt_ok_cong [OF rt2]) (use rq3(2) sm e in auto)
    then have "runq_ok s3 q2 (r c) c (A2 c)" using run t(3) f3 by (auto simp: runq_ok_def sm A2_def)
    then show ?thesis
    proof (rule runqs_ok_step [OF ok(1) c, where t = t, rotated])
      show "links_ok (sy_links s3) C q2" using d(2) by (simp add: l3 q2_def)
      show "same_runq s s3 c' \<and> same_lists q q2 c' \<and> r c' = r c' \<and> A2 c' = A c'" if "c' \<in> C" "c' \<noteq> c" for c'
        using that rq3(1) e(8) d(3) by (simp add: same_runq_def same_lists_def same_groups_def l3 q2_def A2_def fun_eq_iff)
      show "same_sched s s3 u" if "u \<noteq> t" for u using that by (simp add: same_sched_def sm e)
      show "t \<notin> A c'" if "c' \<in> C" "c' \<noteq> c" for c' using runqs_okD(5) [OF ok(1) c that(1) t(1)] that(2) by auto
      show "fs_entity s3 t \<and> fd_fs_runq (fsd s3 t) = None" using et by (simp add: fs_entity_def sm) (simp add: s2_def)
    qed (simp add: A2_def)
  qed
  have deq: "thread_sched_fs_remove c t s = (if i = act then
       (if fq_nr_threads (fs_queue s2 c act) = 0 then thread_runq_wakeup_balancer c s2 else thread_sched_fs_restart c s2) else Some s2)"
    using d(1) fsq_member(1) [OF fs i] by (simp add: thread_sched_fs_remove_def flip: s1_def s2_def act_def) (simp add: s1_def e act_def)
  have sub: "set (q_thr q2 c act) \<subseteq> {..<MAX_THREADS}"
  proof
    fix u assume "u \<in> set (q_thr q2 c act)"
    then have "u \<in> A c" using core by (cases act) (auto simp: fs_core_def A2_def)
    then show "u \<in> {..<MAX_THREADS}" using run by (auto simp: runq_ok_def)
  qed
  have count: "fq_nr_threads (fs_queue s2 c act) = 0 \<longleftrightarrow> q_groups q2 c act = []"
    by (rule fsq_count [OF _ sub]) (use core in \<open>auto simp: fs_core_def act_def e\<close>)
  consider (other) "i \<noteq> act" | (last) "i = act" "q_groups q2 c act = []" | (more) "i = act" "q_groups q2 c act \<noteq> []" by blast
  then show ?thesis
  proof cases
    case other
    have g: "q_groups q2 c act = q_groups q c act" "fs_cur s2 c = fs_cur s c" "fs_queue s2 c act = fs_queue s c act" using other by (simp_all add: q2_def s2_def s1_def act_def fs_queue_def)
    have "h' (Fs_group c act gg) = sy_links s (Fs_group c act gg)" for gg using d(3) other by (simp add: same_groups_def)
    then have "next_ok h' q2 c act cur = next_ok (sy_links s) q c act cur" for cur by (simp add: next_ok_def list_next_def g)
    then have "fs_ok s2 q2 (r c) c (A2 c)" unfolding fs_ok_core using core fs_okD(9,10) [OF fs] by (simp add: e g flip: act_def)
    then have "runqs_ok C s2 q2 r A2" by (rule build) (simp_all add: e)
    moreover have "awake s A c \<longrightarrow> awake s2 A2 c"
    proof
      assume aw: "awake s A c"
      obtain b where b: "rq_balancer (rq s c) = Some b" "cls s b = THREAD_SCHED_CLASS_RT" using ok(2) c by (auto simp: sys_ok_def balancer_ok_def)
      then have "b \<noteq> t" using t(2) by (auto simp: THREAD_SCHED_CLASS_RT_def THREAD_SCHED_CLASS_FS_def)
      then show "awake s2 A2 c" using aw b(1) quietD(8) [OF quiet2] by (auto simp: awake_def e A2_def g(3) simp flip: act_def)
    qed
    ultimately show ?thesis using deq other mv2 sys2 wk2 quiet_woken [OF quiet2 fq2 woken_refl] unfolding A2_def by auto
  next
    case last
    have "q_thr q2 c act = []"
      using core fsq_okD(5) [of s2 q2 "r c" c act] last(2) by (auto simp: fs_core_def e simp flip: act_def)
    then have "fs_ok s2 q2 (r c) c (A2 c)" unfolding fs_ok_core using core last(2) by (auto simp: fs_core_def e simp flip: act_def)
    then have r2: "runqs_ok C s2 q2 r A2" by (rule build) (simp_all add: e)
    obtain s' q' A' where s': "thread_runq_wakeup_balancer c s2 = Some s'" "runqs_ok C s' q' r A'" "sys_ok C s' A' X (n(c := n c + 1))"
      "works_ok s' {}" "moved s2 s'" "woken c s2 A2 s' A'" "\<exists>b. rq_balancer (rq s2 c) = Some b \<and> b \<in> A' c"
      using wakeup_balancer_ok [OF r2 sys2 wk2 c] X quietD(8) [OF quiet2] by auto
    have "awake s' A' c" using s'(5,7) by (auto simp: awake_def moved_def)
    have "thread_sched_fs_remove c t s = Some s'" using deq last count s'(1) by simp
    then show ?thesis using s' \<open>awake s' A' c\<close> moved_trans [OF mv2 s'(5)] quiet_woken [OF quiet2 fq2 s'(6)] unfolding A2_def by blast
  next
    case more
    have l2: "links_ok (sy_links s2) C q2" using d(2) by (simp add: e q2_def)
    obtain s' where s': "thread_sched_fs_restart c s2 = Some s'" "fs_ok s' q2 (r c) c (A2 c)" "quiet s2 s'" "sy_links s' = sy_links s2" "\<forall>u. same_sched s2 s' u"
      "\<forall>c'. c' \<noteq> c \<longrightarrow> rq s' c' = rq s2 c'" "rq_fs_active (rq s' c) = act" "rq_rt_bitmap (rq s' c) = rq_rt_bitmap (rq s2 c)"
      "sy_fs_highest_round s' = sy_fs_highest_round s2" "fq_nr_threads (fs_queue s' c act) = fq_nr_threads (fs_queue s2 c act)"
      using fs_restart_ok [OF l2 c core] more by (auto simp: e simp flip: act_def)
    have "runqs_ok C s' q2 r A2" by (rule build [OF s'(2)]) (use s' in \<open>simp_all add: e\<close>)
    moreover have q': "quiet s s'" using quiet_trans [OF quiet2 s'(3)] .
    moreover have mv: "moved s2 s'" unfolding moved_def using quietD [OF s'(3)] s'(6,7,9) by (metis act_def e(3))
    moreover have "sys_ok C s' A2 X (n(c := n c + 1))" by (rule sys_ok_quiet [OF sys2 s'(3)])
    moreover have "works_ok s' {}" using wk2 s'(5) by (simp add: works_ok_def same_sched_def)
    moreover have "thread_sched_fs_remove c t s = Some s'" using deq more count s'(1) by simp
    moreover have "\<forall>c'. c' \<noteq> c \<longrightarrow> fs_queue s' c' = fs_queue s c'" using s'(6) fq2 by (simp add: fs_queue_def fun_eq_iff)
    moreover have "awake s' A2 c" using s'(7,10) count more(2) by (simp add: awake_def)
    ultimately show ?thesis using moved_trans [OF mv2 mv] quiet_woken [OF q' _ woken_refl] unfolding A2_def by blast
  qed
qed

end
