(* ===== verification/Sched_Move.thy ===== *)
theory Sched_Move
  imports Sched_Remove
begin

text \<open>
  A fair-scheduling thread that has done its share of a round moves from the active queue to the
  expired one, for the next round.
\<close>

unbundle bit_operations_syntax

section \<open>Moving a thread to the next round\<close>

lemma fs_move_core:
  assumes ok: "runqs_ok C s q r A" "works_ok s {t}" and c: "c \<in> C" and r: "r c = None"
    and t: "t \<in> set (q_thr q c (rq_fs_active (rq s c)))" "unat (fd_weight (fsd s t)) \<le> unat (fd_work (fsd s t))" "unat (fd_work (fsd s t)) \<le> 2 * unat (fd_weight (fsd s t))"
    and cur: "fs_cur s c \<in> set (q_groups q c (rq_fs_active (rq s c)))"
  shows "\<exists>s2 s4 q4. thread_sched_fs_dequeue t s = Some s2
    \<and> thread_sched_fs_enqueue c (\<not> rq_fs_active (rq s c)) (rq_fs_round (rq s c) + 1) t
        (set_fs t ((fsd s2 t)\<lparr>fd_round := fd_round (fsd s2 t) + 1, fd_work := fd_work (fsd s2 t) - fd_weight (fsd s2 t)\<rparr>) s2) = Some s4
    \<and> runqs_ok C s4 q4 r A \<and> works_ok s4 {} \<and> fs_step c t s q s4 q4 \<and> rq_fs_expired (rq s2 c) = (\<not> rq_fs_active (rq s c)) \<and> rq_fs_round (rq s2 c) = rq_fs_round (rq s c)
    \<and> q_thr q4 c (rq_fs_active (rq s c)) = remove1 t (q_thr q c (rq_fs_active (rq s c)))
    \<and> q_thr q4 c (\<not> rq_fs_active (rq s c)) = q_thr q c (\<not> rq_fs_active (rq s c)) @ [t]
    \<and> fd_work (fsd s4 t) = fd_work (fsd s t) - fd_weight (fsd s t)"
proof -
  note l = runqs_okD(1) [OF ok(1)] and rt = runqs_okD(3) [OF ok(1) c] and fs = runqs_okD(4) [OF ok(1) c] and run = runqs_okD(2) [OF ok(1) c]
  define i where "i = rq_fs_active (rq s c)"
  define R where "R = rq_fs_round (rq s c)"
  define w k g where "w = fd_weight (fsd s t)" and "k = fd_work (fsd s t)" and "g = pri s t"
  have ti: "t \<in> set (q_thr q c i)" "r c \<noteq> Some t" using t(1) r by (simp_all add: i_def)
  have tA: "t \<in> A c" "cls s t = THREAD_SCHED_CLASS_FS" using fs_okD(4,5) [OF fs ti(1)] by simp_all
  have et: "fs_entity s t" by (rule fsq_member(2) [OF fs ti(1)])
  have w: "unat w \<le> 800" using et prio2weight(3) by (simp add: fs_entity_def w_def)
  have s1: "s = set_runq c ((rq s c)\<lparr>rq_fs_weight := rq_fs_weight (rq s c)\<rparr>) s" by (simp add: set_runq_def)
  obtain h2 gs where d: "thread_sched_fs_dequeue t s = Some (set_fs t ((fsd s t)\<lparr>fd_fs_runq := None\<rparr>)
        (set_fs_queue c i (group_minus g (ucast w) (ucast k) (fs_queue s c i)) (s\<lparr>sy_links := h2\<rparr>)))"
    "links_ok h2 C (q_leave c i g gs t q)" "same_groups (sy_links s) h2 {(c, i)}"
    "set gs = pri s ` (set (q_thr q c i) - {t})" "\<forall>cur\<in>set (q_groups q c i). next_ok h2 (q_leave c i g gs t q) c i cur"
    "\<forall>j rnd. fsq_ok s q (r c) c j rnd \<longrightarrow> fsq_ok (set_fs t ((fsd s t)\<lparr>fd_fs_runq := None\<rparr>)
        (set_fs_queue c i (group_minus g (ucast w) (ucast k) (fs_queue s c i)) (s\<lparr>sy_links := h2\<rparr>)))
        (q_leave c i g gs t q) (r c) c j rnd"
    using fs_leave [OF ok(1) c ti s1] unfolding g_def [symmetric] w_def [symmetric] k_def [symmetric] by (elim exE conjE)
  define s2 where "s2 = set_fs t ((fsd s t)\<lparr>fd_fs_runq := None\<rparr>)
        (set_fs_queue c i (group_minus g (ucast w) (ucast k) (fs_queue s c i)) (s\<lparr>sy_links := h2\<rparr>))"
  define q2 where "q2 = q_leave c i g gs t q"
  define s3 where "s3 = set_fs t \<lparr>fd_fs_runq = None, fd_round = R + 1, fd_weight = w, fd_work = k - w\<rparr> s2"
  have Rt: "fd_round (fsd s t) = R" using fsq_okD(3) [OF fs_okD(2) [OF fs] t(1)] by (simp add: R_def)
  have s3': "s3 = set_fs t ((fsd s2 t)\<lparr>fd_round := fd_round (fsd s2 t) + 1, fd_work := fd_work (fsd s2 t) - fd_weight (fsd s2 t)\<rparr>) s2"
  proof -
    have eq: "(fsd s t)\<lparr>fd_fs_runq := None, fd_round := R + 1, fd_work := k - w\<rparr> = \<lparr>fd_fs_runq = None, fd_round = R + 1, fd_weight = w, fd_work = k - w\<rparr>"
      by (simp add: w_def)
    show ?thesis by (simp add: s3_def s2_def Rt flip: w_def k_def) (simp only: eq)
  qed
  have dist: "distinct (q_thr q c i)" using links_fs(2) [OF l c] .
  have t2: "t \<notin> set (q_thr q2 c j)" for j
    using fsq_member(3) [OF fs ti(1)] dist by (cases j; cases i) (auto simp: q2_def)
  have f3: "fsq_ok s3 q2 (r c) c j rnd" if "fsq_ok s q (r c) c j rnd" for j rnd
  proof (rule fsq_ok_cong [of q2 c j s3 s2 q2])
    show "fsq_ok s2 q2 (r c) c j rnd" using d(6) that by (simp add: s2_def q2_def)
  qed (use t2 [of j] in \<open>auto simp: s3_def\<close>)
  have free: "fs_free C q2 t"
  proof -
    have "t \<notin> set (q_thr q2 c' j)" if "c' \<in> C" for c' j
      using t2 fs_okD(4) [OF runqs_okD(4) [OF ok(1) that], of t j] runqs_okD(5) [OF ok(1) c that tA(1)] by (cases "c' = c") (auto simp: q2_def)
    moreover have "t \<notin> set (q_grp q2 c' j p)" if m: "c' \<in> C" "p \<le> THREAD_SCHED_FS_PRIO_MAX" for c' j p
    proof (cases "c' = c")
      case True
      obtain rj where "fsq_ok s q (r c) c j rj" using fs_okD(11) [OF fs] by blast
      then show ?thesis using fsq_okD(4) [OF f3 m(2)] t2 True by blast
    next
      case False
      obtain rj where "fsq_ok s q (r c') c' j rj" using fs_okD(11) [OF runqs_okD(4) [OF ok(1) m(1)]] by blast
      then show ?thesis using fsq_okD(4) [OF _ m(2)] calculation [OF m(1), of j] False by (auto simp: q2_def)
    qed
    ultimately show ?thesis by (simp add: fs_free_def)
  qed
  have q0: "fsq_ok s q (r c) c i R" "fsq_ok s q (r c) c (\<not> i) (R + 1)" using fs_okD(2,3) [OF fs] by (simp_all add: i_def R_def)
  have e3: "fs_queue s3 c (\<not> i) = fs_queue s c (\<not> i)" "fsd s3 t = \<lparr>fd_fs_runq = None, fd_round = R + 1, fd_weight = w, fd_work = k - w\<rparr>" "pri s3 t = g"
    "sy_links s3 = h2" by (simp_all add: s3_def s2_def g_def)
  have kw: "k - w \<le> w" using t(2,3) by (simp add: w_def k_def word_le_nat_alt unat_sub)
  have sub: "A c \<subseteq> {..<MAX_THREADS}" using run by (simp add: runq_ok_def)
  have room: "unat (fq_weight (fs_queue s c (\<not> i))) + unat w < 2 ^ 32" by (rule fs_room(2) [OF fs sub w])
  have e2: "fs_entity s3 t" using et by (simp add: fs_entity_def e3 g_def w_def)
  define Q' where "Q' = group_plus g (ucast w) (ucast (k - w)) (fs_queue s c (\<not> i))"
  obtain h4 gs' where en: "thread_sched_fs_enqueue c (\<not> i) (R + 1) t s3 =
        Some (set_fs t \<lparr>fd_fs_runq = Some (c, \<not> i), fd_round = R + 1, fd_weight = w, fd_work = k - w\<rparr> (set_fs_queue c (\<not> i) Q' (s3\<lparr>sy_links := h4\<rparr>)))"
    "links_ok h4 C (q_enter c (\<not> i) g gs' t q2)" "same_groups h2 h4 {(c, \<not> i)}" "set gs' = insert g (set (q_groups q2 c (\<not> i)))"
    "sorted_wrt (\<lambda>a b. fg_weight (fq_group_array Q' b) \<le> fg_weight (fq_group_array Q' a)) gs'"
  proof -
    have "links_ok (sy_links s3) C q2" "fd_fs_runq (fsd s3 t) = None" "fd_work (fsd s3 t) \<le> fd_weight (fsd s3 t)"
      "unat (fq_weight (fs_queue s3 c (\<not> i))) + unat (fd_weight (fsd s3 t)) < 2 ^ 32" "fd_round (fsd s3 t) = R + 1 \<or> fs_within s3 (set (q_thr q2 c (\<not> i)))"
      using d(2) kw room by (simp_all add: e3 q2_def)
    from enqueue_out [OF this(1) c f3 [OF q0(2)] free ti(2) e2 this(2-5), unfolded e3]
    show thesis using that unfolding Q'_def by (elim exE conjE) simp
  qed
  define s4 where "s4 = set_fs t \<lparr>fd_fs_runq = Some (c, \<not> i), fd_round = R + 1, fd_weight = w, fd_work = k - w\<rparr> (set_fs_queue c (\<not> i) Q' (s3\<lparr>sy_links := h4\<rparr>))"
  define q4 where "q4 = q_enter c (\<not> i) g gs' t q2"
  have fe: "fsq_ok s4 q4 (r c) c (\<not> i) (R + 1)"
  proof -
    have "unat (fq_weight (fs_queue s3 c (\<not> i))) + unat (fd_weight (fsd s3 t)) < 2 ^ 32" using room by (simp add: e3)
    from enqueue_ok [where k = "k - w" and gs = gs' and h' = h4, OF f3 [OF q0(2)] t2 ti(2) e2 this refl refl, unfolded e3] en(4,5)
    show ?thesis unfolding s4_def q4_def Q'_def by simp
  qed
  have fa: "fsq_ok s4 q4 (r c) c i R"
    by (rule fsq_ok_cong [OF _ _ _ _ _ f3 [OF q0(1)]]) (use t2 in \<open>auto simp: s4_def q4_def\<close>)
  have e4: "cls s4 u = cls s u" "pri s4 u = pri s u" "rq_fs_active (rq s4 c') = rq_fs_active (rq s c')" "rq_fs_round (rq s4 c) = R" "sy_links s4 = h4"
    "rq_fs_weight (rq s4 c) = rq_fs_weight (rq s c)" "rq_fs_expired (rq s4 c) = (\<not> i)" "rq_rt_bitmap (rq s4 c) = rq_rt_bitmap (rq s c)"
    "c' \<noteq> c \<Longrightarrow> rq s4 c' = rq s c'" "u \<noteq> t \<Longrightarrow> fsd s4 u = fsd s u" for u c'
    using fs_okD(1) [OF fs] by (simp_all add: s4_def s3_def s2_def R_def i_def)
  have qi: "fq_weight (fs_queue s4 c i) = fq_weight (fs_queue s c i) - ucast w" "fq_weight (fs_queue s4 c (\<not> i)) = fq_weight (fs_queue s c (\<not> i)) + ucast w"
    "fq_current (fs_queue s4 c i) = fs_cur s c" by (simp_all add: s4_def s3_def s2_def Q'_def i_def)
  have h: "h4 (Fs_group c i gg) = h2 (Fs_group c i gg)" for gg using en(3) by (simp add: same_groups_def)
  have "next_ok h2 q2 c i (fs_cur s c)" using d(5) cur by (simp add: q2_def i_def)
  then have nx: "next_ok h4 q4 c i (fs_cur s c)" by (simp add: next_ok_def list_next_def h q4_def)
  have ge: "unat w \<le> unat (fq_weight (fs_queue s c i))" unfolding w_def by (rule queue_weight_ge [OF q0(1) ti(1)])
  have "fs_ok s4 q4 (r c) c (A c)"
    unfolding fs_ok_def e4(1-6) i_def [symmetric]
  proof (intro conjI)
    show "rq_fs_expired (rq s4 c) = (\<not> i)" by (rule e4(7))
    have thr: "set (q_thr q4 c True) \<union> set (q_thr q4 c False) = set (q_thr q c True) \<union> set (q_thr q c False)"
      using ti(1) dist by (cases i) (auto simp: q4_def q2_def set_remove1_eq)
    then show "set (q_thr q4 c True) \<union> set (q_thr q4 c False) = {u \<in> A c. cls s u = THREAD_SCHED_CLASS_FS}" using fs unfolding fs_ok_def by simp
    have "unat (rq_fs_weight (rq s c)) = unat (fq_weight (fs_queue s4 c i)) + unat (fq_weight (fs_queue s4 c (\<not> i)))"
      using fs_okD(7) [OF fs, of i] ge unat_add_ucast [OF room] by (simp add: qi unat_minus_ucast)
    then show "unat (rq_fs_weight (rq s c)) = unat (fq_weight (fs_queue s4 c True)) + unat (fq_weight (fs_queue s4 c False))" by (cases i) simp_all
    show "\<forall>u. r c = Some u \<and> cls s u = THREAD_SCHED_CLASS_FS \<longrightarrow> u \<in> set (q_thr q4 c i) \<and> fq_current (fs_queue s4 c i) \<in> set (q_groups q4 c i)" using r by simp
    show "q_groups q4 c i \<noteq> [] \<longrightarrow> next_ok h4 q4 c i (fq_current (fs_queue s4 c i))" using nx by (simp add: qi)
  qed (use fe fa in simp_all)
  moreover have "rt_ok s4 q4 (r c) c (A c)" by (rule rt_ok_cong [OF rt]) (simp_all add: e4 q4_def q2_def)
  ultimately have "runq_ok s4 q4 (r c) c (A c)" using run by (simp add: runq_ok_def e4)
  then have ok4: "runqs_ok C s4 q4 r A"
  proof (rule runqs_ok_step [OF ok(1) c, where t = t, rotated])
    show "links_ok (sy_links s4) C q4" using en(2) by (simp add: e4 q4_def)
    show "same_runq s s4 c' \<and> same_lists q q4 c' \<and> r c' = r c' \<and> A c' = A c'" if "c' \<in> C" "c' \<noteq> c" for c'
      using that en(3) d(3) by (simp add: same_runq_def same_lists_def same_groups_def e4 q4_def q2_def fun_eq_iff)
    show "same_sched s s4 u" if "u \<noteq> t" for u using that by (simp add: same_sched_def e4)
    show "t \<notin> A c'" if "c' \<in> C" "c' \<noteq> c" for c' using runqs_okD(5) [OF ok(1) c that(1) tA(1)] that(2) by auto
    show "t \<notin> A c \<Longrightarrow> fs_entity s4 t \<and> fd_fs_runq (fsd s4 t) = None" using tA(1) by simp
  qed simp
  have "quiet s s4" by (simp add: quiet_def s4_def s3_def s2_def)
  then have "fs_step c t s q s4 q4" by (simp add: fs_step_def same_sched_def e4 fs_queue_def fun_eq_iff) (simp add: s4_def s3_def s2_def q4_def q2_def w_def)
  moreover have "works_ok s4 {}" using ok(2) kw by (auto simp: works_ok_def s4_def s3_def s2_def)
  moreover have "rq_fs_expired (rq s2 c) = (\<not> i)" "rq_fs_round (rq s2 c) = R" using fs_okD(1) [OF fs] by (simp_all add: s2_def R_def i_def)
  moreover have "q_thr q4 c i = remove1 t (q_thr q c i)" "q_thr q4 c (\<not> i) = q_thr q c (\<not> i) @ [t]" by (simp_all add: q4_def q2_def)
  moreover have "fd_work (fsd s4 t) = k - w" by (simp add: s4_def)
  moreover have "thread_sched_fs_dequeue t s = Some s2" using d(1) by (simp add: s2_def)
  moreover have "thread_sched_fs_enqueue c (\<not> i) (R + 1) t
        (set_fs t ((fsd s2 t)\<lparr>fd_round := fd_round (fsd s2 t) + 1, fd_work := fd_work (fsd s2 t) - fd_weight (fsd s2 t)\<rparr>) s2) = Some s4"
    using en(1) by (simp add: s4_def flip: s3')
  ultimately show ?thesis using ok4 unfolding i_def [symmetric] R_def [symmetric] w_def [symmetric] k_def [symmetric]
    by (intro exI [of _ s2] exI [of _ s4] exI [of _ q4] conjI)
qed

end
