(* ===== verification/Sched_Run.thy ===== *)
theory Sched_Run
  imports Sched_Move
begin

text \<open>
  A fair-scheduling thread leaves the list of its group to run and goes back to it. The group served
  next is read from the links of the current group, which may have left the list: its links still lead
  to a listed group or to the head.
\<close>

unbundle bit_operations_syntax

section \<open>Running a fair-scheduling thread\<close>

text \<open>What is kept: only the current group of the queue changes.\<close>

definition fs_run_step :: "sched \<Rightarrow> sched \<Rightarrow> bool" where
  "fs_run_step s s' \<longleftrightarrow> quiet s s' \<and> (\<forall>u. same_sched s s' u) \<and> sy_fs_highest_round s' = sy_fs_highest_round s
     \<and> (\<forall>c. rq_fs_round (rq s' c) = rq_fs_round (rq s c) \<and> rq_fs_active (rq s' c) = rq_fs_active (rq s c)
          \<and> (\<forall>i. fq_nr_threads (fs_queue s' c i) = fq_nr_threads (fs_queue s c i)))"

lemma fs_run_change:
  assumes ok: "runqs_ok C s q r A" and c: "c \<in> C" and i: "i = rq_fs_active (rq s c)" and t: "t \<in> set (q_thr q c i)"
    and h': "links_ok h' C (set_grp c i (pri s t) xs q)" "same_groups (sy_links s) h' {}"
    and xs: "set xs = {u \<in> set (q_thr q c i). pri s u = pri s t \<and> r' \<noteq> Some u}"
    and r': "r c = None \<or> r c = Some t" "r' = None \<or> r' = Some t"
    and k: "r' = Some t \<Longrightarrow> k \<in> set (q_groups q c i)" "next_ok (sy_links s) q c i k"
    and s': "s' = set_fs_queue c i ((fs_queue s c i)\<lparr>fq_current := k\<rparr>) (s\<lparr>sy_links := h'\<rparr>)"
  shows "runqs_ok C s' (set_grp c i (pri s t) xs q) (r(c := r')) A" "fs_run_step s s'"
proof -
  note fs = runqs_okD(4) [OF ok c] and rt = runqs_okD(3) [OF ok c] and run = runqs_okD(2) [OF ok c]
  let ?q = "set_grp c i (pri s t) xs q"
  have tA: "t \<in> A c" "cls s t = THREAD_SCHED_CLASS_FS" using fs_okD(4,5) [OF fs t] by simp_all
  have e: "cls s' u = cls s u" "pri s' u = pri s u" "fsd s' u = fsd s u" "sy_links s' = h'" "rq_fs_active (rq s' c') = rq_fs_active (rq s c')"
    "rq_fs_round (rq s' c') = rq_fs_round (rq s c')" "rq_fs_weight (rq s' c') = rq_fs_weight (rq s c')" "rq_rt_bitmap (rq s' c') = rq_rt_bitmap (rq s c')"
    "rq_fs_expired (rq s' c') = rq_fs_expired (rq s c')" "c' \<noteq> c \<Longrightarrow> rq s' c' = rq s c'" for u c' by (simp_all add: s')
  have qf: "fq_weight (fs_queue s' c j) = fq_weight (fs_queue s c j)" "fq_current (fs_queue s' c i) = k" for j by (cases "j = i"; simp add: s')+
  have run': "fsq_ok s' ?q r' c j rnd" if f: "fsq_ok s q (r c) c j rnd" for j rnd
  proof -
    have "fsq_ok (s\<lparr>sy_links := h'\<rparr>) q (r c) c j rnd" by (rule fsq_ok_cong [OF _ _ _ _ _ f]) simp_all
    from fsq_ok_cur [OF this, of i k] have f1: "fsq_ok s' q (r c) c j rnd" by (simp add: s')
    have "set (q_grp ?q c j g) = {u \<in> set (q_thr q c j). pri s u = g \<and> r' \<noteq> Some u}" if g: "g \<le> THREAD_SCHED_FS_PRIO_MAX" for g
    proof (cases "j = i \<and> g = pri s t")
      case True
      then show ?thesis using xs by simp
    next
      case False
      then have "r' \<noteq> Some u \<longleftrightarrow> r c \<noteq> Some u" if "u \<in> set (q_thr q c j)" "pri s u = g" for u
        using that r' fsq_member(3) [OF fs t] by (cases "u = t"; cases i; cases j) auto
      then have "{u \<in> set (q_thr q c j). pri s u = g \<and> r' \<noteq> Some u} = {u \<in> set (q_thr q c j). pri s u = g \<and> r c \<noteq> Some u}" by blast
      moreover have "q_grp ?q c j g = q_grp q c j g" using False by auto
      ultimately show ?thesis using fsq_okD(4) [OF f g] by simp
    qed
    then show ?thesis using f1 unfolding fsq_ok_def e by simp
  qed
  have "fs_ok s' ?q r' c (A c)"
    unfolding fs_ok_def e i [symmetric] qf
  proof (intro conjI)
    show "fsq_ok s' ?q r' c i (rq_fs_round (rq s c))" "fsq_ok s' ?q r' c (\<not> i) (rq_fs_round (rq s c) + 1)"
      using fs_okD(2,3) [OF fs] run' i by simp_all
    show "\<forall>u. r' = Some u \<and> cls s u = THREAD_SCHED_CLASS_FS \<longrightarrow> u \<in> set (q_thr ?q c i) \<and> k \<in> set (q_groups ?q c i)"
      using r'(2) t k(1) by auto
    show "q_groups ?q c i \<noteq> [] \<longrightarrow> next_ok h' ?q c i k" using k(2) h'(2) by (simp add: next_ok_def list_next_def same_groups_def)
  qed (use fs i in \<open>simp_all add: fs_ok_def\<close>)
  moreover have "rt_ok s' ?q r' c (A c)"
    by (rule rt_ok_cong [OF rt]) (use r' tA(2) in \<open>auto simp: e THREAD_SCHED_CLASS_RT_def THREAD_SCHED_CLASS_FS_def\<close>)
  ultimately have "runq_ok s' ?q r' c (A c)" using run r'(2) tA(1) by (auto simp: runq_ok_def e)
  then show "runqs_ok C s' ?q (r(c := r')) A"
  proof (intro runqs_ok_step [OF ok c, where t = t])
    show "links_ok (sy_links s') C ?q" using h'(1) by (simp add: e)
    show "same_runq s s' c' \<and> same_lists q ?q c' \<and> (r(c := r')) c' = r c' \<and> A c' = A c'" if "c' \<in> C" "c' \<noteq> c" for c'
      using that h'(2) by (simp add: same_runq_def same_lists_def same_groups_def e fun_eq_iff)
    show "same_sched s s' u" for u by (simp add: same_sched_def e)
    show "t \<notin> A c'" if "c' \<in> C" "c' \<noteq> c" for c' using runqs_okD(5) [OF ok c that(1) tA(1)] that(2) by auto
  qed (use tA(1) in simp_all)
  show "fs_run_step s s'" by (simp add: fs_run_step_def quiet_def same_sched_def e) (simp add: s')
qed

lemma fs_run_moved: "fs_run_step s s' \<Longrightarrow> moved s s'"
  by (simp add: moved_def fs_run_step_def quietD)

lemma runq_same_cur [simp]: "(fs_queue s c i)\<lparr>fq_current := fq_current (fs_queue s c i)\<rparr> = fs_queue s c i"
  by simp

lemma set_queue_links [simp]: "set_fs_queue c i (fs_queue s c i) (s\<lparr>sy_links := h\<rparr>) = s\<lparr>sy_links := h\<rparr>"
  by (simp add: set_fs_queue_def set_runq_def fs_queue_def)

text \<open>The running thread goes back to the list of its group.\<close>

lemma fs_put_back:
  assumes ok: "runqs_ok C s q r A" and c: "c \<in> C" and t: "r c = Some t" "cls s t = THREAD_SCHED_CLASS_FS"
  defines "i \<equiv> rq_fs_active (rq s c)"
  shows "\<exists>s' q'. on_links (list_insert_tail (Fs_group_threads c i (pri s t)) (Fs_group_node t)) s = Some s'
    \<and> runqs_ok C s' q' (r(c := None)) A \<and> fs_run_step s s' \<and> q_thr q' = q_thr q \<and> q_groups q' = q_groups q \<and> fs_queue s' = fs_queue s"
proof -
  note l = runqs_okD(1) [OF ok] and fs = runqs_okD(4) [OF ok c]
  have ti: "t \<in> set (q_thr q c i)" "fs_cur s c \<in> set (q_groups q c i)" using fs_okD(8,9) [OF fs t] by (simp_all add: i_def)
  have g: "pri s t \<le> THREAD_SCHED_FS_PRIO_MAX" using fsq_member(2) [OF fs ti(1)] by (simp add: fs_entity_def)
  have free: "t \<notin> set (q_grp q c' j p)" if m: "c' \<in> C" "p \<le> THREAD_SCHED_FS_PRIO_MAX" for c' j p
  proof -
    obtain rj where rj: "fsq_ok s q (r c') c' j rj" using fs_okD(11) [OF runqs_okD(4) [OF ok m(1)]] by blast
    show ?thesis
    proof (cases "c' = c")
      case False
      then have "t \<notin> set (q_thr q c' j)"
        using fs_okD(4) [OF runqs_okD(4) [OF ok m(1)], of t j] runqs_okD(5) [OF ok c m(1), of t] fs_okD(4) [OF fs ti(1)] by auto
      then show ?thesis using fsq_okD(4) [OF rj m(2)] by auto
    qed (use fsq_okD(4) [OF rj m(2)] t(1) in auto)
  qed
  obtain h' where h': "list_insert_tail (Fs_group_threads c i (pri s t)) (Fs_group_node t) (sy_links s) = Some h'"
    "links_ok h' C (set_grp c i (pri s t) (q_grp q c i (pri s t) @ [t]) q)" "same_groups (sy_links s) h' {}"
    using grp_insert(1) [OF l c g] free by blast
  have xs: "set (q_grp q c i (pri s t) @ [t]) = {u \<in> set (q_thr q c i). pri s u = pri s t \<and> None \<noteq> Some u}"
    using fsq_okD(4) [OF fs_okD(2) [OF fs] g] t(1) ti(1) by (auto simp: i_def)
  have nx: "next_ok (sy_links s) q c i (fs_cur s c)" by (rule listed_next_ok [OF l c ti(2)])
  define s' where "s' = s\<lparr>sy_links := h'\<rparr>"
  have s': "s' = set_fs_queue c i ((fs_queue s c i)\<lparr>fq_current := fs_cur s c\<rparr>) (s\<lparr>sy_links := h'\<rparr>)" by (simp add: s'_def flip: i_def)
  have "runqs_ok C s' (set_grp c i (pri s t) (q_grp q c i (pri s t) @ [t]) q) (r(c := None)) A" "fs_run_step s s'"
    using fs_run_change [OF ok c i_def [THEN meta_eq_to_obj_eq] ti(1) h'(2,3) xs _ _ _ nx s'] t(1) by simp_all
  then show ?thesis using h'(1) by (intro exI [of _ s']) (auto simp: on_links_def s'_def set_grp_def)
qed

text \<open>A thread leaves the list of its group to run.\<close>

lemma fs_take:
  assumes ok: "runqs_ok C s q r A" and c: "c \<in> C" and r: "r c = None"
  defines "i \<equiv> rq_fs_active (rq s c)"
  assumes t: "t \<in> set (q_thr q c i)" and k: "k \<in> set (q_groups q c i)"
  shows "\<exists>s' q'. on_links (list_remove (Fs_group_node t)) (set_fs_queue c i ((fs_queue s c i)\<lparr>fq_current := k\<rparr>) s) = Some s'
    \<and> runqs_ok C s' q' (r(c := Some t)) A \<and> fs_run_step s s' \<and> q_thr q' = q_thr q"
proof -
  note l = runqs_okD(1) [OF ok] and fs = runqs_okD(4) [OF ok c]
  have g: "pri s t \<le> THREAD_SCHED_FS_PRIO_MAX" using fsq_member(2) [OF fs t] by (simp add: fs_entity_def)
  have grp: "set (q_grp q c i (pri s t)) = {u \<in> set (q_thr q c i). pri s u = pri s t}"
    using fsq_okD(4) [OF fs_okD(2) [OF fs] g] r by (simp add: i_def)
  then obtain h' where h': "list_remove (Fs_group_node t) (sy_links s) = Some h'"
    "links_ok h' C (set_grp c i (pri s t) (remove1 t (q_grp q c i (pri s t))) q)" "same_groups (sy_links s) h' {}"
    using grp_unlink [OF l c g] t by blast
  have xs: "set (remove1 t (q_grp q c i (pri s t))) = {u \<in> set (q_thr q c i). pri s u = pri s t \<and> Some t \<noteq> Some u}"
    using grp links_fs(3) [OF l c g, of i] by (auto simp: set_remove1_eq)
  have nx: "next_ok (sy_links s) q c i k" by (rule listed_next_ok [OF l c k])
  define s' where s': "s' = set_fs_queue c i ((fs_queue s c i)\<lparr>fq_current := k\<rparr>) (s\<lparr>sy_links := h'\<rparr>)"
  have "runqs_ok C s' (set_grp c i (pri s t) (remove1 t (q_grp q c i (pri s t))) q) (r(c := Some t)) A" "fs_run_step s s'"
    using fs_run_change [OF ok c i_def [THEN meta_eq_to_obj_eq] t h'(2,3) xs _ _ k nx s'] r by simp_all
  then show ?thesis using h'(1) by (intro exI [of _ s']) (auto simp: on_links_def s' set_grp_def)
qed

text \<open>The group served next is a group of the active queue.\<close>

lemma fs_next_group_ok:
  assumes ok: "runqs_ok C s q r A" and c: "c \<in> C" and ne: "q_groups q c (rq_fs_active (rq s c)) \<noteq> []"
  shows "\<exists>g. fs_next_group c s = Some g \<and> g \<in> set (q_groups q c (rq_fs_active (rq s c)))"
proof -
  define i where "i = rq_fs_active (rq s c)"
  note l = runqs_okD(1) [OF ok] and fs = runqs_okD(4) [OF ok c]
  obtain n where n: "list_next (Fs_group c i (fs_cur s c)) (sy_links s) = Some n" "n \<in> insert (Fs_groups c i) (Fs_group c i ` set (q_groups q c i))"
    using fs_okD(10) [OF fs ne] by (auto simp: next_ok_def i_def)
  have first: "list_first (Fs_groups c i) (sy_links s) = Some (Fs_group c i (hd (q_groups q c i)))"
    using links_fs(4) [OF l c, of i] ne by (cases "q_groups q c i") (auto simp: i_def)
  have hd: "hd (q_groups q c i) \<in> set (q_groups q c i)" using ne by (simp add: i_def)
  show ?thesis
  proof (cases "n = Fs_groups c i")
    case True
    then show ?thesis using n(1) first hd by (simp add: fs_next_group_def list_end_def Let_def flip: i_def)
  next
    case False
    then obtain g where "n = Fs_group c i g" "g \<in> set (q_groups q c i)" using n(2) by auto
    then show ?thesis using n(1) first hd by (simp add: fs_next_group_def list_end_def Let_def flip: i_def)
  qed
qed

lemma fs_get_next_ok:
  assumes ok: "runqs_ok C s q r A" and c: "c \<in> C" and r: "r c = None"
  shows "q_thr q c (rq_fs_active (rq s c)) = [] \<and> thread_sched_fs_get_next c s = Some (None, s)
    \<or> (\<exists>t s' q'. thread_sched_fs_get_next c s = Some (Some t, s') \<and> t \<in> set (q_thr q c (rq_fs_active (rq s c)))
         \<and> runqs_ok C s' q' (r(c := Some t)) A \<and> fs_run_step s s')"
proof -
  define i where "i = rq_fs_active (rq s c)"
  note l = runqs_okD(1) [OF ok] and fs = runqs_okD(4) [OF ok c] and run = runqs_okD(2) [OF ok c]
  have sub: "set (q_thr q c i) \<subseteq> {..<MAX_THREADS}" using fs_okD(4) [OF fs] run by (auto simp: runq_ok_def)
  have f: "fsq_ok s q (r c) c i (rq_fs_round (rq s c))" using fs_okD(2) [OF fs] by (simp add: i_def)
  have cnt: "fq_nr_threads (fs_queue s c i) = 0 \<longleftrightarrow> q_groups q c i = []" by (rule fsq_count [OF f sub])
  show ?thesis
  proof (cases "q_groups q c i = []")
    case True
    then show ?thesis using cnt fsq_okD(5) [OF f] by (auto simp: thread_sched_fs_get_next_def Let_def simp flip: i_def)
  next
    case False
    then obtain g where g: "fs_next_group c s = Some g" "g \<in> set (q_groups q c i)" using fs_next_group_ok [OF ok c] by (auto simp: i_def)
    have gm: "g \<le> THREAD_SCHED_FS_PRIO_MAX" using g(2) fsq_okD(1,5) [OF f] by (auto simp: fs_entity_def)
    have grp: "set (q_grp q c i g) = {u \<in> set (q_thr q c i). pri s u = g}" using fsq_okD(4) [OF f gm] r by simp
    have ne: "q_grp q c i g \<noteq> []" using grp g(2) fsq_okD(5) [OF f] by auto
    define t where "t = hd (q_grp q c i g)"
    have t: "t \<in> set (q_thr q c i)" using grp ne hd_in_set [OF ne] by (simp add: t_def)
    obtain s' q' where s': "on_links (list_remove (Fs_group_node t)) (set_fs_queue c i ((fs_queue s c i)\<lparr>fq_current := g\<rparr>) s) = Some s'"
      "runqs_ok C s' q' (r(c := Some t)) A" "fs_run_step s s'"
      using fs_take [OF ok c r t [unfolded i_def] g(2) [unfolded i_def]] unfolding i_def [symmetric] by blast
    have "thread_sched_fs_get_next c s = Some (Some t, s')"
      using False cnt g(1) s'(1) links_fs(6) [OF l c gm ne] by (simp add: thread_sched_fs_get_next_def Let_def t_def flip: i_def)
    then show ?thesis using s' t by (auto simp: i_def)
  qed
qed

end
