(* ===== verification/Sched_Put.thy ===== *)
theory Sched_Put
  imports Sched_Run
begin

text \<open>
  The operations on a run queue whatever the class of the thread: putting the previous thread back and
  removing a thread.
\<close>

unbundle bit_operations_syntax

section \<open>The previous thread\<close>

text \<open>What a thread may have done when its processor reschedules.\<close>

definition ran_ok :: "sched \<Rightarrow> nat \<Rightarrow> bool" where
  "ran_ok s t \<longleftrightarrow> (cls s t = THREAD_SCHED_CLASS_FS \<longrightarrow> unat (fd_work (fsd s t)) \<le> 2 * unat (fd_weight (fsd s t)))"

lemma member_active_count:
  assumes "runqs_ok C s q r A" "c \<in> C" "t \<in> set (q_thr q c (rq_fs_active (rq s c)))"
  shows "fq_nr_threads (fs_queue s c (rq_fs_active (rq s c))) \<noteq> 0"
proof -
  note fs = runqs_okD(4) [OF assms(1,2)] and run = runqs_okD(2) [OF assms(1,2)]
  have "set (q_thr q c (rq_fs_active (rq s c))) \<subseteq> {..<MAX_THREADS}" using fs_okD(4) [OF fs] run by (auto simp: runq_ok_def)
  from fsq_count [OF fs_okD(2) [OF fs] this] show ?thesis
    using fsq_okD(5) [OF fs_okD(2) [OF fs]] assms(3) by auto
qed

lemma fs_run_awake:
  assumes "fs_run_step s s'"
  shows "awake s' A c = awake s A c"
proof -
  have q: "quiet s s'" using assms by (simp add: fs_run_step_def)
  show ?thesis using assms by (simp add: awake_def fs_run_step_def quietD [OF q])
qed

lemma rt_step_awake:
  assumes "rt_step s s'"
  shows "awake s' A c = awake s A c"
proof -
  have q: "quiet s s'" using assms by (simp add: rt_step_def)
  show ?thesis using assms by (simp add: awake_def rt_step_def quietD [OF q])
qed

lemma fs_put_prev_ok:
  assumes ok: "runqs_ok C s q r A" "sys_ok C s A X n" "works_ok s {t}" "awake s A c" and c: "c \<in> C"
    and t: "r c = Some t" "cls s t = THREAD_SCHED_CLASS_FS" "ran_ok s t"
    and X: "\<forall>b. rq_balancer (rq s c) = Some b \<longrightarrow> b \<notin> X"
  shows "\<exists>s' q' A'. thread_sched_fs_put_prev c t s = Some s' \<and> runqs_ok C s' q' (r(c := None)) A' \<and> sys_ok C s' A' X n
    \<and> works_ok s' {} \<and> moved s s' \<and> woken c s A s' A' \<and> awake s' A' c"
proof -
  note fs = runqs_okD(4) [OF ok(1) c]
  define i where "i = rq_fs_active (rq s c)"
  have ti: "t \<in> set (q_thr q c i)" "fs_cur s c \<in> set (q_groups q c i)" using fs_okD(8,9) [OF fs t(1,2)] by (simp_all add: i_def)
  have g: "pri s t \<le> THREAD_SCHED_FS_PRIO_MAX" using fsq_member(2) [OF fs ti(1)] by (simp add: fs_entity_def)
  obtain s1 q1 where s1: "on_links (list_insert_tail (Fs_group_threads c i (pri s t)) (Fs_group_node t)) s = Some s1"
    "runqs_ok C s1 q1 (r(c := None)) A" "fs_run_step s s1" "q_thr q1 = q_thr q" "q_groups q1 = q_groups q" "fs_queue s1 = fs_queue s"
    using fs_put_back [OF ok(1) c t(1,2)] unfolding i_def [symmetric] by blast
  have q1: "quiet s s1" and mv1: "moved s s1" and sm1: "same_sched s s1 u" for u
    using s1(3) fs_run_moved by (auto simp: fs_run_step_def)
  have e1: "rq_fs_active (rq s1 c) = i" "rq_fs_round (rq s1 c) = rq_fs_round (rq s c)" "fsd s1 u = fsd s u" "cls s1 u = cls s u" for u
    using s1(3) sm1 [of u] by (simp_all add: fs_run_step_def same_sched_def i_def)
  have sys1: "sys_ok C s1 A X n" by (rule sys_ok_quiet [OF ok(2) q1])
  have fq1: "\<forall>c'. c' \<noteq> c \<longrightarrow> fs_queue s1 c' = fs_queue s c'" by (simp add: s1(6))
  show ?thesis
  proof (cases "fd_work (fsd s t) \<ge> fd_weight (fsd s t)")
    case False
    have "thread_sched_fs_put_prev c t s = Some s1"
      using g s1(1) False by (simp add: thread_sched_fs_put_prev_def e1 flip: i_def)
    moreover have "works_ok s1 {}" using ok(3) False by (auto simp: works_ok_def e1)
    ultimately show ?thesis using s1(2) sys1 mv1 quiet_woken [OF q1 fq1 woken_refl] fs_run_awake [OF s1(3)] ok(4) by blast
  next
    case True
    have w: "works_ok s1 {t}" using ok(3) by (simp add: works_ok_def e1)
    have b: "unat (fd_weight (fsd s1 t)) \<le> unat (fd_work (fsd s1 t))" "unat (fd_work (fsd s1 t)) \<le> 2 * unat (fd_weight (fsd s1 t))"
      using True t(2,3) by (simp_all add: e1 word_le_nat_alt ran_ok_def)
    have ti1: "t \<in> set (q_thr q1 c (rq_fs_active (rq s1 c)))" "fs_cur s1 c \<in> set (q_groups q1 c (rq_fs_active (rq s1 c)))"
      using ti by (simp_all add: e1 s1(4-6) i_def)
    obtain s2 s4 q4 where m: "thread_sched_fs_dequeue t s1 = Some s2"
      "thread_sched_fs_enqueue c (\<not> rq_fs_active (rq s1 c)) (rq_fs_round (rq s1 c) + 1) t
        (set_fs t ((fsd s2 t)\<lparr>fd_round := fd_round (fsd s2 t) + 1, fd_work := fd_work (fsd s2 t) - fd_weight (fsd s2 t)\<rparr>) s2) = Some s4"
      "runqs_ok C s4 q4 (r(c := None)) A" "works_ok s4 {}" "fs_step c t s1 q1 s4 q4"
      "rq_fs_expired (rq s2 c) = (\<not> rq_fs_active (rq s1 c))" "rq_fs_round (rq s2 c) = rq_fs_round (rq s1 c)"
      using fs_move_core [OF s1(2) w c _ ti1(1) b ti1(2)] by (auto simp del: not_None_eq)
    have a1: "fd_fs_runq (fsd s1 t) = Some (c, i)" "fd_round (fsd s1 t) = rq_fs_round (rq s1 c)"
      using fsq_okD(2,3) [OF fs_okD(2) [OF runqs_okD(4) [OF s1(2) c]] ti1(1)] by (simp_all add: e1)
    have mv4: "moved s1 s4" by (rule moved_steps(2) [OF m(5)])
    have act4: "rq_fs_active (rq s4 c) = i" using m(5) by (simp add: fs_step_def e1)
    have "thread_sched_fs_put_prev c t s = thread_sched_fs_deactivate c t s1"
      using g s1(1) True by (simp add: thread_sched_fs_put_prev_def e1 flip: i_def)
    also have "\<dots> = (if fq_nr_threads (fs_queue s4 c i) = 0 then thread_runq_wakeup_balancer c s4 else Some s4)"
      using a1 m(1,2) by (simp add: thread_sched_fs_deactivate_def e1 m(6,7) Let_def act4)
    finally have out: "thread_sched_fs_put_prev c t s = (if fq_nr_threads (fs_queue s4 c i) = 0 then thread_runq_wakeup_balancer c s4 else Some s4)" .
    have q4: "quiet s s4" using quiet_trans [OF q1] m(5) by (simp add: fs_step_def)
    have sys4: "sys_ok C s4 A X n" by (rule sys_ok_quiet [OF ok(2) q4])
    have fq4: "\<forall>c'. c' \<noteq> c \<longrightarrow> fs_queue s4 c' = fs_queue s c'" using m(5) fq1 by (simp add: fs_step_def)
    show ?thesis
    proof (cases "fq_nr_threads (fs_queue s4 c i) = 0")
      case False
      then have "awake s4 A c" by (simp add: awake_def act4)
      then show ?thesis using False out m(3,4) sys4 moved_trans [OF mv1 mv4] quiet_woken [OF q4 fq4 woken_refl] by auto
    next
      case True
      obtain s' q' A' where s': "thread_runq_wakeup_balancer c s4 = Some s'" "runqs_ok C s' q' (r(c := None)) A'" "sys_ok C s' A' X n"
        "works_ok s' {}" "moved s4 s'" "woken c s4 A s' A'" "\<exists>b. rq_balancer (rq s4 c) = Some b \<and> b \<in> A' c"
        using wakeup_balancer_ok [OF m(3) sys4 m(4) c] X quietD(8) [OF q4] by auto
      have "awake s' A' c" using s'(5,7) by (auto simp: awake_def moved_def)
      then show ?thesis using True out s' moved_trans [OF mv1 moved_trans [OF mv4 s'(5)]] quiet_woken [OF q4 fq4 s'(6)] by auto
    qed
  qed
qed

lemma runq_put_prev_ok:
  assumes ok: "runqs_ok C s q r A" "sys_ok C s A X n" "works_ok s {t}" "awake s A c" and c: "c \<in> C"
    and t: "r c = Some t" "ran_ok s t"
    and X: "cls s t = THREAD_SCHED_CLASS_FS \<Longrightarrow> \<forall>b. rq_balancer (rq s c) = Some b \<longrightarrow> b \<notin> X"
  shows "\<exists>s' q' A'. thread_runq_put_prev c t s = Some s' \<and> runqs_ok C s' q' (r(c := None)) A' \<and> sys_ok C s' A' X n
    \<and> works_ok s' {} \<and> moved s s' \<and> woken c s A s' A' \<and> awake s' A' c
    \<and> th_state (th s' t) = th_state (th s t) \<and> th_in_runq (th s' t) = th_in_runq (th s t) \<and> th_runq (th s' t) = th_runq (th s t)
    \<and> (cls s t = THREAD_SCHED_CLASS_RT \<longrightarrow> A' = A \<and> fs_queue s' = fs_queue s)"
proof -
  have tA: "t \<in> A c" "cls s t = THREAD_SCHED_CLASS_RT \<or> cls s t = THREAD_SCHED_CLASS_FS" "t < MAX_THREADS"
    using runqs_okD(2) [OF ok(1) c] t(1) by (auto simp: runq_ok_def)
  show ?thesis
  proof (cases "cls s t = THREAD_SCHED_CLASS_RT")
    case True
    have p: "pri s t \<le> THREAD_SCHED_RT_PRIO_MAX" using runqs_okD(3) [OF ok(1) c] tA(1) True by (simp add: rt_ok_def)
    obtain s' q' where s': "thread_sched_rt_add c t s = Some s'" "runqs_ok C s' q' (r(c := None)) A" "rt_step s s'"
      using rt_add_ok [OF ok(1) c True p tA(3) disjI2 [OF t(1)]] t(1) tA(1) by (auto simp: insert_absorb)
    have q': "quiet s s'" "\<forall>c'. c' \<noteq> c \<longrightarrow> fs_queue s' c' = fs_queue s c'" using s'(3) by (simp_all add: rt_step_def)
    have "works_ok s' {}" using ok(3) s'(3) True by (auto simp: works_ok_def rt_step_def same_sched_def THREAD_SCHED_CLASS_RT_def THREAD_SCHED_CLASS_FS_def)
    moreover have "thread_runq_put_prev c t s = Some s'"
      using True s'(1) by (simp add: thread_runq_put_prev_def thread_sched_rt_put_prev_def)
    ultimately show ?thesis
      using s'(2) sys_ok_quiet [OF ok(2) q'(1)] moved_steps(1) [OF s'(3)] quiet_woken [OF q' woken_refl] rt_step_awake [OF s'(3)] ok(4) quietD(3-5) [OF q'(1)] s'(3)
      unfolding rt_step_def by blast
  next
    case False
    then have f: "cls s t = THREAD_SCHED_CLASS_FS" using tA(2) by simp
    have "thread_runq_put_prev c t s = thread_sched_fs_put_prev c t s"
      using f by (simp add: thread_runq_put_prev_def THREAD_SCHED_CLASS_RT_def THREAD_SCHED_CLASS_FS_def)
    then obtain s' q' A' where s': "thread_runq_put_prev c t s = Some s'" "runqs_ok C s' q' (r(c := None)) A'" "sys_ok C s' A' X n"
      "works_ok s' {}" "moved s s'" "woken c s A s' A'" "awake s' A' c"
      using fs_put_prev_ok [OF ok c t(1) f t(2) X [OF f]] by auto
    have "rq_balancer (rq s c) \<noteq> Some t"
      using ok(2) c f by (auto simp: sys_ok_def balancer_ok_def THREAD_SCHED_CLASS_RT_def THREAD_SCHED_CLASS_FS_def)
    then show ?thesis using s' f by (intro exI [of _ s'] exI [of _ q'] exI [of _ A']) (simp add: woken_def THREAD_SCHED_CLASS_RT_def THREAD_SCHED_CLASS_FS_def)
  qed
qed

section \<open>Leaving a run queue\<close>

definition elsewhere :: "nat \<Rightarrow> sched \<Rightarrow> (nat \<Rightarrow> nat set) \<Rightarrow> sched \<Rightarrow> (nat \<Rightarrow> nat set) \<Rightarrow> bool" where
  "elsewhere c s A s' A' \<longleftrightarrow> (\<forall>c'. c' \<noteq> c \<longrightarrow> A' c' = A c' \<and> fs_queue s' c' = fs_queue s c')"

lemma elsewhere_refl [simp]: "elsewhere c s A s A" by (simp add: elsewhere_def)

lemma elsewhere_trans: "elsewhere c s A s' A' \<Longrightarrow> elsewhere c s' A' s'' A'' \<Longrightarrow> elsewhere c s A s'' A''"
  by (simp add: elsewhere_def)

lemma woken_elsewhere: "woken c s A s' A' \<Longrightarrow> elsewhere c s A s' A'"
  by (auto simp: woken_def elsewhere_def)

lemma elsewhere_awake:
  assumes "elsewhere c s A s' A'" "moved s s'" "awake s A c'" "c' \<noteq> c"
  shows "awake s' A' c'"
  using assms by (simp add: elsewhere_def awake_def moved_def)

lemma class_remove_ok:
  assumes ok: "runqs_ok C s q r A" "sys_ok C s A X n" "works_ok s {}" and c: "c \<in> C"
    and t: "t \<in> A c" "r c \<noteq> Some t" "t \<in> X"
    and X: "cls s t = THREAD_SCHED_CLASS_FS \<longrightarrow> (\<forall>b. rq_balancer (rq s c) = Some b \<longrightarrow> b \<notin> X)"
  shows "\<exists>s' q' A'. (if cls s t = THREAD_SCHED_CLASS_RT then thread_sched_rt_remove c t s
       else if cls s t = THREAD_SCHED_CLASS_FS then thread_sched_fs_remove c t s
       else if cls s t = THREAD_SCHED_CLASS_IDLE then thread_sched_idle_remove c t s else None) = Some s'
    \<and> runqs_ok C s' q' r A' \<and> sys_ok C s' A' X (n(c := n c + 1)) \<and> works_ok s' {} \<and> moved s s' \<and> woken c s (A(c := A c - {t})) s' A'
    \<and> t \<notin> A' c \<and> (rq_balancer (rq s c) \<noteq> Some t \<and> awake s A c \<longrightarrow> awake s' A' c) \<and> th_state (th s' t) = th_state (th s t)
    \<and> (cls s t = THREAD_SCHED_CLASS_RT \<longrightarrow> A' = A(c := A c - {t}) \<and> fs_queue s' = fs_queue s)"
proof -
  have cl: "cls s t = THREAD_SCHED_CLASS_RT \<or> cls s t = THREAD_SCHED_CLASS_FS"
    using runqs_okD(2) [OF ok(1) c] t(1) by (auto simp: runq_ok_def)
  show ?thesis
  proof (cases "cls s t = THREAD_SCHED_CLASS_RT")
    case True
    obtain s' q' where s': "thread_sched_rt_remove c t s = Some s'" "runqs_ok C s' q' r (A(c := A c - {t}))" "rt_step s s'"
      using rt_remove_ok [OF ok(1) c t(1) True t(2), of False] by auto
    have q': "quiet s s'" "\<forall>c'. c' \<noteq> c \<longrightarrow> fs_queue s' c' = fs_queue s c'" using s'(3) by (simp_all add: rt_step_def)
    have mv: "moved s s'" by (rule moved_steps(1) [OF s'(3)])
    have "works_ok s' {}" using ok(3) s'(3) by (auto simp: works_ok_def rt_step_def same_sched_def)
    moreover have "sys_ok C s' (A(c := A c - {t})) X (n(c := n c + 1))"
      by (rule sys_ok_leave [OF ok(2) c t(1,3) runqs_okD(6) [OF ok(1) c] q'(1) mv])
    moreover have "rq_balancer (rq s c) \<noteq> Some t \<and> awake s A c \<longrightarrow> awake s (A(c := A c - {t})) c" by (auto simp: awake_def)
    ultimately show ?thesis using s'(1,2) True mv quiet_woken [OF q' woken_refl] rt_step_awake [OF s'(3)] quietD(5) [OF q'(1)] s'(3) [unfolded rt_step_def]
      by (intro exI [of _ s'] exI [of _ q'] exI [of _ "A(c := A c - {t})"]) simp
  next
    case False
    then have f: "cls s t = THREAD_SCHED_CLASS_FS" using cl by simp
    obtain s' q' A' where s': "thread_sched_fs_remove c t s = Some s'" "runqs_ok C s' q' r A'" "sys_ok C s' A' X (n(c := n c + 1))"
      "works_ok s' {}" "moved s s'" "woken c s (A(c := A c - {t})) s' A'" "awake s A c \<longrightarrow> awake s' A' c"
      using fs_remove_ok [OF ok c t(1) f t(2,3)] X f by auto
    have "rq_balancer (rq s c) \<noteq> Some t"
      using ok(2) c f by (auto simp: sys_ok_def balancer_ok_def THREAD_SCHED_CLASS_RT_def THREAD_SCHED_CLASS_FS_def)
    then show ?thesis using s' False f by (intro exI [of _ s'] exI [of _ q'] exI [of _ A']) (auto simp: woken_def)
  qed
qed

lemma runq_remove_ok:
  assumes ok: "runqs_ok C s q r A" "sys_ok C s A X n" "works_ok s {}" and c: "c \<in> C"
    and t: "t \<in> A c" "r c \<noteq> Some t" "t \<in> X" "th_in_runq (th s t)"
    and X: "cls s t = THREAD_SCHED_CLASS_FS \<longrightarrow> (\<forall>b. rq_balancer (rq s c) = Some b \<longrightarrow> b \<notin> X)"
  shows "\<exists>s' q' A'. thread_runq_remove c t s = Some s' \<and> runqs_ok C s' q' r A' \<and> sys_ok C s' A' X n \<and> works_ok s' {} \<and> moved s s'
    \<and> elsewhere c s A s' A' \<and> \<not> th_in_runq (th s' t) \<and> (\<forall>c\<in>C. t \<notin> A' c) \<and> (rq_balancer (rq s c) \<noteq> Some t \<and> awake s A c \<longrightarrow> awake s' A' c)
    \<and> th_state (th s' t) = th_state (th s t) \<and> (cls s t = THREAD_SCHED_CLASS_RT \<longrightarrow> A' = A(c := A c - {t}) \<and> fs_queue s' = fs_queue s)"
proof -
  define s1 where "s1 = set_runq c ((rq s c)\<lparr>rq_nr_threads := rq_nr_threads (rq s c) - 1\<rparr>) s"
  define s2 where "s2 = (if rq_nr_threads (rq s1 c) = 0 then s1\<lparr>sy_idle_runqs := (sy_idle_runqs s1)(c := True)\<rparr> else s1)"
  have e2: "th s2 = th s" "sy_links s2 = sy_links s" "rq s2 = (rq s)(c := (rq s c)\<lparr>rq_nr_threads := rq_nr_threads (rq s c) - 1\<rparr>)"
    "sy_fs_highest_round s2 = sy_fs_highest_round s" by (auto simp: s2_def s1_def)
  have fq2: "fs_queue s2 = fs_queue s" by (simp add: fs_queue_def e2 fun_eq_iff)
  have mv2: "moved s s2" by (simp add: moved_def e2)
  have r2: "runqs_ok C s2 q r A" by (rule runqs_ok_view [OF ok(1)]) (simp_all add: e2 same_runq_def same_sched_def)
  have k2: "sys_ok C s2 A X (n(c := n c - 1))"
    by (rule sys_ok_step [OF ok(2) mv2, where t = t]) (use ok(2) t(3) in \<open>auto simp: e2 sys_ok_def\<close>)
  have w2: "works_ok s2 {}" using ok(3) by (simp add: works_ok_def e2)
  have X2: "cls s2 t = THREAD_SCHED_CLASS_FS \<longrightarrow> (\<forall>b. rq_balancer (rq s2 c) = Some b \<longrightarrow> b \<notin> X)" using X by (simp add: e2)
  obtain s3 q3 A' where s3: "(if cls s2 t = THREAD_SCHED_CLASS_RT then thread_sched_rt_remove c t s2
       else if cls s2 t = THREAD_SCHED_CLASS_FS then thread_sched_fs_remove c t s2
       else if cls s2 t = THREAD_SCHED_CLASS_IDLE then thread_sched_idle_remove c t s2 else None) = Some s3"
    "runqs_ok C s3 q3 r A'" "sys_ok C s3 A' X ((n(c := n c - 1))(c := (n(c := n c - 1)) c + 1))" "works_ok s3 {}" "moved s2 s3" "woken c s2 (A(c := A c - {t})) s3 A'"
    "t \<notin> A' c" "rq_balancer (rq s2 c) \<noteq> Some t \<and> awake s2 A c \<longrightarrow> awake s3 A' c" "th_state (th s3 t) = th_state (th s2 t)"
    "cls s2 t = THREAD_SCHED_CLASS_RT \<longrightarrow> A' = A(c := A c - {t}) \<and> fs_queue s3 = fs_queue s2"
    using class_remove_ok [OF r2 k2 w2 c t(1-3) X2] by (elim exE conjE)
  define s4 where "s4 = set_thread t ((th s3 t)\<lparr>th_in_runq := False\<rparr>) s3"
  have n: "(n(c := n c - 1))(c := (n(c := n c - 1)) c + 1) = n" by (simp add: fun_eq_iff)
  have out: "thread_runq_remove c t s = Some s4"
    unfolding thread_runq_remove_def Let_def s1_def [symmetric] s2_def [symmetric] s3(1) using t(4) by (simp add: s4_def)
  have tn: "t \<notin> A' c'" if "c' \<in> C" for c'
  proof (cases "c' = c")
    case False
    then have "A' c' = A c'" using s3(6) by (auto simp: woken_def)
    then show ?thesis using runqs_okD(5) [OF ok(1) c that t(1)] False by auto
  qed (use s3(7) in simp)
  have sm: "same_sched s3 s4 u" "cls s4 u = cls s3 u" "pri s4 u = pri s3 u" "fsd s4 u = fsd s3 u" "rq s4 = rq s3" "sy_links s4 = sy_links s3"
    "th_state (th s4 u) = th_state (th s3 u)" "sy_fs_highest_round s4 = sy_fs_highest_round s3" for u
    by (simp_all add: s4_def same_sched_def)
  have "runqs_ok C s4 q3 r A'" by (rule runqs_ok_view [OF s3(2)]) (simp_all add: sm same_runq_def)
  moreover have mv4: "moved s3 s4" by (simp add: moved_def sm)
  moreover have "sys_ok C s4 A' X n"
    by (rule sys_ok_step [OF s3(3) [unfolded n] mv4, where t = t]) (use s3(3) [unfolded n] t(3) in \<open>auto simp: s4_def sys_ok_def\<close>)
  moreover have "works_ok s4 {}" using s3(4) by (simp add: works_ok_def sm)
  moreover have "elsewhere c s A s4 A'" using s3(6) by (auto simp: elsewhere_def woken_def fs_queue_def sm(5) e2 fun_eq_iff)
  moreover have "fs_queue s4 = fs_queue s3" by (simp add: fs_queue_def sm fun_eq_iff)
  moreover have "awake s4 A' c = awake s3 A' c" "awake s2 A c = awake s A c" by (simp_all add: awake_def fs_queue_def sm e2)
  ultimately show ?thesis using out tn s3(8,9,10) moved_trans [OF mv2 moved_trans [OF s3(5) mv4]]
    by (intro exI [of _ s4] exI [of _ q3] exI [of _ A']) (simp add: e2 fq2 sm s4_def)
qed

end
