(* ===== verification/Sched_Next.thy ===== *)
theory Sched_Next
  imports Sched_Put
begin

text \<open>
  Choosing the next thread, and a whole call of the scheduler: it returns, it keeps the invariant of the
  system at rest (\<open>rest_ok\<close>) and the thread it switches to is the one \<open>chosen\<close> describes.
\<close>

unbundle bit_operations_syntax

section \<open>The next thread\<close>

text \<open>The thread chosen: the first real-time thread of the highest priority, else a thread of the active
  fair-scheduling queue, else the idle thread, when there is no thread at all.\<close>

definition chosen :: "sched \<Rightarrow> queues \<Rightarrow> nat \<Rightarrow> nat set \<Rightarrow> nat \<Rightarrow> bool" where
  "chosen s q c A t \<longleftrightarrow>
     (if \<exists>u\<in>A. cls s u = THREAD_SCHED_CLASS_RT then rt_first s q c A t
      else if A \<noteq> {} then t \<in> set (q_thr q c (rq_fs_active (rq s c)))
      else rq_idler (rq s c) = Some t)"

lemma runqs_ok_current:
  assumes "runqs_ok C s q r A"
  shows "runqs_ok C (runq_set_current c t s) q r A"
  by (rule runqs_ok_view [OF assms]) (simp_all add: runq_set_current_def same_runq_def same_sched_def)

lemma current_select [simp]:
  "th (runq_set_current c t s) = th s" "fs_queue (runq_set_current c t s) = fs_queue s" "rq_current (rq (runq_set_current c t s) c) = t"
  "rq (runq_set_current c t s) c' = (if c' = c then (rq s c)\<lparr>rq_current := t\<rparr> else rq s c')"
  by (auto simp: runq_set_current_def fs_queue_def fun_eq_iff)

lemma sys_ok_current:
  assumes "sys_ok C s A X n"
  shows "sys_ok C (runq_set_current c t s) A X n"
proof -
  let ?s = "runq_set_current c t s"
  have e: "rq_nr_threads (rq ?s c') = rq_nr_threads (rq s c')" "rq_balancer (rq ?s c') = rq_balancer (rq s c')" "rq_idler (rq ?s c') = rq_idler (rq s c')" for c'
    by simp_all
  have "member_ok C ?s A u = member_ok C s A u" "balancer_ok ?s X c' u = balancer_ok s X c' u" for u c' by (simp_all add: member_ok_def balancer_ok_def)
  then show ?thesis using assms unfolding sys_ok_def e by simp
qed

lemma runq_get_next_ok:
  assumes ok: "runqs_ok C s q r A" "sys_ok C s A X n" "works_ok s {}" "awake s A c" and c: "c \<in> C" and r: "r c = None"
  shows "\<exists>t s1 q'. thread_runq_get_next c s = Some (t, runq_set_current c t s1) \<and> quiet s s1 \<and> moved s s1
    \<and> runqs_ok C s1 q' (r(c := if A c = {} then None else Some t)) A \<and> (A c \<noteq> {} \<longrightarrow> t \<in> A c) \<and> chosen s q c (A c) t
    \<and> works_ok s1 {} \<and> (\<forall>c'. awake s1 A c' = awake s A c')"
proof -
  note run = runqs_okD(2) [OF ok(1) c] and fs = runqs_okD(4) [OF ok(1) c]
  define i where "i = rq_fs_active (rq s c)"
  consider (rt) t s1 q' where "thread_sched_rt_get_next c s = Some (Some t, s1)" "rt_first s q c (A c) t" "runqs_ok C s1 q' (r(c := Some t)) A" "rt_step s s1"
    | (none) "\<forall>t\<in>A c. cls s t \<noteq> THREAD_SCHED_CLASS_RT" "thread_sched_rt_get_next c s = Some (None, s)"
    using rt_get_next_ok [OF ok(1) c r] by blast
  then show ?thesis
  proof cases
    case rt
    have t: "t \<in> A c" "cls s t = THREAD_SCHED_CLASS_RT" using rt(2) by (simp_all add: rt_first_def)
    have "thread_runq_get_next c s = Some (t, runq_set_current c t s1)" using rt(1) by (simp add: thread_runq_get_next_def)
    moreover have "chosen s q c (A c) t" using rt(2) t by (auto simp: chosen_def)
    moreover have "works_ok s1 {}" using ok(3) rt(4) by (simp add: works_ok_def rt_step_def same_sched_def)
    ultimately show ?thesis using rt(3,4) t(1) moved_steps(1) [OF rt(4)] rt_step_awake [OF rt(4)]
      by (intro exI [of _ t] exI [of _ s1] exI [of _ q']) (auto simp: rt_step_def)
  next
    case none
    have fsA: "cls s u = THREAD_SCHED_CLASS_FS" if "u \<in> A c" for u using none(1) run that by (auto simp: runq_ok_def)
    consider (fs) t s1 q' where "thread_sched_fs_get_next c s = Some (Some t, s1)" "t \<in> set (q_thr q c i)" "runqs_ok C s1 q' (r(c := Some t)) A" "fs_run_step s s1"
      | (empty) "q_thr q c i = []" "thread_sched_fs_get_next c s = Some (None, s)"
      using fs_get_next_ok [OF ok(1) c r] unfolding i_def by blast
    then show ?thesis
    proof cases
      case fs
      have t: "t \<in> A c" using fs_okD(4) [OF runqs_okD(4) [OF ok(1) c] fs(2)] .
      have "thread_runq_get_next c s = Some (t, runq_set_current c t s1)" using none(2) fs(1) by (simp add: thread_runq_get_next_def)
      moreover have "chosen s q c (A c) t" using none(1) t fs(2) by (auto simp: chosen_def i_def)
      moreover have "works_ok s1 {}" using ok(3) fs(4) by (simp add: works_ok_def fs_run_step_def same_sched_def)
      ultimately show ?thesis using fs(3,4) t fs_run_moved [OF fs(4)] fs_run_awake [OF fs(4)]
        by (intro exI [of _ t] exI [of _ s1] exI [of _ q']) (auto simp: fs_run_step_def)
    next
      case empty
      obtain d where d: "rq_idler (rq s c) = Some d" using ok(2) c by (auto simp: sys_ok_def)
      have "A c = {}"
      proof (rule ccontr)
        assume "A c \<noteq> {}"
        moreover have "fq_nr_threads (fs_queue s c i) = 0"
          using fsq_okD(7) [OF fs_okD(2) [OF fs]] empty(1) by (simp add: fs_acct_def i_def)
        ultimately obtain b where b: "rq_balancer (rq s c) = Some b" "b \<in> A c" using ok(4) fsA by (auto simp: awake_def i_def)
        then have "cls s b = THREAD_SCHED_CLASS_RT" using ok(2) c by (auto simp: sys_ok_def balancer_ok_def)
        then show False using none(1) b(2) by blast
      qed
      moreover have "thread_runq_get_next c s = Some (d, runq_set_current c d s)"
        using none(2) empty(2) d by (simp add: thread_runq_get_next_def thread_sched_idle_get_next_def)
      moreover have "r(c := None) = r" using r by auto
      ultimately show ?thesis using ok(1,3) d by (intro exI [of _ d] exI [of _ s] exI [of _ q]) (simp add: chosen_def)
    qed
  qed
qed

lemma runq_set_next_ok:
  assumes ok: "runqs_ok C s q r A" "works_ok s {}" and c: "c \<in> C" and r: "r c = None" and t: "t \<in> A c"
    and act: "cls s t = THREAD_SCHED_CLASS_FS \<longrightarrow> t \<in> set (q_thr q c (rq_fs_active (rq s c))) \<and> fs_cur s c \<in> set (q_groups q c (rq_fs_active (rq s c)))"
  shows "\<exists>s1 q'. thread_runq_set_next c t s = Some (runq_set_current c t s1) \<and> quiet s s1 \<and> moved s s1
    \<and> runqs_ok C s1 q' (r(c := Some t)) A \<and> works_ok s1 {} \<and> (\<forall>c'. awake s1 A c' = awake s A c')"
proof (cases "cls s t = THREAD_SCHED_CLASS_RT")
  case True
  obtain s1 q' where s1: "thread_sched_rt_remove c t s = Some s1" "runqs_ok C s1 q' (r(c := Some t)) A" "rt_step s s1"
    using rt_remove_ok [OF ok(1) c t True, of True] r by auto
  have "thread_runq_set_next c t s = Some (runq_set_current c t s1)"
    using True s1(1) by (simp add: thread_runq_set_next_def thread_sched_rt_set_next_def)
  moreover have "works_ok s1 {}" using ok(2) s1(3) by (simp add: works_ok_def rt_step_def same_sched_def)
  ultimately show ?thesis using s1 moved_steps(1) [OF s1(3)] rt_step_awake [OF s1(3)] by (intro exI [of _ s1] exI [of _ q']) (simp add: rt_step_def)
next
  case False
  then have f: "cls s t = THREAD_SCHED_CLASS_FS" using runqs_okD(2) [OF ok(1) c] t by (auto simp: runq_ok_def)
  define i where "i = rq_fs_active (rq s c)"
  have a: "t \<in> set (q_thr q c (rq_fs_active (rq s c)))" "fs_cur s c \<in> set (q_groups q c (rq_fs_active (rq s c)))" using act f by simp_all
  obtain s1 q' where s1: "on_links (list_remove (Fs_group_node t)) s = Some s1" "runqs_ok C s1 q' (r(c := Some t)) A" "fs_run_step s s1"
    using fs_take [OF ok(1) c r a] by auto
  have "thread_runq_set_next c t s = Some (runq_set_current c t s1)"
    using f s1(1) by (simp add: thread_runq_set_next_def thread_sched_fs_set_next_def THREAD_SCHED_CLASS_RT_def THREAD_SCHED_CLASS_FS_def)
  moreover have "works_ok s1 {}" using ok(2) s1(3) by (simp add: works_ok_def fs_run_step_def same_sched_def)
  ultimately show ?thesis using s1 fs_run_moved [OF s1(3)] fs_run_awake [OF s1(3)] by (intro exI [of _ s1] exI [of _ q']) (simp add: fs_run_step_def)
qed

section \<open>Rescheduling\<close>

text \<open>The current thread of a processor is the one its run queue has given it, or its idle thread.\<close>

definition cur_ok :: "sched \<Rightarrow> (nat \<Rightarrow> nat option) \<Rightarrow> nat \<Rightarrow> bool" where
  "cur_ok s r c \<longleftrightarrow> (case r c of Some t \<Rightarrow> rq_current (rq s c) = t | None \<Rightarrow> rq_idler (rq s c) = Some (rq_current (rq s c)))
     \<and> (\<forall>d. rq_idler (rq s c) = Some d \<longrightarrow> th_state (th s d) = THREAD_RUNNING)
     \<and> (rq_idle_balance_ticks (rq s c) = 0 \<longrightarrow> (\<forall>b. rq_balancer (rq s c) = Some b \<longrightarrow> th_state (th s b) = THREAD_RUNNING))"

definition rest_ok :: "nat set \<Rightarrow> sched \<Rightarrow> queues \<Rightarrow> (nat \<Rightarrow> nat option) \<Rightarrow> (nat \<Rightarrow> nat set) \<Rightarrow> bool" where
  "rest_ok C s q r A \<longleftrightarrow> runqs_ok C s q r A \<and> sys_ok C s A {} (\<lambda>_. 0) \<and> works_ok s {} \<and> (\<forall>c\<in>C. awake s A c \<and> cur_ok s r c)"

lemma sys_ok_settle:
  assumes "sys_ok C s A X n" "\<And>t. t \<in> X \<Longrightarrow> \<not> th_in_runq (th s t) \<and> (\<forall>c\<in>C. t \<notin> A c) \<and> th_state (th s t) \<noteq> THREAD_RUNNING"
  shows "sys_ok C s A {} n"
proof -
  have "member_ok C s A t" for t using assms by (cases "t \<in> X") (auto simp: sys_ok_def member_ok_def)
  moreover have "balancer_ok s X c b \<Longrightarrow> balancer_ok s {} c b" for c b using assms(2) by (auto simp: balancer_ok_def)
  ultimately show ?thesis using assms(1) unfolding sys_ok_def by blast
qed

lemma moved_cur_ok:
  assumes "moved s s'" "cur_ok s r c" "r' c = r c"
  shows "cur_ok s' r' c"
  using assms unfolding cur_ok_def moved_def by (auto split: option.splits) metis+

text \<open>The previous thread stays, or it leaves the run queue when its state says so.\<close>

lemma schedule_put_ok:
  assumes ok: "runqs_ok C s q r A" "sys_ok C s A X (\<lambda>_. 0)" "works_ok s {rq_current (rq s c)}" "\<forall>c\<in>C. awake s A c \<and> cur_ok s r c" and c: "c \<in> C"
    and ran: "ran_ok s (rq_current (rq s c))"
    and X: "X = (if th_state (th s (rq_current (rq s c))) = THREAD_RUNNING then {} else {rq_current (rq s c)})"
    and inrq: "X \<noteq> {} \<longrightarrow> r c \<noteq> None \<and> th_in_runq (th s (rq_current (rq s c)))"
    and bal: "X \<noteq> {} \<and> rq_balancer (rq s c) = Some (rq_current (rq s c)) \<longrightarrow> awake s (A(c := A c - {rq_current (rq s c)})) c"
  defines "prev \<equiv> rq_current (rq s c)"
  shows "\<exists>s2 q2 A2. (do {
       s \<leftarrow> thread_runq_put_prev c prev s;
       if th_state (th s prev) \<noteq> THREAD_RUNNING then do {
         s \<leftarrow> thread_runq_remove c prev s;
         if rq_nr_threads (rq s c) = 0 \<and> rq_balancer (rq s c) \<noteq> Some prev then thread_runq_wakeup_balancer c s
         else Some s }
       else Some s }) = Some s2
    \<and> runqs_ok C s2 q2 (r(c := None)) A2 \<and> sys_ok C s2 A2 {} (\<lambda>_. 0) \<and> works_ok s2 {} \<and> moved s s2 \<and> elsewhere c s A s2 A2 \<and> awake s2 A2 c
    \<and> (X \<noteq> {} \<longrightarrow> prev \<notin> A2 c)"
proof (cases "r c")
  case None
  then have X0: "X = {}" "th_state (th s prev) = THREAD_RUNNING" using X inrq by (auto simp: prev_def split: if_splits)
  have d: "rq_idler (rq s c) = Some prev" using ok(4) c None by (auto simp: cur_ok_def prev_def)
  then have k: "cls s prev = THREAD_SCHED_CLASS_IDLE" using ok(2) c by (auto simp: sys_ok_def)
  have "thread_runq_put_prev c prev s = Some s"
    using k by (simp add: thread_runq_put_prev_def THREAD_SCHED_CLASS_RT_def THREAD_SCHED_CLASS_FS_def THREAD_SCHED_CLASS_IDLE_def)
  moreover have "works_ok s {}" using ok(3) k by (auto simp: works_ok_def prev_def THREAD_SCHED_CLASS_FS_def THREAD_SCHED_CLASS_IDLE_def)
  moreover have "r(c := None) = r" using None by auto
  ultimately show ?thesis using X0 ok c by (intro exI [of _ s] exI [of _ q] exI [of _ A]) simp
next
  case (Some t)
  then have t: "r c = Some prev" using ok(4) c by (auto simp: cur_ok_def prev_def)
  have pA: "prev \<in> A c" using runqs_okD(2) [OF ok(1) c] t by (auto simp: runq_ok_def)
  obtain b where b: "rq_balancer (rq s c) = Some b" "cls s b = THREAD_SCHED_CLASS_RT" using ok(2) c by (auto simp: sys_ok_def balancer_ok_def)
  have fsX: "\<forall>b. rq_balancer (rq s c) = Some b \<longrightarrow> b \<notin> X" if "cls s prev = THREAD_SCHED_CLASS_FS"
    using b that X by (auto simp: prev_def THREAD_SCHED_CLASS_RT_def THREAD_SCHED_CLASS_FS_def)
  obtain s1 q1 A1 where s1: "thread_runq_put_prev c prev s = Some s1" "runqs_ok C s1 q1 (r(c := None)) A1" "sys_ok C s1 A1 X (\<lambda>_. 0)"
    "works_ok s1 {}" "moved s s1" "woken c s A s1 A1" "awake s1 A1 c" "th_state (th s1 prev) = th_state (th s prev)"
    "th_in_runq (th s1 prev) = th_in_runq (th s prev)" "cls s prev = THREAD_SCHED_CLASS_RT \<longrightarrow> A1 = A \<and> fs_queue s1 = fs_queue s"
    using runq_put_prev_ok [OF ok(1,2,3) [folded prev_def] _ c t ran [folded prev_def] fsX] ok(4) c by auto
  show ?thesis
  proof (cases "th_state (th s prev) = THREAD_RUNNING")
    case True
    then show ?thesis using s1 X woken_elsewhere [OF s1(6)] by (intro exI [of _ s1] exI [of _ q1] exI [of _ A1]) (simp add: prev_def)
  next
    case False
    then have X1: "X = {prev}" using X by (simp add: prev_def)
    have p1: "prev \<in> A1 c" using s1(6) pA by (auto simp: woken_def)
    have bal1: "rq_balancer (rq s1 c) = rq_balancer (rq s c)" "cls s1 prev = cls s prev" using s1(5) by (simp_all add: moved_def)
    obtain s2 q2 A2 where s2: "thread_runq_remove c prev s1 = Some s2" "runqs_ok C s2 q2 (r(c := None)) A2" "sys_ok C s2 A2 X (\<lambda>_. 0)" "works_ok s2 {}"
      "moved s1 s2" "elsewhere c s1 A1 s2 A2" "\<not> th_in_runq (th s2 prev)" "\<forall>c\<in>C. prev \<notin> A2 c"
      "rq_balancer (rq s1 c) \<noteq> Some prev \<and> awake s1 A1 c \<longrightarrow> awake s2 A2 c" "th_state (th s2 prev) = th_state (th s1 prev)"
      "cls s1 prev = THREAD_SCHED_CLASS_RT \<longrightarrow> A2 = A1(c := A1 c - {prev}) \<and> fs_queue s2 = fs_queue s1"
      using runq_remove_ok [OF s1(2,3,4) c p1, simplified] fsX inrq X1 s1(9) bal1 by (auto simp: prev_def)
    have k2: "sys_ok C s2 A2 {} (\<lambda>_. 0)" by (rule sys_ok_settle [OF s2(3)]) (use X1 s2(7,8,10) s1(8) False in simp)
    have mv2: "moved s s2" using moved_trans [OF s1(5) s2(5)] .
    have el2: "elsewhere c s A s2 A2" using elsewhere_trans [OF woken_elsewhere [OF s1(6)] s2(6)] .
    have bal2: "rq_balancer (rq s2 c) = rq_balancer (rq s c)" using mv2 by (simp add: moved_def)
    show ?thesis
    proof (cases "rq_nr_threads (rq s2 c) = 0 \<and> rq_balancer (rq s c) \<noteq> Some prev")
      case True
      obtain s3 q3 A3 where s3: "thread_runq_wakeup_balancer c s2 = Some s3" "runqs_ok C s3 q3 (r(c := None)) A3" "sys_ok C s3 A3 {} (\<lambda>_. 0)"
        "works_ok s3 {}" "moved s2 s3" "woken c s2 A2 s3 A3" "\<exists>b. rq_balancer (rq s2 c) = Some b \<and> b \<in> A3 c"
        using wakeup_balancer_ok [OF s2(2) k2 s2(4) c] by auto
      have "awake s3 A3 c" using s3(5,7) by (auto simp: awake_def moved_def)
      moreover have "prev \<notin> A3 c" using s3(6) s2(8) c True bal2 by (auto simp: woken_def)
      ultimately show ?thesis using s1(1,8) s2(1) s3 False True moved_trans [OF mv2 s3(5)] elsewhere_trans [OF el2 woken_elsewhere [OF s3(6)]]
        by (intro exI [of _ s3] exI [of _ q3] exI [of _ A3]) (simp add: bal2)
    next
      case nw: False
      have "awake s2 A2 c"
      proof (cases "rq_balancer (rq s c) = Some prev")
        case True
        then have rt: "cls s prev = THREAD_SCHED_CLASS_RT" using b by simp
        have "awake s (A(c := A c - {prev})) c" using bal True X1 by (simp add: prev_def)
        then show ?thesis using s1(10) s2(11) rt bal1(2) mv2 by (simp add: awake_def moved_def)
      qed (use s2(9) s1(7) bal1 in simp)
      then show ?thesis using s1(1,8) s2 False nw k2 mv2 el2 c by (intro exI [of _ s2] exI [of _ q2] exI [of _ A2]) (simp add: bal2, blast)
    qed
  qed
qed

lemma chosen_quiet: "chosen s q c A t \<Longrightarrow> moved s' s \<Longrightarrow> A \<noteq> {} \<or> rq_idler (rq s' c) = Some t"
  by (auto simp: chosen_def moved_def)

lemma schedule_ok:
  assumes ok: "runqs_ok C s q r A" "sys_ok C s A X (\<lambda>_. 0)" "works_ok s {rq_current (rq s c)}" "\<forall>c\<in>C. awake s A c \<and> cur_ok s r c" and c: "c \<in> C"
    and ran: "ran_ok s (rq_current (rq s c))"
    and X: "X = (if th_state (th s (rq_current (rq s c))) = THREAD_RUNNING then {} else {rq_current (rq s c)})"
    and inrq: "X \<noteq> {} \<longrightarrow> r c \<noteq> None \<and> th_in_runq (th s (rq_current (rq s c)))"
    and bal: "X \<noteq> {} \<and> rq_balancer (rq s c) = Some (rq_current (rq s c)) \<longrightarrow> awake s (A(c := A c - {rq_current (rq s c)})) c"
  shows "\<exists>s2 q2 A2 t s' q' r'. thread_runq_schedule c s = Some s' \<and> rest_ok C s' q' r' A2 \<and> rq_current (rq s' c) = t
    \<and> runqs_ok C s2 q2 (r(c := None)) A2 \<and> chosen s2 q2 c (A2 c) t \<and> (\<forall>u. cls s2 u = cls s u \<and> pri s2 u = pri s u) \<and> rq_idler (rq s2 c) = rq_idler (rq s c)
    \<and> (\<forall>u. th_state (th s' u) = th_state (th s2 u) \<and> cls s' u = cls s2 u \<and> pri s' u = pri s2 u) \<and> rq_idler (rq s' c) = rq_idler (rq s2 c)
    \<and> (X \<noteq> {} \<longrightarrow> rq_current (rq s c) \<notin> A2 c)"
proof -
  define prev where "prev = rq_current (rq s c)"
  define s0 where "s0 = thread_clear_flag prev THREAD_YIELD s"
  have q0: "quiet s s0" by (simp add: s0_def)
  have rq0: "rq s0 = rq s" "sy_fs_highest_round s0 = sy_fs_highest_round s" by (simp_all add: s0_def thread_clear_flag_def)
  have fq0: "fs_queue s0 = fs_queue s" by (simp add: fs_queue_def rq0 fun_eq_iff)
  have fs0: "fsd s0 u = fsd s u" for u by (simp add: s0_def thread_clear_flag_def)
  have mv0: "moved s s0" unfolding moved_def by (simp add: quietD [OF q0] rq0)
  have r0: "runqs_ok C s0 q r A" unfolding s0_def by (rule runqs_ok_flag(2) [OF ok(1)])
  have k0: "sys_ok C s0 A X (\<lambda>_. 0)" by (rule sys_ok_quiet [OF ok(2) q0])
  have w0: "works_ok s0 {rq_current (rq s0 c)}" using ok(3) quietD(1) [OF q0] by (simp add: works_ok_def fs0 rq0)
  have aw: "awake s0 B c' = awake s B c'" for B c' by (simp add: awake_def fq0 rq0 quietD [OF q0])
  have a0: "\<forall>c\<in>C. awake s0 A c \<and> cur_ok s0 r c" using ok(4) moved_cur_ok [OF mv0, of r _ r] by (simp add: aw)
  have ran0: "ran_ok s0 (rq_current (rq s0 c))" using ran by (simp add: ran_ok_def fs0 rq0 quietD [OF q0])
  note X0 = X [folded quietD(5) [OF q0], folded rq0]
  obtain s2 q2 A2 where s2: "(do {
       s \<leftarrow> thread_runq_put_prev c (rq_current (rq s0 c)) s0;
       if th_state (th s (rq_current (rq s0 c))) \<noteq> THREAD_RUNNING then do {
         s \<leftarrow> thread_runq_remove c (rq_current (rq s0 c)) s;
         if rq_nr_threads (rq s c) = 0 \<and> rq_balancer (rq s c) \<noteq> Some (rq_current (rq s0 c)) then thread_runq_wakeup_balancer c s
         else Some s }
       else Some s }) = Some s2"
    "runqs_ok C s2 q2 (r(c := None)) A2" "sys_ok C s2 A2 {} (\<lambda>_. 0)" "works_ok s2 {}" "moved s0 s2" "elsewhere c s0 A s2 A2" "awake s2 A2 c"
    "X \<noteq> {} \<longrightarrow> prev \<notin> A2 c"
    using schedule_put_ok [OF r0 k0 w0 a0 c ran0 X0] inrq bal unfolding rq0 quietD(3) [OF q0] aw prev_def by blast
  obtain t s3 q3 where s3: "thread_runq_get_next c s2 = Some (t, runq_set_current c t s3)" "quiet s2 s3" "moved s2 s3"
    "runqs_ok C s3 q3 ((r(c := None))(c := if A2 c = {} then None else Some t)) A2" "A2 c \<noteq> {} \<longrightarrow> t \<in> A2 c" "chosen s2 q2 c (A2 c) t"
    "works_ok s3 {}" "\<forall>c'. awake s3 A2 c' = awake s2 A2 c'"
    using runq_get_next_ok [OF s2(2,3,4,7) c] by auto
  define r' where "r' = r(c := if A2 c = {} then None else Some t)"
  define s' where "s' = runq_set_current c t s3"
  have mv2: "moved s s2" using moved_trans [OF mv0 s2(5)] .
  have mv3: "moved s s3" using moved_trans [OF mv2 s3(3)] .
  have k3: "sys_ok C s3 A2 {} (\<lambda>_. 0)" by (rule sys_ok_quiet [OF s2(3) s3(2)])
  have idler: "rq_idler (rq s3 c) = Some t \<longleftrightarrow> A2 c = {}" and nr: "rq_idler (rq s3 c) = Some t \<Longrightarrow> rq_nr_threads (rq s3 c) = 0"
  proof -
    have cl: "cls s2 u \<noteq> THREAD_SCHED_CLASS_IDLE" if "u \<in> A2 c" for u
      using runqs_okD(2) [OF s2(2) c] that by (auto simp: runq_ok_def THREAD_SCHED_CLASS_RT_def THREAD_SCHED_CLASS_FS_def THREAD_SCHED_CLASS_IDLE_def)
    obtain d where d: "rq_idler (rq s2 c) = Some d" "cls s2 d = THREAD_SCHED_CLASS_IDLE" using s2(3) c by (auto simp: sys_ok_def)
    show *: "rq_idler (rq s3 c) = Some t \<longleftrightarrow> A2 c = {}"
      using d cl s3(5,6) quietD(9) [OF s3(2)] by (cases "A2 c = {}") (auto simp: chosen_def)
    show "rq_nr_threads (rq s3 c) = 0" if "rq_idler (rq s3 c) = Some t" using k3 c * that by (simp add: sys_ok_def)
  qed
  obtain s1 where s1: "thread_runq_put_prev c prev s0 = Some s1" "(if th_state (th s1 prev) \<noteq> THREAD_RUNNING then do {
         s \<leftarrow> thread_runq_remove c prev s1;
         if rq_nr_threads (rq s c) = 0 \<and> rq_balancer (rq s c) \<noteq> Some prev then thread_runq_wakeup_balancer c s
         else Some s }
       else Some s1) = Some s2"
    using s2(1) unfolding rq0 prev_def [symmetric] bind_eq_Some_conv by blast
  have "thread_runq_schedule c s = Some s'"
    unfolding thread_runq_schedule_def Let_def prev_def [symmetric] s0_def [symmetric] s1(1) Option.bind.bind_lunit s1(2) s3(1)
    using nr by (simp add: s'_def)
  moreover have "rest_ok C s' q3 r' A2"
    unfolding rest_ok_def s'_def
  proof (intro conjI ballI)
    show "runqs_ok C (runq_set_current c t s3) q3 r' A2" by (rule runqs_ok_current) (use s3(4) in \<open>simp add: r'_def\<close>)
    show "sys_ok C (runq_set_current c t s3) A2 {} (\<lambda>_. 0)" by (rule sys_ok_current [OF k3])
    show "works_ok (runq_set_current c t s3) {}" using s3(7) by (simp add: works_ok_def)
    fix c' assume c': "c' \<in> C"
    have "awake s3 A2 c'"
    proof (cases "c' = c")
      case False
      then show ?thesis using elsewhere_awake [OF s2(6,5) _ False] a0 c' s3(8) by simp
    qed (use s3(8) s2(7) in simp)
    then show "awake (runq_set_current c t s3) A2 c'" by (cases "c' = c") (simp_all add: awake_def)
    show "cur_ok (runq_set_current c t s3) r' c'"
    proof (cases "c' = c")
      case True
      have "\<forall>d. rq_idler (rq s3 c) = Some d \<longrightarrow> th_state (th s3 d) = THREAD_RUNNING"
        "rq_idle_balance_ticks (rq s3 c) = 0 \<longrightarrow> (\<forall>b. rq_balancer (rq s3 c) = Some b \<longrightarrow> th_state (th s3 b) = THREAD_RUNNING)"
        using moved_cur_ok [OF mv3, of r c r] ok(4) c by (simp_all add: cur_ok_def)
      then show ?thesis using True idler by (simp add: cur_ok_def r'_def)
    next
      case False
      then show ?thesis using moved_cur_ok [OF mv3, of r c' r'] ok(4) c' by (auto simp: cur_ok_def r'_def split: option.splits)
    qed
  qed
  moreover have "rq_current (rq s' c) = t" "th_state (th s' u) = th_state (th s2 u) \<and> cls s' u = cls s2 u \<and> pri s' u = pri s2 u"
    "rq_idler (rq s' c) = rq_idler (rq s2 c)" for u using quietD(1,2,5,9) [OF s3(2)] by (simp_all add: s'_def)
  moreover have "cls s2 u = cls s u \<and> pri s2 u = pri s u" "rq_idler (rq s2 c) = rq_idler (rq s c)" for u using mv2 by (simp_all add: moved_def)
  ultimately show ?thesis using s2(2,8) s3(6) unfolding prev_def by blast
qed

end
