(* ===== verification/Sched_Boot.thy ===== *)
theory Sched_Boot
  imports Sched_Runq Bitmap
begin

text \<open>
  Creating threads and starting the scheduler (\<^verbatim>\<open>kern/thread.c\<close>, \<^verbatim>\<open>kern/thread.h\<close>): the
  scheduling members of a new thread, the booter threads, the run queues of all the processors with
  their balancer and their idler, and the first choice of a thread on each processor. What the memory
  allocator and the machine layer return is an argument (\<open>thread_mem\<close>).
\<close>

unbundle bit_operations_syntax

section \<open>Attributes\<close>

definition THREAD_SCHED_FS_PRIO_DEFAULT :: nat where "THREAD_SCHED_FS_PRIO_DEFAULT = 20"
definition THREAD_SCHED_RT_PRIO_MIN :: nat where "THREAD_SCHED_RT_PRIO_MIN = 0"
definition THREAD_ATTR_DETACHED :: u64 where "THREAD_ATTR_DETACHED = 1"
definition THREAD_DETACHED :: u64 where "THREAD_DETACHED = 2"

type_synonym cpumap = "nat \<Rightarrow> bool"

record thread_attr =
  at_flags :: u64
  at_cpumap :: "cpumap option"
  at_policy :: nat
  at_priority :: nat

definition thread_attr_init :: thread_attr where
  "thread_attr_init = \<lparr>at_flags = 0, at_cpumap = None, at_policy = THREAD_SCHED_POLICY_FS, at_priority = THREAD_SCHED_FS_PRIO_DEFAULT\<rparr>"

definition thread_attr_set_detached :: "thread_attr \<Rightarrow> thread_attr" where
  "thread_attr_set_detached attr = attr\<lparr>at_flags := at_flags attr OR THREAD_ATTR_DETACHED\<rparr>"

definition thread_attr_set_cpumap :: "cpumap \<Rightarrow> thread_attr \<Rightarrow> thread_attr" where
  "thread_attr_set_cpumap m attr = attr\<lparr>at_cpumap := Some m\<rparr>"

definition thread_attr_set_policy :: "nat \<Rightarrow> thread_attr \<Rightarrow> thread_attr" where
  "thread_attr_set_policy policy attr = attr\<lparr>at_policy := policy\<rparr>"

definition thread_attr_set_priority :: "nat \<Rightarrow> thread_attr \<Rightarrow> thread_attr" where
  "thread_attr_set_priority priority attr = attr\<lparr>at_priority := priority\<rparr>"

text \<open>The words of a map of processors; the search may find a processor past \<^verbatim>\<open>cpu_count()\<close> in the last word.\<close>

definition cpumap_check :: "nat \<Rightarrow> cpumap \<Rightarrow> errno option" where
  "cpumap_check cpu_count m = (if find m [0..<BITMAP_LONGS cpu_count * 64] = None then Some EINVAL else None)"

section \<open>Creating a thread\<close>

text \<open>The memory of the thread and its address, and whether the stack, the sleep queue, the turnstile and the TCB could be built.\<close>

record thread_mem =
  tm_thread :: "nat option"
  tm_addr :: u64
  tm_stack :: bool
  tm_sleepq :: bool
  tm_turnstile :: bool
  tm_tcb_error :: "errno option"

text \<open>
  The preemption level is the one outside the scheduler's own sections. The code starts a new thread at
  \<^verbatim>\<open>THREAD_SUSPEND_PREEMPT_LEVEL\<close> = 2, as if it had been switched out in one of them, and
  \<^verbatim>\<open>thread_main\<close> takes both back before it calls the function of the thread; so it is 0 here.
\<close>

definition thread_init :: "nat \<Rightarrow> nat \<Rightarrow> thread_mem \<Rightarrow> thread_attr \<Rightarrow> sched \<Rightarrow> (errno option \<times> sched) option" where
  "thread_init self t mem attr s = do {
     let m = (case at_cpumap attr of None \<Rightarrow> th_cpumap (th s self) | Some m \<Rightarrow> m);
     assert_that (at_policy attr < size thread_policy_table);
     let s = set_thread t ((th s t)\<lparr>th_flags := 0, th_runq := None, th_in_runq := False\<rparr>) s;
     s \<leftarrow> thread_set_wchan t (tm_addr mem) s;
     let s = set_state t THREAD_SLEEPING s;
     if \<not> tm_sleepq mem then Some (Some ENOMEM, s)
     else if \<not> tm_turnstile mem then Some (Some ENOMEM, s)
     else do {
       let s = set_thread t ((th s t)\<lparr>th_preempt_level := 0, th_pin_level := 0, th_cpumap := m\<rparr>) s;
       let s = thread_set_user_sched_policy t (at_policy attr) s;
       k \<leftarrow> thread_policy_to_class (at_policy attr);
       s \<leftarrow> thread_set_user_priority t (at_priority attr) (thread_set_user_sched_class t k s);
       s \<leftarrow> thread_reset_real_priority t s;
       let s = (if at_flags attr AND THREAD_ATTR_DETACHED \<noteq> 0 then thread_set_flag t THREAD_DETACHED s else s);
       Some (tm_tcb_error mem, s) } }"

definition thread_create :: "nat \<Rightarrow> nat \<Rightarrow> thread_mem \<Rightarrow> thread_attr \<Rightarrow> sched \<Rightarrow> (errno option \<times> sched) option" where
  "thread_create self cpu_count mem attr s =
     (case (case at_cpumap attr of None \<Rightarrow> None | Some m \<Rightarrow> cpumap_check cpu_count m) of
        Some error \<Rightarrow> Some (Some error, s)
      | None \<Rightarrow> (case tm_thread mem of
          None \<Rightarrow> Some (Some ENOMEM, s)
        | Some t \<Rightarrow>
            if \<not> tm_stack mem then Some (Some ENOMEM, s)
            else do {
              (error, s) \<leftarrow> thread_init self t mem attr s;
              if error \<noteq> None then Some (error, s)
              else do {
                (_, s) \<leftarrow> thread_wakeup self (Some t) s;
                Some (None, s) } }))"

section \<open>Starting the scheduler\<close>

definition thread_init_booter :: "nat \<Rightarrow> sched \<Rightarrow> sched option" where
  "thread_init_booter t s = do {
     let s = set_thread t ((th s t)\<lparr>th_flags := 0, th_preempt_level := 1, th_cpumap := (\<lambda>_. True)\<rparr>) s;
     let s = thread_set_user_sched_class t THREAD_SCHED_CLASS_IDLE (thread_set_user_sched_policy t THREAD_SCHED_POLICY_IDLE s);
     s \<leftarrow> thread_set_user_priority t 0 s;
     thread_reset_real_priority t s }"

definition thread_bootstrap :: "nat \<Rightarrow> sched \<Rightarrow> sched" where
  "thread_bootstrap booter s =
     thread_runq_init 0 booter (s\<lparr>sy_active_runqs := (\<lambda>_. False)(0 := True), sy_idle_runqs := (\<lambda>_. False), sy_fs_highest_round := THREAD_FS_INITIAL_ROUND\<rparr>)"

definition thread_setup_common :: "(nat \<Rightarrow> nat) \<Rightarrow> nat \<Rightarrow> sched \<Rightarrow> sched option" where
  "thread_setup_common booters cpu s = do {
     assert_that (cpu \<noteq> 0);
     s \<leftarrow> thread_init_booter (booters cpu) (s\<lparr>sy_active_runqs := (sy_active_runqs s)(cpu := True)\<rparr>);
     Some (thread_runq_init cpu (booters cpu) s) }"

definition thread_setup_balancer :: "nat \<Rightarrow> nat \<Rightarrow> thread_mem \<Rightarrow> nat \<Rightarrow> sched \<Rightarrow> sched option" where
  "thread_setup_balancer self cpu_count mem c s = do {
     let attr = thread_attr_set_cpumap ((\<lambda>_. False)(c := True)) thread_attr_init;
     let attr = thread_attr_set_priority THREAD_SCHED_RT_PRIO_MIN (thread_attr_set_policy THREAD_SCHED_POLICY_FIFO attr);
     (error, s) \<leftarrow> thread_create self cpu_count mem attr s;
     assert_that (error = None);
     Some (set_runq c ((rq s c)\<lparr>rq_balancer := tm_thread mem\<rparr>) s) }"

definition thread_setup_idler :: "nat \<Rightarrow> thread_mem \<Rightarrow> nat \<Rightarrow> sched \<Rightarrow> sched option" where
  "thread_setup_idler self mem c s = do {
     t \<leftarrow> tm_thread mem;
     assert_that (tm_stack mem);
     let attr = thread_attr_set_policy THREAD_SCHED_POLICY_IDLE (thread_attr_set_cpumap ((\<lambda>_. False)(c := True)) thread_attr_init);
     (error, s) \<leftarrow> thread_init self t mem attr s;
     assert_that (error = None);
     let s = thread_clear_wchan t s;
     let s = set_thread t ((th s t)\<lparr>th_state := THREAD_RUNNING, th_runq := Some c\<rparr>) s;
     Some (set_runq c ((rq s c)\<lparr>rq_idler := Some t\<rparr>) s) }"

definition thread_setup_runq :: "nat \<Rightarrow> nat \<Rightarrow> (nat \<Rightarrow> thread_mem) \<Rightarrow> (nat \<Rightarrow> thread_mem) \<Rightarrow> nat \<Rightarrow> sched \<Rightarrow> sched option" where
  "thread_setup_runq self cpu_count balancers idlers c s = do {
     s \<leftarrow> thread_setup_balancer self cpu_count (balancers c) c s;
     thread_setup_idler self (idlers c) c s }"

fun for_each_cpu :: "(nat \<Rightarrow> sched \<Rightarrow> sched option) \<Rightarrow> nat list \<Rightarrow> sched \<Rightarrow> sched option" where
  "for_each_cpu f [] s = Some s"
| "for_each_cpu f (c # cs) s = do { s \<leftarrow> f c s; for_each_cpu f cs s }"

definition thread_setup :: "nat \<Rightarrow> nat \<Rightarrow> (nat \<Rightarrow> nat) \<Rightarrow> (nat \<Rightarrow> thread_mem) \<Rightarrow> (nat \<Rightarrow> thread_mem) \<Rightarrow> sched \<Rightarrow> sched option" where
  "thread_setup self cpu_count booters balancers idlers s = do {
     s \<leftarrow> for_each_cpu (thread_setup_common booters) [1..<cpu_count] s;
     for_each_cpu (thread_setup_runq self cpu_count balancers idlers) (active_cpus s) s }"

text \<open>The processor \<open>c\<close> leaves its booter thread.\<close>

definition thread_run_scheduler :: "nat \<Rightarrow> nat \<Rightarrow> sched \<Rightarrow> sched option" where
  "thread_run_scheduler self c s = do {
     assert_that (self = rq_current (rq s c));
     (next, s) \<leftarrow> thread_runq_get_next c s;
     Some s }"

text \<open>From the first instruction to the last processor entering the scheduler.\<close>

definition thread_boot :: "nat \<Rightarrow> (nat \<Rightarrow> nat) \<Rightarrow> (nat \<Rightarrow> thread_mem) \<Rightarrow> (nat \<Rightarrow> thread_mem) \<Rightarrow> sched \<Rightarrow> sched option" where
  "thread_boot cpu_count booters balancers idlers s = do {
     s \<leftarrow> thread_init_booter (booters 0) s;
     s \<leftarrow> thread_setup (booters 0) cpu_count booters balancers idlers (thread_bootstrap (booters 0) s);
     for_each_cpu (\<lambda>c. thread_run_scheduler (booters c) c) [0..<cpu_count] s }"

end
