(* ===== verification/Sched_Frame.thy ===== *)
theory Sched_Frame
  imports Sched_Queue Sched_Boot
begin

text \<open>
  What every operation keeps of the maps of processors, whatever the state: the active processors never
  change, and only the processor that runs an operation can become idle; and of the scheduling parameters
  of the threads.
\<close>

unbundle bit_operations_syntax

named_theorems params \<open>operations that leave the parameters of the threads alone\<close>
named_theorems maps \<open>operations that leave the maps of processors alone\<close>

section \<open>The maps of processors\<close>

definition same_maps :: "sched \<Rightarrow> sched \<Rightarrow> bool" where
  "same_maps s s' \<longleftrightarrow> sy_active_runqs s' = sy_active_runqs s \<and> sy_idle_runqs s' = sy_idle_runqs s"

definition idle_frame :: "nat \<Rightarrow> sched \<Rightarrow> sched \<Rightarrow> bool" where
  "idle_frame c s s' \<longleftrightarrow> sy_active_runqs s' = sy_active_runqs s \<and> (\<forall>c'. sy_idle_runqs s' c' \<longrightarrow> sy_idle_runqs s c' \<or> c' = c)"

lemma same_idle: "same_maps s s' \<Longrightarrow> idle_frame c s s'" by (simp add: same_maps_def idle_frame_def)

lemma idle_trans: "idle_frame c s s' \<Longrightarrow> idle_frame c s' s'' \<Longrightarrow> idle_frame c s s''"
  unfolding idle_frame_def by metis

lemma maps_select [simp]:
  "same_maps s (set_thread t v s') \<longleftrightarrow> same_maps s s'" "same_maps s (set_runq c w s') \<longleftrightarrow> same_maps s s'" "same_maps s (set_fs t d s') \<longleftrightarrow> same_maps s s'"
  "same_maps s (set_fs_queue c i q s') \<longleftrightarrow> same_maps s s'" "same_maps s (set_fs_group c i g w' s') \<longleftrightarrow> same_maps s s'" "same_maps s (s'\<lparr>sy_links := h\<rparr>) \<longleftrightarrow> same_maps s s'"
  "same_maps s (thread_set_flag t f s') \<longleftrightarrow> same_maps s s'" "same_maps s (thread_clear_flag t f s') \<longleftrightarrow> same_maps s s'" "same_maps s s"
  "same_maps (set_thread t v s) s' \<longleftrightarrow> same_maps s s'" "same_maps (set_runq c w s) s' \<longleftrightarrow> same_maps s s'" "same_maps (set_fs t d s) s' \<longleftrightarrow> same_maps s s'"
  "same_maps (set_fs_queue c i q s) s' \<longleftrightarrow> same_maps s s'" "same_maps (set_fs_group c i g w' s) s' \<longleftrightarrow> same_maps s s'" "same_maps (s\<lparr>sy_links := h\<rparr>) s' \<longleftrightarrow> same_maps s s'"
  by (simp_all add: same_maps_def set_fs_group_def thread_set_flag_def thread_clear_flag_def)

lemma same_trans: "same_maps s s' \<Longrightarrow> same_maps s' s'' \<Longrightarrow> same_maps s s''" by (simp add: same_maps_def)

lemma same_simp: "same_maps s s' \<Longrightarrow> same_maps s' s'' \<longleftrightarrow> same_maps s s''" by (simp add: same_maps_def)

lemma on_links_maps [maps]: "on_links f s = Some s' \<Longrightarrow> same_maps s s'"
  by (auto simp: on_links_def bind_eq_Some_conv)

lemma rt_maps [maps]:
  "thread_sched_rt_remove c t s = Some s' \<Longrightarrow> same_maps s s'" "thread_sched_rt_add c t s = Some s' \<Longrightarrow> same_maps s s'"
  by (auto simp: thread_sched_rt_remove_def thread_sched_rt_add_def bind_eq_Some_conv Let_def dest!: maps split: if_splits)

lemma rt_get_next_maps [maps]: "thread_sched_rt_get_next c s = Some (n, s') \<Longrightarrow> same_maps s s'"
  by (auto simp: thread_sched_rt_get_next_def bind_eq_Some_conv Let_def dest!: maps split: if_splits)

lemma fs_place_maps [maps]:
  "fs_enqueue_place c i g w s = Some s' \<Longrightarrow> same_maps s s'" "fs_dequeue_place c i g s = Some s' \<Longrightarrow> same_maps s s'"
  by (auto simp: fs_enqueue_place_def fs_dequeue_place_def bind_eq_Some_conv Let_def dest!: maps intro: same_trans split: if_splits)

lemma fs_enqueue_work_maps [maps]: "fs_enqueue_work c i g w rnd t s = Some s' \<Longrightarrow> same_maps s s'"
  by (auto simp: fs_enqueue_work_def bind_eq_Some_conv Let_def split: if_splits)

lemma fs_restart_maps [maps]: "thread_sched_fs_restart c s = Some s' \<Longrightarrow> same_maps s s'"
  by (auto simp: thread_sched_fs_restart_def bind_eq_Some_conv Let_def split: if_splits)

lemma fs_enqueue_maps [maps]: "thread_sched_fs_enqueue c i rnd t s = Some s' \<Longrightarrow> same_maps s s'"
  by (auto simp: thread_sched_fs_enqueue_def bind_eq_Some_conv Let_def dest!: maps) (simp_all add: same_maps_def)

lemma fs_dequeue_maps [maps]: "thread_sched_fs_dequeue t s = Some s' \<Longrightarrow> same_maps s s'"
  by (auto simp: thread_sched_fs_dequeue_def bind_eq_Some_conv Let_def dest!: maps) (simp_all add: same_maps_def)

lemma fs_add_maps [maps]: "thread_sched_fs_add c t s = Some s' \<Longrightarrow> same_maps s s'"
  by (auto simp: thread_sched_fs_add_def bind_eq_Some_conv Let_def dest!: maps intro: same_trans split: if_splits)

lemma fs_get_next_maps [maps]: "thread_sched_fs_get_next c s = Some (n, s') \<Longrightarrow> same_maps s s'"
  by (auto simp: thread_sched_fs_get_next_def bind_eq_Some_conv Let_def dest!: maps split: if_splits)

section \<open>Run queues\<close>

lemma idle_select [simp]:
  "idle_frame c s (set_thread t v s') \<longleftrightarrow> idle_frame c s s'" "idle_frame c s (set_runq c1 w s') \<longleftrightarrow> idle_frame c s s'" "idle_frame c s (set_fs t d s') \<longleftrightarrow> idle_frame c s s'"
  "idle_frame c s (thread_set_flag t f s') \<longleftrightarrow> idle_frame c s s'" "idle_frame c s (thread_clear_flag t f s') \<longleftrightarrow> idle_frame c s s'" "idle_frame c s s"
  "idle_frame c s (set_state t st s') \<longleftrightarrow> idle_frame c s s'" "idle_frame c s (thread_clear_wchan t s') \<longleftrightarrow> idle_frame c s s'" "idle_frame c s (runq_set_current c1 t s') \<longleftrightarrow> idle_frame c s s'"
  "idle_frame c (set_thread t v s) s' \<longleftrightarrow> idle_frame c s s'" "idle_frame c (set_runq c1 w s) s' \<longleftrightarrow> idle_frame c s s'" "idle_frame c (set_fs t d s) s' \<longleftrightarrow> idle_frame c s s'"
  "idle_frame c (thread_set_flag t f s) s' \<longleftrightarrow> idle_frame c s s'" "idle_frame c (thread_clear_flag t f s) s' \<longleftrightarrow> idle_frame c s s'"
  "idle_frame c (set_state t st s) s' \<longleftrightarrow> idle_frame c s s'" "idle_frame c (thread_clear_wchan t s) s' \<longleftrightarrow> idle_frame c s s'"
  by (simp_all add: idle_frame_def thread_set_flag_def thread_clear_flag_def set_state_def thread_clear_wchan_def runq_set_current_def)

lemma idle_update: "idle_frame c s s' \<Longrightarrow> idle_frame c s (s'\<lparr>sy_idle_runqs := (sy_idle_runqs s')(c := b)\<rparr>)"
  by (auto simp: idle_frame_def)

lemma runq_add_maps [maps]:
  assumes "thread_runq_add c t s = Some s'" shows "idle_frame c s s'"
proof -
  obtain s1 where s1: "same_maps s s1" and s': "s' = (let s = (if rq_nr_threads (rq s1 c) = 0 then s1\<lparr>sy_idle_runqs := (sy_idle_runqs s1)(c := False)\<rparr> else s1);
      s = set_runq c ((rq s c)\<lparr>rq_nr_threads := rq_nr_threads (rq s c) + 1\<rparr>) s; cur = rq_current (rq s c);
      s = (if thread_real_sched_class (th s t) < thread_real_sched_class (th s cur) then thread_set_flag cur THREAD_YIELD s else s)
      in set_thread t ((th s t)\<lparr>th_runq := Some c, th_in_runq := True\<rparr>) s)"
    using assms by (auto simp: thread_runq_add_def bind_eq_Some_conv Let_def thread_sched_idle_add_def dest!: maps split: if_splits)
  have "idle_frame c s s1" by (rule same_idle [OF s1])
  then show ?thesis unfolding s' Let_def by (auto intro: idle_update)
qed

lemma runq_wakeup_maps [maps]: "thread_runq_wakeup c t s = Some s' \<Longrightarrow> idle_frame c s s'"
  by (auto simp: thread_runq_wakeup_def bind_eq_Some_conv dest!: maps)

lemma runq_wakeup_balancer_maps [maps]: "thread_runq_wakeup_balancer c s = Some s' \<Longrightarrow> idle_frame c s s'"
  by (auto simp: thread_runq_wakeup_balancer_def bind_eq_Some_conv dest!: maps split: if_splits)

lemma fs_remove_maps [maps]:
  assumes "thread_sched_fs_remove c t s = Some s'" shows "idle_frame c s s'"
proof -
  obtain s1 where s1: "same_maps s s1" "s' = s1 \<or> thread_runq_wakeup_balancer c s1 = Some s' \<or> thread_sched_fs_restart c s1 = Some s'"
    using assms by (auto simp: thread_sched_fs_remove_def bind_eq_Some_conv Let_def dest!: fs_dequeue_maps split: if_splits)
  have "idle_frame c s1 s'" using s1(2) by (auto dest: maps same_idle)
  then show ?thesis using idle_trans same_idle [OF s1(1)] by blast
qed

lemma fs_deactivate_maps [maps]:
  assumes "thread_sched_fs_deactivate c t s = Some s'" shows "idle_frame c s s'"
proof -
  obtain s1 where s1: "same_maps s s1" "s' = s1 \<or> thread_runq_wakeup_balancer c s1 = Some s'"
    using assms by (auto simp: thread_sched_fs_deactivate_def bind_eq_Some_conv Let_def dest!: fs_dequeue_maps fs_enqueue_maps split: if_splits)
      (auto simp: same_maps_def)
  have "idle_frame c s1 s'" using s1(2) by (auto dest: maps)
  then show ?thesis using idle_trans same_idle [OF s1(1)] by blast
qed

lemma fs_put_prev_maps [maps]:
  assumes "thread_sched_fs_put_prev c t s = Some s'" shows "idle_frame c s s'"
proof -
  obtain s1 where "same_maps s s1" "s' = s1 \<or> thread_sched_fs_deactivate c t s1 = Some s'"
    using assms by (auto simp: thread_sched_fs_put_prev_def bind_eq_Some_conv Let_def dest!: on_links_maps split: if_splits)
  then show ?thesis using idle_trans same_idle fs_deactivate_maps by blast
qed

lemma runq_remove_maps [maps]:
  assumes "thread_runq_remove c t s = Some s'" shows "idle_frame c s s'"
proof -
  define s1 where "s1 = (let s = set_runq c ((rq s c)\<lparr>rq_nr_threads := rq_nr_threads (rq s c) - 1\<rparr>) s in
    if rq_nr_threads (rq s c) = 0 then s\<lparr>sy_idle_runqs := (sy_idle_runqs s)(c := True)\<rparr> else s)"
  obtain s2 where s2: "s' = set_thread t ((th s2 t)\<lparr>th_in_runq := False\<rparr>) s2" "same_maps s1 s2 \<or> idle_frame c s1 s2"
    using assms unfolding thread_runq_remove_def Let_def bind_eq_Some_conv s1_def [unfolded Let_def, symmetric]
    by (auto simp: thread_sched_idle_remove_def dest!: rt_maps fs_remove_maps split: if_splits)
  have "idle_frame c s s1" by (auto simp: s1_def Let_def idle_frame_def)
  then show ?thesis using s2 idle_trans same_idle by auto
qed

lemma runq_put_prev_maps [maps]: "thread_runq_put_prev c t s = Some s' \<Longrightarrow> idle_frame c s s'"
  by (auto simp: thread_runq_put_prev_def Let_def thread_sched_rt_put_prev_def dest!: rt_maps fs_put_prev_maps intro: same_idle split: if_splits)

lemma runq_get_next_maps [maps]:
  assumes "thread_runq_get_next c s = Some (t, s')" shows "idle_frame c s s'"
proof -
  obtain t1 s1 where s1: "thread_sched_rt_get_next c s = Some (t1, s1)" using assms by (auto simp: thread_runq_get_next_def bind_eq_Some_conv)
  have 1: "same_maps s s1" using rt_get_next_maps [OF s1] .
  show ?thesis
  proof (cases t1)
    case (Some u)
    then have "s' = runq_set_current c u s1" using assms s1 by (auto simp: thread_runq_get_next_def)
    then show ?thesis using same_idle [OF 1] by simp
  next
    case None
    then obtain t2 s2 where s2: "thread_sched_fs_get_next c s1 = Some (t2, s2)" using assms s1 by (auto simp: thread_runq_get_next_def bind_eq_Some_conv)
    have "same_maps s s2" using fs_get_next_maps [OF s2] 1 by (simp add: same_maps_def)
    then have "idle_frame c s s2" by (rule same_idle)
    then show ?thesis using assms s1 None s2
      by (cases t2) (auto simp: thread_runq_get_next_def thread_sched_idle_get_next_def bind_eq_Some_conv)
  qed
qed

lemma runq_set_next_maps [maps]: "thread_runq_set_next c t s = Some s' \<Longrightarrow> idle_frame c s s'"
  by (auto simp: thread_runq_set_next_def Let_def thread_sched_rt_set_next_def thread_sched_fs_set_next_def bind_eq_Some_conv
    dest!: rt_maps on_links_maps intro: same_idle split: if_splits)

lemma runq_schedule_maps [maps]:
  assumes "thread_runq_schedule c s = Some s'" shows "idle_frame c s s'"
proof -
  define prev s0 where "prev = rq_current (rq s c)" and "s0 = thread_clear_flag prev THREAD_YIELD s"
  obtain s1 s2 n where s: "thread_runq_put_prev c prev s0 = Some s1"
    "(if th_state (th s1 prev) \<noteq> THREAD_RUNNING then do {
         s \<leftarrow> thread_runq_remove c prev s1;
         if rq_nr_threads (rq s c) = 0 \<and> rq_balancer (rq s c) \<noteq> Some prev then thread_runq_wakeup_balancer c s
         else Some s }
       else Some s1) = Some s2" "thread_runq_get_next c s2 = Some (n, s')"
    using assms unfolding thread_runq_schedule_def Let_def prev_def [symmetric] s0_def [symmetric] bind_eq_Some_conv
    by (elim exE conjE) (case_tac y, auto simp: bind_eq_Some_conv)
  have "idle_frame c s s1" using runq_put_prev_maps [OF s(1)] by (simp add: s0_def)
  moreover have "idle_frame c s1 s2" using s(2) by (auto simp: bind_eq_Some_conv dest!: maps intro: idle_trans split: if_splits)
  ultimately show ?thesis using runq_get_next_maps [OF s(3)] idle_trans by blast
qed

section \<open>Threads\<close>

text \<open>The rounds of \<^verbatim>\<open>thread_yield\<close> compose.\<close>

lemma yield_loop_rounds:
  assumes "yield_loop c s = Some s'" "\<And>s s'. thread_runq_schedule c s = Some s' \<Longrightarrow> P s s'" "\<And>s s' s''. P s s' \<Longrightarrow> P s' s'' \<Longrightarrow> P s s''"
  shows "P s s'"
proof -
  have "d = c \<longrightarrow> P u u'" if "yield_loop d u = Some u'" for d u u'
    using that
  proof (rule yield_loop.raw_induct [of "\<lambda>d u u'. d = c \<longrightarrow> P u u'", rotated])
    fix loop :: "nat \<Rightarrow> sched \<Rightarrow> sched option" and d u u'
    assume ih: "\<And>d u u'. loop d u = Some u' \<Longrightarrow> d = c \<longrightarrow> P u u'"
    assume "Let (rq_current (rq u d)) (\<lambda>thread. Option.bind (thread_runq_schedule d u) (\<lambda>s.
      if rq_current (rq s d) = thread \<and> thread_test_flag s thread THREAD_YIELD then loop d s else Some s)) = Some u'"
    then obtain u1 where u1: "thread_runq_schedule d u = Some u1" "u' = u1 \<or> loop d u1 = Some u'"
      by (auto simp: Let_def bind_eq_Some_conv split: if_splits)
    show "d = c \<longrightarrow> P u u'"
    proof
      assume d: "d = c"
      have "P u u1" using assms(2) u1(1) d by blast
      then show "P u u'" using u1(2) ih [of d u1 u'] assms(3) d by blast
    qed
  qed
  then show ?thesis using assms(1) by blast
qed

lemma yield_rounds:
  assumes "thread_yield c s = Some s'" "\<And>s. P s s" "\<And>s s'. thread_runq_schedule c s = Some s' \<Longrightarrow> P s s'" "\<And>s s' s''. P s s' \<Longrightarrow> P s' s'' \<Longrightarrow> P s s''"
  shows "P s s'"
  using assms(1,2) yield_loop_rounds [of c s s' P, OF _ assms(3,4)] by (auto simp: thread_yield_def split: if_splits)

lemma yield_maps [maps]: "thread_yield c s = Some s' \<Longrightarrow> idle_frame c s s'"
  by (erule yield_rounds [where P = "idle_frame c"]) (auto intro: runq_schedule_maps idle_trans)

lemma step_maps [maps]:
  "thread_sleep_common c w s = Some s' \<Longrightarrow> idle_frame c s s'" "thread_exit c s = Some s' \<Longrightarrow> idle_frame c s s'"
  by (auto simp: thread_sleep_common_def thread_exit_def thread_set_wchan_def bind_eq_Some_conv Let_def dest!: runq_schedule_maps)

lemma periodic_maps [maps]: "thread_report_periodic_event c s = Some s' \<Longrightarrow> idle_frame c s s'"
  by (auto simp: thread_report_periodic_event_def thread_balance_idle_tick_def thread_sched_rt_tick_def thread_sched_fs_tick_def set_fs_group_def
    set_fs_queue_def bind_eq_Some_conv Let_def dest!: runq_wakeup_balancer_maps split: if_splits)

lemma schedule_maps [maps]: "thread_schedule c s = Some s' \<Longrightarrow> idle_frame c s s'"
  by (auto simp: thread_schedule_def dest!: yield_maps split: if_splits)

lemma runq_add_clears: "thread_runq_add c t s = Some s' \<Longrightarrow> sy_idle_runqs s' c' \<Longrightarrow> sy_idle_runqs s c'"
proof -
  assume a: "thread_runq_add c t s = Some s'" "sy_idle_runqs s' c'"
  obtain s1 where s1: "same_maps s s1" and s': "s' = (let s = (if rq_nr_threads (rq s1 c) = 0 then s1\<lparr>sy_idle_runqs := (sy_idle_runqs s1)(c := False)\<rparr> else s1);
      s = set_runq c ((rq s c)\<lparr>rq_nr_threads := rq_nr_threads (rq s c) + 1\<rparr>) s; cur = rq_current (rq s c);
      s = (if thread_real_sched_class (th s t) < thread_real_sched_class (th s cur) then thread_set_flag cur THREAD_YIELD s else s)
      in set_thread t ((th s t)\<lparr>th_runq := Some c, th_in_runq := True\<rparr>) s)"
    using a(1) by (auto simp: thread_runq_add_def bind_eq_Some_conv Let_def thread_sched_idle_add_def dest!: maps split: if_splits)
  show ?thesis using a(2) s1 unfolding s' by (auto simp: Let_def same_maps_def thread_set_flag_def split: if_splits)
qed

text \<open>Waking up, one section at a time.\<close>

lemma wakeup_begin_maps [maps]: "wakeup_begin self t s = Some (r, s') \<Longrightarrow> same_maps s s'"
  by (auto simp: wakeup_begin_def set_state_def thread_clear_wchan_def bind_eq_Some_conv split: if_splits option.splits)

lemma wakeup_end_runq:
  assumes "wakeup_end t e s = Some s'"
  shows "\<exists>c. thread_runq_wakeup c t (set_thread t ((th s t)\<lparr>th_wakeup_error := e\<rparr>) s) = Some s'"
  using assms unfolding wakeup_end_def Let_def bind_eq_Some_conv by blast

lemma wakeup_end_maps:
  assumes "wakeup_end t e s = Some s'"
  shows "sy_active_runqs s' = sy_active_runqs s" "sy_idle_runqs s' c' \<Longrightarrow> sy_idle_runqs s c'"
proof -
  define s1 where "s1 = set_thread t ((th s t)\<lparr>th_wakeup_error := e\<rparr>) s"
  obtain c where c: "thread_runq_add c t s1 = Some s'"
    using wakeup_end_runq [OF assms] unfolding s1_def [symmetric] by (auto simp: thread_runq_wakeup_def bind_eq_Some_conv split: if_splits)
  have "same_maps s s1" by (simp add: s1_def)
  then show "sy_active_runqs s' = sy_active_runqs s" "sy_idle_runqs s' c' \<Longrightarrow> sy_idle_runqs s c'"
    using runq_add_maps [OF c] runq_add_clears [OF c] unfolding idle_frame_def same_maps_def by auto
qed

lemma wakeup_split:
  assumes "thread_wakeup_common self t e s = Some (r, s')"
  shows "wakeup_begin self t s = Some (r, s') \<or> (\<exists>u s1. t = Some u \<and> wakeup_begin self t s = Some (None, s1) \<and> wakeup_end u e s1 = Some s' \<and> r = None)"
  using assms by (auto simp: thread_wakeup_common_def bind_eq_Some_conv split: if_splits)

lemma wakeup_maps:
  assumes "thread_wakeup_common self t e s = Some (r, s')"
  shows "sy_active_runqs s' = sy_active_runqs s" "sy_idle_runqs s' c' \<Longrightarrow> sy_idle_runqs s c'"
proof -
  have "sy_active_runqs s' = sy_active_runqs s \<and> (sy_idle_runqs s' c' \<longrightarrow> sy_idle_runqs s c')"
    using wakeup_split [OF assms]
  proof (elim disjE exE conjE)
    fix u s1 assume "wakeup_begin self t s = Some (None, s1)" and e: "wakeup_end u e s1 = Some s'"
    then have "same_maps s s1" by (simp add: wakeup_begin_maps)
    then show ?thesis using wakeup_end_maps [OF e] by (simp add: same_maps_def)
  qed (simp add: wakeup_begin_maps [unfolded same_maps_def])
  then show "sy_active_runqs s' = sy_active_runqs s" "sy_idle_runqs s' c' \<Longrightarrow> sy_idle_runqs s c'" by simp_all
qed

section \<open>The parameters of the threads\<close>

definition par :: "thread \<Rightarrow> thread_sched_data \<times> thread_sched_data \<times> bool \<times> cpumap \<times> u16 \<times> u16" where
  "par v = (th_user v, th_real v, th_boosted v, th_cpumap v, th_pin_level v, th_preempt_level v)"

definition special :: "thread_runq \<Rightarrow> nat option \<times> nat option" where
  "special w = (rq_balancer w, rq_idler w)"

definition same_params :: "sched \<Rightarrow> sched \<Rightarrow> bool" where
  "same_params s s' \<longleftrightarrow> (\<forall>t. par (th s' t) = par (th s t)) \<and> (\<forall>c. special (rq s' c) = special (rq s c))"

lemma par_update [simp]:
  "par (v\<lparr>th_flags := f\<rparr>) = par v" "par (v\<lparr>th_fs := d\<rparr>) = par v" "par (v\<lparr>th_in_runq := b\<rparr>) = par v" "par (v\<lparr>th_runq := c\<rparr>) = par v"
  "par (v\<lparr>th_state := st\<rparr>) = par v" "par (v\<lparr>th_wchan_addr := w\<rparr>) = par v" "par (v\<lparr>th_wakeup_error := e\<rparr>) = par v" "par (v\<lparr>th_rt_time_slice := ts\<rparr>) = par v"
  "par (v\<lparr>th_runq := c, th_in_runq := b\<rparr>) = par v"
  by (simp_all add: par_def)

lemma special_update [simp]:
  "special (w\<lparr>rq_nr_threads := x1\<rparr>) = special w" "special (w\<lparr>rq_current := x2\<rparr>) = special w" "special (w\<lparr>rq_rt_bitmap := x3\<rparr>) = special w"
  "special (w\<lparr>rq_fs_round := x4\<rparr>) = special w" "special (w\<lparr>rq_fs_weight := x5\<rparr>) = special w" "special (w\<lparr>rq_fs_runqs := x6\<rparr>) = special w"
  "special (w\<lparr>rq_fs_active := x7\<rparr>) = special w" "special (w\<lparr>rq_fs_expired := x8\<rparr>) = special w" "special (w\<lparr>rq_idle_balance_ticks := x9\<rparr>) = special w"
  by (simp_all add: special_def)

lemma params_set_runq [simp]: "special w = special (rq s' c) \<Longrightarrow> same_params s (set_runq c w s') \<longleftrightarrow> same_params s s'"
  "special w = special (rq s c) \<Longrightarrow> same_params (set_runq c w s) s' \<longleftrightarrow> same_params s s'"
  by (auto simp: same_params_def)

lemma params_select [simp]:
  "same_params s (set_fs t d s') \<longleftrightarrow> same_params s s'" "same_params s (set_fs_queue c i q s') \<longleftrightarrow> same_params s s'"
  "same_params s (set_fs_group c i g w' s') \<longleftrightarrow> same_params s s'" "same_params s (s'\<lparr>sy_links := h\<rparr>) \<longleftrightarrow> same_params s s'" "same_params s (s'\<lparr>sy_idle_runqs := m\<rparr>) \<longleftrightarrow> same_params s s'"
  "same_params s (thread_set_flag t f s') \<longleftrightarrow> same_params s s'" "same_params s (thread_clear_flag t f s') \<longleftrightarrow> same_params s s'" "same_params s s"
  "same_params s (set_state t st s') \<longleftrightarrow> same_params s s'" "same_params s (thread_clear_wchan t s') \<longleftrightarrow> same_params s s'" "same_params s (runq_set_current c1 t s') \<longleftrightarrow> same_params s s'"
  "same_params (set_fs t d s) s' \<longleftrightarrow> same_params s s'" "same_params (set_fs_queue c i q s) s' \<longleftrightarrow> same_params s s'"
  "same_params (set_fs_group c i g w' s) s' \<longleftrightarrow> same_params s s'" "same_params (s\<lparr>sy_links := h\<rparr>) s' \<longleftrightarrow> same_params s s'" "same_params (s\<lparr>sy_idle_runqs := m\<rparr>) s' \<longleftrightarrow> same_params s s'"
  "same_params (thread_set_flag t f s) s' \<longleftrightarrow> same_params s s'" "same_params (thread_clear_flag t f s) s' \<longleftrightarrow> same_params s s'"
  "same_params (set_state t st s) s' \<longleftrightarrow> same_params s s'" "same_params (thread_clear_wchan t s) s' \<longleftrightarrow> same_params s s'"
  by (auto simp: same_params_def set_fs_queue_def set_fs_group_def thread_set_flag_def thread_clear_flag_def set_state_def thread_clear_wchan_def runq_set_current_def split: if_splits)

lemma params_set_thread [simp]: "par v = par (th s' t) \<Longrightarrow> same_params s (set_thread t v s') \<longleftrightarrow> same_params s s'"
  "par v = par (th s t) \<Longrightarrow> same_params (set_thread t v s) s' \<longleftrightarrow> same_params s s'"
  by (auto simp: same_params_def)

lemma params_trans: "same_params s s' \<Longrightarrow> same_params s' s'' \<Longrightarrow> same_params s s''" by (simp add: same_params_def)

lemma on_links_params [params]: "on_links f s = Some s' \<Longrightarrow> same_params s s'"
  by (auto simp: on_links_def bind_eq_Some_conv)

lemma rt_params [params]:
  "thread_sched_rt_remove c t s = Some s' \<Longrightarrow> same_params s s'" "thread_sched_rt_add c t s = Some s' \<Longrightarrow> same_params s s'"
  by (auto simp: thread_sched_rt_remove_def thread_sched_rt_add_def bind_eq_Some_conv Let_def dest!: params split: if_splits)

lemma fs_place_params [params]:
  "fs_enqueue_place c i g w s = Some s' \<Longrightarrow> same_params s s'" "fs_dequeue_place c i g s = Some s' \<Longrightarrow> same_params s s'"
  by (auto simp: fs_enqueue_place_def fs_dequeue_place_def bind_eq_Some_conv Let_def dest!: params intro: params_trans split: if_splits)

lemma fs_enqueue_work_params [params]: "fs_enqueue_work c i g w rnd t s = Some s' \<Longrightarrow> same_params s s'"
  by (auto simp: fs_enqueue_work_def bind_eq_Some_conv Let_def split: if_splits)

lemma fs_restart_params [params]: "thread_sched_fs_restart c s = Some s' \<Longrightarrow> same_params s s'"
  by (auto simp: thread_sched_fs_restart_def bind_eq_Some_conv Let_def split: if_splits)

lemma fs_enqueue_params [params]: "thread_sched_fs_enqueue c i rnd t s = Some s' \<Longrightarrow> same_params s s'"
  by (auto simp: thread_sched_fs_enqueue_def bind_eq_Some_conv Let_def dest!: params) (simp_all add: same_params_def)

lemma fs_dequeue_params [params]: "thread_sched_fs_dequeue t s = Some s' \<Longrightarrow> same_params s s'"
  by (auto simp: thread_sched_fs_dequeue_def bind_eq_Some_conv Let_def dest!: params) (simp_all add: same_params_def)

lemma fs_add_params [params]: "thread_sched_fs_add c t s = Some s' \<Longrightarrow> same_params s s'"
  by (auto simp: thread_sched_fs_add_def bind_eq_Some_conv Let_def dest!: params intro: params_trans split: if_splits)

lemma runq_add_params [params]: "thread_runq_add c t s = Some s' \<Longrightarrow> same_params s s'"
  by (auto simp: thread_runq_add_def bind_eq_Some_conv Let_def thread_sched_idle_add_def dest!: params split: if_splits)

lemma runq_wakeup_params [params]: "thread_runq_wakeup c t s = Some s' \<Longrightarrow> same_params s s'"
  by (auto simp: thread_runq_wakeup_def bind_eq_Some_conv dest!: params)

lemma runq_wakeup_balancer_params [params]: "thread_runq_wakeup_balancer c s = Some s' \<Longrightarrow> same_params s s'"
  by (auto simp: thread_runq_wakeup_balancer_def bind_eq_Some_conv dest!: params split: if_splits)

lemma fs_remove_params [params]: "thread_sched_fs_remove c t s = Some s' \<Longrightarrow> same_params s s'"
  by (auto simp: thread_sched_fs_remove_def bind_eq_Some_conv Let_def dest!: params intro: params_trans split: if_splits)

lemma fs_deactivate_params [params]: "thread_sched_fs_deactivate c t s = Some s' \<Longrightarrow> same_params s s'"
  by (auto simp: thread_sched_fs_deactivate_def bind_eq_Some_conv Let_def dest!: params split: if_splits) (simp_all add: same_params_def)

lemma fs_put_prev_params [params]: "thread_sched_fs_put_prev c t s = Some s' \<Longrightarrow> same_params s s'"
  by (auto simp: thread_sched_fs_put_prev_def bind_eq_Some_conv Let_def dest!: params intro: params_trans split: if_splits)

lemma runq_remove_params [params]: "thread_runq_remove c t s = Some s' \<Longrightarrow> same_params s s'"
  by (auto simp: thread_runq_remove_def thread_sched_idle_remove_def bind_eq_Some_conv Let_def dest!: params split: if_splits)

lemma runq_put_prev_params [params]: "thread_runq_put_prev c t s = Some s' \<Longrightarrow> same_params s s'"
  by (auto simp: thread_runq_put_prev_def Let_def thread_sched_rt_put_prev_def dest!: params split: if_splits)

lemma dequeue_params: "sched_dequeue c t s = Some (b, b', s') \<Longrightarrow> same_params s s'"
  by (auto simp: sched_dequeue_def bind_eq_Some_conv dest!: params intro: params_trans split: if_splits)

lemma rt_get_next_params [params]: "thread_sched_rt_get_next c s = Some (n, s') \<Longrightarrow> same_params s s'"
  by (auto simp: thread_sched_rt_get_next_def bind_eq_Some_conv Let_def dest!: params split: if_splits)

lemma fs_get_next_params [params]: "thread_sched_fs_get_next c s = Some (n, s') \<Longrightarrow> same_params s s'"
  by (auto simp: thread_sched_fs_get_next_def bind_eq_Some_conv Let_def dest!: params split: if_splits)

lemma runq_get_next_params [params]:
  assumes "thread_runq_get_next c s = Some (t, s')" shows "same_params s s'"
proof -
  obtain t1 s1 where s1: "thread_sched_rt_get_next c s = Some (t1, s1)" using assms by (auto simp: thread_runq_get_next_def bind_eq_Some_conv)
  have 1: "same_params s s1" using rt_get_next_params [OF s1] .
  show ?thesis
  proof (cases t1)
    case (Some u)
    then have "s' = runq_set_current c u s1" using assms s1 by (auto simp: thread_runq_get_next_def)
    then show ?thesis using 1 by simp
  next
    case None
    then obtain t2 s2 where s2: "thread_sched_fs_get_next c s1 = Some (t2, s2)" using assms s1 by (auto simp: thread_runq_get_next_def bind_eq_Some_conv)
    have "same_params s s2" using fs_get_next_params [OF s2] 1 params_trans by blast
    then show ?thesis using assms s1 None s2
      by (cases t2) (auto simp: thread_runq_get_next_def thread_sched_idle_get_next_def bind_eq_Some_conv)
  qed
qed

lemma runq_schedule_params [params]:
  assumes "thread_runq_schedule c s = Some s'" shows "same_params s s'"
proof -
  define prev s0 where "prev = rq_current (rq s c)" and "s0 = thread_clear_flag prev THREAD_YIELD s"
  obtain s1 s2 n where s: "thread_runq_put_prev c prev s0 = Some s1"
    "(if th_state (th s1 prev) \<noteq> THREAD_RUNNING then do {
         s \<leftarrow> thread_runq_remove c prev s1;
         if rq_nr_threads (rq s c) = 0 \<and> rq_balancer (rq s c) \<noteq> Some prev then thread_runq_wakeup_balancer c s
         else Some s }
       else Some s1) = Some s2" "thread_runq_get_next c s2 = Some (n, s')"
    using assms unfolding thread_runq_schedule_def Let_def prev_def [symmetric] s0_def [symmetric] bind_eq_Some_conv
    by (elim exE conjE) (case_tac y, auto simp: bind_eq_Some_conv)
  have "same_params s s1" using runq_put_prev_params [OF s(1)] by (simp add: s0_def)
  moreover have "same_params s1 s2" using s(2) by (auto simp: bind_eq_Some_conv dest!: params intro: params_trans split: if_splits)
  ultimately show ?thesis using runq_get_next_params [OF s(3)] params_trans by blast
qed

lemma yield_params [params]: "thread_yield c s = Some s' \<Longrightarrow> same_params s s'"
  by (erule yield_rounds [where P = same_params]) (auto intro: runq_schedule_params params_trans)

lemma step_params [params]:
  "thread_sleep_common c w s = Some s' \<Longrightarrow> same_params s s'" "thread_exit c s = Some s' \<Longrightarrow> same_params s s'"
  "thread_schedule c s = Some s' \<Longrightarrow> same_params s s'"
  by (auto simp: thread_sleep_common_def thread_exit_def thread_schedule_def thread_set_wchan_def bind_eq_Some_conv Let_def
    dest!: runq_schedule_params yield_params split: if_splits)

lemma periodic_params [params]: "thread_report_periodic_event c s = Some s' \<Longrightarrow> same_params s s'"
  by (auto simp: thread_report_periodic_event_def thread_balance_idle_tick_def thread_sched_rt_tick_def thread_sched_fs_tick_def set_fs_group_def
    set_fs_queue_def bind_eq_Some_conv Let_def dest!: runq_wakeup_balancer_params split: if_splits)

lemma wakeup_begin_params [params]: "wakeup_begin self t s = Some (r, s') \<Longrightarrow> same_params s s'"
  by (auto simp: wakeup_begin_def bind_eq_Some_conv split: if_splits option.splits)

lemma wakeup_end_params [params]: "wakeup_end u e s = Some s' \<Longrightarrow> same_params s s'"
  by (drule wakeup_end_runq) (auto dest!: runq_wakeup_params)

lemma wakeup_params [params]: "thread_wakeup_common self t e s = Some (r, s') \<Longrightarrow> same_params s s'"
  using wakeup_split [of self t e s r s'] wakeup_begin_params [of self t s] wakeup_end_params [of _ e _ s'] by (auto intro: params_trans)

text \<open>The balancers and the idlers of the run queues are set once.\<close>

lemma params_special: "same_params s s' \<Longrightarrow> rq_balancer (rq s' c) = rq_balancer (rq s c)" "same_params s s' \<Longrightarrow> rq_idler (rq s' c) = rq_idler (rq s c)"
  "same_params s s' \<Longrightarrow> thread_real_sched_class (th s' t) = thread_real_sched_class (th s t)" "same_params s s' \<Longrightarrow> thread_real_priority (th s' t) = thread_real_priority (th s t)"
  by (simp_all add: same_params_def special_def par_def thread_real_sched_class_def thread_real_priority_def)

end
