(* ===== verification/Sched_Flags.thy ===== *)
theory Sched_Flags
  imports Sched_Next Sched_Frame
begin

text \<open>
  The yield flag. A call of the scheduler clears it for the thread that was running; a thread that stays
  current after the call has not been asked to yield again, so the loop of \<^verbatim>\<open>thread_yield\<close>
  makes a single round.
\<close>

unbundle bit_operations_syntax

named_theorems flags \<open>operations that leave the flags of the threads alone\<close>

definition same_flags :: "sched \<Rightarrow> sched \<Rightarrow> bool" where
  "same_flags s s' \<longleftrightarrow> (\<forall>t. th_flags (th s' t) = th_flags (th s t) \<and> th_state (th s' t) = th_state (th s t))
     \<and> (\<forall>c. rq_fs_active (rq s' c) = rq_fs_active (rq s c))"

definition same_counts :: "sched \<Rightarrow> sched \<Rightarrow> bool" where
  "same_counts s s' \<longleftrightarrow> (\<forall>c i. fq_nr_threads (fs_queue s' c i) = fq_nr_threads (fs_queue s c i))"

lemma flags_trans: "same_flags s s' \<Longrightarrow> same_flags s' s'' \<Longrightarrow> same_flags s s''" by (simp add: same_flags_def)

lemma flags_set_runq [simp]:
  "rq_fs_active w = rq_fs_active (rq s' c) \<Longrightarrow> same_flags s (set_runq c w s') \<longleftrightarrow> same_flags s s'"
  "rq_fs_active w = rq_fs_active (rq s c) \<Longrightarrow> same_flags (set_runq c w s) s' \<longleftrightarrow> same_flags s s'"
  by (auto simp: same_flags_def)

lemma flags_set_thread [simp]:
  "th_flags v = th_flags (th s' t) \<Longrightarrow> th_state v = th_state (th s' t) \<Longrightarrow> same_flags s (set_thread t v s') \<longleftrightarrow> same_flags s s'"
  "th_flags v = th_flags (th s t) \<Longrightarrow> th_state v = th_state (th s t) \<Longrightarrow> same_flags (set_thread t v s) s' \<longleftrightarrow> same_flags s s'"
  by (auto simp: same_flags_def)

lemma flags_select [simp]:
  "same_flags s (set_fs t d s') \<longleftrightarrow> same_flags s s'" "same_flags s (set_fs_queue c i q s') \<longleftrightarrow> same_flags s s'"
  "same_flags s (set_fs_group c i g w' s') \<longleftrightarrow> same_flags s s'" "same_flags s (s'\<lparr>sy_links := h\<rparr>) \<longleftrightarrow> same_flags s s'" "same_flags s s"
  "same_flags s (runq_set_current c1 t s') \<longleftrightarrow> same_flags s s'"
  "same_flags (set_fs t d s) s' \<longleftrightarrow> same_flags s s'" "same_flags (set_fs_queue c i q s) s' \<longleftrightarrow> same_flags s s'"
  "same_flags (set_fs_group c i g w' s) s' \<longleftrightarrow> same_flags s s'" "same_flags (s\<lparr>sy_links := h\<rparr>) s' \<longleftrightarrow> same_flags s s'"
  by (auto simp: same_flags_def set_fs_queue_def set_fs_group_def runq_set_current_def split: if_splits)

lemma on_links_flags [flags]: "on_links f s = Some s' \<Longrightarrow> same_flags s s'"
  by (auto simp: on_links_def bind_eq_Some_conv)

lemma rt_remove_flags [flags]: "thread_sched_rt_remove c t s = Some s' \<Longrightarrow> same_flags s s'"
  by (auto simp: thread_sched_rt_remove_def bind_eq_Some_conv Let_def dest!: flags split: if_splits)

text \<open>A thread put back in the run queue it runs from does not ask itself to yield.\<close>

lemma rt_add_flags [flags]: "thread_sched_rt_add c t s = Some s' \<Longrightarrow> rq_current (rq s c) = t \<Longrightarrow> same_flags s s'"
  by (auto simp: thread_sched_rt_add_def bind_eq_Some_conv Let_def on_links_def split: if_splits)

lemma rt_get_next_flags [flags]: "thread_sched_rt_get_next c s = Some (n, s') \<Longrightarrow> same_flags s s'"
  by (auto simp: thread_sched_rt_get_next_def bind_eq_Some_conv Let_def dest!: flags split: if_splits)

lemma fs_place_flags [flags]:
  "fs_enqueue_place c i g w s = Some s' \<Longrightarrow> same_flags s s'" "fs_dequeue_place c i g s = Some s' \<Longrightarrow> same_flags s s'"
  by (auto simp: fs_enqueue_place_def fs_dequeue_place_def bind_eq_Some_conv Let_def dest!: on_links_flags intro: flags_trans split: if_splits)

lemma fs_enqueue_work_flags [flags]: "fs_enqueue_work c i g w rnd t s = Some s' \<Longrightarrow> same_flags s s'"
  by (auto simp: fs_enqueue_work_def bind_eq_Some_conv Let_def split: if_splits)

lemma fs_enqueue_flags [flags]: "thread_sched_fs_enqueue c i rnd t s = Some s' \<Longrightarrow> same_flags s s'"
  by (auto simp: thread_sched_fs_enqueue_def bind_eq_Some_conv Let_def dest!: on_links_flags fs_place_flags fs_enqueue_work_flags) (simp_all add: same_flags_def)

lemma fs_dequeue_flags [flags]: "thread_sched_fs_dequeue t s = Some s' \<Longrightarrow> same_flags s s'"
  by (auto simp: thread_sched_fs_dequeue_def bind_eq_Some_conv Let_def dest!: on_links_flags fs_place_flags) (simp_all add: same_flags_def)

lemma fs_get_next_flags [flags]: "thread_sched_fs_get_next c s = Some (n, s') \<Longrightarrow> same_flags s s'"
  by (auto simp: thread_sched_fs_get_next_def bind_eq_Some_conv Let_def dest!: on_links_flags split: if_splits)

text \<open>Putting a thread back leaves the flags alone, or wakes up the balancer of a processor out of work.\<close>

lemma put_prev_flags:
  assumes "thread_runq_put_prev c t s = Some s'" "rq_current (rq s c) = t"
  shows "same_flags s s' \<or> thread_real_sched_class (th s t) = THREAD_SCHED_CLASS_FS
    \<and> (\<exists>s1. same_flags s s1 \<and> same_params s s1 \<and> fq_nr_threads (fs_queue s1 c (rq_fs_active (rq s1 c))) = 0 \<and> thread_runq_wakeup_balancer c s1 = Some s')"
proof (cases "thread_real_sched_class (th s t) = THREAD_SCHED_CLASS_FS")
  case True
  then have "thread_sched_fs_put_prev c t s = Some s'"
    using assms(1) by (simp add: thread_runq_put_prev_def THREAD_SCHED_CLASS_RT_def THREAD_SCHED_CLASS_FS_def)
  then obtain s1 f where f: "on_links f s = Some s1" and s1: "s' = s1 \<or> thread_sched_fs_deactivate c t s1 = Some s'"
    by (auto simp: thread_sched_fs_put_prev_def bind_eq_Some_conv Let_def split: if_splits)
  note k1 = on_links_flags [OF f] on_links_params [OF f]
  from s1 show ?thesis
  proof
    assume "thread_sched_fs_deactivate c t s1 = Some s'"
    then obtain s2 s3 i rnd d where s2: "thread_sched_fs_dequeue t s1 = Some s2" "thread_sched_fs_enqueue c i rnd t (set_fs t d s2) = Some s3"
      and s3: "s' = s3 \<or> fq_nr_threads (fs_queue s3 c (rq_fs_active (rq s3 c))) = 0 \<and> thread_runq_wakeup_balancer c s3 = Some s'"
      by (auto simp: thread_sched_fs_deactivate_def bind_eq_Some_conv Let_def split: if_splits)
    have "same_flags s s3" "same_params s s3"
      using k1 fs_dequeue_flags [OF s2(1)] fs_dequeue_params [OF s2(1)] fs_enqueue_flags [OF s2(2)] fs_enqueue_params [OF s2(2)]
      by (auto intro: flags_trans params_trans)
    then show ?thesis using s3 True by blast
  qed (use k1 in simp)
qed (use assms in \<open>auto simp: thread_runq_put_prev_def thread_sched_rt_put_prev_def Let_def dest!: rt_add_flags split: if_splits\<close>)

section \<open>After a call of the scheduler\<close>

lemma counts_trans: "same_counts s s' \<Longrightarrow> same_counts s' s'' \<Longrightarrow> same_counts s s''" by (simp add: same_counts_def)

lemma counts_select [simp]:
  "same_counts s s" "same_counts s (set_thread t v s') \<longleftrightarrow> same_counts s s'" "same_counts s (set_fs t d s') \<longleftrightarrow> same_counts s s'"
  "same_counts s (s'\<lparr>sy_links := h\<rparr>) \<longleftrightarrow> same_counts s s'" "same_counts s (s'\<lparr>sy_idle_runqs := m\<rparr>) \<longleftrightarrow> same_counts s s'"
  "same_counts s (thread_set_flag t f s') \<longleftrightarrow> same_counts s s'" "same_counts s (runq_set_current c t s') \<longleftrightarrow> same_counts s s'"
  "rq_fs_runqs w = rq_fs_runqs (rq s' c) \<Longrightarrow> same_counts s (set_runq c w s') \<longleftrightarrow> same_counts s s'"
  "same_counts (set_thread t v s) s' \<longleftrightarrow> same_counts s s'" "same_counts (set_state t st s) s' \<longleftrightarrow> same_counts s s'"
  "same_counts (thread_clear_wchan t s) s' \<longleftrightarrow> same_counts s s'"
  by (auto simp: same_counts_def fs_queue_def thread_set_flag_def runq_set_current_def set_state_def thread_clear_wchan_def)

lemma on_links_counts: "on_links f s = Some s' \<Longrightarrow> same_counts s s'"
  by (auto simp: on_links_def bind_eq_Some_conv)

lemma rt_add_counts:
  "thread_sched_rt_add c t s = Some s' \<Longrightarrow> same_counts s s' \<and> (\<forall>c'. rq_fs_active (rq s' c') = rq_fs_active (rq s c')) \<and> (\<forall>u. th_state (th s' u) = th_state (th s u))"
  by (auto simp: thread_sched_rt_add_def on_links_def bind_eq_Some_conv Let_def thread_set_flag_def fs_queue_def same_counts_def split: if_splits)

lemma rt_get_next_counts: "thread_sched_rt_get_next c s = Some (n, s') \<Longrightarrow> same_counts s s'"
  by (auto simp: thread_sched_rt_get_next_def thread_sched_rt_remove_def on_links_def bind_eq_Some_conv Let_def split: if_splits)

lemma fs_get_next_counts: "thread_sched_fs_get_next c s = Some (n, s') \<Longrightarrow> same_counts s s'"
  by (auto simp: thread_sched_fs_get_next_def bind_eq_Some_conv Let_def on_links_def split: if_splits) (auto simp: same_counts_def)

lemma runq_add_counts:
  assumes "thread_runq_add c t s = Some s'" "cls s t = THREAD_SCHED_CLASS_RT"
  shows "same_counts s s' \<and> (\<forall>c'. rq_fs_active (rq s' c') = rq_fs_active (rq s c')) \<and> (\<forall>u. th_state (th s' u) = th_state (th s u))"
proof -
  obtain s1 where s1: "thread_sched_rt_add c t s = Some s1" and s': "s' = (let s = (if rq_nr_threads (rq s1 c) = 0 then s1\<lparr>sy_idle_runqs := (sy_idle_runqs s1)(c := False)\<rparr> else s1);
      s = set_runq c ((rq s c)\<lparr>rq_nr_threads := rq_nr_threads (rq s c) + 1\<rparr>) s; cur = rq_current (rq s c);
      s = (if thread_real_sched_class (th s t) < thread_real_sched_class (th s cur) then thread_set_flag cur THREAD_YIELD s else s)
      in set_thread t ((th s t)\<lparr>th_runq := Some c, th_in_runq := True\<rparr>) s)"
    using assms by (auto simp: thread_runq_add_def bind_eq_Some_conv Let_def split: if_splits)
  show ?thesis using rt_add_counts [OF s1] unfolding s' by (simp add: Let_def thread_set_flag_def)
qed

lemma wakeup_balancer_counts:
  assumes "thread_runq_wakeup_balancer c s = Some s'" "rq_balancer (rq s c) = Some b" "cls s b = THREAD_SCHED_CLASS_RT"
  shows "same_counts s s' \<and> rq_fs_active (rq s' c) = rq_fs_active (rq s c) \<and> (\<forall>u. th_state (th s u) = THREAD_RUNNING \<longrightarrow> th_state (th s' u) = THREAD_RUNNING)"
proof (cases "th_state (th s b) = THREAD_RUNNING")
  case False
  define s1 where "s1 = set_state b THREAD_RUNNING (thread_clear_wchan b s)"
  have "thread_runq_add c b s1 = Some s'" "cls s1 b = THREAD_SCHED_CLASS_RT" "same_counts s s1" "rq s1 = rq s"
    "\<forall>u. th_state (th s u) = THREAD_RUNNING \<longrightarrow> th_state (th s1 u) = THREAD_RUNNING"
    using assms False by (auto simp: s1_def thread_runq_wakeup_balancer_def thread_runq_wakeup_def set_state_def thread_clear_wchan_def bind_eq_Some_conv split: if_splits)
  then show ?thesis using runq_add_counts [of c b s1 s'] by (auto simp: same_counts_def)
qed (use assms in \<open>simp add: thread_runq_wakeup_balancer_def\<close>)

text \<open>Choosing the next thread changes no flag and no count.\<close>

lemma get_next_flags:
  assumes "thread_runq_get_next c s = Some (t, s')"
  shows "same_flags s s' \<and> same_counts s s'"
proof -
  obtain n s1 where s1: "thread_sched_rt_get_next c s = Some (n, s1)" using assms by (auto simp: thread_runq_get_next_def bind_eq_Some_conv)
  note 1 = rt_get_next_flags [OF s1] rt_get_next_counts [OF s1]
  show ?thesis
  proof (cases n)
    case (Some u)
    then show ?thesis using assms s1 1 by (auto simp: thread_runq_get_next_def)
  next
    case None
    then obtain t2 s2 where s2: "thread_sched_fs_get_next c s1 = Some (t2, s2)" using assms s1 by (auto simp: thread_runq_get_next_def bind_eq_Some_conv)
    have "same_flags s s2 \<and> same_counts s s2" using 1 fs_get_next_flags [OF s2] fs_get_next_counts [OF s2] flags_trans counts_trans by blast
    then show ?thesis using assms s1 None s2
      by (cases t2) (auto simp: thread_runq_get_next_def thread_sched_idle_get_next_def bind_eq_Some_conv)
  qed
qed

lemma test_flag: "same_flags s s' \<Longrightarrow> thread_test_flag s' t f = thread_test_flag s t f"
  by (simp add: same_flags_def thread_test_flag_def)

lemma word_clear [simp]: "(a AND NOT f) AND f = (0::'a::len word)" by (rule bit_word_eqI) (auto simp: bit_simps)

text \<open>A running thread that stays current has not been asked to yield.\<close>

lemma schedule_settles:
  assumes ok: "sys_ok C s A X n" and c: "c \<in> C" and run: "th_state (th s (rq_current (rq s c))) = THREAD_RUNNING"
    and st: "thread_runq_schedule c s = Some s'" "rest_ok C s' q' r' A'" "rq_current (rq s' c) = rq_current (rq s c)"
  shows "\<not> thread_test_flag s' (rq_current (rq s c)) THREAD_YIELD"
proof
  define prev s0 where "prev = rq_current (rq s c)" and "s0 = thread_clear_flag prev THREAD_YIELD s"
  assume f: "thread_test_flag s' (rq_current (rq s c)) THREAD_YIELD"
  obtain s1 s2 n where s1: "thread_runq_put_prev c prev s0 = Some s1" and s2: "(if th_state (th s1 prev) \<noteq> THREAD_RUNNING then do {
         s \<leftarrow> thread_runq_remove c prev s1;
         if rq_nr_threads (rq s c) = 0 \<and> rq_balancer (rq s c) \<noteq> Some prev then thread_runq_wakeup_balancer c s
         else Some s }
       else Some s1) = Some s2" and n: "thread_runq_get_next c s2 = Some (n, s')"
    using st(1) unfolding thread_runq_schedule_def Let_def prev_def [symmetric] s0_def [symmetric] bind_eq_Some_conv
    by (elim exE conjE) (case_tac y, auto simp: bind_eq_Some_conv)
  have rq0: "rq s0 = rq s" and st0: "th_state (th s0 prev) = THREAD_RUNNING" using run by (simp_all add: s0_def thread_clear_flag_def prev_def)
  have f0: "\<not> thread_test_flag s0 prev THREAD_YIELD" by (simp add: s0_def thread_clear_flag_def thread_test_flag_def)
  obtain b where b: "rq_balancer (rq s c) = Some b" "cls s b = THREAD_SCHED_CLASS_RT"
    using ok c by (auto simp: sys_ok_def balancer_ok_def)
  have b': "rq_balancer (rq u c) = Some b \<and> cls u b = THREAD_SCHED_CLASS_RT" if "same_params s0 u" for u
    using params_special(1,3) [of s u] that b by (simp add: s0_def)
  have "th_state (th s1 prev) = THREAD_RUNNING"
    using put_prev_flags [OF s1] st0 wakeup_balancer_counts [of c _ s1 b] b' by (auto simp: rq0 prev_def same_flags_def)
  then have e: "s2 = s1" using s2 by simp
  note g = get_next_flags [OF n, unfolded e]
  have p: "same_params s s'" by (rule runq_schedule_params [OF st(1)])
  obtain u where u: "cls s prev = THREAD_SCHED_CLASS_FS" "same_params s0 u" "fq_nr_threads (fs_queue u c (rq_fs_active (rq u c))) = 0"
    "thread_runq_wakeup_balancer c u = Some s1"
    using put_prev_flags [OF s1] f f0 g test_flag [of s1 s' prev THREAD_YIELD] test_flag [of s0 s1 prev THREAD_YIELD]
    by (auto simp: rq0 prev_def s0_def thread_clear_flag_def)
  have pu: "same_params s u" using u(2) by (simp add: s0_def)
  have z: "fq_nr_threads (fs_queue s' c (rq_fs_active (rq s' c))) = 0"
    using wakeup_balancer_counts [OF u(4)] b params_special(1,3) [OF pu] u(3) g by (simp add: same_counts_def same_flags_def)
  have "r' c = Some prev"
  proof -
    have k: "cls s' prev = THREAD_SCHED_CLASS_FS" using u(1) params_special(3) [OF p] by simp
    have "rq_idler (rq s' c) \<noteq> Some prev"
      using st(2) c k by (auto simp: rest_ok_def sys_ok_def THREAD_SCHED_CLASS_IDLE_def THREAD_SCHED_CLASS_FS_def)
    then show ?thesis using st(2,3) c by (auto simp: rest_ok_def cur_ok_def prev_def split: option.splits)
  qed
  then have "prev \<in> set (q_thr q' c (rq_fs_active (rq s' c)))"
    using st(2) c u(1) params_special(3) [OF p] by (auto simp: rest_ok_def runqs_ok_def runq_ok_def fs_ok_def)
  then show False using member_active_count [of C s' q' r' A' c prev] st(2) c z by (simp add: rest_ok_def)
qed

lemma yield_once:
  assumes "sys_ok C s A X n" "c \<in> C" "th_state (th s (rq_current (rq s c))) = THREAD_RUNNING"
    and "thread_runq_schedule c s = Some s'" "rest_ok C s' q' r' A'"
  shows "yield_loop c s = Some s'" "rq_current (rq s' c) = rq_current (rq s c) \<Longrightarrow> \<not> thread_test_flag s' (rq_current (rq s c)) THREAD_YIELD"
  unfolding yield_loop.simps [of c s] using assms(4) schedule_settles [OF assms] by (auto simp: Let_def)

end
