(* ===== verification/Sched_Step.thy ===== *)
theory Sched_Step
  imports Sched_Flags
begin

text \<open>
  What a processor does: yielding, sleeping and exiting keep the invariant, and the thread that runs
  next is a best one of the run queue.
\<close>

unbundle bit_operations_syntax

section \<open>The steps of a processor\<close>

definition sched_inv :: "nat set \<Rightarrow> sched \<Rightarrow> bool" where
  "sched_inv C s \<longleftrightarrow> (\<exists>q r A. rest_ok C s q r A)"

text \<open>The thread a processor should run: no thread of its run queue is of a better class, and none of
  the same class has a higher real-time priority.\<close>

definition best_thread :: "sched \<Rightarrow> nat \<Rightarrow> nat \<Rightarrow> bool" where
  "best_thread s c t \<longleftrightarrow> (let M = {u. th_in_runq (th s u) \<and> th_runq (th s u) = Some c} in
     if M = {} then rq_idler (rq s c) = Some t
     else t \<in> M \<and> (\<forall>u\<in>M. cls s t < cls s u \<or> cls s t = cls s u \<and> (cls s t = THREAD_SCHED_CLASS_RT \<longrightarrow> pri s u \<le> pri s t)))"

lemma rest_members:
  assumes "rest_ok C s q r A" "c \<in> C"
  shows "A c = {u. th_in_runq (th s u) \<and> th_runq (th s u) = Some c}"
  using assms by (auto simp: rest_ok_def sys_ok_def member_ok_def)

lemma chosen_best:
  assumes "rest_ok C s q r A" "c \<in> C" and ch: "chosen s2 q2 c (A c) t" and rq2: "runqs_ok C s2 q2 r2 A"
    and same: "\<And>u. cls s u = cls s2 u \<and> pri s u = pri s2 u" "rq_idler (rq s c) = rq_idler (rq s2 c)"
  shows "best_thread s c t"
proof (cases "A c = {}")
  case True
  then show ?thesis using ch same unfolding best_thread_def rest_members [OF assms(1,2), symmetric] by (simp add: chosen_def)
next
  case False
  have cl: "cls s2 u = THREAD_SCHED_CLASS_RT \<or> cls s2 u = THREAD_SCHED_CLASS_FS" if "u \<in> A c" for u
    using runqs_okD(2) [OF rq2 assms(2)] that by (auto simp: runq_ok_def)
  have "t \<in> A c \<and> (\<forall>u\<in>A c. cls s t < cls s u \<or> cls s t = cls s u \<and> (cls s t = THREAD_SCHED_CLASS_RT \<longrightarrow> pri s u \<le> pri s t))"
  proof (cases "\<exists>u\<in>A c. cls s2 u = THREAD_SCHED_CLASS_RT")
    case True
    then have "rt_first s2 q2 c (A c) t" using ch by (simp add: chosen_def)
    then show ?thesis using cl by (fastforce simp: rt_first_def same THREAD_SCHED_CLASS_RT_def THREAD_SCHED_CLASS_FS_def)
  next
    case rt: False
    then have t: "t \<in> set (q_thr q2 c (rq_fs_active (rq s2 c)))" using ch False by (simp add: chosen_def)
    have "t \<in> A c" using fs_okD(4) [OF runqs_okD(4) [OF rq2 assms(2)] t] .
    then show ?thesis using rt cl by (auto simp: same)
  qed
  then show ?thesis using False unfolding best_thread_def rest_members [OF assms(1,2), symmetric] by simp
qed

lemma current_running:
  assumes "rest_ok C s q r A" "c \<in> C"
  shows "th_state (th s (rq_current (rq s c))) = THREAD_RUNNING"
    "r c \<noteq> None \<Longrightarrow> r c = Some (rq_current (rq s c)) \<and> rq_current (rq s c) \<in> A c \<and> th_in_runq (th s (rq_current (rq s c))) \<and> th_runq (th s (rq_current (rq s c))) = Some c"
    "r c = None \<longleftrightarrow> rq_idler (rq s c) = Some (rq_current (rq s c))"
proof -
  note a = assms(1) [unfolded rest_ok_def]
  have cur: "cur_ok s r c" using a assms(2) by simp
  show 2: "r c \<noteq> None \<Longrightarrow> r c = Some (rq_current (rq s c)) \<and> rq_current (rq s c) \<in> A c \<and> th_in_runq (th s (rq_current (rq s c))) \<and> th_runq (th s (rq_current (rq s c))) = Some c"
    using cur runqs_okD(2) [of C s q r A c] a assms(2) rest_members [OF assms] by (auto simp: cur_ok_def runq_ok_def)
  have m: "member_ok C s A (rq_current (rq s c))" using a by (simp add: sys_ok_def)
  show "th_state (th s (rq_current (rq s c))) = THREAD_RUNNING"
    using cur 2 m by (cases "r c") (auto simp: cur_ok_def member_ok_def)
  show "r c = None \<longleftrightarrow> rq_idler (rq s c) = Some (rq_current (rq s c))"
  proof
    assume i: "rq_idler (rq s c) = Some (rq_current (rq s c))"
    then have "cls s (rq_current (rq s c)) = THREAD_SCHED_CLASS_IDLE" using a assms(2) by (auto simp: sys_ok_def)
    moreover have "cls s u \<noteq> THREAD_SCHED_CLASS_IDLE" if "u \<in> A c" for u
      using runqs_okD(2) [of C s q r A c] a assms(2) that
      by (auto simp: runq_ok_def THREAD_SCHED_CLASS_RT_def THREAD_SCHED_CLASS_FS_def THREAD_SCHED_CLASS_IDLE_def)
    ultimately show "r c = None" using 2 by blast
  qed (use cur in \<open>simp add: cur_ok_def\<close>)
qed

text \<open>A call to the scheduler from a state where only the current thread is ahead.\<close>

lemma schedule_running:
  assumes ok: "runqs_ok C s q r A" "sys_ok C s A {} (\<lambda>_. 0)" "works_ok s {rq_current (rq s c)}" "\<forall>c\<in>C. awake s A c \<and> cur_ok s r c" and c: "c \<in> C"
    and run: "ran_ok s (rq_current (rq s c))" "th_state (th s (rq_current (rq s c))) = THREAD_RUNNING"
  shows "\<exists>s'. thread_runq_schedule c s = Some s' \<and> sched_inv C s' \<and> best_thread s' c (rq_current (rq s' c))"
proof -
  obtain s2 q2 A2 t s' q' r' where o: "thread_runq_schedule c s = Some s'" "rest_ok C s' q' r' A2" "rq_current (rq s' c) = t"
    "runqs_ok C s2 q2 (r(c := None)) A2" "chosen s2 q2 c (A2 c) t" "\<forall>u. th_state (th s' u) = th_state (th s2 u) \<and> cls s' u = cls s2 u \<and> pri s' u = pri s2 u"
    "rq_idler (rq s' c) = rq_idler (rq s2 c)"
    using schedule_ok [OF ok c run(1)] run(2) by auto
  have "best_thread s' c t" by (rule chosen_best [OF o(2) c o(5,4)]) (use o(6,7) in simp_all)
  then show ?thesis using o(1-3) by (auto simp: sched_inv_def)
qed

lemma ran_ok_within: "works_ok s {} \<Longrightarrow> ran_ok s t"
  by (auto simp: works_ok_def ran_ok_def word_le_nat_alt)

lemma call_ok:
  assumes "sched_inv C s" "c \<in> C"
  shows "\<exists>s'. thread_runq_schedule c s = Some s' \<and> yield_loop c s = Some s' \<and> sched_inv C s' \<and> best_thread s' c (rq_current (rq s' c))
    \<and> (rq_current (rq s' c) = rq_current (rq s c) \<longrightarrow> \<not> thread_test_flag s' (rq_current (rq s c)) THREAD_YIELD)"
proof -
  obtain q r A where ok: "rest_ok C s q r A" using assms(1) by (auto simp: sched_inv_def)
  note a = ok [unfolded rest_ok_def] and run = current_running(1) [OF ok assms(2)]
  have "works_ok s {rq_current (rq s c)}" using a by (simp add: works_ok_def)
  then obtain s' where s': "thread_runq_schedule c s = Some s'" "sched_inv C s'" "best_thread s' c (rq_current (rq s' c))"
    using schedule_running [of C s q r A c] a assms(2) run ran_ok_within [of s] by blast
  obtain q' r' A' where ok': "rest_ok C s' q' r' A'" using s'(2) by (auto simp: sched_inv_def)
  have sys: "sys_ok C s A {} (\<lambda>_. 0)" using a by simp
  show ?thesis using s' yield_once [OF sys assms(2) run s'(1) ok'] by blast
qed

lemma yield_ok:
  assumes "sched_inv C s" "c \<in> C"
  shows "\<exists>s'. thread_yield c s = Some s' \<and> sched_inv C s' \<and> (\<not> thread_preempt_enabled c s \<longrightarrow> s' = s)
    \<and> (thread_preempt_enabled c s \<longrightarrow> thread_runq_schedule c s = Some s' \<and> best_thread s' c (rq_current (rq s' c))
      \<and> (rq_current (rq s' c) = rq_current (rq s c) \<longrightarrow> \<not> thread_test_flag s' (rq_current (rq s c)) THREAD_YIELD))"
  using call_ok [OF assms] assms(1) by (cases "thread_preempt_enabled c s") (auto simp: thread_yield_def)

section \<open>Giving up the processor\<close>

lemma leave_ok:
  assumes ok: "rest_ok C s q r A" and c: "c \<in> C" and cur: "rq_idler (rq s c) \<noteq> Some (rq_current (rq s c))"
    and bal: "rq_balancer (rq s c) = Some (rq_current (rq s c)) \<longrightarrow> rq_idle_balance_ticks (rq s c) \<noteq> 0
      \<and> (fq_nr_threads (fs_queue s c (rq_fs_active (rq s c))) \<noteq> 0 \<or> (\<forall>u\<in>A c. cls s u \<noteq> THREAD_SCHED_CLASS_FS))"
    and st: "st \<noteq> THREAD_RUNNING"
    and s1: "s1 = set_thread (rq_current (rq s c)) ((th s (rq_current (rq s c)))\<lparr>th_wchan_addr := w, th_state := st\<rparr>) s"
  shows "\<exists>s'. thread_runq_schedule c s1 = Some s' \<and> sched_inv C s' \<and> best_thread s' c (rq_current (rq s' c))
    \<and> \<not> (th_in_runq (th s' (rq_current (rq s c))) \<and> th_runq (th s' (rq_current (rq s c))) = Some c)"
proof -
  define t where "t = rq_current (rq s c)"
  note a = ok [unfolded rest_ok_def]
  have rc: "r c = Some t" "t \<in> A c" "th_in_runq (th s t)" using current_running(2,3) [OF ok c] cur by (auto simp: t_def)
  have uniq: "rq_idler (rq s c') \<noteq> Some t \<and> rq_balancer (rq s c') \<noteq> Some t" if "c' \<in> C" "c' \<noteq> c" for c'
  proof
    have "cls s t \<noteq> THREAD_SCHED_CLASS_IDLE"
      using runqs_okD(2) [of C s q r A c] a c rc(2)
      by (auto simp: runq_ok_def THREAD_SCHED_CLASS_RT_def THREAD_SCHED_CLASS_FS_def THREAD_SCHED_CLASS_IDLE_def)
    then show "rq_idler (rq s c') \<noteq> Some t" using a that by (auto simp: sys_ok_def)
    show "rq_balancer (rq s c') \<noteq> Some t"
    proof
      assume "rq_balancer (rq s c') = Some t"
      then have "balancer_ok s {} c' t" using a that by (auto simp: sys_ok_def)
      moreover have "th_runq (th s t) = Some c" "th_state (th s t) = THREAD_RUNNING"
        using current_running(1,2) [OF ok c] rc(1) by (simp_all add: t_def)
      ultimately show False using that(2) by (simp add: balancer_ok_def)
    qed
  qed
  have e: "cls s1 u = cls s u" "pri s1 u = pri s u" "fsd s1 u = fsd s u" "th_in_runq (th s1 u) = th_in_runq (th s u)" "th_runq (th s1 u) = th_runq (th s u)"
    "rq s1 = rq s" "sy_links s1 = sy_links s" "u \<noteq> t \<Longrightarrow> th_state (th s1 u) = th_state (th s u)" "th_state (th s1 t) = st" for u
    by (simp_all add: s1 t_def)
  have fq: "fs_queue s1 = fs_queue s" by (simp add: fs_queue_def e fun_eq_iff)
  have aw: "awake s1 B c' = awake s B c'" for B c' by (simp add: awake_def e fq)
  have r1: "runqs_ok C s1 q r A" by (rule runqs_ok_view [of C s]) (use a in \<open>simp_all add: e same_runq_def same_sched_def\<close>)
  have k1: "sys_ok C s1 A {t} (\<lambda>_. 0)"
    by (rule sys_ok_change [of C s A "{}" "\<lambda>_. 0" _ t]) (use a in \<open>auto simp: e sys_ok_def\<close>)
  have w1: "works_ok s1 {rq_current (rq s1 c)}" using a by (simp add: works_ok_def e)
  have c1: "cur_ok s1 r c'" if "c' \<in> C" for c'
  proof -
    have "rq_idler (rq s c') \<noteq> Some t" "rq_balancer (rq s c') = Some t \<longrightarrow> rq_idle_balance_ticks (rq s c') \<noteq> 0"
      using uniq that cur bal by (cases "c' = c"; auto simp: t_def)+
    moreover have "cur_ok s r c'" using a that by simp
    ultimately show ?thesis using e(8) by (auto simp: cur_ok_def e(6) split: option.splits)
  qed
  have ran: "ran_ok s1 (rq_current (rq s1 c))" using ran_ok_within a by (simp add: ran_ok_def e)
  have bal1: "rq_balancer (rq s1 c) = Some t \<longrightarrow> awake s (A(c := A c - {t})) c" using bal by (auto simp: awake_def e t_def)
  obtain s2 q2 A2 u s' q' r' where o: "thread_runq_schedule c s1 = Some s'" "rest_ok C s' q' r' A2" "rq_current (rq s' c) = u"
    "runqs_ok C s2 q2 (r(c := None)) A2" "chosen s2 q2 c (A2 c) u" "\<forall>u. th_state (th s' u) = th_state (th s2 u) \<and> cls s' u = cls s2 u \<and> pri s' u = pri s2 u"
    "rq_idler (rq s' c) = rq_idler (rq s2 c)" "t \<notin> A2 c"
  proof -
    have "rq_current (rq s1 c) = t" by (simp add: e t_def)
    then have "{t} = (if th_state (th s1 (rq_current (rq s1 c))) = THREAD_RUNNING then {} else {rq_current (rq s1 c)})"
      "{t} \<noteq> {} \<longrightarrow> r c \<noteq> None \<and> th_in_runq (th s1 (rq_current (rq s1 c)))"
      "{t} \<noteq> {} \<and> rq_balancer (rq s1 c) = Some (rq_current (rq s1 c)) \<longrightarrow> awake s1 (A(c := A c - {rq_current (rq s1 c)})) c"
      "\<forall>c\<in>C. awake s1 A c \<and> cur_ok s1 r c"
      using st e(9) rc bal1 c1 a by (simp_all add: e(4,6) aw)
    from schedule_ok [OF r1 k1 w1 this(4) c ran this(1-3)] show thesis using that by (elim exE conjE) (simp add: e(6) t_def)
  qed
  have "best_thread s' c u" by (rule chosen_best [OF o(2) c o(5,4)]) (use o(6,7) in simp_all)
  moreover have "\<not> (th_in_runq (th s' t) \<and> th_runq (th s' t) = Some c)" using o(8) rest_members [OF o(2) c] by simp
  ultimately show ?thesis using o(1-3) by (auto simp: sched_inv_def t_def)
qed

lemma sleep_ok:
  assumes "rest_ok C s q r A" "c \<in> C" "rq_idler (rq s c) \<noteq> Some (rq_current (rq s c))" "rq_balancer (rq s c) \<noteq> Some (rq_current (rq s c))" "w \<noteq> 0"
  shows "\<exists>s'. thread_sleep_common c w s = Some s' \<and> sched_inv C s' \<and> best_thread s' c (rq_current (rq s' c))
    \<and> \<not> (th_in_runq (th s' (rq_current (rq s c))) \<and> th_runq (th s' (rq_current (rq s c))) = Some c)"
proof -
  let ?t = "rq_current (rq s c)"
  define s1 where "s1 = set_thread ?t ((th s ?t)\<lparr>th_wchan_addr := w, th_state := THREAD_SLEEPING\<rparr>) s"
  have "thread_sleep_common c w s = thread_runq_schedule c s1"
    using assms(5) by (simp add: thread_sleep_common_def thread_set_wchan_def set_state_def s1_def Let_def) (simp add: set_thread_def)
  then show ?thesis using leave_ok [OF assms(1-3) _ _ s1_def] assms(4) by simp
qed

lemma exit_ok:
  assumes "rest_ok C s q r A" "c \<in> C" "rq_idler (rq s c) \<noteq> Some (rq_current (rq s c))" "rq_balancer (rq s c) \<noteq> Some (rq_current (rq s c))"
  shows "\<exists>s'. thread_exit c s = Some s' \<and> sched_inv C s' \<and> best_thread s' c (rq_current (rq s' c))
    \<and> \<not> (th_in_runq (th s' (rq_current (rq s c))) \<and> th_runq (th s' (rq_current (rq s c))) = Some c)"
proof -
  let ?t = "rq_current (rq s c)"
  define s1 where "s1 = set_thread ?t ((th s ?t)\<lparr>th_wchan_addr := th_wchan_addr (th s ?t), th_state := THREAD_DEAD\<rparr>) s"
  have "thread_exit c s = thread_runq_schedule c s1" by (simp add: thread_exit_def set_state_def s1_def)
  then show ?thesis using leave_ok [OF assms(1-3) _ _ s1_def] assms(4) by simp
qed

end
