(* ===== verification/Sched_Tick.thy ===== *)
theory Sched_Tick
  imports Sched_Step
begin

text \<open>
  The periodic event: the running thread is charged, the idle processor counts down to its next
  balancing attempt, and the rescheduling that follows keeps the invariant.
\<close>

unbundle bit_operations_syntax

section \<open>Periodic events\<close>

lemma works_tick:
  assumes "finite M" "t \<in> M" "\<And>u. u \<noteq> t \<Longrightarrow> fd_work (fsd s' u) = fd_work (fsd s u)" "fd_work (fsd s' t) = fd_work (fsd s t) + 1" "unat (fd_work (fsd s t)) < 65535"
  shows "fs_works s' M = fs_works s M + 1"
proof -
  define N where "N = M - {t}"
  have M: "M = insert t N" "finite N" "t \<notin> N" using assms(1,2) by (auto simp: N_def)
  have "unat (fd_work (fsd s t) + 1) = unat (fd_work (fsd s t)) + 1" using assms(5) by (simp add: unat_word_ariths)
  then have "unat (ucast (fd_work (fsd s t) + 1) :: u32) = unat (ucast (fd_work (fsd s t)) + 1 :: u32)"
    using assms(5) by (simp add: unat_ucast_16 unat_word_ariths)
  then have "ucast (fd_work (fsd s t) + 1) = (ucast (fd_work (fsd s t)) + 1 :: u32)" by (simp only: word_unat_eq_iff)
  moreover have "fs_works s' N = fs_works s N" by (rule fs_works_cong) (use assms(3) M(3) in metis)
  ultimately show ?thesis unfolding M(1) by (simp add: fs_insert [OF M(2,3)] assms(4))
qed

lemma acct_tick:
  assumes "fs_acct s M Q" "finite M" "t \<in> M" "pri s t \<le> THREAD_SCHED_FS_PRIO_MAX"
    and "\<And>u. u \<noteq> t \<Longrightarrow> fd_work (fsd s' u) = fd_work (fsd s u)" "fd_work (fsd s' t) = fd_work (fsd s t) + 1" "unat (fd_work (fsd s t)) < 65535"
    and same: "\<And>u. pri s' u = pri s u" "\<And>u. fd_weight (fsd s' u) = fd_weight (fsd s u)"
  shows "fs_acct s' M (work_plus (pri s t) 1 Q)"
proof -
  have w: "fs_weights s' N = fs_weights s N" for N by (rule fs_weights_cong) (simp add: same)
  have k: "fs_works s' N = (if t \<in> N then fs_works s N + 1 else fs_works s N)" if "finite N" for N
  proof (cases "t \<in> N")
    case False
    then have "fs_works s' N = fs_works s N" by (intro fs_works_cong) (metis assms(5))
    then show ?thesis using False by simp
  qed (use works_tick [OF that _ assms(5,6,7)] in simp)
  have f: "finite {u \<in> M. pri s u = g}" for g using assms(2) by simp
  show ?thesis using assms(1,3) unfolding fs_acct_def same w k [OF assms(2)] k [OF f] by (simp add: work_plus_def)
qed

lemma fs_tick_ok:
  assumes ok: "runqs_ok C s q r A" "works_ok s {}" and c: "c \<in> C" and t: "r c = Some t" "cls s t = THREAD_SCHED_CLASS_FS"
  shows "\<exists>s'. thread_sched_fs_tick c t s = Some s' \<and> runqs_ok C s' q r A \<and> quiet s s' \<and> moved s s' \<and> works_ok s' {t} \<and> ran_ok s' t
    \<and> (\<forall>c'. awake s' A c' = awake s A c') \<and> thread_test_flag s' t THREAD_YIELD
    \<and> (\<forall>u. fsd s' u = (if u = t then (fsd s t)\<lparr>fd_work := fd_work (fsd s t) + 1\<rparr> else fsd s u))"
proof -
  note l = runqs_okD(1) [OF ok(1)] and fs = runqs_okD(4) [OF ok(1) c] and rt = runqs_okD(3) [OF ok(1) c] and run = runqs_okD(2) [OF ok(1) c]
  define i where "i = rq_fs_active (rq s c)"
  define g where "g = pri s t"
  define Q where "Q = fs_queue s c i"
  have ti: "t \<in> set (q_thr q c i)" using fs_okD(8) [OF fs t] by (simp add: i_def)
  have et: "fs_entity s t" by (rule fsq_member(2) [OF fs ti])
  have g: "g \<le> THREAD_SCHED_FS_PRIO_MAX" using et by (simp add: fs_entity_def g_def)
  have wt: "fd_work (fsd s t) \<le> fd_weight (fsd s t)" using ok(2) t(2) by (simp add: works_ok_def)
  have w: "20 \<le> unat (fd_weight (fsd s t))" "unat (fd_weight (fsd s t)) \<le> 800" using et prio2weight(2,3) by (simp_all add: fs_entity_def)
  have lt: "unat (fd_work (fsd s t)) < 65535" using wt w by (simp add: word_le_nat_alt)
  define s1 where "s1 = set_fs_queue c i (work_plus g 1 Q) s"
  define s2 where "s2 = thread_set_flag t THREAD_YIELD s1"
  define s' where "s' = set_fs t ((fsd s t)\<lparr>fd_work := fd_work (fsd s t) + 1\<rparr>) s2"
  have fsd2: "fsd s2 u = fsd s u" for u by (simp add: s2_def s1_def thread_set_flag_def)
  have wp: "(Q\<lparr>fq_work := fq_work Q + 1\<rparr>)\<lparr>fq_group_array := (fq_group_array (Q\<lparr>fq_work := fq_work Q + 1\<rparr>))
      (g := (fq_group_array (Q\<lparr>fq_work := fq_work Q + 1\<rparr>) g)\<lparr>fg_work := fg_work (fq_group_array (Q\<lparr>fq_work := fq_work Q + 1\<rparr>) g) + 1\<rparr>)\<rparr> = work_plus g 1 Q"
    by (simp add: work_plus_def)
  have out: "thread_sched_fs_tick c t s = Some s'"
    using g wp by (simp add: thread_sched_fs_tick_def set_fs_group_def fs_group_queue fsd2 s'_def s2_def s1_def Let_def flip: i_def g_def Q_def)
      (simp add: thread_set_flag_def)
  have quiet: "quiet s s'" by (simp add: quiet_def s'_def s2_def s1_def thread_set_flag_def)
  note qd = quietD [OF quiet]
  have fsd': "fsd s' u = (if u = t then (fsd s t)\<lparr>fd_work := fd_work (fsd s t) + 1\<rparr> else fsd s u)" for u by (simp add: s'_def fsd2)
  have rq': "rq_fs_active (rq s' c') = rq_fs_active (rq s c')" "rq_fs_round (rq s' c') = rq_fs_round (rq s c')" "rq_fs_weight (rq s' c') = rq_fs_weight (rq s c')"
    "rq_rt_bitmap (rq s' c') = rq_rt_bitmap (rq s c')" "rq_fs_expired (rq s' c') = rq_fs_expired (rq s c')" "sy_links s' = sy_links s"
    "fs_queue s' c' j = (if c' = c \<and> j = i then work_plus g 1 Q else fs_queue s c' j)" "sy_fs_highest_round s' = sy_fs_highest_round s"
    "c' \<noteq> c \<Longrightarrow> rq s' c' = rq s c'" for c' j
    by (simp_all add: s'_def s2_def s1_def thread_set_flag_def fs_queue_def)
  have wq: "fq_weight (work_plus g 1 Q) = fq_weight Q" "fq_current (work_plus g 1 Q) = fq_current Q" "fq_nr_threads (work_plus g 1 Q) = fq_nr_threads Q"
    "fg_weight (fq_group_array (work_plus g 1 Q) g') = fg_weight (fq_group_array Q g')" for g' by (auto simp: work_plus_def)
  have qs: "fq_weight (fs_queue s' c' j) = fq_weight (fs_queue s c' j)" "fq_current (fs_queue s' c' j) = fq_current (fs_queue s c' j)"
    "fq_nr_threads (fs_queue s' c' j) = fq_nr_threads (fs_queue s c' j)"
    "fg_weight (fq_group_array (fs_queue s' c' j) g') = fg_weight (fq_group_array (fs_queue s c' j) g')" for c' j g'
    using wq by (cases "c' = c \<and> j = i"; simp add: rq' Q_def)+
  have ent: "fs_entity s' u = fs_entity s u" for u by (simp add: fs_entity_def qd fsd')
  have f': "fsq_ok s' q (r c) c j rnd" if f: "fsq_ok s q (r c) c j rnd" for j rnd
  proof -
    have "fs_acct s' (set (q_thr q c j)) (fs_queue s' c j)"
    proof (cases "j = i")
      case True
      have "fs_acct s' (set (q_thr q c i)) (work_plus (pri s t) 1 Q)"
        by (rule acct_tick [where s = s]) (use fsq_okD(7) [OF f] True ti g lt qd in \<open>simp_all add: fsd' g_def Q_def\<close>)
      then show ?thesis using True by (simp add: rq' g_def)
    next
      case False
      have "t \<notin> set (q_thr q c j)" using fsq_member(3) [OF fs ti] False by (cases i; cases j) simp_all
      then have "fs_acct s' (set (q_thr q c j)) (fs_queue s c j)"
        by (intro fs_acct_cong [OF _ fsq_okD(7) [OF f]]) (auto simp: qd fsd')
      then show ?thesis using False by (simp add: rq')
    qed
    moreover have "by_weight s' c j = by_weight s c j" by (simp add: by_weight_def fs_group_queue qs fun_eq_iff)
    ultimately show ?thesis using f unfolding fsq_ok_def qd(1,2) ent by (auto simp: fsd')
  qed
  have "fs_ok s' q (r c) c (A c)" using fs f' unfolding fs_ok_def rq'(1-6) qs qd(1) by blast
  moreover have "rt_ok s' q (r c) c (A c)" by (rule rt_ok_cong [OF rt]) (simp_all add: rq' qd)
  ultimately have "runq_ok s' q (r c) c (A c)" using run by (simp add: runq_ok_def qd)
  then have "runqs_ok C s' q r A"
  proof (rule runqs_ok_step [OF ok(1) c, where t = t, rotated])
    show "links_ok (sy_links s') C q" using l by (simp add: rq')
    show "same_runq s s' c' \<and> same_lists q q c' \<and> r c' = r c' \<and> A c' = A c'" if "c' \<noteq> c" for c' using that by (simp add: same_runq_def rq')
    show "same_sched s s' u" if "u \<noteq> t" for u using that by (simp add: same_sched_def qd fsd')
    show "t \<notin> A c'" if "c' \<in> C" "c' \<noteq> c" for c' using runqs_okD(5) [OF ok(1) c that(1)] fs_okD(4) [OF fs ti] that(2) by auto
    show "t \<notin> A c \<Longrightarrow> fs_entity s' t \<and> fd_fs_runq (fsd s' t) = None" using fs_okD(4) [OF fs ti] by simp
  qed simp
  moreover have "moved s s'" unfolding moved_def qd rq' by simp
  moreover have "works_ok s' {t}" using ok(2) by (auto simp: works_ok_def qd fsd')
  moreover have "ran_ok s' t" using wt w lt by (simp add: ran_ok_def fsd' word_le_nat_alt unat_word_ariths)
  moreover have "awake s' A c' = awake s A c'" for c' by (simp add: awake_def rq'(1) qs qd)
  moreover have "thread_test_flag s' t THREAD_YIELD"
    by (simp add: thread_test_flag_def s'_def s2_def thread_set_flag_def THREAD_YIELD_def bit_eq_iff) (auto simp: bit_simps)
  ultimately show ?thesis using out quiet fsd' by blast
qed

lemma rest_view:
  assumes ok: "rest_ok C s q r A" and l: "sy_links s' = sy_links s" and rq: "\<And>c. rq s' c = rq s c"
    and t: "\<And>t. same_sched s s' t \<and> th_state (th s' t) = th_state (th s t) \<and> th_in_runq (th s' t) = th_in_runq (th s t) \<and> th_runq (th s' t) = th_runq (th s t)"
  shows "rest_ok C s' q r A"
proof -
  note a = ok [unfolded rest_ok_def]
  have e: "cls s' u = cls s u" "pri s' u = pri s u" "fsd s' u = fsd s u" "th_state (th s' u) = th_state (th s u)" "th_in_runq (th s' u) = th_in_runq (th s u)"
    "th_runq (th s' u) = th_runq (th s u)" for u using t [of u] by (simp_all add: same_sched_def)
  have "runqs_ok C s' q r A" by (rule runqs_ok_view [of C s]) (use a l in \<open>simp_all add: same_runq_def rq same_sched_def e\<close>)
  moreover have "sys_ok C s' A {} (\<lambda>_. 0)" using a unfolding sys_ok_def member_ok_def balancer_ok_def e rq by simp
  moreover have "fs_queue s' = fs_queue s" by (simp add: fs_queue_def rq fun_eq_iff)
  ultimately show ?thesis using a unfolding rest_ok_def works_ok_def awake_def cur_ok_def e rq by simp
qed

lemma idle_tick_ok:
  assumes ok: "rest_ok C s q r A" and c: "c \<in> C" and idle: "rq_nr_threads (rq s c) = 0"
  shows "\<exists>s' q' A'. thread_balance_idle_tick c s = Some s' \<and> rest_ok C s' q' r A' \<and> rq_current (rq s' c) = rq_current (rq s c)
    \<and> (\<forall>u. cls s' u = cls s u)"
proof -
  note a = ok [unfolded rest_ok_def]
  obtain b where b: "rq_balancer (rq s c) = Some b" "balancer_ok s {} c b" using a c by (auto simp: sys_ok_def)
  have fin: "finite (A c)" "card (A c) \<le> MAX_THREADS"
    using runqs_okD(6) [of C s q r A c] runqs_okD(2) [of C s q r A c] a c card_mono [of "{..<MAX_THREADS}" "A c"] by (auto simp: runq_ok_def)
  have "rq_nr_threads (rq s c) = of_nat (card (A c))" using a c by (simp add: sys_ok_def)
  then have "unat (of_nat (card (A c)) :: u32) = 0" using idle by simp
  then have A0: "A c = {}" using fin by (simp add: unat_of_nat MAX_THREADS_def take_bit_nat_eq_self_iff)
  have nr: "th_state (th s b) \<noteq> THREAD_RUNNING"
    using b(2) rest_members [OF ok c] A0 by (auto simp: balancer_ok_def)
  have t0: "rq_idle_balance_ticks (rq s c) \<noteq> 0" using a c b(1) nr by (auto simp: cur_ok_def)
  define s1 where "s1 = set_runq c ((rq s c)\<lparr>rq_idle_balance_ticks := rq_idle_balance_ticks (rq s c) - 1\<rparr>) s"
  have e: "th s1 = th s" "sy_links s1 = sy_links s" "rq s1 = (rq s)(c := (rq s c)\<lparr>rq_idle_balance_ticks := rq_idle_balance_ticks (rq s c) - 1\<rparr>)" "fs_queue s1 = fs_queue s"
    by (simp_all add: s1_def fs_queue_def fun_eq_iff)
  have r1: "runqs_ok C s1 q r A" by (rule runqs_ok_view [of C s]) (use a in \<open>simp_all add: e same_runq_def same_sched_def\<close>)
  have k1: "sys_ok C s1 A {} (\<lambda>_. 0)"
  proof -
    have eq: "rq_nr_threads (rq s1 c') = rq_nr_threads (rq s c')" "rq_balancer (rq s1 c') = rq_balancer (rq s c')" "rq_idler (rq s1 c') = rq_idler (rq s c')" for c' by (simp_all add: e)
    show ?thesis using a unfolding sys_ok_def member_ok_def balancer_ok_def eq e(1) by blast
  qed
  have w1: "works_ok s1 {}" using a by (simp add: works_ok_def e)
  have aw: "awake s1 B c' = awake s B c'" for B c' by (cases "c' = c") (simp_all add: awake_def e)
  have cur1: "cur_ok s1 r c'" if "c' \<in> C" "c' \<noteq> c \<or> rq_idle_balance_ticks (rq s1 c) \<noteq> 0" for c'
  proof -
    have "cur_ok s r c'" using a that(1) by simp
    then show ?thesis using that(2) by (cases "c' = c") (auto simp: cur_ok_def e split: option.splits)
  qed
  have out: "thread_balance_idle_tick c s = (if rq_idle_balance_ticks (rq s1 c) = 0 then thread_runq_wakeup_balancer c s1 else Some s1)"
    using t0 b(1) by (simp add: thread_balance_idle_tick_def Let_def flip: s1_def)
  show ?thesis
  proof (cases "rq_idle_balance_ticks (rq s1 c) = 0")
    case False
    then have "rest_ok C s1 q r A" using r1 k1 w1 aw cur1 a by (auto simp: rest_ok_def)
    then show ?thesis using out False by (intro exI [of _ s1] exI [of _ q] exI [of _ A]) (simp add: e)
  next
    case True
    obtain s' q' A' where s': "thread_runq_wakeup_balancer c s1 = Some s'" "runqs_ok C s' q' r A'" "sys_ok C s' A' {} (\<lambda>_. 0)"
      "works_ok s' {}" "moved s1 s'" "woken c s1 A s' A'" "\<exists>b. rq_balancer (rq s1 c) = Some b \<and> b \<in> A' c"
      using wakeup_balancer_ok [OF r1 k1 w1 c] by auto
    obtain b' where b': "rq_balancer (rq s' c) = Some b'" "b' \<in> A' c" using s'(5,7) by (auto simp: moved_def)
    have "member_ok C s' A' b'" using s'(3) by (simp add: sys_ok_def)
    then have run: "th_state (th s' b') = THREAD_RUNNING" using b'(2) c by (auto simp: member_ok_def)
    have "awake s' A' c' \<and> cur_ok s' r c'" if "c' \<in> C" for c'
    proof (cases "c' = c")
      case True
      have "cur_ok s r c" using a c by simp
      moreover have "rq_current (rq s' c) = rq_current (rq s c)" "rq_idler (rq s' c) = rq_idler (rq s c)" using s'(5) by (simp_all add: moved_def e)
      moreover have "th_state (th s' u) = th_state (th s u) \<or> th_state (th s' u) = THREAD_RUNNING" for u using s'(5) unfolding moved_def e by blast
      ultimately have "cur_ok s' r c" using b'(1) run unfolding cur_ok_def by (auto split: option.splits) metis+
      moreover have "awake s' A' c" using b' by (simp add: awake_def)
      ultimately show ?thesis using True by simp
    next
      case False
      have "awake s1 A c'" using a that by (simp add: aw)
      then show ?thesis using elsewhere_awake [OF woken_elsewhere [OF s'(6)] s'(5) _ False] moved_cur_ok [OF s'(5), of r c' r] cur1 [OF that] False by simp
    qed
    then have "rest_ok C s' q' r A'" using s'(2-4) by (simp add: rest_ok_def)
    then show ?thesis using out True s'(1,5) by (intro exI [of _ s'] exI [of _ q'] exI [of _ A']) (simp add: moved_def e)
  qed
qed

lemma schedule_rest:
  assumes "sched_inv C s" "c \<in> C"
  shows "\<exists>s'. thread_schedule c s = Some s' \<and> sched_inv C s'"
  using yield_ok [OF assms] assms(1) by (auto simp: thread_schedule_def)

text \<open>
  The periodic event. When the current thread is a fair-scheduling thread that has used up its round, it may run
  past it until the scheduler is called; the invariant then holds again after the call on the way out of the
  interrupt, which needs preemption enabled.
\<close>

definition tick_within :: "nat \<Rightarrow> sched \<Rightarrow> bool" where
  "tick_within c s \<longleftrightarrow> (let t = rq_current (rq s c) in cls s t = THREAD_SCHED_CLASS_FS \<longrightarrow> fd_work (fsd s t) < fd_weight (fsd s t))"

lemma tick_ok:
  assumes ok: "rest_ok C s q r A" and c: "c \<in> C"
  shows "\<exists>s1. thread_report_periodic_event c s = Some s1 \<and> rq_current (rq s1 c) = rq_current (rq s c) \<and> (tick_within c s \<longrightarrow> sched_inv C s1)
    \<and> (tick_within c s \<or> thread_preempt_enabled c s \<longrightarrow> (\<exists>s'. thread_schedule c s1 = Some s' \<and> sched_inv C s'))"
proof -
  note a = ok [unfolded rest_ok_def]
  define t where "t = rq_current (rq s c)"
  have settled: ?thesis if "thread_report_periodic_event c s = Some s1" "sched_inv C s1" "rq_current (rq s1 c) = t" for s1
    using schedule_rest [OF that(2) c] that by (simp add: t_def)
  show ?thesis
  proof (cases "r c")
    case None
    then have "rq_idler (rq s c) = Some t" using current_running(3) [OF ok c] by (simp add: t_def)
    then have k: "cls s t = THREAD_SCHED_CLASS_IDLE" using a c by (auto simp: sys_ok_def)
    show ?thesis
    proof (cases "rq_nr_threads (rq s c) = 0")
      case True
      obtain s' q' A' where s': "thread_balance_idle_tick c s = Some s'" "rest_ok C s' q' r A'" "rq_current (rq s' c) = rq_current (rq s c)" "\<forall>u. cls s' u = cls s u"
        using idle_tick_ok [OF ok c True] by auto
      have "thread_report_periodic_event c s = Some s'" using True s' k
        by (simp add: thread_report_periodic_event_def t_def THREAD_SCHED_CLASS_RT_def THREAD_SCHED_CLASS_FS_def THREAD_SCHED_CLASS_IDLE_def)
      then show ?thesis by (rule settled) (use s'(2,3) in \<open>auto simp: sched_inv_def t_def\<close>)
    next
      case False
      have "thread_report_periodic_event c s = Some s" using False k
        by (simp add: thread_report_periodic_event_def t_def THREAD_SCHED_CLASS_RT_def THREAD_SCHED_CLASS_FS_def THREAD_SCHED_CLASS_IDLE_def)
      then show ?thesis by (rule settled) (use ok in \<open>auto simp: sched_inv_def t_def\<close>)
    qed
  next
    case (Some u)
    then have rc: "r c = Some t" "t \<in> A c" using current_running(2) [OF ok c] by (simp_all add: t_def)
    have fin: "finite (A c)" "card (A c) \<le> MAX_THREADS"
      using runqs_okD(6) [of C s q r A c] runqs_okD(2) [of C s q r A c] a c card_mono [of "{..<MAX_THREADS}" "A c"] by (auto simp: runq_ok_def)
    have "rq_nr_threads (rq s c) = of_nat (card (A c))" "card (A c) \<noteq> 0" using a c fin rc(2) by (auto simp: sys_ok_def)
    moreover have "unat (of_nat (card (A c)) :: u32) = card (A c)" using fin(2) by (simp add: unat_of_nat MAX_THREADS_def take_bit_nat_eq_self_iff)
    ultimately have nr: "rq_nr_threads (rq s c) \<noteq> 0" by (metis unat_0)
    have cl: "cls s t = THREAD_SCHED_CLASS_RT \<or> cls s t = THREAD_SCHED_CLASS_FS" using runqs_okD(2) [of C s q r A c] a c rc(2) by (auto simp: runq_ok_def)
    show ?thesis
    proof (cases "cls s t = THREAD_SCHED_CLASS_RT")
      case True
      have "rest_ok C (thread_sched_rt_tick t s) q r A"
        by (rule rest_view [OF ok]) (auto simp: thread_sched_rt_tick_def thread_set_flag_def same_sched_def Let_def)
      moreover have "thread_report_periodic_event c s = Some (thread_sched_rt_tick t s)" using nr True by (simp add: thread_report_periodic_event_def Let_def t_def)
      moreover have "rq (thread_sched_rt_tick t s) = rq s" by (simp add: thread_sched_rt_tick_def thread_set_flag_def Let_def)
      ultimately show ?thesis using settled [of "thread_sched_rt_tick t s"] by (auto simp: sched_inv_def t_def)
    next
      case False
      then have f: "cls s t = THREAD_SCHED_CLASS_FS" using cl by simp
      obtain s1 where s1: "thread_sched_fs_tick c t s = Some s1" "runqs_ok C s1 q r A" "quiet s s1" "moved s s1" "works_ok s1 {t}" "ran_ok s1 t"
        "\<forall>c'. awake s1 A c' = awake s A c'" "thread_test_flag s1 t THREAD_YIELD" "\<forall>u. fsd s1 u = (if u = t then (fsd s t)\<lparr>fd_work := fd_work (fsd s t) + 1\<rparr> else fsd s u)"
        using fs_tick_ok [of C s q r A c t] a c rc(1) f by blast
      have cur1: "rq_current (rq s1 c) = t" using quietD(7) [OF s1(3)] by (simp add: t_def)
      have aw: "\<forall>c\<in>C. awake s1 A c \<and> cur_ok s1 r c" using a s1(7) moved_cur_ok [OF s1(4), of r _ r] by simp
      note k1 = sys_ok_quiet [OF _ s1(3)]
      have ev: "thread_report_periodic_event c s = Some s1" using nr f s1(1)
        by (simp add: thread_report_periodic_event_def Let_def t_def THREAD_SCHED_CLASS_RT_def THREAD_SCHED_CLASS_FS_def)
      show ?thesis
      proof (cases "fd_work (fsd s t) < fd_weight (fsd s t)")
        case True
        have "works_ok s1 {}"
        proof -
          have "fd_work (fsd s1 t) \<le> fd_weight (fsd s1 t)" using s1(9) inc_le [OF True] by simp
          then show ?thesis using s1(5) by (auto simp: works_ok_def)
        qed
        then have "rest_ok C s1 q r A" using s1(2) k1 aw a by (auto simp: rest_ok_def)
        then show ?thesis using settled [OF ev] cur1 by (auto simp: sched_inv_def)
      next
        case False
        have run1: "th_state (th s1 t) = THREAD_RUNNING" using quietD(5) [OF s1(3)] current_running(1) [OF ok c] by (simp add: t_def)
        then obtain s' where s': "thread_runq_schedule c s1 = Some s'" "sched_inv C s'"
          using schedule_running [OF s1(2) k1 _ aw c] s1(5,6) a by (auto simp: cur1)
        have "thread_schedule c s1 = Some s'" if "thread_preempt_enabled c s"
        proof -
          have pe: "thread_preempt_enabled c s1" using that periodic_params [OF ev] cur1
            by (simp add: thread_preempt_enabled_def same_params_def par_def t_def)
          obtain q' r' A' where "rest_ok C s' q' r' A'" using s'(2) by (auto simp: sched_inv_def)
          then have "yield_loop c s1 = Some s'" using yield_once(1) [OF k1 c _ s'(1), of A] run1 a cur1 by blast
          then show ?thesis using pe s1(8) cur1 by (simp add: thread_schedule_def thread_yield_def)
        qed
        then show ?thesis using ev cur1 False s'(2) f by (auto simp: tick_within_def t_def)
      qed
    qed
  qed
qed

end
