(* ===== verification/Sched_Wakeup.thy ===== *)
theory Sched_Wakeup
  imports Sched_Tick
begin

text \<open>
  Waking up a thread: the run queue chosen is one the thread may run on, and the invariant is kept.
\<close>

unbundle bit_operations_syntax

section \<open>Entering a run queue, with the balancer\<close>

lemma runq_add_awake:
  assumes ok: "runqs_ok C s q r A" "sys_ok C s A X n" "works_ok s {}" "\<forall>c\<in>C. awake s A c" and c: "c \<in> C"
    and t: "\<not> th_in_runq (th s t)" "th_state (th s t) = THREAD_RUNNING" "\<forall>c\<in>C. t \<notin> A c" "t < MAX_THREADS" "runq_class s t"
    and b: "\<forall>c'\<in>C. rq_balancer (rq s c') = Some t \<longrightarrow> c' = c"
  shows "\<exists>s' q'. thread_runq_add c t s = Some s' \<and> runqs_ok C s' q' r (A(c := insert t (A c))) \<and> sys_ok C s' (A(c := insert t (A c))) (X - {t}) n
    \<and> works_ok s' {} \<and> moved s s' \<and> (\<forall>c'\<in>C. awake s' (A(c := insert t (A c))) c')
    \<and> (cls s t = THREAD_SCHED_CLASS_FS \<longrightarrow> t \<in> set (q_thr q' c (rq_fs_active (rq s' c))) \<and> fs_cur s' c \<in> set (q_groups q' c (rq_fs_active (rq s' c))))
    \<and> (\<forall>u. th_state (th s' u) = th_state (th s u) \<and> th_wakeup_error (th s' u) = th_wakeup_error (th s u) \<and> th_wchan_addr (th s' u) = th_wchan_addr (th s u))"
proof -
  let ?A = "A(c := insert t (A c))"
  obtain s' q' where o: "thread_runq_add c t s = Some s'" "runqs_ok C s' q' r ?A" "sys_ok C s' ?A (X - {t}) n" "works_ok s' {}" "moved s s'"
    "cls s t = THREAD_SCHED_CLASS_FS \<longrightarrow> t \<in> set (q_thr q' c (rq_fs_active (rq s' c))) \<and> fs_cur s' c \<in> set (q_groups q' c (rq_fs_active (rq s' c)))"
    "\<forall>u. th_state (th s' u) = th_state (th s u) \<and> th_wakeup_error (th s' u) = th_wakeup_error (th s u) \<and> th_wchan_addr (th s' u) = th_wchan_addr (th s u)" "\<forall>c'. c' \<noteq> c \<longrightarrow> rq_nr_threads (rq s' c') = rq_nr_threads (rq s c') \<and> fs_queue s' c' = fs_queue s c'"
    "cls s t = THREAD_SCHED_CLASS_RT \<longrightarrow> fs_queue s' = fs_queue s"
    using runq_add_ok [OF ok(1-3) c t b] by (elim exE conjE)
  have "awake s' ?A c'" if "c' \<in> C" for c'
  proof (cases "c' = c")
    case False
    then have "elsewhere c s A s' ?A" using o(8) by (simp add: elsewhere_def)
    then show ?thesis using elsewhere_awake [OF _ o(5) _ False] ok(4) that by blast
  next
    case True
    show ?thesis
    proof (cases "cls s t = THREAD_SCHED_CLASS_RT")
      case rt: True
      have "awake s A c" using ok(4) c by simp
      moreover have "cls s' u = cls s u" "rq_balancer (rq s' c) = rq_balancer (rq s c)" "rq_fs_active (rq s' c) = rq_fs_active (rq s c)" for u
        using o(5) by (simp_all add: moved_def)
      ultimately show ?thesis using o(9) rt True unfolding awake_def
        by (auto simp: THREAD_SCHED_CLASS_RT_def THREAD_SCHED_CLASS_FS_def)
    next
      case False
      then have "cls s t = THREAD_SCHED_CLASS_FS" using t(5) by (simp add: runq_class_def)
      then have "fq_nr_threads (fs_queue s' c (rq_fs_active (rq s' c))) \<noteq> 0" using member_active_count [OF o(2) c] o(6) by blast
      then show ?thesis using True by (simp add: awake_def)
    qed
  qed
  then show ?thesis using o by blast
qed

section \<open>Waking up a thread\<close>

lemma fs_select_scan_mem:
  "fs_select_scan s best cs = Some c \<Longrightarrow> c \<in> set cs \<or> best = Some c"
  "best \<noteq> None \<or> cs \<noteq> [] \<Longrightarrow> fs_select_scan s best cs \<noteq> None"
  by (induction s best cs rule: fs_select_scan.induct) (auto simp: Let_def split: if_splits)

text \<open>The run queue chosen is one the thread may run on.\<close>

definition runq_map_ok :: "nat set \<Rightarrow> sched \<Rightarrow> bool" where
  "runq_map_ok C s \<longleftrightarrow> C \<subseteq> {..<CONFIG_MAX_CPUS} \<and> (\<forall>c<CONFIG_MAX_CPUS. (sy_active_runqs s c \<longleftrightarrow> c \<in> C) \<and> (sy_idle_runqs s c \<longrightarrow> c \<in> C))"

definition select_runq :: "nat \<Rightarrow> sched \<Rightarrow> nat option" where
  "select_runq t s = (let k = thread_real_sched_class (th s t) in
     if th_pin_level (th s t) = 0 then
       (if k = THREAD_SCHED_CLASS_RT then thread_sched_rt_select_runq t s
        else if k = THREAD_SCHED_CLASS_FS then thread_sched_fs_select_runq t s
        else if k = THREAD_SCHED_CLASS_IDLE then thread_sched_idle_select_runq t s
        else None)
     else th_runq (th s t))"

text \<open>A map that names a managed processor, the first one it names for a real-time thread.\<close>

definition map_places :: "nat set \<Rightarrow> nat \<Rightarrow> cpumap \<Rightarrow> bool" where
  "map_places C k m \<longleftrightarrow> (\<exists>c\<in>C. m c \<and> (k = THREAD_SCHED_CLASS_RT \<longrightarrow> (\<forall>c'<c. m c' \<longrightarrow> c' \<in> C)))"

lemma map_placesI: "C \<subseteq> {..<CONFIG_MAX_CPUS} \<Longrightarrow> \<exists>c\<in>C. m c \<Longrightarrow> \<forall>c<CONFIG_MAX_CPUS. m c \<longrightarrow> c \<in> C \<Longrightarrow> map_places C k m"
  by (fastforce simp: map_places_def)

definition placeable :: "nat set \<Rightarrow> sched \<Rightarrow> nat \<Rightarrow> bool" where
  "placeable C s t \<longleftrightarrow> (if th_pin_level (th s t) = 0 then map_places C (cls s t) (th_cpumap (th s t)) else \<exists>c\<in>C. th_runq (th s t) = Some c)"

lemma select_runq_ok:
  assumes map: "runq_map_ok C s" and t: "runq_class s t" "map_places C (cls s t) (th_cpumap (th s t))"
    and pin: "th_pin_level (th s t) = 0"
  shows "\<exists>c. select_runq t s = Some c \<and> c \<in> C \<and> th_cpumap (th s t) c"
proof -
  obtain c0 where c0: "c0 \<in> C" "th_cpumap (th s t) c0" "c0 < CONFIG_MAX_CPUS" "cls s t = THREAD_SCHED_CLASS_RT \<longrightarrow> (\<forall>c'<c0. th_cpumap (th s t) c' \<longrightarrow> c' \<in> C)"
    using t(2) map by (auto simp: runq_map_ok_def map_places_def)
  show ?thesis
  proof (cases "thread_real_sched_class (th s t) = THREAD_SCHED_CLASS_RT")
    case True
    obtain c where c: "find (th_cpumap (th s t)) [0..<CONFIG_MAX_CPUS] = Some c"
      using c0 by (cases "find (th_cpumap (th s t)) [0..<CONFIG_MAX_CPUS]") (auto simp: find_None_iff)
    then have m: "th_cpumap (th s t) c" "c < CONFIG_MAX_CPUS" "\<forall>c'<c. \<not> th_cpumap (th s t) c'" by (auto simp: find_Some_iff)
    have "c = c0 \<or> c < c0" using m(3) c0(2) by (meson linorder_neqE_nat)
    then have "c \<in> C" using c0(1,4) True m(1) by auto
    moreover from this have "sy_active_runqs s c" using m(2) map by (auto simp: runq_map_ok_def)
    moreover note m(1)
    ultimately show ?thesis using True pin c by (simp add: select_runq_def Let_def thread_sched_rt_select_runq_def)
  next
    case False
    then have f: "thread_real_sched_class (th s t) = THREAD_SCHED_CLASS_FS" using t(1) by (auto simp: runq_class_def)
    let ?cs = "filter (\<lambda>c. sy_active_runqs s c \<and> th_cpumap (th s t) c) [0..<CONFIG_MAX_CPUS]"
    have sel: "select_runq t s = thread_sched_fs_select_runq t s"
      using f False pin by (simp add: select_runq_def Let_def)
    show ?thesis
    proof (cases "find (\<lambda>c. sy_idle_runqs s c \<and> th_cpumap (th s t) c \<and> runq_is_idle s c) [0..<CONFIG_MAX_CPUS]")
      case (Some c)
      then have "c < CONFIG_MAX_CPUS" "sy_idle_runqs s c" "th_cpumap (th s t) c" by (auto simp: find_Some_iff)
      then show ?thesis using Some sel map by (auto simp: thread_sched_fs_select_runq_def runq_map_ok_def)
    next
      case None
      have "c0 \<in> set ?cs" using c0 map by (auto simp: runq_map_ok_def)
      then have "?cs \<noteq> []" by (metis empty_iff empty_set)
      then obtain c where c: "fs_select_scan s None ?cs = Some c" using fs_select_scan_mem(2) [of None ?cs s] by blast
      then have "c \<in> set ?cs" using fs_select_scan_mem(1) by fastforce
      then show ?thesis using None sel c map by (auto simp: thread_sched_fs_select_runq_def runq_map_ok_def)
    qed
  qed
qed

text \<open>The two critical sections, and the whole operation.\<close>

lemma wakeup_begin_ok:
  assumes ok: "rest_ok C s q r A" and t: "t \<noteq> self" "th_state (th s t) \<noteq> THREAD_RUNNING" "\<forall>c\<in>C. rq_balancer (rq s c) \<noteq> Some t"
  defines "s1 \<equiv> set_state t THREAD_RUNNING (thread_clear_wchan t s)"
  shows "wakeup_begin self (Some t) s = Some (None, s1)" "rest_ok C s1 q r A" "\<not> th_in_runq (th s1 t)"
    "th s1 = (th s)(t := (th s t)\<lparr>th_wchan_addr := 0, th_state := THREAD_RUNNING\<rparr>)" "rq s1 = rq s"
    "sy_active_runqs s1 = sy_active_runqs s" "sy_idle_runqs s1 = sy_idle_runqs s"
proof -
  note a = ok [unfolded rest_ok_def]
  show "wakeup_begin self (Some t) s = Some (None, s1)" using t(1,2) by (simp add: wakeup_begin_def s1_def)
  show th1: "th s1 = (th s)(t := (th s t)\<lparr>th_wchan_addr := 0, th_state := THREAD_RUNNING\<rparr>)"
    by (simp add: s1_def set_state_def thread_clear_wchan_def fun_eq_iff)
  show s1: "rq s1 = rq s" "sy_active_runqs s1 = sy_active_runqs s" "sy_idle_runqs s1 = sy_idle_runqs s"
    by (simp_all add: s1_def set_state_def thread_clear_wchan_def)
  have l1: "sy_links s1 = sy_links s" "fs_queue s1 = fs_queue s" by (simp_all add: s1_def set_state_def thread_clear_wchan_def fs_queue_def fun_eq_iff)
  have e: "cls s1 u = cls s u" "pri s1 u = pri s u" "fsd s1 u = fsd s u" "th_in_runq (th s1 u) = th_in_runq (th s u)" "th_runq (th s1 u) = th_runq (th s u)"
    "u \<noteq> t \<Longrightarrow> th_state (th s1 u) = th_state (th s u)" for u by (simp_all add: th1)
  have k: "sys_ok C s A {} (\<lambda>_. 0)" using a by simp
  have mt: "member_ok C s A t" using k by (simp add: sys_ok_def)
  then have nt: "\<not> th_in_runq (th s t)" using t(2) by (auto simp: member_ok_def)
  then show "\<not> th_in_runq (th s1 t)" by (simp add: e)
  have "runqs_ok C s1 q r A" by (rule runqs_ok_view [of C s]) (use a in \<open>simp_all add: l1 s1 same_runq_def same_sched_def e\<close>)
  moreover have "sys_ok C s1 A {} (\<lambda>_. 0)"
  proof -
    have "member_ok C s1 A u" for u using k nt by (cases "u = t") (auto simp: sys_ok_def member_ok_def e)
    moreover have "balancer_ok s1 {} c b" if "balancer_ok s {} c b" "b \<noteq> t" for c b using that by (simp add: balancer_ok_def e)
    ultimately show ?thesis using k t(3) unfolding sys_ok_def s1 e by blast
  qed
  moreover have "cur_ok s1 r c" if "c \<in> C" for c
  proof -
    have "cur_ok s r c" using a that by simp
    then show ?thesis unfolding cur_ok_def s1 using th1 by (auto split: option.splits)
  qed
  ultimately show "rest_ok C s1 q r A" using a by (simp add: rest_ok_def works_ok_def awake_def e s1 l1)
qed

lemma wakeup_end_ok:
  assumes ok: "rest_ok C s q r A" and map: "runq_map_ok C s"
    and t: "th_state (th s t) = THREAD_RUNNING" "\<not> th_in_runq (th s t)" "t < MAX_THREADS" "runq_class s t" "\<forall>c\<in>C. rq_balancer (rq s c) \<noteq> Some t"
    and place: "placeable C s t"
  shows "\<exists>s' c. wakeup_end t error s = Some s' \<and> sched_inv C s' \<and> c \<in> C
    \<and> th_in_runq (th s' t) \<and> th_runq (th s' t) = Some c \<and> th_state (th s' t) = THREAD_RUNNING \<and> th_wakeup_error (th s' t) = error \<and> th_wchan_addr (th s' t) = th_wchan_addr (th s t)
    \<and> (if th_pin_level (th s t) = 0 then th_cpumap (th s t) c else th_runq (th s t) = Some c)"
proof -
  note a = ok [unfolded rest_ok_def]
  obtain c where c: "select_runq t s = Some c" "c \<in> C" "if th_pin_level (th s t) = 0 then th_cpumap (th s t) c else th_runq (th s t) = Some c"
  proof (cases "th_pin_level (th s t) = 0")
    case True
    then show thesis using select_runq_ok [OF map t(4)] place that by (auto simp: placeable_def)
  next
    case False
    then show thesis using place that by (auto simp: select_runq_def Let_def placeable_def)
  qed
  define s2 where "s2 = set_thread t ((th s t)\<lparr>th_wakeup_error := error\<rparr>) s"
  have th2: "th s2 u = (if u = t then (th s t)\<lparr>th_wakeup_error := error\<rparr> else th s u)" for u by (simp add: s2_def)
  have s2: "sy_links s2 = sy_links s" "rq s2 = rq s" "fs_queue s2 = fs_queue s" by (simp_all add: s2_def fs_queue_def fun_eq_iff)
  have e: "cls s2 u = cls s u" "pri s2 u = pri s u" "fsd s2 u = fsd s u" "th_in_runq (th s2 u) = th_in_runq (th s u)" "th_runq (th s2 u) = th_runq (th s u)"
    "th_state (th s2 u) = th_state (th s u)" for u by (simp_all add: th2)
  have nt: "\<forall>c\<in>C. t \<notin> A c" using rest_members [OF ok] t(2) by auto
  have r2: "runqs_ok C s2 q r A" by (rule runqs_ok_view [of C s]) (use a in \<open>simp_all add: s2 same_runq_def same_sched_def e\<close>)
  have k2: "sys_ok C s2 A {} (\<lambda>_. 0)" using a unfolding sys_ok_def member_ok_def balancer_ok_def e s2 by simp
  have w2: "works_ok s2 {}" using a by (simp add: works_ok_def e)
  have aw2: "\<forall>c\<in>C. awake s2 A c" using a by (simp add: awake_def e s2)
  have pre: "\<not> th_in_runq (th s2 t)" "th_state (th s2 t) = THREAD_RUNNING" "runq_class s2 t" "\<forall>c'\<in>C. rq_balancer (rq s2 c') = Some t \<longrightarrow> c' = c"
    using t by (simp_all add: e s2 runq_class_def)
  obtain s' q' where o: "thread_runq_add c t s2 = Some s'" "runqs_ok C s' q' r (A(c := insert t (A c)))" "sys_ok C s' (A(c := insert t (A c))) ({} - {t}) (\<lambda>_. 0)"
    "works_ok s' {}" "moved s2 s'" "\<forall>c'\<in>C. awake s' (A(c := insert t (A c))) c'" "\<forall>u. th_state (th s' u) = th_state (th s2 u) \<and> th_wakeup_error (th s' u) = th_wakeup_error (th s2 u) \<and> th_wchan_addr (th s' u) = th_wchan_addr (th s2 u)"
    using runq_add_awake [OF r2 k2 w2 aw2 c(2) pre(1,2) nt t(3) pre(3,4)] by (elim exE conjE)
  have cur2: "cur_ok s2 r c'" if "c' \<in> C" for c'
    using a that unfolding cur_ok_def s2 e by simp
  have "rest_ok C s' q' r (A(c := insert t (A c)))"
    using o moved_cur_ok [OF o(5) cur2, of _ r] by (simp add: rest_ok_def)
  moreover have "wakeup_end t error s = do { c \<leftarrow> select_runq t s; thread_runq_wakeup c t s2 }"
    unfolding wakeup_end_def select_runq_def Let_def s2_def by simp
  then have "wakeup_end t error s = Some s'" using c(1) o(1) pre(2) by (simp add: thread_runq_wakeup_def)
  moreover have "th_wakeup_error (th s' t) = error" "th_wchan_addr (th s' t) = th_wchan_addr (th s t)" using o(7) by (simp_all add: th2)
  moreover have "member_ok C s' (A(c := insert t (A c))) t" using o(3) by (simp add: sys_ok_def)
  then have "th_in_runq (th s' t)" "th_runq (th s' t) = Some c" using c(2) by (auto simp: member_ok_def)
  moreover have "th_state (th s' t) = THREAD_RUNNING" using o(7) pre(2) by simp
  ultimately show ?thesis using c(2,3) by (auto simp: sched_inv_def)
qed

lemma wakeup_ok:
  assumes ok: "rest_ok C s q r A" and map: "runq_map_ok C s"
    and t: "t \<noteq> self" "th_state (th s t) \<noteq> THREAD_RUNNING" "t < MAX_THREADS" "runq_class s t" "\<forall>c\<in>C. rq_balancer (rq s c) \<noteq> Some t"
    and place: "placeable C s t"
  shows "\<exists>s' c. thread_wakeup_common self (Some t) error s = Some (None, s') \<and> sched_inv C s' \<and> c \<in> C
    \<and> th_in_runq (th s' t) \<and> th_runq (th s' t) = Some c \<and> th_state (th s' t) = THREAD_RUNNING \<and> th_wakeup_error (th s' t) = error \<and> th_wchan_addr (th s' t) = 0
    \<and> (if th_pin_level (th s t) = 0 then th_cpumap (th s t) c else th_runq (th s t) = Some c)"
proof -
  define s1 where "s1 = set_state t THREAD_RUNNING (thread_clear_wchan t s)"
  note b = wakeup_begin_ok [OF ok t(1,2,5), folded s1_def]
  have e: "th_state (th s1 t) = THREAD_RUNNING" "runq_class s1 t" "\<forall>c\<in>C. rq_balancer (rq s1 c) \<noteq> Some t" "placeable C s1 t" "runq_map_ok C s1"
    "th_pin_level (th s1 t) = th_pin_level (th s t)" "th_cpumap (th s1 t) = th_cpumap (th s t)" "th_runq (th s1 t) = th_runq (th s t)" "th_wchan_addr (th s1 t) = 0"
    using t(4,5) place map by (simp_all add: b(4-7) runq_class_def placeable_def runq_map_ok_def)
  obtain s' c where o: "wakeup_end t error s1 = Some s'" "sched_inv C s'" "c \<in> C"
    "th_in_runq (th s' t)" "th_runq (th s' t) = Some c" "th_state (th s' t) = THREAD_RUNNING" "th_wakeup_error (th s' t) = error" "th_wchan_addr (th s' t) = th_wchan_addr (th s1 t)"
    "if th_pin_level (th s1 t) = 0 then th_cpumap (th s1 t) c else th_runq (th s1 t) = Some c"
    using wakeup_end_ok [OF b(2) e(5,1) b(3) t(3) e(2,3,4), of error] by (elim exE conjE)
  have "thread_wakeup_common self (Some t) error s = Some (None, s')" using b(1) o(1) by (simp add: thread_wakeup_common_def)
  then show ?thesis using o(2-9) unfolding e(6-9) by blast
qed

end
