(* ===== verification/Sched_Param.thy ===== *)
theory Sched_Param
  imports Sched_Wakeup Sched_Frame
begin

text \<open>
  The parameters of a thread: setting its policy, its class and its priority, and initializing a new
  thread. A thread that is in no run queue may be given new ones.
\<close>

unbundle bit_operations_syntax

section \<open>A thread outside the run queues\<close>

text \<open>Its parameters may be changed as long as a fair-scheduling thread comes out with the data of its class.\<close>

lemma runqs_ok_outside:
  assumes ok: "runqs_ok C s q r A" and t: "\<forall>c\<in>C. t \<notin> A c"
    and v: "sd_class (th_real v) = THREAD_SCHED_CLASS_FS \<Longrightarrow>
      sd_priority (th_real v) \<le> THREAD_SCHED_FS_PRIO_MAX \<and> fd_weight (th_fs v) = thread_sched_fs_prio2weight (sd_priority (th_real v)) \<and> fd_fs_runq (th_fs v) = None"
  shows "runqs_ok C (set_thread t v s) q r A"
proof -
  let ?s = "set_thread t v s"
  have e: "u \<noteq> t \<Longrightarrow> same_sched s ?s u" for u by (simp add: same_sched_def)
  have k: "cls ?s t = sd_class (th_real v)" "pri ?s t = sd_priority (th_real v)" "fsd ?s t = th_fs v"
    by (simp_all add: thread_real_sched_class_def thread_real_priority_def)
  have "runq_ok ?s q (r c) c (A c)" if c: "c \<in> C" for c
  proof (rule runq_ok_cong [OF runqs_okD(2) [OF ok c]])
    show "same_runq s ?s c" by (simp add: same_runq_def)
    show "same_sched s ?s u" if "u \<in> A c" for u using that t c e by metis
  qed simp_all
  moreover have "fs_entity ?s u \<and> fd_fs_runq (fsd ?s u) = None" if "cls ?s u = THREAD_SCHED_CLASS_FS" "\<forall>c\<in>C. u \<notin> A c" for u
  proof (cases "u = t")
    case True
    then show ?thesis using v that(1) k by (simp add: fs_entity_def)
  next
    case False
    then show ?thesis using ok that by (simp add: runqs_ok_def fs_entity_def)
  qed
  ultimately show ?thesis using ok by (simp add: runqs_ok_def)
qed

section \<open>A new thread\<close>

definition mem_ok :: "thread_mem \<Rightarrow> nat \<Rightarrow> bool" where
  "mem_ok mem t \<longleftrightarrow> tm_thread mem = Some t \<and> tm_addr mem \<noteq> 0 \<and> tm_stack mem \<and> tm_sleepq mem \<and> tm_turnstile mem \<and> tm_tcb_error mem = None"

text \<open>The priorities of a class.\<close>

definition class_priority :: "nat \<Rightarrow> nat \<Rightarrow> bool" where
  "class_priority k p \<longleftrightarrow> k = THREAD_SCHED_CLASS_RT \<and> p \<le> THREAD_SCHED_RT_PRIO_MAX \<or> k = THREAD_SCHED_CLASS_FS \<and> p \<le> THREAD_SCHED_FS_PRIO_MAX
     \<or> k = THREAD_SCHED_CLASS_IDLE"

lemmas classes = THREAD_SCHED_CLASS_RT_def THREAD_SCHED_CLASS_FS_def THREAD_SCHED_CLASS_IDLE_def

lemma policy_to_class:
  "thread_policy_to_class p = (if p = THREAD_SCHED_POLICY_FIFO \<or> p = THREAD_SCHED_POLICY_RR then Some THREAD_SCHED_CLASS_RT
     else if p = THREAD_SCHED_POLICY_FS then Some THREAD_SCHED_CLASS_FS else if p = THREAD_SCHED_POLICY_IDLE then Some THREAD_SCHED_CLASS_IDLE else None)"
proof -
  consider "p = 0" | "p = 1" | "p = 2" | "p = 3" | "4 \<le> p" by linarith
  then show ?thesis
    by cases (simp_all add: thread_policy_to_class_def thread_policy_table_def nth_opt_def THREAD_SCHED_POLICY_FIFO_def THREAD_SCHED_POLICY_RR_def
      THREAD_SCHED_POLICY_FS_def THREAD_SCHED_POLICY_IDLE_def)
qed

section \<open>Changing the parameters of a thread\<close>

lemma set_thread_twice [simp]: "set_thread t v (set_thread t w s) = set_thread t v s"
  by (simp add: set_thread_def)

lemma set_fs_thread: "set_fs t d (set_thread t v s) = set_thread t (v\<lparr>th_fs := d\<rparr>) s"
  by (simp add: set_fs_def)

lemma class_global:
  "k \<le> THREAD_SCHED_CLASS_IDLE \<Longrightarrow> \<exists>g. class_global_priority k p = Some g"
  by (auto simp: class_global_priority_def classes)

lemma class_priority_le: "class_priority k p \<Longrightarrow> k \<le> THREAD_SCHED_CLASS_IDLE"
  by (auto simp: class_priority_def classes)

lemma class_reset_out:
  assumes "class_priority k p"
  shows "class_reset_priority k t p s = Some (set_thread t
    ((th s t)\<lparr>th_rt_time_slice := if k = THREAD_SCHED_CLASS_RT then THREAD_DEFAULT_RR_TIME_SLICE else th_rt_time_slice (th s t),
       th_fs := if k = THREAD_SCHED_CLASS_FS then \<lparr>fd_fs_runq = None, fd_round = 0, fd_weight = thread_sched_fs_prio2weight p, fd_work = 0\<rparr> else th_fs (th s t)\<rparr>) s)"
  using assms by (auto simp: class_priority_def class_reset_priority_def classes thread_sched_rt_reset_priority_def thread_sched_fs_reset_priority_def
    set_fs_def set_thread_def)

lemma class_update_out:
  assumes "class_priority k p"
  shows "\<exists>w. class_update_priority k t p s = Some (set_thread t ((th s t)\<lparr>th_fs := if k = THREAD_SCHED_CLASS_FS
      then (th_fs (th s t))\<lparr>fd_weight := thread_sched_fs_prio2weight p, fd_work := w\<rparr> else th_fs (th s t)\<rparr>) s)
    \<and> w \<le> thread_sched_fs_prio2weight p"
proof (cases "k = THREAD_SCHED_CLASS_FS")
  case True
  then have p: "p \<le> THREAD_SCHED_FS_PRIO_MAX" using assms by (auto simp: class_priority_def classes)
  let ?w = "if fd_work (th_fs (th s t)) \<ge> thread_sched_fs_prio2weight p then thread_sched_fs_prio2weight p else fd_work (th_fs (th s t))"
  have "class_update_priority k t p s = Some (set_thread t ((th s t)\<lparr>th_fs := (th_fs (th s t))\<lparr>fd_weight := thread_sched_fs_prio2weight p, fd_work := ?w\<rparr>\<rparr>) s)"
    using True p by (simp add: class_update_priority_def thread_sched_fs_update_priority_def set_fs_def)
  moreover have "?w \<le> thread_sched_fs_prio2weight p" by auto
  ultimately show ?thesis using True by (intro exI [of _ ?w]) simp
next
  case False
  then show ?thesis by (intro exI [of _ 0]) (simp add: class_update_priority_def set_thread_def)
qed

lemma reset_real_out:
  assumes "class_priority (sd_class (th_user (th s t))) (sd_priority (th_user (th s t)))"
  shows "thread_reset_real_priority t s = Some (set_thread t
    ((th s t)\<lparr>th_real := th_user (th s t), th_boosted := False,
       th_rt_time_slice := if sd_class (th_user (th s t)) = THREAD_SCHED_CLASS_RT then THREAD_DEFAULT_RR_TIME_SLICE else th_rt_time_slice (th s t),
       th_fs := if sd_class (th_user (th s t)) = THREAD_SCHED_CLASS_FS
         then \<lparr>fd_fs_runq = None, fd_round = 0, fd_weight = thread_sched_fs_prio2weight (sd_priority (th_user (th s t))), fd_work = 0\<rparr> else th_fs (th s t)\<rparr>) s)"
  using assms class_priority_le [OF assms]
  by (simp add: thread_reset_real_priority_def Let_def thread_user_sched_class_def thread_real_priority_def class_reset_out)

lemma user_priority_out:
  assumes "sd_class (th_user (th s t)) \<le> THREAD_SCHED_CLASS_IDLE"
  shows "\<exists>g. thread_set_user_priority t p s = Some (set_thread t ((th s t)\<lparr>th_user := (th_user (th s t))\<lparr>sd_priority := p, sd_global_priority := g\<rparr>\<rparr>) s)
    \<and> class_global_priority (sd_class (th_user (th s t))) p = Some g"
  using class_global [OF assms, of p] by (auto simp: thread_set_user_priority_def thread_user_sched_class_def)

lemma thread_init_built:
  assumes mem: "tm_addr mem \<noteq> 0" "tm_sleepq mem" "tm_turnstile mem" and k: "thread_policy_to_class (at_policy attr) = Some k" "class_priority k (at_priority attr)"
  shows "\<exists>v. thread_init self t mem attr s = Some (tm_tcb_error mem, set_thread t v s)
    \<and> th_flags v = (if at_flags attr AND THREAD_ATTR_DETACHED \<noteq> 0 then THREAD_DETACHED else 0) \<and> th_runq v = None \<and> \<not> th_in_runq v
    \<and> th_wchan_addr v = tm_addr mem \<and> th_state v = THREAD_SLEEPING \<and> th_pin_level v = 0 \<and> th_preempt_level v = 0
    \<and> th_cpumap v = (case at_cpumap attr of None \<Rightarrow> th_cpumap (th s self) | Some m \<Rightarrow> m)
    \<and> sd_policy (th_real v) = at_policy attr \<and> sd_class (th_real v) = k \<and> sd_priority (th_real v) = at_priority attr \<and> th_user v = th_real v \<and> \<not> th_boosted v
    \<and> class_global_priority k (at_priority attr) = Some (sd_global_priority (th_real v))
    \<and> (k = THREAD_SCHED_CLASS_FS \<longrightarrow> th_fs v = \<lparr>fd_fs_runq = None, fd_round = 0, fd_weight = thread_sched_fs_prio2weight (at_priority attr), fd_work = 0\<rparr>)"
proof -
  have p: "at_policy attr < 4" using k(1) by (auto simp: policy_to_class THREAD_SCHED_POLICY_FIFO_def THREAD_SCHED_POLICY_RR_def
      THREAD_SCHED_POLICY_FS_def THREAD_SCHED_POLICY_IDLE_def split: if_splits)
  define v0 where "v0 = (th s t)\<lparr>th_flags := 0, th_runq := None, th_in_runq := False, th_wchan_addr := tm_addr mem, th_state := THREAD_SLEEPING,
    th_preempt_level := 0, th_pin_level := 0, th_cpumap := (case at_cpumap attr of None \<Rightarrow> th_cpumap (th s self) | Some m \<Rightarrow> m)\<rparr>"
  define v1 where "v1 = v0\<lparr>th_user := (th_user v0)\<lparr>sd_policy := at_policy attr, sd_class := k\<rparr>\<rparr>"
  obtain g where g: "thread_set_user_priority t (at_priority attr) (set_thread t v1 s)
      = Some (set_thread t (v1\<lparr>th_user := (th_user v1)\<lparr>sd_priority := at_priority attr, sd_global_priority := g\<rparr>\<rparr>) s)"
    "class_global_priority k (at_priority attr) = Some g"
    using user_priority_out [of "set_thread t v1 s" t "at_priority attr"] class_priority_le [OF k(2)] by (auto simp: v1_def)
  define v2 where "v2 = v1\<lparr>th_user := (th_user v1)\<lparr>sd_priority := at_priority attr, sd_global_priority := g\<rparr>\<rparr>"
  have u: "sd_class (th_user v2) = k" "sd_priority (th_user v2) = at_priority attr" "sd_policy (th_user v2) = at_policy attr" by (simp_all add: v2_def v1_def)
  define v3 where "v3 = v2\<lparr>th_real := th_user v2, th_boosted := False,
       th_rt_time_slice := if k = THREAD_SCHED_CLASS_RT then THREAD_DEFAULT_RR_TIME_SLICE else th_rt_time_slice v2,
       th_fs := if k = THREAD_SCHED_CLASS_FS then \<lparr>fd_fs_runq = None, fd_round = 0, fd_weight = thread_sched_fs_prio2weight (at_priority attr), fd_work = 0\<rparr> else th_fs v2\<rparr>"
  have reset: "thread_reset_real_priority t (set_thread t v2 s) = Some (set_thread t v3 s)"
    using reset_real_out [of "set_thread t v2 s" t] k(2) u by (simp add: v3_def)
  define v4 where "v4 = (if at_flags attr AND THREAD_ATTR_DETACHED \<noteq> 0 then v3\<lparr>th_flags := th_flags v3 OR THREAD_DETACHED\<rparr> else v3)"
  have "size thread_policy_table = 4" by (simp add: thread_policy_table_def)
  then have "thread_init self t mem attr s = Some (tm_tcb_error mem, set_thread t v4 s)"
    using mem p k(1) g(1) [folded v2_def] reset
    by (simp add: thread_init_def thread_set_wchan_def set_state_def thread_set_user_sched_policy_def thread_set_user_sched_class_def
      v0_def v1_def v4_def thread_set_flag_def)
  then show ?thesis using u g(2) by (intro exI [of _ v4]) (simp add: v4_def v3_def v2_def v1_def v0_def)
qed

lemma thread_init_out:
  assumes mem: "mem_ok mem t" and k: "thread_policy_to_class (at_policy attr) = Some k" "class_priority k (at_priority attr)"
  shows "\<exists>v. thread_init self t mem attr s = Some (None, set_thread t v s)
    \<and> th_flags v = (if at_flags attr AND THREAD_ATTR_DETACHED \<noteq> 0 then THREAD_DETACHED else 0) \<and> th_runq v = None \<and> \<not> th_in_runq v
    \<and> th_wchan_addr v = tm_addr mem \<and> th_state v = THREAD_SLEEPING \<and> th_pin_level v = 0 \<and> th_preempt_level v = 0
    \<and> th_cpumap v = (case at_cpumap attr of None \<Rightarrow> th_cpumap (th s self) | Some m \<Rightarrow> m)
    \<and> sd_policy (th_real v) = at_policy attr \<and> sd_class (th_real v) = k \<and> sd_priority (th_real v) = at_priority attr \<and> th_user v = th_real v \<and> \<not> th_boosted v
    \<and> class_global_priority k (at_priority attr) = Some (sd_global_priority (th_real v))
    \<and> (k = THREAD_SCHED_CLASS_FS \<longrightarrow> th_fs v = \<lparr>fd_fs_runq = None, fd_round = 0, fd_weight = thread_sched_fs_prio2weight (at_priority attr), fd_work = 0\<rparr>)"
  using thread_init_built [of mem attr k self t s] mem k by (simp add: mem_ok_def)

end
