(* ===== verification/Sched_Init.thy ===== *)
theory Sched_Init
  imports Sched_Param
begin

text \<open>
  Starting the scheduler: after the initialization of the run queues every list is empty, and once all
  the processors have entered the scheduler the system satisfies its invariant.
\<close>

unbundle bit_operations_syntax

section \<open>Initialization\<close>

abbreviation self_link :: "sched_node \<Rightarrow> sched_node klist" where "self_link l \<equiv> \<lparr>ln_prev = Some l, ln_next = Some l\<rparr>"

lemma list_init_fold: "fold (\<lambda>x. list_init (f x)) xs h = (\<lambda>l. if l \<in> f ` set xs then self_link l else h l)"
  by (induction xs arbitrary: h) (auto simp: list_init_def fun_eq_iff)

lemma fs_group_init_fold:
  "fold (thread_fs_group_init c i) gs s = set_fs_queue c i
     ((fs_queue s c i)\<lparr>fq_group_array := (\<lambda>g. if g \<in> set gs then \<lparr>fg_weight = 0, fg_work = 0\<rparr> else fq_group_array (fs_queue s c i) g)\<rparr>)
     (s\<lparr>sy_links := (\<lambda>l. if l \<in> Fs_group_threads c i ` set gs then self_link l else sy_links s l)\<rparr>)"
proof (induction gs arbitrary: s)
  case (Cons g gs)
  have "sy_links (thread_fs_group_init c i g s) = (sy_links s)(Fs_group_threads c i g := self_link (Fs_group_threads c i g))"
    by (simp add: thread_fs_group_init_def set_fs_group_def list_init_def)
  moreover have "fs_queue (thread_fs_group_init c i g s) c i = (fs_queue s c i)\<lparr>fq_group_array := (fq_group_array (fs_queue s c i))(g := \<lparr>fg_weight = 0, fg_work = 0\<rparr>)\<rparr>"
    by (simp add: thread_fs_group_init_def set_fs_group_def)
  moreover have "set_fs_queue c i Q ((thread_fs_group_init c i g s)\<lparr>sy_links := h\<rparr>) = set_fs_queue c i Q (s\<lparr>sy_links := h\<rparr>)" for Q h
    by (simp add: thread_fs_group_init_def set_fs_group_def)
  ultimately show ?case
    by (simp add: Cons.IH) (intro arg_cong2 [where f = "set_fs_queue c i"], auto simp: fun_eq_iff intro!: arg_cong [where f = "\<lambda>h. s\<lparr>sy_links := h\<rparr>"])
qed simp

lemma fs_runq_init_out:
  "thread_fs_runq_init c i s = set_fs_queue c i
     ((fs_queue s c i)\<lparr>fq_group_array := (\<lambda>g. if g \<le> THREAD_SCHED_FS_PRIO_MAX then \<lparr>fg_weight = 0, fg_work = 0\<rparr> else fq_group_array (fs_queue s c i) g),
        fq_nr_threads := 0, fq_weight := 0, fq_work := 0\<rparr>)
     (s\<lparr>sy_links := (\<lambda>l. if l = Fs_threads c i \<or> l = Fs_groups c i \<or> (\<exists>g\<le>THREAD_SCHED_FS_PRIO_MAX. l = Fs_group_threads c i g) then self_link l else sy_links s l)\<rparr>)"
proof -
  have g: "set [0..<THREAD_SCHED_FS_PRIO_MAX + 1] = {0..THREAD_SCHED_FS_PRIO_MAX}" by auto
  have "(\<lambda>g. if g \<in> {0..THREAD_SCHED_FS_PRIO_MAX} then \<lparr>fg_weight = 0, fg_work = 0\<rparr> else f g) = (\<lambda>g. if g \<le> THREAD_SCHED_FS_PRIO_MAX then \<lparr>fg_weight = 0, fg_work = 0\<rparr> else f g)" for f :: "nat \<Rightarrow> thread_fs_group" by auto
  moreover have "list_init (Fs_threads c i) (list_init (Fs_groups c i) (\<lambda>l. if l \<in> Fs_group_threads c i ` {0..THREAD_SCHED_FS_PRIO_MAX} then self_link l else h l))
    = (\<lambda>l. if l = Fs_threads c i \<or> l = Fs_groups c i \<or> (\<exists>g\<le>THREAD_SCHED_FS_PRIO_MAX. l = Fs_group_threads c i g) then self_link l else h l)" for h
    by (auto simp: list_init_def fun_eq_iff)
  ultimately show ?thesis unfolding thread_fs_runq_init_def Let_def fs_group_init_fold g by simp
qed

lemma rt_init_out:
  "thread_runq_init_rt c s = set_runq c ((rq s c)\<lparr>rq_rt_bitmap := 0\<rparr>)
     (s\<lparr>sy_links := (\<lambda>l. if \<exists>p\<le>THREAD_SCHED_RT_PRIO_MAX. l = Rt_threads c p then self_link l else sy_links s l)\<rparr>)"
proof -
  have g: "set [0..<THREAD_SCHED_RT_PRIO_MAX + 1] = {0..THREAD_SCHED_RT_PRIO_MAX}" by auto
  have "(\<lambda>l. if l \<in> Rt_threads c ` {0..THREAD_SCHED_RT_PRIO_MAX} then self_link l else h l)
    = (\<lambda>l. if \<exists>p\<le>THREAD_SCHED_RT_PRIO_MAX. l = Rt_threads c p then self_link l else h l)" for h
    by (auto simp: fun_eq_iff)
  moreover have "(set_runq c R s)\<lparr>sy_links := h\<rparr> = set_runq c R (s\<lparr>sy_links := h\<rparr>)" for R h by (simp add: set_runq_def)
  ultimately show ?thesis unfolding thread_runq_init_rt_def Let_def list_init_fold g by (simp cong: if_cong)
qed

lemma runq_init_out:
  fixes c b s
  defines "s' \<equiv> thread_runq_init c b s"
  shows "th s' = th s" "c' \<noteq> c \<Longrightarrow> rq s' c' = rq s c'" "sy_fs_highest_round s' = sy_fs_highest_round s"
    "rq_nr_threads (rq s' c) = 0" "rq_rt_bitmap (rq s' c) = 0" "rq_fs_weight (rq s' c) = 0" "rq_current (rq s' c) = b"
    "rq_fs_active (rq s' c) = False" "rq_fs_expired (rq s' c) = True" "rq_idle_balance_ticks (rq s' c) = - 1"
    "fq_nr_threads (fs_queue s' c i) = 0" "fq_weight (fs_queue s' c i) = 0" "fq_work (fs_queue s' c i) = 0"
    "g \<le> THREAD_SCHED_FS_PRIO_MAX \<Longrightarrow> fq_group_array (fs_queue s' c i) g = \<lparr>fg_weight = 0, fg_work = 0\<rparr>"
    "sy_links s' l = (if l \<in> node_heads {c} then self_link l else sy_links s l)"
proof -
  note d = s'_def thread_runq_init_def thread_runq_init_fs_def rt_init_out fs_runq_init_out Let_def
  show "th s' = th s" "c' \<noteq> c \<Longrightarrow> rq s' c' = rq s c'" "sy_fs_highest_round s' = sy_fs_highest_round s"
    "rq_nr_threads (rq s' c) = 0" "rq_rt_bitmap (rq s' c) = 0" "rq_fs_weight (rq s' c) = 0" "rq_current (rq s' c) = b"
    "rq_fs_active (rq s' c) = False" "rq_fs_expired (rq s' c) = True" "rq_idle_balance_ticks (rq s' c) = - 1"
    by (simp_all add: d)
  show "fq_nr_threads (fs_queue s' c i) = 0" "fq_weight (fs_queue s' c i) = 0" "fq_work (fs_queue s' c i) = 0"
    "g \<le> THREAD_SCHED_FS_PRIO_MAX \<Longrightarrow> fq_group_array (fs_queue s' c i) g = \<lparr>fg_weight = 0, fg_work = 0\<rparr>"
    by (cases i; simp add: d fs_queue_def)+
  show "sy_links s' l = (if l \<in> node_heads {c} then self_link l else sy_links s l)"
  proof (cases l)
    case (Fs_groups c' i) then show ?thesis by (cases i) (auto simp: d)
  next
    case (Fs_threads c' i) then show ?thesis by (cases i) (auto simp: d)
  next
    case (Fs_group_threads c' i g) then show ?thesis by (cases i) (auto simp: d)
  qed (auto simp: d)
qed

section \<open>Empty run queues\<close>

definition no_queues :: queues where
  "no_queues = \<lparr>q_rt = (\<lambda>_ _. []), q_groups = (\<lambda>_ _. []), q_grp = (\<lambda>_ _ _. []), q_thr = (\<lambda>_ _. [])\<rparr>"

lemma no_queues_select [simp]: "q_rt no_queues c p = []" "q_groups no_queues c i = []" "q_grp no_queues c i g = []" "q_thr no_queues c i = []"
  by (simp_all add: no_queues_def)

definition empty_runq :: "sched \<Rightarrow> nat \<Rightarrow> bool" where
  "empty_runq s c \<longleftrightarrow> rq_nr_threads (rq s c) = 0 \<and> rq_rt_bitmap (rq s c) = 0 \<and> rq_fs_weight (rq s c) = 0 \<and> rq_fs_expired (rq s c) = (\<not> rq_fs_active (rq s c))
     \<and> rq_idle_balance_ticks (rq s c) = - 1
     \<and> (\<forall>i. fq_nr_threads (fs_queue s c i) = 0 \<and> fq_weight (fs_queue s c i) = 0 \<and> fq_work (fs_queue s c i) = 0
        \<and> (\<forall>g\<le>THREAD_SCHED_FS_PRIO_MAX. fq_group_array (fs_queue s c i) g = \<lparr>fg_weight = 0, fg_work = 0\<rparr>))
     \<and> (\<forall>l\<in>node_heads {c}. sy_links s l = self_link l)"

lemma runq_init_empty:
  "empty_runq (thread_runq_init c b s) c"
  using runq_init_out [where c = c and b = b and s = s] by (simp add: empty_runq_def)

lemma node_heads_disjoint: "c \<noteq> c' \<Longrightarrow> l \<in> node_heads {c} \<Longrightarrow> l \<notin> node_heads {c'}"
  by (cases l) auto

lemma node_heads_union: "l \<in> node_heads C \<longleftrightarrow> (\<exists>c\<in>C. l \<in> node_heads {c})"
  by (cases l) auto

lemma runq_init_other:
  assumes "c' \<noteq> c" "empty_runq s c'"
  shows "empty_runq (thread_runq_init c b s) c'"
proof -
  have "sy_links (thread_runq_init c b s) l = sy_links s l" if "l \<in> node_heads {c'}" for l
    using runq_init_out(15) [where c = c and b = b and s = s and l = l] node_heads_disjoint [OF assms(1) that] by simp
  moreover have "rq (thread_runq_init c b s) c' = rq s c'" using runq_init_out(2) [OF assms(1)] .
  ultimately show ?thesis using assms(2) by (simp add: empty_runq_def fs_queue_def)
qed

lemma empty_runqs_ok:
  assumes "\<forall>c\<in>C. empty_runq s c" "\<forall>t. cls s t \<noteq> THREAD_SCHED_CLASS_FS"
  shows "runqs_ok C s no_queues (\<lambda>_. None) (\<lambda>_. {})"
proof -
  have nil: "node_seq no_queues l = []" for l by (cases l) simp_all
  have "links_ok (sy_links s) C no_queues"
    unfolding links_ok_def lists_def
  proof (intro conjI ballI impI)
    fix l assume "l \<in> node_heads C"
    then have "sy_links s l = self_link l" using node_heads_union [of l C] assms(1) by (auto simp: empty_runq_def)
    then show "dl (sy_links s) l (node_seq no_queues l)" by (simp add: nil dl_def)
  qed (simp add: nil)
  moreover have "runq_ok s no_queues None c {}" if "c \<in> C" for c
  proof -
    have e: "empty_runq s c" using assms(1) that by simp
    have "fsq_ok s no_queues None c i rnd" for i rnd
      using e by (simp add: fsq_ok_def fs_acct_def fs_weights_def fs_works_def empty_runq_def by_weight_def)
    then show ?thesis using e by (simp add: runq_ok_def rt_ok_def fs_ok_def empty_runq_def)
  qed
  ultimately show ?thesis using assms(2) by (simp add: runqs_ok_def)
qed

section \<open>The first thread of a run queue\<close>

text \<open>A real-time thread enters a run queue, before the balancers of all the run queues are known.\<close>

lemma rt_runq_add:
  assumes ok: "runqs_ok C s q r A" and c: "c \<in> C" and t: "cls s t = THREAD_SCHED_CLASS_RT" "pri s t \<le> THREAD_SCHED_RT_PRIO_MAX" "t < MAX_THREADS"
    and free: "\<not> th_in_runq (th s t)" "\<forall>c\<in>C. t \<notin> A c"
  shows "\<exists>s' q'. thread_runq_add c t s = Some s' \<and> runqs_ok C s' q' r (A(c := insert t (A c)))
    \<and> (\<forall>u. strip (th s' u) = strip (if u = t then (th s t)\<lparr>th_runq := Some c, th_in_runq := True\<rparr> else th s u))
    \<and> (\<forall>c'. rq_nr_threads (rq s' c') = (if c' = c then rq_nr_threads (rq s c) + 1 else rq_nr_threads (rq s c'))
       \<and> rq_current (rq s' c') = rq_current (rq s c') \<and> rq_balancer (rq s' c') = rq_balancer (rq s c') \<and> rq_idler (rq s' c') = rq_idler (rq s c')
       \<and> rq_idle_balance_ticks (rq s' c') = rq_idle_balance_ticks (rq s c'))"
proof -
  let ?A = "A(c := insert t (A c))"
  have rn: "r c \<noteq> Some t" using runqs_free(2) [OF ok free(2) c] .
  obtain s1 q1 where s1: "thread_sched_rt_add c t s = Some s1" "runqs_ok C s1 q1 r ?A" "rt_step s s1"
    using rt_add_ok [OF ok c t disjI1 [OF free(2)]] rn by auto
  define s2 where "s2 = (if rq_nr_threads (rq s1 c) = 0 then s1\<lparr>sy_idle_runqs := (sy_idle_runqs s1)(c := False)\<rparr> else s1)"
  define s3 where "s3 = set_runq c ((rq s2 c)\<lparr>rq_nr_threads := rq_nr_threads (rq s2 c) + 1\<rparr>) s2"
  define cur where "cur = rq_current (rq s3 c)"
  define s4 where "s4 = (if cls s3 t < cls s3 cur then thread_set_flag cur THREAD_YIELD s3 else s3)"
  define s5 where "s5 = set_thread t ((th s4 t)\<lparr>th_runq := Some c, th_in_runq := True\<rparr>) s4"
  have add: "thread_runq_add c t s = Some s5"
    using free(1) s1(1) t(1) by (simp add: thread_runq_add_def Let_def s2_def s3_def cur_def s4_def s5_def)
  have s12: "th s2 = th s1" "rq s2 = rq s1" "sy_links s2 = sy_links s1" by (simp_all add: s2_def)
  have s4: "sy_links s4 = sy_links s1" "rq s4 = (rq s1)(c := (rq s1 c)\<lparr>rq_nr_threads := rq_nr_threads (rq s1 c) + 1\<rparr>)"
    "strip (th s4 u) = strip (th s1 u)" "fsd s4 u = fsd s1 u" "cls s4 u = cls s1 u" "pri s4 u = pri s1 u" for u
    by (auto simp: s4_def s3_def s12 thread_set_flag_def)
  have "runqs_ok C s5 q1 r ?A"
  proof (rule runqs_ok_view [OF s1(2)])
    show "same_runq s1 s5 c'" for c' by (simp add: same_runq_def s5_def s4)
    show "same_sched s1 s5 u" for u by (simp add: same_sched_def s5_def s4)
  qed (simp add: s5_def s4)
  moreover have "strip (th s5 u) = strip (if u = t then (th s t)\<lparr>th_runq := Some c, th_in_runq := True\<rparr> else th s u)" for u
  proof -
    have "strip (th s4 u) = strip (th s u)" using s1(3) s4(3) by (simp add: rt_step_def quiet_def)
    moreover have "strip (v\<lparr>th_runq := Some c, th_in_runq := True\<rparr>) = (strip v)\<lparr>th_runq := Some c, th_in_runq := True\<rparr>" for v
      by (simp add: strip_def)
    ultimately show ?thesis by (cases "u = t") (simp_all add: s5_def)
  qed
  moreover have "quiet s s1" using s1(3) by (simp add: rt_step_def)
  ultimately show ?thesis using add quietD(6-10) [of s s1] by (auto simp: s5_def s4 intro!: exI [of _ q1])
qed

section \<open>The system under construction\<close>

text \<open>The processors \<open>K\<close> have their balancer and their idler; all of them still run their booter.\<close>

definition setup_ok :: "nat \<Rightarrow> nat set \<Rightarrow> (nat \<Rightarrow> nat) \<Rightarrow> (nat \<Rightarrow> nat) \<Rightarrow> (nat \<Rightarrow> nat) \<Rightarrow> sched \<Rightarrow> bool" where
  "setup_ok n K boo bal idl s \<longleftrightarrow> (\<exists>q. runqs_ok {..<n} s q (\<lambda>_. None) (\<lambda>c. if c \<in> K then {bal c} else {}))
     \<and> (\<forall>c<n. rq_nr_threads (rq s c) = (if c \<in> K then 1 else 0) \<and> rq_current (rq s c) = boo c \<and> rq_idle_balance_ticks (rq s c) = - 1)
     \<and> (\<forall>c\<in>K. rq_balancer (rq s c) = Some (bal c) \<and> rq_idler (rq s c) = Some (idl c)
         \<and> cls s (bal c) = THREAD_SCHED_CLASS_RT \<and> pri s (bal c) = 0 \<and> th_state (th s (bal c)) = THREAD_RUNNING
         \<and> th_in_runq (th s (bal c)) \<and> th_runq (th s (bal c)) = Some c
         \<and> cls s (idl c) = THREAD_SCHED_CLASS_IDLE \<and> th_state (th s (idl c)) = THREAD_RUNNING)
     \<and> (\<forall>t. t \<notin> bal ` K \<longrightarrow> \<not> th_in_runq (th s t)) \<and> (\<forall>t. cls s t \<noteq> THREAD_SCHED_CLASS_FS)
     \<and> runq_map_ok {..<n} s"

definition boot_args :: "nat \<Rightarrow> (nat \<Rightarrow> nat) \<Rightarrow> (nat \<Rightarrow> nat) \<Rightarrow> (nat \<Rightarrow> nat) \<Rightarrow> (nat \<Rightarrow> thread_mem) \<Rightarrow> (nat \<Rightarrow> thread_mem) \<Rightarrow> bool" where
  "boot_args n boo bal idl bm im \<longleftrightarrow> 0 < n \<and> n \<le> CONFIG_MAX_CPUS \<and> distinct (map boo [0..<n] @ map bal [0..<n] @ map idl [0..<n])
     \<and> (\<forall>c<n. mem_ok (bm c) (bal c) \<and> mem_ok (im c) (idl c) \<and> bal c < MAX_THREADS)"

lemma boot_distinct:
  assumes "boot_args n boo bal idl bm im" "c < n" "c' < n"
  shows "bal c = bal c' \<longleftrightarrow> c = c'" "idl c = idl c' \<longleftrightarrow> c = c'" "boo c = boo c' \<longleftrightarrow> c = c'" "bal c \<noteq> idl c'" "boo c \<noteq> bal c'" "boo c \<noteq> idl c'"
    "idl c \<noteq> bal c'"
proof -
  have d: "inj_on boo {0..<n}" "inj_on bal {0..<n}" "inj_on idl {0..<n}" "boo ` {0..<n} \<inter> (bal ` {0..<n} \<union> idl ` {0..<n}) = {}" "bal ` {0..<n} \<inter> idl ` {0..<n} = {}"
    using assms(1) by (auto simp: boot_args_def distinct_map)
  show "bal c = bal c' \<longleftrightarrow> c = c'" "idl c = idl c' \<longleftrightarrow> c = c'" "boo c = boo c' \<longleftrightarrow> c = c'"
    using d(1-3) assms(2,3) by (auto simp: inj_on_eq_iff)
  show "bal c \<noteq> idl c'" "boo c \<noteq> bal c'" "boo c \<noteq> idl c'" "idl c \<noteq> bal c'" using d(4,5) assms(2,3) by fastforce+
qed

text \<open>The wakeup of a new real-time thread bound to a processor.\<close>

lemma find_only: "c < n \<Longrightarrow> find ((\<lambda>_. False)(c := True)) [0..<n] = Some c"
  by (simp add: find_Some_iff exI [of _ c])

lemma cpumap_check_one:
  assumes "c < n" shows "cpumap_check n ((\<lambda>_. False)(c := True)) = None"
proof -
  have "c < BITMAP_LONGS n * 64" using assms by (simp add: BITMAP_LONGS_def DIV_CEIL_def)
  from find_only [OF this] show ?thesis by (simp add: cpumap_check_def)
qed


lemma setup_balancer_ok:
  assumes args: "boot_args n boo bal idl bm im" and ok: "setup_ok n K boo bal idl s" and c: "c < n" "c \<notin> K" "K \<subseteq> {..<n}"
  shows "\<exists>s' q. thread_setup_balancer (boo 0) n (bm c) c s = Some s'
    \<and> runqs_ok {..<n} s' q (\<lambda>_. None) (\<lambda>c'. if c' \<in> insert c K then {bal c'} else {})
    \<and> (\<forall>c'<n. rq_nr_threads (rq s' c') = (if c' \<in> insert c K then 1 else 0) \<and> rq_current (rq s' c') = boo c' \<and> rq_idle_balance_ticks (rq s' c') = - 1
       \<and> rq_balancer (rq s' c') = (if c' = c then Some (bal c) else rq_balancer (rq s c')) \<and> rq_idler (rq s' c') = rq_idler (rq s c'))
    \<and> (\<forall>u. u \<noteq> bal c \<longrightarrow> cls s' u = cls s u \<and> pri s' u = pri s u \<and> th_state (th s' u) = th_state (th s u) \<and> th_in_runq (th s' u) = th_in_runq (th s u) \<and> th_runq (th s' u) = th_runq (th s u))
    \<and> cls s' (bal c) = THREAD_SCHED_CLASS_RT \<and> pri s' (bal c) = 0 \<and> th_state (th s' (bal c)) = THREAD_RUNNING \<and> th_in_runq (th s' (bal c)) \<and> th_runq (th s' (bal c)) = Some c
    \<and> runq_map_ok {..<n} s'"
proof -
  obtain q where q: "runqs_ok {..<n} s q (\<lambda>_. None) (\<lambda>c. if c \<in> K then {bal c} else {})" using ok by (auto simp: setup_ok_def)
  define t where "t = bal c"
  have nK: "t \<notin> bal ` K"
  proof
    assume "t \<in> bal ` K"
    then obtain x where "x \<in> K" "bal c = bal x" by (auto simp: t_def)
    then show False using boot_distinct(1) [OF args c(1), of x] c(2,3) by auto
  qed
  define attr where "attr = thread_attr_set_priority THREAD_SCHED_RT_PRIO_MIN (thread_attr_set_policy THREAD_SCHED_POLICY_FIFO (thread_attr_set_cpumap ((\<lambda>_. False)(c := True)) thread_attr_init))"
  have attr: "at_cpumap attr = Some ((\<lambda>_. False)(c := True))" "at_policy attr = THREAD_SCHED_POLICY_FIFO" "at_priority attr = 0" "at_flags attr = 0"
    by (simp_all add: attr_def thread_attr_set_priority_def thread_attr_set_policy_def thread_attr_set_cpumap_def thread_attr_init_def THREAD_SCHED_RT_PRIO_MIN_def)
  have mem: "mem_ok (bm c) t" "t < MAX_THREADS" using args c(1) by (simp_all add: boot_args_def t_def)
  have k: "thread_policy_to_class (at_policy attr) = Some THREAD_SCHED_CLASS_RT" "class_priority THREAD_SCHED_CLASS_RT (at_priority attr)"
    by (simp_all add: attr policy_to_class class_priority_def)
  obtain v where v: "thread_init (boo 0) t (bm c) attr s = Some (None, set_thread t v s)" "th_runq v = None" "\<not> th_in_runq v" "th_state v = THREAD_SLEEPING"
    "th_pin_level v = 0" "th_cpumap v = (\<lambda>_. False)(c := True)" "sd_class (th_real v) = THREAD_SCHED_CLASS_RT" "sd_priority (th_real v) = 0"
    using thread_init_out [OF mem(1) k, of "boo 0" s] by (auto simp: attr)
  define v1 where "v1 = v\<lparr>th_wchan_addr := 0, th_state := THREAD_RUNNING\<rparr>"
  define v2 where "v2 = v1\<lparr>th_wakeup_error := None\<rparr>"
  have v2: "th_runq v2 = None" "\<not> th_in_runq v2" "th_state v2 = THREAD_RUNNING" "sd_class (th_real v2) = THREAD_SCHED_CLASS_RT" "sd_priority (th_real v2) = 0"
    using v by (simp_all add: v2_def v1_def)
  define s1 where "s1 = set_thread t v2 s"
  have r1: "runqs_ok {..<n} s1 q (\<lambda>_. None) (\<lambda>c. if c \<in> K then {bal c} else {})"
    unfolding s1_def by (rule runqs_ok_outside [OF q]) (use nK v2 in \<open>auto simp: classes\<close>)
  obtain s2 q2 where s2: "thread_runq_add c t s1 = Some s2" "runqs_ok {..<n} s2 q2 (\<lambda>_. None) ((\<lambda>c. if c \<in> K then {bal c} else {})(c := insert t (if c \<in> K then {bal c} else {})))"
    "\<forall>u. strip (th s2 u) = strip (if u = t then (th s1 t)\<lparr>th_runq := Some c, th_in_runq := True\<rparr> else th s1 u)"
    "\<forall>c'. rq_nr_threads (rq s2 c') = (if c' = c then rq_nr_threads (rq s1 c) + 1 else rq_nr_threads (rq s1 c'))
       \<and> rq_current (rq s2 c') = rq_current (rq s1 c') \<and> rq_balancer (rq s2 c') = rq_balancer (rq s1 c') \<and> rq_idler (rq s2 c') = rq_idler (rq s1 c')
       \<and> rq_idle_balance_ticks (rq s2 c') = rq_idle_balance_ticks (rq s1 c')"
  proof -
    have p: "c \<in> {..<n}" "cls s1 t = THREAD_SCHED_CLASS_RT" "pri s1 t \<le> THREAD_SCHED_RT_PRIO_MAX" "\<not> th_in_runq (th s1 t)"
      using c(1) v2 by (simp_all add: s1_def thread_real_sched_class_def thread_real_priority_def)
    have free: "\<forall>c\<in>{..<n}. t \<notin> (if c \<in> K then {bal c} else {})" using nK by auto
    show thesis using rt_runq_add [OF r1 p(1-3) mem(2) p(4) free] by (elim exE conjE) (rule that)
  qed
  have A: "((\<lambda>c. if c \<in> K then {bal c} else {})(c := insert t (if c \<in> K then {bal c} else {}))) = (\<lambda>c'. if c' \<in> insert c K then {bal c'} else {})"
    using c(2) by (auto simp: t_def fun_eq_iff)
  have map1: "runq_map_ok {..<n} s1" using ok by (simp add: setup_ok_def runq_map_ok_def s1_def)
  have n: "n \<le> CONFIG_MAX_CPUS" using args by (simp add: boot_args_def)
  have wake: "thread_wakeup (boo 0) (Some t) (set_thread t v s) = Some (None, s2)"
  proof -
    have "t \<noteq> boo 0" using boot_distinct(5) [OF args _ c(1), of 0] args by (auto simp: t_def boot_args_def)
    moreover have "set_state t THREAD_RUNNING (thread_clear_wchan t (set_thread t v s)) = set_thread t v1 s"
      by (simp add: set_state_def thread_clear_wchan_def v1_def)
    moreover have "thread_sched_rt_select_runq t (set_thread t v1 s) = Some c"
      using find_only [of c CONFIG_MAX_CPUS] c(1) n map1 v(6) by (simp add: thread_sched_rt_select_runq_def v1_def runq_map_ok_def s1_def)
    moreover have "thread_real_sched_class v1 = THREAD_SCHED_CLASS_RT" using v(7) by (simp add: thread_real_sched_class_def v1_def)
    moreover have "set_thread t ((th (set_thread t v1 s) t)\<lparr>th_wakeup_error := None\<rparr>) (set_thread t v1 s) = s1" by (simp add: s1_def v2_def)
    moreover have "thread_runq_wakeup c t s1 = Some s2" using s2(1) v2(3) by (simp add: thread_runq_wakeup_def s1_def)
    ultimately show ?thesis using v(2,4,5) by (simp add: thread_wakeup_def thread_wakeup_common_def wakeup_begin_def wakeup_end_def Let_def v1_def)
  qed
  define s3 where "s3 = set_runq c ((rq s2 c)\<lparr>rq_balancer := Some t\<rparr>) s2"
  have "thread_create (boo 0) n (bm c) attr s = Some (None, s2)"
    using cpumap_check_one [OF c(1)] mem(1) v(1) wake by (simp add: thread_create_def attr mem_ok_def)
  then have "thread_setup_balancer (boo 0) n (bm c) c s = Some s3"
    using mem(1) by (simp add: thread_setup_balancer_def Let_def attr_def s3_def mem_ok_def)
  moreover have "runqs_ok {..<n} s3 q2 (\<lambda>_. None) (\<lambda>c'. if c' \<in> insert c K then {bal c'} else {})"
    by (rule runqs_ok_view [OF s2(2) [unfolded A]]) (simp_all add: s3_def same_runq_def same_sched_def)
  moreover have "runq_map_ok {..<n} s3" using map1 runq_add_maps [OF s2(1)] c(1) n by (auto simp: runq_map_ok_def idle_frame_def s3_def)
  moreover have "cls s3 u = cls s u \<and> pri s3 u = pri s u \<and> th_state (th s3 u) = th_state (th s u) \<and> th_in_runq (th s3 u) = th_in_runq (th s u) \<and> th_runq (th s3 u) = th_runq (th s u)"
    if "u \<noteq> t" for u
    using s2(3) that strip_eqD [of "th s2 u" "th s u"] by (simp add: s3_def s1_def)
  moreover have "cls s3 t = THREAD_SCHED_CLASS_RT \<and> pri s3 t = 0 \<and> th_state (th s3 t) = THREAD_RUNNING \<and> th_in_runq (th s3 t) \<and> th_runq (th s3 t) = Some c"
  proof -
    have "strip (th s2 t) = strip (v2\<lparr>th_runq := Some c, th_in_runq := True\<rparr>)" using s2(3) by (simp add: s1_def)
    from strip_eqD [OF this] show ?thesis using v2 by (simp add: s3_def thread_real_sched_class_def thread_real_priority_def)
  qed
  moreover have "\<forall>c'<n. rq_nr_threads (rq s c') = (if c' \<in> K then 1 else 0) \<and> rq_current (rq s c') = boo c' \<and> rq_idle_balance_ticks (rq s c') = - 1"
    using ok by (simp add: setup_ok_def)
  ultimately show ?thesis using s2(4) c(2) unfolding t_def [symmetric] by (intro exI [of _ s3] exI [of _ q2]) (auto simp: s3_def s1_def)
qed


lemma setup_runq_ok:
  assumes args: "boot_args n boo bal idl bm im" and ok: "setup_ok n K boo bal idl s" and c: "c < n" "c \<notin> K" "K \<subseteq> {..<n}"
  shows "\<exists>s'. thread_setup_runq (boo 0) n bm im c s = Some s' \<and> setup_ok n (insert c K) boo bal idl s'"
proof -
  obtain s1 q where s1: "thread_setup_balancer (boo 0) n (bm c) c s = Some s1"
    "runqs_ok {..<n} s1 q (\<lambda>_. None) (\<lambda>c'. if c' \<in> insert c K then {bal c'} else {})"
    "\<forall>c'<n. rq_nr_threads (rq s1 c') = (if c' \<in> insert c K then 1 else 0) \<and> rq_current (rq s1 c') = boo c' \<and> rq_idle_balance_ticks (rq s1 c') = - 1
       \<and> rq_balancer (rq s1 c') = (if c' = c then Some (bal c) else rq_balancer (rq s c')) \<and> rq_idler (rq s1 c') = rq_idler (rq s c')"
    "\<forall>u. u \<noteq> bal c \<longrightarrow> cls s1 u = cls s u \<and> pri s1 u = pri s u \<and> th_state (th s1 u) = th_state (th s u) \<and> th_in_runq (th s1 u) = th_in_runq (th s u) \<and> th_runq (th s1 u) = th_runq (th s u)"
    "runq_map_ok {..<n} s1"
    "cls s1 (bal c) = THREAD_SCHED_CLASS_RT" "pri s1 (bal c) = 0" "th_state (th s1 (bal c)) = THREAD_RUNNING" "th_in_runq (th s1 (bal c))" "th_runq (th s1 (bal c)) = Some c"
    using setup_balancer_ok [OF assms] by (elim exE conjE)
  define t where "t = idl c"
  define attr where "attr = thread_attr_set_policy THREAD_SCHED_POLICY_IDLE (thread_attr_set_cpumap ((\<lambda>_. False)(c := True)) thread_attr_init)"
  have attr: "at_policy attr = THREAD_SCHED_POLICY_IDLE"
    by (simp add: attr_def thread_attr_set_policy_def thread_attr_set_cpumap_def thread_attr_init_def)
  have mem: "mem_ok (im c) t" using args c(1) by (simp add: boot_args_def t_def)
  have k: "thread_policy_to_class (at_policy attr) = Some THREAD_SCHED_CLASS_IDLE" "class_priority THREAD_SCHED_CLASS_IDLE (at_priority attr)"
    by (simp_all add: attr policy_to_class class_priority_def THREAD_SCHED_POLICY_IDLE_def THREAD_SCHED_POLICY_FIFO_def THREAD_SCHED_POLICY_RR_def THREAD_SCHED_POLICY_FS_def)
  obtain v where v: "thread_init (boo 0) t (im c) attr s1 = Some (None, set_thread t v s1)" "\<not> th_in_runq v" "sd_class (th_real v) = THREAD_SCHED_CLASS_IDLE"
    using thread_init_out [OF mem k, of "boo 0" s1] by auto
  define v1 where "v1 = v\<lparr>th_wchan_addr := 0, th_state := THREAD_RUNNING, th_runq := Some c\<rparr>"
  define s2 where "s2 = set_runq c ((rq s1 c)\<lparr>rq_idler := Some t\<rparr>) (set_thread t v1 s1)"
  have "thread_setup_idler (boo 0) (im c) c s1 = Some s2"
    using mem v(1) by (simp add: thread_setup_idler_def Let_def attr_def mem_ok_def s2_def v1_def thread_clear_wchan_def)
  then have run: "thread_setup_runq (boo 0) n bm im c s = Some s2" using s1(1) by (simp add: thread_setup_runq_def)
  have tb: "t \<noteq> bal c'" if "c' < n" for c' using boot_distinct(7) [OF args c(1) that] by (simp add: t_def)
  have lt: "c' < n" if "c' \<in> insert c K" for c' using that c by auto
  have "runqs_ok {..<n} (set_thread t v1 s1) q (\<lambda>_. None) (\<lambda>c'. if c' \<in> insert c K then {bal c'} else {})"
    by (rule runqs_ok_outside [OF s1(2)]) (use tb v(3) in \<open>auto simp: v1_def classes\<close>)
  then have r2: "runqs_ok {..<n} s2 q (\<lambda>_. None) (\<lambda>c'. if c' \<in> insert c K then {bal c'} else {})"
    by (rule runqs_ok_view) (simp_all add: s2_def same_runq_def same_sched_def)
  have cls1: "cls s2 t = THREAD_SCHED_CLASS_IDLE" "th_state (th s2 t) = THREAD_RUNNING" "\<not> th_in_runq (th s2 t)"
    using v by (simp_all add: s2_def v1_def thread_real_sched_class_def)
  have other: "cls s2 u = cls s1 u" "pri s2 u = pri s1 u" "th s2 u = th s1 u" if "u \<noteq> t" for u using that by (simp_all add: s2_def)
  have "rq_balancer (rq s2 c') = Some (bal c') \<and> rq_idler (rq s2 c') = Some (idl c')
         \<and> cls s2 (bal c') = THREAD_SCHED_CLASS_RT \<and> pri s2 (bal c') = 0 \<and> th_state (th s2 (bal c')) = THREAD_RUNNING
         \<and> th_in_runq (th s2 (bal c')) \<and> th_runq (th s2 (bal c')) = Some c'
         \<and> cls s2 (idl c') = THREAD_SCHED_CLASS_IDLE \<and> th_state (th s2 (idl c')) = THREAD_RUNNING" if c': "c' \<in> insert c K" for c'
  proof (cases "c' = c")
    case True
    then show ?thesis using s1(3,6-10) c(1) cls1 other [of "bal c"] tb [OF c(1)] by (simp add: s2_def t_def)
  next
    case False
    then have K: "c' \<in> K" "c' < n" using c' lt by auto
    have d: "bal c' \<noteq> bal c" "bal c' \<noteq> t" "idl c' \<noteq> t" "idl c' \<noteq> bal c"
      using boot_distinct(1,2,7) [OF args K(2) c(1)] tb [OF K(2)] False by (auto simp: t_def)
    have "rq_balancer (rq s c') = Some (bal c') \<and> rq_idler (rq s c') = Some (idl c')
         \<and> cls s (bal c') = THREAD_SCHED_CLASS_RT \<and> pri s (bal c') = 0 \<and> th_state (th s (bal c')) = THREAD_RUNNING
         \<and> th_in_runq (th s (bal c')) \<and> th_runq (th s (bal c')) = Some c'
         \<and> cls s (idl c') = THREAD_SCHED_CLASS_IDLE \<and> th_state (th s (idl c')) = THREAD_RUNNING" using ok K(1) by (simp add: setup_ok_def)
    then show ?thesis using s1(3) [rule_format, OF K(2)] s1(4) [rule_format, OF d(1)] s1(4) [rule_format, OF d(4)] other [OF d(2)] other [OF d(3)] False
      by (simp add: s2_def)
  qed
  moreover have "\<not> th_in_runq (th s2 u)" if "u \<notin> bal ` insert c K" for u
    using ok s1(4) that cls1(3) other(3) [of u] by (cases "u = t") (auto simp: setup_ok_def)
  moreover have "cls s2 u \<noteq> THREAD_SCHED_CLASS_FS" for u
    using ok s1(4,6) cls1(1) other(1) [of u] by (cases "u = t"; cases "u = bal c") (auto simp: setup_ok_def classes)
  moreover have "runq_map_ok {..<n} s2" using s1(5) by (simp add: runq_map_ok_def s2_def)
  moreover have "\<forall>c'<n. rq_nr_threads (rq s2 c') = (if c' \<in> insert c K then 1 else 0) \<and> rq_current (rq s2 c') = boo c' \<and> rq_idle_balance_ticks (rq s2 c') = - 1"
    using s1(3) by (simp add: s2_def)
  ultimately have "setup_ok n (insert c K) boo bal idl s2" using r2 by (simp add: setup_ok_def) blast
  then show ?thesis using run by blast
qed

lemma setup_runqs_ok:
  assumes args: "boot_args n boo bal idl bm im"
  shows "setup_ok n K boo bal idl s \<Longrightarrow> distinct cs \<Longrightarrow> set cs \<subseteq> {..<n} \<Longrightarrow> set cs \<inter> K = {} \<Longrightarrow> K \<subseteq> {..<n}
    \<Longrightarrow> \<exists>s'. for_each_cpu (thread_setup_runq (boo 0) n bm im) cs s = Some s' \<and> setup_ok n (set cs \<union> K) boo bal idl s'"
proof (induction cs arbitrary: K s)
  case (Cons c cs)
  obtain s1 where s1: "thread_setup_runq (boo 0) n bm im c s = Some s1" "setup_ok n (insert c K) boo bal idl s1"
    using setup_runq_ok [OF args Cons.prems(1), of c] Cons.prems by auto
  then show ?case using Cons.IH [OF s1(2)] Cons.prems by auto
qed simp

section \<open>The run queues of all the processors\<close>

definition fresh_ok :: "nat \<Rightarrow> (nat \<Rightarrow> nat) \<Rightarrow> sched \<Rightarrow> bool" where
  "fresh_ok m boo s \<longleftrightarrow> (\<forall>c<m. empty_runq s c \<and> rq_current (rq s c) = boo c) \<and> (\<forall>t. \<not> th_in_runq (th s t) \<and> cls s t \<noteq> THREAD_SCHED_CLASS_FS)
     \<and> (\<forall>c. (sy_active_runqs s c \<longleftrightarrow> c < m) \<and> \<not> sy_idle_runqs s c)"

definition no_threads :: "sched \<Rightarrow> bool" where
  "no_threads s \<longleftrightarrow> (\<forall>t. \<not> th_in_runq (th s t) \<and> cls s t \<noteq> THREAD_SCHED_CLASS_FS)"

lemma booter_out:
  "\<exists>v. thread_init_booter t s = Some (set_thread t v s) \<and> th_in_runq v = th_in_runq (th s t) \<and> sd_class (th_real v) = THREAD_SCHED_CLASS_IDLE"
proof -
  define v0 where "v0 = (th s t)\<lparr>th_flags := 0, th_preempt_level := 1, th_cpumap := (\<lambda>_. True), th_user := (th_user (th s t))\<lparr>sd_policy := THREAD_SCHED_POLICY_IDLE, sd_class := THREAD_SCHED_CLASS_IDLE\<rparr>\<rparr>"
  obtain g where g: "thread_set_user_priority t 0 (set_thread t v0 s)
      = Some (set_thread t (v0\<lparr>th_user := (th_user v0)\<lparr>sd_priority := 0, sd_global_priority := g\<rparr>\<rparr>) s)"
    using user_priority_out [of "set_thread t v0 s" t 0] by (auto simp: v0_def)
  define v1 where "v1 = v0\<lparr>th_user := (th_user v0)\<lparr>sd_priority := 0, sd_global_priority := g\<rparr>\<rparr>"
  define v2 where "v2 = v1\<lparr>th_real := th_user v1, th_boosted := False, th_rt_time_slice := th_rt_time_slice v1, th_fs := th_fs v1\<rparr>"
  have k: "sd_class (th_user v1) = THREAD_SCHED_CLASS_IDLE" "sd_priority (th_user v1) = 0" by (simp_all add: v1_def v0_def)
  have ne: "THREAD_SCHED_CLASS_IDLE \<noteq> THREAD_SCHED_CLASS_RT" "THREAD_SCHED_CLASS_IDLE \<noteq> THREAD_SCHED_CLASS_FS" by (simp_all add: classes)
  have "thread_reset_real_priority t (set_thread t v1 s) = Some (set_thread t v2 s)"
    using reset_real_out [of "set_thread t v1 s" t] k ne by (simp add: class_priority_def v2_def)
  then have "thread_init_booter t s = Some (set_thread t v2 s)"
    using g [folded v1_def] by (simp add: thread_init_booter_def Let_def thread_set_user_sched_policy_def thread_set_user_sched_class_def v0_def)
  then show ?thesis using k(1) by (intro exI [of _ v2]) (simp add: v2_def v1_def v0_def)
qed

lemma runq_init_maps: "same_maps s (thread_runq_init c b s)"
  by (simp add: thread_runq_init_def thread_runq_init_fs_def rt_init_out fs_runq_init_out Let_def)

lemma setup_common_ok:
  assumes "fresh_ok c boo s" "c \<noteq> 0"
  shows "\<exists>s'. thread_setup_common boo c s = Some s' \<and> fresh_ok (Suc c) boo s'"
proof -
  define s0 where "s0 = s\<lparr>sy_active_runqs := (sy_active_runqs s)(c := True)\<rparr>"
  obtain v where v: "thread_init_booter (boo c) s0 = Some (set_thread (boo c) v s0)" "th_in_runq v = th_in_runq (th s0 (boo c))" "sd_class (th_real v) = THREAD_SCHED_CLASS_IDLE"
    using booter_out [of "boo c" s0] by blast
  define s1 where "s1 = set_thread (boo c) v s0"
  define s2 where "s2 = thread_runq_init c (boo c) s1"
  have "thread_setup_common boo c s = Some s2" using v(1) assms(2) by (simp add: thread_setup_common_def s0_def s1_def s2_def)
  moreover have "empty_runq s2 c' \<and> rq_current (rq s2 c') = boo c'" if "c' < Suc c" for c'
  proof (cases "c' = c")
    case True
    then show ?thesis using runq_init_empty [of c "boo c" s1] runq_init_out(7) [of c "boo c" s1] by (simp add: s2_def)
  next
    case False
    then have "empty_runq s c' \<and> rq_current (rq s c') = boo c'" using assms(1) that by (simp add: fresh_ok_def)
    then have "empty_runq s1 c'" "rq_current (rq s1 c') = boo c'" by (simp_all add: s1_def s0_def empty_runq_def fs_queue_def)
    then show ?thesis using runq_init_other [OF False] runq_init_out(2) [OF False, of "boo c" s1] by (simp add: s2_def)
  qed
  moreover have "\<not> th_in_runq (th s2 u) \<and> cls s2 u \<noteq> THREAD_SCHED_CLASS_FS" for u
    using assms(1) v(2,3) runq_init_out(1) [of c "boo c" s1]
    by (auto simp: s2_def s1_def s0_def fresh_ok_def thread_real_sched_class_def classes)
  moreover have "(sy_active_runqs s2 c' \<longleftrightarrow> c' < Suc c) \<and> \<not> sy_idle_runqs s2 c'" for c'
    using assms(1) runq_init_maps [of s1 c "boo c"] by (auto simp: s2_def same_maps_def s1_def s0_def fresh_ok_def less_Suc_eq)
  ultimately show ?thesis by (auto simp: fresh_ok_def)
qed

lemma setup_commons_ok:
  "fresh_ok m boo s \<Longrightarrow> 0 < m \<Longrightarrow> m \<le> n \<Longrightarrow> \<exists>s'. for_each_cpu (thread_setup_common boo) [m..<n] s = Some s' \<and> fresh_ok n boo s'"
proof (induction "n - m" arbitrary: m s)
  case (Suc d)
  then have "[m..<n] = m # [Suc m..<n]" by (simp add: upt_conv_Cons)
  moreover obtain s1 where "thread_setup_common boo m s = Some s1" "fresh_ok (Suc m) boo s1"
    using setup_common_ok [OF Suc.prems(1)] Suc.prems(2) by auto
  ultimately show ?case using Suc.hyps(1) [of "Suc m" s1] Suc.hyps(2) Suc.prems by simp
qed simp

lemma bootstrap_ok:
  assumes "no_threads s"
  shows "\<exists>s'. thread_init_booter (boo 0) s = Some s' \<and> fresh_ok 1 boo (thread_bootstrap (boo 0) s')"
proof -
  obtain v where v: "thread_init_booter (boo 0) s = Some (set_thread (boo 0) v s)" "th_in_runq v = th_in_runq (th s (boo 0))" "sd_class (th_real v) = THREAD_SCHED_CLASS_IDLE"
    using booter_out [of "boo 0" s] by blast
  define s1 where "s1 = (set_thread (boo 0) v s)\<lparr>sy_active_runqs := (\<lambda>_. False)(0 := True), sy_idle_runqs := (\<lambda>_. False), sy_fs_highest_round := THREAD_FS_INITIAL_ROUND\<rparr>"
  let ?s2 = "thread_runq_init 0 (boo 0) s1"
  have "empty_runq ?s2 0 \<and> rq_current (rq ?s2 0) = boo 0" using runq_init_empty runq_init_out(7) by blast
  moreover have "\<not> th_in_runq (th ?s2 u) \<and> cls ?s2 u \<noteq> THREAD_SCHED_CLASS_FS" for u
    using assms v(2,3) runq_init_out(1) [of 0 "boo 0" s1]
    by (auto simp: s1_def no_threads_def thread_real_sched_class_def classes)
  moreover have "(sy_active_runqs ?s2 c' \<longleftrightarrow> c' < 1) \<and> \<not> sy_idle_runqs ?s2 c'" for c'
    using runq_init_maps [of s1 0 "boo 0"] by (auto simp: same_maps_def s1_def)
  ultimately have "fresh_ok 1 boo ?s2" by (simp add: fresh_ok_def)
  then show ?thesis using v(1) by (simp add: thread_bootstrap_def s1_def)
qed

lemma fresh_setup:
  assumes "fresh_ok n boo s" "n \<le> CONFIG_MAX_CPUS"
  shows "setup_ok n {} boo bal idl s" "active_cpus s = [0..<n]"
proof -
  have "runqs_ok {..<n} s no_queues (\<lambda>_. None) (\<lambda>_. {})" by (rule empty_runqs_ok) (use assms(1) in \<open>auto simp: fresh_ok_def\<close>)
  moreover have "runq_map_ok {..<n} s" using assms by (auto simp: fresh_ok_def runq_map_ok_def)
  moreover have "\<forall>c<n. rq_nr_threads (rq s c) = 0 \<and> rq_current (rq s c) = boo c \<and> rq_idle_balance_ticks (rq s c) = - 1"
    using assms(1) by (simp add: fresh_ok_def empty_runq_def)
  ultimately show "setup_ok n {} boo bal idl s" using assms(1) by (auto simp: setup_ok_def fresh_ok_def)
  have "filter (\<lambda>c. c < n) [0..<m] = [0..<min n m]" for m by (induction m) (auto simp: min_def le_Suc_eq)
  moreover have "sy_active_runqs s = (\<lambda>c. c < n)" using assms(1) by (auto simp: fresh_ok_def)
  ultimately show "active_cpus s = [0..<n]" using assms(2) by (simp add: active_cpus_def)
qed

lemma setup_all_ok:
  assumes args: "boot_args n boo bal idl bm im" and ok: "fresh_ok 1 boo s"
  shows "\<exists>s'. thread_setup (boo 0) n boo bm im s = Some s' \<and> setup_ok n {..<n} boo bal idl s'"
proof -
  have n: "0 < n" "n \<le> CONFIG_MAX_CPUS" using args by (simp_all add: boot_args_def)
  obtain s1 where s1: "for_each_cpu (thread_setup_common boo) [1..<n] s = Some s1" "fresh_ok n boo s1"
    using setup_commons_ok [OF ok, of n] n by auto
  note f = fresh_setup [OF s1(2) n(2)]
  have "set [0..<n] = {..<n}" by auto
  then obtain s2 where "for_each_cpu (thread_setup_runq (boo 0) n bm im) [0..<n] s1 = Some s2" "setup_ok n {..<n} boo bal idl s2"
    using setup_runqs_ok [OF args f(1), of "[0..<n]"] by auto
  then show ?thesis using s1(1) f(2) by (simp add: thread_setup_def)
qed

end
