(* ===== verification/Sched_Start.thy ===== *)
theory Sched_Start
  imports Sched_Init
begin

text \<open>
  The processors leave their booter and enter the scheduler; the system then satisfies its invariant,
  \<open>system_ok\<close>: the run queues, the counters and the maps of the active and of the idle processors agree.
\<close>

unbundle bit_operations_syntax

section \<open>Entering the scheduler\<close>

text \<open>The processors \<open>L\<close> run a thread of their own, the others their booter.\<close>

definition entering_ok :: "nat \<Rightarrow> nat set \<Rightarrow> (nat \<Rightarrow> nat) \<Rightarrow> (nat \<Rightarrow> nat) \<Rightarrow> (nat \<Rightarrow> nat) \<Rightarrow> sched \<Rightarrow> bool" where
  "entering_ok n L boo bal idl s \<longleftrightarrow> (let r = (\<lambda>c. if c \<in> L then Some (bal c) else None); A = (\<lambda>c. if c < n then {bal c} else {}) in
     (\<exists>q. runqs_ok {..<n} s q r A) \<and> sys_ok {..<n} s A {} (\<lambda>_. 0) \<and> works_ok s {} \<and> (\<forall>c<n. awake s A c)
     \<and> (\<forall>c<n. rq_current (rq s c) = (if c \<in> L then bal c else boo c) \<and> rq_idle_balance_ticks (rq s c) \<noteq> 0
          \<and> (\<forall>d. rq_idler (rq s c) = Some d \<longrightarrow> th_state (th s d) = THREAD_RUNNING))
     \<and> (\<forall>c<n. rq_balancer (rq s c) = Some (bal c) \<and> cls s (bal c) = THREAD_SCHED_CLASS_RT \<and> pri s (bal c) = 0 \<and> rq_idler (rq s c) = Some (idl c))
     \<and> runq_map_ok {..<n} s)"

lemma setup_entering:
  assumes args: "boot_args n boo bal idl bm im" and ok: "setup_ok n {..<n} boo bal idl s"
  shows "entering_ok n {} boo bal idl s"
proof -
  let ?A = "\<lambda>c. if c < n then {bal c} else {}"
  note o = ok [unfolded setup_ok_def]
  have inj: "bal c = bal c' \<longleftrightarrow> c = c'" if "c < n" "c' < n" for c c' using boot_distinct(1) [OF args that] .
  have k: "rq_balancer (rq s c) = Some (bal c)" "rq_idler (rq s c) = Some (idl c)" "cls s (bal c) = THREAD_SCHED_CLASS_RT" "pri s (bal c) = 0"
    "th_state (th s (bal c)) = THREAD_RUNNING" "th_in_runq (th s (bal c))" "th_runq (th s (bal c)) = Some c" "cls s (idl c) = THREAD_SCHED_CLASS_IDLE"
    "th_state (th s (idl c)) = THREAD_RUNNING" if "c < n" for c using o that by auto
  have m: "member_ok {..<n} s ?A t" for t
  proof (cases "t \<in> bal ` {..<n}")
    case True
    then obtain c where c: "c < n" "t = bal c" by auto
    have "t \<in> ?A c' \<longleftrightarrow> c' = c" if "c' < n" for c' using inj [OF c(1) that] c(2) that by auto
    then show ?thesis using k [OF c(1)] c by (auto simp: member_ok_def)
  next
    case False
    then have "\<not> th_in_runq (th s t)" using o by blast
    then show ?thesis using False by (auto simp: member_ok_def)
  qed
  have "sys_ok {..<n} s ?A {} (\<lambda>_. 0)"
    unfolding sys_ok_def
  proof (intro conjI ballI impI allI)
    fix c assume c: "c \<in> {..<n}"
    show "rq_nr_threads (rq s c) = of_nat (card (?A c)) + 0" using o c by simp
    show "\<exists>b. rq_balancer (rq s c) = Some b \<and> balancer_ok s {} c b" using k c args by (auto simp: balancer_ok_def boot_args_def)
    show "\<exists>d. rq_idler (rq s c) = Some d \<and> cls s d = THREAD_SCHED_CLASS_IDLE" using k c by simp
    show "c = c'" if "c' \<in> {..<n}" "rq_balancer (rq s c) = rq_balancer (rq s c')" for c' using k(1) inj c that by simp
  qed (rule m)
  moreover have "works_ok s {}" using o by (simp add: works_ok_def)
  moreover have "\<forall>c<n. awake s ?A c" using o by (simp add: awake_def)
  moreover have "\<exists>q. runqs_ok {..<n} s q (\<lambda>_. None) ?A" using o by simp
  ultimately show ?thesis using o k by (simp add: entering_ok_def)
qed

lemma enter_ok:
  assumes ok: "entering_ok n L boo bal idl s" and c: "c < n" "c \<notin> L"
  shows "\<exists>s'. thread_run_scheduler (boo c) c s = Some s' \<and> entering_ok n (insert c L) boo bal idl s'"
proof -
  define A where "A = (\<lambda>c. if c < n then {bal c} else {})"
  define r where "r = (\<lambda>c. if c \<in> L then Some (bal c) else None)"
  note o = ok [unfolded entering_ok_def Let_def, folded A_def r_def]
  obtain q where q: "runqs_ok {..<n} s q r A" using o by blast
  have h: "sys_ok {..<n} s A {} (\<lambda>_. 0)" "works_ok s {}" "awake s A c" "c \<in> {..<n}" "r c = None" using o c by (simp_all add: r_def)
  obtain t s1 q1 where g: "thread_runq_get_next c s = Some (t, runq_set_current c t s1)" "quiet s s1" "moved s s1"
    "runqs_ok {..<n} s1 q1 (r(c := if A c = {} then None else Some t)) A" "A c \<noteq> {} \<longrightarrow> t \<in> A c"
    "works_ok s1 {}" "\<forall>c'. awake s1 A c' = awake s A c'"
    using runq_get_next_ok [OF q h(1-5)] by (elim exE conjE)
  have t: "t = bal c" using g(5) c(1) by (simp add: A_def)
  have r': "r(c := if A c = {} then None else Some t) = (\<lambda>c'. if c' \<in> insert c L then Some (bal c') else None)"
    using t c(1) by (auto simp: r_def A_def fun_eq_iff)
  let ?s = "runq_set_current c t s1"
  have "thread_run_scheduler (boo c) c s = Some ?s" using g(1) o c by (simp add: thread_run_scheduler_def)
  moreover have "\<exists>q. runqs_ok {..<n} ?s q (\<lambda>c'. if c' \<in> insert c L then Some (bal c') else None) A"
    using runqs_ok_current [OF g(4)] unfolding r' by blast
  moreover have "sys_ok {..<n} ?s A {} (\<lambda>_. 0)" by (rule sys_ok_current) (rule sys_ok_quiet [OF h(1) g(2)])
  moreover have "works_ok ?s {}" using g(6) by (simp add: works_ok_def)
  moreover have "\<forall>c<n. awake ?s A c"
  proof -
    have "awake ?s A c' = awake s1 A c'" for c' by (simp add: awake_def)
    then show ?thesis using g(7) o by simp
  qed
  moreover have "\<forall>c'<n. rq_current (rq ?s c') = (if c' \<in> insert c L then bal c' else boo c') \<and> rq_idle_balance_ticks (rq ?s c') \<noteq> 0
          \<and> (\<forall>d. rq_idler (rq ?s c') = Some d \<longrightarrow> th_state (th ?s d) = THREAD_RUNNING)"
    using o t quietD(5,7,9,10) [OF g(2)] by auto
  moreover have "\<forall>c'<n. rq_balancer (rq ?s c') = Some (bal c') \<and> cls ?s (bal c') = THREAD_SCHED_CLASS_RT \<and> pri ?s (bal c') = 0
      \<and> rq_idler (rq ?s c') = Some (idl c')"
    using o quietD(1,2,8,9) [OF g(2)] by auto
  moreover have "runq_map_ok {..<n} ?s"
  proof -
    have "idle_frame c s ?s" using runq_get_next_maps [OF g(1)] .
    then show ?thesis using o c(1) by (auto simp: runq_map_ok_def idle_frame_def)
  qed
  ultimately show ?thesis unfolding entering_ok_def Let_def A_def [symmetric] by blast
qed

lemma enter_all_ok:
  "entering_ok n L boo bal idl s \<Longrightarrow> distinct cs \<Longrightarrow> set cs \<subseteq> {..<n} \<Longrightarrow> set cs \<inter> L = {}
    \<Longrightarrow> \<exists>s'. for_each_cpu (\<lambda>c. thread_run_scheduler (boo c) c) cs s = Some s' \<and> entering_ok n (set cs \<union> L) boo bal idl s'"
proof (induction cs arbitrary: L s)
  case (Cons c cs)
  obtain s1 where s1: "thread_run_scheduler (boo c) c s = Some s1" "entering_ok n (insert c L) boo bal idl s1"
    using enter_ok [OF Cons.prems(1), of c] Cons.prems by auto
  then show ?case using Cons.IH [OF s1(2)] Cons.prems by auto
qed simp

text \<open>The invariant with the maps of processors.\<close>

definition system_ok :: "nat set \<Rightarrow> sched \<Rightarrow> bool" where
  "system_ok C s \<longleftrightarrow> sched_inv C s \<and> runq_map_ok C s"

lemma system_step: "system_ok C s \<Longrightarrow> sched_inv C s' \<Longrightarrow> idle_frame c s s' \<Longrightarrow> c \<in> C \<Longrightarrow> system_ok C s'"
  by (auto simp: system_ok_def runq_map_ok_def idle_frame_def)

lemma boot_ok:
  assumes args: "boot_args n boo bal idl bm im" and s: "no_threads s"
  shows "\<exists>s'. thread_boot n boo bm im s = Some s' \<and> system_ok {..<n} s'
    \<and> (\<forall>c<n. rq_current (rq s' c) = bal c \<and> rq_balancer (rq s' c) = Some (bal c) \<and> rq_idler (rq s' c) = Some (idl c) \<and> cls s' (bal c) = THREAD_SCHED_CLASS_RT \<and> pri s' (bal c) = 0
        \<and> {t. th_in_runq (th s' t) \<and> th_runq (th s' t) = Some c} = {bal c})"
proof -
  obtain s1 where s1: "thread_init_booter (boo 0) s = Some s1" "fresh_ok 1 boo (thread_bootstrap (boo 0) s1)" using bootstrap_ok [OF s, of boo] by blast
  obtain s2 where s2: "thread_setup (boo 0) n boo bm im (thread_bootstrap (boo 0) s1) = Some s2" "setup_ok n {..<n} boo bal idl s2"
    using setup_all_ok [OF args s1(2)] by blast
  have n: "set [0..<n] = {..<n}" by auto
  obtain s3 where s3: "for_each_cpu (\<lambda>c. thread_run_scheduler (boo c) c) [0..<n] s2 = Some s3" "entering_ok n {..<n} boo bal idl s3"
    using enter_all_ok [OF setup_entering [OF args s2(2)], of "[0..<n]"] n by auto
  define A where "A = (\<lambda>c. if c < n then {bal c} else {})"
  define r where "r = (\<lambda>c. if c \<in> {..<n} then Some (bal c) else None)"
  note o = s3(2) [unfolded entering_ok_def Let_def, folded A_def r_def]
  obtain q where "runqs_ok {..<n} s3 q r A" using o by blast
  moreover have "cur_ok s3 r c" if "c < n" for c using o that by (simp add: cur_ok_def r_def)
  ultimately have "rest_ok {..<n} s3 q r A" using o by (simp add: rest_ok_def)
  then have rest: "rest_ok {..<n} s3 q r A" .
  then have "system_ok {..<n} s3" using o by (auto simp: system_ok_def sched_inv_def)
  moreover have "rq_current (rq s3 c) = bal c \<and> rq_balancer (rq s3 c) = Some (bal c) \<and> rq_idler (rq s3 c) = Some (idl c) \<and> cls s3 (bal c) = THREAD_SCHED_CLASS_RT \<and> pri s3 (bal c) = 0
        \<and> {t. th_in_runq (th s3 t) \<and> th_runq (th s3 t) = Some c} = {bal c}" if "c < n" for c
    using o that rest_members [OF rest, of c] by (simp add: A_def)
  ultimately show ?thesis using s1(1) s2(1) s3(1) by (simp add: thread_boot_def)
qed

end
