(* ===== verification/Sched_Requeue.thy ===== *)
theory Sched_Requeue
  imports Sched_Start
begin

text \<open>
  Taking a thread out of its run queue, changing its parameters and putting it back, as the two
  operations that set them do.
\<close>

unbundle bit_operations_syntax

section \<open>Out of the run queue\<close>

text \<open>The state between the two halves of a change of parameters: the thread is in no run queue.\<close>

definition out_ok :: "nat set \<Rightarrow> nat \<Rightarrow> nat \<Rightarrow> bool \<Rightarrow> sched \<Rightarrow> queues \<Rightarrow> (nat \<Rightarrow> nat option) \<Rightarrow> (nat \<Rightarrow> nat set) \<Rightarrow> bool" where
  "out_ok C c t current s q r A \<longleftrightarrow> runqs_ok C s q r A \<and> sys_ok C s A {t} (\<lambda>_. 0) \<and> works_ok s {} \<and> (\<forall>c\<in>C. awake s A c)
     \<and> (\<forall>c\<in>C. t \<notin> A c) \<and> \<not> th_in_runq (th s t)
     \<and> (\<forall>c'\<in>C. (current \<and> c' = c \<longrightarrow> r c = None \<and> rq_current (rq s c) = t
            \<and> (\<forall>d. rq_idler (rq s c) = Some d \<longrightarrow> th_state (th s d) = THREAD_RUNNING)
            \<and> (rq_idle_balance_ticks (rq s c) = 0 \<longrightarrow> (\<forall>b. rq_balancer (rq s c) = Some b \<longrightarrow> th_state (th s b) = THREAD_RUNNING)))
          \<and> (\<not> (current \<and> c' = c) \<longrightarrow> cur_ok s r c'))"

lemma moved_view:
  assumes "moved s s'"
  shows "cls s' t = cls s t" "pri s' t = pri s t" "rq_current (rq s' c) = rq_current (rq s c)" "rq_balancer (rq s' c) = rq_balancer (rq s c)"
    "rq_idler (rq s' c) = rq_idler (rq s c)" "rq_idle_balance_ticks (rq s' c) = rq_idle_balance_ticks (rq s c)"
  using assms by (simp_all add: moved_def)

lemma sched_dequeue_ok:
  assumes ok: "rest_ok C s q r A" and c: "c \<in> C" "th_runq (th s t) = Some c" and t: "\<forall>c\<in>C. rq_balancer (rq s c) \<noteq> Some t \<and> rq_idler (rq s c) \<noteq> Some t"
  defines "current \<equiv> th_in_runq (th s t) \<and> t = rq_current (rq s c)"
  shows "\<exists>s' q' r' A'. sched_dequeue c t s = Some (th_in_runq (th s t), current, s') \<and> out_ok C c t current s' q' r' A' \<and> moved s s' \<and> th_state (th s' t) = th_state (th s t)"
proof (cases "th_in_runq (th s t)")
  case False
  note a = ok [unfolded rest_ok_def]
  have "sys_ok C s A {t} (\<lambda>_. 0)" using a by (auto simp: sys_ok_def balancer_ok_def)
  moreover have "\<forall>c\<in>C. t \<notin> A c" using rest_members [OF ok] False by auto
  ultimately have "out_ok C c t False s q r A" using a False by (simp add: out_ok_def)
  then show ?thesis using False by (intro exI [of _ s] exI [of _ q] exI [of _ r] exI [of _ A]) (simp add: sched_dequeue_def current_def)
next
  case True
  note a = ok [unfolded rest_ok_def]
  have tA: "t \<in> A c" using rest_members [OF ok c(1)] True c(2) by simp
  have k: "sys_ok C s A {t} (\<lambda>_. 0)" using a by (auto simp: sys_ok_def balancer_ok_def)
  have X: "\<forall>b. rq_balancer (rq s c) = Some b \<longrightarrow> b \<notin> {t}" using t c(1) by auto
  define s1f where "s1f = (if t \<noteq> rq_current (rq s c) then Some (False, s) else do { s \<leftarrow> thread_runq_put_prev c t s; Some (True, s) })"
  obtain s1 q1 r1 A1 where s1: "s1f = Some (current, s1)" "runqs_ok C s1 q1 r1 A1" "sys_ok C s1 A1 {t} (\<lambda>_. 0)" "works_ok s1 {}" "moved s s1" "elsewhere c s A s1 A1" "awake s1 A1 c"
    "th_state (th s1 t) = th_state (th s t)" "th_in_runq (th s1 t)" "th_runq (th s1 t) = Some c" "r1 = (if current then r(c := None) else r)" "r1 c \<noteq> Some t" "t \<in> A1 c"
  proof (cases "t = rq_current (rq s c)")
    case cur: True
    have rc: "r c = Some t" using current_running(2,3) [OF ok c(1)] t c(1) cur by auto
    have w: "works_ok s {t}" "ran_ok s t" using a ran_ok_within by (auto simp: works_ok_def)
    obtain s' q' A' where s': "thread_runq_put_prev c t s = Some s'" "runqs_ok C s' q' (r(c := None)) A'" "sys_ok C s' A' {t} (\<lambda>_. 0)" "works_ok s' {}" "moved s s'"
      "woken c s A s' A'" "awake s' A' c" "th_state (th s' t) = th_state (th s t)" "th_in_runq (th s' t) = th_in_runq (th s t)" "th_runq (th s' t) = th_runq (th s t)"
    proof -
      have h: "runqs_ok C s q r A" "awake s A c" using a c(1) by simp_all
      show thesis using runq_put_prev_ok [OF h(1) k w(1) h(2) c(1) rc w(2) X] by (elim exE conjE) (rule that)
    qed
    have "A c \<subseteq> A' c" using s'(6) by (auto simp: woken_def)
    then show thesis using that [of s' q' "r(c := None)" A'] s' True cur c(2) tA woken_elsewhere [OF s'(6)]
      by (simp add: s1f_def current_def) (use s' in blast)
  next
    case False
    have "r c \<noteq> Some t" using a c(1) False by (auto simp: cur_ok_def)
    then show thesis using that [of s q r A] a c True False k tA by (simp add: s1f_def current_def)
  qed
  have X1: "cls s1 t = THREAD_SCHED_CLASS_FS \<longrightarrow> (\<forall>b. rq_balancer (rq s1 c) = Some b \<longrightarrow> b \<notin> {t})" using X moved_view [OF s1(5)] by simp
  obtain s2 q2 A2 where s2: "thread_runq_remove c t s1 = Some s2" "runqs_ok C s2 q2 r1 A2" "sys_ok C s2 A2 {t} (\<lambda>_. 0)" "works_ok s2 {}" "moved s1 s2" "elsewhere c s1 A1 s2 A2"
    "\<not> th_in_runq (th s2 t)" "\<forall>c\<in>C. t \<notin> A2 c" "rq_balancer (rq s1 c) \<noteq> Some t \<and> awake s1 A1 c \<longrightarrow> awake s2 A2 c" "th_state (th s2 t) = th_state (th s1 t)"
    using runq_remove_ok [OF s1(2-4) c(1) s1(13,12) _ s1(9) X1] by auto
  have mv: "moved s s2" by (rule moved_trans [OF s1(5) s2(5)])
  have el: "elsewhere c s A s2 A2" by (rule elsewhere_trans [OF s1(6) s2(6)])
  have "awake s2 A2 c'" if "c' \<in> C" for c'
  proof (cases "c' = c")
    case True
    then show ?thesis using s2(9) s1(7) t c(1) moved_view(4) [OF s1(5)] by simp
  next
    case False
    then show ?thesis using elsewhere_awake [OF el mv _ False] a that by simp
  qed
  moreover have "cur_ok s2 r1 c'" if "c' \<in> C" "\<not> (current \<and> c' = c)" for c'
    using moved_cur_ok [OF mv, of r c' r1] a that s1(11) by auto
  moreover have "r1 c = None \<and> rq_current (rq s2 c) = t
            \<and> (\<forall>d. rq_idler (rq s2 c) = Some d \<longrightarrow> th_state (th s2 d) = THREAD_RUNNING)
            \<and> (rq_idle_balance_ticks (rq s2 c) = 0 \<longrightarrow> (\<forall>b. rq_balancer (rq s2 c) = Some b \<longrightarrow> th_state (th s2 b) = THREAD_RUNNING))" if current
  proof -
    have "r1 c = None" using s1(11) that by simp
    moreover have "rq_current (rq s2 c) = t" using that moved_view(3) [OF mv] by (simp add: current_def)
    moreover have "cur_ok s2 r c" using moved_cur_ok [OF mv, of r c r] a c(1) by simp
    ultimately show ?thesis by (simp add: cur_ok_def)
  qed
  ultimately have "out_ok C c t current s2 q2 r1 A2" using s2 by (simp add: out_ok_def)
  moreover have "sched_dequeue c t s = Some (True, current, s2)"
    using True s1(1) s2(1) unfolding s1f_def by (simp add: sched_dequeue_def)
  ultimately show ?thesis using True mv s1(8) s2(10) by auto
qed


section \<open>New parameters\<close>

text \<open>What the thread looks like once its parameters have been changed.\<close>

definition new_params :: "sched \<Rightarrow> nat \<Rightarrow> sched \<Rightarrow> bool" where
  "new_params s t s' \<longleftrightarrow> (\<exists>v. s' = set_thread t v s \<and> th_in_runq v = th_in_runq (th s t) \<and> th_runq v = th_runq (th s t) \<and> th_state v = th_state (th s t)
     \<and> (sd_class (th_real v) = THREAD_SCHED_CLASS_FS \<longrightarrow> sd_priority (th_real v) \<le> THREAD_SCHED_FS_PRIO_MAX
        \<and> fd_weight (th_fs v) = thread_sched_fs_prio2weight (sd_priority (th_real v)) \<and> fd_fs_runq (th_fs v) = None \<and> fd_work (th_fs v) \<le> fd_weight (th_fs v)))"

lemma sys_ok_intro:
  assumes "sys_ok C s A X n" "rq s' = rq s" "\<And>u. u \<notin> X' \<Longrightarrow> member_ok C s' A u"
    "\<And>c. c \<in> C \<Longrightarrow> \<exists>b. rq_balancer (rq s c) = Some b \<and> balancer_ok s' X' c b"
    "\<And>c. c \<in> C \<Longrightarrow> \<exists>d. rq_idler (rq s c) = Some d \<and> cls s' d = THREAD_SCHED_CLASS_IDLE"
  shows "sys_ok C s' A X' n"
  using assms unfolding sys_ok_def by simp

lemma new_params_ok:
  assumes ok: "out_ok C c t current s q r A" and new: "new_params s t s'"
    and t: "\<forall>c\<in>C. rq_balancer (rq s c) \<noteq> Some t \<and> rq_idler (rq s c) \<noteq> Some t"
  shows "out_ok C c t current s' q r A"
proof -
  note a = ok [unfolded out_ok_def]
  obtain v where v: "s' = set_thread t v s" "th_in_runq v = th_in_runq (th s t)" "th_runq v = th_runq (th s t)" "th_state v = th_state (th s t)"
    "sd_class (th_real v) = THREAD_SCHED_CLASS_FS \<Longrightarrow> sd_priority (th_real v) \<le> THREAD_SCHED_FS_PRIO_MAX
        \<and> fd_weight (th_fs v) = thread_sched_fs_prio2weight (sd_priority (th_real v)) \<and> fd_fs_runq (th_fs v) = None \<and> fd_work (th_fs v) \<le> fd_weight (th_fs v)"
    using new by (auto simp: new_params_def)
  have e: "th_in_runq (th s' u) = th_in_runq (th s u)" "th_runq (th s' u) = th_runq (th s u)" "th_state (th s' u) = th_state (th s u)" "rq s' = rq s" "fs_queue s' = fs_queue s" for u
    using v by simp_all
  have o: "u \<noteq> t \<Longrightarrow> cls s' u = cls s u \<and> pri s' u = pri s u \<and> fsd s' u = fsd s u" for u using v(1) by simp
  have "runqs_ok C s' q r A" unfolding v(1) by (rule runqs_ok_outside) (use a v(5) in auto)
  moreover have "sys_ok C s' A {t} (\<lambda>_. 0)"
  proof -
    have m: "member_ok C s' A u \<longleftrightarrow> member_ok C s A u" for u by (simp add: member_ok_def e)
    have b: "balancer_ok s' {t} c b \<longleftrightarrow> balancer_ok s {t} c b" if "b \<noteq> t" for c b using o [OF that] by (simp add: balancer_ok_def e)
    have k: "sys_ok C s A {t} (\<lambda>_. 0)" using a by simp
    show ?thesis
    proof (rule sys_ok_intro [OF k])
      fix c assume c: "c \<in> C"
      obtain x where x: "rq_balancer (rq s c) = Some x" "balancer_ok s {t} c x" using k c by (auto simp: sys_ok_def)
      then show "\<exists>x. rq_balancer (rq s c) = Some x \<and> balancer_ok s' {t} c x" using b [of x c] t c by auto
      obtain d where d: "rq_idler (rq s c) = Some d" "cls s d = THREAD_SCHED_CLASS_IDLE" using k c by (auto simp: sys_ok_def)
      then show "\<exists>d. rq_idler (rq s c) = Some d \<and> cls s' d = THREAD_SCHED_CLASS_IDLE" using o [of d] t c by auto
    qed (use k m e in \<open>simp_all add: sys_ok_def\<close>)
  qed
  moreover have "works_ok s' {}"
  proof -
    have "fd_work (fsd s' u) \<le> fd_weight (fsd s' u)" if "cls s' u = THREAD_SCHED_CLASS_FS" for u
      using a v(1,5) o [of u] that by (cases "u = t") (auto simp: works_ok_def thread_real_sched_class_def)
    then show ?thesis by (simp add: works_ok_def)
  qed
  moreover have "awake s' A c" if "c \<in> C" for c
  proof -
    have "cls s' u = cls s u" if "u \<in> A c" for u using o [of u] a \<open>c \<in> C\<close> that by auto
    then show ?thesis using a that by (auto simp: awake_def e)
  qed
  moreover have "cur_ok s' r c' = cur_ok s r c'" for c' by (simp add: cur_ok_def e split: option.split)
  ultimately show ?thesis using a by (simp add: out_ok_def e)
qed

section \<open>Back to the run queue\<close>

lemma requeue_ok:
  assumes ok: "out_ok C c t current s q r A" and c: "c \<in> C" and bi: "\<forall>c\<in>C. rq_balancer (rq s c) \<noteq> Some t"
    and t: "requeue \<longrightarrow> th_state (th s t) = THREAD_RUNNING \<and> t < MAX_THREADS \<and> runq_class s t" and cur: "current \<longrightarrow> requeue"
  shows "\<exists>s' q' r' A'. sched_requeue c t requeue current s = Some s' \<and> rest_ok C s' q' r' A' \<and> moved s s' \<and> (\<forall>u. th_state (th s' u) = th_state (th s u))
    \<and> th_in_runq (th s' t) = requeue \<and> (requeue \<longrightarrow> th_runq (th s' t) = Some c)"
proof (cases requeue)
  case False
  note a = ok [unfolded out_ok_def]
  have k: "sys_ok C s A {t} (\<lambda>_. 0)" using a by simp
  have "sys_ok C s A {} (\<lambda>_. 0)"
  proof (rule sys_ok_intro [OF k])
    show "member_ok C s A u" for u using a by (cases "u = t") (auto simp: sys_ok_def member_ok_def)
    fix c assume c: "c \<in> C"
    obtain x where x: "rq_balancer (rq s c) = Some x" "balancer_ok s {t} c x" using k c by (auto simp: sys_ok_def)
    then show "\<exists>x. rq_balancer (rq s c) = Some x \<and> balancer_ok s {} c x" using bi c by (auto simp: balancer_ok_def)
  qed (use k in \<open>simp_all add: sys_ok_def\<close>)
  moreover have "\<not> current" using cur False by simp
  ultimately have "rest_ok C s q r A" using a by (simp add: rest_ok_def)
  then show ?thesis using False a by (auto simp: sched_requeue_def)
next
  case True
  note a = ok [unfolded out_ok_def]
  let ?A = "A(c := insert t (A c))"
  have h: "runqs_ok C s q r A" "sys_ok C s A {t} (\<lambda>_. 0)" "works_ok s {}" "\<forall>c\<in>C. awake s A c" "c \<in> C" "\<not> th_in_runq (th s t)" "th_state (th s t) = THREAD_RUNNING"
    "\<forall>c\<in>C. t \<notin> A c" "t < MAX_THREADS" "runq_class s t" "\<forall>c'\<in>C. rq_balancer (rq s c') = Some t \<longrightarrow> c' = c" using a c t [rule_format, OF True] bi by simp_all
  obtain s1 q1 where s1: "thread_runq_add c t s = Some s1" "runqs_ok C s1 q1 r ?A" "sys_ok C s1 ?A ({t} - {t}) (\<lambda>_. 0)" "works_ok s1 {}" "moved s s1" "\<forall>c'\<in>C. awake s1 ?A c'"
    "cls s t = THREAD_SCHED_CLASS_FS \<longrightarrow> t \<in> set (q_thr q1 c (rq_fs_active (rq s1 c))) \<and> fs_cur s1 c \<in> set (q_groups q1 c (rq_fs_active (rq s1 c)))"
    "\<forall>u. th_state (th s1 u) = th_state (th s u) \<and> th_wakeup_error (th s1 u) = th_wakeup_error (th s u) \<and> th_wchan_addr (th s1 u) = th_wchan_addr (th s u)"
    using runq_add_awake [OF h] by (elim exE conjE)
  have sys1: "sys_ok C s1 ?A {} (\<lambda>_. 0)" using s1(3) by simp
  show ?thesis
  proof (cases current)
    case False
    have "cur_ok s1 r c'" if "c' \<in> C" for c' using moved_cur_ok [OF s1(5), of r c' r] a that False by simp
    then have rest: "rest_ok C s1 q1 r ?A" using s1 sys1 by (simp add: rest_ok_def)
    moreover have "th_in_runq (th s1 t) \<and> th_runq (th s1 t) = Some c" using rest_members [OF rest c] by auto
    ultimately show ?thesis using True False s1(1,5,8) by (intro exI [of _ s1] exI [of _ q1] exI [of _ r] exI [of _ ?A]) (simp add: sched_requeue_def)
  next
    case cur': True
    have cu: "r c = None" "rq_current (rq s c) = t" "\<forall>d. rq_idler (rq s c) = Some d \<longrightarrow> th_state (th s d) = THREAD_RUNNING"
      "rq_idle_balance_ticks (rq s c) = 0 \<longrightarrow> (\<forall>b. rq_balancer (rq s c) = Some b \<longrightarrow> th_state (th s b) = THREAD_RUNNING)"
      using a c cur' by auto
    have tA: "t \<in> ?A c" by simp
    have act: "cls s1 t = THREAD_SCHED_CLASS_FS \<longrightarrow> t \<in> set (q_thr q1 c (rq_fs_active (rq s1 c))) \<and> fs_cur s1 c \<in> set (q_groups q1 c (rq_fs_active (rq s1 c)))"
      using s1(7) moved_view(1) [OF s1(5)] by simp
    obtain s2 q2 where s2: "thread_runq_set_next c t s1 = Some (runq_set_current c t s2)" "quiet s1 s2" "moved s1 s2" "runqs_ok C s2 q2 (r(c := Some t)) ?A" "works_ok s2 {}"
      "\<forall>c'. awake s2 ?A c' = awake s1 ?A c'"
      using runq_set_next_ok [OF s1(2,4) c cu(1) tA act] by (elim exE conjE)
    define s3 where "s3 = runq_set_current c t s2"
    have mv: "moved s s2" by (rule moved_trans [OF s1(5) s2(3)])
    have st: "th_state (th s3 u) = th_state (th s u)" for u using s1(8) quietD(5) [OF s2(2)] by (simp add: s3_def)
    have "cur_ok s3 (r(c := Some t)) c'" if "c' \<in> C" for c'
    proof (cases "c' = c")
      case True
      have "rq_idler (rq s3 c) = rq_idler (rq s c)" "rq_idle_balance_ticks (rq s3 c) = rq_idle_balance_ticks (rq s c)" "rq_balancer (rq s3 c) = rq_balancer (rq s c)" "rq_current (rq s3 c) = t"
        using moved_view [OF mv] by (simp_all add: s3_def)
      then show ?thesis using True cu(3,4) st by (simp add: cur_ok_def)
    next
      case False
      then have "cur_ok s2 (r(c := Some t)) c'" using moved_cur_ok [OF mv, of r c' "r(c := Some t)"] a that by simp
      then show ?thesis using False by (simp add: cur_ok_def s3_def split: option.splits)
    qed
    moreover have "runqs_ok C s3 q2 (r(c := Some t)) ?A" unfolding s3_def by (rule runqs_ok_current [OF s2(4)])
    moreover have "sys_ok C s3 ?A {} (\<lambda>_. 0)" unfolding s3_def by (rule sys_ok_current) (rule sys_ok_quiet [OF sys1 s2(2)])
    moreover have "works_ok s3 {}" using s2(5) by (simp add: works_ok_def s3_def)
    moreover have "\<forall>c'\<in>C. awake s3 ?A c'"
    proof
      fix c' assume "c' \<in> C"
      then have "awake s2 ?A c'" using s2(6) s1(6) by blast
      moreover have "awake s3 B c' = awake s2 B c'" for B by (simp add: awake_def s3_def)
      ultimately show "awake s3 ?A c'" by blast
    qed
    ultimately have rest: "rest_ok C s3 q2 (r(c := Some t)) ?A" by (simp add: rest_ok_def)
    moreover have "th_in_runq (th s3 t) \<and> th_runq (th s3 t) = Some c" using rest_members [OF rest c] by auto
    moreover have "moved s s3" using mv cu(2) moved_view(3) [OF mv, of c] by (auto simp: moved_def s3_def) (simp add: runq_set_current_def)
    ultimately show ?thesis using True cur' s1(1) s2(1) st
      by (intro exI [of _ s3] exI [of _ q2] exI [of _ "r(c := Some t)"] exI [of _ ?A]) (simp add: sched_requeue_def s3_def)
  qed
qed

end
