(* ===== verification/Sched_Change.thy ===== *)
theory Sched_Change
  imports Sched_Requeue
begin

text \<open>
  Setting the scheduling parameters of a thread: its own ones, and those it inherits. Both operations
  keep the invariant, and a thread runs with the better of the two.
\<close>

unbundle bit_operations_syntax

section \<open>The parameters of a thread\<close>

definition data_ok :: "thread_sched_data \<Rightarrow> bool" where
  "data_ok d \<longleftrightarrow> thread_policy_to_class (sd_policy d) = Some (sd_class d) \<and> class_priority (sd_class d) (sd_priority d)
     \<and> class_global_priority (sd_class d) (sd_priority d) = Some (sd_global_priority d)"

text \<open>A boosted thread runs with a global priority above its own; another one with its own parameters.\<close>

definition params_ok :: "thread \<Rightarrow> bool" where
  "params_ok v \<longleftrightarrow> data_ok (th_user v) \<and> data_ok (th_real v)
     \<and> (if th_boosted v then thread_user_global_priority v < thread_real_global_priority v else th_real v = th_user v)"

lemma data_eqI: "sd_policy d = sd_policy d' \<Longrightarrow> sd_priority d = sd_priority d' \<Longrightarrow> data_ok d \<Longrightarrow> data_ok d' \<Longrightarrow> d = d'"
  by (cases d; cases d') (auto simp: data_ok_def)

text \<open>The parts of the operations.\<close>

definition set_user_data :: "nat \<Rightarrow> nat \<Rightarrow> nat \<Rightarrow> sched \<Rightarrow> (bool \<times> sched) option" where
  "set_user_data t policy priority s =
     (if thread_user_sched_policy (th s t) = policy then do {
        s \<leftarrow> thread_update_user_priority t priority s;
        Some (True, s) }
      else do {
        let s = thread_set_user_sched_policy t policy s;
        k \<leftarrow> thread_policy_to_class policy;
        s \<leftarrow> thread_set_user_priority t priority (thread_set_user_sched_class t k s);
        Some (False, s) })"

lemma set_user_data_out:
  assumes "data_ok (th_user (th s t))" "data_ok d" "sd_policy d = policy" "sd_priority d = priority"
  shows "set_user_data t policy priority s = Some (thread_user_sched_policy (th s t) = policy, set_thread t ((th s t)\<lparr>th_user := d\<rparr>) s)"
proof (cases "sd_policy (th_user (th s t)) = policy")
  case True
  have "(th_user (th s t))\<lparr>sd_priority := priority, sd_global_priority := sd_global_priority d\<rparr> = d"
    using assms True by (cases d) (auto simp: data_ok_def)
  moreover have "class_global_priority (sd_class (th_user (th s t))) priority = Some (sd_global_priority d)" using assms True by (auto simp: data_ok_def)
  ultimately show ?thesis using True
    by (simp add: set_user_data_def thread_user_sched_policy_def thread_update_user_priority_def thread_set_user_priority_def thread_user_sched_class_def)
next
  case False
  have e: "(th_user (th s t))\<lparr>sd_policy := policy, sd_class := sd_class d, sd_priority := priority, sd_global_priority := sd_global_priority d\<rparr> = d"
    using assms(3,4) by (cases d) auto
  show ?thesis using False assms
    by (simp add: set_user_data_def thread_user_sched_policy_def thread_set_user_sched_policy_def thread_set_user_sched_class_def thread_set_user_priority_def
      thread_user_sched_class_def data_ok_def e)
qed

text \<open>What happens to the class data is all that is left open.\<close>

definition real_set :: "nat \<Rightarrow> thread_sched_data \<Rightarrow> bool \<Rightarrow> sched \<Rightarrow> sched \<Rightarrow> bool" where
  "real_set t d boosted s s' \<longleftrightarrow> (\<exists>ts fs. s' = set_thread t ((th s t)\<lparr>th_real := d, th_boosted := boosted, th_rt_time_slice := ts, th_fs := fs\<rparr>) s
     \<and> (sd_class d = THREAD_SCHED_CLASS_FS \<longrightarrow> fd_weight fs = thread_sched_fs_prio2weight (sd_priority d) \<and> fd_fs_runq fs = None \<and> fd_work fs \<le> fd_weight fs))"

lemma real_set_new:
  assumes "real_set t d b (set_thread t ((th s t)\<lparr>th_user := u\<rparr>) s) s'" "data_ok d"
  shows "new_params s t s'" "th_user (th s' t) = u" "th_real (th s' t) = d" "th_boosted (th s' t) = b"
proof -
  obtain ts fs where s': "s' = set_thread t ((th s t)\<lparr>th_user := u, th_real := d, th_boosted := b, th_rt_time_slice := ts, th_fs := fs\<rparr>) s"
    "sd_class d = THREAD_SCHED_CLASS_FS \<longrightarrow> fd_weight fs = thread_sched_fs_prio2weight (sd_priority d) \<and> fd_fs_runq fs = None \<and> fd_work fs \<le> fd_weight fs"
    using assms(1) by (auto simp: real_set_def)
  then show "th_user (th s' t) = u" "th_real (th s' t) = d" "th_boosted (th s' t) = b" by simp_all
  have "sd_class d = THREAD_SCHED_CLASS_FS \<longrightarrow> sd_priority d \<le> THREAD_SCHED_FS_PRIO_MAX"
    using assms(2) by (auto simp: data_ok_def class_priority_def classes)
  then show "new_params s t s'" using s' unfolding new_params_def by (intro exI [of _ "(th s t)\<lparr>th_user := u, th_real := d, th_boosted := b, th_rt_time_slice := ts, th_fs := fs\<rparr>"]) auto
qed

lemma fs_data_eta: "fd = \<lparr>fd_fs_runq = fd_fs_runq fd, fd_round = fd_round fd, fd_weight = fd_weight fd, fd_work = fd_work fd\<rparr>" by simp

lemma thread_eta:
  "(v\<lparr>th_real := d\<rparr>) = v\<lparr>th_real := d, th_boosted := th_boosted v, th_rt_time_slice := th_rt_time_slice v, th_fs := th_fs v\<rparr>" by simp

lemma reset_real_set:
  assumes "data_ok (th_user (th s t))"
  shows "\<exists>s'. thread_reset_real_priority t s = Some s' \<and> real_set t (th_user (th s t)) False s s'"
proof -
  have "class_priority (sd_class (th_user (th s t))) (sd_priority (th_user (th s t)))" using assms by (simp add: data_ok_def)
  from reset_real_out [OF this] show ?thesis
    unfolding real_set_def
    by (intro exI conjI) (assumption, rule refl, simp)
qed

lemma set_real_set:
  assumes "data_ok d" "sd_policy d = policy" "sd_priority d = priority"
  shows "\<exists>s'. set_real_parameters t policy priority s = Some s' \<and> real_set t d (th_boosted (th s t)) s s'"
proof -
  define ts where "ts = (if sd_class d = THREAD_SCHED_CLASS_RT then THREAD_DEFAULT_RR_TIME_SLICE else th_rt_time_slice (th s t))"
  define fs where "fs = (if sd_class d = THREAD_SCHED_CLASS_FS then \<lparr>fd_fs_runq = None, fd_round = 0, fd_weight = thread_sched_fs_prio2weight priority, fd_work = 0\<rparr> else th_fs (th s t))"
  have d: "\<lparr>sd_policy = policy, sd_class = sd_class d, sd_priority = priority, sd_global_priority = sd_global_priority d\<rparr> = d"
    using assms by (cases d) auto
  have upd: "(th_real (th s t))\<lparr>sd_policy := policy, sd_class := sd_class d, sd_priority := priority, sd_global_priority := sd_global_priority d\<rparr>
    = \<lparr>sd_policy = policy, sd_class = sd_class d, sd_priority = priority, sd_global_priority = sd_global_priority d\<rparr>" by simp
  have k: "thread_policy_to_class policy = Some (sd_class d)" "class_global_priority (sd_class d) priority = Some (sd_global_priority d)" "class_priority (sd_class d) priority"
    using assms by (auto simp: data_ok_def)
  have "set_real_parameters t policy priority s = Some (set_thread t ((th s t)\<lparr>th_real := d, th_rt_time_slice := ts, th_fs := fs\<rparr>) s)"
    by (simp add: set_real_parameters_def thread_set_real_sched_policy_def thread_set_real_sched_class_def thread_set_real_priority_def thread_real_sched_class_def
      k class_reset_out upd d ts_def fs_def)
  moreover have "real_set t d (th_boosted (th s t)) s (set_thread t ((th s t)\<lparr>th_real := d, th_rt_time_slice := ts, th_fs := fs\<rparr>) s)"
    unfolding real_set_def by (rule exI [of _ ts], rule exI [of _ fs]) (simp add: fs_def assms(3))
  ultimately show ?thesis by blast
qed

lemma update_real_set:
  assumes "data_ok (th_real (th s t))" "data_ok d" "sd_policy d = sd_policy (th_real (th s t))" "sd_priority d = priority"
    and fs: "sd_class d = THREAD_SCHED_CLASS_FS \<longrightarrow> fd_fs_runq (th_fs (th s t)) = None"
  shows "\<exists>s'. thread_update_real_priority t priority s = Some s' \<and> real_set t d (th_boosted (th s t)) s s'"
proof -
  have k: "sd_class (th_real (th s t)) = sd_class d" "class_global_priority (sd_class d) priority = Some (sd_global_priority d)" "class_priority (sd_class d) priority"
    using assms by (auto simp: data_ok_def)
  have d: "(th_real (th s t))\<lparr>sd_priority := priority, sd_global_priority := sd_global_priority d\<rparr> = d"
    using assms k(1) by (cases d) auto
  obtain w where w: "class_update_priority (sd_class d) t priority (set_thread t ((th s t)\<lparr>th_real := d\<rparr>) s)
      = Some (set_thread t ((th s t)\<lparr>th_real := d, th_fs := if sd_class d = THREAD_SCHED_CLASS_FS
      then (th_fs (th s t))\<lparr>fd_weight := thread_sched_fs_prio2weight priority, fd_work := w\<rparr> else th_fs (th s t)\<rparr>) s)" "w \<le> thread_sched_fs_prio2weight priority"
    using class_update_out [OF k(3), of t "set_thread t ((th s t)\<lparr>th_real := d\<rparr>) s"] by (auto cong: if_cong)
  define s' where "s' = set_thread t ((th s t)\<lparr>th_real := d, th_fs := if sd_class d = THREAD_SCHED_CLASS_FS
      then (th_fs (th s t))\<lparr>fd_weight := thread_sched_fs_prio2weight priority, fd_work := w\<rparr> else th_fs (th s t)\<rparr>) s"
  have "thread_update_real_priority t priority s = Some s'"
    using w(1) by (simp add: thread_update_real_priority_def Let_def thread_real_sched_class_def k(1,2) d s'_def)
  moreover have "real_set t d (th_boosted (th s t)) s s'"
    unfolding real_set_def s'_def
    by (rule exI [of _ "th_rt_time_slice (th s t)"], rule exI [of _ "if sd_class d = THREAD_SCHED_CLASS_FS
      then (th_fs (th s t))\<lparr>fd_weight := thread_sched_fs_prio2weight priority, fd_work := w\<rparr> else th_fs (th s t)"]) (simp add: w(2) fs assms(4))
  ultimately show ?thesis by blast
qed


section \<open>Setting the parameters\<close>

text \<open>A thread whose parameters may be set: a runnable one can be put back in its run queue.\<close>

definition settable :: "nat set \<Rightarrow> sched \<Rightarrow> nat \<Rightarrow> bool" where
  "settable C s t \<longleftrightarrow> (\<exists>c\<in>C. th_runq (th s t) = Some c) \<and> (\<forall>c\<in>C. rq_balancer (rq s c) \<noteq> Some t \<and> rq_idler (rq s c) \<noteq> Some t)
     \<and> params_ok (th s t) \<and> t < MAX_THREADS"

lemma params_same: "same_params s s' \<Longrightarrow> th_user (th s' t) = th_user (th s t)" "same_params s s' \<Longrightarrow> th_real (th s' t) = th_real (th s t)"
  "same_params s s' \<Longrightarrow> th_boosted (th s' t) = th_boosted (th s t)"
  by (simp_all add: same_params_def par_def)

lemma requeue_params: "sched_requeue c t b b' s = Some s' \<Longrightarrow> same_params s s'"
  by (auto simp: sched_requeue_def thread_runq_set_next_def thread_sched_rt_set_next_def thread_sched_fs_set_next_def bind_eq_Some_conv Let_def
    dest!: params intro: params_trans split: if_splits)

text \<open>The frame shared by the two operations: the thread leaves its run queue, its parameters are changed, it comes back.\<close>

lemma change_ok:
  assumes ok: "rest_ok C s q r A" and c: "c \<in> C" "th_runq (th s t) = Some c" and t: "settable C s t"
    and set: "\<And>s1. th_user (th s1 t) = th_user (th s t) \<Longrightarrow> th_real (th s1 t) = th_real (th s t) \<Longrightarrow> th_boosted (th s1 t) = th_boosted (th s t)
        \<Longrightarrow> (cls s1 t = THREAD_SCHED_CLASS_FS \<longrightarrow> fs_entity s1 t \<and> fd_fs_runq (fsd s1 t) = None \<and> fd_work (fsd s1 t) \<le> fd_weight (fsd s1 t))
        \<Longrightarrow> (sd_class (th_real (th s t)) = THREAD_SCHED_CLASS_IDLE \<longrightarrow> \<not> th_in_runq (th s t))
        \<Longrightarrow> \<exists>s2 d b. change s1 = Some s2 \<and> new_params s1 t s2 \<and> th_user (th s2 t) = u \<and> th_real (th s2 t) = d \<and> th_boosted (th s2 t) = b
          \<and> data_ok d \<and> (sd_class d = THREAD_SCHED_CLASS_IDLE \<longrightarrow> \<not> th_in_runq (th s t)) \<and> P d b"
  shows "\<exists>s'. (do { (requeue, current, s) \<leftarrow> sched_dequeue c t s; s \<leftarrow> change s; sched_requeue c t requeue current s }) = Some s'
    \<and> sched_inv C s' \<and> th_user (th s' t) = u \<and> data_ok (th_real (th s' t)) \<and> P (th_real (th s' t)) (th_boosted (th s' t))
    \<and> th_in_runq (th s' t) = th_in_runq (th s t) \<and> (th_in_runq (th s t) \<longrightarrow> th_runq (th s' t) = Some c)"
proof -
  have bi: "\<forall>c\<in>C. rq_balancer (rq s c) \<noteq> Some t \<and> rq_idler (rq s c) \<noteq> Some t" and tM: "t < MAX_THREADS" using t by (simp_all add: settable_def)
  define current where "current = (th_in_runq (th s t) \<and> t = rq_current (rq s c))"
  obtain s1 q1 r1 A1 where s1: "sched_dequeue c t s = Some (th_in_runq (th s t), current, s1)" "out_ok C c t current s1 q1 r1 A1" "moved s s1" "th_state (th s1 t) = th_state (th s t)"
    using sched_dequeue_ok [OF ok c bi] unfolding current_def [symmetric] by (elim exE conjE)
  have par1: "same_params s s1" by (rule dequeue_params [OF s1(1)])
  have none: "cls s1 t = THREAD_SCHED_CLASS_FS \<longrightarrow> fs_entity s1 t \<and> fd_fs_runq (fsd s1 t) = None \<and> fd_work (fsd s1 t) \<le> fd_weight (fsd s1 t)"
    using s1(2) runqs_okD(7,8) [of C s1 q1 r1 A1 t] by (auto simp: out_ok_def works_ok_def)
  have ni: "sd_class (th_real (th s t)) = THREAD_SCHED_CLASS_IDLE \<longrightarrow> \<not> th_in_runq (th s t)"
  proof (intro impI notI)
    assume i: "sd_class (th_real (th s t)) = THREAD_SCHED_CLASS_IDLE" "th_in_runq (th s t)"
    then have "t \<in> A c" using rest_members [OF ok c(1)] c(2) by simp
    then have "cls s t = THREAD_SCHED_CLASS_RT \<or> cls s t = THREAD_SCHED_CLASS_FS" using ok runqs_okD(2) [of C s q r A c] c(1) by (auto simp: rest_ok_def runq_ok_def)
    then show False using i(1) by (simp add: thread_real_sched_class_def classes)
  qed
  obtain s2 d b where s2: "change s1 = Some s2" "new_params s1 t s2" "th_user (th s2 t) = u" "th_real (th s2 t) = d" "th_boosted (th s2 t) = b" "data_ok d"
    "sd_class d = THREAD_SCHED_CLASS_IDLE \<longrightarrow> \<not> th_in_runq (th s t)" "P d b"
    using set [OF params_same [OF par1] none ni] by blast
  have bi1: "\<forall>c\<in>C. rq_balancer (rq s1 c) \<noteq> Some t \<and> rq_idler (rq s1 c) \<noteq> Some t" using bi moved_view(4,5) [OF s1(3)] by simp
  have o2: "out_ok C c t current s2 q1 r1 A1" by (rule new_params_ok [OF s1(2) s2(2) bi1])
  obtain v where v: "s2 = set_thread t v s1" "th_state v = th_state (th s1 t)" using s2(2) by (auto simp: new_params_def)
  have bi2: "\<forall>c\<in>C. rq_balancer (rq s2 c) \<noteq> Some t" using bi1 v(1) by simp
  have run: "th_in_runq (th s t) \<longrightarrow> th_state (th s2 t) = THREAD_RUNNING \<and> t < MAX_THREADS \<and> runq_class s2 t"
  proof
    assume that: "th_in_runq (th s t)"
    have "th_state (th s t) = THREAD_RUNNING" using ok that by (auto simp: rest_ok_def sys_ok_def member_ok_def)
    moreover have "runq_class s2 t"
      using s2(4,6,7) that by (auto simp: runq_class_def thread_real_sched_class_def thread_real_priority_def data_ok_def class_priority_def)
    ultimately show "th_state (th s2 t) = THREAD_RUNNING \<and> t < MAX_THREADS \<and> runq_class s2 t" using v s1(4) tM by simp
  qed
  obtain s3 q3 r3 A3 where s3: "sched_requeue c t (th_in_runq (th s t)) current s2 = Some s3" "rest_ok C s3 q3 r3 A3" "th_in_runq (th s3 t) = th_in_runq (th s t)"
    "th_in_runq (th s t) \<longrightarrow> th_runq (th s3 t) = Some c"
  proof -
    have "current \<longrightarrow> th_in_runq (th s t)" by (auto simp: current_def)
    from requeue_ok [OF o2 c(1) bi2 run this] show thesis by (elim exE conjE) (rule that)
  qed
  have "same_params s2 s3" by (rule requeue_params [OF s3(1)])
  from params_same [OF this, of t] show ?thesis using s1(1) s2 s3 by (auto simp: sched_inv_def)
qed

lemma setscheduler_ok:
  assumes inv: "sched_inv C s" and t: "settable C s t" and d: "data_ok d" "sd_policy d = policy" "sd_priority d = priority"
    and idle: "sd_class d = THREAD_SCHED_CLASS_IDLE \<longrightarrow> \<not> th_in_runq (th s t)"
  shows "\<exists>s'. thread_setscheduler t policy priority s = Some s' \<and> sched_inv C s' \<and> params_ok (th s' t) \<and> th_user (th s' t) = d
    \<and> (let keep = th_boosted (th s t) \<and> sd_global_priority d < sd_global_priority (th_real (th s t)) in
         th_real (th s' t) = (if keep then th_real (th s t) else d) \<and> th_boosted (th s' t) = keep)
    \<and> th_in_runq (th s' t) = th_in_runq (th s t) \<and> (th_in_runq (th s t) \<longrightarrow> th_runq (th s' t) = th_runq (th s t))"
proof -
  define keep where "keep = (th_boosted (th s t) \<and> sd_global_priority d < sd_global_priority (th_real (th s t)))"
  obtain q r A where ok: "rest_ok C s q r A" using inv by (auto simp: sched_inv_def)
  obtain c where c: "c \<in> C" "th_runq (th s t) = Some c" using t by (auto simp: settable_def)
  have p: "params_ok (th s t)" using t by (simp add: settable_def)
  show ?thesis
  proof (cases "thread_user_sched_policy (th s t) = policy \<and> thread_user_priority (th s t) = priority")
    case True
    have "th_user (th s t) = d" by (rule data_eqI) (use True d p in \<open>auto simp: thread_user_sched_policy_def thread_user_priority_def params_ok_def\<close>)
    then show ?thesis using True c(2) p inv
      by (auto simp: thread_setscheduler_def params_ok_def thread_user_global_priority_def thread_real_global_priority_def Let_def split: if_splits)
  next
    case False
    define set_real where "set_real = (\<lambda>update s. if th_boosted (th s t) then
           (if thread_user_global_priority (th s t) \<ge> thread_real_global_priority (th s t)
            then thread_reset_real_priority t s else Some s)
         else if update then thread_update_real_priority t priority s
         else set_real_parameters t policy priority s)"
    define change where "change = (\<lambda>s. do { (update, s) \<leftarrow> set_user_data t policy priority s; set_real update s })"
    define P where "P = (\<lambda>dr b. dr = (if keep then th_real (th s t) else d) \<and> b = keep)"
    have set: "\<exists>s2 dr b. change s1 = Some s2 \<and> new_params s1 t s2 \<and> th_user (th s2 t) = d \<and> th_real (th s2 t) = dr \<and> th_boosted (th s2 t) = b
          \<and> data_ok dr \<and> (sd_class dr = THREAD_SCHED_CLASS_IDLE \<longrightarrow> \<not> th_in_runq (th s t)) \<and> P dr b"
      if same: "th_user (th s1 t) = th_user (th s t)" "th_real (th s1 t) = th_real (th s t)" "th_boosted (th s1 t) = th_boosted (th s t)"
        and fs: "cls s1 t = THREAD_SCHED_CLASS_FS \<longrightarrow> fs_entity s1 t \<and> fd_fs_runq (fsd s1 t) = None \<and> fd_work (fsd s1 t) \<le> fd_weight (fsd s1 t)"
        and ni: "sd_class (th_real (th s t)) = THREAD_SCHED_CLASS_IDLE \<longrightarrow> \<not> th_in_runq (th s t)" for s1
    proof -
      define s2 where "s2 = set_thread t ((th s1 t)\<lparr>th_user := d\<rparr>) s1"
      define update where "update = (thread_user_sched_policy (th s1 t) = policy)"
      have u: "set_user_data t policy priority s1 = Some (update, s2)"
        using set_user_data_out [of s1 t d policy priority] p d same by (simp add: params_ok_def s2_def update_def)
      have f2: "th_user (th s2 t) = d" "th_real (th s2 t) = th_real (th s t)" "th_boosted (th s2 t) = th_boosted (th s t)" "fsd s2 t = fsd s1 t"
        using same by (simp_all add: s2_def)
      have fin: ?thesis if "set_real update s2 = Some s3" "real_set t dr b s2 s3" "data_ok dr" "sd_class dr = THREAD_SCHED_CLASS_IDLE \<longrightarrow> \<not> th_in_runq (th s t)" "P dr b" for s3 dr b
      proof -
        have "change s1 = Some s3" using u that(1) by (simp add: change_def)
        then show ?thesis using real_set_new [OF that(2) [unfolded s2_def] that(3)] that(3-5) by blast
      qed
      show ?thesis
      proof (cases "th_boosted (th s t)")
        case b: True
        show ?thesis
        proof (cases "thread_user_global_priority (th s2 t) \<ge> thread_real_global_priority (th s2 t)")
          case True
          obtain s3 where s3: "thread_reset_real_priority t s2 = Some s3" "real_set t d False s2 s3" using reset_real_set [of s2 t] f2(1) d(1) by auto
          show ?thesis by (rule fin [OF _ s3(2) d(1) idle])
            (use True b f2 s3(1) in \<open>simp_all add: set_real_def P_def keep_def thread_user_global_priority_def thread_real_global_priority_def\<close>)
        next
          case False
          have "real_set t (th_real (th s t)) True s2 s2"
          proof -
            have "(th s2 t)\<lparr>th_real := th_real (th s t), th_boosted := True, th_rt_time_slice := th_rt_time_slice (th s2 t), th_fs := fsd s2 t\<rparr> = th s2 t"
              using f2 b by simp
            then have "s2 = set_thread t ((th s2 t)\<lparr>th_real := th_real (th s t), th_boosted := True, th_rt_time_slice := th_rt_time_slice (th s2 t), th_fs := fsd s2 t\<rparr>) s2"
              by (simp add: set_thread_def)
            then show ?thesis unfolding real_set_def using fs same(2) f2(4)
              by (intro exI conjI) (assumption, auto simp: fs_entity_def thread_real_sched_class_def thread_real_priority_def)
          qed
          moreover have "P (th_real (th s t)) True" using False f2 b by (simp add: P_def keep_def thread_user_global_priority_def thread_real_global_priority_def)
          ultimately show ?thesis using fin [of s2 "th_real (th s t)" True] False b f2 p ni by (simp add: set_real_def params_ok_def)
        qed
      next
        case False
        then have real: "th_real (th s t) = th_user (th s t)" "data_ok (th_real (th s t))" using p by (simp_all add: params_ok_def)
        have Pd: "P d False" using False by (simp add: P_def keep_def)
        have b: "th_boosted (th s2 t) = False" using False f2(3) by simp
        show ?thesis
        proof (cases update)
          case True
          have "sd_policy d = sd_policy (th_real (th s2 t))" using True d(2) same(1) f2(2) real(1) by (simp add: update_def thread_user_sched_policy_def)
          moreover have "sd_class d = THREAD_SCHED_CLASS_FS \<longrightarrow> fd_fs_runq (fsd s2 t) = None"
            using fs f2(2,4) calculation d(1) real(2) same(2) by (auto simp: data_ok_def thread_real_sched_class_def)
          ultimately obtain s3 where s3: "thread_update_real_priority t priority s2 = Some s3" "real_set t d False s2 s3"
            using update_real_set [of s2 t d priority] f2(2) real(2) d b by auto
          show ?thesis by (rule fin [OF _ s3(2) d(1) idle Pd]) (use True b s3(1) in \<open>simp add: set_real_def\<close>)
        next
          case upd: False
          obtain s3 where s3: "set_real_parameters t policy priority s2 = Some s3" "real_set t d False s2 s3"
            using set_real_set [OF d, of t s2] b by auto
          show ?thesis by (rule fin [OF _ s3(2) d(1) idle Pd]) (use upd b s3(1) in \<open>simp add: set_real_def\<close>)
        qed
      qed
    qed
    have eq: "thread_setscheduler t policy priority s = do { (requeue, current, s) \<leftarrow> sched_dequeue c t s; s \<leftarrow> change s; sched_requeue c t requeue current s }"
      using c(2) False by (simp add: thread_setscheduler_def change_def set_real_def set_user_data_def split_def bind_assoc) blast
    obtain s' where "(do { (requeue, current, s) \<leftarrow> sched_dequeue c t s; s \<leftarrow> change s; sched_requeue c t requeue current s }) = Some s'"
      "sched_inv C s'" "th_user (th s' t) = d" "data_ok (th_real (th s' t))" "P (th_real (th s' t)) (th_boosted (th s' t))" "th_in_runq (th s' t) = th_in_runq (th s t)"
      "th_in_runq (th s t) \<longrightarrow> th_runq (th s' t) = Some c"
      using change_ok [OF ok c t set] by blast
    moreover have "params_ok (th s' t)" using calculation d(1)
      by (auto simp: P_def keep_def params_ok_def thread_user_global_priority_def thread_real_global_priority_def)
    ultimately show ?thesis using eq c(2) by (simp add: P_def keep_def Let_def)
  qed
qed

section \<open>Inherited parameters\<close>

lemma set_thread_same [simp]: "set_thread t (th s t) s = s"
  by (simp add: set_thread_def)

lemma real_set_boost:
  assumes "real_set t d b s s'"
  shows "real_set t d True s (set_thread t ((th s' t)\<lparr>th_boosted := True\<rparr>) s')"
proof -
  obtain ts fs where s': "s' = set_thread t ((th s t)\<lparr>th_real := d, th_boosted := b, th_rt_time_slice := ts, th_fs := fs\<rparr>) s"
     "sd_class d = THREAD_SCHED_CLASS_FS \<longrightarrow> fd_weight fs = thread_sched_fs_prio2weight (sd_priority d) \<and> fd_fs_runq fs = None \<and> fd_work fs \<le> fd_weight fs"
    using assms unfolding real_set_def by blast
  have "set_thread t ((th s' t)\<lparr>th_boosted := True\<rparr>) s' = set_thread t ((th s t)\<lparr>th_real := d, th_boosted := True, th_rt_time_slice := ts, th_fs := fs\<rparr>) s"
    by (simp add: s'(1)) (cases "th s t", simp)
  then show ?thesis using s'(2) unfolding real_set_def by blast
qed

lemma pi_setscheduler_ok:
  assumes inv: "sched_inv C s" and t: "settable C s t" and d: "data_ok d" "sd_policy d = policy" "sd_priority d = priority"
    and idle: "sd_class (th_user (th s t)) = THREAD_SCHED_CLASS_IDLE \<or> sd_class d = THREAD_SCHED_CLASS_IDLE \<longrightarrow> \<not> th_in_runq (th s t)"
  shows "\<exists>s'. thread_pi_setscheduler t policy priority s = Some s' \<and> sched_inv C s' \<and> params_ok (th s' t) \<and> th_user (th s' t) = th_user (th s t)
    \<and> th_real (th s' t) = (if sd_global_priority d \<le> sd_global_priority (th_user (th s t)) then th_user (th s t) else d)
    \<and> th_in_runq (th s' t) = th_in_runq (th s t)"
proof -
  obtain q r A where ok: "rest_ok C s q r A" using inv by (auto simp: sched_inv_def)
  obtain c where c: "c \<in> C" "th_runq (th s t) = Some c" using t by (auto simp: settable_def)
  have p: "params_ok (th s t)" using t by (simp add: settable_def)
  let ?u = "th_user (th s t)" and ?g = "sd_global_priority d"
  have k: "thread_policy_to_class policy = Some (sd_class d)" "class_global_priority (sd_class d) priority = Some ?g" using d by (auto simp: data_ok_def)
  show ?thesis
  proof (cases "thread_real_sched_policy (th s t) = policy \<and> thread_real_priority (th s t) = priority")
    case True
    have r: "th_real (th s t) = d" by (rule data_eqI) (use True d p in \<open>auto simp: thread_real_sched_policy_def thread_real_priority_def params_ok_def\<close>)
    have "th_real (th s t) = (if ?g \<le> sd_global_priority ?u then ?u else d)"
      using r p by (auto simp: params_ok_def thread_user_global_priority_def thread_real_global_priority_def split: if_splits)
    then show ?thesis using True c(2) p inv k by (simp add: thread_pi_setscheduler_def)
  next
    case False
    define change where "change = (\<lambda>s. if ?g \<le> thread_user_global_priority (th s t) then thread_reset_real_priority t s
         else do {
           s \<leftarrow> (if thread_real_sched_policy (th s t) = policy then thread_update_real_priority t priority s
             else set_real_parameters t policy priority s);
           Some (set_thread t ((th s t)\<lparr>th_boosted := True\<rparr>) s) })"
    define P where "P = (\<lambda>dr b. dr = (if ?g \<le> sd_global_priority ?u then ?u else d) \<and> b = (sd_global_priority ?u < ?g))"
    have set: "\<exists>s2 dr b. change s1 = Some s2 \<and> new_params s1 t s2 \<and> th_user (th s2 t) = ?u \<and> th_real (th s2 t) = dr \<and> th_boosted (th s2 t) = b
          \<and> data_ok dr \<and> (sd_class dr = THREAD_SCHED_CLASS_IDLE \<longrightarrow> \<not> th_in_runq (th s t)) \<and> P dr b"
      if same: "th_user (th s1 t) = ?u" "th_real (th s1 t) = th_real (th s t)" "th_boosted (th s1 t) = th_boosted (th s t)"
        and fs: "cls s1 t = THREAD_SCHED_CLASS_FS \<longrightarrow> fs_entity s1 t \<and> fd_fs_runq (fsd s1 t) = None \<and> fd_work (fsd s1 t) \<le> fd_weight (fsd s1 t)"
        and ni: "sd_class (th_real (th s t)) = THREAD_SCHED_CLASS_IDLE \<longrightarrow> \<not> th_in_runq (th s t)" for s1
    proof -
      have self: "s1 = set_thread t ((th s1 t)\<lparr>th_user := ?u\<rparr>) s1"
      proof -
        have "(th s1 t)\<lparr>th_user := ?u\<rparr> = th s1 t" using same(1) by simp
        then show ?thesis by simp
      qed
      have fin: ?thesis if "change s1 = Some s3" "real_set t dr b s1 s3" "data_ok dr" "sd_class dr = THREAD_SCHED_CLASS_IDLE \<longrightarrow> \<not> th_in_runq (th s t)" "P dr b" for s3 dr b
      proof -
        have "real_set t dr b (set_thread t ((th s1 t)\<lparr>th_user := ?u\<rparr>) s1) s3"
          by (rule subst [where P = "\<lambda>x. real_set t dr b x s3", OF self that(2)])
        from real_set_new [OF this that(3)] that show ?thesis by blast
      qed
      show ?thesis
      proof (cases "?g \<le> sd_global_priority ?u")
        case True
        obtain s3 where s3: "thread_reset_real_priority t s1 = Some s3" "real_set t ?u False s1 s3" using reset_real_set [of s1 t] same(1) p by (auto simp: params_ok_def)
        show ?thesis by (rule fin [OF _ s3(2)]) (use True same s3(1) p idle in \<open>simp_all add: change_def P_def thread_user_global_priority_def params_ok_def\<close>)
      next
        case g: False
        obtain s2 b where s2: "(if thread_real_sched_policy (th s1 t) = policy then thread_update_real_priority t priority s1 else set_real_parameters t policy priority s1) = Some s2"
          "real_set t d b s1 s2"
        proof (cases "thread_real_sched_policy (th s1 t) = policy")
          case True
          have rd: "data_ok (th_real (th s1 t))" using p same(2) by (simp add: params_ok_def)
          have pol: "sd_policy d = sd_policy (th_real (th s1 t))" using True d(2) by (simp add: thread_real_sched_policy_def)
          have none: "sd_class d = THREAD_SCHED_CLASS_FS \<longrightarrow> fd_fs_runq (fsd s1 t) = None"
            using fs pol rd d(1) by (auto simp: data_ok_def thread_real_sched_class_def)
          from update_real_set [OF rd d(1) pol d(3) none] show thesis using that True by (elim exE conjE) simp_all
        next
          case False
          then show thesis using set_real_set [OF d, of t s1] that by (elim exE conjE) simp_all
        qed
        show ?thesis
        proof (rule fin [OF _ real_set_boost [OF s2(2)] d(1)])
          show "change s1 = Some (set_thread t ((th s2 t)\<lparr>th_boosted := True\<rparr>) s2)" using g s2(1) same(1) by (simp add: change_def thread_user_global_priority_def)
        qed (use g idle in \<open>simp_all add: P_def\<close>)
      qed
    qed
    have eq: "thread_pi_setscheduler t policy priority s = do { (requeue, current, s) \<leftarrow> sched_dequeue c t s; s \<leftarrow> change s; sched_requeue c t requeue current s }"
      using c(2) False k by (simp add: thread_pi_setscheduler_def change_def split_def) blast
    obtain s' where "(do { (requeue, current, s) \<leftarrow> sched_dequeue c t s; s \<leftarrow> change s; sched_requeue c t requeue current s }) = Some s'"
      "sched_inv C s'" "th_user (th s' t) = ?u" "data_ok (th_real (th s' t))" "P (th_real (th s' t)) (th_boosted (th s' t))" "th_in_runq (th s' t) = th_in_runq (th s t)"
      using change_ok [OF ok c t set] by blast
    then show ?thesis using eq p by (auto simp: P_def params_ok_def thread_user_global_priority_def thread_real_global_priority_def)
  qed
qed

end
