(* ===== verification/Sched_Members.thy ===== *)
theory Sched_Members
  imports Sched_Param
begin

text \<open>
  Which threads are in a run queue after an operation, whatever the state: only the thread that leaves
  is lost, and only a balancer enters by itself.
\<close>

unbundle bit_operations_syntax

named_theorems entries \<open>operations that leave the membership of the threads alone\<close>

section \<open>Operations of the classes\<close>

definition entry :: "thread \<Rightarrow> bool \<times> nat option \<times> thread_state" where "entry v = (th_in_runq v, th_runq v, th_state v)"

definition same_entries :: "sched \<Rightarrow> sched \<Rightarrow> bool" where
  "same_entries s s' \<longleftrightarrow> (\<forall>t. entry (th s' t) = entry (th s t))"

lemma entry_update [simp]:
  "entry (v\<lparr>th_flags := f\<rparr>) = entry v" "entry (v\<lparr>th_fs := d\<rparr>) = entry v" "entry (v\<lparr>th_wchan_addr := w\<rparr>) = entry v"
  "entry (v\<lparr>th_wakeup_error := e\<rparr>) = entry v" "entry (v\<lparr>th_rt_time_slice := ts\<rparr>) = entry v"
  by (simp_all add: entry_def)

lemma entries_select [simp]:
  "same_entries s (set_runq c w s') \<longleftrightarrow> same_entries s s'" "same_entries s (set_fs t d s') \<longleftrightarrow> same_entries s s'" "same_entries s (set_fs_queue c i q s') \<longleftrightarrow> same_entries s s'"
  "same_entries s (set_fs_group c i g w' s') \<longleftrightarrow> same_entries s s'" "same_entries s (s'\<lparr>sy_links := h\<rparr>) \<longleftrightarrow> same_entries s s'" "same_entries s (s'\<lparr>sy_idle_runqs := m\<rparr>) \<longleftrightarrow> same_entries s s'"
  "same_entries s (thread_set_flag t f s') \<longleftrightarrow> same_entries s s'" "same_entries s (thread_clear_flag t f s') \<longleftrightarrow> same_entries s s'" "same_entries s s"
  "same_entries (set_runq c w s) s' \<longleftrightarrow> same_entries s s'" "same_entries (set_fs t d s) s' \<longleftrightarrow> same_entries s s'" "same_entries (set_fs_queue c i q s) s' \<longleftrightarrow> same_entries s s'"
  "same_entries (set_fs_group c i g w' s) s' \<longleftrightarrow> same_entries s s'" "same_entries (s\<lparr>sy_links := h\<rparr>) s' \<longleftrightarrow> same_entries s s'" "same_entries (s\<lparr>sy_idle_runqs := m\<rparr>) s' \<longleftrightarrow> same_entries s s'"
  "same_entries (thread_set_flag t f s) s' \<longleftrightarrow> same_entries s s'" "same_entries (thread_clear_flag t f s) s' \<longleftrightarrow> same_entries s s'"
  by (auto simp: same_entries_def set_fs_queue_def set_fs_group_def thread_set_flag_def thread_clear_flag_def split: if_splits)

lemma entries_trans: "same_entries s s' \<Longrightarrow> same_entries s' s'' \<Longrightarrow> same_entries s s''" by (simp add: same_entries_def)

lemma on_links_entries [entries]: "on_links f s = Some s' \<Longrightarrow> same_entries s s'"
  by (auto simp: on_links_def bind_eq_Some_conv)

lemma rt_entries [entries]:
  "thread_sched_rt_remove c t s = Some s' \<Longrightarrow> same_entries s s'" "thread_sched_rt_add c t s = Some s' \<Longrightarrow> same_entries s s'"
  by (auto simp: thread_sched_rt_remove_def thread_sched_rt_add_def bind_eq_Some_conv Let_def dest!: entries split: if_splits)

lemma rt_get_next_entries [entries]: "thread_sched_rt_get_next c s = Some (n, s') \<Longrightarrow> same_entries s s'"
  by (auto simp: thread_sched_rt_get_next_def bind_eq_Some_conv Let_def dest!: entries split: if_splits)

lemma fs_place_entries [entries]:
  "fs_enqueue_place c i g w s = Some s' \<Longrightarrow> same_entries s s'" "fs_dequeue_place c i g s = Some s' \<Longrightarrow> same_entries s s'"
  by (auto simp: fs_enqueue_place_def fs_dequeue_place_def bind_eq_Some_conv Let_def dest!: entries intro: entries_trans split: if_splits)

lemma fs_enqueue_work_entries [entries]: "fs_enqueue_work c i g w rnd t s = Some s' \<Longrightarrow> same_entries s s'"
  by (auto simp: fs_enqueue_work_def bind_eq_Some_conv Let_def split: if_splits)

lemma fs_restart_entries [entries]: "thread_sched_fs_restart c s = Some s' \<Longrightarrow> same_entries s s'"
  by (auto simp: thread_sched_fs_restart_def bind_eq_Some_conv Let_def split: if_splits)

lemma fs_enqueue_entries [entries]: "thread_sched_fs_enqueue c i rnd t s = Some s' \<Longrightarrow> same_entries s s'"
  by (auto simp: thread_sched_fs_enqueue_def bind_eq_Some_conv Let_def dest!: entries) (simp_all add: same_entries_def)

lemma fs_dequeue_entries [entries]: "thread_sched_fs_dequeue t s = Some s' \<Longrightarrow> same_entries s s'"
  by (auto simp: thread_sched_fs_dequeue_def bind_eq_Some_conv Let_def dest!: entries) (simp_all add: same_entries_def)

lemma fs_add_entries [entries]: "thread_sched_fs_add c t s = Some s' \<Longrightarrow> same_entries s s'"
  by (auto simp: thread_sched_fs_add_def bind_eq_Some_conv Let_def dest!: entries intro: entries_trans split: if_splits)

lemma fs_get_next_entries [entries]: "thread_sched_fs_get_next c s = Some (n, s') \<Longrightarrow> same_entries s s'"
  by (auto simp: thread_sched_fs_get_next_def bind_eq_Some_conv Let_def dest!: entries split: if_splits)

section \<open>Operations on run queues\<close>

text \<open>The threads outside \<open>X\<close> stay where they are; those of \<open>Y\<close> may enter or change their state.\<close>

definition keeps :: "nat set \<Rightarrow> nat set \<Rightarrow> sched \<Rightarrow> sched \<Rightarrow> bool" where
  "keeps X Y s s' \<longleftrightarrow> (\<forall>u. (u \<notin> X \<longrightarrow> th_in_runq (th s u) \<longrightarrow> entry (th s' u) = entry (th s u)) \<and> (u \<notin> Y \<longrightarrow> th_in_runq (th s' u) \<longrightarrow> th_in_runq (th s u))
     \<and> (u \<notin> Y \<longrightarrow> th_state (th s' u) = th_state (th s u)) \<and> (u \<notin> X \<longrightarrow> th_state (th s u) = THREAD_RUNNING \<longrightarrow> th_state (th s' u) = THREAD_RUNNING))"

lemma same_keeps: "same_entries s s' \<Longrightarrow> keeps X Y s s'" by (auto simp: same_entries_def keeps_def entry_def)

lemma keeps_trans:
  assumes "keeps X Y s s'" "keeps X' Y' s' s''" shows "keeps (X \<union> X') (Y \<union> Y') s s''"
  using assms unfolding keeps_def entry_def by fastforce

lemma keeps_mono: "keeps X Y s s' \<Longrightarrow> X \<subseteq> X' \<Longrightarrow> Y \<subseteq> Y' \<Longrightarrow> keeps X' Y' s s'" unfolding keeps_def by blast

lemma runq_add_keeps:
  assumes "thread_runq_add c t s = Some s'" shows "keeps {} {t} s s'" "\<not> th_in_runq (th s t)" "th_in_runq (th s' t) \<and> th_runq (th s' t) = Some c"
proof -
  define after where "after = (\<lambda>s1. let s = (if rq_nr_threads (rq s1 c) = 0 then s1\<lparr>sy_idle_runqs := (sy_idle_runqs s1)(c := False)\<rparr> else s1);
      s = set_runq c ((rq s c)\<lparr>rq_nr_threads := rq_nr_threads (rq s c) + 1\<rparr>) s; cur = rq_current (rq s c)
      in if thread_real_sched_class (th s t) < thread_real_sched_class (th s cur) then thread_set_flag cur THREAD_YIELD s else s)"
  obtain s0 where s0: "same_entries s s0" "\<not> th_in_runq (th s t)" and s'0: "s' = set_thread t ((th (after s0) t)\<lparr>th_runq := Some c, th_in_runq := True\<rparr>) (after s0)"
    using assms by (auto simp: thread_runq_add_def after_def bind_eq_Some_conv Let_def thread_sched_idle_add_def dest!: entries split: if_splits)
  define s1 where "s1 = after s0"
  have s1: "same_entries s s1" "\<not> th_in_runq (th s t)" and s': "s' = set_thread t ((th s1 t)\<lparr>th_runq := Some c, th_in_runq := True\<rparr>) s1"
    using s0 s'0 by (simp_all add: s1_def) (simp add: after_def Let_def)
  have "th_in_runq (th s u) \<longrightarrow> u \<noteq> t" for u using s1(2) by auto
  then show "keeps {} {t} s s'" using s1(1) by (auto simp: keeps_def s' same_entries_def entry_def)
  show "\<not> th_in_runq (th s t)" "th_in_runq (th s' t) \<and> th_runq (th s' t) = Some c" using s1(2) by (simp_all add: s')
qed

lemma wakeup_balancer_keeps:
  assumes "thread_runq_wakeup_balancer c s = Some s'" shows "keeps {} {b. rq_balancer (rq s c) = Some b} s s'"
proof -
  obtain b where b: "rq_balancer (rq s c) = Some b" using assms by (auto simp: thread_runq_wakeup_balancer_def bind_eq_Some_conv)
  show ?thesis
  proof (cases "th_state (th s b) = THREAD_RUNNING")
    case True
    then show ?thesis using assms b by (simp add: thread_runq_wakeup_balancer_def same_keeps)
  next
    case False
    let ?s = "set_state b THREAD_RUNNING (thread_clear_wchan b s)"
    have "thread_runq_add c b ?s = Some s'" using assms b False by (simp add: thread_runq_wakeup_balancer_def thread_runq_wakeup_def bind_eq_Some_conv)
    from runq_add_keeps(1,2) [OF this] have k: "keeps {} {b} ?s s'" "\<not> th_in_runq (th s b)"
      by (simp_all add: set_state_def thread_clear_wchan_def)
    have "keeps {} {b} s ?s" using k(2) by (auto simp: keeps_def entry_def set_state_def thread_clear_wchan_def)
    from keeps_trans [OF this k(1)] show ?thesis using b by simp
  qed
qed

lemma both:
  "thread_sched_fs_dequeue t s = Some s' \<Longrightarrow> same_entries s s' \<and> same_params s s'"
  "thread_sched_fs_enqueue c i rnd t s = Some s' \<Longrightarrow> same_entries s s' \<and> same_params s s'"
  "on_links f s = Some s' \<Longrightarrow> same_entries s s' \<and> same_params s s'"
  by (simp_all add: fs_dequeue_entries fs_dequeue_params fs_enqueue_entries fs_enqueue_params on_links_entries on_links_params)

lemma then_wakeup:
  assumes "same_entries s s1" "same_params s s1" "s' = s1 \<or> thread_runq_wakeup_balancer c s1 = Some s' \<or> thread_sched_fs_restart c s1 = Some s'"
  shows "keeps {} {b. rq_balancer (rq s c) = Some b} s s'"
proof -
  have "keeps {} {b. rq_balancer (rq s c) = Some b} s1 s'"
    using assms(3)
  proof (elim disjE)
    show ?thesis if "s' = s1" by (rule same_keeps) (simp add: that)
    show ?thesis if "thread_runq_wakeup_balancer c s1 = Some s'"
      using wakeup_balancer_keeps [OF that] params_special(1) [OF assms(2), of c] by simp
    show ?thesis if "thread_sched_fs_restart c s1 = Some s'" by (rule same_keeps) (rule fs_restart_entries [OF that])
  qed
  then show ?thesis using keeps_trans [OF same_keeps [OF assms(1), of "{}" "{}"]] by force
qed

lemma fs_remove_keeps:
  assumes "thread_sched_fs_remove c t s = Some s'" shows "keeps {} {b. rq_balancer (rq s c) = Some b} s s'"
proof -
  obtain s1 where "same_entries s s1" "same_params s s1" "s' = s1 \<or> thread_runq_wakeup_balancer c s1 = Some s' \<or> thread_sched_fs_restart c s1 = Some s'"
    using assms by (auto simp: thread_sched_fs_remove_def bind_eq_Some_conv Let_def dest!: both(1) split: if_splits)
  then show ?thesis by (rule then_wakeup)
qed

lemma fs_deactivate_keeps:
  assumes "thread_sched_fs_deactivate c t s = Some s'" shows "keeps {} {b. rq_balancer (rq s c) = Some b} s s'"
proof -
  obtain s1 where "same_entries s s1" "same_params s s1" "s' = s1 \<or> thread_runq_wakeup_balancer c s1 = Some s'"
    using assms by (auto simp: thread_sched_fs_deactivate_def bind_eq_Some_conv Let_def dest!: both(1,2) split: if_splits)
      (auto simp: same_entries_def same_params_def)
  then show ?thesis using then_wakeup by blast
qed

lemma fs_put_prev_keeps:
  assumes "thread_sched_fs_put_prev c t s = Some s'" shows "keeps {} {b. rq_balancer (rq s c) = Some b} s s'"
proof -
  obtain s1 where s1: "same_entries s s1" "same_params s s1" "s' = s1 \<or> thread_sched_fs_deactivate c t s1 = Some s'"
    using assms by (auto simp: thread_sched_fs_put_prev_def bind_eq_Some_conv Let_def dest!: both(3) split: if_splits)
  have "keeps {} {b. rq_balancer (rq s c) = Some b} s1 s'"
    using s1(3)
  proof (elim disjE)
    show ?thesis if "s' = s1" by (rule same_keeps) (simp add: that)
    show ?thesis if "thread_sched_fs_deactivate c t s1 = Some s'"
      using fs_deactivate_keeps [OF that] params_special(1) [OF s1(2), of c] by simp
  qed
  then show ?thesis using keeps_trans [OF same_keeps [OF s1(1), of "{}" "{}"]] by force
qed

lemma runq_put_prev_keeps:
  assumes "thread_runq_put_prev c t s = Some s'" shows "keeps {} {b. rq_balancer (rq s c) = Some b} s s'"
  using assms fs_put_prev_keeps [of c t s s']
  by (auto simp: thread_runq_put_prev_def Let_def thread_sched_rt_put_prev_def dest!: rt_entries intro: same_keeps split: if_splits)

lemma runq_remove_keeps:
  assumes "thread_runq_remove c t s = Some s'" shows "keeps {t} {b. rq_balancer (rq s c) = Some b} s s'"
proof -
  define s1 where "s1 = (let s = set_runq c ((rq s c)\<lparr>rq_nr_threads := rq_nr_threads (rq s c) - 1\<rparr>) s in
    if rq_nr_threads (rq s c) = 0 then s\<lparr>sy_idle_runqs := (sy_idle_runqs s)(c := True)\<rparr> else s)"
  have e1: "same_entries s s1" "rq_balancer (rq s1 c) = rq_balancer (rq s c)" by (simp_all add: s1_def Let_def)
  obtain s2 where s2: "s' = set_thread t ((th s2 t)\<lparr>th_in_runq := False\<rparr>) s2" "same_entries s1 s2 \<or> keeps {} {b. rq_balancer (rq s1 c) = Some b} s1 s2"
    using assms unfolding thread_runq_remove_def Let_def bind_eq_Some_conv s1_def [unfolded Let_def, symmetric]
    by (auto simp: thread_sched_idle_remove_def dest!: rt_entries fs_remove_keeps split: if_splits)
  have "keeps {} {b. rq_balancer (rq s c) = Some b} s1 s2" using s2(2) same_keeps e1(2) by auto
  from keeps_trans [OF same_keeps [OF e1(1), of "{}" "{}"] this]
  have "keeps {} {b. rq_balancer (rq s c) = Some b} s s2" by simp
  then show ?thesis by (auto simp: keeps_def s2(1) entry_def split: if_splits)
qed

lemma runq_get_next_keeps:
  assumes "thread_runq_get_next c s = Some (t, s')" shows "same_entries s s'"
proof -
  have cur: "same_entries a (runq_set_current c u b) \<longleftrightarrow> same_entries a b" for a b u by (simp add: runq_set_current_def)
  obtain t1 s1 where s1: "thread_sched_rt_get_next c s = Some (t1, s1)" using assms by (auto simp: thread_runq_get_next_def bind_eq_Some_conv)
  have 1: "same_entries s s1" using rt_get_next_entries [OF s1] .
  show ?thesis
  proof (cases t1)
    case (Some u)
    then have "s' = runq_set_current c u s1" using assms s1 by (auto simp: thread_runq_get_next_def)
    then show ?thesis using 1 cur by simp
  next
    case None
    then obtain t2 s2 where s2: "thread_sched_fs_get_next c s1 = Some (t2, s2)" using assms s1 by (auto simp: thread_runq_get_next_def bind_eq_Some_conv)
    have "same_entries s s2" using fs_get_next_entries [OF s2] 1 entries_trans by blast
    then show ?thesis using assms s1 None s2 cur
      by (cases t2) (auto simp: thread_runq_get_next_def thread_sched_idle_get_next_def bind_eq_Some_conv)
  qed
qed

lemma runq_schedule_keeps:
  assumes "thread_runq_schedule c s = Some s'"
  shows "keeps (if th_state (th s (rq_current (rq s c))) = THREAD_RUNNING then {} else {rq_current (rq s c)}) {b. rq_balancer (rq s c) = Some b} s s'"
proof -
  define prev s0 where "prev = rq_current (rq s c)" and "s0 = thread_clear_flag prev THREAD_YIELD s"
  obtain s1 s2 n where s: "thread_runq_put_prev c prev s0 = Some s1"
    "(if th_state (th s1 prev) \<noteq> THREAD_RUNNING then do {
         s \<leftarrow> thread_runq_remove c prev s1;
         if rq_nr_threads (rq s c) = 0 \<and> rq_balancer (rq s c) \<noteq> Some prev then thread_runq_wakeup_balancer c s
         else Some s }
       else Some s1) = Some s2" "thread_runq_get_next c s2 = Some (n, s')"
    using assms unfolding thread_runq_schedule_def Let_def prev_def [symmetric] s0_def [symmetric] bind_eq_Some_conv
    by (elim exE conjE) (case_tac y, auto simp: bind_eq_Some_conv)
  let ?B = "{b. rq_balancer (rq s c) = Some b}"
  have b0: "rq_balancer (rq s0 c) = rq_balancer (rq s c)" by (simp add: s0_def thread_clear_flag_def)
  have b1: "rq_balancer (rq s1 c) = rq_balancer (rq s c)" using params_special(1) [OF runq_put_prev_params [OF s(1)], of c] b0 by simp
  have k1: "keeps {} ?B s s1"
  proof -
    have "same_entries s s0" by (simp add: s0_def)
    from keeps_trans [OF same_keeps [OF this, of "{}" "{}"] runq_put_prev_keeps [OF s(1)]] show ?thesis unfolding b0 by simp
  qed
  have st: "th_state (th s1 prev) \<noteq> THREAD_RUNNING \<Longrightarrow> th_state (th s prev) \<noteq> THREAD_RUNNING" using k1 by (auto simp: keeps_def)
  have k2: "keeps (if th_state (th s1 prev) = THREAD_RUNNING then {} else {prev}) ?B s1 s2"
  proof (cases "th_state (th s1 prev) = THREAD_RUNNING")
    case True
    then show ?thesis using s(2) same_keeps [of s1 s1] by simp
  next
    case False
    then obtain s3 where s3: "thread_runq_remove c prev s1 = Some s3" "s2 = s3 \<or> thread_runq_wakeup_balancer c s3 = Some s2"
      using s(2) by (auto simp: bind_eq_Some_conv split: if_splits)
    have "rq_balancer (rq s3 c) = rq_balancer (rq s c)" using params_special(1) [OF runq_remove_params [OF s3(1)], of c] b1 by simp
    then have "keeps {} ?B s3 s2" using s3(2) wakeup_balancer_keeps [of c s3 s2] same_keeps [of s3 s3] by auto
    from keeps_trans [OF runq_remove_keeps [OF s3(1)] this] show ?thesis using False b1 by simp
  qed
  have k3: "keeps {} {} s2 s'" by (rule same_keeps [OF runq_get_next_keeps [OF s(3)]])
  have "keeps (if th_state (th s1 prev) = THREAD_RUNNING then {} else {prev}) ?B s s'"
    using keeps_trans [OF keeps_trans [OF k1 k2] k3] by simp
  then show ?thesis by (rule keeps_mono) (use st in \<open>auto simp: prev_def\<close>)
qed

section \<open>Steps\<close>

lemma stay_keeps:
  "thread_runq_schedule c s = Some s' \<Longrightarrow> th_state (th s (rq_current (rq s c))) = THREAD_RUNNING \<Longrightarrow> keeps {} {b. rq_balancer (rq s c) = Some b} s s'"
  using runq_schedule_keeps [of c s s'] by simp

lemma leave_keeps:
  assumes "step s = Some s'" "step = thread_sleep_common c w \<and> st = THREAD_SLEEPING \<or> step = thread_exit c \<and> st = THREAD_DEAD" "t = rq_current (rq s c)"
  shows "keeps {t} (insert t {b. rq_balancer (rq s c) = Some b}) s s'" "rq_balancer (rq s c) \<noteq> Some t \<Longrightarrow> th_state (th s' t) = st"
proof -
  obtain v where v: "thread_runq_schedule c (set_thread t v s) = Some s'" "th_in_runq v = th_in_runq (th s t)" "th_state v = st" "st \<noteq> THREAD_RUNNING"
    using assms by (auto simp: thread_sleep_common_def thread_exit_def thread_set_wchan_def set_state_def bind_eq_Some_conv Let_def)
  have a: "keeps {t} {t} s (set_thread t v s)" using v(2-4) by (auto simp: keeps_def entry_def)
  have b: "keeps {t} {b. rq_balancer (rq s c) = Some b} (set_thread t v s) s'" using runq_schedule_keeps [OF v(1)] v(3,4) assms(3) by simp
  show "keeps {t} (insert t {b. rq_balancer (rq s c) = Some b}) s s'" using keeps_trans [OF a b] by simp
  show "th_state (th s' t) = st" if "rq_balancer (rq s c) \<noteq> Some t" using b v(3) that by (simp add: keeps_def)
qed

lemma wakeup_begin_keeps: "wakeup_begin self (Some t) s = Some (r, s') \<Longrightarrow> \<not> th_in_runq (th s t) \<or> r \<noteq> None \<Longrightarrow> keeps {} {t} s s'"
  by (auto simp: wakeup_begin_def set_state_def thread_clear_wchan_def keeps_def entry_def bind_eq_Some_conv split: if_splits)

lemma wakeup_end_keeps:
  assumes "wakeup_end t e s = Some s'"
  shows "keeps {} {t} s s'" "\<not> th_in_runq (th s t)"
proof -
  obtain v c where v: "thread_runq_add c t (set_thread t v s) = Some s'" "th_in_runq v = th_in_runq (th s t)" "th_state v = th_state (th s t)" "th_runq v = th_runq (th s t)"
    using wakeup_end_runq [OF assms] by (auto simp: thread_runq_wakeup_def bind_eq_Some_conv split: if_splits)
  show nt: "\<not> th_in_runq (th s t)" using runq_add_keeps(2) [OF v(1)] v(2) by simp
  then have "keeps {} {t} s (set_thread t v s)" using v(2,3) by (auto simp: keeps_def entry_def)
  from keeps_trans [OF this runq_add_keeps(1) [OF v(1)]] show "keeps {} {t} s s'" by simp
qed

lemma wakeup_keeps:
  assumes "thread_wakeup_common self (Some t) e s = Some (None, s')"
  shows "keeps {} {t} s s'"
proof -
  obtain s1 where s1: "wakeup_begin self (Some t) s = Some (None, s1)" "wakeup_end t e s1 = Some s'"
    using assms by (auto simp: thread_wakeup_common_def bind_eq_Some_conv split: if_splits)
  have "\<not> th_in_runq (th s t)" using wakeup_end_keeps(2) [OF s1(2)] s1(1)
    by (auto simp: wakeup_begin_def set_state_def thread_clear_wchan_def bind_eq_Some_conv split: if_splits)
  then show ?thesis using keeps_trans [OF wakeup_begin_keeps [OF s1(1)] wakeup_end_keeps(1) [OF s1(2)]] by simp
qed

end
