(* ===== verification/Sched_Create.thy ===== *)
theory Sched_Create
  imports Sched_Change Sched_Members
begin

text \<open>
  Creating a thread: a new thread gets its parameters and is woken up on a processor of its map; an
  error leaves the run queues and the other threads as they were.
\<close>

section \<open>Creating a thread\<close>

lemma rest_outside:
  assumes ok: "rest_ok C s q r A" and t: "\<not> th_in_runq (th s t)" "\<forall>c\<in>C. rq_balancer (rq s c) \<noteq> Some t \<and> rq_idler (rq s c) \<noteq> Some t"
    and v: "\<not> th_in_runq v" "sd_class (th_real v) = THREAD_SCHED_CLASS_FS \<Longrightarrow> sd_priority (th_real v) \<le> THREAD_SCHED_FS_PRIO_MAX
      \<and> fd_weight (th_fs v) = thread_sched_fs_prio2weight (sd_priority (th_real v)) \<and> fd_fs_runq (th_fs v) = None \<and> fd_work (th_fs v) \<le> fd_weight (th_fs v)"
  shows "rest_ok C (set_thread t v s) q r A"
proof -
  let ?s = "set_thread t v s"
  note a = ok [unfolded rest_ok_def]
  have tA: "\<forall>c\<in>C. t \<notin> A c" using rest_members [OF ok] t(1) by auto
  have o: "u \<noteq> t \<Longrightarrow> th ?s u = th s u" for u by simp
  have "runqs_ok C ?s q r A" by (rule runqs_ok_outside) (use a tA v(2) in auto)
  moreover have "sys_ok C ?s A {} (\<lambda>_. 0)"
  proof -
    have k: "sys_ok C s A {} (\<lambda>_. 0)" using a by simp
    show ?thesis
    proof (rule sys_ok_intro [OF k])
      show "member_ok C ?s A u" for u using k v(1) tA by (cases "u = t") (auto simp: sys_ok_def member_ok_def)
      fix c assume c: "c \<in> C"
      obtain x where x: "rq_balancer (rq s c) = Some x" "balancer_ok s {} c x" using k c by (auto simp: sys_ok_def)
      then have "x \<noteq> t" using t(2) c by auto
      then have "balancer_ok ?s {} c x" using x(2) by (simp add: balancer_ok_def)
      then show "\<exists>x. rq_balancer (rq s c) = Some x \<and> balancer_ok ?s {} c x" using x(1) by blast
      obtain d where d: "rq_idler (rq s c) = Some d" "cls s d = THREAD_SCHED_CLASS_IDLE" using k c by (auto simp: sys_ok_def)
      then have "d \<noteq> t" using t(2) c by auto
      then show "\<exists>d. rq_idler (rq s c) = Some d \<and> cls ?s d = THREAD_SCHED_CLASS_IDLE" using d by auto
    qed simp
  qed
  moreover have "works_ok ?s {}"
  proof -
    have "fd_work (fsd ?s u) \<le> fd_weight (fsd ?s u)" if "cls ?s u = THREAD_SCHED_CLASS_FS" for u
      using a v(2) that by (cases "u = t") (auto simp: works_ok_def thread_real_sched_class_def)
    then show ?thesis by (simp add: works_ok_def)
  qed
  moreover have "awake ?s A c \<and> cur_ok ?s r c" if c: "c \<in> C" for c
  proof
    have "awake s A c" using a c by simp
    moreover have "cls ?s u = cls s u" if "u \<in> A c" for u using tA c that by auto
    ultimately show "awake ?s A c" by (auto simp: awake_def)
    have "rq_balancer (rq s c) \<noteq> Some t" "rq_idler (rq s c) \<noteq> Some t" using t(2) c by auto
    moreover have "cur_ok s r c" using a c by simp
    ultimately show "cur_ok ?s r c" by (auto simp: cur_ok_def split: option.splits)
  qed
  ultimately show ?thesis by (simp add: rest_ok_def)
qed

lemma create_ok:
  assumes inv: "system_ok C s" and mem: "mem_ok mem t" and fresh: "\<not> th_in_runq (th s t)" "\<forall>c\<in>C. rq_balancer (rq s c) \<noteq> Some t \<and> rq_idler (rq s c) \<noteq> Some t"
    "t \<noteq> self" "t < MAX_THREADS"
    and attr: "data_ok d" "sd_policy d = at_policy attr" "sd_priority d = at_priority attr" "sd_class d \<noteq> THREAD_SCHED_CLASS_IDLE"
    and cpus: "m = (case at_cpumap attr of Some m \<Rightarrow> m | None \<Rightarrow> th_cpumap (th s self))" "\<forall>m. at_cpumap attr = Some m \<longrightarrow> cpumap_check n m = None"
      "map_places C (sd_class d) m"
  shows "\<exists>s' c. thread_create self n mem attr s = Some (None, s') \<and> system_ok C s' \<and> c \<in> C \<and> m c
    \<and> th_in_runq (th s' t) \<and> th_runq (th s' t) = Some c \<and> th_state (th s' t) = THREAD_RUNNING
    \<and> params_ok (th s' t) \<and> th_user (th s' t) = d \<and> th_real (th s' t) = d \<and> (\<forall>u. u \<noteq> t \<longrightarrow> par (th s' u) = par (th s u)) \<and> (\<forall>c. special (rq s' c) = special (rq s c))
    \<and> keeps {t} {t} s s' \<and> th_cpumap (th s' t) = m \<and> th_pin_level (th s' t) = 0 \<and> th_preempt_level (th s' t) = 0"
proof -
  obtain q r A where ok: "rest_ok C s q r A" using inv by (auto simp: system_ok_def sched_inv_def)
  have k: "thread_policy_to_class (at_policy attr) = Some (sd_class d)" "class_priority (sd_class d) (at_priority attr)" using attr by (auto simp: data_ok_def)
  obtain v where v: "thread_init self t mem attr s = Some (None, set_thread t v s)" "\<not> th_in_runq v" "th_state v = THREAD_SLEEPING" "th_pin_level v = 0" "th_cpumap v = m"
    "sd_class (th_real v) = sd_class d" "sd_priority (th_real v) = at_priority attr"
    "sd_policy (th_real v) = at_policy attr" "th_user v = th_real v" "\<not> th_boosted v" "class_global_priority (sd_class d) (at_priority attr) = Some (sd_global_priority (th_real v))"
    "sd_class d = THREAD_SCHED_CLASS_FS \<longrightarrow> th_fs v = \<lparr>fd_fs_runq = None, fd_round = 0, fd_weight = thread_sched_fs_prio2weight (at_priority attr), fd_work = 0\<rparr>" "th_preempt_level v = 0"
    using thread_init_out [OF mem k, of self s] cpus(1) by (elim exE conjE) simp
  have dv: "th_real v = d"
    by (rule data_eqI) (use v(6-8,11) attr k in \<open>auto simp: data_ok_def\<close>)
  have fs: "sd_class (th_real v) = THREAD_SCHED_CLASS_FS \<Longrightarrow> sd_priority (th_real v) \<le> THREAD_SCHED_FS_PRIO_MAX
      \<and> fd_weight (th_fs v) = thread_sched_fs_prio2weight (sd_priority (th_real v)) \<and> fd_fs_runq (th_fs v) = None \<and> fd_work (th_fs v) \<le> fd_weight (th_fs v)"
    using v(6,7,12) k(2) by (auto simp: class_priority_def classes)
  define s1 where "s1 = set_thread t v s"
  have r1: "rest_ok C s1 q r A" unfolding s1_def by (rule rest_outside [OF ok fresh(1,2) v(2) fs])
  have map: "runq_map_ok C s1" using inv by (simp add: system_ok_def runq_map_ok_def s1_def)
  have t1: "th_state (th s1 t) \<noteq> THREAD_RUNNING" "\<forall>c\<in>C. rq_balancer (rq s1 c) \<noteq> Some t" "runq_class s1 t"
    using v fresh(2) k(2) attr(4) by (auto simp: s1_def runq_class_def thread_real_sched_class_def thread_real_priority_def class_priority_def)
  have place: "placeable C s1 t" using v(4,5,6) cpus(3) by (simp add: s1_def placeable_def thread_real_sched_class_def)
  obtain s2 c where s2: "thread_wakeup_common self (Some t) None s1 = Some (None, s2)" "sched_inv C s2" "c \<in> C"
    "th_in_runq (th s2 t)" "th_runq (th s2 t) = Some c" "th_state (th s2 t) = THREAD_RUNNING" "if th_pin_level (th s1 t) = 0 then th_cpumap (th s1 t) c else th_runq (th s1 t) = Some c"
    using wakeup_ok [OF r1 map fresh(3) t1(1) fresh(4) t1(3,2) place, of None] by (elim exE conjE)
  have "system_ok C s2" using s2(2) map wakeup_maps [OF s2(1)] by (auto simp: system_ok_def runq_map_ok_def)
  moreover have "thread_create self n mem attr s = Some (None, s2)"
    using mem cpus(2) v(1) s2(1) by (cases "at_cpumap attr") (simp_all add: thread_create_def mem_ok_def thread_wakeup_def s1_def)
  moreover have "params_ok (th s2 t) \<and> th_user (th s2 t) = d \<and> th_real (th s2 t) = d \<and> (\<forall>u. u \<noteq> t \<longrightarrow> par (th s2 u) = par (th s u)) \<and> (\<forall>c. special (rq s2 c) = special (rq s c))"
  proof -
    have p: "same_params s1 s2" by (rule wakeup_params [OF s2(1)])
    have "par (th s2 t) = par v" "\<forall>u. u \<noteq> t \<longrightarrow> par (th s2 u) = par (th s u)" "\<forall>c. special (rq s2 c) = special (rq s c)"
      using p by (simp_all add: same_params_def s1_def)
    then show ?thesis using dv v(9,10) attr(1) by (simp add: par_def params_ok_def)
  qed
  moreover have "th_cpumap (th s2 t) = m \<and> th_pin_level (th s2 t) = 0 \<and> th_preempt_level (th s2 t) = 0"
  proof -
    have "par (th s2 t) = par v" using wakeup_params [OF s2(1)] by (simp add: same_params_def s1_def)
    then show ?thesis using v(4,5,13) by (simp add: par_def)
  qed
  moreover have "keeps {t} {t} s s2"
  proof -
    have "keeps {t} {t} s s1" using v(2) by (auto simp: keeps_def s1_def)
    from keeps_trans [OF this wakeup_keeps [OF s2(1)]] show ?thesis by simp
  qed
  moreover have "m c" using s2(7) v(4,5) by (simp add: s1_def)
  ultimately show ?thesis using s2(3-6) by blast
qed

text \<open>Failures leave the other threads and the run queues alone.\<close>

lemma create_fails:
  "at_cpumap attr = Some m \<Longrightarrow> cpumap_check n m = Some e \<Longrightarrow> thread_create self n mem attr s = Some (Some e, s)"
  "at_cpumap attr = None \<or> (\<exists>m. at_cpumap attr = Some m \<and> cpumap_check n m = None) \<Longrightarrow> tm_thread mem = None \<or> \<not> tm_stack mem
    \<Longrightarrow> thread_create self n mem attr s = Some (Some ENOMEM, s)"
  "at_cpumap attr = None \<or> (\<exists>m. at_cpumap attr = Some m \<and> cpumap_check n m = None) \<Longrightarrow> tm_thread mem = Some t \<Longrightarrow> tm_stack mem
    \<Longrightarrow> at_policy attr < 4 \<Longrightarrow> tm_addr mem \<noteq> 0 \<Longrightarrow> \<not> tm_sleepq mem \<or> \<not> tm_turnstile mem
    \<Longrightarrow> \<exists>v. thread_create self n mem attr s = Some (Some ENOMEM, set_thread t v s)"
  by (auto simp: thread_create_def thread_init_def thread_policy_table_def thread_set_wchan_def set_state_def Let_def split: option.splits if_splits)

text \<open>Whatever the memory allocator answers, creating a thread returns and the invariant is kept.\<close>

lemma create_partial:
  assumes ok: "rest_ok C s q r A" and fresh: "\<not> th_in_runq (th s t)" "\<forall>c\<in>C. rq_balancer (rq s c) \<noteq> Some t \<and> rq_idler (rq s c) \<noteq> Some t"
    and v: "th_real v = th_real (th s t)" "th_fs v = th_fs (th s t)" "\<not> th_in_runq v"
  shows "rest_ok C (set_thread t v s) q r A"
proof (rule rest_outside [OF ok fresh v(3)])
  assume "sd_class (th_real v) = THREAD_SCHED_CLASS_FS"
  then have k: "cls s t = THREAD_SCHED_CLASS_FS" using v(1) by (simp add: thread_real_sched_class_def)
  note a = ok [unfolded rest_ok_def]
  have "\<forall>c\<in>C. t \<notin> A c" using rest_members [OF ok] fresh(1) by auto
  then have "fs_entity s t" "fd_fs_runq (fsd s t) = None" using a k by (auto simp: runqs_ok_def)
  moreover have "fd_work (fsd s t) \<le> fd_weight (fsd s t)" using a k by (simp add: works_ok_def)
  ultimately show "sd_priority (th_real v) \<le> THREAD_SCHED_FS_PRIO_MAX
      \<and> fd_weight (th_fs v) = thread_sched_fs_prio2weight (sd_priority (th_real v)) \<and> fd_fs_runq (th_fs v) = None \<and> fd_work (th_fs v) \<le> fd_weight (th_fs v)"
    using v(1,2) by (simp add: fs_entity_def thread_real_priority_def)
qed

lemma create_any:
  assumes inv: "system_ok C s"
    and fresh: "\<And>t. tm_thread mem = Some t \<Longrightarrow> tm_addr mem \<noteq> 0 \<and> \<not> th_in_runq (th s t) \<and> (\<forall>c\<in>C. rq_balancer (rq s c) \<noteq> Some t \<and> rq_idler (rq s c) \<noteq> Some t) \<and> t \<noteq> self \<and> t < MAX_THREADS"
    and attr: "data_ok d" "sd_policy d = at_policy attr" "sd_priority d = at_priority attr" "sd_class d \<noteq> THREAD_SCHED_CLASS_IDLE"
    and place: "(\<exists>m. at_cpumap attr = Some m \<and> cpumap_check n m \<noteq> None) \<or> map_places C (sd_class d) (case at_cpumap attr of Some m \<Rightarrow> m | None \<Rightarrow> th_cpumap (th s self))"
  shows "\<exists>e s'. thread_create self n mem attr s = Some (e, s') \<and> system_ok C s'"
proof -
  obtain q r A where ok: "rest_ok C s q r A" using inv by (auto simp: system_ok_def sched_inv_def)
  have map: "runq_map_ok C s" using inv by (simp add: system_ok_def)
  consider (map) m e where "at_cpumap attr = Some m" "cpumap_check n m = Some e"
    | (mem) "\<forall>m. at_cpumap attr = Some m \<longrightarrow> cpumap_check n m = None" "tm_thread mem = None \<or> \<not> tm_stack mem"
    | (built) t where "\<forall>m. at_cpumap attr = Some m \<longrightarrow> cpumap_check n m = None" "tm_thread mem = Some t" "tm_stack mem"
    by (cases "at_cpumap attr") force+
  then show ?thesis
  proof cases
    case map
    then show ?thesis using create_fails(1) [OF map] inv by blast
  next
    case mem
    then show ?thesis using create_fails(2) [of attr n mem self s] inv by (cases "at_cpumap attr") blast+
  next
    case (built t)
    have f: "\<not> th_in_runq (th s t)" "\<forall>c\<in>C. rq_balancer (rq s c) \<noteq> Some t \<and> rq_idler (rq s c) \<noteq> Some t" "t \<noteq> self" "t < MAX_THREADS" "tm_addr mem \<noteq> 0"
      using fresh [OF built(2)] by simp_all
    have k: "thread_policy_to_class (at_policy attr) = Some (sd_class d)" "class_priority (sd_class d) (at_priority attr)" using attr by (auto simp: data_ok_def)
    have out: ?thesis if "thread_create self n mem attr s = Some (Some e, set_thread t v s)" "rest_ok C (set_thread t v s) q r A" for e v
      using that map by (auto simp: system_ok_def sched_inv_def runq_map_ok_def)
    show ?thesis
    proof (cases "tm_sleepq mem \<and> tm_turnstile mem")
      case False
      define v where "v = (th s t)\<lparr>th_flags := 0, th_runq := None, th_in_runq := False, th_wchan_addr := tm_addr mem, th_state := THREAD_SLEEPING\<rparr>"
      have "at_policy attr < 4" using k(1) by (auto simp: policy_to_class THREAD_SCHED_POLICY_FIFO_def THREAD_SCHED_POLICY_RR_def
        THREAD_SCHED_POLICY_FS_def THREAD_SCHED_POLICY_IDLE_def split: if_splits)
      then have "thread_init self t mem attr s = Some (Some ENOMEM, set_thread t v s)"
        using f(5) False by (cases "tm_sleepq mem") (simp_all add: thread_init_def thread_policy_table_def thread_set_wchan_def set_state_def v_def Let_def)
      then have "thread_create self n mem attr s = Some (Some ENOMEM, set_thread t v s)"
        using built by (cases "at_cpumap attr") (simp_all add: thread_create_def)
      then show ?thesis by (rule out) (rule create_partial [OF ok f(1,2)], simp_all add: v_def)
    next
      case True
      show ?thesis
      proof (cases "tm_tcb_error mem")
        case None
        then have "mem_ok mem t" using True built f(5) by (simp add: mem_ok_def)
        have m: "map_places C (sd_class d) (case at_cpumap attr of Some m \<Rightarrow> m | None \<Rightarrow> th_cpumap (th s self))" using place built(1) by auto
        from create_ok [OF inv \<open>mem_ok mem t\<close> f(1-4) attr refl built(1) m] show ?thesis by blast
      next
        case (Some e)
        obtain v where v: "thread_init self t mem attr s = Some (Some e, set_thread t v s)" "\<not> th_in_runq v" "sd_class (th_real v) = sd_class d" "sd_priority (th_real v) = at_priority attr"
          "sd_class d = THREAD_SCHED_CLASS_FS \<longrightarrow> th_fs v = \<lparr>fd_fs_runq = None, fd_round = 0, fd_weight = thread_sched_fs_prio2weight (at_priority attr), fd_work = 0\<rparr>"
          using thread_init_built [OF f(5) _ _ k, of self t s] True Some by auto
        have "thread_create self n mem attr s = Some (Some e, set_thread t v s)"
          using built v(1) by (cases "at_cpumap attr") (simp_all add: thread_create_def)
        then show ?thesis by (rule out) (rule rest_outside [OF ok f(1,2) v(2)], use v(3-5) k(2) in \<open>auto simp: class_priority_def classes\<close>)
      qed
    qed
  qed
qed

end
