(* ===== verification/Sched_Pull.thy ===== *)
theory Sched_Pull
  imports Sched_Create
begin

text \<open>
  Pulling threads from the run queue of another processor. A thread that is moved leaves its queue and enters
  the active queue of the balancing processor; the loop over the queue goes on from a node that
  stays listed, and returns.
\<close>

section \<open>The fair-scheduling data of the other threads\<close>

named_theorems homes \<open>operations that leave the fair-scheduling data of the other threads alone\<close>

definition fs_data_except :: "nat set \<Rightarrow> sched \<Rightarrow> sched \<Rightarrow> bool" where
  "fs_data_except X s s' \<longleftrightarrow> (\<forall>u. u \<notin> X \<longrightarrow> fsd s' u = fsd s u)"

lemma homes_select [simp]:
  "fs_data_except X s (set_runq c w s') \<longleftrightarrow> fs_data_except X s s'" "fs_data_except X s (set_fs_queue c i q s') \<longleftrightarrow> fs_data_except X s s'"
  "fs_data_except X s (set_fs_group c i g w' s') \<longleftrightarrow> fs_data_except X s s'" "fs_data_except X s (s'\<lparr>sy_links := h\<rparr>) \<longleftrightarrow> fs_data_except X s s'" "fs_data_except X s (s'\<lparr>sy_idle_runqs := m\<rparr>) \<longleftrightarrow> fs_data_except X s s'"
  "fs_data_except X s (thread_set_flag t f s') \<longleftrightarrow> fs_data_except X s s'" "fs_data_except X s (thread_clear_flag t f s') \<longleftrightarrow> fs_data_except X s s'" "fs_data_except X s s"
  "fs_data_except X (set_runq c w s) s' \<longleftrightarrow> fs_data_except X s s'" "fs_data_except X (set_fs_queue c i q s) s' \<longleftrightarrow> fs_data_except X s s'"
  "fs_data_except X (set_fs_group c i g w' s) s' \<longleftrightarrow> fs_data_except X s s'" "fs_data_except X (s\<lparr>sy_links := h\<rparr>) s' \<longleftrightarrow> fs_data_except X s s'" "fs_data_except X (s\<lparr>sy_idle_runqs := m\<rparr>) s' \<longleftrightarrow> fs_data_except X s s'"
  "fs_data_except X (thread_set_flag t f s) s' \<longleftrightarrow> fs_data_except X s s'" "fs_data_except X (thread_clear_flag t f s) s' \<longleftrightarrow> fs_data_except X s s'"
  "fs_data_except X s (set_state t st s') \<longleftrightarrow> fs_data_except X s s'" "fs_data_except X s (thread_clear_wchan t s') \<longleftrightarrow> fs_data_except X s s'"
  "fs_data_except X (set_state t st s) s' \<longleftrightarrow> fs_data_except X s s'" "fs_data_except X (thread_clear_wchan t s) s' \<longleftrightarrow> fs_data_except X s s'"
  by (auto simp: fs_data_except_def set_fs_queue_def set_fs_group_def thread_set_flag_def thread_clear_flag_def set_state_def thread_clear_wchan_def split: if_splits)

lemma homes_set_fs: "t \<in> X \<Longrightarrow> fs_data_except X s (set_fs t d s') \<longleftrightarrow> fs_data_except X s s'" "t \<in> X \<Longrightarrow> fs_data_except X (set_fs t d s) s' \<longleftrightarrow> fs_data_except X s s'"
  "th_fs v = fsd s' t \<Longrightarrow> fs_data_except X s (set_thread t v s') \<longleftrightarrow> fs_data_except X s s'"
  by (auto simp: fs_data_except_def split: if_splits)

lemma homes_trans: "fs_data_except X s s' \<Longrightarrow> fs_data_except X s' s'' \<Longrightarrow> fs_data_except X s s''" by (simp add: fs_data_except_def)

lemma homes_mono: "fs_data_except X s s' \<Longrightarrow> X \<subseteq> Y \<Longrightarrow> fs_data_except Y s s'" by (auto simp: fs_data_except_def)

lemma on_links_homes [homes]: "on_links f s = Some s' \<Longrightarrow> fs_data_except X s s'"
  by (auto simp: on_links_def bind_eq_Some_conv)

lemma rt_homes [homes]:
  "thread_sched_rt_remove c t s = Some s' \<Longrightarrow> fs_data_except X s s'" "thread_sched_rt_add c t s = Some s' \<Longrightarrow> fs_data_except X s s'"
  by (auto simp: thread_sched_rt_remove_def thread_sched_rt_add_def bind_eq_Some_conv Let_def dest!: homes [where X = X] split: if_splits)

lemma fs_place_homes [homes]:
  "fs_enqueue_place c i g w s = Some s' \<Longrightarrow> fs_data_except X s s'" "fs_dequeue_place c i g s = Some s' \<Longrightarrow> fs_data_except X s s'"
  by (auto simp: fs_enqueue_place_def fs_dequeue_place_def bind_eq_Some_conv Let_def dest!: homes [where X = X] intro: homes_trans split: if_splits)

lemma fs_restart_homes [homes]: "thread_sched_fs_restart c s = Some s' \<Longrightarrow> fs_data_except X s s'"
  by (auto simp: thread_sched_fs_restart_def bind_eq_Some_conv Let_def split: if_splits)

lemma fs_enqueue_work_homes: "fs_enqueue_work c i g w rnd t s = Some s' \<Longrightarrow> fs_data_except {t} s s'"
  by (auto simp: fs_enqueue_work_def bind_eq_Some_conv Let_def homes_set_fs split: if_splits)

lemma fs_enqueue_homes: "thread_sched_fs_enqueue c i rnd t s = Some s' \<Longrightarrow> fs_data_except {t} s s'"
  by (auto simp: thread_sched_fs_enqueue_def bind_eq_Some_conv Let_def homes_set_fs dest!: homes [where X = "{t}"] fs_enqueue_work_homes) (simp_all add: fs_data_except_def)

lemma fs_dequeue_homes: "thread_sched_fs_dequeue t s = Some s' \<Longrightarrow> fs_data_except {t} s s'"
  by (auto simp: thread_sched_fs_dequeue_def bind_eq_Some_conv Let_def homes_set_fs dest!: homes [where X = "{t}"]) (simp_all add: fs_data_except_def)

lemma fs_add_homes: "thread_sched_fs_add c t s = Some s' \<Longrightarrow> fs_data_except {t} s s'"
  by (auto simp: thread_sched_fs_add_def bind_eq_Some_conv Let_def dest!: homes [where X = "{t}"] fs_enqueue_homes intro: homes_trans split: if_splits)

lemma runq_add_homes: "thread_runq_add c t s = Some s' \<Longrightarrow> fs_data_except {t} s s'"
  by (auto simp: thread_runq_add_def bind_eq_Some_conv Let_def thread_sched_idle_add_def homes_set_fs dest!: homes [where X = "{t}"] fs_add_homes split: if_splits)

lemma wakeup_balancer_homes: "thread_runq_wakeup_balancer c s = Some s' \<Longrightarrow> rq_balancer (rq s c) = Some b \<Longrightarrow> fs_data_except {b} s s'"
  by (auto simp: thread_runq_wakeup_balancer_def thread_runq_wakeup_def bind_eq_Some_conv dest!: runq_add_homes split: if_splits)

lemma fs_remove_homes:
  assumes "thread_sched_fs_remove c t s = Some s'" "rq_balancer (rq s c) = Some b"
  shows "fs_data_except {t, b} s s'"
proof -
  let ?s0 = "set_runq c ((rq s c)\<lparr>rq_fs_weight := rq_fs_weight (rq s c) - ucast (fd_weight (th_fs (th s t)))\<rparr>) s"
  obtain s1 where d: "thread_sched_fs_dequeue t ?s0 = Some s1" and r: "s' = s1 \<or> thread_runq_wakeup_balancer c s1 = Some s' \<or> thread_sched_fs_restart c s1 = Some s'"
    using assms(1) by (auto simp: thread_sched_fs_remove_def bind_eq_Some_conv Let_def split: if_splits)
  have "same_params s s1" using fs_dequeue_params [OF d] by simp
  then have "rq_balancer (rq s1 c) = Some b" using params_special(1) assms(2) by metis
  then have "fs_data_except {t, b} s1 s'" using r wakeup_balancer_homes homes_mono fs_restart_homes by fastforce
  moreover have "fs_data_except {t, b} s s1" using fs_dequeue_homes [OF d] homes_mono by fastforce
  ultimately show ?thesis by (rule homes_trans [rotated])
qed

lemma runq_remove_homes:
  assumes "thread_runq_remove c t s = Some s'" "rq_balancer (rq s c) = Some b"
  shows "fs_data_except {t, b} s s'"
  using assms
  by (auto simp: thread_runq_remove_def bind_eq_Some_conv Let_def thread_sched_idle_remove_def homes_set_fs
      dest!: homes [where X = "{t, b}"] fs_remove_homes [where b = b] split: if_splits)

section \<open>Moving a thread\<close>

lemma sys_ok_weaken: "sys_ok C s A X n \<Longrightarrow> X \<subseteq> Y \<Longrightarrow> sys_ok C s A Y n"
  unfolding sys_ok_def balancer_ok_def by blast

lemma rest_okD:
  assumes "rest_ok C s q r A"
  shows "runqs_ok C s q r A" "sys_ok C s A {} (\<lambda>_. 0)" "works_ok s {}" "c \<in> C \<Longrightarrow> awake s A c" "c \<in> C \<Longrightarrow> cur_ok s r c"
  using assms by (auto simp: rest_ok_def)

lemma queued_thread:
  assumes ok: "rest_ok C s q r A" and x: "x \<in> C" and t: "t \<in> set (q_thr q x i)"
  shows "t \<in> A x" "cls s t = THREAD_SCHED_CLASS_FS" "th_in_runq (th s t)" "th_runq (th s t) = Some x" "th_state (th s t) = THREAD_RUNNING" "t < MAX_THREADS"
    "fd_fs_runq (fsd s t) = Some (x, i)" "\<And>c. c \<in> C \<Longrightarrow> rq_balancer (rq s c) \<noteq> Some t" "t \<noteq> rq_current (rq s x) \<Longrightarrow> r x \<noteq> Some t"
proof -
  note o = rest_okD [OF ok]
  note f = runqs_okD(4) [OF o(1) x]
  show a: "t \<in> A x" "cls s t = THREAD_SCHED_CLASS_FS" by (rule fs_okD(4,5) [OF f t])+
  have m: "member_ok C s A t" using o(2) by (simp add: sys_ok_def)
  show "th_in_runq (th s t)" "th_runq (th s t) = Some x" "th_state (th s t) = THREAD_RUNNING" using m x a(1) by (auto simp: member_ok_def)
  show "t < MAX_THREADS" using runqs_okD(2) [OF o(1) x] a(1) by (auto simp: runq_ok_def)
  show "fd_fs_runq (fsd s t) = Some (x, i)" by (rule fsq_member [OF f t])
  show "rq_balancer (rq s c) \<noteq> Some t" if "c \<in> C" for c
    using o(2) that a(2) by (auto simp: sys_ok_def balancer_ok_def THREAD_SCHED_CLASS_RT_def THREAD_SCHED_CLASS_FS_def)
  show "r x \<noteq> Some t" if "t \<noteq> rq_current (rq s x)" using o(5) [OF x] that by (auto simp: cur_ok_def)
qed

definition moved_in :: "nat set \<Rightarrow> sched \<Rightarrow> sched \<Rightarrow> bool" where
  "moved_in C s s' \<longleftrightarrow> moved s s' \<and> (runq_map_ok C s \<longrightarrow> runq_map_ok C s')"

lemma moved_in_trans: "moved_in C s s1 \<Longrightarrow> moved_in C s1 s2 \<Longrightarrow> moved_in C s s2"
  using moved_trans unfolding moved_in_def by blast

lemma moved_in_refl [simp]: "moved_in C s s" by (simp add: moved_in_def)

lemma pull_one:
  assumes ok: "rest_ok C s q r A" and c: "c \<in> C" "x \<in> C" "x \<noteq> c" and t: "t \<in> set (q_thr q x i)" "t \<noteq> rq_current (rq s x)"
  shows "\<exists>s1 s2 q2 A2. thread_runq_remove x t s = Some s1 \<and> thread_runq_add c t (set_fs t ((fsd s1 t)\<lparr>fd_round := rq_fs_round (rq s1 c)\<rparr>) s1) = Some s2
    \<and> rest_ok C s2 q2 r A2 \<and> moved_in C s s2 \<and> fq_nr_threads (fs_queue s2 c (rq_fs_active (rq s2 c))) \<noteq> 0 \<and> (\<forall>u j. u \<noteq> t \<and> u \<in> set (q_thr q x j) \<longrightarrow> u \<in> set (q_thr q2 x j))"
proof -
  note o = rest_okD [OF ok]
  note d = queued_thread [OF ok c(2) t(1)]
  have X: "cls s t = THREAD_SCHED_CLASS_FS \<longrightarrow> (\<forall>b. rq_balancer (rq s x) = Some b \<longrightarrow> b \<notin> {t})" "t \<in> {t}" using d(8) [OF c(2)] by auto
  obtain s1 q1 A1 where r1: "thread_runq_remove x t s = Some s1" "runqs_ok C s1 q1 r A1" "sys_ok C s1 A1 {t} (\<lambda>_. 0)" "works_ok s1 {}" "moved s s1"
    "elsewhere x s A s1 A1" "\<not> th_in_runq (th s1 t)" "\<forall>c\<in>C. t \<notin> A1 c" "rq_balancer (rq s x) \<noteq> Some t \<and> awake s A x \<longrightarrow> awake s1 A1 x" "th_state (th s1 t) = th_state (th s t)"
    using runq_remove_ok [OF o(1) sys_ok_weaken [OF o(2) empty_subsetI] o(3) c(2) d(1) d(9) [OF t(2)] X(2) d(3) X(1)] by (elim exE conjE)
  note aw1 = mp [OF r1(9) conjI [OF d(8) [OF c(2)] o(4) [OF c(2)]]]
  let ?s1 = "set_fs t ((fsd s1 t)\<lparr>fd_round := rq_fs_round (rq s1 c)\<rparr>) s1"
  note m1 = moved_view [OF r1(5)]
  have cls1: "cls s1 t = THREAD_SCHED_CLASS_FS" using m1(1) d(2) by simp
  have e1: "fs_entity s1 t" "fd_fs_runq (fsd s1 t) = None" using runqs_okD(7,8) [OF r1(2) cls1 r1(8)] by simp_all
  have q1: "quiet s1 ?s1" "moved s1 ?s1" by (simp_all add: quiet_def moved_def)
  have a1: "runqs_ok C ?s1 q1 r A1"
    unfolding set_fs_def by (rule runqs_ok_outside [OF r1(2,8)]) (use e1 in \<open>simp add: fs_entity_def thread_real_priority_def\<close>)
  have w1: "works_ok ?s1 {}" using r1(4) by (simp add: works_ok_def)
  have s1: "sys_ok C ?s1 A1 {t} (\<lambda>_. 0)" by (rule sys_ok_quiet [OF r1(3) q1(1)])
  have n1: "\<not> th_in_runq (th ?s1 t)" "th_state (th ?s1 t) = THREAD_RUNNING" "runq_class ?s1 t" "\<forall>c'\<in>C. rq_balancer (rq ?s1 c') = Some t \<longrightarrow> c' = c"
    using r1(7,10) d(5,8) cls1 m1(4) by (simp_all add: runq_class_def)
  obtain s2 q2 where r2: "thread_runq_add c t ?s1 = Some s2" "runqs_ok C s2 q2 r (A1(c := insert t (A1 c)))" "sys_ok C s2 (A1(c := insert t (A1 c))) {} (\<lambda>_. 0)"
    "works_ok s2 {}" "moved ?s1 s2" "cls ?s1 t = THREAD_SCHED_CLASS_FS \<longrightarrow> t \<in> set (q_thr q2 c (rq_fs_active (rq s2 c))) \<and> fs_cur s2 c \<in> set (q_groups q2 c (rq_fs_active (rq s2 c)))"
    "\<forall>c'. c' \<noteq> c \<longrightarrow> rq_nr_threads (rq s2 c') = rq_nr_threads (rq ?s1 c') \<and> fs_queue s2 c' = fs_queue ?s1 c'"
    using runq_add_ok [OF a1 s1 w1 c(1) n1(1,2) r1(8) d(6) n1(3,4)] unfolding Diff_cancel by (elim exE conjE)
  have inq: "t \<in> set (q_thr q2 c (rq_fs_active (rq s2 c)))" using r2(6) cls1 by simp
  let ?A = "A1(c := insert t (A1 c))"
  have mv: "moved s s2" by (rule moved_trans [OF moved_trans [OF r1(5) q1(2)] r2(5)])
  have el2: "elsewhere c s1 A1 s2 ?A" using r2(7) by (simp add: elsewhere_def)
  have cnt: "fq_nr_threads (fs_queue s2 c (rq_fs_active (rq s2 c))) \<noteq> 0" by (rule member_active_count [OF r2(2) c(1) inq])
  have aw: "awake s2 ?A c'" if "c' \<in> C" for c'
  proof (cases "c' = c")
    case True
    then show ?thesis using cnt by (simp add: awake_def)
  next
    case False
    have "awake s1 A1 c'" using aw1 elsewhere_awake [OF r1(6,5) o(4) [OF that]] by (cases "c' = x") auto
    then show ?thesis using elsewhere_awake [OF el2 moved_trans [OF q1(2) r2(5)] _ False] by blast
  qed
  have ok2: "rest_ok C s2 q2 r ?A" using r2 aw moved_cur_ok [OF mv o(5)] by (auto simp: rest_ok_def)
  have "u \<in> set (q_thr q2 x j)" if u: "u \<noteq> t" "u \<in> set (q_thr q x j)" for u j
  proof -
    note du = queued_thread [OF ok c(2) u(2)]
    obtain b where b: "rq_balancer (rq s x) = Some b" using o(2) c(2) by (auto simp: sys_ok_def)
    have "entry (th s1 u) = entry (th s u)" using runq_remove_keeps [OF r1(1)] du(3) u(1) by (auto simp: keeps_def)
    then have "u \<in> A1 x" using du(3,4) r1(3) u(1) c(2) by (auto simp: sys_ok_def member_ok_def entry_def)
    then have "u \<in> ?A x" using c(3) by simp
    moreover have "cls s2 u = THREAD_SCHED_CLASS_FS" using moved_view(1) [OF mv] du(2) by simp
    ultimately obtain k where k: "u \<in> set (q_thr q2 x k)" using fs_okD(6) [OF runqs_okD(4) [OF r2(2) c(2)]] by blast
    have "fsd s2 u = fsd s u" using runq_remove_homes [OF r1(1) b] runq_add_homes [OF r2(1)] du(8) [OF c(2)] b u(1) by (auto simp: fs_data_except_def)
    then show ?thesis using queued_thread(7) [OF ok2 c(2) k] du(7) k by simp
  qed
  moreover have "moved_in C s s2"
    using mv runq_remove_maps [OF r1(1)] runq_add_maps [OF r2(1)] c(1,2) by (auto simp: moved_in_def runq_map_ok_def idle_frame_def)
  ultimately show ?thesis using r1(1) r2(1) ok2 cnt by blast
qed

section \<open>The loop over the threads of a queue\<close>

lemma links_thread_next:
  assumes "links_ok h C q" "c \<in> C" "q_thr q c i = us @ t # vs"
  shows "list_next (Fs_runq_node t) h = Some (hd (map Fs_runq_node vs @ [Fs_threads c i]))"
  using lists_links [of h "node_heads C" "node_seq q" "Fs_threads c i" "map Fs_runq_node us" "Fs_runq_node t" "map Fs_runq_node vs"] assms
  by (simp add: links_ok_def list_next_def)

definition pulled :: "nat set \<Rightarrow> nat \<Rightarrow> (nat \<Rightarrow> nat option) \<Rightarrow> nat \<Rightarrow> sched \<Rightarrow> (u32 \<times> sched) option \<Rightarrow> bool" where
  "pulled C c r k s res \<longleftrightarrow> res = Some (of_nat k, s) \<or> (\<exists>k' s' q' A'. res = Some (of_nat k', s') \<and> k < k' \<and> k' \<le> 16 \<and> rest_ok C s' q' r A' \<and> moved_in C s s'
     \<and> fq_nr_threads (fs_queue s' c (rq_fs_active (rq s' c))) \<noteq> 0)"

lemma pulled_more:
  assumes "moved_in C s s1" "rest_ok C s1 q1 r A1" "fq_nr_threads (fs_queue s1 c (rq_fs_active (rq s1 c))) \<noteq> 0" "k < k1" "k1 \<le> 16" "pulled C c r k1 s1 res"
  shows "pulled C c r k s res"
proof (cases "res = Some (of_nat k1, s1)")
  case True
  then show ?thesis using assms unfolding pulled_def by blast
next
  case False
  then obtain k' s' q' A' where "res = Some (of_nat k', s')" "k1 < k'" "k' \<le> 16" "rest_ok C s' q' r A'" "moved_in C s1 s'"
    "fq_nr_threads (fs_queue s' c (rq_fs_active (rq s' c))) \<noteq> 0" using assms(6) by (auto simp: pulled_def)
  then show ?thesis using moved_in_trans [OF assms(1)] less_trans [OF assms(4)] unfolding pulled_def by blast
qed

definition node_at :: "queues \<Rightarrow> nat \<Rightarrow> bool \<Rightarrow> sched_node \<Rightarrow> bool" where
  "node_at q x i n \<longleftrightarrow> n = Fs_threads x i \<or> (\<exists>t. n = Fs_runq_node t \<and> t \<in> set (q_thr q x i))"

lemma nr_pulls_eq: "k \<le> 16 \<Longrightarrow> of_nat k = (16 :: u32) \<longleftrightarrow> k = 16" "k \<le> 16 \<Longrightarrow> of_nat k = (0 :: u32) \<longleftrightarrow> k = 0"
  using word_eq_unat [of "of_nat k :: u32" 16] word_eq_unat [of "of_nat k :: u32" 0] unat_of_nat_lt [of k, where 'a = 32] by auto

lemma pull_loop_ok:
  assumes c: "c \<in> C" "x \<in> C" "x \<noteq> c"
  shows "rest_ok C s q r A \<Longrightarrow> k < 16 \<Longrightarrow> q_thr q x i = us @ vs
    \<Longrightarrow> pulled C c r k s (balance_pull_loop c x i (Some (hd (map Fs_runq_node vs @ [Fs_threads x i])))
      (list_next (hd (map Fs_runq_node vs @ [Fs_threads x i])) (sy_links s)) (of_nat k) s)"
proof (induction "16 - k" arbitrary: k s q A us vs rule: less_induct)
  case (less k)
  note o = rest_okD [OF less.prems(1)]
  show ?case
    using less.prems(3)
  proof (induction vs arbitrary: us)
    case Nil
    then show ?case by (subst balance_pull_loop.simps) (simp add: list_end_def pulled_def)
  next
    case (Cons t vs)
    let ?node = "Fs_runq_node t" and ?tmp = "hd (map Fs_runq_node vs @ [Fs_threads x i])"
    have tmp: "list_next ?node (sy_links s) = Some ?tmp" by (rule links_thread_next [OF runqs_okD(1) [OF o(1)] c(2) Cons.prems])
    have IH: "pulled C c r k s (balance_pull_loop c x i (Some ?tmp) (list_next ?tmp (sy_links s)) (of_nat k) s)"
      using Cons.IH [of "us @ [t]"] Cons.prems by simp
    have t: "t \<in> set (q_thr q x i)" using Cons.prems by simp
    show ?case
    proof (cases "t = rq_current (rq s x) \<or> th_pin_level (th s t) \<noteq> 0 \<or> \<not> th_cpumap (th s t) c")
      case True
      then show ?thesis using IH by (subst balance_pull_loop.simps) (simp add: list_end_def tmp)
    next
      case False
      obtain s1 s2 q2 A2 where p: "thread_runq_remove x t s = Some s1" "thread_runq_add c t (set_fs t ((fsd s1 t)\<lparr>fd_round := rq_fs_round (rq s1 c)\<rparr>) s1) = Some s2"
        "rest_ok C s2 q2 r A2" "moved_in C s s2" "fq_nr_threads (fs_queue s2 c (rq_fs_active (rq s2 c))) \<noteq> 0" "\<forall>u j. u \<noteq> t \<and> u \<in> set (q_thr q x j) \<longrightarrow> u \<in> set (q_thr q2 x j)"
        using pull_one [OF less.prems(1) c t] False by blast
      have suc: "of_nat k + 1 = (of_nat (k + 1) :: u32)" by simp
      have "pulled C c r k s (balance_pull_loop c x i (Some ?tmp) (list_next ?tmp (sy_links s2)) (of_nat (k + 1)) s2)" if "k + 1 < 16"
      proof (rule pulled_more [OF p(4,3,5)])
        obtain us' vs' where e: "q_thr q2 x i = us' @ vs'" "hd (map Fs_runq_node vs' @ [Fs_threads x i]) = ?tmp"
        proof (cases vs)
          case Nil
          then show ?thesis using that [of "q_thr q2 x i" "[]"] by simp
        next
          case (Cons u ws)
          have "distinct (q_thr q x i)" using links_fs(2) [OF runqs_okD(1) [OF o(1)] c(2)] .
          then have "u \<noteq> t" "u \<in> set (q_thr q x i)" using Cons.prems Cons \<open>q_thr q x i = us @ t # vs\<close> by auto
          then have "u \<in> set (q_thr q2 x i)" using p(6) by blast
          then obtain us' vs' where "q_thr q2 x i = us' @ u # vs'" by (meson split_list)
          then show ?thesis using that [of us' "u # vs'"] Cons by simp
        qed
        show "pulled C c r (k + 1) s2 (balance_pull_loop c x i (Some ?tmp) (list_next ?tmp (sy_links s2)) (of_nat (k + 1)) s2)"
          using less.hyps [OF _ p(3) that e(1)] that e(2) by simp
      qed (use that in simp_all)
      moreover have "pulled C c r k s (Some (of_nat k, s))" by (simp add: pulled_def)
      moreover have "pulled C c r k s (Some (of_nat (k + 1), s2))"
        by (rule pulled_more [OF p(4,3,5), of k "k + 1"]) (use less.prems(2) in \<open>simp_all add: pulled_def\<close>)
      moreover define b where "b \<longleftrightarrow> of_nat k \<noteq> (0 :: u32) \<and> rq_fs_weight (rq s c) + ucast (fd_weight (fsd s t)) > rq_fs_weight (rq s x) - ucast (fd_weight (fsd s t))"
      moreover have "balance_pull_loop c x i (Some ?node) (list_next ?node (sy_links s)) (of_nat k) s
          = (if b then Some (of_nat k, s) else if k + 1 = 16 then Some (of_nat (k + 1), s2)
             else balance_pull_loop c x i (Some ?tmp) (list_next ?tmp (sy_links s2)) (of_nat (k + 1)) s2)"
        using False p(1,2) nr_pulls_eq(1) [of "k + 1"] less.prems(2) tmp
        by (subst balance_pull_loop.simps) (simp add: list_end_def suc THREAD_MAX_MIGRATIONS_def b_def [symmetric] del: of_nat_Suc of_nat_add)
      ultimately show ?thesis using less.prems(2) by (auto split: if_splits)
    qed
  qed
qed

end
