(* ===== verification/Sched_Balance.thy ===== *)
theory Sched_Balance
  imports Sched_Pull
begin

text \<open>
  A balancing attempt returns and keeps the invariant: it pulls threads from another processor, or starts the next round
  of its own. The balancer then goes to sleep, with threads to run in the active queue or none at all.
\<close>

lemma pull_ok:
  assumes ok: "rest_ok C s q r A" and c: "c \<in> C" "x \<in> C" "x \<noteq> c" and k: "k < 16"
  shows "pulled C c r k s (thread_sched_fs_balance_pull c x i (of_nat k) s)"
  using pull_loop_ok [OF c ok k, of i "[]" "q_thr q x i"] links_fs(7) [OF runqs_okD(1) [OF rest_okD(1) [OF ok]] c(2)]
  by (simp add: thread_sched_fs_balance_pull_def)

lemma migrate_ok:
  assumes ok: "rest_ok C s q r A" and c: "c \<in> C" "x \<in> C" "x \<noteq> c"
  shows "pulled C c r 0 s (thread_sched_fs_balance_migrate c x highest s)"
proof (cases "thread_sched_fs_balance_eligible x highest s")
  case True
  have p: "pulled C c r 0 s (thread_sched_fs_balance_pull c x (rq_fs_active (rq s x)) 0 s)" using pull_ok [OF ok c, of 0] by simp
  show ?thesis
  proof (cases "thread_sched_fs_balance_pull c x (rq_fs_active (rq s x)) 0 s = Some (0, s)")
    case none: True
    have "pulled C c r 0 s (thread_sched_fs_balance_pull c x (rq_fs_expired (rq s x)) 0 s)" using pull_ok [OF ok c, of 0] by simp
    then show ?thesis using True none by (simp add: thread_sched_fs_balance_migrate_def THREAD_MAX_MIGRATIONS_def pulled_def)
  next
    case False
    then obtain k s1 q1 A1 where 1: "thread_sched_fs_balance_pull c x (rq_fs_active (rq s x)) 0 s = Some (of_nat k, s1)" "0 < k" "k \<le> 16" "rest_ok C s1 q1 r A1" "moved_in C s s1"
      "fq_nr_threads (fs_queue s1 c (rq_fs_active (rq s1 c))) \<noteq> 0" using p by (auto simp: pulled_def)
    have "pulled C c r k s1 (thread_sched_fs_balance_pull c x (rq_fs_expired (rq s1 x)) (of_nat k) s1)" if "k \<noteq> 16"
      using pull_ok [OF 1(4) c] 1(3) that by simp
    moreover have "pulled C c r k s1 (Some (of_nat k, s1))" by (simp add: pulled_def)
    ultimately have "pulled C c r k s1 (thread_sched_fs_balance_migrate c x highest s)"
      using True 1(1) nr_pulls_eq(1) [OF 1(3)] by (cases "k = 16") (simp_all add: thread_sched_fs_balance_migrate_def THREAD_MAX_MIGRATIONS_def)
    then show ?thesis using pulled_more [OF 1(5,4,6,2,3)] by blast
  qed
next
  case False
  then show ?thesis by (simp add: thread_sched_fs_balance_migrate_def pulled_def)
qed

lemma migrate_cases:
  assumes "rest_ok C s q r A" "c \<in> C" "x \<in> C" "x \<noteq> c"
  shows "\<exists>n s' q' A'. thread_sched_fs_balance_migrate c x highest s = Some (n, s') \<and> rest_ok C s' q' r A' \<and> moved_in C s s'
    \<and> (n \<noteq> 0 \<longrightarrow> fq_nr_threads (fs_queue s' c (rq_fs_active (rq s' c))) \<noteq> 0)"
  using migrate_ok [OF assms, of highest] assms(1) moved_in_refl unfolding pulled_def by fastforce

lemma fallback_ok:
  assumes c: "c \<in> C"
  shows "rest_ok C s q r A \<Longrightarrow> set xs \<subseteq> C \<Longrightarrow> \<exists>b s' q' A'. balance_fallback c highest xs s = Some (b, s') \<and> rest_ok C s' q' r A' \<and> moved_in C s s'
    \<and> (b \<longrightarrow> fq_nr_threads (fs_queue s' c (rq_fs_active (rq s' c))) \<noteq> 0)"
proof (induction xs arbitrary: s q A)
  case Nil
  then show ?case using moved_in_refl by fastforce
next
  case (Cons x xs)
  show ?case
  proof (cases "x = c")
    case True
    then show ?thesis using Cons by simp
  next
    case False
    obtain n s1 q1 A1 where 1: "thread_sched_fs_balance_migrate c x highest s = Some (n, s1)" "rest_ok C s1 q1 r A1" "moved_in C s s1"
      "n \<noteq> 0 \<longrightarrow> fq_nr_threads (fs_queue s1 c (rq_fs_active (rq s1 c))) \<noteq> 0" using migrate_cases [OF Cons.prems(1) c, of x highest] Cons.prems(2) False by auto
    show ?thesis
    proof (cases "n = 0")
      case True
      obtain b s' q' A' where "balance_fallback c highest xs s1 = Some (b, s')" "rest_ok C s' q' r A'" "moved_in C s1 s'"
        "b \<longrightarrow> fq_nr_threads (fs_queue s' c (rq_fs_active (rq s' c))) \<noteq> 0" using Cons.IH [OF 1(2)] Cons.prems(2) by auto
      then show ?thesis using True False 1(1) moved_in_trans [OF 1(3)] by auto
    qed (use False 1 in auto)
  qed
qed

lemma scan_from: "balance_scan c highest s remote xs = Some x \<Longrightarrow> remote = Some x \<or> x \<in> set xs \<and> x \<noteq> c"
  by (induction xs arbitrary: remote) (auto split: if_splits option.splits)

section \<open>The next round\<close>

lemma fsq_ok_round: "fsq_ok s q r c i rnd \<Longrightarrow> q_thr q c i = [] \<Longrightarrow> fsq_ok s q r c i rnd'"
  by (auto simp: fsq_ok_def)

lemma rest_ok_same:
  assumes ok: "rest_ok C s q r A" and c: "c \<in> C" and cur: "rq_balancer (rq s c) = Some (rq_current (rq s c))"
    and new: "fs_ok s' q (r c) c (A c)" "quiet s s'" "sy_links s' = sy_links s" "\<And>u. same_sched s s' u" "\<And>c'. c' \<noteq> c \<Longrightarrow> rq s' c' = rq s c'"
      "rq_rt_bitmap (rq s' c) = rq_rt_bitmap (rq s c)" "awake s' A c"
  shows "rest_ok C s' q r A"
proof -
  note o = rest_okD [OF ok]
  define b where "b = rq_current (rq s c)"
  have b: "cls s b = THREAD_SCHED_CLASS_RT" using o(2) c cur by (auto simp: sys_ok_def balancer_ok_def b_def)
  have "r c = Some b"
  proof (cases "r c")
    case None
    then have "rq_idler (rq s c) = Some b" using o(5) [OF c] by (simp add: cur_ok_def b_def)
    moreover obtain d where "rq_idler (rq s c) = Some d" "cls s d = THREAD_SCHED_CLASS_IDLE" using o(2) c by (auto simp: sys_ok_def)
    ultimately show ?thesis using b by (simp add: THREAD_SCHED_CLASS_RT_def THREAD_SCHED_CLASS_IDLE_def)
  qed (use o(5) [OF c] in \<open>simp add: cur_ok_def b_def\<close>)
  then have bA: "b \<in> A c" using runqs_okD(2) [OF o(1) c] by (simp add: runq_ok_def)
  have same: "cls s' u = cls s u" "pri s' u = pri s u" "fsd s' u = fsd s u" for u using new(4) by (auto simp: same_sched_def)
  have "rt_ok s' q (r c) c (A c)" by (rule rt_ok_cong [OF runqs_okD(3) [OF o(1) c]]) (use new(6) same in auto)
  then have rk: "runq_ok s' q (r c) c (A c)" using runqs_okD(2) [OF o(1) c] new(1) same by (auto simp: runq_ok_def)
  have rqs: "runqs_ok C s' q r A"
    by (rule runqs_ok_step [OF o(1) c, where t = b]) (use new runqs_okD(1,5) [OF o(1)] rk c bA same b in \<open>auto simp: same_runq_def same_lists_def THREAD_SCHED_CLASS_RT_def THREAD_SCHED_CLASS_FS_def\<close>)
  have aw: "awake s' A c'" if "c' \<in> C" for c'
    using new(5,7) o(4) [OF that] same(1) by (cases "c' = c") (auto simp: awake_def fs_queue_def)
  have "cur_ok s' r c'" if "c' \<in> C" for c' using o(5) [OF that] quietD [OF new(2)] by (simp add: cur_ok_def split: option.splits)
  then show ?thesis using rqs sys_ok_quiet [OF o(2) new(2)] o(3) same aw by (auto simp: rest_ok_def works_ok_def)
qed

lemma next_round_ok:
  assumes ok: "rest_ok C s q r A" and c: "c \<in> C" and cur: "rq_balancer (rq s c) = Some (rq_current (rq s c))"
    and empty: "fq_nr_threads (fs_queue s c (rq_fs_active (rq s c))) = 0"
  shows "\<exists>s'. thread_sched_fs_start_next_round c s = Some s' \<and> rest_ok C s' q r A \<and> quiet s s'
    \<and> (fq_nr_threads (fs_queue s' c (rq_fs_active (rq s' c))) \<noteq> 0 \<or> (\<forall>u\<in>A c. cls s' u \<noteq> THREAD_SCHED_CLASS_FS))"
proof -
  note o = rest_okD [OF ok]
  note l = runqs_okD(1) [OF o(1)] and f = runqs_okD(4) [OF o(1) c]
  define i where "i = rq_fs_active (rq s c)"
  have lim: "A c \<subseteq> {..<MAX_THREADS}" using runqs_okD(2) [OF o(1) c] by (simp add: runq_ok_def)
  have sub: "set (q_thr q c j) \<subseteq> {..<MAX_THREADS}" for j using fs_okD(4) [OF f] lim by blast
  have count: "fq_nr_threads (fs_queue s c j) = 0 \<longleftrightarrow> q_groups q c j = []" "q_groups q c j = [] \<longleftrightarrow> q_thr q c j = []" for j
    using fs_okD(11) [OF f, of j] fsq_count [OF _ sub] fsq_okD(5) by (metis image_is_empty set_empty)+
  have thr: "q_thr q c i = []" using empty count by (simp add: i_def)
  have rc: "r c \<noteq> Some t" if "cls s t = THREAD_SCHED_CLASS_FS" for t
  proof -
    have "cls s (rq_current (rq s c)) = THREAD_SCHED_CLASS_RT" using o(2) c cur by (auto simp: sys_ok_def balancer_ok_def)
    then show ?thesis using o(5) [OF c] that by (auto simp: cur_ok_def THREAD_SCHED_CLASS_RT_def THREAD_SCHED_CLASS_FS_def)
  qed
  have ex: "rq_fs_expired (rq s c) = (\<not> i)" using fs_okD(1) [OF f] by (simp add: i_def)
  have mem: "set (q_thr q c (\<not> i)) = {t \<in> A c. cls s t = THREAD_SCHED_CLASS_FS}"
    using f thr by (cases i) (auto simp: fs_ok_def)
  define s1 where "s1 = set_runq c ((rq s c)\<lparr>rq_fs_expired := i, rq_fs_active := \<not> i\<rparr>) s"
  have core: "fs_core s2 q (r c) c (A c)" if "s2 = set_runq c ((rq s c)\<lparr>rq_fs_expired := i, rq_fs_active := \<not> i, rq_fs_round := rnd\<rparr>) s \<or>
      s2 = (set_runq c ((rq s c)\<lparr>rq_fs_expired := i, rq_fs_active := \<not> i, rq_fs_round := rnd\<rparr>) s)\<lparr>sy_fs_highest_round := h\<rparr>"
    and "q_thr q c (\<not> i) = [] \<or> rnd = rq_fs_round (rq s c) + 1" for s2 rnd h
  proof -
    have e: "fs_queue s2 c = fs_queue s c" "th s2 = th s" "rq_fs_active (rq s2 c) = (\<not> i)" "rq_fs_expired (rq s2 c) = i" "rq_fs_round (rq s2 c) = rnd" "rq_fs_weight (rq s2 c) = rq_fs_weight (rq s c)"
      using that(1) by (auto simp: fs_queue_def fun_eq_iff)
    have tr: "fsq_ok s2 q (r c) c j rd" if "fsq_ok s q (r c) c j rd" for j rd by (rule fsq_ok_cong [OF _ _ _ _ _ that]) (simp_all add: e)
    have "fsq_ok s q (r c) c (\<not> i) rnd" using fs_okD(3) [OF f] that(2) fsq_ok_round by (auto simp: i_def)
    moreover have "fsq_ok s q (r c) c i (rnd + 1)" using fs_okD(2) [OF f] thr fsq_ok_round by (auto simp: i_def)
    ultimately show ?thesis using tr f rc by (auto simp: fs_core_def fs_ok_def e)
  qed
  have fq: "fs_queue (set_runq c ((rq s c)\<lparr>rq_fs_expired := j, rq_fs_active := k\<rparr>) s) c = fs_queue s c" for j k by (simp add: fs_queue_def fun_eq_iff)
  have tw: "set_runq c v (set_runq c w s) = set_runq c v s" for v w by (simp add: set_runq_def)
  show ?thesis
  proof (cases "q_thr q c (\<not> i) = []")
    case True
    have st: "thread_sched_fs_start_next_round c s = Some s1"
      using count(1) [of "\<not> i"] count(2) [of "\<not> i"] True ex by (simp add: thread_sched_fs_start_next_round_def s1_def i_def fq)
    have s1: "s1 = set_runq c ((rq s c)\<lparr>rq_fs_expired := i, rq_fs_active := \<not> i, rq_fs_round := rq_fs_round (rq s c)\<rparr>) s" by (simp add: s1_def)
    have none: "\<forall>u\<in>A c. cls s1 u \<noteq> THREAD_SCHED_CLASS_FS" using mem True by (auto simp: s1_def)
    have "fs_ok s1 q (r c) c (A c)"
      unfolding fs_ok_core using core [of s1 "rq_fs_round (rq s c)"] s1 True rc count(2) [of "\<not> i"] by (auto simp: s1_def)
    then have "rest_ok C s1 q r A"
      by (rule rest_ok_same [OF ok c cur]) (use none in \<open>auto simp: s1_def quiet_def same_sched_def awake_def\<close>)
    moreover have "quiet s s1" by (auto simp: s1_def quiet_def)
    ultimately show ?thesis using st none by blast
  next
    case False
    define s2 where "s2 = set_runq c ((rq s c)\<lparr>rq_fs_expired := i, rq_fs_active := \<not> i, rq_fs_round := rq_fs_round (rq s c) + 1\<rparr>) s"
    define s3 where "s3 = (if sint (rq_fs_round (rq s2 c) - sy_fs_highest_round s2) > 0 then s2\<lparr>sy_fs_highest_round := rq_fs_round (rq s2 c)\<rparr> else s2)"
    have st: "thread_sched_fs_start_next_round c s = thread_sched_fs_restart c s3"
      using count(1) [of "\<not> i"] count(2) [of "\<not> i"] False ex by (simp add: thread_sched_fs_start_next_round_def s3_def s2_def i_def Let_def fq tw)
    have co: "fs_core s3 q (r c) c (A c)" by (rule core [of s3 "rq_fs_round (rq s c) + 1" "rq_fs_round (rq s2 c)"]) (auto simp: s3_def s2_def)
    have e: "sy_links s3 = sy_links s" "rq_fs_active (rq s3 c) = (\<not> i)" "quiet s s3" "\<And>u. same_sched s s3 u" "\<And>c'. c' \<noteq> c \<Longrightarrow> rq s3 c' = rq s c'"
      "rq_rt_bitmap (rq s3 c) = rq_rt_bitmap (rq s c)" "fs_queue s3 c = fs_queue s c"
      by (auto simp: s3_def s2_def quiet_def same_sched_def fs_queue_def fun_eq_iff)
    have ne: "q_groups q c (rq_fs_active (rq s3 c)) \<noteq> []" using False count(2) e(2) by simp
    obtain s' where s': "thread_sched_fs_restart c s3 = Some s'" "fs_ok s' q (r c) c (A c)" "quiet s3 s'" "sy_links s' = sy_links s3" "\<forall>u. same_sched s3 s' u"
      "\<forall>c'. c' \<noteq> c \<longrightarrow> rq s' c' = rq s3 c'" "rq_fs_active (rq s' c) = rq_fs_active (rq s3 c)" "rq_rt_bitmap (rq s' c) = rq_rt_bitmap (rq s3 c)"
      "fq_nr_threads (fs_queue s' c (rq_fs_active (rq s3 c))) = fq_nr_threads (fs_queue s3 c (rq_fs_active (rq s3 c)))"
      using fs_restart_ok [OF _ c co ne] l e(1) by auto
    have nz: "fq_nr_threads (fs_queue s' c (rq_fs_active (rq s' c))) \<noteq> 0" using s'(7,9) e(2,7) count [of "\<not> i"] False by simp
    have qu: "quiet s s'" using quiet_trans [OF e(3) s'(3)] .
    have "rest_ok C s' q r A"
      by (rule rest_ok_same [OF ok c cur s'(2) qu]) (use s' e nz in \<open>auto simp: same_sched_def awake_def\<close>)
    then show ?thesis using st s'(1) qu nz by auto
  qed
qed

lemma next_round_maps: "thread_sched_fs_start_next_round c s = Some s' \<Longrightarrow> same_maps s s'"
  by (auto simp: thread_sched_fs_start_next_round_def Let_def same_maps_def dest!: fs_restart_maps split: if_splits)

section \<open>A balancing attempt\<close>

definition same_special :: "sched \<Rightarrow> sched \<Rightarrow> bool" where
  "same_special s s' \<longleftrightarrow> (\<forall>c. rq_current (rq s' c) = rq_current (rq s c) \<and> rq_balancer (rq s' c) = rq_balancer (rq s c) \<and> rq_idler (rq s' c) = rq_idler (rq s c)
     \<and> rq_idle_balance_ticks (rq s' c) = rq_idle_balance_ticks (rq s c)) \<and> (\<forall>t. cls s' t = cls s t)"

lemma special_trans: "same_special s s1 \<Longrightarrow> same_special s1 s2 \<Longrightarrow> same_special s s2"
  by (simp add: same_special_def)

lemma special_moved: "moved s s' \<Longrightarrow> same_special s s'"
  using moved_view by (simp add: same_special_def)

lemma special_quiet: "quiet s s' \<Longrightarrow> same_special s s'"
  using quietD by (simp add: same_special_def)

definition fs_ready :: "sched \<Rightarrow> nat \<Rightarrow> nat set \<Rightarrow> bool" where
  "fs_ready s c M \<longleftrightarrow> fq_nr_threads (fs_queue s c (rq_fs_active (rq s c))) \<noteq> 0 \<or> (\<forall>u\<in>M. cls s u \<noteq> THREAD_SCHED_CLASS_FS)"

definition balanced :: "nat set \<Rightarrow> nat \<Rightarrow> (nat \<Rightarrow> nat option) \<Rightarrow> sched \<Rightarrow> sched option \<Rightarrow> bool" where
  "balanced C c r s res \<longleftrightarrow> (\<exists>s' q' A'. res = Some s' \<and> rest_ok C s' q' r A' \<and> same_special s s' \<and> runq_map_ok C s' \<and> fs_ready s' c (A' c))"

lemma no_migration_ok:
  assumes ok: "rest_ok C s q r A" and c: "c \<in> C" and map: "runq_map_ok C s" and cur: "rq_balancer (rq s c) = Some (rq_current (rq s c))"
  shows "balanced C c r s (balance_no_migration c s)"
proof (cases "fq_nr_threads (fs_queue s c (rq_fs_active (rq s c))) = 0")
  case True
  obtain s' where s': "thread_sched_fs_start_next_round c s = Some s'" "rest_ok C s' q r A" "quiet s s'" "fs_ready s' c (A c)"
    using next_round_ok [OF ok c cur True] unfolding fs_ready_def by blast
  have "runq_map_ok C s'" using map next_round_maps [OF s'(1)] by (simp add: runq_map_ok_def same_maps_def)
  then show ?thesis using s' special_quiet [OF s'(3)] True unfolding balanced_def balance_no_migration_def by auto
next
  case False
  then show ?thesis using ok map unfolding balanced_def balance_no_migration_def by (auto simp: fs_ready_def same_special_def)
qed

lemma balanced_from:
  assumes "moved_in C s s1" "balanced C c r s1 res"
  shows "balanced C c r s res"
  using assms special_trans [OF special_moved] unfolding balanced_def moved_in_def by blast

lemma balanced_done:
  assumes "moved_in C s s1" "rest_ok C s1 q r A" "runq_map_ok C s" "fq_nr_threads (fs_queue s1 c (rq_fs_active (rq s1 c))) \<noteq> 0"
  shows "balanced C c r s (Some s1)"
  using assms special_moved unfolding balanced_def moved_in_def fs_ready_def by blast

lemma balance_ok:
  assumes ok: "rest_ok C s q r A" and c: "c \<in> C" and map: "runq_map_ok C s" and cur: "rq_balancer (rq s c) = Some (rq_current (rq s c))"
  shows "balanced C c r s (thread_sched_fs_balance c s)"
proof (cases "rq_fs_round (rq s c) \<noteq> sy_fs_highest_round s \<and> fq_nr_threads (fs_queue s c (rq_fs_expired (rq s c))) \<noteq> 0")
  case True
  then show ?thesis using no_migration_ok [OF assms] by (simp add: thread_sched_fs_balance_def)
next
  case False
  let ?h = "sy_fs_highest_round s"
  let ?first = "case thread_sched_fs_balance_scan c ?h s of None \<Rightarrow> Some (False, s)
    | Some x \<Rightarrow> do { (nr_migrations, s) \<leftarrow> thread_sched_fs_balance_migrate c x ?h s; Some (nr_migrations \<noteq> 0, s) }"
  have act: "set (active_cpus s) = C" if "runq_map_ok C s" for s using that by (auto simp: active_cpus_def runq_map_ok_def)
  obtain b s1 q1 A1 where 1: "?first = Some (b, s1)" "rest_ok C s1 q1 r A1" "moved_in C s s1" "b \<longrightarrow> fq_nr_threads (fs_queue s1 c (rq_fs_active (rq s1 c))) \<noteq> 0"
  proof (cases "thread_sched_fs_balance_scan c ?h s")
    case None
    then show ?thesis using that [of False s q A] ok by simp
  next
    case (Some x)
    then have x: "x \<in> C" "x \<noteq> c" using scan_from act [OF map] by (force simp: thread_sched_fs_balance_scan_def)+
    obtain n s' q' A' where "thread_sched_fs_balance_migrate c x ?h s = Some (n, s')" "rest_ok C s' q' r A'" "moved_in C s s'"
      "n \<noteq> 0 \<longrightarrow> fq_nr_threads (fs_queue s' c (rq_fs_active (rq s' c))) \<noteq> 0" using migrate_cases [OF ok c x, of ?h] by (elim exE conjE)
    then show ?thesis using that [of "n \<noteq> 0" s' q' A'] Some by simp
  qed
  have map1: "runq_map_ok C s1" using 1(3) map by (simp add: moved_in_def)
  have cur1: "rq_balancer (rq s1 c) = Some (rq_current (rq s1 c))" using special_moved [of s s1] 1(3) cur by (simp add: moved_in_def same_special_def)
  show ?thesis
  proof (cases b)
    case True
    then have "thread_sched_fs_balance c s = Some s1" unfolding thread_sched_fs_balance_def Let_def if_not_P [OF False] 1(1) using True by simp
    then show ?thesis using balanced_done [OF 1(3,2) map] 1(4) True by simp
  next
    case nb: False
    obtain b' s2 q2 A2 where 2: "balance_fallback c ?h (active_cpus s1) s1 = Some (b', s2)" "rest_ok C s2 q2 r A2" "moved_in C s1 s2"
      "b' \<longrightarrow> fq_nr_threads (fs_queue s2 c (rq_fs_active (rq s2 c))) \<noteq> 0" using fallback_ok [OF c 1(2), of "active_cpus s1" ?h] act [OF map1] by auto
    have e: "thread_sched_fs_balance c s = (if b' then Some s2 else balance_no_migration c s2)"
      unfolding thread_sched_fs_balance_def Let_def if_not_P [OF False] 1(1) using nb 2(1) by simp
    have cur2: "rq_balancer (rq s2 c) = Some (rq_current (rq s2 c))" "runq_map_ok C s2"
      using special_moved [of s1 s2] 2(3) cur1 map1 by (simp_all add: moved_in_def same_special_def)
    show ?thesis
    proof (cases b')
      case True
      then show ?thesis using e balanced_done [OF 2(3,2) map1] 2(4) balanced_from [OF 1(3)] by simp
    next
      case False
      then show ?thesis using e no_migration_ok [OF 2(2) c cur2(2,1)] balanced_from [OF 1(3)] balanced_from [OF 2(3)] by simp
    qed
  qed
qed

section \<open>The balancer\<close>

lemma rest_ticks:
  assumes ok: "rest_ok C s q r A" and n: "n \<noteq> 0"
  shows "rest_ok C (set_runq c ((rq s c)\<lparr>rq_idle_balance_ticks := n\<rparr>) s) q r A"
proof -
  let ?s = "set_runq c ((rq s c)\<lparr>rq_idle_balance_ticks := n\<rparr>) s"
  note o = rest_okD [OF ok]
  have e: "rq_nr_threads (rq ?s c') = rq_nr_threads (rq s c')" "rq_balancer (rq ?s c') = rq_balancer (rq s c')" "rq_idler (rq ?s c') = rq_idler (rq s c')" for c' by simp_all
  have "runqs_ok C ?s q r A" by (rule runqs_ok_view [OF o(1)]) (auto simp: same_runq_def same_sched_def)
  moreover have "sys_ok C ?s A {} (\<lambda>_. 0)" using o(2) unfolding sys_ok_def member_ok_def balancer_ok_def e select_runq(1) .
  moreover have "fs_queue ?s = fs_queue s" by (auto simp: fs_queue_def fun_eq_iff)
  moreover have "works_ok ?s {}" using o(3) by (simp add: works_ok_def)
  moreover have "awake ?s A c'" if "c' \<in> C" for c' using o(4) [OF that] calculation(3) by (cases "c' = c") (simp_all add: awake_def)
  moreover have "cur_ok ?s r c'" if "c' \<in> C" for c' using o(5) [OF that] n by (cases "c' = c") (simp_all add: cur_ok_def split: option.splits)
  ultimately show ?thesis unfolding rest_ok_def by blast
qed

lemma balance_sleep_ok:
  assumes ok: "rest_ok C s q r A" and c: "c \<in> C" and cur: "rq_balancer (rq s c) = Some (rq_current (rq s c))" and w: "w \<noteq> 0" and ready: "fs_ready s c (A c)"
  shows "\<exists>s'. thread_balance_sleep c w s = Some s' \<and> sched_inv C s' \<and> best_thread s' c (rq_current (rq s' c))
    \<and> \<not> (th_in_runq (th s' (rq_current (rq s c))) \<and> th_runq (th s' (rq_current (rq s c))) = Some c)"
proof -
  let ?t = "rq_current (rq s c)"
  define s0 where "s0 = set_runq c ((rq s c)\<lparr>rq_idle_balance_ticks := THREAD_IDLE_BALANCE_TICKS\<rparr>) s"
  define s1 where "s1 = set_thread ?t ((th s0 ?t)\<lparr>th_wchan_addr := w, th_state := THREAD_SLEEPING\<rparr>) s0"
  have nz: "THREAD_IDLE_BALANCE_TICKS \<noteq> 0" by (simp add: THREAD_IDLE_BALANCE_TICKS_def CLOCK_FREQ_def)
  have ok0: "rest_ok C s0 q r A" unfolding s0_def by (rule rest_ticks [OF ok nz])
  have e: "rq_current (rq s0 c) = ?t" "rq_balancer (rq s0 c) = Some ?t" "rq_idle_balance_ticks (rq s0 c) \<noteq> 0" "rq_idler (rq s0 c) = rq_idler (rq s c)"
    "fs_queue s0 = fs_queue s" "rq_fs_active (rq s0 c) = rq_fs_active (rq s c)" "th s0 = th s"
    using cur nz by (auto simp: s0_def fs_queue_def fun_eq_iff)
  have "rq_idler (rq s c) \<noteq> Some ?t"
    using rest_okD(2) [OF ok] c cur by (fastforce simp: sys_ok_def balancer_ok_def THREAD_SCHED_CLASS_RT_def THREAD_SCHED_CLASS_IDLE_def)
  moreover have "thread_balance_sleep c w s = thread_runq_schedule c s1"
    using w cur by (simp add: thread_balance_sleep_def thread_set_wchan_def set_state_def s1_def s0_def Let_def set_thread_def)
  ultimately show ?thesis
    using leave_ok [OF ok0 c, where w = w and st = THREAD_SLEEPING and ?s1.0 = s1] ready e by (simp add: s1_def fs_ready_def)
qed

end
