(* ===== verification/Sched_System.thy ===== *)
theory Sched_System
  imports Sched_Balance
begin

text \<open>
  The system as a whole: changing parameters and balancing keep the maps of processors, a balancing attempt returns
  and its balancer goes to sleep, and the invariant gives the accounts of every run queue.
\<close>

unbundle bit_operations_syntax

section \<open>The maps of processors\<close>

lemma dequeue_maps: "sched_dequeue c t s = Some (b, b', s') \<Longrightarrow> idle_frame c s s'"
  by (auto simp: sched_dequeue_def bind_eq_Some_conv dest!: maps intro: idle_trans split: if_splits)

lemma requeue_maps: "sched_requeue c t b b' s = Some s' \<Longrightarrow> idle_frame c s s'"
  by (auto simp: sched_requeue_def bind_eq_Some_conv dest!: maps intro: idle_trans split: if_splits)

lemma reset_priority_maps: "class_reset_priority k t p s = Some s' \<Longrightarrow> idle_frame c s s'"
  by (auto simp: class_reset_priority_def thread_sched_rt_reset_priority_def thread_sched_fs_reset_priority_def bind_eq_Some_conv Let_def split: if_splits)

lemma update_priority_maps: "class_update_priority k t p s = Some s' \<Longrightarrow> idle_frame c s s'"
  by (auto simp: class_update_priority_def thread_sched_fs_update_priority_def bind_eq_Some_conv Let_def split: if_splits)

lemma user_priority_maps: "thread_set_user_priority t p s = Some s' \<Longrightarrow> idle_frame c s s'"
  by (auto simp: thread_set_user_priority_def bind_eq_Some_conv)

lemma real_priority_maps:
  "thread_reset_real_priority t s = Some s' \<Longrightarrow> idle_frame c s s'"
  "thread_update_real_priority t p s = Some s' \<Longrightarrow> idle_frame c s s'"
  "set_real_parameters t policy p s = Some s' \<Longrightarrow> idle_frame c s s'"
  by (auto simp: thread_reset_real_priority_def thread_update_real_priority_def set_real_parameters_def thread_set_real_priority_def
    thread_set_real_sched_policy_def thread_set_real_sched_class_def bind_eq_Some_conv Let_def
    dest!: reset_priority_maps [of _ _ _ _ _ c] update_priority_maps [of _ _ _ _ _ c] intro: idle_trans split: if_splits)

lemmas param_maps = dequeue_maps requeue_maps user_priority_maps real_priority_maps

text \<open>Every way through an operation composes frames.\<close>

definition frames :: "nat \<Rightarrow> sched \<Rightarrow> sched option \<Rightarrow> bool" where
  "frames c s m \<longleftrightarrow> (\<forall>s'. m = Some s' \<longrightarrow> idle_frame c s s')"

lemma frames_steps:
  "frames c s m \<Longrightarrow> (\<And>s1. frames c s1 (f s1)) \<Longrightarrow> frames c s (m \<bind> f)"
  "(\<And>s'. m = Some s' \<Longrightarrow> idle_frame c s s') \<Longrightarrow> frames c s m"
  "(b \<Longrightarrow> frames c s m) \<Longrightarrow> (\<not> b \<Longrightarrow> frames c s m') \<Longrightarrow> frames c s (if b then m else m')"
  "frames c s (Some s)"
  by (auto simp: frames_def bind_eq_Some_conv intro: idle_trans)

lemma real_frames:
  "frames c s (thread_reset_real_priority t s)" "frames c s (thread_update_real_priority t p s)" "frames c s (set_real_parameters t policy p s)"
  "frames c s (Some (set_thread t v s))"
  by (simp_all add: frames_def real_priority_maps)

lemma change_maps:
  assumes "\<And>s1. frames c s1 (change s1)"
  shows "frames c s (do { (b, b', s) \<leftarrow> sched_dequeue c t s; s \<leftarrow> change s; sched_requeue c t b b' s })"
  using assms by (fastforce simp: frames_def bind_eq_Some_conv dest!: dequeue_maps requeue_maps intro: idle_trans)

lemma setscheduler_maps:
  assumes "thread_setscheduler t policy p s = Some s'" "th_runq (th s t) = Some c"
  shows "idle_frame c s s'"
proof -
  let ?user = "\<lambda>s. (if thread_user_sched_policy (th s t) = policy then do {
            s \<leftarrow> thread_update_user_priority t p s;
            Some (True, s) }
          else do {
            let s = thread_set_user_sched_policy t policy s;
            k \<leftarrow> thread_policy_to_class policy;
            s \<leftarrow> thread_set_user_priority t p (thread_set_user_sched_class t k s);
            Some (False, s) })"
  let ?real = "\<lambda>update s. (if th_boosted (th s t) then
           (if thread_user_global_priority (th s t) \<ge> thread_real_global_priority (th s t)
            then thread_reset_real_priority t s else Some s)
         else if update then thread_update_real_priority t p s
         else set_real_parameters t policy p s)"
  have u: "idle_frame c s1 s2" if "?user s1 = Some (b, s2)" for s1 b s2
    using that by (auto simp: bind_eq_Some_conv thread_update_user_priority_def thread_set_user_sched_policy_def thread_set_user_sched_class_def Let_def
      dest!: user_priority_maps [where c = c] split: if_splits)
  have "frames c s1 (?real b s1)" for b s1
    by (intro frames_steps(3,4) real_frames)
  then have "frames c s1 (do { (b, s) \<leftarrow> ?user s1; ?real b s })" for s1
    using u unfolding frames_def by (fastforce simp: bind_eq_Some_conv intro: idle_trans simp del: idle_select)
  then have "frames c s (do { (b, b', s) \<leftarrow> sched_dequeue c t s; s \<leftarrow> (do { (b, s) \<leftarrow> ?user s; ?real b s }); sched_requeue c t b b' s })"
    by (rule change_maps)
  then have f: "m = Some s' \<Longrightarrow> idle_frame c s s'" if "m = (do { (b, b', s) \<leftarrow> sched_dequeue c t s; s \<leftarrow> (do { (b, s) \<leftarrow> ?user s; ?real b s }); sched_requeue c t b b' s })" for m
    using that by (simp add: frames_def)
  show ?thesis
  proof (cases "thread_user_sched_policy (th s t) = policy \<and> thread_user_priority (th s t) = p")
    case True
    then show ?thesis using assms by (simp add: thread_setscheduler_def)
  next
    case False
    show ?thesis
      by (rule f [OF _ assms(1)]) (use assms(2) False in \<open>simp add: thread_setscheduler_def split_def bind_assoc, blast?\<close>)
  qed
qed

lemma pi_setscheduler_maps:
  assumes "thread_pi_setscheduler t policy p s = Some s'" "th_runq (th s t) = Some c"
  shows "idle_frame c s s'"
proof -
  let ?g = "\<lambda>g s. (if g \<le> thread_user_global_priority (th s t) then thread_reset_real_priority t s
         else do {
           s \<leftarrow> (if thread_real_sched_policy (th s t) = policy then thread_update_real_priority t p s
             else set_real_parameters t policy p s);
           Some (set_thread t ((th s t)\<lparr>th_boosted := True\<rparr>) s) })"
  have "frames c s1 (?g g s1)" for g s1
    by (intro frames_steps(1,3) real_frames)
  then have f: "frames c s (do { (b, b', s) \<leftarrow> sched_dequeue c t s; s \<leftarrow> ?g g s; sched_requeue c t b b' s })" for g
    by (rule change_maps)
  have s': "m = Some s' \<Longrightarrow> idle_frame c s s'" if "m = (do { (b, b', s) \<leftarrow> sched_dequeue c t s; s \<leftarrow> ?g g s; sched_requeue c t b b' s })" for m g
    using f [of g] that by (simp add: frames_def)
  obtain k g where k: "thread_policy_to_class policy = Some k" "class_global_priority k p = Some g"
    using assms by (auto simp: thread_pi_setscheduler_def bind_eq_Some_conv)
  show ?thesis
  proof (cases "thread_real_sched_policy (th s t) = policy \<and> thread_real_priority (th s t) = p")
    case True
    then show ?thesis using assms k by (simp add: thread_pi_setscheduler_def)
  next
    case False
    show ?thesis by (rule s' [OF _ assms(1), of g]) (use assms(2) False k in \<open>simp add: thread_pi_setscheduler_def, blast?\<close>)
  qed
qed

section \<open>The balancer\<close>

lemma balance_sleep_maps: "thread_balance_sleep c w s = Some s' \<Longrightarrow> idle_frame c s s'"
  by (auto simp: thread_balance_sleep_def thread_set_wchan_def bind_eq_Some_conv Let_def dest!: runq_schedule_maps split: if_splits)

lemma balance_returns_ok:
  assumes "system_ok C s" "c \<in> C" "rq_balancer (rq s c) = Some (rq_current (rq s c))" "w \<noteq> 0"
  shows "\<exists>s1 s'. thread_sched_fs_balance c s = Some s1 \<and> thread_balance_sleep c w s1 = Some s' \<and> system_ok C s1 \<and> system_ok C s'
    \<and> (fq_nr_threads (fs_queue s1 c (rq_fs_active (rq s1 c))) = 0 \<longrightarrow> (\<forall>u. th_in_runq (th s1 u) \<and> th_runq (th s1 u) = Some c \<longrightarrow> cls s1 u \<noteq> THREAD_SCHED_CLASS_FS))
    \<and> best_thread s' c (rq_current (rq s' c)) \<and> \<not> (th_in_runq (th s' (rq_current (rq s c))) \<and> th_runq (th s' (rq_current (rq s c))) = Some c)"
proof -
  obtain q r A where ok: "rest_ok C s q r A" using assms(1) by (auto simp: system_ok_def sched_inv_def)
  have map: "runq_map_ok C s" using assms(1) by (simp add: system_ok_def)
  obtain s1 q1 A1 where 1: "thread_sched_fs_balance c s = Some s1" "rest_ok C s1 q1 r A1" "same_special s s1" "runq_map_ok C s1" "fs_ready s1 c (A1 c)"
    using balance_ok [OF ok assms(2) map assms(3)] unfolding balanced_def by blast
  have cur: "rq_current (rq s1 c) = rq_current (rq s c)" "rq_balancer (rq s1 c) = Some (rq_current (rq s1 c))"
    using 1(3) assms(3) by (simp_all add: same_special_def)
  obtain s' where s': "thread_balance_sleep c w s1 = Some s'" "sched_inv C s'" "best_thread s' c (rq_current (rq s' c))"
    "\<not> (th_in_runq (th s' (rq_current (rq s1 c))) \<and> th_runq (th s' (rq_current (rq s1 c))) = Some c)"
    using balance_sleep_ok [OF 1(2) assms(2) cur(2) assms(4) 1(5)] by blast
  have "system_ok C s1" using 1(2,4) by (auto simp: system_ok_def sched_inv_def)
  moreover have "system_ok C s'" by (rule system_step [OF calculation s'(2) balance_sleep_maps [OF s'(1)] assms(2)])
  moreover have "cls s1 u \<noteq> THREAD_SCHED_CLASS_FS" if "fq_nr_threads (fs_queue s1 c (rq_fs_active (rq s1 c))) = 0" "th_in_runq (th s1 u)" "th_runq (th s1 u) = Some c" for u
    using 1(5) that rest_members [OF 1(2) assms(2)] by (auto simp: fs_ready_def)
  ultimately show ?thesis using 1(1) s' cur(1) by auto
qed


section \<open>The accounts of a run queue\<close>

text \<open>The bookkeeping of a run queue, in terms of the threads that are in it.\<close>

definition runq_wf :: "sched \<Rightarrow> nat \<Rightarrow> bool" where
  "runq_wf s c \<longleftrightarrow> (let M = {t. th_in_runq (th s t) \<and> th_runq (th s t) = Some c} in
     finite M \<and> unat (rq_nr_threads (rq s c)) = card M
     \<and> (\<forall>t\<in>M. th_state (th s t) = THREAD_RUNNING \<and> t < MAX_THREADS
         \<and> (cls s t = THREAD_SCHED_CLASS_RT \<and> pri s t \<le> THREAD_SCHED_RT_PRIO_MAX \<or> cls s t = THREAD_SCHED_CLASS_FS \<and> pri s t \<le> THREAD_SCHED_FS_PRIO_MAX))
     \<and> (\<forall>p\<le>THREAD_SCHED_RT_PRIO_MAX. bit (rq_rt_bitmap (rq s c)) p \<longleftrightarrow> (\<exists>t\<in>M. cls s t = THREAD_SCHED_CLASS_RT \<and> pri s t = p \<and> t \<noteq> rq_current (rq s c)))
     \<and> unat (rq_fs_weight (rq s c)) = (\<Sum>t | t \<in> M \<and> cls s t = THREAD_SCHED_CLASS_FS. unat (thread_sched_fs_prio2weight (pri s t)))
     \<and> (rq_current (rq s c) \<in> M \<or> rq_idler (rq s c) = Some (rq_current (rq s c))))"

lemma fs_total_weight:
  assumes ok: "runqs_ok C s q r A" and c: "c \<in> C"
  shows "unat (rq_fs_weight (rq s c)) = (\<Sum>t | t \<in> A c \<and> cls s t = THREAD_SCHED_CLASS_FS. unat (thread_sched_fs_prio2weight (pri s t)))"
    "t \<in> A c \<Longrightarrow> cls s t = THREAD_SCHED_CLASS_FS \<Longrightarrow> pri s t \<le> THREAD_SCHED_FS_PRIO_MAX"
proof -
  note f = runqs_okD(4) [OF ok c, unfolded fs_ok_def]
  have i: "\<exists>rnd. fsq_ok s q (r c) c i rnd" for i using f by (cases "i = rq_fs_active (rq s c)") auto
  have ent: "fs_entity s t" "fd_fs_runq (fsd s t) = Some (c, i)" if "t \<in> set (q_thr q c i)" for t i
    using i [of i] that fsq_okD(1,2) by blast+
  have "set (q_thr q c True) \<inter> set (q_thr q c False) = {}"
  proof -
    have False if "t \<in> set (q_thr q c True)" "t \<in> set (q_thr q c False)" for t using ent(2) [OF that(1)] ent(2) [OF that(2)] by simp
    then show ?thesis by blast
  qed
  moreover have "unat (fq_weight (fs_queue s c i)) = fs_weights s (set (q_thr q c i))" for i using i [of i] fsq_okD(7) by (force simp: fs_acct_def)
  moreover have "unat (rq_fs_weight (rq s c)) = unat (fq_weight (fs_queue s c True)) + unat (fq_weight (fs_queue s c False))" using f by blast
  ultimately have "unat (rq_fs_weight (rq s c)) = fs_weights s (set (q_thr q c True) \<union> set (q_thr q c False))"
    by (simp only: fs_weights_def sum.union_disjoint [OF finite_set finite_set])
  also have "\<dots> = (\<Sum>t\<in>set (q_thr q c True) \<union> set (q_thr q c False). unat (thread_sched_fs_prio2weight (pri s t)))"
    unfolding fs_weights_def by (rule sum.cong) (use ent(1) in \<open>auto simp: fs_entity_def\<close>)
  finally show "unat (rq_fs_weight (rq s c)) = (\<Sum>t | t \<in> A c \<and> cls s t = THREAD_SCHED_CLASS_FS. unat (thread_sched_fs_prio2weight (pri s t)))"
    using f by metis
  show "pri s t \<le> THREAD_SCHED_FS_PRIO_MAX" if "t \<in> A c" "cls s t = THREAD_SCHED_CLASS_FS"
  proof -
    have "t \<in> set (q_thr q c True) \<union> set (q_thr q c False)" using f that by blast
    then show ?thesis using ent(1) by (auto simp: fs_entity_def)
  qed
qed

lemma system_wf:
  assumes "system_ok C s" "c \<in> C"
  shows "runq_wf s c"
proof -
  obtain q r A where ok: "rest_ok C s q r A" using assms(1) by (auto simp: system_ok_def sched_inv_def)
  note o = rest_okD [OF ok]
  note ro = runqs_okD(2) [OF o(1) assms(2), unfolded runq_ok_def]
  note rt = runqs_okD(3) [OF o(1) assms(2), unfolded rt_ok_def]
  note A = rest_members [OF ok assms(2)]
  have fin: "finite (A c)" by (rule runqs_okD(6) [OF o(1) assms(2)])
  have "card (A c) \<le> MAX_THREADS" using ro card_mono [of "{..<MAX_THREADS}" "A c"] by auto
  then have nr: "unat (rq_nr_threads (rq s c)) = card (A c)" using o(2) assms(2) by (simp add: sys_ok_def unat_of_nat MAX_THREADS_def)
  have cur: "rq_current (rq s c) \<in> A c \<and> r c = Some (rq_current (rq s c)) \<or> r c = None \<and> rq_idler (rq s c) = Some (rq_current (rq s c))"
    using o(5) [OF assms(2)] ro by (cases "r c") (auto simp: cur_ok_def)
  have idler: "rq_idler (rq s c) = Some d \<Longrightarrow> cls s d = THREAD_SCHED_CLASS_IDLE" for d using o(2) assms(2) by (auto simp: sys_ok_def)
  have run: "th_state (th s t) = THREAD_RUNNING \<and> t < MAX_THREADS
      \<and> (cls s t = THREAD_SCHED_CLASS_RT \<and> pri s t \<le> THREAD_SCHED_RT_PRIO_MAX \<or> cls s t = THREAD_SCHED_CLASS_FS \<and> pri s t \<le> THREAD_SCHED_FS_PRIO_MAX)" if "t \<in> A c" for t
    using that ro rt o(2) fs_total_weight(2) [OF o(1) assms(2)] A by (auto simp: sys_ok_def member_ok_def)
  have bm: "bit (rq_rt_bitmap (rq s c)) p \<longleftrightarrow> (\<exists>t\<in>A c. cls s t = THREAD_SCHED_CLASS_RT \<and> pri s t = p \<and> t \<noteq> rq_current (rq s c))"
    if p: "p \<le> THREAD_SCHED_RT_PRIO_MAX" for p
  proof -
    have "bit (rq_rt_bitmap (rq s c)) p \<longleftrightarrow> (\<exists>t. t \<in> set (q_rt q c p))" using rt p by (metis ex_in_conv set_empty)
    also have "\<dots> \<longleftrightarrow> (\<exists>t\<in>A c. cls s t = THREAD_SCHED_CLASS_RT \<and> pri s t = p \<and> r c \<noteq> Some t)" using rt p by blast
    also have "\<dots> \<longleftrightarrow> (\<exists>t\<in>A c. cls s t = THREAD_SCHED_CLASS_RT \<and> pri s t = p \<and> t \<noteq> rq_current (rq s c))"
      using cur idler by (fastforce simp: classes)
    finally show ?thesis .
  qed
  show ?thesis unfolding runq_wf_def Let_def A [symmetric]
    using fin nr run bm fs_total_weight(1) [OF o(1) assms(2)] cur by blast
qed

end
