(* ===== verification/Sched_Reach.thy ===== *)
theory Sched_Reach
  imports Sched_System
begin

text \<open>
  Sequences of operations. \<open>sched_op\<close> lists what the processors and the threads ask of the scheduler, \<open>do_op\<close> does it, and
  \<open>op_allowed\<close> says when the callers may ask for it. A state is reachable when it comes from booting by operations that are
  allowed.
\<close>

section \<open>Operations\<close>

text \<open>
  One step per critical section. The periodic event is a step of its own (\<open>Tick\<close>), or comes with the call to the
  scheduler on the way out of the interrupt (\<open>Tick_schedule\<close>); the call a thread makes when it enables preemption again, at the
  end of its operations too, is \<open>Schedule\<close>. \<open>Balance_sleep\<close> is the first round of a balancer, \<open>Balance\<close> each of the next ones.
\<close>

datatype sched_op =
    Yield nat
  | Schedule nat
  | Preempt_disable nat
  | Preempt_enable nat
  | Pin nat
  | Unpin nat
  | Sleep nat u64
  | Exit nat
  | Tick nat
  | Tick_schedule nat
  | Balance_sleep nat u64
  | Balance nat u64
  | Wakeup_begin nat "nat option"
  | Wakeup_end nat "errno option"
  | Create nat thread_mem thread_attr
  | Set_scheduler nat nat nat
  | Pi_set_scheduler nat nat nat

fun do_op :: "nat \<Rightarrow> sched_op \<Rightarrow> sched \<Rightarrow> sched option" where
  "do_op n (Yield c) s = thread_yield c s"
| "do_op n (Schedule c) s = thread_schedule c s"
| "do_op n (Preempt_disable c) s = thread_preempt_disable c s"
| "do_op n (Preempt_enable c) s = thread_preempt_enable c s"
| "do_op n (Pin c) s = thread_pin c s"
| "do_op n (Unpin c) s = thread_unpin c s"
| "do_op n (Sleep c w) s = thread_sleep_common c w s"
| "do_op n (Exit c) s = thread_exit c s"
| "do_op n (Tick c) s = thread_report_periodic_event c s"
| "do_op n (Tick_schedule c) s = do { s \<leftarrow> thread_report_periodic_event c s; thread_schedule c s }"
| "do_op n (Balance_sleep c w) s = thread_balance_sleep c w s"
| "do_op n (Balance c w) s = thread_balance c w s"
| "do_op n (Wakeup_begin self thread) s = map_option snd (wakeup_begin self thread s)"
| "do_op n (Wakeup_end t error) s = wakeup_end t error s"
| "do_op n (Create self mem attr) s = map_option snd (thread_create self n mem attr s)"
| "do_op n (Set_scheduler t policy priority) s = thread_setscheduler t policy priority s"
| "do_op n (Pi_set_scheduler t policy priority) s = thread_pi_setscheduler t policy priority s"

text \<open>Parameters that go together, and those of a class whose threads enter run queues.\<close>

definition params_valid :: "nat \<Rightarrow> nat \<Rightarrow> bool" where
  "params_valid policy priority \<longleftrightarrow> (case thread_policy_to_class policy of None \<Rightarrow> False | Some k \<Rightarrow> class_priority k priority)"

definition params_runnable :: "nat \<Rightarrow> bool" where
  "params_runnable policy \<longleftrightarrow> policy \<noteq> THREAD_SCHED_POLICY_IDLE"

text \<open>A processor's own threads are left alone, and a thread that may run somewhere names a managed processor.\<close>

definition ordinary :: "nat \<Rightarrow> sched \<Rightarrow> nat \<Rightarrow> bool" where
  "ordinary n s t \<longleftrightarrow> (\<forall>c<n. rq_balancer (rq s c) \<noteq> Some t \<and> rq_idler (rq s c) \<noteq> Some t)"

definition managed :: "nat \<Rightarrow> cpumap \<Rightarrow> bool" where
  "managed n m \<longleftrightarrow> (\<exists>c<n. m c)"

text \<open>The memory a new thread is built in belongs to no thread of the system.\<close>

definition fresh_memory :: "nat \<Rightarrow> nat \<Rightarrow> thread_mem \<Rightarrow> sched \<Rightarrow> bool" where
  "fresh_memory n self mem s \<longleftrightarrow> (case tm_thread mem of None \<Rightarrow> True
     | Some t \<Rightarrow> tm_addr mem \<noteq> 0 \<and> \<not> th_in_runq (th s t) \<and> ordinary n s t \<and> t \<noteq> self \<and> t < MAX_THREADS)"

fun op_allowed :: "nat \<Rightarrow> sched_op \<Rightarrow> sched \<Rightarrow> bool" where
  "op_allowed n (Yield c) s \<longleftrightarrow> c < n"
| "op_allowed n (Schedule c) s \<longleftrightarrow> c < n"
| "op_allowed n (Preempt_disable c) s \<longleftrightarrow> c < n \<and> th_preempt_level (th s (rq_current (rq s c))) + 1 \<noteq> 0"
| "op_allowed n (Preempt_enable c) s \<longleftrightarrow> c < n \<and> th_preempt_level (th s (rq_current (rq s c))) \<noteq> 0"
| "op_allowed n (Pin c) s \<longleftrightarrow> c < n \<and> th_pin_level (th s (rq_current (rq s c))) + 1 \<noteq> 0"
| "op_allowed n (Unpin c) s \<longleftrightarrow> c < n \<and> th_pin_level (th s (rq_current (rq s c))) \<noteq> 0"
| "op_allowed n (Sleep c w) s \<longleftrightarrow> c < n \<and> thread_preempt_enabled c s \<and> ordinary n s (rq_current (rq s c)) \<and> w \<noteq> 0"
| "op_allowed n (Exit c) s \<longleftrightarrow> c < n \<and> thread_preempt_enabled c s \<and> ordinary n s (rq_current (rq s c))"
| "op_allowed n (Tick c) s \<longleftrightarrow> c < n \<and> tick_within c s"
| "op_allowed n (Tick_schedule c) s \<longleftrightarrow> c < n \<and> (tick_within c s \<or> thread_preempt_enabled c s)"
| "op_allowed n (Balance_sleep c w) s \<longleftrightarrow> c < n \<and> thread_preempt_enabled c s \<and> rq_balancer (rq s c) = Some (rq_current (rq s c)) \<and> w \<noteq> 0
     \<and> fs_ready s c {u. th_in_runq (th s u) \<and> th_runq (th s u) = Some c}"
| "op_allowed n (Balance c w) s \<longleftrightarrow> c < n \<and> thread_preempt_enabled c s \<and> rq_balancer (rq s c) = Some (rq_current (rq s c)) \<and> w \<noteq> 0"
| "op_allowed n (Wakeup_begin self thread) s \<longleftrightarrow> (case thread of None \<Rightarrow> True
     | Some t \<Rightarrow> t = self \<or> (if th_state (th s t) = THREAD_RUNNING then th_runq (th s t) \<noteq> None else ordinary n s t))"
| "op_allowed n (Wakeup_end t error) s \<longleftrightarrow> th_state (th s t) = THREAD_RUNNING \<and> \<not> th_in_runq (th s t) \<and> t < MAX_THREADS \<and> runq_class s t \<and> ordinary n s t
     \<and> (if th_pin_level (th s t) = 0 then managed n (th_cpumap (th s t)) else \<exists>c<n. th_runq (th s t) = Some c)"
| "op_allowed n (Create self mem attr) s \<longleftrightarrow> fresh_memory n self mem s
     \<and> params_valid (at_policy attr) (at_priority attr) \<and> params_runnable (at_policy attr)
     \<and> (case at_cpumap attr of None \<Rightarrow> managed n (th_cpumap (th s self)) | Some m \<Rightarrow> managed n m \<or> cpumap_check n m \<noteq> None)"
| "op_allowed n (Set_scheduler t policy priority) s \<longleftrightarrow> settable {..<n} s t \<and> params_valid policy priority \<and> (params_runnable policy \<or> \<not> th_in_runq (th s t))"
| "op_allowed n (Pi_set_scheduler t policy priority) s \<longleftrightarrow> settable {..<n} s t \<and> params_valid policy priority
     \<and> (params_runnable policy \<and> params_runnable (thread_user_sched_policy (th s t)) \<or> \<not> th_in_runq (th s t))"

section \<open>Allowed operations return\<close>

lemma params_data:
  assumes "params_valid policy priority"
  shows "\<exists>d. data_ok d \<and> sd_policy d = policy \<and> sd_priority d = priority \<and> (params_runnable policy \<longrightarrow> sd_class d \<noteq> THREAD_SCHED_CLASS_IDLE)"
proof -
  obtain k where k: "thread_policy_to_class policy = Some k" "class_priority k priority" using assms by (auto simp: params_valid_def split: option.splits)
  obtain g where "class_global_priority k priority = Some g" using class_global class_priority_le [OF k(2)] by blast
  then have "data_ok \<lparr>sd_policy = policy, sd_class = k, sd_priority = priority, sd_global_priority = g\<rparr>" using k by (simp add: data_ok_def)
  moreover have "params_runnable policy \<Longrightarrow> k \<noteq> THREAD_SCHED_CLASS_IDLE" using k(1) by (auto simp: params_runnable_def policy_to_class classes split: if_splits)
  ultimately show ?thesis by (intro exI [of _ "\<lparr>sd_policy = policy, sd_class = k, sd_priority = priority, sd_global_priority = g\<rparr>"]) auto
qed

lemma user_runnable: "params_ok v \<Longrightarrow> params_runnable (sd_policy (th_user v)) \<Longrightarrow> sd_class (th_user v) \<noteq> THREAD_SCHED_CLASS_IDLE"
  by (auto simp: params_ok_def data_ok_def params_runnable_def policy_to_class classes split: if_splits)

lemma set_scheduler_system:
  assumes "system_ok C s" "settable C s t" "data_ok d" "sd_policy d = policy" "sd_priority d = priority"
    and "sd_class d = THREAD_SCHED_CLASS_IDLE \<longrightarrow> \<not> th_in_runq (th s t)"
  shows "\<exists>s'. thread_setscheduler t policy priority s = Some s' \<and> system_ok C s' \<and> params_ok (th s' t) \<and> th_user (th s' t) = d
    \<and> (let keep = th_boosted (th s t) \<and> sd_global_priority d < sd_global_priority (th_real (th s t)) in
         th_real (th s' t) = (if keep then th_real (th s t) else d) \<and> th_boosted (th s' t) = keep)
    \<and> th_in_runq (th s' t) = th_in_runq (th s t) \<and> (th_in_runq (th s t) \<longrightarrow> th_runq (th s' t) = th_runq (th s t))"
proof -
  obtain c where "c \<in> C" "th_runq (th s t) = Some c" using assms(2) by (auto simp: settable_def)
  then show ?thesis using setscheduler_ok [OF _ assms(2-6)] system_step [OF assms(1) _ setscheduler_maps] assms(1) unfolding system_ok_def by blast
qed

lemma pi_set_scheduler_system:
  assumes "system_ok C s" "settable C s t" "data_ok d" "sd_policy d = policy" "sd_priority d = priority"
    and "sd_class (th_user (th s t)) = THREAD_SCHED_CLASS_IDLE \<or> sd_class d = THREAD_SCHED_CLASS_IDLE \<longrightarrow> \<not> th_in_runq (th s t)"
  shows "\<exists>s'. thread_pi_setscheduler t policy priority s = Some s' \<and> system_ok C s' \<and> params_ok (th s' t) \<and> th_user (th s' t) = th_user (th s t)
    \<and> th_real (th s' t) = (if sd_global_priority d \<le> sd_global_priority (th_user (th s t)) then th_user (th s t) else d)
    \<and> th_in_runq (th s' t) = th_in_runq (th s t)"
proof -
  obtain c where "c \<in> C" "th_runq (th s t) = Some c" using assms(2) by (auto simp: settable_def)
  then show ?thesis using pi_setscheduler_ok [OF _ assms(2-6)] system_step [OF assms(1) _ pi_setscheduler_maps] assms(1) unfolding system_ok_def by blast
qed

lemma managed_places: "managed n m \<Longrightarrow> map_places {..<n} k m"
  by (force simp: managed_def map_places_def)

lemma wakeup_begin_system:
  assumes "system_ok {..<n} s" "op_allowed n (Wakeup_begin self thread) s"
  shows "\<exists>s'. do_op n (Wakeup_begin self thread) s = Some s' \<and> system_ok {..<n} s'"
proof (cases "\<exists>t. thread = Some t \<and> t \<noteq> self \<and> th_state (th s t) \<noteq> THREAD_RUNNING")
  case True
  then obtain t where t: "thread = Some t" "t \<noteq> self" "th_state (th s t) \<noteq> THREAD_RUNNING" by blast
  obtain q r A where ok: "rest_ok {..<n} s q r A" using assms(1) by (auto simp: system_ok_def sched_inv_def)
  have "\<forall>c\<in>{..<n}. rq_balancer (rq s c) \<noteq> Some t" using assms(2) t by (auto simp: ordinary_def)
  from wakeup_begin_ok [OF ok t(2,3) this] show ?thesis using assms(1) t(1) by (auto simp: system_ok_def sched_inv_def runq_map_ok_def)
next
  case False
  then have "wakeup_begin self thread s = Some (Some EINVAL, s)" using assms(2) by (auto simp: wakeup_begin_def split: option.splits)
  then show ?thesis using assms(1) by simp
qed

lemma wakeup_end_system:
  assumes "system_ok {..<n} s" "op_allowed n (Wakeup_end t error) s"
  shows "\<exists>s'. do_op n (Wakeup_end t error) s = Some s' \<and> system_ok {..<n} s'"
proof -
  obtain q r A where ok: "rest_ok {..<n} s q r A" using assms(1) by (auto simp: system_ok_def sched_inv_def)
  have map: "runq_map_ok {..<n} s" using assms(1) by (simp add: system_ok_def)
  have g: "th_state (th s t) = THREAD_RUNNING" "\<not> th_in_runq (th s t)" "t < MAX_THREADS" "runq_class s t" "\<forall>c\<in>{..<n}. rq_balancer (rq s c) \<noteq> Some t"
    using assms(2) by (auto simp: ordinary_def)
  have place: "placeable {..<n} s t" using assms(2) managed_places by (auto simp: placeable_def)
  obtain s' where s': "wakeup_end t error s = Some s'" "sched_inv {..<n} s'"
    using wakeup_end_ok [OF ok map g place, of error] by (elim exE conjE)
  have "system_ok {..<n} s'" using s'(2) map wakeup_end_maps [OF s'(1)] by (auto simp: system_ok_def runq_map_ok_def)
  then show ?thesis using s'(1) by simp
qed

lemma create_system:
  assumes "system_ok {..<n} s" "op_allowed n (Create self mem attr) s"
  shows "\<exists>s'. do_op n (Create self mem attr) s = Some s' \<and> system_ok {..<n} s'"
proof -
  obtain d where d: "data_ok d" "sd_policy d = at_policy attr" "sd_priority d = at_priority attr" "sd_class d \<noteq> THREAD_SCHED_CLASS_IDLE"
    using params_data [of "at_policy attr" "at_priority attr"] assms(2) by auto
  have place: "(\<exists>m. at_cpumap attr = Some m \<and> cpumap_check n m \<noteq> None)
      \<or> map_places {..<n} (sd_class d) (case at_cpumap attr of Some m \<Rightarrow> m | None \<Rightarrow> th_cpumap (th s self))"
    using assms(2) managed_places by (cases "at_cpumap attr") auto
  have "tm_addr mem \<noteq> 0 \<and> \<not> th_in_runq (th s t) \<and> (\<forall>c\<in>{..<n}. rq_balancer (rq s c) \<noteq> Some t \<and> rq_idler (rq s c) \<noteq> Some t) \<and> t \<noteq> self \<and> t < MAX_THREADS"
    if "tm_thread mem = Some t" for t using assms(2) that by (simp add: fresh_memory_def ordinary_def)
  from create_any [OF assms(1) this d place] show ?thesis by auto
qed

text \<open>The levels of preemption and migration are no concern of the run queues.\<close>

lemma level_system:
  assumes "system_ok C s" "sd_class (th_real v) = cls s t" "sd_priority (th_real v) = pri s t" "th_fs v = fsd s t"
    "th_state v = th_state (th s t)" "th_in_runq v = th_in_runq (th s t)" "th_runq v = th_runq (th s t)"
  shows "system_ok C (set_thread t v s)"
proof -
  obtain q r A where ok: "rest_ok C s q r A" using assms(1) by (auto simp: system_ok_def sched_inv_def)
  have "rest_ok C (set_thread t v s) q r A"
    by (rule rest_view [OF ok]) (use assms(2-7) in \<open>auto simp: same_sched_def thread_real_sched_class_def thread_real_priority_def\<close>)
  then show ?thesis using assms(1) by (auto simp: system_ok_def sched_inv_def runq_map_ok_def)
qed

lemma schedule_system:
  assumes "system_ok C s" "c \<in> C"
  shows "\<exists>s'. thread_schedule c s = Some s' \<and> system_ok C s'"
  using schedule_rest [of C s c] assms system_step [OF assms(1) _ schedule_maps assms(2)] by (auto simp: system_ok_def)

lemma yield_system:
  assumes "system_ok C s" "c \<in> C"
  shows "\<exists>s'. thread_yield c s = Some s' \<and> system_ok C s'"
  using yield_ok [of C s c] assms system_step [OF assms(1) _ yield_maps assms(2)] by (auto simp: system_ok_def)

lemma control_system:
  assumes "system_ok C s" "c \<in> C"
  defines "t \<equiv> th s (rq_current (rq s c))"
  shows "th_preempt_level t + 1 \<noteq> 0 \<Longrightarrow> \<exists>s'. thread_preempt_disable c s = Some s' \<and> system_ok C s'"
    "th_preempt_level t \<noteq> 0 \<Longrightarrow> \<exists>s'. thread_preempt_enable c s = Some s' \<and> system_ok C s'"
    "th_pin_level t + 1 \<noteq> 0 \<Longrightarrow> \<exists>s'. thread_pin c s = Some s' \<and> system_ok C s'"
    "th_pin_level t \<noteq> 0 \<Longrightarrow> \<exists>s'. thread_unpin c s = Some s' \<and> system_ok C s'"
proof -
  have l: "system_ok C (set_thread (rq_current (rq s c)) (t\<lparr>th_preempt_level := x\<rparr>) s)" "system_ok C (set_thread (rq_current (rq s c)) (t\<lparr>th_pin_level := x\<rparr>) s)" for x
    by (rule level_system [OF assms(1)]; simp add: t_def thread_real_sched_class_def thread_real_priority_def)+
  show "th_preempt_level t + 1 \<noteq> 0 \<Longrightarrow> \<exists>s'. thread_preempt_disable c s = Some s' \<and> system_ok C s'"
    "th_pin_level t + 1 \<noteq> 0 \<Longrightarrow> \<exists>s'. thread_pin c s = Some s' \<and> system_ok C s'"
    "th_pin_level t \<noteq> 0 \<Longrightarrow> \<exists>s'. thread_unpin c s = Some s' \<and> system_ok C s'"
    using l by (simp_all add: thread_preempt_disable_def thread_pin_def thread_unpin_def flip: t_def)
  show "\<exists>s'. thread_preempt_enable c s = Some s' \<and> system_ok C s'" if "th_preempt_level t \<noteq> 0"
    using schedule_system [OF l(1) assms(2)] that
    by (simp add: thread_preempt_enable_def thread_preempt_enable_no_resched_def flip: t_def)
qed

lemma op_ok:
  assumes ok: "system_ok {..<n} s" and op: "op_allowed n op s"
  shows "\<exists>s'. do_op n op s = Some s' \<and> system_ok {..<n} s'"
proof -
  obtain q r A where r: "rest_ok {..<n} s q r A" using ok by (auto simp: system_ok_def sched_inv_def)
  note step = system_step [OF ok]
  show ?thesis
  proof (cases op)
    case (Yield c)
    then show ?thesis using yield_system [OF ok, of c] op by simp
  next
    case (Schedule c)
    then show ?thesis using schedule_system [OF ok, of c] op by simp
  next
    case (Preempt_disable c)
    then show ?thesis using control_system(1) [OF ok, of c] op by simp
  next
    case (Preempt_enable c)
    then show ?thesis using control_system(2) [OF ok, of c] op by simp
  next
    case (Pin c)
    then show ?thesis using control_system(3) [OF ok, of c] op by simp
  next
    case (Unpin c)
    then show ?thesis using control_system(4) [OF ok, of c] op by simp
  next
    case (Sleep c w)
    then show ?thesis using sleep_ok [OF r, of c w] op step [OF _ step_maps(1), of _ c w] by (auto simp: ordinary_def)
  next
    case (Exit c)
    then show ?thesis using exit_ok [OF r, of c] op step [OF _ step_maps(2), of _ c] by (auto simp: ordinary_def)
  next
    case (Tick c)
    then show ?thesis using tick_ok [OF r, of c] op step [OF _ periodic_maps, of _ c] by auto
  next
    case (Tick_schedule c)
    then show ?thesis using tick_ok [OF r, of c] op step [OF _ idle_trans [OF periodic_maps schedule_maps], of _ c] by fastforce
  next
    case (Balance_sleep c w)
    have "fs_ready s c (A c)" using op Balance_sleep rest_members [OF r, of c] by simp
    then show ?thesis using balance_sleep_ok [OF r, of c w] op Balance_sleep step [OF _ balance_sleep_maps, of _ c w] by auto
  next
    case (Balance c w)
    then show ?thesis using balance_returns_ok [OF ok, of c w] op by (auto simp: thread_balance_def)
  next
    case (Wakeup_begin self thread)
    then show ?thesis using wakeup_begin_system ok op by blast
  next
    case (Wakeup_end t error)
    then show ?thesis using wakeup_end_system ok op by blast
  next
    case (Create self mem attr)
    then show ?thesis using create_system ok op by blast
  next
    case (Set_scheduler t policy priority)
    obtain d where "data_ok d" "sd_policy d = policy" "sd_priority d = priority" "params_runnable policy \<longrightarrow> sd_class d \<noteq> THREAD_SCHED_CLASS_IDLE"
      using params_data [of policy priority] op Set_scheduler by auto
    then show ?thesis using set_scheduler_system [OF ok, of t d policy priority] op Set_scheduler by auto
  next
    case (Pi_set_scheduler t policy priority)
    obtain d where d: "data_ok d" "sd_policy d = policy" "sd_priority d = priority" "params_runnable policy \<longrightarrow> sd_class d \<noteq> THREAD_SCHED_CLASS_IDLE"
      using params_data [of policy priority] op Pi_set_scheduler by auto
    have "params_ok (th s t)" using op Pi_set_scheduler by (simp add: settable_def)
    then show ?thesis using pi_set_scheduler_system [OF ok _ d(1-3), of t] d(4) op Pi_set_scheduler user_runnable by (auto simp: thread_user_sched_policy_def)
  qed
qed

section \<open>Reachable states\<close>

inductive reachable :: "nat \<Rightarrow> sched \<Rightarrow> bool" for n where
  boot: "boot_args n booters balancers idlers bm im \<Longrightarrow> no_threads s \<Longrightarrow> thread_boot n booters bm im s = Some s' \<Longrightarrow> reachable n s'"
| step: "reachable n s \<Longrightarrow> op_allowed n op s \<Longrightarrow> do_op n op s = Some s' \<Longrightarrow> reachable n s'"

lemma reachable_ok: "reachable n s \<Longrightarrow> system_ok {..<n} s"
proof (induction rule: reachable.induct)
  case (boot booters balancers idlers bm im s s')
  then show ?case using boot_ok [OF boot(1,2)] by auto
next
  case (step s op s')
  then show ?case using op_ok [OF step.IH step.hyps(2)] by auto
qed

end
