(* ===== verification/Sched_Example.thy ===== *)
theory Sched_Example
  imports Sched_Create
begin

text \<open>
  A concrete system: two processors are booted, a real-time thread is created on the first one and runs.
  The witnesses of the properties are taken from it.
\<close>

section \<open>A booted system\<close>

definition thread0 :: thread where
  "thread0 = \<lparr>th_flags = 0, th_runq = None, th_in_runq = False, th_wchan_addr = 0, th_wakeup_error = None, th_state = THREAD_RUNNING,
     th_preempt_level = 0, th_pin_level = 0, th_cpumap = (\<lambda>_. False), th_user = \<lparr>sd_policy = 0, sd_class = 0, sd_priority = 0, sd_global_priority = 0\<rparr>,
     th_real = \<lparr>sd_policy = 0, sd_class = 0, sd_priority = 0, sd_global_priority = 0\<rparr>, th_boosted = False, th_rt_time_slice = 0,
     th_fs = \<lparr>fd_fs_runq = None, fd_round = 0, fd_weight = 0, fd_work = 0\<rparr>\<rparr>"

definition runq0 :: thread_runq where
  "runq0 = \<lparr>rq_nr_threads = 0, rq_current = 0, rq_rt_bitmap = 0, rq_fs_round = 0, rq_fs_weight = 0,
     rq_fs_runqs = (\<lambda>_. \<lparr>fq_group_array = (\<lambda>_. \<lparr>fg_weight = 0, fg_work = 0\<rparr>), fq_current = 0, fq_nr_threads = 0, fq_weight = 0, fq_work = 0\<rparr>),
     rq_fs_active = False, rq_fs_expired = False, rq_balancer = None, rq_idler = None, rq_idle_balance_ticks = 0\<rparr>"

text \<open>The static data before anything has run.\<close>

definition sched0 :: sched where
  "sched0 = \<lparr>sy_links = (\<lambda>_. \<lparr>ln_prev = None, ln_next = None\<rparr>), sy_threads = (\<lambda>_. thread0), sy_runqs = (\<lambda>_. runq0), sy_fs_highest_round = 0,
     sy_idle_runqs = (\<lambda>_. False), sy_active_runqs = (\<lambda>_. False)\<rparr>"

definition mem0 :: "nat \<Rightarrow> thread_mem" where
  "mem0 t = \<lparr>tm_thread = Some t, tm_addr = 1, tm_stack = True, tm_sleepq = True, tm_turnstile = True, tm_tcb_error = None\<rparr>"

lemma mem0_ok: "mem_ok (mem0 t) t" by (simp add: mem_ok_def mem0_def)

lemma no_threads0: "no_threads sched0"
  by (simp add: no_threads_def sched0_def thread0_def thread_real_sched_class_def classes)

text \<open>Two processors: the booters 0 and 1, the balancers 100 and 101, the idlers 200 and 201.\<close>

lemma boot_args0: "boot_args 2 (\<lambda>c. c) (\<lambda>c. c + 100) (\<lambda>c. c + 200) (\<lambda>c. mem0 (c + 100)) (\<lambda>c. mem0 (c + 200))"
  by (simp add: boot_args_def mem0_ok CONFIG_MAX_CPUS_def MAX_THREADS_def numeral_2_eq_2)

definition booted :: sched where
  "booted = the (thread_boot 2 (\<lambda>c. c) (\<lambda>c. mem0 (c + 100)) (\<lambda>c. mem0 (c + 200)) sched0)"

lemma booted_ok: "thread_boot 2 (\<lambda>c. c) (\<lambda>c. mem0 (c + 100)) (\<lambda>c. mem0 (c + 200)) sched0 = Some booted" "system_ok {..<2} booted"
  "c < 2 \<Longrightarrow> rq_current (rq booted c) = c + 100" "c < 2 \<Longrightarrow> rq_balancer (rq booted c) = Some (c + 100)" "c < 2 \<Longrightarrow> rq_idler (rq booted c) = Some (c + 200)"
  "c < 2 \<Longrightarrow> cls booted (c + 100) = THREAD_SCHED_CLASS_RT" "c < 2 \<Longrightarrow> pri booted (c + 100) = 0"
  "c < 2 \<Longrightarrow> {t. th_in_runq (th booted t) \<and> th_runq (th booted t) = Some c} = {c + 100}"
proof -
  obtain s' where s': "thread_boot 2 (\<lambda>c. c) (\<lambda>c. mem0 (c + 100)) (\<lambda>c. mem0 (c + 200)) sched0 = Some s'" "system_ok {..<2} s'"
    "\<forall>c<2. rq_current (rq s' c) = c + 100 \<and> rq_balancer (rq s' c) = Some (c + 100) \<and> rq_idler (rq s' c) = Some (c + 200) \<and> cls s' (c + 100) = THREAD_SCHED_CLASS_RT \<and> pri s' (c + 100) = 0
      \<and> {t. th_in_runq (th s' t) \<and> th_runq (th s' t) = Some c} = {c + 100}"
    using boot_ok [OF boot_args0 no_threads0] by blast
  then have b: "booted = s'" by (simp add: booted_def)
  show "thread_boot 2 (\<lambda>c. c) (\<lambda>c. mem0 (c + 100)) (\<lambda>c. mem0 (c + 200)) sched0 = Some booted" "system_ok {..<2} booted"
    "c < 2 \<Longrightarrow> rq_current (rq booted c) = c + 100" "c < 2 \<Longrightarrow> rq_balancer (rq booted c) = Some (c + 100)" "c < 2 \<Longrightarrow> rq_idler (rq booted c) = Some (c + 200)"
    "c < 2 \<Longrightarrow> cls booted (c + 100) = THREAD_SCHED_CLASS_RT" "c < 2 \<Longrightarrow> pri booted (c + 100) = 0"
    "c < 2 \<Longrightarrow> {t. th_in_runq (th booted t) \<and> th_runq (th booted t) = Some c} = {c + 100}"
    unfolding b using s' by blast+
qed

text \<open>A real-time thread of a higher priority than the balancer is created, and chosen.\<close>

definition attr0 :: thread_attr where
  "attr0 = \<lparr>at_flags = 0, at_cpumap = Some ((\<lambda>_. False)(0 := True)), at_policy = THREAD_SCHED_POLICY_FIFO, at_priority = 5\<rparr>"

definition data0 :: thread_sched_data where
  "data0 = \<lparr>sd_policy = THREAD_SCHED_POLICY_FIFO, sd_class = THREAD_SCHED_CLASS_RT, sd_priority = 5, sd_global_priority = 7\<rparr>"

lemma data0_ok: "data_ok data0"
  by (simp add: data_ok_def data0_def policy_to_class class_priority_def class_global_priority_def thread_sched_rt_get_global_priority_def
    THREAD_SCHED_RT_PRIO_MAX_def THREAD_SCHED_GLOBAL_PRIO_RT_def)

definition created :: sched where "created = snd (the (thread_create 100 2 (mem0 7) attr0 booted))"
definition running :: sched where "running = the (thread_runq_schedule 0 created)"

lemma less_2: "c < (2::nat) \<longleftrightarrow> c = 0 \<or> c = 1" by auto

lemma booted_waiting: "\<not> th_in_runq (th booted 7)" "\<forall>c\<in>{..<2}. rq_balancer (rq booted c) \<noteq> Some 7 \<and> rq_idler (rq booted c) \<noteq> Some 7"
proof -
  obtain q r A where ok: "rest_ok {..<2} booted q r A" using booted_ok(2) by (auto simp: system_ok_def sched_inv_def)
  show "\<not> th_in_runq (th booted 7)"
  proof
    assume i: "th_in_runq (th booted 7)"
    then obtain c where "c < 2" "th_runq (th booted 7) = Some c" using ok by (auto simp: rest_ok_def sys_ok_def member_ok_def)
    then have "7 \<in> {t. th_in_runq (th booted t) \<and> th_runq (th booted t) = Some c}" using i by simp
    then show False unfolding booted_ok(8) [OF \<open>c < 2\<close>] by simp
  qed
  show "\<forall>c\<in>{..<2}. rq_balancer (rq booted c) \<noteq> Some 7 \<and> rq_idler (rq booted c) \<noteq> Some 7"
    using booted_ok(4,5) by simp
qed

lemma only_0: "(\<forall>c<CONFIG_MAX_CPUS. ((\<lambda>_. False)(0 := True)) c \<longrightarrow> c \<in> {..<(2::nat)})" "\<exists>c\<in>{..<(2::nat)}. ((\<lambda>_. False)(0 := True)) c" "cpumap_check 2 ((\<lambda>_. False)(0 := True)) = None"
  using cpumap_check_one [of 0 2] by auto

lemma created_ok:
  "thread_create 100 2 (mem0 7) attr0 booted = Some (None, created)" "system_ok {..<2} created"
  "th_in_runq (th created 7)" "th_runq (th created 7) = Some 0" "params_ok (th created 7)" "th_user (th created 7) = data0" "th_real (th created 7) = data0"
  "rq_balancer (rq created 0) = Some 100" "rq_balancer (rq created 1) = Some 101" "rq_idler (rq created 0) = Some 200" "rq_idler (rq created 1) = Some 201"
  "par (th created 100) = par (th booted 100)" "keeps {7} {7} booted created"
  and created_place: "th_cpumap (th created 7) = (\<lambda>_. False)(0 := True)" "th_pin_level (th created 7) = 0" "th_preempt_level (th created 7) = 0"
proof -
  have k: "sd_policy data0 = at_policy attr0" "sd_priority data0 = at_priority attr0" "sd_class data0 \<noteq> THREAD_SCHED_CLASS_IDLE" "at_cpumap attr0 = Some ((\<lambda>_. False)(0 := True))"
    "(7::nat) \<noteq> 100" "7 < MAX_THREADS" by (simp_all add: data0_def attr0_def classes MAX_THREADS_def)
  obtain s' c where s': "thread_create 100 2 (mem0 7) attr0 booted = Some (None, s')" "system_ok {..<2} s'" "((\<lambda>_. False)(0 := True)) c"
    "th_in_runq (th s' 7)" "th_runq (th s' 7) = Some c" "params_ok (th s' 7)" "th_user (th s' 7) = data0" "th_real (th s' 7) = data0"
    "\<forall>u. u \<noteq> 7 \<longrightarrow> par (th s' u) = par (th booted u)" "\<forall>c. special (rq s' c) = special (rq booted c)" "keeps {7} {7} booted s'"
    "th_cpumap (th s' 7) = (\<lambda>_. False)(0 := True)" "th_pin_level (th s' 7) = 0" "th_preempt_level (th s' 7) = 0"
  proof -
    have m: "(\<lambda>_. False)(0 := True) = (case at_cpumap attr0 of Some m \<Rightarrow> m | None \<Rightarrow> th_cpumap (th booted 100))"
      "\<forall>m. at_cpumap attr0 = Some m \<longrightarrow> cpumap_check 2 m = None" "map_places {..<2} (sd_class data0) ((\<lambda>_. False)(0 := True))"
      using k(4) only_0(3) by (simp_all add: map_places_def)
    from create_ok [OF booted_ok(2) mem0_ok booted_waiting k(5,6) data0_ok k(1-3) m] show thesis by (elim exE conjE) (rule that)
  qed
  have c: "created = s'" "c = 0" using s'(1,3) by (auto simp: created_def split: if_splits)
  then show "thread_create 100 2 (mem0 7) attr0 booted = Some (None, created)" "system_ok {..<2} created"
    "th_in_runq (th created 7)" "th_runq (th created 7) = Some 0" "params_ok (th created 7)" "th_user (th created 7) = data0" "th_real (th created 7) = data0"
    "par (th created 100) = par (th booted 100)" "keeps {7} {7} booted created"
    "th_cpumap (th created 7) = (\<lambda>_. False)(0 := True)" "th_pin_level (th created 7) = 0" "th_preempt_level (th created 7) = 0"
    using s' by simp_all
  have "rq_balancer (rq created c) = rq_balancer (rq booted c)" "rq_idler (rq created c) = rq_idler (rq booted c)" for c
    using s'(10) c(1) by (simp_all add: special_def)
  then show "rq_balancer (rq created 0) = Some 100" "rq_balancer (rq created 1) = Some 101" "rq_idler (rq created 0) = Some 200" "rq_idler (rq created 1) = Some 201"
    using booted_ok(4,5) [of 0] booted_ok(4,5) [of 1] by simp_all
qed

lemma running_ok:
  "thread_runq_schedule 0 created = Some running" "system_ok {..<2} running" "rq_current (rq running 0) = 7"
  "rq_balancer (rq running 0) = Some 100" "rq_idler (rq running 0) = Some 200" "same_params created running"
  "th_in_runq (th running 7)" "th_runq (th running 7) = Some 0"
proof -
  have inv: "sched_inv {..<2} created" using created_ok(2) by (simp add: system_ok_def)
  obtain s' where s': "thread_runq_schedule 0 created = Some s'" "sched_inv {..<2} s'" "best_thread s' 0 (rq_current (rq s' 0))"
    using call_ok [OF inv, of 0] by auto
  have r: "running = s'" using s'(1) by (simp add: running_def)
  show y: "thread_runq_schedule 0 created = Some running" using s'(1) r by simp
  show "system_ok {..<2} running" using system_step [OF created_ok(2) s'(2) runq_schedule_maps [OF s'(1)]] r by simp
  show p: "same_params created running" using runq_schedule_params [OF y] .
  show bal: "rq_balancer (rq running 0) = Some 100" and "rq_idler (rq running 0) = Some 200"
    using params_special(1,2) [OF p] created_ok(8,10) by simp_all
  have cur: "th_state (th created (rq_current (rq created 0))) = THREAD_RUNNING"
  proof -
    obtain q r A where "rest_ok {..<2} created q r A" using inv by (auto simp: sched_inv_def)
    from current_running(1) [OF this, of 0] show ?thesis by simp
  qed
  have k: "keeps {} {b. rq_balancer (rq created 0) = Some b} created running" by (rule stay_keeps [OF y cur])
  then have "entry (th running 7) = entry (th created 7)" using created_ok(3) unfolding keeps_def by blast
  then show in7: "th_in_runq (th running 7)" "th_runq (th running 7) = Some 0" using created_ok(3,4) by (simp_all add: entry_def)
  define u where "u = rq_current (rq running 0)"
  have c7: "cls running 7 = THREAD_SCHED_CLASS_RT" "pri running 7 = 5"
    using params_special(3,4) [OF p, of 7] created_ok(7) by (simp_all add: thread_real_sched_class_def thread_real_priority_def data0_def)
  have "best_thread running 0 u" using s'(3) r by (simp add: u_def)
  then have m: "th_in_runq (th running u)" "th_runq (th running u) = Some 0" "cls running u < cls running 7 \<or> cls running u = cls running 7 \<and> (cls running u = THREAD_SCHED_CLASS_RT \<longrightarrow> pri running 7 \<le> pri running u)"
    using in7 by (auto simp: best_thread_def Let_def split: if_splits)
  then have u: "5 \<le> pri running u" using c7 by (simp add: classes)
  have "par (th running 100) = par (th booted 100)" using p created_ok(12) by (simp add: same_params_def)
  then have "pri running 100 = 0" using booted_ok(7) [of 0] by (simp add: par_def thread_real_priority_def)
  then have "u \<noteq> 100" using u by auto
  then have "th_in_runq (th created u)" "u \<noteq> 7 \<Longrightarrow> th_in_runq (th booted u)"
    using k m(1) created_ok(8,13) by (auto simp: keeps_def)
  moreover have "u = 7" if "th_in_runq (th booted u)" "u \<noteq> 7"
  proof -
    have "entry (th created u) = entry (th booted u)" "entry (th running u) = entry (th created u)"
      using created_ok(13) k that \<open>th_in_runq (th created u)\<close> by (auto simp: keeps_def)
    then have "u \<in> {t. th_in_runq (th booted t) \<and> th_runq (th booted t) = Some 0}" using m(1,2) by (simp add: entry_def)
    then show ?thesis using booted_ok(8) [of 0] \<open>u \<noteq> 100\<close> by simp
  qed
  ultimately show "rq_current (rq running 0) = 7" unfolding u_def by blast
qed

lemma running_params: "th_user (th running 7) = data0" "th_real (th running 7) = data0" "params_ok (th running 7)" "settable {..<2} running 7"
  "th_cpumap (th running 7) = (\<lambda>_. False)(0 := True)" "th_pin_level (th running 7) = 0" "th_preempt_level (th running 7) = 0"
proof -
  have p: "par (th running 7) = par (th created 7)" using running_ok(6) by (simp add: same_params_def)
  then show "th_user (th running 7) = data0" "th_real (th running 7) = data0" using created_ok(6,7) by (simp_all add: par_def)
  show ok: "params_ok (th running 7)"
    using p created_ok(5) by (auto simp: par_def params_ok_def thread_user_global_priority_def thread_real_global_priority_def split: if_splits)
  have "rq_balancer (rq running c) = rq_balancer (rq created c)" "rq_idler (rq running c) = rq_idler (rq created c)" for c
    using params_special(1,2) [OF running_ok(6)] .
  then have "rq_balancer (rq running c) \<noteq> Some 7 \<and> rq_idler (rq running c) \<noteq> Some 7" if "c < 2" for c
    using created_ok(8-11) that by (auto simp: less_2)
  then show "settable {..<2} running 7" using ok running_ok(8) by (auto simp: settable_def MAX_THREADS_def)
  show "th_cpumap (th running 7) = (\<lambda>_. False)(0 := True)" "th_pin_level (th running 7) = 0" "th_preempt_level (th running 7) = 0"
    using p created_place by (simp_all add: par_def)
qed

text \<open>It goes to sleep.\<close>

definition slept :: sched where "slept = the (thread_sleep_common 0 1 running)"

lemma slept_ok: "system_ok {..<2} slept" "th_state (th slept 7) = THREAD_SLEEPING" "same_params running slept"
proof -
  obtain q r A where ok: "rest_ok {..<2} running q r A" using running_ok(2) by (auto simp: system_ok_def sched_inv_def)
  obtain s' where s': "thread_sleep_common 0 1 running = Some s'" "sched_inv {..<2} s'"
    using sleep_ok [OF ok, of 0 1] running_ok(3-5) by auto
  have e: "thread_sleep_common 0 1 running = Some slept" using s'(1) by (simp add: slept_def)
  have "th_state (th slept 7) = THREAD_SLEEPING"
    using leave_keeps(2) [where step = "thread_sleep_common 0 1" and st = THREAD_SLEEPING and t = 7, OF e] running_ok(3,4) by simp
  then show "th_state (th slept 7) = THREAD_SLEEPING" .
  show "system_ok {..<2} slept" using system_step [OF running_ok(2) s'(2) step_maps(1) [OF s'(1)]] s'(1) e by simp
  show "same_params running slept" by (rule step_params(1) [OF e])
qed

end
