(* ===== verification/Sched_Props.thy ===== *)
theory Sched_Props
  imports Sched_Reach Sched_Example
begin

text \<open>
  The properties of the scheduler. They are stated for any state that satisfies the invariant
  \<open>system_ok C\<close> of a system of the processors \<open>C\<close>; booting establishes it, and the witnesses are
  the system of the example.
\<close>

section \<open>Starting and choosing\<close>

text \<open>
  C10: Booting any number of processors up to the maximum succeeds when memory is available: no assertion
  fails, the system satisfies its invariant, and every processor runs its balancer, the only thread of its run queue.
\<close>
theorem boot_establishes:
  assumes "boot_args n booters balancers idlers bm im" "no_threads s"
  shows "\<exists>s'. thread_boot n booters bm im s = Some s' \<and> system_ok {..<n} s'
    \<and> (\<forall>c<n. rq_current (rq s' c) = balancers c \<and> rq_balancer (rq s' c) = Some (balancers c) \<and> rq_idler (rq s' c) = Some (idlers c)
        \<and> {t. th_in_runq (th s' t) \<and> th_runq (th s' t) = Some c} = {balancers c})"
  using boot_ok [OF assms] by blast

theorem boot_establishes_witness:
  "\<exists>s'. thread_boot 2 (\<lambda>c. c) (\<lambda>c. mem0 (c + 100)) (\<lambda>c. mem0 (c + 200)) sched0 = Some s' \<and> system_ok {..<2} s' \<and> rq_current (rq s' 1) = 101"
  using boot_establishes [OF boot_args0 no_threads0] by force

text \<open>
  C2: Yielding the processor never fails and keeps the invariant. With preemption disabled it does nothing. With preemption
  enabled no thread leaves a run queue, and the thread that runs next is a best one: the idler only when the run queue is empty,
  otherwise a thread of the run queue, of the best class and, for a real-time thread, of the highest priority; a thread that keeps
  the processor has no more request to yield.
\<close>
theorem yield_chooses_best:
  assumes "system_ok C s" "c \<in> C"
  shows "\<exists>s'. thread_yield c s = Some s' \<and> system_ok C s'
    \<and> (if th_preempt_level (th s (rq_current (rq s c))) \<noteq> 0 then s' = s
       else best_thread s' c (rq_current (rq s' c))
         \<and> (\<forall>t. th_in_runq (th s t) \<longrightarrow> th_in_runq (th s' t) \<and> th_runq (th s' t) = th_runq (th s t))
         \<and> (rq_current (rq s' c) = rq_current (rq s c) \<longrightarrow> \<not> thread_test_flag s' (rq_current (rq s c)) THREAD_YIELD))"
proof -
  have inv: "sched_inv C s" using assms(1) by (simp add: system_ok_def)
  obtain s' where s': "thread_yield c s = Some s'" "sched_inv C s'" "\<not> thread_preempt_enabled c s \<longrightarrow> s' = s"
    "thread_preempt_enabled c s \<longrightarrow> thread_runq_schedule c s = Some s' \<and> best_thread s' c (rq_current (rq s' c))
      \<and> (rq_current (rq s' c) = rq_current (rq s c) \<longrightarrow> \<not> thread_test_flag s' (rq_current (rq s c)) THREAD_YIELD)"
    using yield_ok [OF inv assms(2)] by (elim exE conjE)
  have "th_state (th s (rq_current (rq s c))) = THREAD_RUNNING" using inv assms(2) current_running(1) by (auto simp: sched_inv_def)
  moreover have "system_ok C s'" by (rule system_step [OF assms(1) s'(2) yield_maps [OF s'(1)] assms(2)])
  ultimately show ?thesis using s' stay_keeps [of c s s'] by (auto simp: thread_preempt_enabled_def keeps_def entry_def)
qed

theorem yield_chooses_best_witness:
  "\<exists>s'. thread_yield 0 running = Some s' \<and> system_ok {..<2} s' \<and> best_thread s' 0 (rq_current (rq s' 0)) \<and> th_in_runq (th s' 7)"
  using yield_chooses_best [OF running_ok(2), of 0] running_ok(3,7) running_params(7) by force



text \<open>
  C18: The timer interrupt never fails in a state that satisfies the invariant. Unless the current thread is a
  fair-scheduling thread that has used up its round, the invariant holds again at once. When preemption is enabled, or in these
  states, the call to the scheduler after it never fails either, and the invariant holds after it. What is left is
  a thread past its round with preemption disabled, whose work may grow until an assertion fails.
\<close>
theorem tick_then_schedule:
  assumes "system_ok C s" "c \<in> C" "t = rq_current (rq s c)"
    and "within = (cls s t = THREAD_SCHED_CLASS_FS \<longrightarrow> fd_work (fsd s t) < fd_weight (fsd s t))"
  shows "\<exists>s1. thread_report_periodic_event c s = Some s1 \<and> (within \<longrightarrow> system_ok C s1)
    \<and> (within \<or> th_preempt_level (th s t) = 0 \<longrightarrow> (\<exists>s'. thread_schedule c s1 = Some s' \<and> system_ok C s'))"
proof -
  obtain q r A where ok: "rest_ok C s q r A" using assms(1) by (auto simp: system_ok_def sched_inv_def)
  have w: "within = tick_within c s" "(th_preempt_level (th s t) = 0) = thread_preempt_enabled c s"
    using assms(3,4) by (simp_all add: tick_within_def thread_preempt_enabled_def Let_def)
  obtain s1 where s1: "thread_report_periodic_event c s = Some s1" "tick_within c s \<longrightarrow> sched_inv C s1"
    "tick_within c s \<or> thread_preempt_enabled c s \<longrightarrow> (\<exists>s'. thread_schedule c s1 = Some s' \<and> sched_inv C s')"
    using tick_ok [OF ok assms(2)] by (elim exE conjE)
  note f = periodic_maps [OF s1(1)]
  show ?thesis unfolding w
    using s1 system_step [OF assms(1) _ f assms(2)] system_step [OF assms(1) _ idle_trans [OF f schedule_maps] assms(2)] by blast
qed

theorem tick_then_schedule_witness:
  "\<exists>s1 s'. thread_report_periodic_event 0 running = Some s1 \<and> system_ok {..<2} s1 \<and> thread_schedule 0 s1 = Some s' \<and> system_ok {..<2} s'"
proof -
  have "cls running 7 \<noteq> THREAD_SCHED_CLASS_FS" using running_params(2) by (simp add: thread_real_sched_class_def data0_def classes)
  then show ?thesis using tick_then_schedule [OF running_ok(2), of 0 7 True] running_ok(3) by auto
qed

section \<open>Waking up and creating threads\<close>

text \<open>
  C15: Waking up a sleeping thread that may run somewhere succeeds: it enters the run queue of a processor of its map,
  or the one it is pinned to, in the running state and off its wait channel, with the error it was woken up with; no other
  thread is moved, and the invariant is kept.
\<close>
theorem wakeup_places:
  assumes "system_ok C s" "t \<noteq> self" "th_state (th s t) \<noteq> THREAD_RUNNING" "t < MAX_THREADS" "runq_class s t" "\<forall>c\<in>C. rq_balancer (rq s c) \<noteq> Some t"
    and "if th_pin_level (th s t) = 0 then (\<exists>c\<in>C. th_cpumap (th s t) c) \<and> (\<forall>c<CONFIG_MAX_CPUS. th_cpumap (th s t) c \<longrightarrow> c \<in> C)
      else \<exists>c\<in>C. th_runq (th s t) = Some c"
  shows "\<exists>s' c. thread_wakeup_common self (Some t) error s = Some (None, s') \<and> system_ok C s'
    \<and> th_in_runq (th s' t) \<and> th_runq (th s' t) = Some c \<and> (if th_pin_level (th s t) = 0 then th_cpumap (th s t) c else th_runq (th s t) = Some c)
    \<and> th_state (th s' t) = THREAD_RUNNING \<and> th_wakeup_error (th s' t) = error \<and> th_wchan_addr (th s' t) = 0
    \<and> (\<forall>u. u \<noteq> t \<longrightarrow> (th_in_runq (th s' u) \<longleftrightarrow> th_in_runq (th s u)))"
proof -
  obtain q r A where ok: "rest_ok C s q r A" using assms(1) by (auto simp: system_ok_def sched_inv_def)
  have map: "runq_map_ok C s" using assms(1) by (simp add: system_ok_def)
  obtain s' c where s': "thread_wakeup_common self (Some t) error s = Some (None, s')" "sched_inv C s'" "c \<in> C"
    "th_in_runq (th s' t)" "th_runq (th s' t) = Some c" "th_state (th s' t) = THREAD_RUNNING" "th_wakeup_error (th s' t) = error" "th_wchan_addr (th s' t) = 0"
    "if th_pin_level (th s t) = 0 then th_cpumap (th s t) c else th_runq (th s t) = Some c"
  proof -
    have "placeable C s t" using assms(7) map map_placesI [of C "th_cpumap (th s t)"] by (auto simp: placeable_def runq_map_ok_def split: if_splits)
    from wakeup_ok [OF ok map assms(2-6) this, of error] show thesis by (elim exE conjE) (rule that)
  qed
  have "system_ok C s'" using s'(2) map wakeup_maps [OF s'(1)] by (auto simp: system_ok_def runq_map_ok_def)
  moreover have "th_in_runq (th s' u) \<longleftrightarrow> th_in_runq (th s u)" if "u \<noteq> t" for u
    using wakeup_keeps [OF s'(1)] that by (auto simp: keeps_def entry_def)
  ultimately show ?thesis using s' by blast
qed

theorem wakeup_places_witness:
  "\<exists>s' c. thread_wakeup_common 100 (Some 7) (Some ETIMEDOUT) slept = Some (None, s') \<and> system_ok {..<2} s' \<and> th_in_runq (th s' 7) \<and> th_wakeup_error (th s' 7) = Some ETIMEDOUT"
proof -
  have p: "par (th slept 7) = par (th running 7)" "\<forall>c\<in>{..<2}. rq_balancer (rq slept c) \<noteq> Some 7"
    using slept_ok(3) running_params(4) params_special(1) [OF slept_ok(3)] by (simp_all add: same_params_def settable_def)
  have "th_pin_level (th slept 7) = 0" "th_cpumap (th slept 7) = (\<lambda>_. False)(0 := True)" "runq_class slept 7"
    using p(1) running_params(2,5,6) by (auto simp: par_def runq_class_def thread_real_sched_class_def thread_real_priority_def data0_def THREAD_SCHED_RT_PRIO_MAX_def)
  then show ?thesis
    using wakeup_places [OF slept_ok(1), of 7 100 "Some ETIMEDOUT"] slept_ok(2) p(2) only_0(1,2) by (auto simp: MAX_THREADS_def)
qed

text \<open>
  C34: A thread is woken up at most once: waking up no thread, the calling thread, or a thread that is running
  reports EINVAL and changes nothing.
\<close>
theorem wakeup_rejected:
  "thread = None \<or> thread = Some self \<or> (\<exists>t. thread = Some t \<and> th_runq (th s t) \<noteq> None \<and> th_state (th s t) = THREAD_RUNNING)
    \<longleftrightarrow> thread_wakeup_common self thread error s = Some (Some EINVAL, s)"
  by (auto simp: thread_wakeup_common_def wakeup_begin_def bind_eq_Some_conv split: option.splits if_splits)

text \<open>
  C19: A new thread with parameters of its policy and a map of managed processors starts: it runs with the parameters asked for,
  in the run queue of a processor of its map, and the other threads keep their place.
\<close>
theorem create_starts:
  assumes "system_ok C s" "mem_ok mem t" "\<not> th_in_runq (th s t)" "\<forall>c\<in>C. rq_balancer (rq s c) \<noteq> Some t \<and> rq_idler (rq s c) \<noteq> Some t" "t \<noteq> self" "t < MAX_THREADS"
    and "data_ok d" "sd_policy d = at_policy attr" "sd_priority d = at_priority attr" "sd_class d \<noteq> THREAD_SCHED_CLASS_IDLE"
    and "at_cpumap attr = Some m" "cpumap_check n m = None" "\<exists>c\<in>C. m c" "\<forall>c<CONFIG_MAX_CPUS. m c \<longrightarrow> c \<in> C"
  shows "\<exists>s' c. thread_create self n mem attr s = Some (None, s') \<and> system_ok C s' \<and> m c
    \<and> th_in_runq (th s' t) \<and> th_runq (th s' t) = Some c \<and> th_state (th s' t) = THREAD_RUNNING \<and> th_user (th s' t) = d \<and> th_real (th s' t) = d
    \<and> (\<forall>u. u \<noteq> t \<longrightarrow> (th_in_runq (th s' u) \<longleftrightarrow> th_in_runq (th s u)))"
proof -
  obtain s' c where s': "thread_create self n mem attr s = Some (None, s')" "system_ok C s'" "m c" "th_in_runq (th s' t)" "th_runq (th s' t) = Some c"
    "th_state (th s' t) = THREAD_RUNNING" "th_user (th s' t) = d" "th_real (th s' t) = d" "keeps {t} {t} s s'"
  proof -
    have "runq_map_ok C s" using assms(1) by (simp add: system_ok_def)
    then have m: "m = (case at_cpumap attr of Some m \<Rightarrow> m | None \<Rightarrow> th_cpumap (th s self))" "\<forall>m. at_cpumap attr = Some m \<longrightarrow> cpumap_check n m = None"
      "map_places C (sd_class d) m" using assms(11,12) map_placesI [OF _ assms(13,14)] by (auto simp: runq_map_ok_def)
    from create_ok [OF assms(1-10) m] show thesis by (elim exE conjE) (rule that)
  qed
  then show ?thesis by (auto simp: keeps_def entry_def)
qed

theorem create_starts_witness:
  "\<exists>s' c. thread_create 100 2 (mem0 7) attr0 booted = Some (None, s') \<and> system_ok {..<2} s' \<and> th_in_runq (th s' 7) \<and> th_real (th s' 7) = data0"
proof -
  have k: "sd_policy data0 = at_policy attr0" "sd_priority data0 = at_priority attr0" "sd_class data0 \<noteq> THREAD_SCHED_CLASS_IDLE" "at_cpumap attr0 = Some ((\<lambda>_. False)(0 := True))"
    "(7::nat) \<noteq> 100" "7 < MAX_THREADS" by (simp_all add: data0_def attr0_def classes MAX_THREADS_def)
  show ?thesis using create_starts [OF booted_ok(2) mem0_ok booted_waiting k(5,6) data0_ok k(1-4) only_0(3,2,1)] by blast
qed

section \<open>Scheduling parameters\<close>

text \<open>
  C17: Setting the parameters of a thread never fails for parameters of their policy, and gives it these as its own. A thread
  that inherits parameters of a higher global priority than the new ones keeps running with those, and stays boosted; any other
  thread runs with the new ones from then on, and is boosted no more. A runnable thread stays in its run queue,
  whether it waits or runs, and the invariant is kept.
\<close>
theorem setscheduler_sets:
  assumes "system_ok C s" "settable C s t" "data_ok d" "sd_policy d = policy" "sd_priority d = priority"
    and "sd_class d = THREAD_SCHED_CLASS_IDLE \<longrightarrow> \<not> th_in_runq (th s t)"
  shows "\<exists>s'. thread_setscheduler t policy priority s = Some s' \<and> system_ok C s' \<and> params_ok (th s' t) \<and> th_user (th s' t) = d
    \<and> (let keep = th_boosted (th s t) \<and> sd_global_priority d < sd_global_priority (th_real (th s t)) in
         th_real (th s' t) = (if keep then th_real (th s t) else d) \<and> th_boosted (th s' t) = keep)
    \<and> th_in_runq (th s' t) = th_in_runq (th s t) \<and> (th_in_runq (th s t) \<longrightarrow> th_runq (th s' t) = th_runq (th s t))"
  by (rule set_scheduler_system [OF assms])

definition data1 :: thread_sched_data where
  "data1 = \<lparr>sd_policy = THREAD_SCHED_POLICY_FS, sd_class = THREAD_SCHED_CLASS_FS, sd_priority = 20, sd_global_priority = 1\<rparr>"

lemma data1_ok: "data_ok data1" "sd_class data1 \<noteq> THREAD_SCHED_CLASS_IDLE"
  by (simp_all add: data_ok_def data1_def policy_to_class class_priority_def class_global_priority_def thread_sched_fs_get_global_priority_def classes
    THREAD_SCHED_FS_PRIO_MAX_def THREAD_SCHED_GLOBAL_PRIO_FS_def THREAD_SCHED_POLICY_FIFO_def THREAD_SCHED_POLICY_RR_def THREAD_SCHED_POLICY_FS_def)

theorem setscheduler_sets_witness:
  "\<exists>s'. thread_setscheduler 7 THREAD_SCHED_POLICY_FS 20 running = Some s' \<and> system_ok {..<2} s' \<and> th_user (th s' 7) = data1 \<and> th_real (th s' 7) = data1
    \<and> th_in_runq (th s' 7)"
proof -
  have "\<not> (th_boosted (th running 7) \<and> sd_global_priority data1 < sd_global_priority (th_real (th running 7)))" using running_params(1-3)
    by (auto simp: params_ok_def thread_user_global_priority_def thread_real_global_priority_def)
  then show ?thesis
    using setscheduler_sets [OF running_ok(2) running_params(4) data1_ok(1) refl refl] data1_ok(2) running_ok(7) by (auto simp: data1_def Let_def)
qed

text \<open>
  C14: A thread that inherits parameters runs with the better ones of those and its own, judged by their global priority;
  its own stay as they were. A runnable thread stays so, and the invariant is kept.
\<close>
theorem pi_setscheduler_inherits:
  assumes "system_ok C s" "settable C s t" "data_ok d" "sd_policy d = policy" "sd_priority d = priority"
    and "sd_class (th_user (th s t)) = THREAD_SCHED_CLASS_IDLE \<or> sd_class d = THREAD_SCHED_CLASS_IDLE \<longrightarrow> \<not> th_in_runq (th s t)"
  shows "\<exists>s'. thread_pi_setscheduler t policy priority s = Some s' \<and> system_ok C s' \<and> th_user (th s' t) = th_user (th s t)
    \<and> th_real (th s' t) = (if sd_global_priority d \<le> sd_global_priority (th_user (th s t)) then th_user (th s t) else d)
    \<and> th_in_runq (th s' t) = th_in_runq (th s t)"
  using pi_set_scheduler_system [OF assms] by blast

theorem pi_setscheduler_inherits_witness:
  "\<exists>s'. thread_pi_setscheduler 7 THREAD_SCHED_POLICY_FS 20 running = Some s' \<and> system_ok {..<2} s' \<and> th_real (th s' 7) = data0 \<and> th_in_runq (th s' 7)"
  using pi_setscheduler_inherits [OF running_ok(2) running_params(4) data1_ok(1) refl refl] data1_ok(2) running_ok(7) running_params(1)
  by (auto simp: data1_def data0_def classes)

section \<open>Balancing\<close>

text \<open>
  C11: A balancing attempt returns: it pulls threads from another processor, starts the next round, or changes nothing, and
  trips no assertion. Afterwards the active queue of the processor has a fair-scheduling thread if the run queue has one;
  the balancer goes to sleep, leaves its run queue, and a best thread runs next.
\<close>
theorem balance_returns:
  assumes "system_ok C s" "c \<in> C" "rq_balancer (rq s c) = Some (rq_current (rq s c))" "w \<noteq> 0"
  shows "\<exists>s1 s'. thread_sched_fs_balance c s = Some s1 \<and> thread_balance c w s = Some s' \<and> system_ok C s1 \<and> system_ok C s'
    \<and> (fq_nr_threads (fs_queue s1 c (rq_fs_active (rq s1 c))) = 0 \<longrightarrow> (\<forall>u. th_in_runq (th s1 u) \<and> th_runq (th s1 u) = Some c \<longrightarrow> cls s1 u \<noteq> THREAD_SCHED_CLASS_FS))
    \<and> best_thread s' c (rq_current (rq s' c)) \<and> \<not> (th_in_runq (th s' (rq_current (rq s c))) \<and> th_runq (th s' (rq_current (rq s c))) = Some c)"
  using balance_returns_ok [OF assms] by (auto simp: thread_balance_def)

theorem balance_returns_witness:
  "\<exists>s'. thread_balance 0 1 booted = Some s' \<and> system_ok {..<2} s' \<and> best_thread s' 0 (rq_current (rq s' 0))"
  using balance_returns [OF booted_ok(2), of 0 1] booted_ok(3,4) by auto

section \<open>Sequences of operations\<close>

text \<open>
  C1: In every state reachable from booting, each of the operations of \<open>sched_op\<close> returns when it is allowed, whatever allowed operations
  came before it, in whatever order: no assertion of the scheduler fails, and every state on the way satisfies the invariant.
  Allowed are a periodic event alone or with the call to the scheduler after it, yielding, rescheduling, disabling and enabling
  preemption and migration, sleeping, exiting, balancing, each of the two sections of waking up a thread (rejected calls too),
  creating a thread (on the given processors or those of its creator, memory short or not, map rejected or not), and changing
  parameters. The conditions of \<open>op_allowed\<close> are obligations of the callers (a
  thread sleeps and exits with preemption enabled, levels do not overflow, parameters go together, a thread of the idle class is not woken up,
  the balancers and the idlers are left alone), and leave out two defects of the code: a map that passes the check and names no managed processor, and
  a periodic event while a fair-scheduling thread that has used up its round has preemption disabled. A periodic event at the end of a round
  with preemption enabled is one step with the call to the scheduler after it.
\<close>
theorem reachable_returns:
  assumes "reachable n s" "op_allowed n op s"
  shows "\<exists>s'. do_op n op s = Some s' \<and> reachable n s' \<and> system_ok {..<n} s'"
  using op_ok [OF reachable_ok [OF assms(1)] assms(2)] reachable.step [OF assms] by blast

lemma reachable_booted: "reachable 2 booted"
  by (rule reachable.boot [OF boot_args0 no_threads0 booted_ok(1)])

theorem reachable_returns_witness:
  "\<exists>s'. do_op 2 (Create 100 (mem0 7) attr0) booted = Some s' \<and> reachable 2 s' \<and> system_ok {..<2} s'"
proof -
  have "fresh_memory 2 100 (mem0 7) booted" using booted_waiting mem0_ok [of 7] by (simp add: fresh_memory_def mem_ok_def ordinary_def MAX_THREADS_def)
  moreover have "params_valid (at_policy attr0) (at_priority attr0)" "params_runnable (at_policy attr0)"
    using data0_ok by (auto simp: data_ok_def data0_def attr0_def params_valid_def params_runnable_def THREAD_SCHED_POLICY_FIFO_def THREAD_SCHED_POLICY_IDLE_def)
  moreover have "managed 2 ((\<lambda>_. False)(0 := True))" by (auto simp: managed_def)
  ultimately show ?thesis using reachable_returns [OF reachable_booted, of "Create 100 (mem0 7) attr0"] by (simp add: attr0_def)
qed

text \<open>
  C12: The accounts of every run queue of a reachable state are those of the threads in it: the number of threads, the
  bits of the real-time queues that have a waiting thread, and the total of the weights of the fair-scheduling threads. Every
  thread in it is runnable, has a priority of its class, and the processor runs one of them or its idler.
\<close>
theorem runq_wellformed:
  assumes "reachable n s" "c < n"
  shows "runq_wf s c"
  using system_wf [OF reachable_ok [OF assms(1)]] assms(2) by simp

theorem runq_wellformed_witness:
  "runq_wf booted 1 \<and> rq_balancer (rq booted 1) = Some 101"
  using runq_wellformed [OF reachable_booted, of 1] booted_ok(4) [of 1] by simp

end
