(* ===== verification/Spinlock.thy ===== *)
theory Spinlock
  imports Prelude
begin

text \<open>
  The spin locks of \<^verbatim>\<open>kern/spinlock.c\<close> and \<^verbatim>\<open>spinlock_i.h\<close>, without owner
  tracking (the default configuration). An execution context is a processor with its kind of context, and has one queue
  node. The processors interleave: a step of the model is one access of a context to the shared memory, in
  a sequentially consistent order. \<open>spin_pc\<close> is the place of a context in the lock operations, with the local variables that
  are still used; the loops that spin stay at the same place.
\<close>

unbundle bit_operations_syntax

section \<open>The lock word\<close>

definition SPINLOCK_UNLOCKED :: u32 where "SPINLOCK_UNLOCKED = 0"
definition SPINLOCK_LOCKED :: u32 where "SPINLOCK_LOCKED = 1"
definition SPINLOCK_CONTENDED :: u32 where "SPINLOCK_CONTENDED = 2"
definition SPINLOCK_LOCKED_BITS :: nat where "SPINLOCK_LOCKED_BITS = 1"
definition SPINLOCK_CONTENDED_BITS :: nat where "SPINLOCK_CONTENDED_BITS = 1"
definition SPINLOCK_QID_SHIFT :: nat where "SPINLOCK_QID_SHIFT = SPINLOCK_CONTENDED_BITS + SPINLOCK_LOCKED_BITS"
definition SPINLOCK_QID_CTX_BITS :: nat where "SPINLOCK_QID_CTX_BITS = 1"
definition SPINLOCK_QID_CTX_SHIFT :: nat where "SPINLOCK_QID_CTX_SHIFT = 0"
definition SPINLOCK_QID_CTX_MASK :: u32 where "SPINLOCK_QID_CTX_MASK = push_bit SPINLOCK_QID_CTX_BITS 1 - 1"
definition SPINLOCK_QID_CPU_BITS :: nat where "SPINLOCK_QID_CPU_BITS = 29"
definition SPINLOCK_QID_CPU_SHIFT :: nat where "SPINLOCK_QID_CPU_SHIFT = SPINLOCK_QID_CTX_SHIFT + SPINLOCK_QID_CTX_BITS"
definition SPINLOCK_QID_CPU_MASK :: u32 where "SPINLOCK_QID_CPU_MASK = push_bit SPINLOCK_QID_CPU_BITS 1 - 1"
definition SPINLOCK_NR_CTXS :: u32 where "SPINLOCK_NR_CTXS = 2"

definition spinlock_qid_build :: "u32 \<Rightarrow> u32 \<Rightarrow> u32 option" where
  "spinlock_qid_build ctx cpu = do {
     assert_that (ctx \<le> SPINLOCK_QID_CTX_MASK);
     assert_that (cpu \<le> SPINLOCK_QID_CPU_MASK);
     Some (push_bit SPINLOCK_QID_CPU_SHIFT cpu OR push_bit SPINLOCK_QID_CTX_SHIFT ctx) }"

definition spinlock_qid_ctx :: "u32 \<Rightarrow> u32" where
  "spinlock_qid_ctx qid = drop_bit SPINLOCK_QID_CTX_SHIFT qid AND SPINLOCK_QID_CTX_MASK"

definition spinlock_qid_cpu :: "u32 \<Rightarrow> u32" where
  "spinlock_qid_cpu qid = drop_bit SPINLOCK_QID_CPU_SHIFT qid AND SPINLOCK_QID_CPU_MASK"

section \<open>State\<close>

datatype exec_ctx = Exec_ctx (ec_ctx: u32) (ec_cpu: u32)

record spinlock =
  sl_value :: u32

record spinlock_qnode =
  qn_next :: "exec_ctx option"
  qn_locked :: bool

datatype spin_pc =
  Ready
| Lock_fast nat bool
| Qnode_init nat
| Enqueue_load nat
| Enqueue_cas nat u32
| Set_locked nat u32
| Set_next nat exec_ctx
| Wait_qnode nat
| Wait_lock nat
| Downgrade nat
| Set_lock nat
| Wait_next nat
| Clear_next nat exec_ctx

record spin_state =
  nr_cpus :: u32
  locks :: "nat \<Rightarrow> spinlock"
  qnodes :: "exec_ctx \<Rightarrow> spinlock_qnode"
  pc :: "exec_ctx \<Rightarrow> spin_pc"
  held :: "exec_ctx \<Rightarrow> nat set"

definition goto :: "exec_ctx \<Rightarrow> spin_pc \<Rightarrow> spin_state \<Rightarrow> spin_state" where
  "goto a p s = s\<lparr>pc := (pc s)(a := p)\<rparr>"

definition set_value :: "nat \<Rightarrow> u32 \<Rightarrow> spin_state \<Rightarrow> spin_state" where
  "set_value l v s = s\<lparr>locks := (locks s)(l := \<lparr>sl_value = v\<rparr>)\<rparr>"

definition set_qnode :: "exec_ctx \<Rightarrow> spinlock_qnode \<Rightarrow> spin_state \<Rightarrow> spin_state" where
  "set_qnode a q s = s\<lparr>qnodes := (qnodes s)(a := q)\<rparr>"

text \<open>The lock is obtained: the lock operation returns to its caller.\<close>

definition acquired :: "exec_ctx \<Rightarrow> nat \<Rightarrow> spin_state \<Rightarrow> spin_state" where
  "acquired a l s = goto a Ready (s\<lparr>held := (held s)(a := insert l (held s a))\<rparr>)"

definition atomic_cas :: "nat \<Rightarrow> u32 \<Rightarrow> u32 \<Rightarrow> spin_state \<Rightarrow> u32 \<times> spin_state" where
  "atomic_cas l oval nval s =
     (let prev = sl_value (locks s l) in (prev, if prev = oval then set_value l nval s else s))"

section \<open>Operations\<close>

definition spinlock_init :: "nat \<Rightarrow> spin_state \<Rightarrow> spin_state" where
  "spinlock_init l s = set_value l SPINLOCK_UNLOCKED s"

definition spinlock_locked :: "nat \<Rightarrow> spin_state \<Rightarrow> bool" where
  "spinlock_locked l s = (sl_value (locks s l) \<noteq> SPINLOCK_UNLOCKED)"

definition spinlock_lock_fast :: "nat \<Rightarrow> spin_state \<Rightarrow> errno option \<times> spin_state" where
  "spinlock_lock_fast l s =
     (let (prev, s) = atomic_cas l SPINLOCK_UNLOCKED SPINLOCK_LOCKED s in
      (if prev \<noteq> SPINLOCK_UNLOCKED then Some EBUSY else None, s))"

definition spinlock_unlock_common :: "nat \<Rightarrow> spin_state \<Rightarrow> spin_state" where
  "spinlock_unlock_common l s = set_value l (sl_value (locks s l) AND NOT SPINLOCK_LOCKED) s"

definition spinlock_cpu_data_get_qnode :: "u32 \<Rightarrow> u32 \<Rightarrow> spin_state \<Rightarrow> exec_ctx option" where
  "spinlock_cpu_data_get_qnode cpu ctx s = do {
     assert_that (cpu < nr_cpus s);
     assert_that (ctx < SPINLOCK_NR_CTXS);
     Some (Exec_ctx ctx cpu) }"

definition spinlock_qnode_init :: "exec_ctx \<Rightarrow> spin_state \<Rightarrow> spin_state" where
  "spinlock_qnode_init q s = set_qnode q ((qnodes s q)\<lparr>qn_next := None\<rparr>) s"

definition spinlock_qnode_set_next :: "exec_ctx \<Rightarrow> exec_ctx \<Rightarrow> spin_state \<Rightarrow> spin_state" where
  "spinlock_qnode_set_next q next_qnode s = set_qnode q ((qnodes s q)\<lparr>qn_next := Some next_qnode\<rparr>) s"

definition spinlock_qnode_set_locked :: "exec_ctx \<Rightarrow> spin_state \<Rightarrow> spin_state" where
  "spinlock_qnode_set_locked q s = set_qnode q ((qnodes s q)\<lparr>qn_locked := True\<rparr>) s"

definition spinlock_qnode_clear_locked :: "exec_ctx \<Rightarrow> spin_state \<Rightarrow> spin_state" where
  "spinlock_qnode_clear_locked q s = set_qnode q ((qnodes s q)\<lparr>qn_locked := False\<rparr>) s"

definition spinlock_get_local_qnode :: "exec_ctx \<Rightarrow> spin_state \<Rightarrow> (exec_ctx \<times> u32) option" where
  "spinlock_get_local_qnode a s = do {
     qnode \<leftarrow> spinlock_cpu_data_get_qnode (ec_cpu a) (ec_ctx a) s;
     qid \<leftarrow> spinlock_qid_build (ec_ctx a) (ec_cpu a);
     Some (qnode, qid) }"

definition spinlock_get_remote_qnode :: "u32 \<Rightarrow> spin_state \<Rightarrow> exec_ctx option" where
  "spinlock_get_remote_qnode qid s = spinlock_cpu_data_get_qnode (spinlock_qid_cpu qid) (spinlock_qid_ctx qid) s"

text \<open>The compare-and-swap of the loop that enqueues a context, after it has loaded the value of the lock.\<close>

definition spinlock_enqueue_cas :: "nat \<Rightarrow> u32 \<Rightarrow> u32 \<Rightarrow> spin_state \<Rightarrow> u32 \<times> spin_state" where
  "spinlock_enqueue_cas l qid old_value s =
     (let next = push_bit SPINLOCK_QID_SHIFT qid OR SPINLOCK_CONTENDED;
          new_value = next OR (old_value AND SPINLOCK_LOCKED)
      in atomic_cas l old_value new_value s)"

definition spinlock_set_locked :: "nat \<Rightarrow> spin_state \<Rightarrow> spin_state" where
  "spinlock_set_locked l s = set_value l (sl_value (locks s l) OR SPINLOCK_LOCKED) s"

definition spinlock_downgrade :: "nat \<Rightarrow> u32 \<Rightarrow> spin_state \<Rightarrow> (errno option \<times> spin_state) option" where
  "spinlock_downgrade l qid s =
     (let value = push_bit SPINLOCK_QID_SHIFT qid OR SPINLOCK_CONTENDED;
          (prev, s) = atomic_cas l value SPINLOCK_LOCKED s
      in do {
        assert_that (prev AND SPINLOCK_CONTENDED \<noteq> 0);
        Some (if prev \<noteq> value then Some EBUSY else None, s) })"

text \<open>
  The next access of a context that is in a lock operation: \<open>spinlock_trylock\<close> and the fast path of \<open>spinlock_lock\<close>,
  then \<open>spinlock_lock_slow\<close> statement by statement.
\<close>

definition spin_next :: "exec_ctx \<Rightarrow> spin_state \<Rightarrow> spin_state option" where
  "spin_next a s = (case pc s a of
     Ready \<Rightarrow> Some s
   | Lock_fast l try \<Rightarrow>
       (case spinlock_lock_fast l s of
          (None, s) \<Rightarrow> Some (acquired a l s)
        | (Some _, s) \<Rightarrow> Some (goto a (if try then Ready else Qnode_init l) s))
   | Qnode_init l \<Rightarrow> do {
       (qnode, qid) \<leftarrow> spinlock_get_local_qnode a s;
       Some (goto a (Enqueue_load l) (spinlock_qnode_init qnode s)) }
   | Enqueue_load l \<Rightarrow> Some (goto a (Enqueue_cas l (sl_value (locks s l))) s)
   | Enqueue_cas l old_value \<Rightarrow> do {
       (qnode, qid) \<leftarrow> spinlock_get_local_qnode a s;
       let (prev, s) = spinlock_enqueue_cas l qid old_value s;
       Some (if prev \<noteq> old_value then goto a (Enqueue_load l) s
             else if prev AND SPINLOCK_CONTENDED \<noteq> 0 then goto a (Set_locked l prev) s
             else goto a (Wait_lock l) s) }
   | Set_locked l prev \<Rightarrow> do {
       prev_qnode \<leftarrow> spinlock_get_remote_qnode (drop_bit SPINLOCK_QID_SHIFT prev) s;
       Some (goto a (Set_next l prev_qnode) (spinlock_qnode_set_locked a s)) }
   | Set_next l prev_qnode \<Rightarrow> Some (goto a (Wait_qnode l) (spinlock_qnode_set_next prev_qnode a s))
   | Wait_qnode l \<Rightarrow> Some (if qn_locked (qnodes s a) then s else goto a (Wait_lock l) s)
   | Wait_lock l \<Rightarrow> Some (if sl_value (locks s l) AND SPINLOCK_LOCKED \<noteq> 0 then s else goto a (Downgrade l) s)
   | Downgrade l \<Rightarrow> do {
       (qnode, qid) \<leftarrow> spinlock_get_local_qnode a s;
       (error, s) \<leftarrow> spinlock_downgrade l qid s;
       Some (if error = None then acquired a l s else goto a (Set_lock l) s) }
   | Set_lock l \<Rightarrow> Some (goto a (Wait_next l) (spinlock_set_locked l s))
   | Wait_next l \<Rightarrow>
       Some (case qn_next (qnodes s a) of None \<Rightarrow> s | Some next_qnode \<Rightarrow> goto a (Clear_next l next_qnode) s)
   | Clear_next l next_qnode \<Rightarrow> Some (acquired a l (spinlock_qnode_clear_locked next_qnode s)))"

text \<open>
  The steps of a context: it calls \<open>spinlock_lock\<close> or \<open>spinlock_trylock\<close>, goes on with the call, or
  unlocks a lock it holds.
\<close>

definition is_ctx :: "spin_state \<Rightarrow> exec_ctx \<Rightarrow> bool" where
  "is_ctx s a \<longleftrightarrow> ec_ctx a < SPINLOCK_NR_CTXS \<and> ec_cpu a < nr_cpus s"

inductive spin_step :: "exec_ctx \<Rightarrow> spin_state \<Rightarrow> spin_state \<Rightarrow> bool" where
  spinlock_lock: "is_ctx s a \<Longrightarrow> pc s a = Ready \<Longrightarrow> spin_step a s (goto a (Lock_fast l False) s)"
| spinlock_trylock: "is_ctx s a \<Longrightarrow> pc s a = Ready \<Longrightarrow> spin_step a s (goto a (Lock_fast l True) s)"
| spinlock_access: "pc s a \<noteq> Ready \<Longrightarrow> spin_next a s = Some s' \<Longrightarrow> spin_step a s s'"
| spinlock_unlock: "pc s a = Ready \<Longrightarrow> l \<in> held s a \<Longrightarrow>
     spin_step a s ((spinlock_unlock_common l s)\<lparr>held := (held s)(a := held s a - {l})\<rparr>)"

definition spin_start :: "spin_state \<Rightarrow> bool" where
  "spin_start s \<longleftrightarrow> nr_cpus s \<le> SPINLOCK_QID_CPU_MASK + 1 \<and> (\<forall>l. sl_value (locks s l) = SPINLOCK_UNLOCKED)
     \<and> (\<forall>a. pc s a = Ready \<and> held s a = {})"

inductive spin_run :: "spin_state \<Rightarrow> exec_ctx list \<Rightarrow> spin_state \<Rightarrow> bool" where
  spin_run_Nil: "spin_run s [] s"
| spin_run_snoc: "spin_run s as s' \<Longrightarrow> spin_step a s' s'' \<Longrightarrow> spin_run s (as @ [a]) s''"

inductive_cases spin_run_snocE: "spin_run s (as @ [a]) s''"

section \<open>The lock word and the queue\<close>

text \<open>
  \<open>lock_word q b\<close> is the value of a lock whose queue is \<open>q\<close> and whose lock bit is \<open>b\<close>: it names the last
  context of the queue.
\<close>

lemmas spin_defs = SPINLOCK_UNLOCKED_def SPINLOCK_LOCKED_def SPINLOCK_CONTENDED_def SPINLOCK_LOCKED_BITS_def SPINLOCK_CONTENDED_BITS_def
  SPINLOCK_QID_SHIFT_def SPINLOCK_QID_CTX_BITS_def SPINLOCK_QID_CTX_SHIFT_def SPINLOCK_QID_CTX_MASK_def SPINLOCK_QID_CPU_BITS_def
  SPINLOCK_QID_CPU_SHIFT_def SPINLOCK_QID_CPU_MASK_def SPINLOCK_NR_CTXS_def

definition qid_of :: "exec_ctx \<Rightarrow> u32" where
  "qid_of a = push_bit 1 (ec_cpu a) OR ec_ctx a"

definition small_ctx :: "exec_ctx \<Rightarrow> bool" where
  "small_ctx a \<longleftrightarrow> ec_ctx a < 2 \<and> ec_cpu a < 536870912"

definition lock_word :: "exec_ctx list \<Rightarrow> bool \<Rightarrow> u32" where
  "lock_word q b = (if q = [] then 0 else push_bit 2 (qid_of (last q)) OR 2) OR (if b then 1 else 0)"

lemma bit_one_word: "bit (1 :: u32) n \<longleftrightarrow> n = 0" by (cases n) (auto simp: bit_1_iff)

lemma bit_two_word: "bit (2 :: int) n \<longleftrightarrow> n = 1"
proof -
  have "(2 :: int) = push_bit 1 1" by simp
  then show ?thesis by (simp only: bit_push_bit_iff) (auto simp: bit_1_iff)
qed

lemma small_bit:
  fixes w :: u32
  assumes "w < 2 ^ k" "bit w n" "k < 32"
  shows "n < k"
proof (rule ccontr)
  assume "\<not> n < k"
  have "unat w < 2 ^ k" using assms(1,3) unat_pow2 [of k, where 'a = 32] by (simp add: word_less_unat)
  then have "take_bit k (unat w) = unat w" by (simp add: take_bit_nat_eq_self)
  then have "bit (unat w) n \<Longrightarrow> n < k" by (metis bit_take_bit_iff)
  moreover have "bit (unat w) n" using assms(2) by (simp add: bit_unsigned_iff)
  ultimately show False using \<open>\<not> n < k\<close> by simp
qed

lemma small_ctx_bits:
  assumes "small_ctx a"
  shows "bit (ec_ctx a) n \<Longrightarrow> n = 0" "bit (ec_cpu a) n \<Longrightarrow> n < 29"
  using assms small_bit [of "ec_ctx a" 1 n] small_bit [of "ec_cpu a" 29 n] by (auto simp: small_ctx_def)

lemma word_bits: "bit (w :: u32) n \<Longrightarrow> n < 32" by (rule bit_imp_le_length [where 'a = 32, simplified])

lemma qid_bit: "bit (qid_of a) n \<longleftrightarrow> n < 32 \<and> (0 < n \<and> bit (ec_cpu a) (n - 1) \<or> bit (ec_ctx a) n)"
proof -
  have "bit (push_bit 1 (ec_cpu a)) n \<longleftrightarrow> n < 32 \<and> 0 < n \<and> bit (ec_cpu a) (n - 1)" by (simp only: bit_push_bit_iff) auto
  then show ?thesis by (auto simp: qid_of_def bit_or_iff dest: word_bits)
qed

lemma qid_small: "small_ctx a \<Longrightarrow> bit (qid_of a) n \<Longrightarrow> n < 30"
  by (auto simp: qid_bit dest: small_ctx_bits)

lemma ctx_mask_bit: "bit (1 :: u32) n \<longleftrightarrow> n < 1" by (simp add: bit_one_word)

lemma cpu_mask: "(536870911 :: u32) = mask 29" by (simp add: mask_eq_exp_minus_1)

lemma qid_decode:
  assumes "small_ctx a"
  shows "spinlock_qid_ctx (qid_of a) = ec_ctx a" "spinlock_qid_cpu (qid_of a) = ec_cpu a"
proof -
  show "spinlock_qid_ctx (qid_of a) = ec_ctx a"
    by (rule bit_word_eqI) (use small_ctx_bits [OF assms] in \<open>auto simp: spinlock_qid_ctx_def spin_defs bit_and_iff qid_bit bit_one_word\<close>)
  show "spinlock_qid_cpu (qid_of a) = ec_cpu a"
    by (intro bit_word_eqI) (auto simp: spinlock_qid_cpu_def spin_defs cpu_mask bit_and_iff bit_mask_iff bit_drop_bit_eq qid_bit dest: small_ctx_bits [OF assms])
qed

lemma qid_inj: "small_ctx a \<Longrightarrow> small_ctx b \<Longrightarrow> qid_of a = qid_of b \<longleftrightarrow> a = b"
  using qid_decode by (metis exec_ctx.expand)

lemma qid_build: "small_ctx a \<Longrightarrow> spinlock_qid_build (ec_ctx a) (ec_cpu a) = Some (qid_of a)"
  by (auto simp: spinlock_qid_build_def spin_defs small_ctx_def qid_of_def word_less_unat word_le_unat)

lemma lock_word_bit: "bit (lock_word q b) n \<longleftrightarrow> n < 32 \<and> (q \<noteq> [] \<and> (n = 1 \<or> 2 \<le> n \<and> bit (qid_of (last q)) (n - 2)) \<or> b \<and> n = 0)"
proof -
  have "bit (push_bit 2 (qid_of (last q))) n \<longleftrightarrow> n < 32 \<and> 2 \<le> n \<and> bit (qid_of (last q)) (n - 2)" by (simp only: bit_push_bit_iff) auto
  then show ?thesis by (auto simp: lock_word_def bit_or_iff bit_one_word bit_two_word)
qed

lemma lock_word_shift: "small_ctx (last q) \<Longrightarrow> q \<noteq> [] \<Longrightarrow> drop_bit 2 (lock_word q b) = qid_of (last q)"
  by (rule bit_word_eqI) (auto simp: bit_drop_bit_eq lock_word_bit dest: qid_small)

lemma lock_word_masks: "lock_word q b AND 1 = (if b then 1 else 0)" "lock_word q b AND 2 = (if q = [] then 0 else 2)"
  "lock_word q b OR 1 = lock_word q True" "lock_word q b AND NOT 1 = lock_word q False"
  by (rule bit_word_eqI; auto simp: bit_and_iff bit_or_iff bit_not_iff lock_word_bit bit_one_word bit_two_word)+

lemma lock_word_snoc: "push_bit 2 (qid_of a) OR 2 OR (if b then 1 else 0) = lock_word (q @ [a]) b" "push_bit 2 (qid_of a) OR 2 = lock_word [a] False" "lock_word [] True = 1" "lock_word [] False = 0"
  by (simp_all add: lock_word_def or.assoc)

lemma lock_word_eq:
  assumes "q \<noteq> [] \<longrightarrow> small_ctx (last q)" "q' \<noteq> [] \<longrightarrow> small_ctx (last q')"
  shows "lock_word q b = lock_word q' b' \<longleftrightarrow> b = b' \<and> (q = [] \<longleftrightarrow> q' = []) \<and> (q \<noteq> [] \<longrightarrow> last q = last q')"
proof
  assume eq: "lock_word q b = lock_word q' b'"
  have 1: "b = b'" using lock_word_bit [of q b 0] lock_word_bit [of q' b' 0] eq by simp
  have 2: "q = [] \<longleftrightarrow> q' = []" using lock_word_bit [of q b 1] lock_word_bit [of q' b' 1] eq by simp
  have "last q = last q'" if "q \<noteq> []" using that 2 lock_word_shift eq assms by (metis qid_inj)
  then show "b = b' \<and> (q = [] \<longleftrightarrow> q' = []) \<and> (q \<noteq> [] \<longrightarrow> last q = last q')" using 1 2 by blast
qed (simp add: lock_word_def)

end
