(* ===== verification/Spinlock_Inv.thy ===== *)
theory Spinlock_Inv
  imports Spinlock
begin

text \<open>
  The invariant of the spin locks (\<open>spin_inv Q K s\<close>): \<open>Q l\<close> is the queue of the lock \<open>l\<close>, in the order in which the contexts
  have enqueued themselves, and \<open>K l\<close> the context that has it. The lock word names the last context of
  the queue; a context that has a predecessor waits for it to write to its node, and knows it by the
  value it has found in the lock word. A context that takes a contended lock stays at the head of the queue until it has
  handed its place over.
\<close>

section \<open>The queue of a lock\<close>

definition adj :: "'a list \<Rightarrow> 'a \<Rightarrow> 'a \<Rightarrow> bool" where
  "adj xs p b \<longleftrightarrow> (\<exists>vs ws. xs = vs @ p # b # ws)"

lemma adj_in: "adj xs p b \<Longrightarrow> p \<in> set xs" "adj xs p b \<Longrightarrow> b \<in> set xs"
  by (auto simp: adj_def)

lemma adj_Nil [simp]: "\<not> adj [] p b" "\<not> adj [x] p b"
  by (auto simp: adj_def Cons_eq_append_conv)

lemma adj_Cons: "adj (x # xs) p b \<longleftrightarrow> adj xs p b \<or> p = x \<and> (\<exists>ws. xs = b # ws)"
  by (auto simp: adj_def Cons_eq_append_conv)

lemma adj_snoc: "adj (xs @ [a]) p b \<longleftrightarrow> adj xs p b \<or> xs \<noteq> [] \<and> p = last xs \<and> b = a"
  by (induction xs) (auto simp: adj_Cons Cons_eq_append_conv append_eq_Cons_conv)

lemma adj_next: "distinct xs \<Longrightarrow> adj xs p b \<Longrightarrow> adj xs p c \<Longrightarrow> b = c"
  by (induction xs) (auto simp: adj_Cons dest: adj_in)

lemma adj_hd: "distinct xs \<Longrightarrow> adj xs p b \<Longrightarrow> b \<noteq> hd xs"
  by (cases xs) (auto simp: adj_Cons dest: adj_in)

lemma adj_prev: "distinct xs \<Longrightarrow> adj xs p b \<Longrightarrow> adj xs q b \<Longrightarrow> p = q"
proof (induction xs)
  case (Cons x xs)
  then show ?case by (metis adj_Cons adj_hd distinct.simps(2) list.sel(1))
qed simp

lemma adj_last: "distinct xs \<Longrightarrow> adj xs p b \<Longrightarrow> p \<noteq> last xs"
proof (induction xs)
  case (Cons x xs)
  show ?case
  proof (cases "xs = []")
    case False
    then have "last xs \<in> set xs" "x \<notin> set xs" using Cons.prems(1) by simp_all
    moreover have "adj xs p b \<or> p = x" using Cons.prems(2) by (auto simp: adj_Cons)
    ultimately show ?thesis using Cons False by auto
  qed (use Cons.prems in simp)
qed simp

lemma adj_tl: "adj (tl xs) p b \<Longrightarrow> adj xs p b"
  by (cases xs) (auto simp: adj_Cons)

lemma ex_prev: "b \<in> set xs \<Longrightarrow> b \<noteq> hd xs \<Longrightarrow> \<exists>p. adj xs p b"
proof (induction xs)
  case (Cons x xs)
  then show ?case by (cases xs) (auto simp: adj_Cons)
qed simp

lemma ex_next: "p \<in> set xs \<Longrightarrow> p \<noteq> last xs \<Longrightarrow> \<exists>b. adj xs p b"
proof (induction xs)
  case (Cons x xs)
  then show ?case by (cases xs) (auto simp: adj_Cons)
qed simp

fun queued_at :: "spin_pc \<Rightarrow> nat option" where
  "queued_at (Set_locked l _) = Some l"
| "queued_at (Set_next l _) = Some l"
| "queued_at (Wait_qnode l) = Some l"
| "queued_at (Wait_lock l) = Some l"
| "queued_at (Downgrade l) = Some l"
| "queued_at (Set_lock l) = Some l"
| "queued_at (Wait_next l) = Some l"
| "queued_at (Clear_next l _) = Some l"
| "queued_at _ = None"

fun handing :: "spin_pc \<Rightarrow> nat option" where
  "handing (Downgrade l) = Some l"
| "handing (Set_lock l) = Some l"
| "handing (Wait_next l) = Some l"
| "handing (Clear_next l _) = Some l"
| "handing _ = None"

lemma handing_queued: "handing p = Some l \<Longrightarrow> queued_at p = Some l"
  by (cases p) auto

definition locked_bit :: "(nat \<Rightarrow> exec_ctx option) \<Rightarrow> spin_state \<Rightarrow> nat \<Rightarrow> bool" where
  "locked_bit K s l \<longleftrightarrow> (\<exists>a. K l = Some a \<and> pc s a \<noteq> Downgrade l \<and> pc s a \<noteq> Set_lock l)"

definition linked :: "spin_state \<Rightarrow> exec_ctx \<Rightarrow> exec_ctx \<Rightarrow> bool" where
  "linked s p b \<longleftrightarrow> (\<exists>l prev. pc s b = Set_locked l prev \<and> drop_bit 2 prev = qid_of p \<and> qn_next (qnodes s p) = None)
     \<or> (\<exists>l. pc s b = Set_next l p \<and> qn_locked (qnodes s b) \<and> qn_next (qnodes s p) = None)
     \<or> (\<exists>l. pc s b = Wait_qnode l \<and> qn_locked (qnodes s b) \<and> qn_next (qnodes s p) = Some b)"

definition head_ok :: "spin_state \<Rightarrow> exec_ctx \<Rightarrow> bool" where
  "head_ok s h \<longleftrightarrow> (\<exists>l. pc s h = Wait_qnode l \<and> \<not> qn_locked (qnodes s h)) \<or> (\<exists>l. pc s h = Wait_lock l) \<or> handing (pc s h) \<noteq> None"

definition pc_ok :: "(nat \<Rightarrow> exec_ctx list) \<Rightarrow> spin_state \<Rightarrow> exec_ctx \<Rightarrow> bool" where
  "pc_ok Q s a \<longleftrightarrow> (case pc s a of
     Set_lock l \<Rightarrow> (\<exists>b. adj (Q l) a b)
   | Wait_next l \<Rightarrow> (\<exists>b. adj (Q l) a b)
   | Clear_next l n \<Rightarrow> adj (Q l) a n \<and> qn_next (qnodes s a) = Some n
   | Enqueue_load l \<Rightarrow> qn_next (qnodes s a) = None
   | Enqueue_cas l _ \<Rightarrow> qn_next (qnodes s a) = None
   | _ \<Rightarrow> True)"

definition spin_inv :: "(nat \<Rightarrow> exec_ctx list) \<Rightarrow> (nat \<Rightarrow> exec_ctx option) \<Rightarrow> spin_state \<Rightarrow> bool" where
  "spin_inv Q K s \<longleftrightarrow> nr_cpus s \<le> 536870912 \<and> (\<forall>a. pc s a \<noteq> Ready \<longrightarrow> is_ctx s a)
     \<and> (\<forall>l. distinct (Q l)) \<and> (\<forall>l a. a \<in> set (Q l) \<longleftrightarrow> queued_at (pc s a) = Some l)
     \<and> (\<forall>l a. handing (pc s a) = Some l \<longrightarrow> K l = Some a \<and> hd (Q l) = a)
     \<and> (\<forall>l a. K l = Some a \<longleftrightarrow> l \<in> held s a \<or> handing (pc s a) = Some l)
     \<and> (\<forall>l. sl_value (locks s l) = lock_word (Q l) (locked_bit K s l))
     \<and> (\<forall>l p b. adj (Q l) p b \<longrightarrow> linked s p b)
     \<and> (\<forall>l. Q l \<noteq> [] \<longrightarrow> head_ok s (hd (Q l)) \<and> qn_next (qnodes s (last (Q l))) = None)
     \<and> (\<forall>a. pc_ok Q s a)"

lemma spin_invD:
  assumes "spin_inv Q K s"
  shows "nr_cpus s \<le> 536870912" "\<And>a. pc s a \<noteq> Ready \<Longrightarrow> is_ctx s a" "\<And>l. distinct (Q l)"
    "\<And>l a. a \<in> set (Q l) \<longleftrightarrow> queued_at (pc s a) = Some l"
    "\<And>l a. handing (pc s a) = Some l \<Longrightarrow> K l = Some a \<and> hd (Q l) = a"
    "\<And>l a. K l = Some a \<longleftrightarrow> l \<in> held s a \<or> handing (pc s a) = Some l"
    "\<And>l. sl_value (locks s l) = lock_word (Q l) (locked_bit K s l)"
    "\<And>l p b. adj (Q l) p b \<Longrightarrow> linked s p b"
    "\<And>l. Q l \<noteq> [] \<Longrightarrow> head_ok s (hd (Q l))" "\<And>l. Q l \<noteq> [] \<Longrightarrow> qn_next (qnodes s (last (Q l))) = None"
    "\<And>a. pc_ok Q s a"
  using assms unfolding spin_inv_def by blast+

lemma spin_invI:
  assumes "nr_cpus s \<le> 536870912" "\<And>a. pc s a \<noteq> Ready \<Longrightarrow> is_ctx s a" "\<And>l. distinct (Q l)"
    "\<And>l a. a \<in> set (Q l) \<longleftrightarrow> queued_at (pc s a) = Some l"
    "\<And>l a. handing (pc s a) = Some l \<Longrightarrow> K l = Some a \<and> hd (Q l) = a"
    "\<And>l a. K l = Some a \<longleftrightarrow> l \<in> held s a \<or> handing (pc s a) = Some l"
    "\<And>l. sl_value (locks s l) = lock_word (Q l) (locked_bit K s l)"
    "\<And>l p b. adj (Q l) p b \<Longrightarrow> linked s p b"
    "\<And>l. Q l \<noteq> [] \<Longrightarrow> head_ok s (hd (Q l))" "\<And>l. Q l \<noteq> [] \<Longrightarrow> qn_next (qnodes s (last (Q l))) = None"
    "\<And>a. pc_ok Q s a"
  shows "spin_inv Q K s"
  using assms unfolding spin_inv_def by blast

lemma upd_simps [simp]:
  "pc (goto a p s) b = (if b = a then p else pc s b)" "held (goto a p s) = held s" "qnodes (goto a p s) = qnodes s"
  "locks (goto a p s) = locks s" "nr_cpus (goto a p s) = nr_cpus s" "is_ctx (goto a p s) b = is_ctx s b"
  "pc (set_value l v s) = pc s" "held (set_value l v s) = held s" "qnodes (set_value l v s) = qnodes s"
  "sl_value (locks (set_value l v s) k) = (if k = l then v else sl_value (locks s k))" "nr_cpus (set_value l v s) = nr_cpus s" "is_ctx (set_value l v s) b = is_ctx s b"
  "pc (set_qnode q n s) = pc s" "held (set_qnode q n s) = held s" "qnodes (set_qnode q n s) r = (if r = q then n else qnodes s r)"
  "locks (set_qnode q n s) = locks s" "nr_cpus (set_qnode q n s) = nr_cpus s" "is_ctx (set_qnode q n s) b = is_ctx s b"
  "pc (acquired a l s) b = (if b = a then Ready else pc s b)" "held (acquired a l s) b = (if b = a then insert l (held s a) else held s b)"
  "qnodes (acquired a l s) = qnodes s" "locks (acquired a l s) = locks s" "nr_cpus (acquired a l s) = nr_cpus s" "is_ctx (acquired a l s) b = is_ctx s b"
  by (auto simp: goto_def set_value_def set_qnode_def acquired_def is_ctx_def)

lemma step_idle:
  assumes inv: "spin_inv Q K s" and "is_ctx s a" and q: "queued_at (pc s a) = None" "queued_at p = None"
    and n: "\<And>l v. p = Enqueue_load l \<or> p = Enqueue_cas l v \<Longrightarrow> qn_next (qnodes s a) = None"
  shows "spin_inv Q K (goto a p s)"
proof -
  note d = spin_invD [OF inv]
  have h: "handing (pc s a) = None" "handing p = None" using q handing_queued by (metis option.exhaust option.distinct(1))+
  have out: "a \<notin> set (Q l)" for l using d(4) q(1) by simp
  have bit: "locked_bit K (goto a p s) l = locked_bit K s l" for l
    using h by (auto simp: locked_bit_def)
  have lk: "linked (goto a p s) x b \<longleftrightarrow> linked s x b" if "b \<noteq> a" for x b using that by (auto simp: linked_def)
  have hd: "head_ok (goto a p s) b \<longleftrightarrow> head_ok s b" if "b \<noteq> a" for b using that by (auto simp: head_ok_def)
  have pk: "pc_ok Q (goto a p s) b" for b
    using d(11) [of b] n h(2) by (auto simp: pc_ok_def split: spin_pc.splits)
  show ?thesis
  proof (rule spin_invI)
    show "linked (goto a p s) x b" if "adj (Q l) x b" for l x b
      using d(8) [OF that] lk out adj_in(2) [OF that] by metis
    show "head_ok (goto a p s) (hd (Q l))" if "Q l \<noteq> []" for l
      using d(9) [OF that] hd out hd_in_set [OF that] by metis
  qed (use d q h assms(2) bit pk in \<open>auto split: if_splits\<close>)
qed

lemma adj_irrefl: "distinct xs \<Longrightarrow> \<not> adj xs p p"
  by (auto simp: adj_def)

lemma small: "spin_inv Q K s \<Longrightarrow> is_ctx s a \<Longrightarrow> small_ctx a"
  using spin_invD(1) by (fastforce simp: is_ctx_def small_ctx_def SPINLOCK_NR_CTXS_def)

lemma queued_small: "spin_inv Q K s \<Longrightarrow> a \<in> set (Q l) \<Longrightarrow> is_ctx s a \<and> small_ctx a"
  by (metis option.distinct(1) queued_at.simps(9) small spin_invD(2,4))

lemma free_lock:
  assumes inv: "spin_inv Q K s" and b: "\<not> locked_bit K s l"
  shows "K l = None \<or> (\<exists>a ws. K l = Some a \<and> Q l = a # ws \<and> (pc s a = Downgrade l \<or> pc s a = Set_lock l))"
proof (cases "K l")
  case (Some a)
  then have p: "pc s a = Downgrade l \<or> pc s a = Set_lock l" using b by (auto simp: locked_bit_def)
  then have "queued_at (pc s a) = Some l" "handing (pc s a) = Some l" by auto
  then have "a \<in> set (Q l)" "hd (Q l) = a" using spin_invD(4,5) [OF inv] by auto
  then show ?thesis using Some p by (cases "Q l") auto
qed simp

lemma step_take:
  assumes inv: "spin_inv Q K s" and p: "pc s a = Lock_fast l t" and v: "sl_value (locks s l) = 0"
  shows "spin_inv Q (K(l := Some a)) (acquired a l (set_value l 1 s))" "K l = None" "Q l = []"
proof -
  note d = spin_invD [OF inv]
  have "lock_word (Q l) (locked_bit K s l) = lock_word [] False" using d(7) [of l] v by (simp add: lock_word_def)
  moreover have "Q l \<noteq> [] \<Longrightarrow> small_ctx (last (Q l))" using queued_small [OF inv] last_in_set by metis
  ultimately have q: "Q l = []" "\<not> locked_bit K s l" using lock_word_eq [of "Q l" "[]" "locked_bit K s l" False] by auto
  show k: "K l = None" "Q l = []" using free_lock [OF inv q(2)] q(1) by auto
  let ?s = "acquired a l (set_value l 1 s)"
  have out: "a \<notin> set (Q k)" for k using d(4) p by simp
  have nh: "handing (pc s b) \<noteq> Some l" for b using d(5) k(1) by fastforce
  have bit: "locked_bit (K(l := Some a)) ?s m = (m = l \<or> locked_bit K s m)" for m
    using p by (auto simp: locked_bit_def)
  have lk: "linked ?s x b \<longleftrightarrow> linked s x b" if "b \<noteq> a" for x b using that by (auto simp: linked_def)
  have hd: "head_ok ?s b \<longleftrightarrow> head_ok s b" if "b \<noteq> a" for b using that by (auto simp: head_ok_def)
  have pk: "pc_ok Q ?s b" for b
    using d(11) [of b] by (auto simp: pc_ok_def split: spin_pc.splits)
  show "spin_inv Q (K(l := Some a)) ?s"
  proof (rule spin_invI)
    show "linked ?s x b" if "adj (Q m) x b" for m x b
      using d(8) [OF that] lk out adj_in(2) [OF that] by metis
    show "head_ok ?s (hd (Q m))" if "Q m \<noteq> []" for m
      using d(9) [OF that] hd out hd_in_set [OF that] by metis
    show "(K(l := Some a)) m = Some b \<longleftrightarrow> m \<in> held ?s b \<or> handing (pc ?s b) = Some m" for m b
      using d(6) [of m b] k p nh by (auto split: if_splits)
  qed (use d p nh bit pk k in \<open>auto simp: lock_word_def split: if_splits\<close>)
qed

lemma step_init:
  assumes inv: "spin_inv Q K s" and p: "pc s a = Qnode_init l"
  shows "spin_inv Q K (goto a (Enqueue_load l) (set_qnode a (qnodes s a\<lparr>qn_next := None\<rparr>) s))"
proof -
  note d = spin_invD [OF inv]
  let ?s = "goto a (Enqueue_load l) (set_qnode a (qnodes s a\<lparr>qn_next := None\<rparr>) s)"
  have out: "a \<notin> set (Q k)" for k using d(4) p by simp
  have bit: "locked_bit K ?s m = locked_bit K s m" for m using p by (auto simp: locked_bit_def)
  have lk: "linked ?s x b \<longleftrightarrow> linked s x b" if "b \<noteq> a" "x \<noteq> a" for x b using that by (auto simp: linked_def)
  have hd: "head_ok ?s b \<longleftrightarrow> head_ok s b" if "b \<noteq> a" for b using that by (auto simp: head_ok_def)
  have pk: "pc_ok Q ?s b" for b
    using d(11) [of b] by (auto simp: pc_ok_def split: spin_pc.splits)
  show "spin_inv Q K ?s"
  proof (rule spin_invI)
    show "linked ?s x b" if "adj (Q m) x b" for m x b
      using d(8) [OF that] lk out adj_in [OF that] by metis
    show "head_ok ?s (hd (Q m))" if "Q m \<noteq> []" for m
      using d(9) [OF that] hd out hd_in_set [OF that] by metis
    show "is_ctx ?s b" if "pc ?s b \<noteq> Ready" for b using d(2) p that by (cases "b = a") auto
  qed (use d p bit pk in \<open>auto split: if_splits\<close>)
qed

lemma step_enqueue:
  assumes inv: "spin_inv Q K s" and p: "pc s a = Enqueue_cas l v"
    and w: "w = lock_word (Q l @ [a]) (locked_bit K s l)" and p': "p' = (if Q l = [] then Wait_lock l else Set_locked l v)" and v: "Q l \<noteq> [] \<longrightarrow> drop_bit 2 v = qid_of (last (Q l))"
  shows "spin_inv (Q(l := Q l @ [a])) K (goto a p' (set_value l w s))"
proof -
  note d = spin_invD [OF inv]
  let ?s = "goto a p' (set_value l w s)"
  have out: "a \<notin> set (Q k)" for k using d(4) p by simp
  have bit: "locked_bit K ?s m = locked_bit K s m" for m using p p' by (auto simp: locked_bit_def)
  have lk: "linked ?s x b \<longleftrightarrow> linked s x b" if "b \<noteq> a" for x b using that by (auto simp: linked_def)
  have hd: "head_ok ?s b \<longleftrightarrow> head_ok s b" if "b \<noteq> a" for b using that by (auto simp: head_ok_def)
  have none: "qn_next (qnodes s a) = None" using d(11) [of a] p by (simp add: pc_ok_def)
  have pk: "pc_ok (Q(l := Q l @ [a])) ?s b" for b
    using d(11) [of b] p' by (auto simp: pc_ok_def adj_snoc split: spin_pc.splits)
  show ?thesis
  proof (rule spin_invI)
    fix m x b assume ad: "adj ((Q(l := Q l @ [a])) m) x b"
    show "linked ?s x b"
    proof (cases "adj (Q m) x b")
      case True
      then show ?thesis using d(8) [OF True] lk out adj_in(2) [OF True] by metis
    next
      case False
      then have "m = l" "Q l \<noteq> []" "x = last (Q l)" "b = a" using ad by (auto simp: adj_snoc split: if_splits)
      then show ?thesis using v p' d(10) [of l] by (simp add: linked_def)
    qed
  next
    fix m assume "(Q(l := Q l @ [a])) m \<noteq> []"
    show "head_ok ?s (hd ((Q(l := Q l @ [a])) m))"
    proof (cases "Q m = []")
      case True
      then have "m = l" using \<open>(Q(l := Q l @ [a])) m \<noteq> []\<close> by (auto split: if_splits)
      then show ?thesis using True p' by (simp add: head_ok_def)
    next
      case False
      then have "hd (Q m) \<noteq> a" using out hd_in_set [OF False] by metis
      then show ?thesis using d(9) [OF False] hd False by (auto simp: hd_append)
    qed
  next
    fix m b assume "handing (pc ?s b) = Some m"
    then have h: "handing (pc s b) = Some m" "b \<noteq> a" using p' by (auto split: if_splits)
    then have "b \<in> set (Q m)" using d(4) handing_queued by metis
    then show "K m = Some b \<and> hd ((Q(l := Q l @ [a])) m) = b" using d(5) [OF h(1)] by (cases "Q m") auto
  qed (use d p out p' bit pk w none in \<open>auto split: if_splits\<close>)
qed

lemma waiting_prev:
  assumes inv: "spin_inv Q K s" and "queued_at (pc s a) = Some l" "\<not> head_ok s a"
  shows "\<exists>p. adj (Q l) p a \<and> linked s p a \<and> is_ctx s p \<and> small_ctx p"
proof -
  note d = spin_invD [OF inv]
  have "a \<in> set (Q l)" using d(4) assms(2) by simp
  moreover from this have "Q l \<noteq> []" by auto
  then have "hd (Q l) \<noteq> a" using d(9) assms(3) by metis
  ultimately obtain p where "adj (Q l) p a" using ex_prev by metis
  then show ?thesis using d(8) queued_small [OF inv] adj_in(1) by metis
qed

lemma step_set_locked:
  assumes inv: "spin_inv Q K s" and p: "pc s a = Set_locked l v"
  shows "\<exists>x. drop_bit 2 v = qid_of x \<and> is_ctx s x \<and> small_ctx x
    \<and> spin_inv Q K (goto a (Set_next l x) (set_qnode a (qnodes s a\<lparr>qn_locked := True\<rparr>) s))"
proof -
  note d = spin_invD [OF inv]
  obtain x where x: "adj (Q l) x a" "linked s x a" "is_ctx s x" "small_ctx x"
    using waiting_prev [OF inv, of a l] p by (auto simp: head_ok_def)
  have v: "drop_bit 2 v = qid_of x" "qn_next (qnodes s x) = None" using x(2) p by (auto simp: linked_def)
  let ?s = "goto a (Set_next l x) (set_qnode a (qnodes s a\<lparr>qn_locked := True\<rparr>) s)"
  have bit: "locked_bit K ?s m = locked_bit K s m" for m using p by (auto simp: locked_bit_def)
  have lk: "linked ?s y b \<longleftrightarrow> linked s y b" if "b \<noteq> a" for y b using that by (auto simp: linked_def)
  have hd: "head_ok ?s b \<longleftrightarrow> head_ok s b" if "b \<noteq> a" for b using that by (auto simp: head_ok_def)
  have nh: "\<not> head_ok s a" using p by (simp add: head_ok_def)
  have pk: "pc_ok Q ?s b" for b
    using d(11) [of b] by (auto simp: pc_ok_def split: spin_pc.splits)
  have "spin_inv Q K ?s"
  proof (rule spin_invI)
    fix m y b assume ad: "adj (Q m) y b"
    show "linked ?s y b"
    proof (cases "b = a")
      case True
      then have "m = l" using adj_in(2) [OF ad] d(4) p by auto
      then have "y = x" using adj_prev [OF d(3) ad] x(1) True by simp
      then show ?thesis using True v by (auto simp: linked_def)
    qed (use d(8) [OF ad] lk in simp)
  next
    fix m assume "Q m \<noteq> []"
    then show "head_ok ?s (hd (Q m))" using d(9) [of m] hd nh by metis
  qed (use d p bit pk in \<open>auto split: if_splits\<close>)
  then show ?thesis using v(1) x(3,4) by blast
qed

lemma step_set_next:
  assumes inv: "spin_inv Q K s" and p: "pc s a = Set_next l x"
  shows "spin_inv Q K (goto a (Wait_qnode l) (set_qnode x (qnodes s x\<lparr>qn_next := Some a\<rparr>) s))"
proof -
  note d = spin_invD [OF inv]
  obtain x' where x: "adj (Q l) x' a" "linked s x' a" using waiting_prev [OF inv, of a l] p by (auto simp: head_ok_def)
  have e: "x' = x" "qn_locked (qnodes s a)" "qn_next (qnodes s x) = None" using x(2) p by (auto simp: linked_def)
  have qx: "queued_at (pc s x) = Some l" using adj_in(1) [OF x(1)] d(4) e by simp
  have xa: "x \<noteq> a" using adj_irrefl [OF d(3)] x(1) e by metis
  let ?s = "goto a (Wait_qnode l) (set_qnode x (qnodes s x\<lparr>qn_next := Some a\<rparr>) s)"
  have bit: "locked_bit K ?s m = locked_bit K s m" for m using p by (auto simp: locked_bit_def)
  have lk: "linked ?s y b \<longleftrightarrow> linked s y b" if "b \<noteq> a" "y \<noteq> x" for y b using that by (auto simp: linked_def)
  have hd: "head_ok ?s b \<longleftrightarrow> head_ok s b" if "b \<noteq> a" for b using that by (auto simp: head_ok_def)
  have nh: "\<not> head_ok s a" using p by (simp add: head_ok_def)
  have pk: "pc_ok Q ?s b" for b
    using d(11) [of b] e(3) qx by (auto simp: pc_ok_def split: spin_pc.splits)
  show ?thesis
  proof (rule spin_invI)
    fix m y b assume ad: "adj (Q m) y b"
    show "linked ?s y b"
    proof (cases "b = a")
      case True
      then have "m = l" using adj_in(2) [OF ad] d(4) p by auto
      then have "y = x" using adj_prev [OF d(3) ad] x(1) True e by simp
      then show ?thesis using True e xa by (simp add: linked_def)
    next
      case False
      have "y \<noteq> x"
      proof
        assume "y = x"
        then have "m = l" using adj_in(1) [OF ad] d(4) qx by auto
        then show False using adj_next [OF d(3) ad] x(1) \<open>y = x\<close> e False by simp
      qed
      then show ?thesis using d(8) [OF ad] lk False by simp
    qed
  next
    fix m assume "Q m \<noteq> []"
    then show "head_ok ?s (hd (Q m))" using d(9) [of m] hd nh by metis
  next
    fix m assume q: "Q m \<noteq> []"
    have "last (Q m) \<noteq> x"
    proof
      assume "last (Q m) = x"
      then have "m = l" using last_in_set [OF q] d(4) qx by auto
      then show False using adj_last [OF d(3) x(1)] e \<open>last (Q m) = x\<close> by simp
    qed
    then show "qn_next (qnodes ?s (last (Q m))) = None" using d(10) [OF q] by simp
  qed (use d p bit pk in \<open>auto split: if_splits\<close>)
qed

lemma head_of:
  assumes inv: "spin_inv Q K s" and "queued_at (pc s a) = Some l" "\<And>p. \<not> linked s p a"
  shows "\<exists>ws. Q l = a # ws"
proof -
  note d = spin_invD [OF inv]
  have "a \<in> set (Q l)" using d(4) assms(2) by simp
  moreover have "hd (Q l) = a" using ex_prev [OF calculation] d(8) assms(3) by blast
  ultimately show ?thesis by (cases "Q l") auto
qed

lemma step_stay:
  assumes inv: "spin_inv Q K s" and p: "queued_at (pc s a) = Some l" "queued_at p = Some l" "handing p = handing (pc s a)"
    and nl: "\<And>y. \<not> linked s y a" and h: "handing p \<noteq> None \<or> p = Wait_lock l"
    and pa: "pc_ok Q (goto a p s) a" and bit: "locked_bit K (goto a p s) l = locked_bit K s l"
  shows "spin_inv Q K (goto a p s)"
proof -
  note d = spin_invD [OF inv]
  have bit: "locked_bit K (goto a p s) m = locked_bit K s m" for m
    using bit p by (cases "m = l") (auto simp: locked_bit_def)
  have lk: "linked s y b \<Longrightarrow> linked (goto a p s) y b" for y b
    using nl [of y] by (cases "b = a") (blast, simp add: linked_def)
  have hd: "head_ok s b \<Longrightarrow> head_ok (goto a p s) b" for b using h by (auto simp: head_ok_def)
  have pk: "pc_ok Q (goto a p s) b" for b
    using d(11) [of b] pa by (cases "b = a") (auto simp: pc_ok_def split: spin_pc.splits)
  show ?thesis
  proof (rule spin_invI)
    show "linked (goto a p s) y b" if "adj (Q m) y b" for m y b using lk d(8) [OF that] by blast
    show "head_ok (goto a p s) (hd (Q m))" if "Q m \<noteq> []" for m using hd d(9) [OF that] by blast
    show "is_ctx (goto a p s) b" if "pc (goto a p s) b \<noteq> Ready" for b using d(2) p that by (cases "b = a") force+
  qed (use d p bit pk in \<open>auto split: if_splits\<close>)
qed

lemma step_wait_qnode:
  assumes "spin_inv Q K s" "pc s a = Wait_qnode l" "\<not> qn_locked (qnodes s a)"
  shows "spin_inv Q K (goto a (Wait_lock l) s)"
  by (rule step_stay [OF assms(1)]) (use assms(2,3) in \<open>auto simp: linked_def pc_ok_def locked_bit_def\<close>)

lemma step_wait_lock:
  assumes inv: "spin_inv Q K s" and p: "pc s a = Wait_lock l" "\<not> locked_bit K s l"
  shows "spin_inv Q (K(l := Some a)) (goto a (Downgrade l) s)" "K l = None" "\<exists>ws. Q l = a # ws"
proof -
  note d = spin_invD [OF inv]
  let ?s = "goto a (Downgrade l) s"
  have nl: "\<not> linked s y a" for y using p by (simp add: linked_def)
  show q: "\<exists>ws. Q l = a # ws" using head_of [OF inv _ nl] p by simp
  show k: "K l = None" using free_lock [OF inv p(2)] q p(1) by auto
  have nh: "handing (pc s b) \<noteq> Some l" for b using d(5) k by fastforce
  have bit: "locked_bit (K(l := Some a)) ?s m = locked_bit K s m" for m
    using p k by (auto simp: locked_bit_def)
  have lk: "linked s y b \<Longrightarrow> linked ?s y b" for y b using p by (auto simp: linked_def)
  have hd: "head_ok s b \<Longrightarrow> head_ok ?s b" for b by (auto simp: head_ok_def)
  have pk: "pc_ok Q ?s b" for b
    using d(11) [of b] by (auto simp: pc_ok_def split: spin_pc.splits)
  show "spin_inv Q (K(l := Some a)) ?s"
  proof (rule spin_invI)
    show "linked ?s y b" if "adj (Q m) y b" for m y b using lk d(8) [OF that] by blast
    show "head_ok ?s (hd (Q m))" if "Q m \<noteq> []" for m using hd d(9) [OF that] by blast
    show "(K(l := Some a)) m = Some b \<longleftrightarrow> m \<in> held ?s b \<or> handing (pc ?s b) = Some m" for m b
      using d(6) [of m b] k p nh by (auto split: if_splits)
    show "(K(l := Some a)) m = Some b \<and> hd (Q m) = b" if "handing (pc ?s b) = Some m" for m b
      using that d(5) [of b m] q nh by (auto split: if_splits)
  qed (use d p bit pk in \<open>auto split: if_splits\<close>)
qed

lemma handing_head:
  assumes inv: "spin_inv Q K s" and "handing (pc s a) = Some l"
  shows "\<exists>ws. Q l = a # ws" "K l = Some a"
proof -
  note d = spin_invD [OF inv]
  have "a \<in> set (Q l)" using d(4) handing_queued [OF assms(2)] by simp
  then show "\<exists>ws. Q l = a # ws" "K l = Some a" using d(5) [OF assms(2)] by (cases "Q l"; auto)+
qed

lemma step_busy:
  assumes inv: "spin_inv Q K s" and p: "pc s a = Downgrade l" "last (Q l) \<noteq> a"
  shows "spin_inv Q K (goto a (Set_lock l) s)"
proof -
  obtain ws where "Q l = a # ws" using handing_head(1) [OF inv, of a l] p by auto
  then obtain b where b: "adj (Q l) a b" using ex_next [of a "Q l"] p(2) by auto
  show ?thesis
  proof (rule step_stay [OF inv, of a l])
    show "pc_ok Q (goto a (Set_lock l) s) a" using b by (auto simp: pc_ok_def)
    show "locked_bit K (goto a (Set_lock l) s) l = locked_bit K s l"
      using p handing_head(2) [OF inv, of a l] by (simp add: locked_bit_def)
  qed (use p in \<open>simp_all add: linked_def\<close>)
qed

lemma step_set_lock:
  assumes inv: "spin_inv Q K s" and p: "pc s a = Set_lock l"
  shows "spin_inv Q K (goto a (Wait_next l) (set_value l (lock_word (Q l) True) s))"
proof -
  note d = spin_invD [OF inv]
  let ?s = "goto a (Wait_next l) (set_value l (lock_word (Q l) True) s)"
  have k: "K l = Some a" using handing_head(2) [OF inv, of a l] p by simp
  have bit: "locked_bit K ?s m = (m = l \<or> locked_bit K s m)" for m using p k by (auto simp: locked_bit_def)
  have lk: "linked s y b \<Longrightarrow> linked ?s y b" for y b using p by (auto simp: linked_def)
  have hd: "head_ok s b \<Longrightarrow> head_ok ?s b" for b by (auto simp: head_ok_def)
  have pk: "pc_ok Q ?s b" for b
    using d(11) [of b] d(11) [of a] p by (auto simp: pc_ok_def split: spin_pc.splits)
  show ?thesis
  proof (rule spin_invI)
    show "linked ?s y b" if "adj (Q m) y b" for m y b using lk d(8) [OF that] by blast
    show "head_ok ?s (hd (Q m))" if "Q m \<noteq> []" for m using hd d(9) [OF that] by blast
  qed (use d p bit pk in \<open>auto split: if_splits\<close>)
qed

lemma step_wait_next:
  assumes inv: "spin_inv Q K s" and p: "pc s a = Wait_next l" "qn_next (qnodes s a) = Some n"
  shows "spin_inv Q K (goto a (Clear_next l n) s)"
proof -
  obtain b where b: "adj (Q l) a b" using spin_invD(11) [OF inv, of a] p by (auto simp: pc_ok_def)
  then have "b = n" using spin_invD(8) [OF inv b] p(2) by (auto simp: linked_def)
  show ?thesis
  proof (rule step_stay [OF inv, of a l])
    show "pc_ok Q (goto a (Clear_next l n) s) a" using b p(2) \<open>b = n\<close> by (auto simp: pc_ok_def)
    show "locked_bit K (goto a (Clear_next l n) s) l = locked_bit K s l"
      using p handing_head(2) [OF inv, of a l] by (simp add: locked_bit_def)
  qed (use p in \<open>simp_all add: linked_def\<close>)
qed

lemma step_granted:
  assumes inv: "spin_inv Q K s" and p: "pc s a = Downgrade l" "last (Q l) = a"
  shows "spin_inv (Q(l := [])) K (acquired a l (set_value l 1 s))" "Q l = [a]"
proof -
  note d = spin_invD [OF inv]
  let ?s = "acquired a l (set_value l 1 s)"
  obtain ws where "Q l = a # ws" using handing_head(1) [OF inv, of a l] p by auto
  then show q: "Q l = [a]" using d(3) [of l] p(2) by (cases ws) (auto split: if_splits)
  have k: "K l = Some a" using handing_head(2) [OF inv, of a l] p by simp
  have out: "a \<notin> set (Q m)" if "m \<noteq> l" for m using d(4) p that by simp
  have bit: "locked_bit K ?s m = (m = l \<or> locked_bit K s m)" for m using p k by (auto simp: locked_bit_def)
  have lk: "linked s y b \<Longrightarrow> linked ?s y b" for y b using p by (auto simp: linked_def)
  have hd: "head_ok s b \<Longrightarrow> b \<noteq> a \<Longrightarrow> head_ok ?s b" for b by (auto simp: head_ok_def)
  have pk: "pc_ok (Q(l := [])) ?s b" for b
    using d(11) [of b] q by (auto simp: pc_ok_def split: spin_pc.splits)
  show "spin_inv (Q(l := [])) K ?s"
  proof (rule spin_invI)
    show "linked ?s y b" if "adj ((Q(l := [])) m) y b" for m y b using that lk d(8) [of m y b] by (auto split: if_splits)
    show "head_ok ?s (hd ((Q(l := [])) m))" if "(Q(l := [])) m \<noteq> []" for m
    proof -
      have "m \<noteq> l" "Q m \<noteq> []" using that by (auto split: if_splits)
      then have "hd (Q m) \<noteq> a" using out hd_in_set by metis
      then show ?thesis using hd d(9) [of m] \<open>m \<noteq> l\<close> \<open>Q m \<noteq> []\<close> by simp
    qed
    show "b \<in> set ((Q(l := [])) m) \<longleftrightarrow> queued_at (pc ?s b) = Some m" for m b
      using d(4) [of b m] q out [of m] d(4) [of b l] by (auto split: if_splits)
    show "K m = Some b \<and> hd ((Q(l := [])) m) = b" if "handing (pc ?s b) = Some m" for m b
    proof -
      have h: "handing (pc s b) = Some m" "b \<noteq> a" using that by (auto split: if_splits)
      then have "b \<in> set (Q m)" using d(4) handing_queued by metis
      then have "m \<noteq> l" using q h(2) by auto
      then show ?thesis using d(5) [OF h(1)] by simp
    qed
    show "K m = Some b \<longleftrightarrow> m \<in> held ?s b \<or> handing (pc ?s b) = Some m" for m b
      using d(6) [of m b] p k by (auto split: if_splits)
  qed (use d p bit pk q in \<open>auto simp: lock_word_def split: if_splits\<close>)
qed

lemma step_clear:
  assumes inv: "spin_inv Q K s" and p: "pc s a = Clear_next l n"
  shows "\<exists>ws. Q l = a # n # ws \<and> spin_inv (Q(l := n # ws)) K (acquired a l (set_qnode n (qnodes s n\<lparr>qn_locked := False\<rparr>) s))"
proof -
  note d = spin_invD [OF inv]
  let ?s = "acquired a l (set_qnode n (qnodes s n\<lparr>qn_locked := False\<rparr>) s)"
  have n: "adj (Q l) a n" "qn_next (qnodes s a) = Some n" using d(11) [of a] p by (auto simp: pc_ok_def)
  obtain vs where "Q l = a # vs" using handing_head(1) [OF inv, of a l] p by auto
  then obtain ws where q: "Q l = a # n # ws" using n(1) d(3) [of l] by (auto simp: adj_Cons dest: adj_in)
  have k: "K l = Some a" using handing_head(2) [OF inv, of a l] p by simp
  have pn: "pc s n = Wait_qnode l" using d(8) [OF n(1)] n(2) d(4) [of n l] q by (auto simp: linked_def)
  have out: "a \<notin> set ((Q(l := n # ws)) m)" for m using d(4) [of a m] p q d(3) [of l] by auto
  have nout: "n \<notin> set (Q m)" if "m \<noteq> l" for m using d(4) pn that by simp
  have an: "a \<noteq> n" using d(3) [of l] q by auto
  have sub: "adj (Q m) y b \<and> b \<noteq> a \<and> b \<noteq> n" if "adj ((Q(l := n # ws)) m) y b" for m y b
  proof -
    have "b \<noteq> hd (n # ws)" if "m = l" using adj_hd [of "n # ws" y b] d(3) [of l] q \<open>adj ((Q(l := n # ws)) m) y b\<close> that by simp
    then show ?thesis using that out [of m] nout [of m] adj_in(2) [OF that] q by (auto simp: adj_Cons split: if_splits)
  qed
  have bit: "locked_bit K ?s m = locked_bit K s m" for m using p by (auto simp: locked_bit_def)
  have lk: "linked s y b \<Longrightarrow> b \<noteq> n \<Longrightarrow> linked ?s y b" for y b using p by (auto simp: linked_def)
  have hd: "head_ok s b \<Longrightarrow> b \<noteq> a \<Longrightarrow> head_ok ?s b" for b by (auto simp: head_ok_def)
  have pk: "pc_ok (Q(l := n # ws)) ?s b" for b
  proof (cases "queued_at (pc s b) = Some l \<and> handing (pc s b) = Some l")
    case True
    then have "b = a" using d(5) [of b l] k by simp
    then show ?thesis by (simp add: pc_ok_def)
  next
    case False
    then show ?thesis using d(11) [of b] by (auto simp: pc_ok_def split: spin_pc.splits)
  qed
  have "spin_inv (Q(l := n # ws)) K ?s"
  proof (rule spin_invI)
    show "linked ?s y b" if "adj ((Q(l := n # ws)) m) y b" for m y b using lk d(8) sub [OF that] by blast
    show "head_ok ?s (hd ((Q(l := n # ws)) m))" if "(Q(l := n # ws)) m \<noteq> []" for m
    proof (cases "m = l")
      case True
      then show ?thesis using pn an by (simp add: head_ok_def)
    next
      case False
      then have "Q m \<noteq> []" "hd (Q m) \<noteq> a" using that out [of m] hd_in_set [of "Q m"] by (auto split: if_splits)
      then show ?thesis using hd d(9) [of m] False by simp
    qed
    show "b \<in> set ((Q(l := n # ws)) m) \<longleftrightarrow> queued_at (pc ?s b) = Some m" for m b
      using d(4) [of b m] q out [of m] d(4) [of b l] by (auto split: if_splits)
    show "K m = Some b \<and> hd ((Q(l := n # ws)) m) = b" if "handing (pc ?s b) = Some m" for m b
    proof -
      have h: "handing (pc s b) = Some m" "b \<noteq> a" using that by (auto split: if_splits)
      then have "m \<noteq> l" using d(5) [OF h(1)] k by auto
      then show ?thesis using d(5) [OF h(1)] by simp
    qed
    show "K m = Some b \<longleftrightarrow> m \<in> held ?s b \<or> handing (pc ?s b) = Some m" for m b
      using d(6) [of m b] p k by (auto split: if_splits)
    show "sl_value (locks ?s m) = lock_word ((Q(l := n # ws)) m) (locked_bit K ?s m)" for m
      using d(7) [of m] bit q by (auto simp: lock_word_def)
    show "qn_next (qnodes ?s (last ((Q(l := n # ws)) m))) = None" if "(Q(l := n # ws)) m \<noteq> []" for m
      using d(10) [of m] that q by (auto split: if_splits)
    show "distinct ((Q(l := n # ws)) m)" for m using d(3) [of m] d(3) [of l] q by auto
    show "is_ctx ?s b" if "pc ?s b \<noteq> Ready" for b using d(2) that by (auto split: if_splits)
  qed (use d(1) pk in auto)
  then show ?thesis using q by blast
qed

lemma step_unlock:
  assumes inv: "spin_inv Q K s" and p: "pc s a = Ready" "l \<in> held s a"
  shows "spin_inv Q (K(l := None)) ((set_value l (lock_word (Q l) False) s)\<lparr>held := (held s)(a := held s a - {l})\<rparr>)" "K l = Some a"
proof -
  note d = spin_invD [OF inv]
  let ?s = "(set_value l (lock_word (Q l) False) s)\<lparr>held := (held s)(a := held s a - {l})\<rparr>"
  show k: "K l = Some a" using d(6) p by blast
  have nh: "handing (pc s b) \<noteq> Some l" for b using d(5) [of b l] k p by auto
  have u: "pc ?s = pc s" "qnodes ?s = qnodes s" "nr_cpus ?s = nr_cpus s" "is_ctx ?s = is_ctx s" by (auto simp: set_value_def is_ctx_def fun_eq_iff)
  have v: "sl_value (locks ?s m) = (if m = l then lock_word (Q l) False else sl_value (locks s m))" for m by (simp add: set_value_def)
  have bit: "locked_bit (K(l := None)) ?s m = (m \<noteq> l \<and> locked_bit K s m)" for m by (auto simp: locked_bit_def u)
  have lk: "linked ?s y b = linked s y b" for y b by (simp add: linked_def u)
  have hd: "head_ok ?s b = head_ok s b" for b by (simp add: head_ok_def u)
  have pk: "pc_ok Q ?s b = pc_ok Q s b" for b unfolding pc_ok_def u ..
  show "spin_inv Q (K(l := None)) ?s"
  proof (rule spin_invI)
    show "(K(l := None)) m = Some b \<longleftrightarrow> m \<in> held ?s b \<or> handing (pc ?s b) = Some m" for m b
    proof (cases "m = l")
      case True
      then show ?thesis using d(6) [of l b] k nh [of b] u(1) by auto
    qed (use d(6) [of m b] u(1) in auto)
  qed (use d nh in \<open>auto simp: u v bit lk hd pk\<close>)
qed

end
