(* ===== verification/Spinlock_Props.thy ===== *)
theory Spinlock_Props
  imports Spinlock_Inv
begin

text \<open>
  The spin locks implement locks with a queue (\<open>queue_step\<close>): a context takes a free lock that nobody waits for, or
  waits at the end of the queue until it is the first one and the lock is free. Whatever the interleaving, a lock has one owner, no
  assertion fails, and the first waiting context gets a free lock within two of its own steps.
\<close>

record queue_lock =
  owner :: "exec_ctx option"
  waiting :: "exec_ctx list"

inductive queue_step :: "exec_ctx \<Rightarrow> (nat \<Rightarrow> queue_lock) \<Rightarrow> (nat \<Rightarrow> queue_lock) \<Rightarrow> bool" where
  queue_take: "owner (L l) = None \<Longrightarrow> waiting (L l) = [] \<Longrightarrow> queue_step a L (L(l := \<lparr>owner = Some a, waiting = []\<rparr>))"
| queue_wait: "queue_step a L (L(l := \<lparr>owner = owner (L l), waiting = waiting (L l) @ [a]\<rparr>))"
| queue_grant: "owner (L l) = None \<Longrightarrow> waiting (L l) = a # ws \<Longrightarrow> queue_step a L (L(l := \<lparr>owner = Some a, waiting = ws\<rparr>))"
| queue_release: "owner (L l) = Some a \<Longrightarrow> queue_step a L (L(l := \<lparr>owner = None, waiting = waiting (L l)\<rparr>))"
| queue_idle: "queue_step a L L"

inductive queue_run :: "exec_ctx list \<Rightarrow> (nat \<Rightarrow> queue_lock) \<Rightarrow> bool" where
  queue_run_Nil: "queue_run [] (\<lambda>_. \<lparr>owner = None, waiting = []\<rparr>)"
| queue_run_snoc: "queue_run as L \<Longrightarrow> queue_step a L L' \<Longrightarrow> queue_run (as @ [a]) L'"

text \<open>A context has a lock from the moment it finds the lock bit clear at the head of the queue.\<close>

definition holds :: "spin_state \<Rightarrow> exec_ctx \<Rightarrow> nat \<Rightarrow> bool" where
  "holds s a l \<longleftrightarrow> l \<in> held s a \<or> handing (pc s a) = Some l"

definition waits :: "spin_state \<Rightarrow> exec_ctx \<Rightarrow> nat \<Rightarrow> bool" where
  "waits s a l \<longleftrightarrow> queued_at (pc s a) = Some l \<and> handing (pc s a) = None"

definition hands :: "spin_state \<Rightarrow> nat \<Rightarrow> bool" where
  "hands s l \<longleftrightarrow> (\<exists>a. handing (pc s a) = Some l)"

definition queue_abs :: "(nat \<Rightarrow> exec_ctx list) \<Rightarrow> (nat \<Rightarrow> exec_ctx option) \<Rightarrow> spin_state \<Rightarrow> nat \<Rightarrow> queue_lock" where
  "queue_abs Q K s l = \<lparr>owner = K l, waiting = if hands s l then tl (Q l) else Q l\<rparr>"

section \<open>Simulation\<close>

lemma hands_iff: "spin_inv Q K s \<Longrightarrow> hands s l \<longleftrightarrow> (\<exists>a. K l = Some a \<and> handing (pc s a) = Some l)"
  using spin_invD(5) unfolding hands_def by blast

lemma hands_same:
  assumes "\<And>b. b \<noteq> a \<Longrightarrow> pc s' b = pc s b" "handing (pc s' a) = handing (pc s a)"
  shows "hands s' l = hands s l"
  using assms unfolding hands_def by metis

lemma hands_other:
  assumes "\<And>b. b \<noteq> a \<Longrightarrow> pc s' b = pc s b" "handing (pc s a) \<noteq> Some m" "handing (pc s' a) \<noteq> Some m"
  shows "hands s' m = hands s m"
  using assms unfolding hands_def by metis

lemma abs_idle:
  assumes "\<And>b. b \<noteq> a \<Longrightarrow> pc s' b = pc s b" "handing (pc s' a) = handing (pc s a)"
  shows "queue_abs Q K s' = queue_abs Q K s"
  using hands_same [of a s' s, OF assms] by (auto simp: queue_abs_def)

lemma abs_upd:
  assumes "\<And>b. b \<noteq> a \<Longrightarrow> pc s' b = pc s b" "handing (pc s a) = None \<or> handing (pc s a) = Some l" "handing (pc s' a) = None \<or> handing (pc s' a) = Some l"
    and "\<And>m. m \<noteq> l \<Longrightarrow> Q' m = Q m \<and> K' m = K m"
  shows "queue_abs Q' K' s' = (queue_abs Q K s)(l := queue_abs Q' K' s' l)"
proof
  fix m
  show "queue_abs Q' K' s' m = ((queue_abs Q K s)(l := queue_abs Q' K' s' l)) m"
  proof (cases "m = l")
    case False
    then have "hands s' m = hands s m" using assms(1-3) by (intro hands_other) auto
    then show ?thesis using False assms(4) by (simp add: queue_abs_def)
  qed simp
qed

definition simulated :: "exec_ctx \<Rightarrow> (nat \<Rightarrow> exec_ctx list) \<Rightarrow> (nat \<Rightarrow> exec_ctx option) \<Rightarrow> spin_state \<Rightarrow> spin_state \<Rightarrow> bool" where
  "simulated a Q K s s' \<longleftrightarrow> (\<exists>Q' K'. spin_inv Q' K' s' \<and> queue_step a (queue_abs Q K s) (queue_abs Q' K' s'))"

lemma sim_idle:
  assumes "spin_inv Q K s'" "\<And>b. b \<noteq> a \<Longrightarrow> pc s' b = pc s b" "handing (pc s' a) = handing (pc s a)"
  shows "simulated a Q K s s'"
proof -
  have "queue_abs Q K s' = queue_abs Q K s" by (rule abs_idle [OF assms(2,3)])
  then show ?thesis unfolding simulated_def using assms(1) queue_idle [of a "queue_abs Q K s"] by metis
qed

lemma local_qnode:
  assumes "spin_inv Q K s" "is_ctx s a"
  shows "spinlock_get_local_qnode a s = Some (a, qid_of a)"
  using small [OF assms] qid_build assms(2) by (simp add: spinlock_get_local_qnode_def spinlock_cpu_data_get_qnode_def is_ctx_def)

lemma remote_qnode:
  assumes "small_ctx a" "is_ctx s a"
  shows "spinlock_get_remote_qnode (qid_of a) s = Some a"
  using qid_decode [OF assms(1)] assms(2) by (simp add: spinlock_get_remote_qnode_def spinlock_cpu_data_get_qnode_def is_ctx_def)

lemma not_hands: "spin_inv Q K s \<Longrightarrow> K l = None \<Longrightarrow> \<not> hands s l"
  using hands_iff by fastforce

lemma qid_shift: "SPINLOCK_QID_SHIFT = 2" by (simp add: SPINLOCK_QID_SHIFT_def SPINLOCK_LOCKED_BITS_def SPINLOCK_CONTENDED_BITS_def)

lemma enqueue_cas_iff:
  assumes "w = push_bit 2 qid OR 2 OR (v AND 1)"
  shows "spinlock_enqueue_cas l qid v s = (if sl_value (locks s l) = v then (v, set_value l w s) else (sl_value (locks s l), s))"
  by (simp add: assms spinlock_enqueue_cas_def atomic_cas_def qid_shift SPINLOCK_CONTENDED_def SPINLOCK_LOCKED_def Let_def or.assoc)

lemma downgrade_iff:
  assumes "w = push_bit 2 qid OR 2"
  shows "spinlock_downgrade l qid s = (if sl_value (locks s l) = w then (if w AND 2 \<noteq> 0 then Some (None, set_value l 1 s) else None)
    else if sl_value (locks s l) AND 2 \<noteq> 0 then Some (Some EBUSY, s) else None)"
  by (simp add: assms spinlock_downgrade_def atomic_cas_def qid_shift SPINLOCK_CONTENDED_def SPINLOCK_LOCKED_def Let_def)

lemma next_fast:
  assumes inv: "spin_inv Q K s" and p: "pc s a = Lock_fast l t"
  shows "\<exists>s'. spin_next a s = Some s' \<and> simulated a Q K s s'"
proof (cases "sl_value (locks s l) = 0")
  case True
  let ?s = "acquired a l (set_value l 1 s)"
  note t = step_take [OF inv p True]
  have "\<not> hands s l" using not_hands [OF inv] t(2) by blast
  moreover have "\<not> hands ?s l" using \<open>\<not> hands s l\<close> p by (auto simp: hands_def)
  moreover have "queue_abs Q (K(l := Some a)) ?s = (queue_abs Q K s)(l := queue_abs Q (K(l := Some a)) ?s l)"
    by (rule abs_upd) (use p in auto)
  ultimately have "queue_step a (queue_abs Q K s) (queue_abs Q (K(l := Some a)) ?s)"
    using queue_take [of "queue_abs Q K s" l a] t(2,3) by (simp add: queue_abs_def)
  then have "simulated a Q K s ?s" unfolding simulated_def using t(1) by blast
  then show ?thesis using p True by (simp add: spin_next_def spinlock_lock_fast_def atomic_cas_def spin_defs)
next
  case False
  let ?s = "goto a (if t then Ready else Qnode_init l) s"
  have "spin_inv Q K ?s" by (rule step_idle [OF inv spin_invD(2) [OF inv]]) (use p in \<open>auto split: if_splits\<close>)
  then have "simulated a Q K s ?s" by (rule sim_idle) (use p in auto)
  then show ?thesis using p False by (simp add: spin_next_def spinlock_lock_fast_def atomic_cas_def spin_defs)
qed

lemma next_enqueue:
  assumes inv: "spin_inv Q K s" and p: "pc s a = Enqueue_cas l v"
  shows "\<exists>s'. spin_next a s = Some s' \<and> simulated a Q K s s'"
proof -
  note d = spin_invD [OF inv]
  have c: "is_ctx s a" using d(2) p by simp
  let ?b = "locked_bit K s l"
  let ?w = "lock_word (Q l @ [a]) ?b"
  have w: "push_bit 2 (qid_of a) OR 2 OR (lock_word (Q l) ?b AND 1) = ?w" using lock_word_snoc(1) by (simp add: lock_word_masks(1))
  show ?thesis
  proof (cases "sl_value (locks s l) = v")
    case True
    let ?s = "goto a (if Q l = [] then Wait_lock l else Set_locked l v) (set_value l ?w s)"
    have v: "v = lock_word (Q l) ?b" using True d(7) by simp
    have "Q l \<noteq> [] \<longrightarrow> drop_bit 2 v = qid_of (last (Q l))" using lock_word_shift queued_small [OF inv last_in_set, of l] v by simp
    then have i: "spin_inv (Q(l := Q l @ [a])) K ?s" by (intro step_enqueue [OF inv p]) auto
    have h: "hands ?s l = hands s l" by (rule hands_same [of a]) (use p in auto)
    have "hands s l \<Longrightarrow> Q l \<noteq> []" using handing_head(1) [OF inv] by (fastforce simp: hands_def)
    then have "queue_abs (Q(l := Q l @ [a])) K ?s l = \<lparr>owner = owner (queue_abs Q K s l), waiting = waiting (queue_abs Q K s l) @ [a]\<rparr>"
      using h by (simp add: queue_abs_def)
    moreover have "queue_abs (Q(l := Q l @ [a])) K ?s = (queue_abs Q K s)(l := queue_abs (Q(l := Q l @ [a])) K ?s l)"
      by (rule abs_upd) (use p in auto)
    ultimately have "simulated a Q K s ?s" unfolding simulated_def using i queue_wait [of a "queue_abs Q K s" l] by metis
    moreover have "spinlock_enqueue_cas l (qid_of a) v s = (v, set_value l ?w s)" using enqueue_cas_iff [of ?w "qid_of a" v l s] w v True by simp
    moreover have "v AND SPINLOCK_CONTENDED \<noteq> 0 \<longleftrightarrow> Q l \<noteq> []" using lock_word_masks(2) [of "Q l" ?b] v by (simp add: SPINLOCK_CONTENDED_def)
    ultimately show ?thesis using p local_qnode [OF inv c] by (simp add: spin_next_def split: if_splits)
  next
    case False
    let ?s = "goto a (Enqueue_load l) s"
    have "qn_next (qnodes s a) = None" using d(11) [of a] p by (simp add: pc_ok_def)
    then have "spin_inv Q K ?s" by (intro step_idle [OF inv c]) (use p in auto)
    then have "simulated a Q K s ?s" by (rule sim_idle) (use p in auto)
    then show ?thesis using p False local_qnode [OF inv c] enqueue_cas_iff [OF refl, of l "qid_of a" v s] by (simp add: spin_next_def)
  qed
qed

lemma next_wait_lock:
  assumes inv: "spin_inv Q K s" and p: "pc s a = Wait_lock l"
  shows "\<exists>s'. spin_next a s = Some s' \<and> simulated a Q K s s'"
proof (cases "locked_bit K s l")
  case True
  have "simulated a Q K s s" by (rule sim_idle [OF inv]) auto
  then show ?thesis using p True spin_invD(7) [OF inv, of l] lock_word_masks(1) by (simp add: spin_next_def spin_defs)
next
  case False
  let ?s = "goto a (Downgrade l) s"
  note t = step_wait_lock [OF inv p False]
  obtain ws where q: "Q l = a # ws" using t(3) by blast
  have "hands ?s l" by (auto simp: hands_def intro: exI [of _ a])
  moreover have "\<not> hands s l" using not_hands [OF inv t(2)] .
  moreover have "queue_abs Q (K(l := Some a)) ?s = (queue_abs Q K s)(l := queue_abs Q (K(l := Some a)) ?s l)"
    by (rule abs_upd) (use p in auto)
  ultimately have "queue_step a (queue_abs Q K s) (queue_abs Q (K(l := Some a)) ?s)"
    using queue_grant [of "queue_abs Q K s" l a ws] t(2) q by (simp add: queue_abs_def)
  then have "simulated a Q K s ?s" unfolding simulated_def using t(1) by blast
  then show ?thesis using p False spin_invD(7) [OF inv, of l] lock_word_masks(1) by (simp add: spin_next_def spin_defs)
qed

lemma next_downgrade:
  assumes inv: "spin_inv Q K s" and p: "pc s a = Downgrade l"
  shows "\<exists>s'. spin_next a s = Some s' \<and> simulated a Q K s s'"
proof -
  note d = spin_invD [OF inv]
  have c: "is_ctx s a" using d(2) p by simp
  have k: "K l = Some a" using handing_head(2) [OF inv, of a l] p by simp
  obtain ws where q: "Q l = a # ws" using handing_head(1) [OF inv, of a l] p by auto
  have v: "sl_value (locks s l) = lock_word (Q l) False" using d(7) [of l] k p by (simp add: locked_bit_def)
  have e: "lock_word (Q l) False = push_bit 2 (qid_of a) OR 2 \<longleftrightarrow> last (Q l) = a"
    using lock_word_eq [of "Q l" "[a]" False False] queued_small [OF inv last_in_set, of l] small [OF inv c] q by (simp add: lock_word_snoc(2))
  have m: "(push_bit 2 (qid_of a) OR 2) AND 2 \<noteq> 0" using lock_word_masks(2) [of "[a]" False] by (simp add: lock_word_snoc(2))
  show ?thesis
  proof (cases "last (Q l) = a")
    case True
    let ?s = "acquired a l (set_value l 1 s)"
    note t = step_granted [OF inv p True]
    have "hands s l" using p by (auto simp: hands_def intro: exI [of _ a])
    moreover have "\<not> hands ?s l" using not_hands [OF t(1)] hands_iff [OF t(1)] k by auto
    moreover have "queue_abs (Q(l := [])) K ?s = (queue_abs Q K s)(l := queue_abs (Q(l := [])) K ?s l)"
      by (rule abs_upd) (use p in auto)
    ultimately have "queue_abs (Q(l := [])) K ?s = queue_abs Q K s" using t(2) by (simp add: queue_abs_def fun_eq_iff)
    then have "simulated a Q K s ?s" unfolding simulated_def using t(1) queue_idle [of a "queue_abs Q K s"] by metis
    moreover have "spinlock_downgrade l (qid_of a) s = Some (None, set_value l 1 s)" using downgrade_iff [OF refl, of l "qid_of a" s] v e m True by simp
    ultimately show ?thesis using p local_qnode [OF inv c] by (simp add: spin_next_def)
  next
    case False
    let ?s = "goto a (Set_lock l) s"
    have "simulated a Q K s ?s" by (rule sim_idle [OF step_busy [OF inv p False]]) (use p in auto)
    moreover have "spinlock_downgrade l (qid_of a) s = Some (Some EBUSY, s)"
      using downgrade_iff [OF refl, of l "qid_of a" s] v e lock_word_masks(2) [of "Q l" False] q False by simp
    ultimately show ?thesis using p local_qnode [OF inv c] by (simp add: spin_next_def)
  qed
qed

lemma next_clear:
  assumes inv: "spin_inv Q K s" and p: "pc s a = Clear_next l n"
  shows "\<exists>s'. spin_next a s = Some s' \<and> simulated a Q K s s'"
proof -
  let ?s = "acquired a l (set_qnode n (qnodes s n\<lparr>qn_locked := False\<rparr>) s)"
  have k: "K l = Some a" using handing_head(2) [OF inv, of a l] p by simp
  obtain ws where t: "Q l = a # n # ws" "spin_inv (Q(l := n # ws)) K ?s" using step_clear [OF inv p] by blast
  have "hands s l" using p by (auto simp: hands_def intro: exI [of _ a])
  moreover have "\<not> hands ?s l" using hands_iff [OF t(2)] k by auto
  moreover have "queue_abs (Q(l := n # ws)) K ?s = (queue_abs Q K s)(l := queue_abs (Q(l := n # ws)) K ?s l)"
    by (rule abs_upd) (use p in auto)
  ultimately have "queue_abs (Q(l := n # ws)) K ?s = queue_abs Q K s" using t(1) by (simp add: queue_abs_def fun_eq_iff)
  then have "simulated a Q K s ?s" unfolding simulated_def using t(2) queue_idle [of a "queue_abs Q K s"] by metis
  then show ?thesis using p by (simp add: spin_next_def spinlock_qnode_clear_locked_def)
qed

lemma next_ok:
  assumes inv: "spin_inv Q K s"
  shows "\<exists>s'. spin_next a s = Some s' \<and> simulated a Q K s s'"
proof -
  note d = spin_invD [OF inv]
  have stay: "simulated a Q K s s" by (rule sim_idle [OF inv]) auto
  show ?thesis
  proof (cases "pc s a")
    case Ready
    then show ?thesis using stay by (simp add: spin_next_def)
  next
    case (Qnode_init l)
    then have "is_ctx s a" using d(2) by simp
    moreover have "simulated a Q K s (goto a (Enqueue_load l) (set_qnode a (qnodes s a\<lparr>qn_next := None\<rparr>) s))"
      by (rule sim_idle [OF step_init [OF inv Qnode_init]]) (use Qnode_init in auto)
    ultimately show ?thesis using Qnode_init local_qnode [OF inv] by (simp add: spin_next_def spinlock_qnode_init_def)
  next
    case (Enqueue_load l)
    have "qn_next (qnodes s a) = None" using d(11) [of a] Enqueue_load by (simp add: pc_ok_def)
    then have "spin_inv Q K (goto a (Enqueue_cas l (sl_value (locks s l))) s)"
      by (intro step_idle [OF inv d(2)]) (use Enqueue_load in auto)
    then have "simulated a Q K s (goto a (Enqueue_cas l (sl_value (locks s l))) s)" by (rule sim_idle) (use Enqueue_load in auto)
    then show ?thesis using Enqueue_load by (simp add: spin_next_def)
  next
    case (Set_locked l v)
    obtain x where x: "drop_bit 2 v = qid_of x" "is_ctx s x" "small_ctx x"
      "spin_inv Q K (goto a (Set_next l x) (set_qnode a (qnodes s a\<lparr>qn_locked := True\<rparr>) s))" using step_set_locked [OF inv Set_locked] by blast
    have "simulated a Q K s (goto a (Set_next l x) (set_qnode a (qnodes s a\<lparr>qn_locked := True\<rparr>) s))"
      by (rule sim_idle [OF x(4)]) (use Set_locked in auto)
    then show ?thesis using Set_locked x(1) remote_qnode [OF x(3,2)] by (simp add: spin_next_def spinlock_qnode_set_locked_def qid_shift)
  next
    case (Set_next l x)
    have "simulated a Q K s (goto a (Wait_qnode l) (set_qnode x (qnodes s x\<lparr>qn_next := Some a\<rparr>) s))"
      by (rule sim_idle [OF step_set_next [OF inv Set_next]]) (use Set_next in auto)
    then show ?thesis using Set_next by (simp add: spin_next_def spinlock_qnode_set_next_def)
  next
    case (Wait_qnode l)
    have "simulated a Q K s (goto a (Wait_lock l) s)" if "\<not> qn_locked (qnodes s a)"
      by (rule sim_idle [OF step_wait_qnode [OF inv Wait_qnode that]]) (use Wait_qnode in auto)
    then show ?thesis using Wait_qnode stay by (simp add: spin_next_def)
  next
    case (Set_lock l)
    have "simulated a Q K s (goto a (Wait_next l) (set_value l (lock_word (Q l) True) s))"
      by (rule sim_idle [OF step_set_lock [OF inv Set_lock]]) (use Set_lock in auto)
    then show ?thesis using Set_lock d(7) lock_word_masks(3) by (simp add: spin_next_def spinlock_set_locked_def spin_defs)
  next
    case (Wait_next l)
    have "simulated a Q K s (goto a (Clear_next l n) s)" if "qn_next (qnodes s a) = Some n" for n
      by (rule sim_idle [OF step_wait_next [OF inv Wait_next that]]) (use Wait_next in auto)
    then show ?thesis using Wait_next stay by (simp add: spin_next_def split: option.splits)
  qed (use next_fast [OF inv] next_enqueue [OF inv] next_wait_lock [OF inv] next_downgrade [OF inv] next_clear [OF inv] in blast)+
qed

lemma step_simulated:
  assumes inv: "spin_inv Q K s" and "spin_step a s s'"
  shows "simulated a Q K s s'"
  using assms(2)
proof cases
  case spinlock_lock
  then show ?thesis by (auto intro!: sim_idle step_idle [OF inv])
next
  case spinlock_trylock
  then show ?thesis by (auto intro!: sim_idle step_idle [OF inv])
next
  case spinlock_access
  then show ?thesis using next_ok [OF inv, of a] by auto
next
  case (spinlock_unlock l)
  let ?s = "(set_value l (lock_word (Q l) False) s)\<lparr>held := (held s)(a := held s a - {l})\<rparr>"
  note t = step_unlock [OF inv spinlock_unlock(2,3)]
  have s': "s' = ?s" using spinlock_unlock(1) spin_invD(7) [OF inv, of l] lock_word_masks(4) by (simp add: spinlock_unlock_common_def spin_defs)
  have pc: "pc ?s = pc s" by (simp add: set_value_def)
  then have "hands ?s m = hands s m" for m by (simp add: hands_def)
  moreover have "\<not> hands s l" using hands_iff [OF inv] t(2) spinlock_unlock(2) by auto
  ultimately have "queue_abs Q (K(l := None)) ?s = (queue_abs Q K s)(l := \<lparr>owner = None, waiting = waiting (queue_abs Q K s l)\<rparr>)"
    by (auto simp: queue_abs_def fun_eq_iff)
  moreover have "owner (queue_abs Q K s l) = Some a" using t(2) by (simp add: queue_abs_def)
  ultimately show ?thesis unfolding simulated_def s' using t(1) queue_release [of "queue_abs Q K s" l a] by metis
qed

lemma run_inv:
  assumes "spin_run s0 as s" "spin_start s0"
  shows "\<exists>Q K. spin_inv Q K s \<and> queue_run as (queue_abs Q K s)"
  using assms
proof (induction rule: spin_run.induct)
  case (spin_run_Nil s)
  have "spin_inv (\<lambda>_. []) (\<lambda>_. None) s"
    using spin_run_Nil by (intro spin_invI) (auto simp: spin_start_def spin_defs lock_word_def locked_bit_def pc_ok_def)
  moreover have "queue_abs (\<lambda>_. []) (\<lambda>_. None) s = (\<lambda>_. \<lparr>owner = None, waiting = []\<rparr>)" by (auto simp: queue_abs_def)
  ultimately show ?case using queue_run_Nil by metis
next
  case (spin_run_snoc s as s' a s'')
  then obtain Q K where i: "spin_inv Q K s'" "queue_run as (queue_abs Q K s')" by blast
  show ?case using step_simulated [OF i(1) spin_run_snoc(2)] queue_run_snoc [OF i(2)] unfolding simulated_def by blast
qed

lemma holds_iff: "spin_inv Q K s \<Longrightarrow> holds s a l \<longleftrightarrow> K l = Some a"
  using spin_invD(6) by (simp add: holds_def)

lemma waits_iff:
  assumes inv: "spin_inv Q K s"
  shows "waits s a l \<longleftrightarrow> a \<in> set (waiting (queue_abs Q K s l))"
proof -
  note d = spin_invD [OF inv]
  have q: "a \<in> set (Q l) \<longleftrightarrow> queued_at (pc s a) = Some l" by (rule d(4))
  show ?thesis
  proof (cases "hands s l")
    case True
    then obtain b where b: "handing (pc s b) = Some l" by (auto simp: hands_def)
    then obtain ws where ws: "Q l = b # ws" using handing_head(1) [OF inv] by blast
    have "handing (pc s a) = None \<or> handing (pc s a) = Some l" if "queued_at (pc s a) = Some l" using that by (cases "pc s a") auto
    moreover have "handing (pc s a) = Some l \<longleftrightarrow> a = b" using b d(5) by (metis option.inject)
    ultimately show ?thesis using True ws q d(3) [of l] by (auto simp: waits_def queue_abs_def)
  next
    case False
    have "handing (pc s a) \<noteq> Some l" using False by (auto simp: hands_def)
    then have "handing (pc s a) = None" if "queued_at (pc s a) = Some l" using that by (cases "pc s a") auto
    then show ?thesis using False q by (auto simp: waits_def queue_abs_def)
  qed
qed

section \<open>The first waiting context\<close>

definition first_waits :: "spin_state \<Rightarrow> nat \<Rightarrow> exec_ctx \<Rightarrow> bool" where
  "first_waits s l a \<longleftrightarrow> (\<exists>Q K ws. spin_inv Q K s \<and> K l = None \<and> Q l = a # ws)"

definition gets_next :: "spin_state \<Rightarrow> nat \<Rightarrow> exec_ctx \<Rightarrow> bool" where
  "gets_next s l a \<longleftrightarrow> (\<exists>Q K. spin_inv Q K s) \<and> (first_waits s l a \<and> pc s a = Wait_lock l \<or> pc s a = Downgrade l)"

lemma step_pc: "spin_step b s s' \<Longrightarrow> a \<noteq> b \<Longrightarrow> pc s' a = pc s a"
  by (auto elim!: spin_step.cases simp: spin_next_def spinlock_unlock_common_def spinlock_lock_fast_def atomic_cas_def spinlock_qnode_init_def
      spinlock_enqueue_cas_def spinlock_qnode_set_locked_def spinlock_qnode_set_next_def spinlock_downgrade_def spinlock_set_locked_def
      spinlock_qnode_clear_locked_def Let_def bind_eq_Some_conv split: spin_pc.splits if_splits option.splits)

lemma queue_step_other:
  assumes "queue_step b L L'" "L l = \<lparr>owner = None, waiting = a # ws\<rparr>" "a \<noteq> b"
  shows "owner (L' l) = None \<and> (\<exists>ws. waiting (L' l) = a # ws)"
  using assms by (auto elim!: queue_step.cases)

lemma first_waits_other:
  assumes "first_waits s l a" "spin_step b s s'" "a \<noteq> b"
  shows "first_waits s' l a"
proof -
  obtain Q K ws where i: "spin_inv Q K s" "K l = None" "Q l = a # ws" using assms(1) by (auto simp: first_waits_def)
  obtain Q' K' where i': "spin_inv Q' K' s'" "queue_step b (queue_abs Q K s) (queue_abs Q' K' s')"
    using step_simulated [OF i(1) assms(2)] by (auto simp: simulated_def)
  have "queue_abs Q K s l = \<lparr>owner = None, waiting = a # ws\<rparr>" using not_hands [OF i(1,2)] i(2,3) by (simp add: queue_abs_def)
  then have q: "owner (queue_abs Q' K' s' l) = None \<and> (\<exists>ws. waiting (queue_abs Q' K' s' l) = a # ws)"
    using queue_step_other [OF i'(2)] assms(3) by blast
  then have "K' l = None" by (simp add: queue_abs_def)
  moreover have "\<exists>ws. Q' l = a # ws" using q not_hands [OF i'(1) calculation] by (simp add: queue_abs_def)
  ultimately show ?thesis using i'(1) by (auto simp: first_waits_def)
qed

lemma first_waits_pc:
  assumes "first_waits s l a"
  shows "pc s a = Wait_qnode l \<and> \<not> qn_locked (qnodes s a) \<or> pc s a = Wait_lock l" "sl_value (locks s l) AND SPINLOCK_LOCKED = 0"
proof -
  obtain Q K ws where i: "spin_inv Q K s" "K l = None" "Q l = a # ws" using assms by (auto simp: first_waits_def)
  note d = spin_invD [OF i(1)]
  have "queued_at (pc s a) = Some l" using d(4) i(3) by (metis list.set_intros(1))
  moreover have "handing (pc s a) \<noteq> Some l" using d(5) i(2) by force
  moreover have "head_ok s a" using d(9) [of l] i(3) by simp
  ultimately show "pc s a = Wait_qnode l \<and> \<not> qn_locked (qnodes s a) \<or> pc s a = Wait_lock l"
    by (cases "pc s a") (auto simp: head_ok_def)
  show "sl_value (locks s l) AND SPINLOCK_LOCKED = 0" using d(7) [of l] i(2) lock_word_masks(1) by (simp add: locked_bit_def SPINLOCK_LOCKED_def)
qed

lemma first_waits_own:
  assumes "first_waits s l a" "spin_step a s s'"
  shows "gets_next s' l a"
proof -
  obtain Q K ws where i: "spin_inv Q K s" "K l = None" "Q l = a # ws" using assms(1) by (auto simp: first_waits_def)
  have inv: "\<exists>Q K. spin_inv Q K s'" using step_simulated [OF i(1) assms(2)] by (auto simp: simulated_def)
  note f = first_waits_pc [OF assms(1)]
  then have "spin_next a s = Some s'" using assms(2) by (auto elim: spin_step.cases)
  then have "s' = goto a (Wait_lock l) s \<and> pc s a = Wait_qnode l \<or> pc s' a = Downgrade l" using f by (auto simp: spin_next_def)
  moreover have "first_waits (goto a (Wait_lock l) s) l a" if "pc s a = Wait_qnode l"
  proof -
    have "spin_inv Q K (goto a (Wait_lock l) s)" using step_wait_qnode [OF i(1) that] f(1) that by auto
    then show ?thesis using i by (auto simp: first_waits_def)
  qed
  ultimately show ?thesis using inv by (auto simp: gets_next_def)
qed

lemma gets_next_other: "gets_next s l a \<Longrightarrow> spin_step b s s' \<Longrightarrow> a \<noteq> b \<Longrightarrow> gets_next s' l a"
  using first_waits_other step_pc step_simulated unfolding gets_next_def simulated_def by metis

lemma gets_next_own:
  assumes "gets_next s l a" "spin_step a s s'"
  shows "holds s' a l"
proof -
  obtain Q K where i: "spin_inv Q K s" using assms(1) by (auto simp: gets_next_def)
  have p: "pc s a = Wait_lock l \<and> sl_value (locks s l) AND SPINLOCK_LOCKED = 0 \<or> pc s a = Downgrade l"
    using assms(1) first_waits_pc(2) by (auto simp: gets_next_def)
  then have "spin_next a s = Some s'" using assms(2) by (auto elim: spin_step.cases)
  then show ?thesis using p by (auto simp: spin_next_def holds_def bind_eq_Some_conv split: if_splits)
qed

lemma first_waits_run:
  assumes "spin_run s bs s'" "first_waits s l a"
  shows "(count_list bs a = 0 \<longrightarrow> first_waits s' l a) \<and> (count_list bs a = 1 \<longrightarrow> gets_next s' l a)"
  using assms
proof (induction rule: spin_run.induct)
  case (spin_run_snoc s as s' b s'')
  then show ?case using first_waits_other first_waits_own gets_next_other by (cases "b = a") auto
qed simp

section \<open>An example\<close>

text \<open>Two processors and one lock: the first one has the lock and the second one waits for it; then the lock is free.\<close>

definition cpu0 :: exec_ctx where "cpu0 = Exec_ctx 0 0"
definition cpu1 :: exec_ctx where "cpu1 = Exec_ctx 0 1"

definition spin0 :: spin_state where
  "spin0 = \<lparr>nr_cpus = 2, locks = \<lambda>_. \<lparr>sl_value = 0\<rparr>, qnodes = \<lambda>_. \<lparr>qn_next = None, qn_locked = False\<rparr>, pc = \<lambda>_. Ready, held = \<lambda>_. {}\<rparr>"

definition access :: "exec_ctx \<Rightarrow> spin_state \<Rightarrow> spin_state" where
  "access a s = the (spin_next a s)"

definition spin1 :: spin_state where "spin1 = access cpu0 (goto cpu0 (Lock_fast 0 False) spin0)"
definition spin2 :: spin_state where "spin2 = access cpu1 (access cpu1 (access cpu1 (access cpu1 (goto cpu1 (Lock_fast 0 False) spin1))))"
definition spin3 :: spin_state where "spin3 = (spinlock_unlock_common 0 spin2)\<lparr>held := (held spin2)(cpu0 := held spin2 cpu0 - {0})\<rparr>"

lemma spin0_ok: "spin_start spin0"
  by (simp add: spin_start_def spin0_def spin_defs)

lemma run_access:
  assumes "spin_start s0" "spin_run s0 as s" "pc s a \<noteq> Ready"
  shows "spin_run s0 (as @ [a]) (access a s)"
proof -
  obtain Q K where "spin_inv Q K s" using run_inv [OF assms(2,1)] by blast
  then have "spin_next a s = Some (access a s)" using next_ok [of Q K s a] by (auto simp: access_def)
  then show ?thesis using spin_run_snoc [OF assms(2) spinlock_access [OF assms(3)]] by blast
qed

lemma spin1_run: "spin_run spin0 [cpu0, cpu0] spin1"
proof -
  have "spin_run spin0 ([] @ [cpu0]) (goto cpu0 (Lock_fast 0 False) spin0)"
    by (rule spin_run_snoc [OF spin_run_Nil spinlock_lock]) code_simp+
  then have "spin_run spin0 ([cpu0] @ [cpu0]) spin1" unfolding spin1_def by (intro run_access [OF spin0_ok]) (simp, code_simp)
  then show ?thesis by simp
qed

lemma spin2_run: "spin_run spin0 [cpu0, cpu0, cpu1, cpu1, cpu1, cpu1, cpu1] spin2"
proof -
  have 1: "spin_run spin0 ([cpu0, cpu0] @ [cpu1]) (goto cpu1 (Lock_fast 0 False) spin1)"
    by (rule spin_run_snoc [OF spin1_run spinlock_lock]) code_simp+
  have 2: "spin_run spin0 (([cpu0, cpu0] @ [cpu1]) @ [cpu1]) (access cpu1 (goto cpu1 (Lock_fast 0 False) spin1))"
    by (rule run_access [OF spin0_ok 1]) code_simp
  have 3: "spin_run spin0 ((([cpu0, cpu0] @ [cpu1]) @ [cpu1]) @ [cpu1]) (access cpu1 (access cpu1 (goto cpu1 (Lock_fast 0 False) spin1)))"
    by (rule run_access [OF spin0_ok 2]) code_simp
  have 4: "spin_run spin0 (((([cpu0, cpu0] @ [cpu1]) @ [cpu1]) @ [cpu1]) @ [cpu1]) (access cpu1 (access cpu1 (access cpu1 (goto cpu1 (Lock_fast 0 False) spin1))))"
    by (rule run_access [OF spin0_ok 3]) code_simp
  have "spin_run spin0 ((((([cpu0, cpu0] @ [cpu1]) @ [cpu1]) @ [cpu1]) @ [cpu1]) @ [cpu1]) spin2"
    unfolding spin2_def by (rule run_access [OF spin0_ok 4]) code_simp
  then show ?thesis by simp
qed

lemma spin2_place: "pc spin2 cpu1 = Wait_lock 0" "0 \<in> held spin2 cpu0" "pc spin2 cpu0 = Ready" "pc spin3 cpu1 = Wait_lock 0"
  by code_simp+

lemma spin3_run: "spin_run spin0 ([cpu0, cpu0, cpu1, cpu1, cpu1, cpu1, cpu1] @ [cpu0]) spin3"
  unfolding spin3_def by (rule spin_run_snoc [OF spin2_run spinlock_unlock [OF spin2_place(3,2)]])

lemma spin3_free: "\<not> holds spin3 a 0"
proof -
  obtain Q K where i: "spin_inv Q K spin2" using run_inv [OF spin2_run spin0_ok] by blast
  have k: "K 0 = Some cpu0" using spin_invD(6) [OF i] spin2_place(2) by blast
  have "pc spin3 = pc spin2" "held spin3 = (held spin2)(cpu0 := held spin2 cpu0 - {0})"
    by (simp_all add: spin3_def spinlock_unlock_common_def set_value_def)
  then show ?thesis using spin_invD(5) [OF i, of a 0] spin_invD(6) [OF i, of 0 a] k spin2_place(3) by (auto simp: holds_def)
qed

definition spin4 :: spin_state where "spin4 = access cpu1 (access cpu1 spin3)"

lemma spin_run_pc: "spin_run s0 as s \<Longrightarrow> a \<notin> set as \<Longrightarrow> pc s a = pc s0 a"
  by (induction rule: spin_run.induct) (auto dest: step_pc)

lemma only_cpu1: "waits spin3 a 0 \<Longrightarrow> a = cpu1"
proof (rule ccontr)
  assume w: "waits spin3 a 0" "a \<noteq> cpu1"
  have "pc spin3 cpu0 = Ready" by code_simp
  then have "a \<noteq> cpu0" using w(1) by (auto simp: waits_def)
  then have "pc spin3 a = pc spin0 a" using spin_run_pc [OF spin3_run] w(2) by simp
  then show False using w(1) by (simp add: waits_def spin0_def)
qed

lemma spin4_run: "spin_run spin3 ([cpu1] @ [cpu1]) spin4"
proof -
  have access: "spin_step cpu1 s (access cpu1 s)" if "pc s cpu1 \<noteq> Ready" "spin_next cpu1 s \<noteq> None" for s
    using spinlock_access [OF that(1)] that(2) by (auto simp: access_def)
  have "spin_step cpu1 spin3 (access cpu1 spin3)" by (rule access) code_simp+
  then have 1: "spin_run spin3 ([] @ [cpu1]) (access cpu1 spin3)" by (rule spin_run_snoc [OF spin_run_Nil])
  have "spin_step cpu1 (access cpu1 spin3) spin4" unfolding spin4_def by (rule access) code_simp+
  then show ?thesis using spin_run_snoc [OF 1] by simp
qed

section \<open>Properties\<close>

text \<open>
  C3: Whatever the interleaving of any number of processors, in any number of locks, no assertion of the spin lock code fails and at most one
  context has a lock; \<open>spinlock_lock\<close> has returned only to a context that has it.
\<close>
theorem spinlock_mutual_exclusion:
  assumes "spin_start s0" "spin_run s0 as s"
  shows "(\<forall>a. spin_next a s \<noteq> None) \<and> (\<forall>a b l. holds s a l \<and> holds s b l \<longrightarrow> a = b)
    \<and> (\<forall>a l. l \<in> held s a \<longrightarrow> spinlock_locked l s)"
proof -
  obtain Q K where i: "spin_inv Q K s" using run_inv [OF assms(2,1)] by blast
  have "spinlock_locked l s" if "l \<in> held s a" for a l
  proof -
    have "K l = Some a" using spin_invD(6) [OF i] that by blast
    have "lock_word (Q l) (locked_bit K s l) \<noteq> 0"
    proof (cases "Q l = []")
      case True
      then have "locked_bit K s l" using free_lock [OF i, of l] \<open>K l = Some a\<close> by auto
      then show ?thesis using lock_word_masks(1) [of "Q l" True] by auto
    next
      case False
      then show ?thesis using lock_word_masks(2) [of "Q l" "locked_bit K s l"] by auto
    qed
    then show ?thesis using spin_invD(7) [OF i, of l] by (simp add: spinlock_locked_def SPINLOCK_UNLOCKED_def)
  qed
  then show ?thesis using next_ok [OF i] holds_iff [OF i] by fastforce
qed

theorem spinlock_mutual_exclusion_witness:
  "spin_next cpu1 spin2 \<noteq> None \<and> holds spin2 cpu0 0 \<and> \<not> holds spin2 cpu1 0 \<and> spinlock_locked 0 spin2"
proof -
  have "holds spin2 cpu0 0" "cpu0 \<noteq> cpu1" using spin2_place(2) by (simp_all add: holds_def cpu0_def cpu1_def)
  then show ?thesis using spinlock_mutual_exclusion [OF spin0_ok spin2_run] spin2_place(2) by blast
qed

text \<open>
  C9: The spin locks refine a lock with a first-in first-out queue: every run is a run of the queue lock, in which the same contexts own the locks and
  wait for them, and in which a lock is granted in the order of the queue.
\<close>
theorem spinlock_refines_queue:
  assumes "spin_start s0" "spin_run s0 as s"
  shows "\<exists>L. queue_run as L \<and> (\<forall>a l. owner (L l) = Some a \<longleftrightarrow> holds s a l) \<and> (\<forall>a l. a \<in> set (waiting (L l)) \<longleftrightarrow> waits s a l)"
proof -
  obtain Q K where i: "spin_inv Q K s" "queue_run as (queue_abs Q K s)" using run_inv [OF assms(2,1)] by blast
  moreover have "owner (queue_abs Q K s l) = Some a \<longleftrightarrow> holds s a l" for a l using holds_iff [OF i(1)] by (simp add: queue_abs_def)
  ultimately show ?thesis using waits_iff by blast
qed

theorem spinlock_refines_queue_witness:
  "\<exists>L. queue_run [cpu0, cpu0, cpu1, cpu1, cpu1, cpu1, cpu1] L \<and> owner (L 0) = Some cpu0 \<and> cpu1 \<in> set (waiting (L 0))"
proof -
  have "holds spin2 cpu0 0" "waits spin2 cpu1 0" using spin2_place by (simp_all add: holds_def waits_def)
  then show ?thesis using spinlock_refines_queue [OF spin0_ok spin2_run] by blast
qed

text \<open>
  C16: A free lock that contexts wait for is obtained by the first of them, with the second access it makes to the shared memory at the latest,
  whatever the other contexts do meanwhile.
\<close>
theorem spinlock_first_gets_lock:
  assumes "spin_start s0" "spin_run s0 as s" "\<forall>a. \<not> holds s a l" "waits s b l"
  shows "\<exists>a. waits s a l \<and> (\<forall>bs s'. spin_run s (bs @ [a]) s' \<and> count_list bs a = 1 \<longrightarrow> holds s' a l)"
proof -
  obtain Q K where i: "spin_inv Q K s" using run_inv [OF assms(2,1)] by blast
  have k: "K l = None" using holds_iff [OF i] assms(3) by (cases "K l") auto
  have "b \<in> set (Q l)" using assms(4) spin_invD(4) [OF i] by (simp add: waits_def)
  then obtain a ws where q: "Q l = a # ws" by (cases "Q l") auto
  have f: "first_waits s l a" using i k q by (auto simp: first_waits_def)
  have "waits s a l" using first_waits_pc(1) [OF f] by (auto simp: waits_def)
  moreover have "holds s' a l" if r: "spin_run s (bs @ [a]) s'" "count_list bs a = 1" for bs s'
  proof -
    obtain s1 where "spin_run s bs s1" "spin_step a s1 s'" using r(1) by (auto elim: spin_run_snocE)
    then show ?thesis using first_waits_run [OF _ f] r(2) gets_next_own by metis
  qed
  ultimately show ?thesis by blast
qed

theorem spinlock_first_gets_lock_witness:
  "spin_run spin3 ([cpu1] @ [cpu1]) spin4 \<and> holds spin4 cpu1 0"
proof -
  have w: "waits spin3 cpu1 0" using spin2_place(4) by (simp add: waits_def)
  obtain a where a: "waits spin3 a 0" "\<forall>bs s'. spin_run spin3 (bs @ [a]) s' \<and> count_list bs a = 1 \<longrightarrow> holds s' a 0"
    using spinlock_first_gets_lock [OF spin0_ok spin3_run _ w] spin3_free by blast
  have "a = cpu1" using only_cpu1 [OF a(1)] .
  then show ?thesis using a(2) spin4_run by (metis count_list.simps One_nat_def add.commute plus_1_eq_Suc)
qed

end
