(* ===== verification/Slist.thy ===== *)
theory Slist
  imports Prelude
begin

text \<open>
  Singly-linked lists (\<^verbatim>\<open>kern/slist.h\<close>). A list has pointers to its first and its last node; the nodes are
  kept in a store \<open>h\<close> from nodes to their next pointers. \<open>sl h l xs\<close> says that the list \<open>l\<close> links the nodes \<open>xs\<close>;
  an operation on pointers then is the operation on sequences.
\<close>

section \<open>The operations\<close>

record 'n slist =
  sl_first :: "'n option"
  sl_last :: "'n option"

type_synonym 'n nexts = "'n \<Rightarrow> 'n option"

definition slist_init :: "'n slist" where "slist_init = \<lparr>sl_first = None, sl_last = None\<rparr>"

definition slist_first :: "'n slist \<Rightarrow> 'n option" where "slist_first l = sl_first l"

definition slist_last :: "'n slist \<Rightarrow> 'n option" where "slist_last l = sl_last l"

definition slist_next :: "'n \<Rightarrow> 'n nexts \<Rightarrow> 'n option" where "slist_next n h = h n"

definition slist_end :: "'n option \<Rightarrow> bool" where "slist_end p \<longleftrightarrow> p = None"

definition slist_empty :: "'n slist \<Rightarrow> bool" where "slist_empty l \<longleftrightarrow> sl_first l = None"

definition slist_singular :: "'n slist \<Rightarrow> bool" where
  "slist_singular l \<longleftrightarrow> \<not> slist_empty l \<and> sl_first l = sl_last l"

definition slist_concat :: "'n slist \<Rightarrow> 'n slist \<Rightarrow> 'n nexts \<Rightarrow> ('n slist \<times> 'n nexts) option" where
  "slist_concat list1 list2 h =
     (if slist_empty list2 then Some (list1, h)
      else do {
        (list1, h) \<leftarrow>
          (if slist_empty list1 then Some (list1\<lparr>sl_first := sl_first list2\<rparr>, h)
           else do { n \<leftarrow> sl_last list1; Some (list1, h(n := sl_first list2)) });
        Some (list1\<lparr>sl_last := sl_last list2\<rparr>, h) })"

definition slist_set_head :: "'n slist \<Rightarrow> 'n slist" where "slist_set_head old_head = old_head"

definition slist_insert_head :: "'n slist \<Rightarrow> 'n \<Rightarrow> 'n nexts \<Rightarrow> 'n slist \<times> 'n nexts" where
  "slist_insert_head l node h =
     (let l = (if slist_empty l then l\<lparr>sl_last := Some node\<rparr> else l);
          h = h(node := sl_first l)
      in (l\<lparr>sl_first := Some node\<rparr>, h))"

definition slist_insert_tail :: "'n slist \<Rightarrow> 'n \<Rightarrow> 'n nexts \<Rightarrow> ('n slist \<times> 'n nexts) option" where
  "slist_insert_tail l node h = do {
     let h = h(node := None);
     (l, h) \<leftarrow>
       (if slist_empty l then Some (l\<lparr>sl_first := Some node\<rparr>, h)
        else do { n \<leftarrow> sl_last l; Some (l, h(n := Some node)) });
     Some (l\<lparr>sl_last := Some node\<rparr>, h) }"

definition slist_insert_after :: "'n slist \<Rightarrow> 'n \<Rightarrow> 'n \<Rightarrow> 'n nexts \<Rightarrow> 'n slist \<times> 'n nexts" where
  "slist_insert_after l node prev h =
     (let h = h(node := h prev);
          h = h(prev := Some node)
      in (if sl_last l = Some prev then l\<lparr>sl_last := Some node\<rparr> else l, h))"

definition slist_remove :: "'n slist \<Rightarrow> 'n option \<Rightarrow> 'n nexts \<Rightarrow> ('n slist \<times> 'n nexts) option" where
  "slist_remove l prev h =
     (case prev of
        None \<Rightarrow> do {
          node \<leftarrow> sl_first l;
          let l = l\<lparr>sl_first := h node\<rparr>;
          Some (if sl_last l = Some node then l\<lparr>sl_last := None\<rparr> else l, h) }
      | Some p \<Rightarrow> do {
          node \<leftarrow> h p;
          let h = h(p := h node);
          Some (if sl_last l = Some node then l\<lparr>sl_last := prev\<rparr> else l, h) })"

text \<open>The nodes a loop visits, and the loop whose body may unlink the node it is given: the next node is read first.\<close>

partial_function (option) slist_visit :: "'n option \<Rightarrow> 'n nexts \<Rightarrow> 'n list option" where
  "slist_visit p h = (case p of None \<Rightarrow> Some [] | Some n \<Rightarrow> do { ns \<leftarrow> slist_visit (slist_next n h) h; Some (n # ns) })"

definition slist_for_each :: "'n slist \<Rightarrow> 'n nexts \<Rightarrow> 'n list option" where
  "slist_for_each l h = slist_visit (slist_first l) h"

definition next_or_null :: "'n option \<Rightarrow> 'n nexts \<Rightarrow> 'n option" where
  "next_or_null p h = (case p of None \<Rightarrow> None | Some n \<Rightarrow> slist_next n h)"

partial_function (option) slist_visit_safe :: "('n \<Rightarrow> 'n slist \<times> 'n nexts \<Rightarrow> ('n slist \<times> 'n nexts) option) \<Rightarrow> 'n option \<Rightarrow> 'n option
    \<Rightarrow> 'n slist \<times> 'n nexts \<Rightarrow> ('n slist \<times> 'n nexts) option" where
  "slist_visit_safe body node tmp lh =
     (case node of None \<Rightarrow> Some lh
      | Some n \<Rightarrow> do {
          lh \<leftarrow> body n lh;
          slist_visit_safe body tmp (next_or_null tmp (snd lh)) lh })"

definition slist_for_each_safe :: "('n \<Rightarrow> 'n slist \<times> 'n nexts \<Rightarrow> ('n slist \<times> 'n nexts) option) \<Rightarrow> 'n slist \<Rightarrow> 'n nexts \<Rightarrow> ('n slist \<times> 'n nexts) option" where
  "slist_for_each_safe body l h = slist_visit_safe body (slist_first l) (next_or_null (slist_first l) h) (l, h)"

section \<open>Lists as sequences\<close>

fun spath :: "'n nexts \<Rightarrow> 'n option \<Rightarrow> 'n list \<Rightarrow> 'n option \<Rightarrow> bool" where
  "spath h p [] q \<longleftrightarrow> p = q"
| "spath h p (x # xs) q \<longleftrightarrow> p = Some x \<and> spath h (h x) xs q"

definition sl :: "'n nexts \<Rightarrow> 'n slist \<Rightarrow> 'n list \<Rightarrow> bool" where
  "sl h l xs \<longleftrightarrow> spath h (sl_first l) xs None \<and> sl_last l = (if xs = [] then None else Some (last xs)) \<and> distinct xs"

lemma spath_append [simp]: "spath h p (xs @ ys) q \<longleftrightarrow> (\<exists>m. spath h p xs m \<and> spath h m ys q)"
  by (induction xs arbitrary: p) auto

lemma spath_cong: "(\<And>x. x \<in> set xs \<Longrightarrow> h' x = h x) \<Longrightarrow> spath h' p xs q \<longleftrightarrow> spath h p xs q"
  by (induction xs arbitrary: p) auto

lemma spath_upd [simp]: "n \<notin> set xs \<Longrightarrow> spath (h(n := v)) p xs q \<longleftrightarrow> spath h p xs q"
  by (rule spath_cong) auto

lemma spath_first: "spath h p xs None \<Longrightarrow> p = (case xs of [] \<Rightarrow> None | x # _ \<Rightarrow> Some x)"
  by (cases xs) auto

lemma sl_init: "sl h slist_init []" by (simp add: sl_def slist_init_def)

lemma sl_first: "sl h l xs \<Longrightarrow> slist_first l = (case xs of [] \<Rightarrow> None | x # _ \<Rightarrow> Some x)"
  using spath_first [of h "sl_first l" xs] by (simp add: sl_def slist_first_def)

lemma sl_last: "sl h l xs \<Longrightarrow> slist_last l = (if xs = [] then None else Some (last xs))"
  by (simp add: sl_def slist_last_def)

lemma sl_empty: "sl h l xs \<Longrightarrow> slist_empty l \<longleftrightarrow> xs = []"
  by (cases xs) (auto simp: sl_def slist_empty_def)

lemma sl_singular: "sl h l xs \<Longrightarrow> slist_singular l \<longleftrightarrow> length xs = 1"
  by (cases xs) (auto simp: sl_def slist_empty_def slist_singular_def)

lemma sl_frame: "sl h l xs \<Longrightarrow> (\<And>x. x \<in> set xs \<Longrightarrow> h' x = h x) \<Longrightarrow> sl h' l xs"
  using spath_cong [of xs h' h] by (simp add: sl_def)

lemma sl_for_each: "sl h l xs \<Longrightarrow> slist_for_each l h = Some xs"
proof -
  have "spath h p xs None \<Longrightarrow> slist_visit p h = Some xs" for p
    by (induction xs arbitrary: p) (subst slist_visit.simps, simp add: slist_next_def)+
  then show "sl h l xs \<Longrightarrow> slist_for_each l h = Some xs" by (simp add: sl_def slist_for_each_def slist_first_def)
qed

lemma sl_insert_head:
  "sl h l xs \<Longrightarrow> node \<notin> set xs \<Longrightarrow> \<exists>l' h'. slist_insert_head l node h = (l', h') \<and> sl h' l' (node # xs) \<and> (\<forall>n. n \<noteq> node \<longrightarrow> h' n = h n)"
  using sl_empty [of h l xs] by (cases "slist_empty l") (auto simp: slist_insert_head_def sl_def Let_def)

text \<open>The last node of a list is linked to nothing.\<close>

lemma sl_snoc: "sl h l (xs @ [y]) \<longleftrightarrow> spath h (sl_first l) xs (Some y) \<and> h y = None \<and> sl_last l = Some y \<and> distinct (xs @ [y])"
  by (auto simp: sl_def)

lemma sl_insert_tail:
  assumes "sl h l xs" "node \<notin> set xs"
  shows "\<exists>l' h'. slist_insert_tail l node h = Some (l', h') \<and> sl h' l' (xs @ [node]) \<and> (\<forall>n. n \<notin> insert node (set xs) \<longrightarrow> h' n = h n)"
proof (cases xs rule: rev_cases)
  case Nil
  then show ?thesis using assms by (simp add: slist_insert_tail_def slist_empty_def sl_def)
next
  case (snoc ys y)
  then have "\<not> slist_empty l" using sl_empty [OF assms(1)] by simp
  moreover have "sl_last l = Some y" using assms(1) snoc by (simp add: sl_def)
  moreover have "sl (h(node := None, y := Some node)) (l\<lparr>sl_last := Some node\<rparr>) (xs @ [node])"
    using assms snoc by (auto simp: sl_def)
  ultimately show ?thesis using snoc by (auto simp: slist_insert_tail_def)
qed

lemma sl_insert_after:
  assumes "sl h l (us @ prev # vs)" "node \<notin> set (us @ prev # vs)"
  shows "\<exists>l' h'. slist_insert_after l node prev h = (l', h') \<and> sl h' l' (us @ prev # node # vs) \<and> (\<forall>n. n \<notin> {node, prev} \<longrightarrow> h' n = h n)"
proof -
  have d: "prev \<notin> set us" "prev \<notin> set vs" "node \<noteq> prev" "vs \<noteq> [] \<Longrightarrow> last vs \<noteq> prev" using assms by (auto simp: sl_def)
  then show ?thesis using assms by (auto simp: slist_insert_after_def sl_def Let_def split: if_splits)
qed

lemma sl_remove_first:
  assumes "sl h l (x # xs)"
  shows "\<exists>l'. slist_remove l None h = Some (l', h) \<and> sl h l' xs"
proof -
  have "last xs \<noteq> x" if "xs \<noteq> []" using assms that by (auto simp: sl_def)
  then show ?thesis using assms by (cases xs) (auto simp: slist_remove_def sl_def Let_def)
qed

lemma sl_remove_after:
  assumes "sl h l (us @ p # x # vs)"
  shows "\<exists>l' h'. slist_remove l (Some p) h = Some (l', h') \<and> sl h' l' (us @ p # vs) \<and> (\<forall>n. n \<noteq> p \<longrightarrow> h' n = h n)"
proof -
  have d: "p \<notin> set us" "p \<notin> set vs" "p \<noteq> x" "vs \<noteq> [] \<Longrightarrow> last vs \<noteq> x" using assms by (auto simp: sl_def)
  then show ?thesis using assms by (cases vs) (auto simp: slist_remove_def sl_def split: if_splits)
qed

lemma sl_concat:
  assumes "sl h l1 xs" "sl h l2 ys" "set xs \<inter> set ys = {}"
  shows "\<exists>l' h'. slist_concat l1 l2 h = Some (l', h') \<and> sl h' l' (xs @ ys) \<and> (\<forall>n. n \<notin> set xs \<longrightarrow> h' n = h n)"
proof (cases ys)
  case Nil
  then show ?thesis using assms sl_empty [OF assms(2)] by (simp add: slist_concat_def)
next
  case (Cons y zs)
  then have ne: "\<not> slist_empty l2" using sl_empty [OF assms(2)] by simp
  show ?thesis
  proof (cases xs rule: rev_cases)
    case Nil
    then show ?thesis using ne assms sl_empty [OF assms(1)] by (simp add: slist_concat_def sl_def)
  next
    case (snoc us x)
    then have "\<not> slist_empty l1" using sl_empty [OF assms(1)] by simp
    moreover have "sl_last l1 = Some x" using assms(1) snoc by (simp add: sl_def)
    moreover have "sl (h(x := sl_first l2)) (l1\<lparr>sl_last := sl_last l2\<rparr>) (xs @ ys)"
      using assms snoc Cons by (auto simp: sl_def)
    ultimately show ?thesis using ne snoc by (auto simp: slist_concat_def)
  qed
qed

text \<open>The loop that unlinks nodes: a body that empties the list from its head sees every node once.\<close>

lemma sl_visit_safe_drain:
  assumes "sl h l xs"
  shows "\<exists>l' h'. slist_for_each_safe (\<lambda>n (l, h). do { (l, h) \<leftarrow> slist_remove l None h; Some (l, h(n := None)) }) l h = Some (l', h') \<and> sl h' l' []
    \<and> (\<forall>n. h' n = (if n \<in> set xs then None else h n))"
proof -
  let ?body = "\<lambda>n (l, h). do { (l, h) \<leftarrow> slist_remove l None h; Some (l, h(n := None)) }"
  have next_some: "next_or_null (Some n) h = h n" for n h by (simp add: next_or_null_def slist_next_def)
  have "sl h l xs \<Longrightarrow> \<exists>l' h'. slist_visit_safe ?body (sl_first l) (next_or_null (sl_first l) h) (l, h) = Some (l', h') \<and> sl h' l' []
    \<and> (\<forall>n. h' n = (if n \<in> set xs then None else h n))" for l h
  proof (induction xs arbitrary: l h)
    case Nil
    then show ?case by (subst slist_visit_safe.simps) (simp add: sl_def)
  next
    case (Cons x xs)
    obtain l1 where l1: "slist_remove l None h = Some (l1, h)" "sl h l1 xs" using sl_remove_first [OF Cons.prems] by blast
    have x: "sl_first l = Some x" "x \<notin> set xs" using Cons.prems by (auto simp: sl_def)
    have f1: "sl_first l1 = h x" using l1(1) x(1) by (auto simp: slist_remove_def Let_def split: if_splits)
    let ?h = "h(x := None)"
    have s1: "sl ?h l1 xs" by (rule sl_frame [OF l1(2)]) (use x(2) in auto)
    obtain l' h' where h': "slist_visit_safe ?body (sl_first l1) (next_or_null (sl_first l1) ?h) (l1, ?h) = Some (l', h')" "sl h' l' []"
      "\<forall>n. h' n = (if n \<in> set xs then None else ?h n)" using Cons.IH [OF s1] by blast
    have "slist_visit_safe ?body (sl_first l) (next_or_null (sl_first l) h) (l, h) = Some (l', h')"
      by (subst slist_visit_safe.simps) (use h'(1) l1(1) x(1) f1 in \<open>simp add: next_some\<close>)
    moreover have "\<forall>n. h' n = (if n \<in> set (x # xs) then None else h n)" using h'(3) by simp
    ultimately show ?case using h'(2) by blast
  qed
  then show ?thesis using assms by (simp add: slist_for_each_safe_def slist_first_def)
qed

end
