(* ===== verification/Init.thy ===== *)
theory Init
  imports Slist
begin

text \<open>
  The initialization of the kernel (\<^verbatim>\<open>kern/init.h\<close>, \<^verbatim>\<open>init.c\<close>). Every module declares an operation and the
  operations it depends on; \<^verbatim>\<open>init_setup\<close> sorts them and runs each one after those it depends on. An operation is
  its index in the array the linker forges; \<open>fn\<close> is what the functions of the modules do to the rest of the
  system, a parameter of the model. The debugging logs are left out, as without \<^verbatim>\<open>CONFIG_INIT_DEBUG\<close>.
\<close>

section \<open>Data\<close>

definition INIT_OP_STATE_UNLINKED :: u8 where "INIT_OP_STATE_UNLINKED = 0"
definition INIT_OP_STATE_PENDING :: u8 where "INIT_OP_STATE_PENDING = 1"
definition INIT_OP_STATE_COMPLETE :: u8 where "INIT_OP_STATE_COMPLETE = 2"

record init_op =
  io_deps :: "(nat \<times> bool) list"
  io_error :: int
  io_state :: u8
  io_nr_deps :: u8
  io_nr_parents :: u8

definition INIT_OP_DEFINE :: "(nat \<times> bool) list \<Rightarrow> init_op" where
  "INIT_OP_DEFINE deps = \<lparr>io_deps = deps, io_error = errno_code EAGAIN, io_state = INIT_OP_STATE_UNLINKED,
     io_nr_deps = of_nat (length deps), io_nr_parents = 0\<rparr>"

record init_ops_list =
  il_ops :: "nat slist"
  il_size :: u64

text \<open>The operations, the links of the list and of the stack of operations, the rest of the system, and the
  functions called so far.\<close>

record 'w init_sys =
  in_ops :: "nat \<Rightarrow> init_op"
  in_list_node :: "nat nexts"
  in_stack_node :: "nat nexts"
  in_pending :: init_ops_list
  in_stack :: "nat slist"
  in_world :: 'w
  in_calls :: "nat list"

definition set_op :: "nat \<Rightarrow> init_op \<Rightarrow> 'w init_sys \<Rightarrow> 'w init_sys" where
  "set_op x v s = s\<lparr>in_ops := (in_ops s)(x := v)\<rparr>"

section \<open>The list and the stack\<close>

definition init_ops_list_init :: "init_ops_list" where "init_ops_list_init = \<lparr>il_ops = slist_init, il_size = 0\<rparr>"

definition init_ops_list_size :: "init_ops_list \<Rightarrow> u64" where "init_ops_list_size l = il_size l"

definition init_ops_list_push :: "nat \<Rightarrow> 'w init_sys \<Rightarrow> 'w init_sys" where
  "init_ops_list_push x s =
     (let (l, h) = slist_insert_head (il_ops (in_pending s)) x (in_list_node s)
      in s\<lparr>in_list_node := h, in_pending := \<lparr>il_ops = l, il_size = il_size (in_pending s) + 1\<rparr>\<rparr>)"

definition init_ops_list_pop :: "'w init_sys \<Rightarrow> (nat option \<times> 'w init_sys) option" where
  "init_ops_list_pop s =
     (if il_size (in_pending s) = 0 then Some (None, s)
      else do {
        let x = slist_first (il_ops (in_pending s));
        (l, h) \<leftarrow> slist_remove (il_ops (in_pending s)) None (in_list_node s);
        Some (x, s\<lparr>in_list_node := h, in_pending := \<lparr>il_ops = l, il_size = il_size (in_pending s) - 1\<rparr>\<rparr>) })"

definition init_ops_stack_push :: "nat \<Rightarrow> 'w init_sys \<Rightarrow> 'w init_sys" where
  "init_ops_stack_push x s =
     (let (l, h) = slist_insert_head (in_stack s) x (in_stack_node s) in s\<lparr>in_stack_node := h, in_stack := l\<rparr>)"

definition init_ops_stack_pop :: "'w init_sys \<Rightarrow> (nat option \<times> 'w init_sys) option" where
  "init_ops_stack_pop s =
     (if slist_empty (in_stack s) then Some (None, s)
      else do {
        let x = slist_first (in_stack s);
        (l, h) \<leftarrow> slist_remove (in_stack s) None (in_stack_node s);
        Some (x, s\<lparr>in_stack_node := h, in_stack := l\<rparr>) })"

section \<open>Operations\<close>

primrec for_all :: "('a \<Rightarrow> 's \<Rightarrow> 's option) \<Rightarrow> 'a list \<Rightarrow> 's \<Rightarrow> 's option" where
  "for_all f [] s = Some s"
| "for_all f (x # xs) s = do { s \<leftarrow> f x s; for_all f xs s }"

definition init_op_get_dep :: "nat \<Rightarrow> nat \<Rightarrow> 'w init_sys \<Rightarrow> (nat \<times> bool) option" where
  "init_op_get_dep x i s = do {
     assert_that (i < unat (io_nr_deps (in_ops s x)));
     nth_opt (io_deps (in_ops s x)) i }"

text \<open>A loop over the dependencies of an operation.\<close>

definition for_each_dep :: "((nat \<times> bool) \<Rightarrow> 'w init_sys \<Rightarrow> 'w init_sys option) \<Rightarrow> nat \<Rightarrow> 'w init_sys \<Rightarrow> 'w init_sys option" where
  "for_each_dep body x s = for_all (\<lambda>i s. do { dep \<leftarrow> init_op_get_dep x i s; body dep s }) [0..<unat (io_nr_deps (in_ops s x))] s"

definition init_op_init :: "nat \<Rightarrow> 'w init_sys \<Rightarrow> 'w init_sys option" where
  "init_op_init x s = for_each_dep (\<lambda>(d, required) s. do {
     let s = set_op d ((in_ops s d)\<lparr>io_nr_parents := io_nr_parents (in_ops s d) + 1\<rparr>) s;
     assert_that (io_nr_parents (in_ops s d) \<noteq> 0);
     Some s }) x s"

definition init_op_orphan :: "nat \<Rightarrow> 'w init_sys \<Rightarrow> bool" where
  "init_op_orphan x s \<longleftrightarrow> io_nr_parents (in_ops s x) = 0"

definition init_op_pending :: "nat \<Rightarrow> 'w init_sys \<Rightarrow> bool" where
  "init_op_pending x s \<longleftrightarrow> io_state (in_ops s x) = INIT_OP_STATE_PENDING"

definition init_op_set_pending :: "nat \<Rightarrow> 'w init_sys \<Rightarrow> 'w init_sys option" where
  "init_op_set_pending x s = do {
     assert_that (io_state (in_ops s x) = INIT_OP_STATE_UNLINKED);
     Some (set_op x ((in_ops s x)\<lparr>io_state := INIT_OP_STATE_PENDING\<rparr>) s) }"

definition init_op_complete :: "nat \<Rightarrow> 'w init_sys \<Rightarrow> bool" where
  "init_op_complete x s \<longleftrightarrow> io_state (in_ops s x) = INIT_OP_STATE_COMPLETE"

definition init_op_set_complete :: "nat \<Rightarrow> 'w init_sys \<Rightarrow> 'w init_sys option" where
  "init_op_set_complete x s = do {
     assert_that (init_op_pending x s);
     Some (set_op x ((in_ops s x)\<lparr>io_state := INIT_OP_STATE_COMPLETE\<rparr>) s) }"

fun init_ready_from :: "nat \<Rightarrow> nat list \<Rightarrow> 'w init_sys \<Rightarrow> bool option" where
  "init_ready_from x [] s = Some True"
| "init_ready_from x (i # is) s = do {
     (d, required) \<leftarrow> init_op_get_dep x i s;
     if \<not> init_op_complete d s \<or> required \<and> io_error (in_ops s d) \<noteq> 0 then Some False
     else init_ready_from x is s }"

definition init_op_ready :: "nat \<Rightarrow> 'w init_sys \<Rightarrow> bool option" where
  "init_op_ready x s = init_ready_from x [0..<unat (io_nr_deps (in_ops s x))] s"

definition init_op_call :: "(nat \<Rightarrow> 'w \<Rightarrow> int \<times> 'w) \<Rightarrow> nat \<Rightarrow> 'w init_sys \<Rightarrow> 'w init_sys" where
  "init_op_call fn x s =
     (let (error, w) = fn x (in_world s)
      in set_op x ((in_ops s x)\<lparr>io_error := error\<rparr>) (s\<lparr>in_world := w, in_calls := in_calls s @ [x]\<rparr>))"

definition init_op_run :: "(nat \<Rightarrow> 'w \<Rightarrow> int \<times> 'w) \<Rightarrow> nat \<Rightarrow> 'w init_sys \<Rightarrow> 'w init_sys option" where
  "init_op_run fn x s = do {
     ready \<leftarrow> init_op_ready x s;
     init_op_set_complete x (if ready then init_op_call fn x s else s) }"

definition init_add_pending_op :: "nat \<Rightarrow> 'w init_sys \<Rightarrow> 'w init_sys option" where
  "init_add_pending_op x s = do {
     assert_that (\<not> init_op_pending x s);
     s \<leftarrow> init_op_set_pending x s;
     Some (init_ops_list_push x s) }"

definition init_op_visit :: "nat \<Rightarrow> 'w init_sys \<Rightarrow> 'w init_sys option" where
  "init_op_visit x s = for_each_dep (\<lambda>(d, required) s. do {
     assert_that (io_nr_parents (in_ops s d) \<noteq> 0);
     let s = set_op d ((in_ops s d)\<lparr>io_nr_parents := io_nr_parents (in_ops s d) - 1\<rparr>) s;
     Some (if init_op_orphan d s then init_ops_stack_push d s else s) }) x s"

section \<open>Sorting and running\<close>

definition init_bootstrap :: "nat \<Rightarrow> 'w init_sys \<Rightarrow> 'w init_sys option" where
  "init_bootstrap n s = for_all init_op_init [0..<n] s"

definition init_scan_roots :: "nat \<Rightarrow> 'w init_sys \<Rightarrow> 'w init_sys" where
  "init_scan_roots n s = fold (\<lambda>x s. if init_op_orphan x s then init_ops_stack_push x s else s) [0..<n] (s\<lparr>in_stack := slist_init\<rparr>)"

partial_function (option) init_scan_loop :: "'w init_sys \<Rightarrow> 'w init_sys option" where
  "init_scan_loop s = do {
     (op, s) \<leftarrow> init_ops_stack_pop s;
     case op of None \<Rightarrow> Some s
     | Some x \<Rightarrow> do {
         s \<leftarrow> init_add_pending_op x s;
         s \<leftarrow> init_op_visit x s;
         init_scan_loop s } }"

text \<open>The processor is halted when the operations cannot be sorted.\<close>

datatype 'w init_outcome = Halted "'w init_sys" | Initialized "'w init_sys"

partial_function (option) init_run_ops :: "(nat \<Rightarrow> 'w \<Rightarrow> int \<times> 'w) \<Rightarrow> 'w init_sys \<Rightarrow> 'w init_sys option" where
  "init_run_ops fn s = do {
     (op, s) \<leftarrow> init_ops_list_pop s;
     case op of None \<Rightarrow> Some s
     | Some x \<Rightarrow> do { s \<leftarrow> init_op_run fn x s; init_run_ops fn s } }"

definition init_scan_ops :: "nat \<Rightarrow> 'w init_sys \<Rightarrow> 'w init_outcome option" where
  "init_scan_ops n s = do {
     s \<leftarrow> init_scan_loop (init_scan_roots n s);
     Some (if init_ops_list_size (in_pending s) \<noteq> of_nat n then Halted s else Initialized s) }"

definition init_setup :: "(nat \<Rightarrow> 'w \<Rightarrow> int \<times> 'w) \<Rightarrow> nat \<Rightarrow> 'w init_sys \<Rightarrow> 'w init_outcome option" where
  "init_setup fn n s = do {
     s \<leftarrow> init_bootstrap n (s\<lparr>in_pending := init_ops_list_init\<rparr>);
     scan \<leftarrow> init_scan_ops n s;
     case scan of Halted s \<Rightarrow> Some (Halted s)
     | Initialized s \<Rightarrow> do { s \<leftarrow> init_run_ops fn s; Some (Initialized s) } }"

end
