(* ===== verification/Init_Sort.thy ===== *)
theory Init_Sort
  imports Init
begin

text \<open>
  The topological sort of the initialization operations. \<open>G\<close> gives the dependencies of each operation;
  \<open>edges G X d\<close> counts how many times operations of \<open>X\<close> depend on \<open>d\<close>, which is what the number of parents of
  \<open>d\<close> stands for while the operations outside \<open>X\<close> have been sorted.
\<close>

type_synonym init_graph = "nat \<Rightarrow> (nat \<times> bool) list"

definition needs :: "init_graph \<Rightarrow> nat \<Rightarrow> nat list" where "needs G x = map fst (G x)"

definition edges :: "init_graph \<Rightarrow> nat set \<Rightarrow> nat \<Rightarrow> nat" where
  "edges G X d = (\<Sum>x\<in>X. count_list (needs G x) d)"

definition graph_ok :: "nat \<Rightarrow> init_graph \<Rightarrow> bool" where
  "graph_ok n G \<longleftrightarrow> n < 2 ^ 64 \<and> (\<forall>x<n. length (G x) < 256 \<and> set (needs G x) \<subseteq> {..<n}) \<and> (\<forall>d<n. edges G {..<n} d < 256)"

text \<open>An operation depends on another.\<close>

definition dep_rel :: "nat \<Rightarrow> init_graph \<Rightarrow> (nat \<times> nat) set" where
  "dep_rel n G = {(x, d). x < n \<and> d \<in> set (needs G x)}"

definition ops_are :: "nat \<Rightarrow> init_graph \<Rightarrow> (nat \<Rightarrow> nat) \<Rightarrow> (nat \<Rightarrow> u8) \<Rightarrow> (nat \<Rightarrow> int) \<Rightarrow> 'w init_sys \<Rightarrow> bool" where
  "ops_are n G W st er s \<longleftrightarrow> (\<forall>x<n. in_ops s x = \<lparr>io_deps = G x, io_error = er x, io_state = st x,
     io_nr_deps = of_nat (length (G x)), io_nr_parents = of_nat (W x)\<rparr>)"

section \<open>Loops over dependencies\<close>

lemma for_all_append: "for_all f (xs @ ys) s = do { s \<leftarrow> for_all f xs s; for_all f ys s }"
  by (induction xs arbitrary: s) (simp_all add: bind_assoc)

lemma unat_u8: "k < 256 \<Longrightarrow> unat (of_nat k :: u8) = k" by (simp add: unat_of_nat)

lemma u8_zero: "k < 256 \<Longrightarrow> (of_nat k :: u8) = 0 \<longleftrightarrow> k = 0" using unat_u8 [of k] by (auto simp: unat_eq_0)

text \<open>The index runs over the array: the body sees the dependencies one after the other.\<close>

lemma for_each_dep_eq:
  assumes "io_deps (in_ops s x) = D" "unat (io_nr_deps (in_ops s x)) = length D"
    and body: "\<And>dep s s'. body dep s = Some s' \<Longrightarrow> io_deps (in_ops s' x) = io_deps (in_ops s x) \<and> io_nr_deps (in_ops s' x) = io_nr_deps (in_ops s x)"
  shows "for_each_dep body x s = for_all body D s"
proof -
  have "io_deps (in_ops s x) = pre @ post \<Longrightarrow> unat (io_nr_deps (in_ops s x)) = length (pre @ post)
    \<Longrightarrow> for_all (\<lambda>i s. do { dep \<leftarrow> init_op_get_dep x i s; body dep s }) [length pre..<length pre + length post] s = for_all body post s" for pre post s
  proof (induction post arbitrary: pre s)
    case (Cons d post)
    have d: "init_op_get_dep x (length pre) s = Some d" using Cons.prems by (simp add: init_op_get_dep_def nth_append)
    have u: "[length pre..<length pre + length (d # post)] = length pre # [length (pre @ [d])..<length (pre @ [d]) + length post]"
      by (simp add: upt_rec)
    show ?case
    proof (cases "body d s")
      case (Some s1)
      then show ?thesis unfolding u using Cons.IH [of s1 "pre @ [d]"] Cons.prems body [OF Some] d by simp
    qed (unfold u, simp add: d)
  qed simp
  from this [of s "[]" D] show ?thesis using assms(1,2) by (simp add: for_each_dep_def)
qed

text \<open>The bodies of the two loops: one more parent, one parent less.\<close>

lemma init_body:
  assumes "ops_are n G W st er s" "d < n" "W d < 255"
  shows "\<exists>ops. (do { let s = set_op d ((in_ops s d)\<lparr>io_nr_parents := io_nr_parents (in_ops s d) + 1\<rparr>) s;
     assert_that (io_nr_parents (in_ops s d) \<noteq> 0); Some s }) = Some (s\<lparr>in_ops := ops\<rparr>) \<and> ops_are n G (W(d := W d + 1)) st er (s\<lparr>in_ops := ops\<rparr>)"
proof -
  have e: "in_ops s d = \<lparr>io_deps = G d, io_error = er d, io_state = st d, io_nr_deps = of_nat (length (G d)), io_nr_parents = of_nat (W d)\<rparr>"
    using assms(1,2) by (simp add: ops_are_def)
  have nz: "(of_nat (Suc (W d)) :: u8) \<noteq> 0" using u8_zero [of "Suc (W d)"] assms(3) by (simp del: of_nat_Suc)
  then show ?thesis using assms(1) by (auto simp: set_op_def ops_are_def Let_def e add.commute)
qed

lemma bootstrap_deps:
  assumes "ops_are n G W st er s" "fst ` set ds \<subseteq> {..<n}" "\<And>d. d < n \<Longrightarrow> W d + count_list (map fst ds) d < 256"
  shows "\<exists>ops. for_all (\<lambda>(d, required) s. do { let s = set_op d ((in_ops s d)\<lparr>io_nr_parents := io_nr_parents (in_ops s d) + 1\<rparr>) s;
     assert_that (io_nr_parents (in_ops s d) \<noteq> 0); Some s }) ds s = Some (s\<lparr>in_ops := ops\<rparr>)
    \<and> ops_are n G (\<lambda>d. W d + count_list (map fst ds) d) st er (s\<lparr>in_ops := ops\<rparr>)"
  using assms
proof (induction ds arbitrary: W s)
  case Nil
  then show ?case by (intro exI [of _ "in_ops s"]) simp
next
  case (Cons dr ds)
  obtain d b where dr: "dr = (d, b)" by (cases dr)
  have d: "d < n" "W d < 255" using Cons.prems(2) Cons.prems(3) [of d] dr by auto
  obtain ops1 where 1: "(do { let s = set_op d ((in_ops s d)\<lparr>io_nr_parents := io_nr_parents (in_ops s d) + 1\<rparr>) s;
     assert_that (io_nr_parents (in_ops s d) \<noteq> 0); Some s }) = Some (s\<lparr>in_ops := ops1\<rparr>)" "ops_are n G (W(d := W d + 1)) st er (s\<lparr>in_ops := ops1\<rparr>)"
    using init_body [OF Cons.prems(1) d] by blast
  have lt: "(W(d := W d + 1)) x + count_list (map fst ds) x < 256" if "x < n" for x using Cons.prems(3) [OF that] dr by (auto split: if_splits)
  have fn: "fst ` set ds \<subseteq> {..<n}" using Cons.prems(2) by simp
  have W: "(\<lambda>x. (W(d := W d + 1)) x + count_list (map fst ds) x) = (\<lambda>x. W x + count_list (map fst (dr # ds)) x)" using dr by (auto simp: fun_eq_iff)
  show ?case using Cons.IH [OF 1(2) fn lt] 1(1) unfolding W dr for_all.simps by (simp add: Let_def)
qed

lemma visit_deps:
  assumes "ops_are n G W st er s" "fst ` set ds \<subseteq> {..<n}" "\<And>d. d < n \<Longrightarrow> W d < 256 \<and> count_list (map fst ds) d \<le> W d"
    "sl (in_stack_node s) (in_stack s) S" "\<And>d. d < n \<Longrightarrow> d \<in> set S \<Longrightarrow> W d = 0"
  shows "\<exists>ops h l T. for_all (\<lambda>(d, required) s. do {
     assert_that (io_nr_parents (in_ops s d) \<noteq> 0);
     let s = set_op d ((in_ops s d)\<lparr>io_nr_parents := io_nr_parents (in_ops s d) - 1\<rparr>) s;
     Some (if init_op_orphan d s then init_ops_stack_push d s else s) }) ds s = Some (s\<lparr>in_ops := ops, in_stack_node := h, in_stack := l\<rparr>)
    \<and> ops_are n G (\<lambda>d. W d - count_list (map fst ds) d) st er (s\<lparr>in_ops := ops, in_stack_node := h, in_stack := l\<rparr>)
    \<and> sl h l (T @ S) \<and> set T = {d. d < n \<and> W d \<noteq> 0 \<and> W d = count_list (map fst ds) d}"
  using assms
proof (induction ds arbitrary: W s S)
  case Nil
  then show ?case by (intro exI [of _ "in_ops s"] exI [of _ "in_stack_node s"] exI [of _ "in_stack s"] exI [of _ "[]"]) auto
next
  case (Cons dr ds)
  obtain d b where dr: "dr = (d, b)" by (cases dr)
  let ?f = "\<lambda>(d, required) s. do {
     assert_that (io_nr_parents (in_ops s d) \<noteq> 0);
     let s = set_op d ((in_ops s d)\<lparr>io_nr_parents := io_nr_parents (in_ops s d) - 1\<rparr>) s;
     Some (if init_op_orphan d s then init_ops_stack_push d s else s) }"
  have d: "d < n" "0 < W d" "W d < 256" using Cons.prems(2) Cons.prems(3) [of d] dr by auto
  have e: "in_ops s d = \<lparr>io_deps = G d, io_error = er d, io_state = st d, io_nr_deps = of_nat (length (G d)), io_nr_parents = of_nat (W d)\<rparr>"
    using Cons.prems(1) d(1) by (simp add: ops_are_def)
  have dS: "d \<notin> set S" using Cons.prems(5) [of d] d by auto
  define s1 where "s1 = set_op d ((in_ops s d)\<lparr>io_nr_parents := io_nr_parents (in_ops s d) - 1\<rparr>) s"
  let ?W = "W(d := W d - 1)"
  have s1: "ops_are n G ?W st er s1" "in_stack_node s1 = in_stack_node s" "in_stack s1 = in_stack s"
    using Cons.prems(1) d(2) by (auto simp: s1_def set_op_def ops_are_def e of_nat_diff)
  have orphan: "init_op_orphan d s1 \<longleftrightarrow> W d = 1"
    using d u8_zero [of "W d - 1"] by (auto simp: init_op_orphan_def s1_def set_op_def e of_nat_diff)
  obtain h1 l1 S1 where 2: "(if init_op_orphan d s1 then init_ops_stack_push d s1 else s1) = s1\<lparr>in_stack_node := h1, in_stack := l1\<rparr>"
    "sl h1 l1 S1" "S1 = (if W d = 1 then d # S else S)"
  proof (cases "W d = 1")
    case True
    obtain l' h' where "slist_insert_head (in_stack s1) d (in_stack_node s1) = (l', h')" "sl h' l' (d # S)"
      using sl_insert_head [of "in_stack_node s1" "in_stack s1" S d] Cons.prems(4) s1 dS by auto
    then show ?thesis using that [of l' h' "d # S"] True orphan by (simp add: init_ops_stack_push_def)
  next
    case False
    then show ?thesis using that [of "in_stack s1" "in_stack_node s1" S] orphan Cons.prems(4) s1 by simp
  qed
  let ?s2 = "s1\<lparr>in_stack_node := h1, in_stack := l1\<rparr>"
  have o2: "ops_are n G ?W st er ?s2" using s1(1) by (simp add: ops_are_def)
  have fn: "fst ` set ds \<subseteq> {..<n}" using Cons.prems(2) by simp
  have le: "?W x < 256 \<and> count_list (map fst ds) x \<le> ?W x" if "x < n" for x using Cons.prems(3) [OF that] dr d by (auto split: if_splits)
  have zero: "?W x = 0" if "x < n" "x \<in> set S1" for x using that Cons.prems(5) 2(3) by (auto split: if_splits)
  have sl2: "sl (in_stack_node ?s2) (in_stack ?s2) S1" using 2(2) by simp
  obtain ops h l T where 3: "for_all ?f ds ?s2 = Some (?s2\<lparr>in_ops := ops, in_stack_node := h, in_stack := l\<rparr>)"
    "ops_are n G (\<lambda>d. ?W d - count_list (map fst ds) d) st er (?s2\<lparr>in_ops := ops, in_stack_node := h, in_stack := l\<rparr>)"
    "sl h l (T @ S1)" "set T = {d. d < n \<and> ?W d \<noteq> 0 \<and> ?W d = count_list (map fst ds) d}"
    using Cons.IH [OF o2 fn le sl2 zero] by blast
  have run: "for_all ?f (dr # ds) s = Some (s\<lparr>in_ops := ops, in_stack_node := h, in_stack := l\<rparr>)"
  proof -
    have "io_nr_parents (in_ops s d) \<noteq> 0" using e u8_zero [OF d(3)] d(2) by simp
    then have "?f dr s = Some ?s2" using 2(1) unfolding dr s1_def by (simp add: Let_def)
    moreover have "?s2\<lparr>in_ops := ops, in_stack_node := h, in_stack := l\<rparr> = s\<lparr>in_ops := ops, in_stack_node := h, in_stack := l\<rparr>" by (simp add: s1_def set_op_def)
    ultimately show ?thesis using 3(1) by simp
  qed
  have W: "(\<lambda>x. ?W x - count_list (map fst ds) x) = (\<lambda>x. W x - count_list (map fst (dr # ds)) x)" using dr by (auto simp: fun_eq_iff)
  define T' where "T' = (if W d = 1 then T @ [d] else T)"
  have TS: "T @ S1 = T' @ S" using 2(3) by (simp add: T'_def)
  have "set T' = {x. x < n \<and> W x \<noteq> 0 \<and> W x = count_list (map fst (dr # ds)) x}"
  proof (rule set_eqI)
    fix x
    have c: "count_list (map fst ds) d \<le> W d - 1" using le [OF d(1)] by simp
    have T: "x \<in> set T' \<longleftrightarrow> x \<in> set T \<or> W d = 1 \<and> x = d" by (auto simp: T'_def)
    show "x \<in> set T' \<longleftrightarrow> x \<in> {x. x < n \<and> W x \<noteq> 0 \<and> W x = count_list (map fst (dr # ds)) x}"
    proof (cases "x = d")
      case True
      then show ?thesis unfolding T 3(4) using c d(1,2) by (simp add: dr) arith
    next
      case False
      then show ?thesis unfolding T 3(4) by (simp add: dr)
    qed
  qed
  moreover have "ops_are n G (\<lambda>x. W x - count_list (map fst (dr # ds)) x) st er (s\<lparr>in_ops := ops, in_stack_node := h, in_stack := l\<rparr>)"
    using 3(2) unfolding W by (simp add: ops_are_def)
  ultimately show ?case using run 3(3) unfolding TS by blast
qed

section \<open>Counting the parents\<close>

lemma edges_mono: "finite Y \<Longrightarrow> X \<subseteq> Y \<Longrightarrow> edges G X d \<le> edges G Y d"
  unfolding edges_def by (rule sum_mono2) auto

lemma edges_remove: "finite X \<Longrightarrow> x \<in> X \<Longrightarrow> edges G X d = edges G (X - {x}) d + count_list (needs G x) d"
  unfolding edges_def by (simp add: sum.remove [of X x])

lemma edges_0: "finite X \<Longrightarrow> edges G X d = 0 \<longleftrightarrow> (\<forall>x\<in>X. d \<notin> set (needs G x))"
  by (simp add: edges_def count_list_0_iff)

lemma ops_are_static: "ops_are n G W st er s \<Longrightarrow> x < n \<Longrightarrow> graph_ok n G
    \<Longrightarrow> io_deps (in_ops s x) = G x \<and> unat (io_nr_deps (in_ops s x)) = length (G x)"
  by (simp add: ops_are_def graph_ok_def unat_u8)

lemma op_init_eq:
  assumes "ops_are n G W st er s" "graph_ok n G" "x < n"
  shows "init_op_init x s = for_all (\<lambda>(d, required) s. do { let s = set_op d ((in_ops s d)\<lparr>io_nr_parents := io_nr_parents (in_ops s d) + 1\<rparr>) s;
     assert_that (io_nr_parents (in_ops s d) \<noteq> 0); Some s }) (G x) s"
  unfolding init_op_init_def using ops_are_static [OF assms(1,3,2)]
  by (intro for_each_dep_eq) (auto simp: set_op_def bind_eq_Some_conv Let_def)

lemma op_visit_eq:
  assumes "ops_are n G W st er s" "graph_ok n G" "x < n"
  shows "init_op_visit x s = for_all (\<lambda>(d, required) s. do {
     assert_that (io_nr_parents (in_ops s d) \<noteq> 0);
     let s = set_op d ((in_ops s d)\<lparr>io_nr_parents := io_nr_parents (in_ops s d) - 1\<rparr>) s;
     Some (if init_op_orphan d s then init_ops_stack_push d s else s) }) (G x) s"
  unfolding init_op_visit_def using ops_are_static [OF assms(1,3,2)]
  by (intro for_each_dep_eq) (auto simp: set_op_def init_ops_stack_push_def bind_eq_Some_conv Let_def split: prod.splits)

lemma fst_needs: "fst ` set (G x) = set (needs G x)" by (simp add: needs_def)

lemma bootstrap_upto:
  assumes "ops_are n G (\<lambda>_. 0) st er s" "graph_ok n G"
  shows "k \<le> n \<Longrightarrow> \<exists>ops. for_all init_op_init [0..<k] s = Some (s\<lparr>in_ops := ops\<rparr>) \<and> ops_are n G (edges G {..<k}) st er (s\<lparr>in_ops := ops\<rparr>)"
proof (induction k)
  case 0
  then show ?case using assms(1) by (intro exI [of _ "in_ops s"]) (simp add: edges_def)
next
  case (Suc k)
  obtain ops where 1: "for_all init_op_init [0..<k] s = Some (s\<lparr>in_ops := ops\<rparr>)" "ops_are n G (edges G {..<k}) st er (s\<lparr>in_ops := ops\<rparr>)"
    using Suc by auto
  have k: "k < n" using Suc.prems by simp
  have e: "edges G {..<k} d + count_list (needs G k) d = edges G {..<Suc k} d" for d
    by (simp add: edges_def)
  have lt: "edges G {..<k} d + count_list (needs G k) d < 256" if "d < n" for d
  proof -
    have "edges G {..<Suc k} d \<le> edges G {..<n} d" using Suc.prems by (intro edges_mono) auto
    also have "\<dots> < 256" using assms(2) that by (simp add: graph_ok_def)
    finally show ?thesis unfolding e .
  qed
  have "set (needs G k) \<subseteq> {..<n}" using assms(2) k by (simp add: graph_ok_def)
  then obtain ops' where "init_op_init k (s\<lparr>in_ops := ops\<rparr>) = Some (s\<lparr>in_ops := ops'\<rparr>)" "ops_are n G (edges G {..<Suc k}) st er (s\<lparr>in_ops := ops'\<rparr>)"
    using bootstrap_deps [OF 1(2), of "G k"] lt unfolding op_init_eq [OF 1(2) assms(2) k] e [symmetric] needs_def by auto
  moreover have "for_all init_op_init [0..<Suc k] s = Some (s\<lparr>in_ops := ops'\<rparr>)" using 1(1) calculation(1) by (simp add: for_all_append)
  ultimately show ?case by blast
qed

section \<open>Sorting\<close>

text \<open>The operations that have been sorted, the last one first: everything that depends on an operation was sorted before it.\<close>

fun topo :: "nat \<Rightarrow> init_graph \<Rightarrow> nat list \<Rightarrow> bool" where
  "topo n G [] \<longleftrightarrow> True"
| "topo n G (x # xs) \<longleftrightarrow> (\<forall>y<n. x \<in> set (needs G y) \<longrightarrow> y \<in> set xs) \<and> topo n G xs"

definition scan_inv :: "nat \<Rightarrow> init_graph \<Rightarrow> nat list \<Rightarrow> nat list \<Rightarrow> (nat \<Rightarrow> int) \<Rightarrow> 'w init_sys \<Rightarrow> bool" where
  "scan_inv n G P S er s \<longleftrightarrow> ops_are n G (edges G ({..<n} - set P)) (\<lambda>x. if x \<in> set P then INIT_OP_STATE_PENDING else INIT_OP_STATE_UNLINKED) er s
     \<and> sl (in_list_node s) (il_ops (in_pending s)) P \<and> il_size (in_pending s) = of_nat (length P)
     \<and> sl (in_stack_node s) (in_stack s) S \<and> distinct (P @ S) \<and> set (P @ S) \<subseteq> {..<n}
     \<and> (\<forall>d<n. edges G ({..<n} - set P) d = 0 \<longleftrightarrow> d \<in> set (P @ S)) \<and> topo n G P"

lemma add_pending_ok:
  assumes i: "ops_are n G W (\<lambda>x. if x \<in> set P then INIT_OP_STATE_PENDING else INIT_OP_STATE_UNLINKED) er s"
      "sl (in_list_node s) (il_ops (in_pending s)) P" "il_size (in_pending s) = of_nat (length P)" and x: "x < n" "x \<notin> set P"
  shows "\<exists>s1. init_add_pending_op x s = Some s1 \<and> ops_are n G W (\<lambda>y. if y \<in> set (x # P) then INIT_OP_STATE_PENDING else INIT_OP_STATE_UNLINKED) er s1
    \<and> sl (in_list_node s1) (il_ops (in_pending s1)) (x # P) \<and> il_size (in_pending s1) = of_nat (length (x # P))
    \<and> in_stack_node s1 = in_stack_node s \<and> in_stack s1 = in_stack s \<and> in_world s1 = in_world s \<and> in_calls s1 = in_calls s"
proof -
  have st: "io_state (in_ops s x) = INIT_OP_STATE_UNLINKED" using i x by (simp add: ops_are_def)
  let ?s = "set_op x ((in_ops s x)\<lparr>io_state := INIT_OP_STATE_PENDING\<rparr>) s"
  obtain l h where "slist_insert_head (il_ops (in_pending s)) x (in_list_node s) = (l, h)" "sl h l (x # P)"
    using sl_insert_head [of "in_list_node s" "il_ops (in_pending s)" P x] i x(2) by blast
  moreover have "ops_are n G W (\<lambda>y. if y \<in> set (x # P) then INIT_OP_STATE_PENDING else INIT_OP_STATE_UNLINKED) er ?s"
    using i by (auto simp: ops_are_def set_op_def)
  ultimately show ?thesis using st i
    by (simp add: init_add_pending_op_def init_op_pending_def init_op_set_pending_def init_ops_list_push_def ops_are_def set_op_def
      INIT_OP_STATE_PENDING_def INIT_OP_STATE_UNLINKED_def add.commute)
qed

lemma scan_step:
  assumes inv: "scan_inv n G P (x # S) er s" and g: "graph_ok n G"
  shows "\<exists>s0 s1 s2 T. init_ops_stack_pop s = Some (Some x, s0) \<and> init_add_pending_op x s0 = Some s1 \<and> init_op_visit x s1 = Some s2
    \<and> scan_inv n G (x # P) (T @ S) er s2 \<and> in_world s2 = in_world s \<and> in_calls s2 = in_calls s"
proof -
  note i = inv [unfolded scan_inv_def]
  have x: "x < n" "x \<notin> set P" "x \<notin> set S" "edges G ({..<n} - set P) x = 0" using i by auto
  let ?R = "{..<n} - set P"
  obtain l where l: "slist_remove (in_stack s) None (in_stack_node s) = Some (l, in_stack_node s)" "sl (in_stack_node s) l S"
    using sl_remove_first [of "in_stack_node s" "in_stack s" x S] i by blast
  let ?s0 = "s\<lparr>in_stack := l\<rparr>"
  have pop: "init_ops_stack_pop s = Some (Some x, ?s0)"
    using l(1) sl_empty [of "in_stack_node s" "in_stack s" "x # S"] sl_first [of "in_stack_node s" "in_stack s" "x # S"] i
    by (simp add: init_ops_stack_pop_def)
  obtain s1 where s1: "init_add_pending_op x ?s0 = Some s1" "ops_are n G (edges G ?R) (\<lambda>y. if y \<in> set (x # P) then INIT_OP_STATE_PENDING else INIT_OP_STATE_UNLINKED) er s1"
    "sl (in_list_node s1) (il_ops (in_pending s1)) (x # P)" "il_size (in_pending s1) = of_nat (length (x # P))"
    "in_stack_node s1 = in_stack_node s" "in_stack s1 = l" "in_world s1 = in_world s" "in_calls s1 = in_calls s"
    using add_pending_ok [of n G "edges G ?R" P er ?s0 x] i x(1,2) by (auto simp: ops_are_def)
  have le: "edges G ?R d < 256 \<and> count_list (map fst (G x)) d \<le> edges G ?R d" if "d < n" for d
  proof
    have "edges G ?R d \<le> edges G {..<n} d" by (rule edges_mono) auto
    then show "edges G ?R d < 256" using g that by (force simp: graph_ok_def)
    show "count_list (map fst (G x)) d \<le> edges G ?R d" using edges_remove [of ?R x G d] x by (simp add: needs_def)
  qed
  have zero: "edges G ?R d = 0" if "d < n" "d \<in> set S" for d using i that by auto
  have fn: "fst ` set (G x) \<subseteq> {..<n}" using g x(1) by (simp add: graph_ok_def fst_needs)
  have slS: "sl (in_stack_node s1) (in_stack s1) S" using l(2) s1(5,6) by simp
  obtain ops h k T where v: "init_op_visit x s1 = Some (s1\<lparr>in_ops := ops, in_stack_node := h, in_stack := k\<rparr>)"
    "ops_are n G (\<lambda>d. edges G ?R d - count_list (map fst (G x)) d) (\<lambda>y. if y \<in> set (x # P) then INIT_OP_STATE_PENDING else INIT_OP_STATE_UNLINKED) er
       (s1\<lparr>in_ops := ops, in_stack_node := h, in_stack := k\<rparr>)"
    "sl h k (T @ S)" "set T = {d. d < n \<and> edges G ?R d \<noteq> 0 \<and> edges G ?R d = count_list (map fst (G x)) d}"
    using visit_deps [OF s1(2) fn le slS zero] unfolding op_visit_eq [OF s1(2) g x(1)] by blast
  have W: "edges G ?R d - count_list (map fst (G x)) d = edges G ({..<n} - set (x # P)) d" for d
  proof -
    have "?R - {x} = {..<n} - set (x # P)" by auto
    then show ?thesis using edges_remove [of ?R x G d] x by (simp add: needs_def)
  qed
  have z: "edges G ({..<n} - set (x # P)) d = 0 \<longleftrightarrow> d \<in> set ((x # P) @ T @ S)" if "d < n" for d
  proof -
    have "edges G ({..<n} - set (x # P)) d = 0 \<longleftrightarrow> edges G ?R d = 0 \<or> d \<in> set T"
      using that le [OF that] unfolding W [symmetric] by (auto simp: v(4))
    moreover have "edges G ?R d = 0 \<longleftrightarrow> d \<in> set (P @ x # S)" using i that by blast
    ultimately show ?thesis by auto
  qed
  have dist: "distinct ((x # P) @ T @ S)"
  proof -
    have "distinct (T @ S)" using v(3) by (simp add: sl_def)
    moreover have "set T \<inter> set (x # P @ S) = {}" using i unfolding v(4) by auto
    ultimately show ?thesis using i by auto
  qed
  have "topo n G (x # P)" using i x edges_0 [of ?R G x] by auto
  then have "scan_inv n G (x # P) (T @ S) er (s1\<lparr>in_ops := ops, in_stack_node := h, in_stack := k\<rparr>)"
    unfolding scan_inv_def using v(2,3) s1(3,4) z dist i unfolding W by (auto simp: v(4))
  then show ?thesis using pop s1(1,7,8) v(1)
    by (intro exI [of _ ?s0] exI [of _ s1] exI [of _ "s1\<lparr>in_ops := ops, in_stack_node := h, in_stack := k\<rparr>"] exI [of _ T]) simp
qed

lemma scan_length: "scan_inv n G P S er s \<Longrightarrow> length P \<le> n"
  using card_mono [of "{..<n}" "set P"] distinct_card [of P] by (auto simp: scan_inv_def)

lemma scan_loop_ok:
  assumes "scan_inv n G P S er s" "graph_ok n G"
  shows "\<exists>s' P'. init_scan_loop s = Some s' \<and> scan_inv n G P' [] er s' \<and> in_world s' = in_world s \<and> in_calls s' = in_calls s"
  using assms
proof (induction "n - length P" arbitrary: P S s rule: less_induct)
  case less
  show ?case
  proof (cases S)
    case Nil
    have "slist_empty (in_stack s)" using less.prems(1) sl_empty Nil by (fastforce simp: scan_inv_def)
    then have "init_scan_loop s = Some s" by (subst init_scan_loop.simps) (simp add: init_ops_stack_pop_def)
    then show ?thesis using less.prems(1) Nil by blast
  next
    case (Cons x S')
    obtain s0 s1 s2 T where st: "init_ops_stack_pop s = Some (Some x, s0)" "init_add_pending_op x s0 = Some s1" "init_op_visit x s1 = Some s2"
      "scan_inv n G (x # P) (T @ S') er s2" "in_world s2 = in_world s" "in_calls s2 = in_calls s"
      using scan_step [OF less.prems(1) [unfolded Cons] less.prems(2)] by blast
    have "n - length (x # P) < n - length P" using scan_length [OF st(4)] by simp
    from less.hyps [OF this st(4) less.prems(2)] obtain s' P' where
      "init_scan_loop s2 = Some s'" "scan_inv n G P' [] er s'" "in_world s' = in_world s2" "in_calls s' = in_calls s2" by blast
    moreover have "init_scan_loop s = init_scan_loop s2" by (subst init_scan_loop.simps) (simp add: st(1-3))
    ultimately show ?thesis using st(5,6) by auto
  qed
qed

lemma roots_upto:
  assumes "ops_are n G W st er s" "\<And>d. d < n \<Longrightarrow> W d < 256"
  shows "k \<le> n \<Longrightarrow> \<exists>h l S. fold (\<lambda>x s. if init_op_orphan x s then init_ops_stack_push x s else s) [0..<k] (s\<lparr>in_stack := slist_init\<rparr>)
      = s\<lparr>in_stack_node := h, in_stack := l\<rparr> \<and> sl h l S \<and> set S = {d. d < k \<and> W d = 0}"
proof (induction k)
  case 0
  then show ?case using sl_init by (intro exI [of _ "in_stack_node s"] exI [of _ slist_init] exI [of _ "[]"]) simp
next
  case (Suc k)
  obtain h l S where 1: "fold (\<lambda>x s. if init_op_orphan x s then init_ops_stack_push x s else s) [0..<k] (s\<lparr>in_stack := slist_init\<rparr>)
      = s\<lparr>in_stack_node := h, in_stack := l\<rparr>" "sl h l S" "set S = {d. d < k \<and> W d = 0}" using Suc by auto
  have o: "init_op_orphan k (s\<lparr>in_stack_node := h, in_stack := l\<rparr>) \<longleftrightarrow> W k = 0"
    using assms(1) assms(2) [of k] Suc.prems u8_zero by (simp add: init_op_orphan_def ops_are_def)
  show ?case
  proof (cases "W k = 0")
    case True
    obtain l' h' where "slist_insert_head l k h = (l', h')" "sl h' l' (k # S)" using sl_insert_head [OF 1(2), of k] 1(3) by auto
    moreover have "set (k # S) = {d. d < Suc k \<and> W d = 0}" using True 1(3) by (auto simp: less_Suc_eq)
    ultimately show ?thesis using True 1(1) o
      by (intro exI [of _ h'] exI [of _ l'] exI [of _ "k # S"]) (simp add: init_ops_stack_push_def)
  next
    case False
    have "d < k \<and> W d = 0 \<longleftrightarrow> d < Suc k \<and> W d = 0" for d using False by (cases "d = k") auto
    then have "set S = {d. d < Suc k \<and> W d = 0}" unfolding 1(3) by (rule Collect_cong)
    then show ?thesis using False 1(1,2) o by (intro exI [of _ h] exI [of _ l] exI [of _ S]) simp
  qed
qed

section \<open>Cycles\<close>

lemma topo_split: "topo n G (us @ x # vs) \<Longrightarrow> y < n \<Longrightarrow> x \<in> set (needs G y) \<Longrightarrow> y \<in> set vs"
  by (induction us) auto

lemma topo_after:
  assumes "(y, x) \<in> (dep_rel n G)\<^sup>+" "topo n G P" "P = us @ x # vs"
  shows "y \<in> set vs"
  using assms(1)
proof (induction rule: converse_trancl_induct)
  case (base y)
  then show ?case using topo_split [of n G us x vs y] assms(2,3) by (simp add: dep_rel_def)
next
  case (step y z)
  then obtain ws ws' where "vs = ws @ z # ws'" by (meson in_set_conv_decomp)
  then have "topo n G ((us @ x # ws) @ z # ws')" using assms(2,3) by simp
  then have "y \<in> set ws'" using topo_split [of n G "us @ x # ws" z ws' y] step(1) by (simp add: dep_rel_def)
  then show ?case using \<open>vs = ws @ z # ws'\<close> by simp
qed

lemma topo_acyclic:
  assumes "topo n G P" "distinct P" "set P = {..<n}" "graph_ok n G"
  shows "acyclic (dep_rel n G)"
proof (rule acyclicI, rule allI, rule notI)
  fix x assume x: "(x, x) \<in> (dep_rel n G)\<^sup>+"
  then have "x \<in> set P" using assms(3) by (auto simp: dep_rel_def dest: tranclD)
  then obtain us vs where "P = us @ x # vs" by (meson in_set_conv_decomp)
  then show False using topo_after [OF x assms(1)] assms(2) by auto
qed

lemma stuck_cyclic:
  assumes "scan_inv n G P [] er s" "graph_ok n G" "acyclic (dep_rel n G)"
  shows "set P = {..<n}"
proof (rule ccontr)
  assume ne: "set P \<noteq> {..<n}"
  let ?R = "{..<n} - set P"
  have fin: "finite (dep_rel n G)"
    by (rule finite_subset [of _ "{..<n} \<times> {..<n}"]) (use assms(2) in \<open>auto simp: dep_rel_def graph_ok_def\<close>)
  have "wf (dep_rel n G)" using finite_acyclic_wf [OF fin assms(3)] .
  moreover have "\<exists>x. x \<in> ?R" using ne assms(1) by (auto simp: scan_inv_def)
  ultimately obtain z where z: "z \<in> ?R" "\<And>y. (y, z) \<in> dep_rel n G \<Longrightarrow> y \<notin> ?R" by (metis wfE_min)
  then have "edges G ?R z = 0" using edges_0 [of ?R G z] by (auto simp: dep_rel_def)
  then show False using assms(1) z(1) by (auto simp: scan_inv_def)
qed

end
