(* ===== verification/Init_Props.thy ===== *)
theory Init_Props
  imports Init_Sort
begin

text \<open>
  Running the operations in the order of the sort, and the initialization as a whole: when the dependencies have no
  cycle every operation completes after those it depends on, and its function is called exactly when the ones it requires
  have succeeded; otherwise the processor is halted before any function is called.
\<close>

section \<open>Running\<close>

definition required_ok :: "init_graph \<Rightarrow> (nat \<Rightarrow> int) \<Rightarrow> nat \<Rightarrow> bool" where
  "required_ok G er x \<longleftrightarrow> (\<forall>(d, required)\<in>set (G x). required \<longrightarrow> er d = 0)"

text \<open>The functions called one after the other: what they return, and the system they leave.\<close>

fun call_all :: "(nat \<Rightarrow> 'w \<Rightarrow> int \<times> 'w) \<Rightarrow> nat list \<Rightarrow> 'w \<Rightarrow> int list \<times> 'w" where
  "call_all fn [] w = ([], w)"
| "call_all fn (x # xs) w = (let (error, w) = fn x w; (errors, w) = call_all fn xs w in (error # errors, w))"

lemma call_all_snoc: "call_all fn (xs @ [x]) w = (let (errors, w) = call_all fn xs w; (error, w) = fn x w in (errors @ [error], w))"
  by (induction xs arbitrary: w) (auto simp: Let_def split: prod.splits)

definition deps_first :: "init_graph \<Rightarrow> nat list \<Rightarrow> bool" where
  "deps_first G xs \<longleftrightarrow> (\<forall>us x vs. xs = us @ x # vs \<longrightarrow> set (needs G x) \<inter> set xs \<subseteq> set us)"

lemma deps_first_snoc:
  assumes "deps_first G xs" "\<forall>y\<in>set xs. x \<notin> set (needs G y)" "x \<notin> set (needs G x)"
  shows "deps_first G (xs @ [x])"
  unfolding deps_first_def
proof (intro allI impI)
  fix us y vs assume e: "xs @ [x] = us @ y # vs"
  show "set (needs G y) \<inter> set (xs @ [x]) \<subseteq> set us"
  proof (cases vs rule: rev_cases)
    case Nil
    then show ?thesis using e assms(3) by auto
  next
    case (snoc vs' z)
    then have "xs = us @ y # vs'" using e by simp
    then show ?thesis using assms(1,2) by (fastforce simp: deps_first_def)
  qed
qed

lemma ready_from_eq:
  assumes "\<And>d. d \<in> fst ` set (G x) \<Longrightarrow> init_op_complete d s \<and> io_error (in_ops s d) = er d"
    "io_deps (in_ops s x) = G x" "unat (io_nr_deps (in_ops s x)) = length (G x)"
  shows "init_op_ready x s = Some (required_ok G er x)"
proof -
  have "G x = pre @ post \<Longrightarrow> init_ready_from x [length pre..<length pre + length post] s = Some (\<forall>(d, required)\<in>set post. required \<longrightarrow> er d = 0)" for pre post
  proof (induction post arbitrary: pre)
    case (Cons dr post)
    obtain d b where dr: "dr = (d, b)" by (cases dr)
    have g: "init_op_get_dep x (length pre) s = Some (d, b)" using Cons.prems assms(2,3) dr by (simp add: init_op_get_dep_def nth_append)
    have u: "[length pre..<length pre + length (dr # post)] = length pre # [length (pre @ [dr])..<length (pre @ [dr]) + length post]"
      by (simp add: upt_rec)
    have c: "init_op_complete d s" "io_error (in_ops s d) = er d" using assms(1) [of d] Cons.prems dr by force+
    show ?case unfolding u using Cons.IH [of "pre @ [dr]"] Cons.prems g c dr by simp
  qed simp
  from this [of "[]" "G x"] show ?thesis by (simp add: init_op_ready_def required_ok_def assms(3))
qed

definition run_inv :: "nat \<Rightarrow> init_graph \<Rightarrow> (nat \<Rightarrow> 'w \<Rightarrow> int \<times> 'w) \<Rightarrow> 'w \<Rightarrow> nat list \<Rightarrow> nat list \<Rightarrow> 'w init_sys \<Rightarrow> bool" where
  "run_inv n G fn w0 D Q s \<longleftrightarrow> distinct (D @ Q) \<and> set (D @ Q) = {..<n} \<and> topo n G (D @ Q)
     \<and> sl (in_list_node s) (il_ops (in_pending s)) Q \<and> il_size (in_pending s) = of_nat (length Q)
     \<and> distinct (in_calls s) \<and> set (in_calls s) \<subseteq> set D \<and> deps_first G (in_calls s)
     \<and> (\<exists>W er. ops_are n G W (\<lambda>x. if x \<in> set Q then INIT_OP_STATE_PENDING else INIT_OP_STATE_COMPLETE) er s
          \<and> call_all fn (in_calls s) w0 = (map er (in_calls s), in_world s)
          \<and> (\<forall>x\<in>set D. x \<in> set (in_calls s) \<longleftrightarrow> required_ok G er x)
          \<and> (\<forall>x<n. x \<notin> set (in_calls s) \<longrightarrow> er x = errno_code EAGAIN))"

text \<open>What an operation depends on comes before it in the order of the run.\<close>

lemma deps_done:
  assumes "topo n G (D @ x # Q)" "set (D @ x # Q) = {..<n}" "distinct (D @ x # Q)" "graph_ok n G"
  shows "set (needs G x) \<subseteq> set D" "y \<in> set D \<Longrightarrow> x \<notin> set (needs G y)" "x \<notin> set (needs G x)"
proof -
  have x: "x < n" using assms(2) by auto
  show D: "set (needs G x) \<subseteq> set D"
  proof
    fix d assume d: "d \<in> set (needs G x)"
    then have "d \<in> set (D @ x # Q)" using assms(2,4) x by (auto simp: graph_ok_def)
    then consider "d \<in> set D" | "d \<in> set (x # Q)" by auto
    then show "d \<in> set D"
    proof cases
      case 2
      then obtain us vs where s: "x # Q = us @ d # vs" by (meson in_set_conv_decomp)
      then have "topo n G ((D @ us) @ d # vs)" using assms(1) by simp
      then have "x \<in> set vs" using topo_split x d by blast
      then show ?thesis using s assms(3) by (cases us) auto
    qed
  qed
  show "x \<notin> set (needs G y)" if "y \<in> set D" for y
    using topo_split [OF assms(1), of y] that assms(2,3) by auto
  show "x \<notin> set (needs G x)" using D assms(3) by auto
qed

lemma run_step:
  assumes inv: "run_inv n G fn w0 D (x # Q) s" and g: "graph_ok n G"
  shows "\<exists>s0 s1. init_ops_list_pop s = Some (Some x, s0) \<and> init_op_run fn x s0 = Some s1 \<and> run_inv n G fn w0 (D @ [x]) Q s1"
proof -
  note i = inv [unfolded run_inv_def]
  have n64: "n < 2 ^ 64" using g by (simp add: graph_ok_def)
  have x: "x < n" "x \<notin> set D" "x \<notin> set Q" "x \<notin> set (in_calls s)" using i by auto
  have "card (set (D @ x # Q)) = length (D @ x # Q)" using i distinct_card by blast
  then have len: "length (D @ x # Q) = n" using i by simp
  have sz: "il_size (in_pending s) \<noteq> 0"
  proof
    assume "il_size (in_pending s) = 0"
    then have "unat (of_nat (length (x # Q)) :: u64) = 0" using i by simp
    then show False using len n64 by (simp add: unat_of_nat del: of_nat_Suc)
  qed
  obtain l where l: "slist_remove (il_ops (in_pending s)) None (in_list_node s) = Some (l, in_list_node s)" "sl (in_list_node s) l Q"
    using sl_remove_first [of "in_list_node s" "il_ops (in_pending s)" x Q] i by blast
  define s0 where "s0 = s\<lparr>in_pending := \<lparr>il_ops = l, il_size = il_size (in_pending s) - 1\<rparr>\<rparr>"
  have pop: "init_ops_list_pop s = Some (Some x, s0)"
    using l(1) sz sl_first [of "in_list_node s" "il_ops (in_pending s)" "x # Q"] i by (simp add: init_ops_list_pop_def s0_def)
  obtain W er where o: "ops_are n G W (\<lambda>y. if y \<in> set (x # Q) then INIT_OP_STATE_PENDING else INIT_OP_STATE_COMPLETE) er s"
    "call_all fn (in_calls s) w0 = (map er (in_calls s), in_world s)" "\<forall>y\<in>set D. y \<in> set (in_calls s) \<longleftrightarrow> required_ok G er y"
    "\<forall>y<n. y \<notin> set (in_calls s) \<longrightarrow> er y = errno_code EAGAIN"
    using i by blast
  have dd: "set (needs G x) \<subseteq> set D" "\<And>y. y \<in> set D \<Longrightarrow> x \<notin> set (needs G y)" "x \<notin> set (needs G x)" using deps_done [OF _ _ _ g] i by metis+
  have o0: "ops_are n G W (\<lambda>y. if y \<in> set (x # Q) then INIT_OP_STATE_PENDING else INIT_OP_STATE_COMPLETE) er s0" using o(1) by (simp add: ops_are_def s0_def)
  have ready: "init_op_ready x s0 = Some (required_ok G er x)"
  proof (rule ready_from_eq)
    show "init_op_complete d s0 \<and> io_error (in_ops s0 d) = er d" if "d \<in> fst ` set (G x)" for d
    proof -
      have "d \<in> set D" using that dd(1) by (simp add: fst_needs subset_iff)
      then have "d < n" "d \<notin> set (x # Q)" using i by auto
      then show ?thesis using o0 by (simp add: ops_are_def init_op_complete_def)
    qed
  qed (use ops_are_static [OF o0 x(1) g] in auto)
  define s1 where "s1 = (if required_ok G er x then init_op_call fn x s0 else s0)"
  obtain e w where e: "fn x (in_world s) = (e, w)" by (cases "fn x (in_world s)")
  define er' where "er' = (if required_ok G er x then er(x := e) else er)"
  have o1: "ops_are n G W (\<lambda>y. if y \<in> set (x # Q) then INIT_OP_STATE_PENDING else INIT_OP_STATE_COMPLETE) er' s1"
    using o0 e by (auto simp: ops_are_def s1_def er'_def init_op_call_def set_op_def s0_def)
  define s2 where "s2 = set_op x ((in_ops s1 x)\<lparr>io_state := INIT_OP_STATE_COMPLETE\<rparr>) s1"
  have o2: "ops_are n G W (\<lambda>y. if y \<in> set Q then INIT_OP_STATE_PENDING else INIT_OP_STATE_COMPLETE) er' s2"
    using o1 x(3) by (auto simp: ops_are_def s2_def set_op_def)
  have run: "init_op_run fn x s0 = Some s2"
    using ready o1 x(1) by (simp add: init_op_run_def init_op_set_complete_def init_op_pending_def ops_are_def s1_def [symmetric] s2_def)
  have rest: "in_pending s2 = in_pending s0" "in_list_node s2 = in_list_node s0"
    "in_calls s2 = (if required_ok G er x then in_calls s @ [x] else in_calls s)" "in_world s2 = (if required_ok G er x then w else in_world s)"
    using e by (auto simp: s2_def s1_def init_op_call_def set_op_def s0_def)
  have same: "required_ok G er' y \<longleftrightarrow> required_ok G er y" if "y \<in> set (D @ [x])" for y
  proof -
    have "x \<notin> fst ` set (G y)" using that dd(2,3) by (auto simp: fst_needs)
    then have "er' d = er d" if "(d, b) \<in> set (G y)" for d b using that by (force simp: er'_def)
    then show ?thesis by (fastforce simp: required_ok_def)
  qed
  have "map er' (in_calls s) = map er (in_calls s)" using x(4) by (auto simp: er'_def)
  then have "call_all fn (in_calls s2) w0 = (map er' (in_calls s2), in_world s2)"
    using o(2) e by (auto simp: rest call_all_snoc er'_def)
  moreover have "\<forall>y\<in>set (D @ [x]). y \<in> set (in_calls s2) \<longleftrightarrow> required_ok G er' y"
    using o(3) x(2,4) same by (auto simp: rest)
  moreover have "\<forall>y<n. y \<notin> set (in_calls s2) \<longrightarrow> er' y = errno_code EAGAIN"
    using o(4) by (auto simp: rest er'_def)
  moreover have "deps_first G (in_calls s2)" using deps_first_snoc [of G "in_calls s" x] i dd(2,3) by (auto simp: rest)
  moreover have "sl (in_list_node s2) (il_ops (in_pending s2)) Q \<and> il_size (in_pending s2) = of_nat (length Q)"
    using l(2) i by (simp add: rest s0_def)
  moreover have "distinct (in_calls s2)" "set (in_calls s2) \<subseteq> set (D @ [x])" using i x(4) by (auto simp: rest)
  moreover have "distinct ((D @ [x]) @ Q)" "set ((D @ [x]) @ Q) = {..<n}" "topo n G ((D @ [x]) @ Q)" using i by auto
  ultimately have "run_inv n G fn w0 (D @ [x]) Q s2" unfolding run_inv_def using o2 by blast
  then show ?thesis using pop run by blast
qed

lemma run_ops_ok:
  assumes "run_inv n G fn w0 D Q s" "graph_ok n G"
  shows "\<exists>s'. init_run_ops fn s = Some s' \<and> run_inv n G fn w0 (D @ Q) [] s'"
  using assms
proof (induction Q arbitrary: D s)
  case Nil
  then have "il_size (in_pending s) = 0" by (simp add: run_inv_def)
  then show ?case using Nil by (subst init_run_ops.simps) (simp add: init_ops_list_pop_def)
next
  case (Cons x Q)
  obtain s0 s1 where "init_ops_list_pop s = Some (Some x, s0)" "init_op_run fn x s0 = Some s1" and r: "run_inv n G fn w0 (D @ [x]) Q s1"
    using run_step [OF Cons.prems] by blast
  then have "init_run_ops fn s = init_run_ops fn s1" by (subst init_run_ops.simps) simp
  then show ?case using Cons.IH [OF r Cons.prems(2)] by simp
qed

section \<open>The initialization\<close>

lemma scan_ops_ok:
  assumes s: "ops_are n G (edges G {..<n}) (\<lambda>_. INIT_OP_STATE_UNLINKED) er s" "in_pending s = init_ops_list_init" and g: "graph_ok n G"
  shows "\<exists>s' P. init_scan_ops n s = Some (if acyclic (dep_rel n G) then Initialized s' else Halted s') \<and> scan_inv n G P [] er s'
    \<and> (acyclic (dep_rel n G) \<longrightarrow> set P = {..<n}) \<and> in_world s' = in_world s \<and> in_calls s' = in_calls s"
proof -
  obtain h l S where r: "init_scan_roots n s = s\<lparr>in_stack_node := h, in_stack := l\<rparr>" "sl h l S" "set S = {d. d < n \<and> edges G {..<n} d = 0}"
    using roots_upto [OF s(1), of n] g by (auto simp: init_scan_roots_def graph_ok_def)
  have "scan_inv n G [] S er (s\<lparr>in_stack_node := h, in_stack := l\<rparr>)"
  proof -
    have "distinct S" using r(2) by (simp add: sl_def)
    moreover have "sl (in_list_node s) (il_ops (in_pending s)) []" using s(2) sl_init by (simp add: init_ops_list_init_def)
    moreover have "il_size (in_pending s) = 0" using s(2) by (simp add: init_ops_list_init_def)
    moreover have "ops_are n G (edges G {..<n}) (\<lambda>_. INIT_OP_STATE_UNLINKED) er (s\<lparr>in_stack_node := h, in_stack := l\<rparr>)" using s(1) by (simp add: ops_are_def)
    moreover have "set S \<subseteq> {..<n}" "\<forall>d<n. edges G {..<n} d = 0 \<longleftrightarrow> d \<in> set S" using r(3) by auto
    ultimately show ?thesis using r(2) by (simp add: scan_inv_def)
  qed
  from scan_loop_ok [OF this g] obtain s' P where l': "init_scan_loop (init_scan_roots n s) = Some s'" "scan_inv n G P [] er s'"
    "in_world s' = in_world s" "in_calls s' = in_calls s" unfolding r(1) by auto
  have P: "distinct P" "set P \<subseteq> {..<n}" "topo n G P" "il_size (in_pending s') = of_nat (length P)" using l'(2) by (auto simp: scan_inv_def)
  have lt: "length P \<le> n" "n < 2 ^ 64" using scan_length [OF l'(2)] g by (simp_all add: graph_ok_def)
  have "init_ops_list_size (in_pending s') = of_nat n \<longleftrightarrow> length P = n"
  proof -
    have "unat (of_nat (length P) :: u64) = length P" "unat (of_nat n :: u64) = n" using lt by (simp_all add: unat_of_nat)
    then have "(of_nat (length P) :: u64) = of_nat n \<longleftrightarrow> length P = n" by metis
    then show ?thesis using P(4) by (simp only: init_ops_list_size_def)
  qed
  also have "\<dots> \<longleftrightarrow> set P = {..<n}"
    using P(1,2) distinct_card [OF P(1)] card_subset_eq [of "{..<n}" "set P"] by auto
  also have "\<dots> \<longleftrightarrow> acyclic (dep_rel n G)" using stuck_cyclic [OF l'(2) g] topo_acyclic [OF P(3,1) _ g] by blast
  finally have e: "init_ops_list_size (in_pending s') = of_nat n \<longleftrightarrow> acyclic (dep_rel n G)" .
  have "acyclic (dep_rel n G) \<longrightarrow> set P = {..<n}" using stuck_cyclic [OF l'(2) g] by blast
  then show ?thesis using l' e by (intro exI [of _ s'] exI [of _ P]) (simp add: init_scan_ops_def)
qed

text \<open>
  C4: Initializing the kernel returns. When no operation depends on itself, every operation completes; its function is called at most once,
  after those of the operations it depends on, and exactly when the operations it requires succeeded; the errors are those the
  functions returned, or EAGAIN for the operations that were not called. When operations depend on each other, the processor is
  halted before any function is called.
\<close>
theorem init_setup_correct:
  assumes "graph_ok n G" "\<forall>x<n. in_ops s x = INIT_OP_DEFINE (G x)" "in_calls s = []"
  shows "\<exists>s'. (if acyclic (dep_rel n G)
    then init_setup fn n s = Some (Initialized s') \<and> (\<forall>x<n. init_op_complete x s')
      \<and> distinct (in_calls s') \<and> deps_first G (in_calls s')
      \<and> (\<forall>x<n. x \<in> set (in_calls s') \<longleftrightarrow> required_ok G (\<lambda>d. io_error (in_ops s' d)) x)
      \<and> (\<forall>x<n. x \<notin> set (in_calls s') \<longrightarrow> io_error (in_ops s' x) = errno_code EAGAIN)
      \<and> call_all fn (in_calls s') (in_world s) = (map (\<lambda>x. io_error (in_ops s' x)) (in_calls s'), in_world s')
    else init_setup fn n s = Some (Halted s') \<and> in_calls s' = [] \<and> in_world s' = in_world s)"
proof -
  let ?er = "\<lambda>_::nat. errno_code EAGAIN"
  define s0 where "s0 = s\<lparr>in_pending := init_ops_list_init\<rparr>"
  have "ops_are n G (\<lambda>_. 0) (\<lambda>_. INIT_OP_STATE_UNLINKED) ?er s0" using assms(2) by (simp add: ops_are_def INIT_OP_DEFINE_def s0_def)
  from bootstrap_upto [OF this assms(1), of n] obtain ops where b: "init_bootstrap n s0 = Some (s0\<lparr>in_ops := ops\<rparr>)"
    "ops_are n G (edges G {..<n}) (\<lambda>_. INIT_OP_STATE_UNLINKED) ?er (s0\<lparr>in_ops := ops\<rparr>)" by (auto simp: init_bootstrap_def)
  have pend: "in_pending (s0\<lparr>in_ops := ops\<rparr>) = init_ops_list_init" by (simp add: s0_def)
  obtain s1 P where 1: "init_scan_ops n (s0\<lparr>in_ops := ops\<rparr>) = Some (if acyclic (dep_rel n G) then Initialized s1 else Halted s1)" "scan_inv n G P [] ?er s1"
    "acyclic (dep_rel n G) \<longrightarrow> set P = {..<n}" "in_world s1 = in_world s" "in_calls s1 = []"
    using scan_ops_ok [OF b(2) pend assms(1)] assms(3) by (auto simp: s0_def)
  show ?thesis
  proof (cases "acyclic (dep_rel n G)")
    case False
    then show ?thesis using b(1) 1 by (intro exI [of _ s1]) (simp add: init_setup_def s0_def)
  next
    case True
    have P: "set P = {..<n}" using 1(3) True by simp
    have o1: "ops_are n G (edges G ({..<n} - set P)) (\<lambda>x. if x \<in> set P then INIT_OP_STATE_PENDING else INIT_OP_STATE_COMPLETE) ?er s1"
      using 1(2) P by (simp add: scan_inv_def ops_are_def)
    then have "run_inv n G fn (in_world s) [] P s1" using 1(2,4,5) P
      unfolding run_inv_def by (auto simp: scan_inv_def deps_first_def)
    from run_ops_ok [OF this assms(1)] obtain s' where s': "init_run_ops fn s1 = Some s'" "run_inv n G fn (in_world s) P [] s'" by auto
    then obtain W er where w: "ops_are n G W (\<lambda>x. INIT_OP_STATE_COMPLETE) er s'" "call_all fn (in_calls s') (in_world s) = (map er (in_calls s'), in_world s')"
      "\<forall>x\<in>set P. x \<in> set (in_calls s') \<longleftrightarrow> required_ok G er x" "\<forall>x<n. x \<notin> set (in_calls s') \<longrightarrow> er x = errno_code EAGAIN" by (auto simp: run_inv_def)
    have er: "io_error (in_ops s' x) = er x" if "x < n" for x using w(1) that by (simp add: ops_are_def)
    have calls: "set (in_calls s') \<subseteq> {..<n}" "distinct (in_calls s')" "deps_first G (in_calls s')" using s'(2) P by (auto simp: run_inv_def)
    have "required_ok G (\<lambda>d. io_error (in_ops s' d)) x \<longleftrightarrow> required_ok G er x" if "x < n" for x
    proof -
      have "d < n" if "(d, b) \<in> set (G x)" for d b
        using assms(1) \<open>x < n\<close> that by (force simp: graph_ok_def needs_def)
      then show ?thesis using er by (fastforce simp: required_ok_def)
    qed
    moreover have "map (\<lambda>x. io_error (in_ops s' x)) (in_calls s') = map er (in_calls s')" using er calls(1) by (intro map_cong) auto
    moreover have "\<forall>x<n. init_op_complete x s'" using w(1) by (simp add: ops_are_def init_op_complete_def)
    moreover have "init_setup fn n s = Some (Initialized s')" using b(1) 1(1) True s'(1) by (simp add: init_setup_def s0_def)
    ultimately show ?thesis using True w(2-4) P calls(2,3) er by (intro exI [of _ s']) simp
  qed
qed

text \<open>Three modules: the first requires the second and depends on the third, which fails.\<close>

definition graph0 :: init_graph where
  "graph0 x = (if x = 0 then [(1, True), (2, False)] else if x = 1 then [(2, False)] else [])"

definition start0 :: "nat init_sys" where
  "start0 = \<lparr>in_ops = \<lambda>x. INIT_OP_DEFINE (graph0 x), in_list_node = \<lambda>_. None, in_stack_node = \<lambda>_. None,
     in_pending = init_ops_list_init, in_stack = slist_init, in_world = 0, in_calls = []\<rparr>"

lemma graph0_ok: "graph_ok 3 graph0"
proof -
  have "{..<3} = {0, 1, 2 :: nat}" by auto
  moreover have "x < 3 \<longleftrightarrow> x = 0 \<or> x = 1 \<or> x = 2" for x :: nat by auto
  ultimately show ?thesis
    unfolding graph_ok_def by (simp add: needs_def edges_def graph0_def)
qed

lemma graph0_acyclic: "acyclic (dep_rel 3 graph0)"
proof (rule wf_acyclic, rule wf_subset)
  show "wf less_than" by simp
  have "map fst (graph0 x) = (if x = 0 then [1, 2] else if x = 1 then [2] else [])" for x by (simp add: graph0_def)
  then show "dep_rel 3 graph0 \<subseteq> less_than" by (auto simp: dep_rel_def needs_def split: if_splits)
qed

theorem init_setup_correct_witness:
  "\<exists>s'. init_setup (\<lambda>x w. (if x = 2 then errno_code EIO else 0, w + 1)) 3 start0 = Some (Initialized s') \<and> init_op_complete 0 s'
    \<and> deps_first graph0 (in_calls s')"
  using init_setup_correct [OF graph0_ok, of start0 "\<lambda>x w. (if x = 2 then errno_code EIO else 0, w + 1)"] graph0_acyclic
  by (auto simp: start0_def)

end
