(* ===== verification/Spec2Isabelle.thy ===== *)
theory Spec2Isabelle
  imports Bitmap Cbuf Vm_page_Props Fmt_Props Klist Sched_Props Spinlock_Props Init_Props
begin

text \<open>
  A verification development for X15, a microkernel written in C. Each theory translates a part of
  the source and proves what makes it correct; this theory imports them all. Paths are relative to
  \<^verbatim>\<open>src/\<close>.

  \<^bold>\<open>How the code is modelled.\<close> A structure is a record with the members of the source, an
  integer that wraps is a machine word (the other ones are \<^typ>\<open>nat\<close>, with their bounds proved where an operation
  depends on them), a C function is a HOL function of the same name that
  takes the state and returns it updated. \<^const>\<open>None\<close> is a stop of the kernel: a failed
  \<^verbatim>\<open>assert\<close>, a call of \<^verbatim>\<open>panic\<close>, a null pointer or an access outside an
  object; an error number is a returned value. So a theorem that a result is \<^const>\<open>Some\<close> also says
  that no assertion fails. Recursion is structural, or has a termination proof; the loops
  that may not end (a string without its null byte, a ring of groups) are partial functions with value
  \<^const>\<open>None\<close> for a run without end, and the theorems show that they return.

  \<^bold>\<open>Parts.\<close>

  \<^item> \<^verbatim>\<open>Prelude\<close>: the C types, the error numbers, checked array accesses, and lemmas on
  option-valued programs, lists and words. Its locale \<open>refinement\<close> is the contract of a component whose calls may be
  permitted in some states only (\<open>run_permitted\<close>); the circular buffers interpret it.

  \<^item> \<^verbatim>\<open>Arith\<close> (\<^verbatim>\<open>kern/macros.h\<close>, \<^verbatim>\<open>log2.h\<close>, \<^verbatim>\<open>hash.h\<close>):
  rounding to powers of two, logarithms, hashes.

  \<^item> \<^verbatim>\<open>Cstring\<close> (\<^verbatim>\<open>kern/string.c\<close>): the memory and string routines over a flat
  byte memory whose addresses wrap. Overlapping moves, truncating copies, comparison.

  \<^item> \<^verbatim>\<open>Bitmap\<close> (\<^verbatim>\<open>kern/bitmap.h\<close>, \<^verbatim>\<open>bitmap_i.h\<close>,
  \<^verbatim>\<open>bitmap.c\<close>): arrays of words as sets of bits; the word-wise search is equivalent to a scan of the bits.

  \<^item> \<^verbatim>\<open>Cbuf\<close> (\<^verbatim>\<open>kern/cbuf.c\<close>), on \<^verbatim>\<open>Cstring\<close>: the circular byte buffer refines
  a bounded queue of bytes, the absolute indexes wrap around.

  \<^item> \<^verbatim>\<open>Klist\<close> (\<^verbatim>\<open>kern/list.h\<close>): doubly-linked lists in a store of links, their
  representation by sequences, every operation as the list function it implements, and the readers
  that walk a list without a lock while it is updated.

  \<^item> \<^verbatim>\<open>Buddy\<close>, \<^verbatim>\<open>Vm_page\<close> and \<^verbatim>\<open>Vm_page_*\<close>
  (\<^verbatim>\<open>vm/vm_page.h\<close>, \<^verbatim>\<open>vm_page.c\<close>): the physical page allocator. \<^verbatim>\<open>Buddy\<close> is
  the abstract buddy system, a set of free blocks; \<^verbatim>\<open>Vm_page\<close> the data and the operations of the code;
  \<^verbatim>\<open>Vm_page_Zone\<close> the refinement, and its contract as a locale (\<open>block_allocator\<close> in
  \<^verbatim>\<open>Vm_page_Pool\<close>), which is interpreted for a zone, for a zone with the pools of its
  processors and for the whole module (\<^verbatim>\<open>Vm_page_Module\<close>), so that what follows from
  the contract for a sequence of requests holds at the three levels. \<^verbatim>\<open>Vm_page_Setup\<close> shows that booting
  establishes the invariant.

  \<^item> \<^verbatim>\<open>Fmt\<close> and \<^verbatim>\<open>Fmt_*\<close> (\<^verbatim>\<open>kern/fmt.c\<close>), on
  \<^verbatim>\<open>Cstring\<close>: formatted output and input. \<^verbatim>\<open>Fmt_Print\<close> and \<^verbatim>\<open>Fmt_Scan\<close> are the two state
  machines of the code; \<^verbatim>\<open>Fmt_Text\<close> and \<^verbatim>\<open>Fmt_Directive\<close> describe the text of a
  conversion on its own, and \<^verbatim>\<open>Fmt_Correct\<close> and \<^verbatim>\<open>Fmt_Scan_Correct\<close> relate the two.

  \<^item> \<^verbatim>\<open>Sched\<close> and \<^verbatim>\<open>Sched_*\<close> (\<^verbatim>\<open>kern/thread.h\<close>,
  \<^verbatim>\<open>thread_i.h\<close>, \<^verbatim>\<open>thread.c\<close>), on \<^verbatim>\<open>Klist\<close>: the scheduler. The
  model is in \<^verbatim>\<open>Sched\<close> (data), \<^verbatim>\<open>Sched_Class\<close> (the real-time, fair-scheduling and idle
  classes), \<^verbatim>\<open>Sched_Runq\<close> (run queues, yielding, sleeping, waking up, the periodic event, parameters,
  balancing) and \<^verbatim>\<open>Sched_Boot\<close> (creation of threads and start). The other theories are proofs, in the order of their
  imports: one fair-scheduling queue (\<^verbatim>\<open>Sched_Order\<close>, \<^verbatim>\<open>Queue\<close>,
  \<^verbatim>\<open>Fs\<close>), the invariant of the run queues and of the system (\<^verbatim>\<open>Inv\<close>, \<^verbatim>\<open>State\<close>, \<^verbatim>\<open>Add\<close>), one theory per
  operation on a run queue (\<^verbatim>\<open>Rt\<close>, \<^verbatim>\<open>Run\<close>, \<^verbatim>\<open>Move\<close>,
  \<^verbatim>\<open>Remove\<close>, \<^verbatim>\<open>Put\<close>, \<^verbatim>\<open>Next\<close>), what a processor does (\<^verbatim>\<open>Step\<close>, \<^verbatim>\<open>Tick\<close>,
  \<^verbatim>\<open>Wakeup\<close>), what every operation leaves alone (\<^verbatim>\<open>Frame\<close>, \<^verbatim>\<open>Flags\<close>, \<^verbatim>\<open>Members\<close>),
  parameters and start (\<^verbatim>\<open>Param\<close>, \<^verbatim>\<open>Init\<close>, \<^verbatim>\<open>Start\<close>, \<^verbatim>\<open>Requeue\<close>,
  \<^verbatim>\<open>Change\<close>, \<^verbatim>\<open>Create\<close>), the balancing of threads between processors (\<^verbatim>\<open>Pull\<close>,
  \<^verbatim>\<open>Balance\<close>, \<^verbatim>\<open>System\<close>), the states that are reachable by any sequence of allowed operations
  (\<^verbatim>\<open>Reach\<close>), and a concrete system for the witnesses (\<^verbatim>\<open>Example\<close>).

  \<^item> \<^verbatim>\<open>Spinlock\<close> (\<^verbatim>\<open>kern/spinlock.c\<close>, \<^verbatim>\<open>spinlock_i.h\<close>): the spin locks, as a step
  relation in which every access to the shared memory is a step and the processors interleave. \<^verbatim>\<open>Spinlock_Inv\<close> is the invariant and its preservation
  by each access, \<^verbatim>\<open>Spinlock_Props\<close> the refinement of a lock with a queue, mutual exclusion and the progress of the first waiting
  context. The memory is sequentially consistent in the model; the orderings the code asks for are not.

  \<^item> \<^verbatim>\<open>Slist\<close> (\<^verbatim>\<open>kern/slist.h\<close>): singly-linked lists in a store of next pointers, every operation as the
  list function it implements. The lockless variants are left out.

  \<^item> \<^verbatim>\<open>Init\<close> (\<^verbatim>\<open>kern/init.h\<close>, \<^verbatim>\<open>init.c\<close>), on \<^verbatim>\<open>Slist\<close>: the initialization of the
  kernel. \<^verbatim>\<open>Init_Sort\<close> shows that the sort gives an order of the operations that follows their dependencies, or finds
  a cycle; \<^verbatim>\<open>Init_Props\<close> that each operation is run after those it depends on, and only if those it requires succeeded. The functions
  of the modules are a parameter.

  \<^bold>\<open>Bounds.\<close> Addresses and sizes have 64 bits, \<^verbatim>\<open>int\<close> 32. The scheduler is that of
  \<^verbatim>\<open>CONFIG_MAX_CPUS\<close> = 128 processors and a clock of 200 Hz; it has at most \<open>MAX_THREADS\<close> = 5 million threads, so
  that the weights and the products of the load computation fit their integers. 

  \<^bold>\<open>Steps of the scheduler.\<close> A step is a whole section under the lock of a run queue, and the invariant is
  stated between steps. \<^verbatim>\<open>thread_wakeup_common\<close> is two of them, \<open>wakeup_begin\<close> under the lock of the old run
  queue and \<open>wakeup_end\<close> under that of the new one, which other operations may separate; creating a thread, which wakes up a
  thread that no other one knows yet, is one step. A balancing attempt is
  one step although it releases the locks of the run queues in between. The preemption level of a thread is that
  of the code that calls the scheduler, without the interlock that \<^verbatim>\<open>thread_sleep\<close> releases: \<^verbatim>\<open>thread_yield\<close> does nothing unless it is zero, and what the scheduler's
  own sections add to it and take back is left out. \<open>op_allowed\<close> (\<^verbatim>\<open>Sched_Reach\<close>) lists what the callers owe:
  preemption enabled where the code asserts it before a thread sleeps, exits or balances, parameters that go together, a thread
  that is not the balancer or the idler of a processor, a new thread built in memory that is not in use. The
  assertions on interrupts and on the locks themselves are of the machine layer. It also excludes two defects of the code: a
  thread to place whose map names no managed processor (\<^verbatim>\<open>cpumap.c:80\<close>), and a periodic event at which a fair-scheduling
  thread has used up its round and that no call to the scheduler follows at once, as happens when preemption is disabled
  (\<^verbatim>\<open>thread.c:953\<close>).

  \<^bold>\<open>Not modelled.\<close> The configuration programs of \<^verbatim>\<open>tools/\<close>, which are not part of the kernel and are
  third-party code, and the tests. The assembly code and the drivers of \<^verbatim>\<open>arch/x86\<close>: their effect is on devices and on
  processor state that the sources do not define. Of \<^verbatim>\<open>kern/thread.c\<close>: stacks, thread-specific data, joining and what
  \<^verbatim>\<open>thread_exit\<close> does for it, the
  terminal command and the boot barrier, which belong to the machine layer and to components not modelled. The manifest lists
  the other components of the kernel.
\<close>

end
